(* ===== verification/Prelude.thy ===== *)
theory Prelude
  imports Main "HOL-Library.Monad_Syntax" "HOL-Library.Option_ord"
begin

text \<open>
  What the component theories share: the comparison results of the standard library, and
  generic facts about lists (last elements, chunks, half splits) and about the option monad,
  in which \<^term>\<open>None\<close> stands for a panic of the program.

  A computation of the program that may panic has type \<open>'a option\<close>: \<open>Some v\<close> is the normal
  return of \<open>v\<close>, \<open>None\<close> is a panic (a failed assertion, an index out of bounds, an
  \<^verbatim>\<open>unwrap\<close> of an absent value, a full fixed-capacity vector) or, for loops declared with
  \<^theory_text>\<open>partial_function\<close>, a run that does not end. Theorems conclude \<open>= Some v\<close>, so that they
  exclude both.
\<close>

section \<open>Three-way comparison\<close>

text \<open>\<^verbatim>\<open>std::cmp::Ordering\<close> and \<^verbatim>\<open>Ord::cmp\<close> on a totally ordered type.\<close>

datatype ordering = Less | Equal | Greater

definition ord_cmp :: "'a::linorder \<Rightarrow> 'a \<Rightarrow> ordering" where
  "ord_cmp x y = (if x < y then Less else if x = y then Equal else Greater)"

lemma ord_cmp_simps [simp]:
  "ord_cmp x y = Less \<longleftrightarrow> x < y"
  "ord_cmp x y = Equal \<longleftrightarrow> x = y"
  "ord_cmp x y = Greater \<longleftrightarrow> y < x"
  by (auto simp: ord_cmp_def)

section \<open>Panics\<close>

text \<open>An assertion of the source: the rest runs only when the condition holds.\<close>

definition assert_that :: "bool \<Rightarrow> unit option" where
  "assert_that b = (if b then Some () else None)"

lemma assert_that_simps [simp]:
  "assert_that True = Some ()"
  "assert_that False = None"
  "assert_that b = Some u \<longleftrightarrow> b"
  "assert_that b = None \<longleftrightarrow> \<not> b"
  by (simp_all add: assert_that_def)

text \<open>\<^verbatim>\<open>*xs.last_mut().unwrap() = x\<close> and \<^verbatim>\<open>*xs.first_mut().unwrap() = x\<close>.\<close>

definition set_last :: "'a list \<Rightarrow> 'a \<Rightarrow> 'a list option" where
  "set_last xs x = (if xs = [] then None else Some (butlast xs @ [x]))"

definition set_first :: "'a list \<Rightarrow> 'a \<Rightarrow> 'a list option" where
  "set_first xs x = (case xs of [] \<Rightarrow> None | _ # ys \<Rightarrow> Some (x # ys))"

lemma set_last_snoc [simp]: "set_last (xs @ [y]) x = Some (xs @ [x])"
  by (simp add: set_last_def)

lemma set_first_Cons [simp]: "set_first (y # xs) x = Some (x # xs)"
  by (simp add: set_first_def)

text \<open>\<^verbatim>\<open>xs.last()\<close>, \<^verbatim>\<open>xs.first()\<close> and \<^verbatim>\<open>xs.get(i)\<close>.\<close>

definition last_opt :: "'a list \<Rightarrow> 'a option" where
  "last_opt xs = (if xs = [] then None else Some (last xs))"

definition first_opt :: "'a list \<Rightarrow> 'a option" where
  "first_opt xs = (case xs of [] \<Rightarrow> None | x # _ \<Rightarrow> Some x)"

definition get_opt :: "'a list \<Rightarrow> nat \<Rightarrow> 'a option" where
  "get_opt xs i = (if i < length xs then Some (xs ! i) else None)"

lemma last_opt_simps [simp]:
  "last_opt [] = None"
  "last_opt (xs @ [x]) = Some x"
  "xs \<noteq> [] \<Longrightarrow> last_opt xs = Some (last xs)"
  by (simp_all add: last_opt_def)

lemma last_opt_append [simp]:
  "ys \<noteq> [] \<Longrightarrow> last_opt (xs @ ys) = last_opt ys"
  by (simp add: last_opt_def)

lemma first_opt_simps [simp]:
  "first_opt [] = None"
  "first_opt (x # xs) = Some x"
  by (simp_all add: first_opt_def)

lemma first_opt_append_case: "first_opt (xs @ ys) = (case first_opt xs of None \<Rightarrow> first_opt ys | Some x \<Rightarrow> Some x)"
  by (cases xs) simp_all

text \<open>The last element that satisfies a predicate, searched from the end.\<close>

lemma find_rev_last: "find P (rev xs) = last_opt (filter P xs)"
  by (induction xs rule: rev_induct) simp_all

lemma first_opt_append [simp]:
  "xs \<noteq> [] \<Longrightarrow> first_opt (xs @ ys) = first_opt xs"
  by (cases xs) simp_all

lemma get_opt_simps [simp]:
  "i < length xs \<Longrightarrow> get_opt xs i = Some (xs ! i)"
  "\<not> i < length xs \<Longrightarrow> get_opt xs i = None"
  by (simp_all add: get_opt_def)

section \<open>Sizes of list elements, for termination\<close>

lemma size_last_less [termination_simp]:
  "xs \<noteq> [] \<Longrightarrow> size (last xs) < Suc (n + size_list size xs)"
  by (simp add: less_Suc_eq_le trans_le_add2 size_list_estimation' [OF last_in_set order_refl])

lemma size_hd_less [termination_simp]:
  "xs \<noteq> [] \<Longrightarrow> size (hd xs) < Suc (n + size_list size xs)"
  by (simp add: less_Suc_eq_le trans_le_add2 size_list_estimation' [OF hd_in_set order_refl])

lemma size_nth_less [termination_simp]:
  "i < length xs \<Longrightarrow> size (xs ! i) < Suc (n + size_list size xs)"
  by (simp add: less_Suc_eq_le trans_le_add2 size_list_estimation' [OF nth_mem order_refl])

section \<open>Concatenations\<close>

lemma concat_eq_Nil_all [simp]:
  "(\<forall>x \<in> set xs. f x \<noteq> []) \<Longrightarrow> concat (map f xs) = [] \<longleftrightarrow> xs = []"
  by (cases xs) auto

lemma concat_map_butlast_last:
  "xs \<noteq> [] \<Longrightarrow> concat (map f xs) = concat (map f (butlast xs)) @ f (last xs)"
  by (induction xs) auto

lemma last_opt_concat:
  "xs \<noteq> [] \<Longrightarrow> f (last xs) \<noteq> [] \<Longrightarrow> last_opt (concat (map f xs)) = last_opt (f (last xs))"
  by (simp add: concat_map_butlast_last)

section \<open>Chunks\<close>

text \<open>The list cut into pieces of \<open>n\<close> elements, the last one perhaps shorter.\<close>

function chunks :: "nat \<Rightarrow> 'a list \<Rightarrow> 'a list list" where
  "chunks n xs = (if n = 0 \<or> xs = [] then [] else take n xs # chunks n (drop n xs))"
  by pat_completeness auto
termination
  by (relation "measure (\<lambda>(n, xs). length xs)") auto

declare chunks.simps [simp del]

lemma chunks_Nil [simp]: "chunks n [] = []"
  by (simp add: chunks.simps)

lemma chunks_step: "0 < n \<Longrightarrow> xs \<noteq> [] \<Longrightarrow> chunks n xs = take n xs # chunks n (drop n xs)"
  by (simp add: chunks.simps)

lemma chunks_full_append: "0 < n \<Longrightarrow> length xs = n \<Longrightarrow> chunks n (xs @ ys) = xs # chunks n ys"
  by (subst chunks_step) auto

lemma chunks_short: "xs \<noteq> [] \<Longrightarrow> length xs \<le> n \<Longrightarrow> chunks n xs = [xs]"
  using chunks_step [of n xs] by (cases xs) auto

lemma concat_chunks: "0 < n \<Longrightarrow> concat (chunks n xs) = xs"
proof (induction n xs rule: chunks.induct)
  case (1 n xs)
  then show ?case by (cases "xs = []") (simp_all add: chunks_step)
qed

lemma chunks_elem: "ys \<in> set (chunks n xs) \<Longrightarrow> ys \<noteq> [] \<and> length ys \<le> n \<and> set ys \<subseteq> set xs"
proof (induction n xs rule: chunks.induct)
  case (1 n xs)
  then show ?case
    by (cases "n = 0 \<or> xs = []") (auto simp: chunks.simps [of n xs] dest: in_set_takeD in_set_dropD)
qed

lemma chunks_eq_Nil [simp]: "0 < n \<Longrightarrow> chunks n xs = [] \<longleftrightarrow> xs = []"
  by (simp add: chunks.simps)

lemma length_chunks_less: "1 < n \<Longrightarrow> 1 < length xs \<Longrightarrow> length (chunks n xs) < length xs"
proof (induction n xs rule: chunks.induct)
  case (1 n xs)
  have eq: "chunks n xs = take n xs # chunks n (drop n xs)" using "1.prems" by (intro chunks_step) auto
  consider "length xs \<le> n" | "length (drop n xs) = 1" | "1 < length (drop n xs)"
    using "1.prems" by fastforce
  then show ?case
  proof cases
    case 2
    then have "length (chunks n (drop n xs)) \<le> 1" using "1.prems" chunks_short [of "drop n xs" n] by fastforce
    then show ?thesis using eq "1.prems" 2 by simp
  next
    case 3
    then show ?thesis using eq "1.IH" "1.prems" by fastforce
  qed (use eq "1.prems" in auto)
qed

lemma those_map_Some [simp]: "those (map (\<lambda>x. Some (f x)) xs) = Some (map f xs)"
  by (induction xs) auto

lemma those_map_cong: "(\<And>x. x \<in> set xs \<Longrightarrow> f x = Some (g x)) \<Longrightarrow> those (map f xs) = Some (map g xs)"
  by (induction xs) auto

text \<open>\<^verbatim>\<open>&xs[range]\<close>.\<close>

definition slice_opt :: "'a list \<Rightarrow> nat \<times> nat \<Rightarrow> 'a list option" where
  "slice_opt xs rng = (if fst rng \<le> snd rng \<and> snd rng \<le> length xs then Some (take (snd rng - fst rng) (drop (fst rng) xs)) else None)"

section \<open>Sorting with a comparison function\<close>

text \<open>\<^verbatim>\<open>slice::sort_by\<close>, a stable sort.\<close>

fun insort_by :: "('a \<Rightarrow> 'a \<Rightarrow> ordering) \<Rightarrow> 'a \<Rightarrow> 'a list \<Rightarrow> 'a list" where
  "insort_by cmp x [] = [x]"
| "insort_by cmp x (y # ys) = (if cmp x y = Greater then y # insort_by cmp x ys else x # y # ys)"

definition sort_by :: "('a \<Rightarrow> 'a \<Rightarrow> ordering) \<Rightarrow> 'a list \<Rightarrow> 'a list" where
  "sort_by cmp xs = foldr (insort_by cmp) xs []"

lemma set_insort_by [simp]: "set (insort_by cmp x ys) = insert x (set ys)"
  by (induction ys) auto

lemma set_sort_by [simp]: "set (sort_by cmp xs) = set xs"
  by (induction xs) (simp_all add: sort_by_def)

lemma length_insort_by [simp]: "length (insort_by cmp x ys) = Suc (length ys)"
  by (induction ys) auto

lemma length_sort_by [simp]: "length (sort_by cmp xs) = length xs"
  by (induction xs) (simp_all add: sort_by_def)

text \<open>A comparison that is total and transitive on what is sorted gives a sorted list.\<close>

lemma sorted_insort_by:
  assumes "sorted_wrt R ys" "\<And>y. y \<in> set ys \<Longrightarrow> if cmp x y = Greater then R y x else R x y"
    "\<And>a b c. R a b \<Longrightarrow> R b c \<Longrightarrow> R a c"
  shows "sorted_wrt R (insort_by cmp x ys)"
  using assms(1,2)
proof (induction ys)
  case (Cons y ys)
  show ?case
  proof (cases "cmp x y = Greater")
    case True
    then have "R y x" using Cons.prems(2) [of y] by simp
    then show ?thesis using True Cons by auto
  next
    case False
    then have "R x y" using Cons.prems(2) [of y] by simp
    moreover have "\<forall>z \<in> set ys. R y z" using Cons.prems(1) by simp
    ultimately have "\<forall>z \<in> set ys. R x z" using assms(3) by blast
    then show ?thesis using False \<open>R x y\<close> Cons.prems(1) by simp
  qed
qed simp

lemma sorted_sort_by:
  assumes "distinct xs" "\<And>x y. x \<in> set xs \<Longrightarrow> y \<in> set xs \<Longrightarrow> x \<noteq> y \<Longrightarrow> if cmp x y = Greater then R y x else R x y"
    "\<And>a b c. R a b \<Longrightarrow> R b c \<Longrightarrow> R a c"
  shows "sorted_wrt R (sort_by cmp xs)"
  using assms(1,2)
proof (induction xs)
  case (Cons x xs)
  then have "sorted_wrt R (sort_by cmp xs)" by simp
  moreover have "if cmp x y = Greater then R y x else R x y" if "y \<in> set (sort_by cmp xs)" for y
    using that Cons.prems(1) by (intro Cons.prems(2)) auto
  ultimately have "sorted_wrt R (insort_by cmp x (sort_by cmp xs))"
    by (rule sorted_insort_by) (assumption | fact assms(3))+
  then show ?case by (simp add: sort_by_def)
qed (simp add: sort_by_def)

end
