(* ===== verification/SumTree.thy ===== *)
theory SumTree
  imports Prelude
begin

text \<open>
  The B+ tree of \<^verbatim>\<open>crates/sum_tree/src/sum_tree.rs\<close>: the node type, construction, appending
  and in-place updates of the first and last item.

  The traits \<^verbatim>\<open>Item\<close> and \<^verbatim>\<open>Summary\<close> are a record of their operations (at a fixed context
  \<^verbatim>\<open>cx\<close>), passed to every function as the compiler passes the implementation. The
  fixed-capacity vectors of a node are lists; where the code pushes to, extends or collects
  into one, \<open>unwrap_oob\<close> panics on more than \<open>2 * TREE_BASE\<close> elements. The height of a node
  (a \<^verbatim>\<open>u8\<close>) is a \<^typ>\<open>nat\<close>. \<^verbatim>\<open>debug_assert!\<close> is an assertion.
\<close>

section \<open>Data\<close>

definition TREE_BASE :: nat where
  "TREE_BASE = 6"

record ('a, 's) item_trait =
  item_summary :: "'a \<Rightarrow> 's"
  summary_zero :: 's
  add_summary :: "'s \<Rightarrow> 's \<Rightarrow> 's"

record ('s, 'd) dimension =
  dim_zero :: 'd
  dim_add :: "'d \<Rightarrow> 's \<Rightarrow> 'd"

datatype bias = Left | Right

definition invert :: "bias \<Rightarrow> bias" where
  "invert b = (case b of Left \<Rightarrow> Right | Right \<Rightarrow> Left)"

datatype ('a, 's) node =
    Internal nat 's "'s list" "('a, 's) node list"
  | Leaf 's "'a list" "'s list"

definition unwrap_oob :: "'x list \<Rightarrow> 'x list option" where
  "unwrap_oob xs = (if length xs \<le> 2 * TREE_BASE then Some xs else None)"

section \<open>Accessors\<close>

fun is_leaf :: "('a, 's) node \<Rightarrow> bool" where
  "is_leaf (Leaf _ _ _) = True"
| "is_leaf (Internal _ _ _ _) = False"

fun node_height :: "('a, 's) node \<Rightarrow> nat" where
  "node_height (Internal h _ _ _) = h"
| "node_height (Leaf _ _ _) = 0"

fun node_summary :: "('a, 's) node \<Rightarrow> 's" where
  "node_summary (Internal _ s _ _) = s"
| "node_summary (Leaf s _ _) = s"

fun child_summaries :: "('a, 's) node \<Rightarrow> 's list" where
  "child_summaries (Internal _ _ ss _) = ss"
| "child_summaries (Leaf _ _ ss) = ss"

fun child_trees :: "('a, 's) node \<Rightarrow> ('a, 's) node list option" where
  "child_trees (Internal _ _ _ ts) = Some ts"
| "child_trees (Leaf _ _ _) = None"

fun node_items :: "('a, 's) node \<Rightarrow> 'a list option" where
  "node_items (Leaf _ xs _) = Some xs"
| "node_items (Internal _ _ _ _) = None"

fun is_underflowing :: "('a, 's) node \<Rightarrow> bool" where
  "is_underflowing (Internal _ _ _ ts) = (length ts < TREE_BASE)"
| "is_underflowing (Leaf _ xs _) = (length xs < TREE_BASE)"

fun is_empty_tree :: "('a, 's) node \<Rightarrow> bool" where
  "is_empty_tree (Internal _ _ _ _) = False"
| "is_empty_tree (Leaf _ xs _) = (xs = [])"

definition extent :: "('s, 'd) dimension \<Rightarrow> ('a, 's) node \<Rightarrow> 'd" where
  "extent M t = dim_add M (dim_zero M) (node_summary t)"

fun leftmost_leaf :: "('a, 's) node \<Rightarrow> ('a, 's) node option" where
  "leftmost_leaf (Leaf s xs ss) = Some (Leaf s xs ss)"
| "leftmost_leaf (Internal h s ss ts) = (if ts = [] then None else leftmost_leaf (hd ts))"

fun rightmost_leaf :: "('a, 's) node \<Rightarrow> ('a, 's) node option" where
  "rightmost_leaf (Leaf s xs ss) = Some (Leaf s xs ss)"
| "rightmost_leaf (Internal h s ss ts) = (if ts = [] then None else rightmost_leaf (last ts))"

definition first_item :: "('a, 's) node \<Rightarrow> 'a option option" where
  "first_item t = do { l \<leftarrow> leftmost_leaf t; xs \<leftarrow> node_items l; Some (first_opt xs) }"

definition last_item :: "('a, 's) node \<Rightarrow> 'a option option" where
  "last_item t = do { l \<leftarrow> rightmost_leaf t; xs \<leftarrow> node_items l; Some (last_opt xs) }"

definition last_summary :: "('a, 's) node \<Rightarrow> 's option option" where
  "last_summary t = do { l \<leftarrow> rightmost_leaf t; Some (last_opt (child_summaries l)) }"

section \<open>Summaries\<close>

definition sum_of :: "('a, 's) item_trait \<Rightarrow> 's list \<Rightarrow> 's" where
  "sum_of D ss = foldl (add_summary D) (summary_zero D) ss"

text \<open>\<^verbatim>\<open>let mut summary = xs[0].clone(); for s in &xs[1..] { add_summary }\<close>\<close>

definition sum_from_first :: "('a, 's) item_trait \<Rightarrow> 's list \<Rightarrow> 's option" where
  "sum_from_first D ss = (case ss of [] \<Rightarrow> None | s # rest \<Rightarrow> Some (foldl (add_summary D) s rest))"

section \<open>Joining trees\<close>

definition new_tree :: "('a, 's) item_trait \<Rightarrow> ('a, 's) node" where
  "new_tree D = Leaf (summary_zero D) [] []"

definition from_summary :: "'s \<Rightarrow> ('a, 's) node" where
  "from_summary s = Leaf s [] []"

definition from_child_trees ::
    "('a, 's) item_trait \<Rightarrow> ('a, 's) node \<Rightarrow> ('a, 's) node \<Rightarrow> ('a, 's) node option" where
  "from_child_trees D l r = do {
     ss \<leftarrow> unwrap_oob [node_summary l, node_summary r];
     ts \<leftarrow> unwrap_oob [l, r];
     Some (Internal (node_height l + 1) (sum_of D ss) ss ts) }"

text \<open>
  The second half of \<^verbatim>\<open>push_tree_recursive\<close> on an internal node: the children to append are added
  to the node's own, which is split in two when there is no room for them.
\<close>

definition append_children ::
    "('a, 's) item_trait \<Rightarrow> nat \<Rightarrow> 's \<Rightarrow> 's list \<Rightarrow> ('a, 's) node list \<Rightarrow> 's list \<Rightarrow> ('a, 's) node list
      \<Rightarrow> (('a, 's) node \<times> ('a, 's) node option) option" where
  "append_children D h s ss ts summaries_to_append trees_to_append = do {
     let child_count = length ts + length trees_to_append;
     (if child_count > 2 * TREE_BASE then do {
        let midpoint = (child_count + child_count mod 2) div 2;
        let all_summaries = ss @ summaries_to_append;
        left_summaries \<leftarrow> unwrap_oob (take midpoint all_summaries);
        right_summaries \<leftarrow> unwrap_oob (drop midpoint all_summaries);
        let all_trees = ts @ trees_to_append;
        left_trees \<leftarrow> unwrap_oob (take midpoint all_trees);
        right_trees \<leftarrow> unwrap_oob (drop midpoint all_trees);
        Some (Internal h (sum_of D left_summaries) left_summaries left_trees,
              Some (Internal h (sum_of D right_summaries) right_summaries right_trees)) }
      else do {
        ss' \<leftarrow> unwrap_oob (ss @ summaries_to_append);
        ts' \<leftarrow> unwrap_oob (ts @ trees_to_append);
        Some (Internal h s ss' ts', None) }) }"

fun push_tree_recursive ::
    "('a, 's) item_trait \<Rightarrow> ('a, 's) node \<Rightarrow> ('a, 's) node
      \<Rightarrow> (('a, 's) node \<times> ('a, 's) node option) option" where
  "push_tree_recursive D (Internal h s ss ts) other = do {
     let s' = add_summary D s (node_summary other);
     assert_that (node_height other \<le> h);
     let height_delta = h - node_height other;
     (ss1, ts1, summaries_to_append, trees_to_append) \<leftarrow>
       (if height_delta = 0 then do {
          ts2 \<leftarrow> child_trees other;
          sa \<leftarrow> unwrap_oob (child_summaries other);
          ta \<leftarrow> unwrap_oob ts2;
          Some (ss, ts, sa, ta) }
        else if height_delta = 1 \<and> \<not> is_underflowing other then
          Some (ss, ts, [node_summary other], [other])
        else if ts = [] then None
        else do {
          (l, tree_to_append) \<leftarrow> push_tree_recursive D (last ts) other;
          ts2 \<leftarrow> set_last ts l;
          ss2 \<leftarrow> set_last ss (node_summary l);
          (case tree_to_append of
             None \<Rightarrow> Some (ss2, ts2, [], [])
           | Some split_tree \<Rightarrow> Some (ss2, ts2, [node_summary split_tree], [split_tree])) });
     append_children D h s' ss1 ts1 summaries_to_append trees_to_append }"
| "push_tree_recursive D (Leaf s xs ss) other = do {
     ys \<leftarrow> node_items other;
     let child_count = length xs + length ys;
     (if child_count > 2 * TREE_BASE then do {
        let midpoint = (child_count + child_count mod 2) div 2;
        let all_items = xs @ ys;
        left_items \<leftarrow> unwrap_oob (take midpoint all_items);
        right_items \<leftarrow> unwrap_oob (drop midpoint all_items);
        let all_summaries = ss @ child_summaries other;
        left_summaries \<leftarrow> unwrap_oob (take midpoint all_summaries);
        right_summaries \<leftarrow> unwrap_oob (drop midpoint all_summaries);
        Some (Leaf (sum_of D left_summaries) left_items left_summaries,
              Some (Leaf (sum_of D right_summaries) right_items right_summaries)) }
      else do {
        xs' \<leftarrow> unwrap_oob (xs @ ys);
        ss' \<leftarrow> unwrap_oob (ss @ child_summaries other);
        Some (Leaf (add_summary D s (node_summary other)) xs' ss', None) }) }"

declare push_tree_recursive.simps [simp del]

fun merge_into_right ::
    "('a, 's) item_trait \<Rightarrow> ('a, 's) node \<Rightarrow> ('a, 's) node
      \<Rightarrow> (('a, 's) node option \<times> ('a, 's) node) option" where
  "merge_into_right D (Internal h1 s1 ss1 ts1) (Internal h s ss ts) = do {
     assert_that (h1 = h);
     let total_child_count = length ts + length ts1;
     (if total_child_count \<le> 2 * TREE_BASE then do {
        all_trees \<leftarrow> unwrap_oob (ts1 @ ts);
        all_summaries \<leftarrow> unwrap_oob (ss1 @ ss);
        Some (None, Internal h (add_summary D s1 s) all_summaries all_trees) }
      else do {
        let midpoint = (total_child_count + 1) div 2;
        left_trees \<leftarrow> unwrap_oob (take midpoint (ts1 @ ts));
        right_trees \<leftarrow> unwrap_oob (drop midpoint (ts1 @ ts));
        left_summaries \<leftarrow> unwrap_oob (take midpoint (ss1 @ ss));
        right_summaries \<leftarrow> unwrap_oob (drop midpoint (ss1 @ ss));
        Some (Some (Internal h (sum_of D left_summaries) left_summaries left_trees),
              Internal h (sum_of D right_summaries) right_summaries right_trees) }) }"
| "merge_into_right D (Leaf s1 xs1 ss1) (Leaf s xs ss) = do {
     let total_child_count = length xs1 + length xs;
     (if total_child_count \<le> 2 * TREE_BASE then do {
        all_items \<leftarrow> unwrap_oob (xs1 @ xs);
        all_summaries \<leftarrow> unwrap_oob (ss1 @ ss);
        Some (None, Leaf (add_summary D s1 s) all_items all_summaries) }
      else do {
        let midpoint = (total_child_count + 1) div 2;
        left_items \<leftarrow> unwrap_oob (take midpoint (xs1 @ xs));
        right_items \<leftarrow> unwrap_oob (drop midpoint (xs1 @ xs));
        left_summaries \<leftarrow> unwrap_oob (take midpoint (ss1 @ ss));
        right_summaries \<leftarrow> unwrap_oob (drop midpoint (ss1 @ ss));
        Some (Some (Leaf (sum_of D left_summaries) left_items left_summaries),
              Leaf (sum_of D right_summaries) right_items right_summaries) }) }"
| "merge_into_right D (Internal _ _ _ _) (Leaf _ _ _) = None"
| "merge_into_right D (Leaf _ _ _) (Internal _ _ _ _) = None"

fun append_large ::
    "('a, 's) item_trait \<Rightarrow> ('a, 's) node \<Rightarrow> ('a, 's) node
      \<Rightarrow> (('a, 's) node option \<times> ('a, 's) node) option" where
  "append_large D small (Leaf s xs ss) =
     (if node_height small = 0 then
        (if \<not> is_underflowing small then Some (Some small, Leaf s xs ss)
         else merge_into_right D small (Leaf s xs ss))
      else None)"
| "append_large D small (Internal h s ss ts) =
     (if node_height small = h then
        (if \<not> is_underflowing small then Some (Some small, Internal h s ss ts)
         else merge_into_right D small (Internal h s ss ts))
      else do {
        assert_that (node_height small < h);
        let full_summary = add_summary D (node_summary small) s;
        (if ts = [] then None else do {
          (res, first) \<leftarrow> append_large D small (hd ts);
          ts1 \<leftarrow> set_first ts first;
          ss1 \<leftarrow> set_first ss (node_summary first);
          (case res of
             None \<Rightarrow> Some (None, Internal h full_summary ss1 ts1)
           | Some tree \<Rightarrow>
               (if length ts1 < 2 * TREE_BASE then do {
                  ss2 \<leftarrow> unwrap_oob (node_summary tree # ss1);
                  ts2 \<leftarrow> unwrap_oob (tree # ts1);
                  Some (None, Internal h full_summary ss2 ts2) }
                else do {
                  assert_that (TREE_BASE \<le> length ss1);
                  new_child_summaries \<leftarrow> unwrap_oob (node_summary tree # take TREE_BASE ss1);
                  new_child_trees \<leftarrow> unwrap_oob (tree # take TREE_BASE ts1);
                  let ss2 = drop TREE_BASE ss1;
                  let ts2 = drop TREE_BASE ts1;
                  Some (Some (Internal h (sum_of D new_child_summaries)
                               new_child_summaries new_child_trees),
                        Internal h (sum_of D ss2) ss2 ts2) })) }) })"

declare merge_into_right.simps [simp del] append_large.simps [simp del]

definition append_tree ::
    "('a, 's) item_trait \<Rightarrow> ('a, 's) node \<Rightarrow> ('a, 's) node \<Rightarrow> ('a, 's) node option" where
  "append_tree D self other =
     (if is_empty_tree self then Some other
      else if \<not> is_leaf other \<or> \<not> is_empty_tree other then
        (if node_height self < node_height other then do {
           (res, other') \<leftarrow> append_large D self other;
           (case res of
              Some tree \<Rightarrow> from_child_trees D tree other'
            | None \<Rightarrow> Some other') }
         else do {
           (self', res) \<leftarrow> push_tree_recursive D self other;
           (case res of
              Some split_tree \<Rightarrow> from_child_trees D self' split_tree
            | None \<Rightarrow> Some self') })
      else Some self)"

definition push :: "('a, 's) item_trait \<Rightarrow> ('a, 's) node \<Rightarrow> 'a \<Rightarrow> ('a, 's) node option" where
  "push D self x = append_tree D self (Leaf (item_summary D x) [x] [item_summary D x])"

definition from_item :: "('a, 's) item_trait \<Rightarrow> 'a \<Rightarrow> ('a, 's) node option" where
  "from_item D x = push D (new_tree D) x"

section \<open>Abstraction and well-formedness\<close>

text \<open>
  \<open>flatten\<close> is the sequence a tree stands for. \<open>wf_node\<close> is the invariant of every non-empty
  node: at most \<open>2 * TREE_BASE\<close> children, all of the height below, and every cached summary is
  the sum of the summaries under it. \<open>wf_tree\<close> adds the empty tree. (The code keeps no lower
  bound on the number of children: \<^verbatim>\<open>from_iter\<close> leaves short nodes on the right spine.)
\<close>

fun flatten :: "('a, 's) node \<Rightarrow> 'a list" where
  "flatten (Leaf _ xs _) = xs"
| "flatten (Internal _ _ _ ts) = concat (map flatten ts)"

fun wf_node :: "('a, 's) item_trait \<Rightarrow> ('a, 's) node \<Rightarrow> bool" where
  "wf_node D (Leaf s xs ss) \<longleftrightarrow>
     xs \<noteq> [] \<and> length xs \<le> 2 * TREE_BASE \<and> ss = map (item_summary D) xs \<and> s = sum_of D ss"
| "wf_node D (Internal h s ss ts) \<longleftrightarrow>
     ts \<noteq> [] \<and> length ts \<le> 2 * TREE_BASE \<and> ss = map node_summary ts \<and> s = sum_of D ss \<and>
     (\<forall>t \<in> set ts. wf_node D t \<and> h = Suc (node_height t))"

definition wf_tree :: "('a, 's) item_trait \<Rightarrow> ('a, 's) node \<Rightarrow> bool" where
  "wf_tree D t \<longleftrightarrow> t = new_tree D \<or> wf_node D t"

abbreviation children_ok :: "('a, 's) item_trait \<Rightarrow> nat \<Rightarrow> ('a, 's) node list \<Rightarrow> bool" where
  "children_ok D h ts \<equiv> \<forall>t \<in> set ts. wf_node D t \<and> h = Suc (node_height t)"

abbreviation items_summary :: "('a, 's) item_trait \<Rightarrow> 'a list \<Rightarrow> 's" where
  "items_summary D xs \<equiv> sum_of D (map (item_summary D) xs)"

definition mk_leaf :: "('a, 's) item_trait \<Rightarrow> 'a list \<Rightarrow> ('a, 's) node" where
  "mk_leaf D xs = Leaf (items_summary D xs) xs (map (item_summary D) xs)"

definition mk_internal ::
    "('a, 's) item_trait \<Rightarrow> nat \<Rightarrow> ('a, 's) node list \<Rightarrow> ('a, 's) node" where
  "mk_internal D h ts = Internal h (sum_of D (map node_summary ts)) (map node_summary ts) ts"

lemma mk_leaf_simps [simp]:
  "flatten (mk_leaf D xs) = xs"
  "node_height (mk_leaf D xs) = 0"
  "node_summary (mk_leaf D xs) = items_summary D xs"
  "child_summaries (mk_leaf D xs) = map (item_summary D) xs"
  "child_trees (mk_leaf D xs) = None"
  "node_items (mk_leaf D xs) = Some xs"
  "is_leaf (mk_leaf D xs)"
  "is_empty_tree (mk_leaf D xs) \<longleftrightarrow> xs = []"
  "is_underflowing (mk_leaf D xs) \<longleftrightarrow> length xs < TREE_BASE"
  "wf_node D (mk_leaf D xs) \<longleftrightarrow> xs \<noteq> [] \<and> length xs \<le> 2 * TREE_BASE"
  by (auto simp: mk_leaf_def)

lemma mk_internal_simps [simp]:
  "flatten (mk_internal D h ts) = concat (map flatten ts)"
  "node_height (mk_internal D h ts) = h"
  "node_summary (mk_internal D h ts) = sum_of D (map node_summary ts)"
  "child_summaries (mk_internal D h ts) = map node_summary ts"
  "child_trees (mk_internal D h ts) = Some ts"
  "node_items (mk_internal D h ts) = None"
  "\<not> is_leaf (mk_internal D h ts)"
  "\<not> is_empty_tree (mk_internal D h ts)"
  "is_underflowing (mk_internal D h ts) \<longleftrightarrow> length ts < TREE_BASE"
  "wf_node D (mk_internal D h ts) \<longleftrightarrow>
     ts \<noteq> [] \<and> length ts \<le> 2 * TREE_BASE \<and> children_ok D h ts"
  by (auto simp: mk_internal_def)

lemma wf_node_induct [consumes 1, case_names leaf internal]:
  assumes "wf_node D t"
    and "\<And>xs. xs \<noteq> [] \<Longrightarrow> length xs \<le> 2 * TREE_BASE \<Longrightarrow> P (mk_leaf D xs)"
    and "\<And>h ts. ts \<noteq> [] \<Longrightarrow> length ts \<le> 2 * TREE_BASE \<Longrightarrow> children_ok D h ts \<Longrightarrow>
           (\<And>t. t \<in> set ts \<Longrightarrow> P t) \<Longrightarrow> P (mk_internal D h ts)"
  shows "P t"
  using assms(1)
proof (induction t)
  case (Internal h s ss ts)
  then have "P (mk_internal D h ts)" by (intro assms(3)) auto
  with Internal.prems show ?case by (simp add: mk_internal_def)
next
  case (Leaf s xs ss)
  then have "P (mk_leaf D xs)" by (intro assms(2)) auto
  with Leaf.prems show ?case by (simp add: mk_leaf_def)
qed

lemma wf_node_cases [consumes 1, case_names leaf internal]:
  assumes "wf_node D t"
  obtains xs where "t = mk_leaf D xs" "xs \<noteq> []" "length xs \<le> 2 * TREE_BASE"
  | h ts where "t = mk_internal D h ts" "ts \<noteq> []" "length ts \<le> 2 * TREE_BASE" "children_ok D h ts"
  using assms by (induction rule: wf_node_induct) blast+

lemma unwrap_oob_ok [simp]: "length xs \<le> 2 * TREE_BASE \<Longrightarrow> unwrap_oob xs = Some xs"
  by (simp add: unwrap_oob_def)

lemma TREE_BASE_pos [simp]: "0 < TREE_BASE" "Suc 0 \<le> TREE_BASE" "Suc 0 < 2 * TREE_BASE"
  by (simp_all add: TREE_BASE_def)

lemma wf_node_flatten_ne [simp]: "wf_node D t \<Longrightarrow> flatten t \<noteq> []"
proof (induction t)
  case (Internal h s ss ts)
  then show ?case by (cases ts) auto
qed simp

lemma wf_node_not_empty: "wf_node D t \<Longrightarrow> \<not> is_empty_tree t"
  by (cases t) auto

lemma children_concat_ne:
  "ts \<noteq> [] \<Longrightarrow> length ts \<le> n \<Longrightarrow> children_ok D h ts \<Longrightarrow> concat (map flatten ts) \<noteq> []"
  by (cases ts) auto

lemma flatten_new_tree [simp]: "flatten (new_tree D) = []"
  by (simp add: new_tree_def)

lemma wf_tree_new [simp]: "wf_tree D (new_tree D)"
  by (simp add: wf_tree_def)

lemma wf_tree_cases:
  assumes "wf_tree D t"
  obtains (empty) "t = new_tree D" | (node) "wf_node D t"
  using assms by (auto simp: wf_tree_def)

lemma is_empty_tree_flatten [simp]: "wf_tree D t \<Longrightarrow> is_empty_tree t \<longleftrightarrow> flatten t = []"
  by (auto simp: wf_tree_def new_tree_def wf_node_not_empty)

lemma wf_tree_nonempty: "wf_tree D t \<Longrightarrow> flatten t \<noteq> [] \<Longrightarrow> wf_node D t"
  by (auto simp: wf_tree_def)

lemma wf_height_0: "wf_node D t \<Longrightarrow> node_height t = 0 \<longleftrightarrow> is_leaf t"
  by (cases t) (auto simp: neq_Nil_conv)

lemma wf_internal_height: "wf_node D (Internal h s ss ts) \<Longrightarrow> 0 < h"
  by (auto simp: neq_Nil_conv)

section \<open>Laws of a summary\<close>

text \<open>
  What the tree relies on of a \<^verbatim>\<open>Summary\<close> implementation: adding is associative and the zero is
  neutral on the left. A right unit is not needed (and the summaries of \<^verbatim>\<open>TreeMap\<close> and of the
  tab stops have none).
\<close>

locale summary_laws =
  fixes D :: "('a, 's) item_trait"
  assumes add_assoc:
      "add_summary D (add_summary D a b) c = add_summary D a (add_summary D b c)"
    and zero_left: "add_summary D (summary_zero D) a = a"
begin

lemma sum_of_Cons: "sum_of D (s # ss) = foldl (add_summary D) s ss"
  by (simp add: sum_of_def zero_left)

lemma foldl_add: "ys \<noteq> [] \<Longrightarrow> foldl (add_summary D) a ys = add_summary D a (sum_of D ys)"
proof (induction ys rule: rev_induct)
  case (snoc y ys)
  then show ?case
    by (cases "ys = []") (simp_all add: sum_of_def zero_left add_assoc)
qed simp

lemma sum_of_append: "ys \<noteq> [] \<Longrightarrow> sum_of D (xs @ ys) = add_summary D (sum_of D xs) (sum_of D ys)"
  using foldl_add [of ys "sum_of D xs"] by (simp add: sum_of_def)

lemma sum_of_single [simp]: "sum_of D [s] = s"
  by (simp add: sum_of_def zero_left)

lemma sum_of_concat:
  "(\<forall>xs \<in> set xss. xs \<noteq> []) \<Longrightarrow> sum_of D (concat xss) = sum_of D (map (sum_of D) xss)"
proof (induction xss rule: rev_induct)
  case (snoc xs xss)
  then show ?case by (simp add: sum_of_append)
qed simp

lemma sum_of_children:
  assumes "\<And>t. t \<in> set ts \<Longrightarrow> node_summary t = items_summary D (flatten t)"
    and "\<And>t. t \<in> set ts \<Longrightarrow> flatten t \<noteq> []"
  shows "sum_of D (map node_summary ts) = items_summary D (concat (map flatten ts))"
proof -
  have "sum_of D (concat (map (map (item_summary D) \<circ> flatten) ts)) =
      sum_of D (map (sum_of D) (map (map (item_summary D) \<circ> flatten) ts))"
    by (rule sum_of_concat) (use assms(2) in auto)
  moreover have "map (sum_of D) (map (map (item_summary D) \<circ> flatten) ts) = map node_summary ts"
    using assms(1) by simp
  ultimately show ?thesis by (simp only: map_concat map_map)
qed

lemma wf_node_summary: "wf_node D t \<Longrightarrow> node_summary t = items_summary D (flatten t)"
proof (induction t)
  case (Internal h s ss ts)
  have "sum_of D (map node_summary ts) = items_summary D (concat (map flatten ts))"
    by (rule sum_of_children) (use Internal in auto)
  with Internal.prems show ?case by simp
qed simp

lemma children_summary:
  assumes "\<forall>t \<in> set ts. wf_node D t"
  shows "sum_of D (map node_summary ts) = items_summary D (concat (map flatten ts))"
  using assms by (intro sum_of_children) (auto simp: wf_node_summary)

lemma children_summary_append:
  assumes "\<forall>t \<in> set ts. wf_node D t" and "concat (map flatten ts) = xs @ ys" and "ys \<noteq> []"
  shows "sum_of D (map node_summary ts) = add_summary D (items_summary D xs) (items_summary D ys)"
  using assms by (simp add: children_summary sum_of_append)

lemma wf_node_make:
  "ts \<noteq> [] \<Longrightarrow> length ts \<le> 2 * TREE_BASE \<Longrightarrow> children_ok D h ts \<Longrightarrow>
   wf_node D (Internal h (sum_of D (map node_summary ts)) (map node_summary ts) ts)"
  by simp

lemma from_child_trees_ok:
  assumes "wf_node D l" "wf_node D r" "node_height l = node_height r"
  shows "\<exists>t. from_child_trees D l r = Some t \<and> wf_node D t \<and> flatten t = flatten l @ flatten r
           \<and> node_height t = Suc (node_height l)"
  using assms by (simp add: from_child_trees_def TREE_BASE_def)

text \<open>What pushing a tree onto \<open>t\<close> leaves: the node and perhaps a split-off right sibling.\<close>

definition pushed ::
    "nat \<Rightarrow> 'a list \<Rightarrow> ('a, 's) node \<times> ('a, 's) node option \<Rightarrow> bool" where
  "pushed h xs p \<longleftrightarrow> (case p of (t, res) \<Rightarrow>
     wf_node D t \<and> node_height t = h \<and>
     (case res of
        None \<Rightarrow> flatten t = xs
      | Some v \<Rightarrow> wf_node D v \<and> node_height v = h \<and> flatten t @ flatten v = xs))"

lemma pushed_None [simp]: "pushed h xs (t, None) \<longleftrightarrow> wf_node D t \<and> node_height t = h \<and> flatten t = xs"
  by (simp add: pushed_def)

lemma pushed_Some [simp]:
  "pushed h xs (t, Some v) \<longleftrightarrow> wf_node D t \<and> node_height t = h \<and> wf_node D v \<and>
     node_height v = h \<and> flatten t @ flatten v = xs"
  by (auto simp: pushed_def)

lemma midpoint_bounds:
  assumes "2 * TREE_BASE < n" "n \<le> 4 * TREE_BASE"
  defines "m \<equiv> (n + n mod 2) div 2"
  shows "0 < m" "m < n" "m \<le> 2 * TREE_BASE" "n - m \<le> 2 * TREE_BASE" "(n + 1) div 2 = m"
  using assms unfolding TREE_BASE_def by presburger+

lemma split_items_ok:
  assumes "0 < m" "m < length xs" "m \<le> 2 * TREE_BASE" "length xs - m \<le> 2 * TREE_BASE"
  shows "pushed 0 xs (mk_leaf D (take m xs), Some (mk_leaf D (drop m xs)))"
  using assms by auto

lemma split_children_ok:
  assumes "children_ok D h ts"
    and "0 < m" "m < length ts" "m \<le> 2 * TREE_BASE" "length ts - m \<le> 2 * TREE_BASE"
  shows "pushed h (concat (map flatten ts)) (mk_internal D h (take m ts), Some (mk_internal D h (drop m ts)))"
  using assms by (auto dest: in_set_takeD in_set_dropD simp flip: concat_append map_append)

lemma push_leaf_ok:
  assumes "xs \<noteq> []" "length xs \<le> 2 * TREE_BASE" "ys \<noteq> []" "length ys \<le> 2 * TREE_BASE"
  shows "\<exists>p. push_tree_recursive D (mk_leaf D xs) (mk_leaf D ys) = Some p \<and> pushed 0 (xs @ ys) p"
proof (cases "2 * TREE_BASE < length (xs @ ys)")
  case True
  define m where "m = (length (xs @ ys) + length (xs @ ys) mod 2) div 2"
  have "length (xs @ ys) \<le> 4 * TREE_BASE" using assms by simp
  note m = midpoint_bounds [OF True this, folded m_def]
  have "push_tree_recursive D (mk_leaf D xs) (mk_leaf D ys) =
      Some (mk_leaf D (take m (xs @ ys)), Some (mk_leaf D (drop m (xs @ ys))))"
    using True m(3,4)
    by (simp add: push_tree_recursive.simps mk_leaf_def Let_def take_map drop_map m_def
        flip: map_append del: map_append take_append drop_append)
  then show ?thesis using split_items_ok [OF m(1-4)] by blast
next
  case False
  then show ?thesis
    using assms by (simp add: push_tree_recursive.simps mk_leaf_def Let_def sum_of_append)
qed

lemma append_children_ok:
  assumes "children_ok D h (ts @ us)" "ts \<noteq> []" "length ts \<le> 2 * TREE_BASE" "length us \<le> 2 * TREE_BASE"
    and "s = sum_of D (map node_summary (ts @ us))"
  shows "\<exists>p. append_children D h s (map node_summary ts) ts (map node_summary us) us = Some p \<and>
           pushed h (concat (map flatten (ts @ us))) p"
proof (cases "2 * TREE_BASE < length (ts @ us)")
  case True
  define m where "m = (length (ts @ us) + length (ts @ us) mod 2) div 2"
  have "length (ts @ us) \<le> 4 * TREE_BASE" using assms by simp
  note m = midpoint_bounds [OF True this, folded m_def]
  have "append_children D h s (map node_summary ts) ts (map node_summary us) us =
      Some (mk_internal D h (take m (ts @ us)), Some (mk_internal D h (drop m (ts @ us))))"
    using True m(3,4)
    by (simp add: append_children_def mk_internal_def Let_def take_map drop_map m_def
        flip: map_append del: map_append take_append drop_append)
  then show ?thesis using split_children_ok [OF assms(1) m(1-4)] by blast
next
  case False
  then have "append_children D h s (map node_summary ts) ts (map node_summary us) us =
      Some (mk_internal D h (ts @ us), None)"
    using assms by (simp add: append_children_def mk_internal_def)
  then show ?thesis using assms False by auto
qed

lemma push_tree_recursive_ok:
  assumes "wf_node D t" "wf_node D u" "node_height u \<le> node_height t"
  shows "\<exists>p. push_tree_recursive D t u = Some p \<and> pushed (node_height t) (flatten t @ flatten u) p"
  using assms
proof (induction rule: wf_node_induct)
  case (leaf xs)
  from leaf.prems obtain ys where "u = mk_leaf D ys" "ys \<noteq> []" "length ys \<le> 2 * TREE_BASE"
    by (cases rule: wf_node_cases [OF leaf.prems(1)]) (auto simp: neq_Nil_conv)
  then show ?case using push_leaf_ok leaf by simp
next
  case (internal h ts)
  let ?xs = "concat (map flatten ts)"
  have sum: "add_summary D (sum_of D (map node_summary ts)) (node_summary u) =
      sum_of D (map node_summary (ts1 @ ta))"
    if "\<forall>t \<in> set (ts1 @ ta). wf_node D t" "concat (map flatten (ts1 @ ta)) = ?xs @ flatten u" for ts1 ta
    using that internal children_summary_append [of "ts1 @ ta" ?xs "flatten u"]
    by (simp add: children_summary wf_node_summary)
  have finish: "\<exists>p. append_children D h (add_summary D (sum_of D (map node_summary ts)) (node_summary u))
        (map node_summary ts1) ts1 (map node_summary ta) ta = Some p \<and> pushed h (?xs @ flatten u) p"
    if "children_ok D h (ts1 @ ta)" "concat (map flatten (ts1 @ ta)) = ?xs @ flatten u"
      "ts1 \<noteq> []" "length ts1 \<le> 2 * TREE_BASE" "length ta \<le> 2 * TREE_BASE" for ts1 ta
    using append_children_ok [OF that(1,3-5) sum] that by auto
  consider "node_height u = h" | "h = Suc (node_height u)" "\<not> is_underflowing u"
    | "node_height u < h" "h - node_height u \<noteq> 1 \<or> is_underflowing u"
    using internal.prems by fastforce
  then show ?case
  proof cases
    case 1
    then obtain us where us: "u = mk_internal D h us" "us \<noteq> []" "length us \<le> 2 * TREE_BASE" "children_ok D h us"
      using internal by (cases rule: wf_node_cases [OF internal.prems(1)]) (auto simp: neq_Nil_conv)
    then show ?thesis
      using finish [of ts us] internal
      by (simp add: push_tree_recursive.simps mk_internal_def ball_Un)
  next
    case 2
    then show ?thesis
      using finish [of ts "[u]"] internal
      by (simp add: push_tree_recursive.simps mk_internal_def ball_Un)
  next
    case 3
    have last: "last ts \<in> set ts" using internal by simp
    then have h: "h = Suc (node_height (last ts))" using internal.hyps by blast
    then have "node_height u \<le> node_height (last ts)" using 3 by simp
    from internal.IH [OF last internal.prems(1) this] obtain l res where
      p: "push_tree_recursive D (last ts) u = Some (l, res)"
         "pushed (node_height (last ts)) (flatten (last ts) @ flatten u) (l, res)" by auto
    let ?ta = "case res of None \<Rightarrow> [] | Some v \<Rightarrow> [v]"
    have ok: "children_ok D h ((butlast ts @ [l]) @ ?ta)"
      using p(2) internal.hyps last by (cases res) (auto dest: in_set_butlastD)
    have fl: "concat (map flatten ((butlast ts @ [l]) @ ?ta)) = ?xs @ flatten u"
      using p(2) internal.hyps by (cases res) (auto simp: concat_map_butlast_last)
    have "\<exists>p. append_children D h (add_summary D (sum_of D (map node_summary ts)) (node_summary u))
        (map node_summary (butlast ts @ [l])) (butlast ts @ [l]) (map node_summary ?ta) ?ta = Some p
        \<and> pushed h (?xs @ flatten u) p"
      by (rule finish [OF ok fl]) (use internal in \<open>auto split: option.splits\<close>)
    then show ?thesis
      using 3 p(1) internal
      by (cases res) (auto simp: push_tree_recursive.simps mk_internal_def set_last_def map_butlast)
  qed
qed

text \<open>The mirror image: what is left when a tree is put in front of a larger one.\<close>

definition put_left ::
    "nat \<Rightarrow> 'a list \<Rightarrow> ('a, 's) node option \<times> ('a, 's) node \<Rightarrow> bool" where
  "put_left h xs p \<longleftrightarrow> (case p of
     (None, t) \<Rightarrow> pushed h xs (t, None)
   | (Some v, t) \<Rightarrow> pushed h xs (v, Some t))"

lemma put_left_simps [simp]:
  "put_left h xs (None, t) \<longleftrightarrow> pushed h xs (t, None)"
  "put_left h xs (Some v, t) \<longleftrightarrow> pushed h xs (v, Some t)"
  by (simp_all add: put_left_def)

lemma merge_leaves_ok:
  assumes "xs \<noteq> []" "length xs \<le> 2 * TREE_BASE" "ys \<noteq> []" "length ys \<le> 2 * TREE_BASE"
  shows "\<exists>p. merge_into_right D (mk_leaf D xs) (mk_leaf D ys) = Some p \<and> put_left 0 (xs @ ys) p"
proof (cases "2 * TREE_BASE < length (xs @ ys)")
  case True
  define m where "m = (length (xs @ ys) + length (xs @ ys) mod 2) div 2"
  have "length (xs @ ys) \<le> 4 * TREE_BASE" using assms by simp
  note m = midpoint_bounds [OF True this, folded m_def]
  have "merge_into_right D (mk_leaf D xs) (mk_leaf D ys) =
      Some (Some (mk_leaf D (take m (xs @ ys))), mk_leaf D (drop m (xs @ ys)))"
    using True m(3-5)
    by (simp add: merge_into_right.simps mk_leaf_def Let_def take_map drop_map
        flip: map_append del: map_append take_append drop_append)
  then show ?thesis using split_items_ok [OF m(1-4)] by simp
next
  case False
  then show ?thesis
    using assms by (simp add: merge_into_right.simps mk_leaf_def Let_def sum_of_append)
qed

lemma merge_internals_ok:
  assumes "ts \<noteq> []" "length ts \<le> 2 * TREE_BASE" "us \<noteq> []" "length us \<le> 2 * TREE_BASE"
    and "children_ok D h (ts @ us)"
  shows "\<exists>p. merge_into_right D (mk_internal D h ts) (mk_internal D h us) = Some p \<and>
           put_left h (concat (map flatten (ts @ us))) p"
proof (cases "2 * TREE_BASE < length (ts @ us)")
  case True
  define m where "m = (length (ts @ us) + length (ts @ us) mod 2) div 2"
  have "length (ts @ us) \<le> 4 * TREE_BASE" using assms by simp
  note m = midpoint_bounds [OF True this, folded m_def]
  have "merge_into_right D (mk_internal D h ts) (mk_internal D h us) =
      Some (Some (mk_internal D h (take m (ts @ us))), mk_internal D h (drop m (ts @ us)))"
    using True m(3-5)
    by (simp add: merge_into_right.simps mk_internal_def Let_def take_map drop_map add.commute
        flip: map_append del: map_append take_append drop_append)
  then show ?thesis using split_children_ok [OF assms(5) m(1-4)] by simp
next
  case False
  then have "merge_into_right D (mk_internal D h ts) (mk_internal D h us) =
      Some (None, mk_internal D h (ts @ us))"
    using assms by (simp add: merge_into_right.simps mk_internal_def Let_def sum_of_append add.commute)
  then show ?thesis using assms False by auto
qed

lemma merge_into_right_ok:
  assumes "wf_node D t" "wf_node D u" "node_height t = node_height u"
  shows "\<exists>p. merge_into_right D t u = Some p \<and> put_left (node_height u) (flatten t @ flatten u) p"
  using assms(1)
proof (cases rule: wf_node_cases)
  case (leaf xs)
  then obtain ys where "u = mk_leaf D ys" "ys \<noteq> []" "length ys \<le> 2 * TREE_BASE"
    using assms by (cases rule: wf_node_cases [OF assms(2)]) (auto simp: neq_Nil_conv)
  then show ?thesis using merge_leaves_ok leaf by simp
next
  case (internal h ts)
  then obtain us where "u = mk_internal D h us" "us \<noteq> []" "length us \<le> 2 * TREE_BASE" "children_ok D h us"
    using assms by (cases rule: wf_node_cases [OF assms(2)]) (auto simp: neq_Nil_conv)
  then show ?thesis using merge_internals_ok [of ts us h] internal by (simp add: ball_Un)
qed

lemma append_large_same_height:
  "node_height t = node_height u \<Longrightarrow>
   append_large D t u = (if is_underflowing t then merge_into_right D t u else Some (Some t, u))"
  by (cases u) (simp_all add: append_large.simps)

lemma append_large_ok:
  assumes "wf_node D u" "wf_node D t" "node_height t \<le> node_height u"
  shows "\<exists>p. append_large D t u = Some p \<and> put_left (node_height u) (flatten t @ flatten u) p"
  using assms
proof (induction rule: wf_node_induct)
  case (leaf xs)
  then show ?case
    using merge_into_right_ok [of t "mk_leaf D xs"]
    by (auto simp: append_large_same_height)
next
  case (internal h ts)
  show ?case
  proof (cases "node_height t = h")
    case True
    then show ?thesis
      using internal merge_into_right_ok [of t "mk_internal D h ts"]
      by (auto simp: append_large_same_height)
  next
    case False
    from internal(1) obtain u us where ts: "ts = u # us" by (cases ts) auto
    have "node_height t \<le> node_height u" using internal.prems False ts internal(3) by simp
    with internal.IH [of u] internal.prems ts obtain res v where
      p: "append_large D t u = Some (res, v)" "put_left (node_height u) (flatten t @ flatten u) (res, v)"
      by auto
    have sum: "add_summary D (node_summary t) (sum_of D (map node_summary ts)) =
        sum_of D (map node_summary vs)"
      if "\<forall>t \<in> set vs. wf_node D t" "concat (map flatten vs) = flatten t @ concat (map flatten ts)" for vs
    proof -
      have "concat (map flatten ts) \<noteq> []" using internal.hyps by (rule children_concat_ne)
      from children_summary_append [OF that this] show ?thesis
        using internal by (simp add: children_summary wf_node_summary)
    qed
    show ?thesis
    proof (cases res)
      case None
      then show ?thesis
        using p ts internal.hyps internal.prems False sum [of "v # us"]
        by (auto simp: append_large.simps mk_internal_def)
    next
      case (Some w)
      show ?thesis
      proof (cases "length ts < 2 * TREE_BASE")
        case True
        then show ?thesis
          using Some p ts internal.hyps internal.prems False sum [of "w # v # us"]
          by (auto simp: append_large.simps mk_internal_def)
      next
        case full: False
        define vs where "vs = v # us"
        let ?l = "w # take TREE_BASE vs" and ?r = "drop TREE_BASE vs"
        have len: "length vs = 2 * TREE_BASE" using full ts internal by (simp add: vs_def)
        have vs: "set_first ts v = Some vs" "set_first (map node_summary ts) (node_summary v) = Some (map node_summary vs)"
          by (simp_all add: vs_def ts)
        have "append_large D t (mk_internal D h ts) = Some (Some (mk_internal D h ?l), mk_internal D h ?r)"
          using Some p(1) ts vs len full internal.hyps internal.prems False
          by (simp add: append_large.simps mk_internal_def Let_def take_map drop_map)
        moreover have "pushed h (concat (map flatten (w # vs)))
            (mk_internal D h (take (Suc TREE_BASE) (w # vs)), Some (mk_internal D h (drop (Suc TREE_BASE) (w # vs))))"
        proof (rule split_children_ok)
          show "children_ok D h (w # vs)"
            using Some p ts internal.hyps by (auto simp: vs_def)
        qed (auto simp: len TREE_BASE_def)
        moreover have "concat (map flatten (w # vs)) = flatten t @ concat (map flatten ts)"
          using Some p ts by (simp add: vs_def)
        ultimately show ?thesis
          by (simp del: pushed_Some list.map concat.simps)
      qed
    qed
  qed
qed

theorem append_tree_node_ok:
  assumes "wf_node D t" "wf_node D u"
  shows "\<exists>r. append_tree D t u = Some r \<and> wf_node D r \<and> flatten r = flatten t @ flatten u"
proof (cases "node_height t < node_height u")
  case True
  with append_large_ok [OF assms(2,1)] obtain res v where
    "append_large D t u = Some (res, v)" "put_left (node_height u) (flatten t @ flatten u) (res, v)" by auto
  then show ?thesis
    using True assms from_child_trees_ok [of _ v]
    by (cases res) (fastforce simp: append_tree_def wf_node_not_empty)+
next
  case False
  with push_tree_recursive_ok [OF assms] obtain v res where
    "push_tree_recursive D t u = Some (v, res)" "pushed (node_height t) (flatten t @ flatten u) (v, res)" by auto
  then show ?thesis
    using False assms from_child_trees_ok [of v]
    by (cases res) (fastforce simp: append_tree_def wf_node_not_empty)+
qed

lemma append_tree_ok:
  assumes "wf_tree D t" "wf_tree D u"
  shows "\<exists>r. append_tree D t u = Some r \<and> wf_tree D r \<and> flatten r = flatten t @ flatten u"
proof (cases "flatten t = [] \<or> flatten u = []")
  case True
  then show ?thesis using assms by (cases "flatten t = []") (auto simp: append_tree_def wf_tree_def new_tree_def)
next
  case False
  then show ?thesis
    using append_tree_node_ok [of t u] assms by (auto simp: wf_tree_def)
qed

end

end
