(* ===== verification/SumTreeBuild.thy ===== *)
theory SumTreeBuild
  imports SumTree
begin

text \<open>
  Building and updating trees: \<^verbatim>\<open>from_iter\<close>, \<^verbatim>\<open>from_par_iter\<close>, \<^verbatim>\<open>extend\<close>, \<^verbatim>\<open>par_extend\<close>,
  \<^verbatim>\<open>update_first\<close>, \<^verbatim>\<open>update_last\<close> and the first and last item
  (\<^verbatim>\<open>crates/sum_tree/src/sum_tree.rs\<close>). Both constructors are shown to be the tree that
  groups the items, and then the nodes of every level, into chunks of \<open>2 * TREE_BASE\<close>.
\<close>

section \<open>Building a tree from a sequence of items\<close>

text \<open>
  \<^verbatim>\<open>from_iter\<close>. The first loop takes \<open>2 * TREE_BASE\<close> items at a time; the second groups the
  nodes of a level under parents until one node is left.
\<close>

function leaf_nodes :: "('a, 's) item_trait \<Rightarrow> 'a list \<Rightarrow> ('a, 's) node list option" where
  "leaf_nodes D xs =
     (if xs = [] then Some []
      else do {
        items \<leftarrow> unwrap_oob (take (2 * TREE_BASE) xs);
        item_summaries \<leftarrow> unwrap_oob (map (item_summary D) items);
        summary \<leftarrow> sum_from_first D item_summaries;
        rest \<leftarrow> leaf_nodes D (drop (2 * TREE_BASE) xs);
        Some (Leaf summary items item_summaries # rest) })"
  by pat_completeness auto
termination
  by (relation "measure (\<lambda>(D, xs). length xs)") (auto simp: TREE_BASE_def)

text \<open>
  The loop over the nodes of one level; \<open>current\<close> is \<^verbatim>\<open>current_parent_node\<close>. It returns the
  parents in order.
\<close>

fun group_parents ::
    "('a, 's) item_trait \<Rightarrow> nat \<Rightarrow> ('s \<times> 's list \<times> ('a, 's) node list) option
      \<Rightarrow> ('a, 's) node list \<Rightarrow> ('a, 's) node list option" where
  "group_parents D h current [] =
     (case current of
        None \<Rightarrow> Some []
      | Some (s, ss, ts) \<Rightarrow> Some [Internal h s ss ts])"
| "group_parents D h current (child # rest) = do {
     let (s, ss, ts) = (case current of None \<Rightarrow> (summary_zero D, [], []) | Some p \<Rightarrow> p);
     let s' = add_summary D s (node_summary child);
     ss' \<leftarrow> unwrap_oob (ss @ [node_summary child]);
     ts' \<leftarrow> unwrap_oob (ts @ [child]);
     (if length ts' = 2 * TREE_BASE
      then do { ps \<leftarrow> group_parents D h None rest; Some (Internal h s' ss' ts' # ps) }
      else group_parents D h (Some (s', ss', ts')) rest) }"

lemma group_parents_length:
  "group_parents D h current nodes = Some ps \<Longrightarrow>
   length ps \<le> (case current of None \<Rightarrow> length nodes | Some _ \<Rightarrow> max 1 (length nodes))"
proof (induction D h current nodes arbitrary: ps rule: group_parents.induct)
  case (2 D h current child rest)
  then show ?case
    by (cases "length (case current of None \<Rightarrow> [] | Some (s, ss, ts) \<Rightarrow> ts) + 1 = 2 * TREE_BASE")
      (fastforce simp: bind_eq_Some_conv unwrap_oob_def Let_def split: if_splits option.splits prod.splits)+
qed (auto split: option.splits)

lemma group_parents_shrinks:
  assumes "group_parents D h None nodes = Some ps" "1 < length nodes"
  shows "length ps < length nodes"
proof -
  obtain c rest where nodes: "nodes = c # rest" "rest \<noteq> []" using assms(2) by (cases nodes) auto
  then have "group_parents D h (Some (add_summary D (summary_zero D) (node_summary c), [node_summary c], [c])) rest = Some ps"
    using assms(1) by (simp add: unwrap_oob_def TREE_BASE_def)
  from group_parents_length [OF this] nodes show ?thesis by (cases rest) auto
qed

function build_levels :: "('a, 's) item_trait \<Rightarrow> nat \<Rightarrow> ('a, 's) node list \<Rightarrow> ('a, 's) node list option" where
  "build_levels D h nodes =
     (if 1 < length nodes
      then do { parents \<leftarrow> group_parents D (h + 1) None nodes; build_levels D (h + 1) parents }
      else Some nodes)"
  by pat_completeness auto
termination
  by (relation "measure (\<lambda>(D, h, nodes). length nodes)") (auto dest: group_parents_shrinks)

definition from_iter :: "('a, 's) item_trait \<Rightarrow> 'a list \<Rightarrow> ('a, 's) node option" where
  "from_iter D xs = do {
     nodes \<leftarrow> leaf_nodes D xs;
     nodes \<leftarrow> build_levels D 0 nodes;
     (case nodes of
        [] \<Rightarrow> Some (new_tree D)
      | _ \<Rightarrow> do { assert_that (length nodes = 1); Some (last nodes) }) }"

definition extend_tree :: "('a, 's) item_trait \<Rightarrow> ('a, 's) node \<Rightarrow> 'a list \<Rightarrow> ('a, 's) node option" where
  "extend_tree D self xs = do { t \<leftarrow> from_iter D xs; append_tree D self t }"

declare leaf_nodes.simps [simp del] build_levels.simps [simp del]

section \<open>Updating the first and the last item\<close>

fun update_last_recursive ::
    "('a, 's) item_trait \<Rightarrow> ('a \<Rightarrow> 'a) \<Rightarrow> ('a, 's) node \<Rightarrow> (('a, 's) node \<times> 's option) option" where
  "update_last_recursive D f (Internal h s ss ts) =
     (if ss = [] \<or> ts = [] then None
      else do {
        (last_child, res) \<leftarrow> update_last_recursive D f (last ts);
        last_summary \<leftarrow> res;
        ss' \<leftarrow> set_last ss last_summary;
        ts' \<leftarrow> set_last ts last_child;
        let s' = sum_of D ss';
        Some (Internal h s' ss' ts', Some s') })"
| "update_last_recursive D f (Leaf s xs ss) =
     (if xs \<noteq> [] \<and> ss \<noteq> [] then do {
        let item = f (last xs);
        xs' \<leftarrow> set_last xs item;
        ss' \<leftarrow> set_last ss (item_summary D item);
        let s' = sum_of D ss';
        Some (Leaf s' xs' ss', Some s') }
      else Some (Leaf s xs ss, None))"

definition update_last :: "('a, 's) item_trait \<Rightarrow> ('a \<Rightarrow> 'a) \<Rightarrow> ('a, 's) node \<Rightarrow> ('a, 's) node option" where
  "update_last D f t = do { (t', _) \<leftarrow> update_last_recursive D f t; Some t' }"

fun update_first_recursive ::
    "('a, 's) item_trait \<Rightarrow> ('a \<Rightarrow> 'a) \<Rightarrow> ('a, 's) node \<Rightarrow> (('a, 's) node \<times> 's option) option" where
  "update_first_recursive D f (Internal h s ss ts) =
     (if ss = [] \<or> ts = [] then None
      else do {
        (first_child, res) \<leftarrow> update_first_recursive D f (hd ts);
        first_summary \<leftarrow> res;
        ss' \<leftarrow> set_first ss first_summary;
        ts' \<leftarrow> set_first ts first_child;
        let s' = sum_of D ss';
        Some (Internal h s' ss' ts', Some s') })"
| "update_first_recursive D f (Leaf s xs ss) =
     (if xs \<noteq> [] \<and> ss \<noteq> [] then do {
        let item = f (hd xs);
        xs' \<leftarrow> set_first xs item;
        ss' \<leftarrow> set_first ss (item_summary D item);
        let s' = sum_of D ss';
        Some (Leaf s' xs' ss', Some s') }
      else Some (Leaf s xs ss, None))"

definition update_first :: "('a, 's) item_trait \<Rightarrow> ('a \<Rightarrow> 'a) \<Rightarrow> ('a, 's) node \<Rightarrow> ('a, 's) node option" where
  "update_first D f t = do { (t', _) \<leftarrow> update_first_recursive D f t; Some t' }"


section \<open>Building a tree in parallel\<close>

text \<open>
  \<^verbatim>\<open>from_par_iter\<close>. Rayon's \<^verbatim>\<open>into_par_iter().chunks(n).map(f).collect()\<close> is a parameter, at the
  two types it is used at (\<open>par_items\<close> on items and \<open>par_nodes\<close> on nodes). That it maps the
  chunks and keeps their order is a hypothesis of the theorems.
\<close>

definition par_leaf :: "('a, 's) item_trait \<Rightarrow> 'a list \<Rightarrow> ('a, 's) node option" where
  "par_leaf D xs = do {
     items \<leftarrow> unwrap_oob xs;
     item_summaries \<leftarrow> unwrap_oob (map (item_summary D) items);
     summary \<leftarrow> sum_from_first D item_summaries;
     Some (Leaf summary items item_summaries) }"

definition par_parent :: "('a, 's) item_trait \<Rightarrow> nat \<Rightarrow> ('a, 's) node list \<Rightarrow> ('a, 's) node option" where
  "par_parent D h nodes = do {
     child_trees \<leftarrow> unwrap_oob nodes;
     child_summaries \<leftarrow> unwrap_oob (map node_summary child_trees);
     summary \<leftarrow> sum_from_first D child_summaries;
     Some (Internal h summary child_summaries child_trees) }"

partial_function (option) par_levels ::
    "('a, 's) item_trait
      \<Rightarrow> (nat \<Rightarrow> (('a, 's) node list \<Rightarrow> ('a, 's) node option) \<Rightarrow> ('a, 's) node list \<Rightarrow> ('a, 's) node list option)
      \<Rightarrow> nat \<Rightarrow> ('a, 's) node list \<Rightarrow> ('a, 's) node list option" where
  "par_levels D par_nodes h nodes =
     (if 1 < length nodes
      then do {
        nodes' \<leftarrow> par_nodes (2 * TREE_BASE) (par_parent D (h + 1)) nodes;
        par_levels D par_nodes (h + 1) nodes' }
      else Some nodes)"

definition from_par_iter ::
    "('a, 's) item_trait
      \<Rightarrow> (nat \<Rightarrow> ('a list \<Rightarrow> ('a, 's) node option) \<Rightarrow> 'a list \<Rightarrow> ('a, 's) node list option)
      \<Rightarrow> (nat \<Rightarrow> (('a, 's) node list \<Rightarrow> ('a, 's) node option) \<Rightarrow> ('a, 's) node list \<Rightarrow> ('a, 's) node list option)
      \<Rightarrow> 'a list \<Rightarrow> ('a, 's) node option" where
  "from_par_iter D par_items par_nodes xs = do {
     nodes \<leftarrow> par_items (2 * TREE_BASE) (par_leaf D) xs;
     nodes \<leftarrow> par_levels D par_nodes 0 nodes;
     (case nodes of
        [] \<Rightarrow> Some (new_tree D)
      | _ \<Rightarrow> do { assert_that (length nodes = 1); Some (last nodes) }) }"

definition par_extend ::
    "('a, 's) item_trait
      \<Rightarrow> (nat \<Rightarrow> ('a list \<Rightarrow> ('a, 's) node option) \<Rightarrow> 'a list \<Rightarrow> ('a, 's) node list option)
      \<Rightarrow> (nat \<Rightarrow> (('a, 's) node list \<Rightarrow> ('a, 's) node option) \<Rightarrow> ('a, 's) node list \<Rightarrow> ('a, 's) node list option)
      \<Rightarrow> ('a, 's) node \<Rightarrow> 'a list \<Rightarrow> ('a, 's) node option" where
  "par_extend D par_items par_nodes self xs = do {
     t \<leftarrow> from_par_iter D par_items par_nodes xs;
     append_tree D self t }"

section \<open>The tree of chunks\<close>

lemma group_parents_chunks:
  "length ts < 2 * TREE_BASE \<Longrightarrow>
   group_parents D h
     (if ts = [] then None else Some (sum_of D (map node_summary ts), map node_summary ts, ts)) nodes =
   Some (map (mk_internal D h) (chunks (2 * TREE_BASE) (ts @ nodes)))"
proof (induction nodes arbitrary: ts)
  case Nil
  then show ?case by (auto simp: chunks_short mk_internal_def)
next
  case (Cons c nodes)
  have step: "group_parents D h
      (if ts = [] then None else Some (sum_of D (map node_summary ts), map node_summary ts, ts)) (c # nodes) =
      (if length (ts @ [c]) = 2 * TREE_BASE
       then do { ps \<leftarrow> group_parents D h None nodes; Some (mk_internal D h (ts @ [c]) # ps) }
       else group_parents D h (Some (sum_of D (map node_summary (ts @ [c])), map node_summary (ts @ [c]), ts @ [c])) nodes)"
    using Cons.prems by (auto simp: mk_internal_def sum_of_def)
  show ?case
  proof (cases "length (ts @ [c]) = 2 * TREE_BASE")
    case True
    then show ?thesis
      using Cons.IH [of "[]"] step chunks_full_append [of "2 * TREE_BASE" "ts @ [c]" nodes] by simp
  next
    case False
    then show ?thesis using Cons.IH [of "ts @ [c]"] Cons.prems step by simp
  qed
qed

context summary_laws
begin

lemma sum_from_first_ok: "ss \<noteq> [] \<Longrightarrow> sum_from_first D ss = Some (sum_of D ss)"
  by (cases ss) (simp_all add: sum_from_first_def sum_of_Cons)

lemma leaf_nodes_chunks: "leaf_nodes D xs = Some (map (mk_leaf D) (chunks (2 * TREE_BASE) xs))"
proof (induction xs rule: length_induct)
  case (1 xs)
  show ?case
  proof (cases "xs = []")
    case False
    then have "leaf_nodes D (drop (2 * TREE_BASE) xs) =
        Some (map (mk_leaf D) (chunks (2 * TREE_BASE) (drop (2 * TREE_BASE) xs)))"
      using 1 by simp
    with False show ?thesis
      by (simp add: leaf_nodes.simps [of D xs] sum_from_first_ok chunks_step mk_leaf_def)
  qed (simp add: leaf_nodes.simps)
qed

lemma build_levels_step:
  "build_levels D h nodes =
    (if 1 < length nodes then build_levels D (h + 1) (map (mk_internal D (h + 1)) (chunks (2 * TREE_BASE) nodes))
     else Some nodes)"
  using group_parents_chunks [of "[]" D "h + 1" nodes]
  by (simp add: build_levels.simps [of D h nodes])

lemma parents_ok:
  assumes "\<forall>t \<in> set nodes. wf_node D t \<and> node_height t = h"
  defines "ps \<equiv> map (mk_internal D (h + 1)) (chunks (2 * TREE_BASE) nodes)"
  shows "\<forall>t \<in> set ps. wf_node D t \<and> node_height t = h + 1"
    and "concat (map flatten ps) = concat (map flatten nodes)"
    and "1 < length nodes \<Longrightarrow> length ps < length nodes"
    and "nodes \<noteq> [] \<Longrightarrow> ps \<noteq> []"
proof -
  show "\<forall>t \<in> set ps. wf_node D t \<and> node_height t = h + 1"
    using assms by (force dest: chunks_elem)
  have "concat (map (\<lambda>ts. concat (map flatten ts)) tss) = concat (map flatten (concat tss))" for tss
    by (induction tss) auto
  then have "concat (map flatten ps) = concat (map flatten (concat (chunks (2 * TREE_BASE) nodes)))"
    by (simp add: ps_def comp_def)
  then show "concat (map flatten ps) = concat (map flatten nodes)"
    by (simp add: concat_chunks)
  show "1 < length nodes \<Longrightarrow> length ps < length nodes"
    by (simp add: ps_def length_chunks_less TREE_BASE_def)
  show "nodes \<noteq> [] \<Longrightarrow> ps \<noteq> []"
    by (simp add: ps_def)
qed

lemma build_levels_ok:
  assumes "\<forall>t \<in> set nodes. wf_node D t \<and> node_height t = h" "nodes \<noteq> []"
  shows "\<exists>t. build_levels D h nodes = Some [t] \<and> wf_node D t \<and> flatten t = concat (map flatten nodes)"
  using assms
proof (induction nodes arbitrary: h rule: length_induct)
  case (1 nodes)
  show ?case
  proof (cases "1 < length nodes")
    case True
    note ps = parents_ok [OF "1.prems"(1)]
    from "1.IH" [rule_format, OF ps(3) [OF True] ps(1) [rule_format] ps(4) [OF "1.prems"(2)]]
    show ?thesis using True ps(2) by (auto simp: build_levels_step [of h nodes])
  next
    case False
    then obtain t where "nodes = [t]" using "1.prems"(2) by (cases nodes) auto
    then show ?thesis using "1.prems" by (simp add: build_levels_step)
  qed
qed

lemma from_iter_ok: "\<exists>t. from_iter D xs = Some t \<and> wf_tree D t \<and> flatten t = xs"
proof (cases "xs = []")
  case True
  then show ?thesis by (simp add: from_iter_def leaf_nodes.simps build_levels.simps)
next
  case False
  let ?ns = "map (mk_leaf D) (chunks (2 * TREE_BASE) xs)"
  have "\<forall>t \<in> set ?ns. wf_node D t \<and> node_height t = 0" by (auto dest: chunks_elem)
  moreover have "concat (map flatten ?ns) = xs" by (simp add: comp_def concat_chunks)
  ultimately obtain t where "build_levels D 0 ?ns = Some [t]" "wf_node D t" "flatten t = xs"
    using build_levels_ok [of ?ns 0] False by auto
  then show ?thesis by (simp add: from_iter_def leaf_nodes_chunks wf_tree_def)
qed

lemma extend_tree_ok:
  assumes "wf_tree D t"
  shows "\<exists>r. extend_tree D t xs = Some r \<and> wf_tree D r \<and> flatten r = flatten t @ xs"
  using from_iter_ok [of xs] append_tree_ok [OF assms] by (auto simp: extend_tree_def)

lemma push_ok:
  assumes "wf_tree D t"
  shows "\<exists>r. push D t x = Some r \<and> wf_tree D r \<and> flatten r = flatten t @ [x]"
  using append_tree_ok [OF assms, of "mk_leaf D [x]"]
  by (simp add: push_def wf_tree_def mk_leaf_def TREE_BASE_def)

text \<open>
  The parallel constructor builds the very same tree, given that the parallel iterator maps the
  chunks in order.
\<close>

lemma par_levels_eq:
  assumes "\<And>f nodes. par_nodes (2 * TREE_BASE) f nodes = those (map f (chunks (2 * TREE_BASE) nodes))"
  shows "par_levels D par_nodes h nodes = build_levels D h nodes"
proof (induction nodes arbitrary: h rule: length_induct)
  case (1 nodes)
  have "par_parent D (h + 1) ts = Some (mk_internal D (h + 1) ts)"
    if "ts \<in> set (chunks (2 * TREE_BASE) nodes)" for ts
    using chunks_elem [OF that] by (simp add: par_parent_def sum_from_first_ok mk_internal_def)
  then have "those (map (par_parent D (h + 1)) (chunks (2 * TREE_BASE) nodes)) =
      Some (map (mk_internal D (h + 1)) (chunks (2 * TREE_BASE) nodes))"
    by (rule those_map_cong)
  with 1 show ?case
    using length_chunks_less [of "2 * TREE_BASE" nodes]
    by (simp add: par_levels.simps [of D par_nodes h nodes] build_levels_step [of h nodes] assms)
qed

lemma from_par_iter_eq:
  assumes "\<And>f ys. par_items (2 * TREE_BASE) f ys = those (map f (chunks (2 * TREE_BASE) ys))"
    and "\<And>f nodes. par_nodes (2 * TREE_BASE) f nodes = those (map f (chunks (2 * TREE_BASE) nodes))"
  shows "from_par_iter D par_items par_nodes xs = from_iter D xs"
proof -
  have "those (map (par_leaf D) (chunks (2 * TREE_BASE) xs)) =
      Some (map (mk_leaf D) (chunks (2 * TREE_BASE) xs))"
    by (rule those_map_cong) (use chunks_elem in \<open>force simp: par_leaf_def sum_from_first_ok mk_leaf_def\<close>)
  then show ?thesis
    by (simp add: from_par_iter_def from_iter_def assms leaf_nodes_chunks par_levels_eq [of par_nodes])
qed

section \<open>First and last items\<close>

lemma rightmost_leaf_ok:
  assumes "wf_node D t"
  shows "\<exists>xs. rightmost_leaf t = Some (mk_leaf D xs) \<and> wf_node D (mk_leaf D xs) \<and>
           last_opt (flatten t) = last_opt xs"
  using assms
proof (induction rule: wf_node_induct)
  case (internal h ts)
  have l: "last ts \<in> set ts" using internal.hyps by simp
  have "wf_node D (last ts)" using internal.hyps l by blast
  then have "last_opt (concat (map flatten ts)) = last_opt (flatten (last ts))"
    using internal.hyps(1) by (simp add: concat_map_butlast_last)
  with internal.IH [OF l] internal.hyps show ?case by (auto simp: mk_internal_def)
qed (simp add: mk_leaf_def)

lemma leftmost_leaf_ok:
  assumes "wf_node D t"
  shows "\<exists>xs. leftmost_leaf t = Some (mk_leaf D xs) \<and> wf_node D (mk_leaf D xs) \<and>
           first_opt (flatten t) = first_opt xs"
  using assms
proof (induction rule: wf_node_induct)
  case (internal h ts)
  then obtain u us where "ts = u # us" by (cases ts) auto
  then show ?case using internal by (auto simp: mk_internal_def)
qed (simp add: mk_leaf_def)

lemma first_item_ok: "wf_tree D t \<Longrightarrow> first_item t = Some (first_opt (flatten t))"
  using leftmost_leaf_ok [of t]
  by (auto simp: wf_tree_def new_tree_def first_item_def)

lemma last_item_ok: "wf_tree D t \<Longrightarrow> last_item t = Some (last_opt (flatten t))"
  using rightmost_leaf_ok [of t]
  by (auto simp: wf_tree_def new_tree_def last_item_def)

lemma last_summary_ok: "wf_tree D t \<Longrightarrow> last_summary t = Some (map_option (item_summary D) (last_opt (flatten t)))"
  using rightmost_leaf_ok [of t]
  by (auto simp: wf_tree_def new_tree_def last_summary_def last_map)

lemma update_last_recursive_ok:
  assumes "wf_node D t"
  shows "\<exists>t'. update_last_recursive D f t = Some (t', Some (node_summary t')) \<and> wf_node D t' \<and>
           node_height t' = node_height t \<and>
           flatten t' = butlast (flatten t) @ [f (last (flatten t))]"
  using assms
proof (induction rule: wf_node_induct)
  case (leaf xs)
  then have "update_last_recursive D f (mk_leaf D xs) =
      (let ys = butlast xs @ [f (last xs)] in Some (mk_leaf D ys, Some (node_summary (mk_leaf D ys))))"
    by (simp add: mk_leaf_def set_last_def Let_def map_butlast)
  then show ?case using leaf by (simp add: Let_def)
next
  case (internal h ts)
  have l: "last ts \<in> set ts" using internal.hyps by simp
  then have wl: "wf_node D (last ts)" "h = Suc (node_height (last ts))" using internal.hyps by blast+
  from internal.IH [OF l] obtain c where
    c: "update_last_recursive D f (last ts) = Some (c, Some (node_summary c))" "wf_node D c"
      "node_height c = node_height (last ts)" "flatten c = butlast (flatten (last ts)) @ [f (last (flatten (last ts)))]"
    by blast
  let ?ts = "butlast ts @ [c]"
  have "update_last_recursive D f (mk_internal D h ts) =
      Some (mk_internal D h ?ts, Some (node_summary (mk_internal D h ?ts)))"
    using c(1) internal.hyps by (simp add: mk_internal_def set_last_def Let_def map_butlast)
  moreover have "wf_node D (mk_internal D h ?ts)"
    using c wl internal.hyps by (auto dest: in_set_butlastD)
  moreover have "flatten (mk_internal D h ?ts) =
      butlast (flatten (mk_internal D h ts)) @ [f (last (flatten (mk_internal D h ts)))]"
    using c wl internal.hyps(1)
    by (simp add: concat_map_butlast_last [of ts] butlast_append last_append)
  ultimately show ?case by auto
qed

lemma update_last_ok:
  assumes "wf_tree D t"
  shows "\<exists>t'. update_last D f t = Some t' \<and> wf_tree D t' \<and>
     flatten t' = (if flatten t = [] then [] else butlast (flatten t) @ [f (last (flatten t))])"
  using assms update_last_recursive_ok [of t f]
  by (auto simp: wf_tree_def new_tree_def update_last_def)

lemma update_first_recursive_ok:
  assumes "wf_node D t"
  shows "\<exists>t'. update_first_recursive D f t = Some (t', Some (node_summary t')) \<and> wf_node D t' \<and>
           node_height t' = node_height t \<and> flatten t' = f (hd (flatten t)) # tl (flatten t)"
  using assms
proof (induction rule: wf_node_induct)
  case (leaf xs)
  then obtain y ys where "xs = y # ys" by (cases xs) auto
  then show ?case using leaf by (simp add: mk_leaf_def Let_def)
next
  case (internal h ts)
  then obtain u us where ts: "ts = u # us" by (cases ts) auto
  then obtain c where
    c: "update_first_recursive D f u = Some (c, Some (node_summary c))" "wf_node D c"
      "node_height c = node_height u" "flatten c = f (hd (flatten u)) # tl (flatten u)"
    using internal.IH [of u] by auto
  have "update_first_recursive D f (mk_internal D h ts) =
      Some (mk_internal D h (c # us), Some (node_summary (mk_internal D h (c # us))))"
    using c(1) ts by (simp add: mk_internal_def Let_def)
  moreover have "flatten u \<noteq> []" using internal.hyps ts by auto
  ultimately show ?case using c ts internal.hyps by auto
qed

lemma update_first_ok:
  assumes "wf_tree D t"
  shows "\<exists>t'. update_first D f t = Some t' \<and> wf_tree D t' \<and>
     flatten t' = (if flatten t = [] then [] else f (hd (flatten t)) # tl (flatten t))"
  using assms update_first_recursive_ok [of t f]
  by (auto simp: wf_tree_def new_tree_def update_first_def)

end

section \<open>An instance\<close>

text \<open>A summary that counts the items, for concrete examples.\<close>

definition count_trait :: "('a, nat) item_trait" where
  "count_trait = \<lparr>item_summary = (\<lambda>_. 1), summary_zero = 0, add_summary = (+)\<rparr>"

interpretation count: summary_laws count_trait
  by unfold_locales (simp_all add: count_trait_def)

section \<open>Properties\<close>

text \<open>
  Claim C1. Appending one well-formed tree to another never panics (no node exceeds its capacity, no
  assertion fails, no height underflows), keeps the tree well-formed (balanced, every cached summary
  right) and concatenates the two sequences.
\<close>

theorem append_concatenates:
  assumes "summary_laws D" "wf_tree D t" "wf_tree D u"
  shows "\<exists>r. append_tree D t u = Some r \<and> wf_tree D r \<and> flatten r = flatten t @ flatten u"
  by (rule summary_laws.append_tree_ok [OF assms])

theorem append_concatenates_witness:
  "\<exists>r. append_tree count_trait (mk_leaf count_trait [1, 2, 3 :: int]) (mk_leaf count_trait [4, 5]) = Some r \<and>
     wf_tree count_trait r \<and> flatten r = [1, 2, 3, 4, 5]"
  using append_concatenates [OF count.summary_laws_axioms, of "mk_leaf count_trait [1, 2, 3 :: int]" "mk_leaf count_trait [4, 5]"]
  by (simp add: wf_tree_def TREE_BASE_def)

text \<open>
  Building a tree from a sequence never panics, ends, and gives a well-formed tree whose
  items are that sequence.
\<close>

theorem from_iter_builds:
  assumes "summary_laws D"
  shows "\<exists>t. from_iter D xs = Some t \<and> wf_tree D t \<and> flatten t = xs"
  by (rule summary_laws.from_iter_ok [OF assms])

theorem from_iter_builds_witness:
  "\<exists>t. from_iter count_trait [1 .. 13 :: int] = Some t \<and> wf_tree count_trait t \<and> flatten t = [1 .. 13]"
  by (rule from_iter_builds [OF count.summary_laws_axioms])

end
