(* ===== verification/SumTreeFind.thy ===== *)
theory SumTreeFind
  imports SumTreeBuild
begin

text \<open>
  Searching a tree by a dimension: \<^verbatim>\<open>find\<close>, \<^verbatim>\<open>find_exact\<close>, \<^verbatim>\<open>find_with_prev\<close> and their loops
  (\<^verbatim>\<open>crates/sum_tree/src/sum_tree.rs\<close>), and the facts about dimensions that the cursor shares.

  A \<^verbatim>\<open>SeekTarget\<close> is its comparison with a position, a function \<open>cmp :: 'd \<Rightarrow> ordering\<close>. The
  descent is shown to find what a scan over the items finds.
\<close>

section \<open>The searches\<close>

text \<open>\<^verbatim>\<open>target_in_child\<close>\<close>

definition in_child :: "bias \<Rightarrow> ordering \<Rightarrow> bool" where
  "in_child b c \<longleftrightarrow> c = Less \<or> (c = Equal \<and> b = Left)"

text \<open>\<^verbatim>\<open>entry_found\<close>\<close>

definition entry_found :: "bool \<Rightarrow> bias \<Rightarrow> ordering \<Rightarrow> bool" where
  "entry_found exact b c = (if exact then c = Equal else in_child b c)"

text \<open>
  The two \<^verbatim>\<open>for\<close> loops of \<^verbatim>\<open>find_iterate\<close>, over the children of an internal node and over the
  items of a leaf: the first entry at whose end the search stops, with the position before it.
\<close>

fun scan :: "('s, 'd) dimension \<Rightarrow> ('d \<Rightarrow> bool) \<Rightarrow> 'd \<Rightarrow> ('x \<times> 's) list \<Rightarrow> 'd \<times> ('x \<times> 'd) option" where
  "scan M stop pos [] = (pos, None)"
| "scan M stop pos ((x, s) # rest) =
     (let child_end = dim_add M pos s
      in if stop child_end then (pos, Some (x, child_end)) else scan M stop child_end rest)"

lemma scan_found_in: "scan M stop pos zs = (p, Some (x, e)) \<Longrightarrow> x \<in> fst ` set zs"
  by (induction M stop pos zs rule: scan.induct) (auto simp: Let_def split: if_splits)

lemma size_zip_elem: "x \<in> fst ` set (zip xs ss) \<Longrightarrow> size x < Suc (n + size_list size xs)"
  by (auto simp: less_Suc_eq_le trans_le_add2 size_list_estimation' [OF set_zip_leftD order_refl])

function find_iterate ::
    "('s, 'd) dimension \<Rightarrow> ('d \<Rightarrow> ordering) \<Rightarrow> bool \<Rightarrow> bias \<Rightarrow> 'd \<Rightarrow> ('a, 's) node \<Rightarrow> 'd \<times> ('a \<times> 'd) option" where
  "find_iterate M cmp exact b pos (Internal h s ss ts) =
     (case scan M (\<lambda>d. in_child b (cmp d)) pos (zip ts ss) of
        (pos', Some (t, _)) \<Rightarrow> find_iterate M cmp exact b pos' t
      | (pos', None) \<Rightarrow> (pos', None))"
| "find_iterate M cmp exact b pos (Leaf s xs ss) =
     scan M (\<lambda>d. entry_found exact b (cmp d)) pos (zip xs ss)"
  by pat_completeness auto
termination
  by (relation "measure (\<lambda>(M, cmp, exact, b, pos, t). size t)")
    (auto dest!: scan_found_in [OF sym] size_zip_elem)

definition past_end :: "bias \<Rightarrow> ordering \<Rightarrow> bool" where
  "past_end b c \<longleftrightarrow> c = Greater \<or> (c = Equal \<and> b = Right)"

definition find_tree ::
    "('s, 'd) dimension \<Rightarrow> ('d \<Rightarrow> ordering) \<Rightarrow> bias \<Rightarrow> ('a, 's) node \<Rightarrow> 'd \<times> 'd \<times> 'a option" where
  "find_tree M cmp b t =
     (let tree_end = dim_add M (dim_zero M) (node_summary t)
      in if past_end b (cmp tree_end) then (tree_end, tree_end, None)
         else (case find_iterate M cmp False b (dim_zero M) t of
                 (pos, Some (x, end)) \<Rightarrow> (pos, end, Some x)
               | (pos, None) \<Rightarrow> (pos, pos, None)))"

definition find_exact ::
    "('s, 'd) dimension \<Rightarrow> ('d \<Rightarrow> ordering) \<Rightarrow> bias \<Rightarrow> ('a, 's) node \<Rightarrow> 'd \<times> 'd \<times> 'a option" where
  "find_exact M cmp b t =
     (let tree_end = dim_add M (dim_zero M) (node_summary t)
      in if past_end b (cmp tree_end) then (tree_end, tree_end, None)
         else (case find_iterate M cmp True b (dim_zero M) t of
                 (pos, Some (x, end)) \<Rightarrow> (pos, end, Some x)
               | (pos, None) \<Rightarrow> (pos, pos, None)))"

text \<open>
  The loops of \<^verbatim>\<open>find_with_prev_iterate\<close> also carry \<open>prev\<close>; on an internal node it becomes the last
  item of the child passed over, which may panic.
\<close>

fun scan_prev ::
    "('s, 'd) dimension \<Rightarrow> ('d \<Rightarrow> bool) \<Rightarrow> ('x \<Rightarrow> 'a option option) \<Rightarrow> 'd \<Rightarrow> 'a option \<Rightarrow> ('x \<times> 's) list
      \<Rightarrow> ('d \<times> 'a option \<times> ('x \<times> 'd) option) option" where
  "scan_prev M stop lst pos prev [] = Some (pos, prev, None)"
| "scan_prev M stop lst pos prev ((x, s) # rest) =
     (let child_end = dim_add M pos s
      in if stop child_end then Some (pos, prev, Some (x, child_end))
         else do { prev' \<leftarrow> lst x; scan_prev M stop lst child_end prev' rest })"

lemma scan_prev_found_in:
  "scan_prev M stop lst pos prev zs = Some (p, q, Some (x, e)) \<Longrightarrow> x \<in> fst ` set zs"
  by (induction M stop lst pos prev zs rule: scan_prev.induct)
    (auto simp: Let_def bind_eq_Some_conv split: if_splits)

function find_with_prev_iterate ::
    "('s, 'd) dimension \<Rightarrow> ('d \<Rightarrow> ordering) \<Rightarrow> bool \<Rightarrow> bias \<Rightarrow> 'd \<Rightarrow> 'a option \<Rightarrow> ('a, 's) node
      \<Rightarrow> ('d \<times> 'a option \<times> ('a \<times> 'd) option) option" where
  "find_with_prev_iterate M cmp exact b pos prev (Internal h s ss ts) =
     (case scan_prev M (\<lambda>d. in_child b (cmp d)) last_item pos prev (zip ts ss) of
        None \<Rightarrow> None
      | Some (pos', prev', Some (t, _)) \<Rightarrow> find_with_prev_iterate M cmp exact b pos' prev' t
      | Some (pos', prev', None) \<Rightarrow> Some (pos', prev', None))"
| "find_with_prev_iterate M cmp exact b pos prev (Leaf s xs ss) =
     scan_prev M (\<lambda>d. entry_found exact b (cmp d)) (\<lambda>x. Some (Some x)) pos prev (zip xs ss)"
  by pat_completeness auto
termination
  by (relation "measure (\<lambda>(M, cmp, exact, b, pos, prev, t). size t)")
    (auto dest!: scan_prev_found_in size_zip_elem)

definition find_with_prev ::
    "('s, 'd) dimension \<Rightarrow> ('d \<Rightarrow> ordering) \<Rightarrow> bias \<Rightarrow> ('a, 's) node
      \<Rightarrow> ('d \<times> 'd \<times> ('a option \<times> 'a) option) option" where
  "find_with_prev M cmp b t =
     (let tree_end = dim_add M (dim_zero M) (node_summary t)
      in if past_end b (cmp tree_end) then Some (tree_end, tree_end, None)
         else (case find_with_prev_iterate M cmp False b (dim_zero M) None t of
                 None \<Rightarrow> None
               | Some (pos, prev, Some (x, end)) \<Rightarrow> Some (pos, end, Some (prev, x))
               | Some (pos, prev, None) \<Rightarrow> Some (pos, pos, None)))"

section \<open>Positions along a sequence\<close>

text \<open>
  \<open>pos_after M d ss\<close> is the position reached from \<open>d\<close> over the summaries \<open>ss\<close>; \<open>ends\<close> lists the
  positions at the end of every entry; \<open>stop_index\<close> counts the entries before the first one at
  whose end the search stops. \<open>seekable\<close>: the target compares against the positions of a sequence
  in order, first greater, then equal, then less.
\<close>

abbreviation pos_after :: "('s, 'd) dimension \<Rightarrow> 'd \<Rightarrow> 's list \<Rightarrow> 'd" where
  "pos_after M \<equiv> foldl (dim_add M)"

fun ends :: "('s, 'd) dimension \<Rightarrow> 'd \<Rightarrow> 's list \<Rightarrow> 'd list" where
  "ends M pos [] = []"
| "ends M pos (s # ss) = dim_add M pos s # ends M (dim_add M pos s) ss"

definition stop_index :: "('s, 'd) dimension \<Rightarrow> ('d \<Rightarrow> bool) \<Rightarrow> 'd \<Rightarrow> 's list \<Rightarrow> nat" where
  "stop_index M stop pos ss = length (takeWhile (\<lambda>e. \<not> stop e) (ends M pos ss))"

fun rank :: "ordering \<Rightarrow> nat" where
  "rank Less = 0"
| "rank Equal = 1"
| "rank Greater = 2"

definition seekable :: "('s, 'd) dimension \<Rightarrow> ('d \<Rightarrow> ordering) \<Rightarrow> 'd \<Rightarrow> 's list \<Rightarrow> bool" where
  "seekable M cmp pos ss \<longleftrightarrow> sorted_wrt (\<lambda>d e. rank (cmp e) \<le> rank (cmp d)) (ends M pos ss)"

lemma length_ends [simp]: "length (ends M pos ss) = length ss"
  by (induction ss arbitrary: pos) auto

lemma ends_append [simp]: "ends M pos (xs @ ys) = ends M pos xs @ ends M (pos_after M pos xs) ys"
  by (induction xs arbitrary: pos) auto

lemma ends_eq_Nil [simp]: "ends M pos ss = [] \<longleftrightarrow> ss = []"
  by (cases ss) auto

lemma last_ends: "ss \<noteq> [] \<Longrightarrow> last (ends M pos ss) = pos_after M pos ss"
  by (induction ss arbitrary: pos) auto

lemma pos_after_in_ends: "ss \<noteq> [] \<Longrightarrow> pos_after M pos ss \<in> set (ends M pos ss)"
  by (metis last_ends last_in_set length_0_conv length_ends)

lemma nth_ends: "i < length ss \<Longrightarrow> ends M pos ss ! i = pos_after M pos (take (Suc i) ss)"
proof (induction ss arbitrary: pos i)
  case (Cons s ss)
  then show ?case by (cases i) auto
qed simp

lemma stop_index_le: "stop_index M stop pos ss \<le> length ss"
  using length_takeWhile_le [of _ "ends M pos ss"] by (simp add: stop_index_def)

lemma stop_index_append:
  "stop_index M stop pos (xs @ ys) =
   (if \<forall>e \<in> set (ends M pos xs). \<not> stop e
    then length xs + stop_index M stop (pos_after M pos xs) ys else stop_index M stop pos xs)"
  by (auto simp: stop_index_def takeWhile_append)

lemma stop_index_Cons:
  "stop_index M stop pos (s # ss) =
   (if stop (dim_add M pos s) then 0 else Suc (stop_index M stop (dim_add M pos s) ss))"
  by (simp add: stop_index_def)

lemma stop_index_Nil [simp]: "stop_index M stop pos [] = 0"
  by (simp add: stop_index_def)

lemma stop_index_all: "stop_index M stop pos ss = length ss \<longleftrightarrow> (\<forall>e \<in> set (ends M pos ss). \<not> stop e)"
  by (metis (no_types, lifting) length_ends stop_index_def takeWhile_eq_all_conv takeWhile_eq_take take_all_iff order_refl
      length_takeWhile_le)

lemma stop_at_index:
  assumes "stop_index M stop pos ss < length ss"
  shows "stop (pos_after M pos (take (Suc (stop_index M stop pos ss)) ss))"
  using assms nth_length_takeWhile [of "\<lambda>e. \<not> stop e" "ends M pos ss"]
  by (simp add: stop_index_def nth_ends)

lemma not_stop_before_index:
  assumes "i < stop_index M stop pos ss"
  shows "\<not> stop (pos_after M pos (take (Suc i) ss))"
proof -
  have "i < length ss" using assms stop_index_le [of M stop pos ss] by simp
  then show ?thesis
    using assms nth_mem [of i "takeWhile (\<lambda>e. \<not> stop e) (ends M pos ss)"]
    by (auto simp: stop_index_def takeWhile_nth nth_ends dest: set_takeWhileD)
qed

lemma scan_spec:
  assumes "length xs = length ss"
  shows "scan M stop pos (zip xs ss) =
    (let i = stop_index M stop pos ss
     in if i < length xs then (pos_after M pos (take i ss), Some (xs ! i, pos_after M pos (take (Suc i) ss)))
        else (pos_after M pos ss, None))"
  using assms
proof (induction xs ss arbitrary: pos rule: list_induct2)
  case (Cons x xs s ss)
  then show ?case by (simp add: Let_def stop_index_Cons)
qed simp

lemma scan_append:
  "scan M stop pos (xs @ ys) =
   (case scan M stop pos xs of (p, None) \<Rightarrow> scan M stop p ys | (p, Some r) \<Rightarrow> (p, Some r))"
  by (induction M stop pos xs rule: scan.induct) (auto simp: Let_def)

lemma seekable_append:
  "seekable M cmp pos (xs @ ys) \<longleftrightarrow> seekable M cmp pos xs \<and> seekable M cmp (pos_after M pos xs) ys \<and>
   (\<forall>d \<in> set (ends M pos xs). \<forall>e \<in> set (ends M (pos_after M pos xs) ys). rank (cmp e) \<le> rank (cmp d))"
  by (auto simp: seekable_def sorted_wrt_append)

lemma in_child_rank: "in_child b c \<longleftrightarrow> rank c < (case b of Left \<Rightarrow> 2 | Right \<Rightarrow> 1)"
  by (cases c; cases b) (simp_all add: in_child_def)

lemma past_end_not_in_child: "past_end b c \<longleftrightarrow> \<not> in_child b c"
  by (cases c; cases b) (simp_all add: in_child_def past_end_def)

lemma seekable_in_child_last:
  assumes "seekable M cmp pos ss" "ss \<noteq> []" "e \<in> set (ends M pos ss)" "in_child b (cmp e)"
  shows "in_child b (cmp (pos_after M pos ss))"
proof -
  obtain us e' where us: "ends M pos ss = us @ [e']"
    by (metis assms(2) length_0_conv length_ends rev_exhaust)
  then have "e' = pos_after M pos ss" using last_ends [OF assms(2), of M pos] by simp
  then show ?thesis using assms us by (auto simp: seekable_def sorted_wrt_append in_child_rank)
qed

abbreviation prev_after :: "'a option \<Rightarrow> 'a list \<Rightarrow> 'a option" where
  "prev_after prev ys \<equiv> (if ys = [] then prev else Some (last ys))"

lemma scan_prev_spec:
  assumes "length xs = length ss"
  shows "scan_prev M stop (\<lambda>x. Some (Some x)) pos prev (zip xs ss) =
    (let i = stop_index M stop pos ss
     in if i < length xs
        then Some (pos_after M pos (take i ss), prev_after prev (take i xs),
               Some (xs ! i, pos_after M pos (take (Suc i) ss)))
        else Some (pos_after M pos ss, prev_after prev xs, None))"
  using assms
proof (induction xs ss arbitrary: pos prev rule: list_induct2)
  case (Cons x xs s ss)
  then show ?case by (auto simp: Let_def stop_index_Cons take_Cons')
qed simp

lemma scan_prev_append:
  "scan_prev M stop lst pos prev (xs @ ys) =
   (case scan_prev M stop lst pos prev xs of
      None \<Rightarrow> None
    | Some (p, q, None) \<Rightarrow> scan_prev M stop lst p q ys
    | Some (p, q, Some r) \<Rightarrow> Some (p, q, Some r))"
  by (induction M stop lst pos prev xs rule: scan_prev.induct)
    (auto simp: Let_def split: option.split bind_splits)

section \<open>Laws of a dimension\<close>

locale dimension_laws = summary_laws D for D :: "('a, 's) item_trait" +
  fixes M :: "('s, 'd) dimension"
  assumes dim_add_add: "dim_add M d (add_summary D a b) = dim_add M (dim_add M d a) b"
begin

lemma dim_add_sum_of: "ss \<noteq> [] \<Longrightarrow> dim_add M d (sum_of D ss) = pos_after M d ss"
proof (induction ss rule: rev_induct)
  case (snoc s ss)
  then show ?case by (cases "ss = []") (simp_all add: sum_of_append dim_add_add)
qed simp

lemma dim_add_node: "wf_node D t \<Longrightarrow> dim_add M d (node_summary t) = pos_after M d (map (item_summary D) (flatten t))"
  by (simp add: wf_node_summary dim_add_sum_of)

text \<open>Searching the children of a node: the descent against the scan over all their items.\<close>

abbreviation item_entries :: "'a list \<Rightarrow> ('a \<times> 's) list" where
  "item_entries xs \<equiv> zip xs (map (item_summary D) xs)"

lemma scan_items_hit:
  assumes "seekable M cmp pos (map (item_summary D) xs)" "xs \<noteq> []"
    and "in_child b (cmp (pos_after M pos (map (item_summary D) xs)))"
  shows "\<exists>p r. scan M (\<lambda>d. in_child b (cmp d)) pos (item_entries xs) = (p, Some r)"
proof -
  let ?ss = "map (item_summary D) xs"
  have "stop_index M (\<lambda>d. in_child b (cmp d)) pos ?ss \<noteq> length ?ss"
    using assms pos_after_in_ends [of ?ss M pos] unfolding stop_index_all by auto
  then have "stop_index M (\<lambda>d. in_child b (cmp d)) pos ?ss < length ?ss"
    using stop_index_le [of M "\<lambda>d. in_child b (cmp d)" pos ?ss] by linarith
  then show ?thesis by (simp add: scan_spec Let_def)
qed

lemma scan_items_miss:
  assumes "seekable M cmp pos (map (item_summary D) xs)" "xs \<noteq> []"
    and "\<not> in_child b (cmp (pos_after M pos (map (item_summary D) xs)))"
  shows "scan M (\<lambda>d. in_child b (cmp d)) pos (item_entries xs) = (pos_after M pos (map (item_summary D) xs), None)"
proof -
  let ?ss = "map (item_summary D) xs"
  have "stop_index M (\<lambda>d. in_child b (cmp d)) pos ?ss = length ?ss"
    using assms seekable_in_child_last [of M cmp pos ?ss] unfolding stop_index_all by auto
  then show ?thesis by (simp add: scan_spec)
qed

lemma find_children:
  assumes "\<forall>t \<in> set ts. wf_node D t"
    and "seekable M cmp pos (map (item_summary D) (concat (map flatten ts)))"
    and "\<And>t p. t \<in> set ts \<Longrightarrow> seekable M cmp p (map (item_summary D) (flatten t)) \<Longrightarrow>
           F p t = post (scan M (\<lambda>d. in_child b (cmp d)) p (item_entries (flatten t)))"
  shows "(case scan M (\<lambda>d. in_child b (cmp d)) pos (zip ts (map node_summary ts)) of
            (p, Some (t, _)) \<Rightarrow> F p t
          | (p, None) \<Rightarrow> post (p, None)) =
         post (scan M (\<lambda>d. in_child b (cmp d)) pos (item_entries (concat (map flatten ts))))"
  using assms
proof (induction ts arbitrary: pos)
  case (Cons t ts)
  let ?e = "pos_after M pos (map (item_summary D) (flatten t))"
  have wf: "wf_node D t" and sk: "seekable M cmp pos (map (item_summary D) (flatten t))"
    "seekable M cmp ?e (map (item_summary D) (concat (map flatten ts)))"
    using Cons.prems by (simp_all add: seekable_append)
  show ?case
  proof (cases "in_child b (cmp ?e)")
    case True
    then show ?thesis
      using scan_items_hit [OF sk(1) _ True] Cons.prems(3) [of t pos] sk(1) wf
      by (auto simp: Let_def dim_add_node scan_append)
  next
    case False
    then show ?thesis
      using scan_items_miss [OF sk(1) _ False] Cons.IH [of ?e] Cons.prems sk wf
      by (simp add: Let_def dim_add_node scan_append)
  qed
qed simp

lemma find_iterate_scan:
  assumes "wf_node D t" "seekable M cmp pos (map (item_summary D) (flatten t))"
  shows "find_iterate M cmp False b pos t = scan M (\<lambda>d. in_child b (cmp d)) pos (item_entries (flatten t))"
  using assms
proof (induction arbitrary: pos rule: wf_node_induct)
  case (leaf xs)
  then show ?case by (simp add: mk_leaf_def entry_found_def)
next
  case (internal h ts)
  then show ?case
    using find_children [of ts cmp pos "find_iterate M cmp False b" "\<lambda>r. r" b]
    by (simp add: mk_internal_def)
qed

text \<open>Exact search with a left bias: the entry the search stops at, if it ends at the target.\<close>

abbreviation exact_hit :: "('d \<Rightarrow> ordering) \<Rightarrow> 'd \<times> ('a \<times> 'd) option \<Rightarrow> ('a \<times> 'd) option" where
  "exact_hit cmp r \<equiv> (case snd r of Some (x, e) \<Rightarrow> if cmp e = Equal then Some (x, e) else None | None \<Rightarrow> None)"

lemma scan_exact:
  assumes "seekable M cmp pos (map (item_summary D) xs)"
  shows "snd (scan M (\<lambda>d. cmp d = Equal) pos (item_entries xs)) =
    exact_hit cmp (scan M (\<lambda>d. in_child Left (cmp d)) pos (item_entries xs))"
  using assms
proof (induction xs arbitrary: pos)
  case (Cons x xs)
  let ?e = "dim_add M pos (item_summary D x)"
  have sk: "seekable M cmp ?e (map (item_summary D) xs)"
    and le: "\<And>e. e \<in> set (ends M ?e (map (item_summary D) xs)) \<Longrightarrow> rank (cmp e) \<le> rank (cmp ?e)"
    using Cons.prems by (auto simp: seekable_def)
  show ?case
  proof (cases "cmp ?e")
    case Less
    then have "stop_index M (\<lambda>d. cmp d = Equal) ?e (map (item_summary D) xs) = length (map (item_summary D) xs)"
      unfolding stop_index_all using le by fastforce
    then show ?thesis using Less by (simp add: Let_def in_child_def scan_spec)
  qed (use Cons.IH [OF sk] in \<open>simp_all add: Let_def in_child_def\<close>)
qed simp

lemma find_iterate_exact:
  assumes "wf_node D t" "seekable M cmp pos (map (item_summary D) (flatten t))"
  shows "snd (find_iterate M cmp True Left pos t) =
    exact_hit cmp (scan M (\<lambda>d. in_child Left (cmp d)) pos (item_entries (flatten t)))"
  using assms
proof (induction arbitrary: pos rule: wf_node_induct)
  case (leaf xs)
  then show ?case using scan_exact [of cmp pos xs] by (simp add: mk_leaf_def entry_found_def)
next
  case (internal h ts)
  have "snd (find_iterate M cmp True Left pos (mk_internal D h ts)) =
      (case scan M (\<lambda>d. in_child Left (cmp d)) pos (zip ts (map node_summary ts)) of
         (p, Some (t, _)) \<Rightarrow> snd (find_iterate M cmp True Left p t)
       | (p, None) \<Rightarrow> exact_hit cmp (p, None))"
    by (auto simp: mk_internal_def split: prod.split option.split)
  also have "\<dots> = exact_hit cmp (scan M (\<lambda>d. in_child Left (cmp d)) pos (item_entries (concat (map flatten ts))))"
    using internal by (intro find_children) auto
  finally show ?case by simp
qed

text \<open>The search that also reports the item before.\<close>

lemma scan_prev_hit_or_miss:
  fixes b prev
  assumes "seekable M cmp pos (map (item_summary D) xs)" "xs \<noteq> []"
  defines "r \<equiv> scan_prev M (\<lambda>d. in_child b (cmp d)) (\<lambda>x. Some (Some x)) pos prev (item_entries xs)"
  shows "in_child b (cmp (pos_after M pos (map (item_summary D) xs))) \<Longrightarrow> \<exists>p q z. r = Some (p, q, Some z)"
    and "\<not> in_child b (cmp (pos_after M pos (map (item_summary D) xs))) \<Longrightarrow>
      r = Some (pos_after M pos (map (item_summary D) xs), Some (last xs), None)"
proof -
  let ?i = "stop_index M (\<lambda>d. in_child b (cmp d)) pos (map (item_summary D) xs)"
  {
    assume "in_child b (cmp (pos_after M pos (map (item_summary D) xs)))"
    with scan_items_hit [OF assms(1,2) this] have "?i < length xs"
      by (auto simp: scan_spec Let_def split: if_splits)
    then show "\<exists>p q z. r = Some (p, q, Some z)" by (simp add: r_def scan_prev_spec Let_def)
  next
    assume "\<not> in_child b (cmp (pos_after M pos (map (item_summary D) xs)))"
    with scan_items_miss [OF assms(1,2) this] have "\<not> ?i < length xs"
      by (auto simp: scan_spec Let_def split: if_splits)
    then show "r = Some (pos_after M pos (map (item_summary D) xs), Some (last xs), None)"
      using assms(2) by (simp add: r_def scan_prev_spec Let_def)
  }
qed

lemma find_with_prev_children:
  assumes "\<forall>t \<in> set ts. wf_node D t"
    and "seekable M cmp pos (map (item_summary D) (concat (map flatten ts)))"
    and "\<And>t p q. t \<in> set ts \<Longrightarrow> seekable M cmp p (map (item_summary D) (flatten t)) \<Longrightarrow>
           find_with_prev_iterate M cmp False b p q t =
           scan_prev M (\<lambda>d. in_child b (cmp d)) (\<lambda>x. Some (Some x)) p q (item_entries (flatten t))"
  shows "(case scan_prev M (\<lambda>d. in_child b (cmp d)) last_item pos prev (zip ts (map node_summary ts)) of
            None \<Rightarrow> None
          | Some (p, q, Some (t, _)) \<Rightarrow> find_with_prev_iterate M cmp False b p q t
          | Some (p, q, None) \<Rightarrow> Some (p, q, None)) =
         scan_prev M (\<lambda>d. in_child b (cmp d)) (\<lambda>x. Some (Some x)) pos prev (item_entries (concat (map flatten ts)))"
  using assms
proof (induction ts arbitrary: pos prev)
  case (Cons t ts)
  let ?e = "pos_after M pos (map (item_summary D) (flatten t))"
  have wf: "wf_node D t" and sk: "seekable M cmp pos (map (item_summary D) (flatten t))"
    "seekable M cmp ?e (map (item_summary D) (concat (map flatten ts)))"
    using Cons.prems by (simp_all add: seekable_append)
  have last: "last_item t = Some (Some (last (flatten t)))"
    using wf by (simp add: last_item_ok wf_tree_def)
  show ?case
  proof (cases "in_child b (cmp ?e)")
    case True
    then show ?thesis
      using scan_prev_hit_or_miss(1) [OF sk(1) _ True, of prev] Cons.prems(3) [of t pos prev] sk(1) wf
      by (auto simp: Let_def dim_add_node scan_prev_append)
  next
    case False
    then show ?thesis
      using scan_prev_hit_or_miss(2) [OF sk(1) _ False, of prev] last
        Cons.IH [of ?e "Some (last (flatten t))"] Cons.prems sk wf
      by (simp add: Let_def dim_add_node scan_prev_append)
  qed
qed simp

lemma find_with_prev_iterate_scan:
  assumes "wf_node D t" "seekable M cmp pos (map (item_summary D) (flatten t))"
  shows "find_with_prev_iterate M cmp False b pos prev t =
    scan_prev M (\<lambda>d. in_child b (cmp d)) (\<lambda>x. Some (Some x)) pos prev (item_entries (flatten t))"
  using assms
proof (induction arbitrary: pos prev rule: wf_node_induct)
  case (leaf xs)
  then show ?case by (simp add: mk_leaf_def entry_found_def)
next
  case (internal h ts)
  then show ?case
    using find_with_prev_children [of ts cmp pos b prev] by (simp add: mk_internal_def)
qed

section \<open>What the searches return\<close>

abbreviation item_pos :: "'a list \<Rightarrow> 'd" where
  "item_pos xs \<equiv> pos_after M (dim_zero M) (map (item_summary D) xs)"

abbreviation item_index :: "('d \<Rightarrow> ordering) \<Rightarrow> bias \<Rightarrow> 'a list \<Rightarrow> nat" where
  "item_index cmp b xs \<equiv> stop_index M (\<lambda>d. in_child b (cmp d)) (dim_zero M) (map (item_summary D) xs)"

lemma find_tree_ok:
  assumes "wf_node D t" "seekable M cmp (dim_zero M) (map (item_summary D) (flatten t))"
  shows "find_tree M cmp b t =
    (let xs = flatten t; i = item_index cmp b xs
     in if i < length xs then (item_pos (take i xs), item_pos (take (Suc i) xs), Some (xs ! i))
        else (item_pos xs, item_pos xs, None))"
proof (cases "in_child b (cmp (item_pos (flatten t)))")
  case True
  then obtain p r where r: "scan M (\<lambda>d. in_child b (cmp d)) (dim_zero M) (item_entries (flatten t)) = (p, Some r)"
    using scan_items_hit [OF assms(2) _ True] assms(1) by auto
  then have "item_index cmp b (flatten t) < length (flatten t)"
    by (auto simp: scan_spec Let_def split: if_splits)
  then show ?thesis
    using True assms
    by (simp add: find_tree_def dim_add_node past_end_not_in_child find_iterate_scan scan_spec Let_def take_map)
next
  case False
  then have "item_index cmp b (flatten t) = length (map (item_summary D) (flatten t))"
    unfolding stop_index_all
    using assms seekable_in_child_last [of M cmp "dim_zero M" "map (item_summary D) (flatten t)"] by auto
  then show ?thesis
    using False assms by (simp add: find_tree_def dim_add_node past_end_not_in_child Let_def)
qed

lemma find_exact_left_ok:
  assumes "wf_node D t" "seekable M cmp (dim_zero M) (map (item_summary D) (flatten t))"
  shows "snd (snd (find_exact M cmp Left t)) =
    (let xs = flatten t; i = item_index cmp Left xs
     in if i < length xs \<and> cmp (item_pos (take (Suc i) xs)) = Equal then Some (xs ! i) else None)"
proof (cases "in_child Left (cmp (item_pos (flatten t)))")
  case True
  have "snd (snd (find_exact M cmp Left t)) =
      map_option fst (snd (find_iterate M cmp True Left (dim_zero M) t))"
    using True assms
    by (auto simp: find_exact_def dim_add_node past_end_not_in_child Let_def split: prod.split option.split)
  then show ?thesis
    using True assms by (simp add: find_iterate_exact scan_spec Let_def take_map)
next
  case False
  then have "item_index cmp Left (flatten t) = length (map (item_summary D) (flatten t))"
    unfolding stop_index_all
    using assms seekable_in_child_last [of M cmp "dim_zero M" "map (item_summary D) (flatten t)"] by auto
  then show ?thesis
    using False assms by (simp add: find_exact_def dim_add_node past_end_not_in_child Let_def)
qed

lemma find_with_prev_ok:
  assumes "wf_node D t" "seekable M cmp (dim_zero M) (map (item_summary D) (flatten t))"
  shows "find_with_prev M cmp b t =
    (let xs = flatten t; i = item_index cmp b xs
     in if i < length xs
        then Some (item_pos (take i xs), item_pos (take (Suc i) xs), Some (last_opt (take i xs), xs ! i))
        else Some (item_pos xs, item_pos xs, None))"
proof (cases "in_child b (cmp (item_pos (flatten t)))")
  case True
  then obtain p r where r: "scan M (\<lambda>d. in_child b (cmp d)) (dim_zero M) (item_entries (flatten t)) = (p, Some r)"
    using scan_items_hit [OF assms(2) _ True] assms(1) by auto
  then have "item_index cmp b (flatten t) < length (flatten t)"
    by (auto simp: scan_spec Let_def split: if_splits)
  then show ?thesis
    using True assms
    by (simp add: find_with_prev_def dim_add_node past_end_not_in_child find_with_prev_iterate_scan
        scan_prev_spec Let_def take_map last_opt_def)
next
  case False
  then have "item_index cmp b (flatten t) = length (map (item_summary D) (flatten t))"
    unfolding stop_index_all
    using assms seekable_in_child_last [of M cmp "dim_zero M" "map (item_summary D) (flatten t)"] by auto
  then show ?thesis
    using False assms by (simp add: find_with_prev_def dim_add_node past_end_not_in_child Let_def)
qed

end

section \<open>An instance\<close>

text \<open>The number of items as a dimension of the counting summary.\<close>

definition count_dim :: "(nat, nat) dimension" where
  "count_dim = \<lparr>dim_zero = 0, dim_add = (+)\<rparr>"

interpretation counting: dimension_laws count_trait count_dim
  by unfold_locales (simp add: count_trait_def count_dim_def)

lemma count_simps [simp]:
  "item_summary count_trait x = 1" "dim_zero count_dim = 0" "dim_add count_dim m n = m + n"
  by (simp_all add: count_trait_def count_dim_def)

section \<open>Properties\<close>

text \<open>
  \<^verbatim>\<open>find\<close> descends to the item a scan over the whole sequence stops at: the first item
  at whose end the target is not passed, with the positions before and after it; when there is
  none, the end of the tree and no item.
\<close>

theorem find_locates:
  assumes "dimension_laws D M" "wf_node D t"
    and "seekable M cmp (dim_zero M) (map (item_summary D) (flatten t))"
  shows "find_tree M cmp b t =
    (let xs = flatten t; pos = \<lambda>ys. pos_after M (dim_zero M) (map (item_summary D) ys);
         i = stop_index M (\<lambda>d. in_child b (cmp d)) (dim_zero M) (map (item_summary D) xs)
     in if i < length xs then (pos (take i xs), pos (take (Suc i) xs), Some (xs ! i))
        else (pos xs, pos xs, None))"
  unfolding Let_def by (rule dimension_laws.find_tree_ok [OF assms, unfolded Let_def])

theorem find_locates_witness:
  "find_tree count_dim (ord_cmp 2) Right (mk_leaf count_trait [10, 20, 30 :: int]) = (2, 3, Some 30)"
  using find_locates [OF counting.dimension_laws_axioms, of "mk_leaf count_trait [10, 20, 30 :: int]" "ord_cmp 2" Right]
  by (simp add: seekable_def stop_index_def in_child_def TREE_BASE_def ord_cmp_def Let_def)

text \<open>
  \<^verbatim>\<open>find_with_prev\<close> finds the same item and reports the one before it (none for the first
  item), across the boundaries of nodes, without panicking.
\<close>

theorem find_with_prev_locates:
  assumes "dimension_laws D M" "wf_node D t"
    and "seekable M cmp (dim_zero M) (map (item_summary D) (flatten t))"
  shows "find_with_prev M cmp b t =
    (let xs = flatten t; pos = \<lambda>ys. pos_after M (dim_zero M) (map (item_summary D) ys);
         i = stop_index M (\<lambda>d. in_child b (cmp d)) (dim_zero M) (map (item_summary D) xs)
     in if i < length xs then Some (pos (take i xs), pos (take (Suc i) xs), Some (last_opt (take i xs), xs ! i))
        else Some (pos xs, pos xs, None))"
  unfolding Let_def by (rule dimension_laws.find_with_prev_ok [OF assms, unfolded Let_def])

theorem find_with_prev_locates_witness:
  "find_with_prev count_dim (ord_cmp 2) Right (mk_leaf count_trait [10, 20, 30 :: int]) = Some (2, 3, Some (Some 20, 30))"
  using find_with_prev_locates [OF counting.dimension_laws_axioms, of "mk_leaf count_trait [10, 20, 30 :: int]" "ord_cmp 2" Right]
  by (simp add: seekable_def stop_index_def in_child_def TREE_BASE_def ord_cmp_def Let_def last_opt_def)

text \<open>
  \<^verbatim>\<open>find_exact\<close> with \<^verbatim>\<open>Bias::Right\<close> depends on how the sequence is cut into nodes: for the
  same thirteen items it misses the item that ends at the target when that item is the last of its
  leaf, and finds it otherwise.
\<close>

theorem find_exact_right_depends_on_shape:
  "\<exists>t u :: (nat, nat) node. wf_tree count_trait t \<and> wf_tree count_trait u \<and> flatten t = flatten u \<and>
     find_exact count_dim (ord_cmp 12) Right t = (13, 13, None) \<and>
     find_exact count_dim (ord_cmp 12) Right u = (11, 12, Some 11)"
proof -
  let ?t = "mk_internal count_trait 1 [mk_leaf count_trait [0, 1, 2, 3, 4, 5, 6, 7, 8, 9, 10, 11], mk_leaf count_trait [12 :: nat]]"
  let ?u = "mk_internal count_trait 1 [mk_leaf count_trait [0, 1, 2, 3, 4, 5 :: nat], mk_leaf count_trait [6, 7, 8, 9, 10, 11, 12]]"
  have sums: "sum_of count_trait ss = sum_list ss" for ss
    by (induction ss rule: rev_induct) (simp_all add: sum_of_def count_trait_def)
  have "wf_tree count_trait ?t \<and> wf_tree count_trait ?u \<and> flatten ?t = flatten ?u"
    by (simp add: wf_tree_def TREE_BASE_def)
  moreover have "find_exact count_dim (ord_cmp 12) Right ?t = (13, 13, None)"
    by (simp add: find_exact_def mk_internal_def mk_leaf_def sums past_end_def in_child_def entry_found_def ord_cmp_def Let_def)
  moreover have "find_exact count_dim (ord_cmp 12) Right ?u = (11, 12, Some 11)"
    by (simp add: find_exact_def mk_internal_def mk_leaf_def sums past_end_def in_child_def entry_found_def ord_cmp_def Let_def)
  ultimately show ?thesis by blast
qed

end
