(* ===== verification/Cursor.thy ===== *)
theory Cursor
  imports SumTreeFind
begin

text \<open>
  Cursors over a tree (\<^verbatim>\<open>crates/sum_tree/src/cursor.rs\<close>): the stack of entries, stepping and
  searching in both directions, seeking with the three aggregates, and the plain iterator.

  The stack, a vector of capacity 16, is a list whose head is the entry pushed last; pushing on a
  full stack panics. The filter of a search (an \<^verbatim>\<open>FnMut\<close>) is a pure predicate on summaries. The
  loops are \<^theory_text>\<open>partial_function (option)\<close>: that they end is part of what is proved of them.
\<close>

section \<open>State\<close>

record ('a, 's, 'd) stack_entry =
  se_tree :: "('a, 's) node"
  se_index :: nat
  se_position :: 'd

record ('a, 's, 'd) cursor =
  c_tree :: "('a, 's) node"
  c_stack :: "('a, 's, 'd) stack_entry list"
  c_position :: 'd
  c_did_seek :: bool
  c_at_end :: bool

definition STACK_CAPACITY :: nat where
  "STACK_CAPACITY = 16"

definition push_entry ::
    "('a, 's, 'd) stack_entry list \<Rightarrow> ('a, 's, 'd) stack_entry \<Rightarrow> ('a, 's, 'd) stack_entry list option" where
  "push_entry st e = (if length st < STACK_CAPACITY then Some (e # st) else None)"

definition cursor_new :: "('s, 'd) dimension \<Rightarrow> ('a, 's) node \<Rightarrow> ('a, 's, 'd) cursor" where
  "cursor_new M t =
     \<lparr>c_tree = t, c_stack = [], c_position = dim_zero M, c_did_seek = False, c_at_end = is_empty_tree t\<rparr>"

definition cursor_reset :: "('s, 'd) dimension \<Rightarrow> ('a, 's, 'd) cursor \<Rightarrow> ('a, 's, 'd) cursor" where
  "cursor_reset M c =
     c\<lparr>c_did_seek := False, c_at_end := is_empty_tree (c_tree c), c_stack := [], c_position := dim_zero M\<rparr>"

section \<open>Reading the cursor\<close>

definition cursor_item :: "('a, 's, 'd) cursor \<Rightarrow> 'a option option" where
  "cursor_item c = do {
     assert_that (c_did_seek c);
     (case c_stack c of
        [] \<Rightarrow> Some None
      | e # _ \<Rightarrow>
          (case se_tree e of
             Leaf _ xs _ \<Rightarrow>
               (if se_index e = length xs then Some None
                else do { x \<leftarrow> get_opt xs (se_index e); Some (Some x) })
           | Internal _ _ _ _ \<Rightarrow> None)) }"

definition cursor_item_summary :: "('a, 's, 'd) cursor \<Rightarrow> 's option option" where
  "cursor_item_summary c = do {
     assert_that (c_did_seek c);
     (case c_stack c of
        [] \<Rightarrow> Some None
      | e # _ \<Rightarrow>
          (case se_tree e of
             Leaf _ _ ss \<Rightarrow>
               (if se_index e = length ss then Some None
                else do { s \<leftarrow> get_opt ss (se_index e); Some (Some s) })
           | Internal _ _ _ _ \<Rightarrow> None)) }"

definition cursor_end :: "('s, 'd) dimension \<Rightarrow> ('a, 's, 'd) cursor \<Rightarrow> 'd option" where
  "cursor_end M c = do {
     s \<leftarrow> cursor_item_summary c;
     (case s of
        Some sm \<Rightarrow> Some (dim_add M (c_position c) sm)
      | None \<Rightarrow> Some (c_position c)) }"

text \<open>\<^verbatim>\<open>next_leaf\<close> and \<^verbatim>\<open>prev_leaf\<close> walk the stack below its top.\<close>

fun next_leaf :: "('a, 's, 'd) stack_entry list \<Rightarrow> ('a, 's) node option option" where
  "next_leaf [] = Some None"
| "next_leaf (e # st) = do {
     ts \<leftarrow> child_trees (se_tree e);
     assert_that (ts \<noteq> []);
     (if se_index e < length ts - 1
      then do { t \<leftarrow> get_opt ts (se_index e + 1); l \<leftarrow> leftmost_leaf t; Some (Some l) }
      else next_leaf st) }"

fun prev_leaf :: "('a, 's, 'd) stack_entry list \<Rightarrow> ('a, 's) node option option" where
  "prev_leaf [] = Some None"
| "prev_leaf (e # st) =
     (if se_index e \<noteq> 0
      then do { ts \<leftarrow> child_trees (se_tree e); t \<leftarrow> get_opt ts (se_index e - 1);
                l \<leftarrow> rightmost_leaf t; Some (Some l) }
      else prev_leaf st)"

definition cursor_next_item :: "('a, 's, 'd) cursor \<Rightarrow> 'a option option" where
  "cursor_next_item c = do {
     assert_that (c_did_seek c);
     (case c_stack c of
        e # st \<Rightarrow> do {
          xs \<leftarrow> node_items (se_tree e);
          assert_that (xs \<noteq> []);
          (if se_index e = length xs - 1 then do {
             l \<leftarrow> next_leaf st;
             (case l of
                Some lf \<Rightarrow> do { ys \<leftarrow> node_items lf; y \<leftarrow> first_opt ys; Some (Some y) }
              | None \<Rightarrow> Some None) }
           else do { y \<leftarrow> get_opt xs (se_index e + 1); Some (Some y) }) }
      | [] \<Rightarrow> (if c_at_end c then Some None else first_item (c_tree c))) }"

definition cursor_prev_item :: "('a, 's, 'd) cursor \<Rightarrow> 'a option option" where
  "cursor_prev_item c = do {
     assert_that (c_did_seek c);
     (case c_stack c of
        e # st \<Rightarrow>
          (if se_index e = 0 then do {
             l \<leftarrow> prev_leaf st;
             (case l of
                Some lf \<Rightarrow> do { ys \<leftarrow> node_items lf; y \<leftarrow> last_opt ys; Some (Some y) }
              | None \<Rightarrow> Some None) }
           else do { xs \<leftarrow> node_items (se_tree e); y \<leftarrow> get_opt xs (se_index e - 1); Some (Some y) })
      | [] \<Rightarrow> (if c_at_end c then last_item (c_tree c) else Some None)) }"

section \<open>Searching forward\<close>

text \<open>
  The inner loop over the summaries of a node: entries the filter rejects are passed over, moving
  the index, the position of the entry and the position of the cursor.
\<close>

fun skip_entries :: "('s, 'd) dimension \<Rightarrow> ('s \<Rightarrow> bool) \<Rightarrow> nat \<Rightarrow> 'd \<Rightarrow> 'd \<Rightarrow> 's list \<Rightarrow> nat \<times> 'd \<times> 'd" where
  "skip_entries M P i ep p [] = (i, ep, p)"
| "skip_entries M P i ep p (s # ss) =
     (if P s then (i, ep, p) else skip_entries M P (i + 1) (dim_add M ep s) (dim_add M p s) ss)"

text \<open>
  The outer loop. The result is the stack, the position, and whether the loop was left by the
  \<^verbatim>\<open>return\<close> in a leaf (in which case \<^verbatim>\<open>at_end\<close> is not updated).
\<close>

partial_function (option) forward_loop ::
    "('s, 'd) dimension \<Rightarrow> ('s \<Rightarrow> bool) \<Rightarrow> bool \<Rightarrow> ('a, 's, 'd) stack_entry list \<Rightarrow> 'd
      \<Rightarrow> (('a, 's, 'd) stack_entry list \<times> 'd \<times> bool) option" where
  "forward_loop M P descend st pos =
     (case st of
        [] \<Rightarrow> Some ([], pos, False)
      | e # rest \<Rightarrow>
          (case se_tree e of
             Internal h s ss ts \<Rightarrow>
               (let i = (if descend then se_index e else se_index e + 1);
                    ep = (if descend then se_position e else pos);
                    (i', ep', pos') = skip_entries M P i ep pos (drop i ss);
                    e' = e\<lparr>se_index := i', se_position := ep'\<rparr>
                in (case get_opt ts i' of
                      Some subtree \<Rightarrow> do {
                        st' \<leftarrow> push_entry (e' # rest) \<lparr>se_tree = subtree, se_index = 0, se_position = pos'\<rparr>;
                        forward_loop M P True st' pos' }
                    | None \<Rightarrow> forward_loop M P False rest pos'))
           | Leaf s xs ss \<Rightarrow> do {
               (i, ep, p) \<leftarrow>
                 (if descend then Some (se_index e, se_position e, pos)
                  else do {
                    sm \<leftarrow> get_opt ss (se_index e);
                    Some (se_index e + 1, dim_add M (se_position e) sm, dim_add M pos sm) });
               (let (i', ep', pos') = skip_entries M P i ep p (drop i ss)
                in if i' < length ss
                   then Some (e\<lparr>se_index := i', se_position := ep'\<rparr> # rest, pos', True)
                   else forward_loop M P False rest pos') }))"

definition top_is_leaf :: "('a, 's, 'd) stack_entry list \<Rightarrow> bool" where
  "top_is_leaf st = (case st of [] \<Rightarrow> True | e # _ \<Rightarrow> is_leaf (se_tree e))"

definition search_forward ::
    "('s, 'd) dimension \<Rightarrow> ('s \<Rightarrow> bool) \<Rightarrow> ('a, 's, 'd) cursor \<Rightarrow> ('a, 's, 'd) cursor option" where
  "search_forward M P c = do {
     (st, descend) \<leftarrow>
       (if c_stack c = [] \<and> \<not> c_at_end c then do {
          st \<leftarrow> push_entry [] \<lparr>se_tree = c_tree c, se_index = 0, se_position = dim_zero M\<rparr>;
          Some (st, True) }
        else Some (c_stack c, False));
     let did_seek = (c_stack c = [] \<or> c_did_seek c);
     (st', pos', returned) \<leftarrow> forward_loop M P descend st (c_position c);
     (if returned
      then Some (c\<lparr>c_stack := st', c_position := pos', c_did_seek := did_seek\<rparr>)
      else do {
        assert_that (top_is_leaf st');
        Some (c\<lparr>c_stack := st', c_position := pos', c_did_seek := did_seek, c_at_end := (st' = [])\<rparr>) }) }"

definition cursor_next :: "('s, 'd) dimension \<Rightarrow> ('a, 's, 'd) cursor \<Rightarrow> ('a, 's, 'd) cursor option" where
  "cursor_next M c = search_forward M (\<lambda>_. True) c"

section \<open>Searching backward\<close>

partial_function (option) backward_loop ::
    "('s, 'd) dimension \<Rightarrow> ('s \<Rightarrow> bool) \<Rightarrow> bool \<Rightarrow> ('a, 's, 'd) stack_entry list \<Rightarrow> 'd
      \<Rightarrow> (('a, 's, 'd) stack_entry list \<times> 'd) option" where
  "backward_loop M P descending st pos =
     (case st of
        [] \<Rightarrow> Some ([], pos)
      | e # rest \<Rightarrow>
          (let start = (case rest of [] \<Rightarrow> dim_zero M | parent # _ \<Rightarrow> se_position parent)
           in if \<not> descending \<and> se_index e = 0 then backward_loop M P False rest start
              else
                (let i = (if descending then se_index e else se_index e - 1);
                     ss = child_summaries (se_tree e);
                     pos' = foldl (dim_add M) start (take i ss);
                     e' = e\<lparr>se_index := i, se_position := pos'\<rparr>
                 in do {
                      summary \<leftarrow> get_opt ss i;
                      (case se_tree e of
                         Internal _ _ _ ts \<Rightarrow>
                           (if P summary then do {
                              tree \<leftarrow> get_opt ts i;
                              assert_that (child_summaries tree \<noteq> []);
                              st' \<leftarrow> push_entry (e' # rest)
                                \<lparr>se_tree = tree, se_index = length (child_summaries tree) - 1,
                                 se_position = dim_zero M\<rparr>;
                              backward_loop M P True st' pos' }
                            else backward_loop M P False (e' # rest) pos')
                       | Leaf _ _ _ \<Rightarrow>
                           (if P summary then Some (e' # rest, pos')
                            else backward_loop M P False (e' # rest) pos')) })))"

definition search_backward ::
    "('s, 'd) dimension \<Rightarrow> ('s \<Rightarrow> bool) \<Rightarrow> ('a, 's, 'd) cursor \<Rightarrow> ('a, 's, 'd) cursor option" where
  "search_backward M P c = do {
     let at_end = (c_at_end c \<or> \<not> c_did_seek c);
     let empty = is_empty_tree (c_tree c);
     (st, pos, at_end') \<leftarrow>
       (if at_end then do {
          st \<leftarrow> (if empty then Some (c_stack c)
                 else push_entry (c_stack c)
                   \<lparr>se_tree = c_tree c, se_index = length (child_summaries (c_tree c)),
                    se_position = dim_add M (dim_zero M) (node_summary (c_tree c))\<rparr>);
          Some (st, dim_zero M, empty) }
        else Some (c_stack c, c_position c, False));
     (st', pos') \<leftarrow> backward_loop M P False st pos;
     Some (c\<lparr>c_stack := st', c_position := pos', c_did_seek := True, c_at_end := at_end'\<rparr>) }"

definition cursor_prev :: "('s, 'd) dimension \<Rightarrow> ('a, 's, 'd) cursor \<Rightarrow> ('a, 's, 'd) cursor option" where
  "cursor_prev M c = search_backward M (\<lambda>_. True) c"

section \<open>Seeking\<close>

text \<open>\<^verbatim>\<open>SeekAggregate\<close> as the record of its operations on a state \<open>'g\<close> (\<^verbatim>\<open>begin_leaf\<close> does nothing).\<close>

record ('a, 's, 'g) seek_aggregate =
  agg_push_item :: "'g \<Rightarrow> 'a \<Rightarrow> 's \<Rightarrow> 'g option"
  agg_push_tree :: "'g \<Rightarrow> ('a, 's) node \<Rightarrow> 's \<Rightarrow> 'g option"
  agg_end_leaf :: "'g \<Rightarrow> 'g option"

definition unit_aggregate :: "('a, 's, unit) seek_aggregate" where
  "unit_aggregate =
     \<lparr>agg_push_item = (\<lambda>g _ _. Some g), agg_push_tree = (\<lambda>g _ _. Some g), agg_end_leaf = Some\<rparr>"

record ('a, 's) slice_state =
  sl_tree :: "('a, 's) node"
  sl_leaf_items :: "'a list"
  sl_leaf_item_summaries :: "'s list"
  sl_leaf_summary :: 's

definition slice_aggregate :: "('a, 's) item_trait \<Rightarrow> ('a, 's, ('a, 's) slice_state) seek_aggregate" where
  "slice_aggregate D =
     \<lparr>agg_push_item = (\<lambda>g x s. do {
        xs \<leftarrow> unwrap_oob (sl_leaf_items g @ [x]);
        ss \<leftarrow> unwrap_oob (sl_leaf_item_summaries g @ [s]);
        Some (g\<lparr>sl_leaf_items := xs, sl_leaf_item_summaries := ss,
                sl_leaf_summary := add_summary D (sl_leaf_summary g) s\<rparr>) }),
      agg_push_tree = (\<lambda>g t _. do { t' \<leftarrow> append_tree D (sl_tree g) t; Some (g\<lparr>sl_tree := t'\<rparr>) }),
      agg_end_leaf = (\<lambda>g. do {
        t' \<leftarrow> append_tree D (sl_tree g) (Leaf (sl_leaf_summary g) (sl_leaf_items g) (sl_leaf_item_summaries g));
        Some \<lparr>sl_tree = t', sl_leaf_items = [], sl_leaf_item_summaries = [],
              sl_leaf_summary = summary_zero D\<rparr> })\<rparr>"

definition summary_aggregate :: "('s, 'o) dimension \<Rightarrow> ('a, 's, 'o) seek_aggregate" where
  "summary_aggregate N =
     \<lparr>agg_push_item = (\<lambda>g _ s. Some (dim_add N g s)), agg_push_tree = (\<lambda>g _ s. Some (dim_add N g s)),
      agg_end_leaf = Some\<rparr>"

text \<open>
  The two \<^verbatim>\<open>for\<close> loops of \<^verbatim>\<open>seek_internal\<close>: over the children (with \<^verbatim>\<open>push_tree\<close>) and over the
  items (with \<^verbatim>\<open>push_item\<close>) from the index of the entry on. They stop at the first one at whose
  end the target is not passed.
\<close>

fun seek_entries ::
    "('s, 'd) dimension \<Rightarrow> ('d \<Rightarrow> ordering) \<Rightarrow> bias \<Rightarrow> ('g \<Rightarrow> 'x \<Rightarrow> 's \<Rightarrow> 'g option)
      \<Rightarrow> nat \<Rightarrow> 'd \<Rightarrow> 'g \<Rightarrow> ('x \<times> 's) list \<Rightarrow> (nat \<times> 'd \<times> 'g \<times> 'x option) option" where
  "seek_entries M cmp b add i pos g [] = Some (i, pos, g, None)"
| "seek_entries M cmp b add i pos g ((x, s) # rest) =
     (let child_end = dim_add M pos s
      in if past_end b (cmp child_end)
         then do { g' \<leftarrow> add g x s; seek_entries M cmp b add (i + 1) child_end g' rest }
         else Some (i, pos, g, Some x))"

partial_function (option) seek_loop ::
    "('s, 'd) dimension \<Rightarrow> ('d \<Rightarrow> ordering) \<Rightarrow> bias \<Rightarrow> ('a, 's, 'g) seek_aggregate
      \<Rightarrow> bool \<Rightarrow> ('a, 's, 'd) stack_entry list \<Rightarrow> 'd \<Rightarrow> 'g
      \<Rightarrow> (('a, 's, 'd) stack_entry list \<times> 'd \<times> 'g) option" where
  "seek_loop M cmp b A ascending st pos g =
     (case st of
        [] \<Rightarrow> Some ([], pos, g)
      | e # rest \<Rightarrow>
          (case se_tree e of
             Internal h s ss ts \<Rightarrow>
               (let i = (if ascending then se_index e + 1 else se_index e);
                    ep = (if ascending then pos else se_position e)
                in do {
                     assert_that (i \<le> length ts \<and> i \<le> length ss);
                     (i', pos', g', found) \<leftarrow>
                       seek_entries M cmp b (agg_push_tree A) i pos g (zip (drop i ts) (drop i ss));
                     (case found of
                        Some child_tree \<Rightarrow> do {
                          st' \<leftarrow> push_entry
                            (e\<lparr>se_index := i', se_position := (if i' = i then ep else pos')\<rparr> # rest)
                            \<lparr>se_tree = child_tree, se_index = 0, se_position = pos'\<rparr>;
                          seek_loop M cmp b A False st' pos' g' }
                      | None \<Rightarrow> seek_loop M cmp b A True rest pos' g') })
           | Leaf s xs ss \<Rightarrow> do {
               assert_that (se_index e \<le> length xs \<and> se_index e \<le> length ss);
               (i', pos', g', found) \<leftarrow>
                 seek_entries M cmp b (agg_push_item A) (se_index e) pos g
                   (zip (drop (se_index e) xs) (drop (se_index e) ss));
               g'' \<leftarrow> agg_end_leaf A g';
               (case found of
                  Some _ \<Rightarrow> Some (e\<lparr>se_index := i'\<rparr> # rest, pos', g'')
                | None \<Rightarrow> seek_loop M cmp b A True rest pos' g'') }))"

definition seek_internal ::
    "('s, 'd) dimension \<Rightarrow> ('d \<Rightarrow> ordering) \<Rightarrow> bias \<Rightarrow> ('a, 's, 'g) seek_aggregate
      \<Rightarrow> ('a, 's, 'd) cursor \<Rightarrow> 'g \<Rightarrow> (('a, 's, 'd) cursor \<times> 'g \<times> bool) option" where
  "seek_internal M cmp b A c g = do {
     assert_that (cmp (c_position c) \<noteq> Less);
     st \<leftarrow> (if c_did_seek c then Some (c_stack c)
            else push_entry (c_stack c) \<lparr>se_tree = c_tree c, se_index = 0, se_position = dim_zero M\<rparr>);
     (st', pos', g') \<leftarrow> seek_loop M cmp b A False st (c_position c) g;
     assert_that (top_is_leaf st');
     let c' = c\<lparr>c_stack := st', c_position := pos', c_did_seek := True, c_at_end := (st' = [])\<rparr>;
     end' \<leftarrow>
       (if b = Left then do {
          s \<leftarrow> cursor_item_summary c';
          (case s of Some summary \<Rightarrow> Some (dim_add M pos' summary) | None \<Rightarrow> Some pos') }
        else Some pos');
     Some (c', g', cmp end' = Equal) }"

definition cursor_seek ::
    "('s, 'd) dimension \<Rightarrow> ('d \<Rightarrow> ordering) \<Rightarrow> bias \<Rightarrow> ('a, 's, 'd) cursor
      \<Rightarrow> (('a, 's, 'd) cursor \<times> bool) option" where
  "cursor_seek M cmp b c = do {
     (c', _, found) \<leftarrow> seek_internal M cmp b unit_aggregate (cursor_reset M c) ();
     Some (c', found) }"

definition cursor_seek_forward ::
    "('s, 'd) dimension \<Rightarrow> ('d \<Rightarrow> ordering) \<Rightarrow> bias \<Rightarrow> ('a, 's, 'd) cursor
      \<Rightarrow> (('a, 's, 'd) cursor \<times> bool) option" where
  "cursor_seek_forward M cmp b c = do {
     (c', _, found) \<leftarrow> seek_internal M cmp b unit_aggregate c ();
     Some (c', found) }"

definition cursor_slice ::
    "('a, 's) item_trait \<Rightarrow> ('s, 'd) dimension \<Rightarrow> ('d \<Rightarrow> ordering) \<Rightarrow> bias \<Rightarrow> ('a, 's, 'd) cursor
      \<Rightarrow> (('a, 's, 'd) cursor \<times> ('a, 's) node) option" where
  "cursor_slice D M cmp b c = do {
     (c', g, _) \<leftarrow> seek_internal M cmp b (slice_aggregate D) c
       \<lparr>sl_tree = new_tree D, sl_leaf_items = [], sl_leaf_item_summaries = [],
        sl_leaf_summary = summary_zero D\<rparr>;
     Some (c', sl_tree g) }"

text \<open>\<^verbatim>\<open>End\<close> compares as greater than every position.\<close>

definition end_target :: "'d \<Rightarrow> ordering" where
  "end_target _ = Greater"

definition cursor_suffix ::
    "('a, 's) item_trait \<Rightarrow> ('s, 'd) dimension \<Rightarrow> ('a, 's, 'd) cursor
      \<Rightarrow> (('a, 's, 'd) cursor \<times> ('a, 's) node) option" where
  "cursor_suffix D M c = cursor_slice D M end_target Right c"

definition cursor_summary ::
    "('s, 'd) dimension \<Rightarrow> ('s, 'o) dimension \<Rightarrow> ('d \<Rightarrow> ordering) \<Rightarrow> bias \<Rightarrow> ('a, 's, 'd) cursor
      \<Rightarrow> (('a, 's, 'd) cursor \<times> 'o) option" where
  "cursor_summary M N cmp b c = do {
     (c', g, _) \<leftarrow> seek_internal M cmp b (summary_aggregate N) c (dim_zero N);
     Some (c', g) }"

section \<open>Iterators\<close>

text \<open>
  \<^verbatim>\<open>Iter\<close>: a stack of nodes and indices (the position of an entry is the unit). Its \<^verbatim>\<open>next\<close> is the
  loop below, from the root when the stack is empty.
\<close>

type_synonym ('a, 's) iter_stack = "(('a, 's) node \<times> nat) list"

definition push_iter :: "('a, 's) iter_stack \<Rightarrow> ('a, 's) node \<Rightarrow> ('a, 's) iter_stack option" where
  "push_iter st t = (if length st < STACK_CAPACITY then Some ((t, 0) # st) else None)"

partial_function (option) iter_loop ::
    "bool \<Rightarrow> ('a, 's) iter_stack \<Rightarrow> (('a, 's) iter_stack \<times> 'a option) option" where
  "iter_loop descend st =
     (case st of
        [] \<Rightarrow> Some ([], None)
      | (t, i0) # rest \<Rightarrow>
          (let i = (if descend then i0 else i0 + 1)
           in (case t of
                 Internal h s ss ts \<Rightarrow>
                   (case get_opt ts i of
                      Some subtree \<Rightarrow> do { st' \<leftarrow> push_iter ((t, i) # rest) subtree; iter_loop True st' }
                    | None \<Rightarrow> iter_loop False rest)
               | Leaf s xs ss \<Rightarrow>
                   (case get_opt xs i of
                      Some x \<Rightarrow> Some ((t, i) # rest, Some x)
                    | None \<Rightarrow> iter_loop False rest))))"

definition iter_next :: "('a, 's) node \<Rightarrow> ('a, 's) iter_stack \<Rightarrow> (('a, 's) iter_stack \<times> 'a option) option" where
  "iter_next t st =
     (if st = [] then do { st' \<leftarrow> push_iter [] t; iter_loop True st' } else iter_loop False st)"

definition iter_size_hint :: "('a, 's) node \<Rightarrow> ('a, 's) iter_stack \<Rightarrow> nat" where
  "iter_size_hint t st =
     (case st of
        (u, i) # _ \<Rightarrow> length (child_summaries u) - i
      | [] \<Rightarrow> length (child_summaries t))"

text \<open>\<^verbatim>\<open>SumTree::items\<close>: collecting with a cursor. \<^verbatim>\<open>Iterator::next\<close> of a cursor.\<close>

partial_function (option) items_loop ::
    "('s, 'd) dimension \<Rightarrow> 'a list \<Rightarrow> ('a, 's, 'd) cursor \<Rightarrow> 'a list option" where
  "items_loop M acc c = do {
     x \<leftarrow> cursor_item c;
     (case x of
        None \<Rightarrow> Some acc
      | Some item \<Rightarrow> do { c' \<leftarrow> cursor_next M c; items_loop M (acc @ [item]) c' }) }"

definition unit_dimension :: "('s, unit) dimension" where
  "unit_dimension = \<lparr>dim_zero = (), dim_add = (\<lambda>_ _. ())\<rparr>"

definition tree_items :: "('a, 's) node \<Rightarrow> 'a list option" where
  "tree_items t = do {
     c \<leftarrow> cursor_next unit_dimension (cursor_new unit_dimension t);
     items_loop unit_dimension [] c }"

definition cursor_iter_next ::
    "('s, 'd) dimension \<Rightarrow> ('s \<Rightarrow> bool) \<Rightarrow> ('a, 's, 'd) cursor \<Rightarrow> (('a, 's, 'd) cursor \<times> 'a option) option" where
  "cursor_iter_next M P c = do {
     c \<leftarrow> (if c_did_seek c then Some c else search_forward M P c);
     x \<leftarrow> cursor_item c;
     (case x of
        Some item \<Rightarrow> do { c' \<leftarrow> search_forward M P c; Some (c', Some item) }
      | None \<Rightarrow> Some (c, None)) }"

text \<open>
  Draining an iterator (\<^verbatim>\<open>collect\<close> or a \<^verbatim>\<open>for\<close> loop): the items \<^verbatim>\<open>Iter\<close>, or a cursor used as an
  iterator, yields before its first \<^verbatim>\<open>None\<close>.
\<close>

partial_function (option) iter_collect :: "('a, 's) node \<Rightarrow> ('a, 's) iter_stack \<Rightarrow> 'a list option" where
  "iter_collect t st = do {
     (st', x) \<leftarrow> iter_next t st;
     (case x of
        None \<Rightarrow> Some []
      | Some y \<Rightarrow> do { ys \<leftarrow> iter_collect t st'; Some (y # ys) }) }"

partial_function (option) cursor_collect ::
    "('s, 'd) dimension \<Rightarrow> ('s \<Rightarrow> bool) \<Rightarrow> ('a, 's, 'd) cursor \<Rightarrow> 'a list option" where
  "cursor_collect M P c = do {
     (c', x) \<leftarrow> cursor_iter_next M P c;
     (case x of
        None \<Rightarrow> Some []
      | Some y \<Rightarrow> do { ys \<leftarrow> cursor_collect M P c'; Some (y # ys) }) }"

declare forward_loop.simps [code] backward_loop.simps [code] seek_loop.simps [code] iter_loop.simps [code]
  items_loop.simps [code] iter_collect.simps [code] cursor_collect.simps [code]

end
