(* ===== verification/CursorSearch.thy ===== *)
theory CursorSearch
  imports Cursor
begin

text \<open>
  What the searches of a cursor do. A stack is described by the path it stands for:
  \<open>stack_ctx D M root st hole pre post\<close> says that \<open>st\<close> leads from \<open>root\<close> down to the subtree
  \<open>hole\<close>, with the items \<open>pre\<close> before it and \<open>post\<close> after it. The loops are followed subtree by
  subtree: a subtree is either left with a hit, or passed over with the loop going on above it.
\<close>

section \<open>Paths\<close>

abbreviation seq_pos :: "('a, 's) item_trait \<Rightarrow> ('s, 'd) dimension \<Rightarrow> 'a list \<Rightarrow> 'd" where
  "seq_pos D M xs \<equiv> pos_after M (dim_zero M) (map (item_summary D) xs)"

abbreviation entry :: "('a, 's) node \<Rightarrow> nat \<Rightarrow> 'd \<Rightarrow> ('a, 's, 'd) stack_entry" where
  "entry t i p \<equiv> \<lparr>se_tree = t, se_index = i, se_position = p\<rparr>"

abbreviation flat :: "('a, 's) node list \<Rightarrow> 'a list" where
  "flat ts \<equiv> concat (map flatten ts)"

inductive stack_ctx ::
    "('a, 's) item_trait \<Rightarrow> ('s, 'd) dimension \<Rightarrow> ('a, 's) node \<Rightarrow> ('a, 's, 'd) stack_entry list
      \<Rightarrow> ('a, 's) node \<Rightarrow> 'a list \<Rightarrow> 'a list \<Rightarrow> bool"
  for D :: "('a, 's) item_trait" and M :: "('s, 'd) dimension" and root :: "('a, 's) node" where
  ctx_root: "stack_ctx D M root [] root [] []"
| ctx_child: "stack_ctx D M root st (mk_internal D h ts) pre post \<Longrightarrow> k < length ts \<Longrightarrow>
    stack_ctx D M root (entry (mk_internal D h ts) k (seq_pos D M (pre @ flat (take k ts))) # st)
      (ts ! k) (pre @ flat (take k ts)) (flat (drop (Suc k) ts) @ post)"

text \<open>The stack points at the item of index \<open>i\<close>: a path to a leaf, and an entry for that leaf.\<close>

definition points ::
    "('a, 's) item_trait \<Rightarrow> ('s, 'd) dimension \<Rightarrow> ('a, 's) node \<Rightarrow> ('a, 's, 'd) stack_entry list \<Rightarrow> nat \<Rightarrow> bool" where
  "points D M root st i \<longleftrightarrow> (\<exists>xs j p rest pre post.
     st = entry (mk_leaf D xs) j p # rest \<and> stack_ctx D M root rest (mk_leaf D xs) pre post \<and>
     j < length xs \<and> i = length pre + j)"

definition stack_fits :: "('a, 's) node \<Rightarrow> bool" where
  "stack_fits t \<longleftrightarrow> node_height t < STACK_CAPACITY"

lemma flat_split: "k < length ts \<Longrightarrow> flat ts = flat (take k ts) @ flatten (ts ! k) @ flat (drop (Suc k) ts)"
proof -
  assume "k < length ts"
  then have "ts = take k ts @ ts ! k # drop (Suc k) ts" by (simp add: id_take_nth_drop)
  then have "flat ts = flat (take k ts @ ts ! k # drop (Suc k) ts)" by (rule arg_cong)
  then show ?thesis by simp
qed

lemma flat_drop: "k < length ts \<Longrightarrow> flat (drop k ts) = flatten (ts ! k) @ flat (drop (Suc k) ts)"
  by (simp flip: Cons_nth_drop_Suc)

lemma flat_take: "k < length ts \<Longrightarrow> flat (take (Suc k) ts) = flat (take k ts) @ flatten (ts ! k)"
  by (simp add: take_Suc_conv_app_nth)

lemma stack_ctx_append: "stack_ctx D M root st hole pre post \<Longrightarrow> pre @ flatten hole @ post = flatten root"
proof (induction rule: stack_ctx.induct)
  case (ctx_child st h ts pre post k)
  then show ?case using flat_split [OF ctx_child.hyps(2)] by simp
qed simp

lemma stack_ctx_inv:
  assumes "stack_ctx D M root st hole pre post" "wf_node D root"
  shows "wf_node D hole \<and> node_height hole + length st = node_height root"
  using assms
proof (induction rule: stack_ctx.induct)
  case (ctx_child st h ts pre post k)
  have "ts ! k \<in> set ts" using ctx_child.hyps by simp
  then show ?case using ctx_child.IH [OF ctx_child.prems] by auto
qed auto

lemmas stack_ctx_wf = stack_ctx_inv [THEN conjunct1]
lemmas stack_ctx_height = stack_ctx_inv [THEN conjunct2]

lemma points_less:
  assumes "points D M root st i"
  shows "i < length (flatten root)"
proof -
  obtain xs j rest pre post where
    "stack_ctx D M root rest (mk_leaf D xs) pre post" "j < length xs" "i = length pre + j"
    using assms by (auto simp: points_def)
  moreover from this have "length (pre @ xs @ post) = length (flatten root)"
    using stack_ctx_append by fastforce
  ultimately show ?thesis by simp
qed

lemma push_entry_fits:
  assumes "stack_ctx D M root st hole pre post" "wf_node D root" "stack_fits root"
  shows "push_entry st e = Some (e # st)"
  using stack_ctx_height [OF assms(1,2)] assms(3) by (simp add: push_entry_def stack_fits_def)

section \<open>Forward\<close>

lemma skip_entries_spec:
  "skip_entries M P i ep p ss =
   (let k = length (takeWhile (\<lambda>s. \<not> P s) ss)
    in (i + k, pos_after M ep (take k ss), pos_after M p (take k ss)))"
  by (induction ss arbitrary: i ep p) (simp_all add: Let_def)

text \<open>A filter may reject a subtree only when it rejects every item in it.\<close>

definition filter_sound :: "('a, 's) item_trait \<Rightarrow> ('s \<Rightarrow> bool) \<Rightarrow> bool" where
  "filter_sound D P \<longleftrightarrow> (\<forall>xs x. x \<in> set xs \<longrightarrow> P (item_summary D x) \<longrightarrow> P (items_summary D xs))"

definition first_hit :: "('a, 's) item_trait \<Rightarrow> ('s \<Rightarrow> bool) \<Rightarrow> 'a list \<Rightarrow> nat" where
  "first_hit D P xs = length (takeWhile (\<lambda>x. \<not> P (item_summary D x)) xs)"

lemma first_hit_append:
  "first_hit D P (xs @ ys) =
   (if first_hit D P xs < length xs then first_hit D P xs else length xs + first_hit D P ys)"
proof (cases "\<forall>x \<in> set xs. \<not> P (item_summary D x)")
  case True
  then show ?thesis by (simp add: first_hit_def takeWhile_append takeWhile_eq_all_conv [THEN iffD2])
next
  case False
  then have "length (takeWhile (\<lambda>x. \<not> P (item_summary D x)) xs) < length xs"
    by (metis length_takeWhile_le nat_less_le takeWhile_eq_all_conv takeWhile_eq_take take_all_iff)
  with False show ?thesis by (auto simp: first_hit_def takeWhile_append)
qed

lemma first_hit_none: "(\<And>x. x \<in> set xs \<Longrightarrow> \<not> P (item_summary D x)) \<Longrightarrow> first_hit D P xs = length xs"
  by (simp add: first_hit_def takeWhile_eq_all_conv [THEN iffD2])

lemma first_hit_true [simp]: "first_hit D (\<lambda>_. True) xs = 0"
  by (cases xs) (simp_all add: first_hit_def)

text \<open>
  The outcome of a loop that has to search the items \<open>ys\<close>, which come after \<open>pre\<close>: it stops at
  the first hit, or goes on as \<open>cont\<close> at the position after \<open>ys\<close>.
\<close>

definition forward_result ::
    "('a, 's) item_trait \<Rightarrow> ('s, 'd) dimension \<Rightarrow> ('a, 's) node \<Rightarrow> ('s \<Rightarrow> bool)
      \<Rightarrow> (('a, 's, 'd) stack_entry list \<times> 'd \<times> bool) option
      \<Rightarrow> ('d \<Rightarrow> (('a, 's, 'd) stack_entry list \<times> 'd \<times> bool) option) \<Rightarrow> 'a list \<Rightarrow> 'a list \<Rightarrow> bool" where
  "forward_result D M root P run cont pre ys \<longleftrightarrow>
     (let k = first_hit D P ys in
      if k < length ys
      then \<exists>st. run = Some (st, seq_pos D M (pre @ take k ys), True) \<and> points D M root st (length pre + k)
      else run = cont (seq_pos D M (pre @ ys)))"

lemma forward_result_append:
  assumes "forward_result D M root P run (\<lambda>p. run2 p) pre ys"
    and "forward_result D M root P (run2 (seq_pos D M (pre @ ys))) cont (pre @ ys) zs"
  shows "forward_result D M root P run cont pre (ys @ zs)"
  using assms by (auto simp: forward_result_def Let_def first_hit_append add.assoc split: if_splits)

lemma forward_result_skip:
  assumes "first_hit D P ys = length ys" "forward_result D M root P run cont (pre @ ys) zs"
  shows "forward_result D M root P run cont pre (ys @ zs)"
  using assms by (auto simp: forward_result_def Let_def first_hit_append add.assoc split: if_splits)

lemma forward_ascend:
  "forward_loop M P False (entry (Internal h s ss ts) i q # st) p =
   forward_loop M P True (entry (Internal h s ss ts) (Suc i) p # st) p"
  by (simp add: forward_loop.simps [of M P False "_ # _"] forward_loop.simps [of M P True "_ # _"])

lemma forward_skip:
  assumes "i < length ss" "\<not> P (ss ! i)"
  shows "forward_loop M P True (entry (Internal h s ss ts) i p # st) p =
   forward_loop M P True (entry (Internal h s ss ts) (Suc i) (dim_add M p (ss ! i)) # st) (dim_add M p (ss ! i))"
  using assms
  by (simp add: forward_loop.simps [of M P True "_ # _"] Cons_nth_drop_Suc [symmetric])

lemma forward_descend:
  assumes "i < length ss" "i < length ts" "P (ss ! i)"
  shows "forward_loop M P True (entry (Internal h s ss ts) i p # st) p =
   do { st' \<leftarrow> push_entry (entry (Internal h s ss ts) i p # st) (entry (ts ! i) 0 p);
        forward_loop M P True st' p }"
  using assms
  by (simp add: forward_loop.simps [of M P True "_ # _"] Cons_nth_drop_Suc [symmetric])

lemma forward_leave:
  "length ss = length ts \<Longrightarrow> forward_loop M P True (entry (Internal h s ss ts) (length ts) p # st) p =
   forward_loop M P False st p"
  by (simp add: forward_loop.simps [of M P True "_ # _"])

lemma forward_loop_empty: "forward_loop M P d [] = (\<lambda>p. Some ([], p, False))"
  by (rule ext) (simp add: forward_loop.simps)

context dimension_laws
begin

lemma forward_leaf:
  assumes "stack_ctx D M root st (mk_leaf D xs) pre post" "j \<le> length xs"
  shows "forward_result D M root P
     (forward_loop M P True (entry (mk_leaf D xs) j q # st) (seq_pos D M (pre @ take j xs)))
     (forward_loop M P False st) (pre @ take j xs) (drop j xs)"
proof -
  let ?k = "first_hit D P (drop j xs)"
  have k: "length (takeWhile (\<lambda>s. \<not> P s) (map (item_summary D) (drop j xs))) = ?k"
    by (simp add: first_hit_def takeWhile_map comp_def)
  have le: "?k \<le> length xs - j"
    using length_takeWhile_le [of _ "drop j xs"] by (simp add: first_hit_def)
  show ?thesis
  proof (cases "j + ?k < length xs")
    case True
    then have "points D M root (entry (mk_leaf D xs) (j + ?k) r # st) (length pre + j + ?k)" for r
      using assms by (auto simp: points_def)
    with True assms show ?thesis
      by (auto simp: forward_result_def Let_def forward_loop.simps [of M P True "_ # _"] mk_leaf_def
          skip_entries_spec k drop_map take_map)
  next
    case False
    then have "j + ?k = length xs" using le assms(2) by linarith
    then show ?thesis
      using assms le
      by (auto simp: forward_result_def Let_def forward_loop.simps [of M P True "_ # _"] mk_leaf_def
          skip_entries_spec k drop_map take_map simp flip: foldl_append map_append)
  qed
qed

lemma forward_children:
  assumes ctx: "stack_ctx D M root st (mk_internal D h ts) pre post"
    and root: "wf_node D root" "stack_fits root" and P: "filter_sound D P" and k: "k \<le> length ts"
    and sub: "\<And>t st pre post. t \<in> set ts \<Longrightarrow> stack_ctx D M root st t pre post \<Longrightarrow>
      forward_result D M root P (forward_loop M P True (entry t 0 (seq_pos D M pre) # st) (seq_pos D M pre))
        (forward_loop M P False st) pre (flatten t)"
  shows "forward_result D M root P
     (forward_loop M P True (entry (mk_internal D h ts) k (seq_pos D M (pre @ flat (take k ts))) # st)
       (seq_pos D M (pre @ flat (take k ts))))
     (forward_loop M P False st) (pre @ flat (take k ts)) (flat (drop k ts))"
  using k
proof (induction "length ts - k" arbitrary: k)
  case 0
  then show ?case
    using forward_leave [of "map node_summary ts" ts M P h _ _ st]
    by (simp add: forward_result_def mk_internal_def)
next
  case (Suc n)
  then have k: "k < length ts" by simp
  let ?t = "ts ! k" and ?pre = "pre @ flat (take k ts)"
  have t: "?t \<in> set ts" "wf_node D ?t"
    using k stack_ctx_wf [OF ctx root(1)] by auto
  have pre: "pre @ flat (take (Suc k) ts) = ?pre @ flatten ?t" by (simp add: flat_take [OF k])
  have next': "forward_result D M root P
     (forward_loop M P True (entry (mk_internal D h ts) (Suc k) (seq_pos D M (?pre @ flatten ?t)) # st)
       (seq_pos D M (?pre @ flatten ?t)))
     (forward_loop M P False st) (?pre @ flatten ?t) (flat (drop (Suc k) ts))"
    using Suc(1) [of "Suc k"] Suc(2) k unfolding pre by simp
  show ?case
  proof (cases "P (node_summary ?t)")
    case True
    have ctx': "stack_ctx D M root (entry (mk_internal D h ts) k (seq_pos D M ?pre) # st) ?t ?pre
        (flat (drop (Suc k) ts) @ post)"
      by (rule ctx_child [OF ctx k])
    have "forward_loop M P True (entry (mk_internal D h ts) k (seq_pos D M ?pre) # st) (seq_pos D M ?pre) =
        forward_loop M P True (entry ?t 0 (seq_pos D M ?pre) # entry (mk_internal D h ts) k (seq_pos D M ?pre) # st)
          (seq_pos D M ?pre)"
      using k True push_entry_fits [OF ctx' root] by (simp add: forward_descend mk_internal_def)
    with sub [OF t(1) ctx'] next' show ?thesis
      using flat_drop [OF k]
      by (auto intro!: forward_result_append simp: mk_internal_def forward_ascend)
  next
    case False
    then have "first_hit D P (flatten ?t) = length (flatten ?t)"
      using P t(2) by (intro first_hit_none) (auto simp: filter_sound_def wf_node_summary)
    moreover have "seq_pos D M (?pre @ flatten ?t) = dim_add M (seq_pos D M ?pre) (node_summary ?t)"
      by (simp add: dim_add_node [OF t(2)])
    ultimately show ?thesis
      using next' k False flat_drop [OF k] forward_skip [of k "map node_summary ts" P M h _ ts "seq_pos D M ?pre" st]
      by (auto intro!: forward_result_skip simp: mk_internal_def)
  qed
qed

lemma forward_subtree:
  assumes "wf_node D t" "stack_ctx D M root st t pre post"
    and root: "wf_node D root" "stack_fits root" and P: "filter_sound D P"
  shows "forward_result D M root P
     (forward_loop M P True (entry t 0 (seq_pos D M pre) # st) (seq_pos D M pre))
     (forward_loop M P False st) pre (flatten t)"
  using assms(1,2)
proof (induction arbitrary: st pre post rule: wf_node_induct)
  case (leaf xs)
  then show ?case using forward_leaf [OF leaf.prems, of 0] by simp
next
  case (internal h ts)
  then show ?case using forward_children [OF internal.prems root P, of 0] by simp
qed

lemma forward_rest:
  assumes "stack_ctx D M root st hole pre post"
    and root: "wf_node D root" "stack_fits root" and P: "filter_sound D P"
  shows "forward_result D M root P (forward_loop M P False st (seq_pos D M (pre @ flatten hole)))
     (\<lambda>p. Some ([], p, False)) (pre @ flatten hole) post"
  using assms(1)
proof (induction rule: stack_ctx.induct)
  case ctx_root
  then show ?case by (simp add: forward_result_def forward_loop.simps)
next
  case (ctx_child st h ts pre post k)
  have "forward_result D M root P
     (forward_loop M P True (entry (mk_internal D h ts) (Suc k) (seq_pos D M (pre @ flat (take (Suc k) ts))) # st)
       (seq_pos D M (pre @ flat (take (Suc k) ts))))
     (forward_loop M P False st) (pre @ flat (take (Suc k) ts)) (flat (drop (Suc k) ts))"
    using ctx_child.hyps stack_ctx_wf [OF ctx_child.hyps(1) root(1)]
    by (intro forward_children [OF ctx_child.hyps(1) root P] forward_subtree [OF _ _ root P]) auto
  then show ?case
    using ctx_child.IH flat_split [OF ctx_child.hyps(2)]
    unfolding mk_internal_def forward_ascend
    by (auto intro!: forward_result_append simp: flat_take [OF ctx_child.hyps(2)] mk_internal_def)
qed

lemma forward_from_item:
  assumes "points D M root st i"
    and root: "wf_node D root" "stack_fits root" and P: "filter_sound D P"
  shows "forward_result D M root P (forward_loop M P False st (seq_pos D M (take i (flatten root))))
     (\<lambda>p. Some ([], p, False)) (take (Suc i) (flatten root)) (drop (Suc i) (flatten root))"
proof -
  obtain xs j q rest pre post where st: "st = entry (mk_leaf D xs) j q # rest"
    and ctx: "stack_ctx D M root rest (mk_leaf D xs) pre post" and j: "j < length xs" "i = length pre + j"
    using assms(1) by (auto simp: points_def)
  have root_eq: "flatten root = pre @ xs @ post" using stack_ctx_append [OF ctx] by simp
  let ?x = "item_summary D (xs ! j)"
  have "forward_loop M P False st (seq_pos D M (take i (flatten root))) =
      forward_loop M P True (entry (mk_leaf D xs) (Suc j) (dim_add M q ?x) # rest) (seq_pos D M (pre @ take (Suc j) xs))"
    using j st root_eq
    by (simp add: forward_loop.simps [of M P False "_ # _"] forward_loop.simps [of M P True "_ # _"]
        mk_leaf_def take_Suc_conv_app_nth split: prod.split)
  then show ?thesis
    using forward_leaf [OF ctx, of "Suc j" P] forward_rest [OF ctx root P] j root_eq
    by (auto intro!: forward_result_append)
qed

end

section \<open>The state of a cursor\<close>

text \<open>
  A cursor on the item of index \<open>i\<close>, or past the last one; and a cursor before the first item,
  freshly made or moved there by a backward search.
\<close>

definition cursor_at ::
    "('a, 's) item_trait \<Rightarrow> ('s, 'd) dimension \<Rightarrow> ('a, 's) node \<Rightarrow> ('a, 's, 'd) cursor \<Rightarrow> nat \<Rightarrow> bool" where
  "cursor_at D M t c i \<longleftrightarrow>
     c_tree c = t \<and> c_did_seek c \<and> i \<le> length (flatten t) \<and>
     c_position c = seq_pos D M (take i (flatten t)) \<and>
     (if i < length (flatten t) then \<not> c_at_end c \<and> points D M t (c_stack c) i
      else c_at_end c \<and> c_stack c = [])"

definition cursor_before :: "('s, 'd) dimension \<Rightarrow> ('a, 's) node \<Rightarrow> ('a, 's, 'd) cursor \<Rightarrow> bool" where
  "cursor_before M t c \<longleftrightarrow>
     c_tree c = t \<and> c_stack c = [] \<and> c_position c = dim_zero M \<and> (c_at_end c \<longleftrightarrow> flatten t = [])"

lemma cursor_new_tree [simp]: "c_tree (cursor_new M t) = t"
  by (simp add: cursor_new_def)

lemma cursor_new_before: "wf_tree D t \<Longrightarrow> cursor_before M t (cursor_new M t)"
  by (simp add: cursor_before_def cursor_new_def)

lemma cursor_reset_before: "wf_tree D t \<Longrightarrow> c_tree c = t \<Longrightarrow> cursor_before M t (cursor_reset M c)"
  by (simp add: cursor_before_def cursor_reset_def)

lemma top_is_leaf_points: "points D M t st i \<Longrightarrow> top_is_leaf st"
  by (auto simp: points_def top_is_leaf_def)

lemma first_hit_le: "first_hit D P xs \<le> length xs"
  by (simp add: first_hit_def length_takeWhile_le)

lemma cursor_item_at:
  assumes "cursor_at D M t c i"
  shows "cursor_item c = Some (get_opt (flatten t) i)"
    and "cursor_item_summary c = Some (map_option (item_summary D) (get_opt (flatten t) i))"
proof -
  have "cursor_item c = Some (get_opt (flatten t) i) \<and>
      cursor_item_summary c = Some (map_option (item_summary D) (get_opt (flatten t) i))"
  proof (cases "i < length (flatten t)")
    case True
    then obtain xs j q rest pre post where st: "c_stack c = entry (mk_leaf D xs) j q # rest"
      and ctx: "stack_ctx D M t rest (mk_leaf D xs) pre post" and j: "j < length xs" "i = length pre + j"
      using assms by (auto simp: cursor_at_def points_def)
    have "flatten t = pre @ xs @ post" using stack_ctx_append [OF ctx] by simp
    then show ?thesis
      using assms st j True
      by (simp add: cursor_at_def cursor_item_def cursor_item_summary_def mk_leaf_def nth_append)
  next
    case False
    then show ?thesis
      using assms by (simp add: cursor_at_def cursor_item_def cursor_item_summary_def)
  qed
  then show "cursor_item c = Some (get_opt (flatten t) i)"
    and "cursor_item_summary c = Some (map_option (item_summary D) (get_opt (flatten t) i))" by simp_all
qed

context dimension_laws
begin

text \<open>From the outcome of the loop to the state of the cursor.\<close>

lemma search_forward_finish:
  assumes run: "forward_result D M t P run (\<lambda>p. Some ([], p, False)) pre ys"
    and fl: "flatten t = pre @ ys" and c: "c_tree c = t" "ys \<noteq> [] \<Longrightarrow> \<not> c_at_end c"
  shows "\<exists>c'. (do {
     (st', pos', returned) \<leftarrow> run;
     (if returned
      then Some (c\<lparr>c_stack := st', c_position := pos', c_did_seek := True\<rparr>)
      else do {
        assert_that (top_is_leaf st');
        Some (c\<lparr>c_stack := st', c_position := pos', c_did_seek := True, c_at_end := (st' = [])\<rparr>) }) }) = Some c' \<and>
     cursor_at D M t c' (length pre + first_hit D P ys)"
proof (cases "first_hit D P ys < length ys")
  case True
  then obtain st' where "run = Some (st', seq_pos D M (pre @ take (first_hit D P ys) ys), True)"
    "points D M t st' (length pre + first_hit D P ys)"
    using run by (auto simp: forward_result_def Let_def)
  moreover have "ys \<noteq> []" using True by auto
  ultimately show ?thesis
    using True c by (simp add: cursor_at_def fl)
next
  case False
  then have "first_hit D P ys = length ys" using first_hit_le [of D P ys] by linarith
  then show ?thesis
    using run c by (simp add: forward_result_def Let_def cursor_at_def top_is_leaf_def fl)
qed

lemma search_forward_before_ok:
  assumes "wf_tree D t" "stack_fits t" "filter_sound D P" "cursor_before M t c"
  shows "\<exists>c'. search_forward M P c = Some c' \<and> cursor_at D M t c' (first_hit D P (flatten t))"
proof (cases "flatten t = []")
  case True
  then show ?thesis
    using assms by (simp add: cursor_before_def search_forward_def forward_loop.simps top_is_leaf_def
        cursor_at_def first_hit_def)
next
  case False
  then have t: "wf_node D t" using assms(1) by (rule wf_tree_nonempty [rotated])
  have "forward_result D M t P (forward_loop M P True [entry t 0 (dim_zero M)] (dim_zero M))
      (\<lambda>p. Some ([], p, False)) [] (flatten t)"
    using forward_subtree [OF t ctx_root t assms(2,3)] by (simp add: forward_loop_empty)
  from search_forward_finish [OF this, of c] show ?thesis
    using assms False by (simp add: cursor_before_def search_forward_def push_entry_def STACK_CAPACITY_def)
qed

lemma search_forward_at_ok:
  assumes "wf_tree D t" "stack_fits t" "filter_sound D P" "cursor_at D M t c i"
  shows "\<exists>c'. search_forward M P c = Some c' \<and>
    cursor_at D M t c' (if i < length (flatten t) then Suc i + first_hit D P (drop (Suc i) (flatten t))
                        else length (flatten t))"
proof (cases "i < length (flatten t)")
  case False
  then show ?thesis
    using assms by (simp add: cursor_at_def search_forward_def forward_loop.simps top_is_leaf_def)
next
  case True
  then have t: "wf_node D t" using assms(1) by (auto simp: wf_tree_def)
  have pt: "points D M t (c_stack c) i" using True assms(4) by (simp add: cursor_at_def)
  then have "c_stack c \<noteq> []" by (auto simp: points_def)
  then show ?thesis
    using search_forward_finish [OF forward_from_item [OF pt t assms(2,3)], of c] True assms(4)
    by (simp add: cursor_at_def search_forward_def)
qed

end

section \<open>Backward\<close>

text \<open>One more than the index of the last hit, 0 when there is none.\<close>

definition last_hit :: "('a, 's) item_trait \<Rightarrow> ('s \<Rightarrow> bool) \<Rightarrow> 'a list \<Rightarrow> nat" where
  "last_hit D P xs = length xs - length (takeWhile (\<lambda>x. \<not> P (item_summary D x)) (rev xs))"

lemma last_hit_Nil [simp]: "last_hit D P [] = 0"
  by (simp add: last_hit_def)

lemma last_hit_snoc:
  "last_hit D P (xs @ [x]) = (if P (item_summary D x) then Suc (length xs) else last_hit D P xs)"
  by (simp add: last_hit_def)

lemma last_hit_none: "(\<And>x. x \<in> set xs \<Longrightarrow> \<not> P (item_summary D x)) \<Longrightarrow> last_hit D P xs = 0"
  by (induction xs rule: rev_induct) (auto simp: last_hit_snoc)

lemma last_hit_append:
  "last_hit D P (xs @ ys) = (if last_hit D P ys = 0 then last_hit D P xs else length xs + last_hit D P ys)"
  by (induction ys rule: rev_induct) (auto simp: last_hit_snoc simp flip: append_assoc)

lemma last_hit_le: "last_hit D P xs \<le> length xs"
  by (simp add: last_hit_def)

lemma last_hit_true [simp]: "last_hit D (\<lambda>_. True) xs = length xs"
  by (induction xs rule: rev_induct) (auto simp: last_hit_snoc)

definition backward_result ::
    "('a, 's) item_trait \<Rightarrow> ('s, 'd) dimension \<Rightarrow> ('a, 's) node \<Rightarrow> ('s \<Rightarrow> bool)
      \<Rightarrow> (('a, 's, 'd) stack_entry list \<times> 'd) option
      \<Rightarrow> (('a, 's, 'd) stack_entry list \<times> 'd) option \<Rightarrow> 'a list \<Rightarrow> 'a list \<Rightarrow> bool" where
  "backward_result D M root P run cont pre ys \<longleftrightarrow>
     (case last_hit D P ys of
        0 \<Rightarrow> run = cont
      | Suc k \<Rightarrow> \<exists>st. run = Some (st, seq_pos D M (pre @ take k ys)) \<and> points D M root st (length pre + k))"

lemma backward_result_append:
  assumes "backward_result D M root P run run2 (pre @ ys) zs"
    and "backward_result D M root P run2 cont pre ys"
  shows "backward_result D M root P run cont pre (ys @ zs)"
  using assms last_hit_le [of D P ys]
  by (auto simp: backward_result_def last_hit_append add.assoc split: nat.splits)

lemma backward_result_skip:
  assumes "last_hit D P zs = 0" "backward_result D M root P run cont pre ys"
  shows "backward_result D M root P run cont pre (ys @ zs)"
  using assms last_hit_le [of D P ys]
  by (auto simp: backward_result_def last_hit_append split: nat.splits)

lemma backward_loop_pos: "backward_loop M P d (e # st) p = backward_loop M P d (e # st) q"
  by (simp add: backward_loop.simps)

lemma backward_descend:
  "backward_loop M P True (entry t i q # st) p = backward_loop M P False (entry t (Suc i) q # st) p"
  by (simp add: backward_loop.simps [of M P True "_ # _"] backward_loop.simps [of M P False "_ # _"])

lemma stack_ctx_start:
  "stack_ctx D M root st hole pre post \<Longrightarrow>
   (case st of [] \<Rightarrow> dim_zero M | parent # _ \<Rightarrow> se_position parent) = seq_pos D M pre"
  by (cases rule: stack_ctx.cases) auto

context dimension_laws
begin

lemma pos_after_children:
  "\<forall>t \<in> set ts. wf_node D t \<Longrightarrow> pos_after M d (map node_summary ts) = pos_after M d (map (item_summary D) (flat ts))"
  by (induction ts arbitrary: d) (auto simp: dim_add_node)

lemma backward_leaf:
  assumes ctx: "stack_ctx D M root st (mk_leaf D xs) pre post" and "j \<le> length xs"
  shows "backward_result D M root P (backward_loop M P False (entry (mk_leaf D xs) j q # st) p)
     (backward_loop M P False st (seq_pos D M pre)) pre (take j xs)"
  using assms(2)
proof (induction j arbitrary: p q)
  case 0
  then show ?case
    using stack_ctx_start [OF ctx]
    by (simp add: backward_result_def backward_loop.simps [of M P False "_ # _"])
next
  case (Suc j)
  then have j: "j < length xs" by simp
  let ?e = "entry (mk_leaf D xs) j (seq_pos D M (pre @ take j xs))"
  have "backward_loop M P False (entry (mk_leaf D xs) (Suc j) q # st) p =
      (if P (item_summary D (xs ! j)) then Some (?e # st, seq_pos D M (pre @ take j xs))
       else backward_loop M P False (?e # st) (seq_pos D M (pre @ take j xs)))"
    using j stack_ctx_start [OF ctx]
    by (simp add: backward_loop.simps [of M P False "entry _ (Suc j) _ # _"] mk_leaf_def take_map Let_def)
  moreover have "points D M root (?e # st) (length pre + j)"
    using ctx j by (auto simp: points_def)
  moreover have "backward_result D M root P (backward_loop M P False (?e # st) (seq_pos D M (pre @ take j xs)))
     (backward_loop M P False st (seq_pos D M pre)) pre (take j xs)"
    using Suc.IH j by simp
  ultimately show ?case
    using j last_hit_le [of D P "take j xs"]
    by (auto simp: backward_result_def take_Suc_conv_app_nth last_hit_snoc split: nat.splits)
qed

lemma backward_children:
  assumes ctx: "stack_ctx D M root st (mk_internal D h ts) pre post"
    and root: "wf_node D root" "stack_fits root" and P: "filter_sound D P" and k: "k \<le> length ts"
    and sub: "\<And>t st pre post p q. t \<in> set ts \<Longrightarrow> stack_ctx D M root st t pre post \<Longrightarrow>
      backward_result D M root P (backward_loop M P False (entry t (length (child_summaries t)) q # st) p)
        (backward_loop M P False st (seq_pos D M pre)) pre (flatten t)"
  shows "backward_result D M root P (backward_loop M P False (entry (mk_internal D h ts) k q # st) p)
     (backward_loop M P False st (seq_pos D M pre)) pre (flat (take k ts))"
  using k
proof (induction k arbitrary: p q)
  case 0
  then show ?case
    using stack_ctx_start [OF ctx]
    by (simp add: backward_result_def backward_loop.simps [of M P False "_ # _"])
next
  case (Suc k)
  then have k: "k < length ts" by simp
  let ?t = "ts ! k" and ?pre = "pre @ flat (take k ts)"
  let ?e = "entry (mk_internal D h ts) k (seq_pos D M ?pre)"
  have wf: "\<forall>t \<in> set ts. wf_node D t" using stack_ctx_wf [OF ctx root(1)] by auto
  then have t: "?t \<in> set ts" "wf_node D ?t" using k by auto
  have ctx': "stack_ctx D M root (?e # st) ?t ?pre (flat (drop (Suc k) ts) @ post)"
    by (rule ctx_child [OF ctx k])
  have ne: "child_summaries ?t \<noteq> []" using t(2) by (cases rule: wf_node_cases) auto
  have pos: "pos_after M (seq_pos D M pre) (take k (map node_summary ts)) = seq_pos D M ?pre"
    using wf pos_after_children [of "take k ts" "seq_pos D M pre"] by (auto simp: take_map dest: in_set_takeD)
  have "backward_loop M P False (entry (mk_internal D h ts) (Suc k) q # st) p =
      (if P (node_summary ?t)
       then backward_loop M P True (entry ?t (length (child_summaries ?t) - 1) (dim_zero M) # ?e # st) (seq_pos D M ?pre)
       else backward_loop M P False (?e # st) (seq_pos D M ?pre))"
    using k stack_ctx_start [OF ctx] ne pos push_entry_fits [OF ctx' root]
    by (simp add: backward_loop.simps [of M P False "entry _ (Suc k) _ # _"] mk_internal_def Let_def)
  then have step: "backward_loop M P False (entry (mk_internal D h ts) (Suc k) q # st) p =
      (if P (node_summary ?t)
       then backward_loop M P False (entry ?t (length (child_summaries ?t)) (dim_zero M) # ?e # st) (seq_pos D M ?pre)
       else backward_loop M P False (?e # st) (seq_pos D M ?pre))"
    using ne by (simp add: backward_descend)
  have IH: "backward_result D M root P (backward_loop M P False (?e # st) (seq_pos D M ?pre))
     (backward_loop M P False st (seq_pos D M pre)) pre (flat (take k ts))"
    using Suc.IH k by simp
  show ?case
  proof (cases "P (node_summary ?t)")
    case True
    then show ?thesis
      unfolding step flat_take [OF k] using backward_result_append [OF sub [OF t(1) ctx'] IH] by simp
  next
    case False
    then have "last_hit D P (flatten ?t) = 0"
      using P t(2) by (intro last_hit_none) (auto simp: filter_sound_def wf_node_summary)
    then show ?thesis
      unfolding step flat_take [OF k] using False backward_result_skip [OF _ IH] by simp
  qed
qed

lemma backward_subtree:
  assumes "wf_node D t" "stack_ctx D M root st t pre post"
    and root: "wf_node D root" "stack_fits root" and P: "filter_sound D P"
  shows "backward_result D M root P (backward_loop M P False (entry t (length (child_summaries t)) q # st) p)
     (backward_loop M P False st (seq_pos D M pre)) pre (flatten t)"
  using assms(1,2)
proof (induction arbitrary: st pre post p q rule: wf_node_induct)
  case (leaf xs)
  then show ?case using backward_leaf [OF leaf.prems, of "length xs"] by simp
next
  case (internal h ts)
  then show ?case using backward_children [OF internal.prems root P, of "length ts"] by simp
qed

lemma backward_rest:
  assumes "stack_ctx D M root st hole pre post"
    and root: "wf_node D root" "stack_fits root" and P: "filter_sound D P"
  shows "backward_result D M root P (backward_loop M P False st (seq_pos D M pre)) (Some ([], dim_zero M)) [] pre"
  using assms(1)
proof (induction rule: stack_ctx.induct)
  case ctx_root
  then show ?case by (simp add: backward_result_def backward_loop.simps)
next
  case (ctx_child st h ts pre post k)
  have "backward_result D M root P
     (backward_loop M P False (entry (mk_internal D h ts) k (seq_pos D M (pre @ flat (take k ts))) # st)
       (seq_pos D M (pre @ flat (take k ts))))
     (backward_loop M P False st (seq_pos D M pre)) pre (flat (take k ts))"
    using ctx_child.hyps stack_ctx_wf [OF ctx_child.hyps(1) root(1)]
    by (intro backward_children [OF ctx_child.hyps(1) root P] backward_subtree [OF _ _ root P]) auto
  then show ?case using ctx_child.IH by (intro backward_result_append) simp_all
qed

lemma backward_from_item:
  assumes "points D M root st i"
    and root: "wf_node D root" "stack_fits root" and P: "filter_sound D P"
  shows "backward_result D M root P (backward_loop M P False st p) (Some ([], dim_zero M)) []
     (take i (flatten root))"
proof -
  obtain xs j q rest pre post where st: "st = entry (mk_leaf D xs) j q # rest"
    and ctx: "stack_ctx D M root rest (mk_leaf D xs) pre post" and j: "j < length xs" "i = length pre + j"
    using assms(1) by (auto simp: points_def)
  have "take i (flatten root) = pre @ take j xs" using stack_ctx_append [OF ctx, symmetric] j by simp
  then show ?thesis
    using backward_result_append [of D M root P _ _ "[]" pre "take j xs"]
      backward_leaf [OF ctx, of j P q p] backward_rest [OF ctx root P] j st by simp
qed

text \<open>From the outcome of the loop to the state of the cursor: on the last hit, or before the first item.\<close>

lemma search_backward_finish:
  assumes run: "backward_result D M t P run (Some ([], dim_zero M)) [] (take i (flatten t))"
    and c: "c_tree c = t" "flatten t \<noteq> []"
  shows "\<exists>c'. (do { (st', pos') \<leftarrow> run;
       Some (c\<lparr>c_stack := st', c_position := pos', c_did_seek := True, c_at_end := False\<rparr>) }) = Some c' \<and>
     c_did_seek c' \<and>
     (case last_hit D P (take i (flatten t)) of 0 \<Rightarrow> cursor_before M t c' | Suc k \<Rightarrow> cursor_at D M t c' k)"
proof (cases "last_hit D P (take i (flatten t))")
  case 0
  then show ?thesis using run c by (simp add: backward_result_def cursor_before_def)
next
  case (Suc k)
  then have "Suc k \<le> length (take i (flatten t))" by (metis last_hit_le)
  moreover obtain st' where "run = Some (st', seq_pos D M (take k (take i (flatten t))))" "points D M t st' k"
    using run Suc by (auto simp: backward_result_def)
  ultimately show ?thesis
    using Suc c by (simp add: cursor_at_def min_absorb1)
qed

lemma search_backward_at_ok:
  assumes "wf_tree D t" "stack_fits t" "filter_sound D P" "cursor_at D M t c i"
  shows "\<exists>c'. search_backward M P c = Some c' \<and> c_did_seek c' \<and>
    (case last_hit D P (take i (flatten t)) of 0 \<Rightarrow> cursor_before M t c' | Suc k \<Rightarrow> cursor_at D M t c' k)"
proof (cases "flatten t = []")
  case True
  then show ?thesis
    using assms by (simp add: cursor_at_def search_backward_def backward_loop.simps cursor_before_def)
next
  case ne: False
  then have t: "wf_node D t" using assms(1) by (rule wf_tree_nonempty [rotated])
  show ?thesis
  proof (cases "i < length (flatten t)")
    case True
    then have pt: "points D M t (c_stack c) i" using assms(4) by (simp add: cursor_at_def)
    show ?thesis
      using search_backward_finish [OF backward_from_item [OF pt t assms(2,3)] _ ne, of c "c_position c"] True assms(4)
      by (simp add: cursor_at_def search_backward_def)
  next
    case False
    then have i: "take i (flatten t) = flatten t" by simp
    have "backward_result D M t P (backward_loop M P False [entry t (length (child_summaries t)) q] p)
        (Some ([], dim_zero M)) [] (take i (flatten t))" for p q
      using backward_subtree [OF t ctx_root t assms(2,3)] i by (simp add: backward_loop.simps [of M P False "[]"])
    from search_backward_finish [OF this _ ne, of c] show ?thesis
      using False assms ne i
      by (simp add: cursor_at_def search_backward_def push_entry_def STACK_CAPACITY_def)
  qed
qed

text \<open>A fresh cursor searches backward from the end; one already before the first item stays there.\<close>

lemma search_backward_before_ok:
  assumes "wf_tree D t" "stack_fits t" "filter_sound D P" "cursor_before M t c"
  shows "\<exists>c'. search_backward M P c = Some c' \<and> c_did_seek c' \<and>
    (if c_did_seek c then cursor_before M t c'
     else (case last_hit D P (flatten t) of 0 \<Rightarrow> cursor_before M t c' | Suc k \<Rightarrow> cursor_at D M t c' k))"
proof (cases "c_did_seek c \<or> flatten t = []")
  case True
  then show ?thesis
    using assms by (auto simp: cursor_before_def search_backward_def backward_loop.simps)
next
  case False
  then have t: "wf_node D t" using assms(1) by (auto intro: wf_tree_nonempty)
  have "backward_result D M t P (backward_loop M P False [entry t (length (child_summaries t)) q] p)
      (Some ([], dim_zero M)) [] (take (length (flatten t)) (flatten t))" for p q
    using backward_subtree [OF t ctx_root t assms(2,3)] by (simp add: backward_loop.simps [of M P False "[]"])
  from search_backward_finish [OF this, of c] show ?thesis
    using False assms
    by (simp add: cursor_before_def search_backward_def push_entry_def STACK_CAPACITY_def)
qed

end

end
