(* ===== verification/CursorIter.thy ===== *)
theory CursorIter
  imports CursorSearch
begin

text \<open>
  Stepping through a tree: \<^verbatim>\<open>next\<close> and \<^verbatim>\<open>prev\<close> of a cursor, the cursor as an iterator,
  \<^verbatim>\<open>SumTree::items\<close>, and the plain iterator \<^verbatim>\<open>Iter\<close>, which is shown to move as a cursor does.
\<close>

section \<open>Steps of a cursor\<close>

lemma filter_sound_true [simp]: "filter_sound D (\<lambda>_. True)"
  by (simp add: filter_sound_def)

lemma cursor_at_le: "cursor_at D M t c i \<Longrightarrow> i \<le> length (flatten t)"
  by (simp add: cursor_at_def)

lemma cursor_end_at:
  assumes "cursor_at D M t c i"
  shows "cursor_end M c = Some (seq_pos D M (take (Suc i) (flatten t)))"
proof -
  have "c_position c = seq_pos D M (take i (flatten t))" "i \<le> length (flatten t)"
    using assms by (simp_all add: cursor_at_def)
  then show ?thesis
    using cursor_item_at(2) [OF assms]
    by (cases "i < length (flatten t)") (simp_all add: cursor_end_def take_Suc_conv_app_nth)
qed

context dimension_laws
begin

lemma cursor_next_before:
  "wf_tree D t \<Longrightarrow> stack_fits t \<Longrightarrow> cursor_before M t c \<Longrightarrow>
   \<exists>c'. cursor_next M c = Some c' \<and> cursor_at D M t c' 0"
  using search_forward_before_ok [of t "\<lambda>_. True" c] by (simp add: cursor_next_def)

lemma cursor_next_at:
  "wf_tree D t \<Longrightarrow> stack_fits t \<Longrightarrow> cursor_at D M t c i \<Longrightarrow>
   \<exists>c'. cursor_next M c = Some c' \<and> cursor_at D M t c' (min (Suc i) (length (flatten t)))"
  using search_forward_at_ok [of t "\<lambda>_. True" c i]
  by (auto simp: cursor_next_def min_def split: if_splits dest: cursor_at_le)

lemma cursor_prev_at:
  "wf_tree D t \<Longrightarrow> stack_fits t \<Longrightarrow> cursor_at D M t c i \<Longrightarrow>
   \<exists>c'. cursor_prev M c = Some c' \<and> c_did_seek c' \<and>
     (if i = 0 then cursor_before M t c' else cursor_at D M t c' (i - 1))"
  using search_backward_at_ok [of t "\<lambda>_. True" c i] cursor_at_le [of D M t c i]
  by (cases i) (auto simp: cursor_prev_def min_absorb2)

lemma items_loop_ok:
  assumes "wf_tree D t" "stack_fits t" "cursor_at D M t c i"
  shows "items_loop M acc c = Some (acc @ drop i (flatten t))"
  using assms(3)
proof (induction "length (flatten t) - i" arbitrary: i c acc)
  case 0
  then show ?case
    using cursor_item_at(1) [OF 0(2)] by (simp add: items_loop.simps)
next
  case (Suc n)
  then have i: "i < length (flatten t)" by simp
  obtain c' where c': "cursor_next M c = Some c'" "cursor_at D M t c' (Suc i)"
    using cursor_next_at [OF assms(1,2) Suc.prems] i by (auto simp: min_def)
  have "items_loop M acc c = items_loop M (acc @ [flatten t ! i]) c'"
    using cursor_item_at(1) [OF Suc.prems] i c' by (simp add: items_loop.simps [of M acc c])
  also have "\<dots> = Some ((acc @ [flatten t ! i]) @ drop (Suc i) (flatten t))"
    using Suc.hyps(2) c'(2) by (intro Suc.hyps(1)) simp_all
  finally show ?case by (simp add: Cons_nth_drop_Suc i)
qed

text \<open>The cursor as an iterator: it yields the items the filter accepts, in order.\<close>

lemma cursor_iter_next_at:
  assumes "wf_tree D t" "stack_fits t" "filter_sound D P" "cursor_at D M t c i"
  shows "\<exists>c'. cursor_iter_next M P c = Some (c', get_opt (flatten t) i) \<and>
     cursor_at D M t c' (if i < length (flatten t) then Suc i + first_hit D P (drop (Suc i) (flatten t)) else i)"
proof -
  have seek: "c_did_seek c" using assms(4) by (simp add: cursor_at_def)
  obtain c' where "search_forward M P c = Some c'"
    "cursor_at D M t c' (if i < length (flatten t) then Suc i + first_hit D P (drop (Suc i) (flatten t)) else length (flatten t))"
    using search_forward_at_ok [OF assms] by blast
  then show ?thesis
    using seek cursor_item_at(1) [OF assms(4)] assms(4)
    by (cases "i < length (flatten t)") (simp_all add: cursor_iter_next_def)
qed

end

context dimension_laws
begin

lemma filter_first_hit:
  "filter (\<lambda>x. P (item_summary D x)) xs =
   (case drop (first_hit D P xs) xs of [] \<Rightarrow> [] | x # ys \<Rightarrow> x # filter (\<lambda>x. P (item_summary D x)) ys)"
  by (induction xs) (auto simp: first_hit_def split: list.split)

lemma cursor_collect_at:
  assumes "wf_tree D t" "stack_fits t" "filter_sound D P" "cursor_at D M t c i"
  shows "cursor_collect M P c = Some (case drop i (flatten t) of [] \<Rightarrow> []
     | x # ys \<Rightarrow> x # filter (\<lambda>x. P (item_summary D x)) ys)"
  using assms(4)
proof (induction "length (flatten t) - i" arbitrary: i c rule: less_induct)
  case less
  let ?j = "Suc i + first_hit D P (drop (Suc i) (flatten t))"
  obtain c' where c': "cursor_iter_next M P c = Some (c', get_opt (flatten t) i)"
    "cursor_at D M t c' (if i < length (flatten t) then ?j else i)"
    using cursor_iter_next_at [OF assms(1-3) less.prems] by blast
  show ?case
  proof (cases "i < length (flatten t)")
    case True
    have "cursor_collect M P c' = Some (case drop ?j (flatten t) of [] \<Rightarrow> []
       | x # ys \<Rightarrow> x # filter (\<lambda>x. P (item_summary D x)) ys)"
      using True c'(2) by (intro less.hyps) auto
    moreover have "drop ?j (flatten t) = drop (first_hit D P (drop (Suc i) (flatten t))) (drop (Suc i) (flatten t))"
      by (simp add: add.commute)
    ultimately show ?thesis
      using True c'(1) filter_first_hit [of P "drop (Suc i) (flatten t)"]
      by (simp add: cursor_collect.simps [of M P c] flip: Cons_nth_drop_Suc)
  next
    case False
    then show ?thesis using c'(1) by (simp add: cursor_collect.simps)
  qed
qed

end

sublocale summary_laws \<subseteq> unit_dim: dimension_laws D unit_dimension
  by unfold_locales (simp add: unit_dimension_def)

context summary_laws
begin

lemma tree_items_ok:
  assumes "wf_tree D t" "stack_fits t"
  shows "tree_items t = Some (flatten t)"
proof -
  obtain c where "cursor_next unit_dimension (cursor_new unit_dimension t) = Some c"
    "cursor_at D unit_dimension t c 0"
    using unit_dim.cursor_next_before [OF assms cursor_new_before [OF assms(1)]] by blast
  then show ?thesis using unit_dim.items_loop_ok [OF assms] by (simp add: tree_items_def)
qed

end

section \<open>The plain iterator\<close>

definition iter_entry :: "('a, 's, 'd) stack_entry \<Rightarrow> ('a, 's) node \<times> nat" where
  "iter_entry e = (se_tree e, se_index e)"

lemma iter_entry_simps [simp]:
  "iter_entry \<lparr>se_tree = t, se_index = i, se_position = p\<rparr> = (t, i)"
  "iter_entry (e\<lparr>se_index := i, se_position := p\<rparr>) = (se_tree e, i)"
  by (simp_all add: iter_entry_def)

lemma skip_entries_true [simp]: "skip_entries M (\<lambda>_. True) i ep p ss = (i, ep, p)"
  by (cases ss) simp_all

text \<open>The item under the top of a stack.\<close>

definition top_item :: "('a, 's, 'd) stack_entry list \<Rightarrow> 'a option" where
  "top_item st = (case st of [] \<Rightarrow> None | e # _ \<Rightarrow>
     (case se_tree e of Leaf _ xs _ \<Rightarrow> get_opt xs (se_index e) | Internal _ _ _ _ \<Rightarrow> None))"

lemma push_entry_iter:
  "push_entry (e # st) e' = Some st' \<Longrightarrow> se_index e' = 0 \<Longrightarrow>
   push_iter (iter_entry e # map iter_entry st) (se_tree e') = Some (map iter_entry st')"
  by (auto simp: push_entry_def push_iter_def iter_entry_def split: if_splits)

abbreviation iter_outcome ::
    "('a, 's, 'd) stack_entry list \<times> 'd \<times> bool \<Rightarrow> ('a, 's) iter_stack \<times> 'a option" where
  "iter_outcome r \<equiv> (map iter_entry (fst r), if snd (snd r) then top_item (fst r) else None)"

lemma iter_simulates:
  fixes M :: "('s, 'd) dimension" and st :: "('a, 's, 'd) stack_entry list"
  assumes "forward_loop M (\<lambda>_. True) d st pos = Some r" "\<forall>e \<in> set st. wf_node D (se_tree e)"
  shows "iter_loop d (map iter_entry st) = Some (iter_outcome r)"
proof -
  define Q where "Q = (\<lambda>((((M :: ('s, 'd) dimension, P :: 's \<Rightarrow> bool), d), st :: ('a, 's, 'd) stack_entry list), pos :: 'd)
      (r :: ('a, 's, 'd) stack_entry list \<times> 'd \<times> bool). P = (\<lambda>_. True) \<longrightarrow> (\<forall>e \<in> set st. wf_node D (se_tree e)) \<longrightarrow>
    iter_loop d (map iter_entry st) = Some (iter_outcome r))"
  have "Q ((((M, \<lambda>_. True), d), st), pos) r"
  proof (rule forward_loop.raw_induct [where Pa = Q, OF _ assms(1)], goal_cases)
    case (1 loop M P d st pos r)
    show ?case
      unfolding Q_def
    proof (clarify)
      assume P: "P = (\<lambda>_. True)" and wf: "\<forall>e \<in> set st. wf_node D (se_tree e)"
      have IH: "iter_loop d' (map iter_entry st') = Some (iter_outcome r')"
        if "loop M (\<lambda>_. True) d' st' pos' = Some r'" "\<forall>e \<in> set st'. wf_node D (se_tree e)" for d' st' pos' r'
        using 1(1) [OF that(1)] that(2) by (simp add: Q_def)
      show "iter_loop d (map iter_entry st) = Some (iter_outcome r)"
      proof (cases st)
        case Nil
        then show ?thesis using 1(2) by (auto simp: iter_loop.simps)
      next
        case (Cons e rest)
        let ?i = "if d then se_index e else se_index e + 1"
        have e: "wf_node D (se_tree e)" and rest: "\<forall>e \<in> set rest. wf_node D (se_tree e)"
          using wf Cons by simp_all
        show ?thesis
        proof (cases "se_tree e")
          case (Leaf s xs ss)
          then have "length ss = length xs" using e by simp
          then show ?thesis
            using Leaf Cons 1(2) IH [OF _ rest] P
            by (auto simp: iter_loop.simps [of d] iter_entry_def [of e] top_item_def Let_def bind_eq_Some_conv
                get_opt_def split: if_splits)
        next
          case (Internal h s ss ts)
          have step: "iter_loop d (map iter_entry st) =
              (case get_opt ts ?i of
                 Some subtree \<Rightarrow> do { st' \<leftarrow> push_iter ((se_tree e, ?i) # map iter_entry rest) subtree; iter_loop True st' }
               | None \<Rightarrow> iter_loop False (map iter_entry rest))"
            using Internal Cons by (simp add: iter_loop.simps [of d] iter_entry_def [of e] Let_def split: option.split)
          show ?thesis
          proof (cases "get_opt ts ?i")
            case None
            then show ?thesis
              using step Internal Cons 1(2) IH [OF _ rest] P by (simp add: Let_def)
          next
            case (Some t)
            then have t: "wf_node D t" using e Internal by (auto simp: get_opt_def split: if_splits)
            let ?e = "e\<lparr>se_index := ?i, se_position := if d then se_position e else pos\<rparr>"
            have run: "Suc (length rest) < STACK_CAPACITY"
              "loop M (\<lambda>_. True) True (entry t 0 pos # ?e # rest) pos = Some r"
              using Some Internal Cons 1(2) P by (simp_all add: Let_def push_entry_def split: if_splits)
            have "iter_loop True (map iter_entry (entry t 0 pos # ?e # rest)) = Some (iter_outcome r)"
              by (rule IH [OF run(2)]) (use t e rest in simp)
            then show ?thesis using step Some run(1) by (simp add: push_iter_def)
          qed
        qed
      qed
    qed
  qed
  then show ?thesis using assms(2) by (simp add: Q_def)
qed

definition iter_at :: "('a, 's) item_trait \<Rightarrow> ('a, 's) node \<Rightarrow> ('a, 's) iter_stack \<Rightarrow> nat \<Rightarrow> bool" where
  "iter_at D t st i \<longleftrightarrow> (\<exists>st'. st = map iter_entry st' \<and> points D unit_dimension t st' i)"

lemma stack_ctx_entries_wf:
  assumes "stack_ctx D M root st hole pre post" "wf_node D root"
  shows "\<forall>e \<in> set st. wf_node D (se_tree e)"
  using assms
proof (induction rule: stack_ctx.induct)
  case (ctx_child st h ts pre post k)
  then show ?case using stack_ctx_wf [OF ctx_child.hyps(1) ctx_child.prems] by simp
qed simp

lemma points_entries_wf: "points D M root st i \<Longrightarrow> wf_node D root \<Longrightarrow> \<forall>e \<in> set st. wf_node D (se_tree e)"
  unfolding points_def using stack_ctx_entries_wf stack_ctx_wf by fastforce

lemma top_item_points:
  assumes "points D M root st i"
  shows "top_item st = Some (flatten root ! i)"
proof -
  obtain xs j q rest pre post where st: "st = entry (mk_leaf D xs) j q # rest"
    and ctx: "stack_ctx D M root rest (mk_leaf D xs) pre post" and j: "j < length xs" "i = length pre + j"
    using assms by (auto simp: points_def)
  show ?thesis using stack_ctx_append [OF ctx, symmetric] st j by (simp add: top_item_def mk_leaf_def nth_append)
qed

context summary_laws
begin

lemma iter_result:
  assumes run: "forward_result D unit_dimension t (\<lambda>_. True) (forward_loop unit_dimension (\<lambda>_. True) d st ())
      (\<lambda>p. Some ([], p, False)) (take i (flatten t)) (drop i (flatten t))"
    and wf: "\<forall>e \<in> set st. wf_node D (se_tree e)"
  shows "\<exists>st'. iter_loop d (map iter_entry st) = Some (st', get_opt (flatten t) i) \<and>
     (if i < length (flatten t) then iter_at D t st' i else st' = [])"
proof (cases "i < length (flatten t)")
  case True
  then obtain st' where "forward_loop unit_dimension (\<lambda>_. True) d st () = Some (st', (), True)"
    "points D unit_dimension t st' i"
    using run by (auto simp: forward_result_def)
  then show ?thesis using iter_simulates [OF _ wf] True by (auto simp: iter_at_def top_item_points)
next
  case False
  then have "forward_loop unit_dimension (\<lambda>_. True) d st () = Some ([], (), False)"
    using run by (simp add: forward_result_def)
  then show ?thesis using iter_simulates [OF _ wf] False by auto
qed

lemma iter_next_first:
  assumes "wf_tree D t" "stack_fits t"
  shows "\<exists>st'. iter_next t [] = Some (st', get_opt (flatten t) 0) \<and>
     (if 0 < length (flatten t) then iter_at D t st' 0 else st' = [])"
proof (cases "flatten t = []")
  case True
  then have "t = new_tree D" using assms(1) by (auto simp: wf_tree_def)
  then show ?thesis
    by (simp add: iter_next_def push_iter_def STACK_CAPACITY_def new_tree_def iter_loop.simps)
next
  case False
  then have t: "wf_node D t" using assms(1) by (auto intro: wf_tree_nonempty)
  have "forward_result D unit_dimension t (\<lambda>_. True) (forward_loop unit_dimension (\<lambda>_. True) True [entry t 0 ()] ())
      (\<lambda>p. Some ([], p, False)) (take 0 (flatten t)) (drop 0 (flatten t))"
    using unit_dim.forward_subtree [OF t ctx_root t assms(2) filter_sound_true] by (simp add: forward_loop_empty)
  from iter_result [OF this] show ?thesis
    using t by (simp add: iter_next_def push_iter_def STACK_CAPACITY_def)
qed

lemma iter_next_step:
  assumes "wf_tree D t" "stack_fits t" "iter_at D t st i"
  shows "\<exists>st'. iter_next t st = Some (st', get_opt (flatten t) (Suc i)) \<and>
     (if Suc i < length (flatten t) then iter_at D t st' (Suc i) else st' = [])"
proof -
  obtain st0 where st: "st = map iter_entry st0" and pt: "points D unit_dimension t st0 i"
    using assms(3) by (auto simp: iter_at_def)
  have t: "wf_node D t" using points_less [OF pt] assms(1) by (auto intro: wf_tree_nonempty)
  have "st \<noteq> []" using st pt by (auto simp: points_def)
  then show ?thesis
    using iter_result [of t False st0 "Suc i"] unit_dim.forward_from_item [OF pt t assms(2) filter_sound_true] st
      points_entries_wf [OF pt t]
    by (simp add: iter_next_def)
qed

end

text \<open>The outcomes of \<open>n\<close> calls of \<^verbatim>\<open>next\<close>.\<close>

fun iter_nexts :: "nat \<Rightarrow> ('a, 's) node \<Rightarrow> ('a, 's) iter_stack \<Rightarrow> 'a option list option" where
  "iter_nexts 0 t st = Some []"
| "iter_nexts (Suc n) t st = do {
     (st', x) \<leftarrow> iter_next t st;
     xs \<leftarrow> iter_nexts n t st';
     Some (x # xs) }"

context summary_laws
begin

lemma iter_nexts_at:
  assumes "wf_tree D t" "stack_fits t" "iter_at D t st i"
  shows "iter_nexts (length (flatten t) - i) t st = Some (map Some (drop (Suc i) (flatten t)) @ [None])"
  using assms(3)
proof (induction "length (flatten t) - i" arbitrary: i st)
  case 0
  then show ?case using points_less by (fastforce simp: iter_at_def)
next
  case (Suc n)
  obtain st' where st': "iter_next t st = Some (st', get_opt (flatten t) (Suc i))"
    "if Suc i < length (flatten t) then iter_at D t st' (Suc i) else st' = []"
    using iter_next_step [OF assms(1,2) Suc.prems] by blast
  have n: "length (flatten t) - i = Suc (length (flatten t) - Suc i)" using Suc.hyps(2) by simp
  show ?case
  proof (cases "Suc i < length (flatten t)")
    case True
    have "iter_nexts (length (flatten t) - Suc i) t st' = Some (map Some (drop (Suc (Suc i)) (flatten t)) @ [None])"
      using True st' Suc.hyps(2) by (intro Suc.hyps(1)) simp_all
    then show ?thesis unfolding n using st'(1) True by (simp flip: Cons_nth_drop_Suc)
  next
    case False
    then show ?thesis unfolding n using st'(1) by simp
  qed
qed

lemma iter_nexts_ok:
  assumes "wf_tree D t" "stack_fits t"
  shows "iter_nexts (Suc (length (flatten t))) t [] = Some (map Some (flatten t) @ [None])"
proof -
  obtain st' where st': "iter_next t [] = Some (st', get_opt (flatten t) 0)"
    "if 0 < length (flatten t) then iter_at D t st' 0 else st' = []"
    using iter_next_first [OF assms] by blast
  show ?thesis
  proof (cases "flatten t")
    case (Cons x xs)
    then have "iter_nexts (length (flatten t)) t st' = Some (map Some xs @ [None])"
      using iter_nexts_at [OF assms, of st' 0] st' by simp
    then show ?thesis using Cons st' by (simp del: iter_nexts.simps add: iter_nexts.simps(2) [of "Suc (length xs)"])
  qed (use st' in simp)
qed

lemma iter_collect_at:
  assumes "wf_tree D t" "stack_fits t" "iter_at D t st i"
  shows "iter_collect t st = Some (drop (Suc i) (flatten t))"
  using assms(3)
proof (induction "length (flatten t) - i" arbitrary: i st rule: less_induct)
  case less
  obtain st' where st': "iter_next t st = Some (st', get_opt (flatten t) (Suc i))"
    "if Suc i < length (flatten t) then iter_at D t st' (Suc i) else st' = []"
    using iter_next_step [OF assms(1,2) less.prems] by blast
  then show ?case
    using less.hyps [of "Suc i" st']
    by (cases "Suc i < length (flatten t)")
      (simp_all add: iter_collect.simps [of t st] flip: Cons_nth_drop_Suc [of "Suc i"])
qed

lemma iter_collect_ok:
  assumes "wf_tree D t" "stack_fits t"
  shows "iter_collect t [] = Some (flatten t)"
proof -
  obtain st' where st': "iter_next t [] = Some (st', get_opt (flatten t) 0)"
    "if 0 < length (flatten t) then iter_at D t st' 0 else st' = []"
    using iter_next_first [OF assms] by blast
  show ?thesis
  proof (cases "flatten t")
    case (Cons x xs)
    then show ?thesis using iter_collect_at [OF assms, of st' 0] st' by (simp add: iter_collect.simps [of t "[]"])
  qed (use st' in \<open>subst iter_collect.simps, simp\<close>)
qed

end

section \<open>Properties\<close>

abbreviation sample_tree :: "(int, nat) node" where
  "sample_tree \<equiv> mk_leaf count_trait [10, 20, 30]"

lemma sample_tree_ok: "wf_tree count_trait sample_tree" "stack_fits sample_tree"
  by (simp_all add: wf_tree_def TREE_BASE_def stack_fits_def STACK_CAPACITY_def)

lemma items_summary_count: "items_summary count_trait xs = length xs"
  by (induction xs rule: rev_induct) (simp_all add: sum_of_def count_trait_def)

lemma sample_cursor: "\<exists>c. cursor_at count_trait count_dim sample_tree c 0"
  using counting.cursor_next_before [OF sample_tree_ok cursor_new_before [OF sample_tree_ok(1)]] by blast

text \<open>
  A forward search with a filter that rejects a subtree only when it rejects all its items
  ends, does not panic, and moves the cursor from the item \<open>i\<close> to the next item the filter accepts,
  however many subtrees it jumps over, or past the end.
\<close>

theorem search_forward_finds:
  assumes "dimension_laws D M" "wf_tree D t" "stack_fits t" "filter_sound D P" "cursor_at D M t c i"
  shows "\<exists>c'. search_forward M P c = Some c' \<and>
    cursor_at D M t c' (if i < length (flatten t) then Suc i + first_hit D P (drop (Suc i) (flatten t))
                        else length (flatten t))"
  by (rule dimension_laws.search_forward_at_ok [OF assms])

theorem search_forward_finds_witness:
  "\<exists>c c'. search_forward count_dim (\<lambda>n. 0 < n) c = Some c' \<and> cursor_at count_trait count_dim sample_tree c' 1"
proof -
  have "filter_sound count_trait (\<lambda>n. 0 < n)"
    unfolding filter_sound_def items_summary_count by (auto simp: length_pos_if_in_set)
  then show ?thesis
    using sample_cursor search_forward_finds [OF counting.dimension_laws_axioms sample_tree_ok, of "\<lambda>n. 0 < n" _ 0]
    by (fastforce simp: first_hit_def)
qed

text \<open>
  A backward search ends, does not panic, and moves the cursor from the item \<open>i\<close> (or from
  past the end) to the last item before it that the filter accepts, with the position recomputed
  exactly; when there is none the cursor stands before the first item.
\<close>

theorem search_backward_finds:
  assumes "dimension_laws D M" "wf_tree D t" "stack_fits t" "filter_sound D P" "cursor_at D M t c i"
  shows "\<exists>c'. search_backward M P c = Some c' \<and> c_did_seek c' \<and>
    (case last_hit D P (take i (flatten t)) of 0 \<Rightarrow> cursor_before M t c' | Suc k \<Rightarrow> cursor_at D M t c' k)"
  by (rule dimension_laws.search_backward_at_ok [OF assms])

theorem search_backward_finds_witness:
  "\<exists>c c'. cursor_at count_trait count_dim sample_tree c 0 \<and> search_backward count_dim (\<lambda>_. True) c = Some c' \<and>
     cursor_before count_dim sample_tree c'"
  using sample_cursor search_backward_finds [OF counting.dimension_laws_axioms sample_tree_ok filter_sound_true, of _ 0]
  by fastforce

text \<open>
  \<^verbatim>\<open>next\<close> followed by \<^verbatim>\<open>prev\<close> brings a cursor back to the item it was on, at the same
  position, also at the boundary of a leaf and at the end of the tree.
\<close>

theorem next_then_prev:
  assumes "dimension_laws D M" "wf_tree D t" "stack_fits t" "cursor_at D M t c i" "i < length (flatten t)"
  shows "\<exists>c' c''. cursor_next M c = Some c' \<and> cursor_prev M c' = Some c'' \<and> cursor_at D M t c'' i \<and>
     c_position c'' = c_position c \<and> cursor_item c'' = cursor_item c"
proof -
  obtain c' where c': "cursor_next M c = Some c'" "cursor_at D M t c' (Suc i)"
    using dimension_laws.cursor_next_at [OF assms(1-4)] assms(5) by (auto simp: min_def)
  obtain c'' where c'': "cursor_prev M c' = Some c''" "cursor_at D M t c'' i"
    using dimension_laws.cursor_prev_at [OF assms(1-3) c'(2)] by auto
  from c' c'' show ?thesis
    using cursor_item_at(1) [OF assms(4)] cursor_item_at(1) [OF c''(2)] assms(4) by (auto simp: cursor_at_def)
qed

theorem next_then_prev_witness:
  "\<exists>c c' c''. cursor_at count_trait count_dim sample_tree c 0 \<and> cursor_next count_dim c = Some c' \<and>
     cursor_prev count_dim c' = Some c'' \<and> cursor_item c'' = cursor_item c"
  using sample_cursor next_then_prev [OF counting.dimension_laws_axioms sample_tree_ok, of _ 0] by fastforce

text \<open>
  \<^verbatim>\<open>SumTree::items\<close> returns the sequence of the tree, and the plain iterator yields each of
  its items once, in order, and then \<^verbatim>\<open>None\<close>.
\<close>

theorem items_and_iter_enumerate:
  assumes "summary_laws D" "wf_tree D t" "stack_fits t"
  shows "tree_items t = Some (flatten t) \<and>
     iter_nexts (Suc (length (flatten t))) t [] = Some (map Some (flatten t) @ [None])"
  using summary_laws.tree_items_ok [OF assms] summary_laws.iter_nexts_ok [OF assms] by (rule conjI)

theorem items_and_iter_enumerate_witness:
  "tree_items sample_tree = Some [10, 20, 30] \<and>
   iter_nexts 4 sample_tree [] = Some [Some 10, Some 20, Some 30, None]"
  using items_and_iter_enumerate [OF count.summary_laws_axioms sample_tree_ok]
  by (simp del: iter_nexts.simps add: eval_nat_numeral)

text \<open>
  The lower bound of \<^verbatim>\<open>Iter::size_hint\<close> is too high once an item was yielded: on a tree of
  one leaf, after the first item it still counts that item, one more than the iterator will yield.
\<close>

theorem iter_size_hint_overcounts:
  assumes "summary_laws D" "xs \<noteq> []" "length xs \<le> 2 * TREE_BASE"
  shows "\<exists>st. iter_next (mk_leaf D xs) [] = Some (st, Some (hd xs)) \<and>
     iter_collect (mk_leaf D xs) st = Some (tl xs) \<and> length (tl xs) < iter_size_hint (mk_leaf D xs) st"
proof -
  let ?t = "mk_leaf D xs"
  have t: "wf_tree D ?t" "stack_fits ?t" using assms(2,3) by (simp_all add: wf_tree_def stack_fits_def STACK_CAPACITY_def)
  have first: "iter_next ?t [] = Some ([(?t, 0)], Some (hd xs))"
    using assms(2) by (simp add: iter_next_def push_iter_def STACK_CAPACITY_def iter_loop.simps mk_leaf_def hd_conv_nth)
  then have "iter_at D ?t [(?t, 0)] 0"
    using summary_laws.iter_next_first [OF assms(1) t] assms(2) by auto
  then have "iter_collect ?t [(?t, 0)] = Some (tl xs)"
    using summary_laws.iter_collect_at [OF assms(1) t] by (simp add: drop_Suc)
  with first assms(2) show ?thesis by (auto simp: iter_size_hint_def)
qed

theorem iter_size_hint_overcounts_witness:
  "\<exists>st. iter_next sample_tree [] = Some (st, Some 10) \<and> iter_collect sample_tree st = Some [20, 30] \<and>
     2 < iter_size_hint sample_tree st"
  using iter_size_hint_overcounts [OF count.summary_laws_axioms, of "[10, 20, 30 :: int]"]
  by (simp add: TREE_BASE_def numeral_2_eq_2)

end
