(* ===== verification/CursorSeek.thy ===== *)
theory CursorSeek
  imports CursorIter
begin

text \<open>
  Seeking with a cursor. What the three aggregates have in common is the interface
  \<open>aggregate_laws\<close>: an aggregate collects the items passed over, whole subtrees or the items of one
  leaf at a time. The loop of \<^verbatim>\<open>seek_internal\<close> is verified once against it, and \<^verbatim>\<open>seek\<close>,
  \<^verbatim>\<open>slice\<close>, \<^verbatim>\<open>suffix\<close> and \<^verbatim>\<open>summary\<close> are its three interpretations.
\<close>

locale aggregate_laws = dimension_laws D M
  for D :: "('a, 's) item_trait" and M :: "('s, 'd) dimension" +
  fixes A :: "('a, 's, 'g) seek_aggregate" and collects :: "'g \<Rightarrow> 'a list \<Rightarrow> 'a list \<Rightarrow> bool"
  assumes push_item_law: "collects g ys zs \<Longrightarrow> length zs < 2 * TREE_BASE \<Longrightarrow>
      \<exists>g'. agg_push_item A g x (item_summary D x) = Some g' \<and> collects g' ys (zs @ [x])"
    and push_tree_law: "collects g ys [] \<Longrightarrow> wf_node D t \<Longrightarrow>
      \<exists>g'. agg_push_tree A g t (node_summary t) = Some g' \<and> collects g' (ys @ flatten t) []"
    and end_leaf_law: "collects g ys zs \<Longrightarrow> length zs \<le> 2 * TREE_BASE \<Longrightarrow>
      \<exists>g'. agg_end_leaf A g = Some g' \<and> collects g' (ys @ zs) []"

section \<open>The loops over the entries of a node\<close>

lemma seek_entries_index:
  "seek_entries M cmp b add i pos g zs = Some (i', pos', g', f) \<Longrightarrow> i \<le> i' \<and> (i' = i \<longrightarrow> pos' = pos)"
  by (induction M cmp b add i pos g zs arbitrary: i' pos' g' f rule: seek_entries.induct)
    (fastforce simp: Let_def bind_eq_Some_conv split: if_splits)+

lemma seek_ascend:
  "seek_loop M cmp b A True (entry (Internal h s ss ts) i q # st) p g =
   seek_loop M cmp b A False (entry (Internal h s ss ts) (Suc i) p # st) p g"
  by (simp add: seek_loop.simps [of M cmp b A True "_ # _"] seek_loop.simps [of M cmp b A False "_ # _"] Let_def)

lemma seek_skip:
  assumes "i < length ss" "i < length ts" "\<not> in_child b (cmp (dim_add M p (ss ! i)))"
    and g: "agg_push_tree A g (ts ! i) (ss ! i) = Some g'"
  shows "seek_loop M cmp b A False (entry (Internal h s ss ts) i p # st) p g =
   seek_loop M cmp b A False (entry (Internal h s ss ts) (Suc i) (dim_add M p (ss ! i)) # st) (dim_add M p (ss ! i)) g'"
proof -
  have z: "zip (drop i ts) (drop i ss) = (ts ! i, ss ! i) # zip (drop (Suc i) ts) (drop (Suc i) ss)"
    using assms by (simp flip: Cons_nth_drop_Suc)
  show ?thesis
    using assms unfolding seek_loop.simps [of M cmp b A False "_ # _"]
    by (auto simp: Let_def z past_end_not_in_child dest!: seek_entries_index intro!: Option.bind_cong
        split: option.split)
qed

lemma seek_descend:
  assumes "i < length ss" "i < length ts" "in_child b (cmp (dim_add M p (ss ! i)))"
  shows "seek_loop M cmp b A False (entry (Internal h s ss ts) i p # st) p g =
   do { st' \<leftarrow> push_entry (entry (Internal h s ss ts) i p # st) (entry (ts ! i) 0 p);
        seek_loop M cmp b A False st' p g }"
proof -
  have z: "zip (drop i ts) (drop i ss) = (ts ! i, ss ! i) # zip (drop (Suc i) ts) (drop (Suc i) ss)"
    using assms by (simp flip: Cons_nth_drop_Suc)
  show ?thesis
    using assms unfolding seek_loop.simps [of M cmp b A False "_ # _"]
    by (simp add: Let_def z past_end_not_in_child)
qed

lemma seek_leave:
  "length ss = length ts \<Longrightarrow> seek_loop M cmp b A False (entry (Internal h s ss ts) (length ts) p # st) p g =
   seek_loop M cmp b A True st p g"
  by (simp add: seek_loop.simps [of M cmp b A False "_ # _"])

lemma seek_loop_empty: "seek_loop M cmp b A d [] = (\<lambda>p g. Some ([], p, g))"
  by (intro ext) (simp add: seek_loop.simps)

section \<open>The outcome over a stretch of items\<close>

definition target_index ::
    "('a, 's) item_trait \<Rightarrow> ('s, 'd) dimension \<Rightarrow> ('d \<Rightarrow> ordering) \<Rightarrow> bias \<Rightarrow> 'd \<Rightarrow> 'a list \<Rightarrow> nat" where
  "target_index D M cmp b p ys = stop_index M (\<lambda>d. in_child b (cmp d)) p (map (item_summary D) ys)"

lemma target_index_simps [simp]:
  "target_index D M cmp b p [] = 0"
  "target_index D M cmp b p (x # xs) =
   (if in_child b (cmp (dim_add M p (item_summary D x))) then 0
    else Suc (target_index D M cmp b (dim_add M p (item_summary D x)) xs))"
  by (simp_all add: target_index_def stop_index_Cons)

lemma target_index_le: "target_index D M cmp b p xs \<le> length xs"
  using stop_index_le [of M _ p "map (item_summary D) xs"] by (simp add: target_index_def)

lemma target_index_append:
  "target_index D M cmp b p (xs @ ys) =
   (if target_index D M cmp b p xs < length xs then target_index D M cmp b p xs
    else length xs + target_index D M cmp b (pos_after M p (map (item_summary D) xs)) ys)"
  by (induction xs arbitrary: p) simp_all

context aggregate_laws
begin

lemma seek_items:
  assumes "collects g ys zs" "length zs + length xs \<le> 2 * TREE_BASE"
  shows "\<exists>g'. seek_entries M cmp b (agg_push_item A) i p g (zip xs (map (item_summary D) xs)) =
      (let k = target_index D M cmp b p xs
       in Some (i + k, pos_after M p (map (item_summary D) (take k xs)), g', get_opt xs k)) \<and>
    collects g' ys (zs @ take (target_index D M cmp b p xs) xs)"
  using assms
proof (induction xs arbitrary: i p g zs)
  case (Cons x xs)
  show ?case
  proof (cases "in_child b (cmp (dim_add M p (item_summary D x)))")
    case True
    then show ?thesis using Cons.prems by (simp add: Let_def past_end_not_in_child)
  next
    case False
    obtain g1 where g1: "agg_push_item A g x (item_summary D x) = Some g1" "collects g1 ys (zs @ [x])"
      using push_item_law [OF Cons.prems(1)] Cons.prems(2) by fastforce
    with Cons.IH [OF g1(2), of "Suc i" "dim_add M p (item_summary D x)"] Cons.prems(2) False
    show ?thesis
      by (auto simp: Let_def past_end_not_in_child get_opt_def)
  qed
qed simp

definition seek_result where
  "seek_result cmp b root run cont pre ys col \<longleftrightarrow>
     (let k = target_index D M cmp b (seq_pos D M pre) ys in
      if k < length ys
      then \<exists>st g'. run = Some (st, seq_pos D M (pre @ take k ys), g') \<and>
             points D M root st (length pre + k) \<and> collects g' (col @ take k ys) []
      else \<exists>g'. run = cont (seq_pos D M (pre @ ys)) g' \<and> collects g' (col @ ys) [])"

lemma seek_result_append:
  assumes "seek_result cmp b root run run2 pre ys col"
    and "\<And>g. collects g (col @ ys) [] \<Longrightarrow>
      seek_result cmp b root (run2 (seq_pos D M (pre @ ys)) g) cont (pre @ ys) zs (col @ ys)"
  shows "seek_result cmp b root run cont pre (ys @ zs) col"
proof (cases "target_index D M cmp b (seq_pos D M pre) ys < length ys")
  case True
  then show ?thesis using assms(1) by (auto simp: seek_result_def Let_def target_index_append)
next
  case False
  then obtain g where "run = run2 (seq_pos D M (pre @ ys)) g" "collects g (col @ ys) []"
    using assms(1) by (auto simp: seek_result_def Let_def)
  with False assms(2) [of g] show ?thesis
    by (auto simp: seek_result_def Let_def target_index_append add.assoc split: if_splits)
qed

lemma seek_leaf:
  assumes ctx: "stack_ctx D M root st (mk_leaf D xs) pre post" and j: "j \<le> length xs"
    and len: "length xs \<le> 2 * TREE_BASE" and g: "collects g col []"
  shows "seek_result cmp b root
     (seek_loop M cmp b A False (entry (mk_leaf D xs) j q # st) (seq_pos D M (pre @ take j xs)) g)
     (seek_loop M cmp b A True st) (pre @ take j xs) (drop j xs) col"
proof -
  let ?k = "target_index D M cmp b (seq_pos D M (pre @ take j xs)) (drop j xs)"
  have len': "length [] + length (drop j xs) \<le> 2 * TREE_BASE" using len by simp
  obtain g1 where g1: "seek_entries M cmp b (agg_push_item A) j (seq_pos D M (pre @ take j xs)) g
      (zip (drop j xs) (map (item_summary D) (drop j xs))) =
      Some (j + ?k, seq_pos D M (pre @ take j xs @ take ?k (drop j xs)), g1, get_opt (drop j xs) ?k)"
    "collects g1 col (take ?k (drop j xs))"
    using seek_items [OF g len', of cmp b j "seq_pos D M (pre @ take j xs)"] by (auto simp: Let_def)
  obtain g2 where g2: "agg_end_leaf A g1 = Some g2" "collects g2 (col @ take ?k (drop j xs)) []"
    using end_leaf_law [OF g1(2)] len' by (auto simp: min.coboundedI1)
  have run: "seek_loop M cmp b A False (entry (mk_leaf D xs) j q # st) (seq_pos D M (pre @ take j xs)) g =
      (if ?k < length xs - j
       then Some (entry (mk_leaf D xs) (j + ?k) q # st, seq_pos D M (pre @ take j xs @ take ?k (drop j xs)), g2)
       else seek_loop M cmp b A True st (seq_pos D M (pre @ take j xs @ take ?k (drop j xs))) g2)"
    using j g1 g2
    by (simp add: seek_loop.simps [of M cmp b A False "_ # _"] mk_leaf_def drop_map get_opt_def split: if_splits
        flip: foldl_append map_append)
  show ?thesis
  proof (cases "?k < length xs - j")
    case True
    then have "j + ?k < length xs" by linarith
    then have "points D M root (entry (mk_leaf D xs) (j + ?k) q # st) (length pre + j + ?k)"
      using ctx by (auto simp: points_def)
    with True j g2 run show ?thesis by (simp add: seek_result_def Let_def)
  next
    case False
    then have "?k = length (drop j xs)"
      using target_index_le [of D M cmp b "seq_pos D M (pre @ take j xs)" "drop j xs"] by simp
    with False j g2 run show ?thesis by (simp add: seek_result_def Let_def) blast
  qed
qed

lemma seekable_part:
  assumes "seekable M cmp (dim_zero M) (map (item_summary D) (pre @ ys @ post))"
  shows "seekable M cmp (seq_pos D M pre) (map (item_summary D) ys)"
  using assms by (simp add: seekable_append)

lemma target_index_skip:
  assumes "seekable M cmp p (map (item_summary D) ys)" "ys \<noteq> []"
    and "\<not> in_child b (cmp (pos_after M p (map (item_summary D) ys)))"
  shows "target_index D M cmp b p ys = length ys"
  using seekable_in_child_last [OF assms(1), of _ b] assms(2,3)
    stop_index_all [of M "\<lambda>d. in_child b (cmp d)" p "map (item_summary D) ys"]
  by (auto simp: target_index_def)

lemma seek_children:
  assumes ctx: "stack_ctx D M root st (mk_internal D h ts) pre post"
    and root: "wf_node D root" "stack_fits root"
    and sk: "seekable M cmp (dim_zero M) (map (item_summary D) (flatten root))"
    and k: "k \<le> length ts" and g: "collects g col []"
    and sub: "\<And>t st pre post g col. t \<in> set ts \<Longrightarrow> stack_ctx D M root st t pre post \<Longrightarrow> collects g col [] \<Longrightarrow>
      seek_result cmp b root (seek_loop M cmp b A False (entry t 0 (seq_pos D M pre) # st) (seq_pos D M pre) g)
        (seek_loop M cmp b A True st) pre (flatten t) col"
  shows "seek_result cmp b root
     (seek_loop M cmp b A False (entry (mk_internal D h ts) k (seq_pos D M (pre @ flat (take k ts))) # st)
       (seq_pos D M (pre @ flat (take k ts))) g)
     (seek_loop M cmp b A True st) (pre @ flat (take k ts)) (flat (drop k ts)) col"
  using k g
proof (induction "length ts - k" arbitrary: k g col)
  case 0
  then show ?case
    using seek_leave [of "map node_summary ts" ts M cmp b A h _ _ st]
    by (auto simp: seek_result_def mk_internal_def)
next
  case (Suc n)
  then have k: "k < length ts" by simp
  let ?t = "ts ! k" and ?pre = "pre @ flat (take k ts)"
  have t: "?t \<in> set ts" "wf_node D ?t"
    using k stack_ctx_wf [OF ctx root(1)] by auto
  have pre: "pre @ flat (take (Suc k) ts) = ?pre @ flatten ?t" by (simp add: flat_take [OF k])
  have next': "seek_result cmp b root
     (seek_loop M cmp b A False (entry (mk_internal D h ts) (Suc k) (seq_pos D M (?pre @ flatten ?t)) # st)
       (seq_pos D M (?pre @ flatten ?t)) g')
     (seek_loop M cmp b A True st) (?pre @ flatten ?t) (flat (drop (Suc k) ts)) (col @ flatten ?t)"
    if "collects g' (col @ flatten ?t) []" for g'
    using Suc(1) [of "Suc k", OF _ _ that] Suc(2) k unfolding pre by simp
  have end': "seq_pos D M (?pre @ flatten ?t) = dim_add M (seq_pos D M ?pre) (node_summary ?t)"
    by (simp add: dim_add_node [OF t(2)])
  have ctx': "stack_ctx D M root (entry (mk_internal D h ts) k (seq_pos D M ?pre) # st) ?t ?pre
      (flat (drop (Suc k) ts) @ post)"
    by (rule ctx_child [OF ctx k])
  show ?case
  proof (cases "in_child b (cmp (dim_add M (seq_pos D M ?pre) (node_summary ?t)))")
    case True
    have "seek_loop M cmp b A False (entry (mk_internal D h ts) k (seq_pos D M ?pre) # st) (seq_pos D M ?pre) g =
        seek_loop M cmp b A False (entry ?t 0 (seq_pos D M ?pre) # entry (mk_internal D h ts) k (seq_pos D M ?pre) # st)
          (seq_pos D M ?pre) g"
      using k True push_entry_fits [OF ctx' root] by (simp add: seek_descend mk_internal_def)
    with sub [OF t(1) ctx' Suc.prems(2)] next' show ?thesis
      unfolding flat_drop [OF k]
      by (auto intro!: seek_result_append simp: mk_internal_def seek_ascend)
  next
    case False
    obtain g' where g': "agg_push_tree A g ?t (node_summary ?t) = Some g'" "collects g' (col @ flatten ?t) []"
      using push_tree_law [OF Suc.prems(2) t(2)] by blast
    have "seekable M cmp (seq_pos D M ?pre) (map (item_summary D) (flatten ?t))"
      using sk stack_ctx_append [OF ctx', symmetric]
      by (intro seekable_part [of cmp ?pre "flatten ?t" "flat (drop (Suc k) ts) @ post"]) simp
    then have "target_index D M cmp b (seq_pos D M ?pre) (flatten ?t) = length (flatten ?t)"
      using False t(2) by (intro target_index_skip) (simp_all add: dim_add_node)
    then have "seek_result cmp b root
      (seek_loop M cmp b A False (entry (mk_internal D h ts) (Suc k) (seq_pos D M (?pre @ flatten ?t)) # st)
        (seq_pos D M (?pre @ flatten ?t)) g')
      (\<lambda>p g. seek_loop M cmp b A False (entry (mk_internal D h ts) (Suc k) p # st) p g) ?pre (flatten ?t) col"
      using g'(2) by (auto simp: seek_result_def Let_def)
    moreover have "seek_loop M cmp b A False (entry (mk_internal D h ts) k (seq_pos D M ?pre) # st) (seq_pos D M ?pre) g =
      seek_loop M cmp b A False (entry (mk_internal D h ts) (Suc k) (seq_pos D M (?pre @ flatten ?t)) # st)
        (seq_pos D M (?pre @ flatten ?t)) g'"
      unfolding end' using k False g'(1) by (simp add: seek_skip mk_internal_def)
    ultimately show ?thesis
      unfolding flat_drop [OF k] using next' by (auto intro!: seek_result_append)
  qed
qed

lemma seek_subtree:
  assumes "wf_node D t" "stack_ctx D M root st t pre post" "collects g col []"
    and root: "wf_node D root" "stack_fits root"
    and sk: "seekable M cmp (dim_zero M) (map (item_summary D) (flatten root))"
  shows "seek_result cmp b root (seek_loop M cmp b A False (entry t 0 (seq_pos D M pre) # st) (seq_pos D M pre) g)
     (seek_loop M cmp b A True st) pre (flatten t) col"
  using assms(1-3)
proof (induction arbitrary: st pre post g col rule: wf_node_induct)
  case (leaf xs)
  then show ?case using seek_leaf [OF leaf.prems(1), of 0 g col] by simp
next
  case (internal h ts)
  then show ?case using seek_children [OF internal.prems(1) root sk _ internal.prems(2), of 0] by simp
qed

lemma seek_rest:
  assumes "stack_ctx D M root st hole pre post" "collects g col []"
    and root: "wf_node D root" "stack_fits root"
    and sk: "seekable M cmp (dim_zero M) (map (item_summary D) (flatten root))"
  shows "seek_result cmp b root (seek_loop M cmp b A True st (seq_pos D M (pre @ flatten hole)) g)
     (\<lambda>p g. Some ([], p, g)) (pre @ flatten hole) post col"
  using assms(1,2)
proof (induction arbitrary: g col rule: stack_ctx.induct)
  case ctx_root
  then show ?case by (auto simp: seek_result_def seek_loop_empty)
next
  case (ctx_child st h ts pre post k)
  have "seek_result cmp b root
     (seek_loop M cmp b A False (entry (mk_internal D h ts) (Suc k) (seq_pos D M (pre @ flat (take (Suc k) ts))) # st)
       (seq_pos D M (pre @ flat (take (Suc k) ts))) g)
     (seek_loop M cmp b A True st) (pre @ flat (take (Suc k) ts)) (flat (drop (Suc k) ts)) col"
    using ctx_child.hyps stack_ctx_wf [OF ctx_child.hyps(1) root(1)]
    by (intro seek_children [OF ctx_child.hyps(1) root sk _ ctx_child.prems] seek_subtree [OF _ _ _ root sk]) auto
  then show ?case
    using ctx_child.IH flat_split [OF ctx_child.hyps(2)]
    unfolding mk_internal_def seek_ascend
    by (auto intro!: seek_result_append simp: flat_take [OF ctx_child.hyps(2)] mk_internal_def)
qed

lemma seek_from_item:
  assumes "points D M root st i" "collects g col []"
    and root: "wf_node D root" "stack_fits root"
    and sk: "seekable M cmp (dim_zero M) (map (item_summary D) (flatten root))"
  shows "seek_result cmp b root (seek_loop M cmp b A False st (seq_pos D M (take i (flatten root))) g)
     (\<lambda>p g. Some ([], p, g)) (take i (flatten root)) (drop i (flatten root)) col"
proof -
  obtain xs j q rest pre post where st: "st = entry (mk_leaf D xs) j q # rest"
    and ctx: "stack_ctx D M root rest (mk_leaf D xs) pre post" and j: "j < length xs" "i = length pre + j"
    using assms(1) by (auto simp: points_def)
  have root_eq: "flatten root = pre @ xs @ post" using stack_ctx_append [OF ctx] by simp
  have "seek_result cmp b root (seek_loop M cmp b A False st (seq_pos D M (pre @ take j xs)) g)
     (seek_loop M cmp b A True rest) (pre @ take j xs) (drop j xs) col"
    using seek_leaf [OF ctx, of j g col] j(1) assms(2) stack_ctx_wf [OF ctx root(1)] st by simp
  then have "seek_result cmp b root (seek_loop M cmp b A False st (seq_pos D M (pre @ take j xs)) g)
     (\<lambda>p g. Some ([], p, g)) (pre @ take j xs) (drop j xs @ post) col"
    by (rule seek_result_append) (use seek_rest [OF ctx _ root sk] in simp)
  then show ?thesis using j root_eq by simp
qed

section \<open>What a seek does\<close>

text \<open>
  \<open>seeks_to\<close>: from the index \<open>i\<close>, the cursor is now on the first item at whose end the target is
  not passed, the aggregate holds the items passed over, and the flag says whether the target was
  hit exactly.
\<close>

definition seeks_to where
  "seeks_to cmp b t i r \<longleftrightarrow>
     (let k = i + target_index D M cmp b (seq_pos D M (take i (flatten t))) (drop i (flatten t))
      in \<exists>c' g'. r = Some (c', g', cmp (seq_pos D M (take (if b = Left then Suc k else k) (flatten t))) = Equal) \<and>
           cursor_at D M t c' k \<and> collects g' (take (k - i) (drop i (flatten t))) [])"

lemma seek_finish:
  assumes run: "seek_result cmp b t run (\<lambda>p g. Some ([], p, g)) (take i (flatten t)) (drop i (flatten t)) []"
    and c: "c_tree c = t" "i \<le> length (flatten t)"
  shows "seeks_to cmp b t i (do {
     (st', pos', g') \<leftarrow> run;
     assert_that (top_is_leaf st');
     let c' = c\<lparr>c_stack := st', c_position := pos', c_did_seek := True, c_at_end := (st' = [])\<rparr>;
     end' \<leftarrow>
       (if b = Left then do {
          s \<leftarrow> cursor_item_summary c';
          (case s of Some summary \<Rightarrow> Some (dim_add M pos' summary) | None \<Rightarrow> Some pos') }
        else Some pos');
     Some (c', g', cmp end' = Equal) })"
proof -
  let ?xs = "flatten t"
  define k where "k = target_index D M cmp b (seq_pos D M (take i ?xs)) (drop i ?xs)"
  have le: "i + k \<le> length ?xs"
    using target_index_le [of D M cmp b "seq_pos D M (take i ?xs)" "drop i ?xs"] c(2) by (simp add: k_def)
  have split: "take i ?xs @ take k (drop i ?xs) = take (i + k) ?xs" by (simp add: take_add)
  obtain st' g' where r: "run = Some (st', seq_pos D M (take (i + k) ?xs), g')"
    "collects g' (take k (drop i ?xs)) []"
    "if i + k < length ?xs then points D M t st' (i + k) else st' = []"
  proof (cases "k < length ?xs - i")
    case True
    then obtain st' g' where "run = Some (st', seq_pos D M (take i ?xs @ take k (drop i ?xs)), g')"
      "points D M t st' (length (take i ?xs) + k)" "collects g' ([] @ take k (drop i ?xs)) []"
      using run unfolding seek_result_def Let_def k_def [symmetric] by (auto simp del: map_append)
    moreover have "i + k < length ?xs" using True c(2) by linarith
    ultimately show ?thesis using that [of st' g'] c(2) unfolding split by simp
  next
    case False
    then have "k = length ?xs - i" using le by simp
    with run c(2) that [of "[]"] show ?thesis
      by (auto simp: seek_result_def Let_def k_def [symmetric])
  qed
  define c' where "c' = c\<lparr>c_stack := st', c_position := seq_pos D M (take (i + k) ?xs), c_did_seek := True, c_at_end := (st' = [])\<rparr>"
  have at: "cursor_at D M t c' (i + k)"
    using r(3) le c(1) by (auto simp: cursor_at_def c'_def points_def split: if_splits)
  have top: "top_is_leaf st'"
    using r(3) by (auto simp: top_is_leaf_points split: if_splits) (simp add: top_is_leaf_def)
  have fin: "(case map_option (item_summary D) (get_opt ?xs (i + k)) of
      Some s \<Rightarrow> Some (dim_add M (seq_pos D M (take (i + k) ?xs)) s) | None \<Rightarrow> Some (seq_pos D M (take (i + k) ?xs)))
      = Some (seq_pos D M (take (Suc (i + k)) ?xs))"
    using le by (cases "i + k < length ?xs") (simp_all add: take_Suc_conv_app_nth)
  show ?thesis
    unfolding seeks_to_def Let_def k_def [symmetric]
    using r(1,2) at top cursor_item_at(2) [OF at] fin by (auto simp: c'_def [symmetric])
qed

lemma seek_internal_at:
  assumes "wf_tree D t" "stack_fits t" "seekable M cmp (dim_zero M) (map (item_summary D) (flatten t))"
    and c: "cursor_at D M t c i" "cmp (c_position c) \<noteq> Less" and g: "collects g [] []"
  shows "seeks_to cmp b t i (seek_internal M cmp b A c g)"
proof -
  have pos: "c_position c = seq_pos D M (take i (flatten t))" and st: "c_did_seek c" "c_tree c = t" "i \<le> length (flatten t)"
    using c by (simp_all add: cursor_at_def)
  have "seek_result cmp b t (seek_loop M cmp b A False (c_stack c) (seq_pos D M (take i (flatten t))) g)
     (\<lambda>p g. Some ([], p, g)) (take i (flatten t)) (drop i (flatten t)) []"
  proof (cases "i < length (flatten t)")
    case True
    then have "wf_node D t" using assms(1) by (auto intro: wf_tree_nonempty)
    with True c(1) g show ?thesis
      by (intro seek_from_item assms) (simp_all add: cursor_at_def)
  next
    case False
    then show ?thesis using c(1) g by (auto simp: cursor_at_def seek_result_def seek_loop_empty)
  qed
  from seek_finish [OF this st(2,3)] show ?thesis
    using st(1) c(2) by (simp add: seek_internal_def pos)
qed

lemma seek_internal_fresh:
  assumes "wf_tree D t" "stack_fits t" "seekable M cmp (dim_zero M) (map (item_summary D) (flatten t))"
    and c: "cursor_before M t c" "\<not> c_did_seek c" "cmp (dim_zero M) \<noteq> Less" and g: "collects g [] []"
  shows "seeks_to cmp b t 0 (seek_internal M cmp b A c g)"
proof -
  have st: "c_position c = dim_zero M" "c_tree c = t" "c_stack c = []"
    using c by (simp_all add: cursor_before_def)
  have "seek_result cmp b t (seek_loop M cmp b A False [entry t 0 (dim_zero M)] (dim_zero M) g)
     (\<lambda>p g. Some ([], p, g)) (take 0 (flatten t)) (drop 0 (flatten t)) []"
  proof (cases "flatten t = []")
    case True
    then have t: "t = mk_leaf D []" using assms(1) by (auto simp: wf_tree_def new_tree_def mk_leaf_def sum_of_def)
    then show ?thesis
      using seek_leaf [of t "[]" "[]" "[]" "[]" 0 g "[]"] ctx_root [of D M t] g
      by (auto simp: seek_result_def seek_loop_empty)
  next
    case False
    then have t: "wf_node D t" using assms(1) by (auto intro: wf_tree_nonempty)
    show ?thesis
      using seek_subtree [OF t ctx_root g t assms(2,3), of b] by (simp add: seek_loop_empty)
  qed
  from seek_finish [OF this] show ?thesis
    using st c(2,3) by (simp add: seek_internal_def push_entry_def STACK_CAPACITY_def)
qed

end

section \<open>The three aggregates\<close>

definition slice_collects :: "('a, 's) item_trait \<Rightarrow> ('a, 's) slice_state \<Rightarrow> 'a list \<Rightarrow> 'a list \<Rightarrow> bool" where
  "slice_collects D g ys zs \<longleftrightarrow>
     wf_tree D (sl_tree g) \<and> flatten (sl_tree g) = ys \<and> sl_leaf_items g = zs \<and>
     sl_leaf_item_summaries g = map (item_summary D) zs \<and> sl_leaf_summary g = items_summary D zs"

sublocale dimension_laws \<subseteq> seek_unit: aggregate_laws D M unit_aggregate "\<lambda>_ _ _. True"
  by unfold_locales (simp_all add: unit_aggregate_def)

sublocale dimension_laws \<subseteq> seek_slice: aggregate_laws D M "slice_aggregate D" "slice_collects D"
proof unfold_locales
  fix g ys zs x
  assume g: "slice_collects D g ys zs" and "length zs < 2 * TREE_BASE"
  then show "\<exists>g'. agg_push_item (slice_aggregate D) g x (item_summary D x) = Some g' \<and> slice_collects D g' ys (zs @ [x])"
    by (simp add: slice_aggregate_def slice_collects_def sum_of_def)
next
  fix g ys t
  assume "slice_collects D g ys []" "wf_node D t"
  then show "\<exists>g'. agg_push_tree (slice_aggregate D) g t (node_summary t) = Some g' \<and> slice_collects D g' (ys @ flatten t) []"
    using append_tree_ok [of "sl_tree g" t] by (auto simp: slice_aggregate_def slice_collects_def wf_tree_def)
next
  fix g ys zs
  assume g: "slice_collects D g ys zs" and len: "length zs \<le> 2 * TREE_BASE"
  have leaf: "Leaf (sl_leaf_summary g) (sl_leaf_items g) (sl_leaf_item_summaries g) = mk_leaf D zs"
    using g by (simp add: slice_collects_def mk_leaf_def)
  have "wf_tree D (mk_leaf D zs)"
    using len by (cases "zs = []") (auto simp: wf_tree_def new_tree_def mk_leaf_def sum_of_def)
  with g show "\<exists>g'. agg_end_leaf (slice_aggregate D) g = Some g' \<and> slice_collects D g' (ys @ zs) []"
    using append_tree_ok [of "sl_tree g" "mk_leaf D zs"] leaf
    by (auto simp: slice_aggregate_def slice_collects_def sum_of_def)
qed

definition summary_collects :: "('a, 's) item_trait \<Rightarrow> ('s, 'o) dimension \<Rightarrow> 'o \<Rightarrow> 'a list \<Rightarrow> 'a list \<Rightarrow> bool" where
  "summary_collects D N g ys zs \<longleftrightarrow> g = seq_pos D N (ys @ zs)"

locale two_dimensions = M: dimension_laws D M + N: dimension_laws D N
  for D :: "('a, 's) item_trait" and M :: "('s, 'd) dimension" and N :: "('s, 'o) dimension"

sublocale two_dimensions \<subseteq> seek_summary: aggregate_laws D M "summary_aggregate N" "summary_collects D N"
  by unfold_locales (simp_all add: summary_collects_def summary_aggregate_def N.dim_add_node)


section \<open>The operations of the cursor\<close>

text \<open>The index of the item a seek stops at.\<close>

definition seek_index ::
    "('a, 's) item_trait \<Rightarrow> ('s, 'd) dimension \<Rightarrow> ('d \<Rightarrow> ordering) \<Rightarrow> bias \<Rightarrow> 'a list \<Rightarrow> nat \<Rightarrow> nat" where
  "seek_index D M cmp b xs i = i + target_index D M cmp b (seq_pos D M (take i xs)) (drop i xs)"

definition seek_found ::
    "('a, 's) item_trait \<Rightarrow> ('s, 'd) dimension \<Rightarrow> ('d \<Rightarrow> ordering) \<Rightarrow> bias \<Rightarrow> 'a list \<Rightarrow> nat \<Rightarrow> bool" where
  "seek_found D M cmp b xs k \<longleftrightarrow> cmp (seq_pos D M (take (if b = Left then Suc k else k) xs)) = Equal"

lemma seek_index_le: "i \<le> length xs \<Longrightarrow> seek_index D M cmp b xs i \<le> length xs"
  using target_index_le [of D M cmp b "seq_pos D M (take i xs)" "drop i xs"] by (simp add: seek_index_def)

lemma seek_index_ge: "i \<le> seek_index D M cmp b xs i"
  by (simp add: seek_index_def)

lemma target_index_end [simp]: "target_index D M end_target Right p xs = length xs"
  by (induction xs arbitrary: p) (simp_all add: in_child_def end_target_def)

lemma seek_index_end [simp]: "i \<le> length xs \<Longrightarrow> seek_index D M end_target Right xs i = length xs"
  by (simp add: seek_index_def)

lemma seekable_end: "seekable M end_target p ss"
  by (induction ss arbitrary: p) (simp_all add: seekable_def end_target_def)

text \<open>A cursor from which one can seek: on an item or past the end, or fresh (then it counts as 0).\<close>

definition seek_from ::
    "('a, 's) item_trait \<Rightarrow> ('s, 'd) dimension \<Rightarrow> ('a, 's) node \<Rightarrow> ('a, 's, 'd) cursor \<Rightarrow> nat \<Rightarrow> bool" where
  "seek_from D M t c i \<longleftrightarrow> cursor_at D M t c i \<or> cursor_before M t c \<and> \<not> c_did_seek c \<and> i = 0"

context dimension_laws
begin

lemma seek_from_position: "seek_from D M t c i \<Longrightarrow> c_position c = seq_pos D M (take i (flatten t))"
  by (auto simp: seek_from_def cursor_at_def cursor_before_def)

lemma seek_from_le: "seek_from D M t c i \<Longrightarrow> i \<le> length (flatten t)"
  by (auto simp: seek_from_def cursor_at_def)

lemma seek_from_new: "wf_tree D t \<Longrightarrow> seek_from D M t (cursor_new M t) 0"
  using cursor_new_before [of D t M] by (simp add: seek_from_def) (simp add: cursor_new_def)

lemma seek_from_reset: "wf_tree D t \<Longrightarrow> c_tree c = t \<Longrightarrow> seek_from D M t (cursor_reset M c) 0"
  using cursor_reset_before [of D t c M] by (simp add: seek_from_def) (simp add: cursor_reset_def)

abbreviation seek_ready where
  "seek_ready t cmp c i \<equiv> wf_tree D t \<and> stack_fits t \<and>
     seekable M cmp (dim_zero M) (map (item_summary D) (flatten t)) \<and>
     seek_from D M t c i \<and> cmp (seq_pos D M (take i (flatten t))) \<noteq> Less"

lemma seek_internal_unit:
  assumes "seek_ready t cmp c i"
  shows "seek_unit.seeks_to cmp b t i (seek_internal M cmp b unit_aggregate c ())"
  using assms seek_unit.seek_internal_at [of t cmp c i b "()"] seek_unit.seek_internal_fresh [of t cmp c b "()"]
    seek_from_position [of t c i]
  by (auto simp: seek_from_def)

lemma seek_internal_slice:
  assumes "seek_ready t cmp c i" "slice_collects D g [] []"
  shows "seek_slice.seeks_to cmp b t i (seek_internal M cmp b (slice_aggregate D) c g)"
  using assms seek_slice.seek_internal_at [of t cmp c i g b] seek_slice.seek_internal_fresh [of t cmp c g b]
    seek_from_position [of t c i]
  by (auto simp: seek_from_def)

lemma cursor_seek_forward_ok:
  assumes "seek_ready t cmp c i"
  shows "\<exists>c'. cursor_seek_forward M cmp b c =
      Some (c', seek_found D M cmp b (flatten t) (seek_index D M cmp b (flatten t) i)) \<and>
    cursor_at D M t c' (seek_index D M cmp b (flatten t) i)"
  using seek_internal_unit [OF assms, of b]
  by (auto simp: seek_unit.seeks_to_def Let_def cursor_seek_forward_def seek_index_def seek_found_def)

lemma cursor_seek_ok:
  assumes "wf_tree D t" "stack_fits t" "seekable M cmp (dim_zero M) (map (item_summary D) (flatten t))"
    and "c_tree c = t" "cmp (dim_zero M) \<noteq> Less"
  shows "\<exists>c'. cursor_seek M cmp b c =
      Some (c', seek_found D M cmp b (flatten t) (seek_index D M cmp b (flatten t) 0)) \<and>
    cursor_at D M t c' (seek_index D M cmp b (flatten t) 0)"
proof -
  have "seek_ready t cmp (cursor_reset M c) 0" using assms seek_from_reset by simp
  from seek_internal_unit [OF this, of b] show ?thesis
    by (auto simp: seek_unit.seeks_to_def Let_def cursor_seek_def seek_index_def seek_found_def)
qed

lemma cursor_slice_ok:
  fixes b
  assumes "seek_ready t cmp c i"
  defines "k \<equiv> seek_index D M cmp b (flatten t) i"
  shows "\<exists>c' r. cursor_slice D M cmp b c = Some (c', r) \<and> cursor_at D M t c' k \<and>
     wf_tree D r \<and> flatten r = take (k - i) (drop i (flatten t))"
proof -
  have "slice_collects D \<lparr>sl_tree = new_tree D, sl_leaf_items = [], sl_leaf_item_summaries = [],
      sl_leaf_summary = summary_zero D\<rparr> [] []"
    by (simp add: slice_collects_def sum_of_def)
  from seek_internal_slice [OF assms(1) this, of b] show ?thesis
    by (auto simp: seek_slice.seeks_to_def Let_def cursor_slice_def k_def seek_index_def slice_collects_def)
qed

lemma cursor_suffix_ok:
  assumes "wf_tree D t" "stack_fits t" "seek_from D M t c i"
  shows "\<exists>c' r. cursor_suffix D M c = Some (c', r) \<and> cursor_at D M t c' (length (flatten t)) \<and>
     wf_tree D r \<and> flatten r = drop i (flatten t)"
proof -
  have "seek_ready t end_target c i" using assms seekable_end by (simp add: end_target_def)
  from cursor_slice_ok [OF this, of Right] show ?thesis
    using seek_from_le [OF assms(3)] by (simp add: cursor_suffix_def)
qed

end

context two_dimensions
begin

lemma cursor_summary_ok:
  fixes b
  assumes "M.seek_ready t cmp c i"
  defines "k \<equiv> seek_index D M cmp b (flatten t) i"
  shows "\<exists>c'. cursor_summary M N cmp b c = Some (c', seq_pos D N (take (k - i) (drop i (flatten t)))) \<and>
     cursor_at D M t c' k"
proof -
  have "seek_summary.seeks_to cmp b t i (seek_internal M cmp b (summary_aggregate N) c (dim_zero N))"
    using assms(1) seek_summary.seek_internal_at [of t cmp c i "dim_zero N" b]
      seek_summary.seek_internal_fresh [of t cmp c "dim_zero N" b] M.seek_from_position [of t c i]
    by (auto simp: seek_from_def summary_collects_def)
  then show ?thesis
    by (auto simp: seek_summary.seeks_to_def Let_def cursor_summary_def k_def seek_index_def summary_collects_def)
qed

end

text \<open>
  The target compares with the positions of the sequence, the start included, in order: first greater, then equal, then less.
\<close>

definition in_order :: "('a, 's) item_trait \<Rightarrow> ('s, 'd) dimension \<Rightarrow> ('d \<Rightarrow> ordering) \<Rightarrow> 'a list \<Rightarrow> bool" where
  "in_order D M cmp xs \<longleftrightarrow>
     sorted_wrt (\<lambda>i j. rank (cmp (seq_pos D M (take j xs))) \<le> rank (cmp (seq_pos D M (take i xs)))) [0..<Suc (length xs)]"

lemma in_order_iff:
  "in_order D M cmp xs \<longleftrightarrow> (\<forall>i j. i < j \<and> j \<le> length xs \<longrightarrow>
     rank (cmp (seq_pos D M (take j xs))) \<le> rank (cmp (seq_pos D M (take i xs))))"
  unfolding in_order_def sorted_wrt_iff_nth_less by (auto simp: less_Suc_eq_le simp del: upt_Suc)

lemma in_order_seekable: "in_order D M cmp xs \<Longrightarrow> seekable M cmp (dim_zero M) (map (item_summary D) xs)"
  by (auto simp: in_order_iff seekable_def sorted_wrt_iff_nth_less nth_ends take_map)

lemma seek_index_stops:
  fixes D M cmp b xs
  defines "k \<equiv> seek_index D M cmp b xs 0"
  shows "i < k \<Longrightarrow> \<not> in_child b (cmp (seq_pos D M (take (Suc i) xs)))"
    and "k < length xs \<Longrightarrow> in_child b (cmp (seq_pos D M (take (Suc k) xs)))"
  using not_stop_before_index [of i M "\<lambda>d. in_child b (cmp d)" "dim_zero M" "map (item_summary D) xs"]
    stop_at_index [of M "\<lambda>d. in_child b (cmp d)" "dim_zero M" "map (item_summary D) xs"]
  by (simp_all add: k_def seek_index_def target_index_def take_map)

lemma rank_eq [simp]: "rank c = 0 \<longleftrightarrow> c = Less" "rank c = 1 \<longleftrightarrow> c = Equal" "rank c = Suc 0 \<longleftrightarrow> c = Equal" "rank c = 2 \<longleftrightarrow> c = Greater"
  by (cases c; simp)+

text \<open>What a seek reports: whether the target is a position of the sequence, which for the left bias has to be the end of an item.\<close>

lemma seek_found_iff:
  assumes "in_order D M cmp xs" "cmp (dim_zero M) \<noteq> Less"
  shows "seek_found D M cmp b xs (seek_index D M cmp b xs 0) \<longleftrightarrow>
    (\<exists>i \<le> length xs. (b = Left \<and> xs \<noteq> [] \<longrightarrow> 0 < i) \<and> cmp (seq_pos D M (take i xs)) = Equal)"
proof -
  let ?k = "seek_index D M cmp b xs 0" and ?c = "\<lambda>i. cmp (seq_pos D M (take i xs))"
  have k: "?k \<le> length xs" by (rule seek_index_le) simp
  have down: "rank (?c j) \<le> rank (?c i)" if "i \<le> j" "j \<le> length xs" for i j
    using assms(1) that by (cases "i = j") (auto simp: in_order_iff)
  note before = seek_index_stops(1) [of _ D M cmp b xs] and at = seek_index_stops(2) [of D M cmp b xs]
  show ?thesis
  proof (cases b)
    case Left
    have passed: "?c i \<noteq> Equal" if "0 < i" "i \<le> ?k" for i
      using before [of "i - 1"] that Left by (auto simp: in_child_def)
    have here: "?c (Suc ?k) = Equal" if "?c i = Equal" "?k < i" "i \<le> length xs" for i
      using at down [of "Suc ?k" i] that Left by (auto simp: in_child_def)
    have found: "seek_found D M cmp b xs ?k \<longleftrightarrow> ?c (Suc ?k) = Equal" by (simp add: seek_found_def Left)
    show ?thesis
    proof (cases "xs = []")
      case True
      then show ?thesis unfolding found by simp
    next
      case False
      have "?k < length xs" if "?c (Suc ?k) = Equal"
        using passed [of ?k] that k False by (cases "?k = length xs") auto
      then show ?thesis unfolding found using False Left passed here
        by (simp only: simp_thms) (meson Suc_leI not_less zero_less_Suc)
    qed
  next
    case Right
    have "?c i \<noteq> Equal" if "?k < i" "i \<le> length xs" for i
      using at down [of "Suc ?k" i] that Right by (auto simp: in_child_def)
    moreover have "?c ?k = Equal" if "?c i = Equal" "i \<le> ?k" for i
    proof -
      have "?c ?k \<noteq> Less" using before [of "?k - 1"] assms(2) Right by (cases "?k = 0") (auto simp: in_child_def)
      then show ?thesis using down [OF that(2) k] that(1) by (cases "?c ?k") auto
    qed
    moreover have "seek_found D M cmp b xs ?k \<longleftrightarrow> ?c ?k = Equal" by (simp add: seek_found_def Right)
    ultimately show ?thesis using k by (simp only: Right bias.distinct simp_thms) (meson not_less)
  qed
qed

section \<open>Properties\<close>

text \<open>
  Claim C8. \<^verbatim>\<open>Cursor::seek\<close>, from wherever the cursor was, ends without a panic on item \<open>k\<close> with the position of the items before it.
  The target lies behind the end of every item before \<open>k\<close>, or at it when the bias is \<^verbatim>\<open>Right\<close>, and before the end of item \<open>k\<close>, or at it when
  the bias is \<^verbatim>\<open>Left\<close>; \<open>k\<close> is past the last item when there is no such item. With the bias \<^verbatim>\<open>Right\<close> it returns true exactly when the target is some position of the
  sequence, the start and the end included. With the bias \<^verbatim>\<open>Left\<close> it returns true exactly when the target is the end of some item, so a target at
  the start is not found unless an empty item ends there (or the tree is empty).
  Hypotheses: the tree is well formed and not too high for the cursor's stack, summaries add up as the dimension's laws say, the target compares with the positions along the
  sequence, the start included, as greater, then equal, then less, and it is not before the start, which the code asserts.
\<close>

theorem seek_lands:
  assumes "dimension_laws D M" "wf_tree D t" "stack_fits t" "in_order D M cmp (flatten t)"
    and "c_tree c = t" "cmp (dim_zero M) \<noteq> Less"
  shows "\<exists>c' found k. cursor_seek M cmp b c = Some (c', found) \<and> cursor_at D M t c' k \<and> k \<le> length (flatten t) \<and>
    (\<forall>i < k. \<not> in_child b (cmp (seq_pos D M (take (Suc i) (flatten t))))) \<and>
    (k < length (flatten t) \<longrightarrow> in_child b (cmp (seq_pos D M (take (Suc k) (flatten t))))) \<and>
    (found \<longleftrightarrow> (\<exists>i \<le> length (flatten t). (b = Left \<and> flatten t \<noteq> [] \<longrightarrow> 0 < i) \<and>
       cmp (seq_pos D M (take i (flatten t))) = Equal))"
  using dimension_laws.cursor_seek_ok [OF assms(1-3) in_order_seekable [OF assms(4)] assms(5,6), of b]
    seek_found_iff [OF assms(4,6), of b] seek_index_stops(1) [of _ D M cmp b "flatten t"]
    seek_index_stops(2) [of D M cmp b "flatten t"] seek_index_le [of 0 "flatten t" D M cmp b]
  by auto

theorem seek_lands_witness:
  "\<exists>c'. cursor_seek count_dim (ord_cmp 2) Right (cursor_new count_dim (mk_leaf count_trait [10, 20, 30 :: int])) = Some (c', True) \<and>
     cursor_at count_trait count_dim (mk_leaf count_trait [10, 20, 30]) c' 2"
proof -
  let ?t = "mk_leaf count_trait [10, 20, 30 :: int]"
  have order: "in_order count_trait count_dim (ord_cmp 2) (flatten ?t)" by (simp add: in_order_def ord_cmp_def)
  obtain c' found k where seek: "cursor_seek count_dim (ord_cmp 2) Right (cursor_new count_dim ?t) = Some (c', found)"
      "cursor_at count_trait count_dim ?t c' k"
    and k: "k \<le> length (flatten ?t)"
      "\<forall>i < k. \<not> in_child Right (ord_cmp 2 (seq_pos count_trait count_dim (take (Suc i) (flatten ?t))))"
      "k < length (flatten ?t) \<longrightarrow> in_child Right (ord_cmp 2 (seq_pos count_trait count_dim (take (Suc k) (flatten ?t))))"
    and found: "found \<longleftrightarrow> (\<exists>i \<le> length (flatten ?t). (Right = Left \<and> flatten ?t \<noteq> [] \<longrightarrow> 0 < i) \<and>
      ord_cmp 2 (seq_pos count_trait count_dim (take i (flatten ?t))) = Equal)"
    using seek_lands [OF counting.dimension_laws_axioms _ _ order, of "cursor_new count_dim ?t" Right]
    by (auto simp: wf_tree_def stack_fits_def STACK_CAPACITY_def TREE_BASE_def ord_cmp_def)
  have "found" unfolding found by (rule exI [of _ 2]) (simp add: ord_cmp_def)
  moreover have "k = 2"
  proof -
    have "in_child Right (ord_cmp 2 (seq_pos count_trait count_dim (take (Suc 2) (flatten ?t))))"
      by (simp add: in_child_def ord_cmp_def)
    then have "k \<noteq> 3" using k(2) by (metis lessI numeral_2_eq_2 numeral_3_eq_3)
    moreover have "k \<noteq> 0" "k \<noteq> 1" by (rule notI; use k(3) in \<open>simp add: in_child_def ord_cmp_def\<close>)+
    moreover have "k \<le> 3" using k(1) by simp
    ultimately show ?thesis by arith
  qed
  ultimately show ?thesis using seek by auto
qed

text \<open>
  Claim C29. \<^verbatim>\<open>Cursor::slice\<close> followed by \<^verbatim>\<open>Cursor::suffix\<close> cuts the rest of the sequence in two, at
  the item the target seeks to: two well-formed trees, nothing lost, doubled or reordered.
\<close>

theorem slice_and_suffix_partition:
  assumes "dimension_laws D M" "wf_tree D t" "stack_fits t"
    and "seekable M cmp (dim_zero M) (map (item_summary D) (flatten t))"
    and "seek_from D M t c i" "cmp (seq_pos D M (take i (flatten t))) \<noteq> Less"
  shows "\<exists>c1 r1 c2 r2. cursor_slice D M cmp b c = Some (c1, r1) \<and> cursor_suffix D M c1 = Some (c2, r2) \<and>
     wf_tree D r1 \<and> wf_tree D r2 \<and> flatten r1 @ flatten r2 = drop i (flatten t) \<and>
     length (flatten r1) = seek_index D M cmp b (flatten t) i - i \<and> cursor_at D M t c2 (length (flatten t))"
proof -
  let ?k = "seek_index D M cmp b (flatten t) i"
  have k: "i \<le> ?k" "?k \<le> length (flatten t)"
    using seek_index_ge seek_index_le dimension_laws.seek_from_le [OF assms(1,5)] by blast+
  obtain c1 r1 where 1: "cursor_slice D M cmp b c = Some (c1, r1)" "cursor_at D M t c1 ?k" "wf_tree D r1"
    "flatten r1 = take (?k - i) (drop i (flatten t))"
    using dimension_laws.cursor_slice_ok [OF assms(1), of t cmp c i b] assms by blast
  have drop: "drop ?k (flatten t) = drop (?k - i) (drop i (flatten t))" using k by simp
  have "seek_from D M t c1 ?k" using 1(2) by (simp add: seek_from_def)
  then obtain c2 r2 where 2: "cursor_suffix D M c1 = Some (c2, r2)" "cursor_at D M t c2 (length (flatten t))"
    "wf_tree D r2" "flatten r2 = drop ?k (flatten t)"
    using dimension_laws.cursor_suffix_ok [OF assms(1-3)] by blast
  have "flatten r1 @ flatten r2 = drop i (flatten t)" unfolding 1(4) 2(4) drop by (rule append_take_drop_id)
  moreover have "length (flatten r1) = ?k - i" using 1(4) k by simp
  ultimately show ?thesis using 1 2 by blast
qed

theorem slice_and_suffix_partition_witness:
  "\<exists>c1 r1 c2 r2. cursor_slice count_trait count_dim (ord_cmp 2) Right
       (cursor_new count_dim (mk_leaf count_trait [10, 20, 30 :: int])) = Some (c1, r1) \<and>
     cursor_suffix count_trait count_dim c1 = Some (c2, r2) \<and>
     flatten r1 @ flatten r2 = [10, 20, 30] \<and> length (flatten r1) = 2"
proof -
  let ?t = "mk_leaf count_trait [10, 20, 30 :: int]"
  have t: "wf_tree count_trait ?t" by (simp add: wf_tree_def TREE_BASE_def)
  show ?thesis
    using slice_and_suffix_partition [OF counting.dimension_laws_axioms t, of "ord_cmp 2" "cursor_new count_dim ?t" 0 Right]
      counting.seek_from_new [OF t]
    by (auto simp: stack_fits_def STACK_CAPACITY_def seekable_def ord_cmp_def seek_index_def in_child_def)
qed

interpretation counting_twice: two_dimensions count_trait count_dim count_dim
  by unfold_locales

text \<open>
  \<^verbatim>\<open>Cursor::summary\<close> measures the items it passes over in the other dimension, and leaves
  the cursor where a seek would.
\<close>

theorem summary_measures:
  assumes "dimension_laws D M" "dimension_laws D N" "wf_tree D t" "stack_fits t"
    and "seekable M cmp (dim_zero M) (map (item_summary D) (flatten t))"
    and "seek_from D M t c i" "cmp (seq_pos D M (take i (flatten t))) \<noteq> Less"
  shows "\<exists>c'. cursor_summary M N cmp b c =
      Some (c', seq_pos D N (take (seek_index D M cmp b (flatten t) i - i) (drop i (flatten t)))) \<and>
    cursor_at D M t c' (seek_index D M cmp b (flatten t) i)"
proof -
  have "two_dimensions D M N" by (rule two_dimensions.intro [OF assms(1,2)])
  from two_dimensions.cursor_summary_ok [OF this] show ?thesis using assms by blast
qed

theorem summary_measures_witness:
  "\<exists>c'. cursor_summary count_dim count_dim (ord_cmp 2) Right
       (cursor_new count_dim (mk_leaf count_trait [10, 20, 30 :: int])) = Some (c', 2)"
proof -
  let ?t = "mk_leaf count_trait [10, 20, 30 :: int]"
  have t: "wf_tree count_trait ?t" by (simp add: wf_tree_def TREE_BASE_def)
  show ?thesis
    using summary_measures [OF counting.dimension_laws_axioms counting.dimension_laws_axioms t, of "ord_cmp 2"
        "cursor_new count_dim ?t" 0 Right] counting.seek_from_new [OF t]
    by (auto simp: stack_fits_def STACK_CAPACITY_def seekable_def ord_cmp_def seek_index_def in_child_def)
qed

text \<open>
  A cursor that \<^verbatim>\<open>prev\<close> moved before the first item is lost: \<^verbatim>\<open>seek_forward\<close> from there
  does not move, whatever the target, and leaves a cursor that claims to be past the end.
\<close>

theorem seek_forward_from_before_first_is_stuck:
  assumes "dimension_laws D M" "wf_tree D t" "stack_fits t" "flatten t \<noteq> []"
    and "cursor_at D M t c 0" "cmp (dim_zero M) \<noteq> Less"
  shows "\<exists>c1 c2 found. cursor_prev M c = Some c1 \<and> cursor_seek_forward M cmp b c1 = Some (c2, found) \<and>
     cursor_item c2 = Some None \<and> c_at_end c2 \<and> c_position c2 = dim_zero M"
proof -
  obtain c1 where c1: "cursor_prev M c = Some c1" "c_did_seek c1" "cursor_before M t c1"
    using dimension_laws.cursor_prev_at [OF assms(1-3,5)] by auto
  then show ?thesis
    using assms(6)
    by (cases b) (simp_all add: cursor_before_def cursor_seek_forward_def seek_internal_def seek_loop.simps top_is_leaf_def
        cursor_item_summary_def cursor_item_def Let_def)
qed

theorem seek_forward_from_before_first_is_stuck_witness:
  "\<exists>c c1 c2 found. cursor_at count_trait count_dim (mk_leaf count_trait [10, 20, 30 :: int]) c 0 \<and>
     cursor_prev count_dim c = Some c1 \<and> cursor_seek_forward count_dim (ord_cmp 2) Right c1 = Some (c2, found) \<and>
     cursor_item c2 = Some None"
proof -
  let ?t = "mk_leaf count_trait [10, 20, 30 :: int]"
  have t: "wf_tree count_trait ?t" "stack_fits ?t"
    by (simp_all add: wf_tree_def TREE_BASE_def stack_fits_def STACK_CAPACITY_def)
  obtain c where "cursor_at count_trait count_dim ?t c 0"
    using counting.cursor_next_before [OF t cursor_new_before [OF t(1)]] by blast
  then show ?thesis
    using seek_forward_from_before_first_is_stuck [OF counting.dimension_laws_axioms t, of c "ord_cmp 2" Right]
    by (auto simp: ord_cmp_def)
qed

end
