(* ===== verification/KeyedTree.thy ===== *)
theory KeyedTree
  imports CursorSeek
begin

text \<open>
  Trees of keyed items (\<^verbatim>\<open>impl<T: KeyedItem> SumTree<T>\<close> in \<^verbatim>\<open>crates/sum_tree/src/sum_tree.rs\<close>):
  \<^verbatim>\<open>insert_or_replace\<close>, \<^verbatim>\<open>remove\<close>, \<^verbatim>\<open>edit\<close> and \<^verbatim>\<open>get\<close>, as operations on a strictly sorted
  sequence. The key of an item is a function \<open>key\<close>; \<^verbatim>\<open>T::Key\<close> is a dimension \<open>K\<close> whose positions
  are keys, and a key seeks by \<^verbatim>\<open>Ord::cmp\<close>.
\<close>

section \<open>Operations\<close>

definition insert_or_replace ::
    "('a, 's) item_trait \<Rightarrow> ('s, 'k::linorder) dimension \<Rightarrow> ('a \<Rightarrow> 'k) \<Rightarrow> ('a, 's) node \<Rightarrow> 'a
      \<Rightarrow> (('a, 's) node \<times> 'a option) option" where
  "insert_or_replace D K key self item = do {
     (c, new) \<leftarrow> cursor_slice D K (ord_cmp (key item)) Left (cursor_new K self);
     cursor_it \<leftarrow> cursor_item c;
     (replaced, c) \<leftarrow>
       (case cursor_it of
          Some y \<Rightarrow> (if key y = key item then do { c' \<leftarrow> cursor_next K c; Some (Some y, c') } else Some (None, c))
        | None \<Rightarrow> Some (None, c));
     new \<leftarrow> push D new item;
     (c, rest) \<leftarrow> cursor_suffix D K c;
     new \<leftarrow> append_tree D new rest;
     Some (new, replaced) }"

definition remove_key ::
    "('a, 's) item_trait \<Rightarrow> ('s, 'k::linorder) dimension \<Rightarrow> ('a \<Rightarrow> 'k) \<Rightarrow> ('a, 's) node \<Rightarrow> 'k
      \<Rightarrow> (('a, 's) node \<times> 'a option) option" where
  "remove_key D K key self k = do {
     (c, new) \<leftarrow> cursor_slice D K (ord_cmp k) Left (cursor_new K self);
     cursor_it \<leftarrow> cursor_item c;
     (removed, c) \<leftarrow>
       (case cursor_it of
          Some y \<Rightarrow> (if key y = k then do { c' \<leftarrow> cursor_next K c; Some (Some y, c') } else Some (None, c))
        | None \<Rightarrow> Some (None, c));
     (c, rest) \<leftarrow> cursor_suffix D K c;
     new \<leftarrow> append_tree D new rest;
     Some (new, removed) }"

datatype ('a, 'k) edit = Insert 'a | Remove 'k

fun edit_key :: "('a \<Rightarrow> 'k) \<Rightarrow> ('a, 'k) edit \<Rightarrow> 'k" where
  "edit_key key (Insert x) = key x"
| "edit_key key (Remove k) = k"

text \<open>The state of the loop of \<^verbatim>\<open>edit\<close>: the cursor, the new tree, the buffered items, the items removed.\<close>

record ('a, 's, 'k) edit_state =
  es_cursor :: "('a, 's, 'k) cursor"
  es_tree :: "('a, 's) node"
  es_buffered :: "'a list"
  es_removed :: "'a list"

definition edit_step ::
    "('a, 's) item_trait \<Rightarrow> ('s, 'k::linorder) dimension \<Rightarrow> ('a \<Rightarrow> 'k) \<Rightarrow> ('a, 'k) edit
      \<Rightarrow> ('a, 's, 'k) edit_state \<Rightarrow> ('a, 's, 'k) edit_state option" where
  "edit_step D K key e st = do {
     let new_key = edit_key key e;
     old_item \<leftarrow> cursor_item (es_cursor st);
     (st, old_item) \<leftarrow>
       (if (case old_item of Some y \<Rightarrow> key y < new_key | None \<Rightarrow> False) then do {
          t \<leftarrow> extend_tree D (es_tree st) (es_buffered st);
          (c, sl) \<leftarrow> cursor_slice D K (ord_cmp new_key) Left (es_cursor st);
          t' \<leftarrow> append_tree D t sl;
          old' \<leftarrow> cursor_item c;
          Some (st\<lparr>es_cursor := c, es_tree := t', es_buffered := []\<rparr>, old') }
        else Some (st, old_item));
     st \<leftarrow>
       (case old_item of
          Some y \<Rightarrow> (if key y = new_key then do {
            c \<leftarrow> cursor_next K (es_cursor st);
            Some (st\<lparr>es_cursor := c, es_removed := es_removed st @ [y]\<rparr>) } else Some st)
        | None \<Rightarrow> Some st);
     (case e of
        Insert x \<Rightarrow> Some (st\<lparr>es_buffered := es_buffered st @ [x]\<rparr>)
      | Remove _ \<Rightarrow> Some st) }"

fun edit_loop ::
    "('a, 's) item_trait \<Rightarrow> ('s, 'k::linorder) dimension \<Rightarrow> ('a \<Rightarrow> 'k) \<Rightarrow> ('a, 'k) edit list
      \<Rightarrow> ('a, 's, 'k) edit_state \<Rightarrow> ('a, 's, 'k) edit_state option" where
  "edit_loop D K key [] st = Some st"
| "edit_loop D K key (e # es) st = do { st' \<leftarrow> edit_step D K key e st; edit_loop D K key es st' }"

definition edit_tree ::
    "('a, 's) item_trait \<Rightarrow> ('s, 'k::linorder) dimension \<Rightarrow> ('a \<Rightarrow> 'k) \<Rightarrow> ('a, 's) node
      \<Rightarrow> ('a, 'k) edit list \<Rightarrow> (('a, 's) node \<times> 'a list) option" where
  "edit_tree D K key self edits =
     (if edits = [] then Some (self, [])
      else do {
        (c, _) \<leftarrow> cursor_seek K (ord_cmp (dim_zero K)) Left (cursor_new K self);
        st \<leftarrow> edit_loop D K key (sort_key (edit_key key) edits)
          \<lparr>es_cursor = c, es_tree = new_tree D, es_buffered = [], es_removed = []\<rparr>;
        t \<leftarrow> extend_tree D (es_tree st) (es_buffered st);
        (c, rest) \<leftarrow> cursor_suffix D K (es_cursor st);
        t' \<leftarrow> append_tree D t rest;
        Some (t', es_removed st) })"

definition get_item :: "('s, 'k::linorder) dimension \<Rightarrow> ('a, 's) node \<Rightarrow> 'k \<Rightarrow> 'a option" where
  "get_item K self k = (case find_exact K (ord_cmp k) Left self of (_, _, x) \<Rightarrow> x)"

section \<open>Sorted sequences\<close>

text \<open>What the operations do to the sequence.\<close>

definition sorted_keys :: "('a \<Rightarrow> 'k::linorder) \<Rightarrow> 'a list \<Rightarrow> bool" where
  "sorted_keys key xs \<longleftrightarrow> sorted_wrt (<) (map key xs)"

definition items_below :: "('a \<Rightarrow> 'k::linorder) \<Rightarrow> 'k \<Rightarrow> 'a list \<Rightarrow> 'a list" where
  "items_below key k xs = filter (\<lambda>x. key x < k) xs"

definition items_above :: "('a \<Rightarrow> 'k::linorder) \<Rightarrow> 'k \<Rightarrow> 'a list \<Rightarrow> 'a list" where
  "items_above key k xs = filter (\<lambda>x. k < key x) xs"

fun apply_edit :: "('a \<Rightarrow> 'k::linorder) \<Rightarrow> 'a list \<Rightarrow> ('a, 'k) edit \<Rightarrow> 'a list" where
  "apply_edit key xs (Insert x) = items_below key (key x) xs @ [x] @ items_above key (key x) xs"
| "apply_edit key xs (Remove k) = items_below key k xs @ items_above key k xs"

fun edit_items :: "('a, 'k) edit \<Rightarrow> 'a list" where
  "edit_items (Insert x) = [x]"
| "edit_items (Remove k) = []"

definition count_below :: "('a \<Rightarrow> 'k::linorder) \<Rightarrow> 'k \<Rightarrow> 'a list \<Rightarrow> nat" where
  "count_below key k xs = length (items_below key k xs)"

lemma sorted_keys_simps [simp]:
  "sorted_keys key []"
  "sorted_keys key (x # xs) \<longleftrightarrow> (\<forall>y \<in> set xs. key x < key y) \<and> sorted_keys key xs"
  "sorted_keys key (xs @ ys) \<longleftrightarrow>
     sorted_keys key xs \<and> sorted_keys key ys \<and> (\<forall>x \<in> set xs. \<forall>y \<in> set ys. key x < key y)"
  by (auto simp: sorted_keys_def sorted_wrt_append)

lemma below_simps [simp]:
  "items_below key k [] = []"
  "items_below key k (x # xs) = (if key x < k then x # items_below key k xs else items_below key k xs)"
  "items_below key k (xs @ ys) = items_below key k xs @ items_below key k ys"
  "set (items_below key k xs) = {x \<in> set xs. key x < k}"
  by (auto simp: items_below_def)

lemma above_simps [simp]:
  "items_above key k [] = []"
  "items_above key k (x # xs) = (if k < key x then x # items_above key k xs else items_above key k xs)"
  "items_above key k (xs @ ys) = items_above key k xs @ items_above key k ys"
  "set (items_above key k xs) = {x \<in> set xs. k < key x}"
  by (auto simp: items_above_def)

lemma sorted_keys_filter: "sorted_keys key xs \<Longrightarrow> sorted_keys key (filter P xs)"
  by (induction xs) auto

lemma sorted_keys_below_above [simp]:
  "sorted_keys key xs \<Longrightarrow> sorted_keys key (items_below key k xs)"
  "sorted_keys key xs \<Longrightarrow> sorted_keys key (items_above key k xs)"
  by (simp_all add: items_below_def items_above_def sorted_keys_filter)

lemma below_all: "(\<And>x. x \<in> set xs \<Longrightarrow> key x < k) \<Longrightarrow> items_below key k xs = xs"
  by (simp add: items_below_def)

lemma below_none: "(\<And>x. x \<in> set xs \<Longrightarrow> k \<le> key x) \<Longrightarrow> items_below key k xs = []"
  by (simp add: items_below_def filter_empty_conv not_less)

lemma above_all: "(\<And>x. x \<in> set xs \<Longrightarrow> k < key x) \<Longrightarrow> items_above key k xs = xs"
  by (simp add: items_above_def)

lemma above_none: "(\<And>x. x \<in> set xs \<Longrightarrow> key x \<le> k) \<Longrightarrow> items_above key k xs = []"
  by (simp add: items_above_def filter_empty_conv not_less)

lemma count_below_le: "count_below key k xs \<le> length xs"
  by (simp add: count_below_def items_below_def)

lemma below_tail: "sorted_keys key (x # xs) \<Longrightarrow> \<not> key x < k \<Longrightarrow> items_below key k xs = []"
  by (rule below_none) force

lemma above_tail: "sorted_keys key (x # xs) \<Longrightarrow> \<not> key x < k \<Longrightarrow> items_above key k xs = xs"
  by (rule above_all) force

text \<open>A sorted sequence splits at a key: the items below, the one with the key if there is one, the items above.\<close>

lemma sorted_keys_split:
  fixes k
  assumes "sorted_keys key xs"
  defines "j \<equiv> count_below key k xs"
  shows "take j xs = items_below key k xs"
    and "drop (if j < length xs \<and> key (xs ! j) = k then Suc j else j) xs = items_above key k xs"
    and "find (\<lambda>x. key x = k) xs = (if j < length xs \<and> key (xs ! j) = k then Some (xs ! j) else None)"
  unfolding j_def using assms(1)
proof (induction xs)
  case (Cons x xs)
  {
    case 1
    then show ?case using Cons.IH(1) below_tail [of key x xs k] by (auto simp: count_below_def)
  next
    case 2
    then show ?case
      using Cons.IH(2) below_tail [of key x xs k] above_tail [of key x xs k]
      by (cases "key x" k rule: linorder_cases) (auto simp: count_below_def)
  next
    case 3
    moreover have "find (\<lambda>x. key x = k) xs = None" if "\<not> key x < k"
      using 3 that by (auto simp: find_None_iff)
    ultimately show ?case
      using Cons.IH(3) below_tail [of key x xs k] by (cases "key x" k rule: linorder_cases) (auto simp: count_below_def)
  }
qed (simp_all add: count_below_def)

lemma takeWhile_sorted_keys:
  assumes "sorted_keys key xs" "\<And>j k. j < k \<Longrightarrow> P k \<Longrightarrow> P j"
  shows "takeWhile (\<lambda>x. P (key x)) xs = filter (\<lambda>x. P (key x)) xs"
    and "drop (length (takeWhile (\<lambda>x. P (key x)) xs)) xs = filter (\<lambda>x. \<not> P (key x)) xs"
proof -
  have "takeWhile (\<lambda>x. P (key x)) xs = filter (\<lambda>x. P (key x)) xs \<and>
      drop (length (takeWhile (\<lambda>x. P (key x)) xs)) xs = filter (\<lambda>x. \<not> P (key x)) xs"
    using assms(1)
  proof (induction xs)
    case (Cons x xs)
    show ?case
    proof (cases "P (key x)")
      case False
      then have "\<forall>y \<in> set xs. \<not> P (key y)" using assms(2) Cons.prems by auto
      with False show ?thesis by (simp add: filter_empty_conv filter_id_conv [THEN iffD2])
    qed (use Cons in auto)
  qed simp
  then show "takeWhile (\<lambda>x. P (key x)) xs = filter (\<lambda>x. P (key x)) xs"
    and "drop (length (takeWhile (\<lambda>x. P (key x)) xs)) xs = filter (\<lambda>x. \<not> P (key x)) xs" by blast+
qed

lemma sorted_keys_parts:
  assumes "sorted_keys key xs"
  shows "items_below key k xs @ (case find (\<lambda>x. key x = k) xs of Some y \<Rightarrow> [y] | None \<Rightarrow> []) @ items_above key k xs = xs"
proof -
  let ?j = "count_below key k xs"
  have "take ?j xs @ drop ?j xs = xs" by simp
  then show ?thesis
    using sorted_keys_split [OF assms, of k]
    by (auto simp flip: Cons_nth_drop_Suc split: if_splits)
qed

lemma apply_edit_sorted: "sorted_keys key xs \<Longrightarrow> sorted_keys key (apply_edit key xs e)"
  by (cases e) fastforce+

section \<open>Laws of keys\<close>

text \<open>The position of the key dimension after an item is the key of that item, and zero is below all keys.\<close>

locale keyed_laws = dimension_laws D K
  for D :: "('a, 's) item_trait" and K :: "('s, 'k::linorder) dimension" +
  fixes key :: "'a \<Rightarrow> 'k"
  assumes dim_add_key: "dim_add K d (item_summary D x) = key x"
    and zero_le_key: "dim_zero K \<le> key x"
begin

lemma ends_keys: "ends K d (map (item_summary D) xs) = map key xs"
  by (induction xs arbitrary: d) (simp_all add: dim_add_key)

lemma seq_pos_key: "seq_pos D K xs = (if xs = [] then dim_zero K else key (last xs))"
  by (induction xs rule: rev_induct) (simp_all add: dim_add_key)

lemma seekable_keys: "sorted_keys key xs \<Longrightarrow> seekable K (ord_cmp k) d (map (item_summary D) xs)"
  unfolding seekable_def ends_keys
  by (induction xs) (fastforce simp: ord_cmp_def)+

lemma target_index_takeWhile:
  "target_index D K cmp b d xs = length (takeWhile (\<lambda>x. \<not> in_child b (cmp (key x))) xs)"
  by (induction xs arbitrary: d) (simp_all add: dim_add_key)

lemma target_index_key_left:
  "sorted_keys key xs \<Longrightarrow> target_index D K (ord_cmp k) Left d xs = count_below key k xs"
proof (induction xs arbitrary: d)
  case (Cons x xs)
  then show ?case
    using below_tail [of key x xs k] by (auto simp: dim_add_key in_child_def count_below_def)
qed (simp add: count_below_def)

lemma zero_target_index: "target_index D K (ord_cmp (dim_zero K)) Left d xs = 0"
  using zero_le_key by (cases xs) (auto simp: dim_add_key in_child_def less_le)

lemma key_slice:
  assumes "wf_tree D t" "stack_fits t" "sorted_keys key (flatten t)" "seek_from D K t c i"
    and "seq_pos D K (take i (flatten t)) \<le> k"
  shows "\<exists>c' r. cursor_slice D K (ord_cmp k) Left c = Some (c', r) \<and>
     cursor_at D K t c' (i + count_below key k (drop i (flatten t))) \<and>
     wf_tree D r \<and> flatten r = items_below key k (drop i (flatten t))"
proof -
  have s: "sorted_keys key (drop i (flatten t))"
    using assms(3) by (metis append_take_drop_id sorted_keys_simps(3))
  have "seek_index D K (ord_cmp k) Left (flatten t) i = i + count_below key k (drop i (flatten t))"
    by (simp add: seek_index_def target_index_key_left [OF s])
  moreover have "seek_ready t (ord_cmp k) c i" using assms by (simp add: seekable_keys not_less)
  ultimately show ?thesis
    using cursor_slice_ok [of t "ord_cmp k" c i Left] sorted_keys_split(1) [OF s, of k] by auto
qed

text \<open>The step all the operations share: take the item with the key, if the cursor is on one.\<close>

lemma take_equal:
  fixes i k t
  assumes "wf_tree D t" "stack_fits t" "sorted_keys key (flatten t)"
  defines "rest \<equiv> drop i (flatten t)"
  assumes at: "cursor_at D K t c (i + count_below key k rest)"
  shows "\<exists>old. cursor_item c = Some old \<and> find (\<lambda>x. key x = k) rest = (case old of Some y \<Rightarrow> if key y = k then Some y else None | None \<Rightarrow> None) \<and>
     (case find (\<lambda>x. key x = k) rest of
        Some y \<Rightarrow> \<exists>c' i'. cursor_next K c = Some c' \<and> cursor_at D K t c' i' \<and> drop i' (flatten t) = items_above key k rest
      | None \<Rightarrow> drop (i + count_below key k rest) (flatten t) = items_above key k rest)"
proof -
  let ?j = "count_below key k rest"
  have s: "sorted_keys key rest"
    using assms(3) unfolding rest_def by (metis append_take_drop_id sorted_keys_simps(3))
  have rest: "get_opt (flatten t) (i + ?j) = get_opt rest ?j"
    using cursor_at_le [OF at] by (auto simp: rest_def get_opt_def)
  obtain c' where c': "cursor_next K c = Some c'" "cursor_at D K t c' (min (Suc (i + ?j)) (length (flatten t)))"
    using cursor_next_at [OF assms(1,2) at] by blast
  show ?thesis
  proof (cases "?j < length rest \<and> key (rest ! ?j) = k")
    case True
    then have "min (Suc (i + ?j)) (length (flatten t)) = i + Suc ?j" by (auto simp: rest_def)
    moreover have "drop (i + Suc ?j) (flatten t) = drop (Suc ?j) rest" by (simp add: rest_def add.commute)
    ultimately show ?thesis
      using True c' sorted_keys_split(2,3) [OF s, of k] cursor_item_at(1) [OF at] rest by auto
  next
    case False
    moreover have "drop (i + ?j) (flatten t) = drop ?j rest" by (simp add: rest_def add.commute)
    ultimately show ?thesis
      using sorted_keys_split(2,3) [OF s, of k] cursor_item_at(1) [OF at] rest
      by (auto simp: get_opt_def)
  qed
qed

abbreviation ordered_tree :: "('a, 's) node \<Rightarrow> bool" where
  "ordered_tree t \<equiv> wf_tree D t \<and> stack_fits t \<and> sorted_keys key (flatten t)"

lemma insert_or_replace_ok:
  assumes "ordered_tree t"
  shows "\<exists>t'. insert_or_replace D K key t x = Some (t', find (\<lambda>y. key y = key x) (flatten t)) \<and>
     wf_tree D t' \<and> flatten t' = apply_edit key (flatten t) (Insert x)"
proof -
  let ?k = "key x" and ?xs = "flatten t"
  obtain c r where c: "cursor_slice D K (ord_cmp ?k) Left (cursor_new K t) = Some (c, r)"
    "cursor_at D K t c (0 + count_below key ?k (drop 0 ?xs))" "wf_tree D r" "flatten r = items_below key ?k ?xs"
    using key_slice [of t "cursor_new K t" 0 ?k] assms seek_from_new zero_le_key by auto
  note te = take_equal [where i = 0 and k = ?k and t = t and c = c, OF _ _ _ c(2)]
  obtain r' where r': "push D r x = Some r'" "wf_tree D r'" "flatten r' = items_below key ?k ?xs @ [x]"
    using push_ok [OF c(3)] c(4) by auto
  have fin: "\<exists>t'. (do { (c, rest) \<leftarrow> cursor_suffix D K c'; new \<leftarrow> append_tree D r' rest; Some (new, y) }) = Some (t', y) \<and>
     wf_tree D t' \<and> flatten t' = apply_edit key ?xs (Insert x)"
    if "cursor_at D K t c' i'" "drop i' ?xs = items_above key ?k ?xs" for c' i' y
    using cursor_suffix_ok [of t c' i'] append_tree_ok [OF r'(2)] r'(3) assms that by (fastforce simp: seek_from_def)
  show ?thesis
  proof (cases "find (\<lambda>y. key y = ?k) ?xs")
    case None
    then show ?thesis
      using te assms c(1,2) r'(1) fin [of c "count_below key ?k ?xs" None]
      by (auto simp: insert_or_replace_def split: option.splits if_splits)
  next
    case (Some y)
    then show ?thesis
      using te assms c(1) r'(1) fin [of _ _ "Some y"]
      by (auto simp: insert_or_replace_def split: option.splits if_splits)
  qed
qed

lemma remove_key_ok:
  assumes "ordered_tree t" "dim_zero K \<le> k"
  shows "\<exists>t'. remove_key D K key t k = Some (t', find (\<lambda>y. key y = k) (flatten t)) \<and>
     wf_tree D t' \<and> flatten t' = apply_edit key (flatten t) (Remove k)"
proof -
  let ?xs = "flatten t"
  obtain c r where c: "cursor_slice D K (ord_cmp k) Left (cursor_new K t) = Some (c, r)"
    "cursor_at D K t c (0 + count_below key k (drop 0 ?xs))" "wf_tree D r" "flatten r = items_below key k ?xs"
    using key_slice [of t "cursor_new K t" 0 k] assms seek_from_new by auto
  note te = take_equal [where i = 0 and k = k and t = t and c = c, OF _ _ _ c(2)]
  have fin: "\<exists>t'. (do { (c, rest) \<leftarrow> cursor_suffix D K c'; new \<leftarrow> append_tree D r rest; Some (new, y) }) = Some (t', y) \<and>
     wf_tree D t' \<and> flatten t' = apply_edit key ?xs (Remove k)"
    if "cursor_at D K t c' i'" "drop i' ?xs = items_above key k ?xs" for c' i' y
    using cursor_suffix_ok [of t c' i'] append_tree_ok [OF c(3)] c(4) assms that by (fastforce simp: seek_from_def)
  show ?thesis
  proof (cases "find (\<lambda>y. key y = k) ?xs")
    case None
    then show ?thesis
      using te assms c(1,2) fin [of c "count_below key k ?xs" None]
      by (auto simp: remove_key_def split: option.splits if_splits)
  next
    case (Some y)
    then show ?thesis
      using te assms c(1) fin [of _ _ "Some y"]
      by (auto simp: remove_key_def split: option.splits if_splits)
  qed
qed

lemma get_item_ok:
  assumes "wf_tree D t" "sorted_keys key (flatten t)"
  shows "get_item K t k = find (\<lambda>y. key y = k) (flatten t)"
proof (cases "flatten t = []")
  case True
  then have "t = new_tree D" using assms(1) by (auto simp: wf_tree_def)
  then show ?thesis by (simp add: get_item_def find_exact_def new_tree_def Let_def)
next
  case False
  then have t: "wf_node D t" using assms(1) by (auto intro: wf_tree_nonempty)
  have "item_index (ord_cmp k) Left (flatten t) = count_below key k (flatten t)"
    using target_index_key_left [OF assms(2)] by (simp add: target_index_def)
  then show ?thesis
    using find_exact_left_ok [OF t seekable_keys [OF assms(2)], of k] sorted_keys_split(3) [OF assms(2), of k]
    by (auto simp: get_item_def Let_def seq_pos_key take_Suc_conv_app_nth split: prod.split)
qed

section \<open>The batched edit\<close>

text \<open>
  A state of the loop: the cursor stands at index \<open>i\<close> of the old sequence, \<open>L\<close> is what was emitted
  (in the new tree or still buffered), \<open>rem\<close> what was removed.
\<close>

definition edit_inv where
  "edit_inv t i L rem st \<longleftrightarrow> cursor_at D K t (es_cursor st) i \<and> wf_tree D (es_tree st) \<and>
     L = flatten (es_tree st) @ es_buffered st \<and> rem = es_removed st"

abbreviation found_list :: "'k \<Rightarrow> 'a list \<Rightarrow> 'a list" where
  "found_list k xs \<equiv> (case find (\<lambda>x. key x = k) xs of Some y \<Rightarrow> [y] | None \<Rightarrow> [])"

lemma apply_edit_parts: "apply_edit key xs e = items_below key (edit_key key e) xs @ edit_items e @ items_above key (edit_key key e) xs"
  by (cases e) simp_all

text \<open>The first half of a step: the items below the key are moved over, in one slice.\<close>

lemma edit_advance:
  assumes t: "ordered_tree t" and st: "edit_inv t i L rem st" and pos: "\<forall>x \<in> set (take i (flatten t)). key x \<le> k"
    and zero: "dim_zero K \<le> k"
  shows "\<exists>old st' old'. cursor_item (es_cursor st) = Some old \<and>
     (if (case old of Some y \<Rightarrow> key y < k | None \<Rightarrow> False) then do {
        t \<leftarrow> extend_tree D (es_tree st) (es_buffered st);
        (c, sl) \<leftarrow> cursor_slice D K (ord_cmp k) Left (es_cursor st);
        t' \<leftarrow> append_tree D t sl;
        old' \<leftarrow> cursor_item c;
        Some (st\<lparr>es_cursor := c, es_tree := t', es_buffered := []\<rparr>, old') }
      else Some (st, old)) = Some (st', old') \<and>
     edit_inv t (i + count_below key k (drop i (flatten t))) (L @ items_below key k (drop i (flatten t))) rem st' \<and>
     cursor_item (es_cursor st') = Some old'"
proof -
  let ?rest = "drop i (flatten t)"
  have at: "cursor_at D K t (es_cursor st) i" and wf: "wf_tree D (es_tree st)"
    and L: "L = flatten (es_tree st) @ es_buffered st" "rem = es_removed st" using st by (simp_all add: edit_inv_def)
  have s: "sorted_keys key ?rest" using t by (metis append_take_drop_id sorted_keys_simps(3))
  have old: "cursor_item (es_cursor st) = Some (get_opt (flatten t) i)" by (rule cursor_item_at(1) [OF at])
  show ?thesis
  proof (cases "i < length (flatten t) \<and> key (flatten t ! i) < k")
    case True
    obtain t1 where t1: "extend_tree D (es_tree st) (es_buffered st) = Some t1" "wf_tree D t1" "flatten t1 = L"
      using extend_tree_ok [OF wf, of "es_buffered st"] L by blast
    have "seq_pos D K (take i (flatten t)) \<le> k"
      using pos zero last_in_set [of "take i (flatten t)"] by (simp add: seq_pos_key)
    then obtain c r where c: "cursor_slice D K (ord_cmp k) Left (es_cursor st) = Some (c, r)"
      "cursor_at D K t c (i + count_below key k ?rest)" "wf_tree D r" "flatten r = items_below key k ?rest"
      using key_slice [of t "es_cursor st" i k] t at by (auto simp: seek_from_def)
    obtain t2 where "append_tree D t1 r = Some t2" "wf_tree D t2" "flatten t2 = L @ items_below key k ?rest"
      using append_tree_ok [OF t1(2) c(3)] t1(3) c(4) by auto
    with True t1 c old cursor_item_at(1) [OF c(2)] L show ?thesis by (auto simp: edit_inv_def)
  next
    case False
    then have "items_below key k ?rest = []"
      using s below_tail [of key "flatten t ! i" "drop (Suc i) (flatten t)" k]
      by (cases "i < length (flatten t)") (simp_all flip: Cons_nth_drop_Suc)
    then have "count_below key k ?rest = 0" "L @ items_below key k ?rest = L" by (simp_all add: count_below_def)
    with False st old show ?thesis by (auto simp: get_opt_def)
  qed
qed

lemma edit_step_ok:
  fixes e
  assumes t: "ordered_tree t" and st: "edit_inv t i L rem st"
  defines "k \<equiv> edit_key key e" and "rest \<equiv> drop i (flatten t)"
  assumes pos: "\<forall>x \<in> set (take i (flatten t)). key x \<le> k" and zero: "dim_zero K \<le> k"
  shows "\<exists>st' i'. edit_step D K key e st = Some st' \<and>
     edit_inv t i' (L @ items_below key k rest @ edit_items e) (rem @ found_list k rest) st' \<and>
     drop i' (flatten t) = items_above key k rest"
proof -
  obtain old st1 old1 where 1: "cursor_item (es_cursor st) = Some old"
    "(if (case old of Some y \<Rightarrow> key y < k | None \<Rightarrow> False) then do {
        t \<leftarrow> extend_tree D (es_tree st) (es_buffered st);
        (c, sl) \<leftarrow> cursor_slice D K (ord_cmp k) Left (es_cursor st);
        t' \<leftarrow> append_tree D t sl;
        old' \<leftarrow> cursor_item c;
        Some (st\<lparr>es_cursor := c, es_tree := t', es_buffered := []\<rparr>, old') }
      else Some (st, old)) = Some (st1, old1)"
    "edit_inv t (i + count_below key k rest) (L @ items_below key k rest) rem st1"
    "cursor_item (es_cursor st1) = Some old1"
    using edit_advance [OF t st pos zero] unfolding rest_def by blast
  have at: "cursor_at D K t (es_cursor st1) (i + count_below key k (drop i (flatten t)))"
    using 1(3) by (simp add: edit_inv_def rest_def)
  note te = take_equal [where i = i and k = k and t = t, OF _ _ _ at, folded rest_def]
  have step: "edit_step D K key e st = do {
     st \<leftarrow> (case old1 of
          Some y \<Rightarrow> (if key y = k then do {
            c \<leftarrow> cursor_next K (es_cursor st1);
            Some (st1\<lparr>es_cursor := c, es_removed := es_removed st1 @ [y]\<rparr>) } else Some st1)
        | None \<Rightarrow> Some st1);
     (case e of
        Insert x \<Rightarrow> Some (st\<lparr>es_buffered := es_buffered st @ [x]\<rparr>)
      | Remove _ \<Rightarrow> Some st) }"
    using 1(1,2) unfolding edit_step_def k_def [symmetric] by (simp cong: if_cong)
  show ?thesis
  proof (cases "find (\<lambda>x. key x = k) rest")
    case None
    then show ?thesis
      using te t 1(3,4) step
      by (cases e) (auto simp: edit_inv_def split: option.splits if_splits)
  next
    case (Some y)
    then show ?thesis
      using te t 1(3,4) step
      by (cases e) (auto simp: edit_inv_def split: option.splits if_splits)
  qed
qed

lemma keys_consumed:
  assumes "sorted_keys key xs" "\<forall>x \<in> set (take i xs). key x \<le> k" "drop i' xs = items_above key k (drop i xs)"
  shows "\<forall>x \<in> set (take i' xs). key x \<le> k"
proof
  fix x
  assume x: "x \<in> set (take i' xs)"
  show "key x \<le> k"
  proof (rule ccontr)
    assume "\<not> key x \<le> k"
    then have "x \<notin> set (take i xs)" using assms(2) by auto
    then have "x \<in> set (drop i xs)" using x by (metis append_take_drop_id in_set_takeD set_append Un_iff)
    then have "x \<in> set (drop i' xs)" using \<open>\<not> key x \<le> k\<close> assms(3) by simp
    moreover have "\<forall>x \<in> set (take i' xs). \<forall>y \<in> set (drop i' xs). key x < key y"
      using assms(1) by (metis append_take_drop_id sorted_keys_simps(3))
    ultimately show False using x by blast
  qed
qed

lemma filter_edited:
  assumes "sorted_keys key xs" "\<forall>e \<in> set es. k < edit_key key e"
  shows "filter (\<lambda>x. key x = k \<or> key x \<in> edit_key key ` set es) xs =
    found_list k xs @ filter (\<lambda>x. key x \<in> edit_key key ` set es) (items_above key k xs)"
proof -
  let ?P = "\<lambda>x. key x = k \<or> key x \<in> edit_key key ` set es"
  have "filter ?P (items_below key k xs) = []"
    using assms(2) by (auto simp: filter_empty_conv)
  moreover have "filter ?P (items_above key k xs) = filter (\<lambda>x. key x \<in> edit_key key ` set es) (items_above key k xs)"
    by (rule filter_cong) auto
  moreover have "filter ?P (found_list k xs) = found_list k xs"
    by (auto simp: find_Some_iff split: option.split)
  ultimately have "filter ?P
      (items_below key k xs @ found_list k xs @ items_above key k xs) =
    found_list k xs @ filter (\<lambda>x. key x \<in> edit_key key ` set es) (items_above key k xs)"
    by simp
  then show ?thesis unfolding sorted_keys_parts [OF assms(1)] .
qed

lemma edit_loop_ok:
  assumes t: "ordered_tree t" and "sorted_wrt (<) (map (edit_key key) es)"
    and "edit_inv t i L rem st"
    and "\<forall>e \<in> set es. dim_zero K \<le> edit_key key e"
    and "\<forall>e \<in> set es. \<forall>x \<in> set (take i (flatten t)) \<union> set L. key x < edit_key key e"
  shows "\<exists>st' i' L'. edit_loop D K key es st = Some st' \<and>
     edit_inv t i' L' (rem @ filter (\<lambda>x. key x \<in> edit_key key ` set es) (drop i (flatten t))) st' \<and>
     L' @ drop i' (flatten t) = foldl (apply_edit key) (L @ drop i (flatten t)) es"
  using assms(2-)
proof (induction es arbitrary: i L rem st)
  case Nil
  then show ?case by auto
next
  case (Cons e es)
  let ?k = "edit_key key e" and ?rest = "drop i (flatten t)"
  have s: "sorted_keys key ?rest" using t by (metis append_take_drop_id sorted_keys_simps(3))
  have lt: "\<forall>e' \<in> set es. ?k < edit_key key e'" using Cons.prems(1) by auto
  obtain st1 i1 where 1: "edit_step D K key e st = Some st1"
    "edit_inv t i1 (L @ items_below key ?k ?rest @ edit_items e) (rem @ found_list ?k ?rest) st1"
    "drop i1 (flatten t) = items_above key ?k ?rest"
    using edit_step_ok [OF t Cons.prems(2), of e] Cons.prems(3,4) by (auto simp: less_imp_le)
  have consumed: "\<forall>x \<in> set (take i1 (flatten t)). key x \<le> ?k"
    using keys_consumed [OF _ _ 1(3)] t Cons.prems(4) by (auto simp: less_imp_le)
  have emitted: "\<forall>x \<in> set (L @ items_below key ?k ?rest @ edit_items e). key x \<le> ?k"
    using Cons.prems(4) by (cases e) (auto simp: less_imp_le)
  have "sorted_wrt (<) (map (edit_key key) es)" "\<forall>e \<in> set es. dim_zero K \<le> edit_key key e"
    using Cons.prems by simp_all
  moreover have "\<forall>e' \<in> set es. \<forall>x \<in> set (take i1 (flatten t)) \<union> set (L @ items_below key ?k ?rest @ edit_items e).
      key x < edit_key key e'"
    using consumed emitted lt by (meson Un_iff le_less_trans)
  ultimately obtain st' i' L' where 2: "edit_loop D K key es st1 = Some st'"
    "edit_inv t i' L' ((rem @ found_list ?k ?rest) @ filter (\<lambda>x. key x \<in> edit_key key ` set es) (drop i1 (flatten t))) st'"
    "L' @ drop i' (flatten t) = foldl (apply_edit key) ((L @ items_below key ?k ?rest @ edit_items e) @ drop i1 (flatten t)) es"
    using Cons.IH [OF _ 1(2)] by blast
  have "apply_edit key (L @ ?rest) e = (L @ items_below key ?k ?rest @ edit_items e) @ drop i1 (flatten t)"
    using Cons.prems(4) by (simp add: apply_edit_parts below_all above_none less_imp_le 1(3))
  with 1(1) 2 filter_edited [OF s lt] show ?case unfolding 1(3) by auto
qed

text \<open>
  \<^verbatim>\<open>edit\<close>, for edits of distinct keys: the edits applied one after the other, in the order of their
  keys, and the old items with these keys.
\<close>

lemma edit_tree_ok:
  assumes t: "ordered_tree t" and "distinct (map (edit_key key) edits)"
    and "\<forall>e \<in> set edits. dim_zero K \<le> edit_key key e"
  shows "\<exists>t'. edit_tree D K key t edits =
      Some (t', filter (\<lambda>x. key x \<in> edit_key key ` set edits) (flatten t)) \<and> wf_tree D t' \<and>
    flatten t' = foldl (apply_edit key) (flatten t) (sort_key (edit_key key) edits)"
proof (cases "edits = []")
  case True
  then show ?thesis using t by (simp add: edit_tree_def)
next
  case False
  let ?es = "sort_key (edit_key key) edits"
  obtain c f where c: "cursor_seek K (ord_cmp (dim_zero K)) Left (cursor_new K t) = Some (c, f)" "cursor_at D K t c 0"
    using cursor_seek_ok [of t "ord_cmp (dim_zero K)" "cursor_new K t" Left] t
    by (auto simp: seekable_keys cursor_new_def seek_index_def zero_target_index)
  have "sorted_wrt (<) (map (edit_key key) ?es)"
    using assms(2) by (simp add: strict_sorted_iff distinct_map)
  moreover have "edit_inv t 0 [] [] \<lparr>es_cursor = c, es_tree = new_tree D, es_buffered = [], es_removed = []\<rparr>"
    using c(2) by (simp add: edit_inv_def)
  ultimately obtain st' i' L' where 1:
    "edit_loop D K key ?es \<lparr>es_cursor = c, es_tree = new_tree D, es_buffered = [], es_removed = []\<rparr> = Some st'"
    "edit_inv t i' L' (filter (\<lambda>x. key x \<in> edit_key key ` set edits) (flatten t)) st'"
    "L' @ drop i' (flatten t) = foldl (apply_edit key) (flatten t) ?es"
    using edit_loop_ok [OF t, of ?es 0 "[]" "[]" "\<lparr>es_cursor = c, es_tree = new_tree D, es_buffered = [], es_removed = []\<rparr>"]
      assms(3) by auto
  have st': "wf_tree D (es_tree st')" "cursor_at D K t (es_cursor st') i'" "flatten (es_tree st') @ es_buffered st' = L'"
    using 1(2) by (simp_all add: edit_inv_def)
  obtain t1 where t1: "extend_tree D (es_tree st') (es_buffered st') = Some t1" "wf_tree D t1" "flatten t1 = L'"
    using extend_tree_ok [OF st'(1), of "es_buffered st'"] st'(3) by auto
  obtain c' r where r: "cursor_suffix D K (es_cursor st') = Some (c', r)" "wf_tree D r" "flatten r = drop i' (flatten t)"
    using cursor_suffix_ok [of t "es_cursor st'" i'] t st'(2) by (auto simp: seek_from_def)
  obtain t2 where "append_tree D t1 r = Some t2" "wf_tree D t2" "flatten t2 = L' @ drop i' (flatten t)"
    using append_tree_ok [OF t1(2) r(2)] t1(3) r(3) by auto
  with False c(1) 1 t1(1) r(1) show ?thesis by (simp add: edit_tree_def edit_inv_def)
qed

end

section \<open>Properties\<close>

text \<open>
  On a tree whose keys increase strictly, \<^verbatim>\<open>insert_or_replace\<close> puts the item in its place,
  returns the item it replaced, and keeps the keys increasing; \<^verbatim>\<open>get\<close> finds the item with a key.
\<close>

theorem insert_or_replace_in_order:
  assumes "keyed_laws D K key" "wf_tree D t" "stack_fits t" "sorted_keys key (flatten t)"
  shows "\<exists>t'. insert_or_replace D K key t x = Some (t', get_item K t (key x)) \<and> wf_tree D t' \<and>
     flatten t' = items_below key (key x) (flatten t) @ [x] @ items_above key (key x) (flatten t) \<and>
     sorted_keys key (flatten t')"
proof -
  have "get_item K t (key x) = find (\<lambda>y. key y = key x) (flatten t)"
    by (rule keyed_laws.get_item_ok [OF assms(1,2,4)])
  moreover have "sorted_keys key (apply_edit key (flatten t) (Insert x))"
    by (rule apply_edit_sorted [OF assms(4)])
  ultimately show ?thesis
    using keyed_laws.insert_or_replace_ok [OF assms(1), of t x] assms(2-4) by auto
qed

text \<open>
  Claim C37. \<^verbatim>\<open>edit\<close> with edits of distinct keys, in any order, has the effect of applying them one
  by one in the order of their keys, keeps the keys increasing, and returns the old items that had
  one of these keys.
\<close>

theorem edit_applies_all:
  assumes "keyed_laws D K key" "wf_tree D t" "stack_fits t" "sorted_keys key (flatten t)"
    and "distinct (map (edit_key key) edits)" "\<forall>e \<in> set edits. dim_zero K \<le> edit_key key e"
  shows "\<exists>t'. edit_tree D K key t edits =
      Some (t', filter (\<lambda>x. key x \<in> edit_key key ` set edits) (flatten t)) \<and> wf_tree D t' \<and>
    flatten t' = foldl (apply_edit key) (flatten t) (sort_key (edit_key key) edits) \<and>
    sorted_keys key (flatten t')"
proof -
  have "sorted_keys key (foldl (apply_edit key) xs es)" if "sorted_keys key xs" for xs es
    using that by (induction es arbitrary: xs) (simp_all add: apply_edit_sorted del: apply_edit.simps)
  then show ?thesis
    using keyed_laws.edit_tree_ok [OF assms(1), of t edits] assms(2-) by fastforce
qed

section \<open>An instance\<close>

text \<open>Natural numbers as their own keys: the summary of a sequence is its last element.\<close>

definition last_trait :: "(nat, nat) item_trait" where
  "last_trait = \<lparr>item_summary = (\<lambda>x. x), summary_zero = 0, add_summary = (\<lambda>_ s. s)\<rparr>"

definition last_dim :: "(nat, nat) dimension" where
  "last_dim = \<lparr>dim_zero = 0, dim_add = (\<lambda>_ s. s)\<rparr>"

interpretation nat_keys: keyed_laws last_trait last_dim "\<lambda>x. x"
  by unfold_locales (simp_all add: last_trait_def last_dim_def)

lemma last_sample_ok:
  "wf_tree last_trait (mk_leaf last_trait [2, 4, 6])" "stack_fits (mk_leaf last_trait [2, 4, 6])"
  "sorted_keys (\<lambda>x. x) [2, 4, 6 :: nat]"
  by (simp_all add: wf_tree_def TREE_BASE_def stack_fits_def STACK_CAPACITY_def)

theorem insert_or_replace_in_order_witness:
  "\<exists>t'. insert_or_replace last_trait last_dim (\<lambda>x. x) (mk_leaf last_trait [2, 4, 6]) 5 =
      Some (t', get_item last_dim (mk_leaf last_trait [2, 4, 6]) 5) \<and> flatten t' = [2, 4, 5, 6]"
  using insert_or_replace_in_order [OF nat_keys.keyed_laws_axioms, of "mk_leaf last_trait [2, 4, 6]" 5] last_sample_ok
  by auto

theorem edit_applies_all_witness:
  "\<exists>t'. edit_tree last_trait last_dim (\<lambda>x. x) (mk_leaf last_trait [2, 4, 6]) [Remove 4, Insert 3] =
      Some (t', [4]) \<and> flatten t' = [2, 3, 6]"
  using edit_applies_all [OF nat_keys.keyed_laws_axioms, of "mk_leaf last_trait [2, 4, 6]" "[Remove 4, Insert 3]"] last_sample_ok
  by (auto simp: last_dim_def)

end
