(* ===== verification/TreeMap.thy ===== *)
theory TreeMap
  imports KeyedTree
begin

text \<open>
  The ordered map and set on top of the tree (\<^verbatim>\<open>crates/sum_tree/src/tree_map.rs\<close>). A \<^verbatim>\<open>MapKey\<close> is
  an optional key, ordered with \<^term>\<open>None\<close> first; it is the summary of an entry, and the summary of
  a sequence is its last key. \<open>map_impl\<close> is what clients of a map rely on; the tree is an instance.
\<close>

section \<open>Data\<close>

record ('k, 'v) map_entry =
  me_key :: 'k
  me_value :: 'v

type_synonym ('k, 'v) tree_map = "(('k, 'v) map_entry, 'k option) node"

definition entry_key :: "('k, 'v) map_entry \<Rightarrow> 'k option" where
  "entry_key e = Some (me_key e)"

definition map_trait :: "(('k, 'v) map_entry, 'k option) item_trait" where
  "map_trait = \<lparr>item_summary = entry_key, summary_zero = None, add_summary = (\<lambda>_ s. s)\<rparr>"

text \<open>\<^verbatim>\<open>MapKey\<close> as a dimension of itself, and \<^verbatim>\<open>MapKeyRef\<close>.\<close>

definition map_key_dim :: "('k option, 'k option) dimension" where
  "map_key_dim = \<lparr>dim_zero = None, dim_add = (\<lambda>_ s. s)\<rparr>"

section \<open>TreeMap\<close>

definition from_ordered_entries :: "('k \<times> 'v) list \<Rightarrow> ('k, 'v) tree_map option" where
  "from_ordered_entries entries = from_iter map_trait (map (\<lambda>(k, v). \<lparr>me_key = k, me_value = v\<rparr>) entries)"

definition map_new :: "('k, 'v) tree_map" where
  "map_new = new_tree map_trait"

definition map_is_empty :: "('k, 'v) tree_map \<Rightarrow> bool" where
  "map_is_empty m = is_empty_tree m"

definition map_get :: "('k::linorder, 'v) tree_map \<Rightarrow> 'k \<Rightarrow> 'v option" where
  "map_get m k =
     (case find_tree map_key_dim (ord_cmp (Some k)) Left m of
        (_, _, Some e) \<Rightarrow> (if Some k = entry_key e then Some (me_value e) else None)
      | (_, _, None) \<Rightarrow> None)"

definition map_contains_key :: "('k::linorder, 'v) tree_map \<Rightarrow> 'k \<Rightarrow> bool" where
  "map_contains_key m k = (map_get m k \<noteq> None)"

definition map_insert_or_replace ::
    "('k::linorder, 'v) tree_map \<Rightarrow> 'k \<Rightarrow> 'v \<Rightarrow> (('k, 'v) tree_map \<times> 'v option) option" where
  "map_insert_or_replace m k v = do {
     (m', old) \<leftarrow> insert_or_replace map_trait map_key_dim entry_key m \<lparr>me_key = k, me_value = v\<rparr>;
     Some (m', map_option me_value old) }"

definition map_insert :: "('k::linorder, 'v) tree_map \<Rightarrow> 'k \<Rightarrow> 'v \<Rightarrow> ('k, 'v) tree_map option" where
  "map_insert m k v = do {
     (m', _) \<leftarrow> insert_or_replace map_trait map_key_dim entry_key m \<lparr>me_key = k, me_value = v\<rparr>;
     Some m' }"

definition map_extend :: "('k::linorder, 'v) tree_map \<Rightarrow> ('k \<times> 'v) list \<Rightarrow> ('k, 'v) tree_map option" where
  "map_extend m entries = do {
     (m', _) \<leftarrow> edit_tree map_trait map_key_dim entry_key m
       (map (\<lambda>(k, v). Insert \<lparr>me_key = k, me_value = v\<rparr>) entries);
     Some m' }"

definition map_clear :: "('k, 'v) tree_map \<Rightarrow> ('k, 'v) tree_map" where
  "map_clear m = new_tree map_trait"

definition map_remove :: "('k::linorder, 'v) tree_map \<Rightarrow> 'k \<Rightarrow> (('k, 'v) tree_map \<times> 'v option) option" where
  "map_remove m k = do {
     (c, new) \<leftarrow> cursor_slice map_trait map_key_dim (ord_cmp (Some k)) Left (cursor_new map_key_dim m);
     end' \<leftarrow> cursor_end map_key_dim c;
     (removed, c) \<leftarrow>
       (if ord_cmp (Some k) end' = Equal then do {
          it \<leftarrow> cursor_item c;
          e \<leftarrow> it;
          c' \<leftarrow> cursor_next map_key_dim c;
          Some (Some (me_value e), c') }
        else Some (None, c));
     (c, rest) \<leftarrow> cursor_suffix map_trait map_key_dim c;
     new \<leftarrow> append_tree map_trait new rest;
     Some (new, removed) }"

text \<open>\<^verbatim>\<open>MapSeekTargetAdaptor\<close>: a target on keys as a target on positions.\<close>

definition map_seek_target :: "('k \<Rightarrow> ordering) \<Rightarrow> 'k option \<Rightarrow> ordering" where
  "map_seek_target cmp_cursor loc = (case loc of Some k \<Rightarrow> cmp_cursor k | None \<Rightarrow> Greater)"

definition map_remove_range ::
    "('k::linorder, 'v) tree_map \<Rightarrow> ('k \<Rightarrow> ordering) \<Rightarrow> ('k \<Rightarrow> ordering) \<Rightarrow> ('k, 'v) tree_map option" where
  "map_remove_range m start end' = do {
     (c, new) \<leftarrow> cursor_slice map_trait map_key_dim (map_seek_target start) Left (cursor_new map_key_dim m);
     (c, _) \<leftarrow> cursor_seek map_key_dim (map_seek_target end') Left c;
     (c, rest) \<leftarrow> cursor_suffix map_trait map_key_dim c;
     append_tree map_trait new rest }"

definition map_closest :: "('k::linorder, 'v) tree_map \<Rightarrow> 'k \<Rightarrow> ('k \<times> 'v) option option" where
  "map_closest m k = do {
     (c, _) \<leftarrow> cursor_seek map_key_dim (ord_cmp (Some k)) Right (cursor_new map_key_dim m);
     c \<leftarrow> cursor_prev map_key_dim c;
     it \<leftarrow> cursor_item c;
     Some (map_option (\<lambda>e. (me_key e, me_value e)) it) }"

definition map_iter_from :: "('k::linorder, 'v) tree_map \<Rightarrow> 'k \<Rightarrow> ('k \<times> 'v) list option" where
  "map_iter_from m from' = do {
     (c, _) \<leftarrow> cursor_seek map_key_dim (ord_cmp (Some from')) Left (cursor_new map_key_dim m);
     es \<leftarrow> cursor_collect map_key_dim (\<lambda>_. True) c;
     Some (map (\<lambda>e. (me_key e, me_value e)) es) }"

text \<open>The closure of \<^verbatim>\<open>update\<close> changes the value and returns something.\<close>

definition map_update ::
    "('k::linorder, 'v) tree_map \<Rightarrow> 'k \<Rightarrow> ('v \<Rightarrow> 'v \<times> 'r) \<Rightarrow> (('k, 'v) tree_map \<times> 'r option) option" where
  "map_update m k f = do {
     (c, new) \<leftarrow> cursor_slice map_trait map_key_dim (ord_cmp (Some k)) Left (cursor_new map_key_dim m);
     end' \<leftarrow> cursor_end map_key_dim c;
     (new, result, c) \<leftarrow>
       (if ord_cmp (Some k) end' = Equal then do {
          it \<leftarrow> cursor_item c;
          e \<leftarrow> it;
          let (v, r) = f (me_value e);
          new' \<leftarrow> push map_trait new (e\<lparr>me_value := v\<rparr>);
          c' \<leftarrow> cursor_next map_key_dim c;
          Some (new', Some r, c') }
        else Some (new, None, c));
     (c, rest) \<leftarrow> cursor_suffix map_trait map_key_dim c;
     new \<leftarrow> append_tree map_trait new rest;
     Some (new, result) }"

partial_function (option) retain_loop ::
    "('k::linorder \<Rightarrow> 'v \<Rightarrow> bool) \<Rightarrow> ('k, 'v) tree_map \<Rightarrow> (('k, 'v) map_entry, 'k option, 'k option) cursor
      \<Rightarrow> ('k, 'v) tree_map option" where
  "retain_loop P new c = do {
     it \<leftarrow> cursor_item c;
     (case it of
        None \<Rightarrow> Some new
      | Some e \<Rightarrow> do {
          new' \<leftarrow> (if P (me_key e) (me_value e) then push map_trait new e else Some new);
          c' \<leftarrow> cursor_next map_key_dim c;
          retain_loop P new' c' }) }"

definition map_retain :: "('k::linorder, 'v) tree_map \<Rightarrow> ('k \<Rightarrow> 'v \<Rightarrow> bool) \<Rightarrow> ('k, 'v) tree_map option" where
  "map_retain m P = do {
     c \<leftarrow> cursor_next map_key_dim (cursor_new map_key_dim m);
     retain_loop P (new_tree map_trait) c }"

text \<open>Iterators, as what they yield.\<close>

definition map_iter :: "('k, 'v) tree_map \<Rightarrow> ('k \<times> 'v) list option" where
  "map_iter m = do { es \<leftarrow> iter_collect m []; Some (map (\<lambda>e. (me_key e, me_value e)) es) }"

definition map_values :: "('k, 'v) tree_map \<Rightarrow> 'v list option" where
  "map_values m = do { es \<leftarrow> iter_collect m []; Some (map me_value es) }"

definition map_first :: "('k, 'v) tree_map \<Rightarrow> ('k \<times> 'v) option option" where
  "map_first m = do { e \<leftarrow> first_item m; Some (map_option (\<lambda>e. (me_key e, me_value e)) e) }"

definition map_last :: "('k, 'v) tree_map \<Rightarrow> ('k \<times> 'v) option option" where
  "map_last m = do { e \<leftarrow> last_item m; Some (map_option (\<lambda>e. (me_key e, me_value e)) e) }"

definition map_insert_tree :: "('k::linorder, 'v) tree_map \<Rightarrow> ('k, 'v) tree_map \<Rightarrow> ('k, 'v) tree_map option" where
  "map_insert_tree m other = do {
     es \<leftarrow> map_iter other;
     (m', _) \<leftarrow> edit_tree map_trait map_key_dim entry_key m
       (map (\<lambda>(k, v). Insert \<lparr>me_key = k, me_value = v\<rparr>) es);
     Some m' }"

declare retain_loop.simps [code]

section \<open>TreeSet\<close>

type_synonym 'k tree_set = "('k, unit) tree_map"

definition set_from_ordered_entries :: "'k list \<Rightarrow> 'k tree_set option" where
  "set_from_ordered_entries ks = from_ordered_entries (map (\<lambda>k. (k, ())) ks)"

definition set_is_empty :: "'k tree_set \<Rightarrow> bool" where
  "set_is_empty s = map_is_empty s"

definition set_insert :: "'k::linorder tree_set \<Rightarrow> 'k \<Rightarrow> 'k tree_set option" where
  "set_insert s k = map_insert s k ()"

definition set_remove :: "'k::linorder tree_set \<Rightarrow> 'k \<Rightarrow> ('k tree_set \<times> bool) option" where
  "set_remove s k = do { (s', removed) \<leftarrow> map_remove s k; Some (s', removed \<noteq> None) }"

definition set_extend :: "'k::linorder tree_set \<Rightarrow> 'k list \<Rightarrow> 'k tree_set option" where
  "set_extend s ks = map_extend s (map (\<lambda>k. (k, ())) ks)"

definition set_contains :: "'k::linorder tree_set \<Rightarrow> 'k \<Rightarrow> bool" where
  "set_contains s k = (map_get s k \<noteq> None)"

definition set_iter :: "'k tree_set \<Rightarrow> 'k list option" where
  "set_iter s = do { es \<leftarrow> map_iter s; Some (map fst es) }"

definition set_iter_from :: "'k::linorder tree_set \<Rightarrow> 'k \<Rightarrow> 'k list option" where
  "set_iter_from s k = do { es \<leftarrow> map_iter_from s k; Some (map fst es) }"

section \<open>The laws of keys hold\<close>

interpretation tmap: keyed_laws map_trait map_key_dim entry_key
  by unfold_locales (simp_all add: map_trait_def map_key_dim_def entry_key_def)


lemma map_key_dim_zero: "dim_zero map_key_dim = None"
  by (simp add: map_key_dim_def)

text \<open>The invariant of a map, its entries in order, and the map it stands for.\<close>

definition map_ok :: "('k::linorder, 'v) tree_map \<Rightarrow> bool" where
  "map_ok m \<longleftrightarrow> wf_tree map_trait m \<and> sorted_keys entry_key (flatten m)"

abbreviation pairs_of :: "('k, 'v) map_entry list \<Rightarrow> ('k \<times> 'v) list" where
  "pairs_of es \<equiv> map (\<lambda>e. (me_key e, me_value e)) es"

abbreviation map_entries :: "('k, 'v) tree_map \<Rightarrow> ('k \<times> 'v) list" where
  "map_entries m \<equiv> pairs_of (flatten m)"

definition map_abs :: "('k, 'v) tree_map \<Rightarrow> 'k \<rightharpoonup> 'v" where
  "map_abs m = map_of (map_entries m)"

lemma find_entry: "map_of (pairs_of es) k = map_option me_value (find (\<lambda>e. entry_key e = Some k) es)"
  by (induction es) (auto simp: entry_key_def)

lemma find_entry_filter:
  "find (\<lambda>e. entry_key e = Some k) (filter (\<lambda>e. Q (entry_key e)) es) =
   (if Q (Some k) then find (\<lambda>e. entry_key e = Some k) es else None)"
  by (induction es) auto

lemma find_append: "find P (xs @ ys) = (case find P xs of Some x \<Rightarrow> Some x | None \<Rightarrow> find P ys)"
  by (induction xs) auto

text \<open>Each edit of the sequence is the update of the map.\<close>

lemma apply_insert_abs:
  "map_of (pairs_of (apply_edit entry_key es (Insert e))) = (map_of (pairs_of es))(me_key e \<mapsto> me_value e)"
proof
  fix k
  have b: "find (\<lambda>e. entry_key e = Some k) (items_below entry_key j es) =
      (if Some k < j then find (\<lambda>e. entry_key e = Some k) es else None)" for j
    unfolding items_below_def by (rule find_entry_filter)
  have a: "find (\<lambda>e. entry_key e = Some k) (items_above entry_key j es) =
      (if j < Some k then find (\<lambda>e. entry_key e = Some k) es else None)" for j
    unfolding items_above_def by (rule find_entry_filter)
  show "map_of (pairs_of (apply_edit entry_key es (Insert e))) k = ((map_of (pairs_of es))(me_key e \<mapsto> me_value e)) k"
    unfolding find_entry apply_edit.simps find_append a b
    by (cases k "me_key e" rule: linorder_cases) (auto simp: entry_key_def find_entry split: option.split)
qed

lemma apply_remove_abs:
  "map_of (pairs_of (apply_edit entry_key es (Remove (Some k)))) = (map_of (pairs_of es))(k := None)"
proof
  fix j
  have b: "find (\<lambda>e. entry_key e = Some j) (items_below entry_key i es) =
      (if Some j < i then find (\<lambda>e. entry_key e = Some j) es else None)" for i
    unfolding items_below_def by (rule find_entry_filter)
  have a: "find (\<lambda>e. entry_key e = Some j) (items_above entry_key i es) =
      (if i < Some j then find (\<lambda>e. entry_key e = Some j) es else None)" for i
    unfolding items_above_def by (rule find_entry_filter)
  show "map_of (pairs_of (apply_edit entry_key es (Remove (Some k)))) j = ((map_of (pairs_of es))(k := None)) j"
    unfolding find_entry apply_edit.simps find_append a b
    by (cases j k rule: linorder_cases) (auto simp: find_entry split: option.split)
qed

lemma map_new_ok [simp]:
  "map_ok map_new" "stack_fits (map_new :: ('a, 'b) tree_map)" "flatten (map_new :: ('a, 'b) tree_map) = []"
  by (simp add: map_ok_def map_new_def) (simp_all add: map_new_def stack_fits_def new_tree_def STACK_CAPACITY_def)

lemma map_abs_empty: "map_abs map_new = Map.empty"
  by (simp add: map_abs_def)

section \<open>What the operations do\<close>

lemma map_get_ok:
  assumes "map_ok m"
  shows "map_get m k = map_abs m k"
proof (cases "flatten m = []")
  case True
  then have "m = new_tree map_trait" using assms by (auto simp: map_ok_def wf_tree_def)
  then show ?thesis
    by (simp add: map_abs_def map_get_def find_tree_def new_tree_def Let_def)
next
  case False
  let ?es = "flatten m" and ?j = "count_below entry_key (Some k) (flatten m)"
  have s: "sorted_keys entry_key ?es" and t: "wf_node map_trait m"
    using assms False by (auto simp: map_ok_def intro: wf_tree_nonempty)
  have "tmap.item_index (ord_cmp (Some k)) Left ?es = ?j"
    using tmap.target_index_key_left [OF s] by (simp add: target_index_def)
  moreover have "find (\<lambda>e. entry_key e = Some k) ?es =
      (if ?j < length ?es \<and> entry_key (?es ! ?j) = Some k then Some (?es ! ?j) else None)"
    by (rule sorted_keys_split(3) [OF s])
  ultimately show ?thesis
    using tmap.find_tree_ok [OF t tmap.seekable_keys [OF s], of "Some k" Left]
    by (auto simp: map_abs_def map_get_def find_entry Let_def)
qed

lemma map_insert_or_replace_ok:
  assumes "map_ok m" "stack_fits m"
  shows "\<exists>m'. map_insert_or_replace m k v = Some (m', map_abs m k) \<and> map_ok m' \<and> map_abs m' = (map_abs m)(k \<mapsto> v)"
proof -
  let ?e = "\<lparr>me_key = k, me_value = v\<rparr>"
  obtain m' where m': "insert_or_replace map_trait map_key_dim entry_key m ?e =
      Some (m', find (\<lambda>y. entry_key y = entry_key ?e) (flatten m))" "wf_tree map_trait m'"
      "flatten m' = apply_edit entry_key (flatten m) (Insert ?e)"
    using tmap.insert_or_replace_ok [of m ?e] assms by (auto simp: map_ok_def)
  then have "sorted_keys entry_key (flatten m')"
    using assms apply_edit_sorted by (auto simp: map_ok_def simp del: apply_edit.simps)
  with m' show ?thesis
    using apply_insert_abs [of "flatten m" ?e]
    by (simp add: map_insert_or_replace_def map_ok_def map_abs_def find_entry entry_key_def [of ?e])
qed

lemma map_insert_eq: "map_insert m k v = map_option fst (map_insert_or_replace m k v)"
  by (simp add: map_insert_def map_insert_or_replace_def split: bind_splits prod.split)

lemma map_insert_ok:
  assumes "map_ok m" "stack_fits m"
  shows "\<exists>m'. map_insert m k v = Some m' \<and> map_ok m' \<and> map_abs m' = (map_abs m)(k \<mapsto> v)"
  using map_insert_or_replace_ok [OF assms, of k v] by (auto simp: map_insert_eq)

text \<open>The slice up to a key, and how the end of the entry there tells whether the key is present.\<close>

lemma map_slice:
  assumes "map_ok m" "stack_fits m"
  shows "\<exists>c r p. cursor_slice map_trait map_key_dim (ord_cmp (Some k)) Left (cursor_new map_key_dim m) = Some (c, r) \<and>
     cursor_at map_trait map_key_dim m c (count_below entry_key (Some k) (flatten m)) \<and>
     wf_tree map_trait r \<and> flatten r = items_below entry_key (Some k) (flatten m) \<and>
     cursor_end map_key_dim c = Some p \<and>
     (ord_cmp (Some k) p = Equal \<longleftrightarrow> find (\<lambda>e. entry_key e = Some k) (flatten m) \<noteq> None)"
proof -
  let ?es = "flatten m" and ?j = "count_below entry_key (Some k) (flatten m)"
  have m: "wf_tree map_trait m" and s: "sorted_keys entry_key ?es" using assms by (simp_all add: map_ok_def)
  obtain c r where c: "cursor_slice map_trait map_key_dim (ord_cmp (Some k)) Left (cursor_new map_key_dim m) = Some (c, r)"
    "cursor_at map_trait map_key_dim m c ?j" "wf_tree map_trait r" "flatten r = items_below entry_key (Some k) ?es"
    using tmap.key_slice [OF m assms(2) s tmap.seek_from_new [OF m], of "Some k"] by (auto simp: map_key_dim_def)
  have "ord_cmp (Some k) (seq_pos map_trait map_key_dim (take (Suc ?j) ?es)) = Equal \<longleftrightarrow>
      find (\<lambda>e. entry_key e = Some k) ?es \<noteq> None"
  proof (cases "?j < length ?es")
    case True
    then show ?thesis
      using sorted_keys_split(3) [OF s, of "Some k"] by (auto simp: tmap.dim_add_key take_Suc_conv_app_nth)
  next
    case False
    then have "?es = items_below entry_key (Some k) ?es" using sorted_keys_split(1) [OF s, of "Some k"] by simp
    then have lt: "\<forall>e \<in> set ?es. entry_key e < Some k" by (metis (mono_tags, lifting) below_simps(4) mem_Collect_eq)
    then have "find (\<lambda>e. entry_key e = Some k) ?es = None" by (auto simp: find_None_iff)
    moreover have last: "entry_key (last ?es) \<noteq> Some k" if "?es \<noteq> []"
      using lt [rule_format, OF last_in_set [OF that]] by simp
    then have "tmap.item_pos (take (Suc ?j) ?es) \<noteq> Some k"
      using False unfolding tmap.seq_pos_key by (auto simp: map_key_dim_zero)
    ultimately show ?thesis by auto
  qed
  with c cursor_end_at [OF c(2)] show ?thesis by blast
qed


text \<open>After the slice: the cursor moves past the entry with the key, and the rest is appended.\<close>

lemma map_finish:
  assumes "map_ok m" "stack_fits m" "wf_tree map_trait r" "cursor_at map_trait map_key_dim m c i"
  shows "\<exists>c' rest m'. cursor_suffix map_trait map_key_dim c = Some (c', rest) \<and>
     append_tree map_trait r rest = Some m' \<and> wf_tree map_trait m' \<and> flatten m' = flatten r @ drop i (flatten m)"
proof -
  obtain c' rest where "cursor_suffix map_trait map_key_dim c = Some (c', rest)" "wf_tree map_trait rest"
    "flatten rest = drop i (flatten m)"
    using tmap.cursor_suffix_ok [of m c i] assms by (auto simp: map_ok_def seek_from_def)
  moreover from this(2) obtain m' where "append_tree map_trait r rest = Some m'" "wf_tree map_trait m'"
    "flatten m' = flatten r @ flatten rest"
    using tmap.append_tree_ok [OF assms(3)] by blast
  ultimately show ?thesis by auto
qed

lemma map_next_past:
  assumes "map_ok m" "stack_fits m"
    and at: "cursor_at map_trait map_key_dim m c (count_below entry_key (Some k) (flatten m))"
    and "find (\<lambda>e. entry_key e = Some k) (flatten m) = Some e"
  shows "cursor_item c = Some (Some e) \<and> (\<exists>c' i'. cursor_next map_key_dim c = Some c' \<and>
     cursor_at map_trait map_key_dim m c' i' \<and> drop i' (flatten m) = items_above entry_key (Some k) (flatten m))"
  using tmap.take_equal [where i = 0 and t = m and c = c and k = "Some k"] assms
  by (auto simp: map_ok_def split: option.splits if_splits)

lemma map_absent:
  assumes "map_ok m" "find (\<lambda>e. entry_key e = Some k) (flatten m) = None"
  shows "drop (count_below entry_key (Some k) (flatten m)) (flatten m) = items_above entry_key (Some k) (flatten m)"
  using sorted_keys_split(2,3) [of entry_key "flatten m" "Some k"] assms by (auto simp: map_ok_def split: if_splits)

lemma map_remove_ok:
  assumes "map_ok m" "stack_fits m"
  shows "\<exists>m'. map_remove m k = Some (m', map_abs m k) \<and> map_ok m' \<and> map_abs m' = (map_abs m)(k := None)"
proof -
  let ?es = "flatten m"
  obtain c r p where c: "cursor_slice map_trait map_key_dim (ord_cmp (Some k)) Left (cursor_new map_key_dim m) = Some (c, r)"
    "cursor_at map_trait map_key_dim m c (count_below entry_key (Some k) ?es)"
    "wf_tree map_trait r" "flatten r = items_below entry_key (Some k) ?es" "cursor_end map_key_dim c = Some p"
    "ord_cmp (Some k) p = Equal \<longleftrightarrow> find (\<lambda>e. entry_key e = Some k) ?es \<noteq> None"
    using map_slice [OF assms] by blast
  have "\<exists>m'. map_remove m k = Some (m', map_abs m k) \<and> wf_tree map_trait m' \<and>
      flatten m' = apply_edit entry_key ?es (Remove (Some k))"
  proof (cases "find (\<lambda>e. entry_key e = Some k) ?es")
    case None
    then show ?thesis
      using c map_finish [OF assms c(3,2)] map_absent [OF assms(1) None]
      by (auto simp: map_remove_def map_abs_def find_entry)
  next
    case (Some e)
    obtain c' i' where c': "cursor_item c = Some (Some e)" "cursor_next map_key_dim c = Some c'"
      "cursor_at map_trait map_key_dim m c' i'" "drop i' ?es = items_above entry_key (Some k) ?es"
      using map_next_past [OF assms c(2) Some] by blast
    then show ?thesis
      using Some c map_finish [OF assms c(3) c'(3)]
      by (auto simp: map_remove_def map_abs_def find_entry)
  qed
  then show ?thesis
    using assms apply_remove_abs [of ?es k] apply_edit_sorted [of entry_key ?es "Remove (Some k)"]
    by (auto simp: map_ok_def map_abs_def simp del: apply_edit.simps)
qed

lemma map_update_ok:
  assumes "map_ok m" "stack_fits m"
  shows "\<exists>m'. map_update m k f = Some (m', map_option (snd \<circ> f) (map_abs m k)) \<and> map_ok m' \<and>
     map_abs m' = (case map_abs m k of Some v \<Rightarrow> (map_abs m)(k \<mapsto> fst (f v)) | None \<Rightarrow> map_abs m)"
proof -
  let ?es = "flatten m"
  have s: "sorted_keys entry_key ?es" using assms by (simp add: map_ok_def)
  obtain c r p where c: "cursor_slice map_trait map_key_dim (ord_cmp (Some k)) Left (cursor_new map_key_dim m) = Some (c, r)"
    "cursor_at map_trait map_key_dim m c (count_below entry_key (Some k) ?es)"
    "wf_tree map_trait r" "flatten r = items_below entry_key (Some k) ?es" "cursor_end map_key_dim c = Some p"
    "ord_cmp (Some k) p = Equal \<longleftrightarrow> find (\<lambda>e. entry_key e = Some k) ?es \<noteq> None"
    using map_slice [OF assms] by blast
  show ?thesis
  proof (cases "find (\<lambda>e. entry_key e = Some k) ?es")
    case None
    have "items_below entry_key (Some k) ?es @ items_above entry_key (Some k) ?es = ?es"
      using sorted_keys_parts [OF s, of "Some k"] None by simp
    then show ?thesis
      using None c map_finish [OF assms c(3,2)] map_absent [OF assms(1) None] s
      by (auto simp: map_update_def map_ok_def map_abs_def find_entry)
  next
    case (Some e)
    let ?e = "e\<lparr>me_value := fst (f (me_value e))\<rparr>"
    have k: "entry_key e = Some k" using Some by (auto simp: find_Some_iff)
    then have key: "me_key e = k" "entry_key ?e = Some k" by (simp_all add: entry_key_def)
    obtain c' i' where c': "cursor_item c = Some (Some e)" "cursor_next map_key_dim c = Some c'"
      "cursor_at map_trait map_key_dim m c' i'" "drop i' ?es = items_above entry_key (Some k) ?es"
      using map_next_past [OF assms c(2) Some] by blast
    obtain r' where r': "push map_trait r ?e = Some r'" "wf_tree map_trait r'"
      "flatten r' = items_below entry_key (Some k) ?es @ [?e]"
      using tmap.push_ok [OF c(3), of ?e] c(4) by auto
    obtain m' where "map_update m k f = Some (m', Some (snd (f (me_value e))))" "wf_tree map_trait m'"
      "flatten m' = apply_edit entry_key ?es (Insert ?e)"
      using Some c c' r' map_finish [OF assms r'(2) c'(3)] key
      by (auto simp: map_update_def Let_def case_prod_beta)
    then show ?thesis
      using Some apply_insert_abs [of ?es ?e] apply_edit_sorted [OF s, of "Insert ?e"] key
      by (auto simp: map_ok_def map_abs_def find_entry simp del: apply_edit.simps)
  qed
qed


section \<open>Ranges and neighbours\<close>

lemma pairs_filter: "filter (\<lambda>(k, v). P k v) (pairs_of es) = pairs_of (filter (\<lambda>e. P (me_key e) (me_value e)) es)"
  by (induction es) auto

text \<open>A target on keys that compares in order: first greater, then equal, then less.\<close>

definition monotone_target :: "('k::linorder \<Rightarrow> ordering) \<Rightarrow> bool" where
  "monotone_target cmp \<longleftrightarrow> (\<forall>j k. j < k \<longrightarrow> rank (cmp k) \<le> rank (cmp j))"

lemma monotone_ord_cmp: "monotone_target (ord_cmp k)"
  by (auto simp: monotone_target_def ord_cmp_def)

lemma monotone_in_child: "monotone_target cmp \<Longrightarrow> j < k \<Longrightarrow> \<not> in_child b (cmp k) \<Longrightarrow> \<not> in_child b (cmp j)"
  by (auto simp: monotone_target_def in_child_rank) (meson le_less_trans)

lemma in_child_left: "in_child Left c \<longleftrightarrow> c \<noteq> Greater"
  by (cases c) (simp_all add: in_child_def)

lemma ord_cmp_map_target: "ord_cmp (Some k) = map_seek_target (ord_cmp k)"
  by (rule ext) (auto simp: map_seek_target_def ord_cmp_def split: option.split)

lemma map_seekable:
  assumes "sorted_keys entry_key es" "monotone_target cmp"
  shows "seekable map_key_dim (map_seek_target cmp) d (map (item_summary map_trait) es)"
  unfolding seekable_def tmap.ends_keys using assms(1)
proof (induction es)
  case (Cons e es)
  then show ?case using assms(2) by (auto simp: map_seek_target_def entry_key_def monotone_target_def)
qed simp

lemma map_seek_split:
  assumes "sorted_keys entry_key es" "monotone_target cmp"
  defines "j \<equiv> \<lambda>b. seek_index map_trait map_key_dim (map_seek_target cmp) b es 0"
  shows "take (j b) es = filter (\<lambda>e. \<not> in_child b (cmp (me_key e))) es"
    and "drop (j b) es = filter (\<lambda>e. in_child b (cmp (me_key e))) es"
proof -
  let ?P = "\<lambda>k. \<not> in_child b (map_seek_target cmp k)"
  have mono: "?P j" if "j < k" "?P k" for j k
    using that monotone_in_child [OF assms(2)]
    by (cases j; cases k) (auto simp: map_seek_target_def in_child_def [of b Greater])
  have j: "j b = length (takeWhile (\<lambda>e. ?P (entry_key e)) es)"
    by (simp add: j_def seek_index_def tmap.target_index_takeWhile)
  have "take (j b) es = takeWhile (\<lambda>e. ?P (entry_key e)) es" by (simp add: j takeWhile_eq_take [symmetric])
  then show "take (j b) es = filter (\<lambda>e. \<not> in_child b (cmp (me_key e))) es"
    using takeWhile_sorted_keys(1) [of entry_key es ?P, OF assms(1) mono]
    by (simp add: map_seek_target_def entry_key_def)
  show "drop (j b) es = filter (\<lambda>e. in_child b (cmp (me_key e))) es"
    using takeWhile_sorted_keys(2) [of entry_key es ?P, OF assms(1) mono]
    by (simp add: j map_seek_target_def entry_key_def)
qed

lemma map_seek_ok:
  assumes "map_ok m" "stack_fits m" "monotone_target cmp" "c_tree c = m"
  shows "\<exists>c' f. cursor_seek map_key_dim (map_seek_target cmp) b c = Some (c', f) \<and>
     cursor_at map_trait map_key_dim m c' (seek_index map_trait map_key_dim (map_seek_target cmp) b (flatten m) 0)"
  using tmap.cursor_seek_ok [of m "map_seek_target cmp" c b] map_seekable [of "flatten m" cmp] assms
  by (auto simp: map_ok_def map_seek_target_def map_key_dim_zero)

lemma map_closest_ok:
  assumes "map_ok m" "stack_fits m"
  shows "map_closest m k = Some (last_opt (filter (\<lambda>(j, _). j \<le> k) (map_entries m)))"
proof -
  let ?es = "flatten m"
  let ?j = "seek_index map_trait map_key_dim (map_seek_target (ord_cmp k)) Right ?es 0"
  have m: "wf_tree map_trait m" "sorted_keys entry_key ?es" using assms by (simp_all add: map_ok_def)
  obtain c f where c: "cursor_seek map_key_dim (map_seek_target (ord_cmp k)) Right (cursor_new map_key_dim m) = Some (c, f)"
    "cursor_at map_trait map_key_dim m c ?j"
    using map_seek_ok [OF assms monotone_ord_cmp cursor_new_tree] by blast
  obtain c' where c': "cursor_prev map_key_dim c = Some c'" "c_did_seek c'"
    "if ?j = 0 then cursor_before map_key_dim m c' else cursor_at map_trait map_key_dim m c' (?j - 1)"
    using tmap.cursor_prev_at [OF m(1) assms(2) c(2)] by blast
  have tk: "take ?j ?es = filter (\<lambda>e. me_key e \<le> k) ?es"
    using map_seek_split(1) [OF m(2) monotone_ord_cmp, where b = Right and k1 = k] by (simp add: in_child_def not_less)
  have "cursor_item c' = Some (last_opt (take ?j ?es))"
  proof (cases "?j = 0")
    case True
    then show ?thesis using c' by (simp add: cursor_before_def cursor_item_def)
  next
    case False
    moreover have "?j \<le> length ?es" by (simp add: seek_index_le)
    ultimately show ?thesis
      using c' cursor_item_at(1) [of map_trait map_key_dim m c' "?j - 1"]
      by (simp add: last_opt_def last_conv_nth get_opt_def min_absorb2)
  qed
  then show ?thesis
    using c(1) c'(1) tk
    by (simp add: map_closest_def ord_cmp_map_target pairs_filter last_opt_def last_map)
qed

lemma map_iter_from_ok:
  assumes "map_ok m" "stack_fits m"
  shows "map_iter_from m k = Some (filter (\<lambda>(j, _). k \<le> j) (map_entries m))"
proof -
  let ?es = "flatten m"
  let ?j = "seek_index map_trait map_key_dim (map_seek_target (ord_cmp k)) Left ?es 0"
  have m: "wf_tree map_trait m" "sorted_keys entry_key ?es" using assms by (simp_all add: map_ok_def)
  obtain c f where c: "cursor_seek map_key_dim (map_seek_target (ord_cmp k)) Left (cursor_new map_key_dim m) = Some (c, f)"
    "cursor_at map_trait map_key_dim m c ?j"
    using map_seek_ok [OF assms monotone_ord_cmp cursor_new_tree] by blast
  have "drop ?j ?es = filter (\<lambda>e. k \<le> me_key e) ?es"
    using map_seek_split(2) [OF m(2) monotone_ord_cmp, where b = Left and k1 = k]
    by (simp add: in_child_def le_less)
  moreover have "cursor_collect map_key_dim (\<lambda>_. True) c = Some (drop ?j ?es)"
    using tmap.cursor_collect_at [OF m(1) assms(2) filter_sound_true c(2)] by (simp split: list.splits)
  ultimately show ?thesis
    using c(1) by (simp add: map_iter_from_def ord_cmp_map_target pairs_filter)
qed


lemma map_remove_range_ok:
  assumes "map_ok m" "stack_fits m" and mono: "monotone_target start" "monotone_target stop"
    and order: "\<And>k. start k = Greater \<Longrightarrow> stop k = Greater"
  shows "\<exists>m'. map_remove_range m start stop = Some m' \<and> map_ok m' \<and>
     map_entries m' = filter (\<lambda>(k, _). \<not> (start k \<noteq> Greater \<and> stop k = Greater)) (map_entries m)"
proof -
  let ?es = "flatten m"
  let ?j = "\<lambda>cmp. seek_index map_trait map_key_dim (map_seek_target cmp) Left ?es 0"
  have m: "wf_tree map_trait m" "sorted_keys entry_key ?es" using assms by (simp_all add: map_ok_def)
  have "tmap.seek_ready m (map_seek_target start) (cursor_new map_key_dim m) 0"
    using m assms(2) map_seekable [OF m(2) mono(1)] tmap.seek_from_new
    by (simp add: map_seek_target_def map_key_dim_zero)
  then obtain c r where c: "cursor_slice map_trait map_key_dim (map_seek_target start) Left (cursor_new map_key_dim m) = Some (c, r)"
    "cursor_at map_trait map_key_dim m c (?j start)" "wf_tree map_trait r" "flatten r = take (?j start) ?es"
    using tmap.cursor_slice_ok [of m "map_seek_target start" "cursor_new map_key_dim m" 0 Left] by auto
  obtain c' f where c': "cursor_seek map_key_dim (map_seek_target stop) Left c = Some (c', f)"
    "cursor_at map_trait map_key_dim m c' (?j stop)"
    using map_seek_ok [OF assms(1,2) mono(2), of c Left] c(2) by (auto simp: cursor_at_def)
  obtain c'' rest m' where fin: "cursor_suffix map_trait map_key_dim c' = Some (c'', rest)"
    "append_tree map_trait r rest = Some m'" "wf_tree map_trait m'" "flatten m' = flatten r @ drop (?j stop) ?es"
    using map_finish [OF assms(1,2) c(3) c'(2)] by blast
  have eq: "flatten m' = filter (\<lambda>e. start (me_key e) = Greater) ?es @ filter (\<lambda>e. stop (me_key e) \<noteq> Greater) ?es"
    using fin(4) c(4) map_seek_split [OF m(2) mono(1), of Left] map_seek_split [OF m(2) mono(2), of Left]
    by (simp add: in_child_left)
  have "filter (\<lambda>e. start (me_key e) = Greater) es @ filter (\<lambda>e. stop (me_key e) \<noteq> Greater) es =
      filter (\<lambda>e. \<not> (start (me_key e) \<noteq> Greater \<and> stop (me_key e) = Greater)) es"
    if "sorted_keys entry_key es" for es
    using that
  proof (induction es)
    case (Cons e es)
    have "start (me_key e') \<noteq> Greater" if "start (me_key e) \<noteq> Greater" "e' \<in> set es" for e'
      using Cons.prems that mono(1) by (cases "start (me_key e)"; cases "start (me_key e')")
        (fastforce simp: monotone_target_def entry_key_def)+
    then show ?case
      using Cons order [of "me_key e"] by (auto simp: filter_empty_conv intro!: filter_cong)
  qed simp
  with eq m(2) have "flatten m' = filter (\<lambda>e. \<not> (start (me_key e) \<noteq> Greater \<and> stop (me_key e) = Greater)) ?es"
    by simp
  then show ?thesis
    using c c' fin m sorted_keys_filter [OF m(2)]
    by (simp add: map_remove_range_def map_ok_def pairs_filter)
qed

section \<open>Whole maps\<close>

lemma retain_loop_ok:
  assumes "map_ok m" "stack_fits m" "cursor_at map_trait map_key_dim m c i" "wf_tree map_trait new"
  shows "\<exists>m'. retain_loop P new c = Some m' \<and> wf_tree map_trait m' \<and>
     flatten m' = flatten new @ filter (\<lambda>e. P (me_key e) (me_value e)) (drop i (flatten m))"
  using assms(3,4)
proof (induction "length (flatten m) - i" arbitrary: i c new)
  case 0
  then show ?case using cursor_item_at(1) [OF 0(2)] by (simp add: retain_loop.simps)
next
  case (Suc n)
  then have i: "i < length (flatten m)" by simp
  let ?e = "flatten m ! i"
  obtain c' where c': "cursor_next map_key_dim c = Some c'" "cursor_at map_trait map_key_dim m c' (Suc i)"
    using tmap.cursor_next_at [OF _ assms(2) Suc.prems(1)] assms(1) i by (auto simp: map_ok_def min_def)
  obtain new' where new': "(if P (me_key ?e) (me_value ?e) then push map_trait new ?e else Some new) = Some new'"
    "wf_tree map_trait new'" "flatten new' = flatten new @ (if P (me_key ?e) (me_value ?e) then [?e] else [])"
    using tmap.push_ok [OF Suc.prems(2), of ?e] Suc.prems(2) by (cases "P (me_key ?e) (me_value ?e)") auto
  have "retain_loop P new c = retain_loop P new' c'"
    using cursor_item_at(1) [OF Suc.prems(1)] i c' new'(1)
    by (subst retain_loop.simps) (simp cong: if_cong)
  moreover have "n = length (flatten m) - Suc i" using Suc.hyps(2) by simp
  ultimately show ?case
    using Suc.hyps(1) [OF _ c'(2) new'(2)] new'(3) i
    by (cases "P (me_key ?e) (me_value ?e)") (simp_all flip: Cons_nth_drop_Suc)
qed

lemma map_retain_ok:
  assumes "map_ok m" "stack_fits m"
  shows "\<exists>m'. map_retain m P = Some m' \<and> map_ok m' \<and> map_entries m' = filter (\<lambda>(k, v). P k v) (map_entries m)"
proof -
  have m: "wf_tree map_trait m" using assms by (simp add: map_ok_def)
  obtain c where c: "cursor_next map_key_dim (cursor_new map_key_dim m) = Some c" "cursor_at map_trait map_key_dim m c 0"
    using tmap.cursor_next_before [OF m assms(2) cursor_new_before [OF m]] by blast
  show ?thesis
    using retain_loop_ok [OF assms c(2), of "new_tree map_trait" P] c(1) assms sorted_keys_filter
    by (auto simp: map_retain_def map_ok_def pairs_filter)
qed

lemma from_ordered_entries_ok:
  assumes "sorted_wrt (<) (map fst entries)"
  shows "\<exists>m. from_ordered_entries entries = Some m \<and> map_ok m \<and> map_entries m = entries"
proof -
  let ?es = "map (\<lambda>(k, v). \<lparr>me_key = k, me_value = v\<rparr>) entries"
  have "sorted_keys entry_key ?es"
    using assms by (induction entries) (auto simp: entry_key_def)
  moreover have "pairs_of ?es = entries" by (induction entries) auto
  ultimately show ?thesis
    using tmap.from_iter_ok [of ?es] by (auto simp: from_ordered_entries_def map_ok_def)
qed

lemma map_iter_ok:
  assumes "map_ok m" "stack_fits m"
  shows "map_iter m = Some (map_entries m)" and "map_values m = Some (map snd (map_entries m))"
  using tmap.iter_collect_ok [of m] assms by (simp_all add: map_ok_def map_iter_def map_values_def comp_def)

lemma map_first_last_ok:
  assumes "map_ok m"
  shows "map_first m = Some (first_opt (map_entries m))" and "map_last m = Some (last_opt (map_entries m))"
proof -
  have m: "wf_tree map_trait m" using assms by (simp add: map_ok_def)
  show "map_first m = Some (first_opt (map_entries m))"
    using tmap.first_item_ok [OF m] by (simp add: map_first_def first_opt_def split: list.split)
  show "map_last m = Some (last_opt (map_entries m))"
    using tmap.last_item_ok [OF m] by (simp add: map_last_def last_opt_def last_map)
qed

lemma distinct_pairs: "sorted_keys entry_key es \<Longrightarrow> distinct (map fst (pairs_of es))"
  by (induction es) (auto simp: entry_key_def)

text \<open>A batch of insertions with distinct keys.\<close>

lemma foldl_insert_abs:
  "map_of (pairs_of (foldl (apply_edit entry_key) es (map Insert ns))) = map_of (pairs_of es) ++ map_of (rev (pairs_of ns))"
proof (induction ns arbitrary: es)
  case (Cons n ns)
  show ?case
    unfolding list.map foldl_Cons Cons.IH apply_insert_abs
    by (rule ext) (auto simp: map_add_def split: option.split)
qed simp

lemma foldl_apply_edit_sorted: "sorted_keys key es \<Longrightarrow> sorted_keys key (foldl (apply_edit key) es xs)"
  by (induction xs arbitrary: es) (simp_all add: apply_edit_sorted del: apply_edit.simps)

lemma map_insert_all_ok:
  assumes "map_ok m" "stack_fits m" "distinct (map fst kvs)"
  shows "\<exists>m' old. edit_tree map_trait map_key_dim entry_key m (map (\<lambda>(k, v). Insert \<lparr>me_key = k, me_value = v\<rparr>) kvs) =
      Some (m', old) \<and> map_ok m' \<and> map_abs m' = map_abs m ++ map_of kvs"
proof -
  let ?ns = "map (\<lambda>(k, v). \<lparr>me_key = k, me_value = v\<rparr>) kvs"
  let ?edits = "map Insert ?ns :: (('a, 'b) map_entry, 'a option) edit list"
  have keys: "map (edit_key entry_key) ?edits = map (Some \<circ> fst) kvs"
    by (auto simp: entry_key_def)
  have "distinct (map (edit_key entry_key) ?edits)"
    unfolding keys using assms(3) by (simp add: distinct_map comp_inj_on_iff [symmetric] inj_on_def)
  then obtain m' where m': "edit_tree map_trait map_key_dim entry_key m ?edits =
      Some (m', filter (\<lambda>x. entry_key x \<in> edit_key entry_key ` set ?edits) (flatten m))" "wf_tree map_trait m'"
    "flatten m' = foldl (apply_edit entry_key) (flatten m) (sort_key (edit_key entry_key) ?edits)"
    using tmap.edit_tree_ok [of m ?edits] assms by (auto simp: map_ok_def map_key_dim_zero)
  have sort: "sort_key (edit_key entry_key) (map Insert ns) = map Insert (sort_key entry_key ns)"
    for ns :: "('a, 'b) map_entry list"
  proof (induction ns)
    case (Cons n ns)
    have "insort_key (edit_key entry_key) (Insert n) (map Insert xs) = map Insert (insort_key entry_key n xs)"
      for xs :: "('a, 'b) map_entry list" by (induction xs) auto
    with Cons show ?case by simp
  qed simp
  let ?sorted = "pairs_of (sort_key entry_key ?ns)"
  have pairs: "pairs_of ?ns = kvs" by (induction kvs) auto
  have "set ?sorted = set (pairs_of ?ns)" by (simp only: set_map set_sort)
  moreover have "distinct (map fst (pairs_of ?ns))" unfolding pairs by (rule assms(3))
  then have "distinct (map fst ?sorted)" by (simp add: distinct_map comp_def del: map_map)
  ultimately have "map_of (rev ?sorted) = map_of kvs"
    unfolding pairs using assms(3) by (subst map_of_inject_set) (simp_all add: rev_map [symmetric])
  then have "map_abs m' = map_abs m ++ map_of kvs"
    by (simp add: map_abs_def m'(3) sort foldl_insert_abs del: map_map)
  moreover have "map_ok m'"
    using m'(2,3) assms foldl_apply_edit_sorted by (auto simp: map_ok_def)
  moreover have "?edits = map (\<lambda>(k, v). Insert \<lparr>me_key = k, me_value = v\<rparr>) kvs" by auto
  ultimately show ?thesis using m'(1) by metis
qed


lemma map_extend_ok:
  assumes "map_ok m" "stack_fits m" "distinct (map fst kvs)"
  shows "\<exists>m'. map_extend m kvs = Some m' \<and> map_ok m' \<and> map_abs m' = map_abs m ++ map_of kvs"
  using map_insert_all_ok [OF assms] by (auto simp: map_extend_def)

lemma map_insert_tree_ok:
  assumes "map_ok m" "stack_fits m" "map_ok n" "stack_fits n"
  shows "\<exists>m'. map_insert_tree m n = Some m' \<and> map_ok m' \<and> map_abs m' = map_abs m ++ map_abs n"
proof -
  have "distinct (map fst (map_entries n))"
    using assms(3) distinct_pairs [of "flatten n"] by (simp add: map_ok_def)
  then show ?thesis
    using map_insert_all_ok [OF assms(1,2), of "map_entries n"] map_iter_ok(1) [OF assms(3,4)]
    by (auto simp: map_insert_tree_def map_abs_def)
qed

text \<open>
  A batch whose keys are not distinct: on an empty map every pair of the batch becomes an entry,
  whether or not its key occurs twice.
\<close>

lemma edit_loop_empty:
  assumes "cursor_at map_trait map_key_dim m (es_cursor st) 0" "flatten m = []"
  shows "edit_loop map_trait map_key_dim entry_key (map Insert es) st =
    Some (st\<lparr>es_buffered := es_buffered st @ es\<rparr>)"
  using assms(1)
proof (induction es arbitrary: st)
  case (Cons e es)
  have "edit_step map_trait map_key_dim entry_key (Insert e) st = Some (st\<lparr>es_buffered := es_buffered st @ [e]\<rparr>)"
    using cursor_item_at(1) [OF Cons.prems] assms(2) by (simp add: edit_step_def)
  then show ?case using Cons.IH [of "st\<lparr>es_buffered := es_buffered st @ [e]\<rparr>"] Cons.prems by simp
qed simp

lemma map_extend_empty:
  assumes "kvs \<noteq> []"
  shows "\<exists>m. map_extend map_new kvs = Some m \<and> map_entries m = sort_key (Some \<circ> fst) kvs"
proof -
  let ?m = "map_new :: ('a, 'b) tree_map"
  let ?ns = "map (\<lambda>(k, v). \<lparr>me_key = k, me_value = v\<rparr>) (sort_key (Some \<circ> fst) kvs)"
  let ?ins = "\<lambda>(k, v). Insert \<lparr>me_key = k, me_value = v\<rparr> :: (('a, 'b) map_entry, 'a option) edit"
  have m: "map_ok ?m" "stack_fits ?m" "flatten ?m = []" by simp_all
  obtain c f where c: "cursor_seek map_key_dim (ord_cmp (dim_zero map_key_dim)) Left (cursor_new map_key_dim ?m) = Some (c, f)"
    "cursor_at map_trait map_key_dim ?m c 0"
    using tmap.cursor_seek_ok [of ?m "ord_cmp (dim_zero map_key_dim)" "cursor_new map_key_dim ?m" Left] m
    by (auto simp: map_ok_def seek_index_def seekable_def)
  have "insort_key (edit_key entry_key) (?ins p) (map ?ins ps) = map ?ins (insort_key (Some \<circ> fst) p ps)" for p ps
    by (cases p, induction ps) (auto simp: entry_key_def)
  then have "sort_key (edit_key entry_key) (map ?ins ps) = map ?ins (sort_key (Some \<circ> fst) ps)" for ps
    by (induction ps) simp_all
  then have sort: "sort_key (edit_key entry_key) (map ?ins kvs) = map Insert ?ns" by auto
  obtain t where t: "extend_tree map_trait (new_tree map_trait) ?ns = Some t" "wf_tree map_trait t" "flatten t = ?ns"
    using tmap.extend_tree_ok [of "new_tree map_trait" ?ns] by auto
  obtain c' rest m' where fin: "cursor_suffix map_trait map_key_dim c = Some (c', rest)"
    "append_tree map_trait t rest = Some m'" "flatten m' = flatten t"
    using map_finish [OF m(1,2) t(2) c(2)] m(3) by auto
  have "pairs_of ?ns = sort_key (Some \<circ> fst) kvs" by (simp add: comp_def case_prod_beta)
  then show ?thesis
    using assms c edit_loop_empty [OF _ m(3), of "\<lparr>es_cursor = c, es_tree = new_tree map_trait, es_buffered = [], es_removed = []\<rparr>" ?ns]
      t(1,3) fin sort
    by (simp add: map_extend_def edit_tree_def)
qed

section \<open>The interface of a map\<close>

text \<open>
  What a client of a map relies on: each operation returns, keeps the invariant and changes the
  abstract map as it says. The laws of a lookup after an update follow.
\<close>

locale map_impl =
  fixes invar :: "'m \<Rightarrow> bool" and fits :: "'m \<Rightarrow> bool" and abs :: "'m \<Rightarrow> 'k \<rightharpoonup> 'v"
    and empty :: 'm
    and lookup :: "'m \<Rightarrow> 'k \<Rightarrow> 'v option"
    and update :: "'m \<Rightarrow> 'k \<Rightarrow> 'v \<Rightarrow> ('m \<times> 'v option) option"
    and delete :: "'m \<Rightarrow> 'k \<Rightarrow> ('m \<times> 'v option) option"
  assumes empty_law: "invar empty" "fits empty" "abs empty = Map.empty"
    and lookup_law: "invar m \<Longrightarrow> lookup m k = abs m k"
    and update_law: "invar m \<Longrightarrow> fits m \<Longrightarrow>
      \<exists>m'. update m k v = Some (m', abs m k) \<and> invar m' \<and> abs m' = (abs m)(k \<mapsto> v)"
    and delete_law: "invar m \<Longrightarrow> fits m \<Longrightarrow>
      \<exists>m'. delete m k = Some (m', abs m k) \<and> invar m' \<and> abs m' = (abs m)(k := None)"
begin

lemma lookup_update:
  assumes "invar m" "fits m"
  shows "\<exists>m'. update m k v = Some (m', lookup m k) \<and> invar m' \<and>
     (\<forall>j. lookup m' j = (if j = k then Some v else lookup m j))"
  using update_law [OF assms, of k v] assms(1) by (auto simp: lookup_law)

lemma lookup_delete:
  assumes "invar m" "fits m"
  shows "\<exists>m'. delete m k = Some (m', lookup m k) \<and> invar m' \<and>
     (\<forall>j. lookup m' j = (if j = k then None else lookup m j))"
  using delete_law [OF assms, of k] assms(1) by (auto simp: lookup_law)

lemma delete_update:
  assumes "invar m" "fits m" "lookup m k = None" "update m k v = Some (m1, old)" "fits m1"
  shows "\<exists>m2. delete m1 k = Some (m2, Some v) \<and> abs m2 = abs m"
proof -
  have 1: "invar m1" "abs m1 = (abs m)(k \<mapsto> v)" using update_law [OF assms(1,2), of k v] assms(4) by auto
  then show ?thesis
    using delete_law [OF 1(1) assms(5), of k] assms(1,3) by (auto simp: lookup_law fun_upd_idem)
qed

end

interpretation tree: map_impl map_ok stack_fits map_abs map_new map_get map_insert_or_replace map_remove
  by unfold_locales (simp_all add: map_abs_empty map_get_ok map_insert_or_replace_ok map_remove_ok)

section \<open>Properties\<close>

text \<open>
  Claim C9. The map is a map: \<^verbatim>\<open>insert_or_replace\<close> returns the old value and afterwards the key
  looks up the new value and every other key what it did; \<^verbatim>\<open>remove\<close> likewise; \<^verbatim>\<open>insert\<close> has the
  same effect as \<^verbatim>\<open>insert_or_replace\<close>.
\<close>

theorem tree_map_is_a_map:
  assumes "map_ok m" "stack_fits m"
  shows "(\<exists>m'. map_insert_or_replace m k v = Some (m', map_get m k) \<and> map_insert m k v = Some m' \<and> map_ok m' \<and>
       (\<forall>j. map_get m' j = (if j = k then Some v else map_get m j))) \<and>
     (\<exists>m'. map_remove m k = Some (m', map_get m k) \<and> map_ok m' \<and>
       (\<forall>j. map_get m' j = (if j = k then None else map_get m j)))"
  using tree.lookup_update [OF assms, of k v] tree.lookup_delete [OF assms, of k]
  by (auto simp: map_insert_eq)

theorem tree_map_is_a_map_witness:
  "\<exists>m' old. map_insert_or_replace (map_new :: (nat, nat) tree_map) 3 5 = Some (m', old) \<and> map_get m' 3 = Some 5"
  using tree_map_is_a_map [of "map_new :: (nat, nat) tree_map" 3 5] by auto

text \<open>
  \<^verbatim>\<open>closest\<close> returns the last entry whose key is at most the given one, if there is one;
  \<^verbatim>\<open>iter_from\<close> yields exactly the entries from the given key on, in order.
\<close>

theorem closest_and_iter_from:
  assumes "map_ok m" "stack_fits m"
  shows "map_closest m k = Some (last_opt (filter (\<lambda>(j, _). j \<le> k) (map_entries m))) \<and>
     map_iter_from m k = Some (filter (\<lambda>(j, _). k \<le> j) (map_entries m))"
  using map_closest_ok [OF assms] map_iter_from_ok [OF assms] by (rule conjI)

definition sample_map :: "(nat, nat) tree_map" where
  "sample_map = mk_leaf map_trait
     [\<lparr>me_key = 1, me_value = 10\<rparr>, \<lparr>me_key = 3, me_value = 30\<rparr>, \<lparr>me_key = 5, me_value = 50\<rparr>]"

lemma sample_map_ok: "map_ok sample_map" "stack_fits sample_map"
  by (simp_all add: sample_map_def map_ok_def wf_tree_def TREE_BASE_def entry_key_def stack_fits_def STACK_CAPACITY_def)

lemma sample_entries: "map_entries sample_map = [(1, 10), (3, 30), (5, 50)]"
  by (simp add: sample_map_def)

theorem closest_and_iter_from_witness:
  "map_closest sample_map 4 = Some (Some (3, 30)) \<and> map_iter_from sample_map 4 = Some [(5, 50)]"
  using closest_and_iter_from [OF sample_map_ok, of 4] unfolding sample_entries by (simp add: last_opt_def)

text \<open>
  \<^verbatim>\<open>remove_range\<close> with targets in order removes exactly the entries from the start target
  (inclusive) to the end target (exclusive), and keeps the others in order.
\<close>

theorem remove_range_removes_exactly:
  assumes "map_ok m" "stack_fits m" "monotone_target start" "monotone_target stop"
    and "\<And>k. start k = Greater \<Longrightarrow> stop k = Greater"
  shows "\<exists>m'. map_remove_range m start stop = Some m' \<and> map_ok m' \<and>
     map_entries m' = filter (\<lambda>(k, _). \<not> (start k \<noteq> Greater \<and> stop k = Greater)) (map_entries m)"
  by (rule map_remove_range_ok [OF assms])

theorem remove_range_removes_exactly_witness:
  "\<exists>m'. map_remove_range sample_map (ord_cmp 3) (ord_cmp 5) = Some m' \<and> map_entries m' = [(1, 10), (5, 50)]"
proof -
  obtain m' where m': "map_remove_range sample_map (ord_cmp 3) (ord_cmp 5) = Some m'"
    "map_entries m' = filter (\<lambda>(k, _). \<not> (ord_cmp 3 k \<noteq> Greater \<and> ord_cmp 5 k = Greater)) (map_entries sample_map)"
    using remove_range_removes_exactly [OF sample_map_ok monotone_ord_cmp monotone_ord_cmp, of 3 5] by auto
  from m'(2) have "map_entries m' = [(1, 10), (5, 50)]" unfolding sample_entries by simp
  with m'(1) show ?thesis by (intro exI conjI)
qed

text \<open>
  \<^verbatim>\<open>update\<close> applies the closure to the value of the key and returns its result, leaving a
  map without the key alone; \<^verbatim>\<open>retain\<close> keeps exactly the entries the predicate accepts.
\<close>

theorem update_and_retain:
  assumes "map_ok m" "stack_fits m"
  shows "(\<exists>m'. map_update m k f = Some (m', map_option (snd \<circ> f) (map_abs m k)) \<and> map_ok m' \<and>
       map_abs m' = (case map_abs m k of Some v \<Rightarrow> (map_abs m)(k \<mapsto> fst (f v)) | None \<Rightarrow> map_abs m)) \<and>
     (\<exists>m'. map_retain m P = Some m' \<and> map_ok m' \<and> map_entries m' = filter (\<lambda>(k, v). P k v) (map_entries m))"
  using map_update_ok [OF assms] map_retain_ok [OF assms] by (rule conjI)

theorem update_and_retain_witness:
  "\<exists>m'. map_retain sample_map (\<lambda>k v. v < 40) = Some m' \<and> map_entries m' = [(1, 10), (3, 30)]"
proof -
  obtain m' where m': "map_retain sample_map (\<lambda>k v. v < 40) = Some m'"
    "map_entries m' = filter (\<lambda>(k, v). v < 40) (map_entries sample_map)"
    using update_and_retain [OF sample_map_ok, of 1 "\<lambda>v. (v, v)" "\<lambda>k v. v < 40"] by blast
  from m'(2) have "map_entries m' = [(1, 10), (3, 30)]" unfolding sample_entries by simp
  with m'(1) show ?thesis by (intro exI conjI)
qed

text \<open>
  \<^verbatim>\<open>extend\<close> with pairs of distinct keys, and \<^verbatim>\<open>insert_tree\<close> of another map, add all the new
  entries to the map, the new ones winning.
\<close>

theorem extend_adds_all:
  assumes "map_ok m" "stack_fits m" "distinct (map fst kvs)" "map_ok n" "stack_fits n"
  shows "(\<exists>m'. map_extend m kvs = Some m' \<and> map_ok m' \<and> map_abs m' = map_abs m ++ map_of kvs) \<and>
     (\<exists>m'. map_insert_tree m n = Some m' \<and> map_ok m' \<and> map_abs m' = map_abs m ++ map_abs n)"
  using map_extend_ok [OF assms(1-3)] map_insert_tree_ok [OF assms(1,2,4,5)] by (rule conjI)

theorem extend_adds_all_witness:
  "\<exists>m'. map_extend (map_new :: (nat, nat) tree_map) [(2, 20), (1, 10)] = Some m' \<and> map_abs m' 1 = Some 10"
  using extend_adds_all [of "map_new :: (nat, nat) tree_map" "[(2, 20), (1, 10)]" map_new]
  by (auto simp: map_abs_empty)

text \<open>
  \<^verbatim>\<open>extend\<close> with a key that occurs twice breaks the map: extending an empty map makes one
  entry of every pair, so that the keys no longer increase and the invariant of the map is lost.
\<close>

theorem extend_keeps_duplicate_keys:
  assumes "\<not> distinct (map fst kvs)"
  shows "\<exists>m. map_extend map_new kvs = Some m \<and> length (map_entries m) = length kvs \<and> \<not> map_ok m"
proof -
  have "kvs \<noteq> []" using assms by auto
  then obtain m where m: "map_extend map_new kvs = Some m" "map_entries m = sort_key (Some \<circ> fst) kvs"
    using map_extend_empty by blast
  have len: "length (map_entries m) = length kvs" by (simp only: m(2) length_sort)
  have "\<not> map_ok m"
  proof
    assume "map_ok m"
    then have "distinct (map fst (map_entries m))" using distinct_pairs [of "flatten m"] by (simp add: map_ok_def)
    then have "distinct (map fst kvs)" unfolding m(2) by (simp add: distinct_map)
    with assms show False ..
  qed
  with m(1) len show ?thesis by blast
qed

theorem extend_keeps_duplicate_keys_witness:
  "\<exists>m. map_extend (map_new :: (nat, nat) tree_map) [(1, 5), (1, 6)] = Some m \<and> length (map_entries m) = 2 \<and> \<not> map_ok m"
  using extend_keeps_duplicate_keys [of "[(1, 5), (1, 6)] :: (nat \<times> nat) list"] by (simp add: numeral_2_eq_2)

end
