(* ===== verification/KeyContext.thy ===== *)
theory KeyContext
  imports Prelude
begin

text \<open>
  Key contexts and the predicates that select them (\<^verbatim>\<open>crates/gpui/src/keymap/context.rs\<close>): the
  context of a component, its textual form, the predicate language with its parser and printer, its
  evaluation on a path of contexts, and \<^verbatim>\<open>is_superset\<close>.

  A \<^verbatim>\<open>SharedString\<close> or \<^verbatim>\<open>&str\<close> is a \<^typ>\<open>string\<close>; its characters are the code points below 256,
  with the character classes the standard library gives them. A \<^verbatim>\<open>Result\<close> is a sum.
\<close>

section \<open>Characters\<close>

definition is_alphanumeric :: "char \<Rightarrow> bool" where
  "is_alphanumeric c =
     (let n = of_char c :: nat
      in 48 \<le> n \<and> n \<le> 57 \<or> 65 \<le> n \<and> n \<le> 90 \<or> 97 \<le> n \<and> n \<le> 122 \<or> n = 170 \<or> n = 178 \<or> n = 179 \<or> n = 181 \<or>
         n = 185 \<or> n = 186 \<or> 188 \<le> n \<and> n \<le> 190 \<or> 192 \<le> n \<and> n \<noteq> 215 \<and> n \<noteq> 247)"

definition is_whitespace :: "char \<Rightarrow> bool" where
  "is_whitespace c = (let n = of_char c :: nat in 9 \<le> n \<and> n \<le> 13 \<or> n = 32 \<or> n = 133 \<or> n = 160)"

definition is_identifier_char :: "char \<Rightarrow> bool" where
  "is_identifier_char c = (is_alphanumeric c \<or> c = CHR ''_'' \<or> c = CHR ''-'')"

definition is_vim_operator_char :: "char \<Rightarrow> bool" where
  "is_vim_operator_char c =
     (c = CHR ''>'' \<or> c = CHR ''<'' \<or> c = CHR ''~'' \<or> c = CHR 0x22 \<or> c = CHR ''?'')"

definition skip_whitespace :: "string \<Rightarrow> string" where
  "skip_whitespace source = dropWhile is_whitespace source"

section \<open>Key contexts\<close>

record context_entry =
  ce_key :: string
  ce_value :: "string option"

type_synonym key_context = "context_entry list"

definition context_contains :: "key_context \<Rightarrow> string \<Rightarrow> bool" where
  "context_contains c key = (\<exists>e \<in> set c. ce_key e = key)"

definition context_get :: "key_context \<Rightarrow> string \<Rightarrow> string option" where
  "context_get c key = do { e \<leftarrow> find (\<lambda>e. ce_key e = key) c; ce_value e }"

definition context_add :: "string \<Rightarrow> key_context \<Rightarrow> key_context" where
  "context_add key c = (if context_contains c key then c else c @ [\<lparr>ce_key = key, ce_value = None\<rparr>])"

definition context_set :: "string \<Rightarrow> string \<Rightarrow> key_context \<Rightarrow> key_context" where
  "context_set key value c =
     (if context_contains c key then c else c @ [\<lparr>ce_key = key, ce_value = Some value\<rparr>])"

definition context_extend :: "key_context \<Rightarrow> key_context \<Rightarrow> key_context" where
  "context_extend c other =
     foldl (\<lambda>c e. if context_contains c (ce_key e) then c else c @ [e]) c other"

definition context_primary :: "key_context \<Rightarrow> context_entry option" where
  "context_primary c = find (\<lambda>e. ce_value e = None) c"

definition context_secondary :: "key_context \<Rightarrow> context_entry list" where
  "context_secondary c = filter (\<lambda>e. Some e \<noteq> context_primary c) c"

datatype target_os = MacOs | Linux | FreeBsd | Windows | OtherOs

definition new_with_defaults :: "target_os \<Rightarrow> key_context" where
  "new_with_defaults os = context_set ''os''
     (case os of MacOs \<Rightarrow> ''macos'' | Linux \<Rightarrow> ''linux'' | FreeBsd \<Rightarrow> ''linux'' | Windows \<Rightarrow> ''windows''
      | OtherOs \<Rightarrow> ''unknown'') []"

text \<open>
  \<^verbatim>\<open>KeyContext::parse_expr\<close> calls itself on the rest of the text, which need not be shorter.
\<close>

partial_function (option) context_parse_expr :: "string \<Rightarrow> key_context \<Rightarrow> key_context option" where
  "context_parse_expr source c =
     (if source = [] then Some c
      else
        (let key = takeWhile is_identifier_char source;
             source1 = skip_whitespace (drop (length key) source)
         in (case source1 of
               [] \<Rightarrow> context_parse_expr source1 (context_add key c)
             | ch # suffix \<Rightarrow>
                 (if ch = CHR ''='' then
                    (let source2 = skip_whitespace suffix;
                         value = takeWhile is_identifier_char source2
                     in context_parse_expr (skip_whitespace (drop (length value) source2)) (context_set key value c))
                  else context_parse_expr source1 (context_add key c)))))"

definition context_parse :: "string \<Rightarrow> key_context option" where
  "context_parse source = context_parse_expr (skip_whitespace source) []"

text \<open>\<^verbatim>\<open>Debug for KeyContext\<close>\<close>

fun context_show :: "key_context \<Rightarrow> string" where
  "context_show [] = ''''"
| "context_show (e # es) =
     (case ce_value e of Some v \<Rightarrow> ce_key e @ ''='' @ v | None \<Rightarrow> ce_key e) @
     (if es = [] then '''' else '' '' @ context_show es)"

section \<open>Predicates\<close>

datatype predicate =
    Identifier string
  | Equal_To string string
  | Not_Equal string string
  | Descendant predicate predicate
  | Not_P predicate
  | And_P predicate predicate
  | Or_P predicate predicate

text \<open>\<^verbatim>\<open>Display\<close>. The chains of \<^verbatim>\<open>&&\<close> and of \<^verbatim>\<open>||\<close> are joined flat, whichever way they nest.\<close>

fun predicate_show :: "predicate \<Rightarrow> string" and show_and :: "bool \<Rightarrow> predicate \<Rightarrow> string"
  and show_or :: "bool \<Rightarrow> predicate \<Rightarrow> string" where
  "predicate_show (Identifier name) = name"
| "predicate_show (Equal_To l r) = l @ '' == '' @ r"
| "predicate_show (Not_Equal l r) = l @ '' != '' @ r"
| "predicate_show (Descendant parent child) = predicate_show parent @ '' > '' @ predicate_show child"
| "predicate_show (Not_P p) =
     (case p of Identifier name \<Rightarrow> ''!'' @ name | _ \<Rightarrow> ''!('' @ predicate_show p @ '')'')"
| "predicate_show (And_P l r) = show_and True l @ show_and False r"
| "predicate_show (Or_P l r) = show_or True l @ show_or False r"
| "show_and first p =
     (case p of
        And_P l r \<Rightarrow> show_and first l @ show_and False r
      | Or_P _ _ \<Rightarrow> (if first then '''' else '' && '') @ ''('' @ predicate_show p @ '')''
      | _ \<Rightarrow> (if first then '''' else '' && '') @ predicate_show p)"
| "show_or first p =
     (case p of
        Or_P l r \<Rightarrow> show_or first l @ show_or False r
      | And_P _ _ \<Rightarrow> (if first then '''' else '' || '') @ ''('' @ predicate_show p @ '')''
      | _ \<Rightarrow> (if first then '''' else '' || '') @ predicate_show p)"

section \<open>Evaluation\<close>

fun eval_inner :: "predicate \<Rightarrow> key_context list \<Rightarrow> key_context list \<Rightarrow> bool" where
  "eval_inner (Identifier name) cs all = (case last_opt cs of None \<Rightarrow> False | Some c \<Rightarrow> context_contains c name)"
| "eval_inner (Equal_To l r) cs all =
     (case last_opt cs of None \<Rightarrow> False | Some c \<Rightarrow>
        (case context_get c l of Some v \<Rightarrow> v = r | None \<Rightarrow> False))"
| "eval_inner (Not_Equal l r) cs all =
     (case last_opt cs of None \<Rightarrow> False | Some c \<Rightarrow>
        (case context_get c l of Some v \<Rightarrow> v \<noteq> r | None \<Rightarrow> True))"
| "eval_inner (Not_P p) cs all =
     (case last_opt cs of None \<Rightarrow> False | Some _ \<Rightarrow>
        list_all (\<lambda>i. \<not> eval_inner p (take (Suc i) all) all) [0..<length all])"
| "eval_inner (Descendant parent child) cs all =
     (case last_opt cs of None \<Rightarrow> False | Some _ \<Rightarrow>
        (case find (\<lambda>i. eval_inner parent (take (Suc i) cs) all) [0..<length cs - 1] of
           Some i \<Rightarrow> eval_inner child (drop (Suc i) cs) (drop (Suc i) cs)
         | None \<Rightarrow> False))"
| "eval_inner (And_P l r) cs all =
     (case last_opt cs of None \<Rightarrow> False | Some _ \<Rightarrow> eval_inner l cs all \<and> eval_inner r cs all)"
| "eval_inner (Or_P l r) cs all =
     (case last_opt cs of None \<Rightarrow> False | Some _ \<Rightarrow> eval_inner l cs all \<or> eval_inner r cs all)"

definition eval_predicate :: "predicate \<Rightarrow> key_context list \<Rightarrow> bool" where
  "eval_predicate p cs = eval_inner p cs cs"

definition depth_of :: "predicate \<Rightarrow> key_context list \<Rightarrow> nat option" where
  "depth_of p cs = find (\<lambda>depth. eval_inner p (take depth cs) cs) (rev [0..<Suc (length cs)])"

fun is_superset :: "predicate \<Rightarrow> predicate \<Rightarrow> bool" where
  "is_superset self other =
     (if self = other then True
      else (case self of
              Or_P l r \<Rightarrow> is_superset l other \<or> is_superset r other
            | _ \<Rightarrow> (case other of
                      Descendant _ child \<Rightarrow> is_superset self child
                    | And_P l r \<Rightarrow> is_superset self l \<or> is_superset self r
                    | _ \<Rightarrow> False)))"

declare is_superset.simps [simp del]

section \<open>Parsing\<close>

datatype parse_error =
    Unexpected_End
  | Unexpected_Char char
  | Expected_Paren
  | Operands_Of_Eq
  | Operands_Of_Neq

datatype operator = Op_Child | Op_And | Op_Or | Op_Eq | Op_Neq

fun op_text :: "operator \<Rightarrow> string" where
  "op_text Op_Child = ''>''"
| "op_text Op_And = ''&&''"
| "op_text Op_Or = ''||''"
| "op_text Op_Eq = ''==''"
| "op_text Op_Neq = ''!=''"

fun precedence :: "operator \<Rightarrow> nat" where
  "precedence Op_Child = 1"
| "precedence Op_Or = 2"
| "precedence Op_And = 3"
| "precedence Op_Eq = 4"
| "precedence Op_Neq = 4"

definition PRECEDENCE_NOT :: nat where
  "PRECEDENCE_NOT = 5"

fun construct :: "operator \<Rightarrow> predicate \<Rightarrow> predicate \<Rightarrow> parse_error + predicate" where
  "construct Op_Child p q = Inr (Descendant p q)"
| "construct Op_And p q = Inr (And_P p q)"
| "construct Op_Or p q = Inr (Or_P p q)"
| "construct Op_Eq p q = (case (p, q) of (Identifier l, Identifier r) \<Rightarrow> Inr (Equal_To l r) | _ \<Rightarrow> Inl Operands_Of_Eq)"
| "construct Op_Neq p q = (case (p, q) of (Identifier l, Identifier r) \<Rightarrow> Inr (Not_Equal l r) | _ \<Rightarrow> Inl Operands_Of_Neq)"

text \<open>\<^verbatim>\<open>source.starts_with(operator)\<close>\<close>

fun starts_with :: "string \<Rightarrow> string \<Rightarrow> bool" where
  "starts_with source [] = True"
| "starts_with [] (c # cs) = False"
| "starts_with (d # ds) (c # cs) = (c = d \<and> starts_with ds cs)"

text \<open>The \<^verbatim>\<open>for\<close> loop over the operators: the first that the text starts with and that binds tightly enough.\<close>

definition find_operator :: "string \<Rightarrow> nat \<Rightarrow> operator option" where
  "find_operator source min_precedence =
     find (\<lambda>op. starts_with source (op_text op) \<and> min_precedence \<le> precedence op)
       [Op_Child, Op_And, Op_Or, Op_Eq, Op_Neq]"

lemma length_skip_whitespace: "length (skip_whitespace s) \<le> length s"
  by (simp add: skip_whitespace_def length_dropWhile_le)

lemma length_skip_drop: "length (skip_whitespace (drop n s)) \<le> length s"
  by (rule order_trans [OF length_skip_whitespace]) simp

lemma find_operator_starts: "find_operator s m = Some op \<Longrightarrow> starts_with s (op_text op)"
  by (auto simp: find_operator_def split: if_splits)

lemma starts_with_length: "starts_with s t \<Longrightarrow> length t \<le> length s"
  by (induction s t rule: starts_with.induct) auto

lemma op_text_length: "0 < length (op_text op)"
  by (cases op) simp_all

lemma after_operator_shorter:
  assumes "find_operator s m = Some op"
  shows "length (skip_whitespace (drop (length (op_text op)) s)) < length s"
proof -
  have "length (op_text op) \<le> length s" using assms find_operator_starts starts_with_length by blast
  then show ?thesis
    using length_skip_whitespace [of "drop (length (op_text op)) s"] length_drop [of "length (op_text op)" s] op_text_length [of op] by linarith
qed

text \<open>
  \<^verbatim>\<open>parse_expr\<close> with its loop as \<open>parse_ops\<close>, and \<^verbatim>\<open>parse_primary\<close>. The parsers return the
  predicate and the text that is left.
\<close>

function (sequential) parse_expr :: "string \<Rightarrow> nat \<Rightarrow> parse_error + predicate \<times> string"
  and parse_primary :: "string \<Rightarrow> parse_error + predicate \<times> string"
  and parse_ops :: "predicate \<Rightarrow> string \<Rightarrow> nat \<Rightarrow> parse_error + predicate \<times> string" where
  "parse_expr source min_precedence =
     (case parse_primary source of
        Inl e \<Rightarrow> Inl e
      | Inr (p, rest) \<Rightarrow> parse_ops p rest min_precedence)"
| "parse_primary [] = Inl Unexpected_End"
| "parse_primary (c # cs) =
     (if c = CHR ''('' then
        (case parse_expr (skip_whitespace cs) 0 of
           Inl e \<Rightarrow> Inl e
         | Inr (p, rest) \<Rightarrow>
             (case rest of
                d # ds \<Rightarrow> (if d = CHR '')'' then Inr (p, skip_whitespace ds) else Inl Expected_Paren)
              | [] \<Rightarrow> Inl Expected_Paren))
      else if c = CHR ''!'' then
        (case parse_expr (skip_whitespace cs) PRECEDENCE_NOT of
           Inl e \<Rightarrow> Inl e
         | Inr (p, rest) \<Rightarrow> Inr (Not_P p, rest))
      else if is_identifier_char c then
        (let identifier = takeWhile (\<lambda>c. is_identifier_char c \<or> is_vim_operator_char c) (c # cs)
         in Inr (Identifier identifier, skip_whitespace (drop (length identifier) (c # cs))))
      else if is_vim_operator_char c then Inr (Identifier [c], skip_whitespace cs)
      else Inl (Unexpected_Char c))"
| "parse_ops p source min_precedence =
     (case find_operator source min_precedence of
        None \<Rightarrow> Inr (p, source)
      | Some op \<Rightarrow>
          (case parse_expr (skip_whitespace (drop (length (op_text op)) source)) (precedence op + 1) of
             Inl e \<Rightarrow> Inl e
           | Inr (q, rest) \<Rightarrow>
               (case construct op p q of
                  Inl e \<Rightarrow> Inl e
                | Inr r \<Rightarrow> parse_ops r rest min_precedence)))"
  by pat_completeness auto

abbreviation expr_dom :: "string \<Rightarrow> nat \<Rightarrow> bool" where
  "expr_dom s m \<equiv> parse_expr_parse_primary_parse_ops_dom (Inl (s, m))"

abbreviation primary_dom :: "string \<Rightarrow> bool" where
  "primary_dom s \<equiv> parse_expr_parse_primary_parse_ops_dom (Inr (Inl s))"

abbreviation ops_dom :: "predicate \<Rightarrow> string \<Rightarrow> nat \<Rightarrow> bool" where
  "ops_dom q s m \<equiv> parse_expr_parse_primary_parse_ops_dom (Inr (Inr (q, s, m)))"

lemma parse_shorter:
  "expr_dom s m \<Longrightarrow> (\<And>p rest. parse_expr s m = Inr (p, rest) \<Longrightarrow> length rest < length s)"
  "primary_dom s \<Longrightarrow> (\<And>p rest. parse_primary s = Inr (p, rest) \<Longrightarrow> length rest < length s)"
  "ops_dom q s m \<Longrightarrow> (\<And>p rest. parse_ops q s m = Inr (p, rest) \<Longrightarrow> length rest \<le> length s)"
proof (induction s m and s and q s m rule: parse_expr_parse_primary_parse_ops.pinduct)
  case (1 source min_precedence)
  from "1.prems" obtain p' rest' where 0: "parse_primary source = Inr (p', rest')" "parse_ops p' rest' min_precedence = Inr (p, rest)"
    by (auto simp: parse_expr.psimps [OF "1.hyps"] split: sum.splits)
  then show ?case using "1.IH"(1) [of p' rest'] "1.IH"(2) [of "(p', rest')" p' rest'] by fastforce
next
  case 2
  then show ?case by (simp add: parse_primary.psimps)
next
  case (3 c cs)
  have ws: "length (skip_whitespace cs) \<le> length cs" by (rule length_skip_whitespace)
  note prems = "3.prems" [unfolded parse_primary.psimps(2) [OF "3.hyps"]]
  consider "c = CHR ''(''" | "c = CHR ''!''" | "c \<noteq> CHR ''(''" "c \<noteq> CHR ''!''" by blast
  then show ?case
  proof cases
    case 1
    with prems obtain p' ds where "parse_expr (skip_whitespace cs) 0 = Inr (p', CHR '')'' # ds)" "rest = skip_whitespace ds"
      by (auto split: sum.splits list.splits if_splits)
    then show ?thesis using "3.IH"(1) [OF 1] ws length_skip_whitespace [of ds] by fastforce
  next
    case 2
    with prems obtain p' where "parse_expr (skip_whitespace cs) PRECEDENCE_NOT = Inr (p', rest)"
      by (auto split: sum.splits)
    then show ?thesis using "3.IH"(2) 2 ws by fastforce
  next
    case 3
    then show ?thesis
      using prems ws length_skip_drop by (auto simp: Let_def less_Suc_eq_le split: if_splits)
  qed
next
  case (4 q source min_precedence)
  show ?case
  proof (cases "find_operator source min_precedence")
    case None
    then show ?thesis using "4.prems" by (simp add: parse_ops.psimps [OF "4.hyps"])
  next
    case (Some op)
    from "4.prems" Some obtain q' rest' r where
      1: "parse_expr (skip_whitespace (drop (length (op_text op)) source)) (precedence op + 1) = Inr (q', rest')"
        "construct op q q' = Inr r" "parse_ops r rest' min_precedence = Inr (p, rest)"
      by (auto simp: parse_ops.psimps [OF "4.hyps"] split: sum.splits)
    then show ?thesis
      using "4.IH"(1) [OF Some 1(1)] "4.IH"(2) [OF Some 1(1) _ 1(2,3)] after_operator_shorter [OF Some] by fastforce
  qed
qed

lemma parse_total: "All parse_expr_parse_primary_parse_ops_dom"
  by (relation "measure (\<lambda>x. case x of Inl (s, m) \<Rightarrow> 2 * length s + 1 | Inr (Inl s) \<Rightarrow> 2 * length s
           | Inr (Inr (q, s, m)) \<Rightarrow> 2 * length s)")
    (use length_skip_whitespace after_operator_shorter parse_shorter in \<open>fastforce simp: less_Suc_eq_le\<close>)+

termination parse_expr
  by (rule parse_total)

declare parse_expr.simps [simp del] parse_primary.simps [simp del] parse_ops.simps [simp del]

definition predicate_parse :: "string \<Rightarrow> parse_error + predicate" where
  "predicate_parse source =
     (case parse_expr (skip_whitespace source) 0 of
        Inl e \<Rightarrow> Inl e
      | Inr (p, rest) \<Rightarrow> (case rest of next # _ \<Rightarrow> Inl (Unexpected_Char next) | [] \<Rightarrow> Inr p))"

section \<open>The printed form parses back\<close>

definition valid_identifier :: "string \<Rightarrow> bool" where
  "valid_identifier name =
     (case name of
        [] \<Rightarrow> False
      | c # cs \<Rightarrow> is_identifier_char c \<and> list_all (\<lambda>c. is_identifier_char c \<or> is_vim_operator_char c) cs \<or>
          is_vim_operator_char c \<and> cs = [])"

fun level :: "predicate \<Rightarrow> nat" where
  "level (Descendant _ _) = 1"
| "level (Or_P _ _) = 2"
| "level (And_P _ _) = 3"
| "level (Equal_To _ _) = 4"
| "level (Not_Equal _ _) = 4"
| "level (Identifier _) = 5"
| "level (Not_P _) = 5"

text \<open>
  Predicates whose printed form determines them: chains nest to the left, and \<^verbatim>\<open>>\<close> does not stand
  under \<^verbatim>\<open>&&\<close>, \<^verbatim>\<open>||\<close> or on the right of another \<^verbatim>\<open>>\<close>.
\<close>

fun canonical :: "predicate \<Rightarrow> bool" where
  "canonical (Identifier name) = valid_identifier name"
| "canonical (Equal_To l r) = (valid_identifier l \<and> valid_identifier r)"
| "canonical (Not_Equal l r) = (valid_identifier l \<and> valid_identifier r)"
| "canonical (Descendant p q) = (canonical p \<and> canonical q \<and> level q \<noteq> 1)"
| "canonical (Not_P p) = canonical p"
| "canonical (And_P l r) = (canonical l \<and> canonical r \<and> level l \<noteq> 1 \<and> level r \<noteq> 1 \<and> level r \<noteq> 3)"
| "canonical (Or_P l r) = (canonical l \<and> canonical r \<and> level l \<noteq> 1 \<and> level r \<noteq> 1 \<and> level r \<noteq> 2)"

lemma char_facts [simp]:
  "is_whitespace CHR '' ''" "\<not> is_whitespace CHR '')''" "\<not> is_whitespace CHR ''(''" "\<not> is_whitespace CHR ''!''"
  "\<not> is_whitespace CHR ''>''" "\<not> is_whitespace CHR ''&''" "\<not> is_whitespace CHR ''|''" "\<not> is_whitespace CHR ''=''"
  "\<not> is_identifier_char CHR '' ''" "\<not> is_identifier_char CHR '')''" "\<not> is_identifier_char CHR ''(''"
  "\<not> is_identifier_char CHR ''!''" "\<not> is_vim_operator_char CHR '' ''" "\<not> is_vim_operator_char CHR '')''"
  "\<not> is_vim_operator_char CHR ''(''" "\<not> is_vim_operator_char CHR ''!''"
  by code_simp+

lemma identifier_not_whitespace:
  "is_identifier_char c \<Longrightarrow> \<not> is_whitespace c" "is_vim_operator_char c \<Longrightarrow> \<not> is_whitespace c"
  by (auto simp: is_identifier_char_def is_alphanumeric_def is_whitespace_def is_vim_operator_char_def Let_def)

lemma skip_whitespace_simps [simp]:
  "skip_whitespace [] = []"
  "is_whitespace c \<Longrightarrow> skip_whitespace (c # cs) = skip_whitespace cs"
  "\<not> is_whitespace c \<Longrightarrow> skip_whitespace (c # cs) = c # cs"
  by (simp_all add: skip_whitespace_def)

text \<open>Text after which an identifier ends.\<close>

definition stops :: "string \<Rightarrow> bool" where
  "stops rest = (case rest of [] \<Rightarrow> True | c # _ \<Rightarrow> \<not> is_identifier_char c \<and> \<not> is_vim_operator_char c)"

lemma stops_simps [simp]: "stops []" "stops (CHR '' '' # cs)" "stops (CHR '')'' # cs)"
  by (simp_all add: stops_def)

lemma takeWhile_stops:
  "list_all P xs \<Longrightarrow> (case rest of [] \<Rightarrow> True | c # _ \<Rightarrow> \<not> P c) \<Longrightarrow> takeWhile P (xs @ rest) = xs"
  by (induction xs) (auto split: list.splits)

lemma parse_identifier:
  assumes "valid_identifier name" "stops rest"
  shows "parse_primary (name @ rest) = Inr (Identifier name, skip_whitespace rest)"
proof -
  obtain c cs where name: "name = c # cs" using assms(1) by (cases name) (simp_all add: valid_identifier_def)
  have c: "c \<noteq> CHR ''(''" "c \<noteq> CHR ''!''"
    using assms(1) name by (auto simp: valid_identifier_def)
  show ?thesis
  proof (cases "is_identifier_char c")
    case True
    then have "list_all (\<lambda>c. is_identifier_char c \<or> is_vim_operator_char c) cs"
      using assms(1) name by (auto simp: valid_identifier_def)
    then have "takeWhile (\<lambda>c. is_identifier_char c \<or> is_vim_operator_char c) (cs @ rest) = cs"
      using assms(2) by (intro takeWhile_stops) (auto simp: stops_def split: list.splits)
    then show ?thesis using True c name by (simp add: parse_primary.simps Let_def)
  next
    case False
    then show ?thesis using assms(1) c name by (auto simp: parse_primary.simps valid_identifier_def)
  qed
qed

text \<open>No operator that binds tighter than \<open>k\<close> follows.\<close>

definition loose :: "nat \<Rightarrow> string \<Rightarrow> bool" where
  "loose k rest \<longleftrightarrow> find_operator (skip_whitespace rest) (Suc k) = None"

lemma precedence_le: "precedence op \<le> 4"
  by (cases op) simp_all

lemma find_operator_None:
  "find_operator s m = None \<longleftrightarrow> (\<forall>op. starts_with s (op_text op) \<longrightarrow> precedence op < m)"
proof -
  have "op \<in> set [Op_Child, Op_And, Op_Or, Op_Eq, Op_Neq]" for op by (cases op) simp_all
  then show ?thesis unfolding find_operator_def find_None_iff by (meson not_less)
qed

lemma loose_4: "4 \<le> k \<Longrightarrow> loose k rest"
  using precedence_le by (auto simp: loose_def find_operator_None intro: le_less_trans)

lemma find_operator_mono: "find_operator s m = None \<Longrightarrow> m \<le> k \<Longrightarrow> find_operator s k = None"
  unfolding find_operator_None by (meson less_le_trans)

lemma loose_mono: "loose j rest \<Longrightarrow> j \<le> k \<Longrightarrow> loose k rest"
  unfolding loose_def by (erule find_operator_mono) simp

lemma parse_ops_stop: "find_operator s m = None \<Longrightarrow> parse_ops p s m = Inr (p, s)"
  by (simp add: parse_ops.simps)

lemma parse_ops_loose: "loose k rest \<Longrightarrow> k < m \<Longrightarrow> parse_ops p (skip_whitespace rest) m = Inr (p, skip_whitespace rest)"
  using find_operator_mono [of "skip_whitespace rest" "Suc k" m] by (simp add: loose_def parse_ops_stop)

lemma operator_found:
  "find_operator (CHR ''>'' # s) m = (if m \<le> 1 then Some Op_Child else None)"
  "find_operator (CHR ''&'' # CHR ''&'' # s) m = (if m \<le> 3 then Some Op_And else None)"
  "find_operator (CHR ''|'' # CHR ''|'' # s) m = (if m \<le> 2 then Some Op_Or else None)"
  "find_operator (CHR ''='' # CHR ''='' # s) m = (if m \<le> 4 then Some Op_Eq else None)"
  "find_operator (CHR ''!'' # CHR ''='' # s) m = (if m \<le> 4 then Some Op_Neq else None)"
  "find_operator (CHR '')'' # s) m = None"
  "find_operator [] m = None"
  by (simp_all add: find_operator_def)

lemma loose_simps:
  "loose k [] " "loose k (CHR '')'' # s)"
  "loose k (CHR '' '' # CHR ''>'' # s) \<longleftrightarrow> 1 \<le> k"
  "loose k (CHR '' '' # CHR ''&'' # CHR ''&'' # s) \<longleftrightarrow> 3 \<le> k"
  "loose k (CHR '' '' # CHR ''|'' # CHR ''|'' # s) \<longleftrightarrow> 2 \<le> k"
  by (auto simp: loose_def operator_found)

lemma valid_identifier_starts: "valid_identifier name \<Longrightarrow> skip_whitespace (name @ s) = name @ s"
  by (cases name) (auto simp: valid_identifier_def identifier_not_whitespace)

text \<open>An operand of \<^verbatim>\<open>&&\<close> or \<^verbatim>\<open>||\<close> as printed: in parentheses when it is of the other kind.\<close>

definition paren :: "bool \<Rightarrow> string \<Rightarrow> string" where
  "paren b s = (if b then ''('' @ s @ '')'' else s)"

lemma show_and_operand:
  "show_and True p = paren (level p = 2) (predicate_show p)"
  "level p \<noteq> 3 \<Longrightarrow> show_and False p = '' && '' @ paren (level p = 2) (predicate_show p)"
  by (cases p; simp add: paren_def)+

lemma show_or_operand:
  "show_or True p = paren (level p = 3) (predicate_show p)"
  "level p \<noteq> 2 \<Longrightarrow> show_or False p = '' || '' @ paren (level p = 3) (predicate_show p)"
  by (cases p; simp add: paren_def)+

declare show_and.simps [simp del] show_or.simps [simp del]

lemmas show_chain = show_and_operand show_or_operand

lemma show_starts: "canonical p \<Longrightarrow> skip_whitespace (predicate_show p @ s) = predicate_show p @ s"
proof (induction p arbitrary: s)
  case (Not_P p)
  then show ?case by (cases p) simp_all
qed (simp_all add: valid_identifier_starts show_chain paren_def)

lemma paren_starts: "canonical p \<Longrightarrow> skip_whitespace (paren b (predicate_show p) @ s) = paren b (predicate_show p) @ s"
  by (simp add: paren_def show_starts)

definition parses_back :: "predicate \<Rightarrow> bool" where
  "parses_back p \<longleftrightarrow> (\<forall>rest m. stops rest \<longrightarrow> loose (level p) rest \<longrightarrow> m \<le> level p \<longrightarrow>
     parse_expr (predicate_show p @ rest) m = parse_ops p (skip_whitespace rest) m)"

lemma parse_operand:
  assumes "canonical p" "parses_back p" "stops rest" "b \<or> loose (level p) rest \<and> m \<le> level p"
  shows "parse_expr (paren b (predicate_show p) @ rest) m = parse_ops p (skip_whitespace rest) m"
proof (cases b)
  case True
  have "parse_expr (predicate_show p @ CHR '')'' # rest) 0 = Inr (p, CHR '')'' # rest)"
    using assms(2) by (simp add: parses_back_def loose_simps parse_ops_stop operator_found)
  then show ?thesis
    using True show_starts [OF assms(1)] by (simp add: paren_def parse_expr.simps [of _ m] parse_primary.simps)
next
  case False
  then show ?thesis using assms by (simp add: paren_def parses_back_def)
qed

text \<open>An operator and its right operand.\<close>

lemma parse_operator:
  assumes "canonical q" "parses_back q" "stops rest" "loose (precedence op) rest"
    and "b \<or> precedence op < level q" "find_operator (op_text op @ CHR '' '' # s) m = Some op"
    and "construct op p q = Inr r" "s = paren b (predicate_show q) @ rest"
  shows "parse_ops p (op_text op @ CHR '' '' # s) m = parse_ops r (skip_whitespace rest) m"
proof -
  have "b \<or> loose (level q) rest \<and> precedence op + 1 \<le> level q"
    using assms(4,5) loose_mono [of "precedence op" rest "level q"] by auto
  then have "parse_expr s (precedence op + 1) = Inr (q, skip_whitespace rest)"
    unfolding assms(8) parse_operand [OF assms(1-3)]
    using parse_ops_loose [OF assms(4)] by (simp add: parse_operand [OF assms(1-3)])
  moreover have "skip_whitespace (CHR '' '' # s) = s"
    using paren_starts [OF assms(1)] assms(8) by simp
  ultimately show ?thesis
    using assms(6,7) by (simp add: parse_ops.simps [of p])
qed

lemma identifier_parses_back: "valid_identifier name \<Longrightarrow> parses_back (Identifier name)"
  by (simp add: parses_back_def parse_expr.simps parse_identifier)

lemma operator_after_space:
  "skip_whitespace (CHR '' '' # op_text op @ t) = op_text op @ t"
  "loose k (CHR '' '' # op_text op @ t) \<longleftrightarrow> precedence op \<le> k"
  "m \<le> precedence op \<Longrightarrow> find_operator (op_text op @ t) m = Some op"
  by (cases op; auto simp: loose_def operator_found)+

lemma binary_parses_back:
  assumes left: "\<And>t m. m \<le> precedence op \<Longrightarrow>
      parse_expr (lt @ CHR '' '' # op_text op @ t) m = parse_ops p (op_text op @ t) m"
    and q: "canonical q" "parses_back q" "b \<or> precedence op < level q"
    and r: "construct op p q = Inr r" "level r = precedence op"
      "predicate_show r = lt @ CHR '' '' # op_text op @ CHR '' '' # paren b (predicate_show q)"
  shows "parses_back r"
  unfolding parses_back_def
proof (intro allI impI)
  fix rest m
  assume rest: "stops rest" "loose (level r) rest" "m \<le> level r"
  let ?s = "paren b (predicate_show q) @ rest"
  have "parse_expr (predicate_show r @ rest) m = parse_ops p (op_text op @ CHR '' '' # ?s) m"
    using left [of m "CHR '' '' # ?s"] rest(3) r(2,3) by simp
  also have "\<dots> = parse_ops r (skip_whitespace rest) m"
    using parse_operator [OF q(1,2) rest(1) _ q(3) _ r(1) refl, of m] rest r(2) operator_after_space(3) by simp
  finally show "parse_expr (predicate_show r @ rest) m = parse_ops r (skip_whitespace rest) m" .
qed

lemma left_identifier:
  "valid_identifier l \<Longrightarrow> parse_expr (l @ CHR '' '' # op_text op @ t) m = parse_ops (Identifier l) (op_text op @ t) m"
  by (simp add: parse_expr.simps parse_identifier operator_after_space)

lemma left_operand:
  assumes "canonical p" "parses_back p" "b \<or> precedence op \<le> level p" "m \<le> precedence op"
  shows "parse_expr (paren b (predicate_show p) @ CHR '' '' # op_text op @ t) m = parse_ops p (op_text op @ t) m"
proof -
  have "b \<or> loose (level p) (CHR '' '' # op_text op @ t) \<and> m \<le> level p"
    using assms(3,4) by (auto simp: operator_after_space)
  from parse_operand [OF assms(1,2) _ this] show ?thesis by (simp add: operator_after_space)
qed

lemma canonical_parses_back: "canonical p \<Longrightarrow> parses_back p"
proof (induction p)
  case (Identifier name)
  then show ?case by (simp add: identifier_parses_back)
next
  case (Equal_To l r)
  then show ?case
    using binary_parses_back [where op = Op_Eq and p = "Identifier l" and q = "Identifier r" and b = False and lt = l]
      left_identifier [of l Op_Eq] identifier_parses_back by (simp add: paren_def)
next
  case (Not_Equal l r)
  then show ?case
    using binary_parses_back [where op = Op_Neq and p = "Identifier l" and q = "Identifier r" and b = False and lt = l]
      left_identifier [of l Op_Neq] identifier_parses_back by (simp add: paren_def)
next
  case (Descendant p q)
  moreover have "1 < level q" using Descendant.prems by (cases q) simp_all
  moreover have "1 \<le> level p" by (cases p) simp_all
  ultimately show ?case
    using binary_parses_back [where op = Op_Child and p = p and q = q and b = False and lt = "predicate_show p"]
      left_operand [of p False Op_Child] by (simp add: paren_def)
next
  case (Not_P p)
  have "parse_expr (paren (level p \<noteq> 5 \<or> (\<exists>q. p = Not_P q)) (predicate_show p) @ rest) 5 = Inr (p, skip_whitespace rest)"
    if "stops rest" for rest
    using parse_operand [of p rest _ 5] Not_P that loose_4 [of 5 rest] parse_ops_loose [of 4 rest 5] loose_4 [of 4 rest]
    by (cases p) simp_all
  moreover have "predicate_show (Not_P p) = CHR ''!'' # paren (level p \<noteq> 5 \<or> (\<exists>q. p = Not_P q)) (predicate_show p)"
    by (cases p) (simp_all add: paren_def)
  ultimately show ?case
    using Not_P.prems paren_starts [of p]
    by (simp add: parses_back_def parse_expr.simps [of "_ # _"] parse_primary.simps PRECEDENCE_NOT_def)
next
  case (And_P l r)
  moreover have "level r = 2 \<or> 3 < level r" "level l = 2 \<or> 3 \<le> level l"
    using And_P.prems by (cases r; simp) (use And_P.prems in \<open>cases l; simp\<close>)
  ultimately show ?case
    using binary_parses_back [where op = Op_And and p = l and q = r and b = "level r = 2" and
        lt = "paren (level l = 2) (predicate_show l)"] left_operand [of l "level l = 2" Op_And]
    by (simp add: show_chain)
next
  case (Or_P l r)
  moreover have "level r = 3 \<or> 2 < level r" "level l = 3 \<or> 2 \<le> level l"
    using Or_P.prems by (cases r; simp) (use Or_P.prems in \<open>cases l; simp\<close>)
  ultimately show ?case
    using binary_parses_back [where op = Op_Or and p = l and q = r and b = "level r = 3" and
        lt = "paren (level l = 3) (predicate_show l)"] left_operand [of l "level l = 3" Op_Or]
    by (simp add: show_chain)
qed

lemma parse_show:
  assumes "canonical p"
  shows "predicate_parse (predicate_show p) = Inr p"
proof -
  have "parse_expr (predicate_show p @ []) 0 = Inr (p, [])"
    using canonical_parses_back [OF assms, unfolded parses_back_def, rule_format, of "[]" 0]
    by (simp add: loose_simps parse_ops_stop operator_found)
  then show ?thesis
    using show_starts [OF assms, of "[]"] by (simp add: predicate_parse_def)
qed

text \<open>
  Without an opening parenthesis in the text the parser builds a canonical predicate: the operand on the right of an operator binds
  tighter than the operator, and the operators of a chain come in the order of their precedence, loosest last.
\<close>

definition above :: "nat \<Rightarrow> string \<Rightarrow> bool" where
  "above k rest \<longleftrightarrow> (\<forall>op. starts_with rest (op_text op) \<longrightarrow> precedence op \<le> k)"

definition builds :: "nat \<Rightarrow> string \<Rightarrow> predicate \<Rightarrow> string \<Rightarrow> bool" where
  "builds m source p rest \<longleftrightarrow> canonical p \<and> m \<le> level p \<and> find_operator rest m = None \<and> set rest \<subseteq> set source"

lemma above_loose: "find_operator rest (Suc k) = None \<Longrightarrow> above k rest"
  by (auto simp: find_operator_None above_def less_Suc_eq_le)

lemma above_4: "4 \<le> k \<Longrightarrow> above k rest"
  using precedence_le order_trans by (auto simp: above_def)

lemma set_skip_whitespace: "set (skip_whitespace s) \<subseteq> set s"
  by (auto simp: skip_whitespace_def dest: set_dropWhileD)

lemma set_skip_drop: "set (skip_whitespace (drop n s)) \<subseteq> set s"
  using set_skip_whitespace set_drop_subset by (rule order_trans)

lemma construct_canonical:
  assumes "construct op p q = Inr r" "canonical p" "canonical q" "precedence op \<le> level p" "precedence op + 1 \<le> level q"
  shows "canonical r \<and> level r = precedence op"
  using assms by (cases op) (auto split: predicate.splits)

lemma parsed_identifier:
  assumes "is_identifier_char c"
  shows "valid_identifier (takeWhile (\<lambda>c. is_identifier_char c \<or> is_vim_operator_char c) (c # cs))"
  using assms by (auto simp: valid_identifier_def list_all_iff dest: set_takeWhileD)

lemma plain_text_canonical:
  "CHR ''('' \<notin> set s \<Longrightarrow> m \<le> 5 \<Longrightarrow> (\<And>p rest. parse_expr s m = Inr (p, rest) \<Longrightarrow> builds m s p rest)"
  "CHR ''('' \<notin> set t \<Longrightarrow> (\<And>p rest. parse_primary t = Inr (p, rest) \<Longrightarrow> canonical p \<and> level p = 5 \<and> set rest \<subseteq> set t)"
  "CHR ''('' \<notin> set u \<Longrightarrow> canonical q \<Longrightarrow> k \<le> level q \<Longrightarrow> above (level q) u \<Longrightarrow>
     (\<And>p rest. parse_ops q u k = Inr (p, rest) \<Longrightarrow> builds k u p rest)"
proof (induction s m and t and q u k rule: parse_expr_parse_primary_parse_ops.induct)
  case (1 source m)
  from "1.prems"(3) obtain p' rest' where 0: "parse_primary source = Inr (p', rest')" "parse_ops p' rest' m = Inr (p, rest)"
    by (auto simp: parse_expr.simps split: sum.splits)
  then have "canonical p'" "level p' = 5" "set rest' \<subseteq> set source" using "1.IH"(1) "1.prems"(1) by blast+
  then show ?case using "1.IH"(2) [OF 0(1) refl] 0(2) "1.prems"(1,2) above_4 [of 5 rest'] by (auto simp: builds_def)
next
  case (3 c cs)
  note prems = "3.prems"(2) [unfolded parse_primary.simps] and sub = set_skip_whitespace [of cs]
  have c: "c \<noteq> CHR ''(''" using "3.prems"(1) by auto
  consider "c = CHR ''!''" | "c \<noteq> CHR ''!''" "is_identifier_char c" | "c \<noteq> CHR ''!''" "\<not> is_identifier_char c" by blast
  then show ?case
  proof cases
    case 1
    with prems c obtain p' where "parse_expr (skip_whitespace cs) PRECEDENCE_NOT = Inr (p', rest)" "p = Not_P p'"
      by (auto split: sum.splits)
    then show ?thesis using "3.IH"(2) [OF c 1] "3.prems"(1) sub by (auto simp: builds_def PRECEDENCE_NOT_def)
  next
    case 2
    then show ?thesis using prems c parsed_identifier [OF 2(2), of cs] set_skip_drop [of _ "c # cs"]
      by (auto simp: Let_def simp del: takeWhile.simps)
  next
    case 3
    then show ?thesis using prems c sub by (auto simp: valid_identifier_def split: if_splits)
  qed
next
  case (4 q source k)
  show ?case
  proof (cases "find_operator source k")
    case None
    then show ?thesis using "4.prems" by (auto simp: parse_ops.simps builds_def)
  next
    case (Some op)
    let ?after = "skip_whitespace (drop (length (op_text op)) source)"
    from "4.prems"(5) obtain q' rest' r where 1: "parse_expr ?after (precedence op + 1) = Inr (q', rest')"
        "construct op q q' = Inr r" "parse_ops r rest' k = Inr (p, rest)"
      using Some by (auto simp: parse_ops.simps [of q source] split: sum.splits)
    have op: "precedence op \<le> level q" "k \<le> precedence op"
      using "4.prems"(4) find_operator_starts [OF Some] Some by (auto simp: above_def find_operator_def split: if_splits)
    have "builds (precedence op + 1) ?after q' rest'"
      using "4.IH"(1) [OF Some _ _ 1(1)] "4.prems"(1) set_skip_drop [of _ source] precedence_le [of op] by auto
    then have q': "canonical q'" "precedence op + 1 \<le> level q'" "above (precedence op) rest'" "set rest' \<subseteq> set source"
      using set_skip_drop [of _ source] above_loose [of rest' "precedence op"] by (auto simp: builds_def)
    then have r: "canonical r" "level r = precedence op"
      using construct_canonical [OF 1(2) "4.prems"(2)] op by auto
    then have "builds k rest' p rest"
      using "4.IH"(2) [OF Some 1(1) refl 1(2) _ r(1) _ _ 1(3)] "4.prems"(1) q' op by auto
    then show ?thesis using q'(4) by (auto simp: builds_def)
  qed
qed (simp_all add: parse_primary.simps)

lemma plain_parse_canonical:
  assumes "predicate_parse s = Inr p" "CHR ''('' \<notin> set s"
  shows "canonical p"
proof -
  obtain rest where "parse_expr (skip_whitespace s) 0 = Inr (p, rest)"
    using assms(1) by (auto simp: predicate_parse_def split: sum.splits list.splits)
  then show ?thesis using plain_text_canonical(1) [of "skip_whitespace s" 0] assms(2) set_skip_whitespace [of s]
    by (auto simp: builds_def)
qed

section \<open>The text of a context\<close>

definition context_word :: "string \<Rightarrow> bool" where
  "context_word w \<longleftrightarrow> w \<noteq> [] \<and> list_all is_identifier_char w"

definition printable_context :: "key_context \<Rightarrow> bool" where
  "printable_context c \<longleftrightarrow> distinct (map ce_key c) \<and>
     (\<forall>e \<in> set c. context_word (ce_key e) \<and> (case ce_value e of Some v \<Rightarrow> context_word v | None \<Rightarrow> True))"

lemma context_word_starts:
  assumes "context_word w"
  shows "skip_whitespace (w @ s) = w @ s"
  using assms by (cases w) (auto simp: context_word_def identifier_not_whitespace)

lemma context_word_take:
  assumes "context_word w" "(case s of [] \<Rightarrow> True | c # _ \<Rightarrow> \<not> is_identifier_char c)"
  shows "takeWhile is_identifier_char (w @ s) = w" "w @ s \<noteq> []"
  using assms takeWhile_stops [of is_identifier_char w s] by (auto simp: context_word_def)

lemma char_eq_not_identifier [simp]: "\<not> is_identifier_char CHR ''=''"
  by code_simp

lemma context_show_starts: "\<forall>e \<in> set c. context_word (ce_key e) \<Longrightarrow> skip_whitespace (context_show c) = context_show c"
  using context_word_starts [of _ "[]"] by (cases c) (auto simp: context_word_starts split: option.split)

lemma context_show_head:
  assumes "\<forall>e \<in> set es. context_word (ce_key e)" "context_show es = ch # s"
  shows "ch \<noteq> CHR ''=''"
proof (cases es)
  case (Cons e es')
  then have "context_word (ce_key e)" using assms(1) by simp
  then obtain d w where "ce_key e = d # w" "is_identifier_char d" by (cases "ce_key e") (auto simp: context_word_def)
  then show ?thesis using Cons assms(2) by (auto split: option.splits)
qed (use assms in simp)

lemma context_parse_show_expr:
  assumes "printable_context (c @ es)"
  shows "context_parse_expr (context_show es) c = Some (c @ es)"
  using assms
proof (induction es arbitrary: c)
  case Nil
  then show ?case by (subst context_parse_expr.simps) simp
next
  case (Cons e es)
  have key: "context_word (ce_key e)" and new: "\<not> context_contains c (ce_key e)"
    and words: "\<forall>e \<in> set es. context_word (ce_key e)"
    using Cons.prems by (auto simp: printable_context_def context_contains_def image_iff)
  have IH: "context_parse_expr (context_show es) (c @ [e]) = Some (c @ e # es)"
    using Cons.IH [of "c @ [e]"] Cons.prems by simp
  let ?tail = "if es = [] then '''' else '' '' @ context_show es"
  have tail: "skip_whitespace ?tail = context_show es"
    using context_show_starts [OF words] by simp
  show ?case
  proof (cases "ce_value e")
    case None
    then have e: "\<lparr>ce_key = ce_key e, ce_value = None\<rparr> = e" by simp
    have "takeWhile is_identifier_char (ce_key e @ ?tail) = ce_key e" "ce_key e @ ?tail \<noteq> []"
      using context_word_take [OF key, of ?tail] by simp_all
    then have "context_parse_expr (ce_key e @ ?tail) c = context_parse_expr (context_show es) (c @ [e])"
      using tail new e context_show_head [OF words]
      by (subst context_parse_expr.simps) (auto simp: Let_def context_add_def split: list.split)
    with None IH show ?thesis by simp
  next
    case (Some v)
    then have e: "\<lparr>ce_key = ce_key e, ce_value = Some v\<rparr> = e" by simp
    have v: "context_word v" using Cons.prems Some by (auto simp: printable_context_def)
    have "takeWhile is_identifier_char (ce_key e @ CHR ''='' # v @ ?tail) = ce_key e"
      using context_word_take [OF key, of "CHR ''='' # v @ ?tail"] by simp
    moreover have "takeWhile is_identifier_char (v @ ?tail) = v"
      using context_word_take [OF v, of ?tail] by simp
    ultimately have "context_parse_expr (ce_key e @ CHR ''='' # v @ ?tail) c =
        context_parse_expr (context_show es) (c @ [e])"
      using tail new e context_word_starts [OF v]
      by (subst context_parse_expr.simps) (simp add: Let_def context_set_def)
    with Some IH show ?thesis by simp
  qed
qed

text \<open>On text that starts with another character the parser calls itself on the same text for ever.\<close>

definition stuck :: "string \<Rightarrow> bool" where
  "stuck s = (case s of [] \<Rightarrow> False | ch # _ \<Rightarrow> \<not> is_identifier_char ch \<and> \<not> is_whitespace ch \<and> ch \<noteq> CHR ''='')"

lemma context_parse_stuck:
  assumes "stuck s"
  shows "context_parse_expr s c = None"
proof (rule ccontr)
  assume "context_parse_expr s c \<noteq> None"
  then obtain y where y: "context_parse_expr s c = Some y" by blast
  have "\<not> stuck s"
  proof (rule context_parse_expr.raw_induct [where P = "\<lambda>x _ _. \<not> stuck x", OF _ y], goal_cases)
    case (1 f source c y)
    show ?case
    proof
      assume "stuck source"
      then obtain ch t where "source = ch # t" "\<not> is_identifier_char ch" "\<not> is_whitespace ch" "ch \<noteq> CHR ''=''" "stuck source"
        by (cases source) (auto simp: stuck_def)
      with 1 show False by (auto split: if_splits)
    qed
  qed
  with assms show False by simp
qed

section \<open>Evaluation\<close>

fun negation_free :: "predicate \<Rightarrow> bool" where
  "negation_free (Not_P p) = False"
| "negation_free (Descendant p q) = (negation_free p \<and> negation_free q)"
| "negation_free (And_P p q) = (negation_free p \<and> negation_free q)"
| "negation_free (Or_P p q) = (negation_free p \<and> negation_free q)"
| "negation_free _ = True"

lemma eval_inner_Nil [simp]: "\<not> eval_inner p [] all"
  by (cases p) simp_all

lemma last_opt_append_ne: "cs \<noteq> [] \<Longrightarrow> last_opt (pre @ cs) = Some (last cs)"
  by simp

text \<open>The index at which \<^verbatim>\<open>Descendant\<close> splits the path: the first where the parent matches.\<close>

lemma find_upt:
  "find P [0..<n] = Some i \<longleftrightarrow> i < n \<and> P i \<and> (\<forall>j < i. \<not> P j)"
  by (auto simp: find_Some_iff)

lemma find_upt_le: "i < n \<Longrightarrow> P i \<Longrightarrow> \<exists>j \<le> i. find P [0..<n] = Some j"
proof -
  assume i: "i < n" "P i"
  then have "(LEAST j. P j) \<le> i" "P (LEAST j. P j)" by (auto intro: Least_le LeastI)
  then have "find P [0..<n] = Some (LEAST j. P j)"
    using i not_less_Least by (fastforce simp: find_upt)
  then show ?thesis using \<open>(LEAST j. P j) \<le> i\<close> by blast
qed

text \<open>
  A predicate without negation that matches a path also matches every longer path with the same
  end, and does not look at the other contexts.
\<close>

lemma eval_longer:
  assumes "negation_free p" "eval_inner p cs vis0"
  shows "eval_inner p (pre @ cs) vis"
  using assms
proof (induction p arbitrary: cs vis0 pre vis)
  case (Descendant p q cs vis0 pre vis)
  then have ne: "cs \<noteq> []" by (cases cs) auto
  obtain i where i: "i < length cs - 1" "eval_inner p (take (Suc i) cs) vis0"
    "eval_inner q (drop (Suc i) cs) (drop (Suc i) cs)"
    using Descendant.prems(2) ne by (auto simp: find_upt split: option.splits)
  let ?P = "\<lambda>j. eval_inner p (take (Suc j) (pre @ cs)) vis"
  have "eval_inner p (pre @ take (Suc i) cs) vis"
    using Descendant.IH(1) [OF _ i(2)] Descendant.prems(1) by simp
  then have "?P (length pre + i)" by simp
  moreover have "length pre + i < length (pre @ cs) - 1" using i(1) by simp
  ultimately obtain j where j: "j \<le> length pre + i" "find ?P [0..<length (pre @ cs) - 1] = Some j"
    using find_upt_le [of "length pre + i" "length (pre @ cs) - 1" ?P] by blast
  have "drop (length pre + i - j) (drop (Suc j) (pre @ cs)) = drop (Suc i) cs"
    unfolding drop_drop using j(1) by simp
  then have "drop (Suc j) (pre @ cs) = take (length pre + i - j) (drop (Suc j) (pre @ cs)) @ drop (Suc i) cs"
    by (metis append_take_drop_id)
  then have "eval_inner q (drop (Suc j) (pre @ cs)) (drop (Suc j) (pre @ cs))"
    using Descendant.IH(2) [OF _ i(3)] Descendant.prems(1) by (metis negation_free.simps(2))
  then show ?case using j(2) ne by simp
next
  case (And_P p q)
  then show ?case by (cases "cs = []") auto
next
  case (Or_P p q)
  then show ?case by (cases "cs = []") auto
qed (auto split: option.splits simp: last_opt_def split: if_splits)

lemma is_superset_sound:
  assumes "negation_free p" "is_superset p q" "eval_inner q cs vis0"
  shows "eval_inner p cs vis"
  using assms
proof (induction "size p + size q" arbitrary: p q cs vis0 vis rule: less_induct)
  case (less p q cs vis0 vis)
  note sup = less.prems(2) [unfolded is_superset.simps [of p q]]
  have ne: "cs \<noteq> []" using less.prems(3) by (cases cs) auto
  consider "p = q" | l r where "p \<noteq> q" "p = Or_P l r" "is_superset l q \<or> is_superset r q"
    | a child where "q = Descendant a child" "is_superset p child"
    | l r where "q = And_P l r" "is_superset p l \<or> is_superset p r"
    using sup by (cases "p = q"; cases p; cases q; auto)
  then show ?case
  proof cases
    case 1
    then show ?thesis using eval_longer [OF less.prems(1), of cs vis0 "[]" vis] less.prems(3) by simp
  next
    case (2 l r)
    then have "eval_inner l cs vis \<or> eval_inner r cs vis"
      using less.hyps [of l q cs vis0 vis] less.hyps [of r q cs vis0 vis] less.prems by auto
    then show ?thesis using 2(2) ne by auto
  next
    case (3 a child)
    then obtain i where "eval_inner child (drop (Suc i) cs) (drop (Suc i) cs)"
      using less.prems(3) by (auto split: option.splits)
    then have "eval_inner p (drop (Suc i) cs) vis"
      using less.hyps [of p child] 3 less.prems(1) by simp
    from eval_longer [OF less.prems(1) this, of "take (Suc i) cs"] show ?thesis by simp
  next
    case (4 l r)
    then have "eval_inner l cs vis0" "eval_inner r cs vis0" using less.prems(3) by (auto split: option.splits)
    with 4 show ?thesis
      using less.hyps [of p l cs vis0 vis] less.hyps [of p r cs vis0 vis] less.prems(1) by auto
  qed
qed

text \<open>\<^verbatim>\<open>depth_of\<close> is the greatest depth that matches.\<close>

lemma find_rev_upt:
  "find P (rev [0..<Suc n]) = Some i \<longleftrightarrow> i \<le> n \<and> P i \<and> (\<forall>j. i < j \<and> j \<le> n \<longrightarrow> \<not> P j)"
  by (induction n) (auto simp: le_Suc_eq)

lemma depth_of_Some:
  "depth_of p cs = Some d \<longleftrightarrow> d \<le> length cs \<and> eval_inner p (take d cs) cs \<and>
     (\<forall>j. d < j \<and> j \<le> length cs \<longrightarrow> \<not> eval_inner p (take j cs) cs)"
  by (simp add: depth_of_def find_rev_upt del: upt_Suc)

lemma depth_of_None: "depth_of p cs = None \<longleftrightarrow> (\<forall>d \<le> length cs. \<not> eval_inner p (take d cs) cs)"
  by (auto simp: depth_of_def find_None_iff less_Suc_eq_le simp del: upt_Suc)

section \<open>Properties\<close>

text \<open>
  Claim C38. Parsing what \<^verbatim>\<open>Display\<close> prints gives a predicate back in two cases. First, when the predicate is canonical: its names are
  identifiers the parser reads, the right operand of \<^verbatim>\<open>>\<close> is not itself a \<^verbatim>\<open>>\<close>, no operand of \<^verbatim>\<open>&&\<close> or \<^verbatim>\<open>||\<close> is a \<^verbatim>\<open>>\<close>, and the
  right operand of \<^verbatim>\<open>&&\<close> or \<^verbatim>\<open>||\<close> is not the same operator again. Second, when the predicate was parsed from any text without an
  opening parenthesis. The parser builds other predicates from text with parentheses, for instance from \<^verbatim>\<open>(a > b) || c\<close>, and \<^verbatim>\<open>Display\<close>
  drops parentheses these need; nothing is claimed about them here, and \<open>printing_changes_meaning\<close> below shows that the round trip
  fails for that one.
\<close>

theorem predicate_round_trip:
  "(canonical p \<longrightarrow> predicate_parse (predicate_show p) = Inr p) \<and>
   (predicate_parse s = Inr q \<and> CHR ''('' \<notin> set s \<longrightarrow> predicate_parse (predicate_show q) = Inr q)"
  using parse_show plain_parse_canonical by blast

theorem predicate_round_trip_witness:
  "predicate_parse ''(a && b) || !(c == d) > e'' =
     Inr (Descendant (Or_P (And_P (Identifier ''a'') (Identifier ''b'')) (Not_P (Equal_To ''c'' ''d''))) (Identifier ''e'')) \<and>
   predicate_parse ''a > (b && c) || !d'' =
     Inr (Descendant (Identifier ''a'') (Or_P (And_P (Identifier ''b'') (Identifier ''c'')) (Not_P (Identifier ''d''))))"
proof -
  let ?p = "Descendant (Or_P (And_P (Identifier ''a'') (Identifier ''b'')) (Not_P (Equal_To ''c'' ''d''))) (Identifier ''e'')"
  let ?q = "Descendant (Identifier ''a'') (Or_P (And_P (Identifier ''b'') (Identifier ''c'')) (Not_P (Identifier ''d'')))"
  have "canonical ?p" by code_simp
  moreover have "predicate_show ?p = ''(a && b) || !(c == d) > e''" by code_simp
  moreover have "predicate_parse ''a > b && c || ! d'' = Inr ?q" by code_simp
  moreover have "predicate_show ?q = ''a > (b && c) || !d''" by code_simp
  ultimately show ?thesis using predicate_round_trip [of ?p "''a > b && c || ! d''" ?q] by simp
qed

text \<open>
  The printed text of a predicate can mean something else: \<^verbatim>\<open>(a > b) || c\<close> parses to a
  predicate whose printed form, \<^verbatim>\<open>a > b || c\<close>, parses to a predicate that does not match a context
  the first one matches.
\<close>

theorem printing_changes_meaning:
  "\<exists>p q cs. predicate_parse ''(a > b) || c'' = Inr p \<and> predicate_parse (predicate_show p) = Inr q \<and>
     eval_predicate p cs \<and> \<not> eval_predicate q cs"
proof -
  let ?p = "Or_P (Descendant (Identifier ''a'') (Identifier ''b'')) (Identifier ''c'')"
  let ?q = "Descendant (Identifier ''a'') (Or_P (Identifier ''b'') (Identifier ''c''))"
  let ?cs = "[[\<lparr>ce_key = ''c'', ce_value = None\<rparr>]]"
  have "predicate_parse ''(a > b) || c'' = Inr ?p" by code_simp
  moreover have "predicate_parse (predicate_show ?p) = Inr ?q" by code_simp
  moreover have "eval_predicate ?p ?cs" "\<not> eval_predicate ?q ?cs" by code_simp+
  ultimately show ?thesis by blast
qed

text \<open>
  Parsing a predicate ends on every text (the parser is a total function) and each
  successful call consumes at least one character.
\<close>

theorem parse_consumes:
  assumes "parse_expr s m = Inr (p, rest)"
  shows "length rest < length s"
  using parse_total parse_shorter(1) [OF _ assms] by blast

theorem parse_consumes_witness: "length ''&& b'' < length ''a && b''"
proof -
  have "parse_expr ''a && b'' PRECEDENCE_NOT = Inr (Identifier ''a'', ''&& b'')" by code_simp
  from parse_consumes [OF this] show ?thesis .
qed

text \<open>
  A context with distinct keys made of identifier characters is recovered from its text.
\<close>

theorem context_round_trip:
  assumes "printable_context c"
  shows "context_parse (context_show c) = Some c"
proof -
  have "skip_whitespace (context_show c) = context_show c"
    using assms by (intro context_show_starts) (simp add: printable_context_def)
  then show ?thesis using context_parse_show_expr [of "[]" c] assms by (simp add: context_parse_def)
qed

theorem context_round_trip_witness:
  "context_parse ''Editor mode=full'' = Some [\<lparr>ce_key = ''Editor'', ce_value = None\<rparr>, \<lparr>ce_key = ''mode'', ce_value = Some ''full''\<rparr>]"
proof -
  let ?c = "[\<lparr>ce_key = ''Editor'', ce_value = None\<rparr>, \<lparr>ce_key = ''mode'', ce_value = Some ''full''\<rparr>]"
  have "printable_context ?c" by code_simp
  moreover have "context_show ?c = ''Editor mode=full''" by simp
  ultimately show ?thesis using context_round_trip [of ?c] by simp
qed

text \<open>
  Claim C40. \<^verbatim>\<open>KeyContext::parse\<close> does not return on a text that goes on with a character that is
  neither part of an identifier, nor white space, nor an equals sign: it calls itself on the same
  text without end, where its signature promises an error.
\<close>

theorem context_parse_diverges:
  assumes "stuck (skip_whitespace s)"
  shows "context_parse s = None"
  by (simp add: context_parse_def context_parse_stuck [OF assms])

theorem context_parse_diverges_witness: "context_parse ''(a)'' = None"
proof -
  have "stuck (skip_whitespace ''(a)'')" by code_simp
  then show ?thesis by (rule context_parse_diverges)
qed

text \<open>
  A predicate without negation that matches a path of contexts matches every longer path
  with the same end.
\<close>

theorem eval_on_longer_path:
  assumes "negation_free p" "eval_predicate p cs"
  shows "eval_predicate p (pre @ cs)"
  using eval_longer [OF assms(1)] assms(2) by (simp add: eval_predicate_def)

theorem eval_on_longer_path_witness:
  "eval_predicate (Identifier ''a'') ([[\<lparr>ce_key = ''b'', ce_value = None\<rparr>]] @ [[\<lparr>ce_key = ''a'', ce_value = None\<rparr>]])"
proof -
  have "eval_predicate (Identifier ''a'') [[\<lparr>ce_key = ''a'', ce_value = None\<rparr>]]" by code_simp
  then show ?thesis by (intro eval_on_longer_path) simp_all
qed

text \<open>
  \<^verbatim>\<open>is_superset\<close> is sound for predicates without negation: when it answers yes, the predicate
  matches every path the other matches.
\<close>

theorem is_superset_sound_without_negation:
  assumes "negation_free p" "is_superset p q" "eval_predicate q cs"
  shows "eval_predicate p cs"
  using is_superset_sound [OF assms(1,2)] assms(3) by (simp add: eval_predicate_def)

theorem is_superset_sound_without_negation_witness:
  "eval_predicate (Identifier ''b'') [[\<lparr>ce_key = ''a'', ce_value = None\<rparr>], [\<lparr>ce_key = ''b'', ce_value = None\<rparr>]]"
proof -
  let ?q = "Descendant (Identifier ''a'') (Identifier ''b'')"
  have "is_superset (Identifier ''b'') ?q" by code_simp
  moreover have "eval_predicate ?q [[\<lparr>ce_key = ''a'', ce_value = None\<rparr>], [\<lparr>ce_key = ''b'', ce_value = None\<rparr>]]" by code_simp
  ultimately show ?thesis
    using is_superset_sound_without_negation [of "Identifier ''b''" ?q] by simp
qed

text \<open>
  With negation \<^verbatim>\<open>is_superset\<close> is not sound: it says that \<^verbatim>\<open>!a\<close> matches whatever
  \<^verbatim>\<open>p > !a\<close> matches, but below a context with \<^verbatim>\<open>a\<close> only the second matches.
\<close>

theorem is_superset_unsound_with_negation:
  "\<exists>p q cs. is_superset p q \<and> eval_predicate q cs \<and> \<not> eval_predicate p cs"
proof -
  let ?p = "Not_P (Identifier ''a'')" and ?q = "Descendant (Identifier ''p'') (Not_P (Identifier ''a''))"
  let ?cs = "[[\<lparr>ce_key = ''a'', ce_value = None\<rparr>], [\<lparr>ce_key = ''p'', ce_value = None\<rparr>], [\<lparr>ce_key = ''x'', ce_value = None\<rparr>]]"
  have "is_superset ?p ?q" "eval_predicate ?q ?cs" "\<not> eval_predicate ?p ?cs" by code_simp+
  then show ?thesis by blast
qed

text \<open>
  \<^verbatim>\<open>depth_of\<close> returns the greatest depth at which the predicate matches, never zero, and
  nothing exactly when no prefix of the path matches.
\<close>

theorem depth_of_deepest:
  "(\<forall>d. depth_of p cs = Some d \<longleftrightarrow> 0 < d \<and> d \<le> length cs \<and> eval_inner p (take d cs) cs \<and>
      list_all (\<lambda>j. \<not> eval_inner p (take j cs) cs) [Suc d..<Suc (length cs)]) \<and>
   (depth_of p cs = None \<longleftrightarrow> list_all (\<lambda>d. \<not> eval_inner p (take d cs) cs) [0..<Suc (length cs)])"
proof -
  have "0 < d" if "eval_inner p (take d cs) cs" for d using that by (cases d) auto
  then show ?thesis
    unfolding depth_of_Some depth_of_None
    by (auto simp: list_all_iff less_Suc_eq_le Suc_le_eq simp del: upt_Suc)
qed

text \<open>
  Keys of a context stay distinct, and the first write wins: \<^verbatim>\<open>set\<close> and \<^verbatim>\<open>add\<close> of a key
  that is present change nothing, of a new key they make it present with its value, and \<^verbatim>\<open>extend\<close>
  keeps what the context had.
\<close>

theorem context_first_write_wins:
  assumes "distinct (map ce_key c)"
  shows "distinct (map ce_key (context_set k v c)) \<and> distinct (map ce_key (context_add k c)) \<and>
    distinct (map ce_key (context_extend c other)) \<and>
    context_get (context_set k v c) j = (if j = k \<and> \<not> context_contains c k then Some v else context_get c j) \<and>
    context_get (context_add k c) j = context_get c j \<and> context_contains (context_add k c) k \<and>
    (context_contains c j \<longrightarrow> context_get (context_extend c other) j = context_get c j)"
proof -
  have fresh: "find (\<lambda>e. ce_key e = j) c = None \<longleftrightarrow> \<not> context_contains c j" for c j
    by (auto simp: context_contains_def find_None_iff)
  have find_app: "find P (xs @ ys) = (case find P xs of Some x \<Rightarrow> Some x | None \<Rightarrow> find P ys)" for P and xs ys :: key_context
    by (induction xs) auto
  have new: "distinct (map ce_key (c @ [e]))" if "distinct (map ce_key c)" "\<not> context_contains c (ce_key e)" for c e
    using that by (auto simp: context_contains_def)
  have ext: "distinct (map ce_key (context_extend c other)) \<and>
      (context_contains c j \<longrightarrow> context_get (context_extend c other) j = context_get c j)"
    if "distinct (map ce_key c)" for c
    using that
  proof (induction other arbitrary: c)
    case (Cons e es)
    let ?c = "if context_contains c (ce_key e) then c else c @ [e]"
    have "context_extend c (e # es) = context_extend ?c es" by (simp add: context_extend_def)
    moreover have "distinct (map ce_key ?c)" using Cons.prems new by simp
    moreover have "context_contains c j \<longrightarrow> context_contains ?c j \<and> context_get ?c j = context_get c j"
      using fresh [of j c] by (auto simp: context_contains_def context_get_def find_app split: option.splits)
    ultimately show ?case using Cons.IH [of ?c] by auto
  qed (simp add: context_extend_def)
  show ?thesis
    using assms new [OF assms] ext [OF assms] fresh [of j c] fresh [of k c]
    by (auto simp: context_set_def context_add_def context_get_def context_contains_def find_app split: option.splits)
qed

theorem context_first_write_wins_witness:
  "context_get (context_set ''k'' ''w'' [\<lparr>ce_key = ''k'', ce_value = Some ''v''\<rparr>]) ''k'' = Some ''v''"
  using context_first_write_wins [of "[\<lparr>ce_key = ''k'', ce_value = Some ''v''\<rparr>]" "''k''" "''w''" "[]" "''k''"]
  by (simp add: context_contains_def context_get_def)

end
