(* ===== verification/Keystroke.thy ===== *)
theory Keystroke
  imports KeyContext
begin

text \<open>
  Keystrokes and modifiers (\<^verbatim>\<open>crates/gpui/src/platform/keystroke.rs\<close>): the set operations on
  modifiers, how a typed keystroke matches one of the keymap, and the textual form of a keystroke.
  What depends on the platform takes the \<open>target_os\<close>. A \<^verbatim>\<open>KeybindingKeystroke\<close> has its inner
  keystroke and, on Windows only, the modifiers and the key to display.
\<close>

section \<open>Modifiers\<close>

record modifiers =
  m_control :: bool
  m_alt :: bool
  m_shift :: bool
  m_platform :: bool
  m_function :: bool

definition no_modifiers :: modifiers where
  "no_modifiers = \<lparr>m_control = False, m_alt = False, m_shift = False, m_platform = False, m_function = False\<rparr>"

definition modified :: "modifiers \<Rightarrow> bool" where
  "modified m = (m_control m \<or> m_alt m \<or> m_shift m \<or> m_platform m \<or> m_function m)"

definition secondary :: "target_os \<Rightarrow> modifiers \<Rightarrow> bool" where
  "secondary os m = (if os = MacOs then m_platform m else m_control m)"

definition number_of_modifiers :: "modifiers \<Rightarrow> nat" where
  "number_of_modifiers m = of_bool (m_control m) + of_bool (m_alt m) + of_bool (m_shift m) +
     of_bool (m_platform m) + of_bool (m_function m)"

definition secondary_key :: "target_os \<Rightarrow> modifiers" where
  "secondary_key os = (if os = MacOs then no_modifiers\<lparr>m_platform := True\<rparr> else no_modifiers\<lparr>m_control := True\<rparr>)"

definition modifiers_command :: modifiers where
  "modifiers_command = no_modifiers\<lparr>m_platform := True\<rparr>"

definition modifiers_windows :: modifiers where
  "modifiers_windows = no_modifiers\<lparr>m_platform := True\<rparr>"

definition modifiers_super_key :: modifiers where
  "modifiers_super_key = no_modifiers\<lparr>m_platform := True\<rparr>"

definition modifiers_control :: modifiers where
  "modifiers_control = no_modifiers\<lparr>m_control := True\<rparr>"

definition modifiers_alt :: modifiers where
  "modifiers_alt = no_modifiers\<lparr>m_alt := True\<rparr>"

definition modifiers_shift :: modifiers where
  "modifiers_shift = no_modifiers\<lparr>m_shift := True\<rparr>"

definition modifiers_function :: modifiers where
  "modifiers_function = no_modifiers\<lparr>m_function := True\<rparr>"

definition modifiers_command_shift :: modifiers where
  "modifiers_command_shift = no_modifiers\<lparr>m_shift := True, m_platform := True\<rparr>"

definition modifiers_control_shift :: modifiers where
  "modifiers_control_shift = no_modifiers\<lparr>m_shift := True, m_control := True\<rparr>"

definition modifiers_or :: "modifiers \<Rightarrow> modifiers \<Rightarrow> modifiers" where
  "modifiers_or a b =
     \<lparr>m_control = (m_control a \<or> m_control b), m_alt = (m_alt a \<or> m_alt b), m_shift = (m_shift a \<or> m_shift b),
      m_platform = (m_platform a \<or> m_platform b), m_function = (m_function a \<or> m_function b)\<rparr>"

definition modifiers_xor :: "modifiers \<Rightarrow> modifiers \<Rightarrow> modifiers" where
  "modifiers_xor a b =
     \<lparr>m_control = (m_control a \<noteq> m_control b), m_alt = (m_alt a \<noteq> m_alt b), m_shift = (m_shift a \<noteq> m_shift b),
      m_platform = (m_platform a \<noteq> m_platform b), m_function = (m_function a \<noteq> m_function b)\<rparr>"

definition modifiers_and :: "modifiers \<Rightarrow> modifiers \<Rightarrow> modifiers" where
  "modifiers_and a b =
     \<lparr>m_control = (m_control a \<and> m_control b), m_alt = (m_alt a \<and> m_alt b), m_shift = (m_shift a \<and> m_shift b),
      m_platform = (m_platform a \<and> m_platform b), m_function = (m_function a \<and> m_function b)\<rparr>"

definition is_subset_of :: "modifiers \<Rightarrow> modifiers \<Rightarrow> bool" where
  "is_subset_of a b = (modifiers_and b a = a)"

section \<open>Keystrokes\<close>

record keystroke =
  k_modifiers :: modifiers
  k_key :: string
  k_key_char :: "string option"

record keybinding_keystroke =
  kk_inner :: keystroke
  kk_display :: "(modifiers \<times> string) option"

definition from_keystroke :: "target_os \<Rightarrow> keystroke \<Rightarrow> keybinding_keystroke" where
  "from_keystroke os k =
     \<lparr>kk_inner = k, kk_display = (if os = Windows then Some (k_modifiers k, k_key k) else None)\<rparr>"

definition kk_modifiers :: "keybinding_keystroke \<Rightarrow> modifiers" where
  "kk_modifiers k = (case kk_display k of Some (m, _) \<Rightarrow> m | None \<Rightarrow> k_modifiers (kk_inner k))"

definition kk_key :: "keybinding_keystroke \<Rightarrow> string" where
  "kk_key k = (case kk_display k of Some (_, key) \<Rightarrow> key | None \<Rightarrow> k_key (kk_inner k))"

definition set_modifiers :: "modifiers \<Rightarrow> keybinding_keystroke \<Rightarrow> keybinding_keystroke" where
  "set_modifiers m k =
     k\<lparr>kk_inner := (kk_inner k)\<lparr>k_modifiers := m\<rparr>, kk_display := map_option (\<lambda>(_, key). (m, key)) (kk_display k)\<rparr>"

definition set_key :: "string \<Rightarrow> keybinding_keystroke \<Rightarrow> keybinding_keystroke" where
  "set_key key k =
     k\<lparr>kk_inner := (kk_inner k)\<lparr>k_key := key\<rparr>, kk_display := map_option (\<lambda>(m, _). (m, key)) (kk_display k)\<rparr>"

definition remove_key_char :: "keybinding_keystroke \<Rightarrow> keybinding_keystroke" where
  "remove_key_char k = k\<lparr>kk_inner := (kk_inner k)\<lparr>k_key_char := None\<rparr>\<rparr>"

definition should_match :: "target_os \<Rightarrow> keystroke \<Rightarrow> keybinding_keystroke \<Rightarrow> bool" where
  "should_match os self target =
     ((case k_key_char self of
         Some key_char \<Rightarrow>
           key_char \<noteq> k_key self \<and> k_key (kk_inner target) = key_char \<and>
           k_modifiers (kk_inner target) =
             (if os = Windows then no_modifiers
              else no_modifiers\<lparr>m_control := m_control (k_modifiers self), m_platform := m_platform (k_modifiers self)\<rparr>)
       | None \<Rightarrow> False) \<or>
      (k_modifiers (kk_inner target) = k_modifiers self \<and> k_key (kk_inner target) = k_key self))"

section \<open>Parsing\<close>

definition ascii_lower :: "char \<Rightarrow> char" where
  "ascii_lower c = (let n = of_char c :: nat in if 65 \<le> n \<and> n \<le> 90 then char_of (n + 32) else c)"

definition make_ascii_lowercase :: "string \<Rightarrow> string" where
  "make_ascii_lowercase s = map ascii_lower s"

definition eq_ignore_ascii_case :: "string \<Rightarrow> string \<Rightarrow> bool" where
  "eq_ignore_ascii_case a b = (make_ascii_lowercase a = make_ascii_lowercase b)"

definition is_ascii_uppercase :: "char \<Rightarrow> bool" where
  "is_ascii_uppercase c = (let n = of_char c :: nat in 65 \<le> n \<and> n \<le> 90)"

text \<open>\<^verbatim>\<open>source.split(c)\<close>\<close>

fun split_on :: "char \<Rightarrow> string \<Rightarrow> string list" where
  "split_on c [] = [[]]"
| "split_on c (d # ds) =
     (if d = c then [] # split_on c ds
      else (case split_on c ds of w # ws \<Rightarrow> (d # w) # ws | [] \<Rightarrow> [[d]]))"

definition set_modifier :: "target_os \<Rightarrow> string \<Rightarrow> modifiers \<Rightarrow> modifiers option" where
  "set_modifier os component m =
     (if eq_ignore_ascii_case component ''ctrl'' then Some (m\<lparr>m_control := True\<rparr>)
      else if eq_ignore_ascii_case component ''alt'' then Some (m\<lparr>m_alt := True\<rparr>)
      else if eq_ignore_ascii_case component ''shift'' then Some (m\<lparr>m_shift := True\<rparr>)
      else if eq_ignore_ascii_case component ''fn'' then Some (m\<lparr>m_function := True\<rparr>)
      else if eq_ignore_ascii_case component ''secondary'' then
        Some (if os = MacOs then m\<lparr>m_platform := True\<rparr> else m\<lparr>m_control := True\<rparr>)
      else if eq_ignore_ascii_case component ''cmd'' \<or> eq_ignore_ascii_case component ''super'' \<or>
              eq_ignore_ascii_case component ''win'' then Some (m\<lparr>m_platform := True\<rparr>)
      else None)"

fun parse_components ::
    "target_os \<Rightarrow> string \<Rightarrow> string list \<Rightarrow> modifiers \<Rightarrow> string option \<Rightarrow> string option
      \<Rightarrow> string + modifiers \<times> string option \<times> string option" where
  "parse_components os source [] m key key_char = Inr (m, key, key_char)"
| "parse_components os source (component # rest) m key key_char =
     (case set_modifier os component m of
        Some m' \<Rightarrow> parse_components os source rest m' key key_char
      | None \<Rightarrow>
          (case rest of
             next # rest' \<Rightarrow>
               (if next = [] \<and> source \<noteq> [] \<and> last source = CHR ''-'' then Inr (m, Some ''-'', key_char)
                else if 1 < length next \<and> hd next = CHR ''>'' then
                  parse_components os source rest' m (Some component) (Some (tl next))
                else Inl source)
           | [] \<Rightarrow>
               (if length component = 1 \<and> is_ascii_uppercase (hd component) then
                  parse_components os source [] (m\<lparr>m_shift := True\<rparr>) (Some (make_ascii_lowercase component)) key_char
                else parse_components os source [] m (Some (make_ascii_lowercase component)) key_char)))"

text \<open>A modifier can stand as the key itself.\<close>

definition modifier_as_key :: "modifiers \<Rightarrow> modifiers \<times> string option" where
  "modifier_as_key m =
     (if m_shift m then (m\<lparr>m_shift := False\<rparr>, Some ''shift'')
      else if m_control m then (m\<lparr>m_control := False\<rparr>, Some ''control'')
      else if m_alt m then (m\<lparr>m_alt := False\<rparr>, Some ''alt'')
      else if m_platform m then (m\<lparr>m_platform := False\<rparr>, Some ''platform'')
      else if m_function m then (m\<lparr>m_function := False\<rparr>, Some ''function'')
      else (m, None))"

definition keystroke_parse :: "target_os \<Rightarrow> string \<Rightarrow> string + keystroke" where
  "keystroke_parse os source =
     (case parse_components os source (split_on (CHR ''-'') source) no_modifiers None None of
        Inl e \<Rightarrow> Inl e
      | Inr (m, key, key_char) \<Rightarrow>
          (case (case key of Some k \<Rightarrow> (m, Some k) | None \<Rightarrow> modifier_as_key m) of
             (m', Some k) \<Rightarrow> Inr \<lparr>k_modifiers = m', k_key = k, k_key_char = key_char\<rparr>
           | (m', None) \<Rightarrow> Inl source))"

section \<open>Printing\<close>

definition unparse :: "target_os \<Rightarrow> modifiers \<Rightarrow> string \<Rightarrow> string" where
  "unparse os m key =
     (if m_function m then ''fn-'' else '''') @ (if m_control m then ''ctrl-'' else '''') @
     (if m_alt m then ''alt-'' else '''') @
     (if m_platform m then
        (case os of MacOs \<Rightarrow> ''cmd-'' | Linux \<Rightarrow> ''super-'' | FreeBsd \<Rightarrow> ''super-'' | Windows \<Rightarrow> ''win-'' | OtherOs \<Rightarrow> '''')
      else '''') @
     (if m_shift m then ''shift-'' else '''') @ key"

definition kk_unparse :: "target_os \<Rightarrow> keybinding_keystroke \<Rightarrow> string" where
  "kk_unparse os k = unparse os (kk_modifiers k) (kk_key k)"

definition unprintable_keys :: "string list" where
  "unprintable_keys =
     [''f1'', ''f2'', ''f3'', ''f4'', ''f5'', ''f6'', ''f7'', ''f8'', ''f9'', ''f10'', ''f11'', ''f12'', ''f13'',
      ''f14'', ''f15'', ''f16'', ''f17'', ''f18'', ''f19'', ''f20'', ''f21'', ''f22'', ''f23'', ''f24'', ''f25'',
      ''f26'', ''f27'', ''f28'', ''f29'', ''f30'', ''f31'', ''f32'', ''f33'', ''f34'', ''f35'', ''backspace'',
      ''delete'', ''left'', ''right'', ''up'', ''down'', ''pageup'', ''pagedown'', ''insert'', ''home'', ''end'',
      ''back'', ''forward'', ''escape'']"

definition is_printable_key :: "string \<Rightarrow> bool" where
  "is_printable_key key = (key \<notin> set unprintable_keys)"

definition is_ime_in_progress :: "keystroke \<Rightarrow> bool" where
  "is_ime_in_progress k =
     (k_key_char k = None \<and> (is_printable_key (k_key k) \<or> k_key k = []) \<and>
      \<not> (m_platform (k_modifiers k) \<or> m_control (k_modifiers k) \<or> m_function (k_modifiers k) \<or> m_alt (k_modifiers k)))"

text \<open>\<^verbatim>\<open>with_simulated_ime\<close>, with \<^verbatim>\<open>str::to_uppercase\<close> as a parameter.\<close>

definition with_simulated_ime :: "(string \<Rightarrow> string) \<Rightarrow> keystroke \<Rightarrow> keystroke" where
  "with_simulated_ime to_uppercase k =
     (if k_key_char k = None \<and> \<not> m_platform (k_modifiers k) \<and> \<not> m_control (k_modifiers k) \<and>
         \<not> m_function (k_modifiers k) \<and> \<not> m_alt (k_modifiers k) then
        k\<lparr>k_key_char :=
            (if k_key k = ''space'' then Some '' ''
             else if k_key k = ''tab'' then Some [CHR 0x09]
             else if k_key k = ''enter'' then Some [CHR 0x0A]
             else if \<not> is_printable_key (k_key k) \<or> k_key k = [] then None
             else if m_shift (k_modifiers k) then Some (to_uppercase (k_key k))
             else Some (k_key k))\<rparr>
      else k)"

section \<open>The printed keystroke parses back\<close>

definition plain_key :: "string \<Rightarrow> bool" where
  "plain_key key = (key \<noteq> [] \<and> make_ascii_lowercase key = key \<and> (key = ''-'' \<or> CHR ''-'' \<notin> set key) \<and>
     key \<notin> {''ctrl'', ''alt'', ''shift'', ''fn'', ''secondary'', ''cmd'', ''super'', ''win''})"

fun modifier_words :: "target_os \<Rightarrow> modifiers \<Rightarrow> string list" where
  "modifier_words os m =
     (if m_function m then [''fn''] else []) @ (if m_control m then [''ctrl''] else []) @
     (if m_alt m then [''alt''] else []) @
     (if m_platform m then
        (case os of MacOs \<Rightarrow> [''cmd''] | Linux \<Rightarrow> [''super''] | FreeBsd \<Rightarrow> [''super''] | Windows \<Rightarrow> [''win''] | OtherOs \<Rightarrow> [])
      else []) @
     (if m_shift m then [''shift''] else [])"

lemma split_on_word: "c \<notin> set w \<Longrightarrow> split_on c (w @ c # s) = w # split_on c s"
  by (induction w) auto

lemma split_on_key: "c \<notin> set w \<Longrightarrow> split_on c w = [w]"
  by (induction w) auto

lemma split_on_words:
  "\<forall>w \<in> set ws. c \<notin> set w \<Longrightarrow> split_on c (concat (map (\<lambda>w. w @ [c]) ws) @ s) = ws @ split_on c s"
  by (induction ws) (simp_all add: split_on_word)

lemma unparse_words: "unparse os m key = concat (map (\<lambda>w. w @ ''-'') (modifier_words os m)) @ key"
  by (cases os) (simp_all add: unparse_def)

lemma modifier_words_no_dash: "\<forall>w \<in> set (modifier_words os m). CHR ''-'' \<notin> set w"
  by (cases os) auto

lemma lower_names:
  "make_ascii_lowercase ''ctrl'' = ''ctrl''" "make_ascii_lowercase ''alt'' = ''alt''"
  "make_ascii_lowercase ''shift'' = ''shift''" "make_ascii_lowercase ''fn'' = ''fn''"
  "make_ascii_lowercase ''secondary'' = ''secondary''" "make_ascii_lowercase ''cmd'' = ''cmd''"
  "make_ascii_lowercase ''super'' = ''super''" "make_ascii_lowercase ''win'' = ''win''"
  by code_simp+

lemma set_modifier_names:
  "set_modifier os ''fn'' m = Some (m\<lparr>m_function := True\<rparr>)" "set_modifier os ''ctrl'' m = Some (m\<lparr>m_control := True\<rparr>)"
  "set_modifier os ''alt'' m = Some (m\<lparr>m_alt := True\<rparr>)" "set_modifier os ''cmd'' m = Some (m\<lparr>m_platform := True\<rparr>)"
  "set_modifier os ''super'' m = Some (m\<lparr>m_platform := True\<rparr>)" "set_modifier os ''win'' m = Some (m\<lparr>m_platform := True\<rparr>)"
  "set_modifier os ''shift'' m = Some (m\<lparr>m_shift := True\<rparr>)"
  by (simp_all add: set_modifier_def eq_ignore_ascii_case_def lower_names)

lemma parse_flag:
  "set_modifier os w m = Some m' \<Longrightarrow>
   parse_components os source ((if b then [w] else []) @ ws) m key key_char =
   parse_components os source ws (if b then m' else m) key key_char"
  by simp

lemma parse_platform_flag:
  "os \<noteq> OtherOs \<Longrightarrow>
   parse_components os source ((if b then (case os of MacOs \<Rightarrow> [''cmd''] | Linux \<Rightarrow> [''super''] | FreeBsd \<Rightarrow> [''super'']
      | Windows \<Rightarrow> [''win''] | OtherOs \<Rightarrow> []) else []) @ ws) m key key_char =
   parse_components os source ws (if b then m\<lparr>m_platform := True\<rparr> else m) key key_char"
  by (cases os; cases b) (simp_all only: if_True if_False append.simps target_os.case parse_components.simps
      set_modifier_names option.case refl simp_thms)

lemma all_flags:
  "(if m_shift m then n4\<lparr>m_shift := True\<rparr> else n4) = m"
  if "n4 = (if m_platform m then n3\<lparr>m_platform := True\<rparr> else n3)"
    "n3 = (if m_alt m then n2\<lparr>m_alt := True\<rparr> else n2)" "n2 = (if m_control m then n1\<lparr>m_control := True\<rparr> else n1)"
    "n1 = (if m_function m then no_modifiers\<lparr>m_function := True\<rparr> else no_modifiers)" for n1 n2 n3 n4
  using that by (cases m) (simp add: no_modifiers_def)

lemma parse_modifier_words:
  assumes "os \<noteq> OtherOs"
  shows "parse_components os source (modifier_words os m @ ws) no_modifiers None None = parse_components os source ws m None None"
  unfolding modifier_words.simps append_assoc parse_flag [OF set_modifier_names(1)] parse_flag [OF set_modifier_names(2)]
    parse_flag [OF set_modifier_names(3)] parse_platform_flag [OF assms] parse_flag [OF set_modifier_names(7)]
    all_flags [OF refl refl refl refl] by (rule refl)

lemma plain_keyD:
  assumes "plain_key key"
  shows "make_ascii_lowercase key = key" "key \<noteq> []" "key = ''-'' \<or> CHR ''-'' \<notin> set key"
  using assms by (simp_all only: plain_key_def not_False_eq_True simp_thms)

lemma set_modifier_plain:
  assumes "plain_key key"
  shows "set_modifier os key m = None"
proof -
  have "make_ascii_lowercase key = key"
    and "key \<noteq> ''ctrl''" "key \<noteq> ''alt''" "key \<noteq> ''shift''" "key \<noteq> ''fn''" "key \<noteq> ''secondary''" "key \<noteq> ''cmd''"
      "key \<noteq> ''super''" "key \<noteq> ''win''"
    using assms by (simp_all only: plain_key_def insert_iff de_Morgan_disj not_False_eq_True simp_thms)
  then show ?thesis
    by (simp only: set_modifier_def eq_ignore_ascii_case_def lower_names if_False simp_thms)
qed

lemma set_modifier_Nil: "set_modifier os [] m = None"
  by (simp add: set_modifier_def eq_ignore_ascii_case_def make_ascii_lowercase_def)

lemma lower_not_upper: "make_ascii_lowercase [c] = [c] \<Longrightarrow> \<not> is_ascii_uppercase c"
proof
  assume "make_ascii_lowercase [c] = [c]" "is_ascii_uppercase c"
  then have "char_of (of_char c + 32 :: nat) = c" "(of_char c :: nat) \<le> 90"
    by (simp_all add: make_ascii_lowercase_def ascii_lower_def is_ascii_uppercase_def Let_def)
  then have "of_char (char_of (of_char c + 32 :: nat)) = (of_char c :: nat)" by simp
  then show False using \<open>(of_char c :: nat) \<le> 90\<close> by (simp add: of_char_of)
qed

lemma parse_key:
  assumes "plain_key key" "source = s @ key"
  shows "parse_components os source (split_on (CHR ''-'') key) m None None = Inr (m, Some key, None)"
proof (cases "key = ''-''")
  case True
  then show ?thesis using assms(2) by (simp add: set_modifier_Nil)
next
  case False
  then have "split_on (CHR ''-'') key = [key]" using plain_keyD(3) [OF assms(1)] by (simp add: split_on_key)
  moreover have "\<not> (length key = 1 \<and> is_ascii_uppercase (hd key))"
    using plain_keyD(1) [OF assms(1)] lower_not_upper by (auto simp: length_Suc_conv)
  ultimately show ?thesis
    using set_modifier_plain [OF assms(1)] plain_keyD(1) [OF assms(1)] by auto
qed

lemma parse_unparse:
  assumes "os \<noteq> OtherOs" "plain_key (k_key k)"
  shows "keystroke_parse os (unparse os (k_modifiers k) (k_key k)) = Inr (k\<lparr>k_key_char := None\<rparr>)"
proof -
  let ?m = "k_modifiers k" and ?key = "k_key k"
  have "split_on (CHR ''-'') (unparse os ?m ?key) = modifier_words os ?m @ split_on (CHR ''-'') ?key"
    unfolding unparse_words by (rule split_on_words [OF modifier_words_no_dash])
  then show ?thesis
    using parse_modifier_words [OF assms(1)] parse_key [OF assms(2) unparse_words]
    by (simp add: keystroke_parse_def del: modifier_words.simps)
qed

section \<open>Properties\<close>

text \<open>
  A keystroke is recovered from what \<^verbatim>\<open>unparse\<close> writes: for a lower-case key that is not
  the name of a modifier, parsing gives back the modifiers and the key, the key \<^verbatim>\<open>-\<close> included. A
  keystroke of the keymap writes the same text, on every platform.
\<close>

theorem keystroke_round_trip:
  assumes "os \<noteq> OtherOs" "plain_key (k_key k)"
  shows "keystroke_parse os (unparse os (k_modifiers k) (k_key k)) = Inr (k\<lparr>k_key_char := None\<rparr>) \<and>
         kk_unparse os (from_keystroke os k) = unparse os (k_modifiers k) (k_key k)"
  using parse_unparse [OF assms] by (simp add: kk_unparse_def kk_modifiers_def kk_key_def from_keystroke_def)

theorem keystroke_round_trip_witness:
  "keystroke_parse Linux ''ctrl-shift--'' =
   Inr \<lparr>k_modifiers = modifiers_control_shift, k_key = ''-'', k_key_char = None\<rparr>"
proof -
  let ?k = "\<lparr>k_modifiers = modifiers_control_shift, k_key = ''-'', k_key_char = None\<rparr>"
  have "plain_key ''-''" by code_simp
  moreover have "unparse Linux modifiers_control_shift ''-'' = ''ctrl-shift--''" by code_simp
  ultimately show ?thesis using keystroke_round_trip [of Linux ?k] by simp
qed

text \<open>
  A text that ends in a superfluous dash is not rejected: the key before the dash is
  dropped and the dash itself is taken as the key.
\<close>

theorem trailing_dash_replaces_key:
  assumes "plain_key key" "CHR ''-'' \<notin> set key"
  shows "keystroke_parse os (key @ ''-'') = Inr \<lparr>k_modifiers = no_modifiers, k_key = ''-'', k_key_char = None\<rparr>"
  using assms set_modifier_plain [OF assms(1)] split_on_word [OF assms(2), of "[]"]
  by (simp add: keystroke_parse_def)

theorem trailing_dash_replaces_key_witness:
  "keystroke_parse Linux ''enter-'' = Inr \<lparr>k_modifiers = no_modifiers, k_key = ''-'', k_key_char = None\<rparr>"
proof -
  have "plain_key ''enter''" by code_simp
  then show ?thesis using trailing_dash_replaces_key [of "''enter''" Linux] by simp
qed

text \<open>
  \<^verbatim>\<open>is_subset_of\<close> is the subset order on modifiers: it holds exactly when every modifier of
  the first is one of the second, exclusive or undoes itself, and the union contains both.
\<close>

theorem modifiers_algebra:
  "(is_subset_of a b \<longleftrightarrow> modifiers_or a b = b) \<and> is_subset_of a (modifiers_or a b) \<and>
   modifiers_xor (modifiers_xor a b) b = a \<and>
   number_of_modifiers (modifiers_or a b) + number_of_modifiers (modifiers_and a b) =
     number_of_modifiers a + number_of_modifiers b"
  by (cases a; cases b)
    (auto simp: is_subset_of_def modifiers_and_def modifiers_or_def modifiers_xor_def number_of_modifiers_def)

end
