(* ===== verification/Keymap.thy ===== *)
theory Keymap
  imports Keystroke
begin

text \<open>
  The keymap (\<^verbatim>\<open>crates/gpui/src/keymap.rs\<close>, \<^verbatim>\<open>keymap/binding.rs\<close>): key bindings, the index of the
  bindings by action, and how the bindings for an input are ranked and suppressed.

  A \<^verbatim>\<open>dyn Action\<close> is \<^verbatim>\<open>NoAction\<close>, \<^verbatim>\<open>Unbind\<close> or an action of the application, which has a type, the
  name of the type and a value. The keyboard mapper of the platform is an argument.
\<close>

section \<open>Actions\<close>

datatype type_id = T_No_Action | T_Unbind | T_User nat

datatype 'u action = No_Action | Unbind string | User_Action nat string 'u

fun action_type_id :: "'u action \<Rightarrow> type_id" where
  "action_type_id No_Action = T_No_Action"
| "action_type_id (Unbind _) = T_Unbind"
| "action_type_id (User_Action t _ _) = T_User t"

fun action_name :: "'u action \<Rightarrow> string" where
  "action_name No_Action = ''zed::NoAction''"
| "action_name (Unbind _) = ''zed::Unbind''"
| "action_name (User_Action _ n _) = n"

fun is_no_action :: "'u action \<Rightarrow> bool" where
  "is_no_action No_Action = True"
| "is_no_action _ = False"

fun is_unbind :: "'u action \<Rightarrow> bool" where
  "is_unbind (Unbind _) = True"
| "is_unbind _ = False"

section \<open>Bindings\<close>

record 'u key_binding =
  b_action :: "'u action"
  b_keystrokes :: "keybinding_keystroke list"
  b_context_predicate :: "predicate option"
  b_meta :: "nat option"
  b_action_input :: "string option"

text \<open>\<^verbatim>\<open>str::split_whitespace\<close>: the pieces between white space that are not empty.\<close>

fun split_when :: "(char \<Rightarrow> bool) \<Rightarrow> string \<Rightarrow> string list" where
  "split_when P [] = [[]]"
| "split_when P (c # cs) =
     (if P c then [] # split_when P cs
      else (case split_when P cs of w # ws \<Rightarrow> (c # w) # ws | [] \<Rightarrow> [[c]]))"

definition split_whitespace :: "string \<Rightarrow> string list" where
  "split_whitespace s = filter (\<lambda>w. w \<noteq> []) (split_when is_whitespace s)"

text \<open>The map over the pieces collected into one \<^verbatim>\<open>Result\<close>: the first error ends it.\<close>

fun parse_keystrokes ::
    "target_os \<Rightarrow> (keystroke \<Rightarrow> bool \<Rightarrow> keybinding_keystroke) \<Rightarrow> bool \<Rightarrow> string list
      \<Rightarrow> string + keybinding_keystroke list" where
  "parse_keystrokes os map_key_equivalent use_key_equivalents [] = Inr []"
| "parse_keystrokes os map_key_equivalent use_key_equivalents (source # rest) =
     (case keystroke_parse os source of
        Inl e \<Rightarrow> Inl e
      | Inr keystroke \<Rightarrow>
          (case parse_keystrokes os map_key_equivalent use_key_equivalents rest of
             Inl e \<Rightarrow> Inl e
           | Inr ks \<Rightarrow> Inr (map_key_equivalent keystroke use_key_equivalents # ks)))"

definition binding_load ::
    "target_os \<Rightarrow> string \<Rightarrow> 'u action \<Rightarrow> predicate option \<Rightarrow> bool \<Rightarrow> string option
      \<Rightarrow> (keystroke \<Rightarrow> bool \<Rightarrow> keybinding_keystroke) \<Rightarrow> string + 'u key_binding" where
  "binding_load os keystrokes action context_predicate use_key_equivalents action_input map_key_equivalent =
     (case parse_keystrokes os map_key_equivalent use_key_equivalents (split_whitespace keystrokes) of
        Inl e \<Rightarrow> Inl e
      | Inr ks \<Rightarrow>
          Inr \<lparr>b_action = action, b_keystrokes = ks, b_context_predicate = context_predicate, b_meta = None,
               b_action_input = action_input\<rparr>)"

definition dummy_mapper :: "target_os \<Rightarrow> keystroke \<Rightarrow> bool \<Rightarrow> keybinding_keystroke" where
  "dummy_mapper os keystroke use_key_equivalents = from_keystroke os keystroke"

text \<open>\<^verbatim>\<open>Result::unwrap\<close>\<close>

fun unwrap :: "'e + 'a \<Rightarrow> 'a option" where
  "unwrap (Inl e) = None"
| "unwrap (Inr x) = Some x"

definition binding_new :: "target_os \<Rightarrow> string \<Rightarrow> 'u action \<Rightarrow> string option \<Rightarrow> 'u key_binding option" where
  "binding_new os keystrokes action context = do {
     context_predicate \<leftarrow>
       (case context of None \<Rightarrow> Some None | Some c \<Rightarrow> map_option Some (unwrap (predicate_parse c)));
     unwrap (binding_load os keystrokes action context_predicate False None (dummy_mapper os)) }"

definition with_meta :: "nat \<Rightarrow> 'u key_binding \<Rightarrow> 'u key_binding" where
  "with_meta meta b = b\<lparr>b_meta := Some meta\<rparr>"

definition match_keystrokes :: "target_os \<Rightarrow> 'u key_binding \<Rightarrow> keystroke list \<Rightarrow> bool option" where
  "match_keystrokes os b typed =
     (if length (b_keystrokes b) < length typed then None
      else if list_ex (\<lambda>(target, typed). \<not> should_match os typed target) (zip (b_keystrokes b) typed) then None
      else Some (length typed < length (b_keystrokes b)))"

section \<open>The keymap\<close>

record 'u keymap =
  km_bindings :: "'u key_binding list"
  km_indices_by_action_id :: "type_id \<Rightarrow> nat list option"
  km_disabled_indices :: "nat list"
  km_version :: nat

definition keymap_default :: "'u keymap" where
  "keymap_default = \<lparr>km_bindings = [], km_indices_by_action_id = (\<lambda>_. None), km_disabled_indices = [], km_version = 0\<rparr>"

definition disables :: "'u key_binding \<Rightarrow> bool" where
  "disables b = (is_no_action (b_action b) \<or> is_unbind (b_action b))"

definition disabled_binding_matches_context :: "'u key_binding \<Rightarrow> 'u key_binding \<Rightarrow> bool" where
  "disabled_binding_matches_context disabled b =
     (case (b_context_predicate disabled, b_context_predicate b) of
        (None, _) \<Rightarrow> True
      | (Some _, None) \<Rightarrow> False
      | (Some disabled_predicate, Some predicate) \<Rightarrow> is_superset disabled_predicate predicate)"

definition binding_is_unbound :: "'u key_binding \<Rightarrow> 'u key_binding \<Rightarrow> bool" where
  "binding_is_unbound disabled b =
     (b_keystrokes disabled = b_keystrokes b \<and>
      (case b_action disabled of Unbind name \<Rightarrow> name = action_name (b_action b) | _ \<Rightarrow> False))"

definition add_binding :: "'u key_binding \<Rightarrow> 'u keymap \<Rightarrow> 'u keymap" where
  "add_binding b km =
     (let n = length (km_bindings km); id = action_type_id (b_action b);
          km' = (if disables b then km\<lparr>km_disabled_indices := km_disabled_indices km @ [n]\<rparr>
                 else km\<lparr>km_indices_by_action_id := (km_indices_by_action_id km)
                   (id \<mapsto> (case km_indices_by_action_id km id of None \<Rightarrow> [] | Some is \<Rightarrow> is) @ [n])\<rparr>)
      in km'\<lparr>km_bindings := km_bindings km @ [b]\<rparr>)"

definition add_bindings :: "'u key_binding list \<Rightarrow> 'u keymap \<Rightarrow> 'u keymap" where
  "add_bindings bs km = (let km' = fold add_binding bs km in km'\<lparr>km_version := km_version km' + 1\<rparr>)"

definition keymap_new :: "'u key_binding list \<Rightarrow> 'u keymap" where
  "keymap_new bs = add_bindings bs keymap_default"

definition keymap_clear :: "'u keymap \<Rightarrow> 'u keymap" where
  "keymap_clear km =
     km\<lparr>km_bindings := [], km_indices_by_action_id := (\<lambda>_. None), km_disabled_indices := [],
        km_version := km_version km + 1\<rparr>"

text \<open>The loop of \<^verbatim>\<open>bindings_for_action\<close> over the disabled bindings: whether one hides the binding at \<open>ix\<close>.\<close>

fun disabled_after :: "'u keymap \<Rightarrow> nat \<Rightarrow> 'u key_binding \<Rightarrow> nat list \<Rightarrow> bool option" where
  "disabled_after km ix b [] = Some False"
| "disabled_after km ix b (disabled_ix # rest) =
     (if ix < disabled_ix then do {
        disabled \<leftarrow> get_opt (km_bindings km) disabled_ix;
        (if b_keystrokes disabled \<noteq> b_keystrokes b then disabled_after km ix b rest
         else if is_no_action (b_action disabled) then
           (if disabled_binding_matches_context disabled b then Some True else disabled_after km ix b rest)
         else if is_unbind (b_action disabled) \<and> disabled_binding_matches_context disabled b \<and>
                 binding_is_unbound disabled b then Some True
         else disabled_after km ix b rest) }
      else disabled_after km ix b rest)"

fun action_bindings :: "'u keymap \<Rightarrow> 'u action \<Rightarrow> nat list \<Rightarrow> 'u key_binding list option" where
  "action_bindings km action [] = Some []"
| "action_bindings km action (ix # rest) = do {
     b \<leftarrow> get_opt (km_bindings km) ix;
     hidden \<leftarrow> (if b_action b \<noteq> action then Some True else disabled_after km ix b (km_disabled_indices km));
     bs \<leftarrow> action_bindings km action rest;
     Some (if hidden then bs else b # bs) }"

definition bindings_for_action :: "'u keymap \<Rightarrow> 'u action \<Rightarrow> 'u key_binding list option" where
  "bindings_for_action km action =
     action_bindings km action
       (case km_indices_by_action_id km (action_type_id action) of None \<Rightarrow> [] | Some is \<Rightarrow> is)"

definition all_bindings_for_input :: "target_os \<Rightarrow> 'u keymap \<Rightarrow> keystroke list \<Rightarrow> 'u key_binding list" where
  "all_bindings_for_input os km input =
     filter (\<lambda>b. match_keystrokes os b input = Some False) (rev (km_bindings km))"

section \<open>Bindings for an input\<close>

definition binding_enabled :: "'u key_binding \<Rightarrow> key_context list \<Rightarrow> nat option" where
  "binding_enabled b contexts =
     (case b_context_predicate b of Some predicate \<Rightarrow> depth_of predicate contexts | None \<Rightarrow> Some (length contexts))"

text \<open>\<^verbatim>\<open>(usize, BindingIndex, &KeyBinding)\<close>: the depth, the index and the binding.\<close>

type_synonym 'u ranked = "nat \<times> nat \<times> 'u key_binding"

text \<open>The first loop of \<^verbatim>\<open>bindings_for_input\<close>: the bindings that match and those that are pending.\<close>

fun match_loop ::
    "target_os \<Rightarrow> keystroke list \<Rightarrow> key_context list \<Rightarrow> (nat \<times> 'u key_binding) list
      \<Rightarrow> 'u ranked list \<times> (nat \<times> 'u key_binding) list" where
  "match_loop os input context_stack [] = ([], [])"
| "match_loop os input context_stack ((ix, b) # rest) =
     (let (matched, pending_bindings) = match_loop os input context_stack rest
      in (case binding_enabled b context_stack of
            None \<Rightarrow> (matched, pending_bindings)
          | Some depth \<Rightarrow>
              (case match_keystrokes os b input of
                 None \<Rightarrow> (matched, pending_bindings)
               | Some pending \<Rightarrow>
                   (if \<not> pending then ((depth, ix, b) # matched, pending_bindings)
                    else (matched, (ix, b) # pending_bindings)))))"

fun then_cmp :: "ordering \<Rightarrow> ordering \<Rightarrow> ordering" where
  "then_cmp Equal o2 = o2"
| "then_cmp o1 o2 = o1"

definition rank_cmp :: "'u ranked \<Rightarrow> 'u ranked \<Rightarrow> ordering" where
  "rank_cmp = (\<lambda>(depth_a, ix_a, _) (depth_b, ix_b, _). then_cmp (ord_cmp depth_b depth_a) (ord_cmp ix_b ix_a))"

record 'u resolve_state =
  rs_bindings :: "'u key_binding list"
  rs_first_index :: "nat option"
  rs_unbound :: "'u key_binding list"
  rs_no_action_meta :: "nat option"

definition meta_of :: "'u key_binding \<Rightarrow> nat" where
  "meta_of b = (case b_meta b of None \<Rightarrow> 0 | Some m \<Rightarrow> m)"

text \<open>The second loop: suppression by the \<^verbatim>\<open>NoAction\<close> and \<^verbatim>\<open>Unbind\<close> bindings that rank higher.\<close>

definition resolve_step :: "'u ranked \<Rightarrow> 'u resolve_state \<Rightarrow> 'u resolve_state" where
  "resolve_step = (\<lambda>(depth, ix, b) st.
     (if is_no_action (b_action b) then
        st\<lparr>rs_no_action_meta := Some (case rs_no_action_meta st of None \<Rightarrow> meta_of b | Some existing \<Rightarrow> min existing (meta_of b))\<rparr>
      else if (case rs_no_action_meta st of None \<Rightarrow> False | Some no_action_meta \<Rightarrow> no_action_meta \<le> meta_of b) then st
      else if is_unbind (b_action b) then st\<lparr>rs_unbound := rs_unbound st @ [b]\<rparr>
      else if list_ex (\<lambda>disabled. binding_is_unbound disabled b) (rs_unbound st) then st
      else st\<lparr>rs_bindings := rs_bindings st @ [b],
              rs_first_index := (case rs_first_index st of None \<Rightarrow> Some ix | Some i \<Rightarrow> Some i)\<rparr>))"

definition resolve :: "'u ranked list \<Rightarrow> 'u resolve_state" where
  "resolve matched =
     fold resolve_step matched \<lparr>rs_bindings = [], rs_first_index = None, rs_unbound = [], rs_no_action_meta = None\<rparr>"

text \<open>The third loop, from the earliest binding to the latest: the keystrokes that may still be completed.\<close>

definition pending_step ::
    "nat option \<Rightarrow> nat \<times> 'u key_binding \<Rightarrow> keybinding_keystroke list set \<Rightarrow> keybinding_keystroke list set" where
  "pending_step first_binding_index = (\<lambda>(ix, b) pending.
     (if (case first_binding_index of Some binding_ix \<Rightarrow> ix < binding_ix | None \<Rightarrow> False) then pending
      else if disables b then pending - {b_keystrokes b}
      else insert (b_keystrokes b) pending))"

definition bindings_for_input ::
    "target_os \<Rightarrow> 'u keymap \<Rightarrow> keystroke list \<Rightarrow> key_context list \<Rightarrow> 'u key_binding list \<times> bool" where
  "bindings_for_input os km input context_stack =
     (let (matched, pending_bindings) = match_loop os input context_stack (rev (enumerate 0 (km_bindings km)));
          st = resolve (sort_by rank_cmp matched);
          pending = fold (pending_step (rs_first_index st)) (rev pending_bindings) {}
      in (rs_bindings st, pending \<noteq> {}))"

definition next_candidate ::
    "target_os \<Rightarrow> keystroke list \<Rightarrow> key_context list \<Rightarrow> nat \<times> 'u key_binding \<Rightarrow> 'u ranked option" where
  "next_candidate os input context_stack = (\<lambda>(ix, b). do {
     depth \<leftarrow> binding_enabled b context_stack;
     is_pending \<leftarrow> match_keystrokes os b input;
     (if \<not> is_pending \<or> disables b then None else Some (depth, ix, b)) })"

definition possible_next_bindings_for_input ::
    "target_os \<Rightarrow> 'u keymap \<Rightarrow> keystroke list \<Rightarrow> key_context list \<Rightarrow> 'u key_binding list" where
  "possible_next_bindings_for_input os km input context_stack =
     map (\<lambda>(_, _, b). b)
       (sort_by rank_cmp (List.map_filter (next_candidate os input context_stack) (rev (enumerate 0 (km_bindings km)))))"

section \<open>The index\<close>

text \<open>
  The index agrees with the bindings: the disabled indices and the indices by action are those of
  the bindings, in the order in which these were added.
\<close>

definition keymap_ok :: "'u keymap \<Rightarrow> bool" where
  "keymap_ok km \<longleftrightarrow>
     km_disabled_indices km = filter (\<lambda>i. disables (km_bindings km ! i)) [0..<length (km_bindings km)] \<and>
     (\<forall>id. (case km_indices_by_action_id km id of None \<Rightarrow> [] | Some is \<Rightarrow> is) =
        filter (\<lambda>i. \<not> disables (km_bindings km ! i) \<and> action_type_id (b_action (km_bindings km ! i)) = id)
          [0..<length (km_bindings km)])"

lemma filter_nth_snoc:
  "filter (\<lambda>i. P ((xs @ [x]) ! i)) [0..<Suc (length xs)] =
   filter (\<lambda>i. P (xs ! i)) [0..<length xs] @ (if P x then [length xs] else [])"
proof -
  have "filter (\<lambda>i. P ((xs @ [x]) ! i)) [0..<length xs] = filter (\<lambda>i. P (xs ! i)) [0..<length xs]"
    by (rule filter_cong) (simp_all add: nth_append)
  then show ?thesis by simp
qed

lemma keymap_default_ok: "keymap_ok keymap_default"
  by (simp add: keymap_ok_def keymap_default_def)

lemma add_binding_bindings [simp]: "km_bindings (add_binding b km) = km_bindings km @ [b]"
  by (simp add: add_binding_def Let_def)

lemma add_binding_version [simp]: "km_version (add_binding b km) = km_version km"
  by (simp add: add_binding_def Let_def)

lemma add_binding_ok:
  assumes "keymap_ok km"
  shows "keymap_ok (add_binding b km)"
proof -
  let ?bs = "km_bindings km" and ?km = "add_binding b km"
  have "km_disabled_indices ?km = filter (\<lambda>i. disables ((?bs @ [b]) ! i)) [0..<Suc (length ?bs)]"
    unfolding filter_nth_snoc using assms by (simp add: keymap_ok_def add_binding_def Let_def)
  moreover have "(case km_indices_by_action_id ?km id of None \<Rightarrow> [] | Some is \<Rightarrow> is) =
      filter (\<lambda>i. \<not> disables ((?bs @ [b]) ! i) \<and> action_type_id (b_action ((?bs @ [b]) ! i)) = id) [0..<Suc (length ?bs)]" for id
    unfolding filter_nth_snoc [where P = "\<lambda>x. \<not> disables x \<and> action_type_id (b_action x) = id"]
    using assms by (auto simp: keymap_ok_def add_binding_def Let_def)
  ultimately show ?thesis by (simp add: keymap_ok_def)
qed

lemma fold_add_binding:
  "keymap_ok km \<Longrightarrow> keymap_ok (fold add_binding bs km) \<and>
   km_bindings (fold add_binding bs km) = km_bindings km @ bs \<and> km_version (fold add_binding bs km) = km_version km"
  by (induction bs arbitrary: km) (simp_all add: add_binding_ok)

lemma add_bindings_ok:
  assumes "keymap_ok km"
  shows "keymap_ok (add_bindings bs km)" "km_bindings (add_bindings bs km) = km_bindings km @ bs"
    "km_version (add_bindings bs km) = km_version km + 1"
  using fold_add_binding [OF assms, of bs] by (simp_all add: add_bindings_def Let_def keymap_ok_def)

section \<open>Bindings of an action\<close>

text \<open>A later \<^verbatim>\<open>NoAction\<close> or \<^verbatim>\<open>Unbind\<close> for the same keystrokes hides a binding.\<close>

definition hides :: "'u key_binding \<Rightarrow> 'u key_binding \<Rightarrow> bool" where
  "hides disabled b \<longleftrightarrow> b_keystrokes disabled = b_keystrokes b \<and> disabled_binding_matches_context disabled b \<and>
     (is_no_action (b_action disabled) \<or> binding_is_unbound disabled b)"

lemma unbound_is_unbind: "binding_is_unbound d b \<Longrightarrow> is_unbind (b_action d)"
  by (cases "b_action d") (simp_all add: binding_is_unbound_def)

lemma no_action_not_unbind [simp]: "is_no_action a \<Longrightarrow> \<not> is_unbind a"
  by (cases a) simp_all

lemma disabled_after_spec:
  assumes "\<forall>d \<in> set ds. d < length (km_bindings km)"
  shows "disabled_after km ix b ds = Some (\<exists>d \<in> set ds. ix < d \<and> hides (km_bindings km ! d) b)"
  using assms
proof (induction ds)
  case (Cons d ds)
  then show ?case using unbound_is_unbind [of "km_bindings km ! d" b] by (auto simp: hides_def)
qed simp

definition shown :: "'u key_binding list \<Rightarrow> nat \<Rightarrow> bool" where
  "shown bs i \<longleftrightarrow> \<not> list_ex (\<lambda>d. hides (bs ! d) (bs ! i)) [Suc i..<length bs]"

lemma disables_hides: "hides d b \<Longrightarrow> disables d"
  using unbound_is_unbind by (auto simp: hides_def disables_def)

lemma disabled_after_ok:
  assumes "keymap_ok km"
  shows "disabled_after km ix b (km_disabled_indices km) =
         Some (list_ex (\<lambda>d. hides (km_bindings km ! d) b) [Suc ix..<length (km_bindings km)])"
proof -
  have ds: "set (km_disabled_indices km) = {d. d < length (km_bindings km) \<and> disables (km_bindings km ! d)}"
    using assms by (auto simp: keymap_ok_def)
  have "(\<exists>d \<in> set (km_disabled_indices km). ix < d \<and> hides (km_bindings km ! d) b) \<longleftrightarrow>
      list_ex (\<lambda>d. hides (km_bindings km ! d) b) [Suc ix..<length (km_bindings km)]"
    unfolding ds list_ex_iff using disables_hides Suc_le_eq by fastforce
  then show ?thesis using ds by (subst disabled_after_spec) auto
qed

lemma action_bindings_ok:
  assumes "keymap_ok km" "\<forall>i \<in> set is. i < length (km_bindings km)"
  shows "action_bindings km action is =
         Some (map (\<lambda>i. km_bindings km ! i)
           (filter (\<lambda>i. b_action (km_bindings km ! i) = action \<and> shown (km_bindings km) i) is))"
  using assms(2)
  by (induction "is") (auto simp: disabled_after_ok [OF assms(1)] shown_def)

lemma action_indices:
  assumes "keymap_ok km"
  shows "filter (\<lambda>i. b_action (km_bindings km ! i) = action \<and> shown (km_bindings km) i)
           (case km_indices_by_action_id km (action_type_id action) of None \<Rightarrow> [] | Some is \<Rightarrow> is) =
         filter (\<lambda>i. b_action (km_bindings km ! i) = action \<and> \<not> disables (km_bindings km ! i) \<and> shown (km_bindings km) i)
           [0..<length (km_bindings km)]"
proof -
  have "(case km_indices_by_action_id km (action_type_id action) of None \<Rightarrow> [] | Some is \<Rightarrow> is) =
      filter (\<lambda>i. \<not> disables (km_bindings km ! i) \<and> action_type_id (b_action (km_bindings km ! i)) = action_type_id action)
        [0..<length (km_bindings km)]"
    using assms by (simp add: keymap_ok_def)
  then show ?thesis by (simp only: filter_filter) (rule filter_cong, auto)
qed

section \<open>Matching\<close>

lemma mismatch_iff:
  "list_ex (\<lambda>(target, typed). \<not> should_match os typed target) (zip ks input) \<longleftrightarrow>
   (\<exists>i < min (length ks) (length input). \<not> should_match os (input ! i) (ks ! i))"
  by (auto simp: list_ex_iff set_zip)

lemma match_keystrokes_exact:
  "match_keystrokes os b input = Some False \<longleftrightarrow> list_all2 (should_match os) input (b_keystrokes b)"
  unfolding match_keystrokes_def mismatch_iff by (auto simp: list_all2_conv_all_nth)

lemma match_keystrokes_pending:
  "match_keystrokes os b input = Some True \<longleftrightarrow> length input < length (b_keystrokes b) \<and>
     list_all2 (should_match os) input (take (length input) (b_keystrokes b))"
  unfolding match_keystrokes_def mismatch_iff by (auto simp: list_all2_conv_all_nth)

section \<open>Ranking\<close>

definition awaits :: "target_os \<Rightarrow> keystroke list \<Rightarrow> key_context list \<Rightarrow> 'u key_binding \<Rightarrow> bool" where
  "awaits os input contexts b \<longleftrightarrow> binding_enabled b contexts \<noteq> None \<and> match_keystrokes os b input = Some True"

text \<open>The bindings that match an input, by descending precedence.\<close>

definition ranked_matches :: "target_os \<Rightarrow> 'u keymap \<Rightarrow> keystroke list \<Rightarrow> key_context list \<Rightarrow> 'u ranked list" where
  "ranked_matches os km input contexts =
     sort_by rank_cmp (fst (match_loop os input contexts (rev (enumerate 0 (km_bindings km)))))"

definition outranks :: "'u ranked \<Rightarrow> 'u ranked \<Rightarrow> bool" where
  "outranks = (\<lambda>(d, i, _) (d', i', _). d' < d \<or> d = d' \<and> i' < i)"

lemma match_loop_matched:
  "set (fst (match_loop os input contexts xs)) =
   {(d, i, b). (i, b) \<in> set xs \<and> binding_enabled b contexts = Some d \<and> match_keystrokes os b input = Some False}"
  by (induction os input contexts xs rule: match_loop.induct) (auto split: option.splits prod.splits)

lemma match_loop_pending:
  "snd (match_loop os input contexts xs) = filter (\<lambda>(i, b). awaits os input contexts b) xs"
  by (induction os input contexts xs rule: match_loop.induct) (auto simp: awaits_def split: option.splits prod.splits)

lemma match_loop_distinct: "distinct (map fst xs) \<Longrightarrow> distinct (fst (match_loop os input contexts xs))"
proof (induction os input contexts xs rule: match_loop.induct)
  case (2 os input contexts ix b rest)
  then have "(d, ix, b) \<notin> set (fst (match_loop os input contexts rest))" for d
    by (force simp: match_loop_matched)
  then show ?case using 2 by (auto split: option.splits prod.splits)
qed simp

lemma rank_cmp_outranks:
  "fst (snd x) \<noteq> fst (snd y) \<Longrightarrow> if rank_cmp x y = Greater then outranks y x else outranks x y"
proof -
  obtain d i b d' i' b' where xy: "x = (d, i, b)" "y = (d', i', b')" by (metis prod.exhaust)
  assume "fst (snd x) \<noteq> fst (snd y)"
  then show ?thesis by (cases d' d rule: linorder_cases; cases i' i rule: linorder_cases)
      (auto simp: xy rank_cmp_def outranks_def ord_cmp_def)
qed

lemma outranks_trans: "outranks a b \<Longrightarrow> outranks b c \<Longrightarrow> outranks a c"
  by (auto simp: outranks_def split: prod.splits)

lemma set_enumerate_nth: "(i, b) \<in> set (enumerate 0 bs) \<longleftrightarrow> i < length bs \<and> b = bs ! i"
  by (auto simp: in_set_enumerate_eq)

lemma set_ranked_matches:
  "set (ranked_matches os km input contexts) =
   {(d, i, b). i < length (km_bindings km) \<and> b = km_bindings km ! i \<and> binding_enabled b contexts = Some d \<and>
      match_keystrokes os b input = Some False}"
  unfolding ranked_matches_def set_sort_by match_loop_matched set_rev set_enumerate_nth by auto

lemma sorted_by_rank:
  assumes "distinct xs" "\<And>d i b. (d, i, b) \<in> set xs \<Longrightarrow> b = bs ! i \<and> binding_enabled b contexts = Some d"
  shows "sorted_wrt outranks (sort_by rank_cmp xs)"
proof (rule sorted_sort_by [OF assms(1)])
  fix x y assume "x \<in> set xs" "y \<in> set xs" "x \<noteq> y"
  then have "fst (snd x) \<noteq> fst (snd y)"
    using assms(2) by (metis option.inject prod.collapse)
  then show "if rank_cmp x y = Greater then outranks y x else outranks x y" by (rule rank_cmp_outranks)
qed (rule outranks_trans)

lemma sorted_ranked_matches: "sorted_wrt outranks (ranked_matches os km input contexts)"
  unfolding ranked_matches_def
  by (rule sorted_by_rank [of _ "km_bindings km" contexts])
    (auto simp: match_loop_distinct rev_map [symmetric] match_loop_matched set_enumerate_nth)

section \<open>Suppression\<close>

definition ranked_binding :: "'u ranked list \<Rightarrow> nat \<Rightarrow> 'u key_binding" where
  "ranked_binding r i = snd (snd (r ! i))"

text \<open>Some \<^verbatim>\<open>NoAction\<close> that ranks higher comes from a source of at least the same strength.\<close>

definition silenced :: "'u ranked list \<Rightarrow> nat \<Rightarrow> bool" where
  "silenced r i \<longleftrightarrow>
     list_ex (\<lambda>j. is_no_action (b_action (ranked_binding r j)) \<and> meta_of (ranked_binding r j) \<le> meta_of (ranked_binding r i)) [0..<i]"

text \<open>The binding of rank \<open>i\<close> takes effect: neither silenced nor the target of an \<^verbatim>\<open>Unbind\<close> that is in force.\<close>

definition takes_effect :: "'u ranked list \<Rightarrow> nat \<Rightarrow> bool" where
  "takes_effect r i \<longleftrightarrow> \<not> disables (ranked_binding r i) \<and> \<not> silenced r i \<and>
     \<not> list_ex (\<lambda>j. \<not> silenced r j \<and> binding_is_unbound (ranked_binding r j) (ranked_binding r i)) [0..<i]"

lemma ranked_append [simp]: "i < length xs \<Longrightarrow> ranked_binding (xs @ ys) i = ranked_binding xs i"
  "ranked_binding (xs @ [x]) (length xs) = snd (snd x)"
  by (simp_all add: ranked_binding_def nth_append)

lemma silenced_append [simp]: "i < length xs \<Longrightarrow> silenced (xs @ ys) i = silenced xs i"
  by (auto simp: silenced_def list_ex_iff)

lemma takes_effect_append [simp]: "i < length xs \<Longrightarrow> takes_effect (xs @ ys) i = takes_effect xs i"
  by (auto simp: takes_effect_def list_ex_iff)

definition effective :: "'u ranked list \<Rightarrow> nat list" where
  "effective r = filter (takes_effect r) [0..<length r]"

lemma effective_snoc: "effective (r @ [x]) = effective r @ (if takes_effect (r @ [x]) (length r) then [length r] else [])"
proof -
  have "filter (takes_effect (r @ [x])) [0..<length r] = filter (takes_effect r) [0..<length r]"
    by (rule filter_cong) simp_all
  then show ?thesis by (simp add: effective_def)
qed

definition resolve_inv :: "'u ranked list \<Rightarrow> 'u resolve_state \<Rightarrow> bool" where
  "resolve_inv r st \<longleftrightarrow>
     rs_bindings st = map (ranked_binding r) (effective r) \<and>
     rs_first_index st = map_option (\<lambda>i. fst (snd (r ! i))) (first_opt (effective r)) \<and>
     set (rs_unbound st) = {ranked_binding r j | j. j < length r \<and> is_unbind (b_action (ranked_binding r j)) \<and> \<not> silenced r j} \<and>
     (\<forall>k. (case rs_no_action_meta st of None \<Rightarrow> False | Some m \<Rightarrow> m \<le> k) \<longleftrightarrow>
        (\<exists>j < length r. is_no_action (b_action (ranked_binding r j)) \<and> meta_of (ranked_binding r j) \<le> k))"

lemma resolve_inv_step:
  assumes inv: "resolve_inv r st"
  shows "resolve_inv (r @ [x]) (resolve_step x st)"
proof -
  let ?b = "snd (snd x)" and ?n = "length r" and ?r = "r @ [x]"
  obtain d ix b where x: "x = (d, ix, b)" by (metis prod.exhaust)
  have sil: "silenced ?r ?n \<longleftrightarrow> (case rs_no_action_meta st of None \<Rightarrow> False | Some m \<Rightarrow> m \<le> meta_of b)"
    using inv unfolding resolve_inv_def by (auto simp: silenced_def list_ex_iff x)
  have unb: "list_ex (\<lambda>disabled. binding_is_unbound disabled b) (rs_unbound st) \<longleftrightarrow>
      list_ex (\<lambda>j. \<not> silenced ?r j \<and> binding_is_unbound (ranked_binding ?r j) b) [0..<?n]"
    using inv unbound_is_unbind unfolding resolve_inv_def by (fastforce simp: list_ex_iff)
  have eff: "takes_effect ?r ?n \<longleftrightarrow> \<not> disables b \<and> \<not> silenced ?r ?n \<and>
      \<not> list_ex (\<lambda>disabled. binding_is_unbound disabled b) (rs_unbound st)"
    unfolding unb by (simp add: takes_effect_def x)
  have all: "(\<exists>j < length ?r. P j) \<longleftrightarrow> (\<exists>j < ?n. P j) \<or> P ?n" for P by (auto simp: less_Suc_eq)
  have coll: "{ranked_binding ?r j | j. j < length ?r \<and> is_unbind (b_action (ranked_binding ?r j)) \<and> \<not> silenced ?r j} =
      {ranked_binding r j | j. j < ?n \<and> is_unbind (b_action (ranked_binding r j)) \<and> \<not> silenced r j} \<union>
      (if is_unbind (b_action b) \<and> \<not> silenced ?r ?n then {b} else {})"
    by (force simp: less_Suc_eq x)
  have old: "map (ranked_binding ?r) (effective r) = map (ranked_binding r) (effective r)"
    "map_option (\<lambda>i. fst (snd (?r ! i))) (first_opt (effective r)) = map_option (\<lambda>i. fst (snd (r ! i))) (first_opt (effective r))"
    by (auto simp: effective_def nth_append filter_eq_Cons_iff first_opt_def split: list.splits)
      (metis atLeastLessThan_iff filter_eq_Cons_iff in_set_conv_decomp set_upt)+
  have step: "rs_bindings (resolve_step x st) = rs_bindings st @ (if takes_effect ?r ?n then [b] else [])"
    "rs_first_index (resolve_step x st) =
       (if takes_effect ?r ?n then (case rs_first_index st of None \<Rightarrow> Some ix | Some i \<Rightarrow> Some i) else rs_first_index st)"
    "rs_unbound (resolve_step x st) = rs_unbound st @ (if is_unbind (b_action b) \<and> \<not> silenced ?r ?n then [b] else [])"
    "rs_no_action_meta (resolve_step x st) = (if is_no_action (b_action b)
       then Some (case rs_no_action_meta st of None \<Rightarrow> meta_of b | Some m \<Rightarrow> min m (meta_of b)) else rs_no_action_meta st)"
    unfolding eff sil by (auto simp: resolve_step_def x disables_def)
  have "(case rs_no_action_meta (resolve_step x st) of None \<Rightarrow> False | Some m \<Rightarrow> m \<le> k) \<longleftrightarrow>
      (\<exists>j < length ?r. is_no_action (b_action (ranked_binding ?r j)) \<and> meta_of (ranked_binding ?r j) \<le> k)" for k
  proof -
    have "(\<exists>j < ?n. is_no_action (b_action (ranked_binding ?r j)) \<and> meta_of (ranked_binding ?r j) \<le> k) \<longleftrightarrow>
        (case rs_no_action_meta st of None \<Rightarrow> False | Some m \<Rightarrow> m \<le> k)"
      using inv unfolding resolve_inv_def by auto
    then show ?thesis unfolding all step(4) by (auto simp: x min_le_iff_disj split: option.splits)
  qed
  moreover have "rs_first_index (resolve_step x st) = map_option (\<lambda>i. fst (snd (?r ! i))) (first_opt (effective ?r))"
    using inv old(2) unfolding step(2) effective_snoc resolve_inv_def
    by (cases "effective r") (auto simp: x nth_append)
  ultimately show ?thesis
    using inv old(1) unfolding resolve_inv_def coll effective_snoc step(1,3) by (auto simp: x)
qed

lemma resolve_spec: "resolve_inv r (resolve r)"
proof (induction r rule: rev_induct)
  case Nil
  show ?case by (simp add: resolve_inv_def resolve_def effective_def)
next
  case (snoc x r)
  then show ?case using resolve_inv_step [of r _ x] by (simp add: resolve_def)
qed

lemmas resolve_bindings = resolve_spec [unfolded resolve_inv_def, THEN conjunct1]
lemmas resolve_first = resolve_spec [unfolded resolve_inv_def, THEN conjunct2, THEN conjunct1]

section \<open>Pending input\<close>

text \<open>What keeps the keystrokes \<open>ks\<close> in the set after the bindings \<open>ps\<close>: the binding \<open>b\<close> at \<open>i\<close>.\<close>

definition keeps :: "nat option \<Rightarrow> keybinding_keystroke list \<Rightarrow> (nat \<times> 'u key_binding) list \<Rightarrow> nat \<Rightarrow> 'u key_binding \<Rightarrow> bool" where
  "keeps first ks ps i b \<longleftrightarrow> (case first of None \<Rightarrow> True | Some f \<Rightarrow> f \<le> i) \<and> \<not> disables b \<and> b_keystrokes b = ks \<and>
     (\<forall>(j, c) \<in> set ps. i < j \<and> disables c \<longrightarrow> b_keystrokes c \<noteq> ks)"

lemma keeps_snoc:
  assumes "\<And>i b. (i, b) \<in> set ps \<Longrightarrow> i < l"
  shows "(\<exists>(i, b) \<in> set (ps @ [(l, a)]). keeps first ks (ps @ [(l, a)]) i b) \<longleftrightarrow>
    (\<exists>(i, b) \<in> set ps. keeps first ks ps i b) \<and> (disables a \<longrightarrow> b_keystrokes a \<noteq> ks) \<or>
    (case first of None \<Rightarrow> True | Some f \<Rightarrow> f \<le> l) \<and> \<not> disables a \<and> b_keystrokes a = ks"
proof -
  have "keeps first ks (ps @ [(l, a)]) i b \<longleftrightarrow> keeps first ks ps i b \<and> (disables a \<longrightarrow> b_keystrokes a \<noteq> ks)"
    if "(i, b) \<in> set ps" for i b
    using assms [OF that] by (auto simp: keeps_def)
  moreover have "keeps first ks (ps @ [(l, a)]) l a \<longleftrightarrow>
      (case first of None \<Rightarrow> True | Some f \<Rightarrow> f \<le> l) \<and> \<not> disables a \<and> b_keystrokes a = ks"
    using assms by (fastforce simp: keeps_def)
  ultimately show ?thesis by auto
qed

lemma pending_fold:
  assumes "sorted_wrt (<) (map fst ps)"
  shows "ks \<in> fold (pending_step first) ps {} \<longleftrightarrow> (\<exists>(i, b) \<in> set ps. keeps first ks ps i b)"
  using assms
proof (induction ps rule: rev_induct)
  case (snoc p ps)
  obtain l a where p: "p = (l, a)" by force
  have le: "i < l" if "(i, b) \<in> set ps" for i b
    using snoc.prems that by (force simp: p sorted_wrt_append)
  have IH: "ks \<in> fold (pending_step first) ps {} \<longleftrightarrow> (\<exists>(i, b) \<in> set ps. keeps first ks ps i b)"
    using snoc by (simp add: sorted_wrt_append)
  let ?late = "case first of None \<Rightarrow> False | Some f \<Rightarrow> l < f"
  have none: "\<not> ?late" if "\<exists>(i, b) \<in> set ps. keeps first ks ps i b"
    using le that by (fastforce simp: keeps_def split: option.splits)
  have early: "(case first of None \<Rightarrow> True | Some f \<Rightarrow> f \<le> l) \<longleftrightarrow> \<not> ?late" by (cases first) auto
  have step: "ks \<in> fold (pending_step first) (ps @ [p]) {} \<longleftrightarrow>
      ks \<in> fold (pending_step first) ps {} \<and> (?late \<or> \<not> disables a \<or> b_keystrokes a \<noteq> ks) \<or>
      \<not> ?late \<and> \<not> disables a \<and> b_keystrokes a = ks"
    by (auto simp: p pending_step_def split: option.splits)
  have "(\<exists>(i, b) \<in> set (ps @ [p]). keeps first ks (ps @ [p]) i b) \<longleftrightarrow>
      (\<exists>(i, b) \<in> set ps. keeps first ks ps i b) \<and> (disables a \<longrightarrow> b_keystrokes a \<noteq> ks) \<or>
      \<not> ?late \<and> \<not> disables a \<and> b_keystrokes a = ks"
    unfolding p early [symmetric] by (rule keeps_snoc) (rule le)
  then show ?case unfolding step IH using none by argo
qed simp

lemma sorted_enumerate: "sorted_wrt (<) (map fst (enumerate 0 bs))"
  by simp

lemma sorted_filter_fst: "sorted_wrt (<) (map fst xs) \<Longrightarrow> sorted_wrt (<) (map fst (filter P xs))"
  by (simp add: sorted_wrt_map sorted_wrt_filter)

lemma bindings_for_input_eq:
  "bindings_for_input os km input contexts =
     (rs_bindings (resolve (ranked_matches os km input contexts)),
      fold (pending_step (rs_first_index (resolve (ranked_matches os km input contexts))))
        (filter (\<lambda>(i, b). awaits os input contexts b) (enumerate 0 (km_bindings km))) {} \<noteq> {})"
  using match_loop_pending [of os input contexts "rev (enumerate 0 (km_bindings km))"]
  by (simp add: bindings_for_input_def ranked_matches_def Let_def split_beta rev_filter)

definition first_rank :: "'u ranked list \<Rightarrow> nat option" where
  "first_rank r = map_option (\<lambda>i. fst (snd (r ! i))) (first_opt (effective r))"

text \<open>A longer input could still be completed by the binding at \<open>i\<close>.\<close>

definition may_follow :: "target_os \<Rightarrow> 'u keymap \<Rightarrow> keystroke list \<Rightarrow> key_context list \<Rightarrow> nat \<Rightarrow> bool" where
  "may_follow os km input contexts i \<longleftrightarrow>
     (let bs = km_bindings km
      in awaits os input contexts (bs ! i) \<and> \<not> disables (bs ! i) \<and>
         (case first_rank (ranked_matches os km input contexts) of None \<Rightarrow> True | Some f \<Rightarrow> f \<le> i) \<and>
         \<not> list_ex (\<lambda>j. awaits os input contexts (bs ! j) \<and> disables (bs ! j) \<and> b_keystrokes (bs ! j) = b_keystrokes (bs ! i))
             [Suc i..<length bs])"

lemma pending_iff:
  "snd (bindings_for_input os km input contexts) \<longleftrightarrow> list_ex (may_follow os km input contexts) [0..<length (km_bindings km)]"
proof -
  let ?bs = "km_bindings km" and ?f = "first_rank (ranked_matches os km input contexts)"
  let ?ps = "filter (\<lambda>(i, b). awaits os input contexts b) (enumerate 0 ?bs)"
  have mem: "(i, b) \<in> set ?ps \<longleftrightarrow> i < length ?bs \<and> b = ?bs ! i \<and> awaits os input contexts b" for i b
    by (auto simp: set_enumerate_nth)
  have "snd (bindings_for_input os km input contexts) \<longleftrightarrow> (\<exists>ks. ks \<in> fold (pending_step ?f) ?ps {})"
    by (auto simp: bindings_for_input_eq resolve_first first_rank_def)
  also have "\<dots> \<longleftrightarrow> (\<exists>(i, b) \<in> set ?ps. keeps ?f (b_keystrokes b) ?ps i b)"
    unfolding pending_fold [OF sorted_filter_fst [OF sorted_enumerate]] by (force simp: keeps_def)
  also have "\<dots> \<longleftrightarrow> (\<exists>i < length ?bs. awaits os input contexts (?bs ! i) \<and> keeps ?f (b_keystrokes (?bs ! i)) ?ps i (?bs ! i))"
    unfolding Bex_def split_paired_Ex case_prod_conv mem by blast
  also have "\<dots> \<longleftrightarrow> (\<exists>i < length ?bs. may_follow os km input contexts i)"
  proof -
    have "(\<forall>(j, c) \<in> set ?ps. i < j \<and> disables c \<longrightarrow> b_keystrokes c \<noteq> ks) \<longleftrightarrow>
        \<not> list_ex (\<lambda>j. awaits os input contexts (?bs ! j) \<and> disables (?bs ! j) \<and> b_keystrokes (?bs ! j) = ks)
             [Suc i..<length ?bs]" for i ks
      unfolding list_ex_iff Ball_def split_paired_All case_prod_conv mem by (auto simp: Suc_le_eq)
    then show ?thesis unfolding keeps_def may_follow_def Let_def by auto
  qed
  finally show ?thesis by (auto simp: list_ex_iff)
qed

section \<open>Reachable keymaps\<close>

text \<open>The keymaps that the operations build.\<close>

inductive keymap_reachable :: "'u keymap \<Rightarrow> bool" where
  default: "keymap_reachable keymap_default"
| add: "keymap_reachable km \<Longrightarrow> keymap_reachable (add_bindings bs km)"
| clear: "keymap_reachable km \<Longrightarrow> keymap_reachable (keymap_clear km)"

lemma keymap_reachable_ok: "keymap_reachable km \<Longrightarrow> keymap_ok km"
proof (induction rule: keymap_reachable.induct)
  case default
  show ?case by (rule keymap_default_ok)
next
  case (add km bs)
  then show ?case by (simp add: add_bindings_ok)
next
  case (clear km)
  show ?case by (simp add: keymap_ok_def keymap_clear_def)
qed

lemma keymap_new_reachable: "keymap_reachable (keymap_new bs)"
  unfolding keymap_new_def by (intro keymap_reachable.intros)

lemma keymap_new_bindings: "km_bindings (keymap_new bs) = bs"
  unfolding keymap_new_def using add_bindings_ok(2) [OF keymap_default_ok, of bs] by (simp add: keymap_default_def)

section \<open>Loading\<close>

fun join_space :: "string list \<Rightarrow> string" where
  "join_space [] = ''''"
| "join_space [w] = w"
| "join_space (w # ws) = w @ '' '' @ join_space ws"

definition no_space :: "string \<Rightarrow> bool" where
  "no_space w \<longleftrightarrow> list_all (\<lambda>c. \<not> is_whitespace c) w"

lemma split_when_last: "list_all (\<lambda>c. \<not> P c) w \<Longrightarrow> split_when P w = [w]"
  by (induction w) auto

lemma split_when_word: "list_all (\<lambda>c. \<not> P c) w \<Longrightarrow> P d \<Longrightarrow> split_when P (w @ d # s) = w # split_when P s"
  by (induction w) auto

lemma space_is_whitespace: "is_whitespace (CHR '' '')"
  by code_simp

lemma split_whitespace_join:
  "list_all (\<lambda>w. w \<noteq> [] \<and> no_space w) ws \<Longrightarrow> split_whitespace (join_space ws) = ws"
proof (induction ws rule: join_space.induct)
  case (3 w v ws)
  then show ?case
    using split_when_word [of is_whitespace w "CHR '' ''"] space_is_whitespace by (simp add: split_whitespace_def no_space_def)
qed (simp_all add: split_whitespace_def no_space_def split_when_last)

lemma no_space_names:
  "no_space ''fn-''" "no_space ''ctrl-''" "no_space ''alt-''" "no_space ''cmd-''" "no_space ''super-''" "no_space ''win-''"
  "no_space ''shift-''" "no_space ''''"
  by code_simp+

lemma no_space_append: "no_space (v @ w) \<longleftrightarrow> no_space v \<and> no_space w"
  by (simp add: no_space_def)

lemma no_space_unparse: "no_space key \<Longrightarrow> no_space (unparse os m key)"
  unfolding unparse_def by (cases os) (simp_all add: no_space_append no_space_names)

lemma parse_keystrokes_unparse:
  assumes "os \<noteq> OtherOs" "list_all (\<lambda>k. plain_key (k_key k)) ks"
  shows "parse_keystrokes os mapper eq (map (\<lambda>k. unparse os (k_modifiers k) (k_key k)) ks) =
         Inr (map (\<lambda>k. mapper (k\<lparr>k_key_char := None\<rparr>) eq) ks)"
  using assms(2) by (induction ks) (simp_all add: parse_unparse [OF assms(1)])

lemma unparse_ne: "plain_key key \<Longrightarrow> unparse os m key \<noteq> []"
  using plain_keyD(2) by (simp add: unparse_def)

lemma load_unparsed:
  assumes "os \<noteq> OtherOs" "list_all (\<lambda>k. plain_key (k_key k) \<and> no_space (k_key k)) ks"
  shows "binding_load os (join_space (map (\<lambda>k. unparse os (k_modifiers k) (k_key k)) ks)) action predicate eq inp mapper =
     Inr \<lparr>b_action = action, b_keystrokes = map (\<lambda>k. mapper (k\<lparr>k_key_char := None\<rparr>) eq) ks,
          b_context_predicate = predicate, b_meta = None, b_action_input = inp\<rparr>"
proof -
  have "list_all (\<lambda>w. w \<noteq> [] \<and> no_space w) (map (\<lambda>k. unparse os (k_modifiers k) (k_key k)) ks)"
    using assms(2) unparse_ne no_space_unparse by (auto simp: list_all_iff)
  moreover have "list_all (\<lambda>k. plain_key (k_key k)) ks" using assms(2) by (simp add: list_all_iff)
  ultimately show ?thesis
    by (simp add: binding_load_def split_whitespace_join parse_keystrokes_unparse [OF assms(1)])
qed

section \<open>Following bindings\<close>

lemma set_map_filter: "set (List.map_filter f xs) = {y. \<exists>x \<in> set xs. f x = Some y}"
  by (force simp: List.map_filter_def)

lemma set_next_bindings:
  "set (possible_next_bindings_for_input os km input contexts) =
   {b \<in> set (km_bindings km). awaits os input contexts b \<and> \<not> disables b}"
proof -
  have cand: "next_candidate os input contexts (i, b) = Some (d, i', b') \<longleftrightarrow>
      i' = i \<and> b' = b \<and> binding_enabled b contexts = Some d \<and> match_keystrokes os b input = Some True \<and> \<not> disables b" for i b d i' b'
    by (auto simp: next_candidate_def split: Option.bind_splits)
  have "b \<in> set (possible_next_bindings_for_input os km input contexts) \<longleftrightarrow>
      (\<exists>d i'. \<exists>(i, c) \<in> set (enumerate 0 (km_bindings km)). next_candidate os input contexts (i, c) = Some (d, i', b))" for b
    unfolding possible_next_bindings_for_input_def set_map set_sort_by set_map_filter by force
  moreover have "b \<in> set (km_bindings km) \<longleftrightarrow> (\<exists>i. (i, b) \<in> set (enumerate 0 (km_bindings km)))" for b
    unfolding set_enumerate_nth by (auto simp: in_set_conv_nth)
  ultimately show ?thesis by (fastforce simp: cand awaits_def)
qed

section \<open>Properties\<close>

text \<open>
  Claim C4. The result of \<^verbatim>\<open>bindings_for_input\<close> is determined by precedence. The bindings whose context
  predicate holds and whose keystrokes match the input are ranked by the depth of the match and,
  at the same depth, by the order in which they were added, later first; of these exactly those are
  returned, in that order, that are no markers themselves and are neither silenced by a \<^verbatim>\<open>NoAction\<close>
  of higher rank from a source at least as strong nor the target of an \<^verbatim>\<open>Unbind\<close> of higher rank
  that is itself not silenced.
\<close>

theorem bindings_for_input_by_precedence:
  "sorted_wrt outranks (ranked_matches os km input contexts) \<and>
   set (ranked_matches os km input contexts) =
     {(d, i, b). i < length (km_bindings km) \<and> b = km_bindings km ! i \<and> binding_enabled b contexts = Some d \<and>
        list_all2 (should_match os) input (b_keystrokes b)} \<and>
   fst (bindings_for_input os km input contexts) =
     map (ranked_binding (ranked_matches os km input contexts)) (effective (ranked_matches os km input contexts))"
  by (simp add: sorted_ranked_matches set_ranked_matches match_keystrokes_exact bindings_for_input_eq resolve_bindings)

text \<open>
  The boolean of \<^verbatim>\<open>bindings_for_input\<close> is true exactly when a longer input could still match:
  some binding that is no marker is enabled, has the input as a proper prefix of its keystrokes, was
  not added before the binding that wins, and no later enabled marker removes the same keystrokes.
\<close>

theorem pending_iff_some_binding_may_follow:
  "snd (bindings_for_input os km input contexts) \<longleftrightarrow>
   list_ex (may_follow os km input contexts) [0..<length (km_bindings km)]"
  by (rule pending_iff)

text \<open>
  Claim C32. Whatever bindings are added and however often the keymap is cleared, its index agrees with
  its bindings: the disabled indices are those of the markers, the indices of an action type are those
  of its bindings, each in the order of insertion and in range.
\<close>

theorem keymap_index_invariant:
  assumes "keymap_reachable km"
  shows "keymap_ok km \<and> keymap_ok (add_bindings bs km) \<and> km_bindings (add_bindings bs km) = km_bindings km @ bs \<and>
    km_version (add_bindings bs km) = km_version km + 1 \<and> km_version (keymap_clear km) = km_version km + 1"
proof -
  have ok: "keymap_ok km" by (rule keymap_reachable_ok [OF assms])
  show ?thesis using ok add_bindings_ok [OF ok] by (simp add: keymap_clear_def)
qed

definition sample_binding :: "unit action \<Rightarrow> unit key_binding" where
  "sample_binding a =
     \<lparr>b_action = a, b_keystrokes = [from_keystroke Linux \<lparr>k_modifiers = no_modifiers, k_key = ''x'', k_key_char = None\<rparr>],
      b_context_predicate = None, b_meta = None, b_action_input = None\<rparr>"

theorem keymap_index_invariant_witness:
  "keymap_ok (keymap_new [sample_binding (User_Action 0 ''a'' ()), sample_binding No_Action])"
  using keymap_index_invariant [OF keymap_new_reachable] by blast

text \<open>
  \<^verbatim>\<open>bindings_for_action\<close> never indexes out of bounds and returns, in the order of insertion, the
  bindings of the action except those that a later marker hides: a \<^verbatim>\<open>NoAction\<close>, or an \<^verbatim>\<open>Unbind\<close> that
  names the action, for the same keystrokes and with a predicate that covers the binding's.
\<close>

theorem bindings_for_action_lists_visible:
  assumes "keymap_reachable km"
  shows "bindings_for_action km action =
     Some (map (\<lambda>i. km_bindings km ! i)
       (filter (\<lambda>i. b_action (km_bindings km ! i) = action \<and> \<not> disables (km_bindings km ! i) \<and> shown (km_bindings km) i)
         [0..<length (km_bindings km)]))"
proof -
  have ok: "keymap_ok km" by (rule keymap_reachable_ok [OF assms])
  then have "\<forall>i \<in> set (case km_indices_by_action_id km (action_type_id action) of None \<Rightarrow> [] | Some is \<Rightarrow> is). i < length (km_bindings km)"
    by (simp add: keymap_ok_def)
  then show ?thesis
    unfolding bindings_for_action_def by (simp only: action_bindings_ok [OF ok] action_indices [OF ok])
qed

theorem bindings_for_action_lists_visible_witness:
  "bindings_for_action (keymap_new [sample_binding (User_Action 0 ''a'' ()), sample_binding (Unbind ''b''),
     sample_binding (User_Action 1 ''b'' ()), sample_binding (Unbind ''a'')]) (User_Action 0 ''a'' ()) = Some []"
proof -
  let ?bs = "[sample_binding (User_Action 0 ''a'' ()), sample_binding (Unbind ''b''),
     sample_binding (User_Action 1 ''b'' ()), sample_binding (Unbind ''a'')]"
  have "filter (\<lambda>i. b_action (?bs ! i) = User_Action 0 ''a'' () \<and> \<not> disables (?bs ! i) \<and> shown ?bs i) [0..<length ?bs] = []"
    by code_simp
  then show ?thesis
    using bindings_for_action_lists_visible [OF keymap_new_reachable, of ?bs "User_Action 0 ''a'' ()"]
    unfolding keymap_new_bindings by simp
qed

text \<open>
  A binding is loaded from the text of its keystrokes: the printed keystrokes, separated by
  blanks, give back the keystrokes through the keyboard mapper, whatever the mapper does.
\<close>

theorem binding_load_round_trip:
  assumes "os \<noteq> OtherOs" "list_all (\<lambda>k. plain_key (k_key k) \<and> no_space (k_key k)) ks"
  shows "binding_load os (join_space (map (\<lambda>k. unparse os (k_modifiers k) (k_key k)) ks)) action predicate eq inp mapper =
     Inr \<lparr>b_action = action, b_keystrokes = map (\<lambda>k. mapper (k\<lparr>k_key_char := None\<rparr>) eq) ks,
          b_context_predicate = predicate, b_meta = None, b_action_input = inp\<rparr>"
  by (rule load_unparsed [OF assms])

theorem binding_load_round_trip_witness:
  "binding_load Linux ''ctrl-k x'' No_Action None False None (dummy_mapper Linux) =
     Inr \<lparr>b_action = No_Action,
          b_keystrokes = map (from_keystroke Linux)
            [\<lparr>k_modifiers = modifiers_control, k_key = ''k'', k_key_char = None\<rparr>,
             \<lparr>k_modifiers = no_modifiers, k_key = ''x'', k_key_char = None\<rparr>],
          b_context_predicate = None, b_meta = None, b_action_input = None\<rparr>"
proof -
  let ?ks = "[\<lparr>k_modifiers = modifiers_control, k_key = ''k'', k_key_char = None\<rparr>,
    \<lparr>k_modifiers = no_modifiers, k_key = ''x'', k_key_char = None\<rparr>]"
  have "list_all (\<lambda>k. plain_key (k_key k) \<and> no_space (k_key k)) ?ks" by code_simp
  moreover have "join_space (map (\<lambda>k. unparse Linux (k_modifiers k) (k_key k)) ?ks) = ''ctrl-k x''" by code_simp
  ultimately show ?thesis
    using binding_load_round_trip [of Linux ?ks No_Action None False None "dummy_mapper Linux"]
    by (simp add: dummy_mapper_def)
qed

text \<open>
  The two queries on unfinished input agree: \<^verbatim>\<open>possible_next_bindings_for_input\<close> returns the
  enabled bindings, markers excluded, that have the input as a proper prefix, and when
  \<^verbatim>\<open>bindings_for_input\<close> reports that more input may match there is at least one such binding.
\<close>

theorem pending_input_has_next_binding:
  assumes "snd (bindings_for_input os km input contexts)"
  shows "possible_next_bindings_for_input os km input contexts \<noteq> [] \<and>
    set (possible_next_bindings_for_input os km input contexts) =
      {b \<in> set (km_bindings km). awaits os input contexts b \<and> \<not> disables b}"
proof
  obtain i where "i < length (km_bindings km)" "may_follow os km input contexts i"
    using assms by (auto simp: pending_iff list_ex_iff)
  then have "km_bindings km ! i \<in> set (possible_next_bindings_for_input os km input contexts)"
    by (simp add: set_next_bindings may_follow_def Let_def)
  then show "possible_next_bindings_for_input os km input contexts \<noteq> []" by auto
qed (rule set_next_bindings)

theorem pending_input_has_next_binding_witness:
  "possible_next_bindings_for_input Linux (keymap_new [sample_binding (User_Action 0 ''a'' ())]) [] [] \<noteq> []"
proof -
  let ?km = "keymap_new [sample_binding (User_Action 0 ''a'' ())]"
  have "snd (bindings_for_input Linux ?km [] [])" by code_simp
  from pending_input_has_next_binding [OF this] show ?thesis by blast
qed

end
