(* ===== verification/KeyDispatch.thy ===== *)
theory KeyDispatch
  imports Keymap
begin

text \<open>
  Key dispatch (\<^verbatim>\<open>crates/gpui/src/key_dispatch.rs\<close>): the tree of dispatch nodes that a frame builds
  while it is painted, the paths through it, and the state machine that turns typed keystrokes into
  bindings, pending input and replayed input. Listeners are closures over the window and are kept as opaque values
  of type \<open>'l\<close>; identifiers of focus handles and views have the types \<open>'f\<close> and \<open>'v\<close>. A vector used
  as a stack has its top at the end; the local stack of \<^verbatim>\<open>reuse_subtree\<close> has it at the head.
\<close>

section \<open>Data\<close>

record ('l, 'f, 'v) dispatch_node =
  dn_key_listeners :: "'l list"
  dn_action_listeners :: "(type_id \<times> 'l) list"
  dn_modifiers_changed_listeners :: "'l list"
  dn_context :: "key_context option"
  dn_focus_id :: "'f option"
  dn_view_id :: "'v option"
  dn_parent :: "nat option"

record ('l, 'f, 'v, 'u) dispatch_tree =
  dt_node_stack :: "nat list"
  dt_context_stack :: "key_context list"
  dt_view_stack :: "'v list"
  dt_nodes :: "('l, 'f, 'v) dispatch_node list"
  dt_focusable_node_ids :: "'f \<Rightarrow> nat option"
  dt_view_node_ids :: "'v \<Rightarrow> nat option"
  dt_keymap :: "'u keymap"

record reused_subtree =
  rs_old_start :: nat
  rs_old_end :: nat
  rs_new_start :: nat
  rs_contains_focus :: bool

definition default_node :: "('l, 'f, 'v) dispatch_node" where
  "default_node = \<lparr>dn_key_listeners = [], dn_action_listeners = [], dn_modifiers_changed_listeners = [],
     dn_context = None, dn_focus_id = None, dn_view_id = None, dn_parent = None\<rparr>"

definition refresh_node_id :: "reused_subtree \<Rightarrow> nat \<Rightarrow> nat option" where
  "refresh_node_id r node_id = do {
     assert_that (rs_old_start r \<le> node_id \<and> node_id < rs_old_end r);
     Some ((node_id - rs_old_start r) + rs_new_start r) }"

section \<open>Building the tree\<close>

definition tree_new :: "'u keymap \<Rightarrow> ('l, 'f, 'v, 'u) dispatch_tree" where
  "tree_new km = \<lparr>dt_node_stack = [], dt_context_stack = [], dt_view_stack = [], dt_nodes = [],
     dt_focusable_node_ids = (\<lambda>_. None), dt_view_node_ids = (\<lambda>_. None), dt_keymap = km\<rparr>"

definition tree_clear :: "('l, 'f, 'v, 'u) dispatch_tree \<Rightarrow> ('l, 'f, 'v, 'u) dispatch_tree" where
  "tree_clear t = t\<lparr>dt_node_stack := [], dt_context_stack := [], dt_view_stack := [], dt_nodes := [],
     dt_focusable_node_ids := (\<lambda>_. None), dt_view_node_ids := (\<lambda>_. None)\<rparr>"

definition active_node_id :: "('l, 'f, 'v, 'u) dispatch_tree \<Rightarrow> nat option" where
  "active_node_id t = last_opt (dt_node_stack t)"

definition get_node :: "('l, 'f, 'v, 'u) dispatch_tree \<Rightarrow> nat \<Rightarrow> ('l, 'f, 'v) dispatch_node option" where
  "get_node t node_id = get_opt (dt_nodes t) node_id"

text \<open>An update through \<^verbatim>\<open>active_node\<close>.\<close>

definition update_active ::
    "(('l, 'f, 'v) dispatch_node \<Rightarrow> ('l, 'f, 'v) dispatch_node) \<Rightarrow> ('l, 'f, 'v, 'u) dispatch_tree
      \<Rightarrow> ('l, 'f, 'v, 'u) dispatch_tree option" where
  "update_active g t = do {
     i \<leftarrow> active_node_id t;
     node \<leftarrow> get_node t i;
     Some (t\<lparr>dt_nodes := (dt_nodes t)[i := g node]\<rparr>) }"

definition push_node :: "('l, 'f, 'v, 'u) dispatch_tree \<Rightarrow> ('l, 'f, 'v, 'u) dispatch_tree \<times> nat" where
  "push_node t =
     (let parent = active_node_id t; node_id = length (dt_nodes t)
      in (t\<lparr>dt_nodes := dt_nodes t @ [default_node\<lparr>dn_parent := parent\<rparr>], dt_node_stack := dt_node_stack t @ [node_id]\<rparr>, node_id))"

definition pop_node :: "('l, 'f, 'v, 'u) dispatch_tree \<Rightarrow> ('l, 'f, 'v, 'u) dispatch_tree option" where
  "pop_node t = do {
     i \<leftarrow> active_node_id t;
     node \<leftarrow> get_node t i;
     Some (t\<lparr>dt_context_stack := (if dn_context node \<noteq> None then butlast (dt_context_stack t) else dt_context_stack t),
             dt_view_stack := (if dn_view_id node \<noteq> None then butlast (dt_view_stack t) else dt_view_stack t),
             dt_node_stack := butlast (dt_node_stack t)\<rparr>) }"

definition set_key_context :: "key_context \<Rightarrow> ('l, 'f, 'v, 'u) dispatch_tree \<Rightarrow> ('l, 'f, 'v, 'u) dispatch_tree option" where
  "set_key_context context t = do {
     t \<leftarrow> update_active (\<lambda>n. n\<lparr>dn_context := Some context\<rparr>) t;
     Some (t\<lparr>dt_context_stack := dt_context_stack t @ [context]\<rparr>) }"

definition set_focus_id :: "'f \<Rightarrow> ('l, 'f, 'v, 'u) dispatch_tree \<Rightarrow> ('l, 'f, 'v, 'u) dispatch_tree option" where
  "set_focus_id focus_id t = do {
     node_id \<leftarrow> active_node_id t;
     t \<leftarrow> update_active (\<lambda>n. n\<lparr>dn_focus_id := Some focus_id\<rparr>) t;
     Some (t\<lparr>dt_focusable_node_ids := (dt_focusable_node_ids t)(focus_id := Some node_id)\<rparr>) }"

definition set_view_id :: "'v \<Rightarrow> ('l, 'f, 'v, 'u) dispatch_tree \<Rightarrow> ('l, 'f, 'v, 'u) dispatch_tree option" where
  "set_view_id view_id t =
     (if last_opt (dt_view_stack t) \<noteq> Some view_id then do {
        node_id \<leftarrow> active_node_id t;
        t \<leftarrow> update_active (\<lambda>n. n\<lparr>dn_view_id := Some view_id\<rparr>) t;
        Some (t\<lparr>dt_view_node_ids := (dt_view_node_ids t)(view_id := Some node_id), dt_view_stack := dt_view_stack t @ [view_id]\<rparr>) }
      else Some t)"

definition on_key_event :: "'l \<Rightarrow> ('l, 'f, 'v, 'u) dispatch_tree \<Rightarrow> ('l, 'f, 'v, 'u) dispatch_tree option" where
  "on_key_event listener = update_active (\<lambda>n. n\<lparr>dn_key_listeners := dn_key_listeners n @ [listener]\<rparr>)"

definition on_modifiers_changed :: "'l \<Rightarrow> ('l, 'f, 'v, 'u) dispatch_tree \<Rightarrow> ('l, 'f, 'v, 'u) dispatch_tree option" where
  "on_modifiers_changed listener =
     update_active (\<lambda>n. n\<lparr>dn_modifiers_changed_listeners := dn_modifiers_changed_listeners n @ [listener]\<rparr>)"

definition on_action :: "type_id \<Rightarrow> 'l \<Rightarrow> ('l, 'f, 'v, 'u) dispatch_tree \<Rightarrow> ('l, 'f, 'v, 'u) dispatch_tree option" where
  "on_action action_type listener = update_active (\<lambda>n. n\<lparr>dn_action_listeners := dn_action_listeners n @ [(action_type, listener)]\<rparr>)"

text \<open>\<^verbatim>\<open>set_active_node\<close>: pop to the parent of the node, or else rebuild the stacks from the node to the root.\<close>

partial_function (option) pop_to ::
    "nat option \<Rightarrow> ('l, 'f, 'v, 'u) dispatch_tree \<Rightarrow> ('l, 'f, 'v, 'u) dispatch_tree option" where
  "pop_to parent t =
     (if active_node_id t \<noteq> parent \<and> dt_node_stack t \<noteq> [] then do { t' \<leftarrow> pop_node t; pop_to parent t' } else Some t)"

partial_function (option) push_ancestors ::
    "nat option \<Rightarrow> ('l, 'f, 'v, 'u) dispatch_tree \<Rightarrow> ('l, 'f, 'v, 'u) dispatch_tree option" where
  "push_ancestors current t =
     (case current of
        None \<Rightarrow> Some t
      | Some node_id \<Rightarrow> do {
          node \<leftarrow> get_node t node_id;
          push_ancestors (dn_parent node)
            (t\<lparr>dt_context_stack := (case dn_context node of Some c \<Rightarrow> dt_context_stack t @ [c] | None \<Rightarrow> dt_context_stack t),
               dt_view_stack := (case dn_view_id node of Some v \<Rightarrow> dt_view_stack t @ [v] | None \<Rightarrow> dt_view_stack t),
               dt_node_stack := dt_node_stack t @ [node_id]\<rparr>) })"

declare pop_to.simps [code] push_ancestors.simps [code]

definition set_active_node :: "nat \<Rightarrow> ('l, 'f, 'v, 'u) dispatch_tree \<Rightarrow> ('l, 'f, 'v, 'u) dispatch_tree option" where
  "set_active_node node_id t = do {
     node \<leftarrow> get_node t node_id;
     let next_node_parent = dn_parent node;
     t \<leftarrow> pop_to next_node_parent t;
     (if active_node_id t = next_node_parent then do {
        let t = t\<lparr>dt_node_stack := dt_node_stack t @ [node_id]\<rparr>;
        active_node \<leftarrow> get_node t node_id;
        Some (t\<lparr>dt_view_stack := (case dn_view_id active_node of Some v \<Rightarrow> dt_view_stack t @ [v] | None \<Rightarrow> dt_view_stack t),
                dt_context_stack := (case dn_context active_node of Some c \<Rightarrow> dt_context_stack t @ [c] | None \<Rightarrow> dt_context_stack t)\<rparr>) }
      else do {
        assert_that (dt_node_stack t = []);
        t \<leftarrow> push_ancestors (Some node_id) t;
        Some (t\<lparr>dt_context_stack := rev (dt_context_stack t), dt_view_stack := rev (dt_view_stack t), dt_node_stack := rev (dt_node_stack t)\<rparr>) }) }"

text \<open>\<^verbatim>\<open>move_node\<close> copies a node and takes its listeners.\<close>

definition set_optional :: "('a \<Rightarrow> 't \<Rightarrow> 't option) \<Rightarrow> 'a option \<Rightarrow> 't \<Rightarrow> 't option" where
  "set_optional g x t = (case x of Some v \<Rightarrow> g v t | None \<Rightarrow> Some t)"

definition move_node ::
    "('l, 'f, 'v) dispatch_node \<Rightarrow> ('l, 'f, 'v, 'u) dispatch_tree
      \<Rightarrow> (('l, 'f, 'v, 'u) dispatch_tree \<times> ('l, 'f, 'v) dispatch_node) option" where
  "move_node source t = do {
     let t = fst (push_node t);
     t \<leftarrow> set_optional set_key_context (dn_context source) t;
     t \<leftarrow> set_optional set_focus_id (dn_focus_id source) t;
     t \<leftarrow> set_optional set_view_id (dn_view_id source) t;
     t \<leftarrow> update_active (\<lambda>n. n\<lparr>dn_key_listeners := dn_key_listeners source, dn_action_listeners := dn_action_listeners source,
            dn_modifiers_changed_listeners := dn_modifiers_changed_listeners source\<rparr>) t;
     Some (t, source\<lparr>dn_key_listeners := [], dn_action_listeners := [], dn_modifiers_changed_listeners := []\<rparr>) }"

text \<open>The loops of \<^verbatim>\<open>reuse_subtree\<close>: pop to the ancestor on the source stack, then move the next node.\<close>

fun pop_sources ::
    "nat option \<Rightarrow> nat list \<Rightarrow> ('l, 'f, 'v, 'u) dispatch_tree \<Rightarrow> (nat list \<times> ('l, 'f, 'v, 'u) dispatch_tree) option" where
  "pop_sources parent [] t = Some ([], t)"
| "pop_sources parent (source_ancestor # source_stack) t =
     (if parent = Some source_ancestor then Some (source_ancestor # source_stack, t)
      else do { t' \<leftarrow> pop_node t; pop_sources parent source_stack t' })"

fun move_nodes ::
    "'f option \<Rightarrow> (nat \<times> ('l, 'f, 'v) dispatch_node) list \<Rightarrow> nat list \<Rightarrow> bool \<Rightarrow> ('l, 'f, 'v, 'u) dispatch_tree
      \<Rightarrow> (nat list \<times> bool \<times> ('l, 'f, 'v, 'u) dispatch_tree \<times> ('l, 'f, 'v) dispatch_node list) option" where
  "move_nodes focus [] source_stack contains_focus t = Some (source_stack, contains_focus, t, [])"
| "move_nodes focus ((source_node_id, source_node) # rest) source_stack contains_focus t = do {
     (source_stack, t) \<leftarrow> pop_sources (dn_parent source_node) source_stack t;
     let contains_focus = (contains_focus \<or> (dn_focus_id source_node \<noteq> None \<and> dn_focus_id source_node = focus));
     (t, moved) \<leftarrow> move_node source_node t;
     (source_stack, contains_focus, t, done') \<leftarrow> move_nodes focus rest (source_node_id # source_stack) contains_focus t;
     Some (source_stack, contains_focus, t, moved # done') }"

fun pop_rest :: "nat list \<Rightarrow> ('l, 'f, 'v, 'u) dispatch_tree \<Rightarrow> ('l, 'f, 'v, 'u) dispatch_tree option" where
  "pop_rest [] t = Some t"
| "pop_rest (_ # source_stack) t = do { t' \<leftarrow> pop_node t; pop_rest source_stack t' }"

definition reuse_subtree ::
    "nat \<Rightarrow> nat \<Rightarrow> ('l, 'f, 'v, 'u) dispatch_tree \<Rightarrow> 'f option \<Rightarrow> ('l, 'f, 'v, 'u) dispatch_tree
      \<Rightarrow> (('l, 'f, 'v, 'u) dispatch_tree \<times> ('l, 'f, 'v, 'u) dispatch_tree \<times> reused_subtree) option" where
  "reuse_subtree old_start old_end source focus t = do {
     let new_start = length (dt_nodes t);
     let range = take (old_end - old_start) (drop old_start (enumerate 0 (dt_nodes source)));
     (source_stack, contains_focus, t, moved) \<leftarrow> move_nodes focus range [] False t;
     t \<leftarrow> pop_rest source_stack t;
     let nodes = take old_start (dt_nodes source) @ moved @ drop (old_start + length moved) (dt_nodes source);
     Some (t, source\<lparr>dt_nodes := nodes\<rparr>,
       \<lparr>rs_old_start = old_start, rs_old_end = old_end, rs_new_start = new_start, rs_contains_focus = contains_focus\<rparr>) }"

definition tree_truncate :: "nat \<Rightarrow> ('l, 'f, 'v, 'u) dispatch_tree \<Rightarrow> ('l, 'f, 'v, 'u) dispatch_tree option" where
  "tree_truncate index t = do {
     assert_that (index \<le> length (dt_nodes t));
     Some (t\<lparr>dt_focusable_node_ids :=
               fold (\<lambda>node m. (case dn_focus_id node of Some f \<Rightarrow> m(f := None) | None \<Rightarrow> m)) (drop index (dt_nodes t)) (dt_focusable_node_ids t),
             dt_view_node_ids :=
               fold (\<lambda>node m. (case dn_view_id node of Some v \<Rightarrow> m(v := None) | None \<Rightarrow> m)) (drop index (dt_nodes t)) (dt_view_node_ids t),
             dt_nodes := take index (dt_nodes t)\<rparr>) }"

section \<open>Paths\<close>

partial_function (option) climb :: "('l, 'f, 'v, 'u) dispatch_tree \<Rightarrow> nat option \<Rightarrow> nat list \<Rightarrow> nat list option" where
  "climb t current path =
     (case current of
        None \<Rightarrow> Some path
      | Some node_id \<Rightarrow>
          climb t (case get_node t node_id of None \<Rightarrow> None | Some node \<Rightarrow> dn_parent node) (path @ [node_id]))"

definition dispatch_path :: "('l, 'f, 'v, 'u) dispatch_tree \<Rightarrow> nat \<Rightarrow> nat list option" where
  "dispatch_path t target = map_option rev (climb t (Some target) [])"

partial_function (option) focus_climb :: "('l, 'f, 'v, 'u) dispatch_tree \<Rightarrow> nat option \<Rightarrow> 'f list \<Rightarrow> 'f list option" where
  "focus_climb t current path =
     (case current of
        None \<Rightarrow> Some path
      | Some node_id \<Rightarrow> do {
          node \<leftarrow> get_node t node_id;
          focus_climb t (dn_parent node) (case dn_focus_id node of Some f \<Rightarrow> path @ [f] | None \<Rightarrow> path) })"

definition focus_path :: "('l, 'f, 'v, 'u) dispatch_tree \<Rightarrow> 'f \<Rightarrow> 'f list option" where
  "focus_path t focus_id = map_option rev (focus_climb t (dt_focusable_node_ids t focus_id) [])"

partial_function (option) view_climb :: "('l, 'f, 'v, 'u) dispatch_tree \<Rightarrow> nat option \<Rightarrow> 'v list option" where
  "view_climb t current =
     (case current of
        None \<Rightarrow> Some []
      | Some node_id \<Rightarrow> do {
          node \<leftarrow> get_node t node_id;
          rest \<leftarrow> view_climb t (dn_parent node);
          Some (case dn_view_id node of Some v \<Rightarrow> v # rest | None \<Rightarrow> rest) })"

definition view_path_reversed :: "('l, 'f, 'v, 'u) dispatch_tree \<Rightarrow> 'v \<Rightarrow> 'v list option" where
  "view_path_reversed t view_id = view_climb t (dt_view_node_ids t view_id)"

partial_function (option) contains_loop :: "('l, 'f, 'v, 'u) dispatch_tree \<Rightarrow> nat \<Rightarrow> nat option \<Rightarrow> bool option" where
  "contains_loop t parent_node_id current =
     (case current of
        None \<Rightarrow> Some False
      | Some node_id \<Rightarrow>
          (if node_id = parent_node_id then Some True
           else do { node \<leftarrow> get_node t node_id; contains_loop t parent_node_id (dn_parent node) }))"

declare climb.simps [code] focus_climb.simps [code] view_climb.simps [code] contains_loop.simps [code]

definition focus_contains :: "('l, 'f, 'v, 'u) dispatch_tree \<Rightarrow> 'f \<Rightarrow> 'f \<Rightarrow> bool option" where
  "focus_contains t parent child =
     (if parent = child then Some True
      else case dt_focusable_node_ids t parent of
             Some parent_node_id \<Rightarrow> contains_loop t parent_node_id (dt_focusable_node_ids t child)
           | None \<Rightarrow> Some False)"

fun listens_along :: "('l, 'f, 'v, 'u) dispatch_tree \<Rightarrow> type_id \<Rightarrow> nat list \<Rightarrow> bool option" where
  "listens_along t action_type [] = Some False"
| "listens_along t action_type (node_id # path) = do {
     node \<leftarrow> get_node t node_id;
     (if list_ex (\<lambda>(ty, _). ty = action_type) (dn_action_listeners node) then Some True else listens_along t action_type path) }"

definition is_action_available :: "('l, 'f, 'v, 'u) dispatch_tree \<Rightarrow> 'u action \<Rightarrow> nat \<Rightarrow> bool option" where
  "is_action_available t action target = do {
     path \<leftarrow> dispatch_path t target;
     listens_along t (action_type_id action) path }"

section \<open>Bindings\<close>

definition binding_matches_predicate_and_not_shadowed ::
    "target_os \<Rightarrow> 'u keymap \<Rightarrow> 'u key_binding \<Rightarrow> key_context list \<Rightarrow> bool" where
  "binding_matches_predicate_and_not_shadowed os km b context_stack =
     (let (bindings, _) = bindings_for_input os km (map kk_inner (b_keystrokes b)) context_stack
      in case bindings of found # _ \<Rightarrow> b_action found = b_action b | [] \<Rightarrow> False)"

definition tree_bindings_for_action ::
    "target_os \<Rightarrow> ('l, 'f, 'v, 'u) dispatch_tree \<Rightarrow> 'u action \<Rightarrow> key_context list \<Rightarrow> 'u key_binding list option" where
  "tree_bindings_for_action os t action context_stack = do {
     bs \<leftarrow> bindings_for_action (dt_keymap t) action;
     Some (filter (\<lambda>b. binding_matches_predicate_and_not_shadowed os (dt_keymap t) b context_stack) bs) }"

definition highest_precedence_binding_for_action ::
    "target_os \<Rightarrow> ('l, 'f, 'v, 'u) dispatch_tree \<Rightarrow> 'u action \<Rightarrow> key_context list \<Rightarrow> 'u key_binding option option" where
  "highest_precedence_binding_for_action os t action context_stack = do {
     bs \<leftarrow> bindings_for_action (dt_keymap t) action;
     Some (find (\<lambda>b. binding_matches_predicate_and_not_shadowed os (dt_keymap t) b context_stack) (rev bs)) }"

fun contexts_along :: "('l, 'f, 'v, 'u) dispatch_tree \<Rightarrow> nat list \<Rightarrow> key_context list option" where
  "contexts_along t [] = Some []"
| "contexts_along t (node_id # path) = do {
     node \<leftarrow> get_node t node_id;
     rest \<leftarrow> contexts_along t path;
     Some (case dn_context node of Some c \<Rightarrow> c # rest | None \<Rightarrow> rest) }"

definition tree_bindings_for_input ::
    "target_os \<Rightarrow> ('l, 'f, 'v, 'u) dispatch_tree \<Rightarrow> keystroke list \<Rightarrow> nat list
      \<Rightarrow> ('u key_binding list \<times> bool \<times> key_context list) option" where
  "tree_bindings_for_input os t input path = do {
     context_stack \<leftarrow> contexts_along t path;
     let (bindings, partial) = bindings_for_input os (dt_keymap t) input context_stack;
     Some (bindings, partial, context_stack) }"

definition tree_possible_next_bindings_for_input ::
    "target_os \<Rightarrow> ('l, 'f, 'v, 'u) dispatch_tree \<Rightarrow> keystroke list \<Rightarrow> key_context list \<Rightarrow> 'u key_binding list" where
  "tree_possible_next_bindings_for_input os t input context_stack = possible_next_bindings_for_input os (dt_keymap t) input context_stack"

section \<open>Dispatch of keystrokes\<close>

record 'u replay_event =
  rp_keystroke :: keystroke
  rp_bindings :: "'u key_binding list"

record 'u dispatch_result =
  dr_pending :: "keystroke list"
  dr_pending_has_binding :: bool
  dr_bindings :: "'u key_binding list"
  dr_to_replay :: "'u replay_event list"
  dr_context_stack :: "key_context list"

definition default_result :: "key_context list \<Rightarrow> 'u dispatch_result" where
  "default_result context_stack = \<lparr>dr_pending = [], dr_pending_has_binding = False, dr_bindings = [], dr_to_replay = [],
     dr_context_stack = context_stack\<rparr>"

text \<open>The loop of \<^verbatim>\<open>replay_prefix\<close> over the last index, from the longest prefix down; \<open>n\<close> is the length of the prefix.\<close>

fun longest_bound_prefix ::
    "target_os \<Rightarrow> ('l, 'f, 'v, 'u) dispatch_tree \<Rightarrow> nat list \<Rightarrow> keystroke list \<Rightarrow> nat
      \<Rightarrow> (nat \<times> 'u key_binding list) option option" where
  "longest_bound_prefix os t path input 0 = Some None"
| "longest_bound_prefix os t path input (Suc last_ix) = do {
     (bindings, _, _) \<leftarrow> tree_bindings_for_input os t (take (Suc last_ix) input) path;
     (if bindings \<noteq> [] then Some (Some (last_ix, bindings)) else longest_bound_prefix os t path input last_ix) }"

definition replay_prefix ::
    "target_os \<Rightarrow> ('l, 'f, 'v, 'u) dispatch_tree \<Rightarrow> keystroke list \<Rightarrow> nat list
      \<Rightarrow> (keystroke list \<times> 'u replay_event list) option" where
  "replay_prefix os t input path = do {
     found \<leftarrow> longest_bound_prefix os t path input (length input);
     (case found of
        Some (last', bindings) \<Rightarrow> do {
          keystroke \<leftarrow> last_opt (take (Suc last') input);
          Some (drop (Suc last') input, [\<lparr>rp_keystroke = keystroke, rp_bindings = bindings\<rparr>]) }
      | None \<Rightarrow>
          (case input of
             keystroke # rest \<Rightarrow> Some (rest, [\<lparr>rp_keystroke = keystroke, rp_bindings = []\<rparr>])
           | [] \<Rightarrow> None)) }"

lemma longest_bound_prefix_less: "longest_bound_prefix os t path input n = Some (Some (l, bs)) \<Longrightarrow> l < n"
  by (induction n) (auto simp: bind_eq_Some_conv split: if_splits)

lemma replay_prefix_shorter:
  "replay_prefix os t input path = Some (suffix, rs) \<Longrightarrow> length suffix < length input"
  by (auto simp: replay_prefix_def bind_eq_Some_conv split: option.splits list.splits dest: longest_bound_prefix_less)

function dispatch_key ::
    "target_os \<Rightarrow> ('l, 'f, 'v, 'u) dispatch_tree \<Rightarrow> keystroke list \<Rightarrow> keystroke \<Rightarrow> nat list \<Rightarrow> 'u dispatch_result option" where
  "dispatch_key os t input keystroke path = do {
     (bindings, pending, context_stack) \<leftarrow> tree_bindings_for_input os t (input @ [keystroke]) path;
     (if pending then
        Some ((default_result context_stack)\<lparr>dr_pending := input @ [keystroke], dr_pending_has_binding := bindings \<noteq> []\<rparr>)
      else if bindings \<noteq> [] then Some ((default_result context_stack)\<lparr>dr_bindings := bindings\<rparr>)
      else if length (input @ [keystroke]) = 1 then Some (default_result context_stack)
      else do {
        (suffix, to_replay) \<leftarrow> replay_prefix os t input path;
        result \<leftarrow> dispatch_key os t suffix keystroke path;
        Some (result\<lparr>dr_to_replay := to_replay @ dr_to_replay result\<rparr>) }) }"
  by pat_completeness auto

termination dispatch_key
  by (relation "measure (\<lambda>(_, _, input, _, _). length input)") (auto dest: replay_prefix_shorter)

function flush_dispatch ::
    "target_os \<Rightarrow> ('l, 'f, 'v, 'u) dispatch_tree \<Rightarrow> keystroke list \<Rightarrow> nat list \<Rightarrow> 'u replay_event list option" where
  "flush_dispatch os t input path = do {
     (suffix, to_replay) \<leftarrow> replay_prefix os t input path;
     (if suffix \<noteq> [] then do { rest \<leftarrow> flush_dispatch os t suffix path; Some (to_replay @ rest) } else Some to_replay) }"
  by pat_completeness auto

termination flush_dispatch
  by (relation "measure (\<lambda>(_, _, input, _). length input)") (auto dest: replay_prefix_shorter)

declare dispatch_key.simps [simp del] flush_dispatch.simps [simp del]

section \<open>Replayed input\<close>

text \<open>
  The specification: an input falls into segments, each the longest prefix of what is left that has
  bindings, or else a single keystroke. \<open>B\<close> gives the bindings of an input in the context at hand.
\<close>

fun bound_length :: "(keystroke list \<Rightarrow> 'u key_binding list) \<Rightarrow> keystroke list \<Rightarrow> nat \<Rightarrow> nat" where
  "bound_length B input 0 = 1"
| "bound_length B input (Suc n) = (if B (take (Suc n) input) \<noteq> [] then Suc n else bound_length B input n)"

lemma bound_length_pos [simp]: "0 < bound_length B input n"
  by (induction n) simp_all

function segments :: "(keystroke list \<Rightarrow> 'u key_binding list) \<Rightarrow> keystroke list \<Rightarrow> keystroke list list" where
  "segments B input =
     (if input = [] then []
      else (let n = bound_length B input (length input) in take n input # segments B (drop n input)))"
  by pat_completeness auto

termination segments
  by (relation "measure (\<lambda>(_, input). length input)") auto

declare segments.simps [simp del]

lemma segments_Nil [simp]: "segments B [] = []"
  by (simp add: segments.simps)

lemma concat_segments: "concat (segments B input) = input"
proof (induction B input rule: segments.induct)
  case (1 B input)
  then show ?case by (cases "input = []") (simp_all add: segments.simps [of B input] Let_def)
qed

lemma segments_nonempty: "[] \<notin> set (segments B input)"
proof (induction B input rule: segments.induct)
  case (1 B input)
  then show ?case by (cases "input = []") (simp_all add: segments.simps [of B input] Let_def)
qed

definition event_of :: "(keystroke list \<Rightarrow> 'u key_binding list) \<Rightarrow> keystroke list \<Rightarrow> 'u replay_event" where
  "event_of B ks = \<lparr>rp_keystroke = last ks, rp_bindings = B ks\<rparr>"

text \<open>The bindings of an input, and whether a longer input may match, along a path with the contexts \<open>cs\<close>.\<close>

abbreviation bound :: "target_os \<Rightarrow> ('l, 'f, 'v, 'u) dispatch_tree \<Rightarrow> key_context list \<Rightarrow> keystroke list \<Rightarrow> 'u key_binding list" where
  "bound os t cs ks \<equiv> fst (bindings_for_input os (dt_keymap t) ks cs)"

abbreviation partial :: "target_os \<Rightarrow> ('l, 'f, 'v, 'u) dispatch_tree \<Rightarrow> key_context list \<Rightarrow> keystroke list \<Rightarrow> bool" where
  "partial os t cs ks \<equiv> snd (bindings_for_input os (dt_keymap t) ks cs)"

lemma tree_bindings_for_input_along:
  "contexts_along t path = Some cs \<Longrightarrow> tree_bindings_for_input os t ks path = Some (bound os t cs ks, partial os t cs ks, cs)"
  by (simp add: tree_bindings_for_input_def split: prod.split)

lemma longest_bound_prefix_ok:
  assumes "contexts_along t path = Some cs"
  shows "longest_bound_prefix os t path input n =
     Some (if \<exists>m. 0 < m \<and> m \<le> n \<and> bound os t cs (take m input) \<noteq> []
           then Some (bound_length (bound os t cs) input n - 1, bound os t cs (take (bound_length (bound os t cs) input n) input))
           else None) \<and>
   ((\<forall>m. 0 < m \<longrightarrow> m \<le> n \<longrightarrow> bound os t cs (take m input) = []) \<longrightarrow> bound_length (bound os t cs) input n = 1)"
proof (induction n)
  case (Suc n)
  have *: "(\<exists>m. 0 < m \<and> m \<le> Suc n \<and> P m) \<longleftrightarrow> P (Suc n) \<or> (\<exists>m. 0 < m \<and> m \<le> n \<and> P m)" for P
    by (auto simp: le_Suc_eq)
  show ?case using Suc by (auto simp: tree_bindings_for_input_along [OF assms] *)
qed simp

lemma bound_length_le:
  assumes "input \<noteq> []"
  shows "bound_length B input (length input) \<le> length input"
proof -
  have "bound_length B input n \<le> max 1 n" for n by (induction n) auto
  then have "bound_length B input (length input) \<le> max 1 (length input)" .
  also have "max 1 (length input) = length input" using assms by (cases input) simp_all
  finally show ?thesis .
qed

lemma replay_prefix_ok:
  fixes input os
  assumes "contexts_along t path = Some cs" "input \<noteq> []"
  defines "n \<equiv> bound_length (bound os t cs) input (length input)"
  shows "replay_prefix os t input path = Some (drop n input, [event_of (bound os t cs) (take n input)])"
proof -
  note found = longest_bound_prefix_ok [OF assms(1), of os input "length input", folded n_def]
  have n: "0 < n" "n \<le> length input" using bound_length_le [OF assms(2)] by (simp_all add: n_def)
  have last: "last_opt (take n input) = Some (last (take n input))" using n assms(2) by (simp add: last_opt_def)
  show ?thesis
  proof (cases "\<exists>m. 0 < m \<and> m \<le> length input \<and> bound os t cs (take m input) \<noteq> []")
    case True
    then show ?thesis using found n last by (simp add: replay_prefix_def event_of_def)
  next
    case False
    obtain k rest where "input = k # rest" using assms(2) by (cases input) auto
    moreover have "bound os t cs (take 1 input) = []"
      using False assms(2) by (metis Suc_leI length_greater_0_conv One_nat_def zero_less_one)
    moreover have "n = 1" using found False by blast
    ultimately show ?thesis using found False by (simp add: replay_prefix_def event_of_def)
  qed
qed

lemma segments_Cons:
  "input \<noteq> [] \<Longrightarrow> segments B input =
     (let n = bound_length B input (length input) in take n input # segments B (drop n input))"
  by (simp add: segments.simps [of B input])

lemma flush_dispatch_ok:
  assumes cs: "contexts_along t path = Some cs"
  shows "input \<noteq> [] \<Longrightarrow> flush_dispatch os t input path = Some (map (event_of (bound os t cs)) (segments (bound os t cs) input))"
proof (induction "length input" arbitrary: input rule: less_induct)
  case less
  let ?n = "bound_length (bound os t cs) input (length input)"
  show ?case
  proof (cases "drop ?n input = []")
    case False
    have "length (drop ?n input) < length input" using less.prems by simp
    from less.hyps [OF this False] show ?thesis
      using False less.prems by (simp add: flush_dispatch.simps [of os t input] replay_prefix_ok [OF cs] segments_Cons Let_def)
  qed (use less.prems in \<open>simp add: flush_dispatch.simps [of os t input] replay_prefix_ok [OF cs] segments_Cons Let_def\<close>)
qed

text \<open>What is done with keystrokes \<open>ks\<close> that are not replayed.\<close>

definition unmatched :: "target_os \<Rightarrow> ('l, 'f, 'v, 'u) dispatch_tree \<Rightarrow> key_context list \<Rightarrow> keystroke list \<Rightarrow> bool" where
  "unmatched os t cs ks \<longleftrightarrow> \<not> partial os t cs ks \<and> bound os t cs ks = []"

definition outcome ::
    "target_os \<Rightarrow> ('l, 'f, 'v, 'u) dispatch_tree \<Rightarrow> key_context list \<Rightarrow> keystroke list \<Rightarrow> 'u dispatch_result \<Rightarrow> bool" where
  "outcome os t cs ks r \<longleftrightarrow> dr_context_stack r = cs \<and>
     (if partial os t cs ks then dr_pending r = ks \<and> dr_pending_has_binding r = (bound os t cs ks \<noteq> []) \<and> dr_bindings r = []
      else dr_pending r = [] \<and> dr_bindings r = bound os t cs ks \<and> (dr_bindings r = [] \<longrightarrow> length ks = 1))"

lemma outcome_replay [simp]: "outcome os t cs ks (r\<lparr>dr_to_replay := rs\<rparr>) = outcome os t cs ks r"
  by (simp add: outcome_def)

lemma dispatch_key_ok:
  assumes cs: "contexts_along t path = Some cs"
  shows "\<exists>r n. dispatch_key os t input k path = Some r \<and> n \<le> length (segments (bound os t cs) input) \<and>
     dr_to_replay r = map (event_of (bound os t cs)) (take n (segments (bound os t cs) input)) \<and>
     (\<forall>m < n. unmatched os t cs (concat (drop m (segments (bound os t cs) input)) @ [k])) \<and>
     outcome os t cs (concat (drop n (segments (bound os t cs) input)) @ [k]) r"
proof (induction "length input" arbitrary: input rule: less_induct)
  case less
  let ?B = "bound os t cs" and ?P = "partial os t cs" and ?rest = "input @ [k]"
  note simps = dispatch_key.simps [of os t input] tree_bindings_for_input_along [OF cs]
  show ?case
  proof (cases "?P ?rest \<or> ?B ?rest \<noteq> [] \<or> input = []")
    case True
    then show ?thesis
      by (intro exI [of _ "if ?P ?rest then (default_result cs)\<lparr>dr_pending := ?rest, dr_pending_has_binding := ?B ?rest \<noteq> []\<rparr>
            else (default_result cs)\<lparr>dr_bindings := ?B ?rest\<rparr>"] exI [of _ 0])
        (auto simp: simps default_result_def concat_segments outcome_def)
  next
    case False
    let ?n = "bound_length ?B input (length input)"
    have seg: "segments ?B input = take ?n input # segments ?B (drop ?n input)" using False by (simp add: segments_Cons Let_def)
    have "length (drop ?n input) < length input" using False by simp
    from less.hyps [OF this] obtain r n where r: "dispatch_key os t (drop ?n input) k path = Some r"
      "n \<le> length (segments ?B (drop ?n input))"
      "dr_to_replay r = map (event_of ?B) (take n (segments ?B (drop ?n input)))"
      "\<forall>m < n. unmatched os t cs (concat (drop m (segments ?B (drop ?n input))) @ [k])"
      "outcome os t cs (concat (drop n (segments ?B (drop ?n input))) @ [k]) r" by blast
    let ?r = "r\<lparr>dr_to_replay := event_of ?B (take ?n input) # dr_to_replay r\<rparr>"
    have "dispatch_key os t input k path = Some ?r"
      using False by (simp add: simps replay_prefix_ok [OF cs] r(1))
    moreover have "unmatched os t cs ?rest" using False by (simp add: unmatched_def)
    then have "unmatched os t cs (concat (drop m (segments ?B input)) @ [k])" if "m < Suc n" for m
      using r(4) that concat_segments [of ?B input] by (cases m) (simp_all add: seg)
    ultimately show ?thesis
      using r(2,3,5) by (intro exI [of _ ?r] exI [of _ "Suc n"]) (simp add: seg)
  qed
qed

end
