(* ===== verification/DispatchTree.thy ===== *)
theory DispatchTree
  imports KeyDispatch
begin

text \<open>
  The tree of key dispatch as an invariant: parents precede children, the stacks are the path to the
  active node, the tables lead to the right nodes. The paths of the tree, the dispatch of keystrokes
  along them and the reuse of subtrees follow from it.
\<close>

section \<open>The invariant of the tree\<close>

text \<open>A chain of nodes from below \<open>parent\<close> downwards, each the parent of the next.\<close>

fun chain :: "('l, 'f, 'v) dispatch_node list \<Rightarrow> nat option \<Rightarrow> nat list \<Rightarrow> bool" where
  "chain ns parent [] = True"
| "chain ns parent (i # is) \<longleftrightarrow> i < length ns \<and> dn_parent (ns ! i) = parent \<and> chain ns (Some i) is"

definition parents_ok :: "('l, 'f, 'v) dispatch_node list \<Rightarrow> bool" where
  "parents_ok ns \<longleftrightarrow> (\<forall>i < length ns. \<forall>p. dn_parent (ns ! i) = Some p \<longrightarrow> p < i)"

definition collect :: "(('l, 'f, 'v) dispatch_node \<Rightarrow> 'a option) \<Rightarrow> ('l, 'f, 'v) dispatch_node list \<Rightarrow> nat list \<Rightarrow> 'a list" where
  "collect g ns is = List.map_filter (\<lambda>i. g (ns ! i)) is"

definition ids_ok :: "(('l, 'f, 'v) dispatch_node \<Rightarrow> 'a option) \<Rightarrow> ('l, 'f, 'v) dispatch_node list \<Rightarrow> ('a \<Rightarrow> nat option) \<Rightarrow> bool" where
  "ids_ok g ns m \<longleftrightarrow> (\<forall>x n. m x = Some n \<longrightarrow> n < length ns \<and> g (ns ! n) = Some x)"

text \<open>
  Parents come before their children; the stack is the path from the root to the active node, the
  stacks of contexts and views are those along it; the tables lead to nodes with the identifier.
\<close>

definition tree_inv :: "('l, 'f, 'v, 'u) dispatch_tree \<Rightarrow> bool" where
  "tree_inv t \<longleftrightarrow>
     parents_ok (dt_nodes t) \<and> chain (dt_nodes t) None (dt_node_stack t) \<and>
     dt_context_stack t = collect dn_context (dt_nodes t) (dt_node_stack t) \<and>
     dt_view_stack t = collect dn_view_id (dt_nodes t) (dt_node_stack t) \<and>
     ids_ok dn_focus_id (dt_nodes t) (dt_focusable_node_ids t) \<and>
     ids_ok dn_view_id (dt_nodes t) (dt_view_node_ids t)"

lemma collect_simps [simp]:
  "collect g ns [] = []"
  "collect g ns (is @ js) = collect g ns is @ collect g ns js"
  "collect g ns (i # is) = (case g (ns ! i) of Some x \<Rightarrow> x # collect g ns is | None \<Rightarrow> collect g ns is)"
  by (auto simp: collect_def List.map_filter_def split: option.split)

lemma chain_append:
  "chain ns parent (is @ js) \<longleftrightarrow> chain ns parent is \<and> chain ns (case last_opt is of Some i \<Rightarrow> Some i | None \<Rightarrow> parent) js"
  by (induction "is" arbitrary: parent) (auto simp: last_opt_def)

lemma chain_range: "chain ns parent is \<Longrightarrow> i \<in> set is \<Longrightarrow> i < length ns"
  by (induction ns parent "is" rule: chain.induct) auto

lemma chain_cong:
  assumes "chain ns parent is" "length ns \<le> length ns'"
    and "\<And>i. i \<in> set is \<Longrightarrow> dn_parent (ns' ! i) = dn_parent (ns ! i)"
  shows "chain ns' parent is"
  using assms by (induction ns parent "is" rule: chain.induct) auto

lemma collect_cong: "(\<And>i. i \<in> set is \<Longrightarrow> g (ns' ! i) = g (ns ! i)) \<Longrightarrow> collect g ns' is = collect g ns is"
  by (induction "is") (auto split: option.split)

lemma collect_append: "(\<And>i. i \<in> set is \<Longrightarrow> i < length ns) \<Longrightarrow> collect g (ns @ ms) is = collect g ns is"
  by (rule collect_cong) (simp add: nth_append)

lemma collect_take: "\<forall>i \<in> set is. i < n \<Longrightarrow> collect g (take n ns) is = collect g ns is"
  by (rule collect_cong) simp

lemma ids_ok_append: "ids_ok g ns m \<Longrightarrow> ids_ok g (ns @ ms) m"
  by (auto simp: ids_ok_def nth_append intro: trans_less_add1)

lemma chain_sorted:
  assumes "parents_ok ns" "chain ns parent is"
  shows "sorted_wrt (<) is \<and> (\<forall>p i. parent = Some p \<longrightarrow> i \<in> set is \<longrightarrow> p < i)"
  using assms(2)
proof (induction "is" arbitrary: parent)
  case (Cons i "is")
  then have "chain ns (Some i) is" by simp
  from Cons.IH [OF this] have IH: "sorted_wrt (<) is" "\<forall>j \<in> set is. i < j" by simp_all
  have "p < i" if "parent = Some p" for p using that Cons.prems assms(1) by (auto simp: parents_ok_def)
  with IH show ?case by fastforce
qed simp

text \<open>There is exactly one path from the root to each node.\<close>

lemma chain_exists:
  assumes "parents_ok ns" "i < length ns"
  shows "\<exists>is. chain ns None (is @ [i])"
  using assms(2)
proof (induction i rule: less_induct)
  case (less i)
  show ?case
  proof (cases "dn_parent (ns ! i)")
    case None
    then have "chain ns None ([] @ [i])" using less.prems by simp
    then show ?thesis by blast
  next
    case (Some p)
    then have p: "p < i" using assms(1) less.prems by (auto simp: parents_ok_def)
    with less obtain "is" where "chain ns None (is @ [p])" by force
    then have "chain ns None ((is @ [p]) @ [i])" using less.prems Some by (simp add: chain_append)
    then show ?thesis by blast
  qed
qed

lemma chain_unique:
  "chain ns None (is @ [i]) \<Longrightarrow> chain ns None (js @ [i]) \<Longrightarrow> is = js"
proof (induction "is" arbitrary: js i rule: rev_induct)
  case Nil
  then show ?case by (cases js rule: rev_cases) (auto simp: chain_append)
next
  case (snoc x "is")
  then obtain js' y where js: "js = js' @ [y]" by (cases js rule: rev_cases) (auto simp: chain_append)
  then have "x = y" using snoc.prems by (simp add: chain_append)
  with snoc js show ?case by (auto simp: chain_append)
qed

lemma climb_chain:
  "chain (dt_nodes t) None is \<Longrightarrow> climb t (last_opt is) path = Some (path @ rev is)"
proof (induction "is" arbitrary: path rule: rev_induct)
  case Nil
  then show ?case by (simp add: climb.simps [of t None])
next
  case (snoc i "is")
  have "(case last_opt is of Some i \<Rightarrow> Some i | None \<Rightarrow> None) = last_opt is" by (simp split: option.split)
  then have "dn_parent (dt_nodes t ! i) = last_opt is" "i < length (dt_nodes t)" "chain (dt_nodes t) None is"
    using snoc.prems by (simp_all add: chain_append)
  then show ?case using snoc.IH by (simp add: climb.simps [of t "Some i"] get_node_def get_opt_def)
qed

lemma dispatch_path_chain: "chain (dt_nodes t) None (is @ [i]) \<Longrightarrow> dispatch_path t i = Some (is @ [i])"
  using climb_chain [of t "is @ [i]" "[]"] by (simp add: dispatch_path_def)

lemma contexts_along_chain: "chain (dt_nodes t) parent is \<Longrightarrow> contexts_along t is = Some (collect dn_context (dt_nodes t) is)"
  by (induction "dt_nodes t" parent "is" rule: chain.induct) (auto simp: get_node_def get_opt_def split: option.split)

section \<open>The operations keep the invariant\<close>

text \<open>The active node of a tree that has one, and an update of it that keeps its parent and identifiers.\<close>

lemma active_node_ok:
  assumes "tree_inv t" "active_node_id t = Some i"
  obtains "is" where "dt_node_stack t = is @ [i]" "i < length (dt_nodes t)" "i \<notin> set is" "\<forall>j \<in> set is. j < length (dt_nodes t)"
proof -
  have "dt_node_stack t \<noteq> []" "last (dt_node_stack t) = i"
    using assms(2) by (auto simp: active_node_id_def last_opt_def split: if_splits)
  then obtain "is" where st: "dt_node_stack t = is @ [i]" by (metis append_butlast_last_id)
  then have "chain (dt_nodes t) None (is @ [i])" "parents_ok (dt_nodes t)" using assms(1) by (simp_all add: tree_inv_def)
  then show ?thesis using that [OF st] chain_sorted chain_range by (fastforce simp: sorted_wrt_append)
qed

lemma nth_list_update_if: "xs[i := x] ! j = (if i = j \<and> i < length xs then x else xs ! j)"
  by (cases "i < length xs") (simp_all add: nth_list_update list_update_beyond)

lemma ids_ok_update:
  "ids_ok g ns m \<Longrightarrow> g n' = g (ns ! i) \<or> g (ns ! i) = None \<Longrightarrow> ids_ok g (ns[i := n']) m"
  by (auto simp: ids_ok_def nth_list_update_if)

lemma parents_ok_update: "parents_ok ns \<Longrightarrow> dn_parent n' = dn_parent (ns ! i) \<Longrightarrow> parents_ok (ns[i := n'])"
  by (auto simp: parents_ok_def nth_list_update_if)

lemma chain_update: "chain ns parent is \<Longrightarrow> dn_parent n' = dn_parent (ns ! i) \<Longrightarrow> chain (ns[i := n']) parent is"
  by (erule chain_cong) (auto simp: nth_list_update_if)

lemma update_active_some:
  assumes "tree_inv t" "active_node_id t = Some i"
  shows "update_active g t = Some (t\<lparr>dt_nodes := (dt_nodes t)[i := g (dt_nodes t ! i)]\<rparr>)"
  using active_node_ok [OF assms] by (simp add: update_active_def assms(2) get_node_def get_opt_def)

lemma tree_inv_update:
  assumes inv: "tree_inv t" "active_node_id t = Some i"
    and "dn_parent n' = dn_parent (dt_nodes t ! i)"
    and "dn_focus_id n' = dn_focus_id (dt_nodes t ! i) \<or> dn_focus_id (dt_nodes t ! i) = None"
    and "dn_view_id n' = dn_view_id (dt_nodes t ! i) \<or> dn_view_id (dt_nodes t ! i) = None"
    and "dt_nodes t' = (dt_nodes t)[i := n']" "dt_node_stack t' = dt_node_stack t"
    and "dt_context_stack t' = (if dn_context n' = dn_context (dt_nodes t ! i) then dt_context_stack t else dt_context_stack t @ [c])"
    and "dn_context n' = dn_context (dt_nodes t ! i) \<or> dn_context (dt_nodes t ! i) = None \<and> dn_context n' = Some c"
    and "dt_view_stack t' = (if dn_view_id n' = dn_view_id (dt_nodes t ! i) then dt_view_stack t else dt_view_stack t @ [v])"
    and "dn_view_id n' = dn_view_id (dt_nodes t ! i) \<or> dn_view_id (dt_nodes t ! i) = None \<and> dn_view_id n' = Some v"
    and "ids_ok dn_focus_id (dt_nodes t') (dt_focusable_node_ids t')" "ids_ok dn_view_id (dt_nodes t') (dt_view_node_ids t')"
  shows "tree_inv t'"
proof -
  obtain "is" where st: "dt_node_stack t = is @ [i]" "i < length (dt_nodes t)" "i \<notin> set is" "\<forall>j \<in> set is. j < length (dt_nodes t)"
    by (rule active_node_ok [OF inv])
  have same: "collect g ((dt_nodes t)[i := n']) is = collect g (dt_nodes t) is" for g :: "('a, 'b, 'c) dispatch_node \<Rightarrow> 'x option"
    using st(3) by (intro collect_cong) (auto simp: nth_list_update_if)
  show ?thesis
    using assms(1,3-) st same [of dn_context] same [of dn_view_id] parents_ok_update [of "dt_nodes t" n' i] chain_update [of "dt_nodes t" None _ n' i]
    by (auto simp: tree_inv_def split: option.splits)
qed

lemma set_key_context_ok:
  assumes "tree_inv t" "active_node_id t = Some i" "dn_context (dt_nodes t ! i) = None"
  shows "\<exists>t'. set_key_context c t = Some t' \<and> tree_inv t' \<and> dt_node_stack t' = dt_node_stack t \<and>
     dt_nodes t' = (dt_nodes t)[i := (dt_nodes t ! i)\<lparr>dn_context := Some c\<rparr>]"
proof -
  let ?t' = "t\<lparr>dt_nodes := (dt_nodes t)[i := (dt_nodes t ! i)\<lparr>dn_context := Some c\<rparr>], dt_context_stack := dt_context_stack t @ [c]\<rparr>"
  have "tree_inv ?t'"
    using assms by (intro tree_inv_update [OF assms(1,2), where n' = "(dt_nodes t ! i)\<lparr>dn_context := Some c\<rparr>" and c = c])
      (auto simp: tree_inv_def intro!: ids_ok_update)
  then show ?thesis by (simp add: set_key_context_def update_active_some [OF assms(1,2)])
qed

lemma set_focus_id_ok:
  assumes "tree_inv t" "active_node_id t = Some i" "dn_focus_id (dt_nodes t ! i) = None"
  shows "\<exists>t'. set_focus_id f t = Some t' \<and> tree_inv t' \<and> dt_node_stack t' = dt_node_stack t \<and>
     dt_nodes t' = (dt_nodes t)[i := (dt_nodes t ! i)\<lparr>dn_focus_id := Some f\<rparr>]"
proof -
  let ?n = "(dt_nodes t ! i)\<lparr>dn_focus_id := Some f\<rparr>"
  let ?t' = "t\<lparr>dt_nodes := (dt_nodes t)[i := ?n], dt_focusable_node_ids := (dt_focusable_node_ids t)(f := Some i)\<rparr>"
  have "i < length (dt_nodes t)" using active_node_ok [OF assms(1,2)] by blast
  then have "ids_ok dn_focus_id (dt_nodes ?t') (dt_focusable_node_ids ?t')"
    using ids_ok_update [of dn_focus_id "dt_nodes t" "dt_focusable_node_ids t" ?n i] assms
    by (auto simp: tree_inv_def ids_ok_def)
  then have "tree_inv ?t'"
    using assms by (intro tree_inv_update [OF assms(1,2), where n' = ?n]) (auto simp: tree_inv_def intro!: ids_ok_update)
  then show ?thesis by (simp add: set_focus_id_def update_active_some [OF assms(1,2)] assms(2))
qed

lemma set_view_id_ok:
  assumes "tree_inv t" "active_node_id t = Some i" "dn_view_id (dt_nodes t ! i) = None"
  shows "\<exists>t'. set_view_id v t = Some t' \<and> tree_inv t' \<and> dt_node_stack t' = dt_node_stack t \<and>
     (\<exists>w. dt_nodes t' = (dt_nodes t)[i := (dt_nodes t ! i)\<lparr>dn_view_id := w\<rparr>])"
proof (cases "last_opt (dt_view_stack t) = Some v")
  case True
  have "(dt_nodes t)[i := (dt_nodes t ! i)\<lparr>dn_view_id := None\<rparr>] = dt_nodes t"
    using assms(3) by (metis dispatch_node.surjective dispatch_node.update_convs(6) list_update_id)
  then have "\<exists>w. dt_nodes t = (dt_nodes t)[i := (dt_nodes t ! i)\<lparr>dn_view_id := w\<rparr>]" by metis
  with True assms show ?thesis by (simp add: set_view_id_def)
next
  case False
  let ?n = "(dt_nodes t ! i)\<lparr>dn_view_id := Some v\<rparr>"
  let ?t' = "t\<lparr>dt_nodes := (dt_nodes t)[i := ?n], dt_view_node_ids := (dt_view_node_ids t)(v := Some i), dt_view_stack := dt_view_stack t @ [v]\<rparr>"
  have "i < length (dt_nodes t)" using active_node_ok [OF assms(1,2)] by blast
  then have "ids_ok dn_view_id (dt_nodes ?t') (dt_view_node_ids ?t')"
    using ids_ok_update [of dn_view_id "dt_nodes t" "dt_view_node_ids t" ?n i] assms
    by (auto simp: tree_inv_def ids_ok_def)
  then have "tree_inv ?t'"
    using assms by (intro tree_inv_update [OF assms(1,2), where n' = ?n and v = v]) (auto simp: tree_inv_def intro!: ids_ok_update)
  then show ?thesis using False by (auto simp: set_view_id_def update_active_some [OF assms(1,2)] assms(2))
qed

text \<open>An update of the listeners of the active node.\<close>

lemma update_listeners_ok:
  assumes "tree_inv t" "active_node_id t = Some i"
    and "\<And>n. dn_parent (g n) = dn_parent n \<and> dn_context (g n) = dn_context n \<and> dn_focus_id (g n) = dn_focus_id n \<and> dn_view_id (g n) = dn_view_id n"
  shows "\<exists>t'. update_active g t = Some t' \<and> tree_inv t' \<and> dt_node_stack t' = dt_node_stack t \<and>
     dt_nodes t' = (dt_nodes t)[i := g (dt_nodes t ! i)]"
proof -
  let ?t' = "t\<lparr>dt_nodes := (dt_nodes t)[i := g (dt_nodes t ! i)]\<rparr>"
  have "tree_inv ?t'"
    using assms by (intro tree_inv_update [OF assms(1,2), where n' = "g (dt_nodes t ! i)"])
      (auto simp: tree_inv_def intro!: ids_ok_update)
  then show ?thesis by (simp add: update_active_some [OF assms(1,2)])
qed

lemma push_node_ok:
  assumes "tree_inv t"
  shows "tree_inv (fst (push_node t))"
    and "dt_nodes (fst (push_node t)) = dt_nodes t @ [default_node\<lparr>dn_parent := active_node_id t\<rparr>]"
    and "dt_node_stack (fst (push_node t)) = dt_node_stack t @ [length (dt_nodes t)]"
proof -
  let ?ns = "dt_nodes t @ [default_node\<lparr>dn_parent := active_node_id t\<rparr>]"
  have inv: "parents_ok (dt_nodes t)" "chain (dt_nodes t) None (dt_node_stack t)" using assms by (simp_all add: tree_inv_def)
  have old: "i < length (dt_nodes t)" if "i \<in> set (dt_node_stack t)" for i using chain_range [OF inv(2) that] .
  have "p < length (dt_nodes t)" if "active_node_id t = Some p" for p using active_node_ok [OF assms that] by blast
  then have "parents_ok ?ns" using inv(1) by (auto simp: parents_ok_def nth_append less_Suc_eq)
  moreover have "chain ?ns None (dt_node_stack t @ [length (dt_nodes t)])"
    using chain_cong [OF inv(2), of ?ns] old by (auto simp: chain_append nth_append active_node_id_def split: option.split)
  ultimately show "tree_inv (fst (push_node t))"
    using assms old by (simp add: push_node_def Let_def tree_inv_def default_node_def collect_append ids_ok_append)
qed (simp_all add: push_node_def Let_def)

lemma pop_node_ok:
  assumes "tree_inv t" "dt_node_stack t \<noteq> []"
  shows "\<exists>t'. pop_node t = Some t' \<and> tree_inv t' \<and> dt_node_stack t' = butlast (dt_node_stack t) \<and> dt_nodes t' = dt_nodes t"
proof -
  obtain i where i: "active_node_id t = Some i" using assms(2) by (simp add: active_node_id_def last_opt_def)
  obtain "is" where st: "dt_node_stack t = is @ [i]" "i < length (dt_nodes t)" using active_node_ok [OF assms(1) i] by blast
  then show ?thesis
    using assms(1)
    by (auto simp: pop_node_def i get_node_def get_opt_def tree_inv_def chain_append butlast_append split: option.splits)
qed

lemma pop_to_ok:
  assumes "tree_inv t"
  shows "\<exists>t'. pop_to parent t = Some t' \<and> tree_inv t' \<and> dt_nodes t' = dt_nodes t \<and> dt_keymap t' = dt_keymap t \<and>
     dt_focusable_node_ids t' = dt_focusable_node_ids t \<and> dt_view_node_ids t' = dt_view_node_ids t \<and>
     (active_node_id t' = parent \<or> dt_node_stack t' = [])"
  using assms
proof (induction "length (dt_node_stack t)" arbitrary: t rule: less_induct)
  case less
  note simps = pop_to.simps [of parent t]
  show ?case
  proof (cases "active_node_id t \<noteq> parent \<and> dt_node_stack t \<noteq> []")
    case True
    then obtain t' where t': "pop_node t = Some t'" "tree_inv t'" "dt_node_stack t' = butlast (dt_node_stack t)" "dt_nodes t' = dt_nodes t"
      using pop_node_ok [OF less.prems] by blast
    have "dt_keymap t' = dt_keymap t" "dt_focusable_node_ids t' = dt_focusable_node_ids t" "dt_view_node_ids t' = dt_view_node_ids t"
      using t'(1) by (auto simp: pop_node_def bind_eq_Some_conv)
    moreover have "length (dt_node_stack t') < length (dt_node_stack t)" using True t'(3) by simp
    ultimately show ?thesis using less.hyps [OF _ t'(2)] t'(1,4) True by (auto simp: simps)
  qed (use less.prems in \<open>auto simp: simps\<close>)
qed

lemma push_ancestors_ok:
  "chain (dt_nodes t) None is \<Longrightarrow> push_ancestors (last_opt is) t =
     Some (t\<lparr>dt_context_stack := dt_context_stack t @ rev (collect dn_context (dt_nodes t) is),
             dt_view_stack := dt_view_stack t @ rev (collect dn_view_id (dt_nodes t) is),
             dt_node_stack := dt_node_stack t @ rev is\<rparr>)"
proof (induction "is" arbitrary: t rule: rev_induct)
  case Nil
  then show ?case by (simp add: push_ancestors.simps [of None])
next
  case (snoc i "is")
  have "(case last_opt is of Some i \<Rightarrow> Some i | None \<Rightarrow> None) = last_opt is" by (simp split: option.split)
  then have "dn_parent (dt_nodes t ! i) = last_opt is" "i < length (dt_nodes t)" "chain (dt_nodes t) None is"
    using snoc.prems by (simp_all add: chain_append)
  then show ?case
    using snoc.IH by (simp add: push_ancestors.simps [of "Some i"] get_node_def get_opt_def split: option.split)
qed

lemma set_active_node_ok:
  assumes "tree_inv t" "i < length (dt_nodes t)"
  shows "\<exists>t'. set_active_node i t = Some t' \<and> tree_inv t' \<and> dt_nodes t' = dt_nodes t \<and> active_node_id t' = Some i"
proof -
  let ?p = "dn_parent (dt_nodes t ! i)"
  obtain t1 where t1: "pop_to ?p t = Some t1" "tree_inv t1" "dt_nodes t1 = dt_nodes t" "active_node_id t1 = ?p \<or> dt_node_stack t1 = []"
    using pop_to_ok [OF assms(1)] by blast
  have node: "get_node t i = Some (dt_nodes t ! i)" using assms(2) by (simp add: get_node_def get_opt_def)
  obtain "is" where ch: "chain (dt_nodes t) None (is @ [i])" using chain_exists assms by (auto simp: tree_inv_def)
  show ?thesis
  proof (cases "active_node_id t1 = ?p")
    case True
    have "chain (dt_nodes t1) None (dt_node_stack t1 @ [i])"
      using t1(2,3) True assms(2) by (auto simp: tree_inv_def chain_append active_node_id_def split: option.splits)
    then show ?thesis
      using t1(2,3) True assms(2)
      by (auto simp: set_active_node_def node t1(1) get_node_def get_opt_def tree_inv_def active_node_id_def Let_def split: option.split)
  next
    case False
    then have e: "dt_node_stack t1 = []" "dt_context_stack t1 = []" "dt_view_stack t1 = []"
      using t1(2,4) by (simp_all add: tree_inv_def)
    have "push_ancestors (Some i) t1 =
        Some (t1\<lparr>dt_context_stack := rev (collect dn_context (dt_nodes t1) (is @ [i])),
                 dt_view_stack := rev (collect dn_view_id (dt_nodes t1) (is @ [i])), dt_node_stack := rev (is @ [i])\<rparr>)"
      using push_ancestors_ok [of t1 "is @ [i]"] ch e by (simp add: t1(3))
    then show ?thesis
      using t1(2,3) False ch e(1)
      by (auto simp: set_active_node_def node t1(1) tree_inv_def active_node_id_def last_opt_def simp del: collect_simps)
  qed
qed

lemma fold_remove:
  "fold (\<lambda>n m. case g n of Some x \<Rightarrow> m(x := None) | None \<Rightarrow> m) ns m x = (if Some x \<in> g ` set ns then None else m x)"
  by (induction ns arbitrary: m) (auto split: option.split)

lemma ids_ok_truncate:
  assumes "ids_ok g ns m"
  shows "ids_ok g (take i ns) (fold (\<lambda>n m. case g n of Some x \<Rightarrow> m(x := None) | None \<Rightarrow> m) (drop i ns) m)"
  unfolding ids_ok_def
proof (intro allI impI)
  fix x n
  assume *: "fold (\<lambda>n m. case g n of Some x \<Rightarrow> m(x := None) | None \<Rightarrow> m) (drop i ns) m x = Some n"
  then have m: "m x = Some n" "Some x \<notin> g ` set (drop i ns)" by (auto simp: fold_remove split: if_splits)
  then have n: "n < length ns" "g (ns ! n) = Some x" using assms by (auto simp: ids_ok_def)
  have "n < i"
  proof (rule ccontr)
    assume "\<not> n < i"
    then have "ns ! n \<in> set (drop i ns)" using n(1) by (auto simp: in_set_conv_nth intro!: exI [of _ "n - i"])
    with m(2) n(2) show False by (metis image_eqI)
  qed
  with n show "n < length (take i ns) \<and> g (take i ns ! n) = Some x" by simp
qed

lemma tree_truncate_ok:
  assumes "tree_inv t" "index \<le> length (dt_nodes t)" "\<forall>i \<in> set (dt_node_stack t). i < index"
  shows "\<exists>t'. tree_truncate index t = Some t' \<and> tree_inv t' \<and> dt_nodes t' = take index (dt_nodes t)"
proof -
  have "parents_ok (take index (dt_nodes t))" using assms(1) by (auto simp: tree_inv_def parents_ok_def)
  moreover have "chain (take index (dt_nodes t)) parent is" if "chain (dt_nodes t) parent is" "\<forall>i \<in> set is. i < index" for parent "is"
    using that assms(2) by (induction "dt_nodes t" parent "is" rule: chain.induct) auto
  ultimately show ?thesis
    using assms by (simp add: tree_truncate_def tree_inv_def collect_take ids_ok_truncate)
qed

section \<open>Reused subtrees\<close>

text \<open>A moved node is the source node below the active node; only the view may be left out, where it is that of an ancestor.\<close>

lemma move_node_ok:
  assumes "tree_inv t"
  shows "\<exists>t' w. move_node source t =
      Some (t', source\<lparr>dn_key_listeners := [], dn_action_listeners := [], dn_modifiers_changed_listeners := []\<rparr>) \<and>
    tree_inv t' \<and> dt_node_stack t' = dt_node_stack t @ [length (dt_nodes t)] \<and>
    dt_nodes t' = dt_nodes t @ [source\<lparr>dn_parent := active_node_id t, dn_view_id := w\<rparr>]"
proof -
  let ?N = "length (dt_nodes t)" and ?n = "default_node\<lparr>dn_parent := active_node_id t\<rparr>"
  let ?t1 = "fst (push_node t)"
  have at: "active_node_id t' = Some ?N" if "dt_node_stack t' = dt_node_stack t @ [?N]" for t' :: "('a, 'b, 'c, 'd) dispatch_tree"
    using that by (simp add: active_node_id_def)
  note 1 = push_node_ok [OF assms]
  obtain t2 where 2: "set_optional set_key_context (dn_context source) ?t1 = Some t2" "tree_inv t2"
    "dt_node_stack t2 = dt_node_stack t @ [?N]" "dt_nodes t2 = dt_nodes t @ [?n\<lparr>dn_context := dn_context source\<rparr>]"
    using set_key_context_ok [OF 1(1) at [OF 1(3)]] 1
    by (cases "dn_context source") (fastforce simp: set_optional_def default_node_def)+
  obtain t3 where 3: "set_optional set_focus_id (dn_focus_id source) t2 = Some t3" "tree_inv t3"
    "dt_node_stack t3 = dt_node_stack t @ [?N]"
    "dt_nodes t3 = dt_nodes t @ [?n\<lparr>dn_context := dn_context source, dn_focus_id := dn_focus_id source\<rparr>]"
    using set_focus_id_ok [OF 2(2) at [OF 2(3)]] 2
    by (cases "dn_focus_id source") (fastforce simp: set_optional_def default_node_def)+
  obtain t4 w where 4: "set_optional set_view_id (dn_view_id source) t3 = Some t4" "tree_inv t4"
    "dt_node_stack t4 = dt_node_stack t @ [?N]"
    "dt_nodes t4 = dt_nodes t @ [?n\<lparr>dn_context := dn_context source, dn_focus_id := dn_focus_id source, dn_view_id := w\<rparr>]"
    using set_view_id_ok [OF 3(2) at [OF 3(3)]] 3
    by (cases "dn_view_id source") (fastforce simp: set_optional_def default_node_def)+
  let ?g = "\<lambda>n. n\<lparr>dn_key_listeners := dn_key_listeners source, dn_action_listeners := dn_action_listeners source,
            dn_modifiers_changed_listeners := dn_modifiers_changed_listeners source\<rparr>"
  obtain t5 where 5: "update_active ?g t4 = Some t5" "tree_inv t5" "dt_node_stack t5 = dt_node_stack t4"
    "dt_nodes t5 = (dt_nodes t4)[?N := ?g (dt_nodes t4 ! ?N)]"
    using update_listeners_ok [OF 4(2) at [OF 4(3)], of ?g] by auto
  have "dt_nodes t5 = dt_nodes t @ [source\<lparr>dn_parent := active_node_id t, dn_view_id := w\<rparr>]"
    by (simp add: 4(4) 5(4) default_node_def)
  then show ?thesis using 2(1) 3(1) 4(1,3) 5(1,2,3) by (auto simp: move_node_def Let_def)
qed

text \<open>
  A range of nodes that starts at \<open>a\<close> is well nested when every node whose parent is in the range has
  that parent on the stack of open nodes, as is the case for nodes pushed and popped in order.
\<close>

fun well_nested :: "nat \<Rightarrow> (nat \<times> ('l, 'f, 'v) dispatch_node) list \<Rightarrow> nat list \<Rightarrow> bool" where
  "well_nested a [] st = True"
| "well_nested a ((j, n) # rest) st \<longleftrightarrow>
     (\<forall>p. dn_parent n = Some p \<and> a \<le> p \<longrightarrow> p \<in> set st) \<and>
     well_nested a rest (j # dropWhile (\<lambda>x. dn_parent n \<noteq> Some x) st)"

text \<open>The parent of a copy: the copy of the parent, or the node below which the subtree is put.\<close>

definition copied_parent :: "nat \<Rightarrow> nat \<Rightarrow> nat option \<Rightarrow> ('l, 'f, 'v) dispatch_node \<Rightarrow> nat option" where
  "copied_parent a N below n = (case dn_parent n of Some p \<Rightarrow> if a \<le> p then Some (p - a + N) else below | None \<Rightarrow> below)"

definition copy_of :: "nat \<Rightarrow> nat \<Rightarrow> nat option \<Rightarrow> ('l, 'f, 'v) dispatch_node \<Rightarrow> ('l, 'f, 'v) dispatch_node \<Rightarrow> bool" where
  "copy_of a N below n c \<longleftrightarrow> (\<exists>w. c = n\<lparr>dn_parent := copied_parent a N below n, dn_view_id := w\<rparr>)"

abbreviation stack_of :: "nat \<Rightarrow> nat \<Rightarrow> nat list \<Rightarrow> nat list" where
  "stack_of a N st \<equiv> rev (map (\<lambda>x. x - a + N) st)"

lemma pop_sources_ok:
  assumes "tree_inv t" "dt_node_stack t = base @ stack_of a N st"
  shows "\<exists>t'. pop_sources parent st t = Some (dropWhile (\<lambda>x. parent \<noteq> Some x) st, t') \<and> tree_inv t' \<and>
     dt_nodes t' = dt_nodes t \<and> dt_node_stack t' = base @ stack_of a N (dropWhile (\<lambda>x. parent \<noteq> Some x) st)"
  using assms
proof (induction st arbitrary: t)
  case (Cons x st)
  show ?case
  proof (cases "parent = Some x")
    case False
    obtain t1 where t1: "pop_node t = Some t1" "tree_inv t1" "dt_node_stack t1 = butlast (dt_node_stack t)" "dt_nodes t1 = dt_nodes t"
      using pop_node_ok [OF Cons.prems(1)] Cons.prems(2) by auto
    have "dt_node_stack t1 = base @ stack_of a N st" using Cons.prems(2) t1(3) by (simp add: butlast_append)
    from Cons.IH [OF t1(2) this] show ?thesis using False t1(1,4) by auto
  qed (use Cons.prems in auto)
qed simp

lemma pop_rest_ok:
  assumes "tree_inv t" "dt_node_stack t = base @ stack_of a N st"
  shows "\<exists>t'. pop_rest st t = Some t' \<and> tree_inv t' \<and> dt_nodes t' = dt_nodes t \<and> dt_node_stack t' = base"
  using assms
proof (induction st arbitrary: t)
  case (Cons x st)
  obtain t1 where t1: "pop_node t = Some t1" "tree_inv t1" "dt_node_stack t1 = butlast (dt_node_stack t)" "dt_nodes t1 = dt_nodes t"
    using pop_node_ok [OF Cons.prems(1)] Cons.prems(2) by auto
  have "dt_node_stack t1 = base @ stack_of a N st" using Cons.prems(2) t1(3) by (simp add: butlast_append)
  from Cons.IH [OF t1(2) this] show ?case using t1(1,4) by auto
qed simp

lemma copied_parent_of_stack:
  assumes "\<forall>x \<in> set st. a \<le> x" "\<forall>p. dn_parent n = Some p \<and> a \<le> p \<longrightarrow> p \<in> set st"
  shows "last_opt (base @ stack_of a N (dropWhile (\<lambda>x. dn_parent n \<noteq> Some x) st)) = copied_parent a N (last_opt base) n"
proof (cases "dropWhile (\<lambda>x. dn_parent n \<noteq> Some x) st")
  case Nil
  then have "\<forall>x \<in> set st. dn_parent n \<noteq> Some x" by (simp only: dropWhile_eq_Nil_conv)
  then have "\<not> a \<le> p" if "dn_parent n = Some p" for p using that assms(2) by blast
  then have "copied_parent a N (last_opt base) n = last_opt base" by (simp add: copied_parent_def split: option.split)
  then show ?thesis unfolding Nil by simp
next
  case (Cons x rest)
  then have x: "dn_parent n = Some x" using hd_dropWhile [of "\<lambda>x. dn_parent n \<noteq> Some x" st] by simp
  moreover have "x \<in> set st" using Cons set_dropWhileD [of x "\<lambda>x. dn_parent n \<noteq> Some x" st] by simp
  ultimately show ?thesis using assms(1) unfolding Cons by (simp add: copied_parent_def)
qed

lemma move_nodes_ok:
  assumes "tree_inv t" "dt_node_stack t = base @ stack_of a N st" "\<forall>x \<in> set st. a \<le> x"
    and "well_nested a part st" "map fst part = [j..<j + length part]" "a \<le> j" "length (dt_nodes t) = j - a + N"
  shows "\<exists>st' t' copies. move_nodes focus part st found t =
      Some (st', found \<or> (focus \<noteq> None \<and> focus \<in> dn_focus_id ` snd ` set part), t',
        map (\<lambda>(_, n). n\<lparr>dn_key_listeners := [], dn_action_listeners := [], dn_modifiers_changed_listeners := []\<rparr>) part) \<and>
    tree_inv t' \<and> dt_node_stack t' = base @ stack_of a N st' \<and>
    dt_nodes t' = dt_nodes t @ copies \<and> list_all2 (copy_of a N (last_opt base)) (map snd part) copies"
  using assms
proof (induction part arbitrary: t st j found)
  case (Cons e part)
  have "[j..<j + length (e # part)] = j # [Suc j..<Suc j + length part]" by (simp add: upt_conv_Cons del: upt_Suc)
  then have fst: "fst e = j" "map fst part = [Suc j..<Suc j + length part]" using Cons.prems(5) by simp_all
  then obtain n where e: "e = (j, n)" by (cases e) simp
  let ?st = "dropWhile (\<lambda>x. dn_parent n \<noteq> Some x) st"
  have nested: "\<forall>p. dn_parent n = Some p \<and> a \<le> p \<longrightarrow> p \<in> set st" "well_nested a part (j # ?st)"
    using Cons.prems(4) by (simp_all add: e)
  obtain t1 where t1: "pop_sources (dn_parent n) st t = Some (?st, t1)" "tree_inv t1" "dt_nodes t1 = dt_nodes t"
    "dt_node_stack t1 = base @ stack_of a N ?st" using pop_sources_ok [OF Cons.prems(1,2)] by blast
  have act: "active_node_id t1 = copied_parent a N (last_opt base) n"
    unfolding active_node_id_def t1(4) by (rule copied_parent_of_stack [OF Cons.prems(3) nested(1)])
  obtain t2 w where t2: "move_node n t1 = Some (t2, n\<lparr>dn_key_listeners := [], dn_action_listeners := [], dn_modifiers_changed_listeners := []\<rparr>)"
    "tree_inv t2" "dt_node_stack t2 = dt_node_stack t1 @ [length (dt_nodes t1)]"
    "dt_nodes t2 = dt_nodes t1 @ [n\<lparr>dn_parent := active_node_id t1, dn_view_id := w\<rparr>]"
    using move_node_ok [OF t1(2), of n] by blast
  have st2: "dt_node_stack t2 = base @ stack_of a N (j # ?st)"
    using t2(3) t1(3,4) Cons.prems(7) by simp
  have ge: "\<forall>x \<in> set (j # ?st). a \<le> x" using Cons.prems(3,6) by (auto dest: set_dropWhileD)
  have len: "length (dt_nodes t2) = Suc j - a + N"
    using Cons.prems(6,7) t2(4) t1(3) by simp
  let ?found = "found \<or> (dn_focus_id n \<noteq> None \<and> dn_focus_id n = focus)"
  obtain st' t' copies where r: "move_nodes focus part (j # ?st) ?found t2 =
      Some (st', ?found \<or> (focus \<noteq> None \<and> focus \<in> dn_focus_id ` snd ` set part), t',
        map (\<lambda>(_, n). n\<lparr>dn_key_listeners := [], dn_action_listeners := [], dn_modifiers_changed_listeners := []\<rparr>) part)"
    "tree_inv t'" "dt_node_stack t' = base @ stack_of a N st'" "dt_nodes t' = dt_nodes t2 @ copies"
    "list_all2 (copy_of a N (last_opt base)) (map snd part) copies"
    using Cons.IH [OF t2(2) st2 ge nested(2) fst(2) _ len, of ?found] Cons.prems(6) by auto
  have "copy_of a N (last_opt base) n (n\<lparr>dn_parent := active_node_id t1, dn_view_id := w\<rparr>)"
    by (auto simp: copy_of_def act)
  moreover have "(?found \<or> (focus \<noteq> None \<and> focus \<in> dn_focus_id ` snd ` set part)) =
      (found \<or> (focus \<noteq> None \<and> focus \<in> dn_focus_id ` snd ` set (e # part)))" by (auto simp: e)
  ultimately show ?case
    using r t1(1,3) t2(1,4) by (auto simp: e intro!: exI [of _ "n\<lparr>dn_parent := active_node_id t1, dn_view_id := w\<rparr> # copies"])
qed simp

lemma reuse_subtree_ok:
  fixes a b source t
  defines "N \<equiv> length (dt_nodes t)" and "part \<equiv> take (b - a) (drop a (enumerate 0 (dt_nodes source)))"
  assumes inv: "tree_inv t" and ab: "a \<le> b" "b \<le> length (dt_nodes source)" and nested: "well_nested a part []"
  shows "\<exists>t' source' r. reuse_subtree a b source focus t = Some (t', source', r) \<and> tree_inv t' \<and>
     dt_node_stack t' = dt_node_stack t \<and> dt_context_stack t' = dt_context_stack t \<and> dt_view_stack t' = dt_view_stack t \<and>
     take N (dt_nodes t') = dt_nodes t \<and> length (dt_nodes t') = N + (b - a) \<and>
     (\<forall>i. a \<le> i \<and> i < b \<longrightarrow> refresh_node_id r i = Some (i - a + N) \<and>
        copy_of a N (active_node_id t) (dt_nodes source ! i) (dt_nodes t' ! (i - a + N))) \<and>
     (rs_contains_focus r \<longleftrightarrow> (\<exists>f i. focus = Some f \<and> a \<le> i \<and> i < b \<and> dn_focus_id (dt_nodes source ! i) = Some f))"
proof -
  have part: "part = map (\<lambda>i. (i, dt_nodes source ! i)) [a..<b]"
    using ab by (intro nth_equalityI) (auto simp: part_def nth_enumerate_eq)
  have ids: "map fst part = [a..<a + length part]" "map snd part = map (\<lambda>i. dt_nodes source ! i) [a..<b]"
    using ab(1) by (simp_all add: part comp_def)
  have "\<exists>st' t' copies. move_nodes focus part [] False t =
      Some (st', False \<or> (focus \<noteq> None \<and> focus \<in> dn_focus_id ` snd ` set part), t',
        map (\<lambda>(_, n). n\<lparr>dn_key_listeners := [], dn_action_listeners := [], dn_modifiers_changed_listeners := []\<rparr>) part) \<and>
    tree_inv t' \<and> dt_node_stack t' = dt_node_stack t @ stack_of a N st' \<and>
    dt_nodes t' = dt_nodes t @ copies \<and> list_all2 (copy_of a N (last_opt (dt_node_stack t))) (map snd part) copies"
    by (rule move_nodes_ok [OF inv _ _ nested ids(1)]) (simp_all add: N_def)
  then obtain st t1 copies where t1: "move_nodes focus part [] False t =
      Some (st, focus \<noteq> None \<and> focus \<in> dn_focus_id ` snd ` set part, t1,
        map (\<lambda>(_, n). n\<lparr>dn_key_listeners := [], dn_action_listeners := [], dn_modifiers_changed_listeners := []\<rparr>) part)"
    "tree_inv t1" "dt_node_stack t1 = dt_node_stack t @ stack_of a N st" "dt_nodes t1 = dt_nodes t @ copies"
    "list_all2 (copy_of a N (last_opt (dt_node_stack t))) (map snd part) copies"
    by (simp only: simp_thms) blast
  obtain t' where t': "pop_rest st t1 = Some t'" "tree_inv t'" "dt_nodes t' = dt_nodes t1" "dt_node_stack t' = dt_node_stack t"
    using pop_rest_ok [OF t1(2,3)] by blast
  let ?source' = "source\<lparr>dt_nodes := take a (dt_nodes source) @
      map (\<lambda>(_, n). n\<lparr>dn_key_listeners := [], dn_action_listeners := [], dn_modifiers_changed_listeners := []\<rparr>) part @
      drop (a + length part) (dt_nodes source)\<rparr>"
  let ?r = "\<lparr>rs_old_start = a, rs_old_end = b, rs_new_start = N, rs_contains_focus = (focus \<noteq> None \<and> focus \<in> dn_focus_id ` snd ` set part)\<rparr>"
  have run: "reuse_subtree a b source focus t = Some (t', ?source', ?r)"
    by (simp add: reuse_subtree_def part_def [symmetric] t1(1) t'(1) N_def)
  have "i < length (dt_nodes t)" if "i \<in> set (dt_node_stack t)" for i
    using that chain_range inv by (auto simp: tree_inv_def)
  then have stacks: "dt_context_stack t' = dt_context_stack t" "dt_view_stack t' = dt_view_stack t"
    using t'(2) inv by (simp_all add: tree_inv_def t'(3,4) t1(4) collect_append)
  have len: "length copies = b - a" using t1(5) by (auto simp: ids(2) dest: list_all2_lengthD)
  have copies: "copy_of a N (active_node_id t) (dt_nodes source ! i) (dt_nodes t' ! (i - a + N))" if "a \<le> i" "i < b" for i
  proof -
    have "dt_nodes t' ! (i - a + N) = copies ! (i - a)" by (simp add: t'(3) t1(4) N_def nth_append)
    moreover have "i - a < b - a" using that by simp
    ultimately show ?thesis
      using list_all2_nthD [OF t1(5), of "i - a"] that by (simp add: ids(2) active_node_id_def)
  qed
  have "rs_contains_focus ?r \<longleftrightarrow> (\<exists>f i. focus = Some f \<and> a \<le> i \<and> i < b \<and> dn_focus_id (dt_nodes source ! i) = Some f)"
    by (auto simp: part image_image) (metis atLeastLessThan_iff imageI)
  moreover have "\<forall>i. a \<le> i \<and> i < b \<longrightarrow> refresh_node_id ?r i = Some (i - a + N)" by (simp add: refresh_node_id_def)
  moreover have "take N (dt_nodes t') = dt_nodes t" "length (dt_nodes t') = N + (b - a)"
    using len by (simp_all add: t'(3) t1(4) N_def)
  ultimately show ?thesis using run t'(2,4) stacks copies by blast
qed

section \<open>Properties\<close>

text \<open>
  The trees a frame can build. A node gets its context, its focus handle and its view at most
  once, truncation keeps the open nodes, and the ranges that are reused are well nested.
\<close>

inductive tree_reachable :: "('l, 'f, 'v, 'u) dispatch_tree \<Rightarrow> bool" where
  reach_new: "tree_reachable (tree_new km)"
| reach_clear: "tree_reachable t \<Longrightarrow> tree_reachable (tree_clear t)"
| reach_push: "tree_reachable t \<Longrightarrow> push_node t = (t', i) \<Longrightarrow> tree_reachable t'"
| reach_pop: "tree_reachable t \<Longrightarrow> pop_node t = Some t' \<Longrightarrow> tree_reachable t'"
| reach_active: "tree_reachable t \<Longrightarrow> set_active_node i t = Some t' \<Longrightarrow> tree_reachable t'"
| reach_context: "tree_reachable t \<Longrightarrow> active_node_id t = Some i \<Longrightarrow> dn_context (dt_nodes t ! i) = None \<Longrightarrow>
    set_key_context c t = Some t' \<Longrightarrow> tree_reachable t'"
| reach_focus: "tree_reachable t \<Longrightarrow> active_node_id t = Some i \<Longrightarrow> dn_focus_id (dt_nodes t ! i) = None \<Longrightarrow>
    set_focus_id f t = Some t' \<Longrightarrow> tree_reachable t'"
| reach_view: "tree_reachable t \<Longrightarrow> active_node_id t = Some i \<Longrightarrow> dn_view_id (dt_nodes t ! i) = None \<Longrightarrow>
    set_view_id v t = Some t' \<Longrightarrow> tree_reachable t'"
| reach_key_event: "tree_reachable t \<Longrightarrow> on_key_event l t = Some t' \<Longrightarrow> tree_reachable t'"
| reach_modifiers: "tree_reachable t \<Longrightarrow> on_modifiers_changed l t = Some t' \<Longrightarrow> tree_reachable t'"
| reach_action: "tree_reachable t \<Longrightarrow> on_action ty l t = Some t' \<Longrightarrow> tree_reachable t'"
| reach_truncate: "tree_reachable t \<Longrightarrow> \<forall>i \<in> set (dt_node_stack t). i < index \<Longrightarrow> tree_truncate index t = Some t' \<Longrightarrow> tree_reachable t'"
| reach_reuse: "tree_reachable t \<Longrightarrow> a \<le> b \<Longrightarrow> b \<le> length (dt_nodes source) \<Longrightarrow>
    well_nested a (take (b - a) (drop a (enumerate 0 (dt_nodes source)))) [] \<Longrightarrow>
    reuse_subtree a b source focus t = Some (t', source', r) \<Longrightarrow> tree_reachable t'"

lemma update_active_active: "update_active g t = Some t' \<Longrightarrow> \<exists>i. active_node_id t = Some i"
  by (auto simp: update_active_def bind_eq_Some_conv)

lemma listener_step:
  assumes "tree_inv t" "update_active g t = Some t'"
    and "\<And>n. dn_parent (g n) = dn_parent n \<and> dn_context (g n) = dn_context n \<and> dn_focus_id (g n) = dn_focus_id n \<and> dn_view_id (g n) = dn_view_id n"
  shows "tree_inv t'"
proof -
  obtain i where "active_node_id t = Some i" using update_active_active [OF assms(2)] by blast
  from update_listeners_ok [OF assms(1) this assms(3)] show ?thesis using assms(2) by auto
qed

lemma empty_tree_inv: "tree_inv (tree_new km)" "tree_inv (tree_clear t)"
  by (simp_all add: tree_inv_def tree_new_def tree_clear_def parents_ok_def ids_ok_def)

lemma reachable_tree_inv: "tree_reachable t \<Longrightarrow> tree_inv t"
proof (induction rule: tree_reachable.induct)
  case (reach_pop t t')
  then have "dt_node_stack t \<noteq> []" by (auto simp: pop_node_def active_node_id_def last_opt_def bind_eq_Some_conv)
  then show ?case using pop_node_ok [OF reach_pop.IH] reach_pop.hyps by auto
next
  case (reach_active t i t')
  then have "i < length (dt_nodes t)" by (auto simp: set_active_node_def get_node_def get_opt_def bind_eq_Some_conv split: if_splits)
  from set_active_node_ok [OF reach_active.IH this] show ?case using reach_active.hyps(2) by auto
next
  case (reach_truncate t index t')
  then have "index \<le> length (dt_nodes t)" by (auto simp: tree_truncate_def bind_eq_Some_conv)
  from tree_truncate_ok [OF reach_truncate.IH this reach_truncate.hyps(2)] show ?case using reach_truncate.hyps(3) by auto
next
  case (reach_reuse t a b source focus t' source' r)
  then show ?case using reuse_subtree_ok [OF reach_reuse.IH reach_reuse.hyps(2,3,4), of focus] by auto
next
  case (reach_push t t' i)
  then show ?case using push_node_ok(1) [OF reach_push.IH] by simp
next
  case (reach_key_event t l t')
  then show ?case by (auto simp: on_key_event_def intro: listener_step)
next
  case (reach_modifiers t l t')
  then show ?case by (auto simp: on_modifiers_changed_def intro: listener_step)
next
  case (reach_action t ty l t')
  then show ?case by (auto simp: on_action_def intro: listener_step)
next
  case (reach_context t i c t')
  from set_key_context_ok [OF reach_context.IH reach_context.hyps(2,3), of c] show ?case using reach_context.hyps(4) by auto
next
  case (reach_focus t i f t')
  from set_focus_id_ok [OF reach_focus.IH reach_focus.hyps(2,3), of f] show ?case using reach_focus.hyps(4) by auto
next
  case (reach_view t i v t')
  from set_view_id_ok [OF reach_view.IH reach_view.hyps(2,3), of v] show ?case using reach_view.hyps(4) by auto
qed (simp_all add: empty_tree_inv)

lemma paths_ok:
  assumes "tree_inv t" "i < length (dt_nodes t)"
  shows "\<exists>path. dispatch_path t i = Some (path @ [i]) \<and> chain (dt_nodes t) None (path @ [i]) \<and>
     contexts_along t (path @ [i]) = Some (collect dn_context (dt_nodes t) (path @ [i]))"
proof -
  obtain path where "chain (dt_nodes t) None (path @ [i])" using chain_exists assms by (auto simp: tree_inv_def)
  then show ?thesis using dispatch_path_chain contexts_along_chain by blast
qed

lemma active_path:
  assumes "tree_inv t" "active_node_id t = Some i"
  shows "dispatch_path t i = Some (dt_node_stack t)" "contexts_along t (dt_node_stack t) = Some (dt_context_stack t)"
proof -
  obtain "is" where st: "dt_node_stack t = is @ [i]" using active_node_ok [OF assms] by blast
  then show "dispatch_path t i = Some (dt_node_stack t)" using dispatch_path_chain [of t "is" i] assms(1) by (simp add: tree_inv_def)
  show "contexts_along t (dt_node_stack t) = Some (dt_context_stack t)"
    using contexts_along_chain [of t None "dt_node_stack t"] assms(1) by (simp add: tree_inv_def)
qed

lemma contains_loop_chain:
  "chain (dt_nodes t) None is \<Longrightarrow> contains_loop t p (last_opt is) = Some (p \<in> set is)"
proof (induction "is" rule: rev_induct)
  case Nil
  then show ?case by (simp add: contains_loop.simps [of t p None])
next
  case (snoc i "is")
  have "(case last_opt is of Some i \<Rightarrow> Some i | None \<Rightarrow> None) = last_opt is" by (simp split: option.split)
  then have "dn_parent (dt_nodes t ! i) = last_opt is" "i < length (dt_nodes t)" "chain (dt_nodes t) None is"
    using snoc.prems by (simp_all add: chain_append)
  then show ?case using snoc.IH by (auto simp: contains_loop.simps [of t p "Some i"] get_node_def get_opt_def)
qed

text \<open>A frame with a root in a context and a focused child.\<close>

definition sample_frame :: "(nat, nat, nat, nat) dispatch_tree" where
  "sample_frame =
     the (do {
       t \<leftarrow> set_key_context [\<lparr>ce_key = ''Editor'', ce_value = None\<rparr>] (fst (push_node (tree_new keymap_default)));
       t \<leftarrow> set_focus_id 7 (fst (push_node t));
       Some t })"

lemma sample_frame_reachable: "tree_reachable sample_frame"
proof -
  let ?c = "[\<lparr>ce_key = ''Editor'', ce_value = None\<rparr>]"
  let ?t1 = "fst (push_node (tree_new keymap_default)) :: (nat, nat, nat, nat) dispatch_tree"
  obtain t2 where t2: "set_key_context ?c ?t1 = Some t2"
    by (simp add: set_key_context_def update_active_def push_node_def tree_new_def active_node_id_def get_node_def get_opt_def last_opt_def Let_def)
  have 1: "tree_reachable ?t1" by (rule reach_push [OF reach_new, of keymap_default ?t1 0]) (simp add: push_node_def tree_new_def Let_def)
  have 2: "tree_reachable t2"
    by (rule reach_context [OF 1 _ _ t2, of 0])
      (simp_all add: push_node_def tree_new_def active_node_id_def default_node_def last_opt_def Let_def)
  have n2: "length (dt_nodes t2) = 1" "dt_node_stack t2 = [0]"
    using t2 by (auto simp: set_key_context_def update_active_def push_node_def tree_new_def active_node_id_def get_node_def get_opt_def last_opt_def Let_def)
  have 3: "tree_reachable (fst (push_node t2))" by (rule reach_push [OF 2, of _ 1]) (simp add: push_node_def n2 Let_def)
  obtain t4 where t4: "set_focus_id 7 (fst (push_node t2)) = Some t4"
    by (simp add: set_focus_id_def update_active_def push_node_def active_node_id_def get_node_def get_opt_def last_opt_def Let_def n2 nth_append)
  have "tree_reachable t4"
    by (rule reach_focus [OF 3 _ _ t4, of 1])
      (simp_all add: push_node_def active_node_id_def default_node_def last_opt_def Let_def n2 nth_append)
  then show ?thesis by (simp add: sample_frame_def t2 t4)
qed

lemma sample_frame_nodes: "length (dt_nodes sample_frame) = 2" "active_node_id sample_frame = Some 1"
  "dt_focusable_node_ids sample_frame 7 = Some 1" "dt_node_stack sample_frame = [0, 1]"
  by (simp_all add: sample_frame_def set_focus_id_def set_key_context_def update_active_def push_node_def tree_new_def
      active_node_id_def get_node_def get_opt_def last_opt_def default_node_def Let_def nth_append)

lemma sample_frame_other: "dt_focusable_node_ids sample_frame 9 = None"
  by (simp add: sample_frame_def set_focus_id_def set_key_context_def update_active_def push_node_def tree_new_def
      active_node_id_def get_node_def get_opt_def last_opt_def default_node_def Let_def nth_append)

text \<open>
  Claim C22. In every tree that a frame builds, parents precede their children, so the walks to the root
  end; \<^verbatim>\<open>dispatch_path\<close> of a node is the one path from the root to it, its contexts can be read without
  a panic, and for the active node both are the stacks that the tree keeps.
\<close>

theorem dispatch_tree_invariant:
  assumes "tree_reachable t" "i < length (dt_nodes t)"
  shows "parents_ok (dt_nodes t) \<and>
     (\<exists>path. dispatch_path t i = Some (path @ [i]) \<and> chain (dt_nodes t) None (path @ [i]) \<and>
        contexts_along t (path @ [i]) = Some (collect dn_context (dt_nodes t) (path @ [i]))) \<and>
     (active_node_id t = Some i \<longrightarrow>
        dispatch_path t i = Some (dt_node_stack t) \<and> contexts_along t (dt_node_stack t) = Some (dt_context_stack t))"
proof -
  have inv: "tree_inv t" by (rule reachable_tree_inv [OF assms(1)])
  then have "parents_ok (dt_nodes t)" by (simp add: tree_inv_def)
  then show ?thesis using paths_ok [OF inv assms(2)] active_path [OF inv, of i] by blast
qed

theorem dispatch_tree_invariant_witness: "dispatch_path sample_frame 1 = Some [0, 1]"
  using dispatch_tree_invariant [OF sample_frame_reachable, of 1] by (simp add: sample_frame_nodes)

text \<open>
  Claim C2. No typed keystroke is lost, doubled or reordered. \<^verbatim>\<open>dispatch_key\<close> ends without a panic; the
  pending input falls into segments, each the longest prefix with bindings or a single keystroke; the
  first \<open>n\<close> segments are replayed in order, each with its bindings, exactly as long as what is left with the new
  keystroke neither matches nor may match; and what is left becomes the new pending input or triggers its bindings.
\<close>

theorem dispatch_key_accounts_for_input:
  assumes "tree_reachable t" "i < length (dt_nodes t)" "dispatch_path t i = Some path"
  shows "\<exists>cs r n segs. contexts_along t path = Some cs \<and> segs = segments (bound os t cs) input \<and> concat segs = input \<and>
     dispatch_key os t input k path = Some r \<and> n \<le> length segs \<and>
     dr_to_replay r = map (event_of (bound os t cs)) (take n segs) \<and>
     (\<forall>m < n. unmatched os t cs (concat (drop m segs) @ [k])) \<and> outcome os t cs (concat (drop n segs) @ [k]) r"
proof -
  obtain cs where cs: "contexts_along t path = Some cs"
    using paths_ok [OF reachable_tree_inv [OF assms(1)] assms(2)] assms(3) by auto
  show ?thesis using dispatch_key_ok [OF cs, of os input k] cs concat_segments by blast
qed

theorem dispatch_key_accounts_for_input_witness:
  "\<exists>r. dispatch_key Linux sample_frame [\<lparr>k_modifiers = no_modifiers, k_key = ''x'', k_key_char = None\<rparr>]
     \<lparr>k_modifiers = no_modifiers, k_key = ''y'', k_key_char = None\<rparr> [0, 1] = Some r"
  using dispatch_key_accounts_for_input [OF sample_frame_reachable, of 1 "[0, 1]" Linux "[\<lparr>k_modifiers = no_modifiers, k_key = ''x'', k_key_char = None\<rparr>]"
      "\<lparr>k_modifiers = no_modifiers, k_key = ''y'', k_key_char = None\<rparr>"]
    active_path [OF reachable_tree_inv [OF sample_frame_reachable], of 1]
  by (auto simp: sample_frame_nodes)

text \<open>
  When the time for further input is over, \<^verbatim>\<open>flush_dispatch\<close> replays the whole pending input,
  segment by segment; on empty input it panics.
\<close>

theorem flush_dispatch_replays_all:
  assumes "tree_reachable t" "i < length (dt_nodes t)" "dispatch_path t i = Some path"
  shows "\<exists>cs. contexts_along t path = Some cs \<and> concat (segments (bound os t cs) input) = input \<and>
     flush_dispatch os t input path =
       (if input = [] then None else Some (map (event_of (bound os t cs)) (segments (bound os t cs) input)))"
proof -
  obtain cs where cs: "contexts_along t path = Some cs"
    using paths_ok [OF reachable_tree_inv [OF assms(1)] assms(2)] assms(3) by auto
  have "flush_dispatch os t [] path = None" by (simp add: flush_dispatch.simps replay_prefix_def)
  then show ?thesis using flush_dispatch_ok [OF cs] cs concat_segments by metis
qed

theorem flush_dispatch_replays_all_witness: "flush_dispatch Linux sample_frame [] [0, 1] = None"
  using flush_dispatch_replays_all [OF sample_frame_reachable, of 1 "[0, 1]" Linux "[]"]
    active_path [OF reachable_tree_inv [OF sample_frame_reachable], of 1]
  by (auto simp: sample_frame_nodes)

text \<open>
  Claim C36. \<^verbatim>\<open>reuse_subtree\<close> copies a well-nested range of the tree of the last frame: every node keeps
  its context, focus handle and listeners, its parent becomes the copy of its parent or, for the top
  nodes, the active node; the stacks are as before, \<^verbatim>\<open>refresh_node_id\<close> finds the copy, and the focus is reported
  exactly when it lies in the range.
\<close>

theorem reuse_subtree_copies:
  assumes "tree_reachable t" "a \<le> b" "b \<le> length (dt_nodes source)"
    and "well_nested a (take (b - a) (drop a (enumerate 0 (dt_nodes source)))) []"
  shows "\<exists>t' source' r. reuse_subtree a b source focus t = Some (t', source', r) \<and>
     dt_node_stack t' = dt_node_stack t \<and> dt_context_stack t' = dt_context_stack t \<and> dt_view_stack t' = dt_view_stack t \<and>
     take (length (dt_nodes t)) (dt_nodes t') = dt_nodes t \<and> length (dt_nodes t') = length (dt_nodes t) + (b - a) \<and>
     (\<forall>i. a \<le> i \<and> i < b \<longrightarrow> refresh_node_id r i = Some (i - a + length (dt_nodes t)) \<and>
        copy_of a (length (dt_nodes t)) (active_node_id t) (dt_nodes source ! i) (dt_nodes t' ! (i - a + length (dt_nodes t)))) \<and>
     (rs_contains_focus r \<longleftrightarrow> (\<exists>f i. focus = Some f \<and> a \<le> i \<and> i < b \<and> dn_focus_id (dt_nodes source ! i) = Some f))"
  using reuse_subtree_ok [OF reachable_tree_inv [OF assms(1)] assms(2-4), of focus] by blast

theorem reuse_subtree_copies_witness:
  "\<exists>t' source' r. reuse_subtree 0 2 sample_frame (Some 7) sample_frame = Some (t', source', r) \<and>
     length (dt_nodes t') = 4 \<and> refresh_node_id r 1 = Some 3"
proof -
  have "well_nested 0 (take (2 - 0) (drop 0 (enumerate 0 (dt_nodes sample_frame)))) []"
    by (simp add: sample_frame_def set_focus_id_def set_key_context_def update_active_def push_node_def tree_new_def
      active_node_id_def get_node_def get_opt_def last_opt_def default_node_def Let_def nth_append)
  from reuse_subtree_copies [OF sample_frame_reachable _ _ this, of "Some 7"]
  obtain t' source' r where "reuse_subtree 0 2 sample_frame (Some 7) sample_frame = Some (t', source', r)"
    "length (dt_nodes t') = 2 + (2 - 0)" "\<forall>i. 0 \<le> i \<and> i < 2 \<longrightarrow> refresh_node_id r i = Some (i - 0 + 2)"
    by (auto simp: sample_frame_nodes)
  then show ?thesis by auto
qed

text \<open>
  \<^verbatim>\<open>highest_precedence_binding_for_action\<close> is the last of the bindings that
  \<^verbatim>\<open>bindings_for_action\<close> lists, as its documentation promises, though it searches from the end.
\<close>

theorem highest_precedence_is_last:
  "highest_precedence_binding_for_action os t action context_stack =
     map_option last_opt (tree_bindings_for_action os t action context_stack)"
  by (cases "bindings_for_action (dt_keymap t) action")
    (simp_all add: highest_precedence_binding_for_action_def tree_bindings_for_action_def find_rev_last)

text \<open>
  \<^verbatim>\<open>focus_contains\<close> holds exactly when the handles are the same or the node of the parent lies on
  the path from the root to the node of the child.
\<close>

theorem focus_contains_is_ancestor:
  assumes "tree_reachable t" "dt_focusable_node_ids t child = Some n"
  shows "\<exists>path. dispatch_path t n = Some path \<and>
     focus_contains t parent child = Some (parent = child \<or> (\<exists>p \<in> set path. dt_focusable_node_ids t parent = Some p))"
proof -
  have inv: "tree_inv t" by (rule reachable_tree_inv [OF assms(1)])
  then have "n < length (dt_nodes t)" using assms(2) by (auto simp: tree_inv_def ids_ok_def)
  from paths_ok [OF inv this] obtain path where path: "dispatch_path t n = Some (path @ [n])" "chain (dt_nodes t) None (path @ [n])"
    by blast
  from contains_loop_chain [OF path(2)] show ?thesis
    using path(1) by (auto simp: focus_contains_def assms(2) split: option.split)
qed

theorem focus_contains_is_ancestor_witness: "focus_contains sample_frame 9 7 = Some False"
  using focus_contains_is_ancestor [OF sample_frame_reachable, of 7 1 9] by (auto simp: sample_frame_nodes sample_frame_other)

end
