(* ===== verification/Geometry.thy ===== *)
theory Geometry
  imports Prelude
begin

text \<open>
  The rectangles of the layout (\<^verbatim>\<open>crates/gpui/src/geometry.rs\<close>): points, sizes, bounds, edges and
  anchors. The coordinate type of the source is generic; here it is any linearly ordered abelian
  group, so the theorems hold for exact arithmetic and say nothing of the rounding of \<^verbatim>\<open>f32\<close>.
  \<^verbatim>\<open>Half::half\<close>, which the coordinate type provides, is an argument.
\<close>

section \<open>Points and sizes\<close>

datatype axis = Vertical | Horizontal

fun axis_invert :: "axis \<Rightarrow> axis" where
  "axis_invert Vertical = Horizontal"
| "axis_invert Horizontal = Vertical"

record 'u point =
  p_x :: 'u
  p_y :: 'u

record 'u size2 =
  s_width :: 'u
  s_height :: 'u

definition point_new :: "'u \<Rightarrow> 'u \<Rightarrow> 'u point" where
  "point_new x y = \<lparr>p_x = x, p_y = y\<rparr>"

definition point_map :: "('u \<Rightarrow> 'v) \<Rightarrow> 'u point \<Rightarrow> 'v point" where
  "point_map f p = \<lparr>p_x = f (p_x p), p_y = f (p_y p)\<rparr>"

fun point_along :: "'u point \<Rightarrow> axis \<Rightarrow> 'u" where
  "point_along p Horizontal = p_x p"
| "point_along p Vertical = p_y p"

fun point_apply_along :: "'u point \<Rightarrow> axis \<Rightarrow> ('u \<Rightarrow> 'u) \<Rightarrow> 'u point" where
  "point_apply_along p Horizontal f = \<lparr>p_x = f (p_x p), p_y = p_y p\<rparr>"
| "point_apply_along p Vertical f = \<lparr>p_x = p_x p, p_y = f (p_y p)\<rparr>"

text \<open>The derived \<^verbatim>\<open>Add\<close> and \<^verbatim>\<open>Sub\<close> of points and sizes.\<close>

definition point_add :: "'u::plus point \<Rightarrow> 'u point \<Rightarrow> 'u point" where
  "point_add p q = \<lparr>p_x = p_x p + p_x q, p_y = p_y p + p_y q\<rparr>"

definition point_sub :: "'u::minus point \<Rightarrow> 'u point \<Rightarrow> 'u point" where
  "point_sub p q = \<lparr>p_x = p_x p - p_x q, p_y = p_y p - p_y q\<rparr>"

definition size_add :: "'u::plus size2 \<Rightarrow> 'u size2 \<Rightarrow> 'u size2" where
  "size_add s t = \<lparr>s_width = s_width s + s_width t, s_height = s_height s + s_height t\<rparr>"

definition relative_to :: "'u::minus point \<Rightarrow> 'u point \<Rightarrow> 'u point" where
  "relative_to p origin = point_new (p_x p - p_x origin) (p_y p - p_y origin)"

definition point_max :: "'u::ord point \<Rightarrow> 'u point \<Rightarrow> 'u point" where
  "point_max p q = \<lparr>p_x = (if p_x p > p_x q then p_x p else p_x q), p_y = (if p_y p > p_y q then p_y p else p_y q)\<rparr>"

definition point_min :: "'u::ord point \<Rightarrow> 'u point \<Rightarrow> 'u point" where
  "point_min p q = \<lparr>p_x = (if p_x p \<le> p_x q then p_x p else p_x q), p_y = (if p_y p \<le> p_y q then p_y p else p_y q)\<rparr>"

definition point_clamp :: "'u::ord point \<Rightarrow> 'u point \<Rightarrow> 'u point \<Rightarrow> 'u point" where
  "point_clamp p lo hi = point_min (point_max p lo) hi"

definition size_map :: "('u \<Rightarrow> 'v) \<Rightarrow> 'u size2 \<Rightarrow> 'v size2" where
  "size_map f s = \<lparr>s_width = f (s_width s), s_height = f (s_height s)\<rparr>"

definition size_center :: "('u \<Rightarrow> 'u) \<Rightarrow> 'u size2 \<Rightarrow> 'u point" where
  "size_center half s = \<lparr>p_x = half (s_width s), p_y = half (s_height s)\<rparr>"

fun size_along :: "'u size2 \<Rightarrow> axis \<Rightarrow> 'u" where
  "size_along s Horizontal = s_width s"
| "size_along s Vertical = s_height s"

fun size_apply_along :: "'u size2 \<Rightarrow> axis \<Rightarrow> ('u \<Rightarrow> 'u) \<Rightarrow> 'u size2" where
  "size_apply_along s Horizontal f = \<lparr>s_width = f (s_width s), s_height = s_height s\<rparr>"
| "size_apply_along s Vertical f = \<lparr>s_width = s_width s, s_height = f (s_height s)\<rparr>"

definition size_max :: "'u::ord size2 \<Rightarrow> 'u size2 \<Rightarrow> 'u size2" where
  "size_max s t = \<lparr>s_width = (if s_width s \<ge> s_width t then s_width s else s_width t),
                   s_height = (if s_height s \<ge> s_height t then s_height s else s_height t)\<rparr>"

definition size_min :: "'u::ord size2 \<Rightarrow> 'u size2 \<Rightarrow> 'u size2" where
  "size_min s t = \<lparr>s_width = (if s_width s \<ge> s_width t then s_width t else s_width s),
                   s_height = (if s_height s \<ge> s_height t then s_height t else s_height s)\<rparr>"

section \<open>Bounds\<close>

record 'u bounds =
  bd_origin :: "'u point"
  bd_size :: "'u size2"

record 'u edges =
  e_top :: 'u
  e_right :: 'u
  e_bottom :: 'u
  e_left :: 'u

datatype anchor =
  TopLeft | TopRight | BottomLeft | BottomRight | TopCenter | BottomCenter | LeftCenter | RightCenter

definition bounds_new :: "'u point \<Rightarrow> 'u size2 \<Rightarrow> 'u bounds" where
  "bounds_new origin s = \<lparr>bd_origin = origin, bd_size = s\<rparr>"

definition from_corners :: "'u::minus point \<Rightarrow> 'u point \<Rightarrow> 'u bounds" where
  "from_corners top_left bottom_right =
     \<lparr>bd_origin = \<lparr>p_x = p_x top_left, p_y = p_y top_left\<rparr>,
      bd_size = \<lparr>s_width = p_x bottom_right - p_x top_left, s_height = p_y bottom_right - p_y top_left\<rparr>\<rparr>"

definition from_anchor_and_size :: "('u::minus \<Rightarrow> 'u) \<Rightarrow> anchor \<Rightarrow> 'u point \<Rightarrow> 'u size2 \<Rightarrow> 'u bounds" where
  "from_anchor_and_size half corner o' s =
     \<lparr>bd_origin =
        (case corner of
           TopLeft \<Rightarrow> o'
         | TopRight \<Rightarrow> \<lparr>p_x = p_x o' - s_width s, p_y = p_y o'\<rparr>
         | BottomLeft \<Rightarrow> \<lparr>p_x = p_x o', p_y = p_y o' - s_height s\<rparr>
         | BottomRight \<Rightarrow> \<lparr>p_x = p_x o' - s_width s, p_y = p_y o' - s_height s\<rparr>
         | TopCenter \<Rightarrow> \<lparr>p_x = p_x o' - half (s_width s), p_y = p_y o'\<rparr>
         | BottomCenter \<Rightarrow> \<lparr>p_x = p_x o' - half (s_width s), p_y = p_y o' - s_height s\<rparr>
         | LeftCenter \<Rightarrow> \<lparr>p_x = p_x o', p_y = p_y o' - half (s_height s)\<rparr>
         | RightCenter \<Rightarrow> \<lparr>p_x = p_x o' - s_width s, p_y = p_y o' - half (s_height s)\<rparr>),
      bd_size = s\<rparr>"

definition centered_at :: "('u::minus \<Rightarrow> 'u) \<Rightarrow> 'u point \<Rightarrow> 'u size2 \<Rightarrow> 'u bounds" where
  "centered_at half center s =
     bounds_new \<lparr>p_x = p_x center - half (s_width s), p_y = p_y center - half (s_height s)\<rparr> s"

definition bd_top :: "'u::plus bounds \<Rightarrow> 'u" where
  "bd_top b = p_y (bd_origin b)"

definition bd_bottom :: "'u::plus bounds \<Rightarrow> 'u" where
  "bd_bottom b = p_y (bd_origin b) + s_height (bd_size b)"

definition bd_left :: "'u::plus bounds \<Rightarrow> 'u" where
  "bd_left b = p_x (bd_origin b)"

definition bd_right :: "'u::plus bounds \<Rightarrow> 'u" where
  "bd_right b = p_x (bd_origin b) + s_width (bd_size b)"

definition top_right :: "'u::plus bounds \<Rightarrow> 'u point" where
  "top_right b = \<lparr>p_x = p_x (bd_origin b) + s_width (bd_size b), p_y = p_y (bd_origin b)\<rparr>"

definition bottom_right :: "'u::plus bounds \<Rightarrow> 'u point" where
  "bottom_right b = \<lparr>p_x = p_x (bd_origin b) + s_width (bd_size b), p_y = p_y (bd_origin b) + s_height (bd_size b)\<rparr>"

definition bottom_left :: "'u::plus bounds \<Rightarrow> 'u point" where
  "bottom_left b = \<lparr>p_x = p_x (bd_origin b), p_y = p_y (bd_origin b) + s_height (bd_size b)\<rparr>"

definition top_center :: "('u::plus \<Rightarrow> 'u) \<Rightarrow> 'u bounds \<Rightarrow> 'u point" where
  "top_center half b = \<lparr>p_x = p_x (bd_origin b) + half (s_width (bd_size b)), p_y = p_y (bd_origin b)\<rparr>"

definition bottom_center :: "('u::plus \<Rightarrow> 'u) \<Rightarrow> 'u bounds \<Rightarrow> 'u point" where
  "bottom_center half b =
     \<lparr>p_x = p_x (bd_origin b) + half (s_width (bd_size b)), p_y = p_y (bd_origin b) + s_height (bd_size b)\<rparr>"

definition left_center :: "('u::plus \<Rightarrow> 'u) \<Rightarrow> 'u bounds \<Rightarrow> 'u point" where
  "left_center half b = \<lparr>p_x = p_x (bd_origin b), p_y = p_y (bd_origin b) + half (s_height (bd_size b))\<rparr>"

definition right_center :: "('u::plus \<Rightarrow> 'u) \<Rightarrow> 'u bounds \<Rightarrow> 'u point" where
  "right_center half b =
     \<lparr>p_x = p_x (bd_origin b) + s_width (bd_size b), p_y = p_y (bd_origin b) + half (s_height (bd_size b))\<rparr>"

definition bd_center :: "('u::plus \<Rightarrow> 'u) \<Rightarrow> 'u bounds \<Rightarrow> 'u point" where
  "bd_center half b =
     \<lparr>p_x = p_x (bd_origin b) + half (s_width (bd_size b)), p_y = p_y (bd_origin b) + half (s_height (bd_size b))\<rparr>"

fun bd_corner :: "('u::plus \<Rightarrow> 'u) \<Rightarrow> 'u bounds \<Rightarrow> anchor \<Rightarrow> 'u point" where
  "bd_corner half b TopLeft = bd_origin b"
| "bd_corner half b TopRight = top_right b"
| "bd_corner half b BottomLeft = bottom_left b"
| "bd_corner half b BottomRight = bottom_right b"
| "bd_corner half b TopCenter = top_center half b"
| "bd_corner half b BottomCenter = bottom_center half b"
| "bd_corner half b LeftCenter = left_center half b"
| "bd_corner half b RightCenter = right_center half b"

definition intersects :: "'u::{ord, plus} bounds \<Rightarrow> 'u bounds \<Rightarrow> bool" where
  "intersects self other =
     (let my_lower_right = bottom_right self; their_lower_right = bottom_right other
      in p_x (bd_origin self) < p_x their_lower_right \<and> p_x my_lower_right > p_x (bd_origin other) \<and>
         p_y (bd_origin self) < p_y their_lower_right \<and> p_y my_lower_right > p_y (bd_origin other))"

definition half_perimeter :: "'u::plus bounds \<Rightarrow> 'u" where
  "half_perimeter b = s_width (bd_size b) + s_height (bd_size b)"

definition dilate :: "'u::{plus, minus} \<Rightarrow> 'u bounds \<Rightarrow> 'u bounds" where
  "dilate amount b =
     (let double_amount = amount + amount
      in \<lparr>bd_origin = point_sub (bd_origin b) (point_new amount amount),
          bd_size = size_add (bd_size b) \<lparr>s_width = double_amount, s_height = double_amount\<rparr>\<rparr>)"

definition bd_extend :: "'u::{plus, minus} edges \<Rightarrow> 'u bounds \<Rightarrow> 'u bounds" where
  "bd_extend amount b =
     \<lparr>bd_origin = point_sub (bd_origin b) (point_new (e_left amount) (e_top amount)),
      bd_size = size_add (bd_size b)
        \<lparr>s_width = e_left amount + e_right amount, s_height = e_top amount + e_bottom amount\<rparr>\<rparr>"

definition inset :: "'u::{plus, minus, uminus} \<Rightarrow> 'u bounds \<Rightarrow> 'u bounds" where
  "inset amount b = dilate (- amount) b"

definition bd_intersect :: "'u::{ord, plus, minus} bounds \<Rightarrow> 'u bounds \<Rightarrow> 'u bounds" where
  "bd_intersect self other =
     (let upper_left = point_max (bd_origin self) (bd_origin other);
          lower_right = point_max (point_min (bottom_right self) (bottom_right other)) upper_left
      in from_corners upper_left lower_right)"

definition bd_union :: "'u::{ord, plus, minus} bounds \<Rightarrow> 'u bounds \<Rightarrow> 'u bounds" where
  "bd_union self other =
     from_corners (point_min (bd_origin self) (bd_origin other)) (point_max (bottom_right self) (bottom_right other))"

definition space_within :: "'u::{plus, minus} bounds \<Rightarrow> 'u bounds \<Rightarrow> 'u edges" where
  "space_within self outer =
     \<lparr>e_top = bd_top self - bd_top outer, e_right = bd_right outer - bd_right self,
      e_bottom = bd_bottom outer - bd_bottom self, e_left = bd_left self - bd_left outer\<rparr>"

definition bd_add_point :: "'u::plus bounds \<Rightarrow> 'u point \<Rightarrow> 'u bounds" where
  "bd_add_point b p = \<lparr>bd_origin = point_add (bd_origin b) p, bd_size = bd_size b\<rparr>"

definition bd_sub_point :: "'u::minus bounds \<Rightarrow> 'u point \<Rightarrow> 'u bounds" where
  "bd_sub_point b p = \<lparr>bd_origin = point_sub (bd_origin b) p, bd_size = bd_size b\<rparr>"

definition bd_contains :: "'u::{ord, plus} bounds \<Rightarrow> 'u point \<Rightarrow> bool" where
  "bd_contains b p =
     (p_x p \<ge> p_x (bd_origin b) \<and> p_x p < p_x (bd_origin b) + s_width (bd_size b) \<and>
      p_y p \<ge> p_y (bd_origin b) \<and> p_y p < p_y (bd_origin b) + s_height (bd_size b))"

definition is_contained_within :: "'u::{ord, plus} bounds \<Rightarrow> 'u bounds \<Rightarrow> bool" where
  "is_contained_within self other = (bd_contains other (bd_origin self) \<and> bd_contains other (bottom_right self))"

definition bd_map :: "('u \<Rightarrow> 'v) \<Rightarrow> 'u bounds \<Rightarrow> 'v bounds" where
  "bd_map f b = \<lparr>bd_origin = point_map f (bd_origin b), bd_size = size_map f (bd_size b)\<rparr>"

definition map_origin :: "('u \<Rightarrow> 'u) \<Rightarrow> 'u bounds \<Rightarrow> 'u bounds" where
  "map_origin f b = \<lparr>bd_origin = point_map f (bd_origin b), bd_size = bd_size b\<rparr>"

definition map_size :: "('u \<Rightarrow> 'u) \<Rightarrow> 'u bounds \<Rightarrow> 'u bounds" where
  "map_size f b = \<lparr>bd_origin = bd_origin b, bd_size = size_map f (bd_size b)\<rparr>"

definition localize :: "'u::{ord, plus, minus} bounds \<Rightarrow> 'u point \<Rightarrow> 'u point option" where
  "localize b p = (if bd_contains b p then Some (relative_to p (bd_origin b)) else None)"

definition bd_is_empty :: "'u::{ord, zero} bounds \<Rightarrow> bool" where
  "bd_is_empty b = (s_width (bd_size b) \<le> 0 \<or> s_height (bd_size b) \<le> 0)"

fun anchor_opposite :: "anchor \<Rightarrow> anchor" where
  "anchor_opposite TopLeft = BottomRight"
| "anchor_opposite TopRight = BottomLeft"
| "anchor_opposite BottomLeft = TopRight"
| "anchor_opposite BottomRight = TopLeft"
| "anchor_opposite TopCenter = BottomCenter"
| "anchor_opposite BottomCenter = TopCenter"
| "anchor_opposite LeftCenter = RightCenter"
| "anchor_opposite RightCenter = LeftCenter"

fun other_side_along :: "anchor \<Rightarrow> axis \<Rightarrow> anchor" where
  "other_side_along a Vertical =
     (case a of TopLeft \<Rightarrow> BottomLeft | TopRight \<Rightarrow> BottomRight | BottomLeft \<Rightarrow> TopLeft | BottomRight \<Rightarrow> TopRight
      | TopCenter \<Rightarrow> BottomCenter | BottomCenter \<Rightarrow> TopCenter | LeftCenter \<Rightarrow> LeftCenter | RightCenter \<Rightarrow> RightCenter)"
| "other_side_along a Horizontal =
     (case a of TopLeft \<Rightarrow> TopRight | TopRight \<Rightarrow> TopLeft | BottomLeft \<Rightarrow> BottomRight | BottomRight \<Rightarrow> BottomLeft
      | TopCenter \<Rightarrow> TopCenter | BottomCenter \<Rightarrow> BottomCenter | LeftCenter \<Rightarrow> RightCenter | RightCenter \<Rightarrow> LeftCenter)"

fun anchor_is_center :: "anchor \<Rightarrow> bool" where
  "anchor_is_center a = (a \<in> {TopCenter, BottomCenter, LeftCenter, RightCenter})"

fun anchor_is_bottom :: "anchor \<Rightarrow> bool" where
  "anchor_is_bottom a = (a \<in> {BottomCenter, BottomLeft, BottomRight})"

section \<open>Enclosure\<close>

text \<open>The corners of \<open>b\<close> do not lie outside \<open>a\<close>.\<close>

definition encloses :: "'u::linordered_ab_group_add bounds \<Rightarrow> 'u bounds \<Rightarrow> bool" where
  "encloses a b \<longleftrightarrow>
     bd_left a \<le> bd_left b \<and> bd_top a \<le> bd_top b \<and> bd_right b \<le> bd_right a \<and> bd_bottom b \<le> bd_bottom a"

lemmas side_defs = bd_left_def bd_top_def bd_right_def bd_bottom_def

lemma from_corners_sides [simp]:
  "bd_left (from_corners p q) = p_x p" "bd_top (from_corners p q) = p_y p"
  "bd_right (from_corners p q) = (p_x q :: 'u::ab_group_add)" "bd_bottom (from_corners p q) = p_y q"
  by (simp_all add: side_defs from_corners_def)

lemma bottom_right_sides [simp]: "p_x (bottom_right b) = bd_right b" "p_y (bottom_right b) = bd_bottom b"
  by (simp_all add: side_defs bottom_right_def)

lemma origin_sides: "p_x (bd_origin b) = bd_left b" "p_y (bd_origin b) = bd_top b"
  by (simp_all add: side_defs)

lemma point_min_max [simp]:
  fixes p q :: "'u::linorder point"
  shows "p_x (point_min p q) = min (p_x p) (p_x q)" "p_y (point_min p q) = min (p_y p) (p_y q)"
    "p_x (point_max p q) = max (p_x p) (p_x q)" "p_y (point_max p q) = max (p_y p) (p_y q)"
  by (auto simp: point_min_def point_max_def min_def max_def)

lemma union_sides [simp]:
  fixes a b :: "'u::linordered_ab_group_add bounds"
  shows "bd_left (bd_union a b) = min (bd_left a) (bd_left b)" "bd_top (bd_union a b) = min (bd_top a) (bd_top b)"
    "bd_right (bd_union a b) = max (bd_right a) (bd_right b)" "bd_bottom (bd_union a b) = max (bd_bottom a) (bd_bottom b)"
  by (simp_all add: bd_union_def origin_sides)

lemma intersect_sides [simp]:
  fixes a b :: "'u::linordered_ab_group_add bounds"
  shows "bd_left (bd_intersect a b) = max (bd_left a) (bd_left b)" "bd_top (bd_intersect a b) = max (bd_top a) (bd_top b)"
    "bd_right (bd_intersect a b) = max (min (bd_right a) (bd_right b)) (max (bd_left a) (bd_left b))"
    "bd_bottom (bd_intersect a b) = max (min (bd_bottom a) (bd_bottom b)) (max (bd_top a) (bd_top b))"
  by (simp_all add: bd_intersect_def Let_def origin_sides)

lemma intersects_sides:
  "intersects a b \<longleftrightarrow> bd_left a < bd_right b \<and> bd_left b < bd_right a \<and> bd_top a < bd_bottom b \<and> bd_top b < bd_bottom a"
  by (simp add: intersects_def Let_def origin_sides)

lemma contains_sides:
  "bd_contains b p \<longleftrightarrow> bd_left b \<le> p_x p \<and> p_x p < bd_right b \<and> bd_top b \<le> p_y p \<and> p_y p < bd_bottom b"
  by (simp add: bd_contains_def side_defs)

lemma empty_sides: "bd_is_empty (b :: 'u::linordered_ab_group_add bounds) \<longleftrightarrow> bd_right b \<le> bd_left b \<or> bd_bottom b \<le> bd_top b"
  by (simp add: bd_is_empty_def side_defs)

lemma encloses_refl [simp, intro]: "encloses a a"
  by (simp add: encloses_def)

lemma encloses_trans [trans]: "encloses a b \<Longrightarrow> encloses b c \<Longrightarrow> encloses a c"
  unfolding encloses_def by (meson order_trans)

lemma encloses_union_iff: "encloses c (bd_union a b) \<longleftrightarrow> encloses c a \<and> encloses c b"
  by (auto simp: encloses_def)

lemma union_encloses: "encloses (bd_union a b) a" "encloses (bd_union a b) b"
  by (simp_all add: encloses_def)

lemma encloses_union_left: "encloses a c \<Longrightarrow> encloses (bd_union a b) c"
  using encloses_trans union_encloses(1) by blast

lemma intersects_encloses: "encloses a b \<Longrightarrow> intersects q b \<Longrightarrow> intersects q a"
  unfolding encloses_def intersects_sides by (meson order.strict_trans1 order.strict_trans2)

section \<open>Properties\<close>

text \<open>
  \<^verbatim>\<open>intersect\<close> is the common region of two bounds, \<^verbatim>\<open>union\<close> the least bounds that enclose both,
  and for bounds that are not empty \<^verbatim>\<open>intersects\<close> holds exactly when their intersection is not empty.
\<close>

theorem intersection_and_union_of_bounds:
  fixes a b :: "'u::linordered_ab_group_add bounds"
  assumes "\<not> bd_is_empty a" "\<not> bd_is_empty b"
  shows "(bd_contains (bd_intersect a b) p \<longleftrightarrow> bd_contains a p \<and> bd_contains b p) \<and>
    (encloses c (bd_union a b) \<longleftrightarrow> encloses c a \<and> encloses c b) \<and>
    (intersects a b \<longleftrightarrow> \<not> bd_is_empty (bd_intersect a b))"
proof (intro conjI encloses_union_iff)
  show "bd_contains (bd_intersect a b) p \<longleftrightarrow> bd_contains a p \<and> bd_contains b p"
    by (auto simp: contains_sides less_max_iff_disj)
  show "intersects a b \<longleftrightarrow> \<not> bd_is_empty (bd_intersect a b)"
    using assms by (auto simp: intersects_sides empty_sides not_le less_max_iff_disj)
qed

definition box :: "int \<Rightarrow> int \<Rightarrow> int \<Rightarrow> int \<Rightarrow> int bounds" where
  "box x y w h = \<lparr>bd_origin = \<lparr>p_x = x, p_y = y\<rparr>, bd_size = \<lparr>s_width = w, s_height = h\<rparr>\<rparr>"

theorem intersection_and_union_of_bounds_witness:
  "intersects (box 0 0 10 10) (box 5 5 10 10) \<longleftrightarrow> \<not> bd_is_empty (bd_intersect (box 0 0 10 10) (box 5 5 10 10))"
proof -
  have "\<not> bd_is_empty (box 0 0 10 10)" "\<not> bd_is_empty (box 5 5 10 10)" by code_simp+
  from intersection_and_union_of_bounds [OF this] show ?thesis by blast
qed

text \<open>
  The intersection of bounds that do not meet need not have width and height zero: bounds
  that lie one below the other give an intersection of full width and height zero.
\<close>

theorem intersection_of_disjoint_bounds_keeps_width:
  "\<exists>a b. \<not> intersects a b \<and> s_width (bd_size (bd_intersect a b)) = (10 :: int)"
proof (intro exI conjI)
  show "\<not> intersects (box 0 0 10 10) (box 0 20 10 10)" by code_simp
  show "s_width (bd_size (bd_intersect (box 0 0 10 10) (box 0 20 10 10))) = 10" by code_simp
qed

text \<open>
  Anchors are consistent: bounds built from an anchor, a position and a size have that anchor at
  that position, going to the other side twice returns, going to the other side along both axes is
  the opposite anchor, and \<^verbatim>\<open>inset\<close> undoes \<^verbatim>\<open>dilate\<close>.
\<close>

theorem anchors_and_insets:
  fixes p :: "'u::linordered_ab_group_add point"
  shows "bd_corner half (from_anchor_and_size half c p s) c = p \<and> bd_size (from_anchor_and_size half c p s) = s \<and>
    other_side_along (other_side_along c ax) ax = c \<and>
    other_side_along (other_side_along c ax) (axis_invert ax) = anchor_opposite c \<and>
    inset k (dilate k b) = (b :: 'u bounds)"
proof (intro conjI)
  show "bd_corner half (from_anchor_and_size half c p s) c = p"
    by (cases c) (simp_all add: from_anchor_and_size_def top_right_def bottom_left_def bottom_right_def top_center_def
        bottom_center_def left_center_def right_center_def)
  show "other_side_along (other_side_along c ax) ax = c" "other_side_along (other_side_along c ax) (axis_invert ax) = anchor_opposite c"
    by (cases c; cases ax; simp)+
  show "inset k (dilate k b) = b"
    by (cases b) (simp add: inset_def dilate_def point_sub_def point_new_def size_add_def Let_def)
qed (simp add: from_anchor_and_size_def)

end
