(* ===== verification/BoundsTree.thy ===== *)
theory BoundsTree
  imports Geometry "HOL-Library.Multiset"
begin

text \<open>
  The spatial tree that assigns a z-order to overlapping bounds (\<^verbatim>\<open>crates/gpui/src/bounds_tree.rs\<close>).
  The nodes live in one vector and refer to each other by index, as in the source. The two vectors
  that the source keeps to reuse their memory (\<^verbatim>\<open>insert_path\<close>, \<^verbatim>\<open>search_stack\<close>) are locals of the
  operations that clear them first. The pointers on the search stack are indices. Orderings are
  natural numbers; a theorem bounds them by the number of bounds inserted.
\<close>

section \<open>The tree\<close>

definition MAX_CHILDREN :: nat where
  "MAX_CHILDREN = 12"

datatype node_kind = BLeaf nat | BInternal "nat list"

record 'u bt_node =
  n_bounds :: "'u bounds"
  n_max_order :: nat
  n_kind :: node_kind

record 'u bounds_tree =
  bt_nodes :: "'u bt_node list"
  bt_root :: "nat option"
  bt_max_leaf :: "nat option"

definition bt_default :: "'u bounds_tree" where
  "bt_default = \<lparr>bt_nodes = [], bt_root = None, bt_max_leaf = None\<rparr>"

definition bt_clear :: "'u bounds_tree \<Rightarrow> 'u bounds_tree" where
  "bt_clear t = t\<lparr>bt_nodes := [], bt_root := None, bt_max_leaf := None\<rparr>"

text \<open>\<^verbatim>\<open>NodeChildren::push\<close> on an array of \<^const>\<open>MAX_CHILDREN\<close> entries.\<close>

definition children_push :: "nat list \<Rightarrow> nat \<Rightarrow> nat list option" where
  "children_push cs index = (if length cs < MAX_CHILDREN then Some (cs @ [index]) else None)"

fun is_leaf_kind :: "node_kind \<Rightarrow> bool" where
  "is_leaf_kind (BLeaf _) = True"
| "is_leaf_kind (BInternal _) = False"

text \<open>\<^verbatim>\<open>slice::swap\<close>\<close>

definition swap :: "'a list \<Rightarrow> nat \<Rightarrow> nat \<Rightarrow> 'a list" where
  "swap xs i j = xs[i := xs ! j, j := xs ! i]"

section \<open>Search\<close>

partial_function (option) search_loop ::
    "'u::linordered_ab_group_add bt_node list \<Rightarrow> 'u bounds \<Rightarrow> nat list \<Rightarrow> nat \<Rightarrow> nat option" where
  "search_loop ns query stack max_found =
     (case stack of
        [] \<Rightarrow> Some max_found
      | i # rest \<Rightarrow> do {
          node \<leftarrow> get_opt ns i;
          (if n_max_order node \<le> max_found then search_loop ns query rest max_found
           else if \<not> intersects query (n_bounds node) then search_loop ns query rest max_found
           else (case n_kind node of
                   BLeaf order \<Rightarrow> search_loop ns query rest (max max_found order)
                 | BInternal children \<Rightarrow> do {
                     assert_that (list_all (\<lambda>c. c < length ns) children);
                     search_loop ns query (rev (filter (\<lambda>c. max_found < n_max_order (ns ! c)) children) @ rest) max_found })) })"

definition find_max_ordering :: "'u::linordered_ab_group_add bounds_tree \<Rightarrow> 'u bounds \<Rightarrow> nat option" where
  "find_max_ordering t query =
     (case bt_root t of
        None \<Rightarrow> Some 0
      | Some root_idx \<Rightarrow> do {
          hit \<leftarrow>
            (case bt_max_leaf t of
               None \<Rightarrow> Some None
             | Some max_idx \<Rightarrow> do {
                 max_node \<leftarrow> get_opt (bt_nodes t) max_idx;
                 Some (if intersects query (n_bounds max_node) then Some (n_max_order max_node) else None) });
          (case hit of
             Some max_order \<Rightarrow> Some max_order
           | None \<Rightarrow> do {
               assert_that (root_idx < length (bt_nodes t));
               search_loop (bt_nodes t) query [root_idx] 0 }) })"

section \<open>Insertion\<close>

text \<open>The loop that chooses the child whose bounds grow least.\<close>

fun best_scan ::
    "'u::linordered_ab_group_add bt_node list \<Rightarrow> 'u bounds \<Rightarrow> nat list \<Rightarrow> nat \<Rightarrow> nat \<times> nat \<times> 'u \<Rightarrow> (nat \<times> nat \<times> 'u) option" where
  "best_scan ns b [] pos best = Some best"
| "best_scan ns b (child_idx # rest) pos (best_pos, best_idx, best_cost) = do {
     child \<leftarrow> get_opt ns child_idx;
     let cost = half_perimeter (bd_union b (n_bounds child));
     best_scan ns b rest (pos + 1) (if cost < best_cost then (pos, child_idx, cost) else (best_pos, best_idx, best_cost)) }"

definition best_child :: "'u::linordered_ab_group_add bt_node list \<Rightarrow> 'u bounds \<Rightarrow> nat list \<Rightarrow> (nat \<times> nat) option" where
  "best_child ns b children =
     (case children of
        [] \<Rightarrow> None
      | child_idx # rest \<Rightarrow> do {
          child \<leftarrow> get_opt ns child_idx;
          (pos, idx, _) \<leftarrow> best_scan ns b rest 1 (0, child_idx, half_perimeter (bd_union b (n_bounds child)));
          Some (pos, idx) })"

text \<open>
  The descent to the internal node that takes the new leaf: the path from the root, that node, its
  children, and the position and index of its best child, which is a leaf.
\<close>

partial_function (option) descend ::
    "'u::linordered_ab_group_add bt_node list \<Rightarrow> 'u bounds \<Rightarrow> nat \<Rightarrow> nat list
      \<Rightarrow> (nat list \<times> nat \<times> nat list \<times> nat \<times> nat) option" where
  "descend ns b current_idx insert_path = do {
     current \<leftarrow> get_opt ns current_idx;
     (case n_kind current of
        BLeaf _ \<Rightarrow> None
      | BInternal children \<Rightarrow> do {
          (best_pos, best_idx) \<leftarrow> best_child ns b children;
          best \<leftarrow> get_opt ns best_idx;
          (case n_kind best of
             BLeaf _ \<Rightarrow> Some (insert_path @ [current_idx], current_idx, children, best_pos, best_idx)
           | BInternal _ \<Rightarrow> descend ns b best_idx (insert_path @ [current_idx])) }) }"

definition attach_leaf ::
    "'u::linordered_ab_group_add bt_node list \<Rightarrow> 'u bounds \<Rightarrow> nat \<Rightarrow> nat \<Rightarrow> nat \<Rightarrow> nat list \<Rightarrow> nat \<Rightarrow> nat
      \<Rightarrow> 'u bt_node list option" where
  "attach_leaf ns b order new_leaf_idx current_idx children best_pos best_idx = do {
     node \<leftarrow> get_opt ns current_idx;
     (if length children < MAX_CHILDREN then do {
        cs \<leftarrow> children_push children new_leaf_idx;
        let last = length cs - 1;
        let cs' = (if order \<le> n_max_order node then swap cs (last - 1) last else cs);
        Some (ns[current_idx := \<lparr>n_bounds = bd_union (n_bounds node) b, n_max_order = max (n_max_order node) order,
                                 n_kind = BInternal cs'\<rparr>]) }
      else do {
        sibling \<leftarrow> get_opt ns best_idx;
        let new_children = (if order > n_max_order sibling then [best_idx, new_leaf_idx] else [new_leaf_idx, best_idx]);
        let new_internal_idx = length ns;
        let new_internal_max = max (n_max_order sibling) order;
        let cs = children[best_pos := new_internal_idx];
        let cs' = (if new_internal_max > n_max_order node then swap cs best_pos (length children - 1) else cs);
        Some ((ns @ [\<lparr>n_bounds = bd_union (n_bounds sibling) b, n_max_order = new_internal_max, n_kind = BInternal new_children\<rparr>])
          [current_idx := node\<lparr>n_kind := BInternal cs'\<rparr>]) }) }"

text \<open>\<^verbatim>\<open>iter().position\<close>\<close>

fun position :: "nat \<Rightarrow> nat list \<Rightarrow> nat option" where
  "position c [] = None"
| "position c (d # ds) = (if d = c then Some 0 else map_option Suc (position c ds))"

definition updated_node :: "'u::linordered_ab_group_add bounds \<Rightarrow> nat \<Rightarrow> nat option \<Rightarrow> 'u bt_node \<Rightarrow> 'u bt_node" where
  "updated_node b order updated_child node =
     (let node = node\<lparr>n_bounds := bd_union (n_bounds node) b\<rparr>
      in if n_max_order node < order then
           (let node = node\<lparr>n_max_order := order\<rparr>
            in (case updated_child of
                  None \<Rightarrow> node
                | Some child_idx \<Rightarrow>
                    (case n_kind node of
                       BLeaf _ \<Rightarrow> node
                     | BInternal children \<Rightarrow>
                         (case position child_idx children of
                            None \<Rightarrow> node
                          | Some pos \<Rightarrow>
                              (let last = length children - 1
                               in if pos \<noteq> last then node\<lparr>n_kind := BInternal (swap children pos last)\<rparr> else node)))))
         else node)"

text \<open>The loop that updates the nodes of the path from the bottom up.\<close>

fun propagate ::
    "'u::linordered_ab_group_add bounds \<Rightarrow> nat \<Rightarrow> nat list \<Rightarrow> nat option \<Rightarrow> 'u bt_node list \<Rightarrow> 'u bt_node list option" where
  "propagate b order [] updated_child ns = Some ns"
| "propagate b order (node_idx # rest) updated_child ns = do {
     node \<leftarrow> get_opt ns node_idx;
     propagate b order rest (Some node_idx) (ns[node_idx := updated_node b order updated_child node]) }"

definition leaf_node :: "'u bounds \<Rightarrow> nat \<Rightarrow> 'u bt_node" where
  "leaf_node b order = \<lparr>n_bounds = b, n_max_order = order, n_kind = BLeaf order\<rparr>"

definition insert_leaf ::
    "'u::linordered_ab_group_add bounds_tree \<Rightarrow> 'u bounds \<Rightarrow> nat \<Rightarrow> ('u bounds_tree \<times> nat) option" where
  "insert_leaf t b order =
     (let new_leaf_idx = length (bt_nodes t); ns = bt_nodes t @ [leaf_node b order]
      in (case bt_root t of
            None \<Rightarrow> Some (t\<lparr>bt_nodes := ns, bt_root := Some new_leaf_idx\<rparr>, new_leaf_idx)
          | Some root_idx \<Rightarrow> do {
              root \<leftarrow> get_opt ns root_idx;
              (if is_leaf_kind (n_kind root) then
                 (let children = (if order > n_max_order root then [root_idx, new_leaf_idx] else [new_leaf_idx, root_idx]);
                      new_root = \<lparr>n_bounds = bd_union (n_bounds root) b, n_max_order = max (n_max_order root) order,
                                  n_kind = BInternal children\<rparr>
                  in Some (t\<lparr>bt_nodes := ns @ [new_root], bt_root := Some (length ns)\<rparr>, new_leaf_idx))
               else do {
                 (insert_path, current_idx, children, best_pos, best_idx) \<leftarrow> descend ns b root_idx [];
                 ns1 \<leftarrow> attach_leaf ns b order new_leaf_idx current_idx children best_pos best_idx;
                 ns2 \<leftarrow> propagate b order (rev insert_path) None ns1;
                 Some (t\<lparr>bt_nodes := ns2\<rparr>, new_leaf_idx) }) }))"

definition bt_insert :: "'u::linordered_ab_group_add bounds_tree \<Rightarrow> 'u bounds \<Rightarrow> ('u bounds_tree \<times> nat) option" where
  "bt_insert t new_bounds = do {
     max_intersecting \<leftarrow> find_max_ordering t new_bounds;
     let ordering = max_intersecting + 1;
     (t, new_leaf_idx) \<leftarrow> insert_leaf t new_bounds ordering;
     max_leaf \<leftarrow>
       (case bt_max_leaf t of
          None \<Rightarrow> Some (Some new_leaf_idx)
        | Some old_idx \<Rightarrow> do {
            old \<leftarrow> get_opt (bt_nodes t) old_idx;
            Some (if n_max_order old < ordering then Some new_leaf_idx else Some old_idx) });
     Some (t\<lparr>bt_max_leaf := max_leaf\<rparr>, ordering) }"

section \<open>The tree that the nodes represent\<close>

datatype rt = RL nat | RN nat "rt list"

fun ridx :: "rt \<Rightarrow> nat" where
  "ridx (RL i) = i"
| "ridx (RN i _) = i"

fun rindices :: "rt \<Rightarrow> nat list" where
  "rindices (RL i) = [i]"
| "rindices (RN i ts) = i # concat (map rindices ts)"

fun rleaves :: "rt \<Rightarrow> nat list" where
  "rleaves (RL i) = [i]"
| "rleaves (RN i ts) = concat (map rleaves ts)"

text \<open>
  What every node promises: a leaf has its ordering as the maximum, an internal node encloses its
  children and has their maximal ordering, which is the one of its last child.
\<close>

fun rep :: "'u::linordered_ab_group_add bt_node list \<Rightarrow> rt \<Rightarrow> bool" where
  "rep ns (RL i) \<longleftrightarrow> i < length ns \<and> n_kind (ns ! i) = BLeaf (n_max_order (ns ! i))"
| "rep ns (RN i ts) \<longleftrightarrow> i < length ns \<and> n_kind (ns ! i) = BInternal (map ridx ts) \<and>
     2 \<le> length ts \<and> length ts \<le> MAX_CHILDREN \<and> n_max_order (ns ! i) = n_max_order (ns ! ridx (last ts)) \<and>
     (\<forall>t \<in> set ts. rep ns t \<and> encloses (n_bounds (ns ! i)) (n_bounds (ns ! ridx t)) \<and>
        n_max_order (ns ! ridx t) \<le> n_max_order (ns ! i))"

lemma ridx_in: "ridx t \<in> set (rindices t)"
  by (cases t) simp_all

lemma rep_index: "rep ns t \<Longrightarrow> i \<in> set (rindices t) \<Longrightarrow> i < length ns"
  by (induction t) auto

lemma rep_ridx: "rep ns t \<Longrightarrow> ridx t < length ns"
  by (rule rep_index [OF _ ridx_in])

lemma rleaves_rindices: "set (rleaves t) \<subseteq> set (rindices t)"
  by (induction t) auto

lemma rep_leaf:
  assumes "rep ns t" "l \<in> set (rleaves t)"
  shows "l < length ns \<and> n_kind (ns ! l) = BLeaf (n_max_order (ns ! l)) \<and>
    encloses (n_bounds (ns ! ridx t)) (n_bounds (ns ! l)) \<and> n_max_order (ns ! l) \<le> n_max_order (ns ! ridx t)"
  using assms
proof (induction t)
  case (RN i ts)
  then obtain t where "t \<in> set ts" "l \<in> set (rleaves t)" by auto
  with RN show ?case using encloses_trans order_trans by fastforce
qed simp

lemma rep_frame:
  assumes "rep ns t" "length ns \<le> length ns'" "\<And>i. i \<in> set (rindices t) \<Longrightarrow> ns' ! i = ns ! i"
  shows "rep ns' t"
  using assms
proof (induction t)
  case (RN i ts)
  have "rep ns' t \<and> ns' ! ridx t = ns ! ridx t" if "t \<in> set ts" for t
    using RN that ridx_in [of t] by auto
  moreover have "last ts \<in> set ts" using RN.prems(1) by (intro last_in_set) auto
  ultimately show ?case using RN.prems by auto
qed simp

lemma rep_update: "rep ns t \<Longrightarrow> i \<notin> set (rindices t) \<Longrightarrow> rep (ns[i := n]) t"
  by (rule rep_frame [of ns]) (simp, simp, metis nth_list_update_neq)

lemma rep_append: "rep ns t \<Longrightarrow> rep (ns @ ms) t"
  by (rule rep_frame [of ns]) (auto simp: nth_append dest: rep_index)

lemma not_ridx: "i \<notin> set (rindices t) \<Longrightarrow> ridx t \<noteq> i"
  using ridx_in by metis

section \<open>The search finds the maximum\<close>

text \<open>The greatest ordering among the leaves that intersect the query, zero when there is none.\<close>

definition top_order :: "'u::linordered_ab_group_add bt_node list \<Rightarrow> 'u bounds \<Rightarrow> nat list \<Rightarrow> nat" where
  "top_order ns q ls = foldr (\<lambda>l m. if intersects q (n_bounds (ns ! l)) then max (n_max_order (ns ! l)) m else m) ls 0"

lemma top_order_le: "top_order ns q ls \<le> k \<longleftrightarrow> (\<forall>l \<in> set ls. intersects q (n_bounds (ns ! l)) \<longrightarrow> n_max_order (ns ! l) \<le> k)"
  by (induction ls) (auto simp: top_order_def)

lemma nat_eqI: "(\<And>k. m \<le> k \<longleftrightarrow> n \<le> k) \<Longrightarrow> m = (n :: nat)"
  by (metis order_antisym order_refl)

lemma top_order_pruned:
  assumes "rep ns t" "n_max_order (ns ! ridx t) \<le> m \<or> \<not> intersects q (n_bounds (ns ! ridx t))"
  shows "top_order ns q (rleaves t) \<le> m"
  unfolding top_order_le
proof (intro ballI impI)
  fix l assume l: "l \<in> set (rleaves t)" "intersects q (n_bounds (ns ! l))"
  note leaf = rep_leaf [OF assms(1) l(1)]
  then have "intersects q (n_bounds (ns ! ridx t))" using intersects_encloses l(2) by blast
  then show "n_max_order (ns ! l) \<le> m" using leaf assms(2) by auto
qed

lemma top_order_append: "top_order ns q (xs @ ys) = max (top_order ns q xs) (top_order ns q ys)"
  by (rule nat_eqI) (auto simp: top_order_le)

definition rsize :: "rt \<Rightarrow> nat" where
  "rsize t = length (rindices t)"

lemma rsize_pos: "0 < rsize t"
  by (cases t) (simp_all add: rsize_def)

lemma rsize_node: "rsize (RN i ts) = Suc (sum_list (map rsize ts))"
  unfolding rsize_def by (simp add: length_concat o_def)

lemma search_loop_ok:
  assumes "\<forall>t \<in> set ts. rep ns t"
  shows "search_loop ns q (map ridx ts) m = Some (max m (top_order ns q (concat (map rleaves ts))))"
  using assms
proof (induction "sum_list (map rsize ts)" arbitrary: ts m rule: less_induct)
  case less
  show ?case
  proof (cases ts)
    case Nil
    then show ?thesis by (subst search_loop.simps) (simp add: top_order_def)
  next
    case (Cons t rest)
    have t: "rep ns t" "ridx t < length ns" using less.prems Cons rep_ridx by auto
    have smaller: "sum_list (map rsize rest) < sum_list (map rsize ts)" by (simp add: Cons rsize_pos)
    have IH: "search_loop ns q (map ridx rest) m' = Some (max m' (top_order ns q (concat (map rleaves rest))))" for m'
      using less.hyps [OF smaller] less.prems Cons by simp
    show ?thesis
    proof (cases "n_max_order (ns ! ridx t) \<le> m \<or> \<not> intersects q (n_bounds (ns ! ridx t))")
      case True
      then have "search_loop ns q (map ridx ts) m = search_loop ns q (map ridx rest) m"
        using t Cons by (subst search_loop.simps) auto
      also have "\<dots> = Some (max m (top_order ns q (concat (map rleaves ts))))"
        unfolding IH using top_order_pruned [OF t(1) True] by (auto simp: Cons top_order_append)
      finally show ?thesis .
    next
      case visit: False
      show ?thesis
      proof (cases t)
        case (RL i)
        then have "search_loop ns q (map ridx ts) m = search_loop ns q (map ridx rest) (max m (n_max_order (ns ! i)))"
          using t visit Cons by (subst search_loop.simps) auto
        moreover have "top_order ns q (concat (map rleaves ts)) =
            max (n_max_order (ns ! i)) (top_order ns q (concat (map rleaves rest)))"
          using visit RL by (simp add: Cons top_order_def)
        ultimately show ?thesis unfolding IH by (simp add: max.assoc)
      next
        case (RN i cs)
        let ?keep = "\<lambda>t. m < n_max_order (ns ! ridx t)"
        let ?cs = "rev (filter ?keep cs) @ rest"
        have cs: "\<forall>t \<in> set cs. rep ns t" "list_all (\<lambda>c. c < length ns) (map ridx cs)"
          using t(1) RN rep_ridx by (auto simp: list_all_iff)
        have "search_loop ns q (map ridx ts) m = search_loop ns q (map ridx ?cs) m"
          using t visit RN cs(2) by (subst search_loop.simps) (auto simp: Cons filter_map o_def rev_map)
        also have "\<dots> = Some (max m (top_order ns q (concat (map rleaves ?cs))))"
        proof (rule less.hyps)
          have "sum_list (map rsize (filter ?keep cs)) \<le> sum_list (map rsize cs)"
            by (rule sum_list_filter_le_nat)
          then show "sum_list (map rsize ?cs) < sum_list (map rsize ts)"
            by (simp add: Cons RN rsize_node rev_map [symmetric])
          show "\<forall>t \<in> set ?cs. rep ns t" using cs(1) less.prems Cons by auto
        qed
        also have "\<dots> = Some (max m (top_order ns q (concat (map rleaves ts))))"
        proof -
          have "n_max_order (ns ! l) \<le> k"
            if "m \<le> k" "c \<in> set cs" "\<not> ?keep c" "l \<in> set (rleaves c)" for c l k
            using rep_leaf [of ns c l] cs(1) that by force
          then have "max m (top_order ns q (concat (map rleaves ?cs))) = max m (top_order ns q (concat (map rleaves ts)))"
            by (intro nat_eqI) (fastforce simp: top_order_le Cons RN)
          then show ?thesis by simp
        qed
        finally show ?thesis .
      qed
    qed
  qed
qed

section \<open>Insertion keeps the tree\<close>

lemma swap_simps [simp]: "length (swap xs i j) = length xs"
  by (simp add: swap_def)

lemma map_swap: "i < length xs \<Longrightarrow> j < length xs \<Longrightarrow> map f (swap xs i j) = swap (map f xs) i j"
  by (simp add: swap_def map_update)

lemma mset_swap_eq: "i < length xs \<Longrightarrow> j < length xs \<Longrightarrow> mset (swap xs i j) = mset xs"
  unfolding swap_def by (metis mset_swap)

lemma set_swap: "i < length xs \<Longrightarrow> j < length xs \<Longrightarrow> set (swap xs i j) = set xs"
  by (metis mset_swap_eq set_mset_mset)

lemma last_swap: "i < length xs \<Longrightarrow> last (swap xs i (length xs - 1)) = xs ! i"
  by (cases xs rule: rev_cases) (auto simp: swap_def last_conv_nth nth_list_update)

lemma position_distinct: "distinct cs \<Longrightarrow> p < length cs \<Longrightarrow> position (cs ! p) cs = Some p"
proof (induction cs arbitrary: p)
  case (Cons c cs)
  then show ?case by (cases p) (auto simp: nth_eq_iff_index_eq)
qed simp

lemma distinct_ridx: "distinct (concat (map rindices ts)) \<Longrightarrow> distinct (map ridx ts)"
proof (induction ts)
  case (Cons t ts)
  have "ridx t \<noteq> ridx u" if "u \<in> set ts" for u
    using Cons.prems that ridx_in [of t] ridx_in [of u] by auto
  then show ?case using Cons by auto
qed simp

lemma concat_perm: "mset xs = mset ys \<Longrightarrow> mset (concat (map f xs)) = mset (concat (map f ys))"
  by (simp add: mset_concat flip: sum_mset_sum_list)

text \<open>The scan returns the position and the index of some child.\<close>

lemma best_scan_ok:
  assumes "list_all (\<lambda>c. c < length ns) cs" "pre @ cs = all" "length pre = pos" "fst best < length all" "fst (snd best) = all ! fst best"
  shows "\<exists>best'. best_scan ns b cs pos best = Some best' \<and> fst best' < length all \<and> fst (snd best') = all ! fst best'"
  using assms
proof (induction cs arbitrary: pre pos best)
  case (Cons c cs)
  obtain bp bi bc where best: "best = (bp, bi, bc)" by (metis prod.exhaust)
  let ?cost = "half_perimeter (bd_union b (n_bounds (ns ! c)))"
  let ?best = "if ?cost < bc then (pos, c, ?cost) else (bp, bi, bc)"
  have c: "c < length ns" "all ! pos = c" "pos < length all" using Cons.prems by auto
  have "\<exists>best'. best_scan ns b cs (Suc pos) ?best = Some best' \<and> fst best' < length all \<and> fst (snd best') = all ! fst best'"
    using Cons.prems c by (intro Cons.IH [of "pre @ [c]"]) (auto simp: best)
  then show ?case using c by (simp add: best Let_def)
qed simp

lemma best_child_ok:
  assumes "list_all (\<lambda>c. c < length ns) cs" "cs \<noteq> []"
  obtains p where "best_child ns b cs = Some (p, cs ! p)" "p < length cs"
proof -
  obtain c rest where cs: "cs = c # rest" using assms(2) by (cases cs) auto
  obtain p i k where "best_scan ns b rest 1 (0, c, half_perimeter (bd_union b (n_bounds (ns ! c)))) = Some (p, i, k)"
      "p < length cs" "i = cs ! p"
    using best_scan_ok [of ns rest "[c]" cs 1 "(0, c, half_perimeter (bd_union b (n_bounds (ns ! c))))" b] assms(1)
    by (auto simp: cs)
  then show thesis using assms(1) that by (simp add: best_child_def cs)
qed

lemma propagate_snoc:
  "propagate b order (xs @ [i]) u ns = do {
     ns' \<leftarrow> propagate b order xs u ns;
     node \<leftarrow> get_opt ns' i;
     Some (ns'[i := updated_node b order (if xs = [] then u else Some (last xs)) node]) }"
  by (induction xs arbitrary: u ns) (auto split: Option.bind_splits)

text \<open>
  The arena \<open>ns'\<close> holds the tree \<open>t'\<close> where \<open>ns\<close> held \<open>t\<close>, with the new leaf \<open>l\<close> in it, and differs
  from \<open>ns\<close> in internal nodes of the tree only.
\<close>

definition grown ::
    "'u::linordered_ab_group_add bt_node list \<Rightarrow> 'u bt_node list \<Rightarrow> 'u bounds \<Rightarrow> nat \<Rightarrow> nat \<Rightarrow> rt \<Rightarrow> rt \<Rightarrow> bool" where
  "grown ns ns' b order l t t' \<longleftrightarrow>
     rep ns' t' \<and> ridx t' = ridx t \<and> distinct (rindices t') \<and> set (rleaves t') = insert l (set (rleaves t)) \<and>
     set (rindices t') = set (rindices t) \<union> {l} \<union> {length ns..<length ns'} \<and> length ns \<le> length ns' \<and>
     (\<forall>j < length ns. j \<notin> set (rindices t) \<or> is_leaf_kind (n_kind (ns ! j)) \<longrightarrow> ns' ! j = ns ! j) \<and>
     (\<forall>j < length ns'. is_leaf_kind (n_kind (ns' ! j)) \<longrightarrow> j < length ns \<and> is_leaf_kind (n_kind (ns ! j))) \<and>
     encloses (n_bounds (ns' ! ridx t)) (n_bounds (ns ! ridx t)) \<and> encloses (n_bounds (ns' ! ridx t)) b \<and>
     encloses (bd_union (n_bounds (ns ! ridx t)) b) (n_bounds (ns' ! ridx t)) \<and>
     n_max_order (ns' ! ridx t) = max (n_max_order (ns ! ridx t)) order"

lemma bounds_eqI:
  fixes a b :: "'u::linordered_ab_group_add bounds"
  assumes "bd_left a = bd_left b" "bd_top a = bd_top b" "bd_right a = bd_right b" "bd_bottom a = bd_bottom b"
  shows "a = b"
  using assms by (cases a; cases b; cases "bd_origin a"; cases "bd_origin b"; cases "bd_size a"; cases "bd_size b")
    (simp add: side_defs)

lemma union_union [simp]: "bd_union (bd_union a b) b = bd_union a (b :: 'u::linordered_ab_group_add bounds)"
  by (rule bounds_eqI) simp_all

lemma swap_same [simp]: "swap xs p p = xs"
  by (simp add: swap_def)

lemma updated_node_None [simp]:
  "updated_node b order None n = n\<lparr>n_bounds := bd_union (n_bounds n) b, n_max_order := max (n_max_order n) order\<rparr>"
  by (simp add: updated_node_def Let_def max_def)

lemma updated_node_Some:
  assumes "n_kind n = BInternal cs" "position c cs = Some p"
  shows "updated_node b order (Some c) n =
    n\<lparr>n_bounds := bd_union (n_bounds n) b, n_max_order := max (n_max_order n) order,
      n_kind := BInternal (if n_max_order n < order then swap cs p (length cs - 1) else cs)\<rparr>"
  using assms by (auto simp: updated_node_def Let_def max_def)

lemma grownI:
  fixes ns ns' :: "'u::linordered_ab_group_add bt_node list"
  assumes old: "rep ns (RN i ts)" "distinct (rindices (RN i ts))"
    and perm: "mset ts' = mset us" "2 \<le> length us" "length us \<le> MAX_CHILDREN"
    and idx: "distinct (concat (map rindices us))" "i \<notin> set (concat (map rindices us))"
      "set (concat (map rindices us)) = set (concat (map rindices ts)) \<union> {l} \<union> {length ns..<length ns'}"
      "set (concat (map rleaves us)) = insert l (set (concat (map rleaves ts)))"
    and frame: "length ns \<le> length ns'"
      "\<And>j. j < length ns \<Longrightarrow> j \<noteq> i \<Longrightarrow> j \<notin> set (concat (map rindices ts)) \<or> is_leaf_kind (n_kind (ns ! j)) \<Longrightarrow> ns' ! j = ns ! j"
      "\<And>j. j < length ns' \<Longrightarrow> j \<noteq> i \<Longrightarrow> is_leaf_kind (n_kind (ns' ! j)) \<Longrightarrow> j < length ns \<and> is_leaf_kind (n_kind (ns ! j))"
    and node: "ns' ! i = \<lparr>n_bounds = bd_union (n_bounds (ns ! i)) b, n_max_order = max (n_max_order (ns ! i)) order,
        n_kind = BInternal (map ridx ts')\<rparr>"
    and children: "\<And>u. u \<in> set us \<Longrightarrow> rep ns' u \<and> encloses (bd_union (n_bounds (ns ! i)) b) (n_bounds (ns' ! ridx u)) \<and>
        n_max_order (ns' ! ridx u) \<le> max (n_max_order (ns ! i)) order"
    and last: "n_max_order (ns' ! ridx (last ts')) = max (n_max_order (ns ! i)) order"
  shows "grown ns ns' b order l (RN i ts) (RN i ts')"
proof -
  have i: "i < length ns" "\<not> is_leaf_kind (n_kind (ns ! i))" using old(1) by auto
  have len: "length ts' = length us" using perm(1) by (rule mset_eq_length)
  have sets: "set ts' = set us" using perm(1) by (rule mset_eq_setD)
  have ind: "mset (concat (map rindices ts')) = mset (concat (map rindices us))" by (rule concat_perm [OF perm(1)])
  then have ind: "distinct (concat (map rindices ts'))" "set (concat (map rindices ts')) = set (concat (map rindices us))"
    using idx(1) mset_eq_imp_distinct_iff mset_eq_setD by blast+
  have leaves: "set (concat (map rleaves ts')) = set (concat (map rleaves us))" using sets by simp
  show ?thesis
    unfolding grown_def
  proof (intro conjI allI impI)
    show "rep ns' (RN i ts')"
      using i(1) frame(1) perm(2,3) children last unfolding len [symmetric] by (simp add: node sets)
    show "distinct (rindices (RN i ts'))" using ind idx(2) by simp
    show "set (rleaves (RN i ts')) = insert l (set (rleaves (RN i ts)))" using leaves idx(4) by simp
    show "set (rindices (RN i ts')) = set (rindices (RN i ts)) \<union> {l} \<union> {length ns..<length ns'}" using ind(2) idx(3) by auto
    show "ns' ! j = ns ! j" if "j < length ns" "j \<notin> set (rindices (RN i ts)) \<or> is_leaf_kind (n_kind (ns ! j))" for j
      using that i(2) by (intro frame(2)) auto
    fix j assume "j < length ns'" "is_leaf_kind (n_kind (ns' ! j))"
    then have "j < length ns \<and> is_leaf_kind (n_kind (ns ! j))" by (intro frame(3)) (auto simp: node)
    then show "j < length ns" "is_leaf_kind (n_kind (ns ! j))" by auto
  qed (use frame(1) in \<open>simp_all add: node union_encloses\<close>)
qed

text \<open>The node has room for the new leaf.\<close>

lemma attach_room:
  fixes ns :: "'u::linordered_ab_group_add bt_node list"
  assumes T: "rep ns (RN i ts)" "distinct (rindices (RN i ts))" and l: "l < length ns" "ns ! l = leaf_node b order" "l \<notin> set (rindices (RN i ts))"
    and room: "length ts < MAX_CHILDREN"
  obtains ns1 ts' where "attach_leaf ns b order l i (map ridx ts) pos idx = Some ns1"
    "grown ns (ns1[i := updated_node b order None (ns1 ! i)]) b order l (RN i ts) (RN i ts')"
proof -
  let ?ts = "ts @ [RL l]" and ?m = "n_max_order (ns ! i)"
  define ts' where "ts' = (if order \<le> ?m then swap ?ts (length ts - 1) (length ts) else ?ts)"
  let ?node = "\<lparr>n_bounds = bd_union (n_bounds (ns ! i)) b, n_max_order = max ?m order, n_kind = BInternal (map ridx ts')\<rparr>"
  have ts: "2 \<le> length ts" "i < length ns" "\<And>t. t \<in> set ts \<Longrightarrow> rep ns t \<and> encloses (n_bounds (ns ! i)) (n_bounds (ns ! ridx t)) \<and> n_max_order (ns ! ridx t) \<le> ?m"
      "n_max_order (ns ! ridx (last ts)) = ?m"
    using T(1) by auto
  have "map ridx ts' = (if order \<le> ?m then swap (map ridx ts @ [l]) (length ts - 1) (length ts) else map ridx ts @ [l])"
    using ts(1) by (simp add: ts'_def map_swap)
  then have att: "attach_leaf ns b order l i (map ridx ts) pos idx = Some (ns[i := ?node])"
    using ts(2) room by (simp add: attach_leaf_def children_push_def Let_def)
  have perm: "mset ts' = mset ?ts" using ts(1) by (simp add: ts'_def mset_swap_eq)
  have last: "ridx (last ts') = (if order \<le> ?m then ridx (last ts) else l)"
  proof -
    have "ts ! (length ts - 1) = last ts" using ts(1) by (metis last_conv_nth list.size(3) not_numeral_le_zero)
    then show ?thesis using ts(1) last_swap [of "length ts - 1" ?ts] by (auto simp: ts'_def nth_append)
  qed
  define ns' where "ns' = ns[i := ?node]"
  have arena: "length ns' = length ns" "ns' ! i = ?node" "\<And>j. j \<noteq> i \<Longrightarrow> ns' ! j = ns ! j"
    using ts(2) by (simp_all add: ns'_def)
  have keep: "rep (ns') t \<and> ns' ! ridx t = ns ! ridx t" if "t \<in> set ts" for t
  proof -
    have "i \<notin> set (rindices t)" using T(2) that by auto
    then show ?thesis using ts(3) [OF that] not_ridx [of i t] by (simp add: arena(3)) (simp add: ns'_def rep_update)
  qed
  have "l \<noteq> i" using l(3) by auto
  have "grown ns (ns') b order l (RN i ts) (RN i ts')"
  proof (rule grownI [OF T perm])
    show "rep (ns') u \<and> encloses (bd_union (n_bounds (ns ! i)) b) (n_bounds (ns' ! ridx u)) \<and>
        n_max_order (ns' ! ridx u) \<le> max ?m order" if "u \<in> set ?ts" for u
      using that keep ts(3) l arena(1) arena(3) [OF \<open>l \<noteq> i\<close>]
      by (auto simp: leaf_node_def union_encloses encloses_union_left le_max_iff_disj)
    show "n_max_order (ns' ! ridx (last ts')) = max ?m order"
    proof (cases "order \<le> ?m")
      case True
      have "last ts \<in> set ts" using ts(1) by (intro last_in_set) auto
      then show ?thesis using True last ts(4) keep by (simp add: max_def)
    next
      case False
      then show ?thesis using last l(2) arena(3) [OF \<open>l \<noteq> i\<close>] by (simp add: leaf_node_def max_def)
    qed
    show "j < length ns \<and> is_leaf_kind (n_kind (ns ! j))" if "j < length ns'" "j \<noteq> i" "is_leaf_kind (n_kind (ns' ! j))" for j
      using that arena by simp
  qed (use T(2) ts(1) l room in \<open>auto simp: arena\<close>)
  moreover have "ns' = (ns[i := ?node])[i := updated_node b order None (ns[i := ?node] ! i)]"
    using ts(2) by (simp add: ns'_def)
  ultimately show thesis using that [OF att] by simp
qed

text \<open>The node is full: its best child, a leaf, is replaced by a node with that leaf and the new one.\<close>

lemma attach_full:
  fixes ns :: "'u::linordered_ab_group_add bt_node list"
  assumes T: "rep ns (RN i ts)" "distinct (rindices (RN i ts))" and l: "l < length ns" "ns ! l = leaf_node b order" "l \<notin> set (rindices (RN i ts))"
    and full: "length ts = MAX_CHILDREN" and pos: "pos < length ts" "ts ! pos = RL idx"
  obtains ns1 ts' where "attach_leaf ns b order l i (map ridx ts) pos idx = Some ns1"
    "grown ns (ns1[i := updated_node b order None (ns1 ! i)]) b order l (RN i ts) (RN i ts')"
proof -
  let ?m = "n_max_order (ns ! i)" and ?k = "length ns" and ?sib = "n_max_order (ns ! idx)"
  define pair where "pair = (if order > ?sib then [RL idx, RL l] else [RL l, RL idx])"
  define xs where "xs = take pos ts"
  define ys where "ys = drop (Suc pos) ts"
  let ?us = "xs @ RN ?k pair # ys"
  define ts' where "ts' = (if max ?sib order > ?m then swap ?us pos (length ts - 1) else ?us)"
  let ?new = "\<lparr>n_bounds = bd_union (n_bounds (ns ! idx)) b, n_max_order = max ?sib order, n_kind = BInternal (map ridx pair)\<rparr>"
  let ?node = "\<lparr>n_bounds = bd_union (n_bounds (ns ! i)) b, n_max_order = max ?m order, n_kind = BInternal (map ridx ts')\<rparr>"
  define ns' where "ns' = (ns @ [?new])[i := ?node]"
  have ts_eq: "ts = xs @ RL idx # ys" "length xs = pos"
    using pos id_take_nth_drop [OF pos(1)] by (simp_all add: xs_def ys_def)
  have upd: "ts[pos := RN ?k pair] = ?us" using ts_eq by (metis list_update_length)
  have ts: "i < ?k" "\<And>t. t \<in> set ts \<Longrightarrow> rep ns t \<and> encloses (n_bounds (ns ! i)) (n_bounds (ns ! ridx t)) \<and> n_max_order (ns ! ridx t) \<le> ?m"
      "n_max_order (ns ! ridx (last ts)) = ?m"
    using T(1) by auto
  have idx: "idx < ?k" "n_kind (ns ! idx) = BLeaf ?sib" "?sib \<le> ?m" "encloses (n_bounds (ns ! i)) (n_bounds (ns ! idx))" "idx \<noteq> i" "idx \<noteq> l"
    using ts(2) [of "RL idx"] T(2) l(3) ts_eq by auto
  have li: "l \<noteq> i" "l \<noteq> ?k" "i \<noteq> ?k" using l ts(1) by auto
  have len: "length ?us = length ts" by (simp add: ts_eq)
  have "map ridx ts' = (if max ?sib order > ?m then swap ((map ridx ts)[pos := ?k]) pos (length ts - 1) else (map ridx ts)[pos := ?k])"
  proof -
    have "map ridx ?us = (map ridx ts)[pos := ?k]" unfolding upd [symmetric] by (simp add: map_update)
    then show ?thesis using pos(1) len by (auto simp: ts'_def map_swap)
  qed
  moreover have "map ridx pair = (if order > ?sib then [idx, l] else [l, idx])" by (simp add: pair_def)
  ultimately have att: "attach_leaf ns b order l i (map ridx ts) pos idx = Some ((ns @ [?new])[i := (ns ! i)\<lparr>n_kind := BInternal (map ridx ts')\<rparr>])"
    using ts(1) idx(1) full by (simp add: attach_leaf_def Let_def)
  have nth: "ns' ! j = ns ! j" if "j < ?k" "j \<noteq> i" for j using that by (simp add: ns'_def nth_append)
  have arena: "ns' ! ?k = ?new" "ns' ! i = ?node" "length ns' = Suc ?k" using li ts(1) by (simp_all add: ns'_def)
  note new = arena(1)
  have keep: "rep ns' t \<and> ns' ! ridx t = ns ! ridx t" if "t \<in> set ts" for t
  proof -
    have "i \<notin> set (rindices t)" using T(2) that by auto
    then show ?thesis using ts(2) [OF that] not_ridx [of i t] rep_ridx [of ns t] nth [of "ridx t"] by (simp add: ns'_def rep_update rep_append)
  qed
  have pair_ok: "rep ns' (RN ?k pair)"
  proof -
    have at: "ns' ! idx = ns ! idx" "ns' ! l = leaf_node b order" using nth idx(1,5) l(1,2) li(1) by auto
    have "rep ns' (RL idx)" "rep ns' (RL l)"
      unfolding rep.simps at using idx(1,2) l(1) by (simp_all add: leaf_node_def arena(3))
    moreover have "set pair = {RL idx, RL l}" "2 = length pair" by (auto simp: pair_def)
    moreover have "n_max_order (ns' ! ridx (last pair)) = max ?sib order"
      using at by (simp add: pair_def leaf_node_def max_def)
    moreover have "?k < length ns'" by (simp add: arena)
    ultimately show ?thesis
      unfolding rep.simps new by (simp add: at union_encloses MAX_CHILDREN_def leaf_node_def)
  qed
  have child: "rep ns' u \<and> encloses (bd_union (n_bounds (ns ! i)) b) (n_bounds (ns' ! ridx u)) \<and> n_max_order (ns' ! ridx u) \<le> max ?m order"
    if "u \<in> set ?us" for u
  proof (cases "u = RN ?k pair")
    case True
    have "max ?sib order \<le> max ?m order" using idx(3) by (rule max.mono) simp
    then show ?thesis
      using True pair_ok idx(4) new by (simp add: encloses_union_iff union_encloses encloses_union_left del: rep.simps)
  next
    case False
    then have "u \<in> set ts" using that arg_cong [OF ts_eq(1), of set] by auto
    then show ?thesis using keep ts(2) by (simp add: encloses_union_left le_max_iff_disj)
  qed
  have perm: "mset ts' = mset ?us"
    using pos(1) len mset_swap_eq [of pos ?us "length ts - 1"] by (auto simp: ts'_def)
  have last: "n_max_order (ns' ! ridx (last ts')) = max ?m order"
  proof (cases "max ?sib order > ?m")
    case True
    then have "last ts' = ?us ! pos" using last_swap [of pos ?us, unfolded len] pos(1) by (simp add: ts'_def)
    then have "last ts' = RN ?k pair" using ts_eq(2) by (metis nth_append_length)
    moreover have "max ?sib order = max ?m order" using True idx(3) by (auto simp: max_def split: if_splits)
    ultimately show ?thesis using new by simp
  next
    case False
    show ?thesis
    proof (cases "ys = []")
      case True
      then have "last ts' = RN ?k pair" "?sib = ?m" using False ts(3) ts_eq by (auto simp: ts'_def)
      then show ?thesis using False new by (auto simp: max_def)
    next
      case ys: False
      then have "last ts' = last ts" "last ts \<in> set ts" using False ts_eq by (auto simp: ts'_def)
      moreover have "max ?m order = ?m" using False by (simp add: max_def split: if_splits)
      ultimately show ?thesis using keep [of "last ts"] ts(3) by simp
    qed
  qed
  have "grown ns ns' b order l (RN i ts) (RN i ts')"
  proof (rule grownI [OF T perm _ _ _ _ _ _ _ _ _ _ child last])
    have fresh: "?k \<notin> set (rindices t)" if "t \<in> set ts" for t using rep_index ts(2) [OF that] by blast
    then show "distinct (concat (map rindices ?us))"
      using T(2) l(3) idx(6) li(2) ts_eq(1) idx(1) by (auto simp: pair_def)
    show "i \<notin> set (concat (map rindices ?us))" using T(2) ts_eq(1) idx(5) li by (auto simp: pair_def)
    show "set (concat (map rindices ?us)) = set (concat (map rindices ts)) \<union> {l} \<union> {length ns..<length ns'}"
      by (auto simp: ts_eq(1) pair_def arena)
    show "set (concat (map rleaves ?us)) = insert l (set (concat (map rleaves ts)))" by (auto simp: ts_eq(1) pair_def)
    show "2 \<le> length ?us" "length ?us \<le> MAX_CHILDREN" using full unfolding len by (simp_all add: MAX_CHILDREN_def)
    show "j < length ns \<and> is_leaf_kind (n_kind (ns ! j))" if "j < length ns'" "j \<noteq> i" "is_leaf_kind (n_kind (ns' ! j))" for j
      using that new nth by (cases "j = ?k") (auto simp: arena)
  qed (use nth ts(1) in \<open>auto simp: arena\<close>)
  moreover have "ns' = ((ns @ [?new])[i := (ns ! i)\<lparr>n_kind := BInternal (map ridx ts')\<rparr>])
      [i := updated_node b order None ((ns @ [?new])[i := (ns ! i)\<lparr>n_kind := BInternal (map ridx ts')\<rparr>] ! i)]"
    using ts(1) by (cases "ns ! i") (simp add: ns'_def)
  ultimately show thesis using that [OF att] by simp
qed

text \<open>The update of a node on the path, once the child below it has grown.\<close>

lemma grown_up:
  fixes ns :: "'u::linordered_ab_group_add bt_node list"
  assumes T: "rep ns (RN i ts)" "distinct (rindices (RN i ts))" and l: "l < length ns" "l \<notin> set (rindices (RN i ts))"
    and pos: "pos < length ts" and g: "grown ns ns2 b order l (ts ! pos) tp'"
  obtains ts' where "i < length ns2" "grown ns (ns2[i := updated_node b order (Some (ridx (ts ! pos))) (ns2 ! i)]) b order l (RN i ts) (RN i ts')"
proof -
  let ?m = "n_max_order (ns ! i)" and ?k = "length ns" and ?tp = "ts ! pos"
  define xs where "xs = take pos ts"
  define ys where "ys = drop (Suc pos) ts"
  let ?us = "xs @ tp' # ys"
  define ts' where "ts' = (if ?m < order then swap ?us pos (length ts - 1) else ?us)"
  let ?node = "\<lparr>n_bounds = bd_union (n_bounds (ns ! i)) b, n_max_order = max ?m order, n_kind = BInternal (map ridx ts')\<rparr>"
  define ns' where "ns' = ns2[i := updated_node b order (Some (ridx ?tp)) (ns2 ! i)]"
  have ts_eq: "ts = xs @ ?tp # ys" "length xs = pos"
    using pos id_take_nth_drop [OF pos] by (simp_all add: xs_def ys_def)
  note g' = g [unfolded grown_def]
  have tp': "rep ns2 tp'" "ridx tp' = ridx ?tp" "distinct (rindices tp')" "set (rleaves tp') = insert l (set (rleaves ?tp))"
      "set (rindices tp') = set (rindices ?tp) \<union> {l} \<union> {?k..<length ns2}" "?k \<le> length ns2"
      "encloses (bd_union (n_bounds (ns ! ridx ?tp)) b) (n_bounds (ns2 ! ridx ?tp))"
      "n_max_order (ns2 ! ridx ?tp) = max (n_max_order (ns ! ridx ?tp)) order"
    using g' by auto
  have same: "ns2 ! j = ns ! j" if "j < ?k" "j \<notin> set (rindices ?tp) \<or> is_leaf_kind (n_kind (ns ! j))" for j using g' that by blast
  have leafy: "j < ?k \<and> is_leaf_kind (n_kind (ns ! j))" if "j < length ns2" "is_leaf_kind (n_kind (ns2 ! j))" for j using g' that by blast
  have ts: "i < ?k" "2 \<le> length ts" "length ts \<le> MAX_CHILDREN" "n_kind (ns ! i) = BInternal (map ridx ts)"
      "\<And>t. t \<in> set ts \<Longrightarrow> rep ns t \<and> encloses (n_bounds (ns ! i)) (n_bounds (ns ! ridx t)) \<and> n_max_order (ns ! ridx t) \<le> ?m"
      "n_max_order (ns ! ridx (last ts)) = ?m"
    using T(1) by auto
  have i_out: "i \<notin> set (rindices t)" if "t \<in> set ts" for t using T(2) that by auto
  have tp: "?tp \<in> set ts" using pos by simp
  have node: "ns2 ! i = ns ! i" using same [OF ts(1)] i_out [OF tp] by blast
  have len: "length ?us = length ts" using arg_cong [OF ts_eq(1), of length] by simp
  have ridx_us: "map ridx ?us = map ridx ts" using arg_cong [OF ts_eq(1), of "map ridx"] tp'(2) by simp
  have "distinct (map ridx ts)" using T(2) by (simp add: distinct_ridx)
  then have "position (ridx ?tp) (map ridx ts) = Some pos"
    using position_distinct [of "map ridx ts" pos] pos by simp
  moreover have "map ridx ts' = (if ?m < order then swap (map ridx ts) pos (length ts - 1) else map ridx ts)"
  proof -
    have "length ts - 1 < length ts" using ts(2) by simp
    then have "map ridx (swap ?us pos (length ts - 1)) = swap (map ridx ?us) pos (length ts - 1)"
      using pos by (intro map_swap) (simp_all only: len)
    then show ?thesis unfolding ts'_def ridx_us by (simp only: if_distrib [of "map ridx"] ridx_us)
  qed
  ultimately have upd: "updated_node b order (Some (ridx ?tp)) (ns2 ! i) = ?node"
    using ts(4) by (cases "ns ! i") (simp add: updated_node_Some node)
  have arena: "length ns' = length ns2" "ns' ! i = ?node" "\<And>j. j \<noteq> i \<Longrightarrow> ns' ! j = ns2 ! j"
    using ts(1) tp'(6) unfolding ns'_def upd by simp_all
  have sib: "rep ns' t \<and> ns' ! ridx t = ns ! ridx t" "set (rindices t) \<inter> set (rindices tp') = {}"
    if "t \<in> set xs \<union> set ys" for t
  proof -
    have t: "t \<in> set ts" using that arg_cong [OF ts_eq(1), of set] by auto
    have "distinct (concat (map rindices (xs @ ?tp # ys)))" using T(2) ts_eq(1) by simp
    then have disj: "set (rindices t) \<inter> set (rindices ?tp) = {}" using that by auto
    then have eq: "ns' ! j = ns ! j" if "j \<in> set (rindices t)" for j
      using that same [of j] i_out [OF t] rep_index ts(5) [OF t] arena(3) by (metis disjoint_iff)
    then show "rep ns' t \<and> ns' ! ridx t = ns ! ridx t"
      using ts(5) [OF t] tp'(6) ridx_in by (auto simp: arena intro!: rep_frame [of ns])
    have "l \<notin> set (rindices t)" "\<forall>j \<in> set (rindices t). j < ?k" using l(2) t ts(5) [OF t] rep_index by auto
    then show "set (rindices t) \<inter> set (rindices tp') = {}" unfolding tp'(5) using disj by auto
  qed
  have i_tp': "i \<notin> set (rindices tp')" unfolding tp'(5) using i_out [OF tp] ts(1) l(2) by auto
  have top: "rep ns' tp'" "ns' ! ridx tp' = ns2 ! ridx ?tp"
    using tp'(1,2) i_tp' not_ridx [OF i_tp'] arena(3) by (auto simp: ns'_def rep_update)
  have child: "rep ns' u \<and> encloses (bd_union (n_bounds (ns ! i)) b) (n_bounds (ns' ! ridx u)) \<and> n_max_order (ns' ! ridx u) \<le> max ?m order"
    if "u \<in> set ?us" for u
  proof (cases "u \<in> set xs \<union> set ys")
    case True
    then have "u \<in> set ts" using arg_cong [OF ts_eq(1), of set] by auto
    then show ?thesis using sib(1) [OF True] ts(5) by (simp add: encloses_union_left le_max_iff_disj)
  next
    case False
    have "encloses (bd_union (n_bounds (ns ! i)) b) (bd_union (n_bounds (ns ! ridx ?tp)) b)"
      using ts(5) [OF tp] by (simp add: encloses_union_iff union_encloses encloses_union_left)
    then show ?thesis
      using False that top tp'(7,8) ts(5) [OF tp] encloses_trans by (auto simp: le_max_iff_disj)
  qed
  have perm: "mset ts' = mset ?us" using pos len mset_swap_eq [of pos ?us "length ts - 1"] by (auto simp: ts'_def)
  have last: "n_max_order (ns' ! ridx (last ts')) = max ?m order"
  proof (cases "?m < order")
    case True
    then have "last ts' = ?us ! pos" using last_swap [of pos ?us, unfolded len] pos by (simp add: ts'_def)
    then have "last ts' = tp'" using ts_eq(2) by (metis nth_append_length)
    then show ?thesis using True top(2) tp'(8) ts(5) [OF tp] by (auto simp: max_def)
  next
    case False
    show ?thesis
    proof (cases "ys = []")
      case True
      then have "last ts' = tp'" "last ts = ?tp" using False arg_cong [OF ts_eq(1), of last] by (auto simp: ts'_def)
      then show ?thesis using False top(2) tp'(8) ts(6) by (auto simp: max_def)
    next
      case ys: False
      then have "last ts' = last ys" "last ts = last ys" using False arg_cong [OF ts_eq(1), of last] by (auto simp: ts'_def)
      then show ?thesis using sib(1) [of "last ys"] ts(6) False ys by (auto simp: max_def)
    qed
  qed
  have "grown ns ns' b order l (RN i ts) (RN i ts')"
  proof (rule grownI [OF T perm _ _ _ _ _ _ _ _ _ arena(2) child last])
    have "distinct (concat (map rindices (xs @ ?tp # ys)))" using T(2) ts_eq(1) by simp
    moreover have "set (concat (map rindices xs)) \<inter> set (rindices tp') = {}" "set (rindices tp') \<inter> set (concat (map rindices ys)) = {}"
      using sib(2) by fastforce+
    ultimately show "distinct (concat (map rindices ?us))" using tp'(3)
      by (simp only: map_append list.map concat_append concat.simps distinct_append set_append Int_Un_distrib Int_Un_distrib2) blast
    show "i \<notin> set (concat (map rindices ?us))" using i_tp' i_out arg_cong [OF ts_eq(1), of set] by auto
    have "set (concat (map rindices ts)) = set (concat (map rindices xs)) \<union> set (rindices ?tp) \<union> set (concat (map rindices ys))"
      "set (concat (map rleaves ts)) = set (concat (map rleaves xs)) \<union> set (rleaves ?tp) \<union> set (concat (map rleaves ys))"
      using arg_cong [OF ts_eq(1), of "\<lambda>ts. set (concat (map rindices ts))"]
        arg_cong [OF ts_eq(1), of "\<lambda>ts. set (concat (map rleaves ts))"] by auto
    then show "set (concat (map rindices ?us)) = set (concat (map rindices ts)) \<union> {l} \<union> {length ns..<length ns'}"
      "set (concat (map rleaves ?us)) = insert l (set (concat (map rleaves ts)))"
      using tp'(4,5) arena(1) by auto
    show "2 \<le> length ?us" "length ?us \<le> MAX_CHILDREN" unfolding len by (fact ts(2), fact ts(3))
    show "length ns \<le> length ns'" using tp'(6) arena(1) by simp
    show "ns' ! j = ns ! j" if "j < length ns" "j \<noteq> i" "j \<notin> set (concat (map rindices ts)) \<or> is_leaf_kind (n_kind (ns ! j))" for j
      using that same [of j] arena(3) tp by auto
    show "j < length ns \<and> is_leaf_kind (n_kind (ns ! j))" if "j < length ns'" "j \<noteq> i" "is_leaf_kind (n_kind (ns' ! j))" for j
      using that leafy [of j] arena by auto
  qed
  moreover have "i < length ns2" using ts(1) tp'(6) by simp
  ultimately show thesis using that ns'_def by blast
qed

text \<open>The descent, the attachment of the leaf and the updates on the way back.\<close>

lemma insert_down:
  fixes ns :: "'u::linordered_ab_group_add bt_node list"
  assumes leaf: "l < length ns" "ns ! l = leaf_node b order"
    and T: "rep ns T" "distinct (rindices T)" "l \<notin> set (rindices T)" "T = RN i ts"
  shows "\<exists>path cur cs pos idx ns1 ns2 t'. descend ns b i pre = Some (pre @ path, cur, cs, pos, idx) \<and> path \<noteq> [] \<and> hd path = i \<and>
    attach_leaf ns b order l cur cs pos idx = Some ns1 \<and> propagate b order (rev path) None ns1 = Some ns2 \<and>
    grown ns ns2 b order l T t'"
  using T
proof (induction T arbitrary: i ts pre)
  case (RN i' ts')
  then have T: "rep ns (RN i ts)" "distinct (rindices (RN i ts))" "l \<notin> set (rindices (RN i ts))" and eq: "RN i' ts' = RN i ts"
    by auto
  have ts: "i < length ns" "n_kind (ns ! i) = BInternal (map ridx ts)" "2 \<le> length ts" "length ts \<le> MAX_CHILDREN" "\<forall>t \<in> set ts. rep ns t"
    using T(1) by auto
  have "list_all (\<lambda>c. c < length ns) (map ridx ts)" "map ridx ts \<noteq> []" using ts rep_ridx by (auto simp: list_all_iff)
  then obtain p where "best_child ns b (map ridx ts) = Some (p, map ridx ts ! p)" "p < length (map ridx ts)"
    by (rule best_child_ok)
  then have p: "best_child ns b (map ridx ts) = Some (p, ridx (ts ! p))" "p < length ts" by auto
  have "ts ! p \<in> set ts" "rep ns (ts ! p)" using p(2) ts(5) by auto
  note tp = this rep_ridx [OF this(2)]
  show ?case
  proof (cases "ts ! p")
    case (RL idx)
    then have d: "descend ns b i pre = Some (pre @ [i], i, map ridx ts, p, idx)"
      using ts(1,2) p(1) tp by (subst descend.simps) simp
    obtain ns1 us where att: "attach_leaf ns b order l i (map ridx ts) p idx = Some ns1"
      and g: "grown ns (ns1[i := updated_node b order None (ns1 ! i)]) b order l (RN i ts) (RN i us)"
    proof (cases "length ts < MAX_CHILDREN")
      case True
      then show thesis using attach_room [OF T(1,2) leaf T(3)] that by blast
    next
      case False
      then have "length ts = MAX_CHILDREN" using ts(4) by simp
      then show thesis using attach_full [OF T(1,2) leaf T(3) _ p(2) RL] that by blast
    qed
    have "length ns \<le> length (ns1[i := updated_node b order None (ns1 ! i)])" using g unfolding grown_def by blast
    then have "propagate b order (rev [i]) None ns1 = Some (ns1[i := updated_node b order None (ns1 ! i)])" using ts(1) by simp
    then show ?thesis unfolding eq using d att g by (intro exI conjI) (assumption | simp)+
  next
    case node: (RN c us)
    have "distinct (rindices (ts ! p))" "l \<notin> set (rindices (ts ! p))" using T(2,3) tp(1) by (auto simp: distinct_concat_iff)
    moreover have "ts ! p \<in> set ts'" using tp(1) eq by simp
    ultimately obtain path cur cs pos idx ns1 ns2 t' where IH:
        "descend ns b c (pre @ [i]) = Some ((pre @ [i]) @ path, cur, cs, pos, idx)" "path \<noteq> []" "hd path = c"
        "attach_leaf ns b order l cur cs pos idx = Some ns1" "propagate b order (rev path) None ns1 = Some ns2"
        "grown ns ns2 b order l (ts ! p) t'"
      using RN.IH [of "ts ! p" c us "pre @ [i]"] tp(2) node by blast
    have d: "descend ns b i pre = descend ns b c (pre @ [i])" using ts(1,2) p(1) tp node by (subst descend.simps) simp
    obtain us' where up: "i < length ns2"
        "grown ns (ns2[i := updated_node b order (Some c) (ns2 ! i)]) b order l (RN i ts) (RN i us')"
      using grown_up [OF T(1,2) leaf(1) T(3) p(2) IH(6)] node by auto
    have "last (rev path) = c" using IH(2,3) by (simp add: last_rev)
    then have "propagate b order (rev (i # path)) None ns1 = Some (ns2[i := updated_node b order (Some c) (ns2 ! i)])"
      using IH(2,5) up(1) by (simp add: propagate_snoc)
    moreover have "descend ns b i pre = Some (pre @ (i # path), cur, cs, pos, idx)" using d IH(1) by simp
    ultimately show ?thesis unfolding eq using IH(4) up(2) by (intro exI conjI) (assumption | simp)+
  qed
qed simp

section \<open>The invariant\<close>

definition holds_tree :: "'u::linordered_ab_group_add bt_node list \<Rightarrow> rt \<Rightarrow> bool" where
  "holds_tree ns T \<longleftrightarrow> rep ns T \<and> distinct (rindices T) \<and> set (rindices T) = {..<length ns}"

definition bt_inv :: "'u::linordered_ab_group_add bounds_tree \<Rightarrow> bool" where
  "bt_inv t \<longleftrightarrow>
     bt_root t = None \<and> bt_nodes t = [] \<and> bt_max_leaf t = None \<or>
     (\<exists>T m. bt_root t = Some (ridx T) \<and> holds_tree (bt_nodes t) T \<and> bt_max_leaf t = Some m \<and> m \<in> set (rleaves T) \<and>
        (\<forall>l \<in> set (rleaves T). n_max_order (bt_nodes t ! l) \<le> n_max_order (bt_nodes t ! m)))"

text \<open>The bounds in the tree with their orderings, in the order of insertion.\<close>

definition leaves_of :: "'u bt_node list \<Rightarrow> ('u bounds \<times> nat) list" where
  "leaves_of ns = map (\<lambda>n. (n_bounds n, n_max_order n)) (filter (\<lambda>n. is_leaf_kind (n_kind n)) ns)"

definition bt_leaves :: "'u bounds_tree \<Rightarrow> ('u bounds \<times> nat) list" where
  "bt_leaves t = leaves_of (bt_nodes t)"

definition max_overlap :: "('u::linordered_ab_group_add bounds \<times> nat) list \<Rightarrow> 'u bounds \<Rightarrow> nat" where
  "max_overlap ls q = foldr (\<lambda>(b, order) m. if intersects q b then max order m else m) ls 0"

lemma max_overlap_le: "max_overlap ls q \<le> k \<longleftrightarrow> (\<forall>(b, order) \<in> set ls. intersects q b \<longrightarrow> order \<le> k)"
proof (induction ls)
  case (Cons x ls)
  obtain b order where x: "x = (b, order)" by force
  have "max_overlap (x # ls) q = (if intersects q b then max order (max_overlap ls q) else max_overlap ls q)"
    by (simp add: max_overlap_def x)
  then show ?case using Cons.IH by (auto simp: x)
qed (simp add: max_overlap_def)

lemma rep_kind:
  assumes "rep ns T" "j \<in> set (rindices T)"
  shows "is_leaf_kind (n_kind (ns ! j)) \<longleftrightarrow> j \<in> set (rleaves T)"
proof
  show "j \<in> set (rleaves T)" if "is_leaf_kind (n_kind (ns ! j))"
    using assms that by (induction T) auto
  show "is_leaf_kind (n_kind (ns ! j))" if "j \<in> set (rleaves T)"
    using rep_leaf [OF assms(1) that] by simp
qed

lemma holds_tree_leaves:
  assumes "holds_tree ns T"
  shows "set (rleaves T) = {j. j < length ns \<and> is_leaf_kind (n_kind (ns ! j))}"
proof -
  have "rep ns T" "set (rindices T) = {..<length ns}" using assms by (simp_all add: holds_tree_def)
  then show ?thesis using rep_kind [of ns T] rleaves_rindices [of T] by auto
qed

lemma set_leaves_of: "set (leaves_of ns) = {(n_bounds (ns ! j), n_max_order (ns ! j)) | j. j < length ns \<and> is_leaf_kind (n_kind (ns ! j))}"
  by (force simp: leaves_of_def in_set_conv_nth)

lemma top_order_max_overlap:
  assumes "holds_tree ns T"
  shows "top_order ns q (rleaves T) = max_overlap (leaves_of ns) q"
  by (rule nat_eqI) (auto simp: top_order_le max_overlap_le set_leaves_of holds_tree_leaves [OF assms])

lemma find_max_ordering_ok:
  assumes "bt_inv t"
  shows "find_max_ordering t q = Some (max_overlap (bt_leaves t) q)"
proof (cases "bt_root t")
  case None
  then show ?thesis using assms by (auto simp: bt_inv_def find_max_ordering_def bt_leaves_def leaves_of_def max_overlap_def)
next
  case (Some r)
  then obtain T m where T: "r = ridx T" "holds_tree (bt_nodes t) T" "bt_max_leaf t = Some m" "m \<in> set (rleaves T)"
      "\<And>l. l \<in> set (rleaves T) \<Longrightarrow> n_max_order (bt_nodes t ! l) \<le> n_max_order (bt_nodes t ! m)"
    using assms by (auto simp: bt_inv_def)
  let ?ns = "bt_nodes t"
  have rep: "rep ?ns T" using T(2) by (simp add: holds_tree_def)
  have m: "m < length ?ns" using rep_leaf [OF rep T(4)] by blast
  have top: "top_order ?ns q (rleaves T) = max_overlap (bt_leaves t) q"
    unfolding bt_leaves_def by (rule top_order_max_overlap [OF T(2)])
  show ?thesis
  proof (cases "intersects q (n_bounds (?ns ! m))")
    case True
    have "n_max_order (?ns ! m) = top_order ?ns q (rleaves T)"
      by (rule nat_eqI) (use True T(4,5) order_trans in \<open>auto simp: top_order_le\<close>)
    then show ?thesis using True Some T(3) m top by (simp add: find_max_ordering_def)
  next
    case False
    then show ?thesis
      using Some T(1,3) m top search_loop_ok [of "[T]" ?ns q 0] rep rep_ridx [OF rep] by (simp add: find_max_ordering_def)
  qed
qed

lemma filter_agree:
  assumes "list_all2 (\<lambda>x y. P x = P y \<and> (P y \<longrightarrow> x = y)) xs ys"
  shows "filter P xs = filter P ys"
  using assms by (induction rule: list_all2_induct) auto

lemma leaves_of_grown:
  assumes "length ns \<le> length ns'" "\<And>j. j < length ns \<Longrightarrow> is_leaf_kind (n_kind (ns ! j)) \<Longrightarrow> ns' ! j = ns ! j"
    "\<And>j. j < length ns' \<Longrightarrow> is_leaf_kind (n_kind (ns' ! j)) \<Longrightarrow> j < length ns \<and> is_leaf_kind (n_kind (ns ! j))"
  shows "leaves_of ns' = leaves_of ns"
proof -
  let ?P = "\<lambda>n. is_leaf_kind (n_kind n)"
  have "filter ?P (take (length ns) ns') = filter ?P ns"
  proof (rule filter_agree, unfold list_all2_conv_all_nth, intro conjI allI impI)
    fix j assume "j < length (take (length ns) ns')"
    then have j: "j < length ns" "j < length ns'" by auto
    then show "?P (take (length ns) ns' ! j) = ?P (ns ! j)" using assms(2,3) [of j] by auto
    show "take (length ns) ns' ! j = ns ! j" if "?P (ns ! j)" using assms(2) [of j] that j by simp
  qed (use assms(1) in simp)
  moreover have "\<not> ?P n" if "n \<in> set (drop (length ns) ns')" for n
  proof -
    obtain k where "k < length ns' - length ns" "n = ns' ! (length ns + k)"
      using \<open>n \<in> _\<close> assms(1) by (auto simp: in_set_conv_nth)
    then show ?thesis using assms(3) [of "length ns + k"] by (auto simp: less_diff_conv add.commute)
  qed
  then have "filter ?P (drop (length ns) ns') = []" by (simp add: filter_empty_conv)
  moreover have "filter ?P ns' = filter ?P (take (length ns) ns') @ filter ?P (drop (length ns) ns')"
    by (metis append_take_drop_id filter_append)
  ultimately show ?thesis by (simp add: leaves_of_def)
qed

lemma leaves_of_snoc: "leaves_of (ns @ [leaf_node b order]) = leaves_of ns @ [(b, order)]"
  by (simp add: leaves_of_def leaf_node_def)

lemma holds_tree_snoc_leaf:
  assumes "holds_tree ns T"
  shows "rep (ns @ [leaf_node b order]) T" "distinct (rindices T)" "length ns \<notin> set (rindices T)"
  using assms by (simp_all add: holds_tree_def rep_append)

lemma insert_leaf_ok:
  fixes t :: "'u::linordered_ab_group_add bounds_tree"
  assumes "bt_inv t"
  obtains t' T' where "insert_leaf t b order = Some (t', length (bt_nodes t))" "bt_root t' = Some (ridx T')"
    "holds_tree (bt_nodes t') T'" "bt_max_leaf t' = bt_max_leaf t" "bt_leaves t' = bt_leaves t @ [(b, order)]"
    "\<forall>j < length (bt_nodes t). is_leaf_kind (n_kind (bt_nodes t ! j)) \<longrightarrow> bt_nodes t' ! j = bt_nodes t ! j"
    "length (bt_nodes t) < length (bt_nodes t')" "bt_nodes t' ! length (bt_nodes t) = leaf_node b order"
proof (cases "bt_root t")
  case None
  then have "bt_nodes t = []" using assms by (auto simp: bt_inv_def)
  then show thesis
    using None that [of "t\<lparr>bt_nodes := [leaf_node b order], bt_root := Some 0\<rparr>" "RL 0"]
    by (simp add: insert_leaf_def holds_tree_def leaf_node_def bt_leaves_def leaves_of_def lessThan_Suc)
next
  case (Some r)
  then obtain T where T: "r = ridx T" "holds_tree (bt_nodes t) T" using assms by (auto simp: bt_inv_def)
  let ?l = "length (bt_nodes t)"
  define ns where "ns = bt_nodes t @ [leaf_node b order]"
  have ns: "?l < length ns" "ns ! ?l = leaf_node b order" "length ns = Suc ?l" "\<And>j. j < ?l \<Longrightarrow> ns ! j = bt_nodes t ! j"
    by (simp_all add: ns_def nth_append)
  have T': "rep ns T" "distinct (rindices T)" "?l \<notin> set (rindices T)"
    unfolding ns_def by (rule holds_tree_snoc_leaf [OF T(2)])+
  have idx: "set (rindices T) = {..<?l}" using T(2) by (simp add: holds_tree_def)
  show thesis
  proof (cases T)
    case (RL i)
    then have single: "{i} = {..<?l}" using idx by simp
    have "?l = card {..<?l}" by simp
    also have "\<dots> = card {i}" by (simp only: single)
    finally have "?l = 1" by simp
    then have i: "i = 0" "?l = 1" "r = 0" using single RL T(1) by (auto simp: lessThan_Suc)
    let ?root = "bt_nodes t ! 0"
    define pair where "pair = (if order > n_max_order ?root then [RL 0, RL 1] else [RL 1, RL 0])"
    define new where "new = \<lparr>n_bounds = bd_union (n_bounds ?root) b, n_max_order = max (n_max_order ?root) order, n_kind = BInternal (map ridx pair)\<rparr>"
    have root: "n_kind ?root = BLeaf (n_max_order ?root)" using T(2) RL i by (simp add: holds_tree_def)
    have at: "(ns @ [new]) ! 0 = ?root" "(ns @ [new]) ! 1 = leaf_node b order" "(ns @ [new]) ! 2 = new" "length (ns @ [new]) = 3"
      using i by (simp_all add: ns_def nth_append)
    have pair: "set pair = {RL 0, RL 1}" "length pair = 2" "map ridx pair = (if order > n_max_order ?root then [0, 1] else [1, 0])"
      "n_max_order ((ns @ [new]) ! ridx (last pair)) = max (n_max_order ?root) order"
      using at by (auto simp: pair_def leaf_node_def)
    have "rep (ns @ [new]) (RN 2 pair)"
      unfolding rep.simps at pair(1,2) using pair(4) root at
      by (auto simp: new_def leaf_node_def union_encloses MAX_CHILDREN_def)
    then have "holds_tree (ns @ [new]) (RN 2 pair)"
      using at(4) by (auto simp: holds_tree_def pair_def)
    moreover have "leaves_of (ns @ [new]) = leaves_of (bt_nodes t) @ [(b, order)]"
      by (simp add: ns_def leaves_of_def leaf_node_def new_def)
    moreover have "insert_leaf t b order = Some (t\<lparr>bt_nodes := ns @ [new], bt_root := Some 2\<rparr>, ?l)"
      using Some i root pair(3) ns by (simp add: insert_leaf_def Let_def ns_def [symmetric] new_def)
    ultimately show thesis
      using ns that [of "t\<lparr>bt_nodes := ns @ [new], bt_root := Some 2\<rparr>" "RN 2 pair"] i
      by (auto simp: bt_leaves_def nth_append)
  next
    case (RN i ts)
    obtain path cur cs pos idx ns1 ns2 u where d: "descend ns b i [] = Some ([] @ path, cur, cs, pos, idx)"
        "attach_leaf ns b order ?l cur cs pos idx = Some ns1" "propagate b order (rev path) None ns1 = Some ns2"
        "grown ns ns2 b order ?l T u"
      using insert_down [OF ns(1,2) T' RN, of "[]"] by blast
    note g = d(4) [unfolded grown_def]
    have "n_kind (ns ! i) = BInternal (map ridx ts)" "i < length ns" using T'(1) RN by auto
    then have ins: "insert_leaf t b order = Some (t\<lparr>bt_nodes := ns2\<rparr>, ?l)"
      using Some T(1) RN d(1-3) by (simp add: insert_leaf_def ns_def [symmetric])
    have "set (rindices u) = {..<?l} \<union> {?l} \<union> {length ns..<length ns2}" using g unfolding idx by blast
    also have "\<dots> = {..<length ns2}" using g ns(3) by (auto simp: le_less_Suc_eq)
    finally have "holds_tree ns2 u" using g by (simp add: holds_tree_def)
    moreover have "leaves_of ns2 = leaves_of ns" using g by (intro leaves_of_grown) blast+
    then have "leaves_of ns2 = leaves_of (bt_nodes t) @ [(b, order)]" by (simp add: ns_def leaves_of_snoc)
    moreover have "ns2 ! ?l = leaf_node b order" using g ns(1,2) T'(3) by metis
    moreover have "ns2 ! j = bt_nodes t ! j" if "j < ?l" "is_leaf_kind (n_kind (bt_nodes t ! j))" for j
      using g that ns(3) ns(4) [OF that(1)] by (metis less_SucI)
    moreover have "?l < length ns2" using g ns(3) by simp
    moreover have "ridx u = r" using g T(1) by simp
    ultimately show thesis using ins Some that [of "t\<lparr>bt_nodes := ns2\<rparr>" u] by (simp add: bt_leaves_def)
  qed
qed

lemma bt_insert_ok:
  fixes t :: "'u::linordered_ab_group_add bounds_tree"
  assumes inv: "bt_inv t"
  shows "\<exists>t'. bt_insert t b = Some (t', Suc (max_overlap (bt_leaves t) b)) \<and> bt_inv t' \<and>
    bt_leaves t' = bt_leaves t @ [(b, Suc (max_overlap (bt_leaves t) b))]"
proof -
  let ?order = "Suc (max_overlap (bt_leaves t) b)" and ?l = "length (bt_nodes t)"
  obtain t1 T where t1: "insert_leaf t b ?order = Some (t1, ?l)" "bt_root t1 = Some (ridx T)" "holds_tree (bt_nodes t1) T"
      "bt_max_leaf t1 = bt_max_leaf t" "bt_leaves t1 = bt_leaves t @ [(b, ?order)]"
      "\<And>j. j < ?l \<Longrightarrow> is_leaf_kind (n_kind (bt_nodes t ! j)) \<Longrightarrow> bt_nodes t1 ! j = bt_nodes t ! j"
      "?l < length (bt_nodes t1)" "bt_nodes t1 ! ?l = leaf_node b ?order"
    by (rule insert_leaf_ok [OF inv, of b ?order]) blast
  note leaves = holds_tree_leaves [OF t1(3)]
  have new: "?l \<in> set (rleaves T)" using t1(7,8) by (simp add: leaves leaf_node_def)
  have maxI: "bt_inv (t1\<lparr>bt_max_leaf := Some m\<rparr>)"
    if "m \<in> set (rleaves T)" "\<forall>(c, k) \<in> set (bt_leaves t1). k \<le> n_max_order (bt_nodes t1 ! m)" for m
  proof -
    have "n_max_order (bt_nodes t1 ! l) \<le> n_max_order (bt_nodes t1 ! m)" if "l \<in> set (rleaves T)" for l
      using \<open>\<forall>(c, k) \<in> _. _\<close> that unfolding bt_leaves_def set_leaves_of leaves by auto
    then show ?thesis using t1(2,3) that(1) by (auto simp: bt_inv_def)
  qed
  show ?thesis
  proof (cases "bt_max_leaf t")
    case None
    then have "bt_nodes t = []" using inv by (auto simp: bt_inv_def)
    then have "bt_leaves t = []" by (simp add: bt_leaves_def leaves_of_def)
    then have "bt_inv (t1\<lparr>bt_max_leaf := Some ?l\<rparr>)"
      using new t1(5,8) by (intro maxI) (auto simp: leaf_node_def)
    then show ?thesis using None t1(1,4,5) find_max_ordering_ok [OF inv, of b] by (simp add: bt_insert_def bt_leaves_def)
  next
    case (Some m)
    then obtain T0 where T0: "holds_tree (bt_nodes t) T0" "m \<in> set (rleaves T0)"
        "\<And>l. l \<in> set (rleaves T0) \<Longrightarrow> n_max_order (bt_nodes t ! l) \<le> n_max_order (bt_nodes t ! m)"
      using inv by (auto simp: bt_inv_def)
    note leaves0 = holds_tree_leaves [OF T0(1)]
    have m: "m < ?l" "is_leaf_kind (n_kind (bt_nodes t ! m))" using T0(2) by (simp_all add: leaves0)
    have m1: "bt_nodes t1 ! m = bt_nodes t ! m" "m < length (bt_nodes t1)" using t1(6) [OF m] m(1) t1(7) by auto
    have old: "k \<le> n_max_order (bt_nodes t ! m)" if "(c, k) \<in> set (bt_leaves t)" for c k
      using that T0(3) unfolding bt_leaves_def set_leaves_of leaves0 by auto
    let ?m = "if n_max_order (bt_nodes t ! m) < ?order then ?l else m"
    have "bt_inv (t1\<lparr>bt_max_leaf := Some ?m\<rparr>)"
    proof (rule maxI)
      show "?m \<in> set (rleaves T)" using new m m1 by (simp add: leaves)
      show "\<forall>(c, k) \<in> set (bt_leaves t1). k \<le> n_max_order (bt_nodes t1 ! ?m)"
        using old t1(5,8) m1(1) by (fastforce simp: leaf_node_def)
    qed
    moreover have "bt_insert t b = Some (t1\<lparr>bt_max_leaf := Some ?m\<rparr>, ?order)"
      using Some t1(1,4) m1 find_max_ordering_ok [OF inv, of b] by (simp add: bt_insert_def)
    ultimately show ?thesis using t1(5) by (simp add: bt_leaves_def)
  qed
qed

section \<open>Assigning orders to a sequence of bounds\<close>

text \<open>
  What a client of the tree relies on: every insertion returns one more than the greatest ordering it
  overlaps and records the bounds with it.
\<close>

locale order_assigner =
  fixes inv :: "'t \<Rightarrow> bool"
    and contents :: "'t \<Rightarrow> ('u::linordered_ab_group_add bounds \<times> nat) list"
    and insert_one :: "'t \<Rightarrow> 'u bounds \<Rightarrow> ('t \<times> nat) option"
  assumes insert_one_ok: "inv t \<Longrightarrow> \<exists>t'. insert_one t b = Some (t', Suc (max_overlap (contents t) b)) \<and> inv t' \<and>
    contents t' = contents t @ [(b, Suc (max_overlap (contents t) b))]"

fun insert_all :: "('t \<Rightarrow> 'b \<Rightarrow> ('t \<times> nat) option) \<Rightarrow> 't \<Rightarrow> 'b list \<Rightarrow> ('t \<times> nat list) option" where
  "insert_all ins t [] = Some (t, [])"
| "insert_all ins t (b # bs) = do {
     (t, order) \<leftarrow> ins t b;
     (t, orders) \<leftarrow> insert_all ins t bs;
     Some (t, order # orders) }"

text \<open>The orderings of a sequence of bounds drawn on top of \<open>placed\<close>.\<close>

fun stack_orders :: "('u::linordered_ab_group_add bounds \<times> nat) list \<Rightarrow> 'u bounds list \<Rightarrow> nat list" where
  "stack_orders placed [] = []"
| "stack_orders placed (b # bs) =
     (let order = Suc (max_overlap placed b) in order # stack_orders (placed @ [(b, order)]) bs)"

context order_assigner
begin

lemma insert_all_ok:
  "inv t \<Longrightarrow> \<exists>t'. insert_all insert_one t bs = Some (t', stack_orders (contents t) bs) \<and> inv t' \<and>
     contents t' = contents t @ zip bs (stack_orders (contents t) bs)"
proof (induction bs arbitrary: t)
  case (Cons b bs)
  obtain t' where "insert_one t b = Some (t', Suc (max_overlap (contents t) b))" "inv t'"
      "contents t' = contents t @ [(b, Suc (max_overlap (contents t) b))]"
    using insert_one_ok [OF Cons.prems] by blast
  then show ?case using Cons.IH [of t'] by (auto simp: Let_def)
qed simp

end

interpretation z_index: order_assigner bt_inv bt_leaves bt_insert
  by unfold_locales (rule bt_insert_ok)

lemma length_stack_orders [simp]: "length (stack_orders placed bs) = length bs"
  by (induction bs arbitrary: placed) (simp_all add: Let_def)

lemma stack_orders_nth:
  "j < length bs \<Longrightarrow> stack_orders placed bs ! j = Suc (max_overlap (placed @ take j (zip bs (stack_orders placed bs))) (bs ! j))"
proof (induction bs arbitrary: placed j)
  case (Cons b bs)
  then show ?case by (cases j) (simp_all add: Let_def)
qed simp

lemma stack_orders_bounded:
  "\<forall>(c, k) \<in> set placed. k \<le> length placed \<Longrightarrow> j < length bs \<Longrightarrow> stack_orders placed bs ! j \<le> Suc (length placed + j)"
proof (induction bs arbitrary: placed j)
  case (Cons b bs)
  let ?order = "Suc (max_overlap placed b)"
  have "?order \<le> Suc (length placed)" using Cons.prems(1) by (force simp: max_overlap_le)
  moreover have "\<forall>(c, k) \<in> set (placed @ [(b, ?order)]). k \<le> length (placed @ [(b, ?order)])"
    using Cons.prems(1) \<open>?order \<le> _\<close> by (auto intro: le_SucI)
  ultimately show ?case using Cons.IH [of "placed @ [(b, ?order)]"] Cons.prems(2) by (cases j) (auto simp: Let_def)
qed simp

lemma stack_orders_above:
  assumes "i < j" "j < length bs" "intersects (bs ! j) (bs ! i)"
  shows "stack_orders [] bs ! i < stack_orders [] bs ! j"
proof -
  let ?orders = "stack_orders [] bs"
  have "(bs ! i, ?orders ! i) \<in> set (take j (zip bs ?orders))"
    using assms(1,2) by (auto simp: in_set_conv_nth intro!: exI [of _ i])
  then have "?orders ! i \<le> max_overlap (take j (zip bs ?orders)) (bs ! j)"
    using assms(3) max_overlap_le [of "take j (zip bs ?orders)" "bs ! j"] by fastforce
  then show ?thesis using stack_orders_nth [OF assms(2), of "[]"] by simp
qed

lemma bt_default_inv: "bt_inv bt_default" "bt_leaves bt_default = []"
  by (simp_all add: bt_inv_def bt_default_def bt_leaves_def leaves_of_def)

section \<open>Properties\<close>

text \<open>
  Claim C5. The tree implements its specification on every sequence of insertions: no insertion panics or
  runs forever, each returns one more than the greatest ordering among the bounds inserted before
  that intersect the new ones, whatever path the descent takes, and the tree keeps its invariant: an
  internal node has between two and \<^verbatim>\<open>MAX_CHILDREN\<close> children, encloses them, and its greatest
  ordering is the one of its last child.
\<close>

theorem bounds_tree_refines_specification:
  "\<exists>t. insert_all bt_insert bt_default bs = Some (t, stack_orders [] bs) \<and> bt_inv t \<and>
     bt_leaves t = zip bs (stack_orders [] bs)"
  using z_index.insert_all_ok [OF bt_default_inv(1), of bs] by (simp add: bt_default_inv(2))

text \<open>
  \<^verbatim>\<open>find_max_ordering\<close>, with its fast path and its pruning, computes the maximum over all bounds
  of the tree that intersect the query, and it always returns.
\<close>

theorem find_max_ordering_is_maximum:
  assumes "bt_inv t"
  shows "find_max_ordering t q = Some (max_overlap (bt_leaves t) q)"
  by (rule find_max_ordering_ok [OF assms])

theorem find_max_ordering_is_maximum_witness:
  "find_max_ordering (bt_clear (bt_default :: int bounds_tree)) (box 0 0 1 1) = Some 0"
proof -
  have "bt_inv (bt_clear (bt_default :: int bounds_tree))" by (simp add: bt_inv_def bt_clear_def)
  from find_max_ordering_is_maximum [OF this, of "box 0 0 1 1"] show ?thesis
    by (simp add: bt_clear_def bt_leaves_def leaves_of_def max_overlap_def)
qed

text \<open>
  Bounds inserted later are ordered above every earlier bounds that they intersect, and the
  orderings stay below the number of insertions, so the 32-bit ordering of the source cannot
  overflow before that many bounds are inserted.
\<close>

theorem later_overlapping_bounds_are_above:
  assumes "insert_all bt_insert bt_default bs = Some (t, orders)" "i < j" "j < length bs" "intersects (bs ! j) (bs ! i)"
  shows "orders ! i < orders ! j \<and> orders ! j \<le> Suc j"
proof -
  have o: "orders = stack_orders [] bs" using assms(1) z_index.insert_all_ok [OF bt_default_inv(1), of bs] by (simp add: bt_default_inv(2))
  then show ?thesis using stack_orders_above [OF assms(2-4)] stack_orders_bounded [OF _ assms(3), of "[]"] by simp
qed

theorem later_overlapping_bounds_are_above_witness:
  "stack_orders [] [box 0 0 10 10, box 5 5 10 10] ! 0 < stack_orders [] [box 0 0 10 10, box 5 5 10 10] ! 1"
proof -
  let ?bs = "[box 0 0 10 10, box 5 5 10 10]"
  obtain t where t: "insert_all bt_insert bt_default ?bs = Some (t, stack_orders [] ?bs)"
    using z_index.insert_all_ok [OF bt_default_inv(1), of ?bs] by (auto simp: bt_default_inv(2))
  have "intersects (?bs ! 1) (?bs ! 0)" by code_simp
  then show ?thesis using later_overlapping_bounds_are_above [OF t, of 0 1] by simp
qed

end
