(* ===== verification/TabStop.thy ===== *)
theory TabStop
  imports KeyedTree "HOL-Library.List_Lexorder" "HOL-Library.Product_Lexorder" "HOL-Library.AList"
begin

text \<open>
  The order of keyboard focus (\<^verbatim>\<open>crates/gpui/src/tab_stop.rs\<close>), a client of the keyed sum tree and of
  its cursors. Elements register focus handles while a frame is painted, inside nested groups; the
  tab order sorts them by the path of tab indices and, on equal paths, by the order of registration.
\<close>

section \<open>Data\<close>

record 'i focus_handle =
  fh_id :: 'i
  fh_tab_index :: int
  fh_tab_stop :: bool

datatype 'i tab_stop_operation = InsertHandle "'i focus_handle" | Group int | GroupEnd

fun op_focus_handle :: "'i tab_stop_operation \<Rightarrow> 'i focus_handle option" where
  "op_focus_handle (InsertHandle h) = Some h"
| "op_focus_handle _ = None"

record tab_stop_node =
  tn_path :: "int list"
  tn_index :: nat
  tn_tab_stop :: bool

text \<open>
  \<^verbatim>\<open>Ord for TabStopNode\<close> compares the paths lexicographically and then the insertion indices: this
  is the order of the pairs of both. (\<^verbatim>\<open>insert_or_replace\<close> also compares two keys by the derived equality,
  which looks at \<^verbatim>\<open>tab_stop\<close> as well; the insertion indices of a map are unique, so both
  agree on every node that is compared.)
\<close>

type_synonym tab_key = "int list \<times> nat"

definition node_key :: "tab_stop_node \<Rightarrow> tab_key" where
  "node_key n = (tn_path n, tn_index n)"

record tab_stop_summary =
  ts_max_index :: nat
  ts_max_path :: "int list"
  ts_tab_stops :: nat

definition tab_trait :: "(tab_stop_node, tab_stop_summary) item_trait" where
  "tab_trait =
     \<lparr>item_summary = (\<lambda>n. \<lparr>ts_max_index = tn_index n, ts_max_path = tn_path n, ts_tab_stops = (if tn_tab_stop n then 1 else 0)\<rparr>),
      summary_zero = \<lparr>ts_max_index = 0, ts_max_path = [], ts_tab_stops = 0\<rparr>,
      add_summary = (\<lambda>a b. \<lparr>ts_max_index = ts_max_index b, ts_max_path = ts_max_path b,
                             ts_tab_stops = ts_tab_stops a + ts_tab_stops b\<rparr>)\<rparr>"

text \<open>\<^verbatim>\<open>TabStopNode\<close> as a dimension: its flag is never set, so a position is a key.\<close>

definition tab_key_dim :: "(tab_stop_summary, tab_key) dimension" where
  "tab_key_dim = \<lparr>dim_zero = ([], 0), dim_add = (\<lambda>_ s. (ts_max_path s, ts_max_index s))\<rparr>"

definition tab_count_dim :: "(tab_stop_summary, nat) dimension" where
  "tab_count_dim = \<lparr>dim_zero = 0, dim_add = (\<lambda>n s. n + ts_tab_stops s)\<rparr>"

record 'i tab_stop_map =
  tm_current_path :: "int list"
  tm_history :: "'i tab_stop_operation list"
  tm_by_id :: "('i \<times> tab_stop_node) list"
  tm_order :: "(tab_stop_node, tab_stop_summary) node"

section \<open>Operations\<close>

definition tab_default :: "'i tab_stop_map" where
  "tab_default = \<lparr>tm_current_path = [], tm_history = [], tm_by_id = [], tm_order = new_tree tab_trait\<rparr>"

definition tab_insert :: "'i focus_handle \<Rightarrow> 'i tab_stop_map \<Rightarrow> 'i tab_stop_map option" where
  "tab_insert h m = do {
     let history = tm_history m @ [InsertHandle h];
     let order = \<lparr>tn_path = tm_current_path m @ [fh_tab_index h], tn_index = length history - 1, tn_tab_stop = fh_tab_stop h\<rparr>;
     let by_id = AList.update (fh_id h) order (tm_by_id m);
     (t, _) \<leftarrow> insert_or_replace tab_trait tab_key_dim node_key (tm_order m) order;
     Some (m\<lparr>tm_history := history, tm_by_id := by_id, tm_order := t\<rparr>) }"

definition begin_group :: "int \<Rightarrow> 'i tab_stop_map \<Rightarrow> 'i tab_stop_map" where
  "begin_group tab_index m = m\<lparr>tm_history := tm_history m @ [Group tab_index], tm_current_path := tm_current_path m @ [tab_index]\<rparr>"

definition end_group :: "'i tab_stop_map \<Rightarrow> 'i tab_stop_map" where
  "end_group m = m\<lparr>tm_history := tm_history m @ [GroupEnd], tm_current_path := butlast (tm_current_path m)\<rparr>"

definition tab_clear :: "'i tab_stop_map \<Rightarrow> 'i tab_stop_map" where
  "tab_clear m = tab_default\<lparr>tm_current_path := [], tm_history := [], tm_by_id := [], tm_order := new_tree tab_trait\<rparr>"

definition focus_handle_for_order :: "'i tab_stop_map \<Rightarrow> tab_stop_node \<Rightarrow> 'i focus_handle option option" where
  "focus_handle_for_order m order = do {
     operation \<leftarrow> get_opt (tm_history m) (tn_index order);
     assert_that (op_focus_handle operation \<noteq> None);
     Some (op_focus_handle operation) }"

definition tab_node_for_focus_id :: "'i tab_stop_map \<Rightarrow> 'i \<Rightarrow> tab_stop_node option" where
  "tab_node_for_focus_id m focused_id = map_of (tm_by_id m) focused_id"

partial_function (option) skip_non_stops ::
    "((tab_stop_node, tab_stop_summary, tab_key) cursor \<Rightarrow> (tab_stop_node, tab_stop_summary, tab_key) cursor option)
      \<Rightarrow> (tab_stop_node, tab_stop_summary, tab_key) cursor \<Rightarrow> (tab_stop_node, tab_stop_summary, tab_key) cursor option" where
  "skip_non_stops move c = do {
     it \<leftarrow> cursor_item c;
     (case it of
        Some n \<Rightarrow> (if \<not> tn_tab_stop n then do { c' \<leftarrow> move c; skip_non_stops move c' } else Some c)
      | None \<Rightarrow> Some c) }"

declare skip_non_stops.simps [code]

definition next_inner :: "'i tab_stop_map \<Rightarrow> tab_stop_node \<Rightarrow> tab_stop_node option option" where
  "next_inner m node = do {
     (c, _) \<leftarrow> cursor_seek tab_key_dim (ord_cmp (node_key node)) Left (cursor_new tab_key_dim (tm_order m));
     c \<leftarrow> cursor_next tab_key_dim c;
     c \<leftarrow> skip_non_stops (cursor_next tab_key_dim) c;
     cursor_item c }"

definition prev_inner :: "'i tab_stop_map \<Rightarrow> tab_stop_node \<Rightarrow> tab_stop_node option option" where
  "prev_inner m node = do {
     (c, _) \<leftarrow> cursor_seek tab_key_dim (ord_cmp (node_key node)) Left (cursor_new tab_key_dim (tm_order m));
     c \<leftarrow> cursor_prev tab_key_dim c;
     c \<leftarrow> skip_non_stops (cursor_prev tab_key_dim) c;
     cursor_item c }"

function (sequential) tab_next :: "'i tab_stop_map \<Rightarrow> 'i option \<Rightarrow> 'i focus_handle option option" where
  "tab_next m None = do {
     first \<leftarrow> first_item (tm_order m);
     (case first of
        None \<Rightarrow> Some None
      | Some node \<Rightarrow>
          (if tn_tab_stop node then focus_handle_for_order m node
           else do {
             order \<leftarrow> next_inner m node;
             (case order of None \<Rightarrow> Some None | Some order \<Rightarrow> focus_handle_for_order m order) })) }"
| "tab_next m (Some focused_id) =
     (case tab_node_for_focus_id m focused_id of
        None \<Rightarrow> tab_next m None
      | Some node \<Rightarrow> do {
          item \<leftarrow> next_inner m node;
          (case item of Some item \<Rightarrow> focus_handle_for_order m item | None \<Rightarrow> tab_next m None) })"
  by pat_completeness auto

termination tab_next
  by (relation "measure (\<lambda>(_, focused). if focused = None then 0 else 1)") auto

function (sequential) tab_prev :: "'i tab_stop_map \<Rightarrow> 'i option \<Rightarrow> 'i focus_handle option option" where
  "tab_prev m None = do {
     last' \<leftarrow> last_item (tm_order m);
     (case last' of
        None \<Rightarrow> Some None
      | Some node \<Rightarrow>
          (if tn_tab_stop node then focus_handle_for_order m node
           else do {
             order \<leftarrow> prev_inner m node;
             (case order of None \<Rightarrow> Some None | Some order \<Rightarrow> focus_handle_for_order m order) })) }"
| "tab_prev m (Some focused_id) =
     (case tab_node_for_focus_id m focused_id of
        None \<Rightarrow> tab_prev m None
      | Some node \<Rightarrow> do {
          item \<leftarrow> prev_inner m node;
          (case item of Some item \<Rightarrow> focus_handle_for_order m item | None \<Rightarrow> tab_prev m None) })"
  by pat_completeness auto

termination tab_prev
  by (relation "measure (\<lambda>(_, focused). if focused = None then 0 else 1)") auto

fun tab_operation :: "'i tab_stop_operation \<Rightarrow> 'i tab_stop_map \<Rightarrow> 'i tab_stop_map option" where
  "tab_operation (InsertHandle h) m = tab_insert h m"
| "tab_operation (Group tab_index) m = Some (begin_group tab_index m)"
| "tab_operation GroupEnd m = Some (end_group m)"

fun replay :: "'i tab_stop_operation list \<Rightarrow> 'i tab_stop_map \<Rightarrow> 'i tab_stop_map option" where
  "replay [] m = Some m"
| "replay (node # nodes) m = do { m' \<leftarrow> tab_operation node m; replay nodes m' }"

definition paint_index :: "'i tab_stop_map \<Rightarrow> nat" where
  "paint_index m = length (tm_history m)"

definition tab_stop_count :: "'i tab_stop_map \<Rightarrow> nat" where
  "tab_stop_count m = length (filter (\<lambda>(_, n). tn_tab_stop n) (tm_by_id m))"

section \<open>The laws of keys and counts hold\<close>

lemma Nil_zero_le: "([], 0) \<le> (k :: tab_key)"
  by (cases k; cases "fst k") (auto simp: less_eq_prod_def)

interpretation tab_keys: keyed_laws tab_trait tab_key_dim node_key
  by unfold_locales (simp_all add: tab_trait_def tab_key_dim_def node_key_def Nil_zero_le)

interpretation tab_counts: two_dimensions tab_trait tab_key_dim tab_count_dim
  by unfold_locales (simp_all add: tab_trait_def tab_count_dim_def)

section \<open>What the map stands for\<close>

text \<open>
  The handles of a history with their nodes: the path of a node is that of the groups open at the
  time of registration followed by the tab index, its index the position in the history.
\<close>

fun entries_of :: "int list \<Rightarrow> nat \<Rightarrow> 'i tab_stop_operation list \<Rightarrow> ('i focus_handle \<times> tab_stop_node) list" where
  "entries_of p i [] = []"
| "entries_of p i (InsertHandle h # ops) =
     (h, \<lparr>tn_path = p @ [fh_tab_index h], tn_index = i, tn_tab_stop = fh_tab_stop h\<rparr>) # entries_of p (Suc i) ops"
| "entries_of p i (Group k # ops) = entries_of (p @ [k]) (Suc i) ops"
| "entries_of p i (GroupEnd # ops) = entries_of (butlast p) (Suc i) ops"

fun open_groups :: "int list \<Rightarrow> 'i tab_stop_operation list \<Rightarrow> int list" where
  "open_groups p [] = p"
| "open_groups p (InsertHandle h # ops) = open_groups p ops"
| "open_groups p (Group k # ops) = open_groups (p @ [k]) ops"
| "open_groups p (GroupEnd # ops) = open_groups (butlast p) ops"

abbreviation tab_entries :: "'i tab_stop_map \<Rightarrow> ('i focus_handle \<times> tab_stop_node) list" where
  "tab_entries m \<equiv> entries_of [] 0 (tm_history m)"

abbreviation tab_nodes :: "'i tab_stop_map \<Rightarrow> tab_stop_node list" where
  "tab_nodes m \<equiv> flatten (tm_order m)"

definition tab_inv :: "'i tab_stop_map \<Rightarrow> bool" where
  "tab_inv m \<longleftrightarrow>
     wf_tree tab_trait (tm_order m) \<and> sorted_keys node_key (tab_nodes m) \<and>
     set (tab_nodes m) = snd ` set (tab_entries m) \<and>
     tm_current_path m = open_groups [] (tm_history m) \<and>
     distinct (map fst (tm_by_id m)) \<and>
     map_of (tm_by_id m) = map_of (rev (map (\<lambda>(h, n). (fh_id h, n)) (tab_entries m)))"

lemma entries_of_append:
  "entries_of p i (xs @ ys) = entries_of p i xs @ entries_of (open_groups p xs) (i + length xs) ys"
  by (induction p i xs rule: entries_of.induct) simp_all

lemma open_groups_append: "open_groups p (xs @ ys) = open_groups (open_groups p xs) ys"
  by (induction p xs rule: open_groups.induct) simp_all

lemma entries_of_in_history:
  "(h, n) \<in> set (entries_of p i ops) \<Longrightarrow>
   i \<le> tn_index n \<and> tn_index n < i + length ops \<and> ops ! (tn_index n - i) = InsertHandle h \<and> tn_tab_stop n = fh_tab_stop h"
  by (induction p i ops rule: entries_of.induct) (auto simp: nth_Cons')

lemma tab_default_inv: "tab_inv tab_default"
  by (simp add: tab_inv_def tab_default_def)

lemma tab_insert_ok:
  assumes "tab_inv m" "stack_fits (tm_order m)"
  shows "\<exists>m'. tab_insert h m = Some m' \<and> tab_inv m' \<and> tm_history m' = tm_history m @ [InsertHandle h]"
proof -
  let ?n = "\<lparr>tn_path = tm_current_path m @ [fh_tab_index h], tn_index = length (tm_history m), tn_tab_stop = fh_tab_stop h\<rparr>"
  have inv: "wf_tree tab_trait (tm_order m)" "sorted_keys node_key (tab_nodes m)"
    "set (tab_nodes m) = snd ` set (tab_entries m)" "tm_current_path m = open_groups [] (tm_history m)"
    using assms(1) by (simp_all add: tab_inv_def)
  have new: "node_key n \<noteq> node_key ?n" if n: "n \<in> set (tab_nodes m)" for n
  proof -
    obtain h' where "(h', n) \<in> set (tab_entries m)" using n inv(3) by auto
    from entries_of_in_history [OF this] show ?thesis by (simp add: node_key_def)
  qed
  obtain t where t: "insert_or_replace tab_trait tab_key_dim node_key (tm_order m) ?n =
      Some (t, find (\<lambda>y. node_key y = node_key ?n) (tab_nodes m))"
    "wf_tree tab_trait t" "flatten t = apply_edit node_key (tab_nodes m) (Insert ?n)"
    using tab_keys.insert_or_replace_ok [of "tm_order m" ?n] inv assms(2) by auto
  have "set (flatten t) = insert ?n (set (tab_nodes m))"
    using new by (auto simp: t(3) items_below_def items_above_def neq_iff)
  moreover have "sorted_keys node_key (flatten t)" unfolding t(3) by (rule apply_edit_sorted [OF inv(2)])
  ultimately show ?thesis
    using assms(1) t(1,2)
    by (auto simp: tab_insert_def tab_inv_def Let_def entries_of_append open_groups_append inv(3) inv(4) [symmetric]
        AList.update_conv' distinct_update)
qed

lemma groups_ok:
  assumes "tab_inv m"
  shows "tab_inv (begin_group k m)" and "tab_inv (end_group m)"
  using assms by (simp_all add: tab_inv_def begin_group_def end_group_def entries_of_append open_groups_append)

section \<open>Moving over the order\<close>

lemma sorted_keys_around:
  assumes "sorted_keys key (as @ x # bs)"
  shows "items_above key (key x) (as @ x # bs) = bs" "items_below key (key x) (as @ x # bs) = as"
    "count_below key (key x) (as @ x # bs) = length as"
  using assms by (auto simp: items_above_def items_below_def count_below_def filter_empty_conv filter_id_conv)

lemma skip_forward:
  assumes t: "wf_tree tab_trait t" "stack_fits t" and at: "cursor_at tab_trait tab_key_dim t c i"
  shows "\<exists>c'. skip_non_stops (cursor_next tab_key_dim) c = Some c' \<and>
     cursor_item c' = Some (first_opt (filter tn_tab_stop (drop i (flatten t))))"
  using at
proof (induction "length (flatten t) - i" arbitrary: c i rule: less_induct)
  case less
  note item = cursor_item_at(1) [OF less.prems] and simps = skip_non_stops.simps [of _ c]
  show ?case
  proof (cases "i < length (flatten t) \<and> \<not> tn_tab_stop (flatten t ! i)")
    case True
    obtain c' where c': "cursor_next tab_key_dim c = Some c'" "cursor_at tab_trait tab_key_dim t c' (Suc i)"
      using tab_keys.cursor_next_at [OF t less.prems] True by (auto simp: min_def)
    have "length (flatten t) - Suc i < length (flatten t) - i" using True by linarith
    from less.hyps [OF this c'(2)] True show ?thesis
      by (simp add: simps item c'(1) get_opt_def Cons_nth_drop_Suc [symmetric])
  next
    case False
    then show ?thesis
      by (cases "i < length (flatten t)")
        (simp_all add: simps item get_opt_def Cons_nth_drop_Suc [symmetric])
  qed
qed

lemma cursor_before_item: "cursor_before M t c \<Longrightarrow> c_did_seek c \<Longrightarrow> cursor_item c = Some None"
  by (simp add: cursor_before_def cursor_item_def)

lemma skip_backward:
  assumes t: "wf_tree tab_trait t" "stack_fits t" and at: "cursor_at tab_trait tab_key_dim t c i" "i \<le> length (flatten t)"
  shows "\<exists>c' c''. cursor_prev tab_key_dim c = Some c' \<and> skip_non_stops (cursor_prev tab_key_dim) c' = Some c'' \<and>
     cursor_item c'' = Some (last_opt (filter tn_tab_stop (take i (flatten t))))"
  using at
proof (induction i arbitrary: c)
  case 0
  then obtain c' where "cursor_prev tab_key_dim c = Some c'" "cursor_item c' = Some None"
    using tab_keys.cursor_prev_at [OF t 0(1)] cursor_before_item by auto
  then show ?case by (simp add: skip_non_stops.simps [of _ c'])
next
  case (Suc i)
  obtain c' where c': "cursor_prev tab_key_dim c = Some c'" "cursor_at tab_trait tab_key_dim t c' i"
    using tab_keys.cursor_prev_at [OF t Suc.prems(1)] by auto
  have item: "cursor_item c' = Some (Some (flatten t ! i))"
    using cursor_item_at(1) [OF c'(2)] Suc.prems(2) by (simp add: get_opt_def)
  show ?case
    using Suc.IH [OF c'(2)] Suc.prems(2)
    by (cases "tn_tab_stop (flatten t ! i)")
      (auto simp: c'(1) item skip_non_stops.simps [of _ c'] take_Suc_conv_app_nth)
qed

lemma inner_ok:
  assumes "tab_inv m" "stack_fits (tm_order m)" "tab_nodes m = as @ node # bs"
  shows "next_inner m node = Some (first_opt (filter tn_tab_stop bs))"
    and "prev_inner m node = Some (last_opt (filter tn_tab_stop as))"
proof -
  let ?t = "tm_order m" and ?cmp = "ord_cmp (node_key node)"
  have t: "wf_tree tab_trait ?t" "stack_fits ?t" and s: "sorted_keys node_key (flatten ?t)"
    using assms by (simp_all add: tab_inv_def)
  obtain c f where c: "cursor_seek tab_key_dim ?cmp Left (cursor_new tab_key_dim ?t) = Some (c, f)"
    "cursor_at tab_trait tab_key_dim ?t c (length as)"
    using tab_keys.cursor_seek_ok [OF t tab_keys.seekable_keys [OF s], of "cursor_new tab_key_dim ?t" "node_key node" Left]
      tab_keys.target_index_key_left [OF s] sorted_keys_around(3) [OF s [unfolded assms(3)]] tab_keys.zero_le_key [of node, unfolded not_less [symmetric]]
    by (auto simp: seek_index_def assms(3))
  obtain c' where c': "cursor_next tab_key_dim c = Some c'" "cursor_at tab_trait tab_key_dim ?t c' (Suc (length as))"
    using tab_keys.cursor_next_at [OF t c(2)] by (auto simp: assms(3))
  show "next_inner m node = Some (first_opt (filter tn_tab_stop bs))"
    using skip_forward [OF t c'(2)] by (auto simp: next_inner_def c(1) c'(1) assms(3))
  show "prev_inner m node = Some (last_opt (filter tn_tab_stop as))"
    using skip_backward [OF t c(2)] by (auto simp: prev_inner_def c(1) assms(3))
qed

text \<open>The handle that a node of the order belongs to.\<close>

definition handle_of :: "'i tab_stop_map \<Rightarrow> tab_stop_node \<Rightarrow> 'i focus_handle" where
  "handle_of m n = the (op_focus_handle (tm_history m ! tn_index n))"

lemma entry_handle:
  assumes "(h, n) \<in> set (tab_entries m)"
  shows "handle_of m n = h" "focus_handle_for_order m n = Some (Some h)"
  using entries_of_in_history [OF assms] by (auto simp: handle_of_def focus_handle_for_order_def get_opt_def)

lemma node_handle:
  "tab_inv m \<Longrightarrow> n \<in> set (tab_nodes m) \<Longrightarrow> focus_handle_for_order m n = Some (Some (handle_of m n))"
  using entry_handle by (fastforce simp: tab_inv_def)

lemma handle_step:
  assumes "tab_inv m" "set_option found \<subseteq> set (tab_nodes m)"
  shows "(case found of None \<Rightarrow> Some None | Some n \<Rightarrow> focus_handle_for_order m n) = Some (map_option (handle_of m) found)"
  using assms node_handle by (cases found) auto

lemma opt_in_set: "set_option (first_opt (filter P xs)) \<subseteq> set xs" "set_option (last_opt (filter P xs)) \<subseteq> set xs"
  by (auto simp: first_opt_def last_opt_def split: list.splits if_splits) 
     (metis filter_is_subset last_in_set subset_iff set_ConsD list.set_intros)+

lemma ends_ok:
  assumes inv: "tab_inv m" "stack_fits (tm_order m)"
  shows "tab_next m None = Some (map_option (handle_of m) (first_opt (filter tn_tab_stop (tab_nodes m))))"
    and "tab_prev m None = Some (map_option (handle_of m) (last_opt (filter tn_tab_stop (tab_nodes m))))"
proof -
  have wf: "wf_tree tab_trait (tm_order m)" using inv by (simp add: tab_inv_def)
  show "tab_next m None = Some (map_option (handle_of m) (first_opt (filter tn_tab_stop (tab_nodes m))))"
  proof (cases "tab_nodes m")
    case (Cons n bs)
    then show ?thesis
      using tab_keys.first_item_ok [OF wf] inner_ok(1) [OF inv, of "[]" n bs] node_handle [OF inv(1), of n]
        handle_step [OF inv(1), of "first_opt (filter tn_tab_stop bs)"] opt_in_set(1) [of tn_tab_stop bs]
      by (auto simp del: first_opt_simps(1)) 
  qed (use tab_keys.first_item_ok [OF wf] in simp)
  show "tab_prev m None = Some (map_option (handle_of m) (last_opt (filter tn_tab_stop (tab_nodes m))))"
  proof (cases "tab_nodes m" rule: rev_cases)
    case (snoc as n)
    then show ?thesis
      using tab_keys.last_item_ok [OF wf] inner_ok(2) [OF inv, of as n "[]"] node_handle [OF inv(1), of n]
        handle_step [OF inv(1), of "last_opt (filter tn_tab_stop as)"] opt_in_set(2) [of tn_tab_stop as]
      by auto
  qed (use tab_keys.last_item_ok [OF wf] in simp)
qed

declare tab_next.simps(1) [simp del] tab_prev.simps(1) [simp del]

text \<open>From a focused node, the order is read cyclically: what follows the node, then what precedes it, then the node.\<close>

lemma focused_ok:
  assumes inv: "tab_inv m" "stack_fits (tm_order m)" and split: "tab_nodes m = as @ node # bs"
    and id: "tab_node_for_focus_id m focused_id = Some node"
  shows "tab_next m (Some focused_id) = Some (map_option (handle_of m) (first_opt (filter tn_tab_stop (bs @ as @ [node]))))"
    and "tab_prev m (Some focused_id) = Some (map_option (handle_of m) (last_opt (filter tn_tab_stop (node # bs @ as))))"
proof -
  note inner = inner_ok [OF inv split] and ends = ends_ok [OF inv]
  have mem: "set_option (first_opt (filter tn_tab_stop bs)) \<subseteq> set (tab_nodes m)"
    "set_option (last_opt (filter tn_tab_stop as)) \<subseteq> set (tab_nodes m)"
    using opt_in_set(1) [of tn_tab_stop bs] opt_in_set(2) [of tn_tab_stop as] by (auto simp: split)
  show "tab_next m (Some focused_id) = Some (map_option (handle_of m) (first_opt (filter tn_tab_stop (bs @ as @ [node]))))"
  proof (cases "first_opt (filter tn_tab_stop bs)")
    case None
    then have "filter tn_tab_stop bs = []" by (simp add: first_opt_def split: list.splits)
    with None show ?thesis by (simp add: id inner(1) ends(1) split filter_append)
  qed (use node_handle [OF inv(1)] mem(1) in \<open>auto simp: id inner(1) first_opt_append_case\<close>)
  show "tab_prev m (Some focused_id) = Some (map_option (handle_of m) (last_opt (filter tn_tab_stop (node # bs @ as))))"
  proof (cases "last_opt (filter tn_tab_stop as)")
    case None
    then have "filter tn_tab_stop as = []" by (simp add: last_opt_def split: if_splits)
    with None show ?thesis by (simp add: id inner(2) ends(2) split)
  next
    case (Some n)
    have "last_opt (filter tn_tab_stop (node # bs @ as)) = Some n"
      using Some by (auto simp: last_opt_def split: if_splits)
    with Some show ?thesis using node_handle [OF inv(1)] mem(2) by (auto simp: id inner(2))
  qed
qed

declare tab_next.simps(2) [simp del] tab_prev.simps(2) [simp del]

section \<open>The order of a history\<close>

definition tab_sequence :: "'i tab_stop_map \<Rightarrow> ('i focus_handle \<times> tab_stop_node) list" where
  "tab_sequence m = sort_key (\<lambda>(_, n). node_key n) (tab_entries m)"

definition stop_handles :: "('i focus_handle \<times> tab_stop_node) list \<Rightarrow> 'i focus_handle list" where
  "stop_handles es = map fst (filter (\<lambda>(h, _). fh_tab_stop h) es)"

lemma stop_handles_simps [simp]:
  "stop_handles [] = []"
  "stop_handles (e # es) = (if fh_tab_stop (fst e) then fst e # stop_handles es else stop_handles es)"
  "stop_handles (es @ es') = stop_handles es @ stop_handles es'"
  by (auto simp: stop_handles_def)

lemma sorted_keys_unique:
  assumes "sorted_keys key xs" "sorted_keys key ys" "set xs = set ys"
  shows "xs = ys"
proof (rule map_inj_on)
  show "map key xs = map key ys"
    using assms by (intro strict_sorted_equal) (simp_all add: sorted_keys_def)
  show "inj_on key (set xs \<union> set ys)"
    using assms by (metis Un_absorb distinct_map sorted_keys_def strict_sorted_iff)
qed

lemma entries_distinct: "distinct (map (\<lambda>(_, n). node_key n) (entries_of p i ops))"
proof (induction p i ops rule: entries_of.induct)
  case (2 p i h ops)
  have "node_key n \<noteq> (p', i)" if "(h', n) \<in> set (entries_of p (Suc i) ops)" for h' n p'
    using entries_of_in_history [OF that] by (auto simp: node_key_def)
  then show ?case using 2 by (fastforce simp: node_key_def)
qed simp_all

lemma tab_nodes_sequence:
  assumes "tab_inv m"
  shows "tab_nodes m = map snd (tab_sequence m)"
proof (rule sorted_keys_unique)
  have "sorted_wrt (<) (map (\<lambda>(_, n). node_key n) (tab_sequence m))"
    using entries_distinct [of "[]" 0 "tm_history m"]
    by (simp add: strict_sorted_iff tab_sequence_def distinct_map)
  then show "sorted_keys node_key (map snd (tab_sequence m))"
    by (simp add: sorted_keys_def split_def comp_def)
qed (use assms in \<open>auto simp: tab_inv_def tab_sequence_def\<close>)

lemma sequence_entry: "e \<in> set (tab_sequence m) \<Longrightarrow> handle_of m (snd e) = fst e \<and> tn_tab_stop (snd e) = fh_tab_stop (fst e)"
  using entry_handle(1) [of "fst e" "snd e" m] entries_of_in_history [of "fst e" "snd e" "[]" 0 "tm_history m"]
  by (simp add: tab_sequence_def)

lemma handles_of_stops:
  "set es \<subseteq> set (tab_sequence m) \<Longrightarrow> map (handle_of m) (filter tn_tab_stop (map snd es)) = stop_handles es"
proof (induction es)
  case (Cons e es)
  then show ?case using sequence_entry [of e m] by auto
qed simp

lemma map_first_opt: "map_option f (first_opt xs) = first_opt (map f xs)" "map_option f (last_opt xs) = last_opt (map f xs)"
  by (cases xs; simp) (simp add: last_opt_def last_map)

lemma tab_moves:
  assumes inv: "tab_inv m" "stack_fits (tm_order m)"
  shows "tab_next m None = Some (first_opt (stop_handles (tab_sequence m)))"
    and "tab_prev m None = Some (last_opt (stop_handles (tab_sequence m)))"
    and "tab_sequence m = as @ (h, n) # bs \<Longrightarrow> map_of (tm_by_id m) (fh_id h) = Some n \<Longrightarrow>
      tab_next m (Some (fh_id h)) = Some (first_opt (stop_handles (bs @ as @ [(h, n)]))) \<and>
      tab_prev m (Some (fh_id h)) = Some (last_opt (stop_handles ((h, n) # bs @ as)))"
proof -
  note nodes = tab_nodes_sequence [OF inv(1)]
  show "tab_next m None = Some (first_opt (stop_handles (tab_sequence m)))" "tab_prev m None = Some (last_opt (stop_handles (tab_sequence m)))"
    using handles_of_stops [of "tab_sequence m" m] by (simp_all add: ends_ok [OF inv] nodes map_first_opt)
  assume seq: "tab_sequence m = as @ (h, n) # bs" and id: "map_of (tm_by_id m) (fh_id h) = Some n"
  have split: "tab_nodes m = map snd as @ n # map snd bs" by (simp add: nodes seq)
  note moves = focused_ok [OF inv split, of "fh_id h"]
  have "map (handle_of m) (filter tn_tab_stop (map snd (bs @ as @ [(h, n)]))) = stop_handles (bs @ as @ [(h, n)])"
    "map (handle_of m) (filter tn_tab_stop (map snd ((h, n) # bs @ as))) = stop_handles ((h, n) # bs @ as)"
    by (rule handles_of_stops; simp add: seq; blast)+
  with moves id show "tab_next m (Some (fh_id h)) = Some (first_opt (stop_handles (bs @ as @ [(h, n)]))) \<and>
      tab_prev m (Some (fh_id h)) = Some (last_opt (stop_handles ((h, n) # bs @ as)))"
    by (simp add: tab_node_for_focus_id_def map_first_opt del: tab_next.simps tab_prev.simps stop_handles_simps)
qed

lemma in_set_sequence: "set (tab_sequence m) = set (tab_entries m)"
  by (simp add: tab_sequence_def)

lemma by_id_unique:
  assumes "tab_inv m" "distinct (map (\<lambda>(h, _). fh_id h) (tab_entries m))" "tab_sequence m = as @ (h, n) # bs"
  shows "map_of (tm_by_id m) (fh_id h) = Some n"
proof -
  have "(h, n) \<in> set (tab_entries m)" using assms(3) by (metis in_set_conv_decomp in_set_sequence)
  then have "(fh_id h, n) \<in> set (rev (map (\<lambda>(h, n). (fh_id h, n)) (tab_entries m)))" by force
  moreover have "distinct (map fst (rev (map (\<lambda>(h, n). (fh_id h, n)) (tab_entries m))))"
    using assms(2) by (simp add: rev_map [symmetric] split_def comp_def)
  ultimately have "map_of (rev (map (\<lambda>(h, n). (fh_id h, n)) (tab_entries m))) (fh_id h) = Some n"
    by (intro map_of_is_SomeI)
  then show ?thesis using assms(1) by (simp add: tab_inv_def)
qed

text \<open>Where the first tab stop behind an element is found.\<close>

lemma first_stop_split:
  "first_opt (stop_handles es) = Some h \<Longrightarrow> \<exists>pre n post. es = pre @ (h, n) # post \<and> stop_handles pre = []"
proof (induction es)
  case (Cons e es)
  show ?case
  proof (cases "fh_tab_stop (fst e)")
    case True
    then have "e # es = [] @ (h, snd e) # es" using Cons.prems by (cases e) simp
    then show ?thesis by (metis stop_handles_simps(1))
  next
    case False
    then obtain pre n post where "es = pre @ (h, n) # post" "stop_handles pre = []" using Cons by auto
    then have "e # es = (e # pre) @ (h, n) # post \<and> stop_handles (e # pre) = []" using False by simp
    then show ?thesis by blast
  qed
qed simp

lemma first_stop_cases:
  assumes "first_opt (stop_handles (bs @ as @ [(h, n)])) = Some h'"
  shows "(\<exists>pre n' post. bs = pre @ (h', n') # post \<and> stop_handles pre = []) \<or>
     (\<exists>pre n' post. stop_handles bs = [] \<and> as = pre @ (h', n') # post \<and> stop_handles pre = []) \<or>
     (stop_handles bs = [] \<and> stop_handles as = [] \<and> h' = h)"
  using assms first_stop_split [of bs h'] first_stop_split [of as h']
  by (cases "stop_handles bs"; cases "stop_handles as") (auto split: if_splits)

section \<open>Properties\<close>

inductive tab_reachable :: "'i tab_stop_map \<Rightarrow> bool" where
  reach_default: "tab_reachable tab_default"
| reach_operation: "tab_reachable m \<Longrightarrow> stack_fits (tm_order m) \<Longrightarrow> tab_operation op m = Some m' \<Longrightarrow> tab_reachable m'"
| reach_clear: "tab_reachable m \<Longrightarrow> tab_reachable (tab_clear m)"

lemma tab_operation_ok:
  assumes "tab_inv m" "stack_fits (tm_order m)"
  shows "\<exists>m'. tab_operation op m = Some m' \<and> tab_inv m' \<and> tm_history m' = tm_history m @ [op]"
  using assms tab_insert_ok groups_ok by (cases op) (auto simp: begin_group_def end_group_def)

lemma tab_clear_default: "tab_clear m = tab_default"
  by (simp add: tab_clear_def tab_default_def)

lemma reachable_inv: "tab_reachable m \<Longrightarrow> tab_inv m"
proof (induction rule: tab_reachable.induct)
  case (reach_operation m op m')
  then show ?case using tab_operation_ok [of m op] by auto
qed (simp_all add: tab_clear_default tab_default_inv)

lemma replay_snoc: "replay (ops @ [op]) m = do { m' \<leftarrow> replay ops m; tab_operation op m' }"
proof (induction ops arbitrary: m)
  case Nil
  show ?case by (cases "tab_operation op m") simp_all
next
  case (Cons a ops)
  then show ?case by (cases "tab_operation a m") simp_all
qed

text \<open>A frame that registers a tab stop and, in a group that comes before it, a tab stop and an element that is none.\<close>

definition sample_operations :: "nat tab_stop_operation list" where
  "sample_operations =
     [InsertHandle \<lparr>fh_id = 1, fh_tab_index = 1, fh_tab_stop = True\<rparr>, Group 0,
      InsertHandle \<lparr>fh_id = 2, fh_tab_index = 5, fh_tab_stop = True\<rparr>,
      InsertHandle \<lparr>fh_id = 3, fh_tab_index = 2, fh_tab_stop = False\<rparr>, GroupEnd]"

definition sample_tabs :: "nat tab_stop_map" where
  "sample_tabs = the (replay sample_operations tab_default)"

lemma sample_replay: "replay sample_operations tab_default = Some sample_tabs"
  by code_simp

lemma sample_fits: "stack_fits (tm_order sample_tabs)"
  by code_simp

lemma reachable_replay:
  "replay ops m = Some m' \<Longrightarrow> tab_reachable m \<Longrightarrow>
   (\<And>i. i < length ops \<Longrightarrow> stack_fits (tm_order (the (replay (take i ops) m)))) \<Longrightarrow> tab_reachable m'"
proof (induction ops arbitrary: m)
  case (Cons op ops)
  then obtain m1 where m1: "tab_operation op m = Some m1" "replay ops m1 = Some m'" by (auto simp: bind_eq_Some_conv)
  have "stack_fits (tm_order m)" using Cons.prems(3) [of 0] by simp
  then have "tab_reachable m1" using m1(1) Cons.prems(2) by (rule reach_operation [rotated])
  moreover have "stack_fits (tm_order (the (replay (take i ops) m1)))" if "i < length ops" for i
    using Cons.prems(3) [of "Suc i"] that m1(1) by simp
  ultimately show ?case using Cons.IH [OF m1(2)] by blast
qed simp

lemma sample_reachable: "tab_reachable sample_tabs"
proof (rule reachable_replay [OF sample_replay reach_default])
  have "list_all (\<lambda>i. stack_fits (tm_order (the (replay (take i sample_operations) tab_default)))) [0..<length sample_operations]"
    by code_simp
  then show "stack_fits (tm_order (the (replay (take i sample_operations) tab_default)))"
    if "i < length sample_operations" for i using that by (auto simp: list_all_iff)
qed

text \<open>
  Claim C31. In every reachable map the order tree holds the registered handles sorted by their path of tab
  indices and then by registration, the open groups and the nodes by identifier are those of the
  history, and the next operation does not panic.
\<close>

theorem tab_order_invariant:
  assumes "tab_reachable m"
  shows "wf_tree tab_trait (tm_order m) \<and> flatten (tm_order m) = map snd (tab_sequence m) \<and>
     tm_current_path m = open_groups [] (tm_history m) \<and>
     map_of (tm_by_id m) = map_of (rev (map (\<lambda>(h, n). (fh_id h, n)) (tab_entries m))) \<and>
     (stack_fits (tm_order m) \<longrightarrow> (\<exists>m'. tab_operation op m = Some m' \<and> tm_history m' = tm_history m @ [op]))"
proof -
  have inv: "tab_inv m" by (rule reachable_inv [OF assms])
  show ?thesis
    using inv [unfolded tab_inv_def] tab_nodes_sequence [OF inv] tab_operation_ok [OF inv, of op] by blast
qed

theorem tab_order_invariant_witness:
  "flatten (tm_order sample_tabs) = map snd (tab_sequence sample_tabs) \<and>
   (\<exists>m'. tab_operation (Group 7) sample_tabs = Some m')"
  using tab_order_invariant [OF sample_reachable, of "Group 7"] sample_fits by blast

text \<open>
  Claim C20. Tab moves through the tab stops cyclically. Without a focused element \<^verbatim>\<open>next\<close> returns the
  first tab stop of the order and \<^verbatim>\<open>prev\<close> the last; from a registered element, a tab stop or not,
  \<^verbatim>\<open>next\<close> returns the first tab stop of the order read from behind the element and around, \<^verbatim>\<open>prev\<close> the last
  of the order read from the element on and around. Neither panics or runs forever.
\<close>

theorem tab_moves_cyclically:
  assumes "tab_reachable m" "stack_fits (tm_order m)"
    and "tab_sequence m = as @ (h, n) # bs" "map_of (tm_by_id m) (fh_id h) = Some n"
  shows "tab_next m None = Some (first_opt (stop_handles (tab_sequence m))) \<and>
     tab_prev m None = Some (last_opt (stop_handles (tab_sequence m))) \<and>
     tab_next m (Some (fh_id h)) = Some (first_opt (stop_handles (bs @ as @ [(h, n)]))) \<and>
     tab_prev m (Some (fh_id h)) = Some (last_opt (stop_handles ((h, n) # bs @ as)))"
  using tab_moves [OF reachable_inv [OF assms(1)] assms(2)] assms(3,4) by blast

theorem tab_moves_cyclically_witness:
  "map_option (map_option fh_id) (tab_next sample_tabs (Some 3)) = Some (Some 2) \<and>
   map_option (map_option fh_id) (tab_prev sample_tabs (Some 3)) = Some (Some 1)"
proof -
  have seq: "tab_sequence sample_tabs = [] @
      (\<lparr>fh_id = 3, fh_tab_index = 2, fh_tab_stop = False\<rparr>, \<lparr>tn_path = [0, 2], tn_index = 3, tn_tab_stop = False\<rparr>) #
      [(\<lparr>fh_id = 2, fh_tab_index = 5, fh_tab_stop = True\<rparr>, \<lparr>tn_path = [0, 5], tn_index = 2, tn_tab_stop = True\<rparr>),
       (\<lparr>fh_id = 1, fh_tab_index = 1, fh_tab_stop = True\<rparr>, \<lparr>tn_path = [1], tn_index = 0, tn_tab_stop = True\<rparr>)]"
    by code_simp
  have id: "map_of (tm_by_id sample_tabs) 3 = Some \<lparr>tn_path = [0, 2], tn_index = 3, tn_tab_stop = False\<rparr>" by code_simp
  show ?thesis using tab_moves_cyclically [OF sample_reachable sample_fits seq] id by (simp add: last_opt_def)
qed

text \<open>
  Where every handle is registered once, \<^verbatim>\<open>prev\<close> undoes \<^verbatim>\<open>next\<close> on every tab stop.
\<close>

theorem prev_undoes_next:
  assumes "tab_reachable m" "stack_fits (tm_order m)" "distinct (map (\<lambda>(h, _). fh_id h) (tab_entries m))"
    and "(h, n) \<in> set (tab_entries m)" "fh_tab_stop h"
  shows "\<exists>h'. tab_next m (Some (fh_id h)) = Some (Some h') \<and> tab_prev m (Some (fh_id h')) = Some (Some h)"
proof -
  have inv: "tab_inv m" by (rule reachable_inv [OF assms(1)])
  have moves: "tab_next m (Some (fh_id h)) = Some (first_opt (stop_handles (bs @ as @ [(h, n)]))) \<and>
      tab_prev m (Some (fh_id h)) = Some (last_opt (stop_handles ((h, n) # bs @ as)))"
    if "tab_sequence m = as @ (h, n) # bs" for as h n bs
    using tab_moves(3) [OF inv assms(2) that] by_id_unique [OF inv assms(3) that] by blast
  obtain as bs where seq: "tab_sequence m = as @ (h, n) # bs"
    using assms(4) by (metis in_set_sequence split_list)
  obtain h' where h': "first_opt (stop_handles (bs @ as @ [(h, n)])) = Some h'"
    using assms(5) by (cases "stop_handles bs"; cases "stop_handles as") auto
  have "tab_next m (Some (fh_id h)) = Some (Some h')" using moves [OF seq] h' by simp
  moreover have "tab_prev m (Some (fh_id h')) = Some (Some h)"
    using first_stop_cases [OF h'] 
  proof (elim disjE exE conjE)
    fix pre n' post assume "bs = pre @ (h', n') # post" "stop_handles pre = []"
    then show ?thesis using moves [of "as @ (h, n) # pre" h' n' post] seq assms(5) by (simp add: last_opt_def)
  next
    fix pre n' post assume "stop_handles bs = []" "as = pre @ (h', n') # post" "stop_handles pre = []"
    then show ?thesis using moves [of pre h' n' "post @ (h, n) # bs"] seq assms(5) by (simp add: last_opt_def)
  next
    assume "stop_handles bs = []" "stop_handles as = []" "h' = h"
    then show ?thesis using moves [OF seq] assms(5) by (simp add: last_opt_def)
  qed
  ultimately show ?thesis by blast
qed

theorem prev_undoes_next_witness:
  "\<exists>h'. tab_next sample_tabs (Some 1) = Some (Some h') \<and>
     tab_prev sample_tabs (Some (fh_id h')) = Some (Some \<lparr>fh_id = 1, fh_tab_index = 1, fh_tab_stop = True\<rparr>)"
proof -
  let ?h = "\<lparr>fh_id = 1 :: nat, fh_tab_index = 1, fh_tab_stop = True\<rparr>" and ?n = "\<lparr>tn_path = [1], tn_index = 0, tn_tab_stop = True\<rparr>"
  have "distinct (map (\<lambda>(h, _). fh_id h) (tab_entries sample_tabs))" by code_simp
  moreover have "(?h, ?n) \<in> set (tab_entries sample_tabs)" by code_simp
  ultimately show ?thesis using prev_undoes_next [OF sample_reachable sample_fits, of ?h ?n] by simp
qed

text \<open>
  Replaying the history of a map on an empty map rebuilds the same map, tree included.
\<close>

theorem replay_rebuilds:
  assumes "tab_reachable m"
  shows "replay (tm_history m) tab_default = Some m"
  using assms
proof (induction rule: tab_reachable.induct)
  case (reach_operation m op m')
  then have "tm_history m' = tm_history m @ [op]" using tab_operation_ok [of m op] reachable_inv by auto
  with reach_operation show ?case by (simp add: replay_snoc)
qed (simp_all add: tab_clear_default tab_default_def)

theorem replay_rebuilds_witness: "replay (tm_history sample_tabs) tab_default = Some sample_tabs"
  using replay_rebuilds [OF sample_reachable] .

end
