(* ===== verification/Subscription.thy ===== *)
theory Subscription
  imports Prelude
begin

text \<open>
  Subscriptions (\<^verbatim>\<open>crates/gpui/src/subscription.rs\<close>): a set of callbacks by emitter, shared between its
  owner and the handles it gives out. The hard part is re-entrance: \<^verbatim>\<open>retain\<close> calls the callbacks
  while the map of the emitter is taken out of the set, and a callback may insert, activate and drop
  subscriptions, of the same emitter too.
\<close>

section \<open>Ordered maps\<close>

text \<open>The operations of \<^verbatim>\<open>BTreeMap\<close> that the set uses, on the list of entries in the order of the keys.\<close>

fun btree_insert :: "nat \<Rightarrow> 'v \<Rightarrow> (nat \<times> 'v) list \<Rightarrow> (nat \<times> 'v) list" where
  "btree_insert k v [] = [(k, v)]"
| "btree_insert k v ((k', v') # es) =
     (if k < k' then (k, v) # (k', v') # es else if k = k' then (k, v) # es else (k', v') # btree_insert k v es)"

definition btree_remove :: "nat \<Rightarrow> (nat \<times> 'v) list \<Rightarrow> (nat \<times> 'v) list" where
  "btree_remove k es = filter (\<lambda>(k', _). k' \<noteq> k) es"

definition btree_extend :: "(nat \<times> 'v) list \<Rightarrow> (nat \<times> 'v) list \<Rightarrow> (nat \<times> 'v) list" where
  "btree_extend es new = fold (\<lambda>(k, v). btree_insert k v) new es"

section \<open>State\<close>

text \<open>
  The flags \<^verbatim>\<open>active\<close> and \<^verbatim>\<open>dropped\<close> of a subscriber are cells that the subscriber shares with its
  handle; they are stored by subscriber identifier. \<open>ss_env\<close> is the rest of the program, which
  callbacks change as they like. An emitter maps to \<open>Some None\<close> while its subscribers are taken.
\<close>

record ('k, 'cb, 'e) subscriber_set =
  ss_subscribers :: "'k \<Rightarrow> (nat \<times> 'cb) list option option"
  ss_next_subscriber_id :: nat
  ss_active :: "nat \<Rightarrow> bool"
  ss_dropped :: "nat \<Rightarrow> bool"
  ss_env :: 'e

record ('k, 'cb, 'e) subscription =
  sub_unsubscribe :: "(('k, 'cb, 'e) subscriber_set \<Rightarrow> ('k, 'cb, 'e) subscriber_set) option"

definition set_new :: "'e \<Rightarrow> ('k, 'cb, 'e) subscriber_set" where
  "set_new e = \<lparr>ss_subscribers = (\<lambda>_. None), ss_next_subscriber_id = 0, ss_active = (\<lambda>_. False), ss_dropped = (\<lambda>_. False), ss_env = e\<rparr>"

text \<open>The subscribers of an emitter that are in the set.\<close>

fun slot_entries :: "(nat \<times> 'cb) list option option \<Rightarrow> (nat \<times> 'cb) list" where
  "slot_entries (Some (Some subscribers)) = subscribers"
| "slot_entries _ = []"

section \<open>Operations of the set\<close>

text \<open>The closure of a subscription made by \<^verbatim>\<open>insert\<close>.\<close>

definition unsubscribe :: "'k \<Rightarrow> nat \<Rightarrow> ('k, 'cb, 'e) subscriber_set \<Rightarrow> ('k, 'cb, 'e) subscriber_set" where
  "unsubscribe emitter_key subscriber_id s =
     (let s = s\<lparr>ss_dropped := (ss_dropped s)(subscriber_id := True)\<rparr>
      in case ss_subscribers s emitter_key of
           None \<Rightarrow> s
         | Some None \<Rightarrow> s
         | Some (Some subscribers) \<Rightarrow>
             (let subscribers = btree_remove subscriber_id subscribers
              in if subscribers = [] then s\<lparr>ss_subscribers := (ss_subscribers s)(emitter_key := None)\<rparr>
                 else s\<lparr>ss_subscribers := (ss_subscribers s)(emitter_key := Some (Some subscribers))\<rparr>))"

definition activate :: "nat \<Rightarrow> ('k, 'cb, 'e) subscriber_set \<Rightarrow> ('k, 'cb, 'e) subscriber_set" where
  "activate subscriber_id s = s\<lparr>ss_active := (ss_active s)(subscriber_id := True)\<rparr>"

definition set_insert_subscriber ::
    "'k \<Rightarrow> 'cb \<Rightarrow> ('k, 'cb, 'e) subscriber_set
      \<Rightarrow> ('k, 'cb, 'e) subscriber_set \<times> ('k, 'cb, 'e) subscription \<times> (('k, 'cb, 'e) subscriber_set \<Rightarrow> ('k, 'cb, 'e) subscriber_set)" where
  "set_insert_subscriber emitter_key callback s =
     (let subscriber_id = ss_next_subscriber_id s;
          subscribers = slot_entries (ss_subscribers s emitter_key);
          s = s\<lparr>ss_next_subscriber_id := subscriber_id + 1,
                ss_active := (ss_active s)(subscriber_id := False), ss_dropped := (ss_dropped s)(subscriber_id := False),
                ss_subscribers := (ss_subscribers s)
                  (emitter_key := Some (Some (btree_insert subscriber_id callback subscribers)))\<rparr>
      in (s, \<lparr>sub_unsubscribe = Some (unsubscribe emitter_key subscriber_id)\<rparr>, activate subscriber_id))"

text \<open>\<^verbatim>\<open>remove\<close> takes the subscribers out; the iterator it returns looks at the flags when it is asked.\<close>

definition set_remove_emitter ::
    "'k \<Rightarrow> ('k, 'cb, 'e) subscriber_set \<Rightarrow> ('k, 'cb, 'e) subscriber_set \<times> (nat \<times> 'cb) list" where
  "set_remove_emitter emitter s =
     (s\<lparr>ss_subscribers := (ss_subscribers s)(emitter := None)\<rparr>,
      slot_entries (ss_subscribers s emitter))"

fun removed_next :: "('k, 'cb, 'e) subscriber_set \<Rightarrow> (nat \<times> 'cb) list \<Rightarrow> ('cb \<times> (nat \<times> 'cb) list) option" where
  "removed_next s [] = None"
| "removed_next s ((subscriber_id, callback) # rest) =
     (if ss_active s subscriber_id then Some (callback, rest) else removed_next s rest)"

text \<open>\<^verbatim>\<open>BTreeMap::retain\<close> with the closure of \<^verbatim>\<open>retain\<close>: \<open>f\<close> changes the callback and the state and says whether to keep.\<close>

type_synonym ('k, 'cb, 'e) invoke = "'cb \<Rightarrow> ('k, 'cb, 'e) subscriber_set \<Rightarrow> 'cb \<times> bool \<times> ('k, 'cb, 'e) subscriber_set"

fun retain_subscribers ::
    "('k, 'cb, 'e) invoke \<Rightarrow> (nat \<times> 'cb) list \<Rightarrow> ('k, 'cb, 'e) subscriber_set
      \<Rightarrow> (nat \<times> 'cb) list \<times> ('k, 'cb, 'e) subscriber_set" where
  "retain_subscribers f [] s = ([], s)"
| "retain_subscribers f ((subscriber_id, callback) # rest) s =
     (if \<not> ss_active s subscriber_id then
        (let (kept, s') = retain_subscribers f rest s in ((subscriber_id, callback) # kept, s'))
      else if ss_dropped s subscriber_id then retain_subscribers f rest s
      else
        (let (callback, keep, s) = f callback s;
             retained = keep \<and> \<not> ss_dropped s subscriber_id;
             (kept, s') = retain_subscribers f rest s
         in (if retained then (subscriber_id, callback) # kept else kept, s')))"

definition set_retain ::
    "'k \<Rightarrow> ('k, 'cb, 'e) invoke \<Rightarrow> ('k, 'cb, 'e) subscriber_set \<Rightarrow> ('k, 'cb, 'e) subscriber_set" where
  "set_retain emitter f s =
     (case ss_subscribers s emitter of
        None \<Rightarrow> s
      | Some None \<Rightarrow> s
      | Some (Some subscribers) \<Rightarrow>
          (let (subscribers, s) = retain_subscribers f subscribers
                 (s\<lparr>ss_subscribers := (ss_subscribers s)(emitter := Some None)\<rparr>);
               new = ss_subscribers s emitter;
               s = s\<lparr>ss_subscribers := (ss_subscribers s)(emitter := None)\<rparr>;
               subscribers = (case new of Some (Some new_subscribers) \<Rightarrow> btree_extend subscribers new_subscribers | _ \<Rightarrow> subscribers)
           in if subscribers \<noteq> [] then s\<lparr>ss_subscribers := (ss_subscribers s)(emitter := Some (Some subscribers))\<rparr> else s))"

section \<open>Operations of a handle\<close>

definition subscription_new ::
    "(('k, 'cb, 'e) subscriber_set \<Rightarrow> ('k, 'cb, 'e) subscriber_set) \<Rightarrow> ('k, 'cb, 'e) subscription" where
  "subscription_new f = \<lparr>sub_unsubscribe = Some f\<rparr>"

definition drop_subscription ::
    "('k, 'cb, 'e) subscription \<Rightarrow> ('k, 'cb, 'e) subscriber_set \<Rightarrow> ('k, 'cb, 'e) subscriber_set" where
  "drop_subscription h s = (case sub_unsubscribe h of Some f \<Rightarrow> f s | None \<Rightarrow> s)"

text \<open>\<^verbatim>\<open>detach\<close> takes the closure and lets the emptied handle go out of scope.\<close>

definition detach_subscription ::
    "('k, 'cb, 'e) subscription \<Rightarrow> ('k, 'cb, 'e) subscriber_set \<Rightarrow> ('k, 'cb, 'e) subscriber_set" where
  "detach_subscription h s = drop_subscription (h\<lparr>sub_unsubscribe := None\<rparr>) s"

definition join_subscriptions ::
    "('k, 'cb, 'e) subscription \<Rightarrow> ('k, 'cb, 'e) subscription \<Rightarrow> ('k, 'cb, 'e) subscription" where
  "join_subscriptions a b =
     \<lparr>sub_unsubscribe = Some (\<lambda>s.
        (let s = (case sub_unsubscribe a of Some f \<Rightarrow> f s | None \<Rightarrow> s)
         in (case sub_unsubscribe b of Some f \<Rightarrow> f s | None \<Rightarrow> s)))\<rparr>"

section \<open>Invariant and evolution\<close>

definition slot_ids :: "(nat \<times> 'cb) list option option \<Rightarrow> nat set" where
  "slot_ids slot = fst ` set (slot_entries slot)"

lemma slot_ids_simps [simp]:
  "slot_ids None = {}" "slot_ids (Some None) = {}" "slot_ids (Some (Some es)) = fst ` set es"
  by (simp_all add: slot_ids_def)

text \<open>A slot is never empty; its subscribers are in the order of their identifiers, which are below \<open>n\<close>.\<close>

definition slot_ok :: "nat \<Rightarrow> (nat \<times> 'cb) list option option \<Rightarrow> bool" where
  "slot_ok n slot \<longleftrightarrow> slot \<noteq> Some (Some []) \<and> sorted_wrt (<) (map fst (slot_entries slot)) \<and> slot_ids slot \<subseteq> {..<n}"

lemma slot_ok_simps [simp]:
  "slot_ok n None" "slot_ok n (Some None)"
  "slot_ok n (Some (Some es)) \<longleftrightarrow> es \<noteq> [] \<and> sorted_wrt (<) (map fst es) \<and> fst ` set es \<subseteq> {..<n}"
  by (auto simp: slot_ok_def)

definition sub_inv :: "('k, 'cb, 'e) subscriber_set \<Rightarrow> bool" where
  "sub_inv s \<longleftrightarrow>
     (\<forall>k. slot_ok (ss_next_subscriber_id s) (ss_subscribers s k)) \<and>
     (\<forall>i \<ge> ss_next_subscriber_id s. \<not> ss_active s i \<and> \<not> ss_dropped s i)"

lemma inv_slot: "sub_inv s \<Longrightarrow> slot_ok (ss_next_subscriber_id s) (ss_subscribers s k)"
  by (simp add: sub_inv_def)

text \<open>What any use of the set keeps: identifiers are not reused, flags are not reset, no old subscriber appears.\<close>

definition evolves :: "('k, 'cb, 'e) subscriber_set \<Rightarrow> ('k, 'cb, 'e) subscriber_set \<Rightarrow> bool" where
  "evolves s s' \<longleftrightarrow>
     ss_next_subscriber_id s \<le> ss_next_subscriber_id s' \<and>
     (\<forall>i. ss_active s i \<longrightarrow> ss_active s' i) \<and> (\<forall>i. ss_dropped s i \<longrightarrow> ss_dropped s' i) \<and>
     (\<forall>k. slot_ids (ss_subscribers s' k) \<inter> {..<ss_next_subscriber_id s} \<subseteq> slot_ids (ss_subscribers s k))"

lemma evolves_refl [simp]: "evolves s s"
  by (simp add: evolves_def)

lemma evolves_trans [trans]:
  assumes "evolves s s'" "evolves s' s''"
  shows "evolves s s''"
proof -
  have "slot_ids (ss_subscribers s'' k) \<inter> {..<ss_next_subscriber_id s} \<subseteq> slot_ids (ss_subscribers s k)" for k
    using assms by (fastforce simp: evolves_def)
  with assms show ?thesis by (simp add: evolves_def)
qed

lemma btree_insert_last: "(\<forall>k' \<in> fst ` set es. k' < k) \<Longrightarrow> btree_insert k v es = es @ [(k, v)]"
  by (induction es) auto

lemma btree_extend_append:
  "sorted_wrt (<) (map fst (es @ new)) \<Longrightarrow> btree_extend es new = es @ new"
proof (induction new arbitrary: es)
  case (Cons e new)
  have "btree_insert (fst e) (snd e) es = es @ [e]"
    using Cons.prems by (subst btree_insert_last) (auto simp: sorted_wrt_append)
  then show ?case using Cons.IH [of "es @ [e]"] Cons.prems by (simp add: btree_extend_def case_prod_beta)
qed (simp add: btree_extend_def)

lemma btree_remove_sorted: "sorted_wrt (<) (map fst es) \<Longrightarrow> sorted_wrt (<) (map fst (btree_remove k es))"
  by (induction es) (auto simp: btree_remove_def)

lemma slot_ok_mono: "slot_ok n slot \<Longrightarrow> n \<le> n' \<Longrightarrow> slot_ok n' slot"
  by (auto simp: slot_ok_def)

lemma btree_remove_slot:
  assumes "slot_ok n (Some (Some es))" "btree_remove i es \<noteq> []"
  shows "slot_ok n (Some (Some (btree_remove i es)))"
  using assms btree_remove_sorted [of es i] by (auto simp: btree_remove_def)

lemma unsubscribe_ok:
  assumes "sub_inv s" "i < ss_next_subscriber_id s"
  shows "sub_inv (unsubscribe k i s)" "evolves s (unsubscribe k i s)"
proof -
  note slots = inv_slot [OF assms(1)]
  have "slot_ok (ss_next_subscriber_id s) (ss_subscribers (unsubscribe k i s) k')" for k'
    using slots [of k'] slots [of k] btree_remove_slot [of "ss_next_subscriber_id s" _ i]
    by (cases "ss_subscribers s k" rule: slot_entries.cases)
      (auto simp: unsubscribe_def Let_def simp del: slot_ok_simps(3))
  moreover have "ss_next_subscriber_id (unsubscribe k i s) = ss_next_subscriber_id s"
    "ss_active (unsubscribe k i s) = ss_active s" "ss_dropped (unsubscribe k i s) = (ss_dropped s)(i := True)"
    by (auto simp: unsubscribe_def Let_def split: option.split)
  ultimately show "sub_inv (unsubscribe k i s)" using assms by (simp add: sub_inv_def)
  show "evolves s (unsubscribe k i s)"
    by (auto simp: evolves_def unsubscribe_def Let_def btree_remove_def split: option.split)
qed

lemma activate_ok:
  assumes "sub_inv s" "i < ss_next_subscriber_id s"
  shows "sub_inv (activate i s)" "evolves s (activate i s)"
  using assms by (auto simp: activate_def sub_inv_def evolves_def)

lemma set_insert_ok:
  assumes "sub_inv s" "set_insert_subscriber k cb s = (s', h, act)"
  shows "sub_inv s'" "evolves s s'"
proof -
  let ?n = "ss_next_subscriber_id s" and ?es = "slot_entries (ss_subscribers s k)"
  note slots = inv_slot [OF assms(1)]
  have es: "sorted_wrt (<) (map fst ?es)" "fst ` set ?es \<subseteq> {..<?n}"
    using slots [of k] by (simp_all add: slot_ok_def slot_ids_def)
  have ins: "btree_insert ?n cb ?es = ?es @ [(?n, cb)]" by (rule btree_insert_last) (use es(2) in auto)
  have s': "s' = s\<lparr>ss_next_subscriber_id := ?n + 1, ss_active := (ss_active s)(?n := False), ss_dropped := (ss_dropped s)(?n := False),
      ss_subscribers := (ss_subscribers s)(k := Some (Some (?es @ [(?n, cb)])))\<rparr>"
    using assms(2) by (simp add: set_insert_subscriber_def Let_def ins)
  have "slot_ok (?n + 1) (Some (Some (?es @ [(?n, cb)])))" using es by (auto simp: sorted_wrt_append)
  then show "sub_inv s'" using assms(1) slot_ok_mono [OF slots] by (auto simp: sub_inv_def s' simp del: slot_ok_simps(3))
  show "evolves s s'" using assms(1) by (auto simp: evolves_def s' sub_inv_def slot_ids_def)
qed

lemma set_remove_ok:
  assumes "sub_inv s" "set_remove_emitter k s = (s', es)"
  shows "sub_inv s'" "evolves s s'"
  using assms by (auto simp: set_remove_emitter_def sub_inv_def evolves_def split: if_splits)

text \<open>
  Executions. A run is a sequence of operations of the set and of changes to the rest of the
  program; in a pass of \<^verbatim>\<open>retain\<close> every call of \<open>f\<close> is itself a run, from any state that the
  state at the start of the pass can have evolved to. Only identifiers that were given out are
  activated or dropped.
\<close>

inductive sub_run :: "('k, 'cb, 'e) subscriber_set \<Rightarrow> ('k, 'cb, 'e) subscriber_set \<Rightarrow> bool" where
  run_refl: "sub_run s s"
| run_trans: "sub_run s s' \<Longrightarrow> sub_run s' s'' \<Longrightarrow> sub_run s s''"
| run_env: "sub_run s (s\<lparr>ss_env := e\<rparr>)"
| run_insert: "set_insert_subscriber k cb s = (s', h, act) \<Longrightarrow> sub_run s s'"
| run_activate: "i < ss_next_subscriber_id s \<Longrightarrow> sub_run s (activate i s)"
| run_unsubscribe: "i < ss_next_subscriber_id s \<Longrightarrow> sub_run s (unsubscribe k i s)"
| run_remove: "set_remove_emitter k s = (s', es) \<Longrightarrow> sub_run s s'"
| run_retain: "(\<And>cb s'. sub_inv s' \<Longrightarrow> evolves s s' \<Longrightarrow> sub_run s' (snd (snd (f cb s')))) \<Longrightarrow> sub_run s (set_retain k f s)"

lemma take_out_ok:
  assumes "sub_inv s"
  shows "sub_inv (s\<lparr>ss_subscribers := (ss_subscribers s)(k := Some None)\<rparr>)"
    "evolves s (s\<lparr>ss_subscribers := (ss_subscribers s)(k := Some None)\<rparr>)"
  using assms by (auto simp: sub_inv_def evolves_def)

text \<open>The entries a pass keeps: some of the old identifiers, in the same order.\<close>

definition thins :: "(nat \<times> 'cb) list \<Rightarrow> (nat \<times> 'cb) list \<Rightarrow> bool" where
  "thins es kept \<longleftrightarrow> fst ` set kept \<subseteq> fst ` set es \<and> (sorted_wrt (<) (map fst es) \<longrightarrow> sorted_wrt (<) (map fst kept))"

lemma thins_Nil [simp]: "thins [] []"
  by (simp add: thins_def)

lemma thins_skip: "thins es kept \<Longrightarrow> thins (e # es) kept"
  unfolding thins_def by auto

lemma thins_keep:
  assumes "thins es kept" "fst e' = fst e"
  shows "thins (e # es) (e' # kept)"
proof -
  have "\<forall>i \<in> fst ` set kept. fst e < i" if "\<forall>i \<in> fst ` set es. fst e < i"
    using that assms(1) unfolding thins_def by blast
  with assms show ?thesis unfolding thins_def by auto
qed

lemma retain_subscribers_ok:
  assumes "\<And>cb s'. sub_inv s' \<Longrightarrow> evolves s0 s' \<Longrightarrow> sub_inv (snd (snd (f cb s'))) \<and> evolves s' (snd (snd (f cb s')))"
    and "sub_inv s" "evolves s0 s" "retain_subscribers f es s = (kept, s')"
  shows "sub_inv s' \<and> evolves s s' \<and> thins es kept"
  using assms(2-)
proof (induction es arbitrary: s kept s')
  case (Cons e rest)
  obtain i cb where e: "e = (i, cb)" by fastforce
  obtain cb1 keep s1 where f: "f cb s = (cb1, keep, s1)" by (metis prod.exhaust)
  have s1: "sub_inv s1" "evolves s s1" using assms(1) [OF Cons.prems(1,2), of cb] f by simp_all
  obtain kept0 s2 where skip: "retain_subscribers f rest s = (kept0, s2)" by fastforce
  obtain kept1 s3 where call: "retain_subscribers f rest s1 = (kept1, s3)" by fastforce
  have 2: "sub_inv s2 \<and> evolves s s2 \<and> thins rest kept0" by (rule Cons.IH [OF Cons.prems(1,2) skip])
  have 3: "sub_inv s3 \<and> evolves s1 s3 \<and> thins rest kept1"
    by (rule Cons.IH [OF s1(1) evolves_trans [OF Cons.prems(2) s1(2)] call])
  consider "\<not> ss_active s i" | "ss_active s i" "ss_dropped s i" | "ss_active s i" "\<not> ss_dropped s i" by blast
  then show ?case
  proof cases
    case 3
    then show ?thesis using \<open>sub_inv s3 \<and> _\<close> Cons.prems(3) evolves_trans [OF s1(2)]
      by (auto simp: e f call Let_def thins_skip thins_keep split: if_splits)
  qed (use 2 Cons.prems(3) in \<open>auto simp: e skip thins_skip thins_keep\<close>)
qed simp

text \<open>A pass: the subscribers it keeps, in their order, followed by those that were added in its course.\<close>

lemma set_retain_pass:
  assumes f: "\<And>cb s'. sub_inv s' \<Longrightarrow> evolves s s' \<Longrightarrow> sub_inv (snd (snd (f cb s'))) \<and> evolves s' (snd (snd (f cb s')))"
    and s: "sub_inv s" "ss_subscribers s k = Some (Some es)"
    and loop: "retain_subscribers f es (s\<lparr>ss_subscribers := (ss_subscribers s)(k := Some None)\<rparr>) = (kept, s1)"
  shows "sub_inv s1" "evolves s s1"
    and "set_retain k f s = s1\<lparr>ss_subscribers := (ss_subscribers s1)(k :=
      (let all = kept @ slot_entries (ss_subscribers s1 k) in if all = [] then None else Some (Some all)))\<rparr>"
    and "slot_ok (ss_next_subscriber_id s1) (Some (Some (kept @ slot_entries (ss_subscribers s1 k)))) \<or>
      kept @ slot_entries (ss_subscribers s1 k) = []"
    and "fst ` set kept \<subseteq> fst ` set es" "slot_ids (ss_subscribers s1 k) \<inter> {..<ss_next_subscriber_id s} = {}"
proof -
  let ?s0 = "s\<lparr>ss_subscribers := (ss_subscribers s)(k := Some None)\<rparr>" and ?new = "slot_entries (ss_subscribers s1 k)"
  note t = take_out_ok [OF s(1), of k]
  have r: "sub_inv s1 \<and> evolves ?s0 s1 \<and> thins es kept"
    by (rule retain_subscribers_ok [OF f t loop]) 
  then show inv: "sub_inv s1" and "evolves s s1" using evolves_trans [OF t(2)] by blast+
  have es: "sorted_wrt (<) (map fst es)" "fst ` set es \<subseteq> {..<ss_next_subscriber_id s}"
    using inv_slot [OF s(1), of k] by (simp_all add: s(2))
  show sub: "fst ` set kept \<subseteq> fst ` set es" using r by (simp add: thins_def)
  show new: "slot_ids (ss_subscribers s1 k) \<inter> {..<ss_next_subscriber_id s} = {}"
  proof -
    have "slot_ids (ss_subscribers s1 k) \<inter> {..<ss_next_subscriber_id ?s0} \<subseteq> slot_ids (ss_subscribers ?s0 k)"
      using r unfolding evolves_def by blast
    then show ?thesis by simp
  qed
  have "slot_ok (ss_next_subscriber_id s1) (ss_subscribers s1 k)" by (rule inv_slot [OF inv])
  then have sn: "sorted_wrt (<) (map fst ?new)" "fst ` set ?new \<subseteq> {..<ss_next_subscriber_id s1}"
    by (simp_all add: slot_ok_def slot_ids_def)
  have "a < b" if "a \<in> fst ` set kept" "b \<in> fst ` set ?new" for a b
  proof -
    have "a < ss_next_subscriber_id s" "b \<notin> {..<ss_next_subscriber_id s}" using that sub es(2) new by (auto simp: slot_ids_def)
    then show ?thesis by simp
  qed
  then have sorted: "sorted_wrt (<) (map fst (kept @ ?new))"
    using r es(1) sn(1) by (simp add: sorted_wrt_append thins_def)
  show "slot_ok (ss_next_subscriber_id s1) (Some (Some (kept @ ?new))) \<or> kept @ ?new = []"
  proof -
    have "ss_next_subscriber_id s \<le> ss_next_subscriber_id s1" using r by (simp add: evolves_def)
    then have "fst ` set (kept @ ?new) \<subseteq> {..<ss_next_subscriber_id s1}" using sub es(2) sn(2) by fastforce
    with sorted show ?thesis by simp
  qed
  show "set_retain k f s = s1\<lparr>ss_subscribers := (ss_subscribers s1)(k :=
      (let all = kept @ ?new in if all = [] then None else Some (Some all)))\<rparr>"
    using btree_extend_append [OF sorted]
    by (cases "ss_subscribers s1 k" rule: slot_entries.cases) (auto simp: set_retain_def s(2) loop Let_def)
qed

lemma set_retain_ok:
  assumes f: "\<And>cb s'. sub_inv s' \<Longrightarrow> evolves s s' \<Longrightarrow> sub_inv (snd (snd (f cb s'))) \<and> evolves s' (snd (snd (f cb s')))"
    and s: "sub_inv s"
  shows "sub_inv (set_retain k f s) \<and> evolves s (set_retain k f s)"
proof (cases "ss_subscribers s k" rule: slot_entries.cases)
  case (1 es)
  obtain kept s1 where loop: "retain_subscribers f es (s\<lparr>ss_subscribers := (ss_subscribers s)(k := Some None)\<rparr>) = (kept, s1)"
    by fastforce
  note pass = set_retain_pass [OF f s 1 loop]
  show ?thesis
    using pass by (auto simp: sub_inv_def evolves_def Let_def 1 slot_ids_def simp del: slot_ok_simps(3))
qed (use s in \<open>simp_all add: set_retain_def\<close>)

lemma env_ok: "sub_inv (s\<lparr>ss_env := e\<rparr>) = sub_inv s" "evolves s (s\<lparr>ss_env := e\<rparr>)"
  by (simp_all add: sub_inv_def evolves_def)

lemma sub_run_ok: "sub_run s s' \<Longrightarrow> sub_inv s \<Longrightarrow> sub_inv s' \<and> evolves s s'"
proof (induction rule: sub_run.induct)
  case (run_retain s f k)
  show ?case by (rule set_retain_ok [OF _ run_retain.prems]) (use run_retain.IH in blast)
qed (auto simp: env_ok intro: evolves_trans dest: set_insert_ok activate_ok unsubscribe_ok set_remove_ok)

text \<open>Passes compose, and depend only on the callbacks they may call.\<close>

lemma retain_subscribers_append:
  "retain_subscribers f (xs @ ys) s =
     (let (kept, s') = retain_subscribers f xs s; (kept', s'') = retain_subscribers f ys s' in (kept @ kept', s''))"
proof (induction xs arbitrary: s)
  case (Cons x xs)
  then show ?case by (cases x) (auto simp: Let_def split: prod.split)
qed (simp split: prod.split)

lemma retain_subscribers_cong:
  assumes "callback \<notin> snd ` set es" "\<And>cb. cb \<noteq> callback \<Longrightarrow> g cb = f cb"
  shows "retain_subscribers g es s = retain_subscribers f es s"
  using assms(1)
proof (induction es arbitrary: s)
  case (Cons e es)
  then show ?case using assms(2) by (cases e) (auto simp: Let_def split: prod.split)
qed simp

section \<open>Properties\<close>

text \<open>Callbacks that use the set through its operations, whatever the state they are called in.\<close>

definition well_behaved :: "('k, 'cb, 'e) subscriber_set \<Rightarrow> ('k, 'cb, 'e) invoke \<Rightarrow> bool" where
  "well_behaved s f \<longleftrightarrow> (\<forall>cb s'. sub_inv s' \<longrightarrow> evolves s s' \<longrightarrow> sub_run s' (snd (snd (f cb s'))))"

lemma well_behaved_ok:
  "well_behaved s f \<Longrightarrow> sub_inv s' \<Longrightarrow> evolves s s' \<Longrightarrow> sub_inv (snd (snd (f cb s'))) \<and> evolves s' (snd (snd (f cb s')))"
  using sub_run_ok by (auto simp: well_behaved_def)

lemma set_new_inv: "sub_inv (set_new e)"
  by (simp add: sub_inv_def set_new_def)

lemma run_inv: "sub_run (set_new e) s \<Longrightarrow> sub_inv s"
  by (rule sub_run_ok [OF _ set_new_inv, THEN conjunct1])

abbreviation taken :: "'k \<Rightarrow> ('k, 'cb, 'e) subscriber_set \<Rightarrow> ('k, 'cb, 'e) subscriber_set" where
  "taken k s \<equiv> s\<lparr>ss_subscribers := (ss_subscribers s)(k := Some None)\<rparr>"

text \<open>A set with two active subscribers of the emitter 0.\<close>

definition sample_set :: "(nat, nat, nat list) subscriber_set" where
  "sample_set = activate 1 (activate 0 (fst (set_insert_subscriber 0 11 (fst (set_insert_subscriber 0 10 (set_new []))))))"

lemma sample_set_run: "sub_run (set_new []) sample_set"
proof -
  obtain s1 h1 a1 where 1: "set_insert_subscriber (0::nat) (10::nat) (set_new [] :: (nat, nat, nat list) subscriber_set) = (s1, h1, a1)"
    by (metis prod.exhaust)
  obtain s2 h2 a2 where 2: "set_insert_subscriber 0 11 s1 = (s2, h2, a2)" by (metis prod.exhaust)
  have "ss_next_subscriber_id s2 = 2"
    using 1 2 by (auto simp: set_insert_subscriber_def set_new_def Let_def)
  then have "sub_run s2 (activate 1 (activate 0 s2))"
    by (intro run_trans [OF run_activate [of 0] run_activate [of 1]]) (simp_all add: activate_def)
  then show ?thesis
    using run_trans [OF run_insert [OF 1] run_insert [OF 2]] run_trans by (fastforce simp: sample_set_def 1 2)
qed

lemma sample_set_slot: "ss_subscribers sample_set 0 = Some (Some [(0, 10), (1, 11)])"
  by (simp add: sample_set_def activate_def set_insert_subscriber_def set_new_def Let_def)

lemma sample_set_flags: "ss_active sample_set 0" "ss_active sample_set 1" "\<not> ss_dropped sample_set 0" "\<not> ss_dropped sample_set 1"
  by (simp_all add: sample_set_def activate_def set_insert_subscriber_def set_new_def Let_def)

text \<open>
  Claim C30. Every use of a subscriber set, re-entrant calls in the callbacks of \<^verbatim>\<open>retain\<close> included,
  keeps its invariant (no empty slot, subscribers in the order of their identifiers, all identifiers
  and flags below the counter) and never reuses an identifier, resets a flag or brings a
  subscriber back that was gone.
\<close>

theorem subscription_invariant:
  assumes "sub_run (set_new e) s" "sub_run s s'"
  shows "sub_inv s' \<and> evolves s s'"
  using sub_run_ok [OF assms(2) run_inv [OF assms(1)]] .

theorem subscription_invariant_witness: "sub_inv sample_set \<and> evolves (set_new []) sample_set"
  using subscription_invariant [OF run_refl sample_set_run] .

text \<open>
  After a pass the slot of the emitter holds the subscribers the pass kept, in their order,
  followed by those inserted in its course, which are all new: a pass neither loses nor calls
  subscribers that its own callbacks add.
\<close>

theorem retain_merges_new_subscribers:
  assumes "sub_run (set_new e) s" "well_behaved s f" "ss_subscribers s k = Some (Some es)"
    and "retain_subscribers f es (taken k s) = (kept, s1)"
  shows "slot_entries (ss_subscribers (set_retain k f s) k) = kept @ slot_entries (ss_subscribers s1 k) \<and>
     fst ` set kept \<subseteq> fst ` set es \<and>
     (\<forall>(i, cb) \<in> set (slot_entries (ss_subscribers s1 k)). ss_next_subscriber_id s \<le> i)"
proof -
  note pass = set_retain_pass [OF well_behaved_ok [OF assms(2)] run_inv [OF assms(1)] assms(3,4)]
  have "\<forall>(i, cb) \<in> set (slot_entries (ss_subscribers s1 k)). ss_next_subscriber_id s \<le> i"
    using pass(6) by (force simp: slot_ids_def)
  then show ?thesis using pass(3,5) by (simp add: Let_def)
qed

text \<open>The first callback drops its own subscription and inserts another, the second one does nothing.\<close>

definition sample_calls :: "(nat, nat, nat list) invoke" where
  "sample_calls cb s =
     (if cb = 10 \<and> 0 < ss_next_subscriber_id s then (cb, True, unsubscribe 0 0 (fst (set_insert_subscriber 0 12 s))) else (cb, True, s))"

lemma sample_calls_ok: "well_behaved s sample_calls"
  unfolding well_behaved_def
proof (intro allI impI)
  fix cb and s' :: "(nat, nat, nat list) subscriber_set"
  obtain s2 h act where 1: "set_insert_subscriber 0 12 s' = (s2, h, act)" by (metis prod.exhaust)
  have "0 < ss_next_subscriber_id s2" using 1 by (auto simp: set_insert_subscriber_def Let_def)
  then have "sub_run s' (unsubscribe 0 0 s2)" using run_trans [OF run_insert [OF 1] run_unsubscribe] by blast
  then show "sub_run s' (snd (snd (sample_calls cb s')))" by (simp add: sample_calls_def 1 run_refl)
qed

theorem retain_merges_new_subscribers_witness:
  "slot_entries (ss_subscribers (set_retain 0 sample_calls sample_set) 0) = [(1, 11), (2, 12)]"
proof -
  obtain kept s1 where loop: "retain_subscribers sample_calls [(0, 10), (1, 11)] (taken 0 sample_set) = (kept, s1)" by fastforce
  then have "kept = [(1, 11)]" "slot_entries (ss_subscribers s1 0) = [(2, 12)]"
    by (auto simp: sample_calls_def sample_set_def activate_def set_insert_subscriber_def set_new_def unsubscribe_def
        btree_remove_def Let_def split: if_splits)
  then show ?thesis
    using retain_merges_new_subscribers [OF sample_set_run sample_calls_ok sample_set_slot loop] by simp
qed

text \<open>
  Claim C21. A subscriber whose handle was dropped, before the pass or by a callback that the pass
  called earlier, is not called: the result of the pass is the same whatever its callback would do, and an
  active subscriber is gone afterwards.
\<close>

theorem dropped_subscriber_is_not_called:
  assumes "sub_run (set_new e) s" "well_behaved s f"
    and "ss_subscribers s k = Some (Some (pre @ (i, callback) # post))" "callback \<notin> snd ` set (pre @ post)"
    and "retain_subscribers f pre (taken k s) = (kept, s1)" "ss_dropped s1 i"
    and "\<And>cb. cb \<noteq> callback \<Longrightarrow> g cb = f cb"
  shows "set_retain k g s = set_retain k f s \<and> (ss_active s1 i \<longrightarrow> i \<notin> slot_ids (ss_subscribers (set_retain k f s) k))"
proof -
  let ?es = "pre @ (i, callback) # post"
  obtain kept' s2 where post: "retain_subscribers f post s1 = (kept', s2)" by fastforce
  have loop: "retain_subscribers f ?es (taken k s) = (kept @ (if ss_active s1 i then [] else [(i, callback)]) @ kept', s2)"
    using assms(6) by (simp add: retain_subscribers_append assms(5) post)
  have "retain_subscribers g pre t = retain_subscribers f pre t" "retain_subscribers g post t = retain_subscribers f post t" for t
    using assms(4) by (auto intro!: retain_subscribers_cong [of callback] assms(7))
  then have "retain_subscribers g ?es (taken k s) = retain_subscribers f ?es (taken k s)"
    using assms(5,6) by (simp add: retain_subscribers_append post)
  then have "set_retain k g s = set_retain k f s" by (simp add: set_retain_def assms(3))
  moreover have "i \<notin> slot_ids (ss_subscribers (set_retain k f s) k)" if act: "ss_active s1 i"
  proof -
    note inv = run_inv [OF assms(1)] and ok = well_behaved_ok [OF assms(2)]
    note pass = set_retain_pass [OF ok inv assms(3) loop]
    have es: "sorted_wrt (<) (map fst ?es)" "i < ss_next_subscriber_id s"
      using inv_slot [OF inv, of k] by (simp_all add: assms(3))
    have s1: "sub_inv s1 \<and> evolves (taken k s) s1 \<and> thins pre kept"
      by (rule retain_subscribers_ok [OF ok take_out_ok [OF inv] assms(5)])
    have "thins post kept'"
      using retain_subscribers_ok [OF ok _ _ post] s1 evolves_trans [OF take_out_ok(2) [OF inv]] by blast
    then have "i \<notin> fst ` set (kept @ kept')"
      using s1 es(1) by (fastforce simp: thins_def sorted_wrt_append)
    moreover have "i \<notin> slot_ids (ss_subscribers s2 k)" using pass(6) es(2) by auto
    ultimately show ?thesis using act by (auto simp: pass(3) Let_def slot_ids_def)
  qed
  ultimately show ?thesis by blast
qed

text \<open>The first callback drops the subscription of the second.\<close>

definition dropping_calls :: "(nat, nat, nat list) invoke" where
  "dropping_calls cb s = (if cb = 10 \<and> 1 < ss_next_subscriber_id s then (cb, True, unsubscribe 0 1 s) else (cb, True, s))"

lemma dropping_calls_ok: "well_behaved s dropping_calls"
  by (simp add: well_behaved_def dropping_calls_def run_refl run_unsubscribe)

theorem dropped_subscriber_is_not_called_witness:
  "set_retain 0 (dropping_calls(11 := (\<lambda>s. (11, True, s\<lparr>ss_env := [7]\<rparr>)))) sample_set = set_retain 0 dropping_calls sample_set \<and>
   1 \<notin> slot_ids (ss_subscribers (set_retain 0 dropping_calls sample_set) 0)"
proof -
  obtain kept s1 where pre: "retain_subscribers dropping_calls [(0, 10)] (taken 0 sample_set) = (kept, s1)" by fastforce
  then have s1: "ss_dropped s1 1" "ss_active s1 1"
    by (auto simp: dropping_calls_def sample_set_def activate_def set_insert_subscriber_def set_new_def unsubscribe_def Let_def
        split: if_splits)
  have slot: "ss_subscribers sample_set 0 = Some (Some ([(0, 10)] @ (1, 11) # []))" by (simp add: sample_set_slot)
  show ?thesis
    using dropped_subscriber_is_not_called [OF sample_set_run dropping_calls_ok slot _ pre s1(1),
        of "dropping_calls(11 := (\<lambda>s. (11, True, s\<lparr>ss_env := [7]\<rparr>)))"] s1(2) by simp
qed

text \<open>
  Where callbacks do not touch the set, a pass calls every active subscriber that is not dropped
  exactly once, in the order of subscription; it keeps those whose call returns true, with the
  changed callback, and the inert ones.
\<close>

theorem retain_calls_each_once:
  assumes "sub_run (set_new e) s" "ss_subscribers s k = Some (Some es)"
    and "\<And>cb t. f cb t = (change cb, keep cb, t\<lparr>ss_env := ss_env t @ [cb]\<rparr>)"
  shows "ss_env (set_retain k f s) = ss_env s @ map snd (filter (\<lambda>(i, _). ss_active s i \<and> \<not> ss_dropped s i) es) \<and>
     slot_entries (ss_subscribers (set_retain k f s) k) =
       map (\<lambda>(i, cb). (i, if ss_active s i then change cb else cb))
         (filter (\<lambda>(i, cb). ss_active s i \<longrightarrow> \<not> ss_dropped s i \<and> keep cb) es)"
proof -
  have loop: "retain_subscribers f es t =
     (map (\<lambda>(i, cb). (i, if ss_active t i then change cb else cb)) (filter (\<lambda>(i, cb). ss_active t i \<longrightarrow> \<not> ss_dropped t i \<and> keep cb) es),
      t\<lparr>ss_env := ss_env t @ map snd (filter (\<lambda>(i, _). ss_active t i \<and> \<not> ss_dropped t i) es)\<rparr>)" for t
  proof (induction es arbitrary: t)
    case (Cons x es)
    then show ?case by (cases x) (simp add: assms(3) Let_def)
  qed simp
  have "well_behaved s f" by (simp add: well_behaved_def assms(3) run_env)
  note pass = set_retain_pass [OF well_behaved_ok [OF this] run_inv [OF assms(1)] assms(2) loop]
  show ?thesis by (simp add: pass(3) Let_def)
qed

theorem retain_calls_each_once_witness:
  "ss_env (set_retain 0 (\<lambda>cb t. (cb + 1, cb = 10, t\<lparr>ss_env := ss_env t @ [cb]\<rparr>)) sample_set) = [10, 11]"
  using retain_calls_each_once [OF sample_set_run sample_set_slot,
      of "\<lambda>cb t. (cb + 1, cb = 10, t\<lparr>ss_env := ss_env t @ [cb]\<rparr>)" "\<lambda>cb. cb + 1" "\<lambda>cb. cb = 10"]
  by (simp add: sample_set_def activate_def set_insert_subscriber_def set_new_def Let_def)

text \<open>
  A handle governs exactly the subscriber it was made for: dropping it right after the
  insertion, activated or not, restores the subscribers of every emitter; detaching it changes nothing; a
  joined handle drops both parts.
\<close>

theorem dropping_undoes_insert:
  assumes "sub_run (set_new e) s" "ss_subscribers s k \<noteq> Some None"
    and "set_insert_subscriber k callback s = (s', h, activation)"
  shows "ss_subscribers (drop_subscription h s') = ss_subscribers s \<and>
     ss_subscribers (drop_subscription h (activation s')) = ss_subscribers s \<and>
     detach_subscription h s' = s' \<and>
     drop_subscription (join_subscriptions h h') s' = drop_subscription h' (drop_subscription h s')"
proof -
  let ?n = "ss_next_subscriber_id s" and ?es = "slot_entries (ss_subscribers s k)"
  note slot = inv_slot [OF run_inv [OF assms(1)], of k]
  have below: "fst ` set ?es \<subseteq> {..<?n}" using slot by (simp add: slot_ok_def slot_ids_def)
  have ins: "btree_insert ?n callback ?es = ?es @ [(?n, callback)]" by (rule btree_insert_last) (use below in auto)
  have rem: "btree_remove ?n (?es @ [(?n, callback)]) = ?es"
    using below by (fastforce simp: btree_remove_def filter_id_conv)
  have restored: "(ss_subscribers s)(k := if ?es = [] then None else Some (Some ?es)) = ss_subscribers s"
    using assms(2) slot by (cases "ss_subscribers s k" rule: slot_entries.cases) (auto simp: fun_upd_idem)
  have undone: "ss_subscribers (unsubscribe k ?n t) = ss_subscribers s"
    if "ss_subscribers t = (ss_subscribers s)(k := Some (Some (?es @ [(?n, callback)])))" for t
    using restored by (auto simp: unsubscribe_def Let_def that rem)
  have "h = \<lparr>sub_unsubscribe = Some (unsubscribe k ?n)\<rparr>" "activation = activate ?n"
    "ss_subscribers s' = (ss_subscribers s)(k := Some (Some (?es @ [(?n, callback)])))"
    using assms(3) by (auto simp: set_insert_subscriber_def Let_def ins)
  then show ?thesis
    using undone [of s'] undone [of "activate ?n s'"]
    by (simp add: drop_subscription_def detach_subscription_def join_subscriptions_def activate_def Let_def)
qed

theorem dropping_undoes_insert_witness:
  "\<exists>s' h activation. set_insert_subscriber 0 12 sample_set = (s', h, activation) \<and>
     ss_subscribers (drop_subscription h (activation s')) 0 = Some (Some [(0, 10), (1, 11)])"
proof -
  obtain s' h activation where 1: "set_insert_subscriber 0 12 sample_set = (s', h, activation)" by (metis prod.exhaust)
  show ?thesis using dropping_undoes_insert [OF sample_set_run _ 1] 1 sample_set_slot by auto
qed

text \<open>
  \<^verbatim>\<open>remove\<close> does not look at the flag \<^verbatim>\<open>dropped\<close>: when a callback drops the subscription of a
  subscriber that the same pass called before, that subscriber stays in the set, and \<^verbatim>\<open>remove\<close> then
  lists the callback of the dropped subscription.
\<close>

theorem remove_lists_dropped_subscriber:
  "let drop_first = (\<lambda>cb s. (cb, True, if cb = 11 then unsubscribe 0 0 s else s));
       s = set_retain 0 drop_first sample_set;
       (s', removed) = set_remove_emitter 0 s
   in ss_dropped s' 0 \<and> removed_next s' removed = Some (10, [(1, 11)])"
  by (simp add: sample_set_def activate_def set_insert_subscriber_def set_new_def set_retain_def unsubscribe_def
      set_remove_emitter_def btree_remove_def Let_def)

end
