(* ===== verification/Primitives.thy ===== *)
theory Primitives
  imports Geometry Complex_Main
begin

text \<open>
  What a scene is made of (\<^verbatim>\<open>crates/gpui/src/scene.rs\<close>, the second half, with the colours of
  \<^verbatim>\<open>color.rs\<close>, the atlas tiles of \<^verbatim>\<open>platform.rs\<close> and the content masks of \<^verbatim>\<open>window.rs\<close> that its
  structs hold): the primitives, the transformation matrices of sprites and the paths that are built
  from lines and curves. Single-precision numbers are elements of an ordered field, as in the geometry;
  sine and cosine are arguments. Path ids, orders and the padding words are natural numbers.
\<close>

section \<open>Colours, corners, masks and tiles\<close>

record 'u hsla =
  hs_h :: 'u
  hs_s :: 'u
  hs_l :: 'u
  hs_a :: 'u

datatype background_tag = BgSolid | BgLinearGradient | BgPatternSlash | BgCheckerboard

datatype color_space = Srgb | Oklab

record 'u linear_color_stop =
  cs_color :: "'u hsla"
  cs_percentage :: 'u

record 'u background =
  bg_tag :: background_tag
  bg_color_space :: color_space
  bg_solid :: "'u hsla"
  bg_gradient_angle_or_pattern_height :: 'u
  bg_colors :: "'u linear_color_stop \<times> 'u linear_color_stop"
  bg_pad :: nat

definition hsla_default :: "'u::zero hsla" where
  "hsla_default = \<lparr>hs_h = 0, hs_s = 0, hs_l = 0, hs_a = 0\<rparr>"

definition background_default :: "'u::zero background" where
  "background_default =
     \<lparr>bg_tag = BgSolid, bg_color_space = Srgb, bg_solid = hsla_default, bg_gradient_angle_or_pattern_height = 0,
      bg_colors = (\<lparr>cs_color = hsla_default, cs_percentage = 0\<rparr>, \<lparr>cs_color = hsla_default, cs_percentage = 0\<rparr>),
      bg_pad = 0\<rparr>"

record 'u corners =
  c_top_left :: 'u
  c_top_right :: 'u
  c_bottom_right :: 'u
  c_bottom_left :: 'u

record 'u content_mask =
  cm_bounds :: "'u bounds"

definition point_scale :: "'u::times \<Rightarrow> 'u point \<Rightarrow> 'u point" where
  "point_scale factor p = \<lparr>p_x = p_x p * factor, p_y = p_y p * factor\<rparr>"

definition size_scale :: "'u::times \<Rightarrow> 'u size2 \<Rightarrow> 'u size2" where
  "size_scale factor s = \<lparr>s_width = s_width s * factor, s_height = s_height s * factor\<rparr>"

definition bd_scale :: "'u::times \<Rightarrow> 'u bounds \<Rightarrow> 'u bounds" where
  "bd_scale factor b = \<lparr>bd_origin = point_scale factor (bd_origin b), bd_size = size_scale factor (bd_size b)\<rparr>"

definition mask_scale :: "'u::times \<Rightarrow> 'u content_mask \<Rightarrow> 'u content_mask" where
  "mask_scale factor m = \<lparr>cm_bounds = bd_scale factor (cm_bounds m)\<rparr>"

definition mask_intersect :: "'u::{ord, plus, minus} content_mask \<Rightarrow> 'u content_mask \<Rightarrow> 'u content_mask" where
  "mask_intersect self other = (let b = bd_intersect (cm_bounds self) (cm_bounds other) in \<lparr>cm_bounds = b\<rparr>)"

text \<open>\<^verbatim>\<open>Point\<close>, \<^verbatim>\<open>Size\<close>, \<^verbatim>\<open>Bounds\<close> and \<^verbatim>\<open>ContentMask\<close> derive \<^verbatim>\<open>Default\<close>.\<close>

definition size_default :: "'u::zero size2" where
  "size_default = \<lparr>s_width = 0, s_height = 0\<rparr>"

definition mask_default :: "'u::zero content_mask" where
  "mask_default = \<lparr>cm_bounds = \<lparr>bd_origin = \<lparr>p_x = 0, p_y = 0\<rparr>, bd_size = size_default\<rparr>\<rparr>"

datatype atlas_texture_kind = Monochrome | Polychrome | Subpixel

record atlas_texture_id =
  at_index :: nat
  at_kind :: atlas_texture_kind

record atlas_tile =
  tl_texture_id :: atlas_texture_id
  tl_tile_id :: nat
  tl_padding :: nat
  tl_bounds :: "int bounds"

section \<open>Transformation matrices\<close>

record 'u transformation_matrix =
  tm_rotation_scale :: "('u \<times> 'u) \<times> ('u \<times> 'u)"
  tm_translation :: "'u \<times> 'u"

definition tm_unit :: "'u::zero_neq_one transformation_matrix" where
  "tm_unit = \<lparr>tm_rotation_scale = ((1, 0), (0, 1)), tm_translation = (0, 0)\<rparr>"

fun tm_product :: "('u::semiring_1 \<times> 'u) \<times> ('u \<times> 'u) \<Rightarrow> ('u \<times> 'u) \<times> ('u \<times> 'u) \<Rightarrow> ('u \<times> 'u) \<times> ('u \<times> 'u)" where
  "tm_product ((a00, a01), (a10, a11)) ((b00, b01), (b10, b11)) =
     ((a00 * b00 + a01 * b10, a00 * b01 + a01 * b11), (a10 * b00 + a11 * b10, a10 * b01 + a11 * b11))"

fun tm_moved :: "'u::semiring_1 \<times> 'u \<Rightarrow> ('u \<times> 'u) \<times> ('u \<times> 'u) \<Rightarrow> 'u \<times> 'u \<Rightarrow> 'u \<times> 'u" where
  "tm_moved (t0, t1) ((a00, a01), (a10, a11)) (u0, u1) =
     (t0 + a00 * u0 + a01 * u1, t1 + a10 * u0 + a11 * u1)"

definition tm_compose :: "'u::comm_ring_1 transformation_matrix \<Rightarrow> 'u transformation_matrix \<Rightarrow> 'u transformation_matrix" where
  "tm_compose self other =
     (if other = tm_unit then self
      else \<lparr>tm_rotation_scale = tm_product (tm_rotation_scale self) (tm_rotation_scale other),
            tm_translation = tm_moved (tm_translation self) (tm_rotation_scale self) (tm_translation other)\<rparr>)"

definition tm_translate :: "'u::comm_ring_1 transformation_matrix \<Rightarrow> 'u point \<Rightarrow> 'u transformation_matrix" where
  "tm_translate self p =
     tm_compose self \<lparr>tm_rotation_scale = ((1, 0), (0, 1)), tm_translation = (p_x p, p_y p)\<rparr>"

definition tm_rotate :: "('u \<Rightarrow> 'u) \<Rightarrow> ('u \<Rightarrow> 'u) \<Rightarrow> 'u::comm_ring_1 transformation_matrix \<Rightarrow> 'u \<Rightarrow> 'u transformation_matrix" where
  "tm_rotate cos_f sin_f self angle =
     tm_compose self \<lparr>tm_rotation_scale = ((cos_f angle, - sin_f angle), (sin_f angle, cos_f angle)), tm_translation = (0, 0)\<rparr>"

definition tm_scale :: "'u::comm_ring_1 transformation_matrix \<Rightarrow> 'u size2 \<Rightarrow> 'u transformation_matrix" where
  "tm_scale self s =
     tm_compose self \<lparr>tm_rotation_scale = ((s_width s, 0), (0, s_height s)), tm_translation = (0, 0)\<rparr>"

text \<open>The two nested loops over the output and the input cells.\<close>

fun tm_apply :: "'u::comm_ring_1 transformation_matrix \<Rightarrow> 'u point \<Rightarrow> 'u point" where
  "tm_apply self p =
     (case (tm_rotation_scale self, tm_translation self) of (((r00, r01), (r10, r11)), (o0, o1)) \<Rightarrow>
        let o0 = o0 + r00 * p_x p; o0 = o0 + r01 * p_y p;
            o1 = o1 + r10 * p_x p; o1 = o1 + r11 * p_y p
        in point_new o0 o1)"

section \<open>Paths\<close>

record 'u path_vertex =
  xy_position :: "'u point"
  st_position :: "'u point"
  pv_content_mask :: "'u content_mask"

record 'u path =
  pa_id :: nat
  pa_order :: nat
  pa_bounds :: "'u bounds"
  pa_content_mask :: "'u content_mask"
  pa_vertices :: "'u path_vertex list"
  pa_color :: "'u background"
  pa_start :: "'u point"
  pa_current :: "'u point"
  pa_contour_count :: nat

definition path_new :: "'u::zero point \<Rightarrow> 'u path" where
  "path_new start =
     \<lparr>pa_id = 0, pa_order = 0, pa_bounds = \<lparr>bd_origin = start, bd_size = size_default\<rparr>,
      pa_content_mask = mask_default, pa_vertices = [], pa_color = background_default,
      pa_start = start, pa_current = start, pa_contour_count = 0\<rparr>"

definition vertex_scale :: "'u::times \<Rightarrow> 'u path_vertex \<Rightarrow> 'u path_vertex" where
  "vertex_scale factor v =
     \<lparr>xy_position = point_scale factor (xy_position v), st_position = st_position v,
      pv_content_mask = mask_scale factor (pv_content_mask v)\<rparr>"

definition path_scale :: "'u::times \<Rightarrow> 'u path \<Rightarrow> 'u path" where
  "path_scale factor path =
     \<lparr>pa_id = pa_id path, pa_order = pa_order path, pa_bounds = bd_scale factor (pa_bounds path),
      pa_content_mask = mask_scale factor (pa_content_mask path),
      pa_vertices = map (vertex_scale factor) (pa_vertices path), pa_color = pa_color path,
      pa_start = point_map (\<lambda>start. start * factor) (pa_start path),
      pa_current = point_scale factor (pa_current path), pa_contour_count = pa_contour_count path\<rparr>"

definition move_to :: "'u path \<Rightarrow> 'u point \<Rightarrow> 'u path" where
  "move_to path to =
     path\<lparr>pa_contour_count := pa_contour_count path + 1, pa_start := to, pa_current := to\<rparr>"

definition plain_vertex :: "'u::zero point \<Rightarrow> 'u point \<Rightarrow> 'u path_vertex" where
  "plain_vertex xy st = \<lparr>xy_position = xy, st_position = st, pv_content_mask = mask_default\<rparr>"

fun push_triangle ::
  "'u::linordered_field path \<Rightarrow> 'u point \<times> 'u point \<times> 'u point \<Rightarrow> 'u point \<times> 'u point \<times> 'u point \<Rightarrow> 'u path" where
  "push_triangle path (xy0, xy1, xy2) (st0, st1, st2) =
     (let path = path\<lparr>pa_bounds :=
            bd_union
              (bd_union
                (bd_union (pa_bounds path) \<lparr>bd_origin = xy0, bd_size = size_default\<rparr>)
                \<lparr>bd_origin = xy1, bd_size = size_default\<rparr>)
              \<lparr>bd_origin = xy2, bd_size = size_default\<rparr>\<rparr>;
          path = path\<lparr>pa_vertices := pa_vertices path @ [plain_vertex xy0 st0]\<rparr>;
          path = path\<lparr>pa_vertices := pa_vertices path @ [plain_vertex xy1 st1]\<rparr>
      in path\<lparr>pa_vertices := pa_vertices path @ [plain_vertex xy2 st2]\<rparr>)"

definition line_to :: "'u::linordered_field path \<Rightarrow> 'u point \<Rightarrow> 'u path" where
  "line_to path to =
     (let path = path\<lparr>pa_contour_count := pa_contour_count path + 1\<rparr>;
          path =
            (if pa_contour_count path > 1
             then push_triangle path (pa_start path, pa_current path, to) (point_new 0 1, point_new 0 1, point_new 0 1)
             else path)
      in path\<lparr>pa_current := to\<rparr>)"

definition curve_to :: "'u::linordered_field path \<Rightarrow> 'u point \<Rightarrow> 'u point \<Rightarrow> 'u path" where
  "curve_to path to ctrl =
     (let path = path\<lparr>pa_contour_count := pa_contour_count path + 1\<rparr>;
          path =
            (if pa_contour_count path > 1
             then push_triangle path (pa_start path, pa_current path, to) (point_new 0 1, point_new 0 1, point_new 0 1)
             else path);
          path = push_triangle path (pa_current path, ctrl, to) (point_new 0 0, point_new (1 / 2) 0, point_new 1 1)
      in path\<lparr>pa_current := to\<rparr>)"

definition clipped_bounds :: "'u::{ord, plus, minus} path \<Rightarrow> 'u bounds" where
  "clipped_bounds path = bd_intersect (pa_bounds path) (cm_bounds (pa_content_mask path))"

section \<open>The primitives\<close>

datatype border_style = Solid | Dashed

record 'u quad =
  q_order :: nat
  q_border_style :: border_style
  q_bounds :: "'u bounds"
  q_content_mask :: "'u content_mask"
  q_background :: "'u background"
  q_border_color :: "'u hsla"
  q_corner_radii :: "'u corners"
  q_border_widths :: "'u edges"

text \<open>\<^verbatim>\<open>PaddedBool32\<close>: built from a boolean only.\<close>

definition padded_bool32 :: "bool \<Rightarrow> nat" where
  "padded_bool32 b = (if b then 1 else 0)"

record 'u underline =
  u_order :: nat
  u_pad :: nat
  u_bounds :: "'u bounds"
  u_content_mask :: "'u content_mask"
  u_color :: "'u hsla"
  u_thickness :: 'u
  u_wavy :: nat

record 'u shadow =
  sh_order :: nat
  sh_blur_radius :: 'u
  sh_bounds :: "'u bounds"
  sh_corner_radii :: "'u corners"
  sh_content_mask :: "'u content_mask"
  sh_color :: "'u hsla"
  sh_element_bounds :: "'u bounds"
  sh_element_corner_radii :: "'u corners"
  sh_inset :: nat
  sh_pad :: nat

record 'u monochrome_sprite =
  ms_order :: nat
  ms_pad :: nat
  ms_bounds :: "'u bounds"
  ms_content_mask :: "'u content_mask"
  ms_color :: "'u hsla"
  ms_tile :: atlas_tile
  ms_transformation :: "'u transformation_matrix"

record 'u subpixel_sprite =
  ss_order :: nat
  ss_pad :: nat
  ss_bounds :: "'u bounds"
  ss_content_mask :: "'u content_mask"
  ss_color :: "'u hsla"
  ss_tile :: atlas_tile
  ss_transformation :: "'u transformation_matrix"

record 'u polychrome_sprite =
  ps_order :: nat
  ps_pad :: nat
  ps_grayscale :: nat
  ps_opacity :: 'u
  ps_bounds :: "'u bounds"
  ps_content_mask :: "'u content_mask"
  ps_corner_radii :: "'u corners"
  ps_tile :: atlas_tile

record 'u paint_surface =
  su_order :: nat
  su_bounds :: "'u bounds"
  su_content_mask :: "'u content_mask"

datatype 'u primitive =
  PShadow "'u shadow" | PQuad "'u quad" | PPath "'u path" | PUnderline "'u underline"
| PMonochromeSprite "'u monochrome_sprite" | PSubpixelSprite "'u subpixel_sprite"
| PPolychromeSprite "'u polychrome_sprite" | PSurface "'u paint_surface"

fun prim_bounds :: "'u primitive \<Rightarrow> 'u bounds" where
  "prim_bounds (PShadow shadow) = sh_bounds shadow"
| "prim_bounds (PQuad quad) = q_bounds quad"
| "prim_bounds (PPath path) = pa_bounds path"
| "prim_bounds (PUnderline underline) = u_bounds underline"
| "prim_bounds (PMonochromeSprite sprite) = ms_bounds sprite"
| "prim_bounds (PSubpixelSprite sprite) = ss_bounds sprite"
| "prim_bounds (PPolychromeSprite sprite) = ps_bounds sprite"
| "prim_bounds (PSurface surface) = su_bounds surface"

fun prim_content_mask :: "'u primitive \<Rightarrow> 'u content_mask" where
  "prim_content_mask (PShadow shadow) = sh_content_mask shadow"
| "prim_content_mask (PQuad quad) = q_content_mask quad"
| "prim_content_mask (PPath path) = pa_content_mask path"
| "prim_content_mask (PUnderline underline) = u_content_mask underline"
| "prim_content_mask (PMonochromeSprite sprite) = ms_content_mask sprite"
| "prim_content_mask (PSubpixelSprite sprite) = ss_content_mask sprite"
| "prim_content_mask (PPolychromeSprite sprite) = ps_content_mask sprite"
| "prim_content_mask (PSurface surface) = su_content_mask surface"

section \<open>Lemmas on paths\<close>

text \<open>A point inside bounds, the right and bottom sides included.\<close>

definition covers :: "'u::linordered_ab_group_add bounds \<Rightarrow> 'u point \<Rightarrow> bool" where
  "covers b p \<longleftrightarrow> bd_left b \<le> p_x p \<and> p_x p \<le> bd_right b \<and> bd_top b \<le> p_y p \<and> p_y p \<le> bd_bottom b"

lemma covers_union: "covers a p \<Longrightarrow> covers (bd_union a b) p"
  by (auto simp: covers_def min.coboundedI1 max.coboundedI1)

lemma covers_union_point: "covers (bd_union a \<lparr>bd_origin = p, bd_size = size_default\<rparr>) p"
proof -
  have "bd_left \<lparr>bd_origin = p, bd_size = size_default\<rparr> = p_x p" "bd_right \<lparr>bd_origin = p, bd_size = size_default\<rparr> = p_x p"
    "bd_top \<lparr>bd_origin = p, bd_size = size_default\<rparr> = p_y p" "bd_bottom \<lparr>bd_origin = p, bd_size = size_default\<rparr> = p_y p"
    by (simp_all add: side_defs size_default_def)
  then show ?thesis by (simp add: covers_def)
qed

lemmas covers_intros = covers_union_point covers_union covers_union_point [THEN covers_union]

text \<open>The paths a program can build.\<close>

inductive path_built :: "'u::linordered_field path \<Rightarrow> bool" where
  built_new: "path_built (path_new start)"
| built_move: "path_built path \<Longrightarrow> path_built (move_to path to)"
| built_line: "path_built path \<Longrightarrow> path_built (line_to path to)"
| built_curve: "path_built path \<Longrightarrow> path_built (curve_to path to ctrl)"
| built_triangle: "path_built path \<Longrightarrow> path_built (push_triangle path xy st)"

definition path_inv :: "'u::linordered_field path \<Rightarrow> bool" where
  "path_inv path \<longleftrightarrow>
     length (pa_vertices path) mod 3 = 0 \<and> (\<forall>v \<in> set (pa_vertices path). covers (pa_bounds path) (xy_position v)) \<and>
     bd_left (pa_bounds path) \<le> bd_right (pa_bounds path) \<and> bd_top (pa_bounds path) \<le> bd_bottom (pa_bounds path)"

lemma push_triangle_inv: "path_inv path \<Longrightarrow> path_inv (push_triangle path xy st)"
  by (cases "(path, xy, st)" rule: push_triangle.cases)
    (auto simp: path_inv_def plain_vertex_def covers_intros min.coboundedI1 max.coboundedI1)

lemma path_inv_updates [simp]:
  "path_inv (path\<lparr>pa_contour_count := n\<rparr>) = path_inv path"
  "path_inv (path\<lparr>pa_current := p\<rparr>) = path_inv path"
  "path_inv (path\<lparr>pa_start := p\<rparr>) = path_inv path"
  by (simp_all add: path_inv_def)

lemma path_new_inv: "path_inv (path_new start)"
  by (simp add: path_inv_def path_new_def side_defs size_default_def)

lemma path_built_inv: "path_built path \<Longrightarrow> path_inv path"
proof (induction rule: path_built.induct)
  case (built_line path to)
  then show ?case by (simp add: line_to_def Let_def push_triangle_inv del: push_triangle.simps)
next
  case (built_curve path to ctrl)
  then show ?case by (simp add: curve_to_def Let_def push_triangle_inv del: push_triangle.simps)
qed (simp_all add: path_new_inv move_to_def push_triangle_inv del: push_triangle.simps)

lemma scaled_sides:
  fixes b :: "'u::linordered_field bounds"
  shows "bd_left (bd_scale k b) = bd_left b * k" "bd_right (bd_scale k b) = bd_right b * k"
    "bd_top (bd_scale k b) = bd_top b * k" "bd_bottom (bd_scale k b) = bd_bottom b * k"
  by (simp_all add: side_defs bd_scale_def point_scale_def size_scale_def algebra_simps)

lemma covers_scale: "0 \<le> k \<Longrightarrow> covers b p \<Longrightarrow> covers (bd_scale k (b :: 'u::linordered_field bounds)) (point_scale k p)"
  by (simp add: covers_def scaled_sides point_scale_def mult_right_mono)

lemma path_scale_inv: "0 \<le> k \<Longrightarrow> path_inv path \<Longrightarrow> path_inv (path_scale k path)"
  by (auto simp: path_inv_def path_scale_def scaled_sides vertex_scale_def covers_scale mult_right_mono)

section \<open>Properties\<close>

text \<open>
  Every path that a program builds from lines, curves and triangles holds whole triangles only, and its
  bounds cover every vertex; both survive scaling by a factor that is not negative. So clipping a path
  by its bounds never loses a part of it.
\<close>

theorem path_bounds_cover_vertices:
  assumes "path_built path" "0 \<le> factor"
  shows "length (pa_vertices (path_scale factor path)) mod 3 = 0 \<and>
    (\<forall>v \<in> set (pa_vertices (path_scale factor path)). covers (pa_bounds (path_scale factor path)) (xy_position v))"
  using path_scale_inv [OF assms(2) path_built_inv [OF assms(1)]] by (simp add: path_inv_def)

theorem path_bounds_cover_vertices_witness:
  "covers (pa_bounds (path_scale 2 (curve_to (path_new (point_new 0 0)) (point_new 4 0) (point_new 2 (3 :: rat)))))
     (point_new 4 6)"
proof -
  let ?path = "curve_to (path_new (point_new 0 0)) (point_new 4 0) (point_new 2 (3 :: rat))"
  have "path_built ?path" by (intro built_curve built_new)
  from path_bounds_cover_vertices [OF this, of 2]
  have "\<forall>v \<in> set (pa_vertices (path_scale 2 ?path)). covers (pa_bounds (path_scale 2 ?path)) (xy_position v)" by simp
  moreover have "point_new 4 6 \<in> xy_position ` set (pa_vertices (path_scale 2 ?path))"
    by (simp add: curve_to_def path_new_def path_scale_def vertex_scale_def plain_vertex_def point_scale_def point_new_def)
  ultimately show ?thesis by force
qed

text \<open>
  \<^verbatim>\<open>compose\<close> applies its argument first and then the receiver, as its comment says, also on the short cut for
  the unit matrix.
\<close>

theorem compose_applies_both:
  "tm_apply (tm_compose a b) p = tm_apply a (tm_apply b p)"
proof (cases "b = tm_unit")
  case True
  then show ?thesis by (simp add: tm_compose_def tm_unit_def point_new_def)
next
  case False
  obtain a00 a01 a10 a11 s0 s1 where a: "tm_rotation_scale a = ((a00, a01), (a10, a11))" "tm_translation a = (s0, s1)"
    by (metis surj_pair)
  obtain b00 b01 b10 b11 t0 t1 where b: "tm_rotation_scale b = ((b00, b01), (b10, b11))" "tm_translation b = (t0, t1)"
    by (metis surj_pair)
  show ?thesis using False by (simp add: tm_compose_def a b point_new_def algebra_simps)
qed

end
