(* ===== verification/Scene.thy ===== *)
theory Scene
  imports Primitives BoundsTree "HOL-Library.Product_Lexorder"
begin

text \<open>
  The scene of a frame (\<^verbatim>\<open>crates/gpui/src/scene.rs\<close>, the first half): the primitives that a frame paints,
  the order each gets from the bounds tree or from the layer it is painted in, the replay of a part of
  the previous frame, and the iterator that cuts the sorted primitives into batches of one kind for the
  renderers. \<^verbatim>\<open>None\<close> is a panic.
\<close>

section \<open>The scene\<close>

datatype 'u paint_operation = OPrimitive "'u primitive" | StartLayer "'u bounds" | EndLayer

record 'u scene =
  paint_operations :: "'u paint_operation list"
  primitive_bounds :: "'u bounds_tree"
  layer_stack :: "nat list"
  shadows :: "'u shadow list"
  quads :: "'u quad list"
  paths :: "'u path list"
  underlines :: "'u underline list"
  monochrome_sprites :: "'u monochrome_sprite list"
  subpixel_sprites :: "'u subpixel_sprite list"
  polychrome_sprites :: "'u polychrome_sprite list"
  surfaces :: "'u paint_surface list"

definition scene_default :: "'u scene" where
  "scene_default =
     \<lparr>paint_operations = [], primitive_bounds = bt_default, layer_stack = [], shadows = [], quads = [], paths = [],
      underlines = [], monochrome_sprites = [], subpixel_sprites = [], polychrome_sprites = [], surfaces = []\<rparr>"

definition scene_clear :: "'u scene \<Rightarrow> 'u scene" where
  "scene_clear s =
     s\<lparr>paint_operations := [], primitive_bounds := bt_clear (primitive_bounds s), layer_stack := [], paths := [],
       shadows := [], quads := [], underlines := [], monochrome_sprites := [], subpixel_sprites := [],
       polychrome_sprites := [], surfaces := []\<rparr>"

definition scene_len :: "'u scene \<Rightarrow> nat" where
  "scene_len s = length (paint_operations s)"

definition push_layer :: "'u::linordered_ab_group_add scene \<Rightarrow> 'u bounds \<Rightarrow> 'u scene option" where
  "push_layer s b = do {
     (tree, order) \<leftarrow> bt_insert (primitive_bounds s) b;
     Some (s\<lparr>primitive_bounds := tree, layer_stack := layer_stack s @ [order],
             paint_operations := paint_operations s @ [StartLayer b]\<rparr>) }"

text \<open>\<^verbatim>\<open>Vec::pop\<close> of an empty vector does nothing.\<close>

definition pop_layer :: "'u scene \<Rightarrow> 'u scene" where
  "pop_layer s = s\<lparr>layer_stack := butlast (layer_stack s), paint_operations := paint_operations s @ [EndLayer]\<rparr>"

fun place_primitive :: "'u scene \<Rightarrow> nat \<Rightarrow> 'u primitive \<Rightarrow> 'u scene \<times> 'u primitive" where
  "place_primitive s order (PShadow shadow) =
     (let shadow = shadow\<lparr>sh_order := order\<rparr> in (s\<lparr>shadows := shadows s @ [shadow]\<rparr>, PShadow shadow))"
| "place_primitive s order (PQuad quad) =
     (let quad = quad\<lparr>q_order := order\<rparr> in (s\<lparr>quads := quads s @ [quad]\<rparr>, PQuad quad))"
| "place_primitive s order (PPath path) =
     (let path = path\<lparr>pa_order := order, pa_id := length (paths s)\<rparr> in (s\<lparr>paths := paths s @ [path]\<rparr>, PPath path))"
| "place_primitive s order (PUnderline underline) =
     (let underline = underline\<lparr>u_order := order\<rparr> in (s\<lparr>underlines := underlines s @ [underline]\<rparr>, PUnderline underline))"
| "place_primitive s order (PMonochromeSprite sprite) =
     (let sprite = sprite\<lparr>ms_order := order\<rparr>
      in (s\<lparr>monochrome_sprites := monochrome_sprites s @ [sprite]\<rparr>, PMonochromeSprite sprite))"
| "place_primitive s order (PSubpixelSprite sprite) =
     (let sprite = sprite\<lparr>ss_order := order\<rparr>
      in (s\<lparr>subpixel_sprites := subpixel_sprites s @ [sprite]\<rparr>, PSubpixelSprite sprite))"
| "place_primitive s order (PPolychromeSprite sprite) =
     (let sprite = sprite\<lparr>ps_order := order\<rparr>
      in (s\<lparr>polychrome_sprites := polychrome_sprites s @ [sprite]\<rparr>, PPolychromeSprite sprite))"
| "place_primitive s order (PSurface surface) =
     (let surface = surface\<lparr>su_order := order\<rparr> in (s\<lparr>surfaces := surfaces s @ [surface]\<rparr>, PSurface surface))"

definition insert_primitive :: "'u::linordered_ab_group_add scene \<Rightarrow> 'u primitive \<Rightarrow> 'u scene option" where
  "insert_primitive s primitive =
     (let clipped_bounds = bd_intersect (prim_bounds primitive) (cm_bounds (prim_content_mask primitive)) in
      if bd_is_empty clipped_bounds then Some s
      else do {
        (s, order) \<leftarrow>
          (case last_opt (layer_stack s) of
             Some order \<Rightarrow> Some (s, order)
           | None \<Rightarrow> do {
               (tree, order) \<leftarrow> bt_insert (primitive_bounds s) clipped_bounds;
               Some (s\<lparr>primitive_bounds := tree\<rparr>, order) });
        let (s, primitive) = place_primitive s order primitive;
        Some (s\<lparr>paint_operations := paint_operations s @ [OPrimitive primitive]\<rparr>) })"

fun replay_operation :: "'u::linordered_ab_group_add scene \<Rightarrow> 'u paint_operation \<Rightarrow> 'u scene option" where
  "replay_operation s (OPrimitive primitive) = insert_primitive s primitive"
| "replay_operation s (StartLayer b) = push_layer s b"
| "replay_operation s EndLayer = Some (pop_layer s)"

fun replay_operations :: "'u::linordered_ab_group_add scene \<Rightarrow> 'u paint_operation list \<Rightarrow> 'u scene option" where
  "replay_operations s [] = Some s"
| "replay_operations s (operation # operations) = do {
     s \<leftarrow> replay_operation s operation;
     replay_operations s operations }"

text \<open>Slicing with a range that is reversed or ends beyond the vector panics.\<close>

definition scene_replay :: "'u::linordered_ab_group_add scene \<Rightarrow> nat \<times> nat \<Rightarrow> 'u scene \<Rightarrow> 'u scene option" where
  "scene_replay s rng prev_scene = do {
     assert_that (fst rng \<le> snd rng \<and> snd rng \<le> length (paint_operations prev_scene));
     replay_operations s (drop (fst rng) (take (snd rng) (paint_operations prev_scene))) }"

definition scene_finish :: "'u scene \<Rightarrow> 'u scene" where
  "scene_finish s =
     s\<lparr>shadows := sort_key sh_order (shadows s),
       quads := sort_key q_order (quads s),
       paths := sort_key pa_order (paths s),
       underlines := sort_key u_order (underlines s),
       monochrome_sprites := sort_key (\<lambda>sprite. (ms_order sprite, tl_tile_id (ms_tile sprite))) (monochrome_sprites s),
       subpixel_sprites := sort_key (\<lambda>sprite. (ss_order sprite, tl_tile_id (ss_tile sprite))) (subpixel_sprites s),
       polychrome_sprites := sort_key (\<lambda>sprite. (ps_order sprite, tl_tile_id (ps_tile sprite))) (polychrome_sprites s),
       surfaces := sort_key su_order (surfaces s)\<rparr>"

section \<open>Batches\<close>

datatype primitive_kind =
  KShadow | KQuad | KPath | KUnderline | KMonochromeSprite | KSubpixelSprite | KPolychromeSprite | KSurface

text \<open>The derived \<^verbatim>\<open>Ord\<close>: declaration order.\<close>

fun kind_index :: "primitive_kind \<Rightarrow> nat" where
  "kind_index KShadow = 0" | "kind_index KQuad = 1" | "kind_index KPath = 2" | "kind_index KUnderline = 3"
| "kind_index KMonochromeSprite = 4" | "kind_index KSubpixelSprite = 5" | "kind_index KPolychromeSprite = 6"
| "kind_index KSurface = 7"

lemma kind_index_inject [simp]: "kind_index k = kind_index j \<longleftrightarrow> k = j"
  by (cases k; cases j) simp_all

instantiation primitive_kind :: linorder
begin

definition less_eq_primitive_kind :: "primitive_kind \<Rightarrow> primitive_kind \<Rightarrow> bool" where
  "less_eq_primitive_kind k j \<longleftrightarrow> kind_index k \<le> kind_index j"

definition less_primitive_kind :: "primitive_kind \<Rightarrow> primitive_kind \<Rightarrow> bool" where
  "less_primitive_kind k j \<longleftrightarrow> kind_index k < kind_index j"

instance
  by standard (auto simp: less_eq_primitive_kind_def less_primitive_kind_def)

end

record 'u batch_iterator =
  shadows_start :: nat
  shadows_iter :: "'u shadow list"
  quads_start :: nat
  quads_iter :: "'u quad list"
  paths_start :: nat
  paths_iter :: "'u path list"
  underlines_start :: nat
  underlines_iter :: "'u underline list"
  monochrome_sprites_start :: nat
  monochrome_sprites_iter :: "'u monochrome_sprite list"
  subpixel_sprites_start :: nat
  subpixel_sprites_iter :: "'u subpixel_sprite list"
  polychrome_sprites_start :: nat
  polychrome_sprites_iter :: "'u polychrome_sprite list"
  surfaces_start :: nat
  surfaces_iter :: "'u paint_surface list"

datatype primitive_batch =
  Shadows nat nat | Quads nat nat | Paths nat nat | Underlines nat nat
| MonochromeSprites atlas_texture_id nat nat | SubpixelSprites atlas_texture_id nat nat
| PolychromeSprites atlas_texture_id nat nat | Surfaces nat nat

definition scene_batches :: "'u scene \<Rightarrow> 'u batch_iterator" where
  "scene_batches s =
     \<lparr>shadows_start = 0, shadows_iter = shadows s, quads_start = 0, quads_iter = quads s,
      paths_start = 0, paths_iter = paths s, underlines_start = 0, underlines_iter = underlines s,
      monochrome_sprites_start = 0, monochrome_sprites_iter = monochrome_sprites s,
      subpixel_sprites_start = 0, subpixel_sprites_iter = subpixel_sprites s,
      polychrome_sprites_start = 0, polychrome_sprites_iter = polychrome_sprites s,
      surfaces_start = 0, surfaces_iter = surfaces s\<rparr>"

definition u32_max :: nat where
  "u32_max = 4294967295"

text \<open>The loop \<^verbatim>\<open>while iter.next_if(p).is_some() { end += 1 }\<close>.\<close>

fun next_while :: "('a \<Rightarrow> bool) \<Rightarrow> 'a list \<Rightarrow> nat \<Rightarrow> 'a list \<times> nat" where
  "next_while p [] end_index = ([], end_index)"
| "next_while p (x # xs) end_index = (if p x then next_while p xs (end_index + 1) else (x # xs, end_index))"

definition orders_and_kinds :: "'u batch_iterator \<Rightarrow> (nat option \<times> primitive_kind) list" where
  "orders_and_kinds it =
     [(map_option sh_order (first_opt (shadows_iter it)), KShadow),
      (map_option q_order (first_opt (quads_iter it)), KQuad),
      (map_option pa_order (first_opt (paths_iter it)), KPath),
      (map_option u_order (first_opt (underlines_iter it)), KUnderline),
      (map_option ms_order (first_opt (monochrome_sprites_iter it)), KMonochromeSprite),
      (map_option ss_order (first_opt (subpixel_sprites_iter it)), KSubpixelSprite),
      (map_option ps_order (first_opt (polychrome_sprites_iter it)), KPolychromeSprite),
      (map_option su_order (first_opt (surfaces_iter it)), KSurface)]"

definition order_or_max :: "nat option \<Rightarrow> nat" where
  "order_or_max order = (case order of None \<Rightarrow> u32_max | Some n \<Rightarrow> n)"

fun next_batch :: "'u batch_iterator \<Rightarrow> primitive_kind \<Rightarrow> nat \<times> primitive_kind \<Rightarrow> (primitive_batch \<times> 'u batch_iterator) option" where
  "next_batch it KShadow limit =
     (let start = shadows_start it;
          (rest, end_index) = next_while (\<lambda>shadow. (sh_order shadow, KShadow) < limit) (tl (shadows_iter it)) (start + 1)
      in Some (Shadows start end_index, it\<lparr>shadows_start := end_index, shadows_iter := rest\<rparr>))"
| "next_batch it KQuad limit =
     (let start = quads_start it;
          (rest, end_index) = next_while (\<lambda>quad. (q_order quad, KQuad) < limit) (tl (quads_iter it)) (start + 1)
      in Some (Quads start end_index, it\<lparr>quads_start := end_index, quads_iter := rest\<rparr>))"
| "next_batch it KPath limit =
     (let start = paths_start it;
          (rest, end_index) = next_while (\<lambda>path. (pa_order path, KPath) < limit) (tl (paths_iter it)) (start + 1)
      in Some (Paths start end_index, it\<lparr>paths_start := end_index, paths_iter := rest\<rparr>))"
| "next_batch it KUnderline limit =
     (let start = underlines_start it;
          (rest, end_index) = next_while (\<lambda>underline. (u_order underline, KUnderline) < limit) (tl (underlines_iter it)) (start + 1)
      in Some (Underlines start end_index, it\<lparr>underlines_start := end_index, underlines_iter := rest\<rparr>))"
| "next_batch it KMonochromeSprite limit = do {
     sprite \<leftarrow> first_opt (monochrome_sprites_iter it);
     let texture_id = tl_texture_id (ms_tile sprite);
     let start = monochrome_sprites_start it;
     let (rest, end_index) =
       next_while (\<lambda>sprite. (ms_order sprite, KMonochromeSprite) < limit \<and> tl_texture_id (ms_tile sprite) = texture_id)
         (tl (monochrome_sprites_iter it)) (start + 1);
     Some (MonochromeSprites texture_id start end_index,
           it\<lparr>monochrome_sprites_start := end_index, monochrome_sprites_iter := rest\<rparr>) }"
| "next_batch it KSubpixelSprite limit = do {
     sprite \<leftarrow> first_opt (subpixel_sprites_iter it);
     let texture_id = tl_texture_id (ss_tile sprite);
     let start = subpixel_sprites_start it;
     let (rest, end_index) =
       next_while (\<lambda>sprite. (ss_order sprite, KSubpixelSprite) < limit \<and> tl_texture_id (ss_tile sprite) = texture_id)
         (tl (subpixel_sprites_iter it)) (start + 1);
     Some (SubpixelSprites texture_id start end_index,
           it\<lparr>subpixel_sprites_start := end_index, subpixel_sprites_iter := rest\<rparr>) }"
| "next_batch it KPolychromeSprite limit = do {
     sprite \<leftarrow> first_opt (polychrome_sprites_iter it);
     let texture_id = tl_texture_id (ps_tile sprite);
     let start = polychrome_sprites_start it;
     let (rest, end_index) =
       next_while (\<lambda>sprite. (ps_order sprite, KPolychromeSprite) < limit \<and> tl_texture_id (ps_tile sprite) = texture_id)
         (tl (polychrome_sprites_iter it)) (start + 1);
     Some (PolychromeSprites texture_id start end_index,
           it\<lparr>polychrome_sprites_start := end_index, polychrome_sprites_iter := rest\<rparr>) }"
| "next_batch it KSurface limit =
     (let start = surfaces_start it;
          (rest, end_index) = next_while (\<lambda>surface. (su_order surface, KSurface) < limit) (tl (surfaces_iter it)) (start + 1)
      in Some (Surfaces start end_index, it\<lparr>surfaces_start := end_index, surfaces_iter := rest\<rparr>))"

text \<open>\<^verbatim>\<open>BatchIterator::next\<close>: the outer option is a panic, the inner one the end of the iteration.\<close>

definition iterator_next :: "'u batch_iterator \<Rightarrow> (primitive_batch option \<times> 'u batch_iterator) option" where
  "iterator_next it = do {
     let sorted_pairs = sort_key (\<lambda>(order, kind). (order_or_max order, kind)) (orders_and_kinds it);
     first \<leftarrow> get_opt sorted_pairs 0;
     second \<leftarrow> get_opt sorted_pairs 1;
     (case fst first of
        Some _ \<Rightarrow> do {
          (batch, it) \<leftarrow> next_batch it (snd first) (order_or_max (fst second), snd second);
          Some (Some batch, it) }
      | None \<Rightarrow> Some (None, it)) }"

definition remaining :: "'u batch_iterator \<Rightarrow> nat" where
  "remaining it =
     length (shadows_iter it) + length (quads_iter it) + length (paths_iter it) + length (underlines_iter it) +
     length (monochrome_sprites_iter it) + length (subpixel_sprites_iter it) + length (polychrome_sprites_iter it) +
     length (surfaces_iter it)"

lemma next_while_eq: "next_while p xs n = (dropWhile p xs, n + length (takeWhile p xs))"
  by (induction xs arbitrary: n) simp_all

text \<open>What the iterator still has of a kind: the orders and, for sprites, the textures.\<close>

fun pend :: "'u batch_iterator \<Rightarrow> primitive_kind \<Rightarrow> (nat \<times> atlas_texture_id option) list" where
  "pend it KShadow = map (\<lambda>x. (sh_order x, None)) (shadows_iter it)"
| "pend it KQuad = map (\<lambda>x. (q_order x, None)) (quads_iter it)"
| "pend it KPath = map (\<lambda>x. (pa_order x, None)) (paths_iter it)"
| "pend it KUnderline = map (\<lambda>x. (u_order x, None)) (underlines_iter it)"
| "pend it KMonochromeSprite = map (\<lambda>x. (ms_order x, Some (tl_texture_id (ms_tile x)))) (monochrome_sprites_iter it)"
| "pend it KSubpixelSprite = map (\<lambda>x. (ss_order x, Some (tl_texture_id (ss_tile x)))) (subpixel_sprites_iter it)"
| "pend it KPolychromeSprite = map (\<lambda>x. (ps_order x, Some (tl_texture_id (ps_tile x)))) (polychrome_sprites_iter it)"
| "pend it KSurface = map (\<lambda>x. (su_order x, None)) (surfaces_iter it)"

fun start_of :: "'u batch_iterator \<Rightarrow> primitive_kind \<Rightarrow> nat" where
  "start_of it KShadow = shadows_start it"
| "start_of it KQuad = quads_start it"
| "start_of it KPath = paths_start it"
| "start_of it KUnderline = underlines_start it"
| "start_of it KMonochromeSprite = monochrome_sprites_start it"
| "start_of it KSubpixelSprite = subpixel_sprites_start it"
| "start_of it KPolychromeSprite = polychrome_sprites_start it"
| "start_of it KSurface = surfaces_start it"

fun batch_kind :: "primitive_batch \<Rightarrow> primitive_kind" where
  "batch_kind (Shadows a e) = KShadow"
| "batch_kind (Quads a e) = KQuad"
| "batch_kind (Paths a e) = KPath"
| "batch_kind (Underlines a e) = KUnderline"
| "batch_kind (MonochromeSprites t a e) = KMonochromeSprite"
| "batch_kind (SubpixelSprites t a e) = KSubpixelSprite"
| "batch_kind (PolychromeSprites t a e) = KPolychromeSprite"
| "batch_kind (Surfaces a e) = KSurface"

fun batch_range :: "primitive_batch \<Rightarrow> nat \<times> nat" where
  "batch_range (Shadows a e) = (a, e)"
| "batch_range (Quads a e) = (a, e)"
| "batch_range (Paths a e) = (a, e)"
| "batch_range (Underlines a e) = (a, e)"
| "batch_range (MonochromeSprites t a e) = (a, e)"
| "batch_range (SubpixelSprites t a e) = (a, e)"
| "batch_range (PolychromeSprites t a e) = (a, e)"
| "batch_range (Surfaces a e) = (a, e)"

fun batch_texture :: "primitive_batch \<Rightarrow> atlas_texture_id option" where
  "batch_texture (MonochromeSprites t a e) = Some t"
| "batch_texture (SubpixelSprites t a e) = Some t"
| "batch_texture (PolychromeSprites t a e) = Some t"
| "batch_texture _ = None"

definition all_kinds :: "primitive_kind list" where
  "all_kinds = [KShadow, KQuad, KPath, KUnderline, KMonochromeSprite, KSubpixelSprite, KPolychromeSprite, KSurface]"

lemma in_all_kinds [simp]: "k \<in> set all_kinds"
  by (cases k) (simp_all add: all_kinds_def)

lemma distinct_all_kinds [simp]: "distinct all_kinds"
  by (simp add: all_kinds_def)

text \<open>The first element and those after it that the loop accepts.\<close>

definition taken :: "'u batch_iterator \<Rightarrow> primitive_kind \<Rightarrow> nat \<times> primitive_kind \<Rightarrow> nat" where
  "taken it k limit =
     Suc (length (takeWhile (\<lambda>(order, texture). (order, k) < limit \<and> texture = snd (hd (pend it k))) (tl (pend it k))))"

lemma dropWhile_drop: "dropWhile p xs = drop (length (takeWhile p xs)) xs"
  by (metis append_eq_conv_conj takeWhile_dropWhile_id)

lemma length_takeWhile_map: "length (takeWhile p (map f xs)) = length (takeWhile (\<lambda>x. p (f x)) xs)"
  by (simp add: takeWhile_map o_def)

lemma fun_upd_kinds:
  "f = g(k := v) \<longleftrightarrow> f k = v \<and> (\<forall>j \<in> set all_kinds. j \<noteq> k \<longrightarrow> f j = g j)"
  by auto

lemmas next_batch_simps = Let_def next_while_eq taken_def length_takeWhile_map dropWhile_drop drop_map fun_upd_kinds all_kinds_def

lemma next_batch_ok:
  assumes "pend it k \<noteq> []"
  shows "\<exists>b it'. next_batch it k limit = Some (b, it') \<and> batch_kind b = k \<and>
    batch_range b = (start_of it k, start_of it k + taken it k limit) \<and> batch_texture b = snd (hd (pend it k)) \<and>
    pend it' = (pend it)(k := drop (taken it k limit) (pend it k)) \<and>
    start_of it' = (start_of it)(k := start_of it k + taken it k limit)"
proof (cases k)
  case KShadow
  then show ?thesis using assms by (cases "shadows_iter it") (simp_all add: next_batch_simps)
next
  case KQuad
  then show ?thesis using assms by (cases "quads_iter it") (simp_all add: next_batch_simps)
next
  case KPath
  then show ?thesis using assms by (cases "paths_iter it") (simp_all add: next_batch_simps)
next
  case KUnderline
  then show ?thesis using assms by (cases "underlines_iter it") (simp_all add: next_batch_simps)
next
  case KMonochromeSprite
  then show ?thesis using assms by (cases "monochrome_sprites_iter it") (simp_all add: next_batch_simps)
next
  case KSubpixelSprite
  then show ?thesis using assms by (cases "subpixel_sprites_iter it") (simp_all add: next_batch_simps)
next
  case KPolychromeSprite
  then show ?thesis using assms by (cases "polychrome_sprites_iter it") (simp_all add: next_batch_simps)
next
  case KSurface
  then show ?thesis using assms by (cases "surfaces_iter it") (simp_all add: next_batch_simps)
qed

definition head_key :: "'u batch_iterator \<Rightarrow> primitive_kind \<Rightarrow> nat \<times> primitive_kind" where
  "head_key it k = (order_or_max (map_option fst (first_opt (pend it k))), k)"

lemma first_opt_map [simp]: "first_opt (map f xs) = map_option f (first_opt xs)"
  by (cases xs) simp_all

lemma orders_and_kinds_pend: "orders_and_kinds it = map (\<lambda>k. (map_option fst (first_opt (pend it k)), k)) all_kinds"
  by (simp add: orders_and_kinds_def all_kinds_def option.map_comp o_def)

text \<open>The iterator picks the kind whose next primitive is the least, up to the next of any other kind.\<close>

lemma iterator_picks:
  obtains k second where
    "iterator_next it =
       (if pend it k = [] then Some (None, it)
        else do { (batch, it) \<leftarrow> next_batch it k (head_key it second); Some (Some batch, it) })"
    "k \<noteq> second" "head_key it k \<le> head_key it second" "\<And>j. j \<noteq> k \<Longrightarrow> head_key it second \<le> head_key it j"
proof -
  let ?f = "\<lambda>(order, kind). (order_or_max order, kind :: primitive_kind)"
    and ?pair = "\<lambda>k. (map_option fst (first_opt (pend it k)), k)"
  let ?xs = "sort_key ?f (orders_and_kinds it)"
  have "Suc (Suc 0) \<le> length ?xs" by (simp add: orders_and_kinds_def)
  then obtain p q rest where xs: "?xs = p # q # rest" by (metis Suc_le_length_iff)
  have set_xs: "set ?xs = range ?pair" by (auto simp: orders_and_kinds_pend)
  then obtain k second where k: "p = ?pair k" "q = ?pair second" using xs by (metis (no_types, lifting) imageE list.set_intros)
  have key: "?f (?pair j) = head_key it j" for j by (simp add: head_key_def)
  have sorted: "sorted (map ?f ?xs)" by simp
  have "distinct (orders_and_kinds it)" by (simp add: orders_and_kinds_pend distinct_map inj_on_def)
  then have dist: "distinct ?xs" by (metis distinct_sort)
  show thesis
  proof (rule that)
    show "k \<noteq> second" using dist xs k by auto
    show "head_key it k \<le> head_key it second" using sorted xs k key by (metis list.simps(9) sorted2)
    show "head_key it second \<le> head_key it j" if "j \<noteq> k" for j
    proof -
      have "?pair j \<in> set (q # rest)" using set_xs that k(1) unfolding xs by auto
      moreover have "\<forall>y \<in> set (q # rest). ?f q \<le> ?f y" using sorted unfolding xs by auto
      ultimately show ?thesis using key k(2) by metis
    qed
    show "iterator_next it = (if pend it k = [] then Some (None, it)
        else do { (batch, it) \<leftarrow> next_batch it k (head_key it second); Some (Some batch, it) })"
      unfolding iterator_next_def Let_def xs by (cases "pend it k") (simp_all add: k head_key_def)
  qed
qed

definition advances :: "'u batch_iterator \<Rightarrow> primitive_batch \<Rightarrow> 'u batch_iterator \<Rightarrow> primitive_kind \<Rightarrow> nat \<Rightarrow> bool" where
  "advances it b it' k n \<longleftrightarrow>
     0 < n \<and> n \<le> length (pend it k) \<and> batch_kind b = k \<and> batch_range b = (start_of it k, start_of it k + n) \<and>
     (\<forall>x \<in> set (take n (pend it k)). snd x = batch_texture b \<and> (\<forall>j. j \<noteq> k \<longrightarrow> (fst x, k) \<le> head_key it j)) \<and>
     pend it' = (pend it)(k := drop n (pend it k)) \<and> start_of it' = (start_of it)(k := start_of it k + n)"

lemma iterator_next_cases:
  obtains (finished) k where "iterator_next it = Some (None, it)" "pend it k = []" "\<And>j. (u32_max, k) \<le> head_key it j"
  | (batch) b it' k n where "iterator_next it = Some (Some b, it')" "advances it b it' k n"
proof -
  obtain k second where pick: "iterator_next it =
       (if pend it k = [] then Some (None, it)
        else do { (batch, it) \<leftarrow> next_batch it k (head_key it second); Some (Some batch, it) })"
    "k \<noteq> second" "head_key it k \<le> head_key it second" "\<And>j. j \<noteq> k \<Longrightarrow> head_key it second \<le> head_key it j"
    by (rule iterator_picks) blast
  show thesis
  proof (cases "pend it k")
    case Nil
    then have "head_key it k = (u32_max, k)" by (simp add: head_key_def order_or_max_def)
    then have "(u32_max, k) \<le> head_key it j" for j using pick(3,4) order_trans by (metis order_refl)
    then show thesis using Nil pick(1) finished by simp
  next
    case (Cons x xs)
    let ?limit = "head_key it second" and ?n = "taken it k (head_key it second)"
    obtain b it' where b: "next_batch it k ?limit = Some (b, it')" "batch_kind b = k"
      "batch_range b = (start_of it k, start_of it k + ?n)" "batch_texture b = snd (hd (pend it k))"
      "pend it' = (pend it)(k := drop ?n (pend it k))" "start_of it' = (start_of it)(k := start_of it k + ?n)"
      using next_batch_ok [of it k ?limit] Cons by auto
    let ?p = "\<lambda>(order, texture). (order, k) < ?limit \<and> texture = snd (hd (pend it k))"
    have n: "0 < ?n" "?n \<le> length (pend it k)" by (simp_all add: taken_def Cons length_takeWhile_le)
    have tk: "take ?n (pend it k) = x # takeWhile ?p xs"
      by (simp add: taken_def Cons) (metis append_eq_conv_conj takeWhile_dropWhile_id)
    have "(fst x, k) = head_key it k" by (simp add: head_key_def Cons order_or_max_def)
    then have "snd y = snd x \<and> (fst y, k) \<le> ?limit" if "y \<in> set (take ?n (pend it k))" for y
      using that pick(3) unfolding tk by (auto simp: Cons dest!: set_takeWhileD)
    then have "snd y = batch_texture b \<and> (\<forall>j. j \<noteq> k \<longrightarrow> (fst y, k) \<le> head_key it j)" if "y \<in> set (take ?n (pend it k))" for y
      using that b(4) Cons order_trans [OF _ pick(4)] by (simp del: less_eq_prod_simp)
    then have "advances it b it' k ?n" using n b by (simp add: advances_def)
    moreover have "iterator_next it = Some (Some b, it')" using pick(1) b(1) Cons by simp
    ultimately show thesis by (rule batch [rotated])
  qed
qed

lemma remaining_pend: "remaining it = sum_list (map (\<lambda>k. length (pend it k)) all_kinds)"
  by (simp add: remaining_def all_kinds_def)

lemma advances_remaining: "advances it b it' k n \<Longrightarrow> remaining it' < remaining it"
  unfolding remaining_pend advances_def by (cases k) (auto simp: all_kinds_def)

text \<open>All the batches that the iterator yields.\<close>

function collect_batches :: "'u batch_iterator \<Rightarrow> primitive_batch list option" where
  "collect_batches it =
     (case iterator_next it of
        None \<Rightarrow> None
      | Some (None, _) \<Rightarrow> Some []
      | Some (Some b, it') \<Rightarrow> map_option (Cons b) (collect_batches it'))"
  by pat_completeness auto

termination collect_batches
proof (relation "measure remaining")
  fix it it' :: "'u batch_iterator" and x o1 b
  assume "iterator_next it = Some x" "(o1, it') = x" "o1 = Some b"
  then show "(it', it) \<in> measure remaining"
    by (cases rule: iterator_next_cases [of it]) (auto dest: advances_remaining)
qed simp

declare collect_batches.simps [simp del]

section \<open>Batches are the sorted primitives\<close>

text \<open>
  The specification: every primitive of the scene as a triple of its order, its kind and its index, and
  these triples in lexicographic order.
\<close>

definition entries :: "'u scene \<Rightarrow> primitive_kind \<Rightarrow> (nat \<times> atlas_texture_id option) list" where
  "entries s k = pend (scene_batches s) k"

definition items_between :: "'u scene \<Rightarrow> primitive_kind \<Rightarrow> nat \<Rightarrow> nat \<Rightarrow> (nat \<times> primitive_kind \<times> nat) list" where
  "items_between s k a e = map (\<lambda>i. (fst (entries s k ! i), k, i)) [a..<e]"

definition scene_items :: "'u scene \<Rightarrow> (nat \<times> primitive_kind \<times> nat) list" where
  "scene_items s = concat (map (\<lambda>k. items_between s k 0 (length (entries s k))) all_kinds)"

definition batch_items :: "'u scene \<Rightarrow> primitive_batch \<Rightarrow> (nat \<times> primitive_kind \<times> nat) list" where
  "batch_items s b = items_between s (batch_kind b) (fst (batch_range b)) (snd (batch_range b))"

definition kinds_sorted :: "'u scene \<Rightarrow> bool" where
  "kinds_sorted s \<longleftrightarrow> (\<forall>k. sorted (map fst (entries s k)))"

definition tracks :: "'u scene \<Rightarrow> 'u batch_iterator \<Rightarrow> bool" where
  "tracks s it \<longleftrightarrow> (\<forall>k. start_of it k \<le> length (entries s k) \<and> pend it k = drop (start_of it k) (entries s k))"

definition items_left :: "'u scene \<Rightarrow> 'u batch_iterator \<Rightarrow> (nat \<times> primitive_kind \<times> nat) list" where
  "items_left s it = concat (map (\<lambda>k. items_between s k (start_of it k) (length (entries s k))) all_kinds)"

lemma set_items_between [simp]:
  "(order, j, i) \<in> set (items_between s k a e) \<longleftrightarrow> j = k \<and> a \<le> i \<and> i < e \<and> order = fst (entries s k ! i)"
  by (auto simp: items_between_def)

lemma set_items_left:
  "(order, k, i) \<in> set (items_left s it) \<longleftrightarrow>
     start_of it k \<le> i \<and> i < length (entries s k) \<and> order = fst (entries s k ! i)"
  by (auto simp: items_left_def)

lemma kinds_sorted_nth:
  "kinds_sorted s \<Longrightarrow> i \<le> j \<Longrightarrow> j < length (entries s k) \<Longrightarrow> fst (entries s k ! i) \<le> fst (entries s k ! j)"
  using sorted_iff_nth_mono [of "map fst (entries s k)"] by (auto simp: kinds_sorted_def)

lemma sorted_items_between:
  assumes "kinds_sorted s" "e \<le> length (entries s k)"
  shows "sorted (items_between s k a e)"
proof -
  have "(fst (entries s k ! (a + i)), k, a + i) \<le> (fst (entries s k ! (a + j)), k, a + j)" if "i < j" "j < e - a" for i j
    using kinds_sorted_nth [OF assms(1), of "a + i" "a + j" k] that assms(2) by auto
  then show ?thesis by (simp add: items_between_def sorted_iff_nth_mono_less)
qed

lemma items_between_split:
  "a \<le> m \<Longrightarrow> m \<le> e \<Longrightarrow> items_between s k a e = items_between s k a m @ items_between s k m e"
  using upt_add_eq_append [of a m "e - m"] by (simp add: items_between_def)

lemma sort_least_first:
  assumes "mset xs = mset ys + mset zs" "sorted ys" "\<And>y z. y \<in> set ys \<Longrightarrow> z \<in> set zs \<Longrightarrow> y \<le> z"
  shows "sort xs = ys @ sort (zs :: 'a::linorder list)"
  using assms by (intro properties_for_sort) (auto simp: sorted_append)

lemma mset_items_left:
  assumes "start_of it' = (start_of it)(k := m)" "start_of it k \<le> m" "m \<le> length (entries s k)"
  shows "mset (items_left s it) = mset (items_between s k (start_of it k) m) + mset (items_left s it')"
  using assms(2,3) items_between_split [OF assms(2,3), of s k]
  by (cases k) (simp_all add: items_left_def assms(1) all_kinds_def)

lemma head_key_least:
  assumes "kinds_sorted s" "tracks s it" "start_of it j \<le> i" "i < length (entries s j)"
  shows "head_key it j \<le> (fst (entries s j ! i), j)"
proof -
  have eq: "pend it j = drop (start_of it j) (entries s j)" using assms(2) by (simp add: tracks_def)
  then have "first_opt (pend it j) = Some (entries s j ! start_of it j)"
    using assms(3,4) by (simp add: first_opt_def hd_drop_conv_nth Cons_nth_drop_Suc [symmetric])
  then have "head_key it j = (fst (entries s j ! start_of it j), j)" by (simp add: head_key_def order_or_max_def)
  moreover have "fst (entries s j ! start_of it j) \<le> fst (entries s j ! i)"
    using assms(1,3,4) by (rule kinds_sorted_nth)
  ultimately show ?thesis by simp
qed

lemma advances_sorted:
  assumes s: "kinds_sorted s" and t: "tracks s it" and adv: "advances it b it' k n"
  shows "tracks s it'" "sort (items_left s it) = batch_items s b @ sort (items_left s it')"
proof -
  let ?a = "start_of it k"
  have pend: "pend it k = drop ?a (entries s k)" and a: "?a \<le> length (entries s k)" using t by (simp_all add: tracks_def)
  have n: "?a + n \<le> length (entries s k)" and b: "batch_items s b = items_between s k ?a (?a + n)"
    and it': "start_of it' = (start_of it)(k := ?a + n)" "pend it' = (pend it)(k := drop n (pend it k))"
    using adv pend a by (auto simp: advances_def batch_items_def)
  show "tracks s it'" using t n by (auto simp: tracks_def it' pend add.commute)
  show "sort (items_left s it) = batch_items s b @ sort (items_left s it')"
    unfolding b
  proof (rule sort_least_first)
    show "mset (items_left s it) = mset (items_between s k ?a (?a + n)) + mset (items_left s it')"
      using n by (intro mset_items_left it'(1)) simp_all
    show "sorted (items_between s k ?a (?a + n))" by (rule sorted_items_between [OF s n])
    fix y z
    assume y: "y \<in> set (items_between s k ?a (?a + n))" and z: "z \<in> set (items_left s it')"
    obtain i where i: "y = (fst (entries s k ! i), k, i)" "?a \<le> i" "i < ?a + n" using y by (auto simp: items_between_def)
    obtain order j l where zz: "z = (order, j, l)" "start_of it' j \<le> l" "l < length (entries s j)" "order = fst (entries s j ! l)"
      using z set_items_left by (metis prod_cases3)
    show "y \<le> z"
    proof (cases "j = k")
      case True
      then have "i < l" using i zz it' by simp
      then show ?thesis using i(1) zz(1,3,4) True kinds_sorted_nth [OF s, of i l k] by auto
    next
      case False
      have "pend it k ! (i - ?a) = entries s k ! i" "i - ?a < n" using pend a i by simp_all
      then have "entries s k ! i \<in> set (take n (pend it k))"
        using adv by (auto simp: advances_def in_set_conv_nth intro!: exI [of _ "i - ?a"])
      then have "(fst (entries s k ! i), k) \<le> head_key it j" using adv False by (simp add: advances_def)
      also have "head_key it j \<le> (order, j)" using head_key_least [OF s t] zz False it' by simp
      finally show ?thesis using False i zz by auto
    qed
  qed
qed

text \<open>What is right of one batch: it is not empty, within its vector, and its sprites share its texture.\<close>

definition batch_ok :: "'u scene \<Rightarrow> primitive_batch \<Rightarrow> bool" where
  "batch_ok s b \<longleftrightarrow>
     fst (batch_range b) < snd (batch_range b) \<and> snd (batch_range b) \<le> length (entries s (batch_kind b)) \<and>
     (\<forall>i. fst (batch_range b) \<le> i \<and> i < snd (batch_range b) \<longrightarrow> snd (entries s (batch_kind b) ! i) = batch_texture b)"

lemma advances_batch_ok:
  assumes "tracks s it" "advances it b it' k n"
  shows "batch_ok s b"
proof -
  let ?a = "start_of it k"
  have pend: "pend it k = drop ?a (entries s k)" and a: "?a \<le> length (entries s k)" using assms(1) by (simp_all add: tracks_def)
  have b: "batch_kind b = k" "batch_range b = (?a, ?a + n)" "0 < n" "n \<le> length (pend it k)"
    "\<forall>x \<in> set (take n (pend it k)). snd x = batch_texture b"
    using assms(2) by (auto simp: advances_def)
  have "snd (entries s k ! i) = batch_texture b" if "?a \<le> i" "i < ?a + n" for i
  proof -
    have "take n (pend it k) ! (i - ?a) = entries s k ! i" "i - ?a < length (take n (pend it k))" using pend a that b(4) by auto
    then show ?thesis using b(5) nth_mem by metis
  qed
  then show ?thesis using b pend a by (auto simp: batch_ok_def)
qed

definition orders_fit :: "'u scene \<Rightarrow> bool" where
  "orders_fit s \<longleftrightarrow> (\<forall>k. \<forall>x \<in> set (entries s k). fst x < u32_max)"

lemma collect_batches_sorted:
  assumes "kinds_sorted s" "orders_fit s"
  shows "tracks s it \<Longrightarrow>
    \<exists>bs. collect_batches it = Some bs \<and> concat (map (batch_items s) bs) = sort (items_left s it) \<and> (\<forall>b \<in> set bs. batch_ok s b)"
proof (induction "remaining it" arbitrary: it rule: less_induct)
  case less
  show ?case
  proof (cases rule: iterator_next_cases [of it])
    case (finished k)
    have "pend it j = []" for j
    proof (rule ccontr)
      assume "pend it j \<noteq> []"
      then obtain x xs where x: "pend it j = x # xs" by (cases "pend it j") auto
      then have "x \<in> set (drop (start_of it j) (entries s j))" using less.prems by (metis tracks_def list.set_intros(1))
      then have "fst x < u32_max" using assms(2) by (metis orders_fit_def in_set_dropD)
      moreover have "head_key it j = (fst x, j)" by (simp add: head_key_def order_or_max_def x)
      ultimately show False using finished(3) [of j] by auto
    qed
    then have "start_of it j = length (entries s j)" for j
      using less.prems by (metis tracks_def drop_eq_Nil le_antisym)
    then have "items_left s it = []" by (simp add: items_left_def items_between_def)
    then show ?thesis using finished(1) by (simp add: collect_batches.simps)
  next
    case (batch b it' k n)
    note step = advances_sorted [OF assms(1) less.prems batch(2)]
    obtain bs where "collect_batches it' = Some bs" "concat (map (batch_items s) bs) = sort (items_left s it')" "\<forall>b \<in> set bs. batch_ok s b"
      using less.hyps [OF advances_remaining [OF batch(2)] step(1)] by blast
    then show ?thesis using batch(1) step(2) advances_batch_ok [OF less.prems batch(2)]
      by (simp add: collect_batches.simps [of it])
  qed
qed

lemma tracks_start: "tracks s (scene_batches s)" "items_left s (scene_batches s) = scene_items s"
proof -
  have "start_of (scene_batches s) k = 0" for k by (cases k) (simp_all add: scene_batches_def)
  then show "tracks s (scene_batches s)" "items_left s (scene_batches s) = scene_items s"
    by (simp_all add: tracks_def entries_def items_left_def scene_items_def)
qed

lemma sorted_lex_fst: "sorted (map (\<lambda>x. (f x, g x)) xs) \<Longrightarrow> sorted (map f xs)"
  by (induction xs) auto

lemma finish_sorted: "kinds_sorted (scene_finish s)"
proof -
  have "sorted (map fst (entries (scene_finish s) k))" for k
    by (cases k) (simp_all add: entries_def scene_batches_def scene_finish_def o_def sorted_lex_fst [OF sorted_sort_key])
  then show ?thesis by (simp add: kinds_sorted_def)
qed

section \<open>The orders of a scene\<close>

fun prim_kind :: "'u primitive \<Rightarrow> primitive_kind" where
  "prim_kind (PShadow x) = KShadow" | "prim_kind (PQuad x) = KQuad" | "prim_kind (PPath x) = KPath"
| "prim_kind (PUnderline x) = KUnderline" | "prim_kind (PMonochromeSprite x) = KMonochromeSprite"
| "prim_kind (PSubpixelSprite x) = KSubpixelSprite" | "prim_kind (PPolychromeSprite x) = KPolychromeSprite"
| "prim_kind (PSurface x) = KSurface"

fun prim_order :: "'u primitive \<Rightarrow> nat" where
  "prim_order (PShadow x) = sh_order x" | "prim_order (PQuad x) = q_order x" | "prim_order (PPath x) = pa_order x"
| "prim_order (PUnderline x) = u_order x" | "prim_order (PMonochromeSprite x) = ms_order x"
| "prim_order (PSubpixelSprite x) = ss_order x" | "prim_order (PPolychromeSprite x) = ps_order x"
| "prim_order (PSurface x) = su_order x"

fun prim_texture :: "'u primitive \<Rightarrow> atlas_texture_id option" where
  "prim_texture (PMonochromeSprite x) = Some (tl_texture_id (ms_tile x))"
| "prim_texture (PSubpixelSprite x) = Some (tl_texture_id (ss_tile x))"
| "prim_texture (PPolychromeSprite x) = Some (tl_texture_id (ps_tile x))"
| "prim_texture _ = None"

definition prim_clipped :: "'u::linordered_ab_group_add primitive \<Rightarrow> 'u bounds" where
  "prim_clipped p = bd_intersect (prim_bounds p) (cm_bounds (prim_content_mask p))"

text \<open>The vector of a kind.\<close>

fun kind_prims :: "'u scene \<Rightarrow> primitive_kind \<Rightarrow> 'u primitive list" where
  "kind_prims s KShadow = map PShadow (shadows s)"
| "kind_prims s KQuad = map PQuad (quads s)"
| "kind_prims s KPath = map PPath (paths s)"
| "kind_prims s KUnderline = map PUnderline (underlines s)"
| "kind_prims s KMonochromeSprite = map PMonochromeSprite (monochrome_sprites s)"
| "kind_prims s KSubpixelSprite = map PSubpixelSprite (subpixel_sprites s)"
| "kind_prims s KPolychromeSprite = map PPolychromeSprite (polychrome_sprites s)"
| "kind_prims s KSurface = map PSurface (surfaces s)"

lemma entries_kind_prims: "entries s k = map (\<lambda>p. (prim_order p, prim_texture p)) (kind_prims s k)"
  by (cases k) (simp_all add: entries_def scene_batches_def)

text \<open>The primitives that were painted, in the order of painting.\<close>

fun painted :: "'u paint_operation list \<Rightarrow> 'u primitive list" where
  "painted [] = []"
| "painted (OPrimitive p # ops) = p # painted ops"
| "painted (_ # ops) = painted ops"

lemma painted_append [simp]: "painted (xs @ ys) = painted xs @ painted ys"
  by (induction xs rule: painted.induct) simp_all

text \<open>
  The specification of the orders. A scene lays out regions: the bounds of a layer when it opens, and the clipped
  bounds of a primitive that is painted outside all layers. Every painted primitive belongs to one region, its own or
  the one of the innermost open layer. The layout is the regions so far, those of the open layers, and the region of each
  painted primitive, by index.
\<close>

type_synonym 'u layout = "'u bounds list \<times> nat list \<times> nat list"

fun layout_step :: "'u::linordered_ab_group_add paint_operation \<Rightarrow> 'u layout \<Rightarrow> 'u layout" where
  "layout_step (StartLayer b) (regions, opened, owner) = (regions @ [b], opened @ [length regions], owner)"
| "layout_step EndLayer (regions, opened, owner) = (regions, butlast opened, owner)"
| "layout_step (OPrimitive p) (regions, opened, owner) =
     (case last_opt opened of
        Some i \<Rightarrow> (regions, opened, owner @ [i])
      | None \<Rightarrow> (regions @ [prim_clipped p], opened, owner @ [length regions]))"

definition layout_of :: "'u::linordered_ab_group_add paint_operation list \<Rightarrow> 'u layout" where
  "layout_of ops = fold layout_step ops ([], [], [])"

lemma layout_of_simps [simp]:
  "layout_of [] = ([], [], [])"
  "layout_of (ops @ [x]) = layout_step x (layout_of ops)"
  by (simp_all add: layout_of_def)

definition orders_inv :: "'u::linordered_ab_group_add bounds_tree \<Rightarrow> nat list \<Rightarrow> 'u paint_operation list \<Rightarrow> bool" where
  "orders_inv tree layers ops \<longleftrightarrow>
     (case layout_of ops of (regions, opened, owner) \<Rightarrow>
        let orders = stack_orders [] regions in
        bt_inv tree \<and> bt_leaves tree = zip regions orders \<and>
        (\<forall>i \<in> set opened \<union> set owner. i < length regions) \<and>
        layers = map ((!) orders) opened \<and> map prim_order (painted ops) = map ((!) orders) owner)"

definition vectors_inv :: "'u::linordered_ab_group_add scene \<Rightarrow> bool" where
  "vectors_inv s \<longleftrightarrow>
     (\<forall>k. kind_prims s k = filter (\<lambda>p. prim_kind p = k) (painted (paint_operations s))) \<and>
     (\<forall>p \<in> set (painted (paint_operations s)). \<not> bd_is_empty (prim_clipped p)) \<and>
     (\<forall>i < length (paths s). pa_id (paths s ! i) = i)"

definition scene_inv :: "'u::linordered_ab_group_add scene \<Rightarrow> bool" where
  "scene_inv s \<longleftrightarrow> orders_inv (primitive_bounds s) (layer_stack s) (paint_operations s) \<and> vectors_inv s"

lemma stack_orders_snoc:
  "stack_orders placed (bs @ [b]) =
     stack_orders placed bs @ [Suc (max_overlap (placed @ zip bs (stack_orders placed bs)) b)]"
  by (induction bs arbitrary: placed) (simp_all add: Let_def)

lemma map_nth_snoc: "\<forall>i \<in> set is. i < length xs \<Longrightarrow> map ((!) (xs @ ys)) is = map ((!) xs) is"
  by (simp add: nth_append)

lemma orders_inv_insert:
  assumes "orders_inv tree layers ops"
  shows "\<exists>tree' order. bt_insert tree b = Some (tree', order) \<and>
    orders_inv tree' (layers @ [order]) (ops @ [StartLayer b]) \<and>
    (\<forall>p. layers = [] \<longrightarrow> prim_clipped p = b \<longrightarrow> prim_order p = order \<longrightarrow> orders_inv tree' layers (ops @ [OPrimitive p]))"
proof -
  obtain regions opened owner where lay: "layout_of ops = (regions, opened, owner)" by (metis prod_cases3)
  let ?orders = "stack_orders [] regions"
  let ?order = "Suc (max_overlap (zip regions ?orders) b)"
  have inv: "bt_inv tree" "bt_leaves tree = zip regions ?orders"
    "\<forall>i \<in> set opened. i < length regions" "\<forall>i \<in> set owner. i < length regions"
    "layers = map ((!) ?orders) opened" "map prim_order (painted ops) = map ((!) ?orders) owner"
    using assms by (auto simp: orders_inv_def lay Let_def)
  obtain tree' where t: "bt_insert tree b = Some (tree', ?order)" "bt_inv tree'"
    "bt_leaves tree' = zip regions ?orders @ [(b, ?order)]"
    using z_index.insert_one_ok [OF inv(1), of b] unfolding inv(2) by blast
  have snoc: "stack_orders [] (regions @ [b]) = ?orders @ [?order]" by (simp add: stack_orders_snoc)
  have "\<forall>i \<in> set opened \<union> set owner. i < Suc (length regions)" using inv(3,4) by auto
  then have "orders_inv tree' (layers @ [?order]) (ops @ [StartLayer b])"
    "\<forall>p. layers = [] \<longrightarrow> prim_clipped p = b \<longrightarrow> prim_order p = ?order \<longrightarrow> orders_inv tree' layers (ops @ [OPrimitive p])"
    using inv t by (auto simp: orders_inv_def lay snoc Let_def map_nth_snoc nth_append cong: map_cong)
  then show ?thesis using t(1) by blast
qed

lemma orders_inv_layer:
  assumes "orders_inv tree layers ops" "last_opt layers = Some (prim_order p)"
  shows "orders_inv tree layers (ops @ [OPrimitive p])"
  using assms by (auto simp: orders_inv_def Let_def last_opt_def last_map split: prod.splits if_splits)

lemma orders_inv_pop: "orders_inv tree layers ops \<Longrightarrow> orders_inv tree (butlast layers) (ops @ [EndLayer])"
  by (auto simp: orders_inv_def Let_def map_butlast split: prod.splits dest: in_set_butlastD)

lemma kind_prims_updates [simp]:
  "kind_prims (s\<lparr>paint_operations := ops\<rparr>) k = kind_prims s k"
  "kind_prims (s\<lparr>primitive_bounds := tree\<rparr>) k = kind_prims s k"
  "kind_prims (s\<lparr>layer_stack := layers\<rparr>) k = kind_prims s k"
  by (cases k; simp)+

lemma place_primitive_ok:
  assumes "place_primitive s order p = (s', p')"
  shows "paint_operations s' = paint_operations s" "primitive_bounds s' = primitive_bounds s" "layer_stack s' = layer_stack s"
    "prim_order p' = order" "prim_kind p' = prim_kind p" "prim_clipped p' = prim_clipped p"
    "kind_prims s' k = (if k = prim_kind p then kind_prims s k @ [p'] else kind_prims s k)"
    "paths s' = paths s \<or> (\<exists>path. paths s' = paths s @ [path] \<and> pa_id path = length (paths s))"
  using assms by (cases p; cases k; auto simp: Let_def prim_clipped_def)+

lemma vectors_inv_place:
  assumes "vectors_inv s" "place_primitive s0 order p = (s', p')" "\<not> bd_is_empty (prim_clipped p)"
    "\<And>k. kind_prims s0 k = kind_prims s k" "paths s0 = paths s"
  shows "vectors_inv (s'\<lparr>paint_operations := paint_operations s @ [OPrimitive p']\<rparr>)"
  using assms(1,3,4,5) place_primitive_ok [OF assms(2)]
  by (auto simp: vectors_inv_def nth_append less_Suc_eq)

text \<open>The three outcomes of an insertion: nothing of the primitive is visible, it joins a layer, it gets its own region.\<close>

lemma insert_primitive_ok:
  assumes inv: "scene_inv s"
  shows "if bd_is_empty (prim_clipped p) then insert_primitive s p = Some s
    else \<exists>s' p'. insert_primitive s p = Some s' \<and> scene_inv s' \<and> paint_operations s' = paint_operations s @ [OPrimitive p'] \<and>
      (\<exists>s0 order. p' = snd (place_primitive s0 order p))"
proof (cases "bd_is_empty (prim_clipped p)")
  case True
  then show ?thesis by (simp add: insert_primitive_def prim_clipped_def Let_def)
next
  case False
  have o: "orders_inv (primitive_bounds s) (layer_stack s) (paint_operations s)" and v: "vectors_inv s"
    using inv by (simp_all add: scene_inv_def)
  show ?thesis
  proof (cases "last_opt (layer_stack s)")
    case (Some order)
    obtain s1 p' where place: "place_primitive s order p = (s1, p')" by fastforce
    note facts = place_primitive_ok [OF place]
    let ?s = "s1\<lparr>paint_operations := paint_operations s @ [OPrimitive p']\<rparr>"
    have "orders_inv (primitive_bounds s) (layer_stack s) (paint_operations s @ [OPrimitive p'])"
      by (rule orders_inv_layer [OF o]) (simp add: Some facts)
    then have "scene_inv ?s" using vectors_inv_place [OF v place False] by (simp add: scene_inv_def facts)
    moreover have "insert_primitive s p = Some ?s"
      using False Some place facts(1) by (simp add: insert_primitive_def prim_clipped_def Let_def)
    moreover have "\<exists>s0 order. p' = snd (place_primitive s0 order p)" by (metis place snd_conv)
    ultimately show ?thesis using False by auto
  next
    case None
    then have empty: "layer_stack s = []" by (simp add: last_opt_def split: if_splits)
    obtain tree order where t: "bt_insert (primitive_bounds s) (prim_clipped p) = Some (tree, order)"
      "\<And>q. prim_clipped q = prim_clipped p \<Longrightarrow> prim_order q = order \<Longrightarrow> orders_inv tree [] (paint_operations s @ [OPrimitive q])"
      using orders_inv_insert [OF o, of "prim_clipped p"] unfolding empty by blast
    let ?s0 = "s\<lparr>primitive_bounds := tree\<rparr>"
    obtain s1 p' where place: "place_primitive ?s0 order p = (s1, p')" by fastforce
    note facts = place_primitive_ok [OF place]
    let ?s = "s1\<lparr>paint_operations := paint_operations s @ [OPrimitive p']\<rparr>"
    have "scene_inv ?s" using vectors_inv_place [OF v place False] t(2) [of p'] by (simp add: scene_inv_def facts empty)
    moreover have "insert_primitive s p = Some ?s"
      using False None place facts(1) t(1) by (simp add: insert_primitive_def prim_clipped_def Let_def)
    moreover have "\<exists>s0 order. p' = snd (place_primitive s0 order p)" by (metis place snd_conv)
    ultimately show ?thesis using False by auto
  qed
qed

lemma push_layer_ok:
  assumes "scene_inv s"
  shows "\<exists>s'. push_layer s b = Some s' \<and> scene_inv s' \<and> paint_operations s' = paint_operations s @ [StartLayer b]"
proof -
  have o: "orders_inv (primitive_bounds s) (layer_stack s) (paint_operations s)" and v: "vectors_inv s"
    using assms by (simp_all add: scene_inv_def)
  obtain tree order where "bt_insert (primitive_bounds s) b = Some (tree, order)"
      "orders_inv tree (layer_stack s @ [order]) (paint_operations s @ [StartLayer b])"
    using orders_inv_insert [OF o, of b] by blast
  then show ?thesis using v by (simp add: push_layer_def scene_inv_def vectors_inv_def)
qed

lemma pop_layer_ok: "scene_inv s \<Longrightarrow> scene_inv (pop_layer s)"
  by (simp add: scene_inv_def pop_layer_def orders_inv_pop vectors_inv_def)

lemma scene_inv_default: "scene_inv scene_default"
proof -
  have "kind_prims (scene_default :: 'a scene) k = []" for k by (cases k) (simp_all add: scene_default_def)
  moreover have "orders_inv (bt_default :: 'a bounds_tree) [] []" by (simp add: orders_inv_def bt_default_inv)
  ultimately show ?thesis by (simp add: scene_inv_def vectors_inv_def) (simp add: scene_default_def)
qed

section \<open>The scenes that frames build\<close>

inductive scene_built :: "'u::linordered_ab_group_add scene \<Rightarrow> bool" where
  built_default: "scene_built scene_default"
| built_insert: "scene_built s \<Longrightarrow> insert_primitive s p = Some s' \<Longrightarrow> scene_built s'"
| built_push: "scene_built s \<Longrightarrow> push_layer s b = Some s' \<Longrightarrow> scene_built s'"
| built_pop: "scene_built s \<Longrightarrow> scene_built (pop_layer s)"

lemma scene_built_inv: "scene_built s \<Longrightarrow> scene_inv s"
proof (induction rule: scene_built.induct)
  case (built_insert s p s')
  then show ?case using insert_primitive_ok [of s p] by (auto split: if_splits)
next
  case (built_push s b s')
  then show ?case using push_layer_ok [of s b] by auto
qed (simp_all add: scene_inv_default pop_layer_ok)

lemma scene_clear_default: "scene_clear s = scene_default"
  by (simp add: scene_clear_def scene_default_def bt_clear_def bt_default_def)

lemma insert_primitive_again: "insert_primitive s (snd (place_primitive s0 order p)) = insert_primitive s p"
proof -
  have again: "place_primitive t n (snd (place_primitive s0 order p)) = place_primitive t n p" for t n
    by (cases p) (simp_all add: Let_def)
  have clipped: "prim_clipped (snd (place_primitive s0 order p)) = prim_clipped p"
    using place_primitive_ok(6) [of s0 order p] by (metis prod.collapse)
  show ?thesis unfolding insert_primitive_def prim_clipped_def [symmetric] again clipped ..
qed

lemma replay_operations_append:
  "replay_operations s (xs @ ys) = Option.bind (replay_operations s xs) (\<lambda>s. replay_operations s ys)"
  by (induction xs arbitrary: s) (auto split: Option.bind_splits)

lemma built_replays: "scene_built s \<Longrightarrow> replay_operations scene_default (paint_operations s) = Some s"
proof (induction rule: scene_built.induct)
  case built_default
  then show ?case by (simp add: scene_default_def)
next
  case (built_insert s p s')
  consider "s' = s" | s0 order where "paint_operations s' = paint_operations s @ [OPrimitive (snd (place_primitive s0 order p))]"
    using insert_primitive_ok [OF scene_built_inv [OF built_insert.hyps(1)], of p] built_insert.hyps(2) by (auto split: if_splits)
  then show ?case
    by cases (simp_all add: built_insert replay_operations_append insert_primitive_again)
next
  case (built_push s b s')
  have "paint_operations s' = paint_operations s @ [StartLayer b]"
    using push_layer_ok [OF scene_built_inv [OF built_push.hyps(1)], of b] built_push.hyps(2) by auto
  then show ?case using built_push by (simp add: replay_operations_append)
next
  case (built_pop s)
  moreover have "paint_operations (pop_layer s) = paint_operations s @ [EndLayer]" by (simp add: pop_layer_def)
  ultimately show ?case by (simp add: replay_operations_append)
qed

lemma layout_regions: "length (fst (layout_of ops)) \<le> length ops"
proof (induction ops rule: rev_induct)
  case (snoc x ops)
  obtain regions opened owner where "layout_of ops = (regions, opened, owner)" by (metis prod_cases3)
  then show ?case using snoc by (cases x) (auto split: option.splits)
qed simp

lemma painted_orders:
  assumes "scene_inv s" "layout_of (paint_operations s) = (regions, opened, owner)" "a < length (painted (paint_operations s))"
  shows "prim_order (painted (paint_operations s) ! a) = stack_orders [] regions ! (owner ! a)" "owner ! a < length regions"
    "length owner = length (painted (paint_operations s))"
proof -
  have eq: "map prim_order (painted (paint_operations s)) = map ((!) (stack_orders [] regions)) owner"
    and owner: "\<forall>i \<in> set owner. i < length regions"
    using assms(1,2) by (auto simp: scene_inv_def orders_inv_def Let_def)
  show len: "length owner = length (painted (paint_operations s))" using map_eq_imp_length_eq [OF eq] by simp
  show "prim_order (painted (paint_operations s) ! a) = stack_orders [] regions ! (owner ! a)"
    using arg_cong [OF eq, of "\<lambda>xs. xs ! a"] assms(3) len by simp
  show "owner ! a < length regions" using owner assms(3) len by simp
qed

lemma kind_prims_finish: "mset (kind_prims (scene_finish s) k) = mset (kind_prims s k)"
  by (cases k) (simp_all add: scene_finish_def)

lemma finish_orders_fit:
  assumes "scene_inv s" "length (paint_operations s) < u32_max"
  shows "orders_fit (scene_finish s)"
proof -
  obtain regions opened owner where lay: "layout_of (paint_operations s) = (regions, opened, owner)" by (metis prod_cases3)
  have "prim_order p < u32_max" if "p \<in> set (kind_prims (scene_finish s) k)" for k p
  proof -
    have "p \<in> set (kind_prims s k)" using that kind_prims_finish by (metis set_mset_mset)
    then have "p \<in> set (painted (paint_operations s))" using assms(1) by (auto simp: scene_inv_def vectors_inv_def)
    then obtain a where a: "a < length (painted (paint_operations s))" "p = painted (paint_operations s) ! a" by (metis in_set_conv_nth)
    note facts = painted_orders [OF assms(1) lay a(1)]
    have "prim_order p \<le> Suc (owner ! a)" using stack_orders_bounded [OF _ facts(2), of "[]"] facts(1) a(2) by simp
    also have "\<dots> \<le> length (paint_operations s)" using facts(2) layout_regions [of "paint_operations s"] lay by simp
    finally show ?thesis using assms(2) by simp
  qed
  then show ?thesis by (auto simp: orders_fit_def entries_kind_prims)
qed

lemma replay_built: "scene_built s \<Longrightarrow> replay_operations s ops = Some s' \<Longrightarrow> scene_built s'"
proof (induction ops arbitrary: s)
  case (Cons op ops)
  then obtain s1 where s1: "replay_operation s op = Some s1" "replay_operations s1 ops = Some s'" by (auto simp: bind_eq_Some_conv)
  then have "scene_built s1" using Cons.prems(1) by (cases op) (auto intro: scene_built.intros)
  then show ?case using Cons.IH s1(2) by blast
qed simp

text \<open>A visible primitive is recorded, with its order and the id of a path filled in.\<close>

lemma place_primitive_bounds [simp]: "snd (place_primitive (s\<lparr>primitive_bounds := tree\<rparr>) order p) = snd (place_primitive s order p)"
  by (cases p) (simp_all add: Let_def)

lemma insert_records:
  assumes "scene_built s" "\<not> bd_is_empty (prim_clipped p)"
  shows "\<exists>s' order. insert_primitive s p = Some s' \<and>
    paint_operations s' = paint_operations s @ [OPrimitive (snd (place_primitive s order p))]"
proof -
  obtain s' where s': "insert_primitive s p = Some s'" using insert_primitive_ok [OF scene_built_inv [OF assms(1)], of p] assms(2) by auto
  have "\<exists>order. paint_operations s' = paint_operations s @ [OPrimitive (snd (place_primitive s order p))]"
  proof (cases "last_opt (layer_stack s)")
    case (Some order)
    then show ?thesis using s' assms(2) place_primitive_ok(1) [OF surjective_pairing, of s order p]
      by (auto simp: insert_primitive_def prim_clipped_def Let_def case_prod_beta)
  next
    case None
    then obtain tree order where "s' = (let (s, p) = place_primitive (s\<lparr>primitive_bounds := tree\<rparr>) order p
        in s\<lparr>paint_operations := paint_operations s @ [OPrimitive p]\<rparr>)"
      using s' assms(2) by (auto simp: insert_primitive_def prim_clipped_def Let_def case_prod_beta bind_eq_Some_conv)
    then show ?thesis using place_primitive_ok(1) [OF surjective_pairing, of "s\<lparr>primitive_bounds := tree\<rparr>" order p]
      by (auto simp: case_prod_beta)
  qed
  then show ?thesis using s' by blast
qed

text \<open>Painting goes on without a panic and only adds to what was recorded.\<close>

lemma replay_extends:
  assumes "scene_built s"
  shows "\<exists>s' more. replay_operations s ops = Some s' \<and> scene_built s' \<and> paint_operations s' = paint_operations s @ more \<and>
    length more \<le> length ops"
  using assms
proof (induction ops arbitrary: s)
  case (Cons op ops)
  have inv: "scene_inv s" by (rule scene_built_inv [OF Cons.prems])
  have "\<exists>s1 more. replay_operation s op = Some s1 \<and> paint_operations s1 = paint_operations s @ more \<and> length more \<le> 1"
  proof (cases op)
    case (OPrimitive p)
    then show ?thesis using insert_primitive_ok [OF inv, of p] by (cases "bd_is_empty (prim_clipped p)") auto
  next
    case (StartLayer b)
    then show ?thesis using push_layer_ok [OF inv, of b] by auto
  qed (simp add: pop_layer_def)
  then obtain s1 more where s1: "replay_operation s op = Some s1" "paint_operations s1 = paint_operations s @ more" "length more \<le> 1"
    by blast
  then have "scene_built s1" using Cons.prems by (cases op) (auto intro: scene_built.intros)
  from Cons.IH [OF this] obtain s2 rest where "replay_operations s1 ops = Some s2" "scene_built s2"
      "paint_operations s2 = paint_operations s1 @ rest" "length rest \<le> length ops"
    by blast
  then show ?case using s1 by (intro exI [of _ s2] exI [of _ "more @ rest"]) simp
qed simp

lemma batches_ok:
  assumes "scene_built s" "length (paint_operations s) < u32_max"
  shows "\<exists>bs. collect_batches (scene_batches (scene_finish s)) = Some bs \<and>
    concat (map (batch_items (scene_finish s)) bs) = sort (scene_items (scene_finish s)) \<and>
    (\<forall>b \<in> set bs. batch_ok (scene_finish s) b)"
  using collect_batches_sorted [OF finish_sorted finish_orders_fit [OF scene_built_inv [OF assms(1)] assms(2)] tracks_start(1)]
  by (simp add: tracks_start(2))

lemma finish_permutes:
  assumes "scene_built s"
  shows "mset (kind_prims (scene_finish s) k) = mset (filter (\<lambda>p. prim_kind p = k) (painted (paint_operations s)))"
  using scene_built_inv [OF assms] kind_prims_finish [of s k] by (simp add: scene_inv_def vectors_inv_def)

lemma drawn_order: "(order, k, i) \<in> set (scene_items s) \<Longrightarrow> order = prim_order (kind_prims s k ! i)"
  by (auto simp: scene_items_def entries_kind_prims)

section \<open>Properties\<close>

text \<open>
  Claim C25. The state of a scene under construction. Whatever a frame paints, no operation panics, and the orders are those of the
  layout: a primitive painted outside layers gets one more than the greatest order among the regions it overlaps, one
  painted inside a layer gets the order of that layer. Each vector holds exactly the painted primitives of
  its kind in the order of painting, nothing invisible is kept, and the id of a path is its index.
\<close>

theorem scene_invariant:
  assumes "scene_built s"
  shows "scene_inv s \<and> scene_inv (pop_layer s) \<and> (\<exists>s'. push_layer s b = Some s' \<and> scene_inv s') \<and>
    (\<exists>s'. insert_primitive s p = Some s' \<and> scene_inv s')"
  using scene_built_inv [OF assms] pop_layer_ok push_layer_ok [of s b] insert_primitive_ok [of s p] by (auto split: if_splits)

text \<open>Two surfaces that overlap.\<close>

definition surface_at :: "int bounds \<Rightarrow> int primitive" where
  "surface_at b = PSurface \<lparr>su_order = 0, su_bounds = b, su_content_mask = \<lparr>cm_bounds = b\<rparr>\<rparr>"

definition two_surfaces :: "int scene" where
  "two_surfaces =
     the (replay_operations scene_default [OPrimitive (surface_at (box 0 0 10 10)), OPrimitive (surface_at (box 5 5 10 10))])"

lemma two_surfaces_built: "scene_built two_surfaces"
proof (rule replay_built [OF built_default])
  show "replay_operations scene_default [OPrimitive (surface_at (box 0 0 10 10)), OPrimitive (surface_at (box 5 5 10 10))] =
    Some two_surfaces" by code_simp
qed

theorem scene_invariant_witness:
  "\<exists>s'. insert_primitive two_surfaces (surface_at (box 1 1 2 2)) = Some s' \<and> scene_inv s'"
  using scene_invariant [OF two_surfaces_built, of _ "surface_at (box 1 1 2 2)"] by blast

text \<open>
  Claim C3. What a renderer gets. The iterator over the batches of a finished scene ends without a panic, and the primitives
  of its batches, in sequence, are all primitives of the scene sorted by order, then by kind, then by position in their
  vector. Every batch is non-empty and within its vector, and the sprites of a batch are all on the texture the batch names.
  The vectors hold what was painted. The bound on the number of operations keeps the orders below the value that the
  iterator uses for an exhausted kind.
\<close>

theorem batches_draw_in_order:
  assumes "scene_built s" "length (paint_operations s) < u32_max"
  shows "\<exists>bs. collect_batches (scene_batches (scene_finish s)) = Some bs \<and>
    concat (map (batch_items (scene_finish s)) bs) = sort (scene_items (scene_finish s)) \<and>
    (\<forall>b \<in> set bs. batch_ok (scene_finish s) b) \<and>
    (\<forall>k. mset (kind_prims (scene_finish s) k) = mset (filter (\<lambda>p. prim_kind p = k) (painted (paint_operations s))))"
  using batches_ok [OF assms] finish_permutes [OF assms(1)] by auto

lemma two_surfaces_short: "length (paint_operations two_surfaces) < u32_max"
proof -
  have "length (paint_operations two_surfaces) = 2" by code_simp
  then show ?thesis by (simp add: u32_max_def)
qed

theorem batches_draw_in_order_witness:
  "\<exists>bs. collect_batches (scene_batches (scene_finish two_surfaces)) = Some bs \<and>
    concat (map (batch_items (scene_finish two_surfaces)) bs) = sort (scene_items (scene_finish two_surfaces))"
  using batches_draw_in_order [OF two_surfaces_built two_surfaces_short] by blast

text \<open>
  What was recorded is drawn: some batch that the iterator yields contains it.
\<close>

lemma recorded_is_drawn:
  assumes "scene_built s" "length (paint_operations s) < u32_max" "p \<in> set (painted (paint_operations s))"
  shows "\<exists>bs b i. collect_batches (scene_batches (scene_finish s)) = Some bs \<and> b \<in> set bs \<and>
    fst (batch_range b) \<le> i \<and> i < snd (batch_range b) \<and> kind_prims (scene_finish s) (batch_kind b) ! i = p"
proof -
  let ?s = "scene_finish s" and ?k = "prim_kind p"
  obtain bs where bs: "collect_batches (scene_batches ?s) = Some bs" "concat (map (batch_items ?s) bs) = sort (scene_items ?s)"
    using batches_ok [OF assms(1,2)] by blast
  have "p \<in> set (kind_prims ?s ?k)"
    using arg_cong [OF finish_permutes [OF assms(1), of ?k], of set_mset] assms(3) by simp
  then obtain i where i: "i < length (kind_prims ?s ?k)" "kind_prims ?s ?k ! i = p" by (metis in_set_conv_nth)
  then have "(prim_order p, ?k, i) \<in> set (scene_items ?s)" by (auto simp: scene_items_def entries_kind_prims)
  then have "(prim_order p, ?k, i) \<in> set (concat (map (batch_items ?s) bs))" unfolding bs(2) by simp
  then obtain b where "b \<in> set bs" "(prim_order p, ?k, i) \<in> set (batch_items ?s b)" by auto
  then show ?thesis using bs(1) i(2) by (auto simp: batch_items_def)
qed

text \<open>
  Claim C23. A visible primitive gets drawn. Inserting a primitive whose bounds, clipped by its content mask, are not empty into a scene
  under construction does not panic; whatever operations follow (primitives and layers, as a replay runs them) do not panic either; and after
  the scene is finished, some batch that the iterator yields contains the primitive, unchanged except for the order, and for a path the id, that the insertion sets. An insertion of a
  primitive whose clipped bounds are empty leaves the scene as it is. Hypothesis: the number of operations of the frame stays below the greatest 32-bit
  number, which the iterator uses for an exhausted kind.
\<close>

theorem visible_primitive_is_drawn:
  assumes "scene_built s" "length (paint_operations s) + Suc (length ops) < u32_max"
  shows "if bd_is_empty (bd_intersect (prim_bounds p) (cm_bounds (prim_content_mask p))) then insert_primitive s p = Some s
    else \<exists>s1 s2 bs b i order. insert_primitive s p = Some s1 \<and> replay_operations s1 ops = Some s2 \<and>
      collect_batches (scene_batches (scene_finish s2)) = Some bs \<and> b \<in> set bs \<and>
      fst (batch_range b) \<le> i \<and> i < snd (batch_range b) \<and>
      kind_prims (scene_finish s2) (batch_kind b) ! i = snd (place_primitive s order p)"
proof (cases "bd_is_empty (prim_clipped p)")
  case True
  then show ?thesis by (simp add: insert_primitive_def prim_clipped_def Let_def)
next
  case False
  obtain s1 order where s1: "insert_primitive s p = Some s1"
      "paint_operations s1 = paint_operations s @ [OPrimitive (snd (place_primitive s order p))]"
    using insert_records [OF assms(1) False] by blast
  obtain s2 more where s2: "replay_operations s1 ops = Some s2" "scene_built s2"
      "paint_operations s2 = paint_operations s1 @ more" "length more \<le> length ops"
    using replay_extends [OF built_insert [OF assms(1) s1(1)], of ops] by blast
  have "length (paint_operations s2) < u32_max" "snd (place_primitive s order p) \<in> set (painted (paint_operations s2))"
    using assms(2) s1(2) s2(3,4) by simp_all
  from recorded_is_drawn [OF s2(2) this] show ?thesis using False s1(1) s2(1) unfolding prim_clipped_def by auto
qed

theorem visible_primitive_is_drawn_witness:
  "\<exists>s1 s2 bs b i order. insert_primitive two_surfaces (surface_at (box 1 1 2 2)) = Some s1 \<and>
     replay_operations s1 [EndLayer, OPrimitive (surface_at (box 3 3 4 4))] = Some s2 \<and>
     collect_batches (scene_batches (scene_finish s2)) = Some bs \<and> b \<in> set bs \<and> i < snd (batch_range b) \<and>
     kind_prims (scene_finish s2) (batch_kind b) ! i = snd (place_primitive two_surfaces order (surface_at (box 1 1 2 2)))"
proof -
  have "length (paint_operations two_surfaces) = 2" by code_simp
  then have short: "length (paint_operations two_surfaces) + Suc (length [EndLayer, OPrimitive (surface_at (box 3 3 4 4))]) < u32_max"
    by (simp add: u32_max_def)
  have "\<not> bd_is_empty (bd_intersect (prim_bounds (surface_at (box 1 1 2 2))) (cm_bounds (prim_content_mask (surface_at (box 1 1 2 2)))))"
    by code_simp
  then show ?thesis using visible_primitive_is_drawn [OF two_surfaces_built short, of "surface_at (box 1 1 2 2)"]
    by (simp only: if_False) blast
qed

text \<open>
  Claim C7. The painter's rule, from painting to drawing. When a primitive belongs to a region laid out after that of another one and
  the regions intersect, it gets a greater order, and so it is drawn after the other one, whatever the kinds of the two
  and whatever batches they fall in. Here \<open>m\<close> and \<open>n\<close> are positions in the sequence of drawn primitives.
\<close>

theorem overlapping_primitives_are_drawn_in_order:
  assumes "scene_built s" "length (paint_operations s) < u32_max"
    and lay: "layout_of (paint_operations s) = (regions, opened, owner)"
    and idx: "a < length (painted (paint_operations s))" "b < length (painted (paint_operations s))"
    and over: "owner ! a < owner ! b" "intersects (regions ! (owner ! b)) (regions ! (owner ! a))"
    and draws: "collect_batches (scene_batches (scene_finish s)) = Some bs" "ds = concat (map (batch_items (scene_finish s)) bs)"
    and m: "m < length ds" "ds ! m = (o1, k1, i1)" "kind_prims (scene_finish s) k1 ! i1 = painted (paint_operations s) ! a"
    and n: "n < length ds" "ds ! n = (o2, k2, i2)" "kind_prims (scene_finish s) k2 ! i2 = painted (paint_operations s) ! b"
  shows "m < n"
proof -
  have ds: "ds = sort (scene_items (scene_finish s))" using batches_ok [OF assms(1,2)] draws by auto
  note facts = painted_orders [OF scene_built_inv [OF assms(1)] lay]
  have "prim_order (painted (paint_operations s) ! a) < prim_order (painted (paint_operations s) ! b)"
    using stack_orders_above [OF over(1) facts(2) [OF idx(2)] over(2)] facts(1) idx by simp
  moreover have "o1 = prim_order (painted (paint_operations s) ! a)" "o2 = prim_order (painted (paint_operations s) ! b)"
    using m n ds drawn_order [of _ _ _ "scene_finish s"] by (metis nth_mem set_sort)+
  ultimately have "ds ! m < ds ! n" using m(2) n(2) by simp
  then show ?thesis using m(1) n(1) sorted_nth_mono [of ds n m] ds by (metis leI leD sorted_sort)
qed

theorem overlapping_primitives_are_drawn_in_order_witness:
  "\<exists>bs m n. collect_batches (scene_batches (scene_finish two_surfaces)) = Some bs \<and>
     concat (map (batch_items (scene_finish two_surfaces)) bs) ! m = (1, KSurface, 0) \<and>
     concat (map (batch_items (scene_finish two_surfaces)) bs) ! n = (2, KSurface, 1) \<and> m < n"
proof -
  let ?s = two_surfaces
  obtain bs where bs: "collect_batches (scene_batches (scene_finish ?s)) = Some bs"
    "concat (map (batch_items (scene_finish ?s)) bs) = sort (scene_items (scene_finish ?s))"
    using batches_ok [OF two_surfaces_built two_surfaces_short] by blast
  have "sort (scene_items (scene_finish ?s)) = [(1, KSurface, 0), (2, KSurface, 1)]" by code_simp
  then have ds: "concat (map (batch_items (scene_finish ?s)) bs) = [(1, KSurface, 0), (2, KSurface, 1)]" using bs(2) by simp
  have lay: "layout_of (paint_operations ?s) = ([box 0 0 10 10, box 5 5 10 10], [], [0, 1])" by code_simp
  have len: "length (painted (paint_operations ?s)) = 2" by code_simp
  have drawn: "kind_prims (scene_finish ?s) KSurface = painted (paint_operations ?s)" by code_simp
  have over: "intersects ([box 0 0 10 10, box 5 5 10 10] ! 1) ([box 0 0 10 10, box 5 5 10 10] ! 0)" by code_simp
  have "(0 :: nat) < 1"
    by (rule overlapping_primitives_are_drawn_in_order [OF two_surfaces_built two_surfaces_short lay, of 0 1 bs
          "[(1, KSurface, 0), (2, KSurface, 1)]" 0 1 KSurface 0 1 2 KSurface 1])
      (use bs(1) ds len drawn over in simp_all)
  then show ?thesis using bs(1) ds by (intro exI [of _ bs] exI [of _ 0] exI [of _ 1]) simp
qed

text \<open>
  Claim C34. Replaying. A scene is determined by its paint operations: replaying all operations of a finished scene into a cleared
  one rebuilds it as it was before it was finished, with the same orders, path ids and bounds tree.
\<close>

theorem replay_reproduces_scene:
  assumes "scene_built s"
  shows "scene_replay (scene_clear t) (0, scene_len (scene_finish s)) (scene_finish s) = Some s"
proof -
  have "paint_operations (scene_finish s) = paint_operations s" by (simp add: scene_finish_def)
  then show ?thesis using built_replays [OF assms] by (simp add: scene_replay_def scene_len_def scene_clear_default)
qed

theorem replay_reproduces_scene_witness:
  "scene_replay (scene_clear two_surfaces) (0, 2) (scene_finish two_surfaces) = Some two_surfaces"
proof -
  have "scene_len (scene_finish two_surfaces) = 2" by code_simp
  then show ?thesis using replay_reproduces_scene [OF two_surfaces_built, of two_surfaces] by simp
qed

end
