(* ===== verification/EntityMap.thy ===== *)
theory EntityMap
  imports Prelude "HOL-Library.Multiset"
begin

text \<open>
  The store of the application's entities (\<^verbatim>\<open>crates/gpui/src/app/entity_map.rs\<close>): entities are owned by the map
  and referred to by reference-counted handles; a handle that is dropped last puts the entity on a list, and
  \<^verbatim>\<open>take_dropped\<close> releases what is on it. An entity is moved out of the map while it is updated (a lease).

  The reference counts live behind an \<^verbatim>\<open>Arc\<close> that the map holds and handles point to weakly: a heap from addresses
  to reference counts, in which a missing address is a \<^verbatim>\<open>Weak\<close> that cannot be upgraded. A value of type
  \<^verbatim>\<open>Box<dyn Any>\<close> is a pair of its type and the value. The key that \<^verbatim>\<open>SlotMap::insert\<close> returns is an argument
  of \<open>reserve\<close>; that a slot map never hands out a key twice is a premise of the transition system below. The
  operations run one after the other, so that an atomic counter is a number. The leak detector, which only exists in tests and
  under a feature, is left out, and \<^verbatim>\<open>debug_assert\<close>s are on.
\<close>

section \<open>Reference counts\<close>

record 'id ref_counts =
  rc_counts :: "'id \<rightharpoonup> nat"
  rc_dropped :: "'id list"

type_synonym 'id rc_heap = "nat \<rightharpoonup> 'id ref_counts"

record ('id, 'ty) any_entity =
  ae_entity_id :: 'id
  ae_entity_type :: 'ty
  ae_entity_map :: nat

record ('id, 'ty) any_weak_entity =
  aw_entity_id :: 'id
  aw_entity_type :: 'ty
  aw_ref_counts :: "nat option"

type_synonym ('ty, 'v) boxed = "'ty \<times> 'v"

record ('id, 'ty, 'v) entity_map =
  em_entities :: "'id \<rightharpoonup> ('ty, 'v) boxed"
  em_accessed :: "'id set"
  em_refs :: nat

definition ref_counts_new :: "'id ref_counts" where
  "ref_counts_new = \<lparr>rc_counts = Map.empty, rc_dropped = []\<rparr>"

text \<open>\<^verbatim>\<open>EntityMap::new\<close>, with the address of the new allocation.\<close>

definition entity_map_new :: "nat \<Rightarrow> 'id rc_heap \<Rightarrow> ('id, 'ty, 'v) entity_map \<times> 'id rc_heap" where
  "entity_map_new address heap =
     (\<lparr>em_entities = Map.empty, em_accessed = {}, em_refs = address\<rparr>, heap(address \<mapsto> ref_counts_new))"

section \<open>Operations of the map\<close>

definition reserve ::
  "'id \<Rightarrow> 'ty \<Rightarrow> ('id, 'ty, 'v) entity_map \<Rightarrow> 'id rc_heap \<Rightarrow> (('id, 'ty) any_entity \<times> 'id rc_heap) option" where
  "reserve key ty m heap = do {
     rc \<leftarrow> heap (em_refs m);
     Some (\<lparr>ae_entity_id = key, ae_entity_type = ty, ae_entity_map = em_refs m\<rparr>,
           heap(em_refs m \<mapsto> rc\<lparr>rc_counts := (rc_counts rc)(key \<mapsto> 1)\<rparr>)) }"

definition em_insert ::
  "('id, 'ty, 'v) entity_map \<Rightarrow> ('id, 'ty) any_entity \<Rightarrow> ('ty, 'v) boxed \<Rightarrow> ('id, 'ty) any_entity \<times> ('id, 'ty, 'v) entity_map" where
  "em_insert m slot entity =
     (let m = m\<lparr>em_accessed := insert (ae_entity_id slot) (em_accessed m)\<rparr>;
          handle = slot
      in (handle, m\<lparr>em_entities := (em_entities m)(ae_entity_id handle \<mapsto> entity)\<rparr>))"

definition assert_valid_context :: "('id, 'ty, 'v) entity_map \<Rightarrow> ('id, 'ty) any_entity \<Rightarrow> unit option" where
  "assert_valid_context m entity = assert_that (ae_entity_map entity = em_refs m)"

definition read_inner :: "('id, 'ty, 'v) entity_map \<Rightarrow> 'id \<Rightarrow> ('ty, 'v) boxed option \<times> ('id, 'ty, 'v) entity_map" where
  "read_inner m entity_id =
     (let m = m\<lparr>em_accessed := insert entity_id (em_accessed m)\<rparr> in (em_entities m entity_id, m))"

definition downcast_ref :: "'ty \<Rightarrow> ('ty, 'v) boxed \<Rightarrow> 'v option" where
  "downcast_ref ty b = (if fst b = ty then Some (snd b) else None)"

text \<open>\<^verbatim>\<open>read\<close> at the type of its handle: no entity or one of another type panics.\<close>

definition em_read :: "('id, 'ty, 'v) entity_map \<Rightarrow> ('id, 'ty) any_entity \<Rightarrow> 'ty \<Rightarrow> ('v \<times> ('id, 'ty, 'v) entity_map) option" where
  "em_read m entity ty = do {
     assert_valid_context m entity;
     let (found, m) = read_inner m (ae_entity_id entity);
     v \<leftarrow> Option.bind found (downcast_ref ty);
     Some (v, m) }"

definition lease_inner :: "('id, 'ty, 'v) entity_map \<Rightarrow> 'id \<Rightarrow> ('ty, 'v) boxed option \<times> ('id, 'ty, 'v) entity_map" where
  "lease_inner m entity_id =
     (let m = m\<lparr>em_accessed := insert entity_id (em_accessed m)\<rparr>
      in (em_entities m entity_id, m\<lparr>em_entities := (em_entities m)(entity_id := None)\<rparr>))"

record ('id, 'ty, 'v) lease =
  le_id :: 'id
  le_entity :: "('ty, 'v) boxed option"

definition em_lease ::
  "('id, 'ty, 'v) entity_map \<Rightarrow> ('id, 'ty) any_entity \<Rightarrow> (('id, 'ty, 'v) lease \<times> ('id, 'ty, 'v) entity_map) option" where
  "em_lease m pointer = do {
     assert_valid_context m pointer;
     let (found, m) = lease_inner m (ae_entity_id pointer);
     entity \<leftarrow> found;
     Some (\<lparr>le_id = ae_entity_id pointer, le_entity = Some entity\<rparr>, m) }"

definition end_lease :: "('id, 'ty, 'v) entity_map \<Rightarrow> ('id, 'ty, 'v) lease \<Rightarrow> ('id, 'ty, 'v) entity_map option" where
  "end_lease m lease = do {
     entity \<leftarrow> le_entity lease;
     Some (m\<lparr>em_entities := (em_entities m)(le_id lease \<mapsto> entity)\<rparr>) }"

text \<open>Access through a lease, and dropping one that was not ended.\<close>

definition lease_deref :: "('id, 'ty, 'v) lease \<Rightarrow> 'ty \<Rightarrow> 'v option" where
  "lease_deref lease ty = do { entity \<leftarrow> le_entity lease; downcast_ref ty entity }"

definition lease_drop :: "('id, 'ty, 'v) lease \<Rightarrow> bool \<Rightarrow> unit option" where
  "lease_drop lease panicking = assert_that (\<not> (le_entity lease \<noteq> None \<and> \<not> panicking))"

definition extend_accessed :: "('id, 'ty, 'v) entity_map \<Rightarrow> 'id set \<Rightarrow> ('id, 'ty, 'v) entity_map" where
  "extend_accessed m ids = m\<lparr>em_accessed := em_accessed m \<union> ids\<rparr>"

definition clear_accessed :: "('id, 'ty, 'v) entity_map \<Rightarrow> ('id, 'ty, 'v) entity_map" where
  "clear_accessed m = m\<lparr>em_accessed := {}\<rparr>"

fun take_each ::
  "'id list \<Rightarrow> ('id \<rightharpoonup> nat) \<Rightarrow> ('id, 'ty, 'v) entity_map \<Rightarrow>
   (('id \<times> ('ty, 'v) boxed) list \<times> ('id \<rightharpoonup> nat) \<times> ('id, 'ty, 'v) entity_map) option" where
  "take_each [] counts m = Some ([], counts, m)"
| "take_each (entity_id # ids) counts m = do {
     n \<leftarrow> counts entity_id;
     assert_that (n = 0);
     let counts = counts(entity_id := None);
     let m = m\<lparr>em_accessed := em_accessed m - {entity_id}\<rparr>;
     (case em_entities m entity_id of
        None \<Rightarrow> take_each ids counts m
      | Some entity \<Rightarrow> do {
          (taken, counts, m) \<leftarrow> take_each ids counts (m\<lparr>em_entities := (em_entities m)(entity_id := None)\<rparr>);
          Some ((entity_id, entity) # taken, counts, m) }) }"

definition take_dropped ::
  "('id, 'ty, 'v) entity_map \<Rightarrow> 'id rc_heap \<Rightarrow>
   (('id \<times> ('ty, 'v) boxed) list \<times> ('id, 'ty, 'v) entity_map \<times> 'id rc_heap) option" where
  "take_dropped m heap = do {
     rc \<leftarrow> heap (em_refs m);
     (taken, counts, m) \<leftarrow> take_each (rc_dropped rc) (rc_counts rc) m;
     Some (taken, m, heap(em_refs m \<mapsto> rc\<lparr>rc_counts := counts, rc_dropped := []\<rparr>)) }"

section \<open>Operations of handles\<close>

definition entity_clone :: "('id, 'ty) any_entity \<Rightarrow> 'id rc_heap \<Rightarrow> (('id, 'ty) any_entity \<times> 'id rc_heap) option" where
  "entity_clone self heap = do {
     heap \<leftarrow>
       (case heap (ae_entity_map self) of
          None \<Rightarrow> Some heap
        | Some rc \<Rightarrow> do {
            prev_count \<leftarrow> rc_counts rc (ae_entity_id self);
            assert_that (prev_count \<noteq> 0);
            Some (heap(ae_entity_map self \<mapsto> rc\<lparr>rc_counts := (rc_counts rc)(ae_entity_id self \<mapsto> prev_count + 1)\<rparr>)) });
     Some (\<lparr>ae_entity_id = ae_entity_id self, ae_entity_type = ae_entity_type self, ae_entity_map = ae_entity_map self\<rparr>, heap) }"

definition entity_drop :: "('id, 'ty) any_entity \<Rightarrow> 'id rc_heap \<Rightarrow> 'id rc_heap option" where
  "entity_drop self heap =
     (case heap (ae_entity_map self) of
        None \<Rightarrow> Some heap
      | Some rc \<Rightarrow> do {
          prev_count \<leftarrow> rc_counts rc (ae_entity_id self);
          assert_that (prev_count \<noteq> 0);
          let rc = rc\<lparr>rc_counts := (rc_counts rc)(ae_entity_id self \<mapsto> prev_count - 1)\<rparr>;
          let rc = (if prev_count = 1 then rc\<lparr>rc_dropped := rc_dropped rc @ [ae_entity_id self]\<rparr> else rc);
          Some (heap(ae_entity_map self \<mapsto> rc)) })"

definition downgrade :: "('id, 'ty) any_entity \<Rightarrow> ('id, 'ty) any_weak_entity" where
  "downgrade self =
     \<lparr>aw_entity_id = ae_entity_id self, aw_entity_type = ae_entity_type self, aw_ref_counts = Some (ae_entity_map self)\<rparr>"

text \<open>\<^verbatim>\<open>downcast\<close>: the left side is the handle given back as an error.\<close>

definition downcast :: "'ty \<Rightarrow> ('id, 'ty) any_entity \<Rightarrow> ('id, 'ty) any_entity + ('id, 'ty) any_entity" where
  "downcast ty self = (if ty = ae_entity_type self then Inr self else Inl self)"

definition weak_upgrade_refs :: "nat option \<Rightarrow> 'id rc_heap \<Rightarrow> 'id ref_counts option" where
  "weak_upgrade_refs address heap = Option.bind address heap"

definition is_upgradable :: "('id, 'ty) any_weak_entity \<Rightarrow> 'id rc_heap \<Rightarrow> bool" where
  "is_upgradable self heap =
     (let ref_count =
        (case do { rc \<leftarrow> weak_upgrade_refs (aw_ref_counts self) heap; rc_counts rc (aw_entity_id self) } of
           None \<Rightarrow> 0
         | Some n \<Rightarrow> n)
      in ref_count > 0)"

text \<open>The new value of the counter, and the result: zero when it was zero.\<close>

definition atomic_incr_if_not_zero :: "nat \<Rightarrow> nat \<times> nat" where
  "atomic_incr_if_not_zero counter = (if counter = 0 then (counter, 0) else (counter + 1, counter + 1))"

definition weak_upgrade :: "('id, 'ty) any_weak_entity \<Rightarrow> 'id rc_heap \<Rightarrow> (('id, 'ty) any_entity \<times> 'id rc_heap) option" where
  "weak_upgrade self heap = do {
     address \<leftarrow> aw_ref_counts self;
     rc \<leftarrow> heap address;
     ref_count \<leftarrow> rc_counts rc (aw_entity_id self);
     let (ref_count, result) = atomic_incr_if_not_zero ref_count;
     if result = 0 then None
     else Some (\<lparr>ae_entity_id = aw_entity_id self, ae_entity_type = aw_entity_type self, ae_entity_map = address\<rparr>,
                heap(address \<mapsto> rc\<lparr>rc_counts := (rc_counts rc)(aw_entity_id self \<mapsto> ref_count)\<rparr>)) }"

text \<open>\<^verbatim>\<open>new_invalid\<close>: the id counts down from a generator, the reference points nowhere.\<close>

definition new_invalid :: "(nat \<Rightarrow> 'id) \<Rightarrow> 'ty \<Rightarrow> nat \<Rightarrow> ('id, 'ty) any_weak_entity \<times> nat" where
  "new_invalid from_u64 unit_type generator =
     (\<lparr>aw_entity_id = from_u64 generator, aw_entity_type = unit_type, aw_ref_counts = None\<rparr>, (generator + (2 ^ 64 - 1)) mod 2 ^ 64)"

section \<open>A program that uses the map\<close>

text \<open>
  The state of a program with one map: the strong handles it holds, the reserved slots (which are strong handles too), its
  weak handles and its open leases. \<open>types\<close> records the type of every key that was ever issued. The steps follow
  what the types of the source allow: a slot is consumed by \<^verbatim>\<open>insert\<close>, with a value of its type; a handle is used
  up when it is dropped; a lease is ended with a value of the type it was opened at. Dropped
  entities are taken by \<^verbatim>\<open>App::flush_effects\<close>, which never runs while a lease is open.
\<close>

record ('id, 'ty, 'v) program =
  heap_of :: "'id rc_heap"
  em_of :: "('id, 'ty, 'v) entity_map"
  strong :: "('id, 'ty) any_entity multiset"
  slots :: "('id, 'ty) any_entity multiset"
  weak :: "('id, 'ty) any_weak_entity set"
  leases :: "('id \<rightharpoonup> ('ty, 'v) boxed)"
  types :: "'id \<rightharpoonup> 'ty"

definition program_start :: "nat \<Rightarrow> ('id, 'ty, 'v) program" where
  "program_start address =
     (case entity_map_new address Map.empty of (m, heap) \<Rightarrow>
        \<lparr>heap_of = heap, em_of = m, strong = {#}, slots = {#}, weak = {}, leases = Map.empty, types = Map.empty\<rparr>)"

inductive em_step :: "('id, 'ty, 'v) program \<Rightarrow> ('id, 'ty, 'v) program \<Rightarrow> bool" where
  step_reserve: "types c key = None \<Longrightarrow> reserve key ty (em_of c) (heap_of c) = Some (h, heap) \<Longrightarrow>
    em_step c (c\<lparr>heap_of := heap, slots := add_mset h (slots c), types := (types c)(key \<mapsto> ty)\<rparr>)"
| step_insert: "h \<in># slots c \<Longrightarrow> em_insert (em_of c) h (ae_entity_type h, v) = (h', m) \<Longrightarrow>
    em_step c (c\<lparr>em_of := m, slots := slots c - {#h#}, strong := add_mset h' (strong c)\<rparr>)"
| step_clone: "h \<in># strong c + slots c \<Longrightarrow> entity_clone h (heap_of c) = Some (h', heap) \<Longrightarrow>
    em_step c (c\<lparr>heap_of := heap, strong := add_mset h' (strong c)\<rparr>)"
| step_drop: "h \<in># strong c \<Longrightarrow> entity_drop h (heap_of c) = Some heap \<Longrightarrow>
    em_step c (c\<lparr>heap_of := heap, strong := strong c - {#h#}\<rparr>)"
| step_drop_slot: "h \<in># slots c \<Longrightarrow> entity_drop h (heap_of c) = Some heap \<Longrightarrow>
    em_step c (c\<lparr>heap_of := heap, slots := slots c - {#h#}\<rparr>)"
| step_downgrade: "h \<in># strong c + slots c \<Longrightarrow> em_step c (c\<lparr>weak := insert (downgrade h) (weak c)\<rparr>)"
| step_upgrade: "w \<in> weak c \<Longrightarrow> weak_upgrade w (heap_of c) = Some (h, heap) \<Longrightarrow>
    em_step c (c\<lparr>heap_of := heap, strong := add_mset h (strong c)\<rparr>)"
| step_read: "h \<in># strong c + slots c \<Longrightarrow> em_read (em_of c) h (ae_entity_type h) = Some (v, m) \<Longrightarrow>
    em_step c (c\<lparr>em_of := m\<rparr>)"
| step_lease: "h \<in># strong c + slots c \<Longrightarrow> em_lease (em_of c) h = Some (l, m) \<Longrightarrow> le_entity l = Some b \<Longrightarrow>
    em_step c (c\<lparr>em_of := m, leases := (leases c)(le_id l \<mapsto> b)\<rparr>)"
| step_end_lease: "leases c eid = Some b \<Longrightarrow> end_lease (em_of c) \<lparr>le_id = eid, le_entity = Some (fst b, v)\<rparr> = Some m \<Longrightarrow>
    em_step c (c\<lparr>em_of := m, leases := (leases c)(eid := None)\<rparr>)"
| step_take_dropped: "leases c = Map.empty \<Longrightarrow> take_dropped (em_of c) (heap_of c) = Some (taken, m, heap) \<Longrightarrow>
    em_step c (c\<lparr>em_of := m, heap_of := heap\<rparr>)"

inductive em_reachable :: "('id, 'ty, 'v) program \<Rightarrow> bool" where
  reach_start: "em_reachable (program_start address)"
| reach_step: "em_reachable c \<Longrightarrow> em_step c c' \<Longrightarrow> em_reachable c'"

section \<open>The invariant\<close>

text \<open>The strong handles that refer to an entity, slots included.\<close>

definition held :: "('id, 'ty, 'v) program \<Rightarrow> 'id \<Rightarrow> nat" where
  "held c eid = count (image_mset ae_entity_id (strong c + slots c)) eid"

definition handle_ok :: "('id, 'ty, 'v) program \<Rightarrow> ('id, 'ty) any_entity \<Rightarrow> bool" where
  "handle_ok c h \<longleftrightarrow> ae_entity_map h = em_refs (em_of c) \<and> types c (ae_entity_id h) = Some (ae_entity_type h)"

definition weak_ok :: "('id, 'ty, 'v) program \<Rightarrow> ('id, 'ty) any_weak_entity \<Rightarrow> bool" where
  "weak_ok c w \<longleftrightarrow> aw_ref_counts w = Some (em_refs (em_of c)) \<and> types c (aw_entity_id w) = Some (aw_entity_type w)"

definition counts_ok :: "('id \<rightharpoonup> nat) \<Rightarrow> 'id list \<Rightarrow> ('id \<Rightarrow> nat) \<Rightarrow> bool" where
  "counts_ok counts dropped holders \<longleftrightarrow>
     distinct dropped \<and> set dropped = {eid. counts eid = Some 0} \<and>
     (\<forall>eid. holders eid = (case counts eid of None \<Rightarrow> 0 | Some n \<Rightarrow> n))"

definition values_ok ::
  "('id \<rightharpoonup> ('ty, 'v) boxed) \<Rightarrow> ('id \<rightharpoonup> ('ty, 'v) boxed) \<Rightarrow> ('id \<rightharpoonup> 'ty) \<Rightarrow> ('id \<rightharpoonup> nat) \<Rightarrow> 'id multiset \<Rightarrow> bool" where
  "values_ok entities leased tys counts reserved \<longleftrightarrow>
     dom entities \<inter> dom leased = {} \<and> dom entities \<union> dom leased \<subseteq> dom counts \<and> dom counts \<subseteq> dom tys \<and>
     (\<forall>eid b. entities eid = Some b \<or> leased eid = Some b \<longrightarrow> tys eid = Some (fst b)) \<and>
     (\<forall>eid \<in># reserved. eid \<notin> dom entities \<union> dom leased) \<and> (\<forall>eid. count reserved eid \<le> 1)"

definition inv_at :: "('id, 'ty, 'v) program \<Rightarrow> 'id ref_counts \<Rightarrow> bool" where
  "inv_at c rc \<longleftrightarrow>
     heap_of c (em_refs (em_of c)) = Some rc \<and> counts_ok (rc_counts rc) (rc_dropped rc) (held c) \<and>
     values_ok (em_entities (em_of c)) (leases c) (types c) (rc_counts rc) (image_mset ae_entity_id (slots c)) \<and>
     (\<forall>h \<in># strong c + slots c. handle_ok c h) \<and> (\<forall>w \<in> weak c. weak_ok c w)"

definition em_inv :: "('id, 'ty, 'v) program \<Rightarrow> bool" where
  "em_inv c \<longleftrightarrow> (\<exists>rc. inv_at c rc)"

lemma inv_atD:
  assumes "inv_at c rc"
  shows "heap_of c (em_refs (em_of c)) = Some rc" "counts_ok (rc_counts rc) (rc_dropped rc) (held c)"
    "values_ok (em_entities (em_of c)) (leases c) (types c) (rc_counts rc) (image_mset ae_entity_id (slots c))"
    "h \<in># strong c + slots c \<Longrightarrow> handle_ok c h" "w \<in> weak c \<Longrightarrow> weak_ok c w"
  using assms by (auto simp: inv_at_def)

lemma em_invI:
  assumes "heap_of c (em_refs (em_of c)) = Some rc" "counts_ok (rc_counts rc) (rc_dropped rc) (held c)"
    "values_ok (em_entities (em_of c)) (leases c) (types c) (rc_counts rc) (image_mset ae_entity_id (slots c))"
    "\<And>h. h \<in># strong c + slots c \<Longrightarrow> handle_ok c h" "\<And>w. w \<in> weak c \<Longrightarrow> weak_ok c w"
  shows "em_inv c"
  using assms by (auto simp: em_inv_def inv_at_def)

lemma em_inv_start: "em_inv (program_start address)"
  by (simp add: em_inv_def inv_at_def program_start_def entity_map_new_def ref_counts_new_def counts_ok_def values_ok_def held_def)

lemma held_pos: "h \<in># strong c + slots c \<Longrightarrow> 0 < held c (ae_entity_id h)"
  unfolding held_def by (metis count_greater_zero_iff image_eqI set_image_mset)

lemma held_counted: "counts_ok counts dropped (held c) \<Longrightarrow> h \<in># strong c + slots c \<Longrightarrow>
    counts (ae_entity_id h) = Some (held c (ae_entity_id h))"
  using held_pos [of h c] by (cases "counts (ae_entity_id h)") (simp_all add: counts_ok_def)

lemma counts_ok_new:
  "counts_ok counts dropped f \<Longrightarrow> counts k = None \<Longrightarrow> g = f(k := Suc (f k)) \<Longrightarrow> counts_ok (counts(k \<mapsto> 1)) dropped g"
  by (auto simp: counts_ok_def)

lemma counts_ok_incr:
  "counts_ok counts dropped f \<Longrightarrow> counts k = Some n \<Longrightarrow> n \<noteq> 0 \<Longrightarrow> g = f(k := Suc (f k)) \<Longrightarrow>
     counts_ok (counts(k \<mapsto> n + 1)) dropped g"
  by (auto simp: counts_ok_def)

lemma counts_ok_decr:
  assumes "counts_ok counts dropped f" "counts k = Some n" "n \<noteq> 0" "f = g(k := Suc (g k))"
  shows "counts_ok (counts(k \<mapsto> n - 1)) (if n = 1 then dropped @ [k] else dropped) g"
proof -
  have g: "g i = (if i = k then n - 1 else case counts i of None \<Rightarrow> 0 | Some n \<Rightarrow> n)" for i
    using assms by (auto simp: counts_ok_def dest: spec [of _ i])
  then show ?thesis using assms(1-3) by (auto simp: counts_ok_def)
qed

lemma values_ok_counts:
  "values_ok entities leased tys counts reserved \<Longrightarrow> dom counts \<subseteq> dom counts' \<Longrightarrow> dom counts' \<subseteq> dom tys' \<Longrightarrow>
     (\<And>i ty. tys i = Some ty \<Longrightarrow> tys' i = Some ty) \<Longrightarrow> values_ok entities leased tys' counts' reserved"
  unfolding values_ok_def by blast

lemma values_ok_reserve:
  "values_ok es ls tys cs R \<Longrightarrow> cs k = None \<Longrightarrow> tys k = None \<Longrightarrow> k \<notin># R \<Longrightarrow>
     values_ok es ls (tys(k \<mapsto> ty)) (cs(k \<mapsto> n)) (add_mset k R)"
  by (auto simp: values_ok_def not_in_iff domIff)

lemma values_ok_unreserve:
  assumes "values_ok es ls tys cs (add_mset k R)"
  shows "values_ok es ls tys cs R" "k \<notin># R"
proof -
  have le: "count (add_mset k R) i \<le> 1" for i using assms by (simp add: values_ok_def)
  have "count R i \<le> 1" for i using le [of i] by (simp split: if_splits)
  then show "values_ok es ls tys cs R" using assms by (simp add: values_ok_def)
  show "k \<notin># R" using le [of k] by (simp add: not_in_iff)
qed

lemma values_ok_insert:
  assumes "values_ok es ls tys cs (add_mset k R)" "tys k = Some ty" "k \<in> dom cs"
  shows "values_ok (es(k \<mapsto> (ty, v))) ls tys cs R"
  using values_ok_unreserve [OF assms(1)] assms by (auto simp: values_ok_def)

lemma values_ok_lease: "values_ok es ls tys cs R \<Longrightarrow> es k = Some b \<Longrightarrow> values_ok (es(k := None)) (ls(k \<mapsto> b)) tys cs R"
  by (auto simp: values_ok_def split: if_splits)

lemma values_ok_end_lease:
  "values_ok es ls tys cs R \<Longrightarrow> ls k = Some b \<Longrightarrow> values_ok (es(k \<mapsto> (fst b, v))) (ls(k := None)) tys cs R"
  by (cases b) (auto simp: values_ok_def split: if_splits)

lemma values_ok_take:
  assumes "values_ok es Map.empty tys cs R"
  shows "values_ok (es |` A) Map.empty tys (cs |` A) R"
proof -
  have "es i = Some b" if "(es |` A) i = Some b" for i b using that by (simp add: restrict_map_def split: if_splits)
  then show ?thesis using assms by (simp add: values_ok_def) blast
qed

lemma held_add_strong: "held (c\<lparr>heap_of := heap, strong := add_mset h (strong c)\<rparr>) =
    (held c)(ae_entity_id h := Suc (held c (ae_entity_id h)))"
  by (auto simp: held_def fun_eq_iff)

lemma held_diff:
  "h \<in># strong c \<Longrightarrow> held c = (held (c\<lparr>heap_of := heap, strong := strong c - {#h#}\<rparr>))
     (ae_entity_id h := Suc (held (c\<lparr>heap_of := heap, strong := strong c - {#h#}\<rparr>) (ae_entity_id h)))"
  "h \<in># slots c \<Longrightarrow> held c = (held (c\<lparr>heap_of := heap, slots := slots c - {#h#}\<rparr>))
     (ae_entity_id h := Suc (held (c\<lparr>heap_of := heap, slots := slots c - {#h#}\<rparr>) (ae_entity_id h)))"
  by (auto simp: held_def fun_eq_iff dest!: multi_member_split)

lemma held_same:
  "strong c' + slots c' = strong c + slots c \<Longrightarrow> held c' = held c"
  by (simp add: held_def fun_eq_iff flip: image_mset_union)

lemma map_filter_upd_None:
  "i \<notin> set ids \<Longrightarrow> List.map_filter (\<lambda>j. map_option (Pair j) ((f(i := None)) j)) ids =
     List.map_filter (\<lambda>j. map_option (Pair j) (f j)) ids"
  by (induction ids) (auto simp: map_filter_simps split: option.splits)

lemma map_filter_keys:
  "map fst (List.map_filter (\<lambda>i. map_option (Pair i) (f i)) ids) = filter (\<lambda>i. f i \<noteq> None) ids"
  by (induction ids) (auto simp: map_filter_simps split: option.splits)

lemma take_each_ok:
  "distinct ids \<Longrightarrow> \<forall>i \<in> set ids. counts i = Some 0 \<Longrightarrow>
     take_each ids counts m =
       Some (List.map_filter (\<lambda>i. map_option (Pair i) (em_entities m i)) ids, counts |` (- set ids),
             m\<lparr>em_entities := em_entities m |` (- set ids), em_accessed := em_accessed m - set ids\<rparr>)"
proof (induction ids arbitrary: counts m)
  case Nil
  then show ?case by (simp add: map_filter_simps)
next
  case (Cons i ids)
  have tail: "\<forall>j \<in> set ids. (counts(i := None)) j = Some 0" using Cons.prems by auto
  have same: "em_entities m i = None \<Longrightarrow> em_entities m |` (- set ids) = em_entities m |` (- set ids - {i})"
    by (auto simp: restrict_map_def fun_eq_iff)
  have acc: "A - {i} - B = A - insert i B" for A B by blast
  show ?case
    using Cons.prems Cons.IH [OF _ tail]
    by (cases "em_entities m i")
      (simp_all add: map_filter_simps Compl_insert map_filter_upd_None same acc del: fun_upd_apply)
qed

text \<open>Every operation that the invariant admits returns and keeps it.\<close>

lemma inv_reserve:
  assumes inv: "em_inv c" and new: "types c key = None"
  shows "\<exists>h heap. reserve key ty (em_of c) (heap_of c) = Some (h, heap) \<and>
    em_inv (c\<lparr>heap_of := heap, slots := add_mset h (slots c), types := (types c)(key \<mapsto> ty)\<rparr>)"
proof -
  from inv obtain rc where "inv_at c rc" by (auto simp: em_inv_def)
  note rc = inv_atD [OF this]
  have none: "rc_counts rc key = None" using rc(3) new by (auto simp: values_ok_def)
  have "held c key = 0" using rc(2) none by (simp add: counts_ok_def)
  then have fresh: "key \<notin># image_mset ae_entity_id (slots c)" unfolding held_def count_eq_zero_iff by auto
  let ?h = "\<lparr>ae_entity_id = key, ae_entity_type = ty, ae_entity_map = em_refs (em_of c)\<rparr>"
  let ?heap = "(heap_of c)(em_refs (em_of c) \<mapsto> rc\<lparr>rc_counts := (rc_counts rc)(key \<mapsto> 1)\<rparr>)"
  let ?c = "c\<lparr>heap_of := ?heap, slots := add_mset ?h (slots c), types := (types c)(key \<mapsto> ty)\<rparr>"
  have held: "held ?c = (held c)(key := Suc (held c key))" by (auto simp: held_def fun_eq_iff)
  have "em_inv ?c"
  proof (rule em_invI)
    show "counts_ok (rc_counts (rc\<lparr>rc_counts := (rc_counts rc)(key \<mapsto> 1)\<rparr>)) (rc_dropped (rc\<lparr>rc_counts := (rc_counts rc)(key \<mapsto> 1)\<rparr>)) (held ?c)"
      using counts_ok_new [OF rc(2) none held] by simp
    show "values_ok (em_entities (em_of ?c)) (leases ?c) (types ?c) (rc_counts (rc\<lparr>rc_counts := (rc_counts rc)(key \<mapsto> 1)\<rparr>)) (image_mset ae_entity_id (slots ?c))"
      using values_ok_reserve [OF rc(3) none new fresh] by simp
    show "handle_ok ?c g" if "g \<in># strong ?c + slots ?c" for g
      using that rc(4) [of g] new by (auto simp: handle_ok_def)
    show "weak_ok ?c w" if "w \<in> weak ?c" for w using that rc(5) [of w] new by (auto simp: weak_ok_def)
  qed simp
  moreover have "reserve key ty (em_of c) (heap_of c) = Some (?h, ?heap)" using rc(1) by (simp add: reserve_def)
  ultimately show ?thesis by blast
qed

lemma inv_insert:
  assumes inv: "em_inv c" and h: "h \<in># slots c" and ins: "em_insert (em_of c) h (ae_entity_type h, v) = (h', m)"
  shows "em_inv (c\<lparr>em_of := m, slots := slots c - {#h#}, strong := add_mset h' (strong c)\<rparr>)"
proof -
  from inv obtain rc where "inv_at c rc" by (auto simp: em_inv_def)
  note rc = inv_atD [OF this]
  obtain S where S: "slots c = add_mset h S" using h by (metis mset_add)
  have hok: "handle_ok c h" and counted: "rc_counts rc (ae_entity_id h) = Some (held c (ae_entity_id h))"
    using rc(4) [of h] held_counted [OF rc(2), of h] h by simp_all
  have m: "h' = h" "em_refs m = em_refs (em_of c)" "em_entities m = (em_entities (em_of c))(ae_entity_id h \<mapsto> (ae_entity_type h, v))"
    using ins by (auto simp: em_insert_def Let_def)
  let ?c = "c\<lparr>em_of := m, slots := S, strong := add_mset h (strong c)\<rparr>"
  have "em_inv ?c"
  proof (rule em_invI)
    show "heap_of ?c (em_refs (em_of ?c)) = Some rc" using rc(1) m by simp
    have "held ?c = held c" by (rule held_same) (simp add: S)
    then show "counts_ok (rc_counts rc) (rc_dropped rc) (held ?c)" using rc(2) by simp
    show "values_ok (em_entities (em_of ?c)) (leases ?c) (types ?c) (rc_counts rc) (image_mset ae_entity_id (slots ?c))"
      using values_ok_insert [of "em_entities (em_of c)" "leases c" "types c" "rc_counts rc" "ae_entity_id h"
          "image_mset ae_entity_id S" "ae_entity_type h" v] rc(3) hok counted
      by (simp add: S m handle_ok_def domI)
    show "handle_ok ?c g" if "g \<in># strong ?c + slots ?c" for g
      using that rc(4) [of g] by (auto simp: handle_ok_def S m)
    show "weak_ok ?c w" if "w \<in> weak ?c" for w using that rc(5) [of w] by (auto simp: weak_ok_def m)
  qed
  then show ?thesis by (simp add: S m)
qed

lemma inv_clone:
  assumes inv: "em_inv c" and h: "h \<in># strong c + slots c"
  shows "\<exists>heap. entity_clone h (heap_of c) = Some (h, heap) \<and> em_inv (c\<lparr>heap_of := heap, strong := add_mset h (strong c)\<rparr>)"
proof -
  from inv obtain rc where "inv_at c rc" by (auto simp: em_inv_def)
  note rc = inv_atD [OF this]
  let ?i = "ae_entity_id h"
  note counted = held_counted [OF rc(2) h]
  have pos: "held c ?i \<noteq> 0" using held_pos [OF h] by simp
  let ?rc = "rc\<lparr>rc_counts := (rc_counts rc)(?i \<mapsto> held c ?i + 1)\<rparr>"
  let ?c = "c\<lparr>heap_of := (heap_of c)(em_refs (em_of c) \<mapsto> ?rc), strong := add_mset h (strong c)\<rparr>"
  have "em_inv ?c"
  proof (rule em_invI)
    show "counts_ok (rc_counts ?rc) (rc_dropped ?rc) (held ?c)"
      using counts_ok_incr [OF rc(2) counted pos held_add_strong] by simp
    show "values_ok (em_entities (em_of ?c)) (leases ?c) (types ?c) (rc_counts ?rc) (image_mset ae_entity_id (slots ?c))"
      using values_ok_counts [OF rc(3), of "rc_counts ?rc" "types c"] rc(3) counted by (auto simp: values_ok_def)
    show "handle_ok ?c g" if "g \<in># strong ?c + slots ?c" for g
      using that rc(4) [of g] rc(4) [OF h] by (auto simp: handle_ok_def)
    show "weak_ok ?c w" if "w \<in> weak ?c" for w using that rc(5) [of w] by (auto simp: weak_ok_def)
  qed simp
  moreover have "entity_clone h (heap_of c) = Some (h, (heap_of c)(em_refs (em_of c) \<mapsto> ?rc))"
    using rc(1) rc(4) [OF h] counted pos by (simp add: entity_clone_def handle_ok_def)
  ultimately show ?thesis by blast
qed

lemma inv_drop_to:
  assumes inv: "em_inv c" and h: "h \<in># strong c + slots c"
    and c': "\<And>heap. heap_of (c' heap) = heap" "\<And>heap. em_of (c' heap) = em_of c" "\<And>heap. leases (c' heap) = leases c"
      "\<And>heap. types (c' heap) = types c" "\<And>heap. weak (c' heap) = weak c"
    and less: "\<And>heap. strong (c' heap) \<subseteq># strong c" "\<And>heap. slots c = slots (c' heap) \<or> slots c = add_mset h (slots (c' heap))"
    and held: "\<And>heap. held c = (held (c' heap))(ae_entity_id h := Suc (held (c' heap) (ae_entity_id h)))"
  shows "\<exists>heap. entity_drop h (heap_of c) = Some heap \<and> em_inv (c' heap)"
proof -
  from inv obtain rc where "inv_at c rc" by (auto simp: em_inv_def)
  note rc = inv_atD [OF this]
  let ?i = "ae_entity_id h"
  note counted = held_counted [OF rc(2) h]
  have pos: "held c ?i \<noteq> 0" using held_pos [OF h] by simp
  let ?rc = "rc\<lparr>rc_counts := (rc_counts rc)(?i \<mapsto> held c ?i - 1),
    rc_dropped := if held c ?i = 1 then rc_dropped rc @ [?i] else rc_dropped rc\<rparr>"
  let ?heap = "(heap_of c)(em_refs (em_of c) \<mapsto> ?rc)"
  have "em_inv (c' ?heap)"
  proof (rule em_invI)
    show "heap_of (c' ?heap) (em_refs (em_of (c' ?heap))) = Some ?rc" by (simp add: c')
    show "counts_ok (rc_counts ?rc) (rc_dropped ?rc) (held (c' ?heap))"
      using counts_ok_decr [OF rc(2) counted pos held [of ?heap]] by simp
    have "values_ok (em_entities (em_of c)) (leases c) (types c) (rc_counts rc) (image_mset ae_entity_id (slots (c' ?heap)))"
      using rc(3) less(2) [of ?heap] values_ok_unreserve by auto
    then show "values_ok (em_entities (em_of (c' ?heap))) (leases (c' ?heap)) (types (c' ?heap)) (rc_counts ?rc)
        (image_mset ae_entity_id (slots (c' ?heap)))"
      using values_ok_counts [of _ _ "types c" "rc_counts rc" _ "rc_counts ?rc" "types c"] rc(3) counted
      by (auto simp: c' values_ok_def)
    have sub: "strong (c' ?heap) + slots (c' ?heap) \<subseteq># strong c + slots c"
      using less [of ?heap] by (auto intro: subset_mset.add_mono)
    show "handle_ok (c' ?heap) g" if "g \<in># strong (c' ?heap) + slots (c' ?heap)" for g
      using mset_subset_eqD [OF sub that] rc(4) [of g] by (simp add: handle_ok_def c')
    show "weak_ok (c' ?heap) w" if "w \<in> weak (c' ?heap)" for w using that rc(5) [of w] by (simp add: weak_ok_def c')
  qed
  moreover have "entity_drop h (heap_of c) = Some ?heap"
    using rc(1) rc(4) [OF h] counted pos by (simp add: entity_drop_def handle_ok_def Let_def)
  ultimately show ?thesis by blast
qed

lemma inv_drop:
  assumes "em_inv c" "h \<in># strong c"
  shows "\<exists>heap. entity_drop h (heap_of c) = Some heap \<and> em_inv (c\<lparr>heap_of := heap, strong := strong c - {#h#}\<rparr>)"
  using assms(2) held_diff(1) [OF assms(2)] by (intro inv_drop_to [OF assms(1), of h]) auto

lemma inv_drop_slot:
  assumes "em_inv c" "h \<in># slots c"
  shows "\<exists>heap. entity_drop h (heap_of c) = Some heap \<and> em_inv (c\<lparr>heap_of := heap, slots := slots c - {#h#}\<rparr>)"
  using assms(2) held_diff(2) [OF assms(2)] by (intro inv_drop_to [OF assms(1), of h]) auto

text \<open>A weak handle can be upgraded exactly when some strong handle is left.\<close>

lemma inv_upgrade:
  assumes inv: "em_inv c" and w: "w \<in> weak c"
  shows "weak_upgrade w (heap_of c) = None \<longleftrightarrow> held c (aw_entity_id w) = 0"
    "weak_upgrade w (heap_of c) = Some (h, heap) \<Longrightarrow> downgrade h = w \<and> em_inv (c\<lparr>heap_of := heap, strong := add_mset h (strong c)\<rparr>)"
    "is_upgradable w (heap_of c) \<longleftrightarrow> held c (aw_entity_id w) > 0"
proof -
  from inv obtain rc where "inv_at c rc" by (auto simp: em_inv_def)
  note rc = inv_atD [OF this]
  let ?i = "aw_entity_id w"
  have wok: "aw_ref_counts w = Some (em_refs (em_of c))" "types c ?i = Some (aw_entity_type w)"
    using rc(5) [OF w] by (simp_all add: weak_ok_def)
  have cnt: "held c ?i = (case rc_counts rc ?i of None \<Rightarrow> 0 | Some n \<Rightarrow> n)" using rc(2) by (simp add: counts_ok_def)
  show "weak_upgrade w (heap_of c) = None \<longleftrightarrow> held c ?i = 0" "is_upgradable w (heap_of c) \<longleftrightarrow> held c ?i > 0"
    using rc(1) wok(1) cnt
    by (auto simp: weak_upgrade_def is_upgradable_def weak_upgrade_refs_def atomic_incr_if_not_zero_def split: option.splits)
  assume up: "weak_upgrade w (heap_of c) = Some (h, heap)"
  let ?rc = "rc\<lparr>rc_counts := (rc_counts rc)(?i \<mapsto> held c ?i + 1)\<rparr>"
  have counted: "rc_counts rc ?i = Some (held c ?i)" "held c ?i \<noteq> 0"
    and h: "h = \<lparr>ae_entity_id = ?i, ae_entity_type = aw_entity_type w, ae_entity_map = em_refs (em_of c)\<rparr>"
      "heap = (heap_of c)(em_refs (em_of c) \<mapsto> ?rc)"
    using up rc(1) wok(1) cnt
    by (auto simp: weak_upgrade_def atomic_incr_if_not_zero_def bind_eq_Some_conv split: if_splits)
  have id_h: "ae_entity_id h = ?i" by (simp add: h)
  let ?c = "c\<lparr>heap_of := heap, strong := add_mset h (strong c)\<rparr>"
  have "em_inv ?c"
  proof (rule em_invI)
    show "heap_of ?c (em_refs (em_of ?c)) = Some ?rc" by (simp add: h)
    show "counts_ok (rc_counts ?rc) (rc_dropped ?rc) (held ?c)"
      using counts_ok_incr [OF rc(2) counted held_add_strong [where c = c and heap = heap and h = h, unfolded id_h]] by simp
    show "values_ok (em_entities (em_of ?c)) (leases ?c) (types ?c) (rc_counts ?rc) (image_mset ae_entity_id (slots ?c))"
      using values_ok_counts [OF rc(3), of "rc_counts ?rc" "types c"] rc(3) counted by (auto simp: values_ok_def)
    show "handle_ok ?c g" if "g \<in># strong ?c + slots ?c" for g
      using that rc(4) [of g] wok(2) by (auto simp: handle_ok_def h)
    show "weak_ok ?c w" if "w \<in> weak ?c" for w using that rc(5) [of w] by (auto simp: weak_ok_def)
  qed
  moreover have "downgrade h = w" using wok(1) by (simp add: downgrade_def h)
  ultimately show "downgrade h = w \<and> em_inv ?c" by blast
qed

lemma inv_change_map:
  assumes inv: "em_inv c" and m: "em_refs m = em_refs (em_of c)"
    and vals: "\<And>rc. inv_at c rc \<Longrightarrow> values_ok (em_entities m) ls (types c) (rc_counts rc) (image_mset ae_entity_id (slots c))"
  shows "em_inv (c\<lparr>em_of := m, leases := ls\<rparr>)"
proof -
  from inv obtain rc where at: "inv_at c rc" by (auto simp: em_inv_def)
  have "held (c\<lparr>em_of := m, leases := ls\<rparr>) = held c" by (rule held_same) simp
  then have "inv_at (c\<lparr>em_of := m, leases := ls\<rparr>) rc"
    using at vals [OF at] by (simp add: inv_at_def m handle_ok_def weak_ok_def)
  then show ?thesis by (auto simp: em_inv_def)
qed

lemma inv_read:
  assumes inv: "em_inv c" and h: "h \<in># strong c + slots c"
  shows "em_read (em_of c) h (ae_entity_type h) =
      map_option (\<lambda>b. (snd b, (em_of c)\<lparr>em_accessed := insert (ae_entity_id h) (em_accessed (em_of c))\<rparr>)) (em_entities (em_of c) (ae_entity_id h))"
    "em_inv (c\<lparr>em_of := (em_of c)\<lparr>em_accessed := A\<rparr>\<rparr>)"
proof -
  from inv obtain rc where "inv_at c rc" by (auto simp: em_inv_def)
  note rc = inv_atD [OF this]
  have "fst b = ae_entity_type h" if "em_entities (em_of c) (ae_entity_id h) = Some b" for b
    using that rc(3) rc(4) [OF h] by (cases b) (auto simp: values_ok_def handle_ok_def)
  then show "em_read (em_of c) h (ae_entity_type h) =
      map_option (\<lambda>b. (snd b, (em_of c)\<lparr>em_accessed := insert (ae_entity_id h) (em_accessed (em_of c))\<rparr>)) (em_entities (em_of c) (ae_entity_id h))"
    using rc(4) [OF h]
    by (cases "em_entities (em_of c) (ae_entity_id h)")
      (simp_all add: em_read_def assert_valid_context_def handle_ok_def read_inner_def downcast_ref_def Let_def)
  show "em_inv (c\<lparr>em_of := (em_of c)\<lparr>em_accessed := A\<rparr>\<rparr>)"
    using inv_change_map [OF inv, of "(em_of c)\<lparr>em_accessed := A\<rparr>" "leases c"] by (simp add: inv_atD(3))
qed

lemma inv_lease:
  assumes inv: "em_inv c" and h: "h \<in># strong c + slots c"
  shows "em_lease (em_of c) h = None \<longleftrightarrow> em_entities (em_of c) (ae_entity_id h) = None"
    "em_lease (em_of c) h = Some (l, m) \<Longrightarrow> le_id l = ae_entity_id h \<and> le_entity l = em_entities (em_of c) (ae_entity_id h)"
    "em_lease (em_of c) h = Some (l, m) \<Longrightarrow> le_entity l = Some b \<Longrightarrow> em_inv (c\<lparr>em_of := m, leases := (leases c)(le_id l \<mapsto> b)\<rparr>)"
proof -
  from inv obtain rc where "inv_at c rc" by (auto simp: em_inv_def)
  note rc = inv_atD [OF this]
  let ?i = "ae_entity_id h"
  have eq: "em_lease (em_of c) h =
      (case em_entities (em_of c) ?i of
         None \<Rightarrow> None
       | Some b \<Rightarrow> Some (\<lparr>le_id = ?i, le_entity = Some b\<rparr>, (em_of c)\<lparr>em_accessed := insert ?i (em_accessed (em_of c)),
                        em_entities := (em_entities (em_of c))(?i := None)\<rparr>))"
    using rc(4) [OF h] by (simp add: em_lease_def assert_valid_context_def handle_ok_def lease_inner_def Let_def split: option.splits)
  show "em_lease (em_of c) h = None \<longleftrightarrow> em_entities (em_of c) ?i = None"
    "em_lease (em_of c) h = Some (l, m) \<Longrightarrow> le_id l = ?i \<and> le_entity l = em_entities (em_of c) ?i"
    by (auto simp: eq split: option.splits)
  assume "em_lease (em_of c) h = Some (l, m)" "le_entity l = Some b"
  then have m: "em_refs m = em_refs (em_of c)" "em_entities m = (em_entities (em_of c))(?i := None)" "le_id l = ?i"
      "em_entities (em_of c) ?i = Some b"
    by (auto simp: eq split: option.splits)
  show "em_inv (c\<lparr>em_of := m, leases := (leases c)(le_id l \<mapsto> b)\<rparr>)"
    using values_ok_lease [OF inv_atD(3) m(4)] by (intro inv_change_map [OF inv m(1)]) (simp add: m(2,3))
qed

lemma inv_end_lease:
  assumes inv: "em_inv c" and l: "leases c i = Some b"
  shows "\<exists>m. end_lease (em_of c) \<lparr>le_id = i, le_entity = Some (fst b, v)\<rparr> = Some m \<and>
    em_entities m = (em_entities (em_of c))(i \<mapsto> (fst b, v)) \<and> em_inv (c\<lparr>em_of := m, leases := (leases c)(i := None)\<rparr>)"
  using values_ok_end_lease [OF inv_atD(3) l] by (auto simp: end_lease_def intro!: inv_change_map [OF inv])

lemma inv_take_dropped:
  assumes inv: "em_inv c" and none: "leases c = Map.empty"
  shows "\<exists>taken m heap rc. take_dropped (em_of c) (heap_of c) = Some (taken, m, heap) \<and> distinct (map fst taken) \<and>
    set taken = {(i, b). em_entities (em_of c) i = Some b \<and> held c i = 0} \<and>
    (\<forall>i. em_entities m i = (if held c i = 0 then None else em_entities (em_of c) i)) \<and>
    heap (em_refs m) = Some rc \<and> dom (rc_counts rc) = {i. held c i > 0} \<and> rc_dropped rc = [] \<and>
    em_inv (c\<lparr>em_of := m, heap_of := heap\<rparr>)"
proof -
  from inv obtain rc where "inv_at c rc" by (auto simp: em_inv_def)
  note rc = inv_atD [OF this]
  let ?D = "rc_dropped rc" and ?es = "em_entities (em_of c)"
  let ?taken = "List.map_filter (\<lambda>i. map_option (Pair i) (?es i)) ?D"
  let ?m = "(em_of c)\<lparr>em_entities := ?es |` (- set ?D), em_accessed := em_accessed (em_of c) - set ?D\<rparr>"
  let ?rc = "rc\<lparr>rc_counts := rc_counts rc |` (- set ?D), rc_dropped := []\<rparr>"
  let ?heap = "(heap_of c)(em_refs (em_of c) \<mapsto> ?rc)"
  have D: "distinct ?D" "set ?D = {i. rc_counts rc i = Some 0}"
    and cnt: "\<And>i. held c i = (case rc_counts rc i of None \<Rightarrow> 0 | Some n \<Rightarrow> n)"
    using rc(2) by (simp_all add: counts_ok_def)
  have "take_dropped (em_of c) (heap_of c) = Some (?taken, ?m, ?heap)"
    using rc(1) take_each_ok [of ?D "rc_counts rc" "em_of c"] D by (simp add: take_dropped_def)
  moreover have "distinct (map fst ?taken)"
    using D(1) by (simp add: map_filter_keys)
  moreover have live: "i \<in> dom (rc_counts rc)" if "?es i = Some b" for i b using that rc(3) by (auto simp: values_ok_def)
  then have zero: "i \<in> set ?D \<longleftrightarrow> held c i = 0" if "?es i = Some b" for i b
    using live [OF that] cnt [of i] D(2) by (cases "rc_counts rc i") auto
  then have "set ?taken = {(i, b). ?es i = Some b \<and> held c i = 0}" by (force simp: map_filter_def)
  moreover have "em_entities ?m i = (if held c i = 0 then None else ?es i)" for i
    using zero [of i] by (cases "?es i") (auto simp: restrict_map_def)
  moreover have dom_rc: "dom (rc_counts ?rc) = {i. held c i > 0}" using cnt D(2) by (force simp: dom_restrict split: option.splits)
  moreover have "em_inv (c\<lparr>em_of := ?m, heap_of := ?heap\<rparr>)"
  proof (rule em_invI)
    let ?c = "c\<lparr>em_of := ?m, heap_of := ?heap\<rparr>"
    have held: "held ?c = held c" by (rule held_same) simp
    show "counts_ok (rc_counts ?rc) (rc_dropped ?rc) (held ?c)"
      unfolding held using cnt D(2) by (auto simp: counts_ok_def restrict_map_def split: option.splits if_splits)
    show "values_ok (em_entities (em_of ?c)) (leases ?c) (types ?c) (rc_counts ?rc) (image_mset ae_entity_id (slots ?c))"
      using values_ok_take [of ?es "types c" "rc_counts rc" _ "- set ?D"] rc(3) none by simp
    show "handle_ok ?c g" if "g \<in># strong ?c + slots ?c" for g using that rc(4) [of g] by (simp add: handle_ok_def)
    show "weak_ok ?c w" if "w \<in> weak ?c" for w using that rc(5) [of w] by (simp add: weak_ok_def)
  qed simp
  ultimately show ?thesis by (intro exI [of _ ?taken] exI [of _ ?m] exI [of _ ?heap] exI [of _ ?rc]) simp
qed

lemma em_step_inv: "em_step c c' \<Longrightarrow> em_inv c \<Longrightarrow> em_inv c'"
proof (induction rule: em_step.induct)
  case (step_reserve c key ty h heap)
  then show ?case using inv_reserve [of c key ty] by auto
next
  case (step_insert h c v h' m)
  then show ?case by (intro inv_insert)
next
  case (step_clone h c h' heap)
  then show ?case using inv_clone [of c h] by auto
next
  case (step_drop h c heap)
  then show ?case using inv_drop [of c h] by auto
next
  case (step_drop_slot h c heap)
  then show ?case using inv_drop_slot [of c h] by auto
next
  case (step_downgrade h c)
  then obtain rc where "inv_at c rc" by (auto simp: em_inv_def)
  note rc = inv_atD [OF this]
  have "held (c\<lparr>weak := insert (downgrade h) (weak c)\<rparr>) = held c" by (rule held_same) simp
  then show ?case using rc(1-3,5) rc(4) step_downgrade(1)
    by (intro em_invI [of _ rc]) (auto simp: handle_ok_def weak_ok_def downgrade_def)
next
  case (step_upgrade w c h heap)
  then show ?case using inv_upgrade(2) by blast
next
  case (step_read h c v m)
  then show ?case using inv_read [of c h] by auto
next
  case (step_lease h c l m b)
  then show ?case using inv_lease(3) by blast
next
  case (step_end_lease c i b v m)
  then show ?case using inv_end_lease [of c i b v] by auto
next
  case (step_take_dropped c taken m heap)
  then show ?case using inv_take_dropped [of c] by auto
qed

lemma em_reachable_inv: "em_reachable c \<Longrightarrow> em_inv c"
  by (induction rule: em_reachable.induct) (auto simp: em_inv_start em_step_inv)

text \<open>What has no strong handle left never gets one again.\<close>

lemma unheld_step:
  assumes "em_step c c'" "em_inv c" "i \<in> dom (types c)" "held c i = 0"
  shows "held c' i = 0" "i \<in> dom (types c')"
proof -
  have none: "ae_entity_id h \<noteq> i" if "h \<in># strong c + slots c" for h using held_pos [OF that] assms(4) by auto
  show "held c' i = 0" using assms(1)
  proof (cases rule: em_step.cases)
    case (step_reserve key ty h heap)
    then have "ae_entity_id h \<noteq> i" using assms(3) by (auto simp: reserve_def bind_eq_Some_conv)
    then show ?thesis using assms(4) step_reserve(1) by (simp add: held_def)
  next
    case (step_insert h v h' m)
    then show ?thesis using assms(4) none [of h] by (auto simp: held_def em_insert_def Let_def dest!: multi_member_split)
  next
    case (step_clone h h' heap)
    then show ?thesis using assms(4) none [of h] inv_clone [OF assms(2), of h] by (auto simp: held_def)
  next
    case (step_upgrade w h heap)
    then have "ae_entity_id h = aw_entity_id w" "held c (aw_entity_id w) \<noteq> 0"
      using inv_upgrade(1,2) [OF assms(2), of w] by (auto simp: downgrade_def)
    then have "ae_entity_id h \<noteq> i" using assms(4) by auto
    then show ?thesis using assms(4) step_upgrade(1) by (simp add: held_def)
  qed (use assms(4) in \<open>auto simp: held_def split: if_splits dest!: multi_member_split\<close>)
  show "i \<in> dom (types c')" using assms(1,3) by (cases rule: em_step.cases) auto
qed

lemma unheld_run:
  "em_step\<^sup>*\<^sup>* c c' \<Longrightarrow> em_inv c \<Longrightarrow> i \<in> dom (types c) \<Longrightarrow> held c i = 0 \<Longrightarrow> em_inv c' \<and> held c' i = 0 \<and> i \<in> dom (types c')"
  by (induction rule: rtranclp_induct) (auto simp: em_step_inv unheld_step dest: unheld_step)

definition present :: "('id, 'ty, 'v) program \<Rightarrow> 'id \<Rightarrow> bool" where
  "present c i \<longleftrightarrow> i \<in> dom (em_entities (em_of c)) \<union> dom (leases c)"

lemma present_step:
  assumes "em_step c c'" "em_inv c" "present c i" "held c' i > 0"
  shows "present c' i"
  using assms(1)
proof (cases rule: em_step.cases)
  case (step_insert h v h' m)
  then show ?thesis using assms(3) by (auto simp: present_def em_insert_def Let_def)
next
  case (step_read h v m)
  then show ?thesis using assms(3) inv_read(1) [OF assms(2), of h] by (auto simp: present_def)
next
  case (step_lease h l m b)
  have "em_entities m = (em_entities (em_of c))(le_id l := None)"
    using step_lease by (auto simp: em_lease_def lease_inner_def Let_def assert_valid_context_def bind_eq_Some_conv)
  then show ?thesis using assms(3) step_lease(1) by (auto simp: present_def)
next
  case (step_end_lease j b v m)
  then show ?thesis using assms(3) by (cases "i = j") (auto simp: present_def end_lease_def)
next
  case (step_take_dropped taken m heap)
  have "held c' i = held c i" using step_take_dropped(1) by (simp add: held_def)
  moreover have "em_entities m i = (if held c i = 0 then None else em_entities (em_of c) i)"
    using inv_take_dropped [OF assms(2) step_take_dropped(2)] step_take_dropped(3) by auto
  ultimately have "em_entities m i = em_entities (em_of c) i" using assms(4) by simp
  then show ?thesis using assms(3) step_take_dropped(1,2) by (auto simp: present_def)
qed (use assms(3) in \<open>auto simp: present_def\<close>)

lemma present_typed: "em_inv c \<Longrightarrow> present c i \<Longrightarrow> i \<in> dom (types c)"
  by (auto simp: em_inv_def inv_at_def values_ok_def present_def)

lemma present_run:
  assumes "em_step\<^sup>*\<^sup>* c c'" "em_inv c" "present c i" "held c' i > 0"
  shows "present c' i"
  using assms(1,2,4)
proof (induction rule: rtranclp_induct)
  case base
  then show ?case using assms(3) by simp
next
  case (step d e)
  have d: "em_inv d" using step.hyps(1) assms(2) by (induction rule: rtranclp_induct) (auto intro: em_step_inv)
  have "i \<in> dom (types d)"
    using step.hyps(1) present_typed [OF assms(2,3)]
    by (induction rule: rtranclp_induct) (auto elim!: em_step.cases split: if_splits)
  then have "held d i > 0" using unheld_step(1) [OF step.hyps(2) d] step.prems(2) by fastforce
  then show ?case using step.IH step.prems(1) present_step [OF step.hyps(2) d _ step.prems(2)] by blast
qed

section \<open>Properties\<close>

text \<open>
  Claim C6. In every state that a program reaches, the count of an entity is the number of strong handles to it, the list of
  dropped ids holds exactly the entities whose last handle is gone, each once, and every handle and every stored value has
  the type its id was reserved at. So cloning and dropping a handle never panic with an over-release, and neither does
  \<^verbatim>\<open>take_dropped\<close>.
\<close>

theorem entity_map_invariant:
  assumes "em_reachable c"
  shows "em_inv c \<and> (\<forall>h \<in># strong c + slots c. entity_clone h (heap_of c) \<noteq> None \<and> entity_drop h (heap_of c) \<noteq> None) \<and>
    (leases c = Map.empty \<longrightarrow> take_dropped (em_of c) (heap_of c) \<noteq> None)"
proof (intro conjI ballI impI)
  show inv: "em_inv c" by (rule em_reachable_inv [OF assms])
  fix h assume h: "h \<in># strong c + slots c"
  show "entity_clone h (heap_of c) \<noteq> None" using inv_clone [OF inv h] by auto
  show "entity_drop h (heap_of c) \<noteq> None" using h inv_drop [OF inv, of h] inv_drop_slot [OF inv, of h] by auto
next
  assume "leases c = Map.empty"
  then show "take_dropped (em_of c) (heap_of c) \<noteq> None" using inv_take_dropped [OF em_reachable_inv [OF assms]] by auto
qed

text \<open>One entity that is reserved, inserted and dropped, and one that is leased.\<close>

definition handle_7 :: "(nat, nat) any_entity" where
  "handle_7 = \<lparr>ae_entity_id = 7, ae_entity_type = 0, ae_entity_map = 1\<rparr>"

definition holding :: "(nat, nat, string) program" where
  "holding =
     \<lparr>heap_of = [1 \<mapsto> \<lparr>rc_counts = [7 \<mapsto> 1], rc_dropped = []\<rparr>],
      em_of = \<lparr>em_entities = [7 \<mapsto> (0, ''v'')], em_accessed = {7}, em_refs = 1\<rparr>,
      strong = {#handle_7#}, slots = {#}, weak = {downgrade handle_7}, leases = Map.empty, types = [7 \<mapsto> 0]\<rparr>"

lemma holding_reachable: "em_reachable holding"
proof -
  let ?s0 = "program_start 1 :: (nat, nat, string) program"
  let ?s1 = "?s0\<lparr>heap_of := [1 \<mapsto> \<lparr>rc_counts = [7 \<mapsto> 1], rc_dropped = []\<rparr>], slots := {#handle_7#}, types := [7 \<mapsto> 0]\<rparr>"
  let ?s2 = "?s1\<lparr>em_of := \<lparr>em_entities = [7 \<mapsto> (0, ''v'')], em_accessed = {7}, em_refs = 1\<rparr>, slots := {#}, strong := {#handle_7#}\<rparr>"
  have "em_step ?s0 ?s1"
    using step_reserve [of ?s0 7 0 handle_7 "[1 \<mapsto> \<lparr>rc_counts = [7 \<mapsto> 1], rc_dropped = []\<rparr>]"]
    by (simp add: program_start_def entity_map_new_def ref_counts_new_def reserve_def handle_7_def)
  moreover have "em_step ?s1 ?s2"
    using step_insert [of handle_7 ?s1 "''v''" handle_7 "\<lparr>em_entities = [7 \<mapsto> (0, ''v'')], em_accessed = {7}, em_refs = 1\<rparr>"]
    by (simp add: program_start_def entity_map_new_def em_insert_def handle_7_def)
  moreover have "em_step ?s2 holding"
    using step_downgrade [of handle_7 ?s2] by (simp add: holding_def program_start_def entity_map_new_def)
  ultimately show ?thesis using reach_start reach_step by metis
qed

theorem entity_map_invariant_witness:
  "entity_clone handle_7 (heap_of holding) \<noteq> None \<and> take_dropped (em_of holding) (heap_of holding) \<noteq> None"
  using entity_map_invariant [OF holding_reachable] by (simp add: holding_def)

text \<open>
  Claim C12. No use after release: an entity that is in the map, or out on a lease, stays so in every later state in which
  some strong handle refers to it.
\<close>

theorem entity_kept_while_held:
  assumes "em_reachable c" "em_step\<^sup>*\<^sup>* c c'" "present c i" "held c' i > 0"
  shows "present c' i"
  using present_run [OF assms(2) em_reachable_inv [OF assms(1)] assms(3,4)] .

theorem entity_kept_while_held_witness: "present holding 7"
  by (rule entity_kept_while_held [OF holding_reachable]) (simp_all add: present_def held_def holding_def handle_7_def)

text \<open>
  Claim C24. Every entity is released once nothing refers to it: with no lease open, \<^verbatim>\<open>take_dropped\<close> returns exactly the
  entities without a strong handle, each once and with its value, removes them and their counts, and keeps all
  others.
\<close>

theorem take_dropped_releases_unheld:
  assumes "em_reachable c" "leases c = Map.empty"
  shows "\<exists>taken m heap rc. take_dropped (em_of c) (heap_of c) = Some (taken, m, heap) \<and> distinct (map fst taken) \<and>
    set taken = {(i, b). em_entities (em_of c) i = Some b \<and> held c i = 0} \<and>
    (\<forall>i. em_entities m i = (if held c i = 0 then None else em_entities (em_of c) i)) \<and>
    heap (em_refs m) = Some rc \<and> dom (rc_counts rc) = {i. held c i > 0} \<and> rc_dropped rc = []"
  using inv_take_dropped [OF em_reachable_inv [OF assms(1)] assms(2)] by auto

theorem take_dropped_releases_unheld_witness:
  "\<exists>taken m heap. take_dropped (em_of holding) (heap_of holding) = Some (taken, m, heap) \<and> em_entities m 7 = Some (0, ''v'')"
proof -
  have "held holding 7 = 1" "leases holding = Map.empty" by (simp_all add: held_def holding_def handle_7_def)
  then show ?thesis using take_dropped_releases_unheld [OF holding_reachable]
    by (fastforce simp: holding_def)
qed

text \<open>
  A weak handle can be upgraded exactly as long as a strong handle is left, \<^verbatim>\<open>is_upgradable\<close> says so, the upgraded
  handle is the one that was downgraded, and once the last strong handle is gone no later state can upgrade it, even after
  its slot is used again.
\<close>

theorem weak_upgrades_while_held:
  assumes "em_reachable c" "w \<in> weak c"
  shows "(weak_upgrade w (heap_of c) \<noteq> None) = (held c (aw_entity_id w) > 0) \<and>
    is_upgradable w (heap_of c) = (held c (aw_entity_id w) > 0) \<and>
    (\<forall>h heap. weak_upgrade w (heap_of c) = Some (h, heap) \<longrightarrow> downgrade h = w) \<and>
    (\<forall>c'. em_step\<^sup>*\<^sup>* c c' \<longrightarrow> w \<in> weak c' \<longrightarrow> held c (aw_entity_id w) = 0 \<longrightarrow> weak_upgrade w (heap_of c') = None)"
proof (intro conjI allI impI)
  note inv = em_reachable_inv [OF assms(1)]
  show "(weak_upgrade w (heap_of c) \<noteq> None) = (held c (aw_entity_id w) > 0)"
    "is_upgradable w (heap_of c) = (held c (aw_entity_id w) > 0)"
    using inv_upgrade(1,3) [OF inv assms(2)] by simp_all
  show "downgrade h = w" if "weak_upgrade w (heap_of c) = Some (h, heap)" for h heap
    using inv_upgrade(2) [OF inv assms(2) that] by simp
  fix c' assume "em_step\<^sup>*\<^sup>* c c'" and w': "w \<in> weak c'" and "held c (aw_entity_id w) = 0"
  moreover have "aw_entity_id w \<in> dom (types c)" using inv assms(2) by (auto simp: em_inv_def inv_at_def weak_ok_def)
  ultimately have "em_inv c'" "held c' (aw_entity_id w) = 0" using unheld_run [OF _ inv] by blast+
  then show "weak_upgrade w (heap_of c') = None" using inv_upgrade(1) [OF _ w'] by simp
qed

theorem weak_upgrades_while_held_witness: "is_upgradable (downgrade handle_7) (heap_of holding)"
proof -
  have "downgrade handle_7 \<in> weak holding" "held holding (aw_entity_id (downgrade handle_7)) > 0"
    by (simp_all add: holding_def held_def downgrade_def handle_7_def)
  then show ?thesis using weak_upgrades_while_held [OF holding_reachable] by blast
qed

text \<open>
  Claim C35. Reading is type safe: at the type of its handle it returns the stored value whenever there is one, so the cast never
  fails; the handle's cast to a static type succeeds exactly at the type of the stored value.
\<close>

theorem reading_is_type_safe:
  assumes "em_reachable c" "h \<in># strong c + slots c" "em_entities (em_of c) (ae_entity_id h) = Some (ty, v)"
  shows "ty = ae_entity_type h \<and> (\<exists>m. em_read (em_of c) h (ae_entity_type h) = Some (v, m)) \<and>
    (downcast ty' h = Inr h) = (ty' = ty)"
proof -
  note inv = em_reachable_inv [OF assms(1)]
  have "types c (ae_entity_id h) = Some ty" "types c (ae_entity_id h) = Some (ae_entity_type h)"
    using inv assms(2,3) by (auto simp: em_inv_def inv_at_def values_ok_def handle_ok_def)
  then show ?thesis using inv_read(1) [OF inv assms(2)] assms(3) by (auto simp: downcast_def)
qed

theorem reading_is_type_safe_witness: "\<exists>m. em_read (em_of holding) handle_7 0 = Some (''v'', m)"
  using reading_is_type_safe [OF holding_reachable, of handle_7 0 "''v''"] by (simp add: holding_def handle_7_def)

text \<open>
  Claim C39. While an entity is leased, leasing and reading it panic, and nothing else does: both succeed on every handle whose
  entity is in the map.
\<close>

theorem double_lease_panics:
  assumes "em_reachable c" "h \<in># strong c + slots c" "present c (ae_entity_id h)"
  shows "(em_lease (em_of c) h = None) = (ae_entity_id h \<in> dom (leases c)) \<and>
    (em_read (em_of c) h (ae_entity_type h) = None) = (ae_entity_id h \<in> dom (leases c))"
proof -
  note inv = em_reachable_inv [OF assms(1)]
  have "em_entities (em_of c) (ae_entity_id h) = None \<longleftrightarrow> ae_entity_id h \<in> dom (leases c)"
    using inv assms(3) by (auto simp: em_inv_def inv_at_def values_ok_def present_def)
  then show ?thesis using inv_lease(1) [OF inv assms(2)] inv_read(1) [OF inv assms(2)] by simp
qed

theorem double_lease_panics_witness: "em_lease (em_of holding) handle_7 \<noteq> None"
  using double_lease_panics [OF holding_reachable, of handle_7] by (simp add: holding_def handle_7_def present_def)

end
