(* ===== verification/LineWrapper.thy ===== *)
theory LineWrapper
  imports Prelude Complex_Main
begin

text \<open>
  Wrapping and truncating a line of text (\<^verbatim>\<open>crates/gpui/src/text_system/line_wrapper.rs\<close>). A character is its Unicode
  code point, a string the list of its characters; indices count UTF-8 bytes, as in the source, and slicing
  a string where no character starts panics. Widths are elements of an Archimedean field. The width of
  a character comes from the text system, which is an argument; the wrapper's caches are modelled and shown to be
  transparent, so the loops take the width function.
\<close>

section \<open>Strings with byte indices\<close>

type_synonym uchar = nat

definition len_utf8 :: "uchar \<Rightarrow> nat" where
  "len_utf8 c = (if c < 0x80 then 1 else if c < 0x800 then 2 else if c < 0x10000 then 3 else 4)"

definition str_len :: "uchar list \<Rightarrow> nat" where
  "str_len s = sum_list (map len_utf8 s)"

fun char_indices_from :: "nat \<Rightarrow> uchar list \<Rightarrow> (nat \<times> uchar) list" where
  "char_indices_from ix [] = []"
| "char_indices_from ix (c # s) = (ix, c) # char_indices_from (ix + len_utf8 c) s"

definition char_indices :: "uchar list \<Rightarrow> (nat \<times> uchar) list" where
  "char_indices s = char_indices_from 0 s"

text \<open>The string cut at a byte index; \<open>None\<close> when it is beyond the end or inside a character.\<close>

fun split_at_byte :: "uchar list \<Rightarrow> nat \<Rightarrow> (uchar list \<times> uchar list) option" where
  "split_at_byte [] n = (if n = 0 then Some ([], []) else None)"
| "split_at_byte (c # s) n =
     (if n = 0 then Some ([], c # s)
      else if len_utf8 c \<le> n then map_option (map_prod (Cons c) (\<lambda>r. r)) (split_at_byte s (n - len_utf8 c))
      else None)"

definition slice_to :: "uchar list \<Rightarrow> nat \<Rightarrow> uchar list option" where
  "slice_to s n = map_option fst (split_at_byte s n)"

definition slice_from :: "uchar list \<Rightarrow> nat \<Rightarrow> uchar list option" where
  "slice_from s n = map_option snd (split_at_byte s n)"

text \<open>\<^verbatim>\<open>char::is_whitespace\<close> and \<^verbatim>\<open>char::is_ascii_punctuation\<close>.\<close>

definition is_whitespace :: "uchar \<Rightarrow> bool" where
  "is_whitespace c =
     (9 \<le> c \<and> c \<le> 13 \<or> c = 0x20 \<or> c = 0x85 \<or> c = 0xA0 \<or> c = 0x1680 \<or> 0x2000 \<le> c \<and> c \<le> 0x200A \<or>
      c = 0x2028 \<or> c = 0x2029 \<or> c = 0x202F \<or> c = 0x205F \<or> c = 0x3000)"

definition is_ascii_punctuation :: "uchar \<Rightarrow> bool" where
  "is_ascii_punctuation c = (33 \<le> c \<and> c \<le> 47 \<or> 58 \<le> c \<and> c \<le> 64 \<or> 91 \<le> c \<and> c \<le> 96 \<or> 123 \<le> c \<and> c \<le> 126)"

definition trim_end_matches :: "(uchar \<Rightarrow> bool) \<Rightarrow> uchar list \<Rightarrow> uchar list" where
  "trim_end_matches p s = rev (dropWhile p (rev s))"

text \<open>\<^verbatim>\<open>str::trim\<close> is empty exactly when the string is white space.\<close>

definition trim_is_empty :: "uchar list \<Rightarrow> bool" where
  "trim_is_empty s = list_all is_whitespace s"

text \<open>The least character boundary at or after \<open>n\<close>, at most the length.\<close>

fun ceil_char_boundary :: "uchar list \<Rightarrow> nat \<Rightarrow> nat" where
  "ceil_char_boundary [] n = 0"
| "ceil_char_boundary (c # s) n = (if n = 0 then 0 else len_utf8 c + ceil_char_boundary s (n - len_utf8 c))"

section \<open>Widths and their cache\<close>

record 'w line_wrapper =
  cached_ascii_char_widths :: "'w option list"
  cached_other_char_widths :: "uchar \<rightharpoonup> 'w"

definition wrapper_new :: "'w line_wrapper" where
  "wrapper_new = \<lparr>cached_ascii_char_widths = replicate 128 None, cached_other_char_widths = Map.empty\<rparr>"

definition width_for_char :: "(uchar \<Rightarrow> 'w) \<Rightarrow> 'w line_wrapper \<Rightarrow> uchar \<Rightarrow> ('w \<times> 'w line_wrapper) option" where
  "width_for_char layout_width self c =
     (if c < 128 then do {
        entry \<leftarrow> get_opt (cached_ascii_char_widths self) c;
        (case entry of
           Some cached_width \<Rightarrow> Some (cached_width, self)
         | None \<Rightarrow>
             let width = layout_width c
             in Some (width, self\<lparr>cached_ascii_char_widths := (cached_ascii_char_widths self)[c := Some width]\<rparr>)) }
      else
        (case cached_other_char_widths self c of
           Some cached_width \<Rightarrow> Some (cached_width, self)
         | None \<Rightarrow>
             let width = layout_width c
             in Some (width, self\<lparr>cached_other_char_widths := (cached_other_char_widths self)(c \<mapsto> width)\<rparr>)))"

definition is_word_char :: "uchar \<Rightarrow> bool" where
  "is_word_char c =
     ((48 \<le> c \<and> c \<le> 57 \<or> 65 \<le> c \<and> c \<le> 90 \<or> 97 \<le> c \<and> c \<le> 122) \<or>
      0xC0 \<le> c \<and> c \<le> 0xFF \<or> 0x100 \<le> c \<and> c \<le> 0x17F \<or> 0x180 \<le> c \<and> c \<le> 0x24F \<or> 0x400 \<le> c \<and> c \<le> 0x4FF \<or>
      0x1E00 \<le> c \<and> c \<le> 0x1EFF \<or> 0x300 \<le> c \<and> c \<le> 0x36F \<or> 0x980 \<le> c \<and> c \<le> 0x9FF \<or>
      c \<in> {0x2D, 0x5F, 0x2E, 0x27, 0x2019, 0x2018, 0x24, 0x25, 0x40, 0x23, 0x5E, 0x7E, 0x2C, 0x3D, 0x3A, 0x3B} \<or>
      c \<in> {0x21, 0x29, 0x5D, 0x7D, 0x22, 0x201D, 0xBB, 0x2026} \<or> c = 0x22EF \<or> c \<in> {0x202F, 0xA0, 0x2011})"

definition MAX_INDENT :: nat where
  "MAX_INDENT = 256"

section \<open>Wrapping\<close>

datatype 'w line_fragment = FText "uchar list" | FElement 'w nat

datatype 'w wrap_candidate = CChar uchar | CElement 'w nat

fun candidate_len :: "'w wrap_candidate \<Rightarrow> nat" where
  "candidate_len (CChar c) = len_utf8 c"
| "candidate_len (CElement width len) = len"

text \<open>An element yields one candidate, for the one character of its placeholder.\<close>

fun wrap_boundary_candidates :: "'w line_fragment \<Rightarrow> 'w wrap_candidate list" where
  "wrap_boundary_candidates (FText text) = map CChar text"
| "wrap_boundary_candidates (FElement width len) = map (\<lambda>_. CElement width len) [0 :: uchar]"

record boundary =
  b_ix :: nat
  b_next_indent :: nat

record 'w wrap_state =
  ws_width :: 'w
  ws_first_non_whitespace_ix :: "nat option"
  ws_indent :: "nat option"
  ws_last_candidate_ix :: nat
  ws_last_candidate_width :: 'w
  ws_last_wrap_ix :: nat
  ws_prev_c :: uchar
  ws_index :: nat

definition wrap_start :: "'w::zero wrap_state" where
  "wrap_start =
     \<lparr>ws_width = 0, ws_first_non_whitespace_ix = None, ws_indent = None, ws_last_candidate_ix = 0,
      ws_last_candidate_width = 0, ws_last_wrap_ix = 0, ws_prev_c = 0, ws_index = 0\<rparr>"

definition mark_candidate :: "nat \<Rightarrow> ('w, 'z) wrap_state_scheme \<Rightarrow> ('w, 'z) wrap_state_scheme" where
  "mark_candidate ix st = st\<lparr>ws_last_candidate_ix := ix, ws_last_candidate_width := ws_width st\<rparr>"

text \<open>The match on a candidate: the new previous character, the width and the state. The space is 32.\<close>

fun consider_candidate :: "(uchar \<Rightarrow> 'w) \<Rightarrow> nat \<Rightarrow> 'w wrap_candidate \<Rightarrow> 'w wrap_state \<Rightarrow> uchar \<times> 'w \<times> 'w wrap_state" where
  "consider_candidate w ix (CChar c) st =
     (let st =
        (if is_word_char c then
           (if ws_prev_c st = 32 \<and> c \<noteq> 32 \<and> ws_first_non_whitespace_ix st \<noteq> None then mark_candidate ix st else st)
         else
           (if c \<noteq> 32 \<and> ws_first_non_whitespace_ix st \<noteq> None then mark_candidate ix st else st));
          st =
            (if c \<noteq> 32 \<and> ws_first_non_whitespace_ix st = None then st\<lparr>ws_first_non_whitespace_ix := Some ix\<rparr> else st)
      in (c, w c, st))"
| "consider_candidate w ix (CElement element_width len) st =
     (let st = (if ws_prev_c st = 32 \<and> ws_first_non_whitespace_ix st \<noteq> None then mark_candidate ix st else st);
          st = (if ws_first_non_whitespace_ix st = None then st\<lparr>ws_first_non_whitespace_ix := Some ix\<rparr> else st)
      in (ws_prev_c st, element_width, st))"

text \<open>What happens on overflow. The subtraction panics when it would be negative; the cast to 32 bits truncates.\<close>

definition wrap_here ::
  "(uchar \<Rightarrow> 'w::floor_ceiling) \<Rightarrow> nat \<Rightarrow> 'w \<Rightarrow> 'w wrap_state \<Rightarrow> (boundary \<times> 'w wrap_state) option" where
  "wrap_here w ix item_width st = do {
     indent \<leftarrow>
       (case (ws_indent st, ws_first_non_whitespace_ix st) of
          (None, Some first_ix) \<Rightarrow> do {
            assert_that (ws_last_wrap_ix st \<le> first_ix);
            Some (Some (min MAX_INDENT ((first_ix - ws_last_wrap_ix st) mod 2 ^ 32))) }
        | (indent, _) \<Rightarrow> Some indent);
     let st = st\<lparr>ws_indent := indent\<rparr>;
     let st =
       (if ws_last_candidate_ix st > 0
        then st\<lparr>ws_last_wrap_ix := ws_last_candidate_ix st, ws_width := ws_width st - ws_last_candidate_width st,
                ws_last_candidate_ix := 0\<rparr>
        else st\<lparr>ws_last_wrap_ix := ix, ws_width := item_width\<rparr>);
     let st =
       (case indent of
          Some n \<Rightarrow> st\<lparr>ws_width := ws_width st + w 32 * of_nat n\<rparr>
        | None \<Rightarrow> st);
     Some (\<lparr>b_ix = ws_last_wrap_ix st, b_next_indent = (case indent of Some n \<Rightarrow> n | None \<Rightarrow> 0)\<rparr>, st) }"

text \<open>
  One call of the closure: it consumes candidates up to the next boundary. The newline is 10. On a boundary it returns
  before the assignment to \<^verbatim>\<open>prev_c\<close>.
\<close>

fun wrap_next ::
  "(uchar \<Rightarrow> 'w::floor_ceiling) \<Rightarrow> 'w \<Rightarrow> 'w wrap_candidate list \<Rightarrow> 'w wrap_state \<Rightarrow>
   (boundary option \<times> 'w wrap_candidate list \<times> 'w wrap_state) option" where
  "wrap_next w wrap_width [] st = Some (None, [], st)"
| "wrap_next w wrap_width (candidate # candidates) st =
     (let ix = ws_index st;
          st = st\<lparr>ws_index := ix + candidate_len candidate\<rparr>
      in if candidate = CChar 10 then wrap_next w wrap_width candidates st
         else
           (let (new_prev_c, item_width, st) = consider_candidate w ix candidate st;
                st = st\<lparr>ws_width := ws_width st + item_width\<rparr>
            in if ws_width st > wrap_width \<and> ix > ws_last_wrap_ix st
               then do { (b, st) \<leftarrow> wrap_here w ix item_width st; Some (Some b, candidates, st) }
               else wrap_next w wrap_width candidates (st\<lparr>ws_prev_c := new_prev_c\<rparr>)))"

lemma wrap_next_shorter:
  "wrap_next w wrap_width cs st = Some (Some b, cs', st') \<Longrightarrow> length cs' < length cs"
  by (induction w wrap_width cs st rule: wrap_next.induct)
    (fastforce simp: Let_def bind_eq_Some_conv split: prod.splits if_splits)+

text \<open>All boundaries of the iterator.\<close>

function wrap_all ::
  "(uchar \<Rightarrow> 'w::floor_ceiling) \<Rightarrow> 'w \<Rightarrow> 'w wrap_candidate list \<Rightarrow> 'w wrap_state \<Rightarrow> boundary list option" where
  "wrap_all w wrap_width cs st =
     (case wrap_next w wrap_width cs st of
        None \<Rightarrow> None
      | Some (None, _) \<Rightarrow> Some []
      | Some (Some b, cs', st') \<Rightarrow> map_option (Cons b) (wrap_all w wrap_width cs' st'))"
  by pat_completeness auto
termination wrap_all
  by (relation "measure (\<lambda>(w, wrap_width, cs, st). length cs)") (auto dest: wrap_next_shorter)

declare wrap_all.simps [simp del]

definition wrap_line :: "(uchar \<Rightarrow> 'w::floor_ceiling) \<Rightarrow> 'w line_fragment list \<Rightarrow> 'w \<Rightarrow> boundary list option" where
  "wrap_line w fragments wrap_width = wrap_all w wrap_width (concat (map wrap_boundary_candidates fragments)) wrap_start"

section \<open>Text runs\<close>

text \<open>A run of text: its length in bytes; its font, colours and decorations are only carried along.\<close>

record 's text_run =
  tr_len :: nat
  tr_style :: 's

datatype truncate_from = TStart | TEnd | TMiddle

text \<open>
  The loop of \<^verbatim>\<open>update_runs_after_truncation\<close>, in the direction of its iterator: runs that fit are kept, the first one that does not
  is cut and takes the ellipsis, and what lies beyond it is removed.
\<close>

fun shorten_runs :: "'s text_run list \<Rightarrow> nat \<Rightarrow> nat \<Rightarrow> 's text_run list" where
  "shorten_runs [] truncate_at ellipsis_len = []"
| "shorten_runs (run # runs) truncate_at ellipsis_len =
     (if tr_len run \<le> truncate_at then run # shorten_runs runs (truncate_at - tr_len run) ellipsis_len
      else [run\<lparr>tr_len := truncate_at + ellipsis_len\<rparr>])"

definition update_runs_after_truncation ::
  "uchar list \<Rightarrow> uchar list \<Rightarrow> 's text_run list \<Rightarrow> truncate_from \<Rightarrow> 's text_run list option" where
  "update_runs_after_truncation result ellipsis runs from = do {
     assert_that (str_len ellipsis \<le> str_len result);
     let truncate_at = str_len result - str_len ellipsis;
     (case from of
        TStart \<Rightarrow> Some (rev (shorten_runs (rev runs) truncate_at (str_len ellipsis)))
      | TEnd \<Rightarrow> Some (shorten_runs runs truncate_at (str_len ellipsis))
      | TMiddle \<Rightarrow> None) }"

fun front_runs :: "'s text_run list \<Rightarrow> nat \<Rightarrow> nat \<Rightarrow> 's text_run list \<times> bool" where
  "front_runs [] front_remaining ellipsis_len = ([], False)"
| "front_runs (run # runs) front_remaining ellipsis_len =
     (if tr_len run \<le> front_remaining
      then (case front_runs runs (front_remaining - tr_len run) ellipsis_len of (rs, front_done) \<Rightarrow> (run # rs, front_done))
      else ([run\<lparr>tr_len := front_remaining + ellipsis_len\<rparr>], True))"

fun back_runs :: "'s text_run list \<Rightarrow> nat \<Rightarrow> nat \<Rightarrow> 's text_run list" where
  "back_runs [] byte_pos back_start_ix = []"
| "back_runs (run # runs) byte_pos back_start_ix =
     (let run_end = byte_pos + tr_len run;
          kept =
            (if run_end > back_start_ix
             then (if byte_pos < back_start_ix then [run\<lparr>tr_len := run_end - back_start_ix\<rparr>] else [run])
             else [])
      in kept @ back_runs runs run_end back_start_ix)"

definition update_runs_after_middle_truncation ::
  "uchar list \<Rightarrow> 's text_run list \<Rightarrow> nat \<Rightarrow> nat \<Rightarrow> 's text_run list" where
  "update_runs_after_middle_truncation ellipsis original_runs front_end_ix back_start_ix =
     (let (result_runs, front_done) = front_runs original_runs front_end_ix (str_len ellipsis);
          result_runs =
            (if front_done then result_runs
             else if result_runs \<noteq> []
               then butlast result_runs @ [(last result_runs)\<lparr>tr_len := tr_len (last result_runs) + str_len ellipsis\<rparr>]
             else (case original_runs of [] \<Rightarrow> [] | first # _ \<Rightarrow> [first\<lparr>tr_len := str_len ellipsis\<rparr>]))
      in result_runs @ back_runs original_runs 0 back_start_ix)"

section \<open>Truncating one line\<close>

definition text_width :: "(uchar \<Rightarrow> 'w::monoid_add) \<Rightarrow> uchar list \<Rightarrow> 'w" where
  "text_width w s = foldl (\<lambda>a c. a + w c) 0 s"

fun truncate_scan ::
  "(uchar \<Rightarrow> 'w::floor_ceiling) \<Rightarrow> 'w \<Rightarrow> 'w \<Rightarrow> (nat \<times> uchar) list \<Rightarrow> 'w \<Rightarrow> nat \<Rightarrow> nat option" where
  "truncate_scan w truncate_width suffix_width [] width truncate_ix = None"
| "truncate_scan w truncate_width suffix_width ((ix, c) # rest) width truncate_ix =
     (let truncate_ix = (if width + suffix_width < truncate_width then ix else truncate_ix);
          width = width + w c
      in if of_int \<lfloor>width\<rfloor> > truncate_width then Some truncate_ix
         else truncate_scan w truncate_width suffix_width rest width truncate_ix)"

definition should_truncate_line ::
  "(uchar \<Rightarrow> 'w::floor_ceiling) \<Rightarrow> uchar list \<Rightarrow> 'w \<Rightarrow> uchar list \<Rightarrow> truncate_from \<Rightarrow> nat option" where
  "should_truncate_line w line truncate_width truncation_affix from =
     (let suffix_width = text_width w truncation_affix
      in case from of
           TStart \<Rightarrow> truncate_scan w truncate_width suffix_width (rev (char_indices line)) 0 0
         | TEnd \<Rightarrow> truncate_scan w truncate_width suffix_width (char_indices line) 0 0
         | TMiddle \<Rightarrow> None)"

fun front_scan :: "(uchar \<Rightarrow> 'w::floor_ceiling) \<Rightarrow> 'w \<Rightarrow> (nat \<times> uchar) list \<Rightarrow> 'w \<Rightarrow> nat \<Rightarrow> nat" where
  "front_scan w front_budget [] front_width front_end_ix = front_end_ix"
| "front_scan w front_budget ((ix, c) # rest) front_width front_end_ix =
     (if front_width + w c > front_budget then front_end_ix
      else front_scan w front_budget rest (front_width + w c) (ix + len_utf8 c))"

fun back_scan :: "(uchar \<Rightarrow> 'w::floor_ceiling) \<Rightarrow> 'w \<Rightarrow> (nat \<times> uchar) list \<Rightarrow> 'w \<Rightarrow> nat \<Rightarrow> nat" where
  "back_scan w back_budget [] back_width back_start_ix = back_start_ix"
| "back_scan w back_budget ((ix, c) # rest) back_width back_start_ix =
     (if back_width + w c > back_budget then back_start_ix
      else back_scan w back_budget rest (back_width + w c) ix)"

definition should_truncate_line_middle ::
  "(uchar \<Rightarrow> 'w::floor_ceiling) \<Rightarrow> uchar list \<Rightarrow> 'w \<Rightarrow> uchar list \<Rightarrow> (nat \<times> nat) option" where
  "should_truncate_line_middle w line truncate_width truncation_affix =
     (let suffix_width = text_width w truncation_affix;
          total_width = text_width w line
      in if total_width \<le> truncate_width then None
         else
           (let content_budget = truncate_width - suffix_width
            in if content_budget \<le> 0 then Some (0, str_len line)
               else
                 (let front_budget = content_budget * (2 / 3);
                      back_budget = content_budget - front_budget;
                      front_end_ix = front_scan w front_budget (char_indices line) 0 0;
                      back_start_ix = back_scan w back_budget (rev (char_indices line)) 0 (str_len line)
                  in if front_end_ix \<ge> back_start_ix then Some (0, str_len line)
                     else Some (front_end_ix, back_start_ix))))"

definition trailing :: "uchar \<Rightarrow> bool" where
  "trailing c = (is_whitespace c \<or> is_ascii_punctuation c)"

definition truncate_line ::
  "(uchar \<Rightarrow> 'w::floor_ceiling) \<Rightarrow> uchar list \<Rightarrow> 'w \<Rightarrow> uchar list \<Rightarrow> 's text_run list \<Rightarrow> truncate_from \<Rightarrow>
   (uchar list \<times> 's text_run list) option" where
  "truncate_line w line truncate_width truncation_affix runs from =
     (if from = TMiddle then
        (case should_truncate_line_middle w line truncate_width truncation_affix of
           Some (front_end_ix, back_start_ix) \<Rightarrow> do {
             front \<leftarrow> slice_to line front_end_ix;
             tail \<leftarrow> slice_from line back_start_ix;
             let result = front @ truncation_affix @ tail;
             Some (result, update_runs_after_middle_truncation truncation_affix runs front_end_ix back_start_ix) }
         | None \<Rightarrow> Some (line, runs))
      else
        (case should_truncate_line w line truncate_width truncation_affix from of
           Some truncate_ix \<Rightarrow> do {
             result \<leftarrow>
               (case from of
                  TStart \<Rightarrow> do {
                    tail \<leftarrow> slice_from line (ceil_char_boundary line (truncate_ix + 1));
                    Some (truncation_affix @ tail) }
                | TEnd \<Rightarrow> do {
                    front \<leftarrow> slice_to line truncate_ix;
                    Some (trim_end_matches trailing front @ truncation_affix) }
                | TMiddle \<Rightarrow> None);
             runs \<leftarrow> update_runs_after_truncation result truncation_affix runs from;
             Some (result, runs) }
         | None \<Rightarrow> Some (line, runs)))"

section \<open>Truncating wrapped lines\<close>

text \<open>The state of the loop; \<open>ws_index\<close> is not used, the loop has its own index.\<close>

record 'w wrapped_state = "'w wrap_state" +
  ws_line :: nat
  ws_truncate_ix :: nat

definition wrapped_start :: "'w::zero wrapped_state" where
  "wrapped_start =
     \<lparr>ws_width = 0, ws_first_non_whitespace_ix = None, ws_indent = None, ws_last_candidate_ix = 0,
      ws_last_candidate_width = 0, ws_last_wrap_ix = 0, ws_prev_c = 0, ws_index = 0, ws_line = 0, ws_truncate_ix = 0\<rparr>"

definition wrapped_candidate :: "nat \<Rightarrow> uchar \<Rightarrow> 'w wrapped_state \<Rightarrow> 'w wrapped_state" where
  "wrapped_candidate ix c st =
     (let st =
        (if is_word_char c then
           (if ws_prev_c st = 32 \<and> ws_first_non_whitespace_ix st \<noteq> None then mark_candidate ix st else st)
         else if c \<noteq> 32 \<and> ws_first_non_whitespace_ix st \<noteq> None then mark_candidate ix st
         else st)
      in if c \<noteq> 32 \<and> ws_first_non_whitespace_ix st = None then st\<lparr>ws_first_non_whitespace_ix := Some ix\<rparr> else st)"

definition wrapped_overflow :: "(uchar \<Rightarrow> 'w::floor_ceiling) \<Rightarrow> nat \<Rightarrow> 'w \<Rightarrow> 'w wrapped_state \<Rightarrow> 'w wrapped_state option" where
  "wrapped_overflow w ix char_width st = do {
     indent \<leftarrow>
       (case (ws_indent st, ws_first_non_whitespace_ix st) of
          (None, Some first_nw) \<Rightarrow> do {
            assert_that (ws_last_wrap_ix st \<le> first_nw);
            Some (Some (min MAX_INDENT ((first_nw - ws_last_wrap_ix st) mod 2 ^ 32))) }
        | (indent, _) \<Rightarrow> Some indent);
     let st = st\<lparr>ws_indent := indent\<rparr>;
     let st =
       (if ws_last_candidate_ix st > ws_last_wrap_ix st
        then st\<lparr>ws_last_wrap_ix := ws_last_candidate_ix st, ws_width := ws_width st - ws_last_candidate_width st,
                ws_last_candidate_ix := 0\<rparr>
        else st\<lparr>ws_last_wrap_ix := ix, ws_width := char_width\<rparr>);
     let st =
       (case indent of
          Some n \<Rightarrow> st\<lparr>ws_width := ws_width st + w 32 * of_nat n\<rparr>
        | None \<Rightarrow> st);
     Some (st\<lparr>ws_line := ws_line st + 1, ws_truncate_ix := ws_last_wrap_ix st\<rparr>) }"

text \<open>The loop: the byte index to truncate at, or nothing when the text fits. The outer option is a panic.\<close>

fun wrapped_scan ::
  "(uchar \<Rightarrow> 'w::floor_ceiling) \<Rightarrow> 'w \<Rightarrow> nat \<Rightarrow> 'w \<Rightarrow> uchar list \<Rightarrow> (nat \<times> uchar) list \<Rightarrow> 'w wrapped_state \<Rightarrow> nat option option" where
  "wrapped_scan w wrap_width max_lines affix_width text [] st = Some None"
| "wrapped_scan w wrap_width max_lines affix_width text ((ix, c) # rest) st =
     (if c = 10 then do {
        cut \<leftarrow>
          (if ws_line st \<ge> max_lines - 1 then do { tail \<leftarrow> slice_from text (ix + 1); Some (\<not> trim_is_empty tail) }
           else Some False);
        if cut then Some (Some (ws_truncate_ix st))
        else wrapped_scan w wrap_width max_lines affix_width text rest
          (st\<lparr>ws_line := ws_line st + 1, ws_width := 0, ws_first_non_whitespace_ix := None, ws_last_candidate_ix := 0,
              ws_last_candidate_width := 0, ws_last_wrap_ix := ix + 1, ws_prev_c := 0, ws_indent := None,
              ws_truncate_ix := ix + 1\<rparr>) }
      else
        (let char_width = w c;
             st = wrapped_candidate ix c st;
             st = st\<lparr>ws_width := ws_width st + char_width\<rparr>
         in if ws_line st < max_lines - 1 then do {
              st \<leftarrow>
                (if ws_width st > wrap_width \<and> ix > ws_last_wrap_ix st then wrapped_overflow w ix char_width st else Some st);
              wrapped_scan w wrap_width max_lines affix_width text rest (st\<lparr>ws_prev_c := c\<rparr>) }
            else
              (let st = (if ws_width st + affix_width \<le> wrap_width then st\<lparr>ws_truncate_ix := ix + len_utf8 c\<rparr> else st)
               in if ws_width st > wrap_width then Some (Some (ws_truncate_ix st))
                  else wrapped_scan w wrap_width max_lines affix_width text rest (st\<lparr>ws_prev_c := c\<rparr>))))"

definition truncate_wrapped_line ::
  "(uchar \<Rightarrow> 'w::floor_ceiling) \<Rightarrow> uchar list \<Rightarrow> 'w \<Rightarrow> nat \<Rightarrow> uchar list \<Rightarrow> 's text_run list \<Rightarrow> truncate_from \<Rightarrow>
   (uchar list \<times> 's text_run list) option" where
  "truncate_wrapped_line w text wrap_width max_lines truncation_affix runs from =
     (if max_lines \<le> 1 \<or> from = TStart
      then truncate_line w text (wrap_width * of_nat max_lines) truncation_affix runs from
      else if from = TMiddle then truncate_line w text wrap_width truncation_affix runs from
      else do {
        cut \<leftarrow> wrapped_scan w wrap_width max_lines (text_width w truncation_affix) text (char_indices text) wrapped_start;
        (case cut of
           None \<Rightarrow> Some (text, runs)
         | Some truncate_ix \<Rightarrow> do {
             front \<leftarrow> slice_to text truncate_ix;
             let result = trim_end_matches trailing front @ truncation_affix;
             runs \<leftarrow> update_runs_after_truncation result truncation_affix runs TEnd;
             Some (result, runs) }) })"

section \<open>Lines as lists of candidates\<close>

definition candidate_width :: "(uchar \<Rightarrow> 'w) \<Rightarrow> 'w wrap_candidate \<Rightarrow> 'w" where
  "candidate_width w c = (case c of CChar ch \<Rightarrow> w ch | CElement width len \<Rightarrow> width)"

definition candidates_len :: "'w wrap_candidate list \<Rightarrow> nat" where
  "candidates_len cs = sum_list (map candidate_len cs)"

text \<open>The candidates with the byte index at which each starts.\<close>

fun indexed :: "nat \<Rightarrow> 'w wrap_candidate list \<Rightarrow> (nat \<times> 'w wrap_candidate) list" where
  "indexed ix [] = []"
| "indexed ix (c # cs) = (ix, c) # indexed (ix + candidate_len c) cs"

definition starts :: "'w wrap_candidate list \<Rightarrow> nat set" where
  "starts cs = fst ` set (indexed 0 cs)"

text \<open>The candidates that start at \<open>lo\<close> or later, and those of the line from \<open>lo\<close> to \<open>hi\<close>.\<close>

definition from_ix :: "nat \<Rightarrow> 'w wrap_candidate list \<Rightarrow> 'w wrap_candidate list" where
  "from_ix lo cs = map snd (filter (\<lambda>(i, c). lo \<le> i) (indexed 0 cs))"

definition line_between :: "nat \<Rightarrow> nat \<Rightarrow> 'w wrap_candidate list \<Rightarrow> 'w wrap_candidate list" where
  "line_between lo hi cs = map snd (filter (\<lambda>(i, c). lo \<le> i \<and> i < hi) (indexed 0 cs))"

definition widths :: "(uchar \<Rightarrow> 'w::floor_ceiling) \<Rightarrow> 'w wrap_candidate list \<Rightarrow> 'w" where
  "widths w cs = sum_list (map (candidate_width w) cs)"

lemma widths_simps [simp]:
  "widths w [] = 0" "widths w (c # cs) = candidate_width w c + widths w cs" "widths w (xs @ ys) = widths w xs + widths w ys"
  by (simp_all add: widths_def)

lemma candidates_len_simps [simp]:
  "candidates_len [] = 0" "candidates_len (c # cs) = candidate_len c + candidates_len cs"
  "candidates_len (xs @ ys) = candidates_len xs + candidates_len ys"
  by (simp_all add: candidates_len_def)

lemma indexed_append: "indexed ix (xs @ ys) = indexed ix xs @ indexed (ix + candidates_len xs) ys"
  by (induction xs arbitrary: ix) (simp_all add: add.assoc)

lemma indexed_bounds: "(i, c) \<in> set (indexed ix cs) \<Longrightarrow> ix \<le> i \<and> i + candidate_len c \<le> ix + candidates_len cs"
  by (induction cs arbitrary: ix) fastforce+

lemma starts_simps [simp]:
  "starts [] = {}" "starts (cs @ [c]) = insert (candidates_len cs) (starts cs)"
  by (auto simp: starts_def indexed_append)

lemma starts_mono: "i \<in> starts xs \<Longrightarrow> i \<in> starts (xs @ ys)"
  by (auto simp: starts_def indexed_append)

lemma from_ix_snoc: "lo \<le> candidates_len cs \<Longrightarrow> from_ix lo (cs @ [c]) = from_ix lo cs @ [c]"
  by (simp add: from_ix_def indexed_append)

lemma indexed_snd: "snd ` set (indexed ix cs) = set cs"
  by (induction cs arbitrary: ix) auto

lemma from_ix_end:
  assumes "\<forall>c \<in> set cs. 0 < candidate_len c"
  shows "from_ix (candidates_len cs) cs = []"
proof -
  have "\<not> candidates_len cs \<le> i" if "(i, c) \<in> set (indexed 0 cs)" for i c
  proof -
    have "c \<in> set cs" using that indexed_snd [of 0 cs] by force
    then show ?thesis using indexed_bounds [OF that] assms by fastforce
  qed
  then show ?thesis by (force simp: from_ix_def filter_empty_conv)
qed

lemma line_between_prefix:
  "hi \<le> candidates_len cs \<Longrightarrow> line_between lo hi (cs @ ds) = line_between lo hi cs"
  by (force simp: line_between_def indexed_append filter_empty_conv dest: indexed_bounds)

lemma sorted_indexed: "sorted (map fst (indexed ix cs))"
  by (induction cs arbitrary: ix) (fastforce dest: indexed_bounds)+

lemma from_ix_split: "lo \<le> k \<Longrightarrow> from_ix lo cs = line_between lo k cs @ from_ix k cs"
proof -
  assume le: "lo \<le> k"
  have "filter (\<lambda>(i, c). lo \<le> i) xs = filter (\<lambda>(i, c). lo \<le> i \<and> i < k) xs @ filter (\<lambda>(i, c). k \<le> i) xs"
    if "sorted (map fst xs)" for xs :: "(nat \<times> 'a wrap_candidate) list"
    using that
  proof (induction xs)
    case (Cons x xs)
    obtain i c where x: "x = (i, c)" by force
    show ?case
    proof (cases "k \<le> i")
      case True
      then have "filter (\<lambda>(i, c). lo \<le> i \<and> i < k) xs = []" using Cons.prems x by (force simp: filter_empty_conv)
      then show ?thesis using Cons x True le by auto
    next
      case False
      then show ?thesis using Cons x by auto
    qed
  qed simp
  from this [OF sorted_indexed] show ?thesis by (simp add: from_ix_def line_between_def)
qed

section \<open>The invariant of the wrapping loop\<close>

definition indent_width :: "(uchar \<Rightarrow> 'w::floor_ceiling) \<Rightarrow> nat option \<Rightarrow> 'w" where
  "indent_width w indent = (case indent of None \<Rightarrow> 0 | Some n \<Rightarrow> w 32 * of_nat n)"

definition positions_ok :: "'w wrap_candidate list \<Rightarrow> 'w wrap_state \<Rightarrow> bool" where
  "positions_ok seen st \<longleftrightarrow>
     ws_index st = candidates_len seen \<and> (if seen = [] then ws_last_wrap_ix st = 0 \<and> ws_first_non_whitespace_ix st = None
       else ws_last_wrap_ix st < candidates_len seen) \<and>
     (ws_last_candidate_ix st = 0 \<or> ws_last_wrap_ix st < ws_last_candidate_ix st \<and> ws_last_candidate_ix st \<in> starts seen) \<and>
     (case ws_first_non_whitespace_ix st of
        None \<Rightarrow> ws_last_candidate_ix st = 0
      | Some f \<Rightarrow> ws_indent st = None \<longrightarrow> ws_last_wrap_ix st \<le> f) \<and>
     (case ws_indent st of None \<Rightarrow> True | Some n \<Rightarrow> n \<le> MAX_INDENT)"

definition widths_ok :: "(uchar \<Rightarrow> 'w::floor_ceiling) \<Rightarrow> 'w \<Rightarrow> 'w wrap_candidate list \<Rightarrow> 'w wrap_state \<Rightarrow> bool" where
  "widths_ok w wrap_width seen st \<longleftrightarrow>
     ws_width st = widths w (from_ix (ws_last_wrap_ix st) seen) + indent_width w (ws_indent st) \<and>
     (ws_last_candidate_ix st \<noteq> 0 \<longrightarrow>
        ws_last_candidate_width st + widths w (from_ix (ws_last_candidate_ix st) seen) = ws_width st) \<and>
     widths w (butlast (from_ix (ws_last_wrap_ix st) seen)) \<le> wrap_width \<and>
     (wrap_width < ws_width st \<longrightarrow> ws_last_candidate_ix st = 0)"

definition wrap_inv :: "(uchar \<Rightarrow> 'w::floor_ceiling) \<Rightarrow> 'w \<Rightarrow> 'w wrap_candidate list \<Rightarrow> 'w wrap_state \<Rightarrow> bool" where
  "wrap_inv w wrap_width seen st \<longleftrightarrow> positions_ok seen st \<and> widths_ok w wrap_width seen st"

definition candidates_ok :: "(uchar \<Rightarrow> 'w::floor_ceiling) \<Rightarrow> 'w wrap_candidate list \<Rightarrow> bool" where
  "candidates_ok w cs \<longleftrightarrow>
     (\<forall>c \<in> set cs. 0 < candidate_len c \<and> 0 \<le> candidate_width w c \<and> c \<noteq> CChar 10) \<and> 0 \<le> w 32"

lemma candidates_ok_simps [simp]:
  "candidates_ok w (c # cs) \<longleftrightarrow> 0 < candidate_len c \<and> 0 \<le> candidate_width w c \<and> c \<noteq> CChar 10 \<and> candidates_ok w cs"
  "candidates_ok w (xs @ ys) \<longleftrightarrow> candidates_ok w xs \<and> candidates_ok w ys"
  by (auto simp: candidates_ok_def)

lemma widths_nonneg: "\<forall>c \<in> set cs. 0 \<le> candidate_width w c \<Longrightarrow> 0 \<le> widths w cs"
  by (induction cs) simp_all

lemma set_from_ix: "set (from_ix lo cs) \<subseteq> set cs"
  using indexed_snd [of 0 cs] by (force simp: from_ix_def)

lemma wrap_inv_start: "0 \<le> wrap_width \<Longrightarrow> wrap_inv w wrap_width [] wrap_start"
  by (simp add: wrap_inv_def positions_ok_def widths_ok_def wrap_start_def from_ix_def indent_width_def)

text \<open>What one candidate changes before the overflow check.\<close>

definition observe :: "(uchar \<Rightarrow> 'w::floor_ceiling) \<Rightarrow> 'w wrap_candidate \<Rightarrow> 'w wrap_state \<Rightarrow> 'w wrap_state" where
  "observe w c st =
     (case consider_candidate w (ws_index st) c (st\<lparr>ws_index := ws_index st + candidate_len c\<rparr>) of (new_prev_c, item_width, st) \<Rightarrow>
        st\<lparr>ws_width := ws_width st + item_width\<rparr>)"

lemma observe_simps [simp]:
  "ws_index (observe w c st) = ws_index st + candidate_len c"
  "ws_last_wrap_ix (observe w c st) = ws_last_wrap_ix st"
  "ws_indent (observe w c st) = ws_indent st"
  "ws_width (observe w c st) = ws_width st + candidate_width w c"
  by (cases c; simp add: observe_def Let_def mark_candidate_def candidate_width_def)+

lemma observe_first:
  "ws_first_non_whitespace_ix (observe w c st) =
     (if c = CChar 32 \<or> ws_first_non_whitespace_ix st \<noteq> None then ws_first_non_whitespace_ix st else Some (ws_index st))"
  by (cases c) (auto simp: observe_def Let_def mark_candidate_def)

lemma observe_candidate:
  "ws_last_candidate_ix (observe w c st) = ws_last_candidate_ix st \<and>
     ws_last_candidate_width (observe w c st) = ws_last_candidate_width st \<or>
   ws_last_candidate_ix (observe w c st) = ws_index st \<and> ws_last_candidate_width (observe w c st) = ws_width st \<and>
     ws_first_non_whitespace_ix st \<noteq> None"
  by (cases c) (auto simp: observe_def Let_def mark_candidate_def)

lemma wrap_next_Cons:
  assumes "c \<noteq> CChar 10"
  shows "\<exists>prev. wrap_next w wrap_width (c # cs) st =
    (if ws_width (observe w c st) > wrap_width \<and> ws_index st > ws_last_wrap_ix st
     then do { (b, st) \<leftarrow> wrap_here w (ws_index st) (candidate_width w c) (observe w c st); Some (Some b, cs, st) }
     else wrap_next w wrap_width cs ((observe w c st)\<lparr>ws_prev_c := prev\<rparr>))"
proof -
  obtain prev item_width st1 where
    eq: "consider_candidate w (ws_index st) c (st\<lparr>ws_index := ws_index st + candidate_len c\<rparr>) = (prev, item_width, st1)"
    by (metis prod_cases3)
  have "item_width = candidate_width w c" using eq by (cases c) (simp_all add: Let_def candidate_width_def)
  moreover have "observe w c st = st1\<lparr>ws_width := ws_width st1 + item_width\<rparr>" by (simp add: observe_def eq)
  moreover have "ws_last_wrap_ix st1 = ws_last_wrap_ix st" using observe_simps(2) [of w c st] calculation(2) by simp
  ultimately show ?thesis using assms by (intro exI [of _ prev]) (simp add: eq Let_def)
qed

lemma wrap_inv_prev [simp]: "wrap_inv w wrap_width seen (st\<lparr>ws_prev_c := c\<rparr>) = wrap_inv w wrap_width seen st"
  by (simp add: wrap_inv_def positions_ok_def widths_ok_def cong: option.case_cong)

lemma observe_positions:
  assumes ok: "positions_ok seen st" and pos: "0 < candidate_len c"
  shows "positions_ok (seen @ [c]) (observe w c st)"
proof (cases "seen = []")
  case True
  then have "ws_first_non_whitespace_ix st = None" "ws_last_candidate_ix st = 0" using ok by (auto simp: positions_ok_def)
  then show ?thesis using True ok pos observe_candidate [of w c st] by (auto simp: positions_ok_def observe_first)
next
  case False
  then have lw: "ws_last_wrap_ix st < candidates_len seen" "ws_index st = candidates_len seen" using ok by (auto simp: positions_ok_def)
  then show ?thesis using False ok observe_candidate [of w c st]
    by (auto simp: positions_ok_def observe_first split: option.splits)
qed

lemma indent_width_nonneg: "0 \<le> w 32 \<Longrightarrow> 0 \<le> indent_width w indent"
  by (simp add: indent_width_def split: option.splits)

lemma positions_le:
  "positions_ok seen st \<Longrightarrow> ws_last_wrap_ix st \<le> candidates_len seen \<and> ws_index st = candidates_len seen"
  "positions_ok seen st \<Longrightarrow> ws_last_candidate_ix st \<le> candidates_len seen"
  by (auto simp: positions_ok_def starts_def split: if_splits dest: indexed_bounds)

text \<open>The width of the line and of what follows the last candidate, after one more item.\<close>

lemma observe_width_eqs:
  assumes ok: "wrap_inv w wrap_width seen st" and cs: "candidates_ok w (seen @ [c])"
  shows "ws_width (observe w c st) = widths w (from_ix (ws_last_wrap_ix st) (seen @ [c])) + indent_width w (ws_indent st)"
    "ws_last_candidate_ix (observe w c st) \<noteq> 0 \<Longrightarrow>
      ws_last_candidate_width (observe w c st) + widths w (from_ix (ws_last_candidate_ix (observe w c st)) (seen @ [c])) =
        ws_width (observe w c st)"
proof -
  have p: "positions_ok seen st" and wd: "widths_ok w wrap_width seen st" using ok by (simp_all add: wrap_inv_def)
  note le = positions_le [OF p]
  have end_c: "from_ix (candidates_len seen) (seen @ [c]) = [c]"
    using cs by (simp add: from_ix_snoc from_ix_end candidates_ok_def)
  show "ws_width (observe w c st) = widths w (from_ix (ws_last_wrap_ix st) (seen @ [c])) + indent_width w (ws_indent st)"
    using wd le by (simp add: widths_ok_def from_ix_snoc)
  assume "ws_last_candidate_ix (observe w c st) \<noteq> 0"
  then show "ws_last_candidate_width (observe w c st) + widths w (from_ix (ws_last_candidate_ix (observe w c st)) (seen @ [c])) =
        ws_width (observe w c st)"
    using observe_candidate [of w c st] wd le end_c by (auto simp: widths_ok_def from_ix_snoc)
qed

text \<open>The widths after a candidate that does not overflow, or that is the first of its line.\<close>

lemma observe_widths:
  assumes ok: "wrap_inv w wrap_width seen st" and cs: "candidates_ok w (seen @ [c])" and ww: "0 \<le> wrap_width"
    and stay: "ws_width (observe w c st) \<le> wrap_width \<or> seen = []"
  shows "widths_ok w wrap_width (seen @ [c]) (observe w c st)"
proof -
  have p: "positions_ok seen st" and wd: "widths_ok w wrap_width seen st" using ok by (simp_all add: wrap_inv_def)
  have "0 \<le> candidate_width w c" "0 \<le> indent_width w (ws_indent st)"
    using cs by (auto simp: candidates_ok_def intro: indent_width_nonneg)
  then have "widths w (from_ix (ws_last_wrap_ix st) seen) \<le> wrap_width"
    using stay wd ww by (auto simp: widths_ok_def from_ix_def)
  moreover have "ws_last_candidate_ix (observe w c st) = 0" if "seen = []"
    using that p observe_candidate [of w c st] by (auto simp: positions_ok_def)
  ultimately show ?thesis
    using observe_width_eqs [OF ok cs] stay positions_le [OF p] by (auto simp: widths_ok_def from_ix_snoc)
qed

lemma line_without_last:
  assumes "candidates_ok w (xs @ ys)"
  shows "widths w (butlast xs) \<le> widths w (butlast (xs @ ys))"
proof -
  have nonneg: "0 \<le> widths w zs" if "set zs \<subseteq> set (xs @ ys)" for zs
    using that assms by (intro widths_nonneg) (auto simp: candidates_ok_def)
  show ?thesis
  proof (cases "ys = []")
    case False
    have "widths w xs = widths w (butlast xs) + widths w (if xs = [] then [] else [last xs])"
      by (cases "xs = []") (simp_all flip: widths_simps)
    moreover have "0 \<le> widths w (if xs = [] then [] else [last xs])" "0 \<le> widths w (butlast ys)"
      by (rule nonneg; auto dest: in_set_butlastD)+
    ultimately show ?thesis using False by (simp add: butlast_append)
  qed simp
qed

definition boundary_ok :: "(uchar \<Rightarrow> 'w::floor_ceiling) \<Rightarrow> 'w \<Rightarrow> 'w wrap_candidate list \<Rightarrow> nat \<Rightarrow> boundary \<Rightarrow> bool" where
  "boundary_ok w wrap_width cs lo b \<longleftrightarrow>
     lo < b_ix b \<and> b_ix b \<in> starts cs \<and> b_next_indent b \<le> MAX_INDENT \<and>
     widths w (butlast (line_between lo (b_ix b) cs)) \<le> wrap_width"

text \<open>Where the loop breaks a line: at the last candidate, or before the item that overflows.\<close>

definition break_ix :: "'w wrap_candidate list \<Rightarrow> 'w wrap_state \<Rightarrow> nat" where
  "break_ix seen st = (if ws_last_candidate_ix st > 0 then ws_last_candidate_ix st else candidates_len seen)"

lemma wrap_here_eq:
  assumes ok: "wrap_inv w wrap_width seen st" and cs: "candidates_ok w (seen @ [c])" and "seen \<noteq> []"
  shows "\<exists>indent. (indent = None \<longrightarrow> ws_first_non_whitespace_ix (observe w c st) = None) \<and>
    (case indent of None \<Rightarrow> True | Some n \<Rightarrow> n \<le> MAX_INDENT) \<and>
    wrap_here w (ws_index st) (candidate_width w c) (observe w c st) =
      Some (\<lparr>b_ix = break_ix seen (observe w c st), b_next_indent = (case indent of Some n \<Rightarrow> n | None \<Rightarrow> 0)\<rparr>,
        (observe w c st)\<lparr>ws_indent := indent, ws_last_wrap_ix := break_ix seen (observe w c st), ws_last_candidate_ix := 0,
          ws_width := widths w (from_ix (break_ix seen (observe w c st)) (seen @ [c])) + indent_width w indent\<rparr>)"
proof -
  let ?st = "observe w c st"
  have p: "positions_ok seen st" using ok by (simp add: wrap_inv_def)
  have p1: "positions_ok (seen @ [c]) ?st" using cs by (intro observe_positions [OF p]) simp
  have end_c: "widths w (from_ix (candidates_len seen) (seen @ [c])) = candidate_width w c"
    using cs by (simp add: from_ix_snoc from_ix_end candidates_ok_def)
  have cand: "ws_last_candidate_ix ?st \<noteq> 0 \<Longrightarrow>
      ws_width ?st - ws_last_candidate_width ?st = widths w (from_ix (ws_last_candidate_ix ?st) (seen @ [c]))"
    using observe_width_eqs(2) [OF ok cs] by (simp add: eq_diff_eq [symmetric] diff_eq_eq add.commute)
  define indent where "indent =
    (case (ws_indent ?st, ws_first_non_whitespace_ix ?st) of
       (None, Some f) \<Rightarrow> Some (min MAX_INDENT ((f - ws_last_wrap_ix ?st) mod 2 ^ 32))
     | (i, _) \<Rightarrow> i)"
  have "indent = None \<longrightarrow> ws_first_non_whitespace_ix ?st = None" by (auto simp: indent_def split: option.splits)
  moreover have "case indent of None \<Rightarrow> True | Some n \<Rightarrow> n \<le> MAX_INDENT"
    using p1 by (auto simp: indent_def positions_ok_def split: option.splits)
  moreover have "(case (ws_indent ?st, ws_first_non_whitespace_ix ?st) of
       (None, Some f) \<Rightarrow> do {
         assert_that (ws_last_wrap_ix ?st \<le> f);
         Some (Some (min MAX_INDENT ((f - ws_last_wrap_ix ?st) mod 2 ^ 32))) }
     | (i, _) \<Rightarrow> Some i) = Some indent"
    using p1 by (auto simp: indent_def positions_ok_def split: option.splits)
  ultimately show ?thesis
    using cand end_c positions_le(1) [OF p]
    by (intro exI [of _ indent])
      (auto simp: wrap_here_def break_ix_def Let_def indent_width_def simp del: observe_simps split: option.splits)
qed

lemma break_ix_ok:
  assumes ok: "wrap_inv w wrap_width seen st" and cs: "candidates_ok w (seen @ [c])" and ne: "seen \<noteq> []" and ww: "0 \<le> wrap_width"
  defines "q \<equiv> break_ix seen (observe w c st)"
  shows "ws_last_wrap_ix st < q" "q \<le> candidates_len seen" "q \<in> starts (seen @ [c])"
    "widths w (from_ix q seen) \<le> wrap_width" "widths w (butlast (line_between (ws_last_wrap_ix st) q seen)) \<le> wrap_width"
proof -
  let ?k = "ws_last_candidate_ix (observe w c st)" and ?lo = "ws_last_wrap_ix st"
  have p: "positions_ok seen st" and wd: "widths_ok w wrap_width seen st" using ok by (simp_all add: wrap_inv_def)
  have p1: "positions_ok (seen @ [c]) (observe w c st)" using cs by (intro observe_positions [OF p]) simp
  have k: "?k = ws_last_candidate_ix st \<or> ?k = candidates_len seen"
    using observe_candidate [of w c st] positions_le [OF p] by auto
  show lo: "?lo < q" using p p1 ne by (auto simp: q_def break_ix_def positions_ok_def)
  show le: "q \<le> candidates_len seen" using k positions_le [OF p] by (auto simp: q_def break_ix_def)
  show "q \<in> starts (seen @ [c])" using p1 by (auto simp: q_def break_ix_def positions_ok_def)
  have seen_ok: "candidates_ok w (from_ix ?lo seen)" "candidates_ok w (line_between ?lo q seen @ from_ix q seen)"
    using cs set_from_ix [of ?lo seen] lo by (auto simp: candidates_ok_def simp flip: from_ix_split [OF less_imp_le [OF lo]])
  have split: "from_ix ?lo seen = line_between ?lo q seen @ from_ix q seen" using lo by (intro from_ix_split) simp
  have "widths w (butlast (from_ix ?lo seen)) \<le> wrap_width" using wd by (simp add: widths_ok_def)
  then show "widths w (butlast (line_between ?lo q seen)) \<le> wrap_width"
    using line_without_last [OF seen_ok(2)] unfolding split [symmetric] by linarith
  show "widths w (from_ix q seen) \<le> wrap_width"
  proof (cases "q = candidates_len seen")
    case True
    then show ?thesis using cs ww by (simp add: from_ix_end candidates_ok_def)
  next
    case False
    then have "ws_last_candidate_ix st \<noteq> 0" using k by (auto simp: q_def break_ix_def split: if_splits)
    then have "ws_width st \<le> wrap_width" using wd by (auto simp: widths_ok_def)
    moreover have "0 \<le> indent_width w (ws_indent st)" using cs by (auto simp: candidates_ok_def intro: indent_width_nonneg)
    moreover have "0 \<le> widths w (line_between ?lo q seen)" using seen_ok(2) by (intro widths_nonneg) (auto simp: candidates_ok_def)
    ultimately show ?thesis using wd split by (simp add: widths_ok_def)
  qed
qed

lemma wrap_here_ok:
  assumes ok: "wrap_inv w wrap_width seen st" and cs: "candidates_ok w (seen @ [c])" and ww: "0 \<le> wrap_width" and ne: "seen \<noteq> []"
  shows "\<exists>b st'. wrap_here w (ws_index st) (candidate_width w c) (observe w c st) = Some (b, st') \<and>
    wrap_inv w wrap_width (seen @ [c]) st' \<and> ws_last_wrap_ix st' = b_ix b \<and> boundary_ok w wrap_width (seen @ [c]) (ws_last_wrap_ix st) b"
proof -
  let ?st = "observe w c st"
  let ?q = "break_ix seen ?st"
  note q = break_ix_ok [OF ok cs ne ww]
  have p1: "positions_ok (seen @ [c]) ?st" using cs ok by (intro observe_positions) (simp_all add: wrap_inv_def)
  obtain indent where indent: "indent = None \<longrightarrow> ws_first_non_whitespace_ix ?st = None" "case indent of None \<Rightarrow> True | Some n \<Rightarrow> n \<le> MAX_INDENT"
    and eq: "wrap_here w (ws_index st) (candidate_width w c) ?st =
      Some (\<lparr>b_ix = ?q, b_next_indent = (case indent of Some n \<Rightarrow> n | None \<Rightarrow> 0)\<rparr>,
        ?st\<lparr>ws_indent := indent, ws_last_wrap_ix := ?q, ws_last_candidate_ix := 0,
          ws_width := widths w (from_ix ?q (seen @ [c])) + indent_width w indent\<rparr>)" (is "_ = Some (?b, ?st')")
    using wrap_here_eq [OF ok cs ne] by blast
  have "positions_ok (seen @ [c]) ?st'"
    using p1 q(2) indent cs by (auto simp: positions_ok_def split: option.splits)
  moreover have "widths_ok w wrap_width (seen @ [c]) ?st'"
    using q(2,4) by (simp add: widths_ok_def from_ix_snoc)
  moreover have "boundary_ok w wrap_width (seen @ [c]) (ws_last_wrap_ix st) ?b"
    using q(1,3,5) indent(2) line_between_prefix [OF q(2), of "ws_last_wrap_ix st" "[c]"]
    by (auto simp: boundary_ok_def split: option.splits)
  ultimately show ?thesis using eq by (intro exI [of _ ?b] exI [of _ ?st']) (simp add: wrap_inv_def)
qed

text \<open>One call of the iterator, and all of them.\<close>

lemma wrap_next_ok:
  assumes "0 \<le> wrap_width"
  shows "wrap_inv w wrap_width seen st \<Longrightarrow> candidates_ok w (seen @ cs) \<Longrightarrow>
    (\<exists>b mid cs' st'. wrap_next w wrap_width cs st = Some (Some b, cs', st') \<and> cs = mid @ cs' \<and>
       wrap_inv w wrap_width (seen @ mid) st' \<and> ws_last_wrap_ix st' = b_ix b \<and> boundary_ok w wrap_width (seen @ mid) (ws_last_wrap_ix st) b) \<or>
    (\<exists>st'. wrap_next w wrap_width cs st = Some (None, [], st'))"
proof (induction cs arbitrary: seen st)
  case (Cons c cs)
  have c: "c \<noteq> CChar 10" and one: "candidates_ok w (seen @ [c])" and rest: "candidates_ok w ((seen @ [c]) @ cs)"
    using Cons.prems(2) by (auto simp: candidates_ok_def)
  have p: "positions_ok seen st" using Cons.prems(1) by (simp add: wrap_inv_def)
  have first: "ws_index st > ws_last_wrap_ix st \<longleftrightarrow> seen \<noteq> []" using p by (auto simp: positions_ok_def)
  obtain prev where step: "wrap_next w wrap_width (c # cs) st =
    (if ws_width (observe w c st) > wrap_width \<and> ws_index st > ws_last_wrap_ix st
     then do { (b, st) \<leftarrow> wrap_here w (ws_index st) (candidate_width w c) (observe w c st); Some (Some b, cs, st) }
     else wrap_next w wrap_width cs ((observe w c st)\<lparr>ws_prev_c := prev\<rparr>))"
    using wrap_next_Cons [OF c] by blast
  show ?case
  proof (cases "ws_width (observe w c st) > wrap_width \<and> seen \<noteq> []")
    case True
    then obtain b st' where "wrap_here w (ws_index st) (candidate_width w c) (observe w c st) = Some (b, st')"
        "wrap_inv w wrap_width (seen @ [c]) st'" "ws_last_wrap_ix st' = b_ix b" "boundary_ok w wrap_width (seen @ [c]) (ws_last_wrap_ix st) b"
      using wrap_here_ok [OF Cons.prems(1) one assms] by blast
    then have "wrap_next w wrap_width (c # cs) st = Some (Some b, cs, st') \<and> c # cs = [c] @ cs \<and>
        wrap_inv w wrap_width (seen @ [c]) st' \<and> ws_last_wrap_ix st' = b_ix b \<and> boundary_ok w wrap_width (seen @ [c]) (ws_last_wrap_ix st) b"
      using True step first by simp
    then show ?thesis by blast
  next
    case False
    let ?st = "(observe w c st)\<lparr>ws_prev_c := prev\<rparr>"
    have inv: "wrap_inv w wrap_width (seen @ [c]) ?st"
      using observe_positions [OF p, of c w] observe_widths [OF Cons.prems(1) one assms] one False by (auto simp: wrap_inv_def[of w wrap_width "seen @ [c]" "observe w c st"])
    have eq: "wrap_next w wrap_width (c # cs) st = wrap_next w wrap_width cs ?st" using step first False by auto
    from Cons.IH [OF inv rest] show ?thesis
    proof (elim disjE exE conjE)
      fix b mid cs' st'
      assume "wrap_next w wrap_width cs ?st = Some (Some b, cs', st')" "cs = mid @ cs'" "wrap_inv w wrap_width ((seen @ [c]) @ mid) st'"
        "ws_last_wrap_ix st' = b_ix b" "boundary_ok w wrap_width ((seen @ [c]) @ mid) (ws_last_wrap_ix ?st) b"
      then have "wrap_next w wrap_width (c # cs) st = Some (Some b, cs', st') \<and> c # cs = (c # mid) @ cs' \<and>
        wrap_inv w wrap_width (seen @ (c # mid)) st' \<and> ws_last_wrap_ix st' = b_ix b \<and> boundary_ok w wrap_width (seen @ (c # mid)) (ws_last_wrap_ix st) b"
        using eq by simp
      then show ?thesis by blast
    qed (use eq in auto)
  qed
qed simp

text \<open>The boundaries of a line cut it into lines that are right, from \<open>lo\<close> on.\<close>

fun lines_ok :: "(uchar \<Rightarrow> 'w::floor_ceiling) \<Rightarrow> 'w \<Rightarrow> 'w wrap_candidate list \<Rightarrow> nat \<Rightarrow> boundary list \<Rightarrow> bool" where
  "lines_ok w wrap_width cs lo [] \<longleftrightarrow> True"
| "lines_ok w wrap_width cs lo (b # bs) \<longleftrightarrow> boundary_ok w wrap_width cs lo b \<and> lines_ok w wrap_width cs (b_ix b) bs"

lemma boundary_ok_append: "boundary_ok w wrap_width xs lo b \<Longrightarrow> boundary_ok w wrap_width (xs @ ys) lo b"
proof -
  assume ok: "boundary_ok w wrap_width xs lo b"
  then have "b_ix b \<le> candidates_len xs" by (force simp: boundary_ok_def starts_def dest: indexed_bounds)
  then show ?thesis using ok by (simp add: boundary_ok_def line_between_prefix starts_mono)
qed

lemma wrap_all_ok:
  assumes "0 \<le> wrap_width"
  shows "wrap_inv w wrap_width seen st \<Longrightarrow> candidates_ok w (seen @ cs) \<Longrightarrow>
    \<exists>bs. wrap_all w wrap_width cs st = Some bs \<and> lines_ok w wrap_width (seen @ cs) (ws_last_wrap_ix st) bs"
proof (induction "length cs" arbitrary: seen cs st rule: less_induct)
  case less
  from wrap_next_ok [OF assms less.prems] show ?case
  proof (elim disjE exE conjE)
    fix b mid cs' st'
    assume b: "wrap_next w wrap_width cs st = Some (Some b, cs', st')" "cs = mid @ cs'" "wrap_inv w wrap_width (seen @ mid) st'"
      "ws_last_wrap_ix st' = b_ix b" "boundary_ok w wrap_width (seen @ mid) (ws_last_wrap_ix st) b"
    obtain bs where "wrap_all w wrap_width cs' st' = Some bs" "lines_ok w wrap_width ((seen @ mid) @ cs') (b_ix b) bs"
      using less.hyps [OF wrap_next_shorter [OF b(1)] b(3)] less.prems(2) b(2,4) by auto
    then show ?thesis using b(1,2) boundary_ok_append [OF b(5), of cs'] by (simp add: wrap_all.simps [of w wrap_width "mid @ cs'"])
  next
    fix st' assume "wrap_next w wrap_width cs st = Some (None, [], st')"
    then show ?thesis by (simp add: wrap_all.simps)
  qed
qed

section \<open>Slices at character boundaries\<close>

lemma len_utf8_pos [simp]: "0 < len_utf8 c"
  by (simp add: len_utf8_def)

lemma str_len_simps [simp]:
  "str_len [] = 0" "str_len (c # s) = len_utf8 c + str_len s" "str_len (s @ t) = str_len s + str_len t" "str_len (rev s) = str_len s"
  by (simp_all add: str_len_def rev_map [symmetric])

lemma str_len_eq_0 [simp]: "str_len s = 0 \<longleftrightarrow> s = []"
  by (cases s) simp_all

lemma split_at_byte_append [simp]: "split_at_byte (s @ t) (str_len s) = Some (s, t)"
proof (induction s)
  case Nil
  then show ?case by (cases t) simp_all
next
  case (Cons c s)
  then show ?case using len_utf8_pos [of c] by (simp del: len_utf8_pos)
qed

lemma slices [simp]: "slice_to (s @ t) (str_len s) = Some s" "slice_from (s @ t) (str_len s) = Some t"
  by (simp_all add: slice_to_def slice_from_def)

lemma ceil_char_boundary_next: "ceil_char_boundary (s @ c # t) (str_len s + 1) = str_len (s @ [c])"
proof (induction s)
  case Nil
  have "ceil_char_boundary t 0 = 0" by (cases t) simp_all
  then show ?case by (simp add: Suc_le_eq)
qed simp

lemma char_indices_from_append:
  "char_indices_from ix (s @ t) = char_indices_from ix s @ char_indices_from (ix + str_len s) t"
  by (induction s arbitrary: ix) (simp_all add: add.assoc)

lemma text_width_sum: "text_width w s = sum_list (map w s)"
proof -
  have "foldl (\<lambda>a c. a + w c) x s = x + sum_list (map w s)" for x
    by (induction s arbitrary: x) (simp_all add: add.assoc)
  then show ?thesis by (simp add: text_width_def)
qed

lemma text_width_simps [simp]:
  "text_width w [] = 0" "text_width w (c # s) = w c + text_width w s" "text_width w (s @ t) = text_width w s + text_width w t"
  by (simp_all add: text_width_sum)

lemma text_width_nonneg: "(\<And>c. 0 \<le> w c) \<Longrightarrow> 0 \<le> text_width (w :: _ \<Rightarrow> 'w::floor_ceiling) s"
  by (induction s) simp_all

lemma trim_end_prefix: "\<exists>t. s = trim_end_matches p s @ t"
proof
  show "s = trim_end_matches p s @ rev (takeWhile p (rev s))"
    by (metis rev_append rev_rev_ident takeWhile_dropWhile_id trim_end_matches_def)
qed

lemma trim_end_le:
  assumes "\<And>c. 0 \<le> w c"
  shows "text_width (w :: _ \<Rightarrow> 'w::floor_ceiling) (trim_end_matches p s) \<le> text_width w s" "str_len (trim_end_matches p s) \<le> str_len s"
proof -
  obtain t where t: "s = trim_end_matches p s @ t" using trim_end_prefix by blast
  show "text_width w (trim_end_matches p s) \<le> text_width w s"
    using text_width_nonneg [of w t, OF assms] by (subst (2) t) simp
  show "str_len (trim_end_matches p s) \<le> str_len s" by (subst (2) t) simp
qed

section \<open>Lemmas on truncation\<close>

lemma truncate_scan_end:
  "truncate_scan w tw sw (char_indices_from (str_len d) s) (text_width w d) t0 = Some t \<Longrightarrow>
     t = t0 \<or> (\<exists>d' r. d @ s = d' @ r \<and> r \<noteq> [] \<and> t = str_len d' \<and> text_width w d' + sw < tw)"
proof (induction s arbitrary: d t0)
  case (Cons c s)
  have next_ix: "str_len d + len_utf8 c = str_len (d @ [c])" "text_width w d + w c = text_width w (d @ [c])" by simp_all
  let ?t = "if text_width w d + sw < tw then str_len d else t0"
  have here: "?t = t0 \<or> (\<exists>d' r. d @ c # s = d' @ r \<and> r \<noteq> [] \<and> ?t = str_len d' \<and> text_width w d' + sw < tw)" by auto
  show ?case
  proof (cases "of_int \<lfloor>text_width w d + w c\<rfloor> > tw")
    case True
    then show ?thesis using Cons.prems here by (auto simp: Let_def)
  next
    case False
    then have "t = ?t \<or> (\<exists>d' r. (d @ [c]) @ s = d' @ r \<and> r \<noteq> [] \<and> t = str_len d' \<and> text_width w d' + sw < tw)"
      using Cons.prems unfolding next_ix by (intro Cons.IH) (auto simp: Let_def simp flip: next_ix)
    then show ?thesis using here by auto
  qed
qed simp

lemma truncate_scan_start:
  "truncate_scan w tw sw (rev (char_indices_from 0 p)) (text_width w s) t0 = Some t \<Longrightarrow>
     t = t0 \<and> \<not> text_width w s + sw < tw \<or>
     (\<exists>p' c s'. p @ s = p' @ c # s' \<and> t = str_len p' \<and> text_width w s' + sw < tw)"
proof (induction p arbitrary: s t0 rule: rev_induct)
  case (snoc c p)
  have rev: "rev (char_indices_from 0 (p @ [c])) = (str_len p, c) # rev (char_indices_from 0 p)" by (simp add: char_indices_from_append)
  have width: "text_width w s + w c = text_width w (c # s)" by (simp add: add.commute)
  let ?t = "if text_width w s + sw < tw then str_len p else t0"
  have here: "\<exists>p' c' s'. (p @ [c]) @ s = p' @ c' # s' \<and> str_len p = str_len p' \<and> text_width w s' + sw < tw" if "text_width w s + sw < tw"
    using that by (intro exI [of _ p] exI [of _ c] exI [of _ s]) simp
  show ?case
  proof (cases "of_int \<lfloor>text_width w s + w c\<rfloor> > tw")
    case True
    then show ?thesis using snoc.prems here by (auto simp: rev Let_def split: if_splits)
  next
    case False
    then have "truncate_scan w tw sw (rev (char_indices_from 0 p)) (text_width w (c # s)) ?t = Some t"
      using snoc.prems unfolding rev width [symmetric] by (simp add: Let_def)
    from snoc.IH [OF this] show ?thesis using here by (auto split: if_splits)
  qed
qed simp

lemma char_indices_widths:
  fixes w :: "uchar \<Rightarrow> 'w::floor_ceiling"
  shows "sum_list (map (\<lambda>(i, c). w c) (rev (char_indices s))) = text_width w s"
proof -
  have "sum_list (map (\<lambda>(i, c). w c) (char_indices_from k s)) = text_width w s" for k
    by (induction s arbitrary: k) simp_all
  from this [of 0] show ?thesis unfolding char_indices_def rev_map [symmetric] by (simp add: sum_list.rev)
qed

lemma truncate_scan_wide:
  assumes "tw \<le> sw" "\<And>c. 0 \<le> w c"
  shows "0 \<le> width \<Longrightarrow> xs \<noteq> [] \<Longrightarrow> tw < of_int \<lfloor>width + sum_list (map (\<lambda>(i, c). w c) xs)\<rfloor> \<Longrightarrow>
    truncate_scan w tw sw xs width t0 = Some t0"
proof (induction xs arbitrary: width)
  case (Cons x xs)
  obtain i c where x: "x = (i, c)" by force
  have kept: "\<not> width + sw < tw" using Cons.prems(1) assms(1) by linarith
  show ?case
  proof (cases "tw < of_int \<lfloor>width + w c\<rfloor>")
    case False
    then have "xs \<noteq> []" using Cons.prems(3) x by auto
    then show ?thesis using Cons.IH [of "width + w c"] Cons.prems(1,3) assms(2) False kept by (simp add: x add.assoc)
  qed (simp add: x kept)
qed simp

lemma should_truncate_end:
  assumes "should_truncate_line w line tw affix TEnd = Some t"
  shows "\<exists>front r. line = front @ r \<and> r \<noteq> [] \<and> t = str_len front \<and> (front = [] \<or> text_width w front + text_width w affix < tw)"
proof -
  have "line \<noteq> []" using assms by (auto simp: should_truncate_line_def char_indices_def)
  then show ?thesis
    using truncate_scan_end [of w tw "text_width w affix" "[]" line 0 t] assms
    by (auto simp: should_truncate_line_def char_indices_def)
qed

lemma should_truncate_start:
  assumes "should_truncate_line w line tw affix TStart = Some t"
  shows "\<exists>p c s. line = p @ c # s \<and> t = str_len p \<and> (text_width w affix < tw \<longrightarrow> text_width w s + text_width w affix < tw)"
proof -
  obtain c s where "line = c # s" using assms by (cases line) (auto simp: should_truncate_line_def char_indices_def)
  then show ?thesis
    using truncate_scan_start [of w tw "text_width w affix" line "[]" 0 t] assms
    by (fastforce simp: should_truncate_line_def char_indices_def)
qed

lemma front_scan_ok:
  "text_width w d \<le> budget \<Longrightarrow>
     \<exists>d' r. d @ s = d' @ r \<and> front_scan w budget (char_indices_from (str_len d) s) (text_width w d) (str_len d) = str_len d' \<and>
       text_width w d' \<le> budget"
proof (induction s arbitrary: d)
  case Nil
  then show ?case by (intro exI [of _ d] exI [of _ "[]"]) simp
next
  case (Cons c s)
  show ?case
  proof (cases "text_width w d + w c > budget")
    case True
    then show ?thesis using Cons.prems by (intro exI [of _ d] exI [of _ "c # s"]) simp
  next
    case False
    then show ?thesis using Cons.IH [of "d @ [c]"] by (simp add: not_less)
  qed
qed

lemma back_scan_ok:
  "text_width w s \<le> budget \<Longrightarrow>
     \<exists>p' s'. p @ s = p' @ s' \<and> back_scan w budget (rev (char_indices_from 0 p)) (text_width w s) (str_len p) = str_len p' \<and>
       text_width w s' \<le> budget"
proof (induction p arbitrary: s rule: rev_induct)
  case Nil
  then show ?case by (intro exI [of _ "[]"] exI [of _ s]) simp
next
  case (snoc c p)
  have rev: "rev (char_indices_from 0 (p @ [c])) = (str_len p, c) # rev (char_indices_from 0 p)" by (simp add: char_indices_from_append)
  show ?case
  proof (cases "text_width w s + w c > budget")
    case True
    then show ?thesis using snoc.prems by (intro exI [of _ "p @ [c]"] exI [of _ s]) (simp add: rev)
  next
    case False
    then show ?thesis using snoc.IH [of "c # s"] by (simp add: rev not_less add.commute)
  qed
qed

lemma should_truncate_middle:
  assumes "should_truncate_line_middle w line tw affix = Some (i, j)"
  shows "\<exists>front r p tail. line = front @ r \<and> line = p @ tail \<and> i = str_len front \<and> j = str_len p \<and>
    (i < j \<and> text_width w front + text_width w affix + text_width w tail \<le> tw \<or> i = 0 \<and> j = str_len line)"
proof (cases "i = 0 \<and> j = str_len line")
  case True
  then show ?thesis by (intro exI [of _ "[]"] exI [of _ line]) simp
next
  case False
  let ?budget = "tw - text_width w affix"
  let ?front = "?budget * (2 / 3)"
  have pos: "0 < ?budget" and i: "i = front_scan w ?front (char_indices line) 0 0"
    and j: "j = back_scan w (?budget - ?front) (rev (char_indices line)) 0 (str_len line)" and ij: "i < j"
    using assms False by (auto simp: should_truncate_line_middle_def Let_def split: if_splits)
  obtain front r where front: "line = front @ r" "i = str_len front" "text_width w front \<le> ?front"
    using front_scan_ok [of w "[]" ?front line] pos i by (auto simp: char_indices_def)
  obtain p tail where tail: "line = p @ tail" "j = str_len p" "text_width w tail \<le> ?budget - ?front"
    using back_scan_ok [of w "[]" "?budget - ?front" line] pos j by (auto simp: char_indices_def)
  have "text_width w front + text_width w affix + text_width w tail \<le> tw" using front(3) tail(3) by linarith
  then show ?thesis using front(1,2) tail(1,2) ij by blast
qed

section \<open>Lemmas on runs\<close>

definition runs_len :: "'s text_run list \<Rightarrow> nat" where
  "runs_len runs = sum_list (map tr_len runs)"

lemma runs_len_simps [simp]:
  "runs_len [] = 0" "runs_len (r # rs) = tr_len r + runs_len rs" "runs_len (xs @ ys) = runs_len xs + runs_len ys"
  "runs_len (rev rs) = runs_len rs"
  by (simp_all add: runs_len_def rev_map [symmetric])

lemma shorten_runs_len: "n < runs_len runs \<Longrightarrow> runs_len (shorten_runs runs n k) = n + k"
  by (induction runs n k rule: shorten_runs.induct) auto

lemma front_runs_len: "n < runs_len runs \<Longrightarrow> snd (front_runs runs n k) \<and> runs_len (fst (front_runs runs n k)) = n + k"
  by (induction runs n k rule: front_runs.induct) (auto split: prod.splits)

lemma back_runs_len: "runs_len (back_runs runs pos i) = runs_len runs - (i - pos)"
  by (induction runs pos i rule: back_runs.induct) (auto simp: Let_def)

lemma update_runs_len:
  assumes "str_len result = n + str_len ellipsis" "n < runs_len runs" "from \<noteq> TMiddle"
  shows "\<exists>runs'. update_runs_after_truncation result ellipsis runs from = Some runs' \<and> runs_len runs' = str_len result"
  using assms shorten_runs_len [of n runs "str_len ellipsis"] shorten_runs_len [of n "rev runs" "str_len ellipsis"]
  by (cases "from") (simp_all add: update_runs_after_truncation_def)

lemma update_runs_middle_len:
  "i < runs_len runs \<Longrightarrow> runs_len (update_runs_after_middle_truncation ellipsis runs i j) = i + str_len ellipsis + (runs_len runs - j)"
  using front_runs_len [of i runs "str_len ellipsis"]
  by (auto simp: update_runs_after_middle_truncation_def back_runs_len Let_def split: prod.splits)

section \<open>Lemmas on truncating wrapped lines\<close>

text \<open>A byte index at which a character of the text starts, or its end.\<close>

definition char_boundary :: "uchar list \<Rightarrow> nat \<Rightarrow> bool" where
  "char_boundary text i \<longleftrightarrow> (\<exists>s t. text = s @ t \<and> i = str_len s)"

definition wrapped_inv :: "uchar list \<Rightarrow> nat \<Rightarrow> 'w wrapped_state \<Rightarrow> bool" where
  "wrapped_inv text ix st \<longleftrightarrow>
     char_boundary text (ws_truncate_ix st) \<and> ws_truncate_ix st \<le> ix \<and>
     char_boundary text (ws_last_wrap_ix st) \<and> ws_last_wrap_ix st \<le> ix \<and>
     char_boundary text (ws_last_candidate_ix st) \<and> ws_last_candidate_ix st \<le> ix \<and>
     (case ws_first_non_whitespace_ix st of
        None \<Rightarrow> ws_last_candidate_ix st \<le> ws_last_wrap_ix st
      | Some f \<Rightarrow> ws_indent st = None \<longrightarrow> ws_last_wrap_ix st \<le> f)"

lemma wrapped_candidate_simps [simp]:
  "ws_truncate_ix (wrapped_candidate ix c st) = ws_truncate_ix st" "ws_last_wrap_ix (wrapped_candidate ix c st) = ws_last_wrap_ix st"
  "ws_line (wrapped_candidate ix c st) = ws_line st" "ws_indent (wrapped_candidate ix c st) = ws_indent st"
  "ws_width (wrapped_candidate ix c st) = ws_width st"
  by (simp_all add: wrapped_candidate_def Let_def mark_candidate_def)

lemma wrapped_candidate_inv:
  assumes "wrapped_inv text ix st" "char_boundary text ix"
  shows "wrapped_inv text ix ((wrapped_candidate ix c st)\<lparr>ws_width := x\<rparr>)"
  using assms by (auto simp: wrapped_inv_def wrapped_candidate_def Let_def mark_candidate_def split: option.splits if_splits)

lemma wrapped_overflow_inv:
  assumes "wrapped_inv text ix st" "char_boundary text ix"
  shows "\<exists>st'. wrapped_overflow w ix cw st = Some st' \<and> wrapped_inv text ix st'"
  using assms by (cases "ws_indent st"; cases "ws_first_non_whitespace_ix st")
    (auto simp: wrapped_overflow_def wrapped_inv_def Let_def char_boundary_def intro: exI [of _ "[]"])

lemma wrapped_inv_later: "wrapped_inv text ix st \<Longrightarrow> ix \<le> ix' \<Longrightarrow> wrapped_inv text ix' (st\<lparr>ws_prev_c := c\<rparr>)"
  by (auto simp: wrapped_inv_def split: option.splits)

lemma if_some: "\<exists>y. f = Some y \<and> P y \<Longrightarrow> P x \<Longrightarrow> \<exists>y. (if b then f else Some x) = Some y \<and> P y"
  by simp

lemma wrapped_scan_inner:
  assumes "c \<noteq> 10" "ws_line st < max_lines - 1"
    "(if ws_width ((wrapped_candidate ix c st)\<lparr>ws_width := ws_width st + w c\<rparr>) > wrap_width \<and>
         ix > ws_last_wrap_ix ((wrapped_candidate ix c st)\<lparr>ws_width := ws_width st + w c\<rparr>)
      then wrapped_overflow w ix (w c) ((wrapped_candidate ix c st)\<lparr>ws_width := ws_width st + w c\<rparr>)
      else Some ((wrapped_candidate ix c st)\<lparr>ws_width := ws_width st + w c\<rparr>)) = Some st'"
  shows "wrapped_scan w wrap_width max_lines affix_width text ((ix, c) # rest) st =
    wrapped_scan w wrap_width max_lines affix_width text rest (st'\<lparr>ws_prev_c := c\<rparr>)"
  using assms by (simp add: Let_def cong: if_cong split del: if_split)

lemma wrapped_scan_last:
  assumes "c \<noteq> 10" "\<not> ws_line st < max_lines - 1" "\<not> ws_width ((wrapped_candidate ix c st)\<lparr>ws_width := ws_width st + w c\<rparr>) > wrap_width"
  shows "wrapped_scan w wrap_width max_lines affix_width text ((ix, c) # rest) st =
    wrapped_scan w wrap_width max_lines affix_width text rest
      ((if ws_width ((wrapped_candidate ix c st)\<lparr>ws_width := ws_width st + w c\<rparr>) + affix_width \<le> wrap_width
        then (wrapped_candidate ix c st)\<lparr>ws_width := ws_width st + w c\<rparr>\<lparr>ws_truncate_ix := ix + len_utf8 c\<rparr>
        else (wrapped_candidate ix c st)\<lparr>ws_width := ws_width st + w c\<rparr>)\<lparr>ws_prev_c := c\<rparr>)"
  using assms
  by (cases "ws_width st + w c + affix_width \<le> wrap_width") (simp_all add: Let_def cong: if_cong split del: if_split)

lemma wrapped_scan_ok:
  assumes "0 \<le> affix_width"
  shows "text = d @ s \<Longrightarrow> wrapped_inv text (str_len d) st \<Longrightarrow>
    \<exists>r. wrapped_scan w wrap_width max_lines affix_width text (char_indices_from (str_len d) s) st = Some r \<and>
      (case r of None \<Rightarrow> True | Some t \<Rightarrow> char_boundary text t \<and> t < str_len text)"
proof (induction s arbitrary: d st)
  case (Cons c s)
  let ?ix = "str_len d" and ?d = "d @ [c]"
  have tx: "text = ?d @ s" "?ix < str_len text" "?ix + len_utf8 c = str_len ?d" using Cons.prems(1) by simp_all
  have here: "char_boundary text ?ix" "char_boundary text (str_len ?d)"
    using Cons.prems(1) by (auto simp: char_boundary_def intro: exI [of _ d] exI [of _ ?d])
  note IH = Cons.IH [OF tx(1)]
  show ?case
  proof (cases "c = 10")
    case True
    then have "str_len ?d = ?ix + 1" by (simp add: len_utf8_def)
    then have tail: "slice_from text (?ix + 1) = Some s" using tx(1) slices(2) [of ?d s] by simp
    let ?st = "st\<lparr>ws_line := ws_line st + 1, ws_width := 0, ws_first_non_whitespace_ix := None, ws_last_candidate_ix := 0,
              ws_last_candidate_width := 0, ws_last_wrap_ix := ?ix + 1, ws_prev_c := 0, ws_indent := None,
              ws_truncate_ix := ?ix + 1\<rparr>"
    have "wrapped_inv text (str_len ?d) ?st"
      using here \<open>str_len ?d = _\<close> by (simp add: wrapped_inv_def) (simp add: char_boundary_def exI [of _ "[]"])
    from IH [OF this] show ?thesis
      using True tail Cons.prems(2) tx(2,3) \<open>str_len ?d = _\<close> by (auto simp: wrapped_inv_def)
  next
    case False
    let ?st = "(wrapped_candidate ?ix c st)\<lparr>ws_width := ws_width st + w c\<rparr>"
    have inv: "wrapped_inv text ?ix ?st" by (rule wrapped_candidate_inv [OF Cons.prems(2) here(1)])
    have later: "wrapped_inv text (str_len ?d) (st'\<lparr>ws_prev_c := c\<rparr>)" if "wrapped_inv text ?ix st'" for st' :: "'a wrapped_state"
      using wrapped_inv_later [OF that, of "str_len ?d" c] by simp
    show ?thesis
    proof (cases "ws_line st < max_lines - 1")
      case True
      obtain st' where st': "(if ws_width ?st > wrap_width \<and> ?ix > ws_last_wrap_ix ?st then wrapped_overflow w ?ix (w c) ?st else Some ?st) = Some st'"
          "wrapped_inv text ?ix st'"
        using if_some [where P = "wrapped_inv text ?ix", OF wrapped_overflow_inv [OF inv here(1), of w "w c"] inv] by blast
      show ?thesis unfolding char_indices_from.simps(2) tx(3) wrapped_scan_inner [OF False True st'(1)]
        by (rule IH [OF later [OF st'(2)]])
    next
      case last: False
      let ?st' = "if ws_width ?st + affix_width \<le> wrap_width then ?st\<lparr>ws_truncate_ix := ?ix + len_utf8 c\<rparr> else ?st"
      show ?thesis
      proof (cases "ws_width ?st > wrap_width")
        case True
        then have "\<not> ws_width ?st + affix_width \<le> wrap_width" using assms by simp
        then show ?thesis using True False last inv tx(2) by (auto simp: Let_def wrapped_inv_def)
      next
        case ok: False
        have "wrapped_inv text (str_len ?d) (?st'\<lparr>ws_prev_c := c\<rparr>)"
          using later [OF inv] here(2) by (auto simp: wrapped_inv_def split: option.splits)
        from IH [OF this] show ?thesis unfolding char_indices_from.simps(2) tx(3) wrapped_scan_last [where ix = ?ix and w = w, OF False last ok] .
      qed
    qed
  qed
qed simp

section \<open>Lemmas on the cache\<close>

definition cache_ok :: "(uchar \<Rightarrow> 'w) \<Rightarrow> 'w line_wrapper \<Rightarrow> bool" where
  "cache_ok layout_width self \<longleftrightarrow>
     length (cached_ascii_char_widths self) = 128 \<and>
     (\<forall>c < 128. \<forall>x. cached_ascii_char_widths self ! c = Some x \<longrightarrow> x = layout_width c) \<and>
     (\<forall>c x. cached_other_char_widths self c = Some x \<longrightarrow> x = layout_width c)"

lemma cache_ok_new: "cache_ok layout_width wrapper_new"
  by (simp add: cache_ok_def wrapper_new_def)

lemma cache_ok_width:
  assumes "cache_ok layout_width self"
  shows "\<exists>self'. width_for_char layout_width self c = Some (layout_width c, self') \<and> cache_ok layout_width self'"
proof (cases "c < 128")
  case True
  then have "get_opt (cached_ascii_char_widths self) c = Some (cached_ascii_char_widths self ! c)"
    using assms by (simp add: cache_ok_def get_opt_def)
  then show ?thesis using True assms
    by (cases "cached_ascii_char_widths self ! c") (auto simp: width_for_char_def cache_ok_def Let_def nth_list_update)
next
  case False
  then show ?thesis using assms
    by (cases "cached_other_char_widths self c") (auto simp: width_for_char_def cache_ok_def Let_def)
qed

text \<open>
  What the wrapper relies on: a way to measure one character after the other, with a state of its own, that agrees with a
  function from characters to widths. The loops above take this function instead of the state.
\<close>

fun measure_chars :: "('s \<Rightarrow> uchar \<Rightarrow> ('w \<times> 's) option) \<Rightarrow> 's \<Rightarrow> uchar list \<Rightarrow> ('w list \<times> 's) option" where
  "measure_chars width_for self [] = Some ([], self)"
| "measure_chars width_for self (c # s) = do {
     (x, self) \<leftarrow> width_for self c;
     (xs, self) \<leftarrow> measure_chars width_for self s;
     Some (x # xs, self) }"

locale char_widths =
  fixes ok :: "'s \<Rightarrow> bool" and width_for :: "'s \<Rightarrow> uchar \<Rightarrow> ('w \<times> 's) option" and width :: "uchar \<Rightarrow> 'w"
  assumes measures: "ok self \<Longrightarrow> \<exists>self'. width_for self c = Some (width c, self') \<and> ok self'"
begin

lemma measures_text: "ok self \<Longrightarrow> \<exists>self'. measure_chars width_for self s = Some (map width s, self') \<and> ok self'"
proof (induction s arbitrary: self)
  case (Cons c s)
  obtain self' where one: "width_for self c = Some (width c, self')" "ok self'"
    using measures [OF Cons.prems] by blast
  from Cons.IH [OF one(2)] one(1) show ?case by auto
qed simp

lemma transparent:
  assumes "ok self"
  shows "\<exists>self'. measure_chars width_for self s = Some (map width s, self') \<and> map_option fst (width_for self' c) = Some (width c)"
  using measures_text [OF assms, of s] measures [of _ c] by force

end

interpretation cached: char_widths "cache_ok layout_width" "width_for_char layout_width" layout_width
  by unfold_locales (rule cache_ok_width)

section \<open>Properties\<close>

text \<open>
  The caches are transparent: whatever was measured before with a wrapper, it never panics and measures every
  character as the text system does.
\<close>

theorem width_cache_is_transparent:
  "\<exists>self. measure_chars (width_for_char layout_width) wrapper_new before = Some (map layout_width before, self) \<and>
     map_option fst (width_for_char layout_width self c) = Some (layout_width c)"
  by (rule cached.transparent [OF cache_ok_new])

text \<open>
  Claim C13. Wrapping a line never panics. Its boundaries increase, each is the start of a character or an element of the line and not
  the start of the line, and the indent is at most \<^verbatim>\<open>MAX_INDENT\<close>. Every line that a boundary ends fits the
  width, its last item apart. The hypotheses: widths are not negative, elements are not empty, and the text is one line.
\<close>

theorem wrapped_lines_fit:
  assumes "candidates_ok w (concat (map wrap_boundary_candidates fragments))" "0 \<le> wrap_width"
  shows "\<exists>bs. wrap_line w fragments wrap_width = Some bs \<and>
    lines_ok w wrap_width (concat (map wrap_boundary_candidates fragments)) 0 bs"
  using wrap_all_ok [OF assms(2) wrap_inv_start [OF assms(2)], of w "concat (map wrap_boundary_candidates fragments)"] assms(1)
  by (simp add: wrap_line_def wrap_start_def)

text \<open>The code points of an ASCII string, all one wide.\<close>

definition ascii_text :: "string \<Rightarrow> uchar list" where
  "ascii_text s = map of_char s"

definition unit_width :: "uchar \<Rightarrow> rat" where
  "unit_width c = 1"

theorem wrapped_lines_fit_witness:
  "\<exists>bs. wrap_line unit_width [FText (ascii_text ''aa bb cc''), FElement 2 1] 5 = Some bs"
proof -
  have "candidates_ok unit_width (concat (map wrap_boundary_candidates [FText (ascii_text ''aa bb cc''), FElement 2 1]))"
    by (simp add: candidates_ok_def ascii_text_def unit_width_def candidate_width_def)
  from wrapped_lines_fit [OF this, of 5] show ?thesis by auto
qed

text \<open>
  Truncating keeps the runs in step with the text: whichever side is cut, \<^verbatim>\<open>truncate_line\<close> does not panic on a
  character boundary or on a length, and the lengths of the runs that it returns add up to the length of the text that it returns.
\<close>

theorem truncated_runs_cover_text:
  assumes "runs_len runs = str_len line" "line \<noteq> []" "\<And>c. 0 \<le> w c"
  shows "\<exists>result runs'. truncate_line w line tw affix runs from = Some (result, runs') \<and> runs_len runs' = str_len result"
proof (cases "from")
  case TStart
  show ?thesis
  proof (cases "should_truncate_line w line tw affix from")
    case (Some t)
    then obtain p c s where line: "line = p @ c # s" "t = str_len p" using should_truncate_start TStart by blast
    have "slice_from line (str_len (p @ [c])) = Some s" using slices(2) [of "p @ [c]" s] line(1) by simp
    then have "slice_from line (ceil_char_boundary line (t + 1)) = Some s"
      using ceil_char_boundary_next [of p c s] line by simp
    moreover have "str_len s < runs_len runs" using assms(1) line(1) len_utf8_pos [of c] by simp
    then obtain runs' where "update_runs_after_truncation (affix @ s) affix runs TStart = Some runs'" "runs_len runs' = str_len (affix @ s)"
      using update_runs_len [of "affix @ s" "str_len s" affix runs TStart] by auto
    ultimately show ?thesis using Some by (simp add: truncate_line_def TStart)
  qed (simp add: truncate_line_def TStart assms(1))
next
  case TEnd
  show ?thesis
  proof (cases "should_truncate_line w line tw affix from")
    case (Some t)
    then obtain front r where line: "line = front @ r" "r \<noteq> []" "t = str_len front"
      using should_truncate_end [of w line tw affix t] unfolding TEnd by blast
    let ?front = "trim_end_matches trailing front"
    have "str_len ?front \<le> str_len front" using trim_end_le(2) [of "\<lambda>_. 0 :: rat" trailing front] by simp
    then have "str_len ?front < runs_len runs" using assms(1) line(1,2) by (cases "str_len r") simp_all
    then obtain runs' where "update_runs_after_truncation (?front @ affix) affix runs TEnd = Some runs'" "runs_len runs' = str_len (?front @ affix)"
      using update_runs_len [of "?front @ affix" "str_len ?front" affix runs TEnd] by auto
    moreover have "slice_to line t = Some front" using slices line by simp
    ultimately show ?thesis using Some by (simp add: truncate_line_def TEnd)
  qed (simp add: truncate_line_def TEnd assms(1))
next
  case TMiddle
  show ?thesis
  proof (cases "should_truncate_line_middle w line tw affix")
    case (Some ij)
    obtain i j where ij: "ij = (i, j)" by force
    obtain front r p tail where cut: "line = front @ r" "line = p @ tail" "i = str_len front" "j = str_len p"
        "i < j \<or> i = 0 \<and> j = str_len line"
      using should_truncate_middle [of w line tw affix i j] Some ij by blast
    have "j \<le> str_len line" using cut(2,4) by simp
    moreover have "0 < str_len line" using assms(2) by (cases "str_len line") simp_all
    ultimately have "i < runs_len runs" unfolding assms(1) using cut(5) by linarith
    moreover have "slice_to line i = Some front" unfolding cut(3) cut(1) by (rule slices)
    moreover have "slice_from line j = Some tail" unfolding cut(4) cut(2) by (rule slices)
    moreover have "str_len line = j + str_len tail" using cut(2,4) by simp
    ultimately show ?thesis
      using Some ij TMiddle update_runs_middle_len [of i runs affix j] assms(1) cut(3) by (simp add: truncate_line_def)
  qed (simp add: truncate_line_def TMiddle assms(1))
qed

theorem truncated_runs_cover_text_witness:
  "\<exists>result runs'. truncate_line unit_width (ascii_text ''abcd'') 3 (ascii_text ''~'') [\<lparr>tr_len = 1, tr_style = ()\<rparr>, \<lparr>tr_len = 3, tr_style = ()\<rparr>] TEnd
     = Some (result, runs') \<and> runs_len runs' = str_len result"
  by (rule truncated_runs_cover_text) (simp_all add: ascii_text_def unit_width_def len_utf8_def)

text \<open>
  A truncated text fits. Cutting the end keeps a prefix whose width, with the affix, is below the limit, unless not even one
  character fits; cutting the middle gives at most the limit, unless only the affix is left; cutting the
  start gives less than the limit when the affix alone does.
\<close>

theorem truncated_text_fits:
  assumes "\<And>c. 0 \<le> w c" "truncate_line w line tw affix runs from = Some (result, runs')" "result \<noteq> line"
  shows "(from = TEnd \<longrightarrow> result = affix \<or> text_width w result < tw) \<and>
    (from = TMiddle \<longrightarrow> result = affix \<or> text_width w result \<le> tw) \<and>
    (from = TStart \<longrightarrow> text_width w affix < tw \<longrightarrow> text_width w result < tw)"
proof (intro conjI impI)
  assume f: "from = TEnd"
  then obtain t where t: "should_truncate_line w line tw affix TEnd = Some t"
    using assms(2,3) by (auto simp: truncate_line_def split: option.splits)
  then obtain front r where front: "line = front @ r" "t = str_len front" "front = [] \<or> text_width w front + text_width w affix < tw"
    using should_truncate_end by blast
  have "result = trim_end_matches trailing front @ affix"
  proof -
    have "slice_to line t = Some front" using slices front(1,2) by simp
    then show ?thesis using assms(2) f t by (simp add: truncate_line_def bind_eq_Some_conv)
  qed
  then show "result = affix \<or> text_width w result < tw"
    using front(3) trim_end_le(1) [of w trailing front, OF assms(1)] by (auto simp: trim_end_matches_def)
next
  assume f: "from = TMiddle"
  then obtain i j where ij: "should_truncate_line_middle w line tw affix = Some (i, j)"
    using assms(2,3) by (auto simp: truncate_line_def split: option.splits)
  obtain front r p tail where cut: "line = front @ r" "line = p @ tail" "i = str_len front" "j = str_len p"
      "i < j \<and> text_width w front + text_width w affix + text_width w tail \<le> tw \<or> i = 0 \<and> j = str_len line"
    using should_truncate_middle [OF ij] by blast
  have "slice_to line i = Some front" unfolding cut(3) cut(1) by (rule slices)
  moreover have "slice_from line j = Some tail" unfolding cut(4) cut(2) by (rule slices)
  ultimately have "result = front @ affix @ tail" using assms(2) f ij by (simp add: truncate_line_def)
  moreover have "tail = []" if "j = str_len line" using that cut(2,4) by simp
  ultimately show "result = affix \<or> text_width w result \<le> tw" using cut(3,5) by (auto simp: add.assoc)
next
  assume f: "from = TStart" and fits: "text_width w affix < tw"
  then obtain t where t: "should_truncate_line w line tw affix TStart = Some t"
    using assms(2,3) by (auto simp: truncate_line_def split: option.splits)
  then obtain p c s where line: "line = p @ c # s" "t = str_len p" "text_width w s + text_width w affix < tw"
    using should_truncate_start fits by blast
  have "slice_from line (str_len (p @ [c])) = Some s" using slices(2) [of "p @ [c]" s] line(1) by simp
  then have "slice_from line (ceil_char_boundary line (t + 1)) = Some s"
    using ceil_char_boundary_next [of p c s] line by simp
  then have "result = affix @ s" using assms(2) f t by (auto simp: truncate_line_def bind_eq_Some_conv)
  then show "text_width w result < tw" using line(3) by (simp add: add.commute)
qed

theorem truncated_text_fits_witness:
  "text_width unit_width (ascii_text ''ab~'') < 4 \<and>
   truncate_line unit_width (ascii_text ''ab; efgh'') 5 (ascii_text ''~'') [\<lparr>tr_len = 8, tr_style = ()\<rparr>] TEnd
     = Some (ascii_text ''ab~'', [\<lparr>tr_len = 3, tr_style = ()\<rparr>])"
proof -
  have t: "truncate_line unit_width (ascii_text ''ab; efgh'') 5 (ascii_text ''~'') [\<lparr>tr_len = 8, tr_style = ()\<rparr>] TEnd
     = Some (ascii_text ''ab~'', [\<lparr>tr_len = 3, tr_style = ()\<rparr>])"
    by (simp add: truncate_line_def should_truncate_line_def text_width_def ascii_text_def unit_width_def char_indices_def len_utf8_def
        slice_to_def trim_end_matches_def trailing_def is_whitespace_def is_ascii_punctuation_def update_runs_after_truncation_def)
  have "text_width unit_width (ascii_text ''ab~'') < 5"
    using truncated_text_fits [OF _ t] by (simp add: ascii_text_def unit_width_def)
  then show ?thesis using t by (simp add: text_width_def ascii_text_def unit_width_def)
qed

text \<open>
  Truncating a text to a number of wrapped lines never panics. It returns the text and its runs unchanged, or a prefix of
  the text, without trailing white space and punctuation, followed by the affix, and the lengths of the runs then add up to its length.
\<close>

theorem truncated_wrapped_text:
  assumes "runs_len runs = str_len text" "1 < max_lines" "\<And>c. 0 \<le> w c"
  shows "\<exists>result runs'. truncate_wrapped_line w text wrap_width max_lines affix runs TEnd = Some (result, runs') \<and>
    runs_len runs' = str_len result \<and>
    ((result, runs') = (text, runs) \<or> (\<exists>front rest. text = front @ rest \<and> rest \<noteq> [] \<and> result = trim_end_matches trailing front @ affix))"
proof -
  have "0 \<le> text_width w affix" using assms(3) by (induction affix) simp_all
  moreover have "wrapped_inv text 0 wrapped_start"
    by (simp add: wrapped_inv_def wrapped_start_def) (simp add: char_boundary_def exI [of _ "[]"])
  ultimately obtain r where scan:
      "wrapped_scan w wrap_width max_lines (text_width w affix) text (char_indices text) wrapped_start = Some r"
      "case r of None \<Rightarrow> True | Some t \<Rightarrow> char_boundary text t \<and> t < str_len text"
    using wrapped_scan_ok [of "text_width w affix" "text" "[]" "text" wrapped_start w wrap_width max_lines]
    unfolding char_indices_def by auto
  show ?thesis
  proof (cases r)
    case None
    then show ?thesis using scan(1) assms(1,2) by (simp add: truncate_wrapped_line_def)
  next
    case (Some t)
    then obtain front rest where cut: "text = front @ rest" "t = str_len front" using scan(2) by (auto simp: char_boundary_def)
    then have rest: "rest \<noteq> []" using scan(2) Some by auto
    let ?front = "trim_end_matches trailing front"
    have "str_len ?front \<le> str_len front" using trim_end_le(2) [of "\<lambda>_. 0 :: rat" trailing front] by simp
    then have "str_len ?front < runs_len runs" using assms(1) cut(1) rest by (cases "str_len rest") simp_all
    then obtain runs' where "update_runs_after_truncation (?front @ affix) affix runs TEnd = Some runs'" "runs_len runs' = str_len (?front @ affix)"
      using update_runs_len [of "?front @ affix" "str_len ?front" affix runs TEnd] by auto
    moreover have "slice_to text t = Some front" unfolding cut by (rule slices)
    ultimately have "truncate_wrapped_line w text wrap_width max_lines affix runs TEnd = Some (?front @ affix, runs')"
      using scan(1) Some assms(2) by (simp add: truncate_wrapped_line_def)
    then show ?thesis using \<open>runs_len runs' = _\<close> cut(1) rest by blast
  qed
qed

theorem truncated_wrapped_text_witness:
  "\<exists>result runs'. truncate_wrapped_line unit_width (ascii_text ''ab cd ef'') 3 2 (ascii_text ''~'') [\<lparr>tr_len = 8, tr_style = ()\<rparr>] TEnd
     = Some (result, runs') \<and> runs_len runs' = str_len result"
proof -
  have runs: "runs_len [\<lparr>tr_len = 8, tr_style = ()\<rparr>] = str_len (ascii_text ''ab cd ef'')"
    by (simp add: ascii_text_def len_utf8_def)
  have "0 \<le> unit_width c" for c by (simp add: unit_width_def)
  from truncated_wrapped_text [where max_lines = 2 and w = unit_width and wrap_width = 3 and affix = "ascii_text ''~''", OF runs _ this]
  show ?thesis by auto
qed

text \<open>
  When the affix alone is not narrower than the limit, cutting the start only replaces the first character
  of a text that is too wide by the affix.
\<close>

theorem wide_affix_keeps_text:
  assumes "tw \<le> text_width w affix" "tw < of_int \<lfloor>text_width w (c # line)\<rfloor>" "\<And>c. 0 \<le> w c"
  shows "map_option fst (truncate_line w (c # line) tw affix runs TStart) = Some (affix @ line)"
proof -
  have "should_truncate_line w (c # line) tw affix TStart = Some 0"
    using truncate_scan_wide [where tw = tw and w = w and width = 0 and xs = "rev (char_indices (c # line))" and ?t0.0 = 0,
        OF assms(1,3), unfolded char_indices_widths] assms(2)
    by (simp add: should_truncate_line_def char_indices_def)
  moreover have "slice_from (c # line) (ceil_char_boundary (c # line) 1) = Some line"
    using slices(2) [of "[c]" line] ceil_char_boundary_next [of "[]" c line] by simp
  ultimately show ?thesis by (simp add: truncate_line_def update_runs_after_truncation_def)
qed

theorem wide_affix_keeps_text_witness:
  "map_option fst (truncate_line unit_width (ascii_text ''abcdefgh'') 1 (ascii_text ''~'') ([] :: unit text_run list) TStart) = Some (ascii_text ''~bcdefgh'')"
  using wide_affix_keeps_text [of 1 unit_width "ascii_text ''~''" 97 "ascii_text ''bcdefgh''" "[] :: unit text_run list"]
  by (simp add: ascii_text_def unit_width_def)

text \<open>
  The loop of \<^verbatim>\<open>truncate_wrapped_line\<close> does not find the lines of \<^verbatim>\<open>wrap_line\<close>: at a boundary, \<^verbatim>\<open>wrap_line\<close> leaves the previous
  character as it was. A text that \<^verbatim>\<open>wrap_line\<close> puts on three lines is cut when three lines are allowed.
\<close>

theorem wrapping_and_truncating_differ:
  "map_option (map b_ix) (wrap_line unit_width [FText (ascii_text ''aaaa bbbb cc'')] 4) = Some [4, 8] \<and>
   map_option fst (truncate_wrapped_line unit_width (ascii_text ''aaaa bbbb cc'') 4 3 (ascii_text ''~'') ([] :: unit text_run list) TEnd)
     = Some (ascii_text ''aaaa~'')"
  by (simp add: wrap_line_def wrap_all.simps wrap_start_def wrap_here_def mark_candidate_def is_word_char_def
      truncate_wrapped_line_def wrapped_start_def wrapped_candidate_def wrapped_overflow_def MAX_INDENT_def
      text_width_def ascii_text_def unit_width_def char_indices_def len_utf8_def slice_to_def trim_end_matches_def
      trailing_def is_whitespace_def is_ascii_punctuation_def update_runs_after_truncation_def assert_that_def)

end
