(* ===== verification/FilterCursor.thy ===== *)
theory FilterCursor
  imports CursorIter
begin

text \<open>
  Cursors with a filter (\<^verbatim>\<open>FilterCursor\<close> of \<^verbatim>\<open>crates/sum_tree/src/cursor.rs\<close>), a client of the two searches, and
  tuples of dimensions (\<^verbatim>\<open>Dimensions\<close> of \<^verbatim>\<open>crates/sum_tree/src/sum_tree.rs\<close>), which move along several dimensions at once.
\<close>

section \<open>Tuples of dimensions\<close>

definition dimensions ::
    "('s, 'd1) dimension \<Rightarrow> ('s, 'd2) dimension \<Rightarrow> ('s, 'd3) dimension \<Rightarrow> ('s, 'd1 \<times> 'd2 \<times> 'd3) dimension" where
  "dimensions M N L =
     \<lparr>dim_zero = (dim_zero M, dim_zero N, dim_zero L),
      dim_add = (\<lambda>(d1, d2, d3) s. (dim_add M d1 s, dim_add N d2 s, dim_add L d3 s))\<rparr>"

text \<open>A target in the first dimension is a target in the tuple.\<close>

definition first_target :: "('d1 \<Rightarrow> ordering) \<Rightarrow> 'd1 \<times> 'd2 \<times> 'd3 \<Rightarrow> ordering" where
  "first_target cmp location = (case location of (d1, d2, d3) \<Rightarrow> cmp d1)"

section \<open>The filtered cursor\<close>

record ('a, 's, 'd) filter_cursor =
  fc_cursor :: "('a, 's, 'd) cursor"
  fc_filter_node :: "'s \<Rightarrow> bool"

definition filter_new :: "('s, 'd) dimension \<Rightarrow> ('a, 's) node \<Rightarrow> ('s \<Rightarrow> bool) \<Rightarrow> ('a, 's, 'd) filter_cursor" where
  "filter_new M t filter_node = \<lparr>fc_cursor = cursor_new M t, fc_filter_node = filter_node\<rparr>"

definition filter_start :: "('a, 's, 'd) filter_cursor \<Rightarrow> 'd" where
  "filter_start f = c_position (fc_cursor f)"

definition filter_end :: "('s, 'd) dimension \<Rightarrow> ('a, 's, 'd) filter_cursor \<Rightarrow> 'd option" where
  "filter_end M f = cursor_end M (fc_cursor f)"

definition filter_item :: "('a, 's, 'd) filter_cursor \<Rightarrow> 'a option option" where
  "filter_item f = cursor_item (fc_cursor f)"

definition filter_item_summary :: "('a, 's, 'd) filter_cursor \<Rightarrow> 's option option" where
  "filter_item_summary f = cursor_item_summary (fc_cursor f)"

definition filter_next :: "('s, 'd) dimension \<Rightarrow> ('a, 's, 'd) filter_cursor \<Rightarrow> ('a, 's, 'd) filter_cursor option" where
  "filter_next M f = do { c \<leftarrow> search_forward M (fc_filter_node f) (fc_cursor f); Some (f\<lparr>fc_cursor := c\<rparr>) }"

definition filter_prev :: "('s, 'd) dimension \<Rightarrow> ('a, 's, 'd) filter_cursor \<Rightarrow> ('a, 's, 'd) filter_cursor option" where
  "filter_prev M f = do { c \<leftarrow> search_backward M (fc_filter_node f) (fc_cursor f); Some (f\<lparr>fc_cursor := c\<rparr>) }"

definition filter_iter_next ::
    "('s, 'd) dimension \<Rightarrow> ('a, 's, 'd) filter_cursor \<Rightarrow> (('a, 's, 'd) filter_cursor \<times> 'a option) option" where
  "filter_iter_next M f = do {
     f \<leftarrow> (if \<not> c_did_seek (fc_cursor f) then filter_next M f else Some f);
     x \<leftarrow> filter_item f;
     (case x of
        Some item \<Rightarrow> do { c \<leftarrow> search_forward M (fc_filter_node f) (fc_cursor f); Some (f\<lparr>fc_cursor := c\<rparr>, Some item) }
      | None \<Rightarrow> Some (f, None)) }"

text \<open>Draining the iterator.\<close>

partial_function (option) filter_collect :: "('s, 'd) dimension \<Rightarrow> ('a, 's, 'd) filter_cursor \<Rightarrow> 'a list option" where
  "filter_collect M f = do {
     (f', x) \<leftarrow> filter_iter_next M f;
     (case x of
        None \<Rightarrow> Some []
      | Some y \<Rightarrow> do { ys \<leftarrow> filter_collect M f'; Some (y # ys) }) }"

declare filter_collect.simps [code]

section \<open>Lemmas\<close>

lemma dimensions_laws:
  assumes "dimension_laws D M" "dimension_laws D N" "dimension_laws D L"
  shows "dimension_laws D (dimensions M N L)"
proof -
  have D: "summary_laws D" using assms(1) by (simp add: dimension_laws_def)
  show ?thesis
    using assms by (intro dimension_laws.intro [OF D] dimension_laws_axioms.intro)
      (auto simp: dimensions_def dimension_laws.dim_add_add split: prod.split)
qed

lemma dimensions_pos:
  "pos_after (dimensions M N L) (d1, d2, d3) ss = (pos_after M d1 ss, pos_after N d2 ss, pos_after L d3 ss)"
  by (induction ss arbitrary: d1 d2 d3) (simp_all add: dimensions_def)

lemma dimensions_zero: "dim_zero (dimensions M N L) = (dim_zero M, dim_zero N, dim_zero L)"
  by (simp add: dimensions_def)

lemma seekable_first_target:
  "seekable (dimensions M N L) (first_target cmp) (d1, d2, d3) ss = seekable M cmp d1 ss"
proof -
  have "map fst (ends (dimensions M N L) (d1, d2, d3) ss) = ends M d1 ss" for d1 d2 d3
    by (induction ss arbitrary: d1 d2 d3) (simp_all add: dimensions_def)
  from this [of d1 d2 d3, symmetric] show ?thesis
    by (simp add: seekable_def sorted_wrt_map first_target_def case_prod_unfold)
qed

lemma filter_iter_next_cursor:
  "filter_iter_next M f =
     map_option (\<lambda>(c, x). (f\<lparr>fc_cursor := c\<rparr>, x)) (cursor_iter_next M (fc_filter_node f) (fc_cursor f))"
  by (cases "search_forward M (fc_filter_node f) (fc_cursor f)")
    (auto simp: filter_iter_next_def cursor_iter_next_def filter_next_def filter_item_def split: Option.bind_splits option.split)

context dimension_laws
begin

lemma filter_collect_at:
  assumes "wf_tree D t" "stack_fits t" "filter_sound D P" "fc_filter_node f = P" "cursor_at D M t (fc_cursor f) i"
  shows "filter_collect M f = Some (case drop i (flatten t) of [] \<Rightarrow> []
     | x # ys \<Rightarrow> x # filter (\<lambda>x. P (item_summary D x)) ys)"
  using assms(4,5)
proof (induction "length (flatten t) - i" arbitrary: i f rule: less_induct)
  case less
  let ?j = "Suc i + first_hit D P (drop (Suc i) (flatten t))"
  obtain c' where c': "cursor_iter_next M P (fc_cursor f) = Some (c', get_opt (flatten t) i)"
    "cursor_at D M t c' (if i < length (flatten t) then ?j else i)"
    using cursor_iter_next_at [OF assms(1-3) less.prems(2)] by blast
  show ?case
  proof (cases "i < length (flatten t)")
    case True
    have "filter_collect M (f\<lparr>fc_cursor := c'\<rparr>) = Some (case drop ?j (flatten t) of [] \<Rightarrow> []
       | x # ys \<Rightarrow> x # filter (\<lambda>x. P (item_summary D x)) ys)"
      using less.hyps [of ?j "f\<lparr>fc_cursor := c'\<rparr>"] True c'(2) less.prems(1) by simp
    moreover have "drop ?j (flatten t) = drop (first_hit D P (drop (Suc i) (flatten t))) (drop (Suc i) (flatten t))"
      by (simp add: add.commute)
    ultimately show ?thesis
      using True c'(1) filter_first_hit [of P "drop (Suc i) (flatten t)"]
      by (simp add: filter_collect.simps [of M f] filter_iter_next_cursor less.prems(1) flip: Cons_nth_drop_Suc)
  next
    case False
    then show ?thesis using c'(1) by (simp add: filter_collect.simps [of M f] filter_iter_next_cursor less.prems(1))
  qed
qed

lemma filter_collect_ok:
  assumes "wf_tree D t" "stack_fits t" "filter_sound D P"
  shows "filter_collect M (filter_new M t P) = Some (filter (\<lambda>x. P (item_summary D x)) (flatten t))"
proof -
  let ?f = "filter_new M t P"
  obtain c where c: "search_forward M P (cursor_new M t) = Some c" "cursor_at D M t c (first_hit D P (flatten t))"
    using search_forward_before_ok [OF assms cursor_new_before [OF assms(1)]] by blast
  then have seek: "c_did_seek c" "\<not> c_did_seek (cursor_new M t)" by (simp_all add: cursor_at_def cursor_new_def)
  have "filter_iter_next M ?f = filter_iter_next M (?f\<lparr>fc_cursor := c\<rparr>)"
    using c(1) seek by (simp add: filter_iter_next_def filter_next_def filter_new_def)
  then have "filter_collect M ?f = filter_collect M (?f\<lparr>fc_cursor := c\<rparr>)"
    by (simp only: filter_collect.simps [of M ?f] filter_collect.simps [of M "?f\<lparr>fc_cursor := c\<rparr>"])
  also have "\<dots> = Some (case drop (first_hit D P (flatten t)) (flatten t) of [] \<Rightarrow> []
     | x # ys \<Rightarrow> x # filter (\<lambda>x. P (item_summary D x)) ys)"
    using filter_collect_at [OF assms, of "?f\<lparr>fc_cursor := c\<rparr>"] c(2) by (simp add: filter_new_def)
  finally show ?thesis using filter_first_hit [of P "flatten t"] by simp
qed

end

section \<open>Properties\<close>

text \<open>
  A filtered cursor, drained from the start, ends, does not panic, and yields exactly the items
  that its filter accepts, in their order, although it passes over whole subtrees.
\<close>

theorem filter_cursor_enumerates:
  assumes "dimension_laws D M" "wf_tree D t" "stack_fits t" "filter_sound D P"
  shows "filter_collect M (filter_new M t P) = Some (filter (\<lambda>x. P (item_summary D x)) (flatten t))"
  by (rule dimension_laws.filter_collect_ok [OF assms])

theorem filter_cursor_enumerates_witness:
  "filter_collect count_dim (filter_new count_dim sample_tree (\<lambda>n. 0 < n)) = Some [10, 20, 30]"
proof -
  have "filter_sound count_trait (\<lambda>n. 0 < n)"
    unfolding filter_sound_def items_summary_count by (auto simp: length_pos_if_in_set)
  from filter_cursor_enumerates [OF counting.dimension_laws_axioms sample_tree_ok this]
  show ?thesis by (simp add: count_trait_def)
qed

end
