(* ===== verification/ListState.thy ===== *)
theory ListState
  imports CursorSeek FilterCursor Geometry Complex_Main
begin

text \<open>
  The state of a list of items of different heights (\<^verbatim>\<open>ListState\<close> of \<^verbatim>\<open>crates/gpui/src/elements/list.rs\<close>): a client of the sum
  tree that seeks by the number of items and by their heights. The list scrolls to an item and an offset
  inside it; items are measured when they are laid out. Pixels are elements of an ordered field, focus handles and the
  scroll handler are opaque.
\<close>

section \<open>Items and their summaries\<close>

datatype ('u, 'f) list_item = Unmeasured "'u size2 option" "'f option" | Measured "'u size2" "'f option"

fun li_size :: "('u, 'f) list_item \<Rightarrow> 'u size2 option" where
  "li_size (Measured sz focus_handle) = Some sz"
| "li_size (Unmeasured size_hint focus_handle) = None"

fun li_size_hint :: "('u, 'f) list_item \<Rightarrow> 'u size2 option" where
  "li_size_hint (Measured sz focus_handle) = Some sz"
| "li_size_hint (Unmeasured size_hint focus_handle) = size_hint"

fun li_focus_handle :: "('u, 'f) list_item \<Rightarrow> 'f option" where
  "li_focus_handle (Unmeasured size_hint focus_handle) = focus_handle"
| "li_focus_handle (Measured sz focus_handle) = focus_handle"

text \<open>\<^verbatim>\<open>FocusHandle::contains_focused\<close> asks the window; it is the argument.\<close>

definition contains_focused :: "('f \<Rightarrow> bool) \<Rightarrow> ('u, 'f) list_item \<Rightarrow> bool" where
  "contains_focused handle_contains_focused item =
     (case li_focus_handle item of None \<Rightarrow> False | Some handle \<Rightarrow> handle_contains_focused handle)"

record 'u list_item_summary =
  lis_count :: nat
  lis_rendered_count :: nat
  lis_unrendered_count :: nat
  lis_height :: 'u
  lis_has_focus_handles :: bool
  lis_has_unknown_height :: bool

fun li_summary :: "('u::zero, 'f) list_item \<Rightarrow> 'u list_item_summary" where
  "li_summary (Unmeasured size_hint focus_handle) =
     \<lparr>lis_count = 1, lis_rendered_count = 0, lis_unrendered_count = 1,
      lis_height = (case size_hint of Some sz \<Rightarrow> s_height sz | None \<Rightarrow> 0),
      lis_has_focus_handles = (focus_handle \<noteq> None), lis_has_unknown_height = (size_hint = None)\<rparr>"
| "li_summary (Measured sz focus_handle) =
     \<lparr>lis_count = 1, lis_rendered_count = 1, lis_unrendered_count = 0, lis_height = s_height sz,
      lis_has_focus_handles = (focus_handle \<noteq> None), lis_has_unknown_height = False\<rparr>"

definition list_summary_zero :: "'u::zero list_item_summary" where
  "list_summary_zero =
     \<lparr>lis_count = 0, lis_rendered_count = 0, lis_unrendered_count = 0, lis_height = 0,
      lis_has_focus_handles = False, lis_has_unknown_height = False\<rparr>"

definition list_add_summary :: "'u::plus list_item_summary \<Rightarrow> 'u list_item_summary \<Rightarrow> 'u list_item_summary" where
  "list_add_summary a b =
     \<lparr>lis_count = lis_count a + lis_count b, lis_rendered_count = lis_rendered_count a + lis_rendered_count b,
      lis_unrendered_count = lis_unrendered_count a + lis_unrendered_count b, lis_height = lis_height a + lis_height b,
      lis_has_focus_handles = (lis_has_focus_handles a \<or> lis_has_focus_handles b),
      lis_has_unknown_height = (lis_has_unknown_height a \<or> lis_has_unknown_height b)\<rparr>"

definition list_trait :: "(('u::monoid_add, 'f) list_item, 'u list_item_summary) item_trait" where
  "list_trait = \<lparr>item_summary = li_summary, summary_zero = list_summary_zero, add_summary = list_add_summary\<rparr>"

text \<open>The dimensions: the count, the height, and the summary itself; and the targets of seeks in the summary.\<close>

definition list_count_dim :: "('u list_item_summary, nat) dimension" where
  "list_count_dim = \<lparr>dim_zero = 0, dim_add = (\<lambda>n s. n + lis_count s)\<rparr>"

definition list_height_dim :: "('u::monoid_add list_item_summary, 'u) dimension" where
  "list_height_dim = \<lparr>dim_zero = 0, dim_add = (\<lambda>h s. h + lis_height s)\<rparr>"

text \<open>Every summary type is a dimension of itself.\<close>

definition self_dimension :: "'s \<Rightarrow> ('s \<Rightarrow> 's \<Rightarrow> 's) \<Rightarrow> ('s, 's) dimension" where
  "self_dimension zero add = \<lparr>dim_zero = zero, dim_add = add\<rparr>"

abbreviation list_summary_dim :: "('u::monoid_add list_item_summary, 'u list_item_summary) dimension" where
  "list_summary_dim \<equiv> self_dimension list_summary_zero list_add_summary"

definition count_target :: "nat \<Rightarrow> 'u list_item_summary \<Rightarrow> ordering" where
  "count_target n s = ord_cmp n (lis_count s)"

definition height_target :: "'u::linorder \<Rightarrow> 'u list_item_summary \<Rightarrow> ordering" where
  "height_target h s = ord_cmp h (lis_height s)"

section \<open>The state\<close>

record 'u list_offset =
  lo_item_ix :: nat
  lo_offset_in_item :: 'u

record 'u pending_scroll_fraction =
  psf_item_ix :: nat
  psf_fraction :: 'u

datatype 'u pending_scroll = Absolute nat 'u | Proportional "'u pending_scroll_fraction"

datatype scroll_anchor = AnchorAbsolute | AnchorProportional

datatype follow_mode = ModeNormal | ModeTail

datatype follow_state = FollowNormal | FollowTail bool

definition is_following :: "follow_state \<Rightarrow> bool" where
  "is_following s = (s = FollowTail True)"

definition has_stopped_following :: "follow_state \<Rightarrow> bool" where
  "has_stopped_following s = (s = FollowTail False)"

definition start_following :: "follow_state \<Rightarrow> follow_state" where
  "start_following s = (if s = FollowTail False then FollowTail True else s)"

definition stop_following :: "follow_state \<Rightarrow> follow_state" where
  "stop_following s = (if s = FollowTail True then FollowTail False else s)"

datatype list_alignment = AlignTop | AlignBottom

datatype measuring_behavior = Measure bool | Visible

fun measuring_reset :: "measuring_behavior \<Rightarrow> measuring_behavior" where
  "measuring_reset (Measure has_measured) = Measure False"
| "measuring_reset Visible = Visible"

record ('u, 'f, 'h) list_state =
  ls_last_layout_bounds :: "'u bounds option"
  ls_last_padding :: "'u edges option"
  ls_items :: "(('u, 'f) list_item, 'u list_item_summary) node"
  ls_logical_scroll_top :: "'u list_offset option"
  ls_alignment :: list_alignment
  ls_overdraw :: 'u
  ls_reset :: bool
  ls_scroll_handler :: "'h option"
  ls_scrollbar_drag_start_height :: "'u option"
  ls_measuring_behavior :: measuring_behavior
  ls_pending_scroll :: "'u pending_scroll option"
  ls_follow_state :: follow_state

abbreviation items_total :: "('u, 'f, 'h) list_state \<Rightarrow> 'u list_item_summary" where
  "items_total st \<equiv> node_summary (ls_items st)"

text \<open>\<^verbatim>\<open>Default\<close> of bounds and edges.\<close>

definition bounds_default :: "'u::zero bounds" where
  "bounds_default = \<lparr>bd_origin = \<lparr>p_x = 0, p_y = 0\<rparr>, bd_size = \<lparr>s_width = 0, s_height = 0\<rparr>\<rparr>"

definition edges_default :: "'u::zero edges" where
  "edges_default = \<lparr>e_top = 0, e_right = 0, e_bottom = 0, e_left = 0\<rparr>"

definition unwrap_or :: "'a option \<Rightarrow> 'a \<Rightarrow> 'a" where
  "unwrap_or x d = (case x of None \<Rightarrow> d | Some y \<Rightarrow> y)"

section \<open>Changing the items\<close>

definition splice_focusable ::
  "('u::linordered_field, 'f, 'h) list_state \<Rightarrow> nat \<times> nat \<Rightarrow> 'f option list \<Rightarrow> ('u, 'f, 'h) list_state option" where
  "splice_focusable st old_range focus_handles = do {
     let (start, end') = old_range;
     (old_items, new_items) \<leftarrow> cursor_slice list_trait list_count_dim (ord_cmp start) Right (cursor_new list_count_dim (ls_items st));
     (old_items, _) \<leftarrow> cursor_seek_forward list_count_dim (ord_cmp end') Right old_items;
     let spliced_count = length focus_handles;
     new_items \<leftarrow> extend_tree list_trait new_items (map (Unmeasured None) focus_handles);
     (_, suffix) \<leftarrow> cursor_suffix list_trait list_count_dim old_items;
     new_items \<leftarrow> append_tree list_trait new_items suffix;
     scroll_top \<leftarrow>
       (case ls_logical_scroll_top st of
          None \<Rightarrow> Some None
        | Some ofs \<Rightarrow>
            (if start \<le> lo_item_ix ofs \<and> lo_item_ix ofs < end'
             then Some (Some (ofs\<lparr>lo_item_ix := start, lo_offset_in_item := 0\<rparr>))
             else if end' \<le> lo_item_ix ofs then do {
               assert_that (start \<le> end' \<and> end' - start \<le> lo_item_ix ofs);
               Some (Some (ofs\<lparr>lo_item_ix := lo_item_ix ofs - (end' - start) + spliced_count\<rparr>)) }
             else Some (Some ofs)));
     Some (st\<lparr>ls_items := new_items, ls_logical_scroll_top := scroll_top\<rparr>) }"

definition splice :: "('u::linordered_field, 'f, 'h) list_state \<Rightarrow> nat \<times> nat \<Rightarrow> nat \<Rightarrow> ('u, 'f, 'h) list_state option" where
  "splice st old_range count = splice_focusable st old_range (replicate count None)"

definition list_new :: "nat \<Rightarrow> list_alignment \<Rightarrow> 'u::linordered_field \<Rightarrow> ('u, 'f, 'h) list_state option" where
  "list_new item_count alignment overdraw =
     splice
       \<lparr>ls_last_layout_bounds = None, ls_last_padding = None, ls_items = new_tree list_trait, ls_logical_scroll_top = None,
        ls_alignment = alignment, ls_overdraw = overdraw, ls_reset = False, ls_scroll_handler = None,
        ls_scrollbar_drag_start_height = None, ls_measuring_behavior = Visible, ls_pending_scroll = None,
        ls_follow_state = FollowNormal\<rparr>
       (0, 0) item_count"

definition measure_all :: "('u, 'f, 'h) list_state \<Rightarrow> ('u, 'f, 'h) list_state" where
  "measure_all st = st\<lparr>ls_measuring_behavior := Measure False\<rparr>"

definition apply_uniform_item_height :: "('u::linordered_field, 'f, 'h) list_state \<Rightarrow> 'u \<Rightarrow> ('u, 'f, 'h) list_state option" where
  "apply_uniform_item_height st height = do {
     let size_hint = \<lparr>s_width = 0, s_height = height\<rparr>;
     items \<leftarrow> iter_collect (ls_items st) [];
     let new_items = map (\<lambda>item. Unmeasured (Some (unwrap_or (li_size_hint item) size_hint)) (li_focus_handle item)) items;
     tree \<leftarrow> extend_tree list_trait (new_tree list_trait) new_items;
     Some (st\<lparr>ls_items := tree\<rparr>) }"

definition list_reset :: "('u::linordered_field, 'f, 'h) list_state \<Rightarrow> nat \<Rightarrow> ('u, 'f, 'h) list_state option" where
  "list_reset st element_count =
     (let st = st\<lparr>ls_reset := True, ls_measuring_behavior := measuring_reset (ls_measuring_behavior st),
                  ls_logical_scroll_top := None, ls_pending_scroll := None, ls_scrollbar_drag_start_height := None\<rparr>;
          old_count = lis_count (items_total st)
      in splice st (0, old_count) element_count)"

definition reset_with_uniform_height ::
  "('u::linordered_field, 'f, 'h) list_state \<Rightarrow> nat \<Rightarrow> 'u \<Rightarrow> ('u, 'f, 'h) list_state option" where
  "reset_with_uniform_height st element_count height = do {
     st \<leftarrow> list_reset st element_count;
     apply_uniform_item_height st height }"

definition with_uniform_item_height :: "('u::linordered_field, 'f, 'h) list_state \<Rightarrow> 'u \<Rightarrow> ('u, 'f, 'h) list_state option" where
  "with_uniform_item_height st height = apply_uniform_item_height st height"

definition set_scroll_handler :: "('u, 'f, 'h) list_state \<Rightarrow> 'h \<Rightarrow> ('u, 'f, 'h) list_state" where
  "set_scroll_handler st handler = st\<lparr>ls_scroll_handler := Some handler\<rparr>"

definition clamp01 :: "'u::linordered_field \<Rightarrow> 'u" where
  "clamp01 x = (if x < 0 then 0 else if x > 1 then 1 else x)"

definition proportional_anchor ::
  "('u::linordered_field, 'f, 'h) list_state \<Rightarrow> 'u list_offset \<Rightarrow> 'u pending_scroll option option" where
  "proportional_anchor st scroll_top = do {
     (cursor, _) \<leftarrow> cursor_seek list_count_dim (ord_cmp (lo_item_ix scroll_top)) Right (cursor_new list_count_dim (ls_items st));
     item \<leftarrow> cursor_item cursor;
     Some
       (case Option.bind item li_size of
          Some sz \<Rightarrow>
            Some (Proportional
              \<lparr>psf_item_ix = lo_item_ix scroll_top,
               psf_fraction = (if s_height sz > 0 then clamp01 (lo_offset_in_item scroll_top / s_height sz) else 0)\<rparr>)
        | None \<Rightarrow> ls_pending_scroll st) }"

definition remeasure_items_with_scroll_anchor ::
  "('u::linordered_field, 'f, 'h) list_state \<Rightarrow> nat \<times> nat \<Rightarrow> scroll_anchor \<Rightarrow> ('u, 'f, 'h) list_state option" where
  "remeasure_items_with_scroll_anchor st rng scroll_anchor = do {
     let (start, end') = rng;
     st \<leftarrow>
       (case ls_logical_scroll_top st of
          None \<Rightarrow> Some st
        | Some scroll_top \<Rightarrow>
            (if start \<le> lo_item_ix scroll_top \<and> lo_item_ix scroll_top < end' then do {
               pending \<leftarrow>
                 (case scroll_anchor of
                    AnchorAbsolute \<Rightarrow> Some (Some (Absolute (lo_item_ix scroll_top) (lo_offset_in_item scroll_top)))
                  | AnchorProportional \<Rightarrow> proportional_anchor st scroll_top);
               Some (st\<lparr>ls_pending_scroll := pending\<rparr>) }
             else Some st));
     (cursor, new_items) \<leftarrow> cursor_slice list_trait list_count_dim (ord_cmp start) Right (cursor_new list_count_dim (ls_items st));
     (cursor, invalidated) \<leftarrow> cursor_slice list_trait list_count_dim (ord_cmp end') Right cursor;
     items \<leftarrow> iter_collect invalidated [];
     new_items \<leftarrow> extend_tree list_trait new_items (map (\<lambda>item. Unmeasured (li_size_hint item) (li_focus_handle item)) items);
     (_, suffix) \<leftarrow> cursor_suffix list_trait list_count_dim cursor;
     new_items \<leftarrow> append_tree list_trait new_items suffix;
     Some (st\<lparr>ls_items := new_items, ls_measuring_behavior := measuring_reset (ls_measuring_behavior st)\<rparr>) }"

definition item_count :: "('u, 'f, 'h) list_state \<Rightarrow> nat" where
  "item_count st = lis_count (items_total st)"

definition remeasure :: "('u::linordered_field, 'f, 'h) list_state \<Rightarrow> ('u, 'f, 'h) list_state option" where
  "remeasure st = remeasure_items_with_scroll_anchor st (0, item_count st) AnchorProportional"

definition remeasure_items :: "('u::linordered_field, 'f, 'h) list_state \<Rightarrow> nat \<times> nat \<Rightarrow> ('u, 'f, 'h) list_state option" where
  "remeasure_items st rng = remeasure_items_with_scroll_anchor st rng AnchorAbsolute"

section \<open>Scrolling\<close>

definition logical_scroll_top :: "('u::zero, 'f, 'h) list_state \<Rightarrow> 'u list_offset" where
  "logical_scroll_top st =
     (case ls_logical_scroll_top st of
        Some ofs \<Rightarrow> ofs
      | None \<Rightarrow>
          (case ls_alignment st of
             AlignTop \<Rightarrow> \<lparr>lo_item_ix = 0, lo_offset_in_item = 0\<rparr>
           | AlignBottom \<Rightarrow> \<lparr>lo_item_ix = lis_count (items_total st), lo_offset_in_item = 0\<rparr>))"

definition scroll_top_of :: "('u::linordered_field, 'f, 'h) list_state \<Rightarrow> 'u list_offset \<Rightarrow> 'u" where
  "scroll_top_of st ofs =
     (case find_tree list_summary_dim (count_target (lo_item_ix ofs)) Right (ls_items st) of
        (start, _) \<Rightarrow> lis_height start + lo_offset_in_item ofs)"

definition is_scrolled_to_end :: "('u::linordered_field, 'f, 'h) list_state \<Rightarrow> bool option" where
  "is_scrolled_to_end st = do {
     bounds \<leftarrow> ls_last_layout_bounds st;
     let summary = items_total st;
     if lis_has_unknown_height summary then None
     else
       (let padding = unwrap_or (ls_last_padding st) edges_default;
            content_height = lis_height summary + e_top padding + e_bottom padding;
            scroll_max = max (content_height - s_height (bd_size bounds)) 0
        in if scroll_max \<le> 0 then None
           else Some (scroll_top_of st (logical_scroll_top st) \<ge> scroll_max)) }"

definition rebase_pending_scroll ::
  "('u::linordered_field, 'f, 'h) list_state \<Rightarrow> 'u list_offset \<Rightarrow> ('u, 'f, 'h) list_state option" where
  "rebase_pending_scroll st scroll_top =
     (case ls_pending_scroll st of
        None \<Rightarrow> Some st
      | Some pending \<Rightarrow>
          (let st = st\<lparr>ls_pending_scroll := None\<rparr>
           in if lo_item_ix scroll_top \<ge> lis_count (items_total st) then Some st
              else
                (case pending of
                   Absolute _ _ \<Rightarrow> Some (st\<lparr>ls_pending_scroll := Some (Absolute (lo_item_ix scroll_top) (lo_offset_in_item scroll_top))\<rparr>)
                 | Proportional _ \<Rightarrow> do {
                     (cursor, _) \<leftarrow> cursor_seek list_count_dim (ord_cmp (lo_item_ix scroll_top)) Right (cursor_new list_count_dim (ls_items st));
                     item \<leftarrow> cursor_item cursor;
                     Some (st\<lparr>ls_pending_scroll :=
                       (case Option.bind item li_size_hint of
                          None \<Rightarrow> None
                        | Some sz \<Rightarrow>
                            (if s_height sz > 0
                             then Some (Proportional \<lparr>psf_item_ix = lo_item_ix scroll_top,
                                    psf_fraction = clamp01 (lo_offset_in_item scroll_top / s_height sz)\<rparr>)
                             else None))\<rparr>) })))"

text \<open>The two assignments that end most operations.\<close>

definition set_scroll_top :: "('u::linordered_field, 'f, 'h) list_state \<Rightarrow> 'u list_offset \<Rightarrow> ('u, 'f, 'h) list_state option" where
  "set_scroll_top st scroll_top = do {
     st \<leftarrow> rebase_pending_scroll st scroll_top;
     Some (st\<lparr>ls_logical_scroll_top := Some scroll_top\<rparr>) }"

definition scroll_by :: "('u::linordered_field, 'f, 'h) list_state \<Rightarrow> 'u \<Rightarrow> ('u, 'f, 'h) list_state option" where
  "scroll_by st distance =
     (if distance = 0 then Some st
      else do {
        let current_offset = logical_scroll_top st;
        let st = (if distance < 0 then st\<lparr>ls_follow_state := stop_following (ls_follow_state st)\<rparr> else st);
        (cursor, _) \<leftarrow> cursor_seek list_summary_dim (count_target (lo_item_ix current_offset)) Right (cursor_new list_summary_dim (ls_items st));
        let start_pixel_offset = lis_height (c_position cursor) + lo_offset_in_item current_offset;
        let new_pixel_offset = max (start_pixel_offset + distance) 0;
        (cursor, _) \<leftarrow>
          (if new_pixel_offset > start_pixel_offset
           then cursor_seek_forward list_summary_dim (height_target new_pixel_offset) Right cursor
           else cursor_seek list_summary_dim (height_target new_pixel_offset) Right cursor);
        set_scroll_top st
          \<lparr>lo_item_ix = lis_count (c_position cursor), lo_offset_in_item = new_pixel_offset - lis_height (c_position cursor)\<rparr> })"

definition scroll_to_end :: "('u::linordered_field, 'f, 'h) list_state \<Rightarrow> ('u, 'f, 'h) list_state" where
  "scroll_to_end st =
     st\<lparr>ls_pending_scroll := None,
        ls_logical_scroll_top := Some \<lparr>lo_item_ix = lis_count (items_total st), lo_offset_in_item = 0\<rparr>\<rparr>"

fun set_follow_mode :: "('u::linordered_field, 'f, 'h) list_state \<Rightarrow> follow_mode \<Rightarrow> ('u, 'f, 'h) list_state" where
  "set_follow_mode st ModeNormal = st\<lparr>ls_follow_state := FollowNormal\<rparr>"
| "set_follow_mode st ModeTail =
     st\<lparr>ls_follow_state := FollowTail True,
        ls_logical_scroll_top := Some \<lparr>lo_item_ix = lis_count (items_total st), lo_offset_in_item = 0\<rparr>\<rparr>"

definition pause_following_tail :: "('u, 'f, 'h) list_state \<Rightarrow> ('u, 'f, 'h) list_state" where
  "pause_following_tail st = st\<lparr>ls_follow_state := stop_following (ls_follow_state st)\<rparr>"

definition is_following_tail :: "('u, 'f, 'h) list_state \<Rightarrow> bool" where
  "is_following_tail st = (ls_follow_state st = FollowTail True)"

definition scroll_to :: "('u::linordered_field, 'f, 'h) list_state \<Rightarrow> 'u list_offset \<Rightarrow> ('u, 'f, 'h) list_state option" where
  "scroll_to st scroll_top =
     (let item_count = lis_count (items_total st);
          scroll_top =
            (if lo_item_ix scroll_top \<ge> item_count then scroll_top\<lparr>lo_item_ix := item_count, lo_offset_in_item := 0\<rparr> else scroll_top);
          st = (if lo_item_ix scroll_top < item_count then st\<lparr>ls_follow_state := stop_following (ls_follow_state st)\<rparr> else st)
      in set_scroll_top st scroll_top)"

definition scroll_to_reveal_item :: "('u::linordered_field, 'f, 'h) list_state \<Rightarrow> nat \<Rightarrow> ('u, 'f, 'h) list_state option" where
  "scroll_to_reveal_item st ix = do {
     let scroll_top = logical_scroll_top st;
     let height = (case ls_last_layout_bounds st of None \<Rightarrow> 0 | Some bounds \<Rightarrow> s_height (bd_size bounds));
     let padding = unwrap_or (ls_last_padding st) edges_default;
     scroll_top \<leftarrow>
       (if ix \<le> lo_item_ix scroll_top then Some (scroll_top\<lparr>lo_item_ix := ix, lo_offset_in_item := 0\<rparr>)
        else do {
          (cursor, _) \<leftarrow> cursor_seek list_summary_dim (count_target (ix + 1)) Right (cursor_new list_summary_dim (ls_items st));
          let bottom = lis_height (c_position cursor) + e_top padding;
          let goal_top = max 0 (bottom - height + e_bottom padding);
          (cursor, _) \<leftarrow> cursor_seek list_summary_dim (height_target goal_top) Left cursor;
          let start_ix = lis_count (c_position cursor);
          let start_item_top = lis_height (c_position cursor);
          Some
            (if start_ix \<ge> lo_item_ix scroll_top
             then scroll_top\<lparr>lo_item_ix := start_ix, lo_offset_in_item := goal_top - start_item_top\<rparr>
             else scroll_top) });
     set_scroll_top st scroll_top }"

definition bounds_for_item :: "('u::linordered_field, 'f, 'h) list_state \<Rightarrow> nat \<Rightarrow> 'u bounds option option" where
  "bounds_for_item st ix = do {
     let bounds = unwrap_or (ls_last_layout_bounds st) bounds_default;
     let scroll_top = logical_scroll_top st;
     if ix < lo_item_ix scroll_top then Some None
     else do {
       let D = dimensions list_count_dim list_height_dim unit_dimension;
       (cursor, _) \<leftarrow> cursor_seek D (first_target (ord_cmp (lo_item_ix scroll_top))) Right (cursor_new D (ls_items st));
       let scroll_top_y = fst (snd (c_position cursor)) + lo_offset_in_item scroll_top;
       (cursor, _) \<leftarrow> cursor_seek_forward D (first_target (ord_cmp ix)) Right cursor;
       item \<leftarrow> cursor_item cursor;
       (case item of
          Some (Measured sz _) \<Rightarrow>
            (let (count, item_top, _) = c_position cursor
             in if count = ix
                then (let item_top = bd_top bounds + item_top - scroll_top_y
                      in Some (Some (from_corners (point_new (bd_left bounds) item_top) (point_new (bd_right bounds) (item_top + s_height sz)))))
                else Some None)
        | _ \<Rightarrow> Some None) } }"

section \<open>The scrollbar\<close>

definition scrollbar_drag_started :: "('u, 'f, 'h) list_state \<Rightarrow> ('u, 'f, 'h) list_state" where
  "scrollbar_drag_started st = st\<lparr>ls_scrollbar_drag_start_height := Some (lis_height (items_total st))\<rparr>"

definition scrollbar_drag_ended :: "('u, 'f, 'h) list_state \<Rightarrow> ('u, 'f, 'h) list_state" where
  "scrollbar_drag_ended st = st\<lparr>ls_scrollbar_drag_start_height := None\<rparr>"

definition is_scrollbar_dragging :: "('u, 'f, 'h) list_state \<Rightarrow> bool" where
  "is_scrollbar_dragging st = (ls_scrollbar_drag_start_height st \<noteq> None)"

definition max_scroll_offset :: "('u::linordered_field, 'f, 'h) list_state \<Rightarrow> 'u" where
  "max_scroll_offset st =
     (let bounds = unwrap_or (ls_last_layout_bounds st) bounds_default;
          height = unwrap_or (ls_scrollbar_drag_start_height st) (lis_height (items_total st))
      in max (height - s_height (bd_size bounds)) 0)"

definition max_offset_for_scrollbar :: "('u::linordered_field, 'f, 'h) list_state \<Rightarrow> 'u point" where
  "max_offset_for_scrollbar st = point_new 0 (max_scroll_offset st)"

definition scroll_px_offset_for_scrollbar :: "('u::linordered_field, 'f, 'h) list_state \<Rightarrow> 'u point option" where
  "scroll_px_offset_for_scrollbar st =
     (if ls_logical_scroll_top st = None \<and> ls_alignment st = AlignBottom then Some (point_new 0 (- max_scroll_offset st))
      else do {
        let ofs = logical_scroll_top st;
        (_, summary) \<leftarrow> cursor_summary list_summary_dim list_summary_dim (count_target (lo_item_ix ofs)) Right
          (cursor_new list_summary_dim (ls_items st));
        let offset = lis_height summary + lo_offset_in_item ofs;
        Some (point_new 0 (- offset)) })"

definition viewport_bounds :: "('u::linordered_field, 'f, 'h) list_state \<Rightarrow> 'u bounds" where
  "viewport_bounds st = unwrap_or (ls_last_layout_bounds st) bounds_default"

text \<open>The outer option is a panic, the inner one the result.\<close>

definition item_is_above_viewport :: "('u::linordered_field, 'f, 'h) list_state \<Rightarrow> nat \<Rightarrow> bool option option" where
  "item_is_above_viewport st ix =
     (case ls_last_layout_bounds st of
        None \<Rightarrow> Some None
      | Some viewport \<Rightarrow>
          (if ix < lo_item_ix (logical_scroll_top st) then Some (Some True)
           else do {
             b \<leftarrow> bounds_for_item st ix;
             Some (map_option (\<lambda>item_bounds. bd_bottom item_bounds \<le> bd_top viewport) b) }))"

definition item_is_below_viewport :: "('u::linordered_field, 'f, 'h) list_state \<Rightarrow> nat \<Rightarrow> bool option option" where
  "item_is_below_viewport st ix =
     (case ls_last_layout_bounds st of
        None \<Rightarrow> Some None
      | Some viewport \<Rightarrow>
          (if ix < lo_item_ix (logical_scroll_top st) then Some (Some False)
           else do {
             b \<leftarrow> bounds_for_item st ix;
             Some (map_option (\<lambda>item_bounds. bd_top item_bounds \<ge> bd_bottom viewport) b) }))"

text \<open>Scrolling to a height from the top: what \<^verbatim>\<open>scroll\<close> and \<^verbatim>\<open>set_offset_from_scrollbar\<close> share.\<close>

definition scroll_to_height :: "('u::linordered_field, 'f, 'h) list_state \<Rightarrow> 'u \<Rightarrow> 'u \<Rightarrow> ('u, 'f, 'h) list_state option" where
  "scroll_to_height st scroll_max new_scroll_top =
     (if ls_alignment st = AlignBottom \<and> new_scroll_top = scroll_max
      then Some (st\<lparr>ls_pending_scroll := None, ls_logical_scroll_top := None\<rparr>)
      else
        (case find_tree list_summary_dim (height_target new_scroll_top) Right (ls_items st) of
           (start, _) \<Rightarrow>
             set_scroll_top st \<lparr>lo_item_ix = lis_count start, lo_offset_in_item = new_scroll_top - lis_height start\<rparr>))"

definition set_offset_from_scrollbar ::
  "('u::linordered_field, 'f, 'h) list_state \<Rightarrow> 'u point \<Rightarrow> ('u, 'f, 'h) list_state option" where
  "set_offset_from_scrollbar st point =
     (case ls_last_layout_bounds st of
        None \<Rightarrow> Some st
      | Some bounds \<Rightarrow>
          (let height = s_height (bd_size bounds);
               padding = unwrap_or (ls_last_padding st) edges_default;
               content_height = unwrap_or (ls_scrollbar_drag_start_height st) (lis_height (items_total st));
               scroll_max = max (content_height + e_top padding + e_bottom padding - height) 0;
               new_scroll_top = min (max (- p_y point) 0) scroll_max;
               dragged_to_end = (scroll_max > 0 \<and> new_scroll_top \<ge> max (scroll_max - 1) 0)
           in if dragged_to_end \<and> ls_follow_state st \<noteq> FollowNormal
              then Some (st\<lparr>ls_follow_state := FollowTail True, ls_pending_scroll := None,
                      ls_logical_scroll_top := Some \<lparr>lo_item_ix = lis_count (items_total st), lo_offset_in_item = 0\<rparr>\<rparr>)
              else scroll_to_height (st\<lparr>ls_follow_state := stop_following (ls_follow_state st)\<rparr>) scroll_max new_scroll_top))"

definition visible_range ::
  "(('u::linordered_field, 'f) list_item, 'u list_item_summary) node \<Rightarrow> 'u \<Rightarrow> 'u list_offset \<Rightarrow> (nat \<times> nat) option" where
  "visible_range items height scroll_top = do {
     (cursor, _) \<leftarrow> cursor_seek list_summary_dim (count_target (lo_item_ix scroll_top)) Right (cursor_new list_summary_dim items);
     let start_y = lis_height (c_position cursor) + lo_offset_in_item scroll_top;
     (cursor, _) \<leftarrow> cursor_seek_forward list_summary_dim (height_target (start_y + height)) Left cursor;
     Some (lo_item_ix scroll_top, lis_count (c_position cursor) + 1) }"

record list_scroll_event =
  lse_visible_range :: "nat \<times> nat"
  lse_count :: nat
  lse_is_scrolled :: bool
  lse_is_following_tail :: bool

text \<open>
  The handler of scroll events: the new state, the call of the scroll handler, and whether the view is notified.
\<close>

definition scroll_event ::
  "('u::linordered_field, 'f, 'h) list_state \<Rightarrow> 'u list_offset \<Rightarrow> 'u \<Rightarrow> 'u point \<Rightarrow>
   (('u, 'f, 'h) list_state \<times> ('h \<times> list_scroll_event) option \<times> bool) option" where
  "scroll_event st scroll_top height delta =
     (if ls_reset st then Some (st, None, False)
      else do {
        let padding = unwrap_or (ls_last_padding st) edges_default;
        let scroll_max = max (lis_height (items_total st) + e_top padding + e_bottom padding - height) 0;
        let new_scroll_top = min (max (scroll_top_of st scroll_top - p_y delta) 0) scroll_max;
        st \<leftarrow> scroll_to_height st scroll_max new_scroll_top;
        let st = (if p_y delta > 0 then st\<lparr>ls_follow_state := stop_following (ls_follow_state st)\<rparr> else st);
        (case ls_scroll_handler st of
           None \<Rightarrow> Some (st, None, True)
         | Some handler \<Rightarrow> do {
             visible \<leftarrow> visible_range (ls_items st) height scroll_top;
             Some (st,
               Some (handler,
                 \<lparr>lse_visible_range = visible, lse_count = lis_count (items_total st),
                  lse_is_scrolled = (ls_logical_scroll_top st \<noteq> None), lse_is_following_tail = (ls_follow_state st = FollowTail True)\<rparr>),
               True) }) })"

section \<open>The laws of the dimensions\<close>

lemma list_trait_simps [simp]:
  "item_summary list_trait = li_summary" "summary_zero list_trait = list_summary_zero" "add_summary list_trait = list_add_summary"
  by (simp_all add: list_trait_def)

lemma list_add_summary_simps [simp]:
  "lis_count (list_add_summary a b) = lis_count a + lis_count b"
  "lis_height (list_add_summary a b) = lis_height a + lis_height b"
  "lis_has_focus_handles (list_add_summary a b) = (lis_has_focus_handles a \<or> lis_has_focus_handles b)"
  "lis_has_unknown_height (list_add_summary a b) = (lis_has_unknown_height a \<or> lis_has_unknown_height b)"
  by (simp_all add: list_add_summary_def)

lemma list_summary_zero_simps [simp]:
  "lis_count list_summary_zero = 0" "lis_height list_summary_zero = 0"
  "lis_has_focus_handles list_summary_zero = False" "lis_has_unknown_height list_summary_zero = False"
  by (simp_all add: list_summary_zero_def)

lemma list_dims_simps [simp]:
  "dim_zero list_count_dim = 0" "dim_add list_count_dim n s = n + lis_count s"
  "dim_zero list_height_dim = 0" "dim_add list_height_dim h s = h + lis_height s"
  "dim_zero (self_dimension z add) = z" "dim_add (self_dimension z add) a b = add a b"
  by (simp_all add: list_count_dim_def list_height_dim_def self_dimension_def)

interpretation list_sums: dimension_laws "list_trait :: (('u::monoid_add, 'f) list_item, 'u list_item_summary) item_trait" list_summary_dim
  by unfold_locales (simp_all add: list_add_summary_def list_summary_zero_def add.assoc)

interpretation list_counts: dimension_laws "list_trait :: (('u::monoid_add, 'f) list_item, 'u list_item_summary) item_trait" list_count_dim
  by unfold_locales simp

interpretation list_heights: dimension_laws "list_trait :: (('u::monoid_add, 'f) list_item, 'u list_item_summary) item_trait" list_height_dim
  by unfold_locales (simp add: add.assoc)

interpretation list_pairs: dimension_laws "list_trait :: (('u::monoid_add, 'f) list_item, 'u list_item_summary) item_trait"
    "dimensions list_count_dim list_height_dim unit_dimension"
  by (rule dimensions_laws [OF list_counts.dimension_laws_axioms list_heights.dimension_laws_axioms])
    (rule list_sums.unit_dim.dimension_laws_axioms)

interpretation list_two_sums: two_dimensions "list_trait :: (('u::monoid_add, 'f) list_item, 'u list_item_summary) item_trait"
    list_summary_dim list_summary_dim
  by unfold_locales

section \<open>Positions\<close>

definition item_height :: "('u::zero, 'f) list_item \<Rightarrow> 'u" where
  "item_height item = (case li_size_hint item of None \<Rightarrow> 0 | Some sz \<Rightarrow> s_height sz)"

definition heights :: "('u::monoid_add, 'f) list_item list \<Rightarrow> 'u" where
  "heights xs = sum_list (map item_height xs)"

lemma heights_simps [simp]:
  "heights [] = 0" "heights (x # xs) = item_height x + heights xs" "heights (xs @ ys) = heights xs + heights ys"
  by (simp_all add: heights_def)

lemma li_summary_simps [simp]:
  "lis_count (li_summary x) = 1" "lis_height (li_summary x) = item_height x"
  "lis_has_focus_handles (li_summary x) = (li_focus_handle x \<noteq> None)"
  "lis_has_unknown_height (li_summary x) = (li_size_hint x = None)"
  by (cases x; simp add: item_height_def split: option.split)+

lemma list_positions:
  fixes xs :: "('u::monoid_add, 'f) list_item list"
  shows "pos_after list_count_dim n (map li_summary xs) = n + length xs"
    "pos_after list_height_dim h (map li_summary xs) = h + heights xs"
    "lis_count (pos_after list_summary_dim s (map li_summary xs)) = lis_count s + length xs"
    "lis_height (pos_after list_summary_dim s (map li_summary xs)) = lis_height s + heights xs"
    "lis_has_focus_handles (pos_after list_summary_dim s (map li_summary xs)) =
       (lis_has_focus_handles s \<or> (\<exists>x \<in> set xs. li_focus_handle x \<noteq> None))"
    "lis_has_unknown_height (pos_after list_summary_dim s (map li_summary xs)) =
       (lis_has_unknown_height s \<or> (\<exists>x \<in> set xs. li_size_hint x = None))"
  by (induction xs arbitrary: n h s) (auto simp: add.assoc)

lemma list_positions_simps [simp]:
  fixes xs :: "('u::monoid_add, 'f) list_item list"
  shows "pos_after list_count_dim 0 (map li_summary xs) = length xs"
    "pos_after list_height_dim 0 (map li_summary xs) = heights xs"
    "lis_count (pos_after list_summary_dim list_summary_zero (map li_summary xs)) = length xs"
    "lis_height (pos_after list_summary_dim list_summary_zero (map li_summary xs)) = heights xs"
  by (simp_all add: list_positions)

lemma list_total:
  fixes t :: "(('u::monoid_add, 'f) list_item, 'u list_item_summary) node"
  assumes "wf_tree list_trait t"
  shows "node_summary t = pos_after list_summary_dim list_summary_zero (map li_summary (flatten t))"
proof (cases "t = new_tree list_trait")
  case False
  then have "node_summary t = items_summary list_trait (flatten t)" using assms by (simp add: wf_tree_def list_sums.wf_node_summary)
  then show ?thesis by (simp add: sum_of_def self_dimension_def)
qed (simp add: new_tree_def)

lemma list_total_simps:
  fixes t :: "(('u::monoid_add, 'f) list_item, 'u list_item_summary) node"
  assumes "wf_tree list_trait t"
  shows "lis_count (node_summary t) = length (flatten t)" "lis_height (node_summary t) = heights (flatten t)"
  using list_total [OF assms] by simp_all

section \<open>Where seeks land\<close>

lemma in_child_ord [simp]: "in_child Right (ord_cmp n x) = (n < x)" "in_child Left (ord_cmp n x) = (n \<le> x)"
  by (auto simp: in_child_def ord_cmp_def)

lemma ends_nth: "j < length ss \<Longrightarrow> ends M p ss ! j = pos_after M p (take (Suc j) ss)"
proof (induction ss arbitrary: p j)
  case (Cons s ss)
  then show ?case by (cases j) auto
qed simp

lemma seek_index_first:
  assumes "i \<le> length xs" and k_def: "k = seek_index D M cmp b xs i"
  shows "\<And>j. i \<le> j \<Longrightarrow> j < k \<Longrightarrow> \<not> in_child b (cmp (seq_pos D M (take (Suc j) xs)))"
    and "k < length xs \<Longrightarrow> in_child b (cmp (seq_pos D M (take (Suc k) xs)))"
proof -
  let ?p = "seq_pos D M (take i xs)" and ?ss = "map (item_summary D) (drop i xs)"
  let ?stop = "\<lambda>e. \<not> in_child b (cmp e)"
  have k: "k = i + length (takeWhile ?stop (ends M ?p ?ss))" by (simp add: k_def seek_index_def target_index_def stop_index_def)
  have pos: "ends M ?p ?ss ! j = seq_pos D M (take (Suc (i + j)) xs)" if "i + j < length xs" for j
  proof -
    have "take (Suc (i + j)) xs = take i xs @ take (Suc j) (drop i xs)" using take_add [of i "Suc j" xs] by simp
    then show ?thesis using that by (simp add: ends_nth take_map)
  qed
  show "\<not> in_child b (cmp (seq_pos D M (take (Suc j) xs)))" if j: "i \<le> j" "j < k" for j
  proof -
    have "j - i < length (takeWhile ?stop (ends M ?p ?ss))" using j k by simp
    then have "?stop (ends M ?p ?ss ! (j - i))" by (metis nth_mem set_takeWhileD takeWhile_nth)
    moreover have "k \<le> length xs" using assms(1) by (simp add: k_def seek_index_le)
    ultimately show ?thesis using pos [of "j - i"] j by simp
  qed
  show "in_child b (cmp (seq_pos D M (take (Suc k) xs)))" if "k < length xs"
  proof -
    have "length (takeWhile ?stop (ends M ?p ?ss)) < length (ends M ?p ?ss)" using that k by simp
    from nth_length_takeWhile [OF this] show ?thesis using pos [of "k - i"] that k by simp
  qed
qed

text \<open>Targets that compare with a number that does not decrease along the items.\<close>

lemma ends_mono:
  assumes "\<And>d s. s \<in> set ss \<Longrightarrow> f d \<le> f (dim_add M d s)"
  shows "sorted_wrt (\<lambda>d e. f d \<le> (f e :: 'n::linorder)) (p # ends M p ss)"
  using assms
proof (induction ss arbitrary: p)
  case (Cons s ss)
  have "f p \<le> f (dim_add M p s)" "sorted_wrt (\<lambda>d e. f d \<le> f e) (dim_add M p s # ends M (dim_add M p s) ss)"
    using Cons by simp_all
  then show ?case by (auto intro: order_trans)
qed simp

lemma seekable_ord:
  assumes "\<And>d s. s \<in> set ss \<Longrightarrow> f d \<le> f (dim_add M d s)"
  shows "seekable M (\<lambda>d. ord_cmp n (f d)) p ss"
proof -
  have "sorted_wrt (\<lambda>d e. f d \<le> f e) (ends M p ss)" using ends_mono [of ss f M p, OF assms] by simp
  then show ?thesis
    unfolding seekable_def by (rule sorted_wrt_mono_rel [rotated]) (auto simp: ord_cmp_def)
qed

abbreviation list_tree :: "(('u::monoid_add, 'f) list_item, 'u list_item_summary) node \<Rightarrow> bool" where
  "list_tree t \<equiv> wf_tree list_trait t \<and> stack_fits t"

definition nonneg_heights :: "('u::linordered_field, 'f) list_item list \<Rightarrow> bool" where
  "nonneg_heights xs \<longleftrightarrow> (\<forall>x \<in> set xs. 0 \<le> item_height x)"

lemma nonneg_heights_simps [simp]:
  "nonneg_heights []" "nonneg_heights (x # xs) \<longleftrightarrow> 0 \<le> item_height x \<and> nonneg_heights xs"
  "nonneg_heights (xs @ ys) \<longleftrightarrow> nonneg_heights xs \<and> nonneg_heights ys"
  by (auto simp: nonneg_heights_def)

lemma heights_nonneg: "nonneg_heights xs \<Longrightarrow> 0 \<le> heights xs"
  by (induction xs) simp_all

lemma heights_take_mono:
  assumes "nonneg_heights xs" "i \<le> j"
  shows "heights (take i xs) \<le> heights (take j xs)"
proof -
  have split: "take j xs = take i xs @ take (j - i) (drop i xs)" using assms(2) take_add [of i "j - i" xs] by simp
  have "nonneg_heights (take (j - i) (drop i xs))"
    using assms(1) by (auto simp: nonneg_heights_def dest!: in_set_takeD in_set_dropD)
  then show ?thesis unfolding split using heights_nonneg by fastforce
qed

lemma heights_take_Suc: "k < length xs \<Longrightarrow> heights (take (Suc k) xs) = heights (take k xs) + item_height (xs ! k)"
  by (simp add: take_Suc_conv_app_nth)

lemma list_targets: "count_target n = (\<lambda>s. ord_cmp n (lis_count s))" "height_target h = (\<lambda>s. ord_cmp h (lis_height s))"
  by (auto simp: count_target_def height_target_def)

lemma list_seekable:
  fixes xs :: "('u::linordered_field, 'f) list_item list"
  shows "seekable list_count_dim (ord_cmp n) m (map li_summary xs)"
    "seekable list_summary_dim (count_target n) s (map li_summary xs)"
    "nonneg_heights xs \<Longrightarrow> seekable list_summary_dim (height_target h) s (map li_summary xs)"
  unfolding list_targets by (rule seekable_ord, auto simp: nonneg_heights_def)+

lemma seek_index_counting:
  assumes "\<And>j. j \<le> length xs \<Longrightarrow> f (seq_pos D M (take j xs)) = j" "i \<le> n" "i \<le> length xs"
  shows "seek_index D M (\<lambda>d. ord_cmp n (f d)) Right xs i = min n (length xs)"
proof -
  define k where "k = seek_index D M (\<lambda>d. ord_cmp n (f d)) Right xs i"
  have k: "i \<le> k" "k \<le> length xs" using assms(3) by (simp_all add: k_def seek_index_ge seek_index_le)
  have "n \<le> k" if "k < length xs" using seek_index_first(2) [OF assms(3) k_def that] assms(1) [of "Suc k"] that by simp
  moreover have "k \<le> n"
  proof (cases "k = i")
    case False
    then have "\<not> n < Suc (k - 1)"
      using seek_index_first(1) [OF assms(3) k_def, of "k - 1"] assms(1) [of "Suc (k - 1)"] k by simp
    then show ?thesis using False k by simp
  qed (use assms(2) in simp)
  ultimately show ?thesis using k unfolding k_def [symmetric] by linarith
qed

lemma list_seek_index:
  fixes xs :: "('u::linordered_field, 'f) list_item list"
  assumes "i \<le> n" "i \<le> length xs"
  shows "seek_index list_trait list_count_dim (ord_cmp n) Right xs i = min n (length xs)"
    "seek_index list_trait list_summary_dim (count_target n) Right xs i = min n (length xs)"
  unfolding list_targets by (rule seek_index_counting, use assms in simp_all)+

lemma list_seek_count:
  fixes t :: "(('u::linordered_field, 'f) list_item, 'u list_item_summary) node"
  assumes "list_tree t" "c_tree c = t"
  shows "\<exists>c' found. cursor_seek list_count_dim (ord_cmp n) Right c = Some (c', found) \<and>
    cursor_at list_trait list_count_dim t c' (min n (length (flatten t)))"
  using list_counts.cursor_seek_ok [of t "ord_cmp n" c Right] assms list_seekable(1) [of n 0 "flatten t"]
  by (force simp: list_seek_index)

lemma list_seek_forward_count:
  fixes t :: "(('u::linordered_field, 'f) list_item, 'u list_item_summary) node"
  assumes "list_tree t" "seek_from list_trait list_count_dim t c i" "i \<le> n"
  shows "\<exists>c' found. cursor_seek_forward list_count_dim (ord_cmp n) Right c = Some (c', found) \<and>
    cursor_at list_trait list_count_dim t c' (min n (length (flatten t)))"
  using list_counts.cursor_seek_forward_ok [of t "ord_cmp n" c i Right] assms list_seekable(1) [of n 0 "flatten t"]
    list_counts.seek_from_le [OF assms(2)]
  by (force simp: list_seek_index)

lemma list_slice_count:
  fixes t :: "(('u::linordered_field, 'f) list_item, 'u list_item_summary) node"
  assumes "list_tree t" "seek_from list_trait list_count_dim t c i" "i \<le> n"
  shows "\<exists>c' r. cursor_slice list_trait list_count_dim (ord_cmp n) Right c = Some (c', r) \<and>
    cursor_at list_trait list_count_dim t c' (min n (length (flatten t))) \<and> wf_tree list_trait r \<and>
    flatten r = take (n - i) (drop i (flatten t))"
proof -
  have "i \<le> length (flatten t)" by (rule list_counts.seek_from_le [OF assms(2)])
  then have "take (min n (length (flatten t)) - i) (drop i (flatten t)) = take (n - i) (drop i (flatten t))"
    by (cases "n \<le> length (flatten t)") (simp_all add: min_def)
  then show ?thesis
    using list_counts.cursor_slice_ok [of t "ord_cmp n" c i Right] assms list_seekable(1) [of n 0 "flatten t"] \<open>i \<le> length _\<close>
    by (simp add: list_seek_index)
qed

lemma list_seek_sum_count:
  fixes t :: "(('u::linordered_field, 'f) list_item, 'u list_item_summary) node"
  assumes "list_tree t" "c_tree c = t"
  shows "\<exists>c' found. cursor_seek list_summary_dim (count_target n) Right c = Some (c', found) \<and>
    cursor_at list_trait list_summary_dim t c' (min n (length (flatten t)))"
  using list_sums.cursor_seek_ok [of t "count_target n" c Right] assms list_seekable(2) [of n list_summary_zero "flatten t"]
  by (force simp: list_seek_index count_target_def)

text \<open>The item in which a height lies, from above.\<close>

definition lands_in :: "('u::linordered_field, 'f) list_item list \<Rightarrow> 'u \<Rightarrow> nat \<Rightarrow> bool" where
  "lands_in xs h k \<longleftrightarrow> k \<le> length xs \<and> heights (take k xs) \<le> h \<and> (k < length xs \<longrightarrow> h < heights (take (Suc k) xs))"

lemma seek_index_lands:
  fixes xs :: "('u::linordered_field, 'f) list_item list"
  assumes "i \<le> length xs" "heights (take i xs) \<le> h"
  shows "lands_in xs h (seek_index list_trait list_summary_dim (height_target h) Right xs i)"
proof -
  define k where "k = seek_index list_trait list_summary_dim (height_target h) Right xs i"
  have k: "i \<le> k" "k \<le> length xs" using assms(1) by (simp_all add: k_def seek_index_ge seek_index_le)
  have "heights (take k xs) \<le> h"
  proof (cases "k = i")
    case False
    then show ?thesis
      using seek_index_first(1) [OF assms(1) k_def, of "k - 1"] k by (simp add: list_targets not_less)
  qed (use assms(2) in simp)
  then show ?thesis
    using k seek_index_first(2) [OF assms(1) k_def] unfolding k_def [symmetric] by (simp add: lands_in_def list_targets)
qed

lemma list_seek_height:
  fixes t :: "(('u::linordered_field, 'f) list_item, 'u list_item_summary) node"
  assumes "list_tree t" "nonneg_heights (flatten t)" "c_tree c = t" "0 \<le> h"
  shows "\<exists>c' found k. cursor_seek list_summary_dim (height_target h) Right c = Some (c', found) \<and>
    cursor_at list_trait list_summary_dim t c' k \<and> lands_in (flatten t) h k"
proof -
  have "height_target h (list_summary_zero :: 'u list_item_summary) \<noteq> Less" using assms(4) by (simp add: height_target_def ord_cmp_def)
  then show ?thesis
    using list_sums.cursor_seek_ok [of t "height_target h" c Right] assms list_seekable(3) [OF assms(2), of h list_summary_zero]
      seek_index_lands [of 0 "flatten t" h]
    by simp blast
qed

lemma list_seek_forward_height:
  fixes t :: "(('u::linordered_field, 'f) list_item, 'u list_item_summary) node"
  assumes "list_tree t" "nonneg_heights (flatten t)" "cursor_at list_trait list_summary_dim t c i" "heights (take i (flatten t)) \<le> h"
  shows "\<exists>c' found k. cursor_seek_forward list_summary_dim (height_target h) Right c = Some (c', found) \<and>
    cursor_at list_trait list_summary_dim t c' k \<and> lands_in (flatten t) h k"
proof -
  have "height_target h (seq_pos list_trait list_summary_dim (take i (flatten t))) \<noteq> Less"
    using assms(4) by (simp add: height_target_def ord_cmp_def)
  then show ?thesis
    using list_sums.cursor_seek_forward_ok [of t "height_target h" c i Right] assms list_seekable(3) [OF assms(2), of h list_summary_zero]
      seek_index_lands [OF cursor_at_le [OF assms(3)] assms(4)]
    by (simp add: seek_from_def) blast
qed

lemma list_find_start:
  fixes t :: "(('u::linordered_field, 'f) list_item, 'u list_item_summary) node"
  assumes "wf_tree list_trait t" "seekable list_summary_dim cmp list_summary_zero (map li_summary (flatten t))"
  shows "fst (find_tree list_summary_dim cmp b t) =
    seq_pos list_trait list_summary_dim (take (seek_index list_trait list_summary_dim cmp b (flatten t) 0) (flatten t))"
proof (cases "t = new_tree list_trait")
  case True
  then show ?thesis by (simp add: find_tree_def new_tree_def Let_def list_add_summary_def list_summary_zero_def)
next
  case False
  then have t: "wf_node list_trait t" using assms(1) by (simp add: wf_tree_def)
  let ?k = "seek_index list_trait list_summary_dim cmp b (flatten t) 0"
  have k: "stop_index list_summary_dim (\<lambda>d. in_child b (cmp d)) list_summary_zero (map li_summary (flatten t)) = ?k"
    by (simp add: seek_index_def target_index_def)
  show ?thesis
    using list_sums.find_tree_ok [OF t, of cmp b] assms(2) seek_index_le [of 0 "flatten t" list_trait list_summary_dim cmp b]
    by (simp add: k Let_def split: if_splits)
qed

lemma list_find_count:
  fixes t :: "(('u::linordered_field, 'f) list_item, 'u list_item_summary) node"
  assumes "wf_tree list_trait t"
  shows "fst (find_tree list_summary_dim (count_target n) Right t) = seq_pos list_trait list_summary_dim (take n (flatten t))"
  using list_find_start [OF assms, of "count_target n" Right] by (simp add: list_seekable list_seek_index min_def)

lemma list_find_height:
  fixes t :: "(('u::linordered_field, 'f) list_item, 'u list_item_summary) node"
  assumes "wf_tree list_trait t" "nonneg_heights (flatten t)" "0 \<le> h"
  shows "\<exists>k. fst (find_tree list_summary_dim (height_target h) Right t) = seq_pos list_trait list_summary_dim (take k (flatten t)) \<and>
    lands_in (flatten t) h k"
  using list_find_start [OF assms(1), of "height_target h" Right] list_seekable(3) [OF assms(2)] seek_index_lands [of 0 "flatten t" h] assms(3)
  by auto

section \<open>The invariant\<close>

text \<open>
  The items form a tree, their heights are not negative, and the scroll top is an item of the list or its end.
\<close>

definition offset_ok :: "('u::linordered_field, 'f, 'h) list_state \<Rightarrow> 'u list_offset \<Rightarrow> bool" where
  "offset_ok st ofs \<longleftrightarrow> lo_item_ix ofs \<le> length (flatten (ls_items st)) \<and> 0 \<le> lo_offset_in_item ofs"

definition list_inv :: "('u::linordered_field, 'f, 'h) list_state \<Rightarrow> bool" where
  "list_inv st \<longleftrightarrow> wf_tree list_trait (ls_items st) \<and> nonneg_heights (flatten (ls_items st)) \<and>
     (case ls_logical_scroll_top st of None \<Rightarrow> True | Some ofs \<Rightarrow> offset_ok st ofs)"

abbreviation list_fits :: "('u, 'f, 'h) list_state \<Rightarrow> bool" where
  "list_fits st \<equiv> stack_fits (ls_items st)"

abbreviation item_list :: "('u, 'f, 'h) list_state \<Rightarrow> ('u, 'f) list_item list" where
  "item_list st \<equiv> flatten (ls_items st)"

lemma list_inv_items: "list_inv st \<Longrightarrow> wf_tree list_trait (ls_items st)" "list_inv st \<Longrightarrow> nonneg_heights (item_list st)"
  by (simp_all add: list_inv_def)

text \<open>The distance of an offset from the top of the first item.\<close>

definition pixel_top :: "('u::linordered_field, 'f, 'h) list_state \<Rightarrow> 'u list_offset \<Rightarrow> 'u" where
  "pixel_top st ofs = heights (take (lo_item_ix ofs) (item_list st)) + lo_offset_in_item ofs"

lemma scroll_top_of_pixels: "wf_tree list_trait (ls_items st) \<Longrightarrow> scroll_top_of st ofs = pixel_top st ofs"
  using list_find_count [of "ls_items st" "lo_item_ix ofs"] by (simp add: scroll_top_of_def pixel_top_def case_prod_unfold)

lemma offset_ok_logical: "list_inv st \<Longrightarrow> offset_ok st (logical_scroll_top st)"
  by (auto simp: list_inv_def logical_scroll_top_def offset_ok_def list_total_simps split: option.splits list_alignment.split)

lemma pixel_top_nonneg: "list_inv st \<Longrightarrow> offset_ok st ofs \<Longrightarrow> 0 \<le> pixel_top st ofs"
  using heights_take_mono [of "item_list st" 0 "lo_item_ix ofs"] by (simp add: list_inv_def offset_ok_def pixel_top_def)

section \<open>Replacing items\<close>

lemma seek_from_at: "cursor_at D M t c i \<Longrightarrow> seek_from D M t c i"
  by (simp add: seek_from_def)

lemma list_ranges:
  fixes t :: "(('u::linordered_field, 'f) list_item, 'u list_item_summary) node"
  assumes "list_tree t" "i \<le> j"
  obtains c1 r1 where "cursor_slice list_trait list_count_dim (ord_cmp i) Right (cursor_new list_count_dim t) = Some (c1, r1)"
    "cursor_at list_trait list_count_dim t c1 (min i (length (flatten t)))" "wf_tree list_trait r1" "flatten r1 = take i (flatten t)"
  using list_slice_count [OF assms(1), of "cursor_new list_count_dim t" 0 i] list_counts.seek_from_new [of t] assms(1) by auto

lemma list_suffix_at:
  fixes t :: "(('u::linordered_field, 'f) list_item, 'u list_item_summary) node"
  assumes "list_tree t" "cursor_at list_trait list_count_dim t c i"
  shows "\<exists>c' r. cursor_suffix list_trait list_count_dim c = Some (c', r) \<and> wf_tree list_trait r \<and> flatten r = drop i (flatten t)"
  using list_counts.cursor_suffix_ok [of t c i] assms by (auto simp: seek_from_def)

lemma list_extend_append:
  fixes r1 r2 :: "(('u::linordered_field, 'f) list_item, 'u list_item_summary) node"
  assumes "wf_tree list_trait r1" "wf_tree list_trait r2"
  shows "\<exists>r. (do { t \<leftarrow> extend_tree list_trait r1 xs; append_tree list_trait t r2 }) = Some r \<and> wf_tree list_trait r \<and>
    flatten r = flatten r1 @ xs @ flatten r2"
proof -
  obtain t where "extend_tree list_trait r1 xs = Some t" "wf_tree list_trait t" "flatten t = flatten r1 @ xs"
    using list_sums.extend_tree_ok [OF assms(1), of xs] by blast
  then show ?thesis using list_sums.append_tree_ok [of t r2] assms(2) by auto
qed

definition moved_offset :: "nat \<times> nat \<Rightarrow> nat \<Rightarrow> 'u::zero list_offset \<Rightarrow> 'u list_offset" where
  "moved_offset rng n ofs =
     (if fst rng \<le> lo_item_ix ofs \<and> lo_item_ix ofs < snd rng then \<lparr>lo_item_ix = fst rng, lo_offset_in_item = 0\<rparr>
      else if snd rng \<le> lo_item_ix ofs then ofs\<lparr>lo_item_ix := lo_item_ix ofs - (snd rng - fst rng) + n\<rparr>
      else ofs)"

lemma splice_focusable_ok:
  fixes st :: "('u::linordered_field, 'f, 'h) list_state"
  assumes "list_tree (ls_items st)" "i \<le> j"
  shows "\<exists>t. splice_focusable st (i, j) handles =
      Some (st\<lparr>ls_items := t, ls_logical_scroll_top := map_option (moved_offset (i, j) (length handles)) (ls_logical_scroll_top st)\<rparr>) \<and>
    wf_tree list_trait t \<and> flatten t = take i (item_list st) @ map (Unmeasured None) handles @ drop j (item_list st)"
proof -
  let ?t = "ls_items st"
  obtain c1 r1 where 1: "cursor_slice list_trait list_count_dim (ord_cmp i) Right (cursor_new list_count_dim ?t) = Some (c1, r1)"
      "cursor_at list_trait list_count_dim ?t c1 (min i (length (flatten ?t)))" "wf_tree list_trait r1" "flatten r1 = take i (flatten ?t)"
    using list_ranges [OF assms] by blast
  obtain c2 found where 2: "cursor_seek_forward list_count_dim (ord_cmp j) Right c1 = Some (c2, found)"
      "cursor_at list_trait list_count_dim ?t c2 (min j (length (flatten ?t)))"
    using list_seek_forward_count [OF assms(1) seek_from_at [OF 1(2)] min.coboundedI1 [OF assms(2)]] by blast
  obtain c3 r2 where 3: "cursor_suffix list_trait list_count_dim c2 = Some (c3, r2)" "wf_tree list_trait r2" "flatten r2 = drop j (flatten ?t)"
    using list_suffix_at [OF assms(1) 2(2)] by (auto simp: min_def split: if_splits)
  obtain t4 where 4: "extend_tree list_trait r1 (map (Unmeasured None) handles) = Some t4" "wf_tree list_trait t4"
      "flatten t4 = flatten r1 @ map (Unmeasured None) handles"
    using list_sums.extend_tree_ok [OF 1(3)] by blast
  obtain t where 5: "append_tree list_trait t4 r2 = Some t" "wf_tree list_trait t" "flatten t = flatten t4 @ flatten r2"
    using list_sums.append_tree_ok [OF 4(2) 3(2)] by blast
  have top: "(case ls_logical_scroll_top st of None \<Rightarrow> Some None
      | Some ofs \<Rightarrow>
          (if i \<le> lo_item_ix ofs \<and> lo_item_ix ofs < j then Some (Some (ofs\<lparr>lo_item_ix := i, lo_offset_in_item := 0\<rparr>))
           else if j \<le> lo_item_ix ofs then do {
             assert_that (i \<le> j \<and> j - i \<le> lo_item_ix ofs);
             Some (Some (ofs\<lparr>lo_item_ix := lo_item_ix ofs - (j - i) + length handles\<rparr>)) }
           else Some (Some ofs))) = Some (map_option (moved_offset (i, j) (length handles)) (ls_logical_scroll_top st))"
    using assms(2) by (cases "ls_logical_scroll_top st") (auto simp: moved_offset_def assert_that_def)
  have "splice_focusable st (i, j) handles =
      Some (st\<lparr>ls_items := t, ls_logical_scroll_top := map_option (moved_offset (i, j) (length handles)) (ls_logical_scroll_top st)\<rparr>)"
    by (simp add: splice_focusable_def 1(1) 2(1) 3(1) 4(1) 5(1) top del: assert_that_simps)
  then show ?thesis using 5 4(3) 3(3) 1(4) by (intro exI [of _ t]) simp
qed

lemma item_height_unmeasured: "item_height (Unmeasured (li_size_hint x) f) = item_height x" "item_height (Unmeasured None f) = 0"
  by (simp_all add: item_height_def)

lemma nonneg_sublists: "nonneg_heights xs \<Longrightarrow> nonneg_heights (take n xs)" "nonneg_heights xs \<Longrightarrow> nonneg_heights (drop n xs)"
  by (auto simp: nonneg_heights_def dest: in_set_takeD in_set_dropD)

lemma splice_inv:
  fixes st :: "('u::linordered_field, 'f, 'h) list_state"
  assumes "list_inv st" "list_fits st" "i \<le> j" "i \<le> length (item_list st)" "splice_focusable st (i, j) handles = Some st'"
  shows "list_inv st'"
proof -
  obtain t where t: "st' = st\<lparr>ls_items := t, ls_logical_scroll_top := map_option (moved_offset (i, j) (length handles)) (ls_logical_scroll_top st)\<rparr>"
      "wf_tree list_trait t" "flatten t = take i (item_list st) @ map (Unmeasured None) handles @ drop j (item_list st)"
    using splice_focusable_ok [of st i j handles] assms by (auto simp: list_inv_def)
  have "nonneg_heights (flatten t)"
    using assms(1) by (simp add: t(3) list_inv_def nonneg_sublists) (simp add: nonneg_heights_def item_height_unmeasured)
  moreover have "offset_ok st' (moved_offset (i, j) (length handles) ofs)" if "offset_ok st ofs" for ofs
    using that assms(3,4) by (auto simp: offset_ok_def t moved_offset_def)
  ultimately show ?thesis using assms(1) t by (auto simp: list_inv_def split: option.splits)
qed

lemma items_collect:
  fixes t :: "(('u::linordered_field, 'f) list_item, 'u list_item_summary) node"
  shows "list_tree t \<Longrightarrow> iter_collect t [] = Some (flatten t)"
  using list_sums.iter_collect_ok by blast

lemma proportional_anchor_ok:
  fixes st :: "('u::linordered_field, 'f, 'h) list_state"
  assumes "list_tree (ls_items st)"
  shows "proportional_anchor st ofs =
    Some (case Option.bind (get_opt (item_list st) (lo_item_ix ofs)) li_size of
          Some sz \<Rightarrow>
            Some (Proportional
              \<lparr>psf_item_ix = lo_item_ix ofs,
               psf_fraction = (if s_height sz > 0 then clamp01 (lo_offset_in_item ofs / s_height sz) else 0)\<rparr>)
        | None \<Rightarrow> ls_pending_scroll st)"
proof -
  obtain c found where c: "cursor_seek list_count_dim (ord_cmp (lo_item_ix ofs)) Right (cursor_new list_count_dim (ls_items st)) = Some (c, found)"
      "cursor_at list_trait list_count_dim (ls_items st) c (min (lo_item_ix ofs) (length (item_list st)))"
    using list_seek_count [OF assms, of "cursor_new list_count_dim (ls_items st)" "lo_item_ix ofs"] by auto
  have "get_opt (item_list st) (min (lo_item_ix ofs) (length (item_list st))) = get_opt (item_list st) (lo_item_ix ofs)"
    by (simp add: get_opt_def min_def)
  then show ?thesis using c(1) cursor_item_at(1) [OF c(2)] by (simp add: proportional_anchor_def)
qed

text \<open>Marking items as unmeasured keeps their size as a hint.\<close>

definition invalidate :: "('u, 'f) list_item \<Rightarrow> ('u, 'f) list_item" where
  "invalidate item = Unmeasured (li_size_hint item) (li_focus_handle item)"

definition slice_of ::
  "(('u::linordered_field, 'f) list_item, 'u list_item_summary) node \<Rightarrow> nat \<times> nat \<Rightarrow>
   (('u, 'f) list_item, 'u list_item_summary) node option" where
  "slice_of t rng = do {
     (c, _) \<leftarrow> cursor_slice list_trait list_count_dim (ord_cmp (fst rng)) Right (cursor_new list_count_dim t);
     (_, r) \<leftarrow> cursor_slice list_trait list_count_dim (ord_cmp (snd rng)) Right c;
     Some r }"

lemma remeasure_ok:
  fixes st :: "('u::linordered_field, 'f, 'h) list_state"
  assumes "list_tree (ls_items st)" "i \<le> j" "\<And>r. slice_of (ls_items st) (i, j) = Some r \<Longrightarrow> stack_fits r"
  shows "\<exists>t pending. remeasure_items_with_scroll_anchor st (i, j) anchor =
      Some (st\<lparr>ls_items := t, ls_pending_scroll := pending, ls_measuring_behavior := measuring_reset (ls_measuring_behavior st)\<rparr>) \<and>
    wf_tree list_trait t \<and>
    flatten t = take i (item_list st) @ map invalidate (take (j - i) (drop i (item_list st))) @ drop j (item_list st) \<and>
    (\<forall>ofs. ls_logical_scroll_top st = Some ofs \<longrightarrow> i \<le> lo_item_ix ofs \<longrightarrow> lo_item_ix ofs < j \<longrightarrow> anchor = AnchorAbsolute \<longrightarrow>
       pending = Some (Absolute (lo_item_ix ofs) (lo_offset_in_item ofs)))"
proof -
  let ?t = "ls_items st"
  let ?in = "\<lambda>ofs. i \<le> lo_item_ix ofs \<and> lo_item_ix ofs < j"
  obtain pending where pending: "(case ls_logical_scroll_top st of None \<Rightarrow> Some st
        | Some scroll_top \<Rightarrow>
            (if ?in scroll_top then do {
               pending \<leftarrow>
                 (case anchor of
                    AnchorAbsolute \<Rightarrow> Some (Some (Absolute (lo_item_ix scroll_top) (lo_offset_in_item scroll_top)))
                  | AnchorProportional \<Rightarrow> proportional_anchor st scroll_top);
               Some (st\<lparr>ls_pending_scroll := pending\<rparr>) }
             else Some st)) = Some (st\<lparr>ls_pending_scroll := pending\<rparr>)"
      "\<forall>ofs. ls_logical_scroll_top st = Some ofs \<longrightarrow> ?in ofs \<longrightarrow> anchor = AnchorAbsolute \<longrightarrow>
         pending = Some (Absolute (lo_item_ix ofs) (lo_offset_in_item ofs))"
  proof (cases "\<exists>ofs. ls_logical_scroll_top st = Some ofs \<and> ?in ofs")
    case True
    then obtain ofs where "ls_logical_scroll_top st = Some ofs" "?in ofs" by blast
    then show thesis using that proportional_anchor_ok [OF assms(1), of ofs] by (cases anchor) auto
  next
    case False
    then show thesis using that [of "ls_pending_scroll st"] by (cases "ls_logical_scroll_top st") auto
  qed
  obtain c1 r1 where 1: "cursor_slice list_trait list_count_dim (ord_cmp i) Right (cursor_new list_count_dim ?t) = Some (c1, r1)"
      "cursor_at list_trait list_count_dim ?t c1 (min i (length (flatten ?t)))" "wf_tree list_trait r1" "flatten r1 = take i (flatten ?t)"
    using list_ranges [OF assms(1,2)] by blast
  obtain c2 r where 2: "cursor_slice list_trait list_count_dim (ord_cmp j) Right c1 = Some (c2, r)"
      "cursor_at list_trait list_count_dim ?t c2 (min j (length (flatten ?t)))" "wf_tree list_trait r"
      "flatten r = take (j - min i (length (flatten ?t))) (drop (min i (length (flatten ?t))) (flatten ?t))"
    using list_slice_count [OF assms(1) seek_from_at [OF 1(2)] min.coboundedI1 [OF assms(2)]] by blast
  have r: "flatten r = take (j - i) (drop i (flatten ?t))" using 2(4) by (cases "i \<le> length (flatten ?t)") (simp_all add: min_def)
  have "iter_collect r [] = Some (flatten r)" using items_collect [of r] 2(3) assms(3) [of r] 1(1) 2(1) by (simp add: slice_of_def)
  moreover obtain c3 r2 where 3: "cursor_suffix list_trait list_count_dim c2 = Some (c3, r2)" "wf_tree list_trait r2" "flatten r2 = drop j (flatten ?t)"
    using list_suffix_at [OF assms(1) 2(2)] by (auto simp: min_def split: if_splits)
  moreover obtain t4 where 4: "extend_tree list_trait r1 (map invalidate (flatten r)) = Some t4" "wf_tree list_trait t4"
      "flatten t4 = flatten r1 @ map invalidate (flatten r)"
    using list_sums.extend_tree_ok [OF 1(3)] by blast
  moreover obtain t where 5: "append_tree list_trait t4 r2 = Some t" "wf_tree list_trait t" "flatten t = flatten t4 @ flatten r2"
    using list_sums.append_tree_ok [OF 4(2) 3(2)] by blast
  moreover have "(\<lambda>item. Unmeasured (li_size_hint item) (li_focus_handle item)) = (invalidate :: ('u, 'f) list_item \<Rightarrow> _)"
    by (simp add: fun_eq_iff invalidate_def)
  ultimately have "remeasure_items_with_scroll_anchor st (i, j) anchor =
      Some (st\<lparr>ls_items := t, ls_pending_scroll := pending, ls_measuring_behavior := measuring_reset (ls_measuring_behavior st)\<rparr>)"
    using 1(1) 2(1) by (simp add: remeasure_items_with_scroll_anchor_def pending(1))
  then show ?thesis using 5 4(3) 3(3) 1(4) r pending(2) by auto
qed

text \<open>The items after a remeasurement of a range.\<close>

definition remeasured :: "nat \<Rightarrow> nat \<Rightarrow> ('u, 'f) list_item list \<Rightarrow> ('u, 'f) list_item list" where
  "remeasured i j xs = take i xs @ map invalidate (take (j - i) (drop i xs)) @ drop j xs"

lemma remeasured_length: "i \<le> j \<Longrightarrow> length (remeasured i j xs) = length xs"
  by (auto simp: remeasured_def min_def)

lemma remeasured_nth:
  "i \<le> j \<Longrightarrow> k < length xs \<Longrightarrow> remeasured i j xs ! k = (if i \<le> k \<and> k < j then invalidate (xs ! k) else xs ! k)"
  by (auto simp: remeasured_def nth_append min_def)

lemma nonneg_heights_heights: "nonneg_heights xs \<longleftrightarrow> (\<forall>h \<in> set (map item_height xs). 0 \<le> h)"
  by (simp add: nonneg_heights_def)

section \<open>Properties\<close>

text \<open>
  Claim C19. Splicing replaces exactly the given range of items by new, unmeasured ones, and keeps the view where it is: a scroll
  top before the range does not move, one behind it stays on the same item at the same offset, and one inside it moves to
  the start of the range. The state stays well-formed.
\<close>

theorem splice_keeps_scroll_position:
  assumes "list_inv st" "list_fits st" "i \<le> j" "j \<le> length (item_list st)"
  shows "\<exists>st'. splice_focusable st (i, j) handles = Some st' \<and> list_inv st' \<and>
    item_list st' = take i (item_list st) @ map (Unmeasured None) handles @ drop j (item_list st) \<and>
    (\<forall>ofs. ls_logical_scroll_top st = Some ofs \<longrightarrow> (\<exists>ofs'. ls_logical_scroll_top st' = Some ofs' \<and>
      (if lo_item_ix ofs < i then ofs' = ofs
       else if lo_item_ix ofs < j then ofs' = \<lparr>lo_item_ix = i, lo_offset_in_item = 0\<rparr>
       else drop (lo_item_ix ofs') (item_list st') = drop (lo_item_ix ofs) (item_list st) \<and>
         lo_offset_in_item ofs' = lo_offset_in_item ofs)))"
proof -
  have tree: "list_tree (ls_items st)" using assms(1,2) by (simp add: list_inv_def)
  obtain st' where st': "splice_focusable st (i, j) handles = Some st'"
      "ls_logical_scroll_top st' = map_option (moved_offset (i, j) (length handles)) (ls_logical_scroll_top st)"
      "item_list st' = take i (item_list st) @ map (Unmeasured None) handles @ drop j (item_list st)"
    using splice_focusable_ok [OF tree assms(3), of handles] by auto
  have inv: "list_inv st'" using splice_inv [OF assms(1-3) _ st'(1)] assms(3,4) by simp
  let ?moved = "moved_offset (i, j) (length handles)"
  have moved: "if lo_item_ix ofs < i then ?moved ofs = ofs
      else if lo_item_ix ofs < j then ?moved ofs = \<lparr>lo_item_ix = i, lo_offset_in_item = 0\<rparr>
      else drop (lo_item_ix (?moved ofs)) (item_list st') = drop (lo_item_ix ofs) (item_list st) \<and>
        lo_offset_in_item (?moved ofs) = lo_offset_in_item ofs" for ofs
    using assms(3,4) by (simp add: moved_offset_def st'(3) min_def)
  show ?thesis
  proof (intro exI [of _ st'] conjI allI impI)
    fix ofs assume "ls_logical_scroll_top st = Some ofs"
    then have "ls_logical_scroll_top st' = Some (?moved ofs)" using st'(2) by simp
    with moved [of ofs] show "\<exists>ofs'. ls_logical_scroll_top st' = Some ofs' \<and>
      (if lo_item_ix ofs < i then ofs' = ofs
       else if lo_item_ix ofs < j then ofs' = \<lparr>lo_item_ix = i, lo_offset_in_item = 0\<rparr>
       else drop (lo_item_ix ofs') (item_list st') = drop (lo_item_ix ofs) (item_list st) \<and>
         lo_offset_in_item ofs' = lo_offset_in_item ofs)" by blast
  qed (use st' inv in simp_all)
qed

text \<open>A list of three items in a viewport of height 10.\<close>

definition three_items :: "(rat, nat, unit) list_state" where
  "three_items =
     \<lparr>ls_last_layout_bounds = Some (bounds_new (point_new 0 0) \<lparr>s_width = 5, s_height = 10\<rparr>), ls_last_padding = None,
      ls_items = mk_leaf list_trait [Measured \<lparr>s_width = 5, s_height = 8\<rparr> None, Measured \<lparr>s_width = 5, s_height = 6\<rparr> (Some 1),
        Unmeasured (Some \<lparr>s_width = 5, s_height = 4\<rparr>) None],
      ls_logical_scroll_top = Some \<lparr>lo_item_ix = 1, lo_offset_in_item = 2\<rparr>, ls_alignment = AlignTop, ls_overdraw = 0,
      ls_reset = False, ls_scroll_handler = None, ls_scrollbar_drag_start_height = None, ls_measuring_behavior = Visible,
      ls_pending_scroll = None, ls_follow_state = FollowNormal\<rparr>"

lemma three_items_ok: "list_inv three_items" "list_fits three_items"
  by (simp_all add: three_items_def list_inv_def wf_tree_def TREE_BASE_def item_height_def offset_ok_def stack_fits_def STACK_CAPACITY_def)

theorem splice_keeps_scroll_position_witness:
  "\<exists>st'. splice_focusable three_items (0, 1) [None, Some 2] = Some st' \<and>
     map_option lo_offset_in_item (ls_logical_scroll_top st') = Some 2 \<and> length (item_list st') = 4"
  using splice_keeps_scroll_position [OF three_items_ok, of 0 1 "[None, Some 2]"] by (fastforce simp: three_items_def)


text \<open>
  Remeasuring forgets that the items of the range were measured but nothing else: there are as many items, their heights
  are the sizes they had, so that the view does not jump, and their focus handles stay. A scroll top inside the range is remembered,
  to be restored once the item has its new size.
\<close>

theorem remeasure_keeps_view:
  assumes "list_inv st" "list_fits st" "i \<le> j" "\<And>r. slice_of (ls_items st) (i, j) = Some r \<Longrightarrow> stack_fits r"
  shows "\<exists>st'. remeasure_items st (i, j) = Some st' \<and> list_inv st' \<and>
    (\<forall>k. heights (take k (item_list st')) = heights (take k (item_list st))) \<and>
    map li_focus_handle (item_list st') = map li_focus_handle (item_list st) \<and>
    (\<forall>k < length (item_list st). item_list st' ! k =
       (if i \<le> k \<and> k < j then Unmeasured (li_size_hint (item_list st ! k)) (li_focus_handle (item_list st ! k)) else item_list st ! k)) \<and>
    ls_logical_scroll_top st' = ls_logical_scroll_top st \<and>
    (\<forall>ofs. ls_logical_scroll_top st = Some ofs \<longrightarrow> i \<le> lo_item_ix ofs \<longrightarrow> lo_item_ix ofs < j \<longrightarrow>
       ls_pending_scroll st' = Some (Absolute (lo_item_ix ofs) (lo_offset_in_item ofs)))"
proof -
  let ?xs = "item_list st"
  obtain t pending where t: "remeasure_items st (i, j) =
        Some (st\<lparr>ls_items := t, ls_pending_scroll := pending, ls_measuring_behavior := measuring_reset (ls_measuring_behavior st)\<rparr>)"
      "wf_tree list_trait t" "flatten t = remeasured i j ?xs"
      "\<forall>ofs. ls_logical_scroll_top st = Some ofs \<longrightarrow> i \<le> lo_item_ix ofs \<longrightarrow> lo_item_ix ofs < j \<longrightarrow>
         pending = Some (Absolute (lo_item_ix ofs) (lo_offset_in_item ofs))"
    using remeasure_ok [of st i j AnchorAbsolute] assms by (auto simp: remeasure_items_def remeasured_def list_inv_def)
  have nth: "\<forall>k < length ?xs. flatten t ! k = (if i \<le> k \<and> k < j then invalidate (?xs ! k) else ?xs ! k)"
    unfolding t(3) using remeasured_nth [OF assms(3)] by blast
  have len: "length (flatten t) = length ?xs" using t(3) assms(3) by (simp add: remeasured_length)
  have "map item_height (flatten t) = map item_height ?xs" and handles: "map li_focus_handle (flatten t) = map li_focus_handle ?xs"
    using nth len by (auto simp: list_eq_iff_nth_eq invalidate_def item_height_unmeasured)
  then have heights: "map item_height (take k (flatten t)) = map item_height (take k ?xs)" for k by (simp add: take_map [symmetric])
  have "nonneg_heights (flatten t)"
    using list_inv_items(2) [OF assms(1)] heights [of "length ?xs"] len unfolding nonneg_heights_heights by simp
  moreover have "heights (take k (flatten t)) = heights (take k ?xs)" for k using heights unfolding heights_def by simp
  ultimately show ?thesis
    using t assms(1) nth len handles by (auto simp: list_inv_def offset_ok_def invalidate_def split: option.splits)
qed

lemma three_items_slice: "map_option stack_fits (slice_of (ls_items three_items) (1, 3)) = Some True"
  by code_simp

theorem remeasure_keeps_view_witness:
  "\<exists>st'. remeasure_items three_items (1, 3) = Some st' \<and> heights (take 2 (item_list st')) = 14 \<and>
     ls_pending_scroll st' = Some (Absolute 1 2)"
proof -
  have "slice_of (ls_items three_items) (1, 3) = Some r \<Longrightarrow> stack_fits r" for r
    using three_items_slice by simp
  from remeasure_keeps_view [OF three_items_ok _ this, of 1 3] show ?thesis
    by (fastforce simp: three_items_def item_height_def)
qed

end
