(* ===== verification/ListScroll.thy ===== *)
theory ListScroll
  imports ListState
begin

text \<open>
  Scrolling a list, \<^verbatim>\<open>src/crates/gpui/src/elements/list.rs\<close>: what the operations of \<^verbatim>\<open>ListState\<close> that move the
  scroll top do to the position of the view in pixels. Every one of them seeks in the tree of items; the lemmas below say where the
  seek ends, the properties say what is then on the screen.
\<close>

section \<open>Scrolling to an offset\<close>

lemma offset_set: "(ofs :: 'u list_offset)\<lparr>lo_item_ix := k, lo_offset_in_item := x\<rparr> = \<lparr>lo_item_ix = k, lo_offset_in_item = x\<rparr>"
  by simp

lemma rebase_pending_scroll_ok:
  fixes st :: "('u::linordered_field, 'f, 'h) list_state"
  assumes "list_tree (ls_items st)"
  shows "\<exists>pending. rebase_pending_scroll st ofs = Some (st\<lparr>ls_pending_scroll := pending\<rparr>)"
proof -
  obtain c found where c: "cursor_seek list_count_dim (ord_cmp (lo_item_ix ofs)) Right (cursor_new list_count_dim (ls_items st)) = Some (c, found)"
      "cursor_at list_trait list_count_dim (ls_items st) c (min (lo_item_ix ofs) (length (item_list st)))"
    using list_seek_count [OF assms, of "cursor_new list_count_dim (ls_items st)" "lo_item_ix ofs"] by auto
  show ?thesis
  proof (cases "ls_pending_scroll st")
    case None
    then show ?thesis by (intro exI [of _ None]) (simp add: rebase_pending_scroll_def)
  next
    case (Some pending)
    then show ?thesis
      using c(1) cursor_item_at(1) [OF c(2)]
      by (cases pending) (auto simp: rebase_pending_scroll_def Let_def)
  qed
qed

lemma set_scroll_top_ok:
  fixes st :: "('u::linordered_field, 'f, 'h) list_state"
  assumes "list_tree (ls_items st)"
  shows "\<exists>pending. set_scroll_top st ofs = Some (st\<lparr>ls_pending_scroll := pending, ls_logical_scroll_top := Some ofs\<rparr>)"
  using rebase_pending_scroll_ok [OF assms, of ofs] by (auto simp: set_scroll_top_def)

lemma list_inv_updates [simp]:
  "list_inv (st\<lparr>ls_pending_scroll := p\<rparr>) = list_inv st" "list_inv (st\<lparr>ls_follow_state := f\<rparr>) = list_inv st"
  "list_inv (st\<lparr>ls_logical_scroll_top := Some ofs\<rparr>) \<longleftrightarrow>
     wf_tree list_trait (ls_items st) \<and> nonneg_heights (item_list st) \<and> offset_ok st ofs"
  "offset_ok (st\<lparr>ls_pending_scroll := p\<rparr>) = offset_ok st" "offset_ok (st\<lparr>ls_follow_state := f\<rparr>) = offset_ok st"
  "pixel_top (st\<lparr>ls_pending_scroll := p\<rparr>) = pixel_top st" "pixel_top (st\<lparr>ls_follow_state := f\<rparr>) = pixel_top st"
  "pixel_top (st\<lparr>ls_logical_scroll_top := l\<rparr>) = pixel_top st"
  by (auto simp: list_inv_def offset_ok_def pixel_top_def fun_eq_iff split: option.splits)

text \<open>An offset that lies inside its item, or at or beyond the end of the list.\<close>

definition inside_item :: "('u::linordered_field, 'f, 'h) list_state \<Rightarrow> 'u list_offset \<Rightarrow> bool" where
  "inside_item st ofs \<longleftrightarrow> offset_ok st ofs \<and>
     (lo_item_ix ofs < length (item_list st) \<longrightarrow> lo_offset_in_item ofs < item_height (item_list st ! lo_item_ix ofs))"

lemma lands_inside:
  assumes "lands_in (item_list st) h k"
  defines "ofs \<equiv> \<lparr>lo_item_ix = k, lo_offset_in_item = h - heights (take k (item_list st))\<rparr>"
  shows "inside_item st ofs" "pixel_top st ofs = h"
  using assms(1) by (auto simp: lands_in_def ofs_def inside_item_def offset_ok_def pixel_top_def heights_take_Suc)

lemma cursor_at_height:
  "cursor_at list_trait list_summary_dim t c k \<Longrightarrow>
     lis_height (c_position c) = heights (take k (flatten t)) \<and> lis_count (c_position c) = k"
  by (simp add: cursor_at_def)

lemma scroll_by_ok:
  fixes st :: "('u::linordered_field, 'f, 'h) list_state"
  assumes "list_inv st" "list_fits st" "distance \<noteq> 0"
  shows "\<exists>pending ofs. scroll_by st distance =
      Some (st\<lparr>ls_follow_state := (if distance < 0 then stop_following (ls_follow_state st) else ls_follow_state st),
               ls_pending_scroll := pending, ls_logical_scroll_top := Some ofs\<rparr>) \<and>
    inside_item st ofs \<and> pixel_top st ofs = max (pixel_top st (logical_scroll_top st) + distance) 0"
proof -
  let ?t = "ls_items st" and ?ofs = "logical_scroll_top st"
  let ?st = "st\<lparr>ls_follow_state := (if distance < 0 then stop_following (ls_follow_state st) else ls_follow_state st)\<rparr>"
  define new where "new = max (pixel_top st ?ofs + distance) 0"
  have t: "list_tree ?t" "nonneg_heights (flatten ?t)" using assms(1,2) by (simp_all add: list_inv_def)
  have ofs: "offset_ok st ?ofs" by (rule offset_ok_logical [OF assms(1)])
  obtain c1 found1 where 1: "cursor_seek list_summary_dim (count_target (lo_item_ix ?ofs)) Right (cursor_new list_summary_dim ?t) = Some (c1, found1)"
      "cursor_at list_trait list_summary_dim ?t c1 (lo_item_ix ?ofs)"
    using list_seek_sum_count [OF t(1), of "cursor_new list_summary_dim ?t" "lo_item_ix ?ofs"] ofs by (auto simp: offset_ok_def min_def)
  have start: "lis_height (c_position c1) + lo_offset_in_item ?ofs = pixel_top st ?ofs"
    using cursor_at_height [OF 1(2)] by (simp add: pixel_top_def)
  have le: "heights (take (lo_item_ix ?ofs) (flatten ?t)) \<le> new" if "new > pixel_top st ?ofs"
    using that ofs by (simp add: pixel_top_def offset_ok_def)
  have nonneg: "0 \<le> new" by (simp add: new_def)
  obtain c2 found2 k where 2: "(if new > pixel_top st ?ofs then cursor_seek_forward list_summary_dim (height_target new) Right c1
        else cursor_seek list_summary_dim (height_target new) Right c1) = Some (c2, found2)"
      "cursor_at list_trait list_summary_dim ?t c2 k" "lands_in (flatten ?t) new k"
  proof (cases "new > pixel_top st ?ofs")
    case True
    then show thesis using that list_seek_forward_height [OF t 1(2) le] by auto
  next
    case False
    then show thesis using that list_seek_height [OF t _ nonneg, of c1] 1(2) by (auto simp: cursor_at_def)
  qed
  let ?top = "\<lparr>lo_item_ix = k, lo_offset_in_item = new - heights (take k (flatten ?t))\<rparr>"
  obtain pending where "set_scroll_top ?st ?top = Some (?st\<lparr>ls_pending_scroll := pending, ls_logical_scroll_top := Some ?top\<rparr>)"
    using set_scroll_top_ok [of ?st ?top] t(1) by auto
  moreover have "scroll_by st distance = set_scroll_top ?st ?top"
  proof -
    have "(if distance < 0 then st\<lparr>ls_follow_state := stop_following (ls_follow_state st)\<rparr> else st) = ?st" by simp
    then show ?thesis
      using assms(3) cursor_at_height [OF 2(2)] by (simp add: scroll_by_def Let_def 1(1) start new_def [symmetric] 2(1) cong: if_cong split del: if_split)
  qed
  ultimately show ?thesis using lands_inside [OF 2(3)] by (auto simp: new_def)
qed

lemma scroll_to_height_ok:
  fixes st :: "('u::linordered_field, 'f, 'h) list_state"
  assumes "list_inv st" "list_fits st" "0 \<le> h"
  shows "\<exists>pending l. scroll_to_height st m h = Some (st\<lparr>ls_pending_scroll := pending, ls_logical_scroll_top := l\<rparr>) \<and>
    (case l of None \<Rightarrow> ls_alignment st = AlignBottom \<and> h = m | Some ofs \<Rightarrow> inside_item st ofs \<and> pixel_top st ofs = h)"
proof (cases "ls_alignment st = AlignBottom \<and> h = m")
  case True
  then show ?thesis by (intro exI [of _ None]) (simp add: scroll_to_height_def)
next
  case False
  obtain k where k: "fst (find_tree list_summary_dim (height_target h) Right (ls_items st)) =
      seq_pos list_trait list_summary_dim (take k (item_list st))" "lands_in (item_list st) h k"
    using list_find_height [of "ls_items st" h] assms by (auto simp: list_inv_def)
  let ?ofs = "\<lparr>lo_item_ix = k, lo_offset_in_item = h - heights (take k (item_list st))\<rparr>"
  have "k \<le> length (item_list st)" using k(2) by (simp add: lands_in_def)
  then have "scroll_to_height st m h = set_scroll_top st ?ofs"
    using False k(1) by (auto simp: scroll_to_height_def case_prod_unfold)
  moreover obtain pending where "set_scroll_top st ?ofs = Some (st\<lparr>ls_pending_scroll := pending, ls_logical_scroll_top := Some ?ofs\<rparr>)"
    using set_scroll_top_ok [of st ?ofs] assms(1,2) by (auto simp: list_inv_def)
  ultimately show ?thesis using lands_inside [OF k(2)] by (intro exI [of _ pending] exI [of _ "Some ?ofs"]) simp
qed

lemma scroll_px_offset_ok:
  fixes st :: "('u::linordered_field, 'f, 'h) list_state"
  assumes "list_tree (ls_items st)" "offset_ok st (logical_scroll_top st)"
  shows "scroll_px_offset_for_scrollbar st =
    Some (point_new 0 (- (if ls_logical_scroll_top st = None \<and> ls_alignment st = AlignBottom then max_scroll_offset st
                          else pixel_top st (logical_scroll_top st))))"
proof -
  let ?t = "ls_items st" and ?n = "lo_item_ix (logical_scroll_top st)"
  have "list_sums.seek_ready ?t (count_target ?n) (cursor_new list_summary_dim ?t) 0"
    using assms(1) list_seekable(2) [of ?n list_summary_zero "flatten ?t"] list_sums.seek_from_new [of ?t]
    by (simp add: count_target_def ord_cmp_def)
  from list_two_sums.cursor_summary_ok [OF this, of Right]
  obtain c where "cursor_summary list_summary_dim list_summary_dim (count_target ?n) Right (cursor_new list_summary_dim ?t) =
      Some (c, seq_pos list_trait list_summary_dim (take ?n (flatten ?t)))"
    using assms(2) by (auto simp: list_seek_index offset_ok_def min_def)
  then show ?thesis by (simp add: scroll_px_offset_for_scrollbar_def pixel_top_def Let_def)
qed

text \<open>The item in which a height lies, from below.\<close>

definition ends_in :: "('u::linordered_field, 'f) list_item list \<Rightarrow> 'u \<Rightarrow> nat \<Rightarrow> bool" where
  "ends_in xs h k \<longleftrightarrow> k \<le> length xs \<and> (0 < k \<longrightarrow> heights (take k xs) < h) \<and> (k < length xs \<longrightarrow> h \<le> heights (take (Suc k) xs))"

lemma list_seek_height_left:
  fixes t :: "(('u::linordered_field, 'f) list_item, 'u list_item_summary) node"
  assumes "list_tree t" "nonneg_heights (flatten t)" "c_tree c = t" "0 \<le> h"
  shows "\<exists>c' found k. cursor_seek list_summary_dim (height_target h) Left c = Some (c', found) \<and>
    cursor_at list_trait list_summary_dim t c' k \<and> ends_in (flatten t) h k"
proof -
  let ?xs = "flatten t"
  define k where "k = seek_index list_trait list_summary_dim (height_target h) Left ?xs 0"
  have "heights (take k ?xs) < h" if "0 < k"
    using seek_index_first(1) [OF _ k_def, of "k - 1"] that by (simp add: list_targets not_le)
  moreover have "h \<le> heights (take (Suc k) ?xs)" if "k < length ?xs"
    using seek_index_first(2) [OF _ k_def that] by (simp add: list_targets)
  moreover have "k \<le> length ?xs" by (simp add: k_def seek_index_le)
  ultimately have "ends_in ?xs h k" by (simp add: ends_in_def)
  moreover have "height_target h (list_summary_zero :: 'u list_item_summary) \<noteq> Less"
    using assms(4) by (simp add: height_target_def ord_cmp_def)
  ultimately show ?thesis
    using list_sums.cursor_seek_ok [of t "height_target h" c Left] assms(1,3) list_seekable(3) [OF assms(2), of h list_summary_zero]
    unfolding k_def by simp blast
qed

text \<open>Where \<^verbatim>\<open>scroll_to_reveal_item\<close> wants the scroll top for an item below it.\<close>

definition goal_top :: "('u::linordered_field, 'f, 'h) list_state \<Rightarrow> nat \<Rightarrow> 'u" where
  "goal_top st ix =
     max 0 (heights (take (Suc ix) (item_list st)) + e_top (unwrap_or (ls_last_padding st) edges_default)
       - (case ls_last_layout_bounds st of None \<Rightarrow> 0 | Some bounds \<Rightarrow> s_height (bd_size bounds))
       + e_bottom (unwrap_or (ls_last_padding st) edges_default))"

lemma reveal_ok:
  fixes st :: "('u::linordered_field, 'f, 'h) list_state"
  assumes "list_inv st" "list_fits st"
  shows "\<exists>pending ofs. scroll_to_reveal_item st ix =
      Some (st\<lparr>ls_pending_scroll := pending, ls_logical_scroll_top := Some ofs\<rparr>) \<and>
    (if ix \<le> lo_item_ix (logical_scroll_top st) then ofs = \<lparr>lo_item_ix = ix, lo_offset_in_item = 0\<rparr>
     else \<exists>k. ends_in (item_list st) (goal_top st ix) k \<and>
       ofs = (if k \<ge> lo_item_ix (logical_scroll_top st)
              then \<lparr>lo_item_ix = k, lo_offset_in_item = goal_top st ix - heights (take k (item_list st))\<rparr>
              else logical_scroll_top st))"
proof (cases "ix \<le> lo_item_ix (logical_scroll_top st)")
  case True
  let ?ofs = "(logical_scroll_top st)\<lparr>lo_item_ix := ix, lo_offset_in_item := 0\<rparr>"
  obtain pending where "set_scroll_top st ?ofs = Some (st\<lparr>ls_pending_scroll := pending, ls_logical_scroll_top := Some ?ofs\<rparr>)"
    using set_scroll_top_ok [of st ?ofs] assms by (auto simp: list_inv_def)
  then show ?thesis
    using True by (intro exI [of _ pending] exI [of _ ?ofs]) (simp add: scroll_to_reveal_item_def)
next
  case False
  let ?t = "ls_items st"
  have t: "list_tree ?t" "nonneg_heights (flatten ?t)" using assms by (simp_all add: list_inv_def)
  obtain c1 found1 where 1: "cursor_seek list_summary_dim (count_target (ix + 1)) Right (cursor_new list_summary_dim ?t) = Some (c1, found1)"
      "cursor_at list_trait list_summary_dim ?t c1 (min (ix + 1) (length (flatten ?t)))"
    using list_seek_sum_count [OF t(1), of "cursor_new list_summary_dim ?t" "ix + 1"] by auto
  have bottom: "lis_height (c_position c1) = heights (take (Suc ix) (item_list st))"
    using cursor_at_height [OF 1(2)] by (simp add: min_def split: if_splits)
  have goal: "0 \<le> goal_top st ix" by (simp add: goal_top_def)
  obtain c2 found2 k where 2: "cursor_seek list_summary_dim (height_target (goal_top st ix)) Left c1 = Some (c2, found2)"
      "cursor_at list_trait list_summary_dim ?t c2 k" "ends_in (flatten ?t) (goal_top st ix) k"
    using list_seek_height_left [OF t _ goal, of c1] 1(2) by (auto simp: cursor_at_def)
  let ?ofs = "if k \<ge> lo_item_ix (logical_scroll_top st)
      then \<lparr>lo_item_ix = k, lo_offset_in_item = goal_top st ix - heights (take k (item_list st))\<rparr> else logical_scroll_top st"
  have "scroll_to_reveal_item st ix = set_scroll_top st ?ofs"
    using False 1(1) bottom 2(1) cursor_at_height [OF 2(2)]
    by (simp add: scroll_to_reveal_item_def Let_def goal_top_def [symmetric] offset_set cong: if_cong split del: if_split)
  moreover obtain pending where "set_scroll_top st ?ofs = Some (st\<lparr>ls_pending_scroll := pending, ls_logical_scroll_top := Some ?ofs\<rparr>)"
    using set_scroll_top_ok [OF t(1), of ?ofs] by blast
  ultimately have "scroll_to_reveal_item st ix = Some (st\<lparr>ls_pending_scroll := pending, ls_logical_scroll_top := Some ?ofs\<rparr>)"
    by simp
  then show ?thesis unfolding if_not_P [OF False] using 2(3) by blast
qed

section \<open>Bounds of items\<close>

abbreviation item_dims :: "('u::monoid_add list_item_summary, nat \<times> 'u \<times> unit) dimension" where
  "item_dims \<equiv> dimensions list_count_dim list_height_dim unit_dimension"

lemma item_dims_pos:
  fixes xs :: "('u::linordered_field, 'f) list_item list"
  shows "seq_pos list_trait item_dims xs = (length xs, heights xs, ())"
  by (simp add: dimensions_pos dimensions_zero)

lemma item_dims_seekable:
  fixes xs :: "('u::linordered_field, 'f) list_item list"
  shows "seekable item_dims (first_target (ord_cmp n)) (dim_zero item_dims) (map li_summary xs)"
  by (simp add: dimensions_zero seekable_first_target list_seekable)

lemma item_dims_index:
  fixes xs :: "('u::linordered_field, 'f) list_item list"
  assumes "i \<le> n" "i \<le> length xs"
  shows "seek_index list_trait item_dims (first_target (ord_cmp n)) Right xs i = min n (length xs)"
proof -
  have "first_target (ord_cmp n) = (\<lambda>d :: nat \<times> 'u \<times> unit. ord_cmp n (fst d))" by (auto simp: first_target_def)
  then show ?thesis using seek_index_counting [where f = fst and D = list_trait and M = item_dims and xs = xs and i = i and n = n] assms
    by (simp add: item_dims_pos [simplified])
qed

lemma bounds_for_item_ok:
  fixes st :: "('u::linordered_field, 'f, 'h) list_state"
  assumes "list_tree (ls_items st)" "lo_item_ix (logical_scroll_top st) \<le> ix" "ix < length (item_list st)"
    "item_list st ! ix = Measured sz handle"
  shows "bounds_for_item st ix = Some (Some
    (let viewport = unwrap_or (ls_last_layout_bounds st) bounds_default;
         y = bd_top viewport + heights (take ix (item_list st)) - pixel_top st (logical_scroll_top st)
     in from_corners (point_new (bd_left viewport) y) (point_new (bd_right viewport) (y + s_height sz))))"
proof -
  let ?t = "ls_items st" and ?n = "lo_item_ix (logical_scroll_top st)"
  have zero: "first_target (ord_cmp m) (dim_zero item_dims :: nat \<times> 'u \<times> unit) \<noteq> Less" for m
    by (simp add: first_target_def dimensions_zero ord_cmp_def)
  obtain c1 found1 where 1: "cursor_seek item_dims (first_target (ord_cmp ?n)) Right (cursor_new item_dims ?t) = Some (c1, found1)"
      "cursor_at list_trait item_dims ?t c1 ?n"
    using list_pairs.cursor_seek_ok [of ?t "first_target (ord_cmp ?n)" "cursor_new item_dims ?t" Right] assms(1-3) zero
      item_dims_seekable [of ?n "flatten ?t"] by (auto simp: item_dims_index min_def)
  have pos1: "c_position c1 = (?n, heights (take ?n (flatten ?t)), ())"
    using 1(2) assms(2,3) item_dims_pos [of "take ?n (flatten ?t)"] by (simp add: cursor_at_def)
  have "first_target (ord_cmp ix) (seq_pos list_trait item_dims (take ?n (flatten ?t))) \<noteq> Less"
    using assms(2,3) item_dims_pos [of "take ?n (flatten ?t)"] by (simp add: first_target_def ord_cmp_def)
  then obtain c2 found2 where 2: "cursor_seek_forward item_dims (first_target (ord_cmp ix)) Right c1 = Some (c2, found2)"
      "cursor_at list_trait item_dims ?t c2 ix"
    using list_pairs.cursor_seek_forward_ok [of ?t "first_target (ord_cmp ix)" c1 ?n Right] assms(1-3) item_dims_seekable [of ix "flatten ?t"]
      seek_from_at [OF 1(2)] by (auto simp: item_dims_index min_def)
  have "c_position c2 = (ix, heights (take ix (flatten ?t)), ())"
    using 2(2) assms(3) item_dims_pos [of "take ix (flatten ?t)"] by (simp add: cursor_at_def)
  then show ?thesis
    using assms(2-4) 1(1) 2(1) pos1 cursor_item_at(1) [OF 2(2)]
    by (simp add: bounds_for_item_def pixel_top_def Let_def diff_diff_eq)
qed

section \<open>Properties of scrolling\<close>

text \<open>
  \<^verbatim>\<open>scroll_by\<close> moves the view by exactly the distance, stopping at the top: it finds the item in which
  the new position lies and the offset inside this item, whichever direction it seeks in. Beyond the last item the offset counts on.
\<close>

theorem scroll_by_moves_by_distance:
  assumes "list_inv st" "list_fits st" "distance \<noteq> 0"
  shows "\<exists>st'. scroll_by st distance = Some st' \<and> ls_items st' = ls_items st \<and> list_inv st' \<and>
    inside_item st' (logical_scroll_top st') \<and>
    pixel_top st' (logical_scroll_top st') = max (pixel_top st (logical_scroll_top st) + distance) 0"
proof -
  obtain pending ofs where st': "scroll_by st distance =
      Some (st\<lparr>ls_follow_state := (if distance < 0 then stop_following (ls_follow_state st) else ls_follow_state st),
               ls_pending_scroll := pending, ls_logical_scroll_top := Some ofs\<rparr>)"
      "inside_item st ofs" "pixel_top st ofs = max (pixel_top st (logical_scroll_top st) + distance) 0"
    using scroll_by_ok [OF assms] by blast
  then show ?thesis
    using list_inv_items [OF assms(1)] by (auto simp: logical_scroll_top_def inside_item_def offset_ok_def)
qed

theorem scroll_by_moves_by_distance_witness:
  "\<exists>st'. scroll_by three_items (- 4) = Some st' \<and> pixel_top st' (logical_scroll_top st') = 6"
  using scroll_by_moves_by_distance [OF three_items_ok, of "- 4"]
  by (fastforce simp: three_items_def pixel_top_def logical_scroll_top_def item_height_def)

text \<open>
  The scrollbar and the list agree: after the scrollbar was set to a position, the list reports the same position back, cut off
  at the top and at the end of the content. Bottom-aligned lists at their end and lists that follow their tail are the exceptions.
\<close>

theorem scrollbar_round_trip:
  assumes "list_inv st" "list_fits st" "ls_last_layout_bounds st = Some viewport" "ls_alignment st = AlignTop"
    "ls_follow_state st = FollowNormal"
  shows "\<exists>st'. set_offset_from_scrollbar st pos = Some st' \<and> ls_items st' = ls_items st \<and> list_inv st' \<and>
    scroll_px_offset_for_scrollbar st' = Some (point_new 0 (- min (max (- p_y pos) 0)
      (max (unwrap_or (ls_scrollbar_drag_start_height st) (heights (item_list st)) +
            e_top (unwrap_or (ls_last_padding st) edges_default) + e_bottom (unwrap_or (ls_last_padding st) edges_default)
            - s_height (bd_size viewport)) 0)))"
proof -
  let ?max = "max (unwrap_or (ls_scrollbar_drag_start_height st) (heights (item_list st)) +
            e_top (unwrap_or (ls_last_padding st) edges_default) + e_bottom (unwrap_or (ls_last_padding st) edges_default)
            - s_height (bd_size viewport)) 0"
  let ?y = "min (max (- p_y pos) 0) ?max"
  have t: "list_tree (ls_items st)" using assms(1,2) by (simp add: list_inv_def)
  let ?st0 = "st\<lparr>ls_follow_state := FollowNormal\<rparr>"
  obtain pending ofs where y: "scroll_to_height ?st0 ?max ?y = Some (?st0\<lparr>ls_pending_scroll := pending, ls_logical_scroll_top := Some ofs\<rparr>)"
      "inside_item ?st0 ofs" "pixel_top st ofs = ?y"
    using scroll_to_height_ok [of ?st0 ?y ?max] assms(1,2,4) by (auto split: option.splits)
  let ?st = "?st0\<lparr>ls_pending_scroll := pending, ls_logical_scroll_top := Some ofs\<rparr>"
  have "set_offset_from_scrollbar st pos = Some ?st"
    using assms(3,5) y(1) list_total_simps [of "ls_items st"] t
    by (simp add: set_offset_from_scrollbar_def Let_def stop_following_def)
  moreover have "list_inv ?st" using y(2) list_inv_items [OF assms(1)] by (simp add: inside_item_def offset_ok_def)
  moreover have "scroll_px_offset_for_scrollbar ?st = Some (point_new 0 (- ?y))"
    using scroll_px_offset_ok [of ?st] t y(2,3) by (simp add: logical_scroll_top_def inside_item_def offset_ok_def)
  ultimately show ?thesis by simp
qed

theorem scrollbar_round_trip_witness:
  "\<exists>st'. set_offset_from_scrollbar three_items (point_new 0 (- 100)) = Some st' \<and>
     scroll_px_offset_for_scrollbar st' = Some (point_new 0 (- 8))"
  using scrollbar_round_trip [OF three_items_ok, of "bounds_new (point_new 0 0) \<lparr>s_width = 5, s_height = 10\<rparr>" "point_new 0 (- 100)"]
  by (fastforce simp: three_items_def unwrap_or_def edges_default_def item_height_def bounds_new_def point_new_def)


text \<open>
  The scroll top does not lie behind the end of its item. Scrolling by a distance and setting the scrollbar lead to such a scroll top,
  the start of an item is one whatever its height, and \<^verbatim>\<open>scroll_to_reveal_item\<close> keeps it; \<^verbatim>\<open>scroll_to\<close> takes any offset.
\<close>

definition within_item :: "('u::linordered_field, 'f, 'h) list_state \<Rightarrow> 'u list_offset \<Rightarrow> bool" where
  "within_item st ofs \<longleftrightarrow> offset_ok st ofs \<and>
     (lo_item_ix ofs < length (item_list st) \<longrightarrow> lo_offset_in_item ofs \<le> item_height (item_list st ! lo_item_ix ofs))"

lemma inside_within: "inside_item st ofs \<Longrightarrow> within_item st ofs"
  by (auto simp: inside_item_def within_item_def)

text \<open>The offset that \<^verbatim>\<open>scroll_to_reveal_item\<close> chooses shows the item.\<close>

lemma revealing_offset:
  assumes "nonneg_heights (item_list st)" "ls_last_layout_bounds st = Some viewport" "ix < length (item_list st)"
    "within_item st (logical_scroll_top st)"
    "item_height (item_list st ! ix) + e_top (unwrap_or (ls_last_padding st) edges_default) +
       e_bottom (unwrap_or (ls_last_padding st) edges_default) \<le> s_height (bd_size viewport)"
    "if ix \<le> lo_item_ix (logical_scroll_top st) then ofs = \<lparr>lo_item_ix = ix, lo_offset_in_item = 0\<rparr>
     else \<exists>k. ends_in (item_list st) (goal_top st ix) k \<and>
       ofs = (if k \<ge> lo_item_ix (logical_scroll_top st)
              then \<lparr>lo_item_ix = k, lo_offset_in_item = goal_top st ix - heights (take k (item_list st))\<rparr>
              else logical_scroll_top st)"
  shows "within_item st ofs \<and> pixel_top st ofs \<le> heights (take ix (item_list st)) \<and>
    heights (take (Suc ix) (item_list st)) + e_top (unwrap_or (ls_last_padding st) edges_default) +
      e_bottom (unwrap_or (ls_last_padding st) edges_default) \<le> pixel_top st ofs + s_height (bd_size viewport)"
proof -
  let ?cur = "logical_scroll_top st" and ?pad = "unwrap_or (ls_last_padding st) edges_default"
  note mono = heights_take_mono [OF assms(1)] and suc = heights_take_Suc [OF assms(3)]
  have goal: "goal_top st ix = max 0 (heights (take (Suc ix) (item_list st)) + e_top ?pad - s_height (bd_size viewport) + e_bottom ?pad)"
    using assms(2) by (simp add: goal_top_def)
  have start: "0 \<le> heights (take ix (item_list st))" using heights_nonneg nonneg_sublists(1) [OF assms(1)] by blast
  show ?thesis
  proof (cases "ix \<le> lo_item_ix ?cur")
    case True
    moreover have "0 \<le> item_height (item_list st ! ix)" using assms(1,3) by (simp add: nonneg_heights_def)
    ultimately show ?thesis using assms(6,3,5) suc by (simp add: within_item_def offset_ok_def pixel_top_def algebra_simps)
  next
    case False
    then obtain k where k: "ends_in (item_list st) (goal_top st ix) k"
        "ofs = (if k \<ge> lo_item_ix ?cur
          then \<lparr>lo_item_ix = k, lo_offset_in_item = goal_top st ix - heights (take k (item_list st))\<rparr> else ?cur)"
      using assms(6) by auto
    show ?thesis
    proof (cases "k \<ge> lo_item_ix ?cur")
      case True
      moreover have "heights (take k (item_list st)) \<le> goal_top st ix"
        using k(1) by (cases k) (auto simp: ends_in_def goal)
      moreover have "goal_top st ix \<le> heights (take ix (item_list st))"
        using assms(5) suc start unfolding goal by (simp add: algebra_simps)
      moreover have "heights (take (Suc ix) (item_list st)) + e_top ?pad + e_bottom ?pad \<le> goal_top st ix + s_height (bd_size viewport)"
        using max.cobounded2 [of "heights (take (Suc ix) (item_list st)) + e_top ?pad - s_height (bd_size viewport) + e_bottom ?pad" 0]
        unfolding goal by (simp add: algebra_simps)
      moreover have "goal_top st ix \<le> heights (take (Suc k) (item_list st))" if "k < length (item_list st)"
        using k(1) that by (simp add: ends_in_def)
      ultimately show ?thesis using k heights_take_Suc [of k "item_list st"]
        by (simp add: within_item_def offset_ok_def pixel_top_def ends_in_def algebra_simps)
    next
      case below: False
      have "goal_top st ix \<le> heights (take (Suc k) (item_list st))"
        using k(1) below False assms(3) by (simp add: ends_in_def)
      also have "\<dots> \<le> heights (take (lo_item_ix ?cur) (item_list st))" using mono below by simp
      finally have "goal_top st ix \<le> pixel_top st ?cur"
        using assms(4) by (simp add: pixel_top_def within_item_def offset_ok_def)
      moreover have "pixel_top st ?cur \<le> heights (take (Suc (lo_item_ix ?cur)) (item_list st))"
        using assms(3,4) False heights_take_Suc [of "lo_item_ix ?cur" "item_list st"] by (simp add: pixel_top_def within_item_def)
      moreover have "\<dots> \<le> heights (take ix (item_list st))" using mono False by simp
      ultimately show ?thesis using assms(4) k(2) below unfolding goal by (simp add: algebra_simps)
    qed
  qed
qed

text \<open>
  Claim C18. \<^verbatim>\<open>scroll_to_reveal_item\<close> shows the item: it lies between the top and the bottom of the view afterwards, whether the view had
  to move up, to move down or not at all. Hypotheses: the list is in order (\<open>list_inv\<close>: a well-formed tree of items whose heights are
  not negative, and a scroll top that is an item or the end, with an offset that is not negative) and its tree not too high for the cursor's stack; the list was laid out before, so that the height of the viewport is known; the item exists and
  fits into the viewport together with the padding of the list; and the scroll top does not lie behind the end of its item, which is so after scrolling by a distance or
  with the scrollbar and is so again afterwards. \<^verbatim>\<open>scroll_to\<close> does not check its offset: after it has set one behind the end of its item, the revealed
  item can stay out of view (\<open>reveal_after_scroll_to_behind_item\<close> below).
\<close>

theorem reveal_shows_item:
  assumes "list_inv st" "list_fits st" "ls_last_layout_bounds st = Some viewport" "ix < length (item_list st)"
    "within_item st (logical_scroll_top st)"
    "item_height (item_list st ! ix) + e_top (unwrap_or (ls_last_padding st) edges_default) +
       e_bottom (unwrap_or (ls_last_padding st) edges_default) \<le> s_height (bd_size viewport)"
  shows "\<exists>st'. scroll_to_reveal_item st ix = Some st' \<and> ls_items st' = ls_items st \<and> list_inv st' \<and>
    within_item st' (logical_scroll_top st') \<and> pixel_top st' (logical_scroll_top st') \<le> heights (take ix (item_list st)) \<and>
    heights (take (Suc ix) (item_list st)) + e_top (unwrap_or (ls_last_padding st) edges_default) +
      e_bottom (unwrap_or (ls_last_padding st) edges_default)
      \<le> pixel_top st' (logical_scroll_top st') + s_height (bd_size viewport)"
proof -
  let ?cur = "logical_scroll_top st"
  obtain pending ofs where ofs: "scroll_to_reveal_item st ix = Some (st\<lparr>ls_pending_scroll := pending, ls_logical_scroll_top := Some ofs\<rparr>)"
      "if ix \<le> lo_item_ix ?cur then ofs = \<lparr>lo_item_ix = ix, lo_offset_in_item = 0\<rparr>
       else \<exists>k. ends_in (item_list st) (goal_top st ix) k \<and>
         ofs = (if k \<ge> lo_item_ix ?cur
                then \<lparr>lo_item_ix = k, lo_offset_in_item = goal_top st ix - heights (take k (item_list st))\<rparr> else ?cur)"
    using reveal_ok [OF assms(1,2), of ix] by blast
  from revealing_offset [OF list_inv_items(2) [OF assms(1)] assms(3-6) ofs(2)] show ?thesis
    using ofs(1) list_inv_items [OF assms(1)] by (simp add: logical_scroll_top_def within_item_def offset_ok_def)
qed

theorem reveal_shows_item_witness:
  "\<exists>st'. scroll_to_reveal_item three_items 2 = Some st' \<and> pixel_top st' (logical_scroll_top st') \<le> 14 \<and>
     18 \<le> pixel_top st' (logical_scroll_top st') + 10"
  using reveal_shows_item [OF three_items_ok, of "bounds_new (point_new 0 0) \<lparr>s_width = 5, s_height = 10\<rparr>" 2]
  by (fastforce simp: three_items_def unwrap_or_def edges_default_def item_height_def bounds_new_def point_new_def within_item_def
    offset_ok_def logical_scroll_top_def eval_nat_numeral)

text \<open>
  The offset has to lie within its item: after \<^verbatim>\<open>scroll_to\<close> with an offset behind the end of the second item, revealing the third
  one changes nothing, and its top is above the top of the view.
\<close>

theorem reveal_after_scroll_to_behind_item:
  "\<exists>st1 st2. scroll_to three_items \<lparr>lo_item_ix = 1, lo_offset_in_item = 9\<rparr> = Some st1 \<and>
     scroll_to_reveal_item st1 2 = Some st2 \<and> heights (take 2 (item_list st2)) < pixel_top st2 (logical_scroll_top st2)"
proof -
  have "case scroll_to three_items \<lparr>lo_item_ix = 1, lo_offset_in_item = 9\<rparr> of None \<Rightarrow> False
    | Some st1 \<Rightarrow> (case scroll_to_reveal_item st1 2 of None \<Rightarrow> False
        | Some st2 \<Rightarrow> heights (take 2 (item_list st2)) < pixel_top st2 (logical_scroll_top st2))"
    by code_simp
  then show ?thesis by (auto split: option.splits)
qed

end
