(* ===== verification/StrOps.thy ===== *)
theory StrOps
  imports Prelude "HOL-Library.Sublist"
begin

text \<open>
  The operations of \<^verbatim>\<open>str\<close> and of slices of strings that paths and log filters use: \<^verbatim>\<open>find\<close>, \<^verbatim>\<open>rfind\<close>, \<^verbatim>\<open>split\<close>, \<^verbatim>\<open>join\<close>,
  \<^verbatim>\<open>strip_prefix\<close> and \<^verbatim>\<open>strip_suffix\<close>. A string is the list of its UTF-8 bytes, so that indices are those of the source; all
  separators are ASCII. The interface of a double-ended iterator is here too.
\<close>

section \<open>Searching\<close>

text \<open>\<^verbatim>\<open>s.find(P)\<close> and \<^verbatim>\<open>s.rfind(P)\<close>.\<close>

fun find_ix :: "('a \<Rightarrow> bool) \<Rightarrow> 'a list \<Rightarrow> nat option" where
  "find_ix P [] = None"
| "find_ix P (x # xs) = (if P x then Some 0 else map_option Suc (find_ix P xs))"

fun rfind_ix :: "('a \<Rightarrow> bool) \<Rightarrow> 'a list \<Rightarrow> nat option" where
  "rfind_ix P [] = None"
| "rfind_ix P (x # xs) = (case rfind_ix P xs of Some i \<Rightarrow> Some (Suc i) | None \<Rightarrow> if P x then Some 0 else None)"

lemma find_ix_None [simp]: "find_ix P xs = None \<longleftrightarrow> (\<forall>x \<in> set xs. \<not> P x)"
  by (induction xs) auto

lemma rfind_ix_None [simp]: "rfind_ix P xs = None \<longleftrightarrow> (\<forall>x \<in> set xs. \<not> P x)"
  by (induction xs) (auto split: option.splits)

lemma find_ix_append: "\<forall>x \<in> set xs. \<not> P x \<Longrightarrow> P y \<Longrightarrow> find_ix P (xs @ y # ys) = Some (length xs)"
  by (induction xs) auto

lemma rfind_ix_append: "\<forall>x \<in> set ys. \<not> P x \<Longrightarrow> P y \<Longrightarrow> rfind_ix P (xs @ y # ys) = Some (length xs)"
proof (induction xs)
  case Nil
  then have "rfind_ix P ys = None" by simp
  with Nil.prems(2) show ?case by (simp del: rfind_ix_None)
qed simp

lemma find_ix_SomeE:
  assumes "find_ix P xs = Some i"
  obtains us x vs where "xs = us @ x # vs" "i = length us" "P x" "\<forall>u \<in> set us. \<not> P u"
proof -
  have "\<exists>u \<in> set xs. P u" using assms find_ix_None [of P xs] by fastforce
  then obtain us x vs where "xs = us @ x # vs" "P x" "\<forall>u \<in> set us. \<not> P u" by (metis split_list_first_prop)
  then show thesis using that [of us x vs] assms find_ix_append [of us P x vs] by simp
qed

lemma rfind_ix_SomeE:
  assumes "rfind_ix P xs = Some i"
  obtains us x vs where "xs = us @ x # vs" "i = length us" "P x" "\<forall>v \<in> set vs. \<not> P v"
proof -
  have "\<exists>u \<in> set xs. P u" using assms rfind_ix_None [of P xs] by fastforce
  then obtain us x vs where "xs = us @ x # vs" "P x" "\<forall>v \<in> set vs. \<not> P v" by (metis split_list_last_prop)
  then show thesis using that [of us x vs] assms rfind_ix_append [of vs P x us] by simp
qed

section \<open>Prefixes and suffixes\<close>

text \<open>\<^verbatim>\<open>s.strip_prefix(p)\<close> and \<^verbatim>\<open>s.strip_suffix(p)\<close>.\<close>

definition strip_pre :: "'a list \<Rightarrow> 'a list \<Rightarrow> 'a list option" where
  "strip_pre p s = (if take (length p) s = p then Some (drop (length p) s) else None)"

definition strip_suf :: "'a list \<Rightarrow> 'a list \<Rightarrow> 'a list option" where
  "strip_suf p s = map_option rev (strip_pre (rev p) (rev s))"

lemma strip_pre_Some [simp]: "strip_pre p s = Some r \<longleftrightarrow> s = p @ r"
  by (auto simp: strip_pre_def) (metis append_take_drop_id)

lemma strip_suf_Some [simp]: "strip_suf p s = Some r \<longleftrightarrow> s = r @ p"
  unfolding strip_suf_def by (auto simp: rev_swap)

lemma strip_append [simp]: "strip_pre p (p @ r) = Some r" "strip_pre p p = Some []" "strip_suf p (r @ p) = Some r"
  by simp_all

lemma strip_None: "strip_pre p s = None \<longleftrightarrow> (\<nexists>r. s = p @ r)" "strip_suf p s = None \<longleftrightarrow> (\<nexists>r. s = r @ p)"
  using strip_pre_Some [of p s] strip_suf_Some [of p s] by (metis not_None_eq)+

text \<open>\<^verbatim>\<open>s.starts_with(c)\<close> and \<^verbatim>\<open>s.strip_prefix(c)\<close> for a set of characters.\<close>

definition starts_in :: "('a \<Rightarrow> bool) \<Rightarrow> 'a list \<Rightarrow> bool" where
  "starts_in P s = (case s of [] \<Rightarrow> False | c # _ \<Rightarrow> P c)"

definition strip_first :: "('a \<Rightarrow> bool) \<Rightarrow> 'a list \<Rightarrow> 'a list option" where
  "strip_first P s = (case s of [] \<Rightarrow> None | c # r \<Rightarrow> if P c then Some r else None)"

lemma starts_in_simps [simp]: "\<not> starts_in P []" "starts_in P (c # s) = P c"
  by (simp_all add: starts_in_def)

lemma strip_first_simps [simp]: "strip_first P [] = None" "strip_first P (c # s) = (if P c then Some s else None)"
  by (simp_all add: strip_first_def)

lemma starts_in_append [simp]: "s \<noteq> [] \<Longrightarrow> starts_in P (s @ t) = starts_in P s"
  by (cases s) auto

section \<open>Splitting and joining\<close>

text \<open>\<^verbatim>\<open>s.split(P)\<close>: the pieces between the separators, one more than there are separators.\<close>

fun split_by :: "('a \<Rightarrow> bool) \<Rightarrow> 'a list \<Rightarrow> 'a list list" where
  "split_by P [] = [[]]"
| "split_by P (x # xs) = (if P x then [] # split_by P xs else (case split_by P xs of [] \<Rightarrow> [[x]] | w # ws \<Rightarrow> (x # w) # ws))"

text \<open>\<^verbatim>\<open>pieces.join(sep)\<close> with a separator of one character.\<close>

fun join_by :: "'a \<Rightarrow> 'a list list \<Rightarrow> 'a list" where
  "join_by c [] = []"
| "join_by c [w] = w"
| "join_by c (w # v # ws) = w @ c # join_by c (v # ws)"

lemma split_by_ne [simp]: "split_by P s \<noteq> []"
  by (induction s) (auto split: list.splits)

lemma split_by_single: "\<forall>x \<in> set w. \<not> P x \<Longrightarrow> split_by P w = [w]"
  by (induction w) auto

lemma split_by_word: "\<forall>x \<in> set w. \<not> P x \<Longrightarrow> P c \<Longrightarrow> split_by P (w @ c # s) = w # split_by P s"
  by (induction w) auto

lemma split_by_append: "P c \<Longrightarrow> split_by P (s @ c # t) = split_by P s @ split_by P t"
proof (induction s)
  case (Cons x s)
  then show ?case by (cases "split_by P s") auto
qed simp

lemma split_by_pieces: "w \<in> set (split_by P s) \<Longrightarrow> \<forall>x \<in> set w. \<not> P x"
proof (induction s arbitrary: w)
  case (Cons x s)
  then show ?case by (cases "split_by P s") (fastforce split: if_splits)+
qed simp

lemma join_by_Cons: "ws \<noteq> [] \<Longrightarrow> join_by c (w # ws) = w @ c # join_by c ws"
  by (cases ws) simp_all

lemma join_by_snoc: "ws \<noteq> [] \<Longrightarrow> join_by c (ws @ [w]) = join_by c ws @ c # w"
  by (induction ws rule: join_by.induct [of _ c]) auto

lemma join_by_append: "vs \<noteq> [] \<Longrightarrow> ws \<noteq> [] \<Longrightarrow> join_by c (vs @ ws) = join_by c vs @ c # join_by c ws"
  by (induction vs rule: join_by.induct [of _ c]) (auto simp: join_by_Cons)

lemma split_join: "ws \<noteq> [] \<Longrightarrow> \<forall>w \<in> set ws. c \<notin> set w \<Longrightarrow> split_by (\<lambda>x. x = c) (join_by c ws) = ws"
proof (induction ws rule: join_by.induct [of _ c])
  case (2 c w)
  then have "\<forall>x \<in> set w. x \<noteq> c" by auto
  then show ?case by (simp add: split_by_single)
next
  case (3 c w v ws)
  then have "\<forall>x \<in> set w. x \<noteq> c" by auto
  then show ?case using 3 by (simp add: split_by_word)
qed simp

lemma join_split: "join_by c (split_by (\<lambda>x. x = c) s) = s"
proof (induction s)
  case (Cons x s)
  obtain w ws where ws: "split_by (\<lambda>x. x = c) s = w # ws" by (meson list.exhaust split_by_ne)
  then show ?case using Cons by (cases ws) auto
qed simp

lemma length_split_by: "length (split_by P s) = Suc (length (filter P s))"
  by (induction s) (auto split: list.splits)

lemma split_by_cong: "(\<And>x. x \<in> set s \<Longrightarrow> P x = Q x) \<Longrightarrow> split_by P s = split_by Q s"
  by (induction s) auto

text \<open>\<^verbatim>\<open>s.split_once(P)\<close>.\<close>

definition split_once :: "('a \<Rightarrow> bool) \<Rightarrow> 'a list \<Rightarrow> ('a list \<times> 'a list) option" where
  "split_once P s = map_option (\<lambda>i. (take i s, drop (i + 1) s)) (find_ix P s)"

text \<open>\<^verbatim>\<open>s.replace(a, b)\<close> for characters.\<close>

definition replace_char :: "'a \<Rightarrow> 'a \<Rightarrow> 'a list \<Rightarrow> 'a list" where
  "replace_char a b s = map (\<lambda>c. if c = a then b else c) s"

lemma replace_char_absent: "a \<notin> set s \<Longrightarrow> replace_char a b s = s"
  by (induction s) (auto simp: replace_char_def)

lemma split_replace: "split_by (\<lambda>x. x = b) (replace_char a b s) = split_by (\<lambda>x. x = a \<or> x = b) s"
proof (induction s)
  case (Cons x s)
  then show ?case by (simp add: replace_char_def)
qed (simp add: replace_char_def)

section \<open>Double-ended iterators\<close>

text \<open>
  The contract of an iterator that can be advanced from both ends (\<^verbatim>\<open>DoubleEndedIterator\<close>): its states stand for the
  list of what is left; \<^verbatim>\<open>next\<close> takes the first element and \<^verbatim>\<open>next_back\<close> the last.
\<close>

locale double_ended =
  fixes forth :: "'s \<Rightarrow> 'a option \<times> 's"
    and back_forth :: "'s \<Rightarrow> 'a option \<times> 's"
    and inv :: "'s \<Rightarrow> bool"
    and content :: "'s \<Rightarrow> 'a list"
  assumes forth_empty: "inv s \<Longrightarrow> content s = [] \<Longrightarrow> fst (forth s) = None"
    and forth_step: "inv s \<Longrightarrow> content s = x # xs \<Longrightarrow> fst (forth s) = Some x \<and> inv (snd (forth s)) \<and> content (snd (forth s)) = xs"
    and back_empty: "inv s \<Longrightarrow> content s = [] \<Longrightarrow> fst (back_forth s) = None"
    and back_step: "inv s \<Longrightarrow> content s = xs @ [x] \<Longrightarrow>
      fst (back_forth s) = Some x \<and> inv (snd (back_forth s)) \<and> content (snd (back_forth s)) = xs"

text \<open>
  A sequence of calls, \<open>True\<close> for \<^verbatim>\<open>next_back\<close>: what \<^verbatim>\<open>next\<close> and what \<^verbatim>\<open>next_back\<close> returned, and the last state.
\<close>

fun run_calls :: "('s \<Rightarrow> 'a option \<times> 's) \<Rightarrow> ('s \<Rightarrow> 'a option \<times> 's) \<Rightarrow> bool list \<Rightarrow> 's \<Rightarrow> 'a option list \<times> 'a option list \<times> 's" where
  "run_calls f b [] s = ([], [], s)"
| "run_calls f b (False # calls) s = (let (x, s') = f s; (xs, ys, t) = run_calls f b calls s' in (x # xs, ys, t))"
| "run_calls f b (True # calls) s = (let (y, s') = b s; (xs, ys, t) = run_calls f b calls s' in (xs, y # ys, t))"

context double_ended
begin

text \<open>However the calls are interleaved, they yield every element once, and the two ends meet.\<close>

lemma calls_take_both_ends:
  "inv s \<Longrightarrow> length calls \<le> length (content s) \<Longrightarrow>
   (case run_calls forth back_forth calls s of (xs, ys, t) \<Rightarrow>
      \<exists>us vs. xs = map Some us \<and> ys = map Some vs \<and> content s = us @ content t @ rev vs \<and> inv t)"
proof (induction calls arbitrary: s)
  case (Cons call calls)
  then have ne: "content s \<noteq> []" by auto
  show ?case
  proof (cases call)
    case True
    obtain xs x where s: "content s = xs @ [x]" using ne by (metis append_butlast_last_id)
    obtain y s' where b: "back_forth s = (y, s')" by fastforce
    have s': "y = Some x" "inv s'" "content s' = xs" using back_step [OF Cons.prems(1) s] b by simp_all
    show ?thesis using True Cons.IH [OF s'(2)] Cons.prems(2) s s' b
      by (fastforce split: prod.splits intro: exI [where x = "x # vs" for vs])
  next
    case False
    obtain x xs where s: "content s = x # xs" using ne by (cases "content s") auto
    obtain y s' where f: "forth s = (y, s')" by fastforce
    have s': "y = Some x" "inv s'" "content s' = xs" using forth_step [OF Cons.prems(1) s] f by simp_all
    show ?thesis using False Cons.IH [OF s'(2)] Cons.prems(2) s s' f
      by (fastforce split: prod.splits intro: exI [where x = "x # us" for us])
  qed
qed auto

lemma calls_exhaust:
  assumes "inv s" "length calls = length (content s)"
  shows "\<exists>us vs t. run_calls forth back_forth calls s = (map Some us, map Some vs, t) \<and> content s = us @ rev vs \<and>
    fst (forth t) = None \<and> fst (back_forth t) = None"
proof -
  obtain xs ys t where r: "run_calls forth back_forth calls s = (xs, ys, t)" by (metis prod_cases3)
  then obtain us vs where uv: "xs = map Some us" "ys = map Some vs" "content s = us @ content t @ rev vs" "inv t"
    using calls_take_both_ends [OF assms(1), of calls] assms(2) by auto
  have "length xs + length ys = length calls"
    using r by (induction forth back_forth calls s arbitrary: xs ys t rule: run_calls.induct) (auto simp: Let_def split: prod.splits)
  then have "content t = []" using uv assms(2) by simp
  then show ?thesis using r uv forth_empty [OF uv(4)] back_empty [OF uv(4)] by auto
qed

end

section \<open>Total orders\<close>

text \<open>\<^verbatim>\<open>Ord\<close> of iterators, slices and arrays is lexicographic, and \<^verbatim>\<open>Ord for str\<close> compares bytes.\<close>

fun list_cmp :: "('a \<Rightarrow> 'a \<Rightarrow> ordering) \<Rightarrow> 'a list \<Rightarrow> 'a list \<Rightarrow> ordering" where
  "list_cmp cmp [] [] = Equal"
| "list_cmp cmp [] (y # ys) = Less"
| "list_cmp cmp (x # xs) [] = Greater"
| "list_cmp cmp (x # xs) (y # ys) = (case cmp x y of Equal \<Rightarrow> list_cmp cmp xs ys | r \<Rightarrow> r)"

definition str_cmp :: "string \<Rightarrow> string \<Rightarrow> ordering" where
  "str_cmp s t = list_cmp (\<lambda>c d. ord_cmp (of_char c :: nat) (of_char d)) s t"

text \<open>The contract of \<^verbatim>\<open>Ord\<close>: a comparison that is a total order and agrees with equality.\<close>

locale total_cmp =
  fixes cmp :: "'a \<Rightarrow> 'a \<Rightarrow> ordering"
  assumes cmp_eq: "cmp x y = Equal \<longleftrightarrow> x = y"
    and cmp_swap: "cmp x y = Less \<longleftrightarrow> cmp y x = Greater"
    and cmp_trans: "cmp x y = Less \<Longrightarrow> cmp y z = Less \<Longrightarrow> cmp x z = Less"

context total_cmp
begin

lemma cmp_refl: "cmp x x = Equal"
  by (simp add: cmp_eq)

lemma list_cmp_eq: "list_cmp cmp xs ys = Equal \<longleftrightarrow> xs = ys"
proof (induction xs ys rule: list_induct2')
  case (4 x xs y ys)
  then show ?case using cmp_eq [of x y] by (cases "cmp x y") auto
qed simp_all

lemma list_cmp_swap: "list_cmp cmp xs ys = Less \<longleftrightarrow> list_cmp cmp ys xs = Greater"
proof (induction xs ys rule: list_induct2')
  case (4 x xs y ys)
  then show ?case using cmp_swap [of x y] cmp_swap [of y x] cmp_eq [of x y] cmp_eq [of y x]
    by (cases "cmp x y"; cases "cmp y x") auto
qed simp_all

lemma list_cmp_trans: "list_cmp cmp xs ys = Less \<Longrightarrow> list_cmp cmp ys zs = Less \<Longrightarrow> list_cmp cmp xs zs = Less"
proof (induction xs arbitrary: ys zs)
  case Nil
  then show ?case by (cases ys; cases zs) auto
next
  case (Cons x xs)
  then obtain y ys' z zs' where yz: "ys = y # ys'" "zs = z # zs'" by (cases ys; cases zs) auto
  then show ?case
    using Cons cmp_trans [of x y z] cmp_eq [of x y] cmp_eq [of y z]
    by (cases "cmp x y"; cases "cmp y z") (auto simp: cmp_refl split: ordering.splits)
qed

lemma list_order: "total_cmp (list_cmp cmp)"
  by unfold_locales (fact list_cmp_eq list_cmp_swap list_cmp_trans)+

end

interpretation byte_order: total_cmp "\<lambda>c d :: char. ord_cmp (of_char c :: nat) (of_char d)"
  by unfold_locales auto

interpretation string_order: total_cmp str_cmp
  using byte_order.list_order unfolding str_cmp_def [abs_def] .

interpretation component_order: total_cmp "list_cmp str_cmp"
  by (rule string_order.list_order)

end
