(* ===== verification/RelPath.thy ===== *)
theory RelPath
  imports StrOps
begin

text \<open>
  Paths that are relative and normalised (\<^verbatim>\<open>crates/path/src/rel_path.rs\<close>) and paths as strings in the style of an
  operating system (\<^verbatim>\<open>PathStyle\<close> of \<^verbatim>\<open>crates/path/src/path.rs\<close>). A path of the standard library is the
  string it holds, or \<open>None\<close> when it is not valid UTF-8.
\<close>

section \<open>Path styles\<close>

datatype path_style = StyleUnix | StyleWindows

definition primary_separator :: "path_style \<Rightarrow> char" where
  "primary_separator style = (case style of StyleUnix \<Rightarrow> CHR ''/'' | StyleWindows \<Rightarrow> CHR 0x5C)"

definition separators :: "path_style \<Rightarrow> char list" where
  "separators style = (case style of StyleUnix \<Rightarrow> ''/'' | StyleWindows \<Rightarrow> [CHR 0x5C, CHR ''/''])"

abbreviation is_sep :: "path_style \<Rightarrow> char \<Rightarrow> bool" where
  "is_sep style c \<equiv> c \<in> set (separators style)"

definition is_ascii_alphabetic :: "char \<Rightarrow> bool" where
  "is_ascii_alphabetic c = (let n = of_char c :: nat in 65 \<le> n \<and> n \<le> 90 \<or> 97 \<le> n \<and> n \<le> 122)"

definition is_absolute :: "string \<Rightarrow> path_style \<Rightarrow> bool" where
  "is_absolute path_like style \<longleftrightarrow>
     starts_in (\<lambda>c. c = CHR ''/'') path_like \<or>
     style = StyleWindows \<and>
       (starts_in (\<lambda>c. c = CHR 0x5C) path_like \<or>
        starts_in is_ascii_alphabetic path_like \<and>
          (case strip_first (\<lambda>c. c = CHR '':'') (tl path_like) of
             None \<Rightarrow> False
           | Some path \<Rightarrow> starts_in (\<lambda>c. c = CHR ''/'') path \<or> starts_in (\<lambda>c. c = CHR 0x5C) path))"

datatype path_error = NonUtf8 | AbsoluteNotAllowed string | NotRelative string | InvalidRelPath string | InvalidComponent string | MustBeRelative string

definition style_join :: "path_style \<Rightarrow> string option \<Rightarrow> string option \<Rightarrow> string option" where
  "style_join style left right = do {
     right \<leftarrow> right;
     (if is_absolute right style then None
      else do {
        left \<leftarrow> left;
        Some
          (if left = [] then right
           else left @ (if last left = primary_separator style then [] else [primary_separator style]) @ right) }) }"

text \<open>The loop over the components that both branches of \<^verbatim>\<open>normalize\<close> have.\<close>

fun normalize_components :: "bool \<Rightarrow> string list \<Rightarrow> string list \<Rightarrow> string list" where
  "normalize_components keep_parents [] components = components"
| "normalize_components keep_parents (c # cs) components =
     normalize_components keep_parents cs
       (if c = '''' \<or> c = ''.'' then components
        else if c = ''..'' then
          (if components \<noteq> [] \<and> last components \<noteq> ''..'' then butlast components
           else if keep_parents then components @ [c] else components)
        else components @ [c])"

abbreviation win_sep :: "char \<Rightarrow> bool" where
  "win_sep c \<equiv> c = CHR 0x5C \<or> c = CHR ''/''"

definition windows_prefix :: "string \<Rightarrow> string + string \<times> string" where
  "windows_prefix path_like =
     (case (case split_once (\<lambda>c. c = CHR '':'') path_like of
              Some (drive, remainder) \<Rightarrow>
                (if length drive = 1 \<and> is_ascii_alphabetic (hd drive) then Some (drive, remainder) else None)
            | None \<Rightarrow> None) of
        Some (drive, remainder) \<Rightarrow>
          (case strip_first win_sep remainder of
             Some remainder \<Rightarrow> Inr (drive @ [CHR '':'', CHR 0x5C], remainder)
           | None \<Rightarrow> Inr (drive @ '':'', remainder))
      | None \<Rightarrow>
          (case (case strip_pre [CHR 0x5C, CHR 0x5C] path_like of Some r \<Rightarrow> Some r | None \<Rightarrow> strip_pre ''//'' path_like) of
             Some remainder \<Rightarrow>
               (case split_once win_sep remainder of
                  None \<Rightarrow> Inl path_like
                | Some (server, remainder) \<Rightarrow>
                    (case split_once win_sep remainder of
                       None \<Rightarrow> Inl ([CHR 0x5C, CHR 0x5C] @ server @ [CHR 0x5C] @ remainder)
                     | Some (share, remainder) \<Rightarrow>
                         Inr ([CHR 0x5C, CHR 0x5C] @ server @ [CHR 0x5C] @ share @ [CHR 0x5C], remainder)))
           | None \<Rightarrow>
               (case strip_first win_sep path_like of
                  Some remainder \<Rightarrow> Inr ([CHR 0x5C], remainder)
                | None \<Rightarrow> Inr ([], path_like))))"

definition normalize :: "path_style \<Rightarrow> string \<Rightarrow> string" where
  "normalize style path_like =
     (case style of
        StyleWindows \<Rightarrow>
          (case windows_prefix path_like of
             Inl unchanged \<Rightarrow> unchanged
           | Inr (root, remainder) \<Rightarrow>
               root @ join_by (CHR 0x5C) (normalize_components (root = []) (split_by win_sep remainder) []))
      | StyleUnix \<Rightarrow>
          (let absolute = starts_in (\<lambda>c. c = CHR ''/'') path_like;
               remainder = (if absolute then dropWhile (\<lambda>c. c = CHR ''/'') path_like else path_like);
               normalized = join_by (CHR ''/'') (normalize_components (\<not> absolute) (split_by (is_sep StyleUnix) remainder) [])
           in if absolute \<and> normalized = [] then ''/''
              else if absolute then CHR ''/'' # normalized
              else normalized))"

definition join_path :: "path_style \<Rightarrow> string option \<Rightarrow> string option \<Rightarrow> path_error + string" where
  "join_path style left right =
     (case left of None \<Rightarrow> Inl NonUtf8
      | Some left \<Rightarrow>
          (case right of None \<Rightarrow> Inl NonUtf8
           | Some right \<Rightarrow>
               (case style_join style (Some left) (Some right) of
                  None \<Rightarrow> Inl (MustBeRelative right)
                | Some joined \<Rightarrow> Inr (normalize style joined))))"

definition join_path_preserving_components :: "path_style \<Rightarrow> string option \<Rightarrow> string option \<Rightarrow> path_error + string" where
  "join_path_preserving_components style left right =
     (case left of None \<Rightarrow> Inl NonUtf8
      | Some left \<Rightarrow>
          (case right of None \<Rightarrow> Inl NonUtf8
           | Some right \<Rightarrow>
               (case style_join style (Some left) (Some right) of
                  None \<Rightarrow> Inl (MustBeRelative right)
                | Some joined \<Rightarrow> Inr joined)))"

definition style_split :: "path_style \<Rightarrow> string \<Rightarrow> string option \<times> string" where
  "style_split style path_like =
     (case rfind_ix (\<lambda>c. c = primary_separator style) path_like of
        None \<Rightarrow> (None, path_like)
      | Some pos \<Rightarrow> (Some (take (pos + 1) path_like), drop (pos + 1) path_like))"

section \<open>Components\<close>

abbreviation slash :: char where
  "slash \<equiv> CHR ''/''"

text \<open>\<^verbatim>\<open>RelPathComponents\<close>: the state is the part of the path that is left.\<close>

definition components_next :: "string \<Rightarrow> string option \<times> string" where
  "components_next s =
     (case find_ix (\<lambda>c. c = slash) s of
        Some sep_ix \<Rightarrow> (Some (take sep_ix s), drop 1 (drop sep_ix s))
      | None \<Rightarrow> (if s = [] then (None, s) else (Some s, [])))"

definition components_next_back :: "string \<Rightarrow> string option \<times> string" where
  "components_next_back s =
     (case rfind_ix (\<lambda>c. c = slash) s of
        Some sep_ix \<Rightarrow> (Some (drop 1 (drop sep_ix s)), take sep_ix s)
      | None \<Rightarrow> (if s = [] then (None, s) else (Some s, [])))"

lemma components_next_shorter: "components_next s = (Some c, r) \<Longrightarrow> length r < length s"
proof (cases "find_ix (\<lambda>c. c = CHR ''/'') s")
  case (Some i)
  assume "components_next s = (Some c, r)"
  then have "r = drop 1 (drop i s)" "s \<noteq> []" using Some by (auto simp: components_next_def)
  then show ?thesis by (cases s) auto
qed (auto simp: components_next_def simp del: find_ix_None split: if_splits)

text \<open>What the iterator yields until it ends.\<close>

function components :: "string \<Rightarrow> string list" where
  "components s = (case components_next s of (None, _) \<Rightarrow> [] | (Some c, r) \<Rightarrow> c # components r)"
  by pat_completeness auto
termination components
  by (relation "measure length") (auto intro: components_next_shorter [OF sym])

declare components.simps [simp del]

section \<open>Relative paths\<close>

text \<open>The buffer \<^verbatim>\<open>RelPathBuf\<close>.\<close>

definition rel_pop :: "string \<Rightarrow> string \<times> bool" where
  "rel_pop s =
     (case rfind_ix (\<lambda>c. c = slash) s of
        Some ix \<Rightarrow> (take ix s, True)
      | None \<Rightarrow> (if s \<noteq> [] then ([], True) else (s, False)))"

definition rel_push :: "string \<Rightarrow> string \<Rightarrow> string" where
  "rel_push s path = (if path = [] then s else (if s \<noteq> [] then s @ [slash] else s) @ path)"

definition push_component :: "string \<Rightarrow> string \<Rightarrow> path_error + string" where
  "push_component s c =
     (if c \<noteq> [] \<and> slash \<notin> set c \<and> c \<noteq> ''.'' \<and> c \<noteq> ''..''
      then Inr ((if s \<noteq> [] then s @ [slash] else s) @ c)
      else Inl (InvalidComponent c))"

datatype 'a cow = Borrowed 'a | Owned 'a

fun cow_value :: "'a cow \<Rightarrow> 'a" where
  "cow_value (Borrowed x) = x"
| "cow_value (Owned x) = x"

text \<open>The two loops at the start of \<^verbatim>\<open>RelPath::new\<close>.\<close>

fun strip_current_dirs :: "path_style \<Rightarrow> string \<Rightarrow> string" where
  "strip_current_dirs style (c # d # s) = (if c = CHR ''.'' \<and> is_sep style d then strip_current_dirs style s else c # d # s)"
| "strip_current_dirs style s = s"

function trim_separators :: "path_style \<Rightarrow> string \<Rightarrow> string" where
  "trim_separators style s =
     (if s \<noteq> [] \<and> is_sep style (last s) \<and> butlast s \<noteq> [] then trim_separators style (butlast s) else s)"
  by pat_completeness auto
termination trim_separators
  by (relation "measure (length \<circ> snd)") auto

declare trim_separators.simps [simp del]

fun normalize_loop :: "string list \<Rightarrow> string \<Rightarrow> string option" where
  "normalize_loop [] normalized = Some normalized"
| "normalize_loop (c # cs) normalized =
     (if c = '''' \<or> c = ''.'' then normalize_loop cs normalized
      else if c = ''..'' then
        (let (normalized', popped) = rel_pop normalized in if \<not> popped then None else normalize_loop cs normalized')
      else normalize_loop cs (rel_push normalized c))"

definition rel_new :: "string option \<Rightarrow> path_style \<Rightarrow> path_error + string cow" where
  "rel_new path style =
     (case path of None \<Rightarrow> Inl NonUtf8
      | Some path \<Rightarrow>
          (let path = trim_separators style (strip_current_dirs style path)
           in if is_absolute path style then Inl (AbsoluteNotAllowed path)
              else
                let result =
                  (if style = StyleWindows \<and> CHR 0x5C \<in> set path then Owned (replace_char (CHR 0x5C) slash path) else Borrowed path)
                in if list_ex (\<lambda>c. c = '''' \<or> c = ''.'' \<or> c = ''..'') (components (cow_value result))
                   then (case normalize_loop (components (cow_value result)) [] of
                           None \<Rightarrow> Inl (NotRelative (cow_value result))
                         | Some normalized \<Rightarrow> Inr (Owned normalized))
                   else Inr result))"

definition from_unix_str :: "string option \<Rightarrow> path_error + string" where
  "from_unix_str path =
     (case rel_new path StyleUnix of
        Inl e \<Rightarrow> Inl e
      | Inr (Borrowed p) \<Rightarrow> Inr p
      | Inr (Owned _) \<Rightarrow> Inl (case path of None \<Rightarrow> NonUtf8 | Some p \<Rightarrow> InvalidRelPath p))"


definition rel_is_empty :: "string \<Rightarrow> bool" where
  "rel_is_empty s = (s = [])"

definition rel_file_name :: "string \<Rightarrow> string option" where
  "rel_file_name s = fst (components_next_back s)"

definition rel_parent :: "string \<Rightarrow> string option" where
  "rel_parent s = (case components_next_back s of (None, _) \<Rightarrow> None | (Some _, rest) \<Rightarrow> Some rest)"

definition rel_strip_prefix :: "string \<Rightarrow> string \<Rightarrow> string option" where
  "rel_strip_prefix s other =
     (if other = [] then Some s
      else (case strip_pre other s of
              None \<Rightarrow> None
            | Some suffix' \<Rightarrow>
                (case strip_first (\<lambda>c. c = slash) suffix' of
                   Some suffix' \<Rightarrow> Some suffix'
                 | None \<Rightarrow> if suffix' = [] then Some [] else None)))"

definition rel_starts_with :: "string \<Rightarrow> string \<Rightarrow> bool" where
  "rel_starts_with s other = (rel_strip_prefix s other \<noteq> None)"

definition is_descendant_of :: "string \<Rightarrow> string \<Rightarrow> bool" where
  "is_descendant_of s ancestor = (if ancestor = [] \<or> s = ancestor then False else rel_starts_with s ancestor)"

definition rel_ends_with :: "string \<Rightarrow> string \<Rightarrow> bool" where
  "rel_ends_with s other =
     (if other = [] then True
      else (case strip_suf other s of
              None \<Rightarrow> False
            | Some suffix' \<Rightarrow> if suffix' \<noteq> [] \<and> last suffix' = slash then True else suffix' = []))"

definition rel_len :: "string \<Rightarrow> nat" where
  "rel_len s = (if s = [] then 0 else length (filter (\<lambda>c. c = slash) s) + 1)"

fun skip_components :: "nat \<Rightarrow> string \<Rightarrow> string option" where
  "skip_components 0 s = Some s"
| "skip_components (Suc n) s = (case components_next s of (None, _) \<Rightarrow> None | (Some _, r) \<Rightarrow> skip_components n r)"

definition last_n_components :: "string \<Rightarrow> nat \<Rightarrow> string option" where
  "last_n_components s count = (let len = rel_len s in if len \<ge> count then skip_components (len - count) s else None)"

definition rel_join :: "string \<Rightarrow> string \<Rightarrow> string" where
  "rel_join s other = (if s = [] then other else if other = [] then s else s @ slash # other)"

definition display :: "string \<Rightarrow> path_style \<Rightarrow> string cow" where
  "display s style =
     (case style of
        StyleUnix \<Rightarrow> Borrowed s
      | StyleWindows \<Rightarrow> if slash \<in> set s then Owned (replace_char slash (CHR 0x5C) s) else Borrowed s)"

text \<open>\<^verbatim>\<open>Ord for RelPath\<close> compares the components one by one, each as the string of its bytes.\<close>

definition rel_cmp :: "string \<Rightarrow> string \<Rightarrow> ordering" where
  "rel_cmp s t = list_cmp str_cmp (components s) (components t)"

section \<open>Ancestors\<close>

record ancestors_state =
  ra_full :: string
  ra_front :: nat
  ra_back :: nat
  ra_done :: bool

definition ancestors :: "string \<Rightarrow> ancestors_state" where
  "ancestors s = \<lparr>ra_full = s, ra_front = length s, ra_back = 0, ra_done = False\<rparr>"

definition ancestors_next :: "ancestors_state \<Rightarrow> string option \<times> ancestors_state" where
  "ancestors_next a =
     (if ra_done a then (None, a)
      else
        let result = take (ra_front a) (ra_full a)
        in (Some result,
            if ra_front a = ra_back a then a\<lparr>ra_done := True\<rparr>
            else a\<lparr>ra_front := (case rfind_ix (\<lambda>c. c = slash) result of Some ix \<Rightarrow> ix | None \<Rightarrow> 0)\<rparr>))"

definition ancestors_next_back :: "ancestors_state \<Rightarrow> string option \<times> ancestors_state" where
  "ancestors_next_back a =
     (if ra_done a then (None, a)
      else
        let result = take (ra_back a) (ra_full a)
        in (Some result,
            if ra_front a = ra_back a then a\<lparr>ra_done := True\<rparr>
            else
              let search_start = (if ra_back a = 0 then 0 else ra_back a + 1)
              in a\<lparr>ra_back := (case find_ix (\<lambda>c. c = slash) (drop search_start (ra_full a)) of
                                 Some sep_ix \<Rightarrow> search_start + sep_ix
                               | None \<Rightarrow> length (ra_full a))\<rparr>))"

section \<open>Stripping a prefix in a path style\<close>

definition eq_ignore_ascii_case_char :: "char \<Rightarrow> char \<Rightarrow> bool" where
  "eq_ignore_ascii_case_char c d =
     (let lower = (\<lambda>c. let n = of_char c :: nat in if 65 \<le> n \<and> n \<le> 90 then n + 32 else n) in lower c = lower d)"

definition style_strip_prefix :: "path_style \<Rightarrow> string option \<Rightarrow> string option \<Rightarrow> string cow option" where
  "style_strip_prefix style child parent = do {
     parent \<leftarrow> parent;
     (if parent = [] then (case rel_new child style of Inr r \<Rightarrow> Some r | Inl _ \<Rightarrow> None)
      else do {
        let parent = (case List.find (\<lambda>sep. last parent = sep) (separators style) of Some _ \<Rightarrow> butlast parent | None \<Rightarrow> parent);
        child \<leftarrow> child;
        stripped \<leftarrow>
          (if style = StyleWindows \<and> get_opt child 1 = Some (CHR '':'') \<and> get_opt parent 1 = Some (CHR '':'') \<and>
              eq_ignore_ascii_case_char (child ! 0) (parent ! 0)
           then strip_pre (drop 2 parent) (drop 2 child)
           else strip_pre parent child);
        (case strip_first (is_sep style) stripped of
           Some relative \<Rightarrow> (case rel_new (Some relative) style of Inr r \<Rightarrow> Some r | Inl _ \<Rightarrow> None)
         | None \<Rightarrow> if stripped = [] then Some (Borrowed []) else None) }) }"

section \<open>Valid paths and their components\<close>

text \<open>
  A valid path is the sequence of its components, none of them empty, a dot or two dots; this is what the type
  \<^verbatim>\<open>RelPath\<close> promises.
\<close>

definition good_component :: "string \<Rightarrow> bool" where
  "good_component c \<longleftrightarrow> c \<noteq> [] \<and> slash \<notin> set c \<and> c \<noteq> ''.'' \<and> c \<noteq> ''..''"

definition valid_rel :: "string \<Rightarrow> bool" where
  "valid_rel s \<longleftrightarrow> list_all good_component (components s) \<and> s = join_by slash (components s)"

lemma components_Nil [simp]: "components [] = []"
  by (simp add: components.simps components_next_def)

lemma components_single: "w \<noteq> [] \<Longrightarrow> slash \<notin> set w \<Longrightarrow> components w = [w]"
proof -
  assume w: "w \<noteq> []" "slash \<notin> set w"
  then have "find_ix (\<lambda>c. c = slash) w = None" by auto
  with w(1) have "components_next w = (Some w, [])" by (simp add: components_next_def del: find_ix_None)
  then show ?thesis by (simp add: components.simps [of w])
qed

lemma components_word: "slash \<notin> set w \<Longrightarrow> components (w @ slash # s) = w # components s"
proof -
  assume "slash \<notin> set w"
  then have "find_ix (\<lambda>c. c = slash) (w @ slash # s) = Some (length w)" by (intro find_ix_append) auto
  then have "components_next (w @ slash # s) = (Some w, s)" by (simp add: components_next_def)
  then show ?thesis by (simp add: components.simps [of "w @ slash # s"])
qed

lemma components_join: "list_all good_component cs \<Longrightarrow> components (join_by slash cs) = cs"
  by (induction cs rule: induct_list012) (auto simp: good_component_def components_single components_word)

lemma valid_rel_join: "list_all good_component cs \<Longrightarrow> valid_rel (join_by slash cs)"
  by (simp add: valid_rel_def components_join)

lemma valid_relE:
  assumes "valid_rel s"
  obtains cs where "s = join_by slash cs" "list_all good_component cs" "components s = cs"
  using assms unfolding valid_rel_def by blast

lemma valid_rel_Nil [simp]: "valid_rel []"
  by (simp add: valid_rel_def)

text \<open>The components are the pieces between the slashes, without a last empty one.\<close>

lemma components_split:
  "components s = (let ws = split_by (\<lambda>c. c = slash) s in if last ws = [] then butlast ws else ws)"
proof (induction s rule: length_induct)
  case (1 s)
  show ?case
  proof (cases "slash \<in> set s")
    case True
    then obtain w r where s: "s = w @ slash # r" "slash \<notin> set w" by (metis split_list_first)
    then have w: "\<forall>x \<in> set w. x \<noteq> slash" by auto
    have "components r = (let ws = split_by (\<lambda>c. c = slash) r in if last ws = [] then butlast ws else ws)"
      using 1 s(1) by simp
    then show ?thesis using components_word [OF s(2), of r] s(1) w by (simp add: split_by_word Let_def)
  next
    case False
    then have "split_by (\<lambda>c. c = slash) s = [s]" by (intro split_by_single) auto
    then show ?thesis using False components_single [of s] by (cases "s = []") simp_all
  qed
qed


section \<open>The operations on components\<close>

lemma good_componentD: "good_component c \<Longrightarrow> c \<noteq> [] \<and> slash \<notin> set c"
  by (simp add: good_component_def)

lemma join_eq_Nil [simp]: "list_all good_component cs \<Longrightarrow> join_by slash cs = [] \<longleftrightarrow> cs = []"
  by (induction cs rule: induct_list012) (auto simp: good_component_def)

lemma rfind_join:
  assumes "slash \<notin> set c"
  shows "rfind_ix (\<lambda>d. d = slash) (s @ slash # c) = Some (length s)" "rfind_ix (\<lambda>d. d = slash) c = None"
  using assms by (auto intro: rfind_ix_append)

lemma components_next_join:
  "list_all good_component (c # cs) \<Longrightarrow> components_next (join_by slash (c # cs)) = (Some c, join_by slash cs)"
proof (cases "cs = []")
  case False
  assume c: "list_all good_component (c # cs)"
  then have "find_ix (\<lambda>d. d = slash) (c @ slash # join_by slash cs) = Some (length c)"
    by (intro find_ix_append) (auto simp: good_component_def)
  then show ?thesis using False by (simp add: join_by_Cons components_next_def)
next
  case True
  assume c: "list_all good_component (c # cs)"
  then have "find_ix (\<lambda>d. d = slash) c = None" "c \<noteq> []" by (auto simp: good_component_def)
  then show ?thesis using True by (simp add: components_next_def del: find_ix_None)
qed

lemma last_component_cases:
  assumes "list_all good_component (cs @ [c])"
  shows "components_next_back (join_by slash (cs @ [c])) = (Some c, join_by slash cs)"
    "rel_pop (join_by slash (cs @ [c])) = (join_by slash cs, True)"
proof -
  have c: "c \<noteq> []" "slash \<notin> set c" using assms by (simp_all add: good_component_def)
  note r = rfind_join [OF c(2)]
  show "components_next_back (join_by slash (cs @ [c])) = (Some c, join_by slash cs)"
    using c r by (cases "cs = []") (simp_all add: join_by_snoc components_next_back_def del: rfind_ix_None)
  show "rel_pop (join_by slash (cs @ [c])) = (join_by slash cs, True)"
    using c r by (cases "cs = []") (simp_all add: join_by_snoc rel_pop_def del: rfind_ix_None)
qed

lemma ops_on_empty [simp]:
  "components_next [] = (None, [])" "components_next_back [] = (None, [])" "rel_pop [] = ([], False)"
  by (simp_all add: components_next_def components_next_back_def rel_pop_def)

lemma rel_push_join:
  "list_all good_component cs \<Longrightarrow> good_component c \<Longrightarrow> rel_push (join_by slash cs) c = join_by slash (cs @ [c])"
  by (cases "cs = []") (simp_all add: rel_push_def join_by_snoc good_component_def)

interpretation path_components: double_ended components_next components_next_back valid_rel components
proof
  fix s and x :: string and xs
  assume v: "valid_rel s"
  show "fst (components_next s) = None" "fst (components_next_back s) = None" if "components s = []"
    using v that by (simp_all add: valid_rel_def)
  show "fst (components_next s) = Some x \<and> valid_rel (snd (components_next s)) \<and> components (snd (components_next s)) = xs"
    if "components s = x # xs"
    using v that components_next_join [of x xs] by (auto simp: valid_rel_def components_join)
  show "fst (components_next_back s) = Some x \<and> valid_rel (snd (components_next_back s)) \<and> components (snd (components_next_back s)) = xs"
    if "components s = xs @ [x]"
    using v that last_component_cases(1) [of xs x] by (auto simp: valid_rel_def components_join)
qed

section \<open>Resolving a path\<close>

text \<open>What a sequence of components means: a dot stays, two dots leave the last directory.\<close>

fun resolve_dots :: "string list \<Rightarrow> string list \<Rightarrow> string list option" where
  "resolve_dots [] acc = Some acc"
| "resolve_dots (c # cs) acc =
     (if c = '''' \<or> c = ''.'' then resolve_dots cs acc
      else if c = ''..'' then (if acc = [] then None else resolve_dots cs (butlast acc))
      else resolve_dots cs (acc @ [c]))"

lemma resolve_append: "resolve_dots (xs @ ys) acc = Option.bind (resolve_dots xs acc) (resolve_dots ys)"
  by (induction xs acc rule: resolve_dots.induct) auto

lemma resolve_good:
  "resolve_dots cs acc = Some ds \<Longrightarrow> list_all good_component acc \<Longrightarrow> \<forall>c \<in> set cs. slash \<notin> set c \<Longrightarrow> list_all good_component ds"
proof (induction cs acc rule: resolve_dots.induct)
  case (2 c cs acc)
  have "list_all good_component (butlast acc)" using "2.prems"(2) by (auto simp: list_all_iff dest: in_set_butlastD)
  moreover have "list_all good_component (acc @ [c])" if "c \<noteq> ''''" "c \<noteq> ''.''" "c \<noteq> ''..''"
    using "2.prems"(2,3) that by (simp add: good_component_def [of c])
  ultimately show ?case using 2 by (simp split: if_splits)
qed simp

lemma resolve_id: "list_all good_component cs \<Longrightarrow> resolve_dots cs acc = Some (acc @ cs)"
  by (induction cs arbitrary: acc) (auto simp: good_component_def)

lemma normalize_loop_resolve:
  "list_all good_component acc \<Longrightarrow> \<forall>c \<in> set cs. slash \<notin> set c \<Longrightarrow>
   normalize_loop cs (join_by slash acc) = map_option (join_by slash) (resolve_dots cs acc)"
proof (induction cs acc rule: resolve_dots.induct)
  case (2 c cs acc)
  consider "c = '''' \<or> c = ''.''" | "c = ''..''" | "good_component c" using "2.prems"(2) by (auto simp: good_component_def)
  then show ?case
  proof cases
    case 2
    then show ?thesis
    proof (cases acc rule: rev_cases)
      case (snoc as a)
      then have "rel_pop (join_by slash acc) = (join_by slash as, True)" using last_component_cases(2) "2.prems"(1) by simp
      then show ?thesis using 2 snoc "2.IH"(2) "2.prems" by simp
    qed simp
  next
    case 3
    then have "c \<noteq> ''''" "c \<noteq> ''.''" "c \<noteq> ''..''" by (simp_all add: good_component_def)
    then show ?thesis using 3 "2.IH"(3) "2.prems" rel_push_join [of acc c] by simp
  qed (use "2.IH"(1) "2.prems" in auto)
qed simp

lemma last_split_Nil: "last (split_by P s) = [] \<longleftrightarrow> s = [] \<or> P (last s)"
proof (induction s)
  case (Cons x s)
  have "split_by P s \<noteq> [[]]" if "s \<noteq> []" "P (last s)"
  proof -
    have "last s \<in> set (filter P s)" using that by simp
    then show ?thesis using length_split_by [of P s] by (metis One_nat_def Suc_inject empty_iff length_0_conv length_Cons list.size(3) set_empty)
  qed
  then show ?case using Cons by (cases "split_by P s") auto
qed simp

lemma resolve_components: "resolve_dots (components s) acc = resolve_dots (split_by (\<lambda>c. c = slash) s) acc"
proof -
  let ?ws = "split_by (\<lambda>c. c = slash) s"
  have "?ws = butlast ?ws @ [last ?ws]" by simp
  then have "resolve_dots ?ws acc = Option.bind (resolve_dots (butlast ?ws) acc) (resolve_dots [last ?ws])" by (metis resolve_append)
  then show ?thesis by (cases "resolve_dots (butlast ?ws) acc") (simp_all add: components_split Let_def)
qed

lemma separators_simps [simp]:
  "is_sep StyleUnix c \<longleftrightarrow> c = slash" "is_sep StyleWindows c \<longleftrightarrow> c = CHR 0x5C \<or> c = slash" "is_sep style slash"
  by (auto simp: separators_def split: path_style.splits)

lemma dot_not_sep [simp]: "\<not> is_sep style (CHR ''.'')"
  by (cases style) simp_all

lemma resolve_strip: "resolve_dots (split_by (is_sep style) (strip_current_dirs style s)) acc = resolve_dots (split_by (is_sep style) s) acc"
proof (induction style s rule: strip_current_dirs.induct)
  case (1 style c d s)
  show ?case
  proof (cases "c = CHR ''.'' \<and> is_sep style d")
    case True
    then have "split_by (is_sep style) (c # d # s) = ''.'' # split_by (is_sep style) s"
      by simp
    then show ?thesis using True 1 by simp
  qed auto
qed simp_all

lemma trim_separators_step:
  "s \<noteq> [] \<Longrightarrow> is_sep style (last s) \<Longrightarrow> butlast s \<noteq> [] \<Longrightarrow> trim_separators style s = trim_separators style (butlast s)"
  "s = [] \<or> \<not> is_sep style (last s) \<or> butlast s = [] \<Longrightarrow> trim_separators style s = s"
  by (subst trim_separators.simps; auto)+

lemma resolve_trim: "resolve_dots (split_by (is_sep style) (trim_separators style s)) acc = resolve_dots (split_by (is_sep style) s) acc"
proof (induction style s rule: trim_separators.induct)
  case (1 style s)
  show ?case
  proof (cases "s \<noteq> [] \<and> is_sep style (last s) \<and> butlast s \<noteq> []")
    case True
    then have "split_by (is_sep style) s = split_by (is_sep style) (butlast s) @ [[]]"
      using split_by_append [of "is_sep style" "last s" "butlast s" "[]"] by simp
    then show ?thesis using 1 True by (simp add: trim_separators_step(1) resolve_append split: bind_split)
  next
    case False
    then show ?thesis using trim_separators_step(2) [of s style] by simp
  qed
qed

lemma trimmed_end: "trim_separators style s = t \<Longrightarrow> t = [] \<or> \<not> is_sep style (last t) \<or> (\<exists>c. t = [c])"
proof (induction style s arbitrary: t rule: trim_separators.induct)
  case (1 style s)
  show ?case
  proof (cases "s \<noteq> [] \<and> is_sep style (last s) \<and> butlast s \<noteq> []")
    case False
    then have "trim_separators style s = s" using trim_separators_step(2) [of s style] by simp
    then show ?thesis using False "1.prems" by (cases s rule: rev_cases) auto
  qed (use 1 in \<open>simp add: trim_separators_step(1)\<close>)
qed


text \<open>The string that \<^verbatim>\<open>RelPath::new\<close> takes apart: leading current directories and trailing separators removed, slashes only.\<close>

definition trimmed :: "path_style \<Rightarrow> string \<Rightarrow> string" where
  "trimmed style p = trim_separators style (strip_current_dirs style p)"

definition slashed :: "path_style \<Rightarrow> string \<Rightarrow> string" where
  "slashed style p = (if style = StyleWindows then replace_char (CHR 0x5C) slash p else p)"

lemma slashed_split: "split_by (\<lambda>c. c = slash) (slashed style p) = split_by (is_sep style) p"
proof (cases style)
  case StyleWindows
  then show ?thesis by (simp add: slashed_def split_replace [of slash "CHR 0x5C"])
qed (simp add: slashed_def)

lemma slashed_Nil [simp]: "slashed style [] = []"
  by (simp add: slashed_def replace_char_def)

lemma rel_new_Some:
  "rel_new (Some p) style =
     (let q = trimmed style p; v = slashed style q
      in if is_absolute q style then Inl (AbsoluteNotAllowed q)
         else if list_ex (\<lambda>c. c = '''' \<or> c = ''.'' \<or> c = ''..'') (components v)
         then (case normalize_loop (components v) [] of None \<Rightarrow> Inl (NotRelative v) | Some n \<Rightarrow> Inr (Owned n))
         else Inr (if style = StyleWindows \<and> CHR 0x5C \<in> set q then Owned v else Borrowed v))"
  by (cases style) (simp_all add: rel_new_def trimmed_def slashed_def Let_def replace_char_absent split: option.splits)

lemma components_pieces: "\<forall>c \<in> set (components s). slash \<notin> set c"
proof
  fix c assume "c \<in> set (components s)"
  then have "c \<in> set (split_by (\<lambda>c. c = slash) s)" by (auto simp: components_split Let_def split: if_splits dest: in_set_butlastD)
  then show "slash \<notin> set c" using split_by_pieces by fastforce
qed

lemma slashed_valid:
  assumes "\<not> is_absolute (trimmed style p) style"
    "\<not> list_ex (\<lambda>c. c = '''' \<or> c = ''.'' \<or> c = ''..'') (components (slashed style (trimmed style p)))"
  shows "valid_rel (slashed style (trimmed style p))"
proof -
  let ?q = "trimmed style p"
  let ?v = "slashed style ?q" and ?ws = "split_by (is_sep style) ?q"
  have good: "list_all good_component (components ?v)"
    using assms(2) components_pieces [of ?v] by (auto simp: list_all_iff list_ex_iff good_component_def)
  have "?q = [] \<or> \<not> is_sep style (last ?q) \<or> (\<exists>c. ?q = [c])"
    using trimmed_end [of style "strip_current_dirs style p"] by (simp add: trimmed_def)
  moreover have "\<not> is_sep style c" if "?q = [c]" for c
    using assms(1) that by (cases style) (auto simp: is_absolute_def)
  ultimately have "last ?ws \<noteq> [] \<or> ?q = []" using last_split_Nil [of "is_sep style" ?q] by auto
  then have "components ?v = ?ws \<or> ?v = []" by (auto simp: components_split Let_def slashed_split)
  then have "?v = join_by slash (components ?v)" using join_split [of slash ?v] by (auto simp: slashed_split)
  with good show ?thesis by (simp add: valid_rel_def)
qed

lemma rel_new_ok:
  assumes "\<not> is_absolute (trimmed style p) style"
  shows "case resolve_dots (split_by (is_sep style) p) [] of
      None \<Rightarrow> rel_new (Some p) style = Inl (NotRelative (slashed style (trimmed style p)))
    | Some cs \<Rightarrow> \<exists>r. rel_new (Some p) style = Inr r \<and> valid_rel (cow_value r) \<and> components (cow_value r) = cs"
proof -
  let ?q = "trimmed style p"
  let ?v = "slashed style ?q"
  have res: "resolve_dots (split_by (is_sep style) p) [] = resolve_dots (components ?v) []"
    by (simp add: resolve_components slashed_split trimmed_def resolve_trim resolve_strip)
  show ?thesis
  proof (cases "list_ex (\<lambda>c. c = '''' \<or> c = ''.'' \<or> c = ''..'') (components ?v)")
    case True
    have loop: "normalize_loop (components ?v) [] = map_option (join_by slash) (resolve_dots (components ?v) [])"
      using normalize_loop_resolve [of "[]" "components ?v"] components_pieces by simp
    show ?thesis
    proof (cases "resolve_dots (components ?v) []")
      case (Some cs)
      then have "list_all good_component cs" using resolve_good [of "components ?v" "[]" cs] components_pieces by simp
      then show ?thesis using True assms loop Some
        by (simp add: res rel_new_Some Let_def valid_rel_join components_join)
    qed (use True assms loop in \<open>simp add: res rel_new_Some Let_def\<close>)
  next
    case False
    then have valid: "valid_rel ?v" using slashed_valid assms by blast
    then have same: "resolve_dots (components ?v) [] = Some (components ?v)" using resolve_id [of "components ?v" "[]"] by (simp add: valid_rel_def)
    let ?r = "if style = StyleWindows \<and> CHR 0x5C \<in> set ?q then Owned ?v else Borrowed ?v"
    have r: "rel_new (Some p) style = Inr ?r" using False assms by (simp only: rel_new_Some Let_def if_False)
    have v: "cow_value ?r = ?v" by simp
    show ?thesis unfolding res same option.simps(5) by (rule exI [of _ ?r]) (simp only: r v valid simp_thms)
  qed
qed


section \<open>Ancestors as a double-ended iterator\<close>

lemma join_take_drop:
  assumes "0 < k" "k < length cs"
  shows "join_by slash cs = join_by slash (take k cs) @ slash # join_by slash (drop k cs)"
proof -
  have "take k cs \<noteq> []" "drop k cs \<noteq> []" using assms by (cases cs; simp)+
  from join_by_append [OF this, of slash] show ?thesis by simp
qed

text \<open>Where the \<open>k\<close>-th ancestor ends.\<close>

abbreviation ancestor_end :: "string list \<Rightarrow> nat \<Rightarrow> nat" where
  "ancestor_end cs k \<equiv> length (join_by slash (take k cs))"

lemma take_ancestor_end: "k \<le> length cs \<Longrightarrow> take (ancestor_end cs k) (join_by slash cs) = join_by slash (take k cs)"
proof (cases "0 < k \<and> k < length cs")
  case True
  then show ?thesis using join_take_drop [of k cs] by simp
qed (auto simp: not_less)

lemma drop_ancestor_end:
  assumes "k < length cs"
  shows "drop (if k = 0 then 0 else ancestor_end cs k + 1) (join_by slash cs) = join_by slash (drop k cs)"
proof (cases "k = 0")
  case False
  then have "join_by slash cs = (join_by slash (take k cs) @ [slash]) @ join_by slash (drop k cs)" using join_take_drop [of k cs] assms by simp
  then show ?thesis using False by simp
qed simp

lemma ancestor_end_Suc:
  assumes "k < length cs"
  shows "ancestor_end cs (Suc k) = (if k = 0 then 0 else ancestor_end cs k + 1) + length (cs ! k)"
proof (cases "k = 0")
  case False
  then have "take k cs \<noteq> []" using assms by (cases cs) auto
  then show ?thesis using assms False by (simp add: take_Suc_conv_app_nth join_by_snoc)
qed (use assms in \<open>simp add: take_Suc_conv_app_nth\<close>)

lemma ancestor_end_mono:
  assumes "list_all good_component cs" "j < k" "k \<le> length cs"
  shows "ancestor_end cs j < ancestor_end cs k"
  using assms(2,3)
proof (induction k)
  case (Suc k)
  have "0 < length (cs ! k)" using assms(1) Suc.prems by (simp add: list_all_length good_component_def)
  then have "ancestor_end cs k < ancestor_end cs (Suc k)" using ancestor_end_Suc [of k cs] Suc.prems by (cases "k = 0") (simp_all del: length_0_conv length_greater_0_conv)
  then show ?case using Suc by (cases "j = k") auto
qed simp

lemma ancestor_end_le:
  assumes "list_all good_component cs" "j \<le> length cs" "k \<le> length cs"
  shows "ancestor_end cs j \<le> ancestor_end cs k \<longleftrightarrow> j \<le> k"
  using ancestor_end_mono [OF assms(1), of j k] ancestor_end_mono [OF assms(1), of k j] assms(2,3)
  by (metis less_imp_le linorder_neqE_nat not_le order_refl)

lemma ancestor_end_eq:
  assumes "list_all good_component cs" "j \<le> length cs" "k \<le> length cs"
  shows "ancestor_end cs j = ancestor_end cs k \<longleftrightarrow> j = k"
  using ancestor_end_le [OF assms] ancestor_end_le [OF assms(1,3,2)] by auto

text \<open>All ancestors of a path, from the path itself to the empty one.\<close>

definition all_ancestors :: "string \<Rightarrow> string list" where
  "all_ancestors s = rev (map (\<lambda>k. join_by slash (take k (components s))) [0..<Suc (length (components s))])"

definition ancestors_left :: "ancestors_state \<Rightarrow> string list" where
  "ancestors_left a = (if ra_done a then [] else filter (\<lambda>s. ra_back a \<le> length s \<and> length s \<le> ra_front a) (all_ancestors (ra_full a)))"

definition ancestors_inv :: "ancestors_state \<Rightarrow> bool" where
  "ancestors_inv a \<longleftrightarrow> valid_rel (ra_full a) \<and>
     (\<exists>i j. j \<le> i \<and> i \<le> length (components (ra_full a)) \<and>
        ra_front a = ancestor_end (components (ra_full a)) i \<and> ra_back a = ancestor_end (components (ra_full a)) j)"

lemma filter_upt_range: "i < n \<Longrightarrow> filter (\<lambda>k. j \<le> k \<and> k \<le> i) [0..<n] = [j..<Suc i]"
  by (intro sorted_distinct_set_unique) (auto intro: sorted_wrt_filter simp del: upt_Suc)

lemma ancestors_left_range:
  assumes "\<not> ra_done a" "valid_rel (ra_full a)" "j \<le> i" "i \<le> length (components (ra_full a))"
    "ra_front a = ancestor_end (components (ra_full a)) i" "ra_back a = ancestor_end (components (ra_full a)) j"
  shows "ancestors_left a = rev (map (\<lambda>k. join_by slash (take k (components (ra_full a)))) [j..<Suc i])"
proof -
  let ?cs = "components (ra_full a)"
  have good: "list_all good_component ?cs" using assms(2) by (simp add: valid_rel_def)
  have "filter (\<lambda>k. ancestor_end ?cs j \<le> ancestor_end ?cs k \<and> ancestor_end ?cs k \<le> ancestor_end ?cs i) [0..<Suc (length ?cs)] =
    filter (\<lambda>k. j \<le> k \<and> k \<le> i) [0..<Suc (length ?cs)]"
    using assms(3,4) by (intro filter_cong refl) (auto simp: ancestor_end_le [OF good] simp del: upt_Suc)
  also have "\<dots> = [j..<Suc i]" using filter_upt_range [of i "Suc (length ?cs)" j] assms(4) by (simp del: upt_Suc)
  finally show ?thesis
    using assms(1,5,6) by (simp add: ancestors_left_def all_ancestors_def rev_filter [symmetric] filter_map comp_def del: upt_Suc)
qed

lemma ancestors_next_moves:
  assumes "valid_rel (ra_full a)" "\<not> ra_done a" "j \<le> i" "i \<le> length (components (ra_full a))"
    "ra_front a = ancestor_end (components (ra_full a)) i" "ra_back a = ancestor_end (components (ra_full a)) j"
  shows "ancestors_next a = (Some (join_by slash (take i (components (ra_full a)))),
    if i = j then a\<lparr>ra_done := True\<rparr> else a\<lparr>ra_front := ancestor_end (components (ra_full a)) (i - 1)\<rparr>)"
proof -
  let ?cs = "components (ra_full a)"
  have good: "list_all good_component ?cs" and full: "ra_full a = join_by slash ?cs" using assms(1) by (simp_all add: valid_rel_def)
  have result: "take (ra_front a) (ra_full a) = join_by slash (take i ?cs)"
    using take_ancestor_end [OF assms(4)] full assms(5) by simp
  have "(case rfind_ix (\<lambda>c. c = slash) (join_by slash (take i ?cs)) of Some ix \<Rightarrow> ix | None \<Rightarrow> 0) = ancestor_end ?cs (i - 1)" if ne: "i \<noteq> j"
  proof -
    obtain k where k: "i = Suc k" "k < length ?cs" using ne assms(3,4) by (cases i) auto
    then have "slash \<notin> set (?cs ! k)" using good by (simp add: list_all_length good_component_def)
    note r = rfind_join [OF this]
    have "k \<noteq> 0 \<Longrightarrow> take k ?cs \<noteq> []" using k(2) by (cases ?cs) auto
    then show ?thesis using k r(1) [of "join_by slash (take k ?cs)"] r(2)
      by (cases "k = 0") (simp_all add: take_Suc_conv_app_nth join_by_snoc del: rfind_ix_None)
  qed
  moreover have "ra_front a = ra_back a \<longleftrightarrow> i = j" using ancestor_end_eq [OF good, of i j] assms(3-6) by simp
  ultimately show ?thesis using assms(2) result by (simp add: ancestors_next_def Let_def)
qed

lemma ancestors_next_back_moves:
  assumes "valid_rel (ra_full a)" "\<not> ra_done a" "j \<le> i" "i \<le> length (components (ra_full a))"
    "ra_front a = ancestor_end (components (ra_full a)) i" "ra_back a = ancestor_end (components (ra_full a)) j"
  shows "ancestors_next_back a = (Some (join_by slash (take j (components (ra_full a)))),
    if i = j then a\<lparr>ra_done := True\<rparr> else a\<lparr>ra_back := ancestor_end (components (ra_full a)) (Suc j)\<rparr>)"
proof -
  let ?cs = "components (ra_full a)"
  have good: "list_all good_component ?cs" and full: "ra_full a = join_by slash ?cs" using assms(1) by (simp_all add: valid_rel_def)
  have result: "take (ra_back a) (ra_full a) = join_by slash (take j ?cs)"
    using take_ancestor_end [of j ?cs] assms(3,4) full assms(6) by simp
  let ?start = "if j = 0 then 0 else ancestor_end ?cs j + 1"
  have start: "(if ra_back a = 0 then 0 else ra_back a + 1) = ?start"
    using ancestor_end_eq [OF good, of j 0] assms(3,4,6) by auto
  have search: "(case find_ix (\<lambda>c. c = slash) (drop ?start (ra_full a)) of Some ix \<Rightarrow> ?start + ix | None \<Rightarrow> length (ra_full a)) =
    ancestor_end ?cs (Suc j)" if "i \<noteq> j"
  proof -
    have j: "j < length ?cs" using that assms(3,4) by simp
    then have c: "\<forall>x \<in> set (?cs ! j). x \<noteq> slash" using good by (auto simp: list_all_length good_component_def)
    have d: "drop ?start (ra_full a) = join_by slash (?cs ! j # drop (Suc j) ?cs)"
      using drop_ancestor_end [OF j] full Cons_nth_drop_Suc [OF j] by simp
    show ?thesis
    proof (cases "drop (Suc j) ?cs = []")
      case True
      then have "find_ix (\<lambda>c. c = slash) (drop ?start (ra_full a)) = None" "take (Suc j) ?cs = ?cs" using d c by auto
      then show ?thesis using full by (simp del: find_ix_None)
    next
      case False
      then have "find_ix (\<lambda>c. c = slash) (drop ?start (ra_full a)) = Some (length (?cs ! j))"
        unfolding d join_by_Cons [OF False] using c by (intro find_ix_append) auto
      then show ?thesis using ancestor_end_Suc [OF j] by simp
    qed
  qed
  have "ra_front a = ra_back a \<longleftrightarrow> i = j" using ancestor_end_eq [OF good, of i j] assms(3-6) by simp
  with assms(2) show ?thesis
  proof (cases "i = j")
    case False
    then show ?thesis
      using assms(2) \<open>_ = (i = j)\<close> by (simp only: ancestors_next_back_def Let_def start if_False result search [OF False])
  qed (simp add: ancestors_next_back_def Let_def result)
qed


lemma ancestors_invE:
  assumes "ancestors_inv a"
  obtains i j where "valid_rel (ra_full a)" "j \<le> i" "i \<le> length (components (ra_full a))"
    "ra_front a = ancestor_end (components (ra_full a)) i" "ra_back a = ancestor_end (components (ra_full a)) j"
  using assms by (auto simp: ancestors_inv_def)

lemma ancestors_invI:
  "valid_rel (ra_full a) \<Longrightarrow> j \<le> i \<Longrightarrow> i \<le> length (components (ra_full a)) \<Longrightarrow>
   ra_front a = ancestor_end (components (ra_full a)) i \<Longrightarrow> ra_back a = ancestor_end (components (ra_full a)) j \<Longrightarrow> ancestors_inv a"
  by (auto simp: ancestors_inv_def)

lemma ancestors_stop: "ancestors_left a = [] \<Longrightarrow> ancestors_inv a \<Longrightarrow> ra_done a"
proof (rule ccontr)
  assume a: "ancestors_left a = []" "ancestors_inv a" "\<not> ra_done a"
  from a(2) show False
  proof (rule ancestors_invE)
    fix i j
    assume ij: "valid_rel (ra_full a)" "j \<le> i" "i \<le> length (components (ra_full a))"
      "ra_front a = ancestor_end (components (ra_full a)) i" "ra_back a = ancestor_end (components (ra_full a)) j"
    from ancestors_left_range [OF a(3) ij] ij(2) a(1) show False by simp
  qed
qed

interpretation path_ancestors: double_ended ancestors_next ancestors_next_back ancestors_inv ancestors_left
proof
  fix a and x :: string and xs
  assume inv: "ancestors_inv a"
  show "fst (ancestors_next a) = None" "fst (ancestors_next_back a) = None" if "ancestors_left a = []"
    using ancestors_stop [OF that inv] by (simp_all add: ancestors_next_def ancestors_next_back_def)
  obtain i j where ij: "valid_rel (ra_full a)" "j \<le> i" "i \<le> length (components (ra_full a))"
      "ra_front a = ancestor_end (components (ra_full a)) i" "ra_back a = ancestor_end (components (ra_full a)) j"
    using inv by (rule ancestors_invE)
  let ?anc = "\<lambda>k. join_by slash (take k (components (ra_full a)))"
  have left: "ancestors_left a = rev (map ?anc [j..<Suc i])" if "\<not> ra_done a" using ancestors_left_range [OF that ij] .
  show "fst (ancestors_next a) = Some x \<and> ancestors_inv (snd (ancestors_next a)) \<and> ancestors_left (snd (ancestors_next a)) = xs"
    if x: "ancestors_left a = x # xs"
  proof -
    have nd: "\<not> ra_done a" using x by (auto simp: ancestors_left_def)
    have x': "x = ?anc i" "xs = rev (map ?anc [j..<i])" using x left [OF nd] ij(2) by simp_all
    show ?thesis
    proof (cases "i = j")
      case False
      let ?a = "a\<lparr>ra_front := ancestor_end (components (ra_full a)) (i - 1)\<rparr>"
      have "ancestors_left ?a = rev (map ?anc [j..<Suc (i - 1)])"
        using ancestors_left_range [of ?a j "i - 1"] nd ij False by (simp del: upt_Suc)
      moreover have "ancestors_inv ?a" by (rule ancestors_invI [of _ j "i - 1"]) (use ij False in auto)
      ultimately show ?thesis using ancestors_next_moves [OF ij(1) nd ij(2-)] False x' ij(2) by (simp del: upt_Suc)
    qed (use ancestors_next_moves [OF ij(1) nd ij(2-)] x' ij in \<open>auto simp: ancestors_left_def ancestors_inv_def\<close>)
  qed
  show "fst (ancestors_next_back a) = Some x \<and> ancestors_inv (snd (ancestors_next_back a)) \<and>
      ancestors_left (snd (ancestors_next_back a)) = xs"
    if x: "ancestors_left a = xs @ [x]"
  proof -
    have nd: "\<not> ra_done a" using x by (auto simp: ancestors_left_def)
    have "[j..<Suc i] = j # [Suc j..<Suc i]" using ij(2) by (simp add: upt_conv_Cons del: upt_Suc)
    then have x': "x = ?anc j" "xs = rev (map ?anc [Suc j..<Suc i])" using x left [OF nd] by (simp_all del: upt_Suc)
    show ?thesis
    proof (cases "i = j")
      case False
      let ?a = "a\<lparr>ra_back := ancestor_end (components (ra_full a)) (Suc j)\<rparr>"
      have "ancestors_left ?a = rev (map ?anc [Suc j..<Suc i])"
        using ancestors_left_range [of ?a "Suc j" i] nd ij False by (simp del: upt_Suc)
      moreover have "ancestors_inv ?a" by (rule ancestors_invI [of _ "Suc j" i]) (use ij False in auto)
      ultimately show ?thesis using ancestors_next_back_moves [OF ij(1) nd ij(2-)] False x' by (simp del: upt_Suc)
    qed (use ancestors_next_back_moves [OF ij(1) nd ij(2-)] x' ij in \<open>auto simp: ancestors_left_def ancestors_inv_def\<close>)
  qed
qed

end
