(* ===== verification/PathOps.thy ===== *)
theory PathOps
  imports RelPath
begin

text \<open>
  What the operations on relative paths and path styles (\<^verbatim>\<open>crates/path/src\<close>) promise: everything is said in terms of the
  components of a path.
\<close>

section \<open>Prefixes, suffixes and joins\<close>

lemma components_append:
  assumes "list_all good_component cs" "cs \<noteq> []"
  shows "components (join_by slash cs @ slash # t) = cs @ components t"
  using assms
proof (induction cs rule: induct_list012)
  case (2 c)
  then show ?case by (simp add: good_component_def components_word)
next
  case (3 c d cs)
  then show ?case by (auto simp: good_component_def components_word)
qed simp

lemma rel_join_components:
  assumes "valid_rel a" "valid_rel b"
  shows "rel_join a b = join_by slash (components a @ components b)"
    "valid_rel (rel_join a b)" "components (rel_join a b) = components a @ components b"
proof -
  obtain as bs where ab: "a = join_by slash as" "list_all good_component as" "components a = as"
      "b = join_by slash bs" "list_all good_component bs" "components b = bs"
    using assms by (metis valid_relE)
  then show eq: "rel_join a b = join_by slash (components a @ components b)"
    by (auto simp: rel_join_def join_by_append)
  have "list_all good_component (as @ bs)" using ab by simp
  with eq ab show "valid_rel (rel_join a b)" "components (rel_join a b) = components a @ components b"
    by (simp_all add: valid_rel_join components_join)
qed

lemma rel_len_components: "valid_rel s \<Longrightarrow> rel_len s = length (components s)"
proof (cases "s = []")
  case False
  assume "valid_rel s"
  then have "components s \<noteq> []" using False by (auto simp: valid_rel_def)
  moreover have "split_by (\<lambda>c. c = slash) s = components s"
    using split_join [OF calculation, of slash] \<open>valid_rel s\<close> by (auto simp: valid_rel_def list_all_iff good_component_def)
  ultimately show ?thesis using False length_split_by [of "\<lambda>c. c = slash" s] by (simp add: rel_len_def)
qed (simp add: rel_len_def)

lemma skip_components_ok:
  "valid_rel s \<Longrightarrow> n \<le> length (components s) \<Longrightarrow> skip_components n s = Some (join_by slash (drop n (components s)))"
proof (induction n arbitrary: s)
  case 0
  then show ?case by (simp add: valid_rel_def)
next
  case (Suc n)
  then obtain c cs where cs: "components s = c # cs" by (cases "components s") auto
  then have "components_next s = (Some c, join_by slash cs)" "valid_rel (join_by slash cs)" "components (join_by slash cs) = cs"
    using Suc.prems components_next_join [of c cs] by (auto simp: valid_rel_def components_join)
  then show ?case using Suc cs by simp
qed

lemma rel_strip_prefix_components:
  assumes "valid_rel s" "valid_rel p"
  shows "rel_strip_prefix s p =
    (if prefix (components p) (components s) then Some (join_by slash (drop (length (components p)) (components s))) else None)"
proof (cases "p = []")
  case True
  then show ?thesis using assms(1) by (simp add: rel_strip_prefix_def valid_rel_def)
next
  case False
  obtain cs ps where c: "s = join_by slash cs" "list_all good_component cs" "components s = cs"
      "p = join_by slash ps" "list_all good_component ps" "components p = ps"
    using assms by (metis valid_relE)
  have ps: "ps \<noteq> []" using False c(4) by auto
  show ?thesis
  proof (cases "prefix ps cs")
    case True
    then obtain ds where ds: "cs = ps @ ds" by (auto simp: prefix_def)
    then have "s = p @ (if ds = [] then [] else slash # join_by slash ds)" using c ps by (auto simp: join_by_append)
    then have "strip_pre p s = Some (if ds = [] then [] else slash # join_by slash ds)" by simp
    then show ?thesis using False True ds c by (simp add: rel_strip_prefix_def)
  next
    case np: False
    have "r \<noteq> []" "\<not> starts_in (\<lambda>c. c = slash) r" if r: "strip_pre p s = Some r" for r
    proof -
      show "r \<noteq> []" using r np c by auto
      show "\<not> starts_in (\<lambda>c. c = slash) r"
      proof
        assume "starts_in (\<lambda>c. c = slash) r"
        then obtain t where "r = slash # t" by (cases r) auto
        then have "cs = ps @ components t" using components_append [OF c(5) ps, of t] r c by simp
        then show False using np by simp
      qed
    qed
    then have "(case strip_pre p s of None \<Rightarrow> None | Some u \<Rightarrow> (case strip_first (\<lambda>c. c = slash) u of Some v \<Rightarrow> Some v
        | None \<Rightarrow> if u = [] then Some [] else None)) = (None :: string option)"
      by (cases "strip_pre p s") (auto simp: strip_first_def split: list.splits)
    then show ?thesis using False np c by (simp add: rel_strip_prefix_def)
  qed
qed

lemma rel_ends_with_components:
  assumes "valid_rel s" "valid_rel p"
  shows "rel_ends_with s p \<longleftrightarrow> suffix (components p) (components s)"
proof (cases "p = []")
  case False
  obtain cs ps where c: "s = join_by slash cs" "list_all good_component cs" "components s = cs"
      "p = join_by slash ps" "list_all good_component ps" "components p = ps"
    using assms by (metis valid_relE)
  have ps: "ps \<noteq> []" using False c(4) by auto
  have split: "split_by (\<lambda>c. c = slash) (join_by slash xs) = xs" if "list_all good_component xs" "xs \<noteq> []" for xs
    using split_join [OF that(2), of slash] that(1) by (auto simp: list_all_iff good_component_def)
  have A: "suffix ps cs \<longleftrightarrow> s = p \<or> (\<exists>t. s = t @ slash # p)"
  proof
    assume "suffix ps cs"
    then obtain ds where ds: "cs = ds @ ps" by (auto simp: suffix_def)
    show "s = p \<or> (\<exists>t. s = t @ slash # p)" using c ds join_by_append [of ds ps slash] ps by (cases "ds = []") auto
  next
    assume r: "s = p \<or> (\<exists>t. s = t @ slash # p)"
    show "suffix ps cs"
    proof (cases "s = p")
      case False
      then obtain t where t: "s = t @ slash # p" using r by blast
      then have ne: "cs \<noteq> []" using c(1) by auto
      have "cs = split_by (\<lambda>c. c = slash) t @ ps"
        using split [OF c(2) ne] split [OF c(5) ps] split_by_append [of "\<lambda>c. c = slash" slash t p] t c(1,4) by simp
      then show ?thesis by (simp add: suffix_def)
    qed (use c in simp)
  qed
  have B: "(\<exists>t. s = t @ slash # p) \<longleftrightarrow> (\<exists>u. s = u @ p \<and> u \<noteq> [] \<and> last u = slash)"
  proof
    assume "\<exists>t. s = t @ slash # p"
    then obtain t where "s = (t @ [slash]) @ p" by auto
    then show "\<exists>u. s = u @ p \<and> u \<noteq> [] \<and> last u = slash" by (metis last_snoc snoc_eq_iff_butlast)
  next
    assume "\<exists>u. s = u @ p \<and> u \<noteq> [] \<and> last u = slash"
    then obtain u where "s = u @ p" "u = butlast u @ [slash]" by (metis append_butlast_last_id)
    then have "s = butlast u @ slash # p" by (metis append.assoc append_Cons append_Nil)
    then show "\<exists>t. s = t @ slash # p" ..
  qed
  have C: "rel_ends_with s p \<longleftrightarrow> (\<exists>u. s = u @ p \<and> (u = [] \<or> last u = slash))"
  proof (cases "strip_suf p s")
    case None
    then have "\<nexists>u. s = u @ p" using strip_None(2) by blast
    then show ?thesis using None False by (simp add: rel_ends_with_def)
  next
    case (Some u)
    then have "(\<exists>v. s = v @ p \<and> (v = [] \<or> last v = slash)) \<longleftrightarrow> u = [] \<or> last u = slash" by auto
    then show ?thesis using Some False by (simp add: rel_ends_with_def)
  qed
  have "rel_ends_with s p \<longleftrightarrow> s = p \<or> (\<exists>u. s = u @ p \<and> u \<noteq> [] \<and> last u = slash)" unfolding C by (metis append_Nil)
  then show ?thesis unfolding c(3,6) A B .
qed (simp add: rel_ends_with_def)


section \<open>Displayed paths\<close>

lemma displayed_split:
  assumes "valid_rel p" "style = StyleWindows \<Longrightarrow> CHR 0x5C \<notin> set p" "p \<noteq> []"
  shows "split_by (is_sep style) (cow_value (display p style)) = components p"
proof -
  have ne: "components p \<noteq> []" using assms(1,3) by (auto simp: valid_rel_def)
  then have p: "split_by (\<lambda>c. c = slash) p = components p"
    using split_join [OF ne, of slash] assms(1) by (auto simp: valid_rel_def list_all_iff good_component_def)
  show ?thesis
  proof (cases style)
    case StyleWindows
    let ?d = "cow_value (display p style)"
    have d: "?d = replace_char slash (CHR 0x5C) p"
      using StyleWindows by (simp add: display_def replace_char_absent)
    have "split_by (\<lambda>c. c = CHR 0x5C) ?d = split_by (\<lambda>c. c = slash \<or> c = CHR 0x5C) p"
      unfolding d by (rule split_replace)
    moreover have "split_by (is_sep style) ?d = split_by (\<lambda>c. c = CHR 0x5C) ?d"
    proof (rule split_by_cong)
      fix c assume "c \<in> set ?d"
      then have "c \<noteq> slash" unfolding d replace_char_def by auto
      then show "is_sep style c = (c = CHR 0x5C)" using StyleWindows by simp
    qed
    moreover have "split_by (\<lambda>c. c = slash \<or> c = CHR 0x5C) p = split_by (\<lambda>c. c = slash) p"
      using assms(2) StyleWindows by (intro split_by_cong) auto
    ultimately show ?thesis using p by simp
  qed (use p in \<open>simp add: display_def\<close>)
qed

lemma trimmed_good:
  assumes "list_all good_component (split_by (is_sep style) d)"
  shows "trimmed style d = d"
proof -
  have "strip_current_dirs style d = d"
  proof (cases "(style, d)" rule: strip_current_dirs.cases)
    case (1 style' c e s)
    have "\<not> (c = CHR ''.'' \<and> is_sep style e)"
    proof
      assume ce: "c = CHR ''.'' \<and> is_sep style e"
      then have "split_by (is_sep style) d = ''.'' # split_by (is_sep style) s" using 1 by simp
      then show False using assms by (simp add: good_component_def)
    qed
    then show ?thesis using 1 by auto
  qed simp_all
  moreover have "trim_separators style d = d"
  proof -
    have "last (split_by (is_sep style) d) \<in> set (split_by (is_sep style) d)" by simp
    then have "last (split_by (is_sep style) d) \<noteq> []" using assms unfolding list_all_iff good_component_def by blast
    then show ?thesis using last_split_Nil [of "is_sep style" d] by (intro trim_separators_step) auto
  qed
  ultimately show ?thesis by (simp add: trimmed_def)
qed

lemma is_absolute_replace: "is_absolute (replace_char slash (CHR 0x5C) p) StyleWindows = is_absolute p StyleWindows"
proof -
  have alpha: "\<not> is_ascii_alphabetic slash" "\<not> is_ascii_alphabetic (CHR 0x5C)" by (simp_all add: is_ascii_alphabetic_def)
  consider "p = []" | c where "p = [c]" | c d where "p = [c, d]" | c d e s where "p = c # d # e # s"
    by (metis neq_Nil_conv)
  then show ?thesis by cases (auto simp: is_absolute_def replace_char_def alpha split: if_splits)
qed

lemma displayed_relative:
  assumes "valid_rel p" "style = StyleWindows \<Longrightarrow> \<not> is_absolute p StyleWindows"
  shows "\<not> is_absolute (cow_value (display p style)) style"
proof (cases style)
  case StyleUnix
  have "\<not> starts_in (\<lambda>c. c = slash) p"
  proof
    assume "starts_in (\<lambda>c. c = slash) p"
    then obtain s where "p = [] @ slash # s" by (cases p) auto
    then have "components p = [] # components s" using components_word [of "[]" s] by simp
    then show False using assms(1) by (simp add: valid_rel_def good_component_def)
  qed
  then show ?thesis using StyleUnix by (simp add: display_def is_absolute_def)
next
  case StyleWindows
  then show ?thesis using assms(2) is_absolute_replace [of p] by (auto simp: display_def)
qed

section \<open>Normalisation of Unix paths\<close>

lemma resolve_normalize:
  "resolve_dots cs acc = Some ds \<Longrightarrow> \<forall>c \<in> set acc. c \<noteq> ''..'' \<Longrightarrow> normalize_components keep cs acc = ds"
proof (induction cs acc rule: resolve_dots.induct)
  case (2 c cs acc)
  have "acc \<noteq> [] \<Longrightarrow> last acc \<noteq> ''..''" "\<forall>c \<in> set (butlast acc). c \<noteq> ''..''" using "2.prems"(2) by (auto dest: in_set_butlastD)
  moreover consider "c = '''' \<or> c = ''.''" | "c = ''..''" | "c \<noteq> ''''" "c \<noteq> ''.''" "c \<noteq> ''..''" by blast
  then show ?case
  proof cases
    case 2
    then have "acc \<noteq> []" "resolve_dots cs (butlast acc) = Some ds" using "2.prems"(1) by (simp_all split: if_splits)
    then show ?thesis using 2 calculation "2.IH"(2) by simp
  next
    case 3
    then have "\<forall>c \<in> set (acc @ [c]). c \<noteq> ''..''" using "2.prems"(2) by simp
    then show ?thesis using 3 "2.IH"(3) "2.prems" by simp
  qed (use "2.IH"(1) "2.prems" in auto)
qed simp

text \<open>What the loop leaves: parents only at the start, and none when they are not kept.\<close>

definition normal_form :: "bool \<Rightarrow> string list \<Rightarrow> bool" where
  "normal_form keep cs \<longleftrightarrow>
     (\<exists>n ds. cs = replicate n ''..'' @ ds \<and> (n = 0 \<or> keep) \<and> (\<forall>d \<in> set ds. d \<noteq> '''' \<and> d \<noteq> ''.'' \<and> d \<noteq> ''..'' \<and> slash \<notin> set d))"

lemma normal_form_loop:
  "normal_form keep acc \<Longrightarrow> \<forall>c \<in> set cs. slash \<notin> set c \<Longrightarrow> normal_form keep (normalize_components keep cs acc)"
proof (induction keep cs acc rule: normalize_components.induct)
  case (2 keep c cs acc)
  obtain n ds where acc: "acc = replicate n ''..'' @ ds" "n = 0 \<or> keep"
      "\<forall>d \<in> set ds. d \<noteq> '''' \<and> d \<noteq> ''.'' \<and> d \<noteq> ''..'' \<and> slash \<notin> set d"
    using "2.prems"(1) unfolding normal_form_def by blast
  have "normal_form keep (butlast acc)" if "last acc \<noteq> ''..''" "acc \<noteq> []"
  proof -
    have "ds \<noteq> []"
    proof
      assume "ds = []"
      then have "acc = replicate n ''..''" "n \<noteq> 0" using acc(1) that(2) by auto
      then show False using that(1) by simp
    qed
    then show ?thesis using acc unfolding normal_form_def by (auto simp: butlast_append dest: in_set_butlastD intro!: exI [of _ n] exI [of _ "butlast ds"])
  qed
  moreover have "normal_form keep (acc @ [''..''])" if "acc = [] \<or> last acc = ''..''" keep
  proof -
    have "ds = []" using that(1) acc by (cases ds rule: rev_cases) auto
    then show ?thesis using acc that(2) unfolding normal_form_def
      by (auto simp: replicate_append_same intro!: exI [of _ "Suc n"] exI [of _ "[]"])
  qed
  moreover have "normal_form keep (acc @ [c])" if "c \<noteq> ''''" "c \<noteq> ''.''" "c \<noteq> ''..''"
    using acc that "2.prems"(2) unfolding normal_form_def by (auto intro!: exI [of _ n] exI [of _ "ds @ [c]"])
  ultimately show ?case using 2 by auto
qed simp

lemma normal_form_fixed: "normal_form keep (acc @ cs) \<Longrightarrow> normalize_components keep cs acc = acc @ cs"
proof (induction keep cs acc rule: normalize_components.induct)
  case (2 keep c cs acc)
  obtain n ds where acc: "acc @ c # cs = replicate n ''..'' @ ds" "n = 0 \<or> keep"
      "\<forall>d \<in> set ds. d \<noteq> '''' \<and> d \<noteq> ''.'' \<and> d \<noteq> ''..'' \<and> slash \<notin> set d"
    using "2.prems"(1) unfolding normal_form_def by blast
  have c: "c = (if length acc < n then ''..'' else ds ! (length acc - n))" "length acc < n + length ds"
    using arg_cong [OF acc(1), of "\<lambda>xs. xs ! length acc"] arg_cong [OF acc(1), of length] by (auto simp: nth_append)
  show ?case
  proof (cases "length acc < n")
    case True
    then have "acc = replicate (length acc) ''..''"
      using arg_cong [OF acc(1), of "take (length acc)"] by (simp add: min_def)
    then have "acc = [] \<or> last acc = ''..''" by (metis last_replicate length_0_conv)
    then show ?thesis using 2 True c acc(2) by auto
  next
    case False
    then have "c \<in> set ds" using c by (auto intro!: nth_mem)
    then show ?thesis using 2 acc(3) by auto
  qed
qed simp


lemma trim_keeps_start: "starts_in P s \<Longrightarrow> starts_in P (trim_separators style s)"
proof (induction style s rule: trim_separators.induct)
  case (1 style s)
  then show ?case
  proof (cases "s \<noteq> [] \<and> is_sep style (last s) \<and> butlast s \<noteq> []")
    case True
    then have "starts_in P (butlast s)" using "1.prems" by (cases s) auto
    then show ?thesis using 1 True by (simp add: trim_separators_step(1))
  next
    case False
    then show ?thesis using trim_separators_step(2) [of s style] "1.prems" by simp
  qed
qed

text \<open>A Unix path is normal when it is the slash-separated text of a normal form, behind a slash when it is absolute.\<close>

lemma normalize_normal:
  assumes "normal_form keep cs"
  shows "normalize StyleUnix ((if keep then [] else [slash]) @ join_by slash cs) = (if keep then [] else [slash]) @ join_by slash cs"
proof (cases "cs = []")
  case False
  have pieces: "\<forall>c \<in> set cs. c \<noteq> [] \<and> slash \<notin> set c"
  proof -
    obtain n ds where ds: "cs = replicate n ''..'' @ ds" "\<forall>d \<in> set ds. d \<noteq> [] \<and> slash \<notin> set d"
      using assms unfolding normal_form_def by blast
    then show ?thesis by (auto simp: set_replicate_conv_if)
  qed
  have split: "split_by (\<lambda>c. c = slash) (join_by slash cs) = cs" using split_join [OF False, of slash] pieces by blast
  have start: "\<not> starts_in (\<lambda>c. c = slash) (join_by slash cs)" "join_by slash cs \<noteq> []"
    using pieces False by (cases cs rule: list.exhaust; cases "tl cs"; cases "hd cs"; auto)+
  have "normalize_components keep cs [] = cs" using normal_form_fixed [of keep "[]" cs] assms by simp
  moreover have "dropWhile (\<lambda>c. c = slash) (slash # join_by slash cs) = join_by slash cs"
    using start by (cases "join_by slash cs") auto
  ultimately show ?thesis using start split by (cases keep) (simp_all add: normalize_def Let_def)
qed (cases keep; simp add: normalize_def Let_def)

lemma normalize_unix_idem: "normalize StyleUnix (normalize StyleUnix p) = normalize StyleUnix p"
proof -
  let ?keep = "\<not> starts_in (\<lambda>c. c = slash) p"
  let ?q = "if ?keep then p else dropWhile (\<lambda>c. c = slash) p"
  let ?cs = "normalize_components ?keep (split_by (\<lambda>c. c = slash) ?q) []"
  have "\<forall>c \<in> set (split_by (\<lambda>c. c = slash) ?q). slash \<notin> set c" using split_by_pieces [of _ "\<lambda>c. c = slash" ?q] by blast
  moreover have "normal_form ?keep []" by (simp add: normal_form_def)
  ultimately have "normal_form ?keep ?cs" by (intro normal_form_loop)
  moreover have "normalize StyleUnix p = (if ?keep then [] else [slash]) @ join_by slash ?cs" by (simp add: normalize_def Let_def)
  ultimately show ?thesis using normalize_normal by metis
qed

lemma displayed_new:
  assumes "valid_rel p" "style = StyleWindows \<Longrightarrow> CHR 0x5C \<notin> set p \<and> \<not> is_absolute p StyleWindows"
  shows "\<exists>r. rel_new (Some (cow_value (display p style))) style = Inr r \<and> cow_value r = p"
proof (cases "p = []")
  case False
  let ?d = "cow_value (display p style)"
  have d: "split_by (is_sep style) ?d = components p" using displayed_split [of p style] assms False by blast
  have good: "list_all good_component (components p)" using assms(1) by (simp add: valid_rel_def)
  have "\<not> is_absolute (trimmed style ?d) style"
    using trimmed_good [of style ?d] d good displayed_relative [of p style] assms by simp
  from rel_new_ok [OF this] obtain r where "rel_new (Some ?d) style = Inr r" "valid_rel (cow_value r)" "components (cow_value r) = components p"
    using d resolve_id [OF good, of "[]"] by auto
  then show ?thesis using assms(1) by (metis valid_rel_def)
qed (cases style; simp add: rel_new_def display_def trim_separators_step is_absolute_def)

section \<open>Joining and stripping in a style\<close>

lemma style_join_parts:
  assumes "parent \<noteq> []" "style = StyleWindows \<Longrightarrow> last parent \<noteq> slash" "\<not> is_absolute d style"
  shows "style_join style (Some parent) (Some d) =
    Some ((if is_sep style (last parent) then butlast parent else parent) @ primary_separator style # d)"
proof -
  have "is_sep style (last parent) \<longleftrightarrow> last parent = primary_separator style"
    using assms(2) by (cases style) (auto simp: primary_separator_def)
  moreover have "parent = butlast parent @ [primary_separator style]" if "last parent = primary_separator style"
    using append_butlast_last_id [OF assms(1)] that by simp
  ultimately show ?thesis using assms(1,3) by (auto simp: style_join_def)
qed

lemma find_separator: "(case List.find (\<lambda>sep. c = sep) (separators style) of Some _ \<Rightarrow> x | None \<Rightarrow> y) = (if is_sep style c then x else y)"
  by (cases style) (auto simp: separators_def)

lemma drop_shared_prefix: "get_opt q 1 = Some c \<Longrightarrow> drop 2 (q @ r) = drop 2 q @ r"
  by (auto simp: get_opt_def split: if_splits)

lemma style_strip_prefix_joined:
  assumes "parent \<noteq> []" "is_sep style s" "rel_new (Some d) style = Inr c"
  shows "style_strip_prefix style (Some ((if is_sep style (last parent) then butlast parent else parent) @ s # d)) (Some parent) = Some c"
proof -
  define q where "q = (if is_sep style (last parent) then butlast parent else parent)"
  have "(if style = StyleWindows \<and> get_opt (q @ s # d) 1 = Some (CHR '':'') \<and> get_opt q 1 = Some (CHR '':'') \<and>
        eq_ignore_ascii_case_char ((q @ s # d) ! 0) (q ! 0)
      then strip_pre (drop 2 q) (drop 2 (q @ s # d)) else strip_pre q (q @ s # d)) = Some (s # d)"
  proof (cases "get_opt q 1 = Some (CHR '':'')")
    case True
    then show ?thesis unfolding drop_shared_prefix [OF True] by simp
  qed simp
  then show ?thesis using assms unfolding q_def [symmetric] by (simp add: style_strip_prefix_def find_separator q_def [symmetric])
qed

section \<open>Properties\<close>

text \<open>
  Claim C16. \<^verbatim>\<open>RelPath::new\<close>, case by case, in either style. A path that is not unicode is an error. From any other path, leading current directories
  and trailing separators are stripped first (\<open>trimmed\<close>); when what is left is absolute, the result is the error that names it, so
  \<^verbatim>\<open>/a\<close> is refused and \<^verbatim>\<open>.//a\<close> too, although the latter is relative. Otherwise the components between the separators are resolved: empty ones and single dots are dropped, and
  two dots remove the component before them. When two dots leave the base the result is the error that the path is not relative, else it is the valid path
  with exactly the resolved components.
\<close>

theorem rel_new_resolves:
  "rel_new None style = Inl NonUtf8 \<and>
   (if is_absolute (trimmed style p) style then rel_new (Some p) style = Inl (AbsoluteNotAllowed (trimmed style p))
    else case resolve_dots (split_by (is_sep style) p) [] of
        None \<Rightarrow> rel_new (Some p) style = Inl (NotRelative (slashed style (trimmed style p)))
      | Some cs \<Rightarrow> \<exists>r. rel_new (Some p) style = Inr r \<and> valid_rel (cow_value r) \<and> components (cow_value r) = cs)"
  using rel_new_ok [of style p] by (simp add: rel_new_Some Let_def) (simp add: rel_new_def)

text \<open>
  A valid path displayed in a style and read in the same style is the path again. On Windows, a component must not have a backslash in it
  and the path must not look like one on a drive.
\<close>

theorem display_then_new:
  assumes "valid_rel p" "style = StyleWindows \<Longrightarrow> CHR 0x5C \<notin> set p \<and> \<not> is_absolute p StyleWindows"
  shows "\<exists>r. rel_new (Some (cow_value (display p style))) style = Inr r \<and> cow_value r = p"
  using assms by (rule displayed_new)

theorem display_then_new_witness:
  "\<exists>r. rel_new (Some (cow_value (display ''src/lib.rs'' StyleWindows))) StyleWindows = Inr r \<and> cow_value r = ''src/lib.rs''"
proof -
  have "components ''src/lib.rs'' = [''src'', ''lib.rs'']"
    using components_word [of "''src''" "''lib.rs''"] components_single [of "''lib.rs''"] by simp
  then have "valid_rel ''src/lib.rs''" by (simp add: valid_rel_def good_component_def)
  then show ?thesis by (intro display_then_new) (simp_all add: is_absolute_def)
qed

text \<open>Prefix tests on the text of two paths compare their components, so that \<^verbatim>\<open>a/bc\<close> does not start with \<^verbatim>\<open>a/b\<close>.\<close>

theorem prefix_tests_compare_components:
  assumes "valid_rel s" "valid_rel p"
  shows "(rel_starts_with s p \<longleftrightarrow> prefix (components p) (components s)) \<and>
    (is_descendant_of s p \<longleftrightarrow> p \<noteq> [] \<and> strict_prefix (components p) (components s)) \<and>
    (rel_ends_with s p \<longleftrightarrow> suffix (components p) (components s))"
proof -
  have "s = p \<longleftrightarrow> components s = components p" using assms by (metis valid_rel_def)
  then show ?thesis
    using rel_ends_with_components [OF assms] rel_strip_prefix_components [OF assms]
    by (auto simp: rel_starts_with_def is_descendant_of_def strict_prefix_def)
qed

theorem prefix_tests_compare_components_witness: "\<not> rel_starts_with ''a/bc'' ''a/b''"
proof -
  have c: "components ''a/bc'' = [''a'', ''bc'']" "components ''a/b'' = [''a'', ''b'']"
    using components_word [of "''a''" "''bc''"] components_single [of "''bc''"]
      components_word [of "''a''" "''b''"] components_single [of "''b''"] by simp_all
  then have "valid_rel ''a/bc''" "valid_rel ''a/b''" by (simp_all add: valid_rel_def good_component_def)
  from prefix_tests_compare_components [OF this] show ?thesis using c by (simp add: prefix_def)
qed

text \<open>
  Claim C17. Stripping a prefix is the inverse of joining: it succeeds exactly when the path is the prefix joined with a valid path, and returns
  that path.
\<close>

theorem strip_prefix_inverts_join:
  assumes "valid_rel s" "valid_rel a"
  shows "rel_strip_prefix s a = Some b \<longleftrightarrow> valid_rel b \<and> s = rel_join a b"
proof
  assume b: "rel_strip_prefix s a = Some b"
  then obtain ds where ds: "components s = components a @ ds" "b = join_by slash ds"
    using rel_strip_prefix_components [OF assms] by (auto simp: prefix_def split: if_splits)
  then have "list_all good_component ds" using assms(1) by (simp add: valid_rel_def)
  then have "valid_rel b" "components b = ds" using ds(2) by (simp_all add: valid_rel_join components_join)
  then show "valid_rel b \<and> s = rel_join a b" using rel_join_components(1) [OF assms(2)] ds(1) assms(1) by (simp add: valid_rel_def)
next
  assume b: "valid_rel b \<and> s = rel_join a b"
  then have "components s = components a @ components b" using rel_join_components(3) assms(2) by blast
  then show "rel_strip_prefix s a = Some b" using rel_strip_prefix_components [OF assms] b by (simp add: valid_rel_def)
qed

theorem strip_prefix_inverts_join_witness: "rel_strip_prefix ''a/b'' ''a'' = Some ''b''"
proof -
  have c: "components ''a'' = [''a'']" "components ''b'' = [''b'']" "components ''a/b'' = [''a'', ''b'']"
    using components_word [of "''a''" "''b''"] components_single [of "''b''"] components_single [of "''a''"] by simp_all
  then have "valid_rel ''a''" "valid_rel ''b''" "valid_rel ''a/b''" by (simp_all add: valid_rel_def good_component_def)
  then show ?thesis using strip_prefix_inverts_join [of "''a/b''" "''a''" "''b''"] by (simp add: rel_join_def)
qed

text \<open>
  The ancestors of a path can be walked from both ends at once: whatever the order of the calls of \<^verbatim>\<open>next\<close> and \<^verbatim>\<open>next_back\<close>, they return every
  ancestor once, from the path itself and from the empty path on, and nothing afterwards.
\<close>

theorem ancestors_walk_from_both_ends:
  assumes "valid_rel s" "length calls = Suc (length (components s))"
  shows "\<exists>us vs a. run_calls ancestors_next ancestors_next_back calls (ancestors s) = (map Some us, map Some vs, a) \<and>
    us @ rev vs = all_ancestors s \<and> fst (ancestors_next a) = None \<and> fst (ancestors_next_back a) = None"
proof -
  let ?n = "length (components s)"
  have s: "s = join_by slash (components s)" using assms(1) by (simp add: valid_rel_def)
  then have inv: "ancestors_inv (ancestors s)"
    using assms(1) by (intro ancestors_invI [of _ 0 ?n]) (simp_all add: ancestors_def)
  have left: "ancestors_left (ancestors s) = all_ancestors s"
    using ancestors_left_range [of "ancestors s" 0 ?n] assms(1) s by (simp add: ancestors_def all_ancestors_def del: upt_Suc)
  have "length calls = length (ancestors_left (ancestors s))" using assms(2) left by (simp add: all_ancestors_def)
  from path_ancestors.calls_exhaust [OF inv this] left show ?thesis by fastforce
qed

theorem ancestors_walk_from_both_ends_witness:
  "\<exists>us vs a. run_calls ancestors_next ancestors_next_back [True, False, True] (ancestors ''a/b'') = (map Some us, map Some vs, a) \<and>
     us @ rev vs = [''a/b'', ''a'', ''''] \<and> fst (ancestors_next a) = None"
proof -
  have c: "components ''a/b'' = [''a'', ''b'']"
    using components_word [of "''a''" "''b''"] components_single [of "''b''"] by simp
  then have "valid_rel ''a/b''" by (simp add: valid_rel_def good_component_def)
  moreover have "all_ancestors ''a/b'' = [''a/b'', ''a'', '''']" using c by (simp add: all_ancestors_def upt_rec)
  ultimately show ?thesis using ancestors_walk_from_both_ends [of "''a/b''" "[True, False, True]"] c by auto
qed

text \<open>
  The order of paths is a total order of the components, and agrees with the equality of the texts, as a key of a map needs.
\<close>

theorem path_order_is_total:
  assumes "valid_rel a" "valid_rel b" "valid_rel c"
  shows "(rel_cmp a b = Equal \<longleftrightarrow> a = b) \<and> (rel_cmp a b = Less \<longleftrightarrow> rel_cmp b a = Greater) \<and>
    (rel_cmp a b = Less \<longrightarrow> rel_cmp b c = Less \<longrightarrow> rel_cmp a c = Less)"
proof -
  have "a = b \<longleftrightarrow> components a = components b" using assms by (metis valid_rel_def)
  then show ?thesis
    using component_order.cmp_eq [of "components a" "components b"] component_order.cmp_swap [of "components a" "components b"]
      component_order.cmp_trans [of "components a" "components b" "components c"] by (simp add: rel_cmp_def)
qed

theorem path_order_is_total_witness: "rel_cmp [] [] = Equal"
  using path_order_is_total [of "[]" "[]" "[]"] by simp

text \<open>
  Where \<^verbatim>\<open>RelPath::new\<close> succeeds, the text normalisation of \<^verbatim>\<open>PathStyle::normalize\<close> gives the same path, and normalising again changes nothing.
\<close>

theorem normalize_agrees_with_new:
  "(rel_new (Some p) StyleUnix = Inr r \<longrightarrow> cow_value r = normalize StyleUnix p) \<and>
   normalize StyleUnix (normalize StyleUnix p) = normalize StyleUnix p"
proof -
  let ?P = "is_sep StyleUnix"
  have P: "?P = (\<lambda>c. c = slash)" by auto
  have "cow_value r = normalize StyleUnix p" if r: "rel_new (Some p) StyleUnix = Inr r"
  proof -
    have na: "\<not> is_absolute (trimmed StyleUnix p) StyleUnix" using r by (auto simp: rel_new_Some Let_def)
    then obtain cs where cs: "resolve_dots (split_by ?P p) [] = Some cs" "valid_rel (cow_value r)" "components (cow_value r) = cs"
      using rel_new_ok [OF na] r by (cases "resolve_dots (split_by ?P p) []") auto
    have "\<not> starts_in (\<lambda>c. c = slash) p"
    proof
      assume "starts_in (\<lambda>c. c = slash) p"
      then obtain q where q: "p = slash # q" by (cases p) auto
      then have "strip_current_dirs StyleUnix p = p" by (cases q) simp_all
      then have "starts_in (\<lambda>c. c = slash) (trimmed StyleUnix p)" using trim_keeps_start [of "\<lambda>c. c = slash" p StyleUnix] q by (simp add: trimmed_def)
      then show False using na by (simp add: is_absolute_def)
    qed
    then show ?thesis using cs resolve_normalize [OF cs(1), of True] by (simp add: normalize_def Let_def valid_rel_def)
  qed
  then show ?thesis using normalize_unix_idem by blast
qed

text \<open>
  A path joined to a base directory in a style is found again by stripping the base, whether or not the base ends with a separator. On Windows the
  base must not end with a slash, behind which \<^verbatim>\<open>join\<close> puts a second separator.
\<close>

theorem strip_base_inverts_join:
  assumes "valid_rel r" "parent \<noteq> []"
    "style = StyleWindows \<Longrightarrow> CHR 0x5C \<notin> set r \<and> \<not> is_absolute r StyleWindows \<and> last parent \<noteq> slash"
  shows "\<exists>j c. style_join style (Some parent) (Some (cow_value (display r style))) = Some j \<and>
    style_strip_prefix style (Some j) (Some parent) = Some c \<and> cow_value c = r"
proof -
  let ?d = "cow_value (display r style)" and ?q = "if is_sep style (last parent) then butlast parent else parent"
  let ?j = "?q @ primary_separator style # ?d"
  have "\<not> is_absolute ?d style" using displayed_relative [of r style] assms by blast
  then have join: "style_join style (Some parent) (Some ?d) = Some ?j" using style_join_parts assms(2,3) by blast
  obtain c where c: "rel_new (Some ?d) style = Inr c" "cow_value c = r" using displayed_new [of r style] assms by blast
  have "is_sep style (primary_separator style)" by (cases style) (simp_all add: primary_separator_def)
  from style_strip_prefix_joined [OF assms(2) this c(1)] have "style_strip_prefix style (Some ?j) (Some parent) = Some c" .
  with join c(2) show ?thesis by blast
qed

theorem strip_base_inverts_join_witness:
  "\<exists>j c. style_join StyleUnix (Some ''/home/'') (Some (cow_value (display ''a'' StyleUnix))) = Some j \<and>
    style_strip_prefix StyleUnix (Some j) (Some ''/home/'') = Some c \<and> cow_value c = ''a''"
proof -
  have "valid_rel ''a''" using components_single [of "''a''"] by (simp add: valid_rel_def good_component_def)
  then show ?thesis by (intro strip_base_inverts_join) simp_all
qed

text \<open>
  Two corner cases: a relative path is refused when a slash follows the current directory, and on Windows, normalising a second time may change the
  path.
\<close>

lemma current_dir_then_slash_refused:
  "\<not> is_absolute ''.//a'' StyleUnix" "rel_new (Some ''.//a'') StyleUnix = Inl (AbsoluteNotAllowed ''/a'')"
  by (simp_all add: rel_new_def is_absolute_def trim_separators_step)

lemma windows_normalize_not_idempotent:
  "normalize StyleWindows [CHR ''.'', CHR 0x5C, CHR ''C'', CHR '':'', CHR ''.'', CHR ''.'', CHR 0x5C, CHR ''x''] = [CHR ''C'', CHR '':'', CHR ''.'', CHR ''.'', CHR 0x5C, CHR ''x'']"
  "normalize StyleWindows [CHR ''C'', CHR '':'', CHR ''.'', CHR ''.'', CHR 0x5C, CHR ''x''] = ''C:x''"
  by (simp_all add: normalize_def windows_prefix_def split_once_def is_ascii_alphabetic_def strip_pre_def)

end
