(* ===== verification/LogFilter.thy ===== *)
theory LogFilter
  imports Keystroke StrOps
begin

text \<open>
  Which log messages are written (\<^verbatim>\<open>crates/zlog/src\<close>: \<^verbatim>\<open>env_config.rs\<close>, \<^verbatim>\<open>filter.rs\<close> and the decisions of \<^verbatim>\<open>zlog.rs\<close>). Levels are configured for
  scopes, sequences of up to four names; a message belongs to a scope and a module. \<^verbatim>\<open>ScopeMap\<close> is a tree of names, flattened
  level by level into one array. A hash map is the list of its entries in the order of its iteration. Warnings that the code itself logs are
  left out, and white space is that of ASCII.
\<close>

section \<open>Levels\<close>

datatype level_filter = FilterOff | FilterError | FilterWarn | FilterInfo | FilterDebug | FilterTrace

datatype log_level = LevelError | LevelWarn | LevelInfo | LevelDebug | LevelTrace

fun filter_u8 :: "level_filter \<Rightarrow> nat" where
  "filter_u8 FilterOff = 0"
| "filter_u8 FilterError = 1"
| "filter_u8 FilterWarn = 2"
| "filter_u8 FilterInfo = 3"
| "filter_u8 FilterDebug = 4"
| "filter_u8 FilterTrace = 5"

fun level_u8 :: "log_level \<Rightarrow> nat" where
  "level_u8 LevelError = 1"
| "level_u8 LevelWarn = 2"
| "level_u8 LevelInfo = 3"
| "level_u8 LevelDebug = 4"
| "level_u8 LevelTrace = 5"

section \<open>The filter in the environment\<close>

record env_filter =
  ef_level_global :: "level_filter option"
  ef_directive_names :: "string list"
  ef_directive_levels :: "level_filter list"

datatype env_error = InvalidDirective string | MultipleMaxLevels | InvalidLevel string

definition is_ascii_white :: "char \<Rightarrow> bool" where
  "is_ascii_white c = (let n = of_char c :: nat in 9 \<le> n \<and> n \<le> 13 \<or> n = 32)"

definition str_trim :: "string \<Rightarrow> string" where
  "str_trim s = rev (dropWhile is_ascii_white (rev (dropWhile is_ascii_white s)))"

function trim_end_str :: "string \<Rightarrow> string \<Rightarrow> string" where
  "trim_end_str suf s =
     (case strip_suf suf s of None \<Rightarrow> s | Some r \<Rightarrow> if suf = [] then s else trim_end_str suf r)"
  by pat_completeness auto
termination trim_end_str
  by (relation "measure (length \<circ> snd)") auto

definition parse_level :: "string \<Rightarrow> env_error + level_filter" where
  "parse_level lvl =
     (if eq_ignore_ascii_case lvl ''TRACE'' then Inr FilterTrace
      else if eq_ignore_ascii_case lvl ''DEBUG'' then Inr FilterDebug
      else if eq_ignore_ascii_case lvl ''INFO'' then Inr FilterInfo
      else if eq_ignore_ascii_case lvl ''WARN'' then Inr FilterWarn
      else if eq_ignore_ascii_case lvl ''ERROR'' then Inr FilterError
      else if eq_ignore_ascii_case lvl ''OFF'' \<or> eq_ignore_ascii_case lvl ''NONE'' then Inr FilterOff
      else Inl (InvalidLevel lvl))"

fun parse_directives :: "string list \<Rightarrow> env_filter \<Rightarrow> env_error + env_filter" where
  "parse_directives [] f = Inr f"
| "parse_directives (directive # directives) f =
     (case split_once (\<lambda>c. c = CHR ''='') directive of
        Some (name, lvl) \<Rightarrow>
          (if CHR ''='' \<in> set lvl then Inl (InvalidDirective directive)
           else (case parse_level (str_trim lvl) of
                   Inl e \<Rightarrow> Inl e
                 | Inr lvl \<Rightarrow>
                     parse_directives directives
                       (f\<lparr>ef_directive_names := ef_directive_names f @ [trim_end_str ''.rs'' (str_trim name)],
                          ef_directive_levels := ef_directive_levels f @ [lvl]\<rparr>)))
      | None \<Rightarrow>
          (case parse_level (str_trim directive) of
             Inl _ \<Rightarrow>
               parse_directives directives
                 (f\<lparr>ef_directive_names := ef_directive_names f @ [trim_end_str ''.rs'' (str_trim directive)],
                    ef_directive_levels := ef_directive_levels f @ [FilterTrace]\<rparr>)
           | Inr lvl \<Rightarrow>
               (if ef_level_global f \<noteq> None then Inl MultipleMaxLevels
                else parse_directives directives (f\<lparr>ef_level_global := Some lvl\<rparr>))))"

definition env_parse :: "string \<Rightarrow> env_error + env_filter" where
  "env_parse s =
     parse_directives (split_by (\<lambda>c. c = CHR '','') s)
       \<lparr>ef_level_global = None, ef_directive_names = [], ef_directive_levels = []\<rparr>"

section \<open>Scopes\<close>

definition SCOPE_DEPTH_MAX :: nat where
  "SCOPE_DEPTH_MAX = 4"

text \<open>A scope is an array of \<open>SCOPE_DEPTH_MAX\<close> names; empty names fill it up.\<close>

type_synonym scope = "string list"

definition scope_ref_new :: "string list \<Rightarrow> scope option" where
  "scope_ref_new scopes = do {
     assert_that (length scopes \<le> SCOPE_DEPTH_MAX);
     Some (scopes @ replicate (SCOPE_DEPTH_MAX - length scopes) []) }"

text \<open>The first free place of a scope; the first name is always that of the crate.\<close>

function free_index :: "scope \<Rightarrow> nat \<Rightarrow> nat" where
  "free_index scope index = (if index < length scope \<and> scope ! index \<noteq> [] then free_index scope (index + 1) else index)"
  by pat_completeness auto
termination free_index
  by (relation "measure (\<lambda>(scope, index). length scope - index)") auto

declare free_index.simps [simp del]

text \<open>A full scope is a panic: of the explicit check with debug assertions, else of the index.\<close>

definition scoped_logger :: "scope \<Rightarrow> string \<Rightarrow> scope option" where
  "scoped_logger scope name = do {
     let index = free_index scope 1;
     assert_that (index < length scope);
     Some (scope[index := name]) }"

fun extract_from :: "string \<Rightarrow> nat \<Rightarrow> nat" where
  "extract_from (c # d # s) i = (if c = CHR '':'' \<and> d = CHR '':'' then i else extract_from (d # s) (i + 1))"
| "extract_from s i = i + length s"

definition extract_crate_name_from_module_path :: "string \<Rightarrow> string" where
  "extract_crate_name_from_module_path module_path = take (extract_from module_path 0) module_path"

definition level_filter_from_str :: "string \<Rightarrow> level_filter option" where
  "level_filter_from_str level_str =
     (let s = make_ascii_lowercase level_str
      in if s = '''' then Some FilterTrace
         else if s = ''trace'' then Some FilterTrace
         else if s = ''debug'' then Some FilterDebug
         else if s = ''info'' then Some FilterInfo
         else if s = ''warn'' then Some FilterWarn
         else if s = ''error'' then Some FilterError
         else if s = ''off'' then Some FilterOff
         else if s = ''disable'' \<or> s = ''no'' \<or> s = ''none'' \<or> s = ''disabled'' then Some FilterOff
         else None)"

text \<open>The loop of \<^verbatim>\<open>scope_alloc_from_scope_str\<close>: the names taken and what the iterator still holds.\<close>

fun take_scopes :: "string list \<Rightarrow> string list \<Rightarrow> string list \<times> string list" where
  "take_scopes [] taken = (taken, [])"
| "take_scopes (s # rest) taken =
     (if length taken < SCOPE_DEPTH_MAX then take_scopes rest (if s = [] then taken else taken @ [s]) else (taken, s # rest))"

definition scope_alloc_from_scope_str :: "string \<Rightarrow> scope option" where
  "scope_alloc_from_scope_str scope_str =
     (case take_scopes (split_by (\<lambda>c. c = CHR ''.'') scope_str) [] of (taken, rest) \<Rightarrow>
        if taken = [] then None
        else if rest \<noteq> [] then None
        else scope_ref_new taken)"

section \<open>The scope map\<close>

record scope_map_entry =
  sme_scope :: string
  sme_enabled :: "level_filter option"
  sme_descendants :: "nat \<times> nat"

record scope_map =
  sm_entries :: "scope_map_entry list"
  sm_modules :: "(string \<times> level_filter) list"
  sm_root_count :: nat

datatype enabled_status = Enabled | Disabled | NotConfigured

text \<open>\<^verbatim>\<open>s.contains("::")\<close>.\<close>

fun contains_double_colon :: "string \<Rightarrow> bool" where
  "contains_double_colon (c # d # s) = (c = CHR '':'' \<and> d = CHR '':'' \<or> contains_double_colon (d # s))"
| "contains_double_colon s = False"

text \<open>Replacing the value of a key that is present, or appending the pair.\<close>

fun upsert :: "'k \<Rightarrow> 'v \<Rightarrow> ('k \<times> 'v) list \<Rightarrow> ('k \<times> 'v) list" where
  "upsert k v [] = [(k, v)]"
| "upsert k v ((k', v') # ps) = (if k' = k then (k', v) # ps else (k', v') # upsert k v ps)"

fun collect_filters ::
  "(string \<times> level_filter) list \<Rightarrow> (scope \<times> level_filter) list \<Rightarrow> (string \<times> level_filter) list \<Rightarrow>
   (scope \<times> level_filter) list \<times> (string \<times> level_filter) list" where
  "collect_filters [] items modules = (items, modules)"
| "collect_filters ((scope_str, lvl) # fs) items modules =
     (if contains_double_colon scope_str then collect_filters fs items (upsert scope_str lvl modules)
      else (case scope_alloc_from_scope_str scope_str of
              None \<Rightarrow> collect_filters fs items modules
            | Some scope \<Rightarrow> collect_filters fs (upsert scope lvl items) modules))"

text \<open>A range of sorted items whose children have to be entered; no parent is \<^verbatim>\<open>usize::MAX\<close>.\<close>

record process_queue_entry =
  pq_parent_index :: "nat option"
  pq_depth :: nat
  pq_items_range :: "nat \<times> nat"

function group_end :: "(scope \<times> 'v) list \<Rightarrow> nat \<Rightarrow> string \<Rightarrow> nat \<Rightarrow> nat \<Rightarrow> nat" where
  "group_end items depth name stop cursor =
     (if cursor < stop \<and> fst (items ! cursor) ! depth = name then group_end items depth name stop (cursor + 1) else cursor)"
  by pat_completeness auto
termination group_end
  by (relation "measure (\<lambda>(_, _, _, stop, cursor). stop - cursor)") auto

declare group_end.simps [simp del]

lemma group_end_ge: "cursor \<le> group_end items depth name stop cursor"
proof (induction items depth name stop cursor rule: group_end.induct)
  case (1 items depth name stop cursor)
  then show ?case by (subst group_end.simps) auto
qed

function level_loop ::
  "(scope \<times> level_filter) list \<Rightarrow> nat \<Rightarrow> nat option \<Rightarrow> nat \<Rightarrow> nat \<Rightarrow> scope_map_entry list \<Rightarrow> process_queue_entry list \<Rightarrow>
   (scope_map_entry list \<times> process_queue_entry list) option" where
  "level_loop items depth parent_index stop cursor entries queue =
     (if cursor < stop then
        let scope_name = fst (items ! cursor) ! depth;
            sub_items_end = group_end items depth scope_name stop (cursor + 1)
        in if scope_name = [] then do {
             assert_that (cursor + 1 = sub_items_end);
             assert_that (depth \<noteq> 0);
             p \<leftarrow> parent_index;
             parent \<leftarrow> get_opt entries p;
             assert_that (sme_enabled parent = None);
             level_loop items depth parent_index stop sub_items_end
               (entries[p := parent\<lparr>sme_enabled := Some (snd (items ! cursor))\<rparr>]) queue }
           else if depth + 1 = SCOPE_DEPTH_MAX then do {
             assert_that (cursor + 1 = sub_items_end);
             level_loop items depth parent_index stop sub_items_end
               (entries @ [\<lparr>sme_scope = scope_name, sme_enabled = Some (snd (items ! cursor)), sme_descendants = (0, 0)\<rparr>]) queue }
           else
             level_loop items depth parent_index stop sub_items_end
               (entries @ [\<lparr>sme_scope = scope_name, sme_enabled = None, sme_descendants = (0, 0)\<rparr>])
               (queue @ [\<lparr>pq_parent_index = Some (length entries), pq_depth = depth + 1, pq_items_range = (cursor, sub_items_end)\<rparr>])
      else Some (entries, queue))"
  by pat_completeness auto
termination level_loop
proof (relation "measure (\<lambda>(_, _, _, stop, cursor, _). stop - cursor)")
qed (auto simp: Suc_le_eq less_le_trans [OF lessI group_end_ge] intro!: diff_less_mono2)

declare level_loop.simps [simp del]

text \<open>The entry whose turn it is.\<close>

definition process_entry ::
  "(scope \<times> level_filter) list \<Rightarrow> process_queue_entry \<Rightarrow> scope_map_entry list \<Rightarrow> nat \<Rightarrow> process_queue_entry list \<Rightarrow>
   (scope_map_entry list \<times> nat \<times> process_queue_entry list) option" where
  "process_entry items q entries root_count queue = do {
     let res_entries_start = length entries;
     (entries, queue) \<leftarrow> level_loop items (pq_depth q) (pq_parent_index q) (snd (pq_items_range q)) (fst (pq_items_range q)) entries queue;
     let res_entries_end = length entries;
     (case pq_parent_index q of
        Some p \<Rightarrow> do {
          parent \<leftarrow> get_opt entries p;
          Some (entries[p := parent\<lparr>sme_descendants := (res_entries_start, res_entries_end)\<rparr>], root_count, queue) }
      | None \<Rightarrow> Some (entries, res_entries_end, queue)) }"

partial_function (option) process_queue ::
  "(scope \<times> level_filter) list \<Rightarrow> scope_map_entry list \<Rightarrow> nat \<Rightarrow> process_queue_entry list \<Rightarrow> (scope_map_entry list \<times> nat) option" where
  "process_queue items entries root_count queue =
     (if queue = [] then Some (entries, root_count)
      else do {
        (entries, root_count, queue) \<leftarrow> process_entry items (hd queue) entries root_count (tl queue);
        process_queue items entries root_count queue })"

definition env_filters :: "env_filter option \<Rightarrow> (string \<times> level_filter) list" where
  "env_filters env_config = (case env_config of None \<Rightarrow> [] | Some f \<Rightarrow> zip (ef_directive_names f) (ef_directive_levels f))"

definition new_filters :: "(string \<times> string) list \<Rightarrow> (string \<times> level_filter) list" where
  "new_filters settings =
     List.map_filter (\<lambda>(scope_str, level_str). map_option (Pair scope_str) (level_filter_from_str level_str)) settings"

definition new_from_settings_and_env ::
  "(string \<times> string) list \<Rightarrow> env_filter option \<Rightarrow> (string \<times> level_filter) list \<Rightarrow> scope_map option" where
  "new_from_settings_and_env settings env_config default_filters = do {
     let (items, modules) = collect_filters (default_filters @ env_filters env_config @ new_filters settings) [] [];
     let items = sort_by (\<lambda>a b. list_cmp str_cmp (fst a) (fst b)) items;
     let modules = sort_by (\<lambda>a b. str_cmp (fst a) (fst b)) modules;
     (entries, root_count) \<leftarrow>
       process_queue items [] 0 [\<lparr>pq_parent_index = None, pq_depth = 0, pq_items_range = (0, length items)\<rparr>];
     Some \<lparr>sm_entries = entries, sm_modules = modules, sm_root_count = root_count\<rparr> }"

definition scope_map_is_empty :: "scope_map \<Rightarrow> bool" where
  "scope_map_is_empty m \<longleftrightarrow> sm_entries m = [] \<and> sm_modules m = []"

definition scope_map_empty :: scope_map where
  "scope_map_empty = \<lparr>sm_entries = [], sm_modules = [], sm_root_count = 0\<rparr>"

function search_scopes :: "scope_map \<Rightarrow> scope \<Rightarrow> scope_map_entry list \<Rightarrow> nat \<Rightarrow> level_filter option \<Rightarrow> level_filter option option" where
  "search_scopes m s cur_range depth enabled =
     (if cur_range \<noteq> [] \<and> depth < SCOPE_DEPTH_MAX \<and> s ! depth \<noteq> [] then
        (case List.find (\<lambda>entry. sme_scope entry = s ! depth) cur_range of
           None \<Rightarrow> Some enabled
         | Some entry \<Rightarrow> do {
             cur_range \<leftarrow> slice_opt (sm_entries m) (sme_descendants entry);
             search_scopes m s cur_range (depth + 1) (case sme_enabled entry of Some l \<Rightarrow> Some l | None \<Rightarrow> enabled) })
      else Some enabled)"
  by pat_completeness auto
termination search_scopes
  by (relation "measure (\<lambda>(_, _, _, depth, _). SCOPE_DEPTH_MAX - depth)") auto

declare search_scopes.simps [simp del]

definition search :: "scope_map \<Rightarrow> scope \<Rightarrow> level_filter option option" where
  "search m s = do {
     cur_range \<leftarrow> slice_opt (sm_entries m) (0, sm_root_count m);
     search_scopes m s cur_range 0 None }"

definition scope_map_is_enabled :: "scope_map \<Rightarrow> scope \<Rightarrow> string option \<Rightarrow> log_level \<Rightarrow> enabled_status option" where
  "scope_map_is_enabled m s module_path lvl = do {
     enabled \<leftarrow> search m s;
     enabled \<leftarrow>
       (case module_path of
          None \<Rightarrow> Some enabled
        | Some module_path \<Rightarrow> do {
            let crate_name = extract_crate_name_from_module_path module_path;
            enabled \<leftarrow>
              (if enabled = None \<and> s ! 0 = [] then do {
                 crate_name_scope \<leftarrow> scope_ref_new [crate_name];
                 search m crate_name_scope }
               else Some enabled);
            Some
              (if sm_modules m \<noteq> [] \<and> (enabled = None \<or> s ! 0 = crate_name \<and> s ! 1 = [])
               then (case map_of (sm_modules m) module_path of Some l \<Rightarrow> Some l | None \<Rightarrow> enabled)
               else enabled) });
     Some
       (case enabled of
          Some l \<Rightarrow> if level_u8 lvl \<le> filter_u8 l then Enabled else Disabled
        | None \<Rightarrow> NotConfigured) }"

section \<open>The global filter\<close>

record log_state =
  gl_env_filter :: "env_filter option"
  gl_scope_map :: scope_map
  gl_level_enabled_max_static :: nat
  gl_level_enabled_max_config :: nat

definition log_initial :: log_state where
  "log_initial =
     \<lparr>gl_env_filter = None, gl_scope_map = scope_map_empty, gl_level_enabled_max_static = filter_u8 FilterInfo,
      gl_level_enabled_max_config = filter_u8 FilterInfo\<rparr>"

definition default_filters :: "target_os \<Rightarrow> (string \<times> level_filter) list" where
  "default_filters os =
     (if os = Linux \<or> os = FreeBsd then [(''zbus'', FilterWarn)] else []) @
     (if os = Linux \<or> os = FreeBsd \<or> os = Windows then [(''naga::back::spv::writer'', FilterWarn)] else []) @
     [(''usvg::parser'', FilterError), (''simplecss::selector'', FilterError), (''pet'', FilterWarn)]"

definition init_env_filter :: "log_state \<Rightarrow> env_filter \<Rightarrow> log_state option" where
  "init_env_filter st f = do {
     let st = (case ef_level_global f of Some level_max \<Rightarrow> st\<lparr>gl_level_enabled_max_static := filter_u8 level_max\<rparr> | None \<Rightarrow> st);
     assert_that (gl_env_filter st = None);
     Some (st\<lparr>gl_env_filter := Some f\<rparr>) }"

definition is_possibly_enabled_level :: "log_state \<Rightarrow> log_level \<Rightarrow> bool" where
  "is_possibly_enabled_level st lvl \<longleftrightarrow> level_u8 lvl \<le> gl_level_enabled_max_config st"

definition is_scope_enabled :: "log_state \<Rightarrow> scope \<Rightarrow> string option \<Rightarrow> log_level \<Rightarrow> bool option" where
  "is_scope_enabled st s module_path lvl =
     (if \<not> is_possibly_enabled_level st lvl then Some False
      else
        let is_enabled_by_default = (level_u8 lvl \<le> gl_level_enabled_max_static st)
        in if scope_map_is_empty (gl_scope_map st) then Some is_enabled_by_default
           else do {
             enabled_status \<leftarrow> scope_map_is_enabled (gl_scope_map st) s module_path lvl;
             Some (case enabled_status of NotConfigured \<Rightarrow> is_enabled_by_default | Enabled \<Rightarrow> True | Disabled \<Rightarrow> False) })"

definition refresh_from_settings :: "target_os \<Rightarrow> log_state \<Rightarrow> (string \<times> string) list \<Rightarrow> log_state option" where
  "refresh_from_settings os st settings = do {
     map_new \<leftarrow> new_from_settings_and_env settings (gl_env_filter st) (default_filters os);
     let level_enabled_max =
       fold (\<lambda>entry m. case sme_enabled entry of Some l \<Rightarrow> max m (filter_u8 l) | None \<Rightarrow> m) (sm_entries map_new)
         (gl_level_enabled_max_static st);
     Some (st\<lparr>gl_level_enabled_max_config := level_enabled_max, gl_scope_map := map_new\<rparr>) }"

section \<open>The logger\<close>

record log_record =
  lr_level :: log_level
  lr_target :: string
  lr_module_path :: "string option"
  lr_file :: "string option"

text \<open>What is handed to the sink: the scope, the level and the module path of a message.\<close>

definition zlog_log :: "log_state \<Rightarrow> log_record \<Rightarrow> (scope \<times> log_level \<times> string option) option option" where
  "zlog_log st r =
     (if \<not> is_possibly_enabled_level st (lr_level r) then Some None
      else do {
        let module_path = (case lr_module_path r of Some m \<Rightarrow> Some m | None \<Rightarrow> lr_file r);
        (crate_name_scope, module_scope) \<leftarrow>
          (case module_path of
             Some module_path \<Rightarrow> do {
               c \<leftarrow> scope_ref_new [extract_crate_name_from_module_path module_path];
               m \<leftarrow> scope_ref_new [module_path];
               Some (c, m) }
           | None \<Rightarrow> do {
               c \<leftarrow> scope_ref_new [];
               m \<leftarrow> scope_ref_new [''*unknown*''];
               Some (c, m) });
        enabled \<leftarrow> is_scope_enabled st crate_name_scope (Some (lr_target r)) (lr_level r);
        Some (if enabled then Some (module_scope, lr_level r, module_path) else None) })"

definition logger_log :: "log_state \<Rightarrow> scope \<Rightarrow> log_record \<Rightarrow> (scope \<times> log_level \<times> string option) option option" where
  "logger_log st logger_scope r =
     (if \<not> is_possibly_enabled_level st (lr_level r) then Some None
      else do {
        enabled \<leftarrow> is_scope_enabled st logger_scope (Some (lr_target r)) (lr_level r);
        Some (if enabled then Some (logger_scope, lr_level r, lr_module_path r) else None) })"

definition process_env :: "log_state \<Rightarrow> string option \<Rightarrow> string option \<Rightarrow> log_state option" where
  "process_env st get_env_config f =
     (case (case get_env_config of Some c \<Rightarrow> Some c | None \<Rightarrow> f) of
        None \<Rightarrow> Some st
      | Some env_config \<Rightarrow> (case env_parse env_config of Inr f \<Rightarrow> init_env_filter st f | Inl _ \<Rightarrow> Some st))"

definition try_init :: "target_os \<Rightarrow> log_state \<Rightarrow> string option \<Rightarrow> string option \<Rightarrow> log_state option" where
  "try_init os st get_env_config f = do {
     st \<leftarrow> process_env st get_env_config f;
     refresh_from_settings os st [] }"

end
