(* ===== verification/ScopeMap.thy ===== *)
theory ScopeMap
  imports LogFilter
begin

text \<open>
  The scope map of the log filter (\<^verbatim>\<open>crates/zlog/src/filter.rs\<close>) is what it stands for: building it never panics, and a search
  finds the level of the most specific configured scope above a given one. The proof follows the queue: every entry of the
  array stands for a path of names, and is either still in the queue or finished.
\<close>

section \<open>Groups of sorted items\<close>

abbreviation scope_at :: "(scope \<times> 'v) list \<Rightarrow> nat \<Rightarrow> scope" where
  "scope_at items i \<equiv> fst (items ! i)"

lemma group_end_unfold:
  "group_end items d name stop c = (if c < stop \<and> scope_at items c ! d = name then group_end items d name stop (c + 1) else c)"
  by (rule group_end.simps)

lemma group_end_props:
  "c \<le> stop \<Longrightarrow> group_end items d name stop c \<le> stop \<and>
   (\<forall>i. c \<le> i \<and> i < group_end items d name stop c \<longrightarrow> scope_at items i ! d = name) \<and>
   (group_end items d name stop c < stop \<longrightarrow> scope_at items (group_end items d name stop c) ! d \<noteq> name)"
proof (induction items d name stop c rule: group_end.induct)
  case (1 items d name stop c)
  show ?case
  proof (cases "c < stop \<and> scope_at items c ! d = name")
    case True
    then have "group_end items d name stop c = group_end items d name stop (c + 1)" using group_end_unfold [of items d name stop c] by simp
    moreover have "scope_at items i ! d = name" if "c \<le> i" "i < group_end items d name stop (c + 1)" for i
      using 1 True that by (cases "i = c") auto
    ultimately show ?thesis using 1 True by simp
  next
    case False
    then show ?thesis using group_end_unfold [of items d name stop c] "1.prems" by auto
  qed
qed

text \<open>The runs of items with the same name at a depth.\<close>

function groups :: "(scope \<times> 'v) list \<Rightarrow> nat \<Rightarrow> nat \<Rightarrow> nat \<Rightarrow> (string \<times> nat \<times> nat) list" where
  "groups items d stop c =
     (if c < stop then
        let name = scope_at items c ! d; e = group_end items d name stop (c + 1) in (name, c, e) # groups items d stop e
      else [])"
  by pat_completeness auto
termination groups
proof (relation "measure (\<lambda>(_, _, stop, c). stop - c)")
qed (auto simp: Suc_le_eq less_le_trans [OF lessI group_end_ge] intro!: diff_less_mono2)

declare groups.simps [simp del]

lemma groups_stop [simp]: "groups items d stop stop = []"
  by (subst groups.simps) simp

lemma groups_step:
  "c < stop \<Longrightarrow> groups items d stop c =
     (scope_at items c ! d, c, group_end items d (scope_at items c ! d) stop (c + 1)) #
     groups items d stop (group_end items d (scope_at items c ! d) stop (c + 1))"
  by (subst groups.simps) (simp add: Let_def)

definition monotone_at :: "(scope \<times> 'v) list \<Rightarrow> nat \<Rightarrow> nat \<Rightarrow> nat \<Rightarrow> bool" where
  "monotone_at items d lo hi \<longleftrightarrow>
     (\<forall>i j. lo \<le> i \<and> i \<le> j \<and> j < hi \<longrightarrow> str_cmp (scope_at items i ! d) (scope_at items j ! d) \<noteq> Greater)"

lemma monotone_at_sub: "monotone_at items d lo hi \<Longrightarrow> lo \<le> lo' \<Longrightarrow> monotone_at items d lo' hi"
  by (auto simp: monotone_at_def)

lemma run_ends:
  assumes "monotone_at items d c stop" "c < stop"
  defines "e \<equiv> group_end items d (scope_at items c ! d) stop (c + 1)"
  shows "c < e" "e \<le> stop" "\<And>i. c \<le> i \<Longrightarrow> i < stop \<Longrightarrow> scope_at items i ! d = scope_at items c ! d \<longleftrightarrow> i < e"
proof -
  let ?n = "scope_at items c ! d"
  have e: "e \<le> stop" "\<forall>i. c + 1 \<le> i \<and> i < e \<longrightarrow> scope_at items i ! d = ?n" "e < stop \<Longrightarrow> scope_at items e ! d \<noteq> ?n"
    using group_end_props [of "c + 1" stop items d ?n] assms(2) by (simp_all add: e_def)
  show ce: "c < e" using group_end_ge [of "c + 1" items d ?n stop] by (simp add: e_def)
  show "e \<le> stop" by (rule e(1))
  show "scope_at items i ! d = ?n \<longleftrightarrow> i < e" if i: "c \<le> i" "i < stop" for i
  proof
    assume same: "scope_at items i ! d = ?n"
    show "i < e"
    proof (rule ccontr)
      assume "\<not> i < e"
      then have le: "str_cmp ?n (scope_at items e ! d) \<noteq> Greater" "str_cmp (scope_at items e ! d) (scope_at items i ! d) \<noteq> Greater"
        using assms(1) i ce unfolding monotone_at_def by auto
      then have "scope_at items e ! d = ?n"
        using same string_order.cmp_swap [of "scope_at items e ! d" ?n] string_order.cmp_eq [of "scope_at items e ! d" ?n]
        by (cases "str_cmp (scope_at items e ! d) ?n") auto
      then show False using e(3) \<open>\<not> i < e\<close> i by simp
    qed
  next
    assume "i < e"
    then show "scope_at items i ! d = ?n" using e(2) i(1) by (cases "i = c") auto
  qed
qed

lemma groups_props:
  assumes "monotone_at items d c stop" "c \<le> stop"
  shows "\<forall>(n, a, b) \<in> set (groups items d stop c). c \<le> a \<and> a < b \<and> b \<le> stop \<and>
      (\<forall>i. c \<le> i \<and> i < stop \<longrightarrow> (a \<le> i \<and> i < b \<longleftrightarrow> scope_at items i ! d = n))"
    "\<And>i. c \<le> i \<Longrightarrow> i < stop \<Longrightarrow> scope_at items i ! d \<in> fst ` set (groups items d stop c)"
    "distinct (map fst (groups items d stop c))"
    "sum_list (map (\<lambda>(n, a, b). b - a) (groups items d stop c)) = stop - c"
proof -
  have "(\<forall>(n, a, b) \<in> set (groups items d stop c). c \<le> a \<and> a < b \<and> b \<le> stop \<and>
      (\<forall>i. c \<le> i \<and> i < stop \<longrightarrow> (a \<le> i \<and> i < b \<longleftrightarrow> scope_at items i ! d = n))) \<and>
    (\<forall>i. c \<le> i \<longrightarrow> i < stop \<longrightarrow> scope_at items i ! d \<in> fst ` set (groups items d stop c)) \<and>
    distinct (map fst (groups items d stop c)) \<and>
    sum_list (map (\<lambda>(n, a, b). b - a) (groups items d stop c)) = stop - c"
    using assms
  proof (induction "stop - c" arbitrary: c rule: less_induct)
    case less
    show ?case
    proof (cases "c < stop")
      case True
      let ?n = "scope_at items c ! d"
      let ?e = "group_end items d ?n stop (c + 1)"
      note e = run_ends [OF less.prems(1) True]
      let ?G = "groups items d stop ?e"
      have "stop - ?e < stop - c" using e(1,2) by simp
      from less.hyps [OF this monotone_at_sub [OF less.prems(1)] e(2)] e(1)
      have IH: "\<forall>(n, a, b) \<in> set ?G. ?e \<le> a \<and> a < b \<and> b \<le> stop \<and>
            (\<forall>i. ?e \<le> i \<and> i < stop \<longrightarrow> (a \<le> i \<and> i < b \<longleftrightarrow> scope_at items i ! d = n))"
          "\<forall>i. ?e \<le> i \<longrightarrow> i < stop \<longrightarrow> scope_at items i ! d \<in> fst ` set ?G" "distinct (map fst ?G)"
          "sum_list (map (\<lambda>(n, a, b). b - a) ?G) = stop - ?e"
        by auto
      have other: "n \<noteq> ?n" if "(n, a, b) \<in> set ?G" for n a b
      proof -
        have "?e \<le> a" "a < stop" "scope_at items a ! d = n" using IH(1) that by fastforce+
        then show ?thesis using e(3) [of a] e(1) by auto
      qed
      have "c \<le> a \<and> a < b \<and> b \<le> stop \<and> (\<forall>i. c \<le> i \<and> i < stop \<longrightarrow> (a \<le> i \<and> i < b \<longleftrightarrow> scope_at items i ! d = n))"
        if g: "(n, a, b) \<in> set ?G" for n a b
      proof -
        have ab: "?e \<le> a" "a < b" "b \<le> stop" "\<forall>i. ?e \<le> i \<and> i < stop \<longrightarrow> (a \<le> i \<and> i < b \<longleftrightarrow> scope_at items i ! d = n)"
          using IH(1) g by auto
        moreover have "scope_at items i ! d \<noteq> n" if "c \<le> i" "i < ?e" for i
          using e(3) [of i] that other [OF g] e(2) by auto
        ultimately have "a \<le> i \<and> i < b \<longleftrightarrow> scope_at items i ! d = n" if "c \<le> i" "i < stop" for i
          using that by (cases "i < ?e") auto
        with ab e(1) show ?thesis by simp
      qed
      moreover have "c \<le> c \<and> c < ?e \<and> ?e \<le> stop \<and> (\<forall>i. c \<le> i \<and> i < stop \<longrightarrow> (c \<le> i \<and> i < ?e \<longleftrightarrow> scope_at items i ! d = ?n))"
        using e by simp
      ultimately have 1: "\<forall>(n, a, b) \<in> set ((?n, c, ?e) # ?G). c \<le> a \<and> a < b \<and> b \<le> stop \<and>
          (\<forall>i. c \<le> i \<and> i < stop \<longrightarrow> (a \<le> i \<and> i < b \<longleftrightarrow> scope_at items i ! d = n))"
        by auto
      have 2: "\<forall>i. c \<le> i \<longrightarrow> i < stop \<longrightarrow> scope_at items i ! d \<in> fst ` set ((?n, c, ?e) # ?G)"
      proof (intro allI impI)
        fix i assume "c \<le> i" "i < stop"
        then show "scope_at items i ! d \<in> fst ` set ((?n, c, ?e) # ?G)"
          using IH(2) e(3) [of i] by (cases "i < ?e") simp_all
      qed
      have 3: "distinct (map fst ((?n, c, ?e) # ?G))"
      proof -
        have "?n \<notin> fst ` set ?G" using other by force
        then show ?thesis using IH(3) by simp
      qed
      have 4: "sum_list (map (\<lambda>(n, a, b). b - a) ((?n, c, ?e) # ?G)) = stop - c" using IH(4) e(1,2) by simp
      show ?thesis unfolding groups_step [OF True] using 1 2 3 4 by blast
    next
      case False
      then show ?thesis using less.prems(2) by simp
    qed
  qed
  then show "\<forall>(n, a, b) \<in> set (groups items d stop c). c \<le> a \<and> a < b \<and> b \<le> stop \<and>
      (\<forall>i. c \<le> i \<and> i < stop \<longrightarrow> (a \<le> i \<and> i < b \<longleftrightarrow> scope_at items i ! d = n))"
    "\<And>i. c \<le> i \<Longrightarrow> i < stop \<Longrightarrow> scope_at items i ! d \<in> fst ` set (groups items d stop c)"
    "distinct (map fst (groups items d stop c))"
    "sum_list (map (\<lambda>(n, a, b). b - a) (groups items d stop c)) = stop - c"
    by blast+
qed

section \<open>The loop over a level\<close>

abbreviation kids :: "(string \<times> nat \<times> nat) list \<Rightarrow> (string \<times> nat \<times> nat) list" where
  "kids gs \<equiv> filter (\<lambda>(n, _, _). n \<noteq> []) gs"

definition child_entry :: "(scope \<times> level_filter) list \<Rightarrow> nat \<Rightarrow> string \<times> nat \<times> nat \<Rightarrow> scope_map_entry" where
  "child_entry items d g = (case g of (n, a, b) \<Rightarrow>
     \<lparr>sme_scope = n, sme_enabled = (if d + 1 = SCOPE_DEPTH_MAX then Some (snd (items ! a)) else None), sme_descendants = (0, 0)\<rparr>)"

definition child_queue :: "nat \<Rightarrow> nat \<Rightarrow> (string \<times> nat \<times> nat) list \<Rightarrow> process_queue_entry list" where
  "child_queue d start gs =
     (if d + 1 = SCOPE_DEPTH_MAX then []
      else map (\<lambda>(k, n, a, b). \<lparr>pq_parent_index = Some k, pq_depth = d + 1, pq_items_range = (a, b)\<rparr>) (List.enumerate start gs))"

text \<open>The level of the parent itself, from the group with the empty name.\<close>

definition own_enabled :: "(scope \<times> level_filter) list \<Rightarrow> nat option \<Rightarrow> (string \<times> nat \<times> nat) list \<Rightarrow> scope_map_entry list \<Rightarrow> scope_map_entry list" where
  "own_enabled items parent gs entries =
     (case (List.find (\<lambda>(n, _, _). n = []) gs, parent) of
        (Some (n, a, b), Some p) \<Rightarrow> entries[p := (entries ! p)\<lparr>sme_enabled := Some (snd (items ! a))\<rparr>]
      | _ \<Rightarrow> entries)"

lemma length_own_enabled [simp]: "length (own_enabled items parent gs entries) = length entries"
  by (auto simp: own_enabled_def split: option.splits prod.splits)

lemma find_None_kids: "[] \<notin> fst ` set gs \<Longrightarrow> List.find (\<lambda>(n, _, _). n = []) gs = None"
  by (force simp: find_None_iff)

lemma own_enabled_append:
  "p < length entries \<Longrightarrow> own_enabled items (Some p) gs (entries @ es) = own_enabled items (Some p) gs entries @ es"
  "[] \<notin> fst ` set gs \<Longrightarrow> own_enabled items parent gs entries = entries"
  by (auto simp: own_enabled_def find_None_kids nth_append list_update_append split: option.splits prod.splits)

lemma level_loop_step:
  "c < stop \<Longrightarrow> n = scope_at items c ! d \<Longrightarrow> e = group_end items d n stop (c + 1) \<Longrightarrow>
   level_loop items d parent stop c entries queue =
     (if n = [] then do {
        assert_that (c + 1 = e);
        assert_that (d \<noteq> 0);
        p \<leftarrow> parent;
        par \<leftarrow> get_opt entries p;
        assert_that (sme_enabled par = None);
        level_loop items d parent stop e (entries[p := par\<lparr>sme_enabled := Some (snd (items ! c))\<rparr>]) queue }
      else if d + 1 = SCOPE_DEPTH_MAX then do {
        assert_that (c + 1 = e);
        level_loop items d parent stop e (entries @ [child_entry items d (n, c, e)]) queue }
      else level_loop items d parent stop e (entries @ [child_entry items d (n, c, e)])
        (queue @ [\<lparr>pq_parent_index = Some (length entries), pq_depth = d + 1, pq_items_range = (c, e)\<rparr>]))"
  by (subst level_loop.simps) (simp add: Let_def child_entry_def)


lemma level_loop_ok:
  assumes "\<forall>(n, a, b) \<in> set (groups items d stop c). n = [] \<or> d + 1 = SCOPE_DEPTH_MAX \<longrightarrow> b = a + 1"
    "distinct (map fst (groups items d stop c))"
    "[] \<in> fst ` set (groups items d stop c) \<Longrightarrow> d \<noteq> 0 \<and> (\<exists>p. parent = Some p \<and> p < length entries \<and> sme_enabled (entries ! p) = None)"
    "c \<le> stop"
  shows "level_loop items d parent stop c entries queue =
    Some (own_enabled items parent (groups items d stop c) entries @ map (child_entry items d) (kids (groups items d stop c)),
          queue @ child_queue d (length entries) (kids (groups items d stop c)))"
  using assms
proof (induction "stop - c" arbitrary: c entries queue rule: less_induct)
  case less
  show ?case
  proof (cases "c < stop")
    case False
    then show ?thesis using less.prems(4) by (subst level_loop.simps) (simp add: own_enabled_def child_queue_def enumerate_simps)
  next
    case True
    define n where "n = scope_at items c ! d"
    define e where "e = group_end items d n stop (c + 1)"
    let ?G = "groups items d stop e"
    have G: "groups items d stop c = (n, c, e) # ?G" using groups_step [OF True] by (simp add: n_def e_def)
    have e: "c < e" "e \<le> stop"
      using group_end_ge [of "c + 1" items d n stop] group_end_props [of "c + 1" stop items d n] True by (simp_all add: e_def)
    note step = level_loop_step [OF True n_def e_def]
    have IH: "level_loop items d parent stop e es q =
        Some (own_enabled items parent ?G es @ map (child_entry items d) (kids ?G), q @ child_queue d (length es) (kids ?G))"
      if "[] \<in> fst ` set ?G \<Longrightarrow> d \<noteq> 0 \<and> (\<exists>p. parent = Some p \<and> p < length es \<and> sme_enabled (es ! p) = None)" for es q
      using less.hyps [of e es q] that less.prems(1,2) e True by (simp add: G)
    show ?thesis
    proof (cases "n = []")
      case empty: True
      then obtain p where p: "d \<noteq> 0" "parent = Some p" "p < length entries" "sme_enabled (entries ! p) = None" "c + 1 = e"
        using less.prems(1,3) by (auto simp: G)
      have none: "[] \<notin> fst ` set ?G" using less.prems(2) empty by (simp add: G)
      let ?es = "entries[p := (entries ! p)\<lparr>sme_enabled := Some (snd (items ! c))\<rparr>]"
      have "level_loop items d parent stop c entries queue = level_loop items d parent stop e ?es queue"
        unfolding step using p empty by simp
      also have "\<dots> = Some (?es @ map (child_entry items d) (kids ?G), queue @ child_queue d (length entries) (kids ?G))"
        using IH [of ?es queue] none own_enabled_append(2) [OF none] by simp
      finally show ?thesis using empty p(2) by (simp add: G own_enabled_def)
    next
      case ne: False
      let ?es = "entries @ [child_entry items d (n, c, e)]"
      have pre: "[] \<in> fst ` set ?G \<Longrightarrow> d \<noteq> 0 \<and> (\<exists>p. parent = Some p \<and> p < length ?es \<and> sme_enabled (?es ! p) = None)"
        using less.prems(3) by (force simp: G nth_append)
      have own: "own_enabled items parent ?G ?es = own_enabled items parent ((n, c, e) # ?G) entries @ [child_entry items d (n, c, e)]"
      proof (cases "[] \<in> fst ` set ?G")
        case True
        then obtain p where "parent = Some p" "p < length entries" using less.prems(3) by (auto simp: G)
        then show ?thesis using ne own_enabled_append(1) [of p entries items ?G] by (simp add: own_enabled_def)
      next
        case False
        then show ?thesis using ne own_enabled_append(2) [of ?G] own_enabled_append(2) [of "(n, c, e) # ?G"] by simp
      qed
      have queue: "(if d + 1 = SCOPE_DEPTH_MAX then queue else queue @ [\<lparr>pq_parent_index = Some (length entries), pq_depth = d + 1, pq_items_range = (c, e)\<rparr>])
          @ child_queue d (length ?es) (kids ?G) = queue @ child_queue d (length entries) (kids ((n, c, e) # ?G))"
        using ne by (simp add: child_queue_def enumerate_simps)
      have "c + 1 = e" if "d + 1 = SCOPE_DEPTH_MAX" using less.prems(1) that by (simp add: G)
      then have "level_loop items d parent stop c entries queue = level_loop items d parent stop e ?es
          (if d + 1 = SCOPE_DEPTH_MAX then queue else queue @ [\<lparr>pq_parent_index = Some (length entries), pq_depth = d + 1, pq_items_range = (c, e)\<rparr>])"
        unfolding step using ne by simp
      also have "\<dots> = Some (own_enabled items parent ((n, c, e) # ?G) entries @ map (child_entry items d) (kids ((n, c, e) # ?G)),
          queue @ child_queue d (length entries) (kids ((n, c, e) # ?G)))"
        by (subst IH [OF pre], assumption, subst own, subst queue) (use ne in simp)
      finally show ?thesis by (simp only: G)
    qed
  qed
qed


section \<open>Sorted items\<close>

text \<open>A scope has a name first, and nothing but empty names behind an empty one; the items are sorted and distinct.\<close>

definition padded :: "string list \<Rightarrow> scope" where
  "padded ws = ws @ replicate (SCOPE_DEPTH_MAX - length ws) []"

definition scope_ok :: "scope \<Rightarrow> bool" where
  "scope_ok s \<longleftrightarrow> (\<exists>ws. ws \<noteq> [] \<and> length ws \<le> SCOPE_DEPTH_MAX \<and> [] \<notin> set ws \<and> s = padded ws)"

definition items_ok :: "(scope \<times> level_filter) list \<Rightarrow> bool" where
  "items_ok items \<longleftrightarrow> (\<forall>i < length items. scope_ok (scope_at items i)) \<and>
     sorted_wrt (\<lambda>a b. list_cmp str_cmp (fst a) (fst b) = Less) items"

lemma padded_simps [simp]:
  "length ws \<le> SCOPE_DEPTH_MAX \<Longrightarrow> length (padded ws) = SCOPE_DEPTH_MAX"
  "length ws \<le> d \<Longrightarrow> d < SCOPE_DEPTH_MAX \<Longrightarrow> padded ws ! d = []"
  "d < length ws \<Longrightarrow> padded ws ! d = ws ! d"
  by (auto simp: padded_def nth_append)

lemma scope_okD: "scope_ok s \<Longrightarrow> length s = SCOPE_DEPTH_MAX" "scope_ok s \<Longrightarrow> s ! 0 \<noteq> []"
  by (auto simp: scope_ok_def padded_def nth_append) (metis length_greater_0_conv nth_mem)

lemma scope_ok_ended:
  assumes "scope_ok s" "d < SCOPE_DEPTH_MAX" "s ! d = []"
  shows "s = padded (take d s)"
proof -
  obtain ws where ws: "length ws \<le> SCOPE_DEPTH_MAX" "[] \<notin> set ws" "s = padded ws" using assms(1) by (auto simp: scope_ok_def)
  have le: "length ws \<le> d" using assms(3) ws nth_mem [of d ws] by (metis not_le padded_simps(3))
  have "take d s = ws @ replicate (d - length ws) []" using ws(3) le assms(2) by (simp add: padded_def min_def)
  moreover have "replicate (SCOPE_DEPTH_MAX - length ws) [] = replicate (d - length ws) [] @ replicate (SCOPE_DEPTH_MAX - d) []"
    using le assms(2) by (simp add: replicate_add [symmetric])
  ultimately show ?thesis using ws(3) le by (simp add: padded_def)
qed

lemma items_scope: "items_ok items \<Longrightarrow> i < length items \<Longrightarrow> scope_ok (scope_at items i)"
  by (simp add: items_ok_def)

lemma items_distinct:
  assumes "items_ok items" "i < length items" "j < length items" "scope_at items i = scope_at items j"
  shows "i = j"
proof (rule ccontr)
  assume "i \<noteq> j"
  then consider "i < j" | "j < i" by linarith
  then have "list_cmp str_cmp (scope_at items i) (scope_at items j) = Less \<or> list_cmp str_cmp (scope_at items j) (scope_at items i) = Less"
    using assms(1-3) by cases (auto simp: items_ok_def sorted_wrt_iff_nth_less)
  then show False using assms(4) component_order.cmp_refl by simp
qed

lemma items_level: "items_ok items \<Longrightarrow> i < length items \<Longrightarrow> map_of items (scope_at items i) = Some (snd (items ! i))"
  using items_distinct [of items] by (intro map_of_eq_Some_iff [THEN iffD2]) (auto simp: distinct_conv_nth)

lemma list_cmp_same_start:
  "take d xs = take d ys \<Longrightarrow> d < length xs \<Longrightarrow> d < length ys \<Longrightarrow> list_cmp str_cmp xs ys = Less \<Longrightarrow> str_cmp (xs ! d) (ys ! d) \<noteq> Greater"
proof (induction d arbitrary: xs ys)
  case 0
  then show ?case by (cases xs; cases ys) (auto split: ordering.splits)
next
  case (Suc d)
  then obtain x xs' y ys' where "xs = x # xs'" "ys = y # ys'" by (cases xs; cases ys) auto
  then show ?case using Suc string_order.cmp_refl by auto
qed

lemma items_monotone:
  assumes "items_ok items" "hi \<le> length items" "d < SCOPE_DEPTH_MAX" "\<And>i. lo \<le> i \<Longrightarrow> i < hi \<Longrightarrow> take d (scope_at items i) = p"
  shows "monotone_at items d lo hi"
  unfolding monotone_at_def
proof (intro allI impI)
  fix i j assume ij: "lo \<le> i \<and> i \<le> j \<and> j < hi"
  have len: "length (scope_at items k) = SCOPE_DEPTH_MAX" if "k < hi" for k using items_scope [OF assms(1)] scope_okD(1) that assms(2) by simp
  show "str_cmp (scope_at items i ! d) (scope_at items j ! d) \<noteq> Greater"
  proof (cases "i = j")
    case False
    then have "list_cmp str_cmp (scope_at items i) (scope_at items j) = Less"
      using ij assms(1,2) by (auto simp: items_ok_def sorted_wrt_iff_nth_less)
    then show ?thesis using list_cmp_same_start [of d "scope_at items i" "scope_at items j"] assms(3,4) ij len by simp
  qed (simp add: string_order.cmp_refl)
qed

section \<open>The invariant of the queue\<close>

text \<open>The items below a path, its own level, and the names of its children.\<close>

definition covers_path :: "(scope \<times> level_filter) list \<Rightarrow> string list \<Rightarrow> nat \<times> nat \<Rightarrow> bool" where
  "covers_path items path rng \<longleftrightarrow> fst rng \<le> snd rng \<and> snd rng \<le> length items \<and>
     (\<forall>i < length items. fst rng \<le> i \<and> i < snd rng \<longleftrightarrow> take (length path) (scope_at items i) = path)"

definition own_level :: "(scope \<times> level_filter) list \<Rightarrow> string list \<Rightarrow> level_filter option" where
  "own_level items path = map_of items (padded path)"

definition kids_of :: "(scope \<times> level_filter) list \<Rightarrow> string list \<Rightarrow> string set" where
  "kids_of items path = {c. c \<noteq> [] \<and> (\<exists>i < length items. take (Suc (length path)) (scope_at items i) = path @ [c])}"

definition kids_at :: "(scope \<times> level_filter) list \<Rightarrow> string list list \<Rightarrow> string list \<Rightarrow> nat \<times> nat \<Rightarrow> bool" where
  "kids_at items P path rng \<longleftrightarrow> fst rng \<le> snd rng \<and> snd rng \<le> length P \<and>
     (\<lambda>j. P ! j) ` {fst rng..<snd rng} = (\<lambda>c. path @ [c]) ` kids_of items path"

definition finished :: "(scope \<times> level_filter) list \<Rightarrow> string list list \<Rightarrow> scope_map_entry \<Rightarrow> string list \<Rightarrow> bool" where
  "finished items P entry path \<longleftrightarrow> sme_enabled entry = own_level items path \<and> kids_at items P path (sme_descendants entry)"

definition queue_path :: "string list list \<Rightarrow> process_queue_entry \<Rightarrow> string list" where
  "queue_path P q = (case pq_parent_index q of None \<Rightarrow> [] | Some k \<Rightarrow> P ! k)"

abbreviation waiting :: "process_queue_entry list \<Rightarrow> nat option set" where
  "waiting queue \<equiv> pq_parent_index ` set queue"

definition queued_ok :: "(scope \<times> level_filter) list \<Rightarrow> string list list \<Rightarrow> scope_map_entry list \<Rightarrow> process_queue_entry \<Rightarrow> bool" where
  "queued_ok items P entries q \<longleftrightarrow> length (queue_path P q) = pq_depth q \<and> pq_depth q < SCOPE_DEPTH_MAX \<and>
     covers_path items (queue_path P q) (pq_items_range q) \<and>
     (\<forall>k. pq_parent_index q = Some k \<longrightarrow> k < length P \<and> sme_enabled (entries ! k) = None) \<and>
     (pq_parent_index q = None \<longrightarrow> P = [])"

definition map_inv ::
  "(scope \<times> level_filter) list \<Rightarrow> string list list \<Rightarrow> scope_map_entry list \<Rightarrow> nat \<Rightarrow> process_queue_entry list \<Rightarrow> bool" where
  "map_inv items P entries root_count queue \<longleftrightarrow>
     length P = length entries \<and>
     (\<forall>k < length P. P ! k \<noteq> [] \<and> length (P ! k) \<le> SCOPE_DEPTH_MAX \<and> sme_scope (entries ! k) = last (P ! k)) \<and>
     (\<forall>q \<in> set queue. queued_ok items P entries q) \<and>
     distinct (map pq_parent_index queue) \<and>
     (\<forall>k < length P. Some k \<in> waiting queue \<or> finished items P (entries ! k) (P ! k)) \<and>
     (None \<in> waiting queue \<or> kids_at items P [] (0, root_count))"

text \<open>What is left to do.\<close>

definition queue_weight :: "process_queue_entry list \<Rightarrow> nat" where
  "queue_weight queue =
     sum_list (map (\<lambda>q. (SCOPE_DEPTH_MAX - pq_depth q) * (snd (pq_items_range q) - fst (pq_items_range q)) + 1) queue)"

lemma queue_weight_simps [simp]:
  "queue_weight [] = 0" "queue_weight (q # qs) = (SCOPE_DEPTH_MAX - pq_depth q) * (snd (pq_items_range q) - fst (pq_items_range q)) + 1 + queue_weight qs"
  "queue_weight (qs @ rs) = queue_weight qs + queue_weight rs"
  by (simp_all add: queue_weight_def)

lemma kids_at_extend: "kids_at items P path rng \<Longrightarrow> kids_at items (P @ Q) path rng"
  unfolding kids_at_def by (auto simp: nth_append image_def)

lemma child_queue_weight:
  assumes "d < SCOPE_DEPTH_MAX" "\<forall>(n, a, b) \<in> set gs. a < b"
  shows "queue_weight (child_queue d start (kids gs)) \<le> (SCOPE_DEPTH_MAX - d) * sum_list (map (\<lambda>(n, a, b). b - a) gs)"
proof (cases "d + 1 = SCOPE_DEPTH_MAX")
  case False
  then have one: "Suc ((SCOPE_DEPTH_MAX - Suc d) * (b - a)) \<le> (SCOPE_DEPTH_MAX - d) * (b - a)" if "a < b" for a b
  proof -
    have "SCOPE_DEPTH_MAX - d = Suc (SCOPE_DEPTH_MAX - Suc d)" using assms(1) by simp
    then show ?thesis using that by simp
  qed
  show ?thesis using assms(2)
  proof (induction gs arbitrary: start)
    case (Cons g gs)
    obtain n a b where g: "g = (n, a, b)" by (cases g)
    obtain k where k: "b = a + k" "0 < k" using Cons.prems g less_imp_add_positive [of a b] by auto
    then have "Suc ((SCOPE_DEPTH_MAX - Suc d) * k) \<le> (SCOPE_DEPTH_MAX - d) * k" using one [of a b] by simp
    then show ?case using Cons.IH [of start] Cons.IH [of "Suc start"] Cons.prems g k False
      by (auto simp: child_queue_def enumerate_simps distrib_left)
  qed (simp add: child_queue_def enumerate_simps)
qed (simp add: child_queue_def)


section \<open>Processing one entry\<close>

text \<open>The groups of the items below a path.\<close>

abbreviation level_groups :: "(scope \<times> level_filter) list \<Rightarrow> string list \<Rightarrow> nat \<times> nat \<Rightarrow> (string \<times> nat \<times> nat) list" where
  "level_groups items p rng \<equiv> groups items (length p) (snd rng) (fst rng)"

lemma covered:
  assumes "covers_path items p rng" "fst rng \<le> i" "i < snd rng"
  shows "i < length items" "take (length p) (scope_at items i) = p"
proof -
  show "i < length items" using assms by (simp add: covers_path_def)
  then show "take (length p) (scope_at items i) = p" using assms unfolding covers_path_def by blast
qed

lemma level_monotone:
  assumes "items_ok items" "length p < SCOPE_DEPTH_MAX" "covers_path items p rng"
  shows "monotone_at items (length p) (fst rng) (snd rng)" "fst rng \<le> snd rng"
proof -
  have "fst rng \<le> snd rng" "snd rng \<le> length items" using assms(3) by (simp_all add: covers_path_def)
  then show "monotone_at items (length p) (fst rng) (snd rng)" "fst rng \<le> snd rng"
    using items_monotone [OF assms(1) _ assms(2), of "snd rng" "fst rng" p] covered(2) [OF assms(3)] by auto
qed

lemma take_Suc_scope:
  assumes "items_ok items" "i < length items" "length p < SCOPE_DEPTH_MAX"
  shows "take (Suc (length p)) (scope_at items i) = p @ [n] \<longleftrightarrow> take (length p) (scope_at items i) = p \<and> scope_at items i ! length p = n"
proof -
  have "length p < length (scope_at items i)" using scope_okD(1) [OF items_scope [OF assms(1,2)]] assms(3) by simp
  then show ?thesis by (auto simp: take_Suc_conv_app_nth)
qed

lemma group_covers:
  assumes "items_ok items" "length p < SCOPE_DEPTH_MAX" "covers_path items p rng" "(n, a, b) \<in> set (level_groups items p rng)"
  shows "covers_path items (p @ [n]) (a, b)" "a < b"
proof -
  note g = groups_props(1) [OF level_monotone [OF assms(1-3)]]
  have ab: "fst rng \<le> a" "a < b" "b \<le> snd rng"
      "\<And>i. fst rng \<le> i \<Longrightarrow> i < snd rng \<Longrightarrow> a \<le> i \<and> i < b \<longleftrightarrow> scope_at items i ! length p = n"
    using bspec [OF g assms(4)] by auto
  show "a < b" by (rule ab(2))
  have "a \<le> i \<and> i < b \<longleftrightarrow> take (Suc (length p)) (scope_at items i) = p @ [n]" if i: "i < length items" for i
  proof -
    have "fst rng \<le> i \<and> i < snd rng \<longleftrightarrow> take (length p) (scope_at items i) = p" using assms(3) i by (simp add: covers_path_def)
    then show ?thesis unfolding take_Suc_scope [OF assms(1) i assms(2)] using ab(4) [of i] ab(1,3) by auto
  qed
  then show "covers_path items (p @ [n]) (a, b)" using ab assms(3) by (simp add: covers_path_def)
qed

lemma single_cover:
  assumes "items_ok items" "covers_path items p (a, b)" "a < b" "\<And>i. a \<le> i \<Longrightarrow> i < b \<Longrightarrow> scope_at items i = s"
  shows "b = a + 1" "map_of items s = Some (snd (items ! a))"
proof -
  have len: "b \<le> length items" using assms(2) by (simp add: covers_path_def)
  have "a = b - 1" using items_distinct [OF assms(1), of a "b - 1"] assms(3,4) len by simp
  then show "b = a + 1" using assms(3) by simp
  show "map_of items s = Some (snd (items ! a))" using items_level [OF assms(1), of a] assms(3,4) len by simp
qed

lemma empty_group:
  assumes "items_ok items" "length p < SCOPE_DEPTH_MAX" "covers_path items p rng" "([], a, b) \<in> set (level_groups items p rng)"
  shows "b = a + 1" "own_level items p = Some (snd (items ! a))" "p \<noteq> []"
proof -
  note c = group_covers [OF assms]
  have i: "i < length items" "take (length p) (scope_at items i) = p" "scope_at items i ! length p = []" if "a \<le> i" "i < b" for i
    using covered [OF c(1), of i] that take_Suc_scope [OF assms(1) _ assms(2), of i "[]"] by auto
  have s: "scope_at items i = padded p" if "a \<le> i" "i < b" for i
    using scope_ok_ended [OF items_scope [OF assms(1) i(1) [OF that]] assms(2) i(3) [OF that]] i(2) [OF that] by simp
  show "b = a + 1" "own_level items p = Some (snd (items ! a))"
    using single_cover [OF assms(1) c s] by (simp_all add: own_level_def)
  show "p \<noteq> []" using i [of a] scope_okD(2) [OF items_scope [OF assms(1), of a]] c(2) by auto
qed

lemma last_group:
  assumes "items_ok items" "Suc (length p) = SCOPE_DEPTH_MAX" "covers_path items p rng" "(n, a, b) \<in> set (level_groups items p rng)"
  shows "b = a + 1" "own_level items (p @ [n]) = Some (snd (items ! a))"
proof -
  note c = group_covers [OF assms(1) _ assms(3,4)]
  have "scope_at items i = p @ [n]" if "a \<le> i" "i < b" for i
    using covered [OF c(1), of i] scope_okD(1) [OF items_scope [OF assms(1), of i]] that assms(2) by simp
  then show "b = a + 1" "own_level items (p @ [n]) = Some (snd (items ! a))"
    using single_cover [OF assms(1) c] assms(2) by (simp_all add: own_level_def padded_def)
qed

lemma no_empty_group:
  assumes "items_ok items" "length p < SCOPE_DEPTH_MAX" "covers_path items p rng" "[] \<notin> fst ` set (level_groups items p rng)"
  shows "own_level items p = None"
proof (rule ccontr)
  assume "own_level items p \<noteq> None"
  then obtain i where i: "i < length items" "scope_at items i = padded p"
    by (metis fst_conv in_set_conv_nth map_of_SomeD not_None_eq own_level_def)
  then have "fst rng \<le> i" "i < snd rng" using assms(3) by (auto simp: covers_path_def padded_def)
  then have "scope_at items i ! length p \<in> fst ` set (level_groups items p rng)"
    using groups_props(2) [OF level_monotone [OF assms(1-3)]] by blast
  then show False using assms(2,4) i(2) by simp
qed

lemma group_names:
  assumes "items_ok items" "length p < SCOPE_DEPTH_MAX" "covers_path items p rng"
  shows "fst ` set (kids (level_groups items p rng)) = kids_of items p"
proof (intro equalityI subsetI)
  fix n assume "n \<in> fst ` set (kids (level_groups items p rng))"
  then obtain a b where g: "(n, a, b) \<in> set (level_groups items p rng)" "n \<noteq> []" by auto
  note c = group_covers [OF assms g(1)]
  show "n \<in> kids_of items p" using covered [OF c(1), of a] c(2) g(2) by (auto simp: kids_of_def)
next
  fix n assume "n \<in> kids_of items p"
  then obtain i where i: "n \<noteq> []" "i < length items" "take (Suc (length p)) (scope_at items i) = p @ [n]" by (auto simp: kids_of_def)
  then have "take (length p) (scope_at items i) = p" "scope_at items i ! length p = n"
    using take_Suc_scope [OF assms(1) i(2) assms(2)] by auto
  then have "n \<in> fst ` set (level_groups items p rng)"
    using groups_props(2) [OF level_monotone [OF assms], of i] assms(3) i(2) by (auto simp: covers_path_def)
  then show "n \<in> fst ` set (kids (level_groups items p rng))" using i(1) by force
qed

lemma find_SomeD: "List.find P xs = Some x \<Longrightarrow> P x \<and> x \<in> set xs"
  by (auto simp: find_Some_iff)

lemma own_enabled_level:
  assumes "items_ok items" "length p < SCOPE_DEPTH_MAX" "covers_path items p rng"
    "\<And>k. parent = Some k \<Longrightarrow> sme_enabled (entries ! k) = None" "parent = None \<Longrightarrow> p = []"
  shows "own_enabled items parent (level_groups items p rng) entries =
    (case parent of None \<Rightarrow> entries | Some k \<Rightarrow> entries[k := (entries ! k)\<lparr>sme_enabled := own_level items p\<rparr>])"
proof (cases "List.find (\<lambda>(n, _, _). n = []) (level_groups items p rng)")
  case None
  then have none: "[] \<notin> fst ` set (level_groups items p rng)" by (auto simp: find_None_iff)
  show ?thesis
  proof (cases parent)
    case (Some j)
    then have "(entries ! j)\<lparr>sme_enabled := None\<rparr> = entries ! j" using assms(4) [of j] by (cases "entries ! j") simp
    then show ?thesis using None no_empty_group [OF assms(1-3) none] Some by (simp add: own_enabled_def)
  qed (simp add: own_enabled_def None)
next
  case (Some g)
  then obtain a b where g: "g = ([], a, b)" "([], a, b) \<in> set (level_groups items p rng)"
    using find_SomeD [OF Some] by (cases g) auto
  show ?thesis using Some g empty_group [OF assms(1-3) g(2)] assms(5) by (cases parent) (simp_all add: own_enabled_def)
qed


lemma process_entry_ok:
  assumes "items_ok items" "length p < SCOPE_DEPTH_MAX" "covers_path items p (pq_items_range q)" "pq_depth q = length p"
    "\<And>k. pq_parent_index q = Some k \<Longrightarrow> k < length entries \<and> sme_enabled (entries ! k) = None"
    "pq_parent_index q = None \<Longrightarrow> p = []"
  defines "K \<equiv> kids (level_groups items p (pq_items_range q))"
  shows "process_entry items q entries root_count queue =
    (let N = length entries; new = map (child_entry items (length p)) K; queue' = queue @ child_queue (length p) N K
     in Some (case pq_parent_index q of
        None \<Rightarrow> (entries @ new, N + length K, queue')
      | Some k \<Rightarrow> (entries[k := (entries ! k)\<lparr>sme_enabled := own_level items p, sme_descendants := (N, N + length K)\<rparr>] @ new,
          root_count, queue')))"
proof -
  let ?G = "level_groups items p (pq_items_range q)"
  have e1: "\<forall>(n, a, b) \<in> set ?G. n = [] \<or> length p + 1 = SCOPE_DEPTH_MAX \<longrightarrow> b = a + 1"
    using empty_group(1) [OF assms(1-3)] last_group(1) [OF assms(1) _ assms(3)] by fastforce
  have e2: "distinct (map fst ?G)" using groups_props(3) [OF level_monotone [OF assms(1-3)]] .
  have e3: "length p \<noteq> 0 \<and> (\<exists>k. pq_parent_index q = Some k \<and> k < length entries \<and> sme_enabled (entries ! k) = None)"
    if e: "[] \<in> fst ` set ?G"
  proof -
    obtain a b where "([], a, b) \<in> set ?G" using e by force
    then have "p \<noteq> []" using empty_group(3) [OF assms(1-3)] by blast
    then show ?thesis using assms(5,6) by (cases "pq_parent_index q") auto
  qed
  have own: "own_enabled items (pq_parent_index q) ?G entries =
      (case pq_parent_index q of None \<Rightarrow> entries | Some k \<Rightarrow> entries[k := (entries ! k)\<lparr>sme_enabled := own_level items p\<rparr>])"
    using own_enabled_level [OF assms(1-3), of "pq_parent_index q" entries] assms(5,6) by blast
  have loop: "level_loop items (length p) (pq_parent_index q) (snd (pq_items_range q)) (fst (pq_items_range q)) entries queue =
      Some (own_enabled items (pq_parent_index q) ?G entries @ map (child_entry items (length p)) (kids ?G),
        queue @ child_queue (length p) (length entries) (kids ?G))"
    using level_loop_ok [OF e1 e2 _ level_monotone(2) [OF assms(1-3)]] e3 by blast
  show ?thesis
    using assms(5) unfolding process_entry_def assms(4) loop own K_def [symmetric]
    by (cases "pq_parent_index q") (simp_all add: Let_def list_update_append nth_append)
qed

text \<open>New entries stand for the children of the path.\<close>

abbreviation child_paths :: "string list \<Rightarrow> (string \<times> nat \<times> nat) list \<Rightarrow> string list list" where
  "child_paths p gs \<equiv> map (\<lambda>(n, _, _). p @ [n]) gs"

lemma nth_append_image: "(\<lambda>j. (P @ Q) ! j) ` {length P..<length P + length Q} = set Q"
proof -
  have "{length P..<length P + length Q} = (\<lambda>i. length P + i) ` {0..<length Q}" by (simp add: image_add_atLeastLessThan add.commute)
  then have "(\<lambda>j. (P @ Q) ! j) ` {length P..<length P + length Q} = (\<lambda>i. Q ! i) ` {0..<length Q}"
    by (simp only: image_image nth_append_length_plus)
  then show ?thesis by (auto simp: set_conv_nth)
qed

lemma children_kids_at:
  assumes "items_ok items" "length p < SCOPE_DEPTH_MAX" "covers_path items p rng" "K = kids (level_groups items p rng)"
  shows "kids_at items (P @ child_paths p K) p (length P, length P + length K)"
proof -
  have "(\<lambda>j. (P @ child_paths p K) ! j) ` {length P..<length P + length K} = set (child_paths p K)"
    using nth_append_image [of P "child_paths p K"] by simp
  also have "\<dots> = (\<lambda>c. p @ [c]) ` fst ` set K" by (force simp: image_def split: prod.splits)
  finally show ?thesis using group_names [OF assms(1-3)] assms(4) by (simp add: kids_at_def)
qed

lemma child_finished:
  assumes "items_ok items" "Suc (length p) = SCOPE_DEPTH_MAX" "covers_path items p rng" "g \<in> set (kids (level_groups items p rng))"
  shows "finished items P (child_entry items (length p) g) (p @ [fst g])"
proof -
  obtain n a b where g: "g = (n, a, b)" "(n, a, b) \<in> set (level_groups items p rng)"
    using assms(4) by (metis (no_types, lifting) filter_is_subset prod_cases3 subsetD)
  have "kids_of items (p @ [n]) = {}"
  proof (rule ccontr)
    assume "kids_of items (p @ [n]) \<noteq> {}"
    then obtain c i where "i < length items" "take (Suc (Suc (length p))) (scope_at items i) = p @ [n, c]" by (auto simp: kids_of_def)
    then show False using arg_cong [of _ _ length, OF \<open>take _ _ = _\<close>] scope_okD(1) [OF items_scope [OF assms(1), of i]] assms(2) by simp
  qed
  then show ?thesis using last_group(2) [OF assms(1-3) g(2)] g(1) assms(2) by (simp add: finished_def child_entry_def kids_at_def)
qed

lemma child_queued:
  assumes "items_ok items" "Suc (length p) < SCOPE_DEPTH_MAX" "covers_path items p rng" "K = kids (level_groups items p rng)"
    "length P = length entries" "c \<in> set (child_queue (length p) (length entries) K)"
    "length es = length entries"
  shows "\<exists>j < length K. pq_parent_index c = Some (length P + j) \<and>
    queued_ok items (P @ child_paths p K) (es @ map (child_entry items (length p)) K) c"
proof -
  obtain j n a b where j: "j < length K" "K ! j = (n, a, b)"
      "c = \<lparr>pq_parent_index = Some (length entries + j), pq_depth = length p + 1, pq_items_range = (a, b)\<rparr>"
    using assms(2,6) by (auto simp: child_queue_def in_set_enumerate_eq)
  then have "(n, a, b) \<in> set (level_groups items p rng)" using assms(4) nth_mem [OF j(1)] by auto
  then have "covers_path items (p @ [n]) (a, b)" using group_covers(1) [OF assms(1) _ assms(3)] assms(2) by simp
  then show ?thesis using j assms(2,5,7)
    by (auto simp: queued_ok_def queue_path_def nth_append child_entry_def intro!: exI [of _ j])
qed


section \<open>The whole queue\<close>

lemma queued_ok_extend:
  assumes "queued_ok items P entries q" "length P = length entries" "length es = length entries" "pq_parent_index q \<noteq> None"
    "\<And>k. pq_parent_index q = Some k \<Longrightarrow> sme_enabled (es ! k) = sme_enabled (entries ! k)"
  shows "queued_ok items (P @ Q) (es @ new) q"
proof -
  obtain k where k: "pq_parent_index q = Some k" using assms(4) by blast
  then have "k < length P" using assms(1) by (simp add: queued_ok_def)
  then show ?thesis using assms k by (simp add: queued_ok_def queue_path_def nth_append)
qed

lemma child_queue_parents:
  "waiting (child_queue d start gs) = (if d + 1 = SCOPE_DEPTH_MAX then {} else Some ` {start..<start + length gs})"
  "distinct (map pq_parent_index (child_queue d start gs))"
proof -
  have "pq_parent_index \<circ> (\<lambda>(k, n :: string, a, b). \<lparr>pq_parent_index = Some k, pq_depth = d + 1, pq_items_range = (a, b)\<rparr>) = Some \<circ> fst"
    by auto
  moreover have "map (Some \<circ> fst) (List.enumerate start gs) = map Some [start..<start + length gs]"
    unfolding map_map [symmetric] by (simp only: map_fst_enumerate)
  ultimately have m: "map pq_parent_index (child_queue d start gs) = (if d + 1 = SCOPE_DEPTH_MAX then [] else map Some [start..<start + length gs])"
    by (simp add: child_queue_def)
  show "distinct (map pq_parent_index (child_queue d start gs))" unfolding m by (simp add: distinct_map)
  show "waiting (child_queue d start gs) = (if d + 1 = SCOPE_DEPTH_MAX then {} else Some ` {start..<start + length gs})"
    using arg_cong [OF m, of set] by (simp split: if_splits)
qed

lemma process_step:
  assumes "items_ok items" "map_inv items P entries root_count (q # queue)"
  shows "\<exists>P' entries' root_count' queue'. process_entry items q entries root_count queue = Some (entries', root_count', queue') \<and>
    map_inv items P' entries' root_count' queue' \<and> queue_weight queue' < queue_weight (q # queue)"
proof -
  define p where "p = queue_path P q"
  let ?N = "length entries" and ?d = "length p"
  define K where "K = kids (level_groups items p (pq_items_range q))"
  let ?new = "map (child_entry items ?d) K" and ?P = "P @ child_paths p K"
  have len: "length P = ?N" and parent: "queued_ok items P entries q" and nodup: "distinct (map pq_parent_index (q # queue))"
    using assms(2) by (simp_all add: map_inv_def)
  have q: "?d < SCOPE_DEPTH_MAX" "covers_path items p (pq_items_range q)" "pq_depth q = ?d"
      "\<And>k. pq_parent_index q = Some k \<Longrightarrow> k < ?N \<and> sme_enabled (entries ! k) = None"
      "pq_parent_index q = None \<Longrightarrow> p = [] \<and> P = []"
    using parent len by (auto simp: queued_ok_def p_def queue_path_def)
  let ?done = "\<lambda>e. e\<lparr>sme_enabled := own_level items p, sme_descendants := (?N, ?N + length K)\<rparr>"
  define es where "es = (case pq_parent_index q of None \<Rightarrow> entries | Some k \<Rightarrow> entries[k := ?done (entries ! k)])"
  let ?rc = "case pq_parent_index q of None \<Rightarrow> ?N + length K | Some k \<Rightarrow> root_count"
  let ?queue = "queue @ child_queue ?d ?N K"
  have run: "process_entry items q entries root_count queue = Some (es @ ?new, ?rc, ?queue)"
    using process_entry_ok [OF assms(1) q(1-4), of root_count queue] q(5)
    by (cases "pq_parent_index q") (simp_all add: K_def es_def Let_def)
  have es: "length es = ?N" "\<And>k. Some k \<noteq> pq_parent_index q \<Longrightarrow> es ! k = entries ! k"
    by (auto simp: es_def split: option.splits)
  have scopes: "sme_scope (es ! k) = sme_scope (entries ! k)" for k
    using q(4) [of k] es(2) [of k] by (cases "pq_parent_index q = Some k") (auto simp: es_def)
  have kids: "kids_at items ?P p (?N, ?N + length K)" using children_kids_at [OF assms(1) q(1,2) K_def, of P] len by simp
  have others: "Some k \<in> waiting queue \<or> finished items ?P ((es @ ?new) ! k) (?P ! k)" if k: "k < ?N" for k
  proof (cases "pq_parent_index q = Some k")
    case True
    then have "es ! k = ?done (entries ! k)" "P ! k = p" using k len by (simp_all add: es_def p_def queue_path_def)
    then show ?thesis using kids k es(1) len by (simp add: nth_append finished_def)
  next
    case False
    then have "Some k \<in> waiting queue \<or> finished items P (entries ! k) (P ! k)" using assms(2) k len by (auto simp: map_inv_def)
    then show ?thesis using False es k len by (auto simp: nth_append finished_def intro!: kids_at_extend)
  qed
  have young: "Some (?N + j) \<in> waiting (child_queue ?d ?N K) \<or> finished items ?P ((es @ ?new) ! (?N + j)) (?P ! (?N + j))" if j: "j < length K" for j
  proof (cases "Suc ?d = SCOPE_DEPTH_MAX")
    case True
    have "finished items ?P (child_entry items ?d (K ! j)) (p @ [fst (K ! j)])"
      using child_finished [OF assms(1) True q(2)] nth_mem [OF j] by (simp add: K_def)
    then show ?thesis using j es(1) len by (simp add: nth_append case_prod_unfold)
  next
    case False
    then show ?thesis using child_queue_parents(1) [of ?d ?N K] j by auto
  qed
  have "map_inv items ?P (es @ ?new) ?rc ?queue"
    unfolding map_inv_def
  proof (intro conjI)
    show "length ?P = length (es @ ?new)" using len es(1) by simp
    show "\<forall>k < length ?P. ?P ! k \<noteq> [] \<and> length (?P ! k) \<le> SCOPE_DEPTH_MAX \<and> sme_scope ((es @ ?new) ! k) = last (?P ! k)"
      using assms(2) len es scopes q(1) by (auto simp: map_inv_def nth_append child_entry_def case_prod_unfold)
    show "\<forall>c \<in> set ?queue. queued_ok items ?P (es @ ?new) c"
    proof
      fix c assume "c \<in> set ?queue"
      then consider "c \<in> set queue" | "c \<in> set (child_queue ?d ?N K)" by auto
      then show "queued_ok items ?P (es @ ?new) c"
      proof cases
        case 1
        have "pq_parent_index q \<notin> waiting queue" using nodup by simp
        then have c: "queued_ok items P entries c" "pq_parent_index c \<noteq> pq_parent_index q"
          using 1 assms(2) by (simp add: map_inv_def, metis imageI)
        moreover have "pq_parent_index c \<noteq> None"
        proof
          assume "pq_parent_index c = None"
          then have "P = []" using c(1) by (simp add: queued_ok_def)
          then show False using q(4) c(2) len \<open>pq_parent_index c = None\<close> by (cases "pq_parent_index q") auto
        qed
        ultimately show ?thesis using queued_ok_extend [OF c(1) len es(1)] es(2) by (metis (no_types, lifting))
      next
        case 2
        then have "Suc ?d < SCOPE_DEPTH_MAX" using q(1) by (cases "Suc ?d = SCOPE_DEPTH_MAX") (simp_all add: child_queue_def)
        then show ?thesis using child_queued [OF assms(1) _ q(2) K_def len 2 es(1)] by blast
      qed
    qed
    have "waiting queue \<inter> waiting (child_queue ?d ?N K) = {}"
    proof -
      have lt: "k < ?N" if "Some k \<in> waiting queue" for k using that assms(2) len by (auto simp: map_inv_def queued_ok_def)
      have "x \<notin> Some ` {?N..<?N + length K}" if x: "x \<in> waiting queue" for x
      proof
        assume "x \<in> Some ` {?N..<?N + length K}"
        then obtain k where k: "x = Some k" "?N \<le> k" by auto
        have "k < ?N" by (rule lt) (use x in \<open>simp only: k(1)\<close>)
        then show False using k(2) by simp
      qed
      then have "waiting queue \<inter> Some ` {?N..<?N + length K} = {}" by blast
      then show ?thesis unfolding child_queue_parents(1) by simp
    qed
    then show "distinct (map pq_parent_index ?queue)" using nodup child_queue_parents(2) [of ?d ?N K] by simp
    show "\<forall>k < length ?P. Some k \<in> waiting ?queue \<or> finished items ?P ((es @ ?new) ! k) (?P ! k)"
    proof (intro allI impI)
      fix k assume k: "k < length ?P"
      show "Some k \<in> waiting ?queue \<or> finished items ?P ((es @ ?new) ! k) (?P ! k)"
        using others [of k] young [of "k - ?N"] k len by (cases "k < ?N") (auto simp: image_Un)
    qed
    show "None \<in> waiting ?queue \<or> kids_at items ?P [] (0, ?rc)"
    proof (cases "pq_parent_index q")
      case None
      then show ?thesis using kids q(5) len by simp
    next
      case (Some k)
      then have "None \<in> waiting queue \<or> kids_at items P [] (0, root_count)" using assms(2) by (auto simp: map_inv_def)
      then show ?thesis using Some kids_at_extend by auto
    qed
  qed
  moreover have "queue_weight ?queue < queue_weight (q # queue)"
    using child_queue_weight [OF q(1), of "level_groups items p (pq_items_range q)" ?N] group_covers(2) [OF assms(1) q(1,2)]
      groups_props(4) [OF level_monotone [OF assms(1) q(1,2)]] q(3) by (fastforce simp: K_def)
  ultimately show ?thesis using run by blast
qed


lemma process_queue_ok:
  "items_ok items \<Longrightarrow> map_inv items P entries root_count queue \<Longrightarrow>
   \<exists>P' entries' root_count'. process_queue items entries root_count queue = Some (entries', root_count') \<and>
     map_inv items P' entries' root_count' []"
proof (induction "queue_weight queue" arbitrary: P entries root_count queue rule: less_induct)
  case less
  show ?case
  proof (cases queue)
    case Nil
    then show ?thesis using less.prems(2) by (auto simp: process_queue.simps [of _ _ _ "[]"])
  next
    case (Cons q rest)
    then obtain P' entries' root_count' queue' where step:
        "process_entry items q entries root_count rest = Some (entries', root_count', queue')"
        "map_inv items P' entries' root_count' queue'" "queue_weight queue' < queue_weight queue"
      using process_step [OF less.prems(1), of P entries root_count q rest] less.prems(2) by blast
    then show ?thesis using less.hyps [OF step(3) less.prems(1) step(2)] unfolding Cons by (subst process_queue.simps) simp
  qed
qed

lemma map_inv_initial:
  "items_ok items \<Longrightarrow> map_inv items [] [] 0 [\<lparr>pq_parent_index = None, pq_depth = 0, pq_items_range = (0, length items)\<rparr>]"
  by (simp add: map_inv_def queued_ok_def queue_path_def covers_path_def SCOPE_DEPTH_MAX_def)

section \<open>Searching\<close>

text \<open>The level that the last configured prefix has.\<close>

abbreviation last_level :: "(nat \<Rightarrow> level_filter option) \<Rightarrow> nat list \<Rightarrow> level_filter option \<Rightarrow> level_filter option" where
  "last_level g \<equiv> fold (\<lambda>n e. case g n of Some l \<Rightarrow> Some l | None \<Rightarrow> e)"

lemma last_level_none: "\<forall>n \<in> set ns. g n = None \<Longrightarrow> last_level g ns e = e"
  by (induction ns) auto

lemma last_level_Some:
  "last_level g [a..<b] None = Some l \<longleftrightarrow> (\<exists>n. a \<le> n \<and> n < b \<and> g n = Some l \<and> (\<forall>m. n < m \<and> m < b \<longrightarrow> g m = None))"
proof (induction b)
  case (Suc b)
  show ?case
  proof (cases "a \<le> b")
    case True
    show ?thesis
    proof (cases "g b")
      case None
      have "(\<exists>n. a \<le> n \<and> n < Suc b \<and> g n = Some l \<and> (\<forall>m. n < m \<and> m < Suc b \<longrightarrow> g m = None)) \<longleftrightarrow>
          (\<exists>n. a \<le> n \<and> n < b \<and> g n = Some l \<and> (\<forall>m. n < m \<and> m < b \<longrightarrow> g m = None))"
        using None by (metis less_Suc_eq option.distinct(1))
      then show ?thesis using None True Suc by simp
    next
      case (Some l')
      then have "(\<exists>n. a \<le> n \<and> n < Suc b \<and> g n = Some l \<and> (\<forall>m. n < m \<and> m < Suc b \<longrightarrow> g m = None)) \<longleftrightarrow> l' = l"
        using True by (metis less_Suc_eq option.distinct(1) option.inject not_less_eq)
      then show ?thesis using Some True by simp
    qed
  qed auto
qed simp

lemma configured_needs_child:
  assumes "items_ok items" "d < n" "n \<le> length s" "length s = SCOPE_DEPTH_MAX" "s ! d \<noteq> []" "own_level items (take n s) \<noteq> None"
  shows "s ! d \<in> kids_of items (take d s)"
proof -
  obtain i where i: "i < length items" "scope_at items i = padded (take n s)"
    using assms(6) by (metis fst_conv in_set_conv_nth map_of_SomeD not_None_eq own_level_def)
  then have "take (Suc d) (scope_at items i) = take d s @ [s ! d]"
    using assms(2,3) by (simp add: padded_def take_Suc_conv_app_nth min_def)
  then show ?thesis using assms(2,3,5) i(1) by (auto simp: kids_of_def min_def)
qed

lemma slice_set: "a \<le> b \<Longrightarrow> b \<le> length xs \<Longrightarrow> set (take (b - a) (drop a xs)) = (\<lambda>j. xs ! j) ` {a..<b}"
proof -
  assume ab: "a \<le> b" "b \<le> length xs"
  then have "set (take (b - a) (drop a xs)) = (\<lambda>i. xs ! (a + i)) ` {0..<b - a}" using nth_image [of "b - a" "drop a xs"] by simp
  also have "\<dots> = (\<lambda>j. xs ! j) ` ((\<lambda>i. a + i) ` {0..<b - a})" by (simp only: image_image)
  also have "(\<lambda>i. a + i) ` {0..<b - a} = {a..<b}" using ab(1) by (simp add: image_add_atLeastLessThan)
  finally show ?thesis .
qed

lemma slice_kids:
  assumes "map_inv items P entries root_count []" "kids_at items P path rng"
  shows "\<exists>es. slice_opt entries rng = Some es \<and> sme_scope ` set es = kids_of items path \<and>
    (\<forall>e \<in> set es. finished items P e (path @ [sme_scope e]))"
proof -
  have len: "length P = length entries" and each: "\<And>k. k < length P \<Longrightarrow> sme_scope (entries ! k) = last (P ! k) \<and> finished items P (entries ! k) (P ! k)"
    using assms(1) by (auto simp: map_inv_def)
  have rng: "fst rng \<le> snd rng" "snd rng \<le> length entries"
      "(\<lambda>j. P ! j) ` {fst rng..<snd rng} = (\<lambda>c. path @ [c]) ` kids_of items path"
    using assms(2) len by (simp_all add: kids_at_def)
  let ?es = "take (snd rng - fst rng) (drop (fst rng) entries)"
  have set: "set ?es = (\<lambda>j. entries ! j) ` {fst rng..<snd rng}"
    using slice_set [OF rng(1,2)] .
  have child: "\<exists>c \<in> kids_of items path. P ! j = path @ [c] \<and> sme_scope (entries ! j) = c" if j: "j \<in> {fst rng..<snd rng}" for j
  proof -
    have "P ! j \<in> (\<lambda>c. path @ [c]) ` kids_of items path" using rng(3) j by blast
    then show ?thesis using each [of j] j rng(2) len by auto
  qed
  have "sme_scope ` set ?es = kids_of items path"
  proof (intro equalityI subsetI)
    fix c assume "c \<in> kids_of items path"
    then obtain j where "j \<in> {fst rng..<snd rng}" "P ! j = path @ [c]" using rng(3) by (metis (no_types, lifting) image_iff)
    then show "c \<in> sme_scope ` set ?es" using child [of j] unfolding set by auto
  qed (use child in \<open>auto simp: set\<close>)
  moreover have "\<forall>e \<in> set ?es. finished items P e (path @ [sme_scope e])"
    using child each rng(2) len unfolding set by fastforce
  ultimately show ?thesis using rng(1,2) by (simp add: slice_opt_def)
qed

lemma search_scopes_ok:
  assumes "items_ok items" "map_inv items P (sm_entries m) root_count []" "length s = SCOPE_DEPTH_MAX"
  shows "depth \<le> SCOPE_DEPTH_MAX \<Longrightarrow> depth \<le> length (takeWhile (\<lambda>w. w \<noteq> []) s) \<Longrightarrow> kids_at items P (take depth s) rng \<Longrightarrow>
    slice_opt (sm_entries m) rng = Some cur \<Longrightarrow>
    search_scopes m s cur depth enabled =
      Some (last_level (\<lambda>n. own_level items (take n s)) [Suc depth..<Suc (length (takeWhile (\<lambda>w. w \<noteq> []) s))] enabled)"
proof (induction "SCOPE_DEPTH_MAX - depth" arbitrary: depth rng cur enabled rule: less_induct)
  case less
  let ?w = "length (takeWhile (\<lambda>w. w \<noteq> []) s)"
  have w: "?w \<le> SCOPE_DEPTH_MAX" using assms(3) length_takeWhile_le [of "\<lambda>w. w \<noteq> []" s] by simp
  obtain es where es: "slice_opt (sm_entries m) rng = Some es" "sme_scope ` set es = kids_of items (take depth s)"
      "\<forall>e \<in> set es. finished items P e (take depth s @ [sme_scope e])"
    using slice_kids [OF assms(2) less.prems(3)] by blast
  have cur: "cur = es" using es(1) less.prems(4) by simp
  have going: "depth < SCOPE_DEPTH_MAX \<and> s ! depth \<noteq> [] \<longleftrightarrow> depth < ?w"
  proof
    assume d: "depth < SCOPE_DEPTH_MAX \<and> s ! depth \<noteq> []"
    show "depth < ?w"
    proof (rule ccontr)
      assume "\<not> depth < ?w"
      then have "depth = ?w" using less.prems(2) by simp
      then show False using d nth_length_takeWhile [of "\<lambda>w. w \<noteq> []" s] assms(3) by simp
    qed
  next
    assume d: "depth < ?w"
    then have "s ! depth \<in> set (takeWhile (\<lambda>w. w \<noteq> []) s)" using nth_mem [OF d] takeWhile_nth [OF d] by simp
    then show "depth < SCOPE_DEPTH_MAX \<and> s ! depth \<noteq> []" using d w set_takeWhileD by fastforce
  qed
  have stop: "last_level (\<lambda>n. own_level items (take n s)) [Suc depth..<Suc ?w] enabled = enabled" if "depth < ?w" "s ! depth \<notin> kids_of items (take depth s)"
  proof (rule last_level_none, rule ballI, rule ccontr)
    fix n assume n: "n \<in> set [Suc depth..<Suc ?w]" "own_level items (take n s) \<noteq> None"
    then have "depth < n" "n \<le> length s" using w assms(3) by (auto simp del: upt_Suc)
    then show False using configured_needs_child [OF assms(1) _ _ assms(3) _ n(2), of depth] that going by blast
  qed
  show ?case
  proof (cases "depth < ?w")
    case False
    then show ?thesis using less.prems(2) going by (subst search_scopes.simps) auto
  next
    case True
    show ?thesis
    proof (cases "List.find (\<lambda>e. sme_scope e = s ! depth) es")
      case None
      then have "s ! depth \<notin> kids_of items (take depth s)" unfolding es(2) [symmetric] by (auto simp: find_None_iff)
      then show ?thesis using None stop [OF True] cur by (subst search_scopes.simps) simp
    next
      case (Some e)
      then have e: "e \<in> set es" "sme_scope e = s ! depth" using find_SomeD by fastforce+
      have path: "take depth s @ [s ! depth] = take (Suc depth) s" using True w assms(3) by (simp add: take_Suc_conv_app_nth)
      have fin: "sme_enabled e = own_level items (take (Suc depth) s)" "kids_at items P (take (Suc depth) s) (sme_descendants e)"
        using es(3) e path by (auto simp: finished_def)
      obtain es' where es': "slice_opt (sm_entries m) (sme_descendants e) = Some es'" using slice_kids [OF assms(2) fin(2)] by blast
      have "es \<noteq> []" using e(1) by auto
      then have "search_scopes m s cur depth enabled =
          search_scopes m s es' (Suc depth) (case own_level items (take (Suc depth) s) of Some l \<Rightarrow> Some l | None \<Rightarrow> enabled)"
        using going True Some es' fin(1) cur by (subst search_scopes.simps) simp
      also have "\<dots> = Some (last_level (\<lambda>n. own_level items (take n s)) [Suc (Suc depth)..<Suc ?w]
          (case own_level items (take (Suc depth) s) of Some l \<Rightarrow> Some l | None \<Rightarrow> enabled))"
        using less.hyps [of "Suc depth"] True w fin(2) es' by (simp del: upt_Suc)
      also have "\<dots> = Some (last_level (\<lambda>n. own_level items (take n s)) [Suc depth..<Suc ?w] enabled)"
        using True by (simp add: upt_conv_Cons del: upt_Suc)
      finally show ?thesis .
    qed
  qed
qed

end
