(* ===== verification/LogEnabled.thy ===== *)
theory LogEnabled
  imports ScopeMap
begin

text \<open>
  What the log filter (\<^verbatim>\<open>crates/zlog/src\<close>) answers: the level of a scope is that of the most specific configured prefix, the fast path
  on the recorded maximum level does not change an answer, and no logger panics.
\<close>

section \<open>The configured scopes\<close>

lemma map_of_upsert [simp]: "map_of (upsert k v ps) = (map_of ps)(k \<mapsto> v)"
  by (induction k v ps rule: upsert.induct) auto

lemma keys_upsert: "fst ` set (upsert k v ps) = insert k (fst ` set ps)"
  by (induction k v ps rule: upsert.induct) auto

lemma distinct_upsert [simp]: "distinct (map fst ps) \<Longrightarrow> distinct (map fst (upsert k v ps))"
proof (induction k v ps rule: upsert.induct)
  case (2 k v k' v' ps)
  then show ?case using keys_upsert [of k v ps] by auto
qed simp

lemma take_scopes_props:
  "length taken \<le> SCOPE_DEPTH_MAX \<Longrightarrow> [] \<notin> set taken \<Longrightarrow> take_scopes names taken = (taken', rest) \<Longrightarrow>
   length taken' \<le> SCOPE_DEPTH_MAX \<and> [] \<notin> set taken'"
  by (induction names taken rule: take_scopes.induct) (auto split: if_splits)

lemma scope_alloc_ok: "scope_alloc_from_scope_str s = Some sc \<Longrightarrow> scope_ok sc"
proof -
  assume sc: "scope_alloc_from_scope_str s = Some sc"
  obtain taken rest where t: "take_scopes (split_by (\<lambda>c. c = CHR ''.'') s) [] = (taken, rest)" by fastforce
  then have "length taken \<le> SCOPE_DEPTH_MAX" "[] \<notin> set taken" using take_scopes_props [of "[]"] by auto
  then show ?thesis using sc t by (auto simp: scope_alloc_from_scope_str_def scope_ref_new_def scope_ok_def padded_def split: if_splits)
qed

text \<open>The level that a list of filters gives a scope: that of the last filter for it. Filters with \<^verbatim>\<open>::\<close> name modules.\<close>

definition configured :: "(string \<times> level_filter) list \<Rightarrow> string list \<Rightarrow> level_filter option" where
  "configured filters path =
     fold (\<lambda>(scope_str, lvl) e.
       if \<not> contains_double_colon scope_str \<and> scope_alloc_from_scope_str scope_str = Some (padded path) then Some lvl else e) filters None"

lemma collect_filters_items:
  assumes "distinct (map fst items)" "\<forall>sc \<in> fst ` set items. scope_ok sc" "collect_filters fs items modules = (items', modules')"
  shows "distinct (map fst items') \<and> (\<forall>sc \<in> fst ` set items'. scope_ok sc) \<and>
    map_of items' (padded path) = fold (\<lambda>(scope_str, lvl) e.
       if \<not> contains_double_colon scope_str \<and> scope_alloc_from_scope_str scope_str = Some (padded path) then Some lvl else e) fs
      (map_of items (padded path))"
  using assms
proof (induction fs items modules rule: collect_filters.induct)
  case (2 scope_str lvl fs items modules)
  show ?case
  proof (cases "contains_double_colon scope_str")
    case True
    then have "collect_filters fs items (upsert scope_str lvl modules) = (items', modules')" using "2.prems"(3) by simp
    from "2.IH"(1) [OF True "2.prems"(1,2) this] show ?thesis using True by simp
  next
    case False
    show ?thesis
    proof (cases "scope_alloc_from_scope_str scope_str")
      case None
      then have "collect_filters fs items modules = (items', modules')" using "2.prems"(3) False by simp
      from "2.IH"(2) [OF False None "2.prems"(1,2) this] show ?thesis using None by simp
    next
      case (Some sc)
      have ok: "\<forall>sc \<in> fst ` set (upsert sc lvl items). scope_ok sc" unfolding keys_upsert using "2.prems"(2) scope_alloc_ok [OF Some] by blast
      have run: "collect_filters fs (upsert sc lvl items) modules = (items', modules')" using "2.prems"(3) False Some by simp
      have "map_of (upsert sc lvl items) (padded path) =
          (if scope_alloc_from_scope_str scope_str = Some (padded path) then Some lvl else map_of items (padded path))"
        using Some by auto
      with "2.IH"(3) [OF False Some distinct_upsert [OF "2.prems"(1)] ok run] False show ?thesis
        by (simp only: fold_simps prod.case simp_thms) blast
    qed
  qed
qed auto

lemma sorted_items_ok:
  assumes "distinct (map fst items)" "\<forall>sc \<in> fst ` set items. scope_ok sc"
  defines "ranked \<equiv> sort_by (\<lambda>a b. list_cmp str_cmp (fst a) (fst b)) items"
  shows "items_ok ranked" "map_of ranked = map_of items"
proof -
  have "sorted_wrt (\<lambda>a b. list_cmp str_cmp (fst a) (fst b) = Less) ranked" unfolding ranked_def
  proof (rule sorted_sort_by)
    fix x y assume "x \<in> set items" "y \<in> set items" "x \<noteq> y"
    then have "fst x \<noteq> fst y" using assms(1) by (metis eq_key_imp_eq_value prod.collapse)
    then show "if list_cmp str_cmp (fst x) (fst y) = Greater then list_cmp str_cmp (fst y) (fst x) = Less
        else list_cmp str_cmp (fst x) (fst y) = Less"
      using component_order.cmp_eq [of "fst x" "fst y"] component_order.cmp_swap [of "fst y" "fst x"]
      by (cases "list_cmp str_cmp (fst x) (fst y)") auto
  qed (use assms(1) distinct_map component_order.cmp_trans in blast)+
  moreover have "set ranked = set items" by (simp add: ranked_def)
  ultimately show ok: "items_ok ranked" using assms(2) by (auto simp: items_ok_def)
  have "distinct (map fst ranked)" using items_distinct [OF ok] by (auto simp: distinct_conv_nth)
  then show "map_of ranked = map_of items" using assms(1) \<open>set ranked = set items\<close> by (simp add: map_of_inject_set)
qed

lemma new_map_ok:
  "\<exists>items m P. new_from_settings_and_env settings env_config defaults = Some m \<and> items_ok items \<and>
     map_inv items P (sm_entries m) (sm_root_count m) [] \<and>
     (\<forall>path. own_level items path = configured (defaults @ env_filters env_config @ new_filters settings) path)"
proof -
  let ?fs = "defaults @ env_filters env_config @ new_filters settings"
  obtain items modules where c: "collect_filters ?fs [] [] = (items, modules)" by fastforce
  let ?sorted = "sort_by (\<lambda>a b. list_cmp str_cmp (fst a) (fst b)) items"
  have items: "distinct (map fst items)" "\<forall>sc \<in> fst ` set items. scope_ok sc" "\<And>path. map_of items (padded path) = configured ?fs path"
    using collect_filters_items [OF _ _ c] unfolding configured_def by simp_all
  note ok = sorted_items_ok [OF items(1,2)]
  obtain P entries root_count where
      "process_queue ?sorted [] 0 [\<lparr>pq_parent_index = None, pq_depth = 0, pq_items_range = (0, length ?sorted)\<rparr>] = Some (entries, root_count)"
      "map_inv ?sorted P entries root_count []"
    using process_queue_ok [OF ok(1) map_inv_initial [OF ok(1)]] by blast
  moreover have "own_level ?sorted path = configured ?fs path" for path using items(3) ok(2) by (simp add: own_level_def)
  ultimately show ?thesis using ok(1) c
    by (intro exI [of _ ?sorted] exI [of _ "\<lparr>sm_entries = entries, sm_modules = _, sm_root_count = root_count\<rparr>"] exI [of _ P])
      (simp add: new_from_settings_and_env_def Let_def)
qed

lemma search_ok:
  assumes "items_ok items" "map_inv items P (sm_entries m) (sm_root_count m) []" "length s = SCOPE_DEPTH_MAX"
  shows "search m s = Some (last_level (\<lambda>n. own_level items (take n s)) [1..<Suc (length (takeWhile (\<lambda>w. w \<noteq> []) s))] None)"
proof -
  have kids: "kids_at items P (take 0 s) (0, sm_root_count m)" using assms(2) by (auto simp: map_inv_def)
  then obtain es where "slice_opt (sm_entries m) (0, sm_root_count m) = Some es" using slice_kids [OF assms(2)] by blast
  then show ?thesis using search_scopes_ok [OF assms _ _ kids] by (simp add: search_def del: upt_Suc)
qed

section \<open>The properties\<close>

declare process_queue.simps [code]

text \<open>
  Claim C10. Building the scope map never panics, whatever the settings, the environment and the default filters say, and neither does a
  search. A search finds the level of the longest prefix of the scope (up to its first empty name) that a filter names; of two filters
  for the same scope the later one counts, so that settings override the environment, which overrides the defaults.
\<close>

theorem scope_map_finds_most_specific:
  fixes settings :: "(string \<times> string) list" and env_config :: "env_filter option" and defaults :: "(string \<times> level_filter) list"
  defines "filters \<equiv> defaults @ env_filters env_config @ new_filters settings"
  shows "\<exists>m. new_from_settings_and_env settings env_config defaults = Some m \<and>
    (\<forall>s. length s = SCOPE_DEPTH_MAX \<longrightarrow> (\<exists>r. search m s = Some r \<and>
      (\<forall>l. r = Some l \<longleftrightarrow> (\<exists>n. 0 < n \<and> n \<le> length (takeWhile (\<lambda>w. w \<noteq> []) s) \<and> configured filters (take n s) = Some l \<and>
        (\<forall>k. n < k \<and> k \<le> length (takeWhile (\<lambda>w. w \<noteq> []) s) \<longrightarrow> configured filters (take k s) = None)))))"
proof -
  obtain items m P where m: "new_from_settings_and_env settings env_config defaults = Some m" "items_ok items"
      "map_inv items P (sm_entries m) (sm_root_count m) []" "\<And>path. own_level items path = configured filters path"
    using new_map_ok [of settings env_config defaults] unfolding filters_def by blast
  have "\<exists>r. search m s = Some r \<and> (\<forall>l. r = Some l \<longleftrightarrow>
      (\<exists>n. 0 < n \<and> n \<le> length (takeWhile (\<lambda>w. w \<noteq> []) s) \<and> configured filters (take n s) = Some l \<and>
        (\<forall>k. n < k \<and> k \<le> length (takeWhile (\<lambda>w. w \<noteq> []) s) \<longrightarrow> configured filters (take k s) = None)))"
    if "length s = SCOPE_DEPTH_MAX" for s
    unfolding search_ok [OF m(2,3) that] m(4) by (simp add: last_level_Some Suc_le_eq less_Suc_eq_le del: upt_Suc)
  then show ?thesis using m(1) by blast
qed

theorem scope_map_finds_most_specific_witness:
  "\<exists>m r. new_from_settings_and_env [(''a.b'', ''debug''), (''a.b.c.d'', ''off'')] None [(''a'', FilterWarn)] = Some m \<and>
    search m [''a'', ''b'', ''c'', []] = Some r \<and> r = Some FilterDebug"
proof -
  let ?s = "[''a'', ''b'', ''c'', []] :: string list"
  let ?fs = "[(''a'', FilterWarn)] @ env_filters None @ new_filters [(''a.b'', ''debug''), (''a.b.c.d'', ''off'')]"
  have w: "length (takeWhile (\<lambda>w. w \<noteq> []) ?s) = 3" by simp
  have two: "configured ?fs (take 2 ?s) = Some FilterDebug" by code_simp
  have three: "configured ?fs (take 3 ?s) = None" by code_simp
  obtain m where m: "new_from_settings_and_env [(''a.b'', ''debug''), (''a.b.c.d'', ''off'')] None [(''a'', FilterWarn)] = Some m"
      "\<forall>s. length s = SCOPE_DEPTH_MAX \<longrightarrow> (\<exists>r. search m s = Some r \<and>
        (\<forall>l. r = Some l \<longleftrightarrow> (\<exists>n. 0 < n \<and> n \<le> length (takeWhile (\<lambda>w. w \<noteq> []) s) \<and> configured ?fs (take n s) = Some l \<and>
          (\<forall>k. n < k \<and> k \<le> length (takeWhile (\<lambda>w. w \<noteq> []) s) \<longrightarrow> configured ?fs (take k s) = None))))"
    using scope_map_finds_most_specific [of "[(''a.b'', ''debug''), (''a.b.c.d'', ''off'')]" None "[(''a'', FilterWarn)]"] by blast
  have "length ?s = SCOPE_DEPTH_MAX" by (simp add: SCOPE_DEPTH_MAX_def)
  from spec [OF m(2), of ?s, THEN mp, OF this, unfolded w]
  obtain r where r: "search m ?s = Some r" "\<forall>l. r = Some l \<longleftrightarrow> (\<exists>n. 0 < n \<and> n \<le> 3 \<and> configured ?fs (take n ?s) = Some l \<and>
        (\<forall>k. n < k \<and> k \<le> 3 \<longrightarrow> configured ?fs (take k ?s) = None))"
    by (elim exE conjE) (rule that)
  have none: "(2::nat) < k \<and> k \<le> 3 \<longrightarrow> configured ?fs (take k ?s) = None" for k
  proof
    assume "2 < k \<and> k \<le> 3"
    then have "k = 3" by simp
    then show "configured ?fs (take k ?s) = None" using three by (simp only:)
  qed
  have "r = Some FilterDebug"
    by (rule iffD2 [OF spec [OF r(2)]], rule exI [of _ 2], intro conjI allI none two) simp_all
  then show ?thesis using m(1) r(1) by blast
qed

text \<open>The levels that a search can return are levels of entries.\<close>

lemma search_scopes_level:
  "search_scopes m s cur depth enabled = Some (Some l) \<Longrightarrow> set cur \<subseteq> set (sm_entries m) \<Longrightarrow>
   enabled = Some l \<or> (\<exists>e \<in> set (sm_entries m). sme_enabled e = Some l)"
proof (induction m s cur depth enabled rule: search_scopes.induct)
  case (1 m s cur depth enabled)
  show ?case
  proof (cases "cur \<noteq> [] \<and> depth < SCOPE_DEPTH_MAX \<and> s ! depth \<noteq> [] \<and> List.find (\<lambda>entry. sme_scope entry = s ! depth) cur \<noteq> None")
    case True
    then obtain e where e: "List.find (\<lambda>entry. sme_scope entry = s ! depth) cur = Some e" by blast
    then have mem: "e \<in> set (sm_entries m)" using find_SomeD [OF e] "1.prems"(2) by blast
    let ?en = "case sme_enabled e of Some l \<Rightarrow> Some l | None \<Rightarrow> enabled"
    obtain cur' where cur': "slice_opt (sm_entries m) (sme_descendants e) = Some cur'" "search_scopes m s cur' (depth + 1) ?en = Some (Some l)"
      using "1.prems"(1) True e by (subst (asm) search_scopes.simps) (auto simp: bind_eq_Some_conv)
    then have "set cur' \<subseteq> set (sm_entries m)" by (auto simp: slice_opt_def split: if_splits dest!: in_set_takeD in_set_dropD)
    then have "?en = Some l \<or> (\<exists>e \<in> set (sm_entries m). sme_enabled e = Some l)"
      using "1.IH" [OF _ e cur'(1) cur'(2)] True by blast
    then show ?thesis using mem by (auto split: option.splits)
  qed (use "1.prems"(1) in \<open>subst (asm) search_scopes.simps, auto split: if_splits option.splits\<close>)
qed

lemma search_level: "search m s = Some (Some l) \<Longrightarrow> \<exists>e \<in> set (sm_entries m). sme_enabled e = Some l"
  using search_scopes_level [of m s] by (fastforce simp: search_def bind_eq_Some_conv slice_opt_def split: if_splits dest!: in_set_takeD)

lemma max_level_bounds:
  defines "top_level es n \<equiv> fold (\<lambda>entry m. case sme_enabled entry of Some l \<Rightarrow> max m (filter_u8 l) | None \<Rightarrow> m) es n"
  shows "n \<le> top_level es n" "e \<in> set es \<Longrightarrow> sme_enabled e = Some l \<Longrightarrow> filter_u8 l \<le> top_level es n"
proof -
  show ge: "n \<le> top_level es n" for es n
    unfolding top_level_def by (induction es arbitrary: n) (auto split: option.splits intro: order_trans [OF max.cobounded1])
  show "e \<in> set es \<Longrightarrow> sme_enabled e = Some l \<Longrightarrow> filter_u8 l \<le> top_level es n"
  proof (induction es arbitrary: n)
    case (Cons x es)
    then show ?case using ge [of "max n (filter_u8 l)" es] by (auto simp: top_level_def)
  qed simp
qed

lemma level_source:
  assumes "items_ok items" "map_inv items P (sm_entries m) (sm_root_count m) []" "length s = SCOPE_DEPTH_MAX"
  defines "known \<equiv> \<lambda>l. (\<exists>e \<in> set (sm_entries m). sme_enabled e = Some l) \<or> l \<in> snd ` set (sm_modules m)"
  shows "\<exists>r. scope_map_is_enabled m s module_path lvl = Some r \<and> (r = Enabled \<longrightarrow> (\<exists>l. level_u8 lvl \<le> filter_u8 l \<and> known l))"
proof -
  have searched: "\<exists>r. search m s' = Some r \<and> (\<forall>l. r = Some l \<longrightarrow> known l)" if "length s' = SCOPE_DEPTH_MAX" for s'
  proof (intro exI conjI)
    show "search m s' = Some (the (search m s'))" using search_ok [OF assms(1,2) that] by simp
    then show "\<forall>l. the (search m s') = Some l \<longrightarrow> known l" using search_level [of m s'] unfolding known_def by metis
  qed
  obtain r1 where r1: "search m s = Some r1" "\<forall>l. r1 = Some l \<longrightarrow> known l" using searched [OF assms(3)] by blast
  show ?thesis
  proof (cases module_path)
    case None
    then show ?thesis using r1 by (cases r1) (auto simp: scope_map_is_enabled_def)
  next
    case (Some p)
    let ?crate = "extract_crate_name_from_module_path p"
    obtain sc where sc: "scope_ref_new [?crate] = Some sc" "length sc = SCOPE_DEPTH_MAX"
      by (simp add: scope_ref_new_def SCOPE_DEPTH_MAX_def)
    obtain r2 where r2: "search m sc = Some r2" "\<forall>l. r2 = Some l \<longrightarrow> known l" using searched [OF sc(2)] by blast
    have modules: "known l" if "map_of (sm_modules m) p = Some l" for l
      using map_of_SomeD [OF that] unfolding known_def by (force simp: image_iff)
    define r3 where "r3 = (if r1 = None \<and> s ! 0 = [] then r2 else r1)"
    define r4 where "r4 = (if sm_modules m \<noteq> [] \<and> (r3 = None \<or> s ! 0 = ?crate \<and> s ! 1 = [])
      then (case map_of (sm_modules m) p of Some l \<Rightarrow> Some l | None \<Rightarrow> r3) else r3)"
    have "\<forall>l. r4 = Some l \<longrightarrow> known l" using r1(2) r2(2) modules by (auto simp: r3_def r4_def split: option.splits)
    moreover have "scope_map_is_enabled m s module_path lvl =
        Some (case r4 of Some l \<Rightarrow> if level_u8 lvl \<le> filter_u8 l then Enabled else Disabled | None \<Rightarrow> NotConfigured)"
    proof -
      have crate: "(if r1 = None \<and> s ! 0 = [] then scope_ref_new [?crate] \<bind> search m else Some r1) = Some r3"
        by (simp add: r3_def sc(1) r2(1))
      show ?thesis by (simp add: scope_map_is_enabled_def Let_def Some r1(1) crate r4_def del: One_nat_def split del: if_split)
    qed
    ultimately show ?thesis by (cases r4) auto
  qed
qed

lemma refreshed:
  assumes "refresh_from_settings os st settings = Some st'"
  defines "m \<equiv> gl_scope_map st'"
  shows "gl_level_enabled_max_static st' \<le> gl_level_enabled_max_config st'"
    "\<And>e l. e \<in> set (sm_entries m) \<Longrightarrow> sme_enabled e = Some l \<Longrightarrow> filter_u8 l \<le> gl_level_enabled_max_config st'"
    "\<And>s module_path lvl. length s = SCOPE_DEPTH_MAX \<Longrightarrow> \<exists>r. scope_map_is_enabled m s module_path lvl = Some r \<and>
      (r = Enabled \<longrightarrow> (\<exists>l. level_u8 lvl \<le> filter_u8 l \<and>
        ((\<exists>e \<in> set (sm_entries m). sme_enabled e = Some l) \<or> l \<in> snd ` set (sm_modules m))))"
proof -
  obtain items m' P where m': "new_from_settings_and_env settings (gl_env_filter st) (default_filters os) = Some m'" "items_ok items"
      "map_inv items P (sm_entries m') (sm_root_count m') []"
    using new_map_ok by blast
  then have st': "m = m'" "gl_level_enabled_max_static st' = gl_level_enabled_max_static st"
      "gl_level_enabled_max_config st' = fold (\<lambda>entry m. case sme_enabled entry of Some l \<Rightarrow> max m (filter_u8 l) | None \<Rightarrow> m)
        (sm_entries m) (gl_level_enabled_max_static st)"
    using assms(1) by (auto simp: refresh_from_settings_def m_def)
  show "gl_level_enabled_max_static st' \<le> gl_level_enabled_max_config st'" unfolding st'(2,3) by (rule max_level_bounds(1))
  show "filter_u8 l \<le> gl_level_enabled_max_config st'" if "e \<in> set (sm_entries m)" "sme_enabled e = Some l" for e l
    unfolding st'(3) by (rule max_level_bounds(2) [OF that])
  show "\<exists>r. scope_map_is_enabled m s module_path lvl = Some r \<and>
      (r = Enabled \<longrightarrow> (\<exists>l. level_u8 lvl \<le> filter_u8 l \<and>
        ((\<exists>e \<in> set (sm_entries m). sme_enabled e = Some l) \<or> l \<in> snd ` set (sm_modules m))))"
    if "length s = SCOPE_DEPTH_MAX" for s module_path lvl
    using level_source [OF m'(2,3) that] unfolding st'(1) .
qed

lemma scope_ref_short: "length ws \<le> 1 \<Longrightarrow> \<exists>sc. scope_ref_new ws = Some sc \<and> length sc = SCOPE_DEPTH_MAX"
  by (simp add: scope_ref_new_def SCOPE_DEPTH_MAX_def)

lemma is_scope_enabled_returns:
  "refresh_from_settings os st settings = Some st' \<Longrightarrow> length s = SCOPE_DEPTH_MAX \<Longrightarrow> \<exists>b. is_scope_enabled st' s p lvl = Some b"
  using refreshed(3) [of os st settings st' s p lvl] by (auto simp: is_scope_enabled_def Let_def)

text \<open>
  Claim C26. The fast path of \<^verbatim>\<open>is_scope_enabled\<close> is only an optimisation, after the filter was refreshed from any settings, as long as no filter
  for a single module is more verbose than the recorded maximum: the answer is the one that the scope map gives with no early return.
\<close>

theorem fast_path_agrees:
  assumes "refresh_from_settings os st settings = Some st'" "length s = SCOPE_DEPTH_MAX"
    "\<forall>l \<in> snd ` set (sm_modules (gl_scope_map st')). filter_u8 l \<le> gl_level_enabled_max_config st'"
  shows "\<exists>enabled. is_scope_enabled st' s module_path lvl = Some enabled \<and>
    is_scope_enabled (st'\<lparr>gl_level_enabled_max_config := filter_u8 FilterTrace\<rparr>) s module_path lvl = Some enabled"
proof -
  let ?m = "gl_scope_map st'"
  obtain r where r: "scope_map_is_enabled ?m s module_path lvl = Some r"
      "r = Enabled \<Longrightarrow> \<exists>l. level_u8 lvl \<le> filter_u8 l \<and> ((\<exists>e \<in> set (sm_entries ?m). sme_enabled e = Some l) \<or> l \<in> snd ` set (sm_modules ?m))"
    using refreshed(3) [OF assms(1,2)] by blast
  have "r = Enabled \<Longrightarrow> level_u8 lvl \<le> gl_level_enabled_max_config st'"
    using r(2) refreshed(2) [OF assms(1)] assms(3) by (meson order_trans)
  moreover have "level_u8 lvl \<le> filter_u8 FilterTrace" by (cases lvl) simp_all
  ultimately show ?thesis using r(1) refreshed(1) [OF assms(1)]
    by (cases r) (auto simp: is_scope_enabled_def is_possibly_enabled_level_def Let_def)
qed

theorem fast_path_agrees_witness:
  "\<exists>st'. refresh_from_settings Linux log_initial [(''a.b'', ''debug''), (''a::c'', ''warn'')] = Some st' \<and>
    (\<exists>enabled. is_scope_enabled st' [''a'', ''b'', [], []] (Some ''a::c'') LevelTrace = Some enabled \<and>
     is_scope_enabled (st'\<lparr>gl_level_enabled_max_config := filter_u8 FilterTrace\<rparr>) [''a'', ''b'', [], []] (Some ''a::c'') LevelTrace = Some enabled)"
proof -
  let ?r = "refresh_from_settings Linux log_initial [(''a.b'', ''debug''), (''a::c'', ''warn'')]"
  have "(case ?r of None \<Rightarrow> False | Some st' \<Rightarrow>
      \<forall>l \<in> snd ` set (sm_modules (gl_scope_map st')). filter_u8 l \<le> gl_level_enabled_max_config st')" by code_simp
  then obtain st' where st': "?r = Some st'" "\<forall>l \<in> snd ` set (sm_modules (gl_scope_map st')). filter_u8 l \<le> gl_level_enabled_max_config st'"
    by (cases ?r) simp_all
  have "length [''a'', ''b'', [], []] = SCOPE_DEPTH_MAX" by (simp add: SCOPE_DEPTH_MAX_def)
  then show ?thesis using st'(1) fast_path_agrees [OF st'(1) _ st'(2), of "[''a'', ''b'', [], []]" "Some ''a::c''" LevelTrace] by blast
qed

text \<open>
  Without that hypothesis the fast path changes the answer: the recorded maximum counts the filters of scopes and not those of modules, so
  that a filter that makes one module more verbose than everything else has no effect.
\<close>

lemma module_filter_discarded:
  "case refresh_from_settings Linux log_initial [(''a::b'', ''trace'')] of
     None \<Rightarrow> False
   | Some st \<Rightarrow>
       scope_map_is_enabled (gl_scope_map st) [''a'', [], [], []] (Some ''a::b'') LevelTrace = Some Enabled \<and>
       is_scope_enabled st [''a'', [], [], []] (Some ''a::b'') LevelTrace = Some False"
  by code_simp

text \<open>
  After \<^verbatim>\<open>try_init\<close> or any later refresh, the recorded maximum is at least the global level, and both loggers answer for every
  message without a panic.
\<close>

theorem logging_never_panics:
  assumes "refresh_from_settings os st settings = Some st'" "length s = SCOPE_DEPTH_MAX"
  shows "gl_level_enabled_max_static st' \<le> gl_level_enabled_max_config st' \<and>
    (\<exists>out. zlog_log st' r = Some out) \<and> (\<exists>out. logger_log st' s r = Some out)"
proof (intro conjI)
  note answers = is_scope_enabled_returns [OF assms(1)]
  show "gl_level_enabled_max_static st' \<le> gl_level_enabled_max_config st'" by (rule refreshed(1) [OF assms(1)])
  let ?p = "case lr_module_path r of Some m \<Rightarrow> Some m | None \<Rightarrow> lr_file r"
  obtain c where c: "scope_ref_new (case ?p of Some p \<Rightarrow> [extract_crate_name_from_module_path p] | None \<Rightarrow> []) = Some c"
      "length c = SCOPE_DEPTH_MAX"
    using scope_ref_short [of "case ?p of Some p \<Rightarrow> [extract_crate_name_from_module_path p] | None \<Rightarrow> []"] by (cases ?p) auto
  obtain d where "scope_ref_new [case ?p of Some p \<Rightarrow> p | None \<Rightarrow> ''*unknown*''] = Some d"
    using scope_ref_short [of "[case ?p of Some p \<Rightarrow> p | None \<Rightarrow> ''*unknown*'']"] by auto
  then show "\<exists>out. zlog_log st' r = Some out"
    using c answers [OF c(2), of "Some (lr_target r)" "lr_level r"] by (cases ?p) (auto simp: zlog_log_def Let_def)
  show "\<exists>out. logger_log st' s r = Some out"
    using answers [OF assms(2), of "Some (lr_target r)" "lr_level r"] by (auto simp: logger_log_def)
qed

theorem logging_never_panics_witness:
  "\<exists>st'. try_init Linux log_initial (Some ''warn,a=trace'') None = Some st' \<and>
    (\<exists>out. logger_log st' [''a'', [], [], []] \<lparr>lr_level = LevelDebug, lr_target = ''a::b'', lr_module_path = None, lr_file = None\<rparr> = Some out)"
proof -
  let ?r = "process_env log_initial (Some ''warn,a=trace'') None"
  have "?r \<noteq> None" by code_simp
  moreover have "refresh_from_settings Linux st [] \<noteq> None" for st
    using new_map_ok [of "[]" "gl_env_filter st" "default_filters Linux"] by (auto simp: refresh_from_settings_def Let_def)
  ultimately obtain st st' where st': "?r = Some st" "refresh_from_settings Linux st [] = Some st'" by blast
  have "length [''a'', [], [], []] = SCOPE_DEPTH_MAX" by (simp add: SCOPE_DEPTH_MAX_def)
  from logging_never_panics [OF st'(2) this] st' show ?thesis by (auto simp: try_init_def)
qed

section \<open>Loggers for a scope within a scope\<close>

lemma free_index_padded:
  "0 < i \<Longrightarrow> i \<le> length ws \<Longrightarrow> length ws \<le> SCOPE_DEPTH_MAX \<Longrightarrow> [] \<notin> set ws \<Longrightarrow> free_index (padded ws) i = length ws"
proof (induction "length ws - i" arbitrary: i)
  case 0
  then have i: "i = length ws" by simp
  then have "i < length (padded ws) \<Longrightarrow> padded ws ! i = []" using 0 by (intro padded_simps(2)) simp_all
  then show ?case using i by (subst free_index.simps) auto
next
  case (Suc k)
  then have i: "i < length ws" by simp
  then have "ws ! i \<noteq> []" using Suc.prems(4) nth_mem by metis
  with i have "free_index (padded ws) i = free_index (padded ws) (Suc i)" using Suc.prems(3) by (subst free_index.simps) simp
  then show ?case using Suc.hyps(1) [of "Suc i"] Suc.hyps(2) Suc.prems i by simp
qed

lemma padded_snoc: "length ws < SCOPE_DEPTH_MAX \<Longrightarrow> (padded ws)[length ws := name] = padded (ws @ [name])"
  by (simp add: padded_def list_update_append Suc_diff_Suc [symmetric])

lemma takeWhile_padded: "[] \<notin> set ws \<Longrightarrow> takeWhile (\<lambda>w. w \<noteq> []) (padded ws) = ws"
  by (auto simp: padded_def takeWhile_append)

lemma search_padded:
  assumes "items_ok items" "map_inv items P (sm_entries m) (sm_root_count m) []" "length ws \<le> SCOPE_DEPTH_MAX" "[] \<notin> set ws"
  shows "search m (padded ws) = Some (last_level (\<lambda>n. own_level items (take n ws)) [1..<Suc (length ws)] None)"
proof -
  have "last_level (\<lambda>n. own_level items (take n (padded ws))) [1..<Suc (length ws)] None =
      last_level (\<lambda>n. own_level items (take n ws)) [1..<Suc (length ws)] None"
    by (intro List.fold_cong) (auto simp: padded_def)
  then show ?thesis using search_ok [OF assms(1,2), of "padded ws"] assms(3,4) by (simp add: takeWhile_padded del: upt_Suc)
qed

text \<open>
  \<^verbatim>\<open>scoped_logger\<close> adds its name behind those of its parent, and panics when the parent has all four. In every scope map that the filter
  builds, the new logger has the level configured for its own scope, and that of its parent where there is none.
\<close>

theorem scoped_logger_inherits:
  assumes "ws \<noteq> []" "length ws \<le> SCOPE_DEPTH_MAX" "[] \<notin> set ws" "name \<noteq> []"
    "new_from_settings_and_env settings env_config defaults = Some m"
  shows "if length ws = SCOPE_DEPTH_MAX then scoped_logger (padded ws) name = None
    else scoped_logger (padded ws) name = Some (padded (ws @ [name])) \<and>
      (\<exists>r. search m (padded ws) = Some r \<and>
        search m (padded (ws @ [name])) =
          Some (case configured (defaults @ env_filters env_config @ new_filters settings) (ws @ [name]) of Some l \<Rightarrow> Some l | None \<Rightarrow> r))"
proof -
  have ix: "free_index (padded ws) 1 = length ws" using free_index_padded [of 1 ws] assms(1-3) by (cases ws) auto
  obtain items P where m: "items_ok items" "map_inv items P (sm_entries m) (sm_root_count m) []"
      "\<And>path. own_level items path = configured (defaults @ env_filters env_config @ new_filters settings) path"
    using new_map_ok [of settings env_config defaults] assms(5) by auto
  show ?thesis
  proof (cases "length ws = SCOPE_DEPTH_MAX")
    case True
    then show ?thesis using ix by (simp add: scoped_logger_def)
  next
    case False
    then have len: "length (ws @ [name]) \<le> SCOPE_DEPTH_MAX" using assms(2) by simp
    define r where "r = last_level (\<lambda>n. own_level items (take n ws)) [1..<Suc (length ws)] None"
    have "last_level (\<lambda>n. own_level items (take n (ws @ [name]))) [1..<Suc (length ws)] None = r"
      unfolding r_def by (intro List.fold_cong) auto
    then have "search m (padded (ws @ [name])) = Some (case own_level items (ws @ [name]) of Some l \<Rightarrow> Some l | None \<Rightarrow> r)"
      using search_padded [OF m(1,2) len] assms(3,4) upt_Suc_append [of 1 "Suc (length ws)"]
      by (cases "own_level items (ws @ [name])") (simp_all del: upt_Suc)
    moreover have "search m (padded ws) = Some r" unfolding r_def by (rule search_padded [OF m(1,2) assms(2,3)])
    moreover have "scoped_logger (padded ws) name = Some (padded (ws @ [name]))"
      using False ix assms(2) padded_snoc [of ws name] by (simp add: scoped_logger_def)
    ultimately show ?thesis using False by (simp add: m(3))
  qed
qed

theorem scoped_logger_inherits_witness:
  "\<exists>m. new_from_settings_and_env [(''a'', ''debug''), (''a.b'', ''off'')] None [] = Some m \<and>
    scoped_logger (padded [''a'']) ''b'' = Some (padded [''a'', ''b'']) \<and> search m (padded [''a'', ''b'']) = Some (Some FilterOff)"
proof -
  obtain m where m: "new_from_settings_and_env [(''a'', ''debug''), (''a.b'', ''off'')] None [] = Some m" using new_map_ok by blast
  have "configured ([] @ env_filters None @ new_filters [(''a'', ''debug''), (''a.b'', ''off'')]) ([''a''] @ [''b'']) = Some FilterOff" by code_simp
  then show ?thesis using m scoped_logger_inherits [OF _ _ _ _ m, of "[''a'']" "''b''"] by (simp add: SCOPE_DEPTH_MAX_def)
qed

section \<open>Reading the filter of the environment\<close>

datatype directive = GlobalLevel level_filter | ScopeLevel string level_filter

fun level_name :: "level_filter \<Rightarrow> string" where
  "level_name FilterOff = ''off''"
| "level_name FilterError = ''error''"
| "level_name FilterWarn = ''warn''"
| "level_name FilterInfo = ''info''"
| "level_name FilterDebug = ''debug''"
| "level_name FilterTrace = ''trace''"

fun directive_show :: "directive \<Rightarrow> string" where
  "directive_show (GlobalLevel l) = level_name l"
| "directive_show (ScopeLevel name l) = name @ CHR ''='' # level_name l"

fun plain_directive :: "directive \<Rightarrow> bool" where
  "plain_directive (GlobalLevel l) \<longleftrightarrow> True"
| "plain_directive (ScopeLevel name l) \<longleftrightarrow>
     CHR ''='' \<notin> set name \<and> CHR '','' \<notin> set name \<and> str_trim name = name \<and> strip_suf ''.rs'' name = None"

abbreviation globals :: "directive list \<Rightarrow> level_filter list" where
  "globals \<equiv> List.map_filter (\<lambda>d. case d of GlobalLevel l \<Rightarrow> Some l | ScopeLevel _ _ \<Rightarrow> None)"

abbreviation scoped :: "directive list \<Rightarrow> (string \<times> level_filter) list" where
  "scoped \<equiv> List.map_filter (\<lambda>d. case d of GlobalLevel _ \<Rightarrow> None | ScopeLevel name l \<Rightarrow> Some (name, l))"

lemma level_name_props [simp]:
  "str_trim (level_name l) = level_name l" "parse_level (level_name l) = Inr l" "CHR ''='' \<notin> set (level_name l)" "CHR '','' \<notin> set (level_name l)"
  by (induct l; code_simp)+

lemma split_once_absent [simp]: "c \<notin> set s \<Longrightarrow> split_once (\<lambda>x. x = c) s = None"
  by (auto simp: split_once_def split: option.splits)

lemma split_once_word [simp]: "c \<notin> set w \<Longrightarrow> split_once (\<lambda>x. x = c) (w @ c # s) = Some (w, s)"
proof -
  assume "c \<notin> set w"
  then have "find_ix (\<lambda>x. x = c) (w @ c # s) = Some (length w)" by (intro find_ix_append) auto
  then show ?thesis by (simp add: split_once_def)
qed

lemma trim_end_str_none [simp]: "strip_suf suf s = None \<Longrightarrow> trim_end_str suf s = s"
  by (subst trim_end_str.simps) simp

lemma parse_directives_show:
  "list_all plain_directive ds \<Longrightarrow> parse_directives (map directive_show ds) f =
     (if length (globals ds) + (if ef_level_global f = None then 0 else 1) > 1 then Inl MultipleMaxLevels
      else Inr (f\<lparr>ef_level_global := (case globals ds of [] \<Rightarrow> ef_level_global f | l # _ \<Rightarrow> Some l),
        ef_directive_names := ef_directive_names f @ map fst (scoped ds), ef_directive_levels := ef_directive_levels f @ map snd (scoped ds)\<rparr>))"
proof (induction ds arbitrary: f)
  case (Cons d ds)
  then show ?case by (cases d) (auto simp: map_filter_simps del: trim_end_str.simps split: list.splits)
qed (simp add: map_filter_simps)

text \<open>
  Claim C33. A filter written as directives separated by commas, a level for everything and levels for scopes in any order, is read as it was written:
  the scopes with their levels in order and the level for everything; writing two levels for everything is an error. Names may not have white
  space around them, a comma, an equals sign or the ending of a source file.
\<close>

theorem env_filter_round_trip:
  assumes "ds \<noteq> []" "list_all plain_directive ds"
  shows "env_parse (join_by CHR '','' (map directive_show ds)) =
    (if 1 < length (globals ds) then Inl MultipleMaxLevels
     else Inr \<lparr>ef_level_global = (case globals ds of [] \<Rightarrow> None | l # _ \<Rightarrow> Some l),
       ef_directive_names = map fst (scoped ds), ef_directive_levels = map snd (scoped ds)\<rparr>)"
proof -
  have "CHR '','' \<notin> set (directive_show d)" if "plain_directive d" for d using that by (cases d) auto
  then have "split_by (\<lambda>c. c = CHR '','') (join_by CHR '','' (map directive_show ds)) = map directive_show ds"
    using assms by (intro split_join) (auto simp: list_all_iff)
  then show ?thesis unfolding env_parse_def by (simp only: parse_directives_show [OF assms(2)]) (simp split: list.split)
qed

theorem env_filter_round_trip_witness:
  "env_parse (join_by CHR '','' (map directive_show [ScopeLevel ''a.b'' FilterTrace, GlobalLevel FilterWarn])) =
     Inr \<lparr>ef_level_global = Some FilterWarn, ef_directive_names = [''a.b''], ef_directive_levels = [FilterTrace]\<rparr>"
proof -
  have "list_all plain_directive [ScopeLevel ''a.b'' FilterTrace, GlobalLevel FilterWarn]" by code_simp
  from env_filter_round_trip [OF _ this] show ?thesis by (simp add: map_filter_simps)
qed

end
