(* ===== verification/LineLayout.thy ===== *)
theory LineLayout
  imports LineWrapper Geometry
begin

text \<open>
  Lines of shaped text (\<^verbatim>\<open>crates/gpui/src/text_system/line_layout.rs\<close>): from glyphs to indices in the text and back, splitting a line, wrapping it at
  a width and the positions in a wrapped line. The shaper gives the glyphs; coordinates are elements of an ordered field. A nested loop
  over the runs and their glyphs is one loop over all glyphs. An index that overflows panics. \<^verbatim>\<open>partition_point\<close> is documented for glyphs
  that are partitioned only, and is the length of the prefix then.
\<close>

section \<open>Layouts\<close>

record 'u shaped_glyph =
  sg_id :: nat
  sg_position :: "'u point"
  sg_index :: nat
  sg_is_emoji :: bool

record 'u shaped_run =
  sr_font_id :: nat
  sr_glyphs :: "'u shaped_glyph list"

record 'u line_layout =
  ll_font_size :: 'u
  ll_width :: 'u
  ll_ascent :: 'u
  ll_descent :: 'u
  ll_runs :: "'u shaped_run list"
  ll_len :: nat

abbreviation glyph_x :: "'u shaped_glyph \<Rightarrow> 'u" where
  "glyph_x g \<equiv> p_x (sg_position g)"

definition all_glyphs :: "'u line_layout \<Rightarrow> 'u shaped_glyph list" where
  "all_glyphs l = concat (map sr_glyphs (ll_runs l))"

definition index_for_x :: "'u::linorder line_layout \<Rightarrow> 'u \<Rightarrow> nat option" where
  "index_for_x l x =
     (if x \<ge> ll_width l then None
      else (case List.find (\<lambda>glyph. glyph_x glyph \<le> x) (rev (all_glyphs l)) of
              Some glyph \<Rightarrow> Some (sg_index glyph)
            | None \<Rightarrow> Some 0))"

fun closest_loop :: "'u::linordered_field shaped_glyph list \<Rightarrow> 'u \<Rightarrow> nat \<Rightarrow> 'u \<Rightarrow> nat option" where
  "closest_loop [] x prev_index prev_x = None"
| "closest_loop (glyph # glyphs) x prev_index prev_x =
     (if glyph_x glyph \<ge> x then Some (if glyph_x glyph - x < x - prev_x then sg_index glyph else prev_index)
      else closest_loop glyphs x (sg_index glyph) (glyph_x glyph))"

definition closest_index_for_x :: "'u::linordered_field line_layout \<Rightarrow> 'u \<Rightarrow> nat" where
  "closest_index_for_x l x =
     (case closest_loop (all_glyphs l) x 0 0 of
        Some index \<Rightarrow> index
      | None \<Rightarrow> if ll_len l = 1 then (if x > ll_width l / 2 then 1 else 0) else ll_len l)"

definition x_for_index :: "'u line_layout \<Rightarrow> nat \<Rightarrow> 'u" where
  "x_for_index l index =
     (case List.find (\<lambda>glyph. sg_index glyph \<ge> index) (all_glyphs l) of Some glyph \<Rightarrow> glyph_x glyph | None \<Rightarrow> ll_width l)"

fun font_id_loop :: "'u shaped_run list \<Rightarrow> nat \<Rightarrow> nat option" where
  "font_id_loop [] index = None"
| "font_id_loop (run # runs) index =
     (if list_ex (\<lambda>glyph. sg_index glyph \<ge> index) (sr_glyphs run) then Some (sr_font_id run) else font_id_loop runs index)"

definition font_id_for_index :: "'u line_layout \<Rightarrow> nat \<Rightarrow> nat option" where
  "font_id_for_index l index = font_id_loop (ll_runs l) index"

text \<open>The glyphs of a run behind the split, moved to the start of the line; \<^verbatim>\<open>g.index - byte_index\<close> may not underflow.\<close>

fun rebase_glyphs :: "'u::minus \<Rightarrow> nat \<Rightarrow> 'u shaped_glyph list \<Rightarrow> 'u shaped_glyph list option" where
  "rebase_glyphs x_offset byte_index [] = Some []"
| "rebase_glyphs x_offset byte_index (g # gs) = do {
     assert_that (byte_index \<le> sg_index g);
     gs' \<leftarrow> rebase_glyphs x_offset byte_index gs;
     Some (\<lparr>sg_id = sg_id g, sg_position = point_new (glyph_x g - x_offset) (p_y (sg_position g)), sg_index = sg_index g - byte_index,
        sg_is_emoji = sg_is_emoji g\<rparr> # gs') }"

fun split_runs :: "'u::minus \<Rightarrow> nat \<Rightarrow> 'u shaped_run list \<Rightarrow> ('u shaped_run list \<times> 'u shaped_run list) option" where
  "split_runs x_offset byte_index [] = Some ([], [])"
| "split_runs x_offset byte_index (run # runs) = do {
     let split_pos = length (takeWhile (\<lambda>g. sg_index g < byte_index) (sr_glyphs run));
     let left = (if split_pos > 0 then [\<lparr>sr_font_id = sr_font_id run, sr_glyphs = take split_pos (sr_glyphs run)\<rparr>] else []);
     right \<leftarrow>
       (if split_pos < length (sr_glyphs run) then do {
          right_glyphs \<leftarrow> rebase_glyphs x_offset byte_index (drop split_pos (sr_glyphs run));
          Some [\<lparr>sr_font_id = sr_font_id run, sr_glyphs = right_glyphs\<rparr>] }
        else Some []);
     (left_runs, right_runs) \<leftarrow> split_runs x_offset byte_index runs;
     Some (left @ left_runs, right @ right_runs) }"

definition layout_split_at :: "'u::linordered_field line_layout \<Rightarrow> nat \<Rightarrow> ('u line_layout \<times> 'u line_layout) option" where
  "layout_split_at l byte_index = do {
     let x_offset = x_for_index l byte_index;
     (left_runs, right_runs) \<leftarrow> split_runs x_offset byte_index (ll_runs l);
     assert_that (byte_index \<le> ll_len l);
     Some
       (\<lparr>ll_font_size = ll_font_size l, ll_width = x_offset, ll_ascent = ll_ascent l, ll_descent = ll_descent l, ll_runs = left_runs,
          ll_len = byte_index\<rparr>,
        \<lparr>ll_font_size = ll_font_size l, ll_width = ll_width l - x_offset, ll_ascent = ll_ascent l, ll_descent = ll_descent l,
          ll_runs = right_runs, ll_len = ll_len l - byte_index\<rparr>) }"

section \<open>Wrapping\<close>

record wrap_boundary =
  wb_run_ix :: nat
  wb_glyph_ix :: nat

text \<open>The derived order of the source: the run, then the glyph.\<close>

definition wb_less :: "wrap_boundary \<Rightarrow> wrap_boundary \<Rightarrow> bool" where
  "wb_less a b \<longleftrightarrow> wb_run_ix a < wb_run_ix b \<or> wb_run_ix a = wb_run_ix b \<and> wb_glyph_ix a < wb_glyph_ix b"

fun run_boundaries :: "nat \<Rightarrow> 'u shaped_run list \<Rightarrow> (wrap_boundary \<times> 'u shaped_glyph) list" where
  "run_boundaries run_ix [] = []"
| "run_boundaries run_ix (run # runs) =
     map (\<lambda>(glyph_ix, glyph). (\<lparr>wb_run_ix = run_ix, wb_glyph_ix = glyph_ix\<rparr>, glyph)) (List.enumerate 0 (sr_glyphs run)) @
     run_boundaries (run_ix + 1) runs"

definition char_at :: "uchar list \<Rightarrow> nat \<Rightarrow> uchar option" where
  "char_at s index = do {
     rest \<leftarrow> slice_from s index;
     first_opt rest }"

record 'u layout_wrap_state =
  lw_boundaries :: "wrap_boundary list"
  lw_first_non_whitespace_ix :: "wrap_boundary option"
  lw_last_candidate_ix :: "wrap_boundary option"
  lw_last_candidate_x :: 'u
  lw_last_boundary :: wrap_boundary
  lw_last_boundary_x :: 'u
  lw_prev_ch :: uchar

definition layout_wrap_start :: "'u::zero layout_wrap_state" where
  "layout_wrap_start =
     \<lparr>lw_boundaries = [], lw_first_non_whitespace_ix = None, lw_last_candidate_ix = None, lw_last_candidate_x = 0,
      lw_last_boundary = \<lparr>wb_run_ix = 0, wb_glyph_ix = 0\<rparr>, lw_last_boundary_x = 0, lw_prev_ch = 0\<rparr>"

definition note_glyph :: "wrap_boundary \<Rightarrow> uchar \<Rightarrow> 'u \<Rightarrow> 'u layout_wrap_state \<Rightarrow> 'u layout_wrap_state" where
  "note_glyph boundary ch x st =
     (let st =
        (if (if is_word_char ch then lw_prev_ch st = 0x20 \<and> ch \<noteq> 0x20 \<and> lw_first_non_whitespace_ix st \<noteq> None
             else ch \<noteq> 0x20 \<and> lw_first_non_whitespace_ix st \<noteq> None)
         then st\<lparr>lw_last_candidate_ix := Some boundary, lw_last_candidate_x := x\<rparr>
         else st)
      in if ch \<noteq> 0x20 \<and> lw_first_non_whitespace_ix st = None then st\<lparr>lw_first_non_whitespace_ix := Some boundary\<rparr> else st)"

definition push_boundary :: "wrap_boundary \<Rightarrow> 'u \<Rightarrow> 'u layout_wrap_state \<Rightarrow> 'u layout_wrap_state" where
  "push_boundary boundary x st =
     (let st =
        (case lw_last_candidate_ix st of
           Some candidate \<Rightarrow>
             st\<lparr>lw_last_candidate_ix := None, lw_last_boundary := candidate, lw_last_boundary_x := lw_last_candidate_x st\<rparr>
         | None \<Rightarrow> st\<lparr>lw_last_boundary := boundary, lw_last_boundary_x := x\<rparr>)
      in st\<lparr>lw_boundaries := lw_boundaries st @ [lw_last_boundary st]\<rparr>)"

text \<open>The characters are looked up as the iterator is advanced or peeked at; a glyph of a new line is skipped.\<close>

fun layout_wrap_loop ::
  "'u::linordered_field \<Rightarrow> uchar list \<Rightarrow> 'u \<Rightarrow> nat option \<Rightarrow> (wrap_boundary \<times> 'u shaped_glyph) list \<Rightarrow> 'u layout_wrap_state \<Rightarrow>
   wrap_boundary list option" where
  "layout_wrap_loop line_width s wrap_width max_lines [] st = Some (lw_boundaries st)"
| "layout_wrap_loop line_width s wrap_width max_lines ((boundary, glyph) # glyphs) st = do {
     ch \<leftarrow> char_at s (sg_index glyph);
     (if ch = 0xA then layout_wrap_loop line_width s wrap_width max_lines glyphs st
      else do {
        let x = glyph_x glyph;
        let st = note_glyph boundary ch x st;
        next_x \<leftarrow>
          (case glyphs of
             [] \<Rightarrow> Some line_width
           | (_, next_glyph) # _ \<Rightarrow> do { _ \<leftarrow> char_at s (sg_index next_glyph); Some (glyph_x next_glyph) });
        let width = next_x - lw_last_boundary_x st;
        (if width > wrap_width \<and> wb_less (lw_last_boundary st) boundary then
           (if (case max_lines of Some n \<Rightarrow> length (lw_boundaries st) \<ge> n - 1 | None \<Rightarrow> False) then Some (lw_boundaries st)
            else layout_wrap_loop line_width s wrap_width max_lines glyphs ((push_boundary boundary x st)\<lparr>lw_prev_ch := ch\<rparr>))
         else layout_wrap_loop line_width s wrap_width max_lines glyphs (st\<lparr>lw_prev_ch := ch\<rparr>)) }) }"

definition compute_wrap_boundaries :: "'u::linordered_field line_layout \<Rightarrow> uchar list \<Rightarrow> 'u \<Rightarrow> nat option \<Rightarrow> wrap_boundary list option" where
  "compute_wrap_boundaries l s wrap_width max_lines =
     layout_wrap_loop (ll_width l) s wrap_width max_lines (run_boundaries 0 (ll_runs l)) layout_wrap_start"

section \<open>Wrapped layouts\<close>

record 'u wrapped_line_layout =
  wl_unwrapped_layout :: "'u line_layout"
  wl_wrap_boundaries :: "wrap_boundary list"
  wl_wrap_width :: "'u option"

definition wrapped_len :: "'u wrapped_line_layout \<Rightarrow> nat" where
  "wrapped_len w = ll_len (wl_unwrapped_layout w)"

text \<open>With no width to wrap at the bound is the greatest number of pixels, which no line reaches.\<close>

definition wrapped_width :: "'u::linorder wrapped_line_layout \<Rightarrow> 'u" where
  "wrapped_width w =
     (case wl_wrap_width w of Some width \<Rightarrow> min width (ll_width (wl_unwrapped_layout w)) | None \<Rightarrow> ll_width (wl_unwrapped_layout w))"

definition wrapped_size :: "'u::linordered_field wrapped_line_layout \<Rightarrow> 'u \<Rightarrow> 'u size2" where
  "wrapped_size w line_height =
     \<lparr>s_width = wrapped_width w, s_height = line_height * of_nat (length (wl_wrap_boundaries w) + 1)\<rparr>"

definition boundary_glyph :: "'u line_layout \<Rightarrow> wrap_boundary \<Rightarrow> 'u shaped_glyph option" where
  "boundary_glyph l boundary = do {
     run \<leftarrow> get_opt (ll_runs l) (wb_run_ix boundary);
     get_opt (sr_glyphs run) (wb_glyph_ix boundary) }"

definition index_for_position_inner ::
  "'u::floor_ceiling wrapped_line_layout \<Rightarrow> 'u point \<Rightarrow> 'u \<Rightarrow> bool \<Rightarrow> (nat + nat) option" where
  "index_for_position_inner w position line_height closest =
     (let l = wl_unwrapped_layout w;
          wrapped_line_ix = nat \<lfloor>p_y position / line_height\<rfloor>
      in if wrapped_line_ix > 0 \<and> wrapped_line_ix - 1 \<ge> length (wl_wrap_boundaries w) then Some (Inl 0)
         else do {
           (start_index, start_x) \<leftarrow>
             (if wrapped_line_ix > 0 then do {
                glyph \<leftarrow> boundary_glyph l (wl_wrap_boundaries w ! (wrapped_line_ix - 1));
                Some (sg_index glyph, glyph_x glyph) }
              else Some (0, 0));
           (end_index, end_x) \<leftarrow>
             (if wrapped_line_ix < length (wl_wrap_boundaries w) then do {
                glyph \<leftarrow> boundary_glyph l (wl_wrap_boundaries w ! wrapped_line_ix);
                Some (sg_index glyph, glyph_x glyph) }
              else Some (ll_len l, ll_width l));
           let x = p_x position + start_x;
           Some
             (if x < start_x then Inl start_index
              else if x \<ge> end_x then Inl end_index
              else if closest then Inr (closest_index_for_x l x)
              else (case index_for_x l x of Some index \<Rightarrow> Inr index | None \<Rightarrow> Inl end_index)) })"

definition index_for_position :: "'u::floor_ceiling wrapped_line_layout \<Rightarrow> 'u point \<Rightarrow> 'u \<Rightarrow> (nat + nat) option" where
  "index_for_position w position line_height = index_for_position_inner w position line_height False"

definition closest_index_for_position :: "'u::floor_ceiling wrapped_line_layout \<Rightarrow> 'u point \<Rightarrow> 'u \<Rightarrow> (nat + nat) option" where
  "closest_index_for_position w position line_height = index_for_position_inner w position line_height True"

text \<open>The loop over the ends of the lines; the boundaries are looked up as they are reached.\<close>

fun position_loop ::
  "'u::linordered_field line_layout \<Rightarrow> nat \<Rightarrow> 'u \<Rightarrow> nat \<Rightarrow> nat \<Rightarrow> wrap_boundary list \<Rightarrow> 'u point option option" where
  "position_loop l index line_height ix line_start_ix [] =
     (if index < line_start_ix then Some None
      else if index > ll_len l then Some None
      else Some (Some (point_new (x_for_index l index - x_for_index l line_start_ix) (of_nat ix * line_height))))"
| "position_loop l index line_height ix line_start_ix (boundary # boundaries) = do {
     glyph \<leftarrow> boundary_glyph l boundary;
     let line_end_ix = sg_index glyph;
     (if index < line_start_ix then Some None
      else if index > line_end_ix then position_loop l index line_height (ix + 1) line_end_ix boundaries
      else Some (Some (point_new (x_for_index l index - x_for_index l line_start_ix) (of_nat ix * line_height)))) }"

definition position_for_index :: "'u::linordered_field wrapped_line_layout \<Rightarrow> nat \<Rightarrow> 'u \<Rightarrow> 'u point option option" where
  "position_for_index w index line_height = position_loop (wl_unwrapped_layout w) index line_height 0 0 (wl_wrap_boundaries w)"

text \<open>
  \<^verbatim>\<open>apply_force_width_to_layout\<close> puts the glyphs on a grid. No last base, written as minus infinity in the source, is \<open>None\<close>.
\<close>

fun force_glyphs ::
  "'u::linordered_field \<Rightarrow> 'u shaped_glyph list \<Rightarrow> nat \<Rightarrow> 'u option \<Rightarrow> 'u \<Rightarrow> 'u shaped_glyph list \<times> nat \<times> 'u option \<times> 'u" where
  "force_glyphs force_width [] glyph_pos last_shaped last_actual = ([], glyph_pos, last_shaped, last_actual)"
| "force_glyphs force_width (glyph # glyphs) glyph_pos last_shaped last_actual =
     (let shaped_x = glyph_x glyph;
          move = (\<lambda>x. glyph\<lparr>sg_position := (sg_position glyph)\<lparr>p_x := x\<rparr>\<rparr>)
      in if (case last_shaped of None \<Rightarrow> True | Some base \<Rightarrow> shaped_x > base + force_width / 2) then
           let forced_x = of_nat glyph_pos * force_width;
               actual_x = (if \<bar>shaped_x - forced_x\<bar> > 1 then forced_x else shaped_x);
               (glyphs', rest) = force_glyphs force_width glyphs (glyph_pos + 1) (Some shaped_x) actual_x
           in (move actual_x # glyphs', rest)
         else
           let (glyphs', rest) = force_glyphs force_width glyphs glyph_pos last_shaped last_actual
           in (move (last_actual + (shaped_x - the last_shaped)) # glyphs', rest))"

fun force_runs :: "'u::linordered_field \<Rightarrow> 'u shaped_run list \<Rightarrow> nat \<Rightarrow> 'u option \<Rightarrow> 'u \<Rightarrow> 'u shaped_run list" where
  "force_runs force_width [] glyph_pos last_shaped last_actual = []"
| "force_runs force_width (run # runs) glyph_pos last_shaped last_actual =
     (let (glyphs, glyph_pos, last_shaped, last_actual) = force_glyphs force_width (sr_glyphs run) glyph_pos last_shaped last_actual
      in run\<lparr>sr_glyphs := glyphs\<rparr> # force_runs force_width runs glyph_pos last_shaped last_actual)"

definition apply_force_width_to_layout :: "'u::linordered_field line_layout \<Rightarrow> 'u \<Rightarrow> 'u line_layout" where
  "apply_force_width_to_layout l force_width = l\<lparr>ll_runs := force_runs force_width (ll_runs l) 0 None 0\<rparr>"

section \<open>Splitting\<close>

lemma sorted_takeWhile:
  fixes f :: "'a \<Rightarrow> 'b::linorder"
  assumes "sorted (map f xs)"
  shows "takeWhile (\<lambda>x. f x < b) xs = filter (\<lambda>x. f x < b) xs" "dropWhile (\<lambda>x. f x < b) xs = filter (\<lambda>x. b \<le> f x) xs"
proof -
  have "takeWhile (\<lambda>x. f x < b) xs = filter (\<lambda>x. f x < b) xs \<and> dropWhile (\<lambda>x. f x < b) xs = filter (\<lambda>x. b \<le> f x) xs"
    using assms
  proof (induction xs)
    case (Cons x xs)
    show ?case
    proof (cases "f x < b")
      case False
      then have "\<forall>y \<in> set xs. b \<le> f y" using Cons.prems by (auto intro: order_trans)
      then have "filter (\<lambda>x. f x < b) xs = []" "filter (\<lambda>x. b \<le> f x) xs = xs" by (auto simp: filter_empty_conv filter_id_conv)
      then show ?thesis using False by simp
    qed (use Cons in auto)
  qed simp
  then show "takeWhile (\<lambda>x. f x < b) xs = filter (\<lambda>x. f x < b) xs" "dropWhile (\<lambda>x. f x < b) xs = filter (\<lambda>x. b \<le> f x) xs" by auto
qed

definition shift_glyph :: "'u::minus \<Rightarrow> nat \<Rightarrow> 'u shaped_glyph \<Rightarrow> 'u shaped_glyph" where
  "shift_glyph x n g = g\<lparr>sg_position := (sg_position g)\<lparr>p_x := glyph_x g - x\<rparr>, sg_index := sg_index g - n\<rparr>"

lemma rebase_glyphs_ok: "\<forall>g \<in> set gs. n \<le> sg_index g \<Longrightarrow> rebase_glyphs x n gs = Some (map (shift_glyph x n) gs)"
  by (induction gs) (simp_all add: shift_glyph_def point_new_def)

lemma split_runs_ok:
  assumes "\<forall>run \<in> set runs. sorted (map sg_index (sr_glyphs run))"
  shows "\<exists>ls rs. split_runs x n runs = Some (ls, rs) \<and>
    concat (map sr_glyphs ls) = filter (\<lambda>g. sg_index g < n) (concat (map sr_glyphs runs)) \<and>
    concat (map sr_glyphs rs) = map (shift_glyph x n) (filter (\<lambda>g. n \<le> sg_index g) (concat (map sr_glyphs runs)))"
  using assms
proof (induction runs)
  case (Cons run runs)
  obtain ls rs where IH: "split_runs x n runs = Some (ls, rs)"
      "concat (map sr_glyphs ls) = filter (\<lambda>g. sg_index g < n) (concat (map sr_glyphs runs))"
      "concat (map sr_glyphs rs) = map (shift_glyph x n) (filter (\<lambda>g. n \<le> sg_index g) (concat (map sr_glyphs runs)))"
    using Cons by auto
  let ?gs = "sr_glyphs run" and ?p = "length (takeWhile (\<lambda>g. sg_index g < n) (sr_glyphs run))"
  have sorted: "sorted (map sg_index ?gs)" using Cons.prems by simp
  have cut: "take ?p ?gs = filter (\<lambda>g. sg_index g < n) ?gs" "drop ?p ?gs = filter (\<lambda>g. n \<le> sg_index g) ?gs"
    unfolding takeWhile_eq_take [symmetric] dropWhile_eq_drop [symmetric] by (fact sorted_takeWhile [OF sorted])+
  have "rebase_glyphs x n (drop ?p ?gs) = Some (map (shift_glyph x n) (drop ?p ?gs))" unfolding cut(2) by (rule rebase_glyphs_ok) simp
  moreover have "?p < length ?gs \<longleftrightarrow> drop ?p ?gs \<noteq> []" "0 < ?p \<longleftrightarrow> take ?p ?gs \<noteq> []" by auto
  ultimately show ?case using IH cut by (auto simp: Let_def)
qed simp

lemma find_filter: "(\<And>x. x \<in> set xs \<Longrightarrow> P x \<Longrightarrow> Q x) \<Longrightarrow> List.find P (filter Q xs) = List.find P xs"
  by (induction xs) auto

lemma find_after: "List.find P (xs @ ys) = (case List.find P xs of Some x \<Rightarrow> Some x | None \<Rightarrow> List.find P ys)"
  by (induction xs) auto

lemma find_map: "List.find P (map f xs) = map_option f (List.find (\<lambda>x. P (f x)) xs)"
  by (induction xs) auto

lemma find_cong_set: "(\<And>x. x \<in> set xs \<Longrightarrow> P x = Q x) \<Longrightarrow> List.find P xs = List.find Q xs"
  by (induction xs) auto

text \<open>
  Claim C28. Splitting a line whose glyphs stand in the order of the text never panics. The glyphs before and behind the index go to the two halves,
  the widths and lengths of the halves add up to those of the line, and every index has the same position in its half as in the
  line, measured from the start of the half.
\<close>

theorem split_at_keeps_positions:
  fixes l :: "'u::linordered_field line_layout"
  assumes "sorted (map sg_index (all_glyphs l))" "n \<le> ll_len l"
  shows "\<exists>left right. layout_split_at l n = Some (left, right) \<and>
    all_glyphs left = filter (\<lambda>g. sg_index g < n) (all_glyphs l) \<and>
    all_glyphs right = map (shift_glyph (x_for_index l n) n) (filter (\<lambda>g. n \<le> sg_index g) (all_glyphs l)) \<and>
    ll_width left + ll_width right = ll_width l \<and> ll_len left + ll_len right = ll_len l \<and>
    (\<forall>i. i \<le> n \<longrightarrow> x_for_index left i = x_for_index l i) \<and>
    (\<forall>i. x_for_index right i = x_for_index l (n + i) - x_for_index l n)"
proof -
  let ?x = "x_for_index l n" and ?G = "all_glyphs l"
  have "\<forall>run \<in> set (ll_runs l). sorted (map sg_index (sr_glyphs run))"
    using assms(1) unfolding all_glyphs_def by (auto simp: sorted_wrt_map sorted_wrt_append dest!: split_list)
  from split_runs_ok [OF this, of ?x n] obtain ls rs where runs: "split_runs ?x n (ll_runs l) = Some (ls, rs)"
      "concat (map sr_glyphs ls) = filter (\<lambda>g. sg_index g < n) ?G"
      "concat (map sr_glyphs rs) = map (shift_glyph ?x n) (filter (\<lambda>g. n \<le> sg_index g) ?G)"
    unfolding all_glyphs_def by blast
  define left right where "left = \<lparr>ll_font_size = ll_font_size l, ll_width = ?x, ll_ascent = ll_ascent l, ll_descent = ll_descent l,
      ll_runs = ls, ll_len = n\<rparr>"
    and "right = \<lparr>ll_font_size = ll_font_size l, ll_width = ll_width l - ?x, ll_ascent = ll_ascent l, ll_descent = ll_descent l,
      ll_runs = rs, ll_len = ll_len l - n\<rparr>"
  have split: "layout_split_at l n = Some (left, right)" using runs(1) assms(2) by (simp add: layout_split_at_def left_def right_def Let_def)
  have halves: "all_glyphs left = filter (\<lambda>g. sg_index g < n) ?G"
      "all_glyphs right = map (shift_glyph ?x n) (filter (\<lambda>g. n \<le> sg_index g) ?G)"
    using runs by (simp_all add: all_glyphs_def left_def right_def)
  have "x_for_index left i = x_for_index l i" if "i \<le> n" for i
  proof -
    have G: "?G = filter (\<lambda>g. sg_index g < n) ?G @ filter (\<lambda>g. n \<le> sg_index g) ?G"
      using sorted_takeWhile [OF assms(1), of n] takeWhile_dropWhile_id [of "\<lambda>g. sg_index g < n" ?G] by simp
    have "List.find (\<lambda>g. i \<le> sg_index g) (filter (\<lambda>g. n \<le> sg_index g) ?G) = List.find (\<lambda>g. n \<le> sg_index g) (filter (\<lambda>g. n \<le> sg_index g) ?G)"
      using that by (intro find_cong_set) auto
    also have "\<dots> = List.find (\<lambda>g. n \<le> sg_index g) ?G" by (rule find_filter) simp
    finally have "List.find (\<lambda>g. i \<le> sg_index g) ?G =
        (case List.find (\<lambda>g. i \<le> sg_index g) (all_glyphs left) of Some g \<Rightarrow> Some g | None \<Rightarrow> List.find (\<lambda>g. n \<le> sg_index g) ?G)"
      by (subst G) (simp add: halves find_after split: option.split)
    then show ?thesis by (simp add: x_for_index_def left_def split: option.split)
  qed
  moreover have "x_for_index right i = x_for_index l (n + i) - ?x" for i
  proof -
    have "List.find (\<lambda>g. i \<le> sg_index g) (all_glyphs right) =
        map_option (shift_glyph ?x n) (List.find (\<lambda>g. n + i \<le> sg_index g) (filter (\<lambda>g. n \<le> sg_index g) ?G))"
      unfolding halves find_map by (intro arg_cong [where f = "map_option _"] find_cong_set) (auto simp: shift_glyph_def)
    also have "List.find (\<lambda>g. n + i \<le> sg_index g) (filter (\<lambda>g. n \<le> sg_index g) ?G) = List.find (\<lambda>g. n + i \<le> sg_index g) ?G"
      by (rule find_filter) simp
    finally have "x_for_index right i = (case List.find (\<lambda>g. n + i \<le> sg_index g) ?G of Some g \<Rightarrow> glyph_x g - ?x | None \<Rightarrow> ll_width l - ?x)"
      unfolding x_for_index_def [of right] by (simp add: right_def shift_glyph_def split: option.split)
    then show ?thesis unfolding x_for_index_def [of l "n + i"] by (simp split: option.split)
  qed
  ultimately show ?thesis using split halves assms(2) by (intro exI [of _ left] exI [of _ right]) (simp add: left_def right_def)
qed

text \<open>Layouts for the witnesses: glyphs of the same width, one for each byte.\<close>

definition sample_layout :: "nat \<Rightarrow> nat \<Rightarrow> rat line_layout" where
  "sample_layout a b =
     (let glyph = (\<lambda>i. \<lparr>sg_id = i, sg_position = point_new (of_nat i) 0, sg_index = i, sg_is_emoji = False\<rparr>)
      in \<lparr>ll_font_size = 1, ll_width = of_nat (a + b), ll_ascent = 1, ll_descent = 0,
          ll_runs = [\<lparr>sr_font_id = 0, sr_glyphs = map glyph [0..<a]\<rparr>, \<lparr>sr_font_id = 1, sr_glyphs = map glyph [a..<a + b]\<rparr>], ll_len = a + b\<rparr>)"

theorem split_at_keeps_positions_witness:
  "\<exists>left right. layout_split_at (sample_layout 2 3) 3 = Some (left, right) \<and> ll_width left + ll_width right = 5 \<and>
    x_for_index right 1 = 1"
proof -
  have "sorted (map sg_index (all_glyphs (sample_layout 2 3)))" "3 \<le> ll_len (sample_layout 2 3)"
    by code_simp+
  moreover have "x_for_index (sample_layout 2 3) (3 + 1) - x_for_index (sample_layout 2 3) 3 = 1" "ll_width (sample_layout 2 3) = 5"
    by code_simp+
  ultimately show ?thesis using split_at_keeps_positions [of "sample_layout 2 3" 3] by metis
qed

section \<open>Positions\<close>

text \<open>
  What a shaper gives for text from left to right: neither the indices nor the positions decrease. Several glyphs may share an index
  (a character drawn by more than one glyph) or a position (a glyph without a width, as \<^verbatim>\<open>apply_force_width_to_layout\<close> keeps them).
\<close>

definition layout_ok :: "'u::linordered_field line_layout \<Rightarrow> bool" where
  "layout_ok l \<longleftrightarrow> (let G = all_glyphs l in
     sorted_wrt (\<lambda>g h. sg_index g \<le> sg_index h \<and> glyph_x g \<le> glyph_x h) G \<and>
     (\<forall>g \<in> set G. sg_index g < ll_len l \<and> glyph_x g \<le> ll_width l) \<and>
     (if G = [] then ll_width l = 0 else glyph_x (hd G) = 0))"

text \<open>The indices at which a character starts, and the end of the text.\<close>

definition marks :: "'u line_layout \<Rightarrow> nat set" where
  "marks l = insert (ll_len l) (sg_index ` set (all_glyphs l))"

text \<open>The last of the indices at a position.\<close>

definition last_mark :: "'u line_layout \<Rightarrow> 'u \<Rightarrow> nat" where
  "last_mark l x = Max {i \<in> marks l. x_for_index l i = x}"

lemma boundary_glyph_mem: "boundary_glyph l b = Some g \<Longrightarrow> g \<in> set (all_glyphs l)"
  by (auto simp: boundary_glyph_def all_glyphs_def bind_eq_Some_conv get_opt_def split: if_splits) (metis nth_mem)

lemma x_ends:
  assumes "layout_ok l"
  shows "x_for_index l 0 = 0" "x_for_index l (ll_len l) = ll_width l"
proof -
  show "x_for_index l 0 = 0" using assms by (cases "all_glyphs l") (simp_all add: x_for_index_def layout_ok_def)
  have "List.find (\<lambda>g. ll_len l \<le> sg_index g) (all_glyphs l) = None" using assms by (auto simp: find_None_iff layout_ok_def Let_def)
  then show "x_for_index l (ll_len l) = ll_width l" by (simp add: x_for_index_def)
qed

text \<open>The glyph an index is drawn at: the first whose index is not smaller.\<close>

lemma first_glyph:
  assumes "layout_ok l" "g \<in> set (all_glyphs l)" "i \<le> sg_index g"
  obtains us f vs where "all_glyphs l = us @ f # vs" "\<forall>u \<in> set us. sg_index u < i" "i \<le> sg_index f"
    "x_for_index l i = glyph_x f" "sg_index f \<le> sg_index g" "glyph_x f \<le> glyph_x g"
proof -
  obtain us f vs where f: "all_glyphs l = us @ f # vs" "\<forall>u \<in> set us. \<not> i \<le> sg_index u" "i \<le> sg_index f"
    using split_list_first_prop [of "all_glyphs l" "\<lambda>g. i \<le> sg_index g"] assms(2,3) by blast
  then have "List.find (\<lambda>g. i \<le> sg_index g) us = None" by (simp add: find_None_iff)
  then have "x_for_index l i = glyph_x f" using f by (simp add: x_for_index_def find_after)
  moreover have "g \<in> set (f # vs)" using assms(2,3) f by auto
  then have "sg_index f \<le> sg_index g \<and> glyph_x f \<le> glyph_x g" using assms(1) f(1) by (auto simp: layout_ok_def sorted_wrt_append)
  ultimately show thesis using f by (intro that) auto
qed

lemma x_le_width:
  assumes "layout_ok l"
  shows "x_for_index l i \<le> ll_width l"
  using assms by (auto simp: x_for_index_def layout_ok_def Let_def find_Some_iff split: option.split)

lemma x_for_index_mono:
  assumes "layout_ok l" "i \<le> j"
  shows "x_for_index l i \<le> x_for_index l j"
proof (cases "\<exists>g \<in> set (all_glyphs l). j \<le> sg_index g")
  case True
  then obtain us f vs where f: "all_glyphs l = us @ f # vs" "j \<le> sg_index f" "x_for_index l j = glyph_x f"
    using first_glyph [OF assms(1)] by metis
  then have "f \<in> set (all_glyphs l)" "i \<le> sg_index f" using assms(2) by auto
  then show ?thesis using first_glyph [OF assms(1)] f(3) by metis
next
  case False
  then have "List.find (\<lambda>g. j \<le> sg_index g) (all_glyphs l) = None" by (simp add: find_None_iff)
  then have "x_for_index l j = ll_width l" by (simp add: x_for_index_def)
  then show ?thesis using x_le_width [OF assms(1)] by simp
qed

text \<open>Looking up the position of an index gives the last of the indices drawn there.\<close>

lemma index_for_x_mark:
  assumes "layout_ok l" "i \<in> marks l" "x_for_index l i < ll_width l"
  shows "index_for_x l (x_for_index l i) = Some (last_mark l (x_for_index l i))"
proof -
  let ?X = "x_for_index l" and ?G = "all_glyphs l"
  obtain g where "g \<in> set ?G" "i = sg_index g" using assms x_ends(2) [OF assms(1)] by (auto simp: marks_def)
  then obtain us f vs where f: "?G = us @ f # vs" "sg_index f = i" "?X i = glyph_x f" using first_glyph [OF assms(1), of g i] by (metis order_refl le_antisym)
  then obtain ys h zs where h: "?G = ys @ h # zs" "glyph_x h \<le> ?X i" "\<forall>z \<in> set zs. \<not> glyph_x z \<le> ?X i"
    using split_list_last_prop [of ?G "\<lambda>g. glyph_x g \<le> ?X i"] by auto
  have "List.find (\<lambda>g. glyph_x g \<le> ?X i) (rev zs) = None" using h(3) by (simp add: find_None_iff)
  then have index: "index_for_x l (?X i) = Some (sg_index h)" using h assms(3) by (simp add: index_for_x_def find_after)
  have "f \<in> set ?G" "f \<notin> set zs" using f(1,3) h(3) by auto
  then have "f \<in> set (ys @ [h])" using h(1) by auto
  then have fh: "sg_index f \<le> sg_index h" "glyph_x f \<le> glyph_x h" using assms(1) h(1) by (auto simp: layout_ok_def sorted_wrt_append)
  have "h \<in> set ?G" using h(1) by simp
  have "?X (sg_index h) = ?X i"
    using first_glyph [OF assms(1) \<open>h \<in> set ?G\<close> order_refl] x_for_index_mono [OF assms(1), of i "sg_index h"] fh f(2) h(2)
    by (metis order_antisym order_trans)
  moreover have "j \<le> sg_index h" if j: "j \<in> marks l" "?X j = ?X i" for j
  proof (rule ccontr)
    assume "\<not> j \<le> sg_index h"
    obtain g' where "g' \<in> set ?G" "j = sg_index g'" using j x_ends(2) [OF assms(1)] assms(3) by (auto simp: marks_def)
    then obtain us' f' vs' where f': "?G = us' @ f' # vs'" "j \<le> sg_index f'" "?X j = glyph_x f'" using first_glyph [OF assms(1), of g' j] by (metis order_refl)
    have "f' \<in> set zs"
    proof -
      have "\<forall>y \<in> set (ys @ [h]). sg_index y \<le> sg_index h" using assms(1) h(1) by (auto simp: layout_ok_def sorted_wrt_append)
      then have "f' \<notin> set (ys @ [h])" using f'(2) \<open>\<not> j \<le> sg_index h\<close> order_trans by blast
      moreover have "f' \<in> set ?G" using f'(1) by simp
      ultimately show ?thesis unfolding h(1) by auto
    qed
    then show False using h(3) f'(3) j(2) by auto
  qed
  moreover have "sg_index h \<in> marks l" using \<open>h \<in> set ?G\<close> by (simp add: marks_def)
  moreover have "finite (marks l)" by (simp add: marks_def)
  ultimately show ?thesis unfolding index last_mark_def by (intro arg_cong [where f = Some] Max_eqI [symmetric]) auto
qed

lemma last_mark_inj:
  assumes "inj_on (x_for_index l) (marks l)" "i \<in> marks l"
  shows "last_mark l (x_for_index l i) = i"
proof -
  have "{j \<in> marks l. x_for_index l j = x_for_index l i} = {i}" using assms by (auto dest: inj_onD)
  then show ?thesis by (simp add: last_mark_def)
qed

text \<open>The line on which an index is found: the first that ends at it or behind it.\<close>

lemma position_loop_line:
  assumes "map (boundary_glyph l) bs = map Some gs" "start \<le> index" "index \<le> ll_len l"
  defines "firsts \<equiv> start # map sg_index gs" and "lasts \<equiv> map sg_index gs @ [ll_len l]"
  shows "\<exists>k \<le> length gs. firsts ! k \<le> index \<and> index \<le> lasts ! k \<and> (\<forall>j < k. lasts ! j < index) \<and>
    position_loop l index line_height ix start bs =
      Some (Some (point_new (x_for_index l index - x_for_index l (firsts ! k)) (of_nat (ix + k) * line_height)))"
  using assms(1,2) unfolding firsts_def lasts_def
proof (induction bs arbitrary: gs start ix)
  case Nil
  then show ?case using assms(3) by simp
next
  case (Cons b bs)
  then obtain g gs' where gs: "gs = g # gs'" "boundary_glyph l b = Some g" "map (boundary_glyph l) bs = map Some gs'" by (cases gs) auto
  show ?case
  proof (cases "index \<le> sg_index g")
    case True
    then show ?thesis using Cons.prems(2) gs by (intro exI [of _ 0]) simp
  next
    case False
    then have "sg_index g \<le> index" by simp
    from Cons.IH [OF gs(3) this, of "ix + 1"] obtain k where "k \<le> length gs'" "(sg_index g # map sg_index gs') ! k \<le> index"
        "index \<le> (map sg_index gs' @ [ll_len l]) ! k" "\<forall>j < k. (map sg_index gs' @ [ll_len l]) ! j < index"
        "position_loop l index line_height (ix + 1) (sg_index g) bs = Some (Some (point_new
          (x_for_index l index - x_for_index l ((sg_index g # map sg_index gs') ! k)) (of_nat (ix + 1 + k) * line_height)))"
      by blast
    then show ?thesis using False Cons.prems(2) gs by (intro exI [of _ "Suc k"]) (auto simp: less_Suc_eq_0_disj)
  qed
qed

text \<open>
  Claim C15. In a wrapped line, \<^verbatim>\<open>index_for_position\<close> undoes \<^verbatim>\<open>position_for_index\<close>. The position of an index (the start of a character or the
  end of the text) is on line \<open>k\<close>, the first that ends at the index or behind it. Looked up again, it gives the end of line \<open>k\<close> on the side of \<^verbatim>\<open>Err\<close>
  when the index is drawn at the end of that line, and otherwise, on the side of \<^verbatim>\<open>Ok\<close>, the last index drawn at the same place. So
  when no two indices are drawn at the same place (no character without a width) the answer is the index itself, in \<^verbatim>\<open>Err\<close> exactly when it is the end of its line. Hypotheses: the line height
  is positive; along the glyphs neither index nor position decreases, the first glyph is at 0, none is behind the width of the line, and
  their indices are below the length of the text; every wrap boundary names a glyph, the first one of its character.
\<close>

theorem position_round_trip:
  fixes w :: "'u::{linordered_field, floor_ceiling} wrapped_line_layout"
  defines "l \<equiv> wl_unwrapped_layout w"
  assumes "layout_ok l" "map (boundary_glyph l) (wl_wrap_boundaries w) = map Some gs"
    "\<forall>g \<in> set gs. x_for_index l (sg_index g) = glyph_x g" "index \<in> marks l" "0 < line_height"
  shows "\<exists>position k. position_for_index w index line_height = Some (Some position) \<and>
    k \<le> length gs \<and> p_y position = of_nat k * line_height \<and>
    (let line_ends = map sg_index gs @ [ll_len l] in
       index \<le> line_ends ! k \<and> (\<forall>j < k. line_ends ! j < index) \<and>
       index_for_position w position line_height =
         Some (if x_for_index l index = x_for_index l (line_ends ! k) then Inl (line_ends ! k)
               else Inr (last_mark l (x_for_index l index))) \<and>
       (inj_on (x_for_index l) (marks l) \<longrightarrow>
         index_for_position w position line_height = Some (if index = line_ends ! k then Inl index else Inr index)))"
proof -
  let ?bs = "wl_wrap_boundaries w"
  let ?X = "x_for_index l" and ?starts = "0 # map sg_index gs" and ?ends = "map sg_index gs @ [ll_len l]"
  note mono = x_for_index_mono [OF assms(2)]
  have index: "index \<le> ll_len l" using assms(2,5) by (auto simp: marks_def layout_ok_def Let_def intro: less_imp_le)
  obtain k where k: "k \<le> length gs" "?starts ! k \<le> index" "index \<le> ?ends ! k" "\<forall>j < k. ?ends ! j < index"
      "position_for_index w index line_height = Some (Some (point_new (?X index - ?X (?starts ! k)) (of_nat k * line_height)))"
    using position_loop_line [OF assms(3) _ index, of 0 line_height 0] by (auto simp: position_for_index_def l_def)
  have len: "length ?bs = length gs" using assms(3) by (metis length_map)
  have glyph: "boundary_glyph l (?bs ! j) = Some (gs ! j)" if "j < length gs" for j
    using that assms(3) len by (metis nth_map)
  define sx ex where "sx = (if k = 0 then 0 else glyph_x (gs ! (k - 1)))" and "ex = (if k < length gs then glyph_x (gs ! k) else ll_width l)"
  have start: "?X (?starts ! k) = sx" using x_ends(1) [OF assms(2)] assms(4) k(1) by (cases k) (simp_all add: sx_def)
  have line_last: "?X (?ends ! k) = ex"
    using x_ends(2) [OF assms(2)] assms(4) k(1) by (cases "k < length gs") (simp_all add: ex_def nth_append)
  have to_mark: "?ends ! k \<in> marks l"
    using boundary_glyph_mem [OF glyph, of k] k(1) by (cases "k < length gs") (auto simp: marks_def nth_append)
  have inside: "sx \<le> ?X index" "?X index \<le> ex" using mono [OF k(2)] mono [OF k(3)] start line_last by simp_all
  let ?p = "point_new (?X index - sx) (of_nat k * line_height)"
  have line_ix: "nat \<lfloor>of_nat k * line_height / line_height\<rfloor> = k" "\<not> (k > 0 \<and> k - 1 \<ge> length ?bs)" using assms(6) k(1) len by auto
  have line_start: "(if k > 0 then do { glyph \<leftarrow> boundary_glyph l (?bs ! (k - 1)); Some (sg_index glyph, glyph_x glyph) } else Some (0, 0)) =
      Some (?starts ! k, sx)"
    using glyph [of "k - 1"] k(1) by (cases k) (simp_all add: sx_def)
  have line_end: "(if k < length ?bs then do { glyph \<leftarrow> boundary_glyph l (?bs ! k); Some (sg_index glyph, glyph_x glyph) }
      else Some (ll_len l, ll_width l)) = Some (?ends ! k, ex)"
    using glyph [of k] k(1) len by (cases "k < length gs") (simp_all add: ex_def nth_append)
  have "index_for_position w ?p line_height =
      Some (if ?X index \<ge> ex then Inl (?ends ! k) else (case index_for_x l (?X index) of Some index \<Rightarrow> Inr index | None \<Rightarrow> Inl (?ends ! k)))"
    unfolding index_for_position_def index_for_position_inner_def point_new_def Let_def point.select_convs line_ix(1) l_def [symmetric] line_start line_end
    using line_ix(2) inside(1) by (simp only: if_False bind.bind_lunit prod.case diff_add_cancel) simp
  moreover have "index_for_x l (?X index) = Some (last_mark l (?X index))" if "\<not> ?X index \<ge> ex"
    using index_for_x_mark [OF assms(2,5)] that x_le_width [OF assms(2), of "?ends ! k"] line_last by simp
  ultimately have result: "index_for_position w ?p line_height = Some (if ?X index = ex then Inl (?ends ! k) else Inr (last_mark l (?X index)))"
    using inside(2) by auto
  have "index_for_position w ?p line_height = Some (if index = ?ends ! k then Inl index else Inr index)" if "inj_on ?X (marks l)"
    unfolding result last_mark_inj [OF that assms(5)] using inj_on_eq_iff [OF that assms(5) to_mark] line_last by simp
  then show ?thesis using k result unfolding start Let_def
    by (intro exI [of _ ?p] exI [of _ k]) (simp add: point_new_def line_last)
qed

lemma marks_sample: "layout_ok (sample_layout 2 3)" "\<exists>g. map (boundary_glyph (sample_layout 2 3)) [\<lparr>wb_run_ix = 1, wb_glyph_ix = 1\<rparr>] = map Some [g] \<and>
      x_for_index (sample_layout 2 3) (sg_index g) = glyph_x g \<and> sg_index g = 3"
    "4 \<in> marks (sample_layout 2 3)" "ll_len (sample_layout 2 3) = 5"
    "x_for_index (sample_layout 2 3) 4 \<noteq> x_for_index (sample_layout 2 3) 5" "last_mark (sample_layout 2 3) (x_for_index (sample_layout 2 3) 4) = 4"
  by code_simp (simp add: boundary_glyph_def sample_layout_def get_opt_def x_for_index_def all_glyphs_def, code_simp+)

theorem position_round_trip_witness:
  "\<exists>position. position_for_index \<lparr>wl_unwrapped_layout = sample_layout 2 3, wl_wrap_boundaries = [\<lparr>wb_run_ix = 1, wb_glyph_ix = 1\<rparr>], wl_wrap_width = Some 3\<rparr>
      4 2 = Some (Some position) \<and>
    index_for_position \<lparr>wl_unwrapped_layout = sample_layout 2 3, wl_wrap_boundaries = [\<lparr>wb_run_ix = 1, wb_glyph_ix = 1\<rparr>], wl_wrap_width = Some 3\<rparr>
      position 2 = Some (Inr 4)"
proof -
  let ?w = "\<lparr>wl_unwrapped_layout = sample_layout 2 3, wl_wrap_boundaries = [\<lparr>wb_run_ix = 1, wb_glyph_ix = 1\<rparr>], wl_wrap_width = Some 3\<rparr>"
  obtain g where g: "map (boundary_glyph (sample_layout 2 3)) [\<lparr>wb_run_ix = 1, wb_glyph_ix = 1\<rparr>] = map Some [g]"
      "x_for_index (sample_layout 2 3) (sg_index g) = glyph_x g" "sg_index g = 3"
    using marks_sample(2) by blast
  obtain position k where p: "position_for_index ?w 4 2 = Some (Some position)" "k \<le> 1" "4 \<le> [3, 5 :: nat] ! k"
      "index_for_position ?w position 2 = Some (if x_for_index (sample_layout 2 3) 4 = x_for_index (sample_layout 2 3) ([3, 5] ! k)
        then Inl ([3, 5] ! k) else Inr (last_mark (sample_layout 2 3) (x_for_index (sample_layout 2 3) 4)))"
    using position_round_trip [of ?w "[g]" 4 2] marks_sample g by (auto simp: Let_def)
  then have "k = 1" by (cases k) auto
  then show ?thesis using p(1,4) marks_sample(5,6) by auto
qed

section \<open>Wrapping\<close>

lemma run_boundaries_snd: "map snd (run_boundaries n runs) = concat (map sr_glyphs runs)"
  by (induction n runs rule: run_boundaries.induct) (simp_all add: comp_def case_prod_beta)

lemma run_boundaries_glyph:
  "(b, g) \<in> set (run_boundaries n runs) \<Longrightarrow>
   n \<le> wb_run_ix b \<and> (\<exists>run. get_opt runs (wb_run_ix b - n) = Some run \<and> get_opt (sr_glyphs run) (wb_glyph_ix b) = Some g)"
proof (induction n runs rule: run_boundaries.induct)
  case (2 n run runs)
  show ?case
  proof (cases "(b, g) \<in> set (run_boundaries (n + 1) runs)")
    case True
    then have n: "n + 1 \<le> wb_run_ix b" "\<exists>run. get_opt runs (wb_run_ix b - (n + 1)) = Some run \<and> get_opt (sr_glyphs run) (wb_glyph_ix b) = Some g"
      using "2.IH" by blast+
    then have ix: "wb_run_ix b - n = Suc (wb_run_ix b - (n + 1))" by simp
    have "get_opt (run # runs) (wb_run_ix b - n) = get_opt runs (wb_run_ix b - (n + 1))" unfolding ix by (simp add: get_opt_def)
    then show ?thesis using n by auto
  next
    case False
    then show ?thesis using "2.prems" by (auto simp: in_set_enumerate_eq get_opt_def)
  qed
qed simp

lemma run_boundaries_sorted: "sorted_wrt (\<lambda>p q. wb_less (fst p) (fst q)) (run_boundaries n runs)"
proof (induction n runs rule: run_boundaries.induct)
  case (2 n run runs)
  have "wb_less a b" if "(b, g) \<in> set (run_boundaries (n + 1) runs)" "wb_run_ix a = n" for a b g
    using run_boundaries_glyph [OF that(1)] that(2) by (simp add: wb_less_def)
  moreover have "sorted_wrt (\<lambda>p q. wb_less (fst p) (fst q))
      (map (\<lambda>(glyph_ix, glyph). (\<lparr>wb_run_ix = n, wb_glyph_ix = glyph_ix\<rparr>, glyph)) (List.enumerate 0 (sr_glyphs run)))"
    by (auto simp: sorted_wrt_iff_nth_less wb_less_def nth_enumerate_eq)
  ultimately show ?case using 2 by (auto simp: sorted_wrt_append)
qed simp

abbreviation nth_x :: "(wrap_boundary \<times> 'u shaped_glyph) list \<Rightarrow> nat \<Rightarrow> 'u" where
  "nth_x W i \<equiv> glyph_x (snd (W ! i))"

definition lines_within :: "(wrap_boundary \<times> 'u::linordered_field shaped_glyph) list \<Rightarrow> 'u \<Rightarrow> nat list \<Rightarrow> bool" where
  "lines_within W wd cs \<longleftrightarrow> sorted_wrt (<) cs \<and> (\<forall>c \<in> set cs. 0 < c \<and> c < length W) \<and>
     list_all (\<lambda>(a, b). nth_x W (b - 1) - nth_x W a \<le> wd) (zip (0 # cs) cs)"

lemma zip_shift_snoc: "zip (a # cs @ [c]) (cs @ [c]) = zip (a # cs) cs @ [(last (a # cs), c)]"
  by (induction cs arbitrary: a) auto

lemma lines_within_snoc:
  assumes "lines_within W wd cs" "last (0 # cs) < c" "c < length W" "nth_x W (c - 1) - nth_x W (last (0 # cs)) \<le> wd"
  shows "lines_within W wd (cs @ [c])"
proof -
  have "\<forall>d \<in> set cs. d \<le> last (0 # cs)"
    using assms(1) by (cases cs rule: rev_cases) (auto simp: lines_within_def sorted_wrt_append)
  then have "\<forall>d \<in> set cs. d < c" using assms(2) by fastforce
  moreover have "zip (0 # cs @ [c]) (cs @ [c]) = zip (0 # cs) cs @ [(last (0 # cs), c)]" by (rule zip_shift_snoc)
  ultimately show ?thesis using assms by (auto simp: lines_within_def sorted_wrt_append)
qed

text \<open>
  The state of the loop before glyph \<open>i\<close>: \<open>cs\<close> are the glyphs at which lines start, and \<open>p\<close> is the glyph at which the last
  boundary was found necessary. A candidate lies behind it.
\<close>

definition wrap_loop_inv ::
  "(wrap_boundary \<times> 'u::linordered_field shaped_glyph) list \<Rightarrow> 'u \<Rightarrow> nat \<Rightarrow> nat \<Rightarrow> nat list \<Rightarrow> 'u layout_wrap_state \<Rightarrow> bool" where
  "wrap_loop_inv W wd i p cs st \<longleftrightarrow>
     lines_within W wd cs \<and> lw_boundaries st = map (\<lambda>c. fst (W ! c)) cs \<and> last (0 # cs) \<le> p \<and> (if i = 0 then p = 0 else p < i) \<and>
     lw_last_boundary st = fst (W ! last (0 # cs)) \<and> lw_last_boundary_x st = nth_x W (last (0 # cs)) \<and>
     (\<forall>b. lw_last_candidate_ix st = Some b \<longrightarrow> (\<exists>k. p < k \<and> k < i \<and> b = fst (W ! k) \<and> lw_last_candidate_x st = nth_x W k)) \<and>
     (lw_first_non_whitespace_ix st \<noteq> None \<longrightarrow> 0 < i) \<and>
     (0 < i \<longrightarrow> nth_x W (i - 1) - nth_x W (last (0 # cs)) \<le> wd) \<and>
     (p + 1 < i \<and> i < length W \<longrightarrow> nth_x W i - nth_x W (last (0 # cs)) \<le> wd)"

lemma note_glyph_props:
  fixes st :: "'u::linordered_field layout_wrap_state" and ch :: uchar
  assumes "wrap_loop_inv W wd i p cs st"
  defines "st' \<equiv> note_glyph (fst (W ! i)) ch (nth_x W i) st"
  shows "lw_boundaries st' = lw_boundaries st" "lw_last_boundary st' = lw_last_boundary st" "lw_last_boundary_x st' = lw_last_boundary_x st"
    "\<And>b. lw_last_candidate_ix st' = Some b \<Longrightarrow> \<exists>k. p < k \<and> k \<le> i \<and> b = fst (W ! k) \<and> lw_last_candidate_x st' = nth_x W k"
proof -
  show "lw_boundaries st' = lw_boundaries st" "lw_last_boundary st' = lw_last_boundary st" "lw_last_boundary_x st' = lw_last_boundary_x st"
    by (simp_all add: st'_def note_glyph_def Let_def)
  show "\<exists>k. p < k \<and> k \<le> i \<and> b = fst (W ! k) \<and> lw_last_candidate_x st' = nth_x W k" if b: "lw_last_candidate_ix st' = Some b" for b
  proof (cases "lw_last_candidate_ix st' = lw_last_candidate_ix st \<and> lw_last_candidate_x st' = lw_last_candidate_x st")
    case True
    then have "\<exists>k. p < k \<and> k < i \<and> b = fst (W ! k) \<and> lw_last_candidate_x st = nth_x W k"
      using assms(1) b unfolding wrap_loop_inv_def by metis
    then show ?thesis using True by (auto intro: less_imp_le)
  next
    case False
    then have "lw_first_non_whitespace_ix st \<noteq> None" "b = fst (W ! i)" "lw_last_candidate_x st' = nth_x W i"
      using b unfolding st'_def note_glyph_def Let_def by (auto split: if_splits)
    then show ?thesis using assms(1) by (auto simp: wrap_loop_inv_def)
  qed
qed

lemma push_boundary_inv:
  fixes st :: "'u::linordered_field layout_wrap_state" and ch :: uchar
  assumes inv: "wrap_loop_inv W wd i p cs st" and i: "i < length W" "last (0 # cs) < i" and mono: "\<And>j k. j \<le> k \<Longrightarrow> k < length W \<Longrightarrow> nth_x W j \<le> nth_x W k"
    and wd: "0 \<le> wd"
  defines "st' \<equiv> note_glyph (fst (W ! i)) ch (nth_x W i) st"
  shows "\<exists>c. wrap_loop_inv W wd (i + 1) i (cs @ [c]) ((push_boundary (fst (W ! i)) (nth_x W i) st')\<lparr>lw_prev_ch := ch\<rparr>)"
proof -
  note noted = note_glyph_props [OF inv, of ch, folded st'_def]
  let ?a = "last (0 # cs)"
  have a: "?a \<le> p" "p < i" "0 < i" "lines_within W wd cs" "nth_x W (i - 1) - nth_x W ?a \<le> wd"
      "p + 1 < i \<Longrightarrow> nth_x W i - nth_x W ?a \<le> wd"
    using inv i by (auto simp: wrap_loop_inv_def split: if_splits)
  obtain c where c: "p < c" "c \<le> i" "push_boundary (fst (W ! i)) (nth_x W i) st' =
      st'\<lparr>lw_last_candidate_ix := None, lw_last_boundary := fst (W ! c), lw_last_boundary_x := nth_x W c,
        lw_boundaries := lw_boundaries st' @ [fst (W ! c)]\<rparr>"
  proof (cases "lw_last_candidate_ix st'")
    case None
    have "push_boundary (fst (W ! i)) (nth_x W i) st' = st'\<lparr>lw_last_candidate_ix := None, lw_last_boundary := fst (W ! i),
        lw_last_boundary_x := nth_x W i, lw_boundaries := lw_boundaries st' @ [fst (W ! i)]\<rparr>"
      using None by (simp add: push_boundary_def)
    then show ?thesis using that [of i] a(2) by simp
  next
    case (Some b)
    then show ?thesis using noted(4) [OF Some] that by (auto simp: push_boundary_def)
  qed
  have "nth_x W (c - 1) \<le> nth_x W (i - 1)" using c(1,2) i(1) by (intro mono) auto
  then have "nth_x W (c - 1) - nth_x W ?a \<le> wd" using a(5) by linarith
  then have "lines_within W wd (cs @ [c])" using lines_within_snoc [OF a(4)] c(1,2) a(1) i(1) by simp
  moreover have "nth_x W i - nth_x W c \<le> wd"
  proof (cases "c = i")
    case False
    then have "nth_x W i - nth_x W ?a \<le> wd" using a(6) c(1,2) by simp
    then show ?thesis using mono [of ?a c] a(1) c(1,2) i(1) by simp
  qed (use wd in simp)
  ultimately show ?thesis using c noted inv by (intro exI [of _ c]) (auto simp: wrap_loop_inv_def)
qed

lemma keep_line_inv:
  fixes st :: "'u::linordered_field layout_wrap_state" and ch :: uchar
  assumes inv: "wrap_loop_inv W wd i p cs st" and i: "i < length W" and mono: "\<And>j k. j \<le> k \<Longrightarrow> k < length W \<Longrightarrow> nth_x W j \<le> nth_x W k"
    and wd: "0 \<le> wd" and fit: "last (0 # cs) < i \<Longrightarrow> next_x - nth_x W (last (0 # cs)) \<le> wd"
    and next_x: "next_x = (if i + 1 < length W then nth_x W (i + 1) else line_width)" "nth_x W i \<le> line_width"
  shows "wrap_loop_inv W wd (i + 1) p cs ((note_glyph (fst (W ! i)) ch (nth_x W i) st)\<lparr>lw_prev_ch := ch\<rparr>)"
proof -
  note noted = note_glyph_props [OF inv, of ch]
  let ?a = "last (0 # cs)"
  have a: "?a \<le> p" "i = 0 \<Longrightarrow> p = 0" "0 < i \<Longrightarrow> p < i" using inv by (auto simp: wrap_loop_inv_def split: if_splits)
  have "nth_x W i - nth_x W ?a \<le> wd"
  proof (cases "i = 0")
    case False
    have "nth_x W i \<le> next_x" using next_x mono [of i "i + 1"] by simp
    then show ?thesis using fit a(1,3) False by simp
  qed (use a wd in simp)
  moreover have "nth_x W (i + 1) - nth_x W ?a \<le> wd" if "p + 1 < i + 1" "i + 1 < length W" using fit next_x(1) that a(1) by simp
  ultimately show ?thesis using inv a noted by (auto simp: wrap_loop_inv_def less_Suc_eq_le split: if_splits)
qed

lemma wb_less_irrefl [simp]: "\<not> wb_less b b"
  by (simp add: wb_less_def)

lemma layout_wrap_loop_ok:
  fixes W :: "(wrap_boundary \<times> 'u::linordered_field shaped_glyph) list"
  assumes mono: "\<And>j k. j \<le> k \<Longrightarrow> k < length W \<Longrightarrow> nth_x W j \<le> nth_x W k" and wd: "0 \<le> wd"
    and line_width: "\<And>j. j < length W \<Longrightarrow> nth_x W j \<le> line_width"
    and chars: "\<And>j. j < length W \<Longrightarrow> \<exists>ch. char_at s (sg_index (snd (W ! j))) = Some ch \<and> ch \<noteq> 0xA"
    and order: "\<And>j k. j < k \<Longrightarrow> k < length W \<Longrightarrow> wb_less (fst (W ! j)) (fst (W ! k))"
  shows "wrap_loop_inv W wd i p cs st \<Longrightarrow> i \<le> length W \<Longrightarrow> (\<And>n. max_lines = Some n \<Longrightarrow> length cs \<le> n - 1) \<Longrightarrow>
    \<exists>cs'. layout_wrap_loop line_width s wd max_lines (drop i W) st = Some (map (\<lambda>c. fst (W ! c)) cs') \<and> lines_within W wd cs' \<and>
      (\<forall>n. max_lines = Some n \<longrightarrow> length cs' \<le> n - 1) \<and>
      (max_lines = None \<and> W \<noteq> [] \<longrightarrow> nth_x W (length W - 1) - nth_x W (last (0 # cs')) \<le> wd)"
proof (induction "length W - i" arbitrary: i p cs st)
  case 0
  then show ?case by (intro exI [of _ cs]) (auto simp: wrap_loop_inv_def)
next
  case (Suc m)
  then have i: "i < length W" "m = length W - (i + 1)" "i + 1 \<le> length W" by auto
  let ?a = "last (0 # cs)" and ?next = "if i + 1 < length W then nth_x W (i + 1) else line_width"
  obtain ch where ch: "char_at s (sg_index (snd (W ! i))) = Some ch" "ch \<noteq> 0xA" using chars [OF i(1)] by blast
  let ?st = "note_glyph (fst (W ! i)) ch (nth_x W i) st"
  note noted = note_glyph_props [OF Suc.prems(1), of ch]
  have st: "lw_boundaries st = map (\<lambda>c. fst (W ! c)) cs" "lw_last_boundary st = fst (W ! ?a)" "lw_last_boundary_x st = nth_x W ?a" "?a \<le> i"
      "lines_within W wd cs"
    using Suc.prems(1) by (auto simp: wrap_loop_inv_def split: if_splits)
  have less: "wb_less (fst (W ! ?a)) (fst (W ! i)) \<longleftrightarrow> ?a < i" using order [of ?a i] i(1) st(4) by (cases "?a = i") auto
  let ?full = "case max_lines of Some n \<Rightarrow> length cs \<ge> n - 1 | None \<Rightarrow> False"
  have rest: "drop i W = (fst (W ! i), snd (W ! i)) # drop (Suc i) W" using Cons_nth_drop_Suc [OF i(1)] by simp
  have "(case drop (Suc i) W of [] \<Rightarrow> Some line_width | (_, g) # _ \<Rightarrow> do { _ \<leftarrow> char_at s (sg_index g); Some (glyph_x g) }) = Some ?next"
    using chars [of "Suc i"] by (cases "Suc i < length W") (auto simp: Cons_nth_drop_Suc [symmetric] split: prod.split)
  then have step: "layout_wrap_loop line_width s wd max_lines (drop i W) st =
      (if ?next - nth_x W ?a > wd \<and> ?a < i then
         (if ?full then Some (map (\<lambda>c. fst (W ! c)) cs)
          else layout_wrap_loop line_width s wd max_lines (drop (i + 1) W) ((push_boundary (fst (W ! i)) (nth_x W i) ?st)\<lparr>lw_prev_ch := ch\<rparr>))
       else layout_wrap_loop line_width s wd max_lines (drop (i + 1) W) (?st\<lparr>lw_prev_ch := ch\<rparr>))"
    unfolding rest layout_wrap_loop.simps using ch less
    by (cases max_lines) (simp_all add: Let_def st(1-3) noted(1-3) del: last.simps)
  consider (push) "?next - nth_x W ?a > wd" "?a < i" "\<not> ?full" | (full) "?next - nth_x W ?a > wd" "?a < i" ?full
    | (keep) "?a < i \<Longrightarrow> ?next - nth_x W ?a \<le> wd" by fastforce
  then show ?case
  proof cases
    case push
    obtain c where inv: "wrap_loop_inv W wd (i + 1) i (cs @ [c]) ((push_boundary (fst (W ! i)) (nth_x W i) ?st)\<lparr>lw_prev_ch := ch\<rparr>)"
      using push_boundary_inv [OF Suc.prems(1) i(1) push(2) mono wd] by blast
    have "length (cs @ [c]) \<le> n - 1" if "max_lines = Some n" for n using push(3) that by simp
    from Suc.hyps(1) [OF i(2) inv i(3) this] show ?thesis using step push by (simp del: last.simps)
  next
    case full
    then obtain n where "max_lines = Some n" by (auto split: option.splits)
    then show ?thesis using step full Suc.prems(3) st(5) by (intro exI [of _ cs]) (simp del: last.simps)
  next
    case keep
    have "wrap_loop_inv W wd (i + 1) p cs (?st\<lparr>lw_prev_ch := ch\<rparr>)"
      using keep_line_inv [OF Suc.prems(1) i(1) mono wd keep refl line_width [OF i(1)]] .
    from Suc.hyps(1) [OF i(2) this i(3) Suc.prems(3)] show ?thesis using step keep by (auto simp del: last.simps)
  qed
qed

text \<open>
  Claim C14. Wrapping a shaped line never panics. Lines start at increasing glyphs after the first; every line fits the width, its last glyph
  apart, and so does the rest behind the last boundary unless the number of lines is limited, which is then not exceeded. The hypotheses: glyphs stand from left to right, start at
  0 and within the width, at characters of the text other than a new line, and no run is empty.
\<close>

theorem wrap_boundaries_fit:
  fixes l :: "'u::linordered_field line_layout"
  defines "G \<equiv> all_glyphs l"
  assumes "\<forall>run \<in> set (ll_runs l). sr_glyphs run \<noteq> []" "sorted (map glyph_x G)" "G \<noteq> [] \<Longrightarrow> glyph_x (hd G) = 0"
    "\<forall>g \<in> set G. glyph_x g \<le> ll_width l \<and> (\<exists>ch. char_at s (sg_index g) = Some ch \<and> ch \<noteq> 0xA)" "0 \<le> wd"
  shows "\<exists>bs cs. compute_wrap_boundaries l s wd max_lines = Some bs \<and> map (boundary_glyph l) bs = map (\<lambda>c. Some (G ! c)) cs \<and>
    sorted_wrt (<) cs \<and> (\<forall>c \<in> set cs. 0 < c \<and> c < length G) \<and>
    (\<forall>(a, b) \<in> set (zip (0 # cs) cs). glyph_x (G ! (b - 1)) - glyph_x (G ! a) \<le> wd) \<and>
    (\<forall>n. max_lines = Some n \<longrightarrow> length bs \<le> n - 1) \<and>
    (max_lines = None \<and> G \<noteq> [] \<longrightarrow> glyph_x (last G) - glyph_x (G ! last (0 # cs)) \<le> wd)"
proof (cases "G = []")
  case True
  then have "map snd (run_boundaries 0 (ll_runs l)) = []" unfolding run_boundaries_snd G_def all_glyphs_def .
  then have "run_boundaries 0 (ll_runs l) = []" by simp
  then show ?thesis using True by (intro exI [of _ "[]"]) (simp add: compute_wrap_boundaries_def layout_wrap_start_def)
next
  case False
  let ?W = "run_boundaries 0 (ll_runs l)"
  have W: "map snd ?W = G" unfolding G_def all_glyphs_def by (rule run_boundaries_snd)
  then have len: "length ?W = length G" and nth: "\<And>i. i < length G \<Longrightarrow> snd (?W ! i) = G ! i" by (metis length_map, metis length_map nth_map)
  obtain run runs g gs where runs: "ll_runs l = run # runs" "sr_glyphs run = g # gs"
    using assms(2) False unfolding G_def all_glyphs_def by (cases "ll_runs l") (auto simp: neq_Nil_conv)
  have first: "fst (?W ! 0) = \<lparr>wb_run_ix = 0, wb_glyph_ix = 0\<rparr>" unfolding runs run_boundaries.simps by (simp add: runs(2))
  have x0: "nth_x ?W 0 = 0" using assms(4) False nth [of 0] by (simp add: hd_conv_nth)
  have inv: "wrap_loop_inv ?W wd 0 0 [] layout_wrap_start"
    using first x0 by (simp add: wrap_loop_inv_def lines_within_def layout_wrap_start_def)
  have mono: "nth_x ?W j \<le> nth_x ?W k" if "j \<le> k" "k < length ?W" for j k
    using sorted_nth_mono [OF assms(3) that(1)] that len nth by simp
  have order: "wb_less (fst (?W ! j)) (fst (?W ! k))" if "j < k" "k < length ?W" for j k
    using sorted_wrt_nth_less [OF run_boundaries_sorted [of 0 "ll_runs l"] that] .
  have glyph: "nth_x ?W j \<le> ll_width l" "\<exists>ch. char_at s (sg_index (snd (?W ! j))) = Some ch \<and> ch \<noteq> 0xA" if "j < length ?W" for j
    using assms(5) that len nth nth_mem [of j G] by auto
  obtain cs where cs: "compute_wrap_boundaries l s wd max_lines = Some (map (\<lambda>c. fst (?W ! c)) cs)" "lines_within ?W wd cs"
      "\<forall>n. max_lines = Some n \<longrightarrow> length cs \<le> n - 1"
      "max_lines = None \<and> ?W \<noteq> [] \<longrightarrow> nth_x ?W (length ?W - 1) - nth_x ?W (last (0 # cs)) \<le> wd"
    using layout_wrap_loop_ok [OF mono assms(6) glyph order inv, where max_lines = max_lines]
    by (auto simp: compute_wrap_boundaries_def simp del: last.simps)
  have inside: "c < length G" if "c \<in> set cs" for c using cs(2) that len by (auto simp: lines_within_def)
  have "boundary_glyph l (fst (?W ! c)) = Some (G ! c)" if "c \<in> set cs" for c
  proof -
    have "(fst (?W ! c), G ! c) \<in> set ?W" using inside [OF that] nth [of c] len nth_mem [of c ?W] by (metis prod.collapse)
    from run_boundaries_glyph [OF this] show ?thesis by (auto simp: boundary_glyph_def)
  qed
  moreover have "glyph_x (G ! (b - 1)) - glyph_x (G ! a) \<le> wd" if "(a, b) \<in> set (zip (0 # cs) cs)" for a b
  proof -
    have "a \<in> set (0 # cs)" "b \<in> set cs" using set_zip_leftD [OF that] set_zip_rightD [OF that] by auto
    then have "a < length G" "b - 1 < length G" using inside [of a] inside [of b] False by auto
    moreover have "nth_x ?W (b - 1) - nth_x ?W a \<le> wd" using cs(2) that by (auto simp: lines_within_def list_all_iff)
    ultimately show ?thesis using nth by simp
  qed
  moreover have "glyph_x (last G) - glyph_x (G ! last (0 # cs)) \<le> wd" if "max_lines = None"
  proof -
    have "last (0 # cs) < length G" using inside last_in_set [of cs] False by auto
    then show ?thesis using cs(4) that False len nth [of "length G - 1"] nth [of "last (0 # cs)"] by (auto simp: last_conv_nth)
  qed
  ultimately show ?thesis using cs(1-3) len
    by (intro exI [of _ "map (\<lambda>c. fst (?W ! c)) cs"] exI [of _ cs]) (auto simp: lines_within_def simp del: last.simps)
qed

theorem wrap_boundaries_fit_witness:
  "\<exists>bs. compute_wrap_boundaries (sample_layout 2 3) (ascii_text ''aa bb'') 3 (Some 2) = Some bs \<and> length bs \<le> 1"
proof -
  have "\<forall>run \<in> set (ll_runs (sample_layout 2 3)). sr_glyphs run \<noteq> []" "sorted (map glyph_x (all_glyphs (sample_layout 2 3)))"
      "glyph_x (hd (all_glyphs (sample_layout 2 3))) = 0"
    by code_simp+
  moreover have "\<forall>g \<in> set (all_glyphs (sample_layout 2 3)). glyph_x g \<le> ll_width (sample_layout 2 3) \<and>
      (case char_at (ascii_text ''aa bb'') (sg_index g) of Some ch \<Rightarrow> ch \<noteq> 0xA | None \<Rightarrow> False)"
    by code_simp
  then have "\<forall>g \<in> set (all_glyphs (sample_layout 2 3)). glyph_x g \<le> ll_width (sample_layout 2 3) \<and>
      (\<exists>ch. char_at (ascii_text ''aa bb'') (sg_index g) = Some ch \<and> ch \<noteq> 0xA)"
    by (auto split: option.splits)
  ultimately show ?thesis
    using wrap_boundaries_fit [of "sample_layout 2 3" "ascii_text ''aa bb''" 3 "Some 2"] by auto
qed

end
