(* ===== verification/LayoutCache.thy ===== *)
theory LayoutCache
  imports LineLayout
begin

text \<open>
  The cache of line layouts of two frames (\<^verbatim>\<open>LineLayoutCache\<close> in \<^verbatim>\<open>crates/gpui/src/text_system/line_layout.rs\<close>). A layout that is used in a frame is kept for
  the next; a change of the font database, which counts a generation, empties both frames. The shaper of the platform is the argument
  \<open>platform\<close>, a function of the generation of the fonts. Locks are left out: every operation holds them for its duration. A search by a key that
  compares all fields is a lookup of the key.
\<close>

section \<open>Keys and frames\<close>

record font_run =
  fr_len :: nat
  fr_font_id :: nat

record 'u cache_key =
  ck_text :: "uchar list"
  ck_font_size :: 'u
  ck_runs :: "font_run list"
  ck_wrap_width :: "'u option"
  ck_force_width :: "'u option"

record 'u hashed_cache_key =
  hk_text_hash :: nat
  hk_text_len :: nat
  hk_font_size :: 'u
  hk_runs :: "font_run list"
  hk_wrap_width :: "'u option"
  hk_force_width :: "'u option"

record 'u frame_cache =
  fc_lines :: "'u cache_key \<rightharpoonup> 'u line_layout"
  fc_wrapped_lines :: "'u cache_key \<rightharpoonup> 'u wrapped_line_layout"
  fc_used_lines :: "'u cache_key list"
  fc_used_wrapped_lines :: "'u cache_key list"
  fc_lines_by_hash :: "'u hashed_cache_key \<rightharpoonup> 'u line_layout"
  fc_wrapped_lines_by_hash :: "'u hashed_cache_key \<rightharpoonup> 'u wrapped_line_layout"
  fc_used_lines_by_hash :: "'u hashed_cache_key list"
  fc_used_wrapped_lines_by_hash :: "'u hashed_cache_key list"

definition frame_empty :: "'u frame_cache" where
  "frame_empty =
     \<lparr>fc_lines = Map.empty, fc_wrapped_lines = Map.empty, fc_used_lines = [], fc_used_wrapped_lines = [],
      fc_lines_by_hash = Map.empty, fc_wrapped_lines_by_hash = Map.empty, fc_used_lines_by_hash = [], fc_used_wrapped_lines_by_hash = []\<rparr>"

record 'u line_layout_cache =
  lc_previous_frame :: "'u frame_cache"
  lc_current_frame :: "'u frame_cache"
  lc_font_generation :: nat
  lc_cached_font_generation :: nat

record line_layout_index =
  li_font_generation :: nat
  li_lines_index :: nat
  li_wrapped_lines_index :: nat
  li_lines_by_hash_index :: nat
  li_wrapped_lines_by_hash_index :: nat

type_synonym 'u shaper = "nat \<Rightarrow> uchar list \<Rightarrow> 'u \<Rightarrow> font_run list \<Rightarrow> 'u line_layout"

section \<open>Operations\<close>

definition cache_new :: "nat \<Rightarrow> 'u line_layout_cache" where
  "cache_new font_generation =
     \<lparr>lc_previous_frame = frame_empty, lc_current_frame = frame_empty, lc_font_generation = font_generation,
      lc_cached_font_generation = font_generation\<rparr>"

definition clear_if_font_generation_changed :: "'u line_layout_cache \<Rightarrow> 'u line_layout_cache" where
  "clear_if_font_generation_changed c =
     (if lc_cached_font_generation c = lc_font_generation c then c
      else c\<lparr>lc_current_frame := frame_empty, lc_previous_frame := frame_empty, lc_cached_font_generation := lc_font_generation c\<rparr>)"

definition cache_layout_index :: "'u line_layout_cache \<Rightarrow> line_layout_index \<times> 'u line_layout_cache" where
  "cache_layout_index c =
     (let c = clear_if_font_generation_changed c; frame = lc_current_frame c
      in (\<lparr>li_font_generation = lc_font_generation c, li_lines_index = length (fc_used_lines frame),
           li_wrapped_lines_index = length (fc_used_wrapped_lines frame), li_lines_by_hash_index = length (fc_used_lines_by_hash frame),
           li_wrapped_lines_by_hash_index = length (fc_used_wrapped_lines_by_hash frame)\<rparr>, c))"

text \<open>One of the four loops of \<^verbatim>\<open>reuse_layouts\<close>: the maps of the previous and of the current frame, and the keys used in the current one.\<close>

fun reuse_keys :: "'k list \<Rightarrow> ('k \<rightharpoonup> 'v) \<Rightarrow> ('k \<rightharpoonup> 'v) \<Rightarrow> 'k list \<Rightarrow> ('k \<rightharpoonup> 'v) \<times> ('k \<rightharpoonup> 'v) \<times> 'k list" where
  "reuse_keys [] prev cur used = (prev, cur, used)"
| "reuse_keys (key # keys) prev cur used =
     (case prev key of
        Some line \<Rightarrow> reuse_keys keys (prev(key := None)) (cur(key \<mapsto> line)) (used @ [key])
      | None \<Rightarrow> reuse_keys keys prev cur (used @ [key]))"

definition reuse_layouts :: "'u line_layout_cache \<Rightarrow> line_layout_index \<Rightarrow> line_layout_index \<Rightarrow> 'u line_layout_cache option" where
  "reuse_layouts c start stop =
     (let c = clear_if_font_generation_changed c
      in if li_font_generation start \<noteq> lc_font_generation c \<or> li_font_generation stop \<noteq> lc_font_generation c then Some c
         else do {
           let prev = lc_previous_frame c;
           let cur = lc_current_frame c;
           keys \<leftarrow> slice_opt (fc_used_lines prev) (li_lines_index start, li_lines_index stop);
           let (prev_lines, lines, used_lines) = reuse_keys keys (fc_lines prev) (fc_lines cur) (fc_used_lines cur);
           keys \<leftarrow> slice_opt (fc_used_wrapped_lines prev) (li_wrapped_lines_index start, li_wrapped_lines_index stop);
           let (prev_wrapped, wrapped, used_wrapped) = reuse_keys keys (fc_wrapped_lines prev) (fc_wrapped_lines cur) (fc_used_wrapped_lines cur);
           keys \<leftarrow> slice_opt (fc_used_lines_by_hash prev) (li_lines_by_hash_index start, li_lines_by_hash_index stop);
           let (prev_hashed, hashed, used_hashed) = reuse_keys keys (fc_lines_by_hash prev) (fc_lines_by_hash cur) (fc_used_lines_by_hash cur);
           keys \<leftarrow> slice_opt (fc_used_wrapped_lines_by_hash prev) (li_wrapped_lines_by_hash_index start, li_wrapped_lines_by_hash_index stop);
           let (prev_wrapped_hashed, wrapped_hashed, used_wrapped_hashed) =
             reuse_keys keys (fc_wrapped_lines_by_hash prev) (fc_wrapped_lines_by_hash cur) (fc_used_wrapped_lines_by_hash cur);
           Some (c\<lparr>lc_previous_frame := prev\<lparr>fc_lines := prev_lines, fc_wrapped_lines := prev_wrapped, fc_lines_by_hash := prev_hashed,
                     fc_wrapped_lines_by_hash := prev_wrapped_hashed\<rparr>,
                   lc_current_frame := \<lparr>fc_lines = lines, fc_wrapped_lines = wrapped, fc_used_lines = used_lines,
                     fc_used_wrapped_lines = used_wrapped, fc_lines_by_hash = hashed, fc_wrapped_lines_by_hash = wrapped_hashed,
                     fc_used_lines_by_hash = used_hashed, fc_used_wrapped_lines_by_hash = used_wrapped_hashed\<rparr>\<rparr>) })"

definition truncate_layouts :: "'u line_layout_cache \<Rightarrow> line_layout_index \<Rightarrow> 'u line_layout_cache" where
  "truncate_layouts c index =
     (let c = clear_if_font_generation_changed c
      in if li_font_generation index \<noteq> lc_font_generation c then c
         else
           let cur = lc_current_frame c
           in c\<lparr>lc_current_frame := cur\<lparr>fc_used_lines := take (li_lines_index index) (fc_used_lines cur),
                  fc_used_wrapped_lines := take (li_wrapped_lines_index index) (fc_used_wrapped_lines cur),
                  fc_used_lines_by_hash := take (li_lines_by_hash_index index) (fc_used_lines_by_hash cur),
                  fc_used_wrapped_lines_by_hash := take (li_wrapped_lines_by_hash_index index) (fc_used_wrapped_lines_by_hash cur)\<rparr>\<rparr>)"

definition cache_finish_frame :: "'u line_layout_cache \<Rightarrow> 'u line_layout_cache" where
  "cache_finish_frame c =
     (let c = clear_if_font_generation_changed c
      in c\<lparr>lc_previous_frame := lc_current_frame c, lc_current_frame := frame_empty\<rparr>)"

text \<open>What a miss computes.\<close>

definition shape_line :: "'u::linordered_field shaper \<Rightarrow> nat \<Rightarrow> uchar list \<Rightarrow> 'u \<Rightarrow> font_run list \<Rightarrow> 'u option \<Rightarrow> 'u line_layout" where
  "shape_line platform font_generation s font_size runs force_width =
     (let l = platform font_generation s font_size runs
      in case force_width of Some width \<Rightarrow> apply_force_width_to_layout l width | None \<Rightarrow> l)"

definition cache_layout_line ::
  "'u::linordered_field shaper \<Rightarrow> 'u line_layout_cache \<Rightarrow> uchar list \<Rightarrow> 'u \<Rightarrow> font_run list \<Rightarrow> 'u option \<Rightarrow>
   'u line_layout \<times> 'u line_layout_cache" where
  "cache_layout_line platform c s font_size runs force_width =
     (let c = clear_if_font_generation_changed c;
          key = \<lparr>ck_text = s, ck_font_size = font_size, ck_runs = runs, ck_wrap_width = None, ck_force_width = force_width\<rparr>;
          cur = lc_current_frame c; prev = lc_previous_frame c
      in case fc_lines cur key of
           Some l \<Rightarrow> (l, c)
         | None \<Rightarrow>
             (case fc_lines prev key of
                Some l \<Rightarrow>
                  (l, c\<lparr>lc_previous_frame := prev\<lparr>fc_lines := (fc_lines prev)(key := None)\<rparr>,
                        lc_current_frame := cur\<lparr>fc_lines := (fc_lines cur)(key \<mapsto> l), fc_used_lines := fc_used_lines cur @ [key]\<rparr>\<rparr>)
              | None \<Rightarrow>
                  let l = shape_line platform (lc_font_generation c) s font_size runs force_width
                  in (l, c\<lparr>lc_current_frame := cur\<lparr>fc_lines := (fc_lines cur)(key \<mapsto> l), fc_used_lines := fc_used_lines cur @ [key]\<rparr>\<rparr>)))"

definition cache_layout_wrapped_line ::
  "'u::linordered_field shaper \<Rightarrow> 'u line_layout_cache \<Rightarrow> uchar list \<Rightarrow> 'u \<Rightarrow> font_run list \<Rightarrow> 'u option \<Rightarrow> nat option \<Rightarrow>
   ('u wrapped_line_layout \<times> 'u line_layout_cache) option" where
  "cache_layout_wrapped_line platform c s font_size runs wrap_width max_lines =
     (let c = clear_if_font_generation_changed c;
          key = \<lparr>ck_text = s, ck_font_size = font_size, ck_runs = runs, ck_wrap_width = wrap_width, ck_force_width = None\<rparr>;
          cur = lc_current_frame c; prev = lc_previous_frame c
      in case fc_wrapped_lines cur key of
           Some w \<Rightarrow> Some (w, c)
         | None \<Rightarrow>
             (case fc_wrapped_lines prev key of
                Some w \<Rightarrow>
                  Some (w, c\<lparr>lc_previous_frame := prev\<lparr>fc_wrapped_lines := (fc_wrapped_lines prev)(key := None)\<rparr>,
                             lc_current_frame := cur\<lparr>fc_wrapped_lines := (fc_wrapped_lines cur)(key \<mapsto> w),
                               fc_used_wrapped_lines := fc_used_wrapped_lines cur @ [key]\<rparr>\<rparr>)
              | None \<Rightarrow> do {
                  let (unwrapped_layout, c) = cache_layout_line platform c s font_size runs None;
                  wrap_boundaries \<leftarrow>
                    (case wrap_width of
                       Some wrap_width \<Rightarrow> compute_wrap_boundaries unwrapped_layout s wrap_width max_lines
                     | None \<Rightarrow> Some []);
                  let w = \<lparr>wl_unwrapped_layout = unwrapped_layout, wl_wrap_boundaries = wrap_boundaries, wl_wrap_width = wrap_width\<rparr>;
                  let cur = lc_current_frame c;
                  Some (w, c\<lparr>lc_current_frame := cur\<lparr>fc_wrapped_lines := (fc_wrapped_lines cur)(key \<mapsto> w),
                             fc_used_wrapped_lines := fc_used_wrapped_lines cur @ [key]\<rparr>\<rparr>) }))"

definition try_layout_line_by_hash ::
  "'u line_layout_cache \<Rightarrow> nat \<Rightarrow> nat \<Rightarrow> 'u \<Rightarrow> font_run list \<Rightarrow> 'u option \<Rightarrow> 'u line_layout option \<times> 'u line_layout_cache" where
  "try_layout_line_by_hash c text_hash text_len font_size runs force_width =
     (let c = clear_if_font_generation_changed c;
          key = \<lparr>hk_text_hash = text_hash, hk_text_len = text_len, hk_font_size = font_size, hk_runs = runs, hk_wrap_width = None,
            hk_force_width = force_width\<rparr>
      in (case fc_lines_by_hash (lc_current_frame c) key of
            Some l \<Rightarrow> Some l
          | None \<Rightarrow> fc_lines_by_hash (lc_previous_frame c) key, c))"

text \<open>The text is made on a miss only; it is an argument here.\<close>

definition layout_line_by_hash ::
  "'u::linordered_field shaper \<Rightarrow> 'u line_layout_cache \<Rightarrow> nat \<Rightarrow> nat \<Rightarrow> 'u \<Rightarrow> font_run list \<Rightarrow> 'u option \<Rightarrow> uchar list \<Rightarrow>
   'u line_layout \<times> 'u line_layout_cache" where
  "layout_line_by_hash platform c text_hash text_len font_size runs force_width s =
     (let c = clear_if_font_generation_changed c;
          key = \<lparr>hk_text_hash = text_hash, hk_text_len = text_len, hk_font_size = font_size, hk_runs = runs, hk_wrap_width = None,
            hk_force_width = force_width\<rparr>;
          cur = lc_current_frame c; prev = lc_previous_frame c;
          enter = (\<lambda>l. cur\<lparr>fc_lines_by_hash := (fc_lines_by_hash cur)(key \<mapsto> l), fc_used_lines_by_hash := fc_used_lines_by_hash cur @ [key]\<rparr>)
      in case fc_lines_by_hash cur key of
           Some l \<Rightarrow> (l, c)
         | None \<Rightarrow>
             (case (if key \<in> set (fc_used_lines_by_hash prev) then fc_lines_by_hash prev key else None) of
                Some l \<Rightarrow>
                  (l, c\<lparr>lc_previous_frame := prev\<lparr>fc_lines_by_hash := (fc_lines_by_hash prev)(key := None)\<rparr>, lc_current_frame := enter l\<rparr>)
              | None \<Rightarrow>
                  let l = shape_line platform (lc_font_generation c) s font_size runs force_width
                  in (l, c\<lparr>lc_current_frame := enter l\<rparr>)))"

text \<open>\<^verbatim>\<open>TextSystem::add_fonts\<close> counts a generation.\<close>

definition fonts_added :: "'u line_layout_cache \<Rightarrow> 'u line_layout_cache" where
  "fonts_added c = c\<lparr>lc_font_generation := lc_font_generation c + 1\<rparr>"

section \<open>A map kept over two frames\<close>

text \<open>
  The invariant of one of the maps with its list of used keys: entries are good, the keys used in the current frame have entries, and
  those used in the previous frame have one in either frame.
\<close>

definition pair_ok :: "('k \<Rightarrow> 'v \<Rightarrow> bool) \<Rightarrow> ('k \<rightharpoonup> 'v) \<Rightarrow> ('k \<rightharpoonup> 'v) \<Rightarrow> 'k list \<Rightarrow> 'k list \<Rightarrow> bool" where
  "pair_ok good prev cur used_prev used \<longleftrightarrow>
     (\<forall>k v. prev k = Some v \<or> cur k = Some v \<longrightarrow> good k v) \<and> set used \<subseteq> dom cur \<and> set used_prev \<subseteq> dom prev \<union> dom cur"

lemma pair_ok_start [simp]: "pair_ok good Map.empty Map.empty [] []"
  by (simp add: pair_ok_def)

lemma pair_ok_good: "pair_ok good prev cur used_prev used \<Longrightarrow> prev k = Some v \<or> cur k = Some v \<Longrightarrow> good k v"
  by (auto simp: pair_ok_def)

lemma pair_ok_move:
  "pair_ok good prev cur used_prev used \<Longrightarrow> prev k = Some v \<Longrightarrow> pair_ok good (prev(k := None)) (cur(k \<mapsto> v)) used_prev (used @ [k])"
  by (auto simp: pair_ok_def split: if_splits)

lemma pair_ok_enter: "pair_ok good prev cur used_prev used \<Longrightarrow> good k v \<Longrightarrow> pair_ok good prev (cur(k \<mapsto> v)) used_prev (used @ [k])"
  by (auto simp: pair_ok_def split: if_splits)

lemma pair_ok_truncate: "pair_ok good prev cur used_prev used \<Longrightarrow> pair_ok good prev cur used_prev (take n used)"
  by (auto simp: pair_ok_def dest: in_set_takeD)

lemma pair_ok_finish: "pair_ok good prev cur used_prev used \<Longrightarrow> pair_ok good cur Map.empty used []"
  by (auto simp: pair_ok_def)

lemma pair_ok_reuse:
  assumes "pair_ok good prev cur used_prev used" "set keys \<subseteq> set used_prev" "reuse_keys keys prev cur used = (prev', cur', used')"
  shows "pair_ok good prev' cur' used_prev used' \<and> set keys \<subseteq> dom cur' \<and> dom cur \<subseteq> dom cur'"
  using assms
proof (induction keys prev cur used rule: reuse_keys.induct)
  case (2 key keys prev cur used)
  show ?case
  proof (cases "prev key")
    case None
    then have "key \<in> dom cur" using "2.prems"(1,2) by (auto simp: pair_ok_def)
    then have "pair_ok good prev cur used_prev (used @ [key])" using "2.prems"(1) by (auto simp: pair_ok_def)
    then show ?thesis using "2.IH"(1) [OF None] "2.prems" None \<open>key \<in> dom cur\<close> by auto
  next
    case (Some v)
    then have run: "reuse_keys keys (prev(key := None)) (cur(key \<mapsto> v)) (used @ [key]) = (prev', cur', used')" using "2.prems"(3) by simp
    have keys: "set keys \<subseteq> set used_prev" using "2.prems"(2) by simp
    have step: "pair_ok good prev' cur' used_prev used' \<and> set keys \<subseteq> dom cur' \<and> dom (cur(key \<mapsto> v)) \<subseteq> dom cur'"
      using "2.IH"(2) [OF Some pair_ok_move [OF "2.prems"(1) Some] keys run] .
    have "dom (cur(key \<mapsto> v)) = insert key (dom cur)" by auto
    with step show ?thesis by (simp only: insert_subset list.set)
  qed
qed simp

section \<open>The invariant\<close>

text \<open>
  What the entries have to be, for the generation of the fonts that the cache represents. \<open>text_of\<close> is the text that a caller means by a
  hash and a length, \<open>limit\<close> the number of lines it asks for with a key.
\<close>

definition line_good :: "'u::linordered_field shaper \<Rightarrow> nat \<Rightarrow> 'u cache_key \<Rightarrow> 'u line_layout \<Rightarrow> bool" where
  "line_good platform gen k l \<longleftrightarrow>
     ck_wrap_width k = None \<and> l = shape_line platform gen (ck_text k) (ck_font_size k) (ck_runs k) (ck_force_width k)"

definition wrap_line_layout ::
  "'u::linordered_field shaper \<Rightarrow> nat \<Rightarrow> uchar list \<Rightarrow> 'u \<Rightarrow> font_run list \<Rightarrow> 'u option \<Rightarrow> nat option \<Rightarrow> 'u wrapped_line_layout option" where
  "wrap_line_layout platform gen s font_size runs wrap_width max_lines = do {
     let l = shape_line platform gen s font_size runs None;
     bs \<leftarrow> (case wrap_width of Some width \<Rightarrow> compute_wrap_boundaries l s width max_lines | None \<Rightarrow> Some []);
     Some \<lparr>wl_unwrapped_layout = l, wl_wrap_boundaries = bs, wl_wrap_width = wrap_width\<rparr> }"

definition wrapped_good ::
  "'u::linordered_field shaper \<Rightarrow> ('u cache_key \<Rightarrow> nat option) \<Rightarrow> nat \<Rightarrow> 'u cache_key \<Rightarrow> 'u wrapped_line_layout \<Rightarrow> bool" where
  "wrapped_good platform limit gen k w \<longleftrightarrow>
     ck_force_width k = None \<and> wrap_line_layout platform gen (ck_text k) (ck_font_size k) (ck_runs k) (ck_wrap_width k) (limit k) = Some w"

definition hashed_good :: "'u::linordered_field shaper \<Rightarrow> (nat \<Rightarrow> nat \<Rightarrow> uchar list) \<Rightarrow> nat \<Rightarrow> 'u hashed_cache_key \<Rightarrow> 'u line_layout \<Rightarrow> bool" where
  "hashed_good platform text_of gen k l \<longleftrightarrow>
     l = shape_line platform gen (text_of (hk_text_hash k) (hk_text_len k)) (hk_font_size k) (hk_runs k) (hk_force_width k)"

definition cache_inv ::
  "'u::linordered_field shaper \<Rightarrow> ('u cache_key \<Rightarrow> nat option) \<Rightarrow> (nat \<Rightarrow> nat \<Rightarrow> uchar list) \<Rightarrow> 'u line_layout_cache \<Rightarrow> bool" where
  "cache_inv platform limit text_of c \<longleftrightarrow>
     (let gen = lc_cached_font_generation c; prev = lc_previous_frame c; cur = lc_current_frame c
      in pair_ok (line_good platform gen) (fc_lines prev) (fc_lines cur) (fc_used_lines prev) (fc_used_lines cur) \<and>
         pair_ok (wrapped_good platform limit gen) (fc_wrapped_lines prev) (fc_wrapped_lines cur) (fc_used_wrapped_lines prev)
           (fc_used_wrapped_lines cur) \<and>
         pair_ok (hashed_good platform text_of gen) (fc_lines_by_hash prev) (fc_lines_by_hash cur) (fc_used_lines_by_hash prev)
           (fc_used_lines_by_hash cur) \<and>
         pair_ok (\<lambda>_ _. False) (fc_wrapped_lines_by_hash prev) (fc_wrapped_lines_by_hash cur) (fc_used_wrapped_lines_by_hash prev)
           (fc_used_wrapped_lines_by_hash cur))"

text \<open>What a program does with a cache: the same key always with the same limit, the same hash and length with the same text.\<close>

inductive cache_reachable ::
  "'u::linordered_field shaper \<Rightarrow> ('u cache_key \<Rightarrow> nat option) \<Rightarrow> (nat \<Rightarrow> nat \<Rightarrow> uchar list) \<Rightarrow> 'u line_layout_cache \<Rightarrow> bool"
  for platform limit text_of where
  created: "cache_reachable platform limit text_of (cache_new gen)"
| fonts: "cache_reachable platform limit text_of c \<Longrightarrow> cache_reachable platform limit text_of (fonts_added c)"
| indexed: "cache_reachable platform limit text_of c \<Longrightarrow> cache_reachable platform limit text_of (snd (cache_layout_index c))"
| reused: "cache_reachable platform limit text_of c \<Longrightarrow> reuse_layouts c start stop = Some c' \<Longrightarrow> cache_reachable platform limit text_of c'"
| truncated: "cache_reachable platform limit text_of c \<Longrightarrow> cache_reachable platform limit text_of (truncate_layouts c index)"
| finished: "cache_reachable platform limit text_of c \<Longrightarrow> cache_reachable platform limit text_of (cache_finish_frame c)"
| line: "cache_reachable platform limit text_of c \<Longrightarrow>
    cache_reachable platform limit text_of (snd (cache_layout_line platform c s font_size runs force_width))"
| wrapped: "cache_reachable platform limit text_of c \<Longrightarrow>
    key = \<lparr>ck_text = s, ck_font_size = font_size, ck_runs = runs, ck_wrap_width = wrap_width, ck_force_width = None\<rparr> \<Longrightarrow>
    cache_layout_wrapped_line platform c s font_size runs wrap_width (limit key) = Some (w, c') \<Longrightarrow> cache_reachable platform limit text_of c'"
| tried: "cache_reachable platform limit text_of c \<Longrightarrow>
    cache_reachable platform limit text_of (snd (try_layout_line_by_hash c text_hash text_len font_size runs force_width))"
| hashed: "cache_reachable platform limit text_of c \<Longrightarrow>
    cache_reachable platform limit text_of
      (snd (layout_line_by_hash platform c text_hash text_len font_size runs force_width (text_of text_hash text_len)))"

lemma clear_inv:
  assumes "cache_inv platform limit text_of c"
  shows "cache_inv platform limit text_of (clear_if_font_generation_changed c)"
    "lc_cached_font_generation (clear_if_font_generation_changed c) = lc_font_generation c"
    "lc_font_generation (clear_if_font_generation_changed c) = lc_font_generation c"
  using assms
  by (cases "lc_cached_font_generation c = lc_font_generation c",
      simp_all add: clear_if_font_generation_changed_def, simp add: cache_inv_def frame_empty_def)

lemma clear_idem [simp]: "clear_if_font_generation_changed (clear_if_font_generation_changed c) = clear_if_font_generation_changed c"
  by (simp add: clear_if_font_generation_changed_def)

lemma cache_line_ok:
  assumes "cache_inv platform limit text_of c"
  shows "fst (cache_layout_line platform c s font_size runs force_width) = shape_line platform (lc_font_generation c) s font_size runs force_width"
    "cache_inv platform limit text_of (snd (cache_layout_line platform c s font_size runs force_width))"
    "clear_if_font_generation_changed (snd (cache_layout_line platform c s font_size runs force_width)) =
       snd (cache_layout_line platform c s font_size runs force_width)"
    "lc_font_generation (snd (cache_layout_line platform c s font_size runs force_width)) = lc_font_generation c"
    "fc_wrapped_lines (lc_current_frame (snd (cache_layout_line platform c s font_size runs force_width))) =
       fc_wrapped_lines (lc_current_frame (clear_if_font_generation_changed c))"
proof -
  let ?c = "clear_if_font_generation_changed c"
  let ?key = "\<lparr>ck_text = s, ck_font_size = font_size, ck_runs = runs, ck_wrap_width = None, ck_force_width = force_width\<rparr>"
  note c = clear_inv [OF assms]
  have pair: "pair_ok (line_good platform (lc_font_generation c)) (fc_lines (lc_previous_frame ?c)) (fc_lines (lc_current_frame ?c))
      (fc_used_lines (lc_previous_frame ?c)) (fc_used_lines (lc_current_frame ?c))"
    using c by (simp add: cache_inv_def Let_def)
  have good: "line_good platform (lc_font_generation c) ?key l \<longleftrightarrow> l = shape_line platform (lc_font_generation c) s font_size runs force_width" for l
    by (simp add: line_good_def)
  note rules = pair_ok_good [OF pair, of ?key] pair_ok_move [OF pair, of ?key] pair_ok_enter [OF pair, of ?key]
  show "fst (cache_layout_line platform c s font_size runs force_width) = shape_line platform (lc_font_generation c) s font_size runs force_width"
    using rules(1) c(3) by (auto simp: cache_layout_line_def Let_def good split: option.splits)
  show "cache_inv platform limit text_of (snd (cache_layout_line platform c s font_size runs force_width))"
    using c rules(2,3) by (auto simp: cache_layout_line_def Let_def cache_inv_def good split: option.splits)
  show "clear_if_font_generation_changed (snd (cache_layout_line platform c s font_size runs force_width)) =
       snd (cache_layout_line platform c s font_size runs force_width)"
    using c(2,3) by (auto simp: cache_layout_line_def clear_if_font_generation_changed_def Let_def split: option.splits)
  show "lc_font_generation (snd (cache_layout_line platform c s font_size runs force_width)) = lc_font_generation c"
    "fc_wrapped_lines (lc_current_frame (snd (cache_layout_line platform c s font_size runs force_width))) = fc_wrapped_lines (lc_current_frame ?c)"
    using c(3) by (auto simp: cache_layout_line_def Let_def split: option.splits)
qed

text \<open>The three ways to a wrapped line: a hit in the current frame, a hit in the previous one, and a miss, which lays out the line first.\<close>

abbreviation enter_wrapped ::
  "'u line_layout_cache \<Rightarrow> 'u cache_key \<Rightarrow> 'u wrapped_line_layout \<Rightarrow> 'u line_layout_cache" where
  "enter_wrapped c key w \<equiv>
     c\<lparr>lc_current_frame := (lc_current_frame c)\<lparr>fc_wrapped_lines := (fc_wrapped_lines (lc_current_frame c))(key \<mapsto> w),
       fc_used_wrapped_lines := fc_used_wrapped_lines (lc_current_frame c) @ [key]\<rparr>\<rparr>"

lemma cache_wrapped_run:
  fixes platform :: "'u::linordered_field shaper" and max_lines :: "nat option"
  assumes "cache_inv platform limit text_of c"
    "key = \<lparr>ck_text = s, ck_font_size = font_size, ck_runs = runs, ck_wrap_width = wrap_width, ck_force_width = None\<rparr>"
  defines "d \<equiv> clear_if_font_generation_changed c"
  defines "run \<equiv> cache_layout_wrapped_line platform c s font_size runs wrap_width max_lines"
  shows "fc_wrapped_lines (lc_current_frame d) key = Some w \<Longrightarrow> run = Some (w, d)"
    "fc_wrapped_lines (lc_current_frame d) key = None \<Longrightarrow> fc_wrapped_lines (lc_previous_frame d) key = Some w \<Longrightarrow>
      run = Some (w, enter_wrapped (d\<lparr>lc_previous_frame := (lc_previous_frame d)
        \<lparr>fc_wrapped_lines := (fc_wrapped_lines (lc_previous_frame d))(key := None)\<rparr>\<rparr>) key w)"
    "fc_wrapped_lines (lc_current_frame d) key = None \<Longrightarrow> fc_wrapped_lines (lc_previous_frame d) key = None \<Longrightarrow>
      run = map_option (\<lambda>w. (w, enter_wrapped (snd (cache_layout_line platform d s font_size runs None)) key w))
        (wrap_line_layout platform (lc_font_generation c) s font_size runs wrap_width max_lines)"
proof -
  note c = clear_inv [OF assms(1), folded d_def]
  have l: "cache_layout_line platform d s font_size runs None =
      (shape_line platform (lc_font_generation c) s font_size runs None, snd (cache_layout_line platform d s font_size runs None))"
    using cache_line_ok(1) [OF c(1), of s font_size runs None] c(3) by (metis prod.collapse)
  show "fc_wrapped_lines (lc_current_frame d) key = Some w \<Longrightarrow> run = Some (w, d)"
    "fc_wrapped_lines (lc_current_frame d) key = None \<Longrightarrow> fc_wrapped_lines (lc_previous_frame d) key = Some w \<Longrightarrow>
      run = Some (w, enter_wrapped (d\<lparr>lc_previous_frame := (lc_previous_frame d)
        \<lparr>fc_wrapped_lines := (fc_wrapped_lines (lc_previous_frame d))(key := None)\<rparr>\<rparr>) key w)"
    unfolding run_def cache_layout_wrapped_line_def Let_def d_def [symmetric] assms(2) [symmetric] by simp_all
  assume miss: "fc_wrapped_lines (lc_current_frame d) key = None" "fc_wrapped_lines (lc_previous_frame d) key = None"
  show "run = map_option (\<lambda>w. (w, enter_wrapped (snd (cache_layout_line platform d s font_size runs None)) key w))
      (wrap_line_layout platform (lc_font_generation c) s font_size runs wrap_width max_lines)"
    unfolding run_def cache_layout_wrapped_line_def wrap_line_layout_def Let_def d_def [symmetric] assms(2) [symmetric]
    by (subst l) (simp add: miss map_conv_bind_option)
qed

lemma cache_wrapped_ok:
  assumes "cache_inv platform limit text_of c"
    "key = \<lparr>ck_text = s, ck_font_size = font_size, ck_runs = runs, ck_wrap_width = wrap_width, ck_force_width = None\<rparr>"
  shows "map_option fst (cache_layout_wrapped_line platform c s font_size runs wrap_width (limit key)) =
      wrap_line_layout platform (lc_font_generation c) s font_size runs wrap_width (limit key)"
    "cache_layout_wrapped_line platform c s font_size runs wrap_width (limit key) = Some (w, c') \<Longrightarrow> cache_inv platform limit text_of c'"
proof -
  let ?c = "clear_if_font_generation_changed c" and ?d = "snd (cache_layout_line platform (clear_if_font_generation_changed c) s font_size runs None)"
  let ?w = "wrap_line_layout platform (lc_font_generation c) s font_size runs wrap_width (limit key)"
  note c = clear_inv [OF assms(1)]
  note d = cache_line_ok [OF c(1), of s font_size runs None, unfolded c(3)]
  note run = cache_wrapped_run [OF assms, where max_lines = "limit key"]
  have pair: "pair_ok (wrapped_good platform limit (lc_font_generation c)) (fc_wrapped_lines (lc_previous_frame ?c))
      (fc_wrapped_lines (lc_current_frame ?c)) (fc_used_wrapped_lines (lc_previous_frame ?c)) (fc_used_wrapped_lines (lc_current_frame ?c))"
    using c by (simp add: cache_inv_def Let_def)
  have gen: "lc_cached_font_generation ?d = lc_font_generation c" using clear_inv(2) [OF d(2)] d(3,4) by simp
  have good: "wrapped_good platform limit (lc_font_generation c) key w \<longleftrightarrow> ?w = Some w" for w by (simp add: wrapped_good_def assms(2))
  note known = pair_ok_good [OF pair, of key, unfolded good]
  have "map_option fst (cache_layout_wrapped_line platform c s font_size runs wrap_width (limit key)) = ?w \<and>
      (cache_layout_wrapped_line platform c s font_size runs wrap_width (limit key) = Some (w, c') \<longrightarrow> cache_inv platform limit text_of c')"
  proof (cases "fc_wrapped_lines (lc_current_frame ?c) key")
    case (Some v)
    then show ?thesis using run(1) known [of v] c(1) by auto
  next
    case missing: None
    show ?thesis
    proof (cases "fc_wrapped_lines (lc_previous_frame ?c) key")
      case (Some v)
      have "cache_inv platform limit text_of (enter_wrapped (?c\<lparr>lc_previous_frame := (lc_previous_frame ?c)
          \<lparr>fc_wrapped_lines := (fc_wrapped_lines (lc_previous_frame ?c))(key := None)\<rparr>\<rparr>) key v)"
        using c(1,2) pair_ok_move [OF pair Some] by (simp add: cache_inv_def Let_def)
      then show ?thesis using run(2) [OF missing Some] known [of v] Some by auto
    next
      case None
      have "cache_inv platform limit text_of (enter_wrapped ?d key v)" if "?w = Some v" for v
        using d(2) gen pair_ok_enter [of "wrapped_good platform limit (lc_font_generation c)" _ _ _ _ key v] that good
        by (simp add: cache_inv_def Let_def)
      then show ?thesis using run(3) [OF missing None] by (cases ?w) auto
    qed
  qed
  then show "map_option fst (cache_layout_wrapped_line platform c s font_size runs wrap_width (limit key)) = ?w"
    "cache_layout_wrapped_line platform c s font_size runs wrap_width (limit key) = Some (w, c') \<Longrightarrow> cache_inv platform limit text_of c'"
    by blast+
qed

lemma cache_hashed_ok:
  fixes font_size :: "'u::linordered_field" and text_hash text_len :: nat and runs :: "font_run list" and force_width :: "'u option"
  assumes "cache_inv platform limit text_of c"
  defines "run \<equiv> layout_line_by_hash platform c text_hash text_len font_size runs force_width (text_of text_hash text_len)"
    and "answer \<equiv> shape_line platform (lc_font_generation c) (text_of text_hash text_len) font_size runs force_width"
  shows "fst run = answer" "cache_inv platform limit text_of (snd run)"
    "fst (try_layout_line_by_hash c text_hash text_len font_size runs force_width) \<in> {None, Some answer}"
    "cache_inv platform limit text_of (snd (try_layout_line_by_hash c text_hash text_len font_size runs force_width))"
proof -
  let ?c = "clear_if_font_generation_changed c"
  let ?key = "\<lparr>hk_text_hash = text_hash, hk_text_len = text_len, hk_font_size = font_size, hk_runs = runs, hk_wrap_width = None,
    hk_force_width = force_width\<rparr>"
  note c = clear_inv [OF assms(1)]
  have pair: "pair_ok (hashed_good platform text_of (lc_font_generation c)) (fc_lines_by_hash (lc_previous_frame ?c))
      (fc_lines_by_hash (lc_current_frame ?c)) (fc_used_lines_by_hash (lc_previous_frame ?c)) (fc_used_lines_by_hash (lc_current_frame ?c))"
    using c by (simp add: cache_inv_def Let_def)
  have good: "hashed_good platform text_of (lc_font_generation c) ?key l \<longleftrightarrow> l = answer" for l by (simp add: hashed_good_def answer_def)
  note rules = pair_ok_good [OF pair, of ?key, unfolded good] pair_ok_move [OF pair, of ?key] pair_ok_enter [OF pair, of ?key, unfolded good]
  show "fst run = answer"
    using rules(1) c(3) by (auto simp: run_def layout_line_by_hash_def Let_def answer_def split: option.splits if_splits)
  show "cache_inv platform limit text_of (snd run)"
    using c rules(2,3) by (auto simp: run_def layout_line_by_hash_def Let_def cache_inv_def answer_def split: option.splits if_splits)
  show "fst (try_layout_line_by_hash c text_hash text_len font_size runs force_width) \<in> {None, Some answer}"
    using rules(1) by (cases "fc_lines_by_hash (lc_previous_frame ?c) ?key") (auto simp: try_layout_line_by_hash_def Let_def split: option.split)
  show "cache_inv platform limit text_of (snd (try_layout_line_by_hash c text_hash text_len font_size runs force_width))"
    using c(1) by (simp add: try_layout_line_by_hash_def Let_def)
qed

lemma slice_opt_set: "slice_opt xs rng = Some ys \<Longrightarrow> set ys \<subseteq> set xs"
  by (auto simp: slice_opt_def split: if_splits dest: in_set_takeD in_set_dropD)

lemma reuse_layouts_ok:
  assumes "cache_inv platform limit text_of c" "reuse_layouts c start stop = Some c'"
  defines "d \<equiv> clear_if_font_generation_changed c"
  shows "cache_inv platform limit text_of c'" "lc_font_generation c' = lc_font_generation c"
    "lc_cached_font_generation c' = lc_font_generation c"
    "\<And>keys. li_font_generation start = lc_font_generation c \<Longrightarrow> li_font_generation stop = lc_font_generation c \<Longrightarrow>
      slice_opt (fc_used_lines (lc_previous_frame d)) (li_lines_index start, li_lines_index stop) = Some keys \<Longrightarrow>
      set keys \<subseteq> dom (fc_lines (lc_current_frame c'))"
    "\<And>keys. li_font_generation start = lc_font_generation c \<Longrightarrow> li_font_generation stop = lc_font_generation c \<Longrightarrow>
      slice_opt (fc_used_wrapped_lines (lc_previous_frame d)) (li_wrapped_lines_index start, li_wrapped_lines_index stop) = Some keys \<Longrightarrow>
      set keys \<subseteq> dom (fc_wrapped_lines (lc_current_frame c'))"
proof -
  note c = clear_inv [OF assms(1), folded d_def]
  let ?p = "lc_previous_frame d" and ?q = "lc_current_frame d"
  have all: "cache_inv platform limit text_of c' \<and> lc_font_generation c' = lc_font_generation c \<and> lc_cached_font_generation c' = lc_font_generation c \<and>
      (li_font_generation start = lc_font_generation c \<and> li_font_generation stop = lc_font_generation c \<longrightarrow>
        (\<forall>keys. slice_opt (fc_used_lines ?p) (li_lines_index start, li_lines_index stop) = Some keys \<longrightarrow>
          set keys \<subseteq> dom (fc_lines (lc_current_frame c'))) \<and>
        (\<forall>keys. slice_opt (fc_used_wrapped_lines ?p) (li_wrapped_lines_index start, li_wrapped_lines_index stop) = Some keys \<longrightarrow>
          set keys \<subseteq> dom (fc_wrapped_lines (lc_current_frame c'))))"
  proof (cases "li_font_generation start = lc_font_generation c \<and> li_font_generation stop = lc_font_generation c")
    case False
    then have "c' = d" using assms(2) c(3) by (auto simp: reuse_layouts_def Let_def d_def)
    then show ?thesis using False c by auto
  next
    case True
    obtain k1 k2 k3 k4 where k: "slice_opt (fc_used_lines ?p) (li_lines_index start, li_lines_index stop) = Some k1"
        "slice_opt (fc_used_wrapped_lines ?p) (li_wrapped_lines_index start, li_wrapped_lines_index stop) = Some k2"
        "slice_opt (fc_used_lines_by_hash ?p) (li_lines_by_hash_index start, li_lines_by_hash_index stop) = Some k3"
        "slice_opt (fc_used_wrapped_lines_by_hash ?p) (li_wrapped_lines_by_hash_index start, li_wrapped_lines_by_hash_index stop) = Some k4"
      using assms(2) True c(3)
      by (auto simp: reuse_layouts_def Let_def d_def bind_eq_Some_conv case_prod_beta)
    obtain p1 q1 u1 p2 q2 u2 p3 q3 u3 p4 q4 u4 where r:
        "reuse_keys k1 (fc_lines ?p) (fc_lines ?q) (fc_used_lines ?q) = (p1, q1, u1)"
        "reuse_keys k2 (fc_wrapped_lines ?p) (fc_wrapped_lines ?q) (fc_used_wrapped_lines ?q) = (p2, q2, u2)"
        "reuse_keys k3 (fc_lines_by_hash ?p) (fc_lines_by_hash ?q) (fc_used_lines_by_hash ?q) = (p3, q3, u3)"
        "reuse_keys k4 (fc_wrapped_lines_by_hash ?p) (fc_wrapped_lines_by_hash ?q) (fc_used_wrapped_lines_by_hash ?q) = (p4, q4, u4)"
      by (metis prod_cases3)
    have c': "c' = d\<lparr>lc_previous_frame := ?p\<lparr>fc_lines := p1, fc_wrapped_lines := p2, fc_lines_by_hash := p3, fc_wrapped_lines_by_hash := p4\<rparr>,
        lc_current_frame := \<lparr>fc_lines = q1, fc_wrapped_lines = q2, fc_used_lines = u1, fc_used_wrapped_lines = u2, fc_lines_by_hash = q3,
          fc_wrapped_lines_by_hash = q4, fc_used_lines_by_hash = u3, fc_used_wrapped_lines_by_hash = u4\<rparr>\<rparr>"
      using assms(2) True c(3) k r by (simp add: reuse_layouts_def Let_def d_def)
    note inv = c(1) [unfolded cache_inv_def Let_def c(2)]
    note p = pair_ok_reuse [OF inv [THEN conjunct1] slice_opt_set [OF k(1)] r(1)]
      pair_ok_reuse [OF inv [THEN conjunct2, THEN conjunct1] slice_opt_set [OF k(2)] r(2)]
      pair_ok_reuse [OF inv [THEN conjunct2, THEN conjunct2, THEN conjunct1] slice_opt_set [OF k(3)] r(3)]
      pair_ok_reuse [OF inv [THEN conjunct2, THEN conjunct2, THEN conjunct2] slice_opt_set [OF k(4)] r(4)]
    have "cache_inv platform limit text_of c'" using p c(2) by (simp add: cache_inv_def c')
    then show ?thesis using p c(2,3) k by (simp add: c')
  qed
  show "cache_inv platform limit text_of c'" "lc_font_generation c' = lc_font_generation c" "lc_cached_font_generation c' = lc_font_generation c"
    using all by auto
  show "li_font_generation start = lc_font_generation c \<Longrightarrow> li_font_generation stop = lc_font_generation c \<Longrightarrow>
      slice_opt (fc_used_lines ?p) (li_lines_index start, li_lines_index stop) = Some keys \<Longrightarrow>
      set keys \<subseteq> dom (fc_lines (lc_current_frame c'))" for keys
    using all by blast
  show "li_font_generation start = lc_font_generation c \<Longrightarrow> li_font_generation stop = lc_font_generation c \<Longrightarrow>
      slice_opt (fc_used_wrapped_lines ?p) (li_wrapped_lines_index start, li_wrapped_lines_index stop) = Some keys \<Longrightarrow>
      set keys \<subseteq> dom (fc_wrapped_lines (lc_current_frame c'))" for keys
    using all by blast
qed

lemma truncate_inv: "cache_inv platform limit text_of c \<Longrightarrow> cache_inv platform limit text_of (truncate_layouts c index)"
  using clear_inv [of platform limit text_of c] by (simp add: truncate_layouts_def Let_def cache_inv_def pair_ok_truncate)

lemma finish_inv: "cache_inv platform limit text_of c \<Longrightarrow> cache_inv platform limit text_of (cache_finish_frame c)"
  using clear_inv(1) [of platform limit text_of c] by (auto simp: cache_finish_frame_def cache_inv_def frame_empty_def Let_def intro: pair_ok_finish)

lemma cache_reachable_inv: "cache_reachable platform limit text_of c \<Longrightarrow> cache_inv platform limit text_of c"
proof (induction rule: cache_reachable.induct)
  case (created gen)
  then show ?case by (simp add: cache_inv_def cache_new_def frame_empty_def)
next
  case (fonts c)
  then show ?case by (simp add: cache_inv_def fonts_added_def)
next
  case (indexed c)
  then show ?case using clear_inv(1) by (simp add: cache_layout_index_def Let_def)
qed (blast intro: reuse_layouts_ok(1) truncate_inv finish_inv cache_line_ok(2) cache_wrapped_ok(2) cache_hashed_ok(2,4))+

section \<open>Properties\<close>

text \<open>
  Claim C11. The cache is transparent. After any sequence of its operations and of changes of the fonts, every layout it returns is the one that the shaper gives for the
  fonts of the moment, no matter whether it comes from this frame, the last one or the shaper; wrapped lines and lines looked up by a hash too. The caller keeps the contract:
  one text for a hash and a length, one limit of lines for a key.
\<close>

theorem layout_cache_is_transparent:
  assumes "cache_reachable platform limit text_of c"
  shows "fst (cache_layout_line platform c s font_size runs force_width) = shape_line platform (lc_font_generation c) s font_size runs force_width \<and>
    map_option fst (cache_layout_wrapped_line platform c s font_size runs wrap_width
        (limit \<lparr>ck_text = s, ck_font_size = font_size, ck_runs = runs, ck_wrap_width = wrap_width, ck_force_width = None\<rparr>)) =
      wrap_line_layout platform (lc_font_generation c) s font_size runs wrap_width
        (limit \<lparr>ck_text = s, ck_font_size = font_size, ck_runs = runs, ck_wrap_width = wrap_width, ck_force_width = None\<rparr>) \<and>
    fst (layout_line_by_hash platform c h n font_size runs force_width (text_of h n)) =
      shape_line platform (lc_font_generation c) (text_of h n) font_size runs force_width \<and>
    fst (try_layout_line_by_hash c h n font_size runs force_width) \<in>
      {None, Some (shape_line platform (lc_font_generation c) (text_of h n) font_size runs force_width)}"
  using cache_reachable_inv [OF assms] by (intro conjI cache_line_ok(1) cache_wrapped_ok(1) [OF _ refl] cache_hashed_ok(1,3))

text \<open>A shaper for the witnesses: every character is one wide.\<close>

definition unit_shaper :: "rat shaper" where
  "unit_shaper gen s font_size runs = sample_layout (str_len s) 0"

theorem layout_cache_is_transparent_witness:
  "fst (cache_layout_line unit_shaper (snd (cache_layout_line unit_shaper (cache_new 0) (ascii_text ''ab'') 1 [] None)) (ascii_text ''ab'') 1 [] None) =
     sample_layout 2 0"
proof -
  have "cache_reachable unit_shaper (\<lambda>_. None) (\<lambda>_ _. []) (snd (cache_layout_line unit_shaper (cache_new 0) (ascii_text ''ab'') 1 [] None))"
    by (intro cache_reachable.line cache_reachable.created)
  from layout_cache_is_transparent [OF this, of "ascii_text ''ab''" 1 "[]" None None 0 0]
  show ?thesis by (simp add: shape_line_def unit_shaper_def ascii_text_def str_len_def len_utf8_def numeral_2_eq_2)
qed

text \<open>
  Claim C27. Layouts that a frame reuses survive it. Every line and wrapped line in a reused range of the previous frame is in the cache of the current frame, and a line is
  returned in the next frame as the shaper gave it, without shaping it again: whatever another shaper would return.
\<close>

theorem reused_layouts_survive:
  assumes "cache_reachable platform limit text_of c" "reuse_layouts c start stop = Some c'"
    "li_font_generation start = lc_font_generation c" "li_font_generation stop = lc_font_generation c"
    "slice_opt (fc_used_lines (lc_previous_frame (clear_if_font_generation_changed c))) (li_lines_index start, li_lines_index stop) = Some keys"
    "slice_opt (fc_used_wrapped_lines (lc_previous_frame (clear_if_font_generation_changed c)))
      (li_wrapped_lines_index start, li_wrapped_lines_index stop) = Some wrapped_keys"
  shows "set keys \<subseteq> dom (fc_lines (lc_current_frame c')) \<and> set wrapped_keys \<subseteq> dom (fc_wrapped_lines (lc_current_frame c')) \<and>
    (\<forall>k \<in> set keys. fst (cache_layout_line other (cache_finish_frame c') (ck_text k) (ck_font_size k) (ck_runs k) (ck_force_width k)) =
      shape_line platform (lc_font_generation c) (ck_text k) (ck_font_size k) (ck_runs k) (ck_force_width k))"
proof -
  note inv = cache_reachable_inv [OF assms(1)]
  note c' = reuse_layouts_ok [OF inv assms(2)]
  have keys: "set keys \<subseteq> dom (fc_lines (lc_current_frame c'))" by (rule c'(4) [OF assms(3-5)])
  have same: "clear_if_font_generation_changed c' = c'" using c'(2,3) by (simp add: clear_if_font_generation_changed_def)
  have "fst (cache_layout_line other (cache_finish_frame c') (ck_text k) (ck_font_size k) (ck_runs k) (ck_force_width k)) =
      shape_line platform (lc_font_generation c) (ck_text k) (ck_font_size k) (ck_runs k) (ck_force_width k)" if k: "k \<in> set keys" for k
  proof -
    obtain l where l: "fc_lines (lc_current_frame c') k = Some l" using keys k by blast
    then have good: "line_good platform (lc_font_generation c) k l"
      using c'(1,3) pair_ok_good by (fastforce simp: cache_inv_def Let_def)
    let ?f = "cache_finish_frame c'"
    have f: "clear_if_font_generation_changed ?f = ?f" "fc_lines (lc_previous_frame ?f) k = Some l" "fc_lines (lc_current_frame ?f) k = None"
      using l c'(2,3) by (simp_all add: cache_finish_frame_def same frame_empty_def Let_def clear_if_font_generation_changed_def)
    have key: "\<lparr>ck_text = ck_text k, ck_font_size = ck_font_size k, ck_runs = ck_runs k, ck_wrap_width = None, ck_force_width = ck_force_width k\<rparr> = k"
      using good by (simp add: line_good_def)
    show ?thesis using good unfolding cache_layout_line_def key f(1) Let_def by (simp add: f(2,3) line_good_def)
  qed
  then show ?thesis using keys c'(5) [OF assms(3,4,6)] by blast
qed

theorem reused_layouts_survive_witness:
  "\<exists>c'. reuse_layouts (cache_finish_frame (snd (cache_layout_line unit_shaper (cache_new 0) (ascii_text ''ab'') 1 [] None)))
       \<lparr>li_font_generation = 0, li_lines_index = 0, li_wrapped_lines_index = 0, li_lines_by_hash_index = 0, li_wrapped_lines_by_hash_index = 0\<rparr>
       \<lparr>li_font_generation = 0, li_lines_index = 1, li_wrapped_lines_index = 0, li_lines_by_hash_index = 0, li_wrapped_lines_by_hash_index = 0\<rparr> = Some c' \<and>
     fst (cache_layout_line (\<lambda>_ _ _ _. sample_layout 0 0) (cache_finish_frame c') (ascii_text ''ab'') 1 [] None) =
       shape_line unit_shaper 0 (ascii_text ''ab'') 1 [] None"
proof -
  let ?c = "cache_finish_frame (snd (cache_layout_line unit_shaper (cache_new 0) (ascii_text ''ab'') 1 [] None))"
  let ?i = "\<lparr>li_font_generation = 0, li_lines_index = 0, li_wrapped_lines_index = 0, li_lines_by_hash_index = 0, li_wrapped_lines_by_hash_index = 0\<rparr>"
  let ?j = "\<lparr>li_font_generation = 0, li_lines_index = 1, li_wrapped_lines_index = 0, li_lines_by_hash_index = 0, li_wrapped_lines_by_hash_index = 0\<rparr>"
  let ?k = "\<lparr>ck_text = ascii_text ''ab'', ck_font_size = 1, ck_runs = [], ck_wrap_width = None, ck_force_width = None\<rparr>"
  have reach: "cache_reachable unit_shaper (\<lambda>_. None) (\<lambda>_ _. []) ?c"
    by (intro cache_reachable.finished cache_reachable.line cache_reachable.created)
  have gen: "lc_font_generation ?c = 0" by code_simp
  have keys: "slice_opt (fc_used_lines (lc_previous_frame (clear_if_font_generation_changed ?c))) (li_lines_index ?i, li_lines_index ?j) = Some [?k]"
    by code_simp
  have none: "slice_opt (fc_used_wrapped_lines (lc_previous_frame (clear_if_font_generation_changed ?c)))
      (li_wrapped_lines_index ?i, li_wrapped_lines_index ?j) = Some []"
    by code_simp
  have "\<not> Option.is_none (reuse_layouts ?c ?i ?j)" by code_simp
  then obtain c' where c': "reuse_layouts ?c ?i ?j = Some c'" by (auto simp: Option.is_none_def)
  from reused_layouts_survive [OF reach c' _ _ keys none, of "\<lambda>_ _ _ _. sample_layout 0 0"] c' gen show ?thesis by auto
qed

text \<open>
  Without the contract on the limit the cache is not transparent, because the limit of lines is not part of the key: a text laid out again in the same frame
  with any other limit comes back with the boundaries of the first call.
\<close>

lemma limit_is_not_in_the_key:
  assumes "cache_reachable platform limit text_of c" "cache_layout_wrapped_line platform c s font_size runs wrap_width m = Some (w, c')"
  shows "cache_layout_wrapped_line platform c' s font_size runs wrap_width n = Some (w, c')"
proof -
  let ?c = "clear_if_font_generation_changed c" and ?d = "snd (cache_layout_line platform (clear_if_font_generation_changed c) s font_size runs None)"
  define key where key: "key = \<lparr>ck_text = s, ck_font_size = font_size, ck_runs = runs, ck_wrap_width = wrap_width, ck_force_width = None\<rparr>"
  note inv = cache_reachable_inv [OF assms(1)]
  note c = clear_inv [OF inv] and run = cache_wrapped_run [OF inv key, where max_lines = m] and d = cache_line_ok [OF clear_inv(1) [OF inv], of s font_size runs None]
  have gen: "lc_cached_font_generation ?d = lc_font_generation ?d" using clear_inv(2) [OF d(2)] d(3) by simp
  have "fc_wrapped_lines (lc_current_frame c') key = Some w \<and> lc_cached_font_generation c' = lc_font_generation c'"
  proof (cases "fc_wrapped_lines (lc_current_frame ?c) key")
    case (Some v)
    then show ?thesis using run(1) assms(2) c by auto
  next
    case missing: None
    show ?thesis
    proof (cases "fc_wrapped_lines (lc_previous_frame ?c) key")
      case (Some v)
      then show ?thesis using run(2) [OF missing Some] assms(2) c by auto
    next
      case None
      then obtain v where "wrap_line_layout platform (lc_font_generation c) s font_size runs wrap_width m = Some v" "(v, enter_wrapped ?d key v) = (w, c')"
        using run(3) [OF missing None] assms(2) by (metis (no_types, lifting) map_option_eq_Some)
      then show ?thesis using gen by auto
    qed
  qed
  then show ?thesis unfolding cache_layout_wrapped_line_def key [symmetric] by (simp add: clear_if_font_generation_changed_def Let_def)
qed

lemma limit_matters:
  "map_option (length \<circ> wl_wrap_boundaries) (wrap_line_layout unit_shaper 0 (ascii_text ''aa bb'') 1 [] (Some 3) None) = Some 1"
  "map_option (length \<circ> wl_wrap_boundaries) (wrap_line_layout unit_shaper 0 (ascii_text ''aa bb'') 1 [] (Some 3) (Some 1)) = Some 0"
  by (simp_all add: wrap_line_layout_def shape_line_def unit_shaper_def sample_layout_def compute_wrap_boundaries_def layout_wrap_start_def
      note_glyph_def push_boundary_def is_word_char_def char_at_def slice_from_def first_opt_def wb_less_def ascii_text_def str_len_def len_utf8_def
      point_new_def upt_rec)

end
