(* ===== verification/Spec2Isabelle.thy ===== *)
theory Spec2Isabelle
  imports TreeMap DispatchTree BoundsTree TabStop Subscription Scene EntityMap LineWrapper ListScroll PathOps LogEnabled LayoutCache
begin

text \<open>
  \<^bold>\<open>Pinrail: sum trees, keyboard input, focus, subscriptions, entities, scenes, line wrapping, lists, paths and logging.\<close>

  Pinrail is a user interface framework (the GPUI family) in Rust. Most of its crates talk to a
  platform, a GPU or a font system. This development models the parts that carry the logic of the
  framework itself and that every other part relies on:

  \<^item> \<^verbatim>\<open>crates/sum_tree\<close>: a B+ tree whose nodes cache a summary of the items below them, with
    cursors that move, search and seek in any dimension derived from the summaries, and an ordered
    map and set on top. Lists, texts and the tab order are stored in such trees.
  \<^item> \<^verbatim>\<open>crates/gpui/src/keymap\<close>, \<^verbatim>\<open>keymap.rs\<close>, \<^verbatim>\<open>platform/keystroke.rs\<close>: from the text of a key
    binding to the bindings that an input triggers in a stack of contexts.
  \<^item> \<^verbatim>\<open>crates/gpui/src/key_dispatch.rs\<close>: the tree of dispatch nodes of a frame, and the machine that turns
    keystrokes into bindings, pending input and replayed input, with the keymap as its oracle.
  \<^item> \<^verbatim>\<open>crates/gpui/src/tab_stop.rs\<close>: the order of keyboard focus, kept in a sum tree.
  \<^item> \<^verbatim>\<open>crates/gpui/src/subscription.rs\<close>: callbacks by emitter, safe against re-entrance.
  \<^item> \<^verbatim>\<open>crates/gpui/src/geometry.rs\<close>, \<^verbatim>\<open>bounds_tree.rs\<close>: rectangles, and the R-tree that gives every
    painted rectangle an order above those it overlaps.
  \<^item> \<^verbatim>\<open>crates/gpui/src/scene.rs\<close>: the scene of a frame. It asks the R-tree for the order of every primitive or layer,
    keeps the primitives by kind, replays parts of the last frame, and cuts the sorted primitives into batches for the renderer.
  \<^item> \<^verbatim>\<open>crates/gpui/src/app/entity_map.rs\<close>: the values an application owns, behind counted handles.
  \<^item> \<^verbatim>\<open>crates/gpui/src/text_system/line_wrapper.rs\<close>: where lines of text break, and how texts that do not fit are cut.
  \<^item> \<^verbatim>\<open>crates/gpui/src/text_system/line_layout.rs\<close>: shaped lines, where their glyphs are and where they wrap, and the cache that keeps them
    from one frame to the next.
  \<^item> \<^verbatim>\<open>crates/gpui/src/elements/list.rs\<close>: the state of a scrolling list of items of different heights, kept in a sum tree.
  \<^item> \<^verbatim>\<open>crates/path\<close>: relative paths as normalised texts, and the path styles of Unix and Windows on any host.
  \<^item> \<^verbatim>\<open>crates/zlog\<close>: which log messages are written, from the environment and the settings.

  \<^bold>\<open>Conventions.\<close> A panic (failed assertion, index out of bounds, \<^verbatim>\<open>unwrap\<close> of nothing, full
  \<^verbatim>\<open>ArrayVec\<close>) is \<open>None\<close>, written in the option monad; a \<^verbatim>\<open>Result\<close> is a sum with the error on the
  left. A loop without an evident bound is a \<^theory_text>\<open>partial_function (option)\<close>, so not ending is \<open>None\<close> too;
  there is no fuel anywhere, and every theorem about such a loop concludes \<open>= Some v\<close>: the loop ends and
  does not panic. A trait with associated functions is a record of functions (\<open>item_trait\<close>,
  \<open>dimension\<close>, \<open>seek_aggregate\<close>); what the code requires of an implementation are the laws of a locale.
  A \<^verbatim>\<open>cfg\<close> on the target system is an argument \<open>target_os\<close>. Indices, heights and orders are natural
  numbers: no theorem needs them to wrap, and \<open>later_overlapping_bounds_are_above\<close> bounds the orders by
  the number of insertions; the iterator of batches uses the greatest \<^verbatim>\<open>u32\<close> as a sentinel, and its theorems ask
  for orders below it. Coordinates range over an arbitrary ordered abelian group, or an ordered
  field where the code multiplies or rounds.

  \<^bold>\<open>The theories.\<close>

  \<^item> \<open>Prelude\<close>: orderings, checked indexing, assertions, stable insertion sort by a comparison.
  \<^item> \<open>SumTree\<close>, \<open>SumTreeBuild\<close> (\<^verbatim>\<open>sum_tree.rs\<close>): the tree (\<open>node\<close>, with the constructors
    \<^verbatim>\<open>Internal\<close> and \<^verbatim>\<open>Leaf\<close>), \<open>append_tree\<close> with its three helpers, \<open>push\<close>, \<open>from_iter\<close>, \<open>extend_tree\<close>,
    the parallel construction, updates at both ends. \<open>flatten\<close> is the sequence of a tree, \<open>wf_tree\<close> its
    invariant (capacity, balance, right summaries). Locale \<open>summary_laws\<close>: summaries form a monoid.
    Every operation keeps the invariant, does not panic, and acts on the sequence as its name says.
  \<^item> \<open>SumTreeFind\<close> (\<^verbatim>\<open>sum_tree.rs\<close>): \<open>find_tree\<close>, \<open>find_exact\<close>, \<open>find_with_prev\<close>, equal to a linear
    search in the sequence. Locale \<open>dimension_laws\<close>: a dimension adds up along the summaries.
  \<^item> \<open>Cursor\<close> (\<^verbatim>\<open>cursor.rs\<close>) holds the definitions: the stack of entries, movement, filtered search,
    \<open>seek_internal\<close> with the three aggregates of the source, iterators. \<open>CursorSearch\<close> proves the
    invariant \<open>cursor_at D M t c i\<close> (the cursor stands on item \<open>i\<close> and its position is the sum of the items
    before it), \<open>CursorIter\<close> the movements and the iterators, \<open>CursorSeek\<close> the seeks: they land on the first
    item at whose end the target is not passed and report whether it is a position of the sequence (for targets that compare with
    the positions in order), and \<^verbatim>\<open>slice\<close> and \<^verbatim>\<open>summary\<close> collect exactly what lies
    between. Locale \<open>aggregate_laws\<close>: what a \<^verbatim>\<open>SeekAggregate\<close> has to keep. The stack holds at most
    \<open>STACK_CAPACITY\<close> entries (a 16-slot \<^verbatim>\<open>ArrayVec\<close>), so the theorems assume \<open>stack_fits\<close>, that the tree is
    less high than that.
    \<open>FilterCursor\<close>: the filtered cursor enumerates the items a filter keeps; tuples of dimensions.
  \<^item> \<open>KeyedTree\<close> (\<^verbatim>\<open>sum_tree.rs\<close>): \<open>insert_or_replace\<close>, \<open>remove_key\<close>, \<open>edit_tree\<close>, \<open>get_item\<close>. Locale
    \<open>keyed_laws\<close>: the key of the last item is a dimension.
  \<^item> \<open>TreeMap\<close> (\<^verbatim>\<open>tree_map.rs\<close>): the map and the set; locale \<open>map_impl\<close> is the contract of a finite map
    and its interpretation shows that the map over the tree implements it.
  \<^item> \<open>KeyContext\<close> (\<^verbatim>\<open>keymap/context.rs\<close>): contexts and predicates, their parsers, printers, evaluation
    and the superset test; the printed form of a predicate is parsed back when it is \<open>canonical\<close>, as every predicate read from
    text without parentheses is. \<open>Keystroke\<close> (\<^verbatim>\<open>platform/keystroke.rs\<close>): keystrokes and modifiers.
    \<open>Keymap\<close> (\<^verbatim>\<open>keymap.rs\<close>, \<^verbatim>\<open>keymap/binding.rs\<close>, \<^verbatim>\<open>action.rs\<close>): bindings and the keymap; the three loops of
    \<^verbatim>\<open>bindings_for_input\<close> against a declarative reading of precedence, and an invariant of the indices on
    every reachable keymap. The keyboard mapper of the platform and the conversion to upper case are
    parameters.
  \<^item> \<open>KeyDispatch\<close> (\<^verbatim>\<open>key_dispatch.rs\<close>): the dispatch tree and all its operations; the replayed input against a
    specification that cuts the input into segments. \<open>DispatchTree\<close>: the invariant of every tree a frame
    can build, the paths, no keystroke is lost, reused subtrees are copies. The step relation
    \<open>tree_reachable\<close> has the conditions of its use: a node gets a context, a focus handle and a view
    once, and reused ranges are well nested.
  \<^item> \<open>TabStop\<close> (\<^verbatim>\<open>tab_stop.rs\<close>): \<open>tab_insert\<close>, groups, \<open>tab_next\<close>, \<open>tab_prev\<close>, \<open>replay\<close>. It interprets
    \<open>keyed_laws\<close> and \<open>two_dimensions\<close> on the summaries of tab stops, so that its lemmas are those of the tree;
    the order is the history of registrations sorted by path, and moves are cyclic.
  \<^item> \<open>Subscription\<close> (\<^verbatim>\<open>subscription.rs\<close>): \<open>set_insert_subscriber\<close>, \<open>set_remove_emitter\<close>, \<open>set_retain\<close> and the
    handles. A callback is an arbitrary change of the state; \<open>sub_run\<close> is the relation of all executions,
    nested passes included, with \<open>sub_inv\<close> as its invariant and \<open>evolves\<close> as what one run may do to another.
  \<^item> \<open>Geometry\<close> (\<^verbatim>\<open>geometry.rs\<close>): points, sizes, bounds, edges, anchors. \<open>BoundsTree\<close>
    (\<^verbatim>\<open>bounds_tree.rs\<close>): the R-tree in its array of nodes; locale \<open>order_assigner\<close> is its contract, and the
    tree refines the list of all bounds with their orders.
  \<^item> \<open>Primitives\<close> (\<^verbatim>\<open>scene.rs\<close>, with the data it uses of \<^verbatim>\<open>color.rs\<close>, \<^verbatim>\<open>platform.rs\<close> and \<^verbatim>\<open>window.rs\<close>): what can be painted,
    affine transformations, and paths, whose bounds cover their vertices. \<open>Scene\<close> (\<^verbatim>\<open>scene.rs\<close>): the scene and its
    batches. \<open>scene_built\<close> is the relation of all ways to paint a scene, \<open>scene_inv\<close> its invariant, which
    rests on the contract \<open>order_assigner\<close>; a primitive with something to see is recorded, the batches draw every recorded one once,
    ordered by order and kind, and of two primitives that overlap the later one is drawn later.
  \<^item> \<open>EntityMap\<close> (\<^verbatim>\<open>app/entity_map.rs\<close>): \<open>reserve\<close>, \<open>em_insert\<close>, \<open>em_lease\<close>, \<open>em_read\<close>, handles and weak handles over a heap of
    reference counts. \<open>em_step\<close> is the step relation of a program that uses them as Rust's ownership allows: a handle is
    cloned, dropped, downgraded by who has it. The counts are the numbers of handles, a value
    lives as long as a handle does, and it has the type of its handles.
  \<^item> \<open>LineWrapper\<close> (\<^verbatim>\<open>text_system/line_wrapper.rs\<close>): \<open>wrap_line\<close>, \<open>truncate_line\<close>, \<open>truncate_wrapped_line\<close> with the runs of text. The
    width of a character is a parameter; locale \<open>char_widths\<close> is the contract of a measuring cache, interpreted
    on the one of the wrapper.
  \<^item> \<open>LineLayout\<close> (\<^verbatim>\<open>text_system/line_layout.rs\<close>): \<open>x_for_index\<close>, \<open>index_for_x\<close>, \<open>layout_split_at\<close>, \<open>compute_wrap_boundaries\<close> and the positions in wrapped lines.
    \<open>LayoutCache\<close>: the cache of two frames, with the shaper of the platform as a parameter; \<open>cache_reachable\<close> is the relation of all uses of it that keep its contract, and
    \<open>pair_ok\<close> the invariant of each of its maps: the cache never answers with a layout of other fonts, and what a frame reuses survives it.
  \<^item> \<open>ListState\<close>, \<open>ListScroll\<close> (\<^verbatim>\<open>elements/list.rs\<close>): \<open>splice_focusable\<close>, \<open>remeasure\<close>, \<open>scroll_by\<close>, \<open>scroll_to_reveal_item\<close>, the scrollbar. They
    interpret \<open>dimension_laws\<close> on counts, heights and their tuples, so that every seek is one of the tree. \<open>pixel_top\<close> is the distance of
    a scroll position from the top; the properties say how each operation moves it, revealing an item
    for scroll positions that lie within their item (\<open>within_item\<close>).
  \<^item> \<open>StrOps\<close>: the operations on strings of the standard library that the next theories use, the contract of a double-ended
    iterator (locale \<open>double_ended\<close>) and of a comparison (locale \<open>total_cmp\<close>).
  \<^item> \<open>RelPath\<close>, \<open>PathOps\<close> (\<^verbatim>\<open>path.rs\<close>, \<^verbatim>\<open>rel_path.rs\<close>): \<open>rel_new\<close> against the resolution of dots in a list of components (\<open>resolve_dots\<close>),
    prefixes, joins, the iterators of components and of ancestors as interpretations of \<open>double_ended\<close>, normalisation, stripping a base. A path
    that is not unicode is \<open>None\<close>.
  \<^item> \<open>LogFilter\<close> (\<^verbatim>\<open>env_config.rs\<close>, \<^verbatim>\<open>filter.rs\<close>, \<^verbatim>\<open>zlog.rs\<close>) holds the definitions. \<open>ScopeMap\<close> shows that the loop over the queue ends with
    the tree of scopes laid out in one array: \<open>map_inv\<close> says which path every entry stands for and what is still queued. \<open>LogEnabled\<close>: the level found is
    that of the most specific configured scope, the fast path changes nothing, scoped loggers inherit, directives are read as written.

  \<^bold>\<open>Not modelled.\<close> The rounding of \<^verbatim>\<open>f32\<close> coordinates; the layout of lists, which measures elements;
  \<^verbatim>\<open>available_actions\<close> of the dispatch tree, which sorts by type identifiers of the compiler; the
  destructors of callbacks; what paths do through \<^verbatim>\<open>std::path\<close>; the sink of the log; the leak detector of tests; the effect queue of the application;
  windows, elements, layout, the shaping of text and the
  platform back ends, which consist of calls into third-party layout, font and system libraries;
  schedulers, which rest on futures and threads; macros, which run in the compiler.
\<close>

end
